(* ===== verification/CPrelude.thy ===== *)
theory CPrelude
  imports Main "HOL-Library.Word" "HOL-Library.Monad_Syntax"
begin

text \<open>
  Shared vocabulary of the development: the C integer types of \<open>port.h\<close> as words, reads
  and writes of C arrays whose failure (an access outside the object) is the value None,
  and the byte and list lemmas every component uses.
\<close>

unbundle bit_operations_syntax

type_synonym UCHAR = "8 word"
type_synonym USHORT = "16 word"
type_synonym ULONG = "32 word"

named_theorems mem_simps \<open>reads and writes of arrays inside their bounds\<close>
named_theorems byte_simps \<open>splitting and joining 16-bit words\<close>

section \<open>Arrays with explicit bounds\<close>

definition rd :: "'a list \<Rightarrow> nat \<Rightarrow> 'a option" where
  "rd m i = (if i < length m then Some (m ! i) else None)"

definition wr :: "'a list \<Rightarrow> nat \<Rightarrow> 'a \<Rightarrow> 'a list option" where
  "wr m i v = (if i < length m then Some (m[i := v]) else None)"

fun wrs :: "'a list \<Rightarrow> nat \<Rightarrow> 'a list \<Rightarrow> 'a list option" where
  "wrs m i [] = Some m"
| "wrs m i (v # vs) = do { m' \<leftarrow> wr m i v; wrs m' (Suc i) vs }"

lemma rd_in [mem_simps]: "i < length m \<Longrightarrow> rd m i = Some (m ! i)"
  by (simp add: rd_def)

lemma rd_out [mem_simps]: "length m \<le> i \<Longrightarrow> rd m i = None"
  by (simp add: rd_def)

lemma rd_SomeD: "rd m i = Some v \<Longrightarrow> i < length m \<and> v = m ! i"
  by (simp add: rd_def split: if_splits)

lemma wr_in [mem_simps]: "i < length m \<Longrightarrow> wr m i v = Some (m[i := v])"
  by (simp add: wr_def)

lemma wr_out [mem_simps]: "length m \<le> i \<Longrightarrow> wr m i v = None"
  by (simp add: wr_def)

lemma wr_SomeD: "wr m i v = Some m' \<Longrightarrow> i < length m \<and> m' = m[i := v]"
  by (simp add: wr_def split: if_splits)

text \<open>Replacing a run of consecutive cells.\<close>

definition overwrite :: "'a list \<Rightarrow> nat \<Rightarrow> 'a list \<Rightarrow> 'a list" where
  "overwrite m i vs = take i m @ vs @ drop (i + length vs) m"

lemma overwrite_Nil [simp]: "overwrite m i [] = m"
  by (simp add: overwrite_def)

lemma length_overwrite [simp]: "i + length vs \<le> length m \<Longrightarrow> length (overwrite m i vs) = length m"
  by (simp add: overwrite_def)

lemma overwrite_Cons:
  "i < length m \<Longrightarrow> overwrite (m[i := v]) (Suc i) vs = overwrite m i (v # vs)"
  by (simp add: overwrite_def take_Suc_conv_app_nth)

lemma wrs_in [mem_simps]:
  "i + length vs \<le> length m \<Longrightarrow> wrs m i vs = Some (overwrite m i vs)"
  by (induction vs arbitrary: m i) (simp_all add: mem_simps overwrite_Cons)

lemma wrs_out: "vs \<noteq> [] \<Longrightarrow> length m < i + length vs \<Longrightarrow> wrs m i vs = None"
proof (induction vs arbitrary: m i)
  case (Cons v vs)
  show ?case
  proof (cases "i < length m")
    case True
    then have "vs \<noteq> []" using Cons.prems by auto
    with True Cons.prems show ?thesis by (simp add: wr_in Cons.IH)
  qed (simp add: wr_out)
qed simp

lemma wrs_SomeD:
  "wrs m i vs = Some m' \<Longrightarrow> vs \<noteq> [] \<Longrightarrow> i + length vs \<le> length m \<and> m' = overwrite m i vs"
  by (cases "i + length vs \<le> length m") (auto simp: wrs_in wrs_out)

lemma nth_overwrite:
  "i + length vs \<le> length m \<Longrightarrow> j < length m \<Longrightarrow>
   overwrite m i vs ! j = (if i \<le> j \<and> j < i + length vs then vs ! (j - i) else m ! j)"
  by (auto simp: overwrite_def nth_append min_def)

lemma take_drop_overwrite [simp]:
  "i + length vs \<le> length m \<Longrightarrow> take (length vs) (drop i (overwrite m i vs)) = vs"
  by (simp add: overwrite_def)

section \<open>Sequences of fallible steps\<close>

text \<open>A series of steps each of which may fail.\<close>

fun fold_opt :: "('b \<Rightarrow> 's \<Rightarrow> 's option) \<Rightarrow> 'b list \<Rightarrow> 's \<Rightarrow> 's option" where
  "fold_opt f [] s = Some s"
| "fold_opt f (b # bs) s = do { s \<leftarrow> f b s; fold_opt f bs s }"

lemma fold_opt_append: "fold_opt f (xs @ ys) s = do { s \<leftarrow> fold_opt f xs s; fold_opt f ys s }"
  by (induction xs arbitrary: s) (auto split: option.splits bind_splits)

fun iter_opt :: "nat \<Rightarrow> ('s \<Rightarrow> 's option) \<Rightarrow> 's \<Rightarrow> 's option" where
  "iter_opt 0 f s = Some s"
| "iter_opt (Suc n) f s = do { s \<leftarrow> f s; iter_opt n f s }"

lemma iter_opt_add: "iter_opt (m + n) f s = do { s \<leftarrow> iter_opt m f s; iter_opt n f s }"
  by (induction m arbitrary: s) (auto split: bind_splits)

section \<open>Bytes and 16-bit words\<close>

definition be16 :: "UCHAR \<Rightarrow> UCHAR \<Rightarrow> USHORT" where
  "be16 h l = push_bit 8 (ucast h) OR ucast l"

definition hi8 :: "USHORT \<Rightarrow> UCHAR" where
  "hi8 w = ucast (drop_bit 8 w)"

definition lo8 :: "USHORT \<Rightarrow> UCHAR" where
  "lo8 w = ucast (w AND 0xFF)"

lemma bit_UCHAR_less: "bit (b :: UCHAR) n \<Longrightarrow> n < 8"
  by (drule bit_imp_le_length) simp

lemma bit_USHORT_less: "bit (w :: USHORT) n \<Longrightarrow> n < 16"
  by (drule bit_imp_le_length) simp

lemma bit_be16: "bit (be16 h l) n \<longleftrightarrow> (if n < 8 then bit l n else n < 16 \<and> bit h (n - 8))"
  by (auto simp: be16_def bit_simps dest: bit_UCHAR_less)

lemma bit_hi8: "bit (hi8 w) n \<longleftrightarrow> n < 8 \<and> bit w (n + 8)"
  by (auto simp: hi8_def bit_simps add.commute)

lemma mask_FF: "(0xFF :: 'a::len word) = mask 8"
  by (simp add: mask_eq_exp_minus_1)

lemma bit_lo8: "bit (lo8 w) n \<longleftrightarrow> n < 8 \<and> bit w n"
  unfolding lo8_def mask_FF by (auto simp: bit_simps)

lemma hi8_be16 [byte_simps, simp]: "hi8 (be16 h l) = h"
  by (rule bit_word_eqI) (auto simp: bit_hi8 bit_be16)

lemma lo8_be16 [byte_simps, simp]: "lo8 (be16 h l) = l"
  by (rule bit_word_eqI) (auto simp: bit_lo8 bit_be16)

lemma be16_hi8_lo8 [byte_simps, simp]: "be16 (hi8 w) (lo8 w) = w"
  by (rule bit_word_eqI) (auto simp: bit_lo8 bit_be16 bit_hi8)

lemma be16_inject [simp]: "be16 h l = be16 h' l' \<longleftrightarrow> h = h' \<and> l = l'"
  by (metis hi8_be16 lo8_be16)

lemma unat_UCHAR_less: "unat (b :: UCHAR) < 256"
  using unsigned_less [of b] by simp

lemma unat_USHORT_less: "unat (w :: USHORT) < 65536"
  using unsigned_less [of w] by simp

lemma unat_ucast_UCHAR [simp]: "unat (ucast (b :: UCHAR) :: USHORT) = unat b"
proof -
  have "unat b < 2 ^ 16" using unat_UCHAR_less [of b] by simp
  then show ?thesis
    by (simp add: unsigned_ucast_eq take_bit_nat_eq_self)
qed

lemma unat_be16: "unat (be16 h l) = 256 * unat h + unat l"
proof -
  have "be16 h l = push_bit 8 (ucast h) + ucast l"
    unfolding be16_def
    by (rule disjunctive_add [symmetric]) (auto simp: bit_simps dest: bit_UCHAR_less)
  then show ?thesis
    using unat_UCHAR_less [of h] unat_UCHAR_less [of l]
    by (simp add: push_bit_eq_mult unat_word_ariths)
qed

section \<open>Naturals as 32-bit words\<close>

abbreviation w32 :: "nat \<Rightarrow> 32 word" where
  "w32 n \<equiv> of_nat n"

named_theorems w32_simps \<open>words of numbers below 2^32 compared and read back\<close>

lemma unat_w32 [w32_simps]: "n < 2 ^ 32 \<Longrightarrow> unat (w32 n) = n"
  by (simp add: unsigned_of_nat take_bit_nat_eq_self)

lemma w32_eq [w32_simps]: "m < 2 ^ 32 \<Longrightarrow> n < 2 ^ 32 \<Longrightarrow> w32 m = w32 n \<longleftrightarrow> m = n"
  by (metis unat_w32)

lemma w32_less [w32_simps]: "m < 2 ^ 32 \<Longrightarrow> n < 2 ^ 32 \<Longrightarrow> w32 m < w32 n \<longleftrightarrow> m < n"
  by (simp add: word_less_nat_alt unat_w32)

lemma w32_le [w32_simps]: "m < 2 ^ 32 \<Longrightarrow> n < 2 ^ 32 \<Longrightarrow> w32 m \<le> w32 n \<longleftrightarrow> m \<le> n"
  by (simp add: word_le_nat_alt unat_w32)

lemma unat_less_32: "unat (w :: 32 word) < 2 ^ 32"
  using unsigned_less[of w] by simp

lemma w32_unat [simp]: "w32 (unat w) = w"
  by simp

lemma w32_add: "w32 m + w32 n = w32 (m + n)"
  by simp

lemma w32_diff: "n \<le> m \<Longrightarrow> w32 m - w32 n = w32 (m - n)"
  by (simp add: of_nat_diff)

end
