(* ===== verification/MBTypes.thy ===== *)
theory MBTypes
  imports CPrelude
begin

text \<open>
  The enumerations of \<open>include/mb.h\<close>, \<open>include/mbproto.h\<close> and \<open>include/mbport.h\<close>, the
  frame constants, and \<open>prveMBError2Exception\<close> of \<open>functions/mbutils.c\<close>.
\<close>

section \<open>Enumerations\<close>

datatype eMBMode = MB_RTU | MB_ASCII | MB_TCP

datatype eMBRegisterMode = MB_REG_READ | MB_REG_WRITE

datatype eMBErrorCode =
    MB_ENOERR | MB_ENOREG | MB_EINVAL | MB_EPORTERR | MB_ENORES | MB_EIO | MB_EILLSTATE
  | MB_ETIMEDOUT

datatype eMBEventType = EV_READY | EV_FRAME_RECEIVED | EV_EXECUTE | EV_FRAME_SENT

datatype eMBParity = MB_PAR_NONE | MB_PAR_ODD | MB_PAR_EVEN

datatype eMBException =
    MB_EX_NONE | MB_EX_ILLEGAL_FUNCTION | MB_EX_ILLEGAL_DATA_ADDRESS | MB_EX_ILLEGAL_DATA_VALUE
  | MB_EX_SLAVE_DEVICE_FAILURE | MB_EX_ACKNOWLEDGE | MB_EX_SLAVE_BUSY
  | MB_EX_MEMORY_PARITY_ERROR | MB_EX_GATEWAY_PATH_FAILED | MB_EX_GATEWAY_TGT_FAILED

fun exception_code :: "eMBException \<Rightarrow> UCHAR" where
  "exception_code MB_EX_NONE = 0x00"
| "exception_code MB_EX_ILLEGAL_FUNCTION = 0x01"
| "exception_code MB_EX_ILLEGAL_DATA_ADDRESS = 0x02"
| "exception_code MB_EX_ILLEGAL_DATA_VALUE = 0x03"
| "exception_code MB_EX_SLAVE_DEVICE_FAILURE = 0x04"
| "exception_code MB_EX_ACKNOWLEDGE = 0x05"
| "exception_code MB_EX_SLAVE_BUSY = 0x06"
| "exception_code MB_EX_MEMORY_PARITY_ERROR = 0x08"
| "exception_code MB_EX_GATEWAY_PATH_FAILED = 0x0A"
| "exception_code MB_EX_GATEWAY_TGT_FAILED = 0x0B"

section \<open>Constants of the protocol\<close>

abbreviation (input) MB_ADDRESS_BROADCAST :: UCHAR where "MB_ADDRESS_BROADCAST \<equiv> 0"
abbreviation (input) MB_ADDRESS_MIN :: UCHAR where "MB_ADDRESS_MIN \<equiv> 1"
abbreviation (input) MB_ADDRESS_MAX :: UCHAR where "MB_ADDRESS_MAX \<equiv> 247"

abbreviation (input) MB_PDU_SIZE_MIN :: nat where "MB_PDU_SIZE_MIN \<equiv> 1"
abbreviation (input) MB_PDU_SIZE_MAX :: nat where "MB_PDU_SIZE_MAX \<equiv> 253"
abbreviation (input) MB_PDU_FUNC_OFF :: nat where "MB_PDU_FUNC_OFF \<equiv> 0"
abbreviation (input) MB_PDU_DATA_OFF :: nat where "MB_PDU_DATA_OFF \<equiv> 1"
abbreviation (input) MB_FUNC_ERROR :: UCHAR where "MB_FUNC_ERROR \<equiv> 128"

abbreviation (input) MB_FUNC_READ_COILS :: UCHAR where "MB_FUNC_READ_COILS \<equiv> 1"
abbreviation (input) MB_FUNC_READ_DISCRETE_INPUTS :: UCHAR where "MB_FUNC_READ_DISCRETE_INPUTS \<equiv> 2"
abbreviation (input) MB_FUNC_READ_HOLDING_REGISTER :: UCHAR where "MB_FUNC_READ_HOLDING_REGISTER \<equiv> 3"
abbreviation (input) MB_FUNC_READ_INPUT_REGISTER :: UCHAR where "MB_FUNC_READ_INPUT_REGISTER \<equiv> 4"
abbreviation (input) MB_FUNC_WRITE_SINGLE_COIL :: UCHAR where "MB_FUNC_WRITE_SINGLE_COIL \<equiv> 5"
abbreviation (input) MB_FUNC_WRITE_REGISTER :: UCHAR where "MB_FUNC_WRITE_REGISTER \<equiv> 6"
abbreviation (input) MB_FUNC_WRITE_MULTIPLE_COILS :: UCHAR where "MB_FUNC_WRITE_MULTIPLE_COILS \<equiv> 15"
abbreviation (input) MB_FUNC_WRITE_MULTIPLE_REGISTERS :: UCHAR where "MB_FUNC_WRITE_MULTIPLE_REGISTERS \<equiv> 16"
abbreviation (input) MB_FUNC_OTHER_REPORT_SLAVEID :: UCHAR where "MB_FUNC_OTHER_REPORT_SLAVEID \<equiv> 17"
abbreviation (input) MB_FUNC_READWRITE_MULTIPLE_REGISTERS :: UCHAR where
  "MB_FUNC_READWRITE_MULTIPLE_REGISTERS \<equiv> 23"

section \<open>Error codes as exceptions\<close>

fun prveMBError2Exception :: "eMBErrorCode \<Rightarrow> eMBException" where
  "prveMBError2Exception MB_ENOERR = MB_EX_NONE"
| "prveMBError2Exception MB_ENOREG = MB_EX_ILLEGAL_DATA_ADDRESS"
| "prveMBError2Exception MB_ETIMEDOUT = MB_EX_SLAVE_BUSY"
| "prveMBError2Exception _ = MB_EX_SLAVE_DEVICE_FAILURE"

lemma prveMBError2Exception_NONE [simp]:
  "prveMBError2Exception e = MB_EX_NONE \<longleftrightarrow> e = MB_ENOERR"
  by (cases e) simp_all

end
