(* ===== verification/MBUtils.thy ===== *)
theory MBUtils
  imports CPrelude
begin

text \<open>
  \<open>functions/mbutils.c\<close>: bit fields of up to eight bits in a byte array
  (\<open>xMBUtilSetBits\<close>, \<open>xMBUtilGetBits\<close>). Both always access the byte behind the first one
  they need, and \<open>xMBUtilSetBits\<close> does not mask the value it is given; the lemmas state
  the effect bit by bit.
\<close>

section \<open>The code\<close>

text \<open>
  \<open>( USHORT )( ( 1 << ( USHORT ) ucNBits ) - 1 )\<close>: the shift is an \<open>int\<close> shift, defined in
  C only while 1 shifted left stays representable.
\<close>

definition prvMask :: "UCHAR \<Rightarrow> USHORT option" where
  "prvMask ucNBits =
     (if unat ucNBits < 31
      then Some (ucast (push_bit (unat ucNBits) (1 :: ULONG) - 1)) else None)"

definition xMBUtilSetBits ::
  "UCHAR list \<Rightarrow> USHORT \<Rightarrow> UCHAR \<Rightarrow> UCHAR \<Rightarrow> UCHAR list option" where
  "xMBUtilSetBits ucByteBuf usBitOffset ucNBits ucValue = do {
     let usByteOffset = usBitOffset div 8;
     let usNPreBits = usBitOffset - usByteOffset * 8;
     let usValue = push_bit (unat usNPreBits) (ucast ucValue :: USHORT);
     mask \<leftarrow> prvMask ucNBits;
     let usMask = push_bit (unat (usBitOffset - usByteOffset * 8)) mask;
     b0 \<leftarrow> rd ucByteBuf (unat usByteOffset);
     b1 \<leftarrow> rd ucByteBuf (unat usByteOffset + 1);
     let usWordBuf = be16 b1 b0;
     let usWordBuf = (usWordBuf AND NOT usMask) OR usValue;
     buf \<leftarrow> wr ucByteBuf (unat usByteOffset) (lo8 usWordBuf);
     wr buf (unat usByteOffset + 1) (hi8 usWordBuf)
   }"

definition xMBUtilGetBits :: "UCHAR list \<Rightarrow> USHORT \<Rightarrow> UCHAR \<Rightarrow> UCHAR option" where
  "xMBUtilGetBits ucByteBuf usBitOffset ucNBits = do {
     let usByteOffset = usBitOffset div 8;
     let usNPreBits = usBitOffset - usByteOffset * 8;
     usMask \<leftarrow> prvMask ucNBits;
     b0 \<leftarrow> rd ucByteBuf (unat usByteOffset);
     b1 \<leftarrow> rd ucByteBuf (unat usByteOffset + 1);
     let usWordBuf = be16 b1 b0;
     let usWordBuf = drop_bit (unat usNPreBits) usWordBuf;
     let usWordBuf = usWordBuf AND usMask;
     Some (ucast usWordBuf)
   }"

section \<open>The array as a sequence of bits\<close>

definition bit_at :: "UCHAR list \<Rightarrow> nat \<Rightarrow> bool" where
  "bit_at buf k = bit (buf ! (k div 8)) (k mod 8)"

lemma prvMask_8: "unat n \<le> 8 \<Longrightarrow> prvMask n = Some (mask (unat n))"
proof -
  assume n: "unat n \<le> 8"
  have "push_bit (unat n) (1 :: ULONG) - 1 = mask (unat n)"
    by (simp add: mask_eq_exp_minus_1)
  moreover have "(ucast (mask (unat n) :: ULONG) :: USHORT) = mask (unat n)"
    using n by (intro bit_word_eqI) (auto simp: bit_simps)
  ultimately show ?thesis using n by (simp add: prvMask_def)
qed

lemma unat_div8: "unat ((off :: USHORT) div 8) = unat off div 8"
  by (simp add: unat_div)

lemma pre_bits: "(off :: USHORT) - off div 8 * 8 = off mod 8"
  by (metis minus_div_mult_eq_mod)

lemma unat_mod8: "unat ((off :: USHORT) mod 8) = unat off mod 8"
  by (simp add: unat_mod)

lemma div_mod8:
  assumes "8 * d \<le> k" "k < 8 * d + (8 :: nat)"
  shows "k div 8 = d \<and> k mod 8 = k - 8 * d"
proof -
  obtain r where "k = 8 * d + r" using assms(1) by (auto simp: le_iff_add)
  with assms(2) show ?thesis by simp
qed

lemma bit_at_pair:
  assumes "j < 16"
  shows "bit_at buf (8 * d + j) \<longleftrightarrow> bit (be16 (buf ! (d + 1)) (buf ! d)) j"
proof (cases "j < 8")
  case True
  then show ?thesis using div_mod8 [of d "8 * d + j"] by (simp add: bit_at_def bit_be16)
next
  case False
  then have "(8 * d + j) div 8 = d + 1 \<and> (8 * d + j) mod 8 = j - 8"
    using assms div_mod8 [of "d + 1" "8 * d + j"] by simp
  with False assms show ?thesis by (simp add: bit_at_def bit_be16)
qed

lemma bit_at_other: "k < 8 * d \<or> 8 * d + 16 \<le> k \<Longrightarrow> k div 8 \<noteq> d \<and> k div 8 \<noteq> d + (1 :: nat)"
  by (auto dest: less_mult_imp_div_less simp: mult.commute)

lemma xMBUtilGetBits_in:
  assumes "unat n \<le> 8" "unat off div 8 + 1 < length buf"
  shows "\<exists>v. xMBUtilGetBits buf off n = Some v \<and>
    (\<forall>i. bit v i \<longleftrightarrow> i < unat n \<and> bit_at buf (unat off + i))"
proof -
  obtain d r where dr: "unat off div 8 = d" "unat off mod 8 = r" by simp
  have off: "unat off = 8 * d + r" "r < 8"
    using mult_div_mod_eq [of 8 "unat off"] unfolding dr [symmetric] by simp_all
  let ?w = "be16 (buf ! (d + 1)) (buf ! d)"
  let ?v = "ucast (drop_bit r ?w AND mask (unat n)) :: UCHAR"
  have "xMBUtilGetBits buf off n = Some ?v"
    using assms
    by (simp add: xMBUtilGetBits_def Let_def pre_bits unat_div8 unat_mod8 prvMask_8 mem_simps dr)
  moreover have "bit ?v i \<longleftrightarrow> i < unat n \<and> bit_at buf (unat off + i)" for i
  proof (cases "i < unat n")
    case True
    with assms off have i: "i < 8" "r + i < 16" by simp_all
    have "bit_at buf (unat off + i) = bit ?w (r + i)"
      using bit_at_pair [of "r + i" buf d] i by (simp add: off add.assoc)
    with True i show ?thesis by (simp add: bit_simps)
  qed (simp add: bit_simps)
  ultimately show ?thesis by blast
qed

lemma xMBUtilGetBits_out: "length buf \<le> unat off div 8 + 1 \<Longrightarrow> xMBUtilGetBits buf off n = None"
  by (cases "unat off div 8 < length buf")
     (auto simp: xMBUtilGetBits_def Let_def unat_div8 mem_simps bind_eq_None_conv)

lemma xMBUtilSetBits_out: "length buf \<le> unat off div 8 + 1 \<Longrightarrow> xMBUtilSetBits buf off n v = None"
  by (cases "unat off div 8 < length buf")
     (auto simp: xMBUtilSetBits_def Let_def unat_div8 mem_simps bind_eq_None_conv)

definition set_bit_spec :: "UCHAR list \<Rightarrow> nat \<Rightarrow> nat \<Rightarrow> UCHAR \<Rightarrow> nat \<Rightarrow> bool" where
  "set_bit_spec buf off n v k =
     (if off \<le> k \<and> k < off + n then bit v (k - off)
      else bit_at buf k \<or> off \<le> k \<and> bit v (k - off))"

lemma xMBUtilSetBits_in:
  assumes "unat n \<le> 8" "unat off div 8 + 1 < length buf"
  shows "\<exists>buf'. xMBUtilSetBits buf off n v = Some buf' \<and> length buf' = length buf \<and>
    (\<forall>k. bit_at buf' k \<longleftrightarrow> set_bit_spec buf (unat off) (unat n) v k)"
proof -
  obtain d r where dr: "unat off div 8 = d" "unat off mod 8 = r" by simp
  have off: "unat off = 8 * d + r" "r < 8"
    using mult_div_mod_eq [of 8 "unat off"] unfolding dr [symmetric] by simp_all
  let ?w = "be16 (buf ! (d + 1)) (buf ! d)"
  let ?w' = "(?w AND NOT (push_bit r (mask (unat n)))) OR push_bit r (ucast v :: USHORT)"
  let ?b = "buf[d := lo8 ?w', d + 1 := hi8 ?w']"
  have some: "xMBUtilSetBits buf off n v = Some ?b"
    using assms
    by (simp add: xMBUtilSetBits_def Let_def pre_bits unat_div8 unat_mod8 prvMask_8 mem_simps dr)
  have w': "bit ?w' j \<longleftrightarrow> (if r \<le> j \<and> j < r + unat n then bit v (j - r)
      else bit ?w j \<or> r \<le> j \<and> bit v (j - r))" if "j < 16" for j
    using that assms(1) off(2) by (auto simp: bit_simps)
  have "bit_at ?b k \<longleftrightarrow> set_bit_spec buf (unat off) (unat n) v k" for k
  proof (cases "8 * d \<le> k \<and> k < 8 * d + 16")
    case True
    then obtain j where k: "k = 8 * d + j" and j: "j < 16" by (auto simp: le_iff_add)
    have "bit_at ?b k = bit ?w' j" "bit_at buf k = bit ?w j"
      using assms(2) j by (simp_all add: k bit_at_pair [OF j] dr)
    then show ?thesis
      by (simp only: set_bit_spec_def w' [OF j] k off add.assoc diff_cancel2
          nat_add_left_cancel_le nat_add_left_cancel_less diff_add_inverse diff_cancel)
  next
    case False
    then have "k < 8 * d \<or> 8 * d + 16 \<le> k" by linarith
    then have "k div 8 \<noteq> d \<and> k div 8 \<noteq> d + 1" by (rule bit_at_other)
    then have same: "bit_at ?b k = bit_at buf k" by (simp add: bit_at_def)
    have out: "k < unat off \<or> unat off + 8 \<le> k" using False off by linarith
    then have "\<not> (unat off \<le> k \<and> bit v (k - unat off))"
      by (auto dest: bit_UCHAR_less)
    with out assms(1) show ?thesis
      unfolding same set_bit_spec_def by auto
  qed
  with some show ?thesis by (intro exI [of _ ?b]) simp
qed

text \<open>A byte assembled from eight bits, and the value read as such a byte.\<close>

definition pack_byte :: "(nat \<Rightarrow> bool) \<Rightarrow> UCHAR" where
  "pack_byte f = horner_sum of_bool 2 (map f [0..<8])"

lemma bit_pack_byte: "bit (pack_byte f) i \<longleftrightarrow> i < 8 \<and> f i"
  by (auto simp: pack_byte_def bit_horner_sum_bit_word_iff)

lemma xMBUtilGetBits_pack:
  "unat n \<le> 8 \<Longrightarrow> unat off div 8 + 1 < length buf \<Longrightarrow>
   xMBUtilGetBits buf off n = Some (pack_byte (\<lambda>i. i < unat n \<and> bit_at buf (unat off + i)))"
proof -
  assume n: "unat n \<le> 8" and "unat off div 8 + 1 < length buf"
  then obtain v where v: "xMBUtilGetBits buf off n = Some v"
    and bits: "\<And>i. bit v i \<longleftrightarrow> i < unat n \<and> bit_at buf (unat off + i)"
    using xMBUtilGetBits_in by blast
  have "v = pack_byte (\<lambda>i. i < unat n \<and> bit_at buf (unat off + i))"
    by (rule bit_word_eqI) (simp add: bits bit_pack_byte)
  with v show ?thesis by simp
qed

section \<open>Properties\<close>

text \<open>
  Inside the array, \<open>xMBUtilSetBits\<close> stores the low \<open>ucNBits\<close> bits of the value at the
  bit offset; every other bit keeps its value, except that value bits beyond \<open>ucNBits\<close> are
  OR-ed into the bits that follow the field (the code masks the old word, not the value).
\<close>

theorem xMBUtilSetBits_effect:
  assumes "unat n \<le> 8" and "unat off div 8 + 1 < length buf"
  shows "\<exists>buf'. xMBUtilSetBits buf off n v = Some buf' \<and> length buf' = length buf \<and>
    (\<forall>k. bit_at buf' k \<longleftrightarrow>
      (if unat off \<le> k \<and> k < unat off + unat n then bit v (k - unat off)
       else bit_at buf k \<or> unat off \<le> k \<and> bit v (k - unat off)))"
  using xMBUtilSetBits_in [OF assms, of v] by (simp add: set_bit_spec_def)

theorem xMBUtilSetBits_effect_witness:
  "\<exists>buf'. xMBUtilSetBits [0, 0] 4 1 3 = Some buf' \<and> bit_at buf' 4 \<and> bit_at buf' 5"
proof -
  obtain buf' where "xMBUtilSetBits [0, 0] 4 1 3 = Some buf'"
    and "\<And>k. bit_at buf' k \<longleftrightarrow> (if unat (4 :: USHORT) \<le> k \<and> k < unat (4 :: USHORT) + unat (1 :: UCHAR)
      then bit (3 :: UCHAR) (k - unat (4 :: USHORT))
      else bit_at [0, 0] k \<or> unat (4 :: USHORT) \<le> k \<and> bit (3 :: UCHAR) (k - unat (4 :: USHORT)))"
    using xMBUtilSetBits_effect [of 1 4 "[0, 0]" 3] by auto
  moreover have "bit (3 :: UCHAR) 0" "bit (3 :: UCHAR) 1" by simp_all
  ultimately show ?thesis by (intro exI [of _ buf']) simp
qed

text \<open>
  Reading a field back after writing it gives the low \<open>ucNBits\<close> bits of the value.
\<close>

theorem xMBUtilGetBits_after_SetBits:
  assumes "unat n \<le> 8" and "xMBUtilSetBits buf off n v = Some buf'"
  shows "xMBUtilGetBits buf' off n = Some (v AND mask (unat n))"
proof -
  have "unat off div 8 + 1 < length buf"
    using assms(2) xMBUtilSetBits_out [of buf off n v] by (cases "length buf \<le> unat off div 8 + 1") auto
  with xMBUtilSetBits_in [OF assms(1) this, of v] assms
  have "xMBUtilGetBits buf' off n =
      Some (pack_byte (\<lambda>i. i < unat n \<and> set_bit_spec buf (unat off) (unat n) v (unat off + i)))"
    by (auto simp: xMBUtilGetBits_pack)
  also have "pack_byte (\<lambda>i. i < unat n \<and> set_bit_spec buf (unat off) (unat n) v (unat off + i))
      = v AND mask (unat n)"
    by (rule bit_word_eqI) (auto simp: bit_pack_byte set_bit_spec_def bit_simps dest: bit_UCHAR_less)
  finally show ?thesis .
qed

theorem xMBUtilGetBits_after_SetBits_witness:
  "xMBUtilGetBits [0x50, 0x0A] 4 8 = Some (0xA5 AND mask (unat (8 :: UCHAR)))"
  by (rule xMBUtilGetBits_after_SetBits [of 8 "[0, 0]"])
     (simp_all add: xMBUtilSetBits_def prvMask_def be16_def lo8_def hi8_def rd_def wr_def)

text \<open>
  Both functions touch the byte behind the one that holds the first bit: a field that
  starts in the last byte of the array is an access outside the array, whatever its length.
  The coil and discrete arrays of \<open>modbus.c\<close> have two bytes, so offsets 8 to 15 are such
  accesses.
\<close>

theorem xMBUtil_bounds:
  assumes "unat n \<le> 8"
  shows "(xMBUtilGetBits buf off n \<noteq> None \<longleftrightarrow> unat off div 8 + 1 < length buf) \<and>
         (xMBUtilSetBits buf off n v \<noteq> None \<longleftrightarrow> unat off div 8 + 1 < length buf)"
proof (cases "unat off div 8 + 1 < length buf")
  case True
  with xMBUtilGetBits_in [OF assms True] xMBUtilSetBits_in [OF assms True, of v] show ?thesis
    by auto
next
  case False
  then show ?thesis by (simp add: xMBUtilGetBits_out xMBUtilSetBits_out)
qed

theorem xMBUtil_bounds_witness: "xMBUtilGetBits [1, 2] 8 1 = None"
  using xMBUtil_bounds [of 1 "[1, 2]" 8 0] by simp

end
