(* ===== verification/MBRegs.thy ===== *)
theory MBRegs
  imports MBTypes MBUtils
begin

text \<open>
  \<open>modbus.c\<close>: the application's register file and the four callbacks the protocol stack
  calls (\<open>eMBRegInputCB\<close>, \<open>eMBRegHoldingCB\<close>, \<open>eMBRegCoilsCB\<close>, \<open>eMBRegDiscreteCB\<close>),
  with the slave id statics of \<open>functions/mbfuncother.c\<close> in the same record. A callback
  gets the memory its \<open>pucRegBuffer\<close> points into and the offset of that pointer; None is an
  access outside an array.
\<close>

section \<open>State\<close>

record mbregs =
  usRegInputBuf :: "USHORT list"
  usRegInputStart :: USHORT
  usRegHoldingBuf :: "USHORT list"
  usRegHoldingStart :: USHORT
  ucRegCoilsBuf :: "UCHAR list"
  ucRegDiscreteBuf :: "UCHAR list"
  ucMBSlaveID :: "UCHAR list"
  usMBSlaveIDLen :: USHORT

text \<open>The initial values of the source; coils and discrete inputs are two bytes each.\<close>

definition mbregs_init :: mbregs where
  "mbregs_init = \<lparr>
     usRegInputBuf = [0x1000, 0x1001, 0x1002, 0x1003, 0x1004, 0x1005, 0x1006, 0x1007],
     usRegInputStart = 0,
     usRegHoldingBuf = [0x147b, 0x3f8e, 0x147b, 0x400e, 0x1eb8, 0x4055, 0x147b, 0x408e],
     usRegHoldingStart = 0,
     ucRegCoilsBuf = [0x01, 0x02],
     ucRegDiscreteBuf = [0x01, 0x02],
     ucMBSlaveID = replicate 32 0,
     usMBSlaveIDLen = 0 \<rparr>"

text \<open>
  The shape every operation keeps: the arrays have their declared length and the start
  addresses are never assigned.
\<close>

definition regs_wf :: "mbregs \<Rightarrow> bool" where
  "regs_wf r \<longleftrightarrow>
     length (usRegInputBuf r) = 8 \<and> usRegInputStart r = 0 \<and>
     length (usRegHoldingBuf r) = 8 \<and> usRegHoldingStart r = 0 \<and>
     length (ucRegCoilsBuf r) = 2 \<and> length (ucRegDiscreteBuf r) = 2 \<and>
     length (ucMBSlaveID r) = 32 \<and> unat (usMBSlaveIDLen r) \<le> 32"

lemma regs_wf_init [simp]: "regs_wf mbregs_init"
  by (simp add: regs_wf_def mbregs_init_def)

lemma mbregs_init_simps [simp]:
  "usRegInputBuf mbregs_init =
     [0x1000, 0x1001, 0x1002, 0x1003, 0x1004, 0x1005, 0x1006, 0x1007]"
  "usRegHoldingBuf mbregs_init =
     [0x147b, 0x3f8e, 0x147b, 0x400e, 0x1eb8, 0x4055, 0x147b, 0x408e]"
  "ucRegCoilsBuf mbregs_init = [0x01, 0x02]"
  "ucRegDiscreteBuf mbregs_init = [0x01, 0x02]"
  by (simp_all add: mbregs_init_def)

text \<open>
  A range the callbacks accept (it ends within the 16 bits) whose loop leaves the two bytes
  all the same: \<open>xMBUtilGetBits\<close> and \<open>xMBUtilSetBits\<close> access the byte behind the one that
  holds the first bit. The read loop advances by eight bits, the write loop stays at the
  offset of the first bit.
\<close>

definition read_overrun :: "nat \<Rightarrow> nat \<Rightarrow> bool" where
  "read_overrun a n \<longleftrightarrow> a + n \<le> 16 \<and> (8 \<le> a \<or> 8 < n)"

definition write_overrun :: "nat \<Rightarrow> nat \<Rightarrow> bool" where
  "write_overrun a n \<longleftrightarrow> a + n \<le> 16 \<and> 8 \<le> a"

section \<open>Word registers\<close>

definition rdi :: "'a list \<Rightarrow> int \<Rightarrow> 'a option" where
  "rdi m i = (if 0 \<le> i then rd m (nat i) else None)"

definition wri :: "'a list \<Rightarrow> int \<Rightarrow> 'a \<Rightarrow> 'a list option" where
  "wri m i v = (if 0 \<le> i then wr m (nat i) v else None)"

text \<open>The read loop of \<open>eMBRegInputCB\<close> and \<open>eMBRegHoldingCB\<close>: big endian.\<close>

fun reg_read_loop ::
  "USHORT list \<Rightarrow> int \<Rightarrow> nat \<Rightarrow> UCHAR list \<Rightarrow> nat \<Rightarrow> UCHAR list option" where
  "reg_read_loop regs iRegIndex 0 m p = Some m"
| "reg_read_loop regs iRegIndex (Suc n) m p = do {
     v \<leftarrow> rdi regs iRegIndex;
     m \<leftarrow> wr m p (hi8 v);
     m \<leftarrow> wr m (p + 1) (lo8 v);
     reg_read_loop regs (iRegIndex + 1) n m (p + 2)
   }"

fun reg_write_loop ::
  "USHORT list \<Rightarrow> int \<Rightarrow> nat \<Rightarrow> UCHAR list \<Rightarrow> nat \<Rightarrow> USHORT list option" where
  "reg_write_loop regs iRegIndex 0 m p = Some regs"
| "reg_write_loop regs iRegIndex (Suc n) m p = do {
     h \<leftarrow> rd m p;
     regs \<leftarrow> wri regs iRegIndex (push_bit 8 (ucast h));
     v \<leftarrow> rdi regs iRegIndex;
     l \<leftarrow> rd m (p + 1);
     regs \<leftarrow> wri regs iRegIndex (v OR ucast l);
     reg_write_loop regs (iRegIndex + 1) n m (p + 2)
   }"

definition eMBRegInputCB ::
  "UCHAR list \<Rightarrow> nat \<Rightarrow> USHORT \<Rightarrow> USHORT \<Rightarrow> mbregs \<Rightarrow> (eMBErrorCode \<times> UCHAR list) option" where
  "eMBRegInputCB m pucRegBuffer usAddress usNRegs r =
     (if unat usAddress \<ge> 0 \<and> unat usAddress + unat usNRegs \<le> 0 + 8
      then do {
        let iRegIndex = int (unat usAddress) - int (unat (usRegInputStart r));
        m \<leftarrow> reg_read_loop (usRegInputBuf r) iRegIndex (unat usNRegs) m pucRegBuffer;
        Some (MB_ENOERR, m)
      }
      else Some (MB_ENOREG, m))"

definition eMBRegHoldingCB ::
  "UCHAR list \<Rightarrow> nat \<Rightarrow> USHORT \<Rightarrow> USHORT \<Rightarrow> eMBRegisterMode \<Rightarrow> mbregs \<Rightarrow>
   (eMBErrorCode \<times> UCHAR list \<times> mbregs) option" where
  "eMBRegHoldingCB m pucRegBuffer usAddress usNRegs eMode r =
     (let usAddress = usAddress - 1 in
      if unat usAddress \<ge> 0 \<and> unat usAddress + unat usNRegs \<le> 0 + 8
      then do {
        let iRegIndex = int (unat usAddress) - int (unat (usRegHoldingStart r));
        case eMode of
          MB_REG_READ \<Rightarrow> do {
            m \<leftarrow> reg_read_loop (usRegHoldingBuf r) iRegIndex (unat usNRegs) m pucRegBuffer;
            Some (MB_ENOERR, m, r)
          }
        | MB_REG_WRITE \<Rightarrow> do {
            regs \<leftarrow> reg_write_loop (usRegHoldingBuf r) iRegIndex (unat usNRegs) m pucRegBuffer;
            Some (MB_ENOERR, m, r\<lparr>usRegHoldingBuf := regs\<rparr>)
          }
      }
      else Some (MB_ENOREG, m, r))"

section \<open>Bit registers\<close>

text \<open>
  \<open>iNCoils\<close> and \<open>usBitOffset\<close> are \<open>int16_t\<close>: the count is read as a signed number, the offset
  is kept as its 16-bit pattern (it is passed on as \<open>USHORT\<close>).
\<close>

function bit_read_loop ::
  "UCHAR list \<Rightarrow> USHORT \<Rightarrow> int \<Rightarrow> UCHAR list \<Rightarrow> nat \<Rightarrow> UCHAR list option" where
  "bit_read_loop bits usBitOffset iN m p =
     (if iN > 0 then do {
        b \<leftarrow> xMBUtilGetBits bits usBitOffset (word_of_int (if iN > 8 then 8 else iN));
        m \<leftarrow> wr m p b;
        bit_read_loop bits (usBitOffset + 8) (iN - 8) m (p + 1)
      }
      else Some m)"
  by pat_completeness auto
termination
  by (relation "measure (\<lambda>(bits, off, iN, m, p). nat iN)") auto

declare bit_read_loop.simps [simp del]

text \<open>The write loop of \<open>eMBRegCoilsCB\<close> does not advance \<open>usBitOffset\<close>.\<close>

function coil_write_loop ::
  "UCHAR list \<Rightarrow> USHORT \<Rightarrow> int \<Rightarrow> UCHAR list \<Rightarrow> nat \<Rightarrow> UCHAR list option" where
  "coil_write_loop bits usBitOffset iNCoils m p =
     (if iNCoils > 0 then do {
        v \<leftarrow> rd m p;
        bits \<leftarrow> xMBUtilSetBits bits usBitOffset
                 (word_of_int (if iNCoils > 8 then 8 else iNCoils)) v;
        coil_write_loop bits usBitOffset (iNCoils - 8) m (p + 1)
      }
      else Some bits)"
  by pat_completeness auto
termination
  by (relation "measure (\<lambda>(bits, off, iN, m, p). nat iN)") auto

declare coil_write_loop.simps [simp del]

definition eMBRegCoilsCB ::
  "UCHAR list \<Rightarrow> nat \<Rightarrow> USHORT \<Rightarrow> USHORT \<Rightarrow> eMBRegisterMode \<Rightarrow> mbregs \<Rightarrow>
   (eMBErrorCode \<times> UCHAR list \<times> mbregs) option" where
  "eMBRegCoilsCB m pucRegBuffer usAddress usNCoils eMode r =
     (let iNCoils = sint usNCoils in
      if sint usAddress \<ge> 0 \<and> unat usAddress + unat usNCoils \<le> 0 + 16
      then do {
        let usBitOffset = usAddress - 0;
        case eMode of
          MB_REG_READ \<Rightarrow> do {
            m \<leftarrow> bit_read_loop (ucRegCoilsBuf r) usBitOffset iNCoils m pucRegBuffer;
            Some (MB_ENOERR, m, r)
          }
        | MB_REG_WRITE \<Rightarrow> do {
            bits \<leftarrow> coil_write_loop (ucRegCoilsBuf r) usBitOffset iNCoils m pucRegBuffer;
            Some (MB_ENOERR, m, r\<lparr>ucRegCoilsBuf := bits\<rparr>)
          }
      }
      else Some (MB_ENOREG, m, r))"

definition eMBRegDiscreteCB ::
  "UCHAR list \<Rightarrow> nat \<Rightarrow> USHORT \<Rightarrow> USHORT \<Rightarrow> mbregs \<Rightarrow> (eMBErrorCode \<times> UCHAR list) option" where
  "eMBRegDiscreteCB m pucRegBuffer usAddress usNDiscrete r =
     (let iNDiscrete = sint usNDiscrete in
      if sint usAddress \<ge> 0 \<and> unat usAddress + unat usNDiscrete \<le> 0 + 16
      then do {
        let usBitOffset = usAddress - 0;
        m \<leftarrow> bit_read_loop (ucRegDiscreteBuf r) usBitOffset iNDiscrete m pucRegBuffer;
        Some (MB_ENOERR, m)
      }
      else Some (MB_ENOREG, m))"

section \<open>The loops in closed form\<close>

definition reg_bytes :: "USHORT list \<Rightarrow> UCHAR list" where
  "reg_bytes vs = concat (map (\<lambda>v. [hi8 v, lo8 v]) vs)"

definition reg_words :: "UCHAR list \<Rightarrow> nat \<Rightarrow> nat \<Rightarrow> USHORT list" where
  "reg_words m p n = map (\<lambda>j. be16 (m ! (p + 2 * j)) (m ! (p + 2 * j + 1))) [0..<n]"

definition pack_bits :: "(nat \<Rightarrow> bool) \<Rightarrow> nat \<Rightarrow> UCHAR list" where
  "pack_bits f n = map (\<lambda>j. pack_byte (\<lambda>i. 8 * j + i < n \<and> f (8 * j + i))) [0..<(n + 7) div 8]"

lemma reg_bytes_simps [simp]:
  "reg_bytes [] = []" "reg_bytes (v # vs) = hi8 v # lo8 v # reg_bytes vs"
  by (simp_all add: reg_bytes_def)

lemma length_reg_bytes [simp]: "length (reg_bytes vs) = 2 * length vs"
  by (induction vs) simp_all

lemma length_reg_words [simp]: "length (reg_words m p n) = n"
  by (simp add: reg_words_def)

lemma reg_words_Suc:
  "reg_words m p (Suc n) = be16 (m ! p) (m ! (p + 1)) # reg_words m (p + 2) n"
proof -
  have "[0..<Suc n] = 0 # map Suc [0..<n]" by (simp add: upt_conv_Cons map_Suc_upt)
  then show ?thesis by (simp add: reg_words_def comp_def)
qed

lemma reg_words_bytes: "reg_words (reg_bytes vs @ rest) 0 (length vs) = vs"
proof (rule nth_equalityI)
  fix i assume "i < length (reg_words (reg_bytes vs @ rest) 0 (length vs))"
  then have i: "i < length vs" by simp
  have "reg_bytes vs ! (2 * i) = hi8 (vs ! i) \<and> reg_bytes vs ! (2 * i + 1) = lo8 (vs ! i)"
    using i by (induction vs arbitrary: i) (auto simp: nth_Cons split: nat.splits)
  with i show "reg_words (reg_bytes vs @ rest) 0 (length vs) ! i = vs ! i"
    by (simp add: reg_words_def nth_append)
qed simp

lemma length_pack_bits [simp]: "length (pack_bits f n) = (n + 7) div 8"
  by (simp add: pack_bits_def)

lemma pack_bits_0 [simp]: "pack_bits f 0 = []"
  by (simp add: pack_bits_def)

lemma pack_bits_Cons:
  assumes "0 < n"
  shows "pack_bits f n = pack_byte (\<lambda>i. i < n \<and> f i) # pack_bits (\<lambda>i. f (8 + i)) (n - 8)"
proof -
  have "(n + 7) div 8 = Suc ((n - 8 + 7) div 8)"
    using assms by (cases "n < 8") (auto simp: le_div_geq)
  then have "[0..<(n + 7) div 8] = 0 # map Suc [0..<(n - 8 + 7) div 8]"
    by (simp add: upt_conv_Cons map_Suc_upt del: upt_Suc)
  moreover have "8 * Suc j + i < n \<longleftrightarrow> 8 * j + i < n - 8" for i j by auto
  ultimately show ?thesis
    by (simp add: pack_bits_def comp_def add.assoc del: upt_Suc)
qed

lemma reg_read_loop_in:
  "k + n \<le> length regs \<Longrightarrow> p + 2 * n \<le> length m \<Longrightarrow>
   reg_read_loop regs (int k) n m p = Some (overwrite m p (reg_bytes (take n (drop k regs))))"
proof (induction n arbitrary: k m p)
  case (Suc n)
  have "reg_read_loop regs (int (Suc k)) n (m[p := hi8 (regs ! k), Suc p := lo8 (regs ! k)]) (p + 2)
      = Some (overwrite (m[p := hi8 (regs ! k), Suc p := lo8 (regs ! k)]) (Suc (Suc p))
          (reg_bytes (take n (drop (Suc k) regs))))"
    using Suc.prems Suc.IH [of "Suc k" "p + 2" "m[p := hi8 (regs ! k), Suc p := lo8 (regs ! k)]"]
    by simp
  then show ?case
    using Suc.prems
    by (simp add: rdi_def mem_simps overwrite_Cons Cons_nth_drop_Suc [symmetric] add.commute)
qed simp

lemma reg_write_loop_in:
  "k + n \<le> length regs \<Longrightarrow> p + 2 * n \<le> length m \<Longrightarrow>
   reg_write_loop regs (int k) n m p = Some (overwrite regs k (reg_words m p n))"
proof (induction n arbitrary: k regs p)
  case (Suc n)
  let ?v = "be16 (m ! p) (m ! Suc p)"
  have "reg_write_loop (regs[k := ?v]) (int (Suc k)) n m (p + 2)
      = Some (overwrite (regs[k := ?v]) (Suc k) (reg_words m (p + 2) n))"
    using Suc.prems by (intro Suc.IH) simp_all
  then show ?case
    using Suc.prems
    by (simp add: rdi_def wri_def mem_simps overwrite_Cons reg_words_Suc be16_def [symmetric]
        add.commute)
qed (simp add: reg_words_def)

lemma unat_chunk: "unat (word_of_int (if int n > 8 then 8 else int n) :: UCHAR) = min 8 n"
  by (simp add: unat_of_nat)

lemma unat_add8: "unat (off :: USHORT) + 8 < 65536 \<Longrightarrow> unat (off + 8) = unat off + 8"
  by (simp add: unat_word_ariths)

lemma bit_read_loop_in:
  "unat off + n < 65000 \<Longrightarrow> unat off div 8 + (n + 7) div 8 < length bits \<Longrightarrow>
   p + (n + 7) div 8 \<le> length m \<Longrightarrow>
   bit_read_loop bits off (int n) m p =
     Some (overwrite m p (pack_bits (\<lambda>i. bit_at bits (unat off + i)) n))"
proof (induction n arbitrary: off m p rule: less_induct)
  case (less n)
  show ?case
  proof (cases "n = 0")
    case True
    then show ?thesis by (simp add: bit_read_loop.simps)
  next
    case False
    let ?b = "pack_byte (\<lambda>i. i < n \<and> bit_at bits (unat off + i))"
    have b: "pack_byte (\<lambda>i. i < min 8 n \<and> bit_at bits (unat off + i)) = ?b"
      by (rule bit_word_eqI) (auto simp: bit_pack_byte)
    have "1 \<le> (n + 7) div 8" using False by (simp add: le_div_geq)
    then have "unat off div 8 + 1 < length bits" using less.prems(2) by linarith
    then have get: "xMBUtilGetBits bits off (word_of_int (if int n > 8 then 8 else int n)) = Some ?b"
      using xMBUtilGetBits_pack [of "word_of_int (if int n > 8 then 8 else int n)" off bits]
      unfolding unat_chunk b by simp
    have p: "p < length m" using less.prems(3) False by (simp add: le_div_geq)
    have step: "bit_read_loop bits off (int n) m p =
        bit_read_loop bits (off + 8) (int n - 8) (m[p := ?b]) (p + 1)"
      using False get p by (subst bit_read_loop.simps) (simp add: mem_simps)
    show ?thesis
    proof (cases "n \<le> 8")
      case True
      then show ?thesis unfolding step using False p
        by (subst bit_read_loop.simps) (simp add: pack_bits_Cons overwrite_Cons [symmetric])
    next
      case n8: False
      then have int: "int n - 8 = int (n - 8)" and "n - 8 < n" by simp_all
      have "bit_read_loop bits (off + 8) (int (n - 8)) (m[p := ?b]) (p + 1) =
          Some (overwrite (m[p := ?b]) (p + 1)
            (pack_bits (\<lambda>i. bit_at bits (unat (off + 8) + i)) (n - 8)))"
        using n8 less.prems by (intro less.IH) (auto simp: unat_add8 le_div_geq)
      then show ?thesis unfolding step int using False n8 p less.prems(1)
        by (simp add: pack_bits_Cons [of n] overwrite_Cons unat_add8 add.assoc)
    qed
  qed
qed

lemma coil_write_loop_short:
  assumes "0 < n" "n \<le> 8" "p < length m"
  shows "coil_write_loop bits off (int n) m p = xMBUtilSetBits bits off (of_nat n) (m ! p)"
proof -
  have "coil_write_loop bits' off (int n - 8) m (p + 1) = Some bits'" for bits'
    using assms by (subst coil_write_loop.simps) simp
  with assms show ?thesis
    by (subst coil_write_loop.simps) (simp add: mem_simps)
qed

lemma coil_write_loop_long:
  assumes "8 < n" "n \<le> 16" "p + 1 < length m"
  shows "coil_write_loop bits off (int n) m p = do {
     bits \<leftarrow> xMBUtilSetBits bits off 8 (m ! p);
     xMBUtilSetBits bits off (of_nat (n - 8)) (m ! (p + 1)) }"
proof -
  have "int n - 8 = int (n - 8)" using assms(1) by simp
  then have "coil_write_loop bits' off (int n - 8) m (p + 1) =
      xMBUtilSetBits bits' off (of_nat (n - 8)) (m ! (p + 1))" for bits'
    using coil_write_loop_short [of "n - 8" "p + 1" m bits' off] assms by simp
  with assms show ?thesis
    by (subst coil_write_loop.simps) (simp add: mem_simps)
qed

lemma xMBUtilSetBits_same_length:
  "xMBUtilSetBits bits off n v = Some bits' \<Longrightarrow> length bits' = length bits"
  by (auto simp: xMBUtilSetBits_def Let_def bind_eq_Some_conv dest!: wr_SomeD)

lemma coil_write_loop_in:
  assumes "n \<le> 16" "unat off div 8 + 1 < length bits" "p + (n + 7) div 8 \<le> length m"
  shows "\<exists>bits'. coil_write_loop bits off (int n) m p = Some bits' \<and> length bits' = length bits"
proof -
  consider "n = 0" | "0 < n" "n \<le> 8" | "8 < n" by linarith
  then show ?thesis
  proof cases
    case 1
    then show ?thesis by (subst coil_write_loop.simps) simp
  next
    case 2
    then have "p < length m" using assms(3) by (simp add: le_div_geq)
    with 2 xMBUtilSetBits_in [of "of_nat n" off bits "m ! p"] assms(2) show ?thesis
      by (auto simp: coil_write_loop_short unat_of_nat)
  next
    case 3
    then have p: "p + 1 < length m" using assms(3) by (simp add: le_div_geq)
    obtain b1 where b1: "xMBUtilSetBits bits off 8 (m ! p) = Some b1" "length b1 = length bits"
      using xMBUtilSetBits_in [of 8 off bits "m ! p"] assms(2) by auto
    have "unat (of_nat (n - 8) :: UCHAR) \<le> 8" using assms(1) by (simp add: unat_of_nat)
    from xMBUtilSetBits_in [OF this, of off b1 "m ! (p + 1)"] b1 assms(2)
    show ?thesis using 3 assms(1) p by (auto simp: coil_write_loop_long)
  qed
qed

section \<open>The callbacks\<close>

lemma sint_USHORT_small: "unat (w :: USHORT) \<le> 16 \<Longrightarrow> sint w = int (unat w)"
proof -
  assume w: "unat w \<le> 16"
  have u: "uint w = int (unat w)" by simp
  have "signed_take_bit 15 (uint w) = uint w"
    using w unfolding u by (intro signed_take_bit_int_eq_self) (simp_all del: of_nat_unat)
  then show ?thesis unfolding u [symmetric] by (simp add: sint_uint)
qed


lemma div_sixteen: "x \<le> 16 \<Longrightarrow> (x + 7) div 8 \<le> (2 :: nat)"
  using div_le_mono [of "x + 7" 23 8] by simp

lemma eMBRegInputCB_in:
  assumes "regs_wf r" "unat a + unat n \<le> 8" "p + 2 * unat n \<le> length m"
  shows "eMBRegInputCB m p a n r =
    Some (MB_ENOERR, overwrite m p (reg_bytes (take (unat n) (drop (unat a) (usRegInputBuf r)))))"
  using assms by (simp add: eMBRegInputCB_def regs_wf_def reg_read_loop_in del: of_nat_unat)

lemma eMBRegInputCB_out:
  "8 < unat a + unat n \<Longrightarrow> eMBRegInputCB m p a n r = Some (MB_ENOREG, m)"
  by (simp add: eMBRegInputCB_def)

lemma eMBRegHoldingCB_read:
  assumes "regs_wf r" "unat (a - 1) + unat n \<le> 8" "p + 2 * unat n \<le> length m"
  shows "eMBRegHoldingCB m p a n MB_REG_READ r = Some (MB_ENOERR,
    overwrite m p (reg_bytes (take (unat n) (drop (unat (a - 1)) (usRegHoldingBuf r)))), r)"
  using assms by (simp add: eMBRegHoldingCB_def regs_wf_def reg_read_loop_in del: of_nat_unat)

lemma eMBRegHoldingCB_write:
  assumes "regs_wf r" "unat (a - 1) + unat n \<le> 8" "p + 2 * unat n \<le> length m"
  shows "eMBRegHoldingCB m p a n MB_REG_WRITE r = Some (MB_ENOERR, m, r\<lparr>usRegHoldingBuf :=
    overwrite (usRegHoldingBuf r) (unat (a - 1)) (reg_words m p (unat n))\<rparr>)"
  using assms by (simp add: eMBRegHoldingCB_def regs_wf_def reg_write_loop_in del: of_nat_unat)

lemma eMBRegHoldingCB_out:
  "8 < unat (a - 1) + unat n \<Longrightarrow> eMBRegHoldingCB m p a n mode r = Some (MB_ENOREG, m, r)"
  by (simp add: eMBRegHoldingCB_def Let_def)

text \<open>Inside the two bytes the read loop is the closed form, in an overrun it is undefined.\<close>

lemma bit_read_loop_two:
  assumes "length bits = 2" "unat a + n \<le> 16" "\<not> read_overrun (unat a) n" "p + (n + 7) div 8 \<le> length m"
  shows "bit_read_loop bits a (int n) m p =
    Some (overwrite m p (pack_bits (\<lambda>i. bit_at bits (unat a + i)) n))"
proof -
  have "unat a < 8" "n \<le> 8" using assms(2,3) by (auto simp: read_overrun_def)
  then have "unat a div 8 = 0" "(n + 7) div 8 \<le> 1" using div_le_mono [of "n + 7" 15 8] by simp_all
  with assms show ?thesis by (intro bit_read_loop_in) simp_all
qed

lemma bit_read_loop_over:
  assumes "length bits = 2" "read_overrun (unat a) n" "0 < n"
  shows "bit_read_loop bits a (int n) m p = None"
proof (cases "8 \<le> unat a")
  case True
  then have "1 \<le> unat a div 8" using div_le_mono [of 8 "unat a" 8] by simp
  then have "xMBUtilGetBits bits a k = None" for k
    using assms(1) by (intro xMBUtilGetBits_out) simp
  with assms(3) show ?thesis by (subst bit_read_loop.simps) simp
next
  case False
  then have n: "8 < n" "unat a + 8 < 65536" using assms(2) by (auto simp: read_overrun_def)
  have "1 \<le> (unat a + 8) div 8" using div_le_mono [of 8 "unat a + 8" 8] by simp
  then have "xMBUtilGetBits bits (a + 8) k = None" for k
    using assms(1) n(2) by (intro xMBUtilGetBits_out) (simp add: unat_add8)
  then have "bit_read_loop bits (a + 8) (int n - 8) m' p' = None" for m' p'
    using n(1) by (subst bit_read_loop.simps) simp
  then show ?thesis using n(1) by (subst bit_read_loop.simps) (simp add: bind_eq_None_conv)
qed

lemma coil_write_loop_over:
  assumes "length bits = 2" "write_overrun (unat a) n" "0 < n"
  shows "coil_write_loop bits a (int n) m p = None"
proof -
  have "1 \<le> unat a div 8" using div_le_mono [of 8 "unat a" 8] assms(2) by (simp add: write_overrun_def)
  then have "xMBUtilSetBits bits a k v = None" for k v
    using assms(1) by (intro xMBUtilSetBits_out) simp
  with assms(3) show ?thesis by (subst coil_write_loop.simps) (simp add: bind_eq_None_conv)
qed

lemma not_overrun_byte: "\<not> write_overrun a n \<Longrightarrow> a + n \<le> 16 \<Longrightarrow> a div 8 + 1 < 2"
  by (simp add: write_overrun_def)

lemma eMBRegCoilsCB_read:
  assumes "regs_wf r" "unat a + unat n \<le> 16" "\<not> read_overrun (unat a) (unat n)"
    "p + (unat n + 7) div 8 \<le> length m"
  shows "eMBRegCoilsCB m p a n MB_REG_READ r = Some (MB_ENOERR,
    overwrite m p (pack_bits (\<lambda>i. bit_at (ucRegCoilsBuf r) (unat a + i)) (unat n)), r)"
  using bit_read_loop_two [OF _ assms(2-4), of "ucRegCoilsBuf r"] assms(1,2)
  by (simp add: eMBRegCoilsCB_def Let_def sint_USHORT_small regs_wf_def del: of_nat_unat)

lemma eMBRegCoilsCB_read_over:
  assumes "regs_wf r" "read_overrun (unat a) (unat n)" "0 < unat n"
  shows "eMBRegCoilsCB m p a n MB_REG_READ r = None"
  using bit_read_loop_over [OF _ assms(2,3), of "ucRegCoilsBuf r" m p] assms(1,2)
  by (simp add: eMBRegCoilsCB_def Let_def sint_USHORT_small regs_wf_def read_overrun_def del: of_nat_unat)

lemma eMBRegCoilsCB_out:
  "16 < unat a + unat n \<Longrightarrow> eMBRegCoilsCB m p a n mode r = Some (MB_ENOREG, m, r)"
  by (simp add: eMBRegCoilsCB_def Let_def)

lemma eMBRegCoilsCB_write:
  assumes "regs_wf r" "unat a + unat n \<le> 16" "\<not> write_overrun (unat a) (unat n)"
    "p + (unat n + 7) div 8 \<le> length m"
  shows "\<exists>bits. coil_write_loop (ucRegCoilsBuf r) a (int (unat n)) m p = Some bits \<and>
    length bits = length (ucRegCoilsBuf r) \<and>
    eMBRegCoilsCB m p a n MB_REG_WRITE r = Some (MB_ENOERR, m, r\<lparr>ucRegCoilsBuf := bits\<rparr>)"
proof -
  have "unat a div 8 + 1 < length (ucRegCoilsBuf r)"
    using assms(1) not_overrun_byte [OF assms(3,2)] by (simp add: regs_wf_def)
  from coil_write_loop_in [OF _ this assms(4)] assms show ?thesis
    by (auto simp: eMBRegCoilsCB_def Let_def sint_USHORT_small simp del: of_nat_unat)
qed

lemma eMBRegCoilsCB_write_over:
  assumes "regs_wf r" "write_overrun (unat a) (unat n)" "0 < unat n"
  shows "eMBRegCoilsCB m p a n MB_REG_WRITE r = None"
  using coil_write_loop_over [OF _ assms(2,3), of "ucRegCoilsBuf r" m p] assms(1,2)
  by (simp add: eMBRegCoilsCB_def Let_def sint_USHORT_small regs_wf_def write_overrun_def del: of_nat_unat)

lemma eMBRegDiscreteCB_in:
  assumes "regs_wf r" "unat a + unat n \<le> 16" "\<not> read_overrun (unat a) (unat n)"
    "p + (unat n + 7) div 8 \<le> length m"
  shows "eMBRegDiscreteCB m p a n r = Some (MB_ENOERR,
    overwrite m p (pack_bits (\<lambda>i. bit_at (ucRegDiscreteBuf r) (unat a + i)) (unat n)))"
  using bit_read_loop_two [OF _ assms(2-4), of "ucRegDiscreteBuf r"] assms(1,2)
  by (simp add: eMBRegDiscreteCB_def Let_def sint_USHORT_small regs_wf_def del: of_nat_unat)

lemma eMBRegDiscreteCB_over:
  assumes "regs_wf r" "read_overrun (unat a) (unat n)" "0 < unat n"
  shows "eMBRegDiscreteCB m p a n r = None"
  using bit_read_loop_over [OF _ assms(2,3), of "ucRegDiscreteBuf r" m p] assms(1,2)
  by (simp add: eMBRegDiscreteCB_def Let_def sint_USHORT_small regs_wf_def read_overrun_def del: of_nat_unat)

lemma eMBRegDiscreteCB_out:
  "16 < unat a + unat n \<Longrightarrow> eMBRegDiscreteCB m p a n r = Some (MB_ENOREG, m)"
  by (simp add: eMBRegDiscreteCB_def Let_def)

text \<open>Writing up to eight coils: a single field.\<close>

lemma eMBRegCoilsCB_write_short:
  assumes "regs_wf r" "unat a + unat n \<le> 16" "0 < unat n" "unat n \<le> 8" "p < length m"
    "\<not> write_overrun (unat a) (unat n)"
  shows "\<exists>bits. eMBRegCoilsCB m p a n MB_REG_WRITE r =
      Some (MB_ENOERR, m, r\<lparr>ucRegCoilsBuf := bits\<rparr>) \<and>
    length bits = length (ucRegCoilsBuf r) \<and>
    (\<forall>k. bit_at bits k \<longleftrightarrow> set_bit_spec (ucRegCoilsBuf r) (unat a) (unat n) (m ! p) k)"
proof -
  let ?n = "of_nat (unat n) :: UCHAR"
  have n: "unat ?n = unat n" using assms(4) by (simp add: unat_of_nat del: of_nat_unat)
  have "unat a div 8 + 1 < length (ucRegCoilsBuf r)"
    using assms(1) not_overrun_byte [OF assms(6,2)] by (simp add: regs_wf_def)
  then obtain bits where bits: "xMBUtilSetBits (ucRegCoilsBuf r) a ?n (m ! p) = Some bits"
    "length bits = length (ucRegCoilsBuf r)"
    "\<forall>k. bit_at bits k \<longleftrightarrow> set_bit_spec (ucRegCoilsBuf r) (unat a) (unat n) (m ! p) k"
    using xMBUtilSetBits_in [of ?n a "ucRegCoilsBuf r" "m ! p"] assms(4) unfolding n by blast
  have sint: "sint a = int (unat a)" "sint n = int (unat n)"
    using assms(2) by (simp_all add: sint_USHORT_small del: of_nat_unat)
  have "coil_write_loop (ucRegCoilsBuf r) a (sint n) m p = Some bits"
    unfolding sint using coil_write_loop_short [OF assms(3,4,5)] bits(1) by simp
  then have "eMBRegCoilsCB m p a n MB_REG_WRITE r = Some (MB_ENOERR, m, r\<lparr>ucRegCoilsBuf := bits\<rparr>)"
    using assms(2) by (simp add: eMBRegCoilsCB_def Let_def sint(1) del: of_nat_unat)
  with bits show ?thesis by blast
qed

text \<open>
  Writing nine to sixteen coils: two fields, both at the first coil's offset.
\<close>

lemma eMBRegCoilsCB_write_long:
  assumes "regs_wf r" "unat a + unat n \<le> 16" "8 < unat n" "p + 1 < length m"
  shows "\<exists>bits. eMBRegCoilsCB m p a n MB_REG_WRITE r =
      Some (MB_ENOERR, m, r\<lparr>ucRegCoilsBuf := bits\<rparr>) \<and>
    length bits = length (ucRegCoilsBuf r) \<and>
    (\<forall>k. bit_at bits k \<longleftrightarrow>
      (if unat a \<le> k \<and> k < unat a + (unat n - 8) then bit (m ! (p + 1)) (k - unat a)
       else if unat a \<le> k \<and> k < unat a + 8
       then bit (m ! p) (k - unat a) \<or> bit (m ! (p + 1)) (k - unat a)
       else bit_at (ucRegCoilsBuf r) k))"
proof -
  let ?n = "of_nat (unat n - 8) :: UCHAR"
  have n: "unat ?n = unat n - 8" using assms(2,3) by (simp add: unat_of_nat del: of_nat_unat of_nat_diff)
  have n8: "unat n - 8 \<le> 8" using assms(2) by linarith
  have len: "unat a div 8 + 1 < length (ucRegCoilsBuf r)"
    using assms(1-3) by (simp add: regs_wf_def)
  then obtain b1 where b1: "xMBUtilSetBits (ucRegCoilsBuf r) a 8 (m ! p) = Some b1"
    "length b1 = length (ucRegCoilsBuf r)"
    "\<forall>k. bit_at b1 k \<longleftrightarrow> set_bit_spec (ucRegCoilsBuf r) (unat a) 8 (m ! p) k"
    using xMBUtilSetBits_in [of 8 a "ucRegCoilsBuf r" "m ! p"] by auto
  obtain b2 where b2: "xMBUtilSetBits b1 a ?n (m ! (p + 1)) = Some b2"
    "length b2 = length b1"
    "\<forall>k. bit_at b2 k \<longleftrightarrow> set_bit_spec b1 (unat a) (unat n - 8) (m ! (p + 1)) k"
    using xMBUtilSetBits_in [of ?n a b1 "m ! (p + 1)"] n8 len b1(2) unfolding n by auto
  have sint: "sint a = int (unat a)" "sint n = int (unat n)"
    using assms(2) by (simp_all add: sint_USHORT_small del: of_nat_unat)
  have "coil_write_loop (ucRegCoilsBuf r) a (sint n) m p = Some b2"
    unfolding sint using coil_write_loop_long [OF assms(3) _ assms(4)] b1(1) b2(1) assms(2) by simp
  then have "eMBRegCoilsCB m p a n MB_REG_WRITE r = Some (MB_ENOERR, m, r\<lparr>ucRegCoilsBuf := b2\<rparr>)"
    using assms(2) by (simp add: eMBRegCoilsCB_def Let_def sint(1) del: of_nat_unat)
  moreover have "bit_at b2 k \<longleftrightarrow>
      (if unat a \<le> k \<and> k < unat a + (unat n - 8) then bit (m ! (p + 1)) (k - unat a)
       else if unat a \<le> k \<and> k < unat a + 8
       then bit (m ! p) (k - unat a) \<or> bit (m ! (p + 1)) (k - unat a)
       else bit_at (ucRegCoilsBuf r) k)" for k
    using b1(3) b2(3) bit_UCHAR_less [of "m ! p" "k - unat a"]
      bit_UCHAR_less [of "m ! (p + 1)" "k - unat a"]
    by (auto simp: set_bit_spec_def)
  ultimately show ?thesis using b1(2) b2(2) by (intro exI [of _ b2]) simp
qed

lemma reg_bytes_words:
  "p + 2 * n \<le> length m \<Longrightarrow> reg_bytes (reg_words m p n) = take (2 * n) (drop p m)"
proof (induction n arbitrary: p)
  case (Suc n)
  then show ?case
    by (simp add: reg_words_Suc Cons_nth_drop_Suc [symmetric])
qed (simp add: reg_words_def)

section \<open>Properties\<close>

text \<open>
  Holding registers round trip: after \<open>eMBRegHoldingCB\<close> accepted a write, reading the
  same range returns exactly the bytes that were written (big endian, any memory), the read
  changes no register, and only the holding registers were changed by the write.
\<close>

theorem eMBRegHoldingCB_roundtrip:
  assumes "regs_wf r" and "p + 2 * unat n \<le> length m" and "q + 2 * unat n \<le> length m2"
    and "eMBRegHoldingCB m p a n MB_REG_WRITE r = Some (MB_ENOERR, m', r')"
  shows "eMBRegHoldingCB m2 q a n MB_REG_READ r' =
      Some (MB_ENOERR, overwrite m2 q (take (2 * unat n) (drop p m)), r') \<and>
    m' = m \<and> r'\<lparr>usRegHoldingBuf := usRegHoldingBuf r\<rparr> = r \<and> regs_wf r'"
proof -
  have rng: "unat (a - 1) + unat n \<le> 8"
    using assms(4) eMBRegHoldingCB_out [of a n m p MB_REG_WRITE r]
    by (cases "8 < unat (a - 1) + unat n") auto
  let ?buf = "overwrite (usRegHoldingBuf r) (unat (a - 1)) (reg_words m p (unat n))"
  have r': "r' = r\<lparr>usRegHoldingBuf := ?buf\<rparr>" "m' = m"
    using assms(4) eMBRegHoldingCB_write [OF assms(1) rng assms(2)] by auto
  then have wf: "regs_wf r'" using assms(1) rng by (simp add: regs_wf_def)
  have "take (unat n) (drop (unat (a - 1)) ?buf) = reg_words m p (unat n)"
    using take_drop_overwrite [of "unat (a - 1)" "reg_words m p (unat n)" "usRegHoldingBuf r"]
      rng assms(1) by (simp add: regs_wf_def)
  with eMBRegHoldingCB_read [OF wf rng assms(3)] r' wf show ?thesis
    by (simp add: reg_bytes_words [OF assms(2)])
qed

theorem eMBRegHoldingCB_roundtrip_witness:
  "eMBRegHoldingCB [0, 0] 0 1 1 MB_REG_READ (mbregs_init
      \<lparr>usRegHoldingBuf := [0x0102, 0x3f8e, 0x147b, 0x400e, 0x1eb8, 0x4055, 0x147b, 0x408e]\<rparr>)
   = Some (MB_ENOERR, overwrite [0, 0] 0 (take (2 * unat (1 :: USHORT)) (drop 0 [1, 2])),
       mbregs_init
      \<lparr>usRegHoldingBuf := [0x0102, 0x3f8e, 0x147b, 0x400e, 0x1eb8, 0x4055, 0x147b, 0x408e]\<rparr>)"
proof -
  have "regs_wf mbregs_init" by simp
  moreover have "eMBRegHoldingCB [1, 2] 0 1 1 MB_REG_WRITE mbregs_init =
      Some (MB_ENOERR, [1, 2], mbregs_init
      \<lparr>usRegHoldingBuf := [0x0102, 0x3f8e, 0x147b, 0x400e, 0x1eb8, 0x4055, 0x147b, 0x408e]\<rparr>)"
    by (simp add: eMBRegHoldingCB_def mbregs_init_def rdi_def wri_def rd_def wr_def)
  ultimately show ?thesis
    using eMBRegHoldingCB_roundtrip [of "mbregs_init" 0 1 "[1, 2]" 0 "[0, 0]" 1] by simp
qed

text \<open>
  Writing up to eight coils, the first of them in the first byte, stores coil \<open>i\<close> of the request in coil \<open>a + i\<close>; bits of the
  value byte beyond the requested count are OR-ed into the coils that follow.
\<close>

theorem eMBRegCoilsCB_write_upto_8:
  assumes "regs_wf r" and "unat a + unat n \<le> 16" and "0 < unat n" and "unat n \<le> 8"
    and "p < length m" and "\<not> write_overrun (unat a) (unat n)"
  shows "\<exists>bits. eMBRegCoilsCB m p a n MB_REG_WRITE r =
      Some (MB_ENOERR, m, r\<lparr>ucRegCoilsBuf := bits\<rparr>) \<and>
    (\<forall>k. bit_at bits k \<longleftrightarrow>
      (if unat a \<le> k \<and> k < unat a + unat n then bit (m ! p) (k - unat a)
       else bit_at (ucRegCoilsBuf r) k \<or> unat a \<le> k \<and> bit (m ! p) (k - unat a)))"
  using eMBRegCoilsCB_write_short [OF assms] by (auto simp: set_bit_spec_def)

theorem eMBRegCoilsCB_write_upto_8_witness:
  "\<exists>bits. eMBRegCoilsCB [3] 0 1 1 MB_REG_WRITE mbregs_init =
      Some (MB_ENOERR, [3], mbregs_init\<lparr>ucRegCoilsBuf := bits\<rparr>) \<and> bit_at bits 2"
proof -
  obtain bits where "eMBRegCoilsCB [3] 0 1 1 MB_REG_WRITE mbregs_init =
      Some (MB_ENOERR, [3], mbregs_init\<lparr>ucRegCoilsBuf := bits\<rparr>)"
    and "bit_at bits 2 \<longleftrightarrow> (if unat (1 :: USHORT) \<le> 2 \<and> 2 < unat (1 :: USHORT) + unat (1 :: USHORT)
      then bit ([3 :: UCHAR] ! 0) (2 - unat (1 :: USHORT))
      else bit_at (ucRegCoilsBuf mbregs_init) 2 \<or>
        unat (1 :: USHORT) \<le> 2 \<and> bit ([3 :: UCHAR] ! 0) (2 - unat (1 :: USHORT)))"
    using eMBRegCoilsCB_write_upto_8 [of "mbregs_init" 1 1 0 "[3]"]
    by (auto simp: write_overrun_def)
  moreover have "bit (3 :: UCHAR) 1" by simp
  ultimately show ?thesis by (intro exI [of _ bits]) simp
qed

text \<open>
  Writing nine to sixteen coils reports success, but the coils from the ninth on keep
  their old value: the second value byte is stored over the first one, because the write
  loop does not advance the bit offset.
\<close>

theorem eMBRegCoilsCB_write_beyond_8:
  assumes "regs_wf r" and "unat a + unat n \<le> 16" and "8 < unat n" and "p + 1 < length m"
  shows "\<exists>bits. eMBRegCoilsCB m p a n MB_REG_WRITE r =
      Some (MB_ENOERR, m, r\<lparr>ucRegCoilsBuf := bits\<rparr>) \<and>
    (\<forall>k. unat a + 8 \<le> k \<and> k < unat a + unat n \<longrightarrow> bit_at bits k = bit_at (ucRegCoilsBuf r) k) \<and>
    (\<forall>i < unat n - 8. bit_at bits (unat a + i) = bit (m ! (p + 1)) i)"
proof -
  obtain bits where "eMBRegCoilsCB m p a n MB_REG_WRITE r =
      Some (MB_ENOERR, m, r\<lparr>ucRegCoilsBuf := bits\<rparr>)"
    and "\<forall>k. bit_at bits k \<longleftrightarrow>
      (if unat a \<le> k \<and> k < unat a + (unat n - 8) then bit (m ! (p + 1)) (k - unat a)
       else if unat a \<le> k \<and> k < unat a + 8
       then bit (m ! p) (k - unat a) \<or> bit (m ! (p + 1)) (k - unat a)
       else bit_at (ucRegCoilsBuf r) k)"
    using eMBRegCoilsCB_write_long [OF assms] by blast
  with assms(2) show ?thesis by (intro exI [of _ bits]) auto
qed

theorem eMBRegCoilsCB_write_beyond_8_witness:
  "\<exists>bits. eMBRegCoilsCB [0xFF, 0xFF] 0 0 16 MB_REG_WRITE mbregs_init =
      Some (MB_ENOERR, [0xFF, 0xFF], mbregs_init\<lparr>ucRegCoilsBuf := bits\<rparr>) \<and>
    \<not> bit_at bits 8"
proof -
  obtain bits where "eMBRegCoilsCB [0xFF, 0xFF] 0 0 16 MB_REG_WRITE mbregs_init =
      Some (MB_ENOERR, [0xFF, 0xFF], mbregs_init\<lparr>ucRegCoilsBuf := bits\<rparr>)"
    and "bit_at bits 8 = bit_at (ucRegCoilsBuf mbregs_init) 8"
    using eMBRegCoilsCB_write_beyond_8 [of "mbregs_init" 0 16 0 "[0xFF, 0xFF]"]
    by (auto simp: write_overrun_def)
  moreover have "\<not> bit_at (ucRegCoilsBuf mbregs_init) 8"
    by (simp add: bit_at_def mbregs_init_def)
  ultimately show ?thesis by (intro exI [of _ bits]) simp
qed

end
