(* ===== verification/MBFunc.thy ===== *)
theory MBFunc
  imports MBRegs
begin

text \<open>
  \<open>functions/mbfunc*.c\<close>: the handlers of the Modbus function codes. A handler gets the memory
  from \<open>pucFrame\<close> on (the receive buffer behind the address byte), the PDU length \<open>*usLen\<close> and
  the register file, and returns the exception code with the changed frame, length and
  registers; None is an access outside an array.
\<close>

type_synonym handler =
  "UCHAR list \<Rightarrow> USHORT \<Rightarrow> mbregs \<Rightarrow> (eMBException \<times> UCHAR list \<times> USHORT \<times> mbregs) option"

text \<open>\<open>memcpy\<close> from an array: the bytes read, None outside it.\<close>

definition rds :: "'a list \<Rightarrow> nat \<Rightarrow> nat \<Rightarrow> 'a list option" where
  "rds m i n = (if i + n \<le> length m then Some (take n (drop i m)) else None)"

section \<open>Holding registers: \<open>mbfuncholding.c\<close>\<close>

definition eMBFuncWriteHoldingRegister :: handler where
  "eMBFuncWriteHoldingRegister pucFrame usLen r =
     (if unat usLen = 4 + MB_PDU_SIZE_MIN
      then do {
        a0 \<leftarrow> rd pucFrame 1;
        a1 \<leftarrow> rd pucFrame 2;
        let usRegAddress = be16 a0 a1;
        let usRegAddress = usRegAddress + 1;
        (eRegStatus, pucFrame, r) \<leftarrow> eMBRegHoldingCB pucFrame 3 usRegAddress 1 MB_REG_WRITE r;
        let eStatus = (if eRegStatus \<noteq> MB_ENOERR then prveMBError2Exception eRegStatus
                       else MB_EX_NONE);
        Some (eStatus, pucFrame, usLen, r)
      }
      else Some (MB_EX_ILLEGAL_DATA_VALUE, pucFrame, usLen, r))"

definition eMBFuncWriteMultipleHoldingRegister :: handler where
  "eMBFuncWriteMultipleHoldingRegister pucFrame usLen r =
     (if unat usLen \<ge> 5 + MB_PDU_SIZE_MIN
      then do {
        a0 \<leftarrow> rd pucFrame 1;
        a1 \<leftarrow> rd pucFrame 2;
        let usRegAddress = be16 a0 a1;
        let usRegAddress = usRegAddress + 1;
        c0 \<leftarrow> rd pucFrame 3;
        c1 \<leftarrow> rd pucFrame 4;
        let usRegCount = be16 c0 c1;
        ucRegByteCount \<leftarrow> rd pucFrame 5;
        if unat usRegCount \<ge> 1 \<and> unat usRegCount \<le> 0x78 \<and>
           ucRegByteCount = ucast (2 * usRegCount)
        then do {
          (eRegStatus, pucFrame, r) \<leftarrow>
            eMBRegHoldingCB pucFrame 6 usRegAddress usRegCount MB_REG_WRITE r;
          if eRegStatus \<noteq> MB_ENOERR
          then Some (prveMBError2Exception eRegStatus, pucFrame, usLen, r)
          else Some (MB_EX_NONE, pucFrame, 5, r)
        }
        else Some (MB_EX_ILLEGAL_DATA_VALUE, pucFrame, usLen, r)
      }
      else Some (MB_EX_ILLEGAL_DATA_VALUE, pucFrame, usLen, r))"

text \<open>
  The second assignment to \<open>usRegCount\<close> is \<open>=\<close> in the source, where every other handler has
  \<open>|=\<close>: the high byte of the requested quantity is lost.
\<close>

definition eMBFuncReadHoldingRegister :: handler where
  "eMBFuncReadHoldingRegister pucFrame usLen r =
     (if unat usLen = 4 + MB_PDU_SIZE_MIN
      then do {
        a0 \<leftarrow> rd pucFrame 1;
        a1 \<leftarrow> rd pucFrame 2;
        let usRegAddress = be16 a0 a1;
        let usRegAddress = usRegAddress + 1;
        c0 \<leftarrow> rd pucFrame 3;
        let usRegCount = push_bit 8 (ucast c0 :: USHORT);
        c1 \<leftarrow> rd pucFrame 4;
        let usRegCount = (ucast c1 :: USHORT);
        if unat usRegCount \<ge> 1 \<and> unat usRegCount \<le> 0x7D
        then do {
          let usLen = (0 :: USHORT);
          pucFrame \<leftarrow> wr pucFrame 0 MB_FUNC_READ_HOLDING_REGISTER;
          let usLen = usLen + 1;
          pucFrame \<leftarrow> wr pucFrame 1 (ucast (usRegCount * 2));
          let usLen = usLen + 1;
          (eRegStatus, pucFrame, r) \<leftarrow>
            eMBRegHoldingCB pucFrame 2 usRegAddress usRegCount MB_REG_READ r;
          if eRegStatus \<noteq> MB_ENOERR
          then Some (prveMBError2Exception eRegStatus, pucFrame, usLen, r)
          else Some (MB_EX_NONE, pucFrame, usLen + usRegCount * 2, r)
        }
        else Some (MB_EX_ILLEGAL_DATA_VALUE, pucFrame, usLen, r)
      }
      else Some (MB_EX_ILLEGAL_DATA_VALUE, pucFrame, usLen, r))"

text \<open>A frame that is too short is not an error here: there is no else branch.\<close>

definition eMBFuncReadWriteMultipleHoldingRegister :: handler where
  "eMBFuncReadWriteMultipleHoldingRegister pucFrame usLen r =
     (if unat usLen \<ge> 9 + MB_PDU_SIZE_MIN
      then do {
        a0 \<leftarrow> rd pucFrame 1;
        a1 \<leftarrow> rd pucFrame 2;
        let usRegReadAddress = be16 a0 a1;
        let usRegReadAddress = usRegReadAddress + 1;
        c0 \<leftarrow> rd pucFrame 3;
        c1 \<leftarrow> rd pucFrame 4;
        let usRegReadCount = be16 c0 c1;
        b0 \<leftarrow> rd pucFrame 5;
        b1 \<leftarrow> rd pucFrame 6;
        let usRegWriteAddress = be16 b0 b1;
        let usRegWriteAddress = usRegWriteAddress + 1;
        d0 \<leftarrow> rd pucFrame 7;
        d1 \<leftarrow> rd pucFrame 8;
        let usRegWriteCount = be16 d0 d1;
        ucRegWriteByteCount \<leftarrow> rd pucFrame 9;
        if unat usRegReadCount \<ge> 1 \<and> unat usRegReadCount \<le> 0x7D \<and>
           unat usRegWriteCount \<ge> 1 \<and> unat usRegWriteCount \<le> 0x79 \<and>
           2 * unat usRegWriteCount = unat ucRegWriteByteCount
        then do {
          (eRegStatus, pucFrame, r) \<leftarrow>
            eMBRegHoldingCB pucFrame 10 usRegWriteAddress usRegWriteCount MB_REG_WRITE r;
          (eRegStatus, pucFrame, usLen, r) \<leftarrow>
            (if eRegStatus = MB_ENOERR
             then do {
               let usLen = (0 :: USHORT);
               pucFrame \<leftarrow> wr pucFrame 0 MB_FUNC_READWRITE_MULTIPLE_REGISTERS;
               let usLen = usLen + 1;
               pucFrame \<leftarrow> wr pucFrame 1 (ucast (usRegReadCount * 2));
               let usLen = usLen + 1;
               (eRegStatus, pucFrame, r) \<leftarrow>
                 eMBRegHoldingCB pucFrame 2 usRegReadAddress usRegReadCount MB_REG_READ r;
               let usLen = (if eRegStatus = MB_ENOERR then usLen + 2 * usRegReadCount else usLen);
               Some (eRegStatus, pucFrame, usLen, r)
             }
             else Some (eRegStatus, pucFrame, usLen, r));
          let eStatus = (if eRegStatus \<noteq> MB_ENOERR then prveMBError2Exception eRegStatus
                         else MB_EX_NONE);
          Some (eStatus, pucFrame, usLen, r)
        }
        else Some (MB_EX_ILLEGAL_DATA_VALUE, pucFrame, usLen, r)
      }
      else Some (MB_EX_NONE, pucFrame, usLen, r))"

section \<open>Input registers: \<open>mbfuncinput.c\<close>\<close>

definition eMBFuncReadInputRegister :: handler where
  "eMBFuncReadInputRegister pucFrame usLen r =
     (if unat usLen = 4 + MB_PDU_SIZE_MIN
      then do {
        a0 \<leftarrow> rd pucFrame 1;
        a1 \<leftarrow> rd pucFrame 2;
        let usRegAddress = be16 a0 a1;
        let usRegAddress = usRegAddress + 1;
        c0 \<leftarrow> rd pucFrame 3;
        c1 \<leftarrow> rd pucFrame 4;
        let usRegCount = be16 c0 c1;
        if unat usRegCount \<ge> 1 \<and> unat usRegCount < 0x7D
        then do {
          let usLen = (0 :: USHORT);
          pucFrame \<leftarrow> wr pucFrame 0 MB_FUNC_READ_INPUT_REGISTER;
          let usLen = usLen + 1;
          pucFrame \<leftarrow> wr pucFrame 1 (ucast (usRegCount * 2));
          let usLen = usLen + 1;
          (eRegStatus, pucFrame) \<leftarrow> eMBRegInputCB pucFrame 2 usRegAddress usRegCount r;
          if eRegStatus \<noteq> MB_ENOERR
          then Some (prveMBError2Exception eRegStatus, pucFrame, usLen, r)
          else Some (MB_EX_NONE, pucFrame, usLen + usRegCount * 2, r)
        }
        else Some (MB_EX_ILLEGAL_DATA_VALUE, pucFrame, usLen, r)
      }
      else Some (MB_EX_ILLEGAL_DATA_VALUE, pucFrame, usLen, r))"

section \<open>Coils: \<open>mbfunccoils.c\<close>\<close>

text \<open>The number of bytes for a number of bits, as the three handlers compute it.\<close>

definition bits_to_bytes :: "USHORT \<Rightarrow> UCHAR" where
  "bits_to_bytes usCount =
     (if usCount AND 0x0007 \<noteq> 0 then ucast (usCount div 8 + 1) else ucast (usCount div 8))"

definition eMBFuncReadCoils :: handler where
  "eMBFuncReadCoils pucFrame usLen r =
     (if unat usLen = 4 + MB_PDU_SIZE_MIN
      then do {
        a0 \<leftarrow> rd pucFrame 1;
        a1 \<leftarrow> rd pucFrame 2;
        let usRegAddress = be16 a0 a1;
        let usRegAddress = usRegAddress + 1;
        c0 \<leftarrow> rd pucFrame 3;
        c1 \<leftarrow> rd pucFrame 4;
        let usCoilCount = be16 c0 c1;
        if unat usCoilCount \<ge> 1 \<and> unat usCoilCount < 0x07D0
        then do {
          let usLen = (0 :: USHORT);
          pucFrame \<leftarrow> wr pucFrame 0 MB_FUNC_READ_COILS;
          let usLen = usLen + 1;
          let ucNBytes = bits_to_bytes usCoilCount;
          pucFrame \<leftarrow> wr pucFrame 1 ucNBytes;
          let usLen = usLen + 1;
          (eRegStatus, pucFrame, r) \<leftarrow>
            eMBRegCoilsCB pucFrame 2 usRegAddress usCoilCount MB_REG_READ r;
          if eRegStatus \<noteq> MB_ENOERR
          then Some (prveMBError2Exception eRegStatus, pucFrame, usLen, r)
          else Some (MB_EX_NONE, pucFrame, usLen + ucast ucNBytes, r)
        }
        else Some (MB_EX_ILLEGAL_DATA_VALUE, pucFrame, usLen, r)
      }
      else Some (MB_EX_ILLEGAL_DATA_VALUE, pucFrame, usLen, r))"

text \<open>\<open>ucBuf\<close> is a local two-byte array; the frame is only read.\<close>

definition eMBFuncWriteCoil :: handler where
  "eMBFuncWriteCoil pucFrame usLen r =
     (if unat usLen = 4 + MB_PDU_SIZE_MIN
      then do {
        a0 \<leftarrow> rd pucFrame 1;
        a1 \<leftarrow> rd pucFrame 2;
        let usRegAddress = be16 a0 a1;
        let usRegAddress = usRegAddress + 1;
        v1 \<leftarrow> rd pucFrame 4;
        v0 \<leftarrow> rd pucFrame 3;
        if v1 = 0x00 \<and> (v0 = 0xFF \<or> v0 = 0x00)
        then do {
          let ucBuf = [if v0 = 0xFF then 1 else 0, 0];
          (eRegStatus, _, r) \<leftarrow> eMBRegCoilsCB ucBuf 0 usRegAddress 1 MB_REG_WRITE r;
          let eStatus = (if eRegStatus \<noteq> MB_ENOERR then prveMBError2Exception eRegStatus
                         else MB_EX_NONE);
          Some (eStatus, pucFrame, usLen, r)
        }
        else Some (MB_EX_ILLEGAL_DATA_VALUE, pucFrame, usLen, r)
      }
      else Some (MB_EX_ILLEGAL_DATA_VALUE, pucFrame, usLen, r))"

definition eMBFuncWriteMultipleCoils :: handler where
  "eMBFuncWriteMultipleCoils pucFrame usLen r =
     (if unat usLen > 4 + MB_PDU_SIZE_MIN
      then do {
        a0 \<leftarrow> rd pucFrame 1;
        a1 \<leftarrow> rd pucFrame 2;
        let usRegAddress = be16 a0 a1;
        let usRegAddress = usRegAddress + 1;
        c0 \<leftarrow> rd pucFrame 3;
        c1 \<leftarrow> rd pucFrame 4;
        let usCoilCnt = be16 c0 c1;
        ucByteCount \<leftarrow> rd pucFrame 5;
        let ucByteCountVerify = bits_to_bytes usCoilCnt;
        if unat usCoilCnt \<ge> 1 \<and> unat usCoilCnt \<le> 0x07B0 \<and> ucByteCountVerify = ucByteCount
        then do {
          (eRegStatus, pucFrame, r) \<leftarrow>
            eMBRegCoilsCB pucFrame 6 usRegAddress usCoilCnt MB_REG_WRITE r;
          if eRegStatus \<noteq> MB_ENOERR
          then Some (prveMBError2Exception eRegStatus, pucFrame, usLen, r)
          else Some (MB_EX_NONE, pucFrame, 5, r)
        }
        else Some (MB_EX_ILLEGAL_DATA_VALUE, pucFrame, usLen, r)
      }
      else Some (MB_EX_ILLEGAL_DATA_VALUE, pucFrame, usLen, r))"

section \<open>Discrete inputs: \<open>mbfuncdisc.c\<close>\<close>

definition eMBFuncReadDiscreteInputs :: handler where
  "eMBFuncReadDiscreteInputs pucFrame usLen r =
     (if unat usLen = 4 + MB_PDU_SIZE_MIN
      then do {
        a0 \<leftarrow> rd pucFrame 1;
        a1 \<leftarrow> rd pucFrame 2;
        let usRegAddress = be16 a0 a1;
        let usRegAddress = usRegAddress + 1;
        c0 \<leftarrow> rd pucFrame 3;
        c1 \<leftarrow> rd pucFrame 4;
        let usDiscreteCnt = be16 c0 c1;
        if unat usDiscreteCnt \<ge> 1 \<and> unat usDiscreteCnt < 0x07D0
        then do {
          let usLen = (0 :: USHORT);
          pucFrame \<leftarrow> wr pucFrame 0 MB_FUNC_READ_DISCRETE_INPUTS;
          let usLen = usLen + 1;
          let ucNBytes = bits_to_bytes usDiscreteCnt;
          pucFrame \<leftarrow> wr pucFrame 1 ucNBytes;
          let usLen = usLen + 1;
          (eRegStatus, pucFrame) \<leftarrow> eMBRegDiscreteCB pucFrame 2 usRegAddress usDiscreteCnt r;
          if eRegStatus \<noteq> MB_ENOERR
          then Some (prveMBError2Exception eRegStatus, pucFrame, usLen, r)
          else Some (MB_EX_NONE, pucFrame, usLen + ucast ucNBytes, r)
        }
        else Some (MB_EX_ILLEGAL_DATA_VALUE, pucFrame, usLen, r)
      }
      else Some (MB_EX_ILLEGAL_DATA_VALUE, pucFrame, usLen, r))"

section \<open>Slave identification: \<open>mbfuncother.c\<close>\<close>

definition eMBSetSlaveID ::
  "UCHAR \<Rightarrow> bool \<Rightarrow> UCHAR list \<Rightarrow> USHORT \<Rightarrow> mbregs \<Rightarrow> (eMBErrorCode \<times> mbregs) option" where
  "eMBSetSlaveID ucSlaveID xIsRunning pucAdditional usAdditionalLen r =
     (if unat usAdditionalLen + 2 < 32
      then do {
        let usMBSlaveIDLen' = (0 :: USHORT);
        buf \<leftarrow> wr (ucMBSlaveID r) (unat usMBSlaveIDLen') ucSlaveID;
        let usMBSlaveIDLen' = usMBSlaveIDLen' + 1;
        buf \<leftarrow> wr buf (unat usMBSlaveIDLen') (if xIsRunning then 0xFF else 0x00);
        let usMBSlaveIDLen' = usMBSlaveIDLen' + 1;
        (buf, usMBSlaveIDLen') \<leftarrow>
          (if usAdditionalLen > 0
           then do {
             add \<leftarrow> rds pucAdditional 0 (unat usAdditionalLen);
             buf \<leftarrow> wrs buf (unat usMBSlaveIDLen') add;
             Some (buf, usMBSlaveIDLen' + usAdditionalLen)
           }
           else Some (buf, usMBSlaveIDLen'));
        Some (MB_ENOERR, r\<lparr>ucMBSlaveID := buf, usMBSlaveIDLen := usMBSlaveIDLen'\<rparr>)
      }
      else Some (MB_ENORES, r))"

definition eMBFuncReportSlaveID :: handler where
  "eMBFuncReportSlaveID pucFrame usLen r = do {
     ids \<leftarrow> rds (ucMBSlaveID r) 0 (unat (usMBSlaveIDLen r));
     pucFrame \<leftarrow> wrs pucFrame MB_PDU_DATA_OFF ids;
     Some (MB_EX_NONE, pucFrame, 1 + usMBSlaveIDLen r, r)
   }"

section \<open>The table of handlers: \<open>xFuncHandlers\<close> of \<open>mb.c\<close>\<close>

text \<open>
  The function pointers the table may hold: the ten handlers of the library and those an
  application passes to \<open>eMBRegisterCB\<close>, identified by a number; what the latter do is a
  parameter of the model.
\<close>

datatype handler_id =
    H_ReportSlaveID | H_ReadInputRegister | H_ReadHoldingRegister
  | H_WriteMultipleHoldingRegister | H_WriteHoldingRegister
  | H_ReadWriteMultipleHoldingRegister | H_ReadCoils | H_WriteCoil | H_WriteMultipleCoils
  | H_ReadDiscreteInputs | H_User nat

fun run_handler :: "(nat \<Rightarrow> handler) \<Rightarrow> handler_id \<Rightarrow> handler" where
  "run_handler usr H_ReportSlaveID = eMBFuncReportSlaveID"
| "run_handler usr H_ReadInputRegister = eMBFuncReadInputRegister"
| "run_handler usr H_ReadHoldingRegister = eMBFuncReadHoldingRegister"
| "run_handler usr H_WriteMultipleHoldingRegister = eMBFuncWriteMultipleHoldingRegister"
| "run_handler usr H_WriteHoldingRegister = eMBFuncWriteHoldingRegister"
| "run_handler usr H_ReadWriteMultipleHoldingRegister = eMBFuncReadWriteMultipleHoldingRegister"
| "run_handler usr H_ReadCoils = eMBFuncReadCoils"
| "run_handler usr H_WriteCoil = eMBFuncWriteCoil"
| "run_handler usr H_WriteMultipleCoils = eMBFuncWriteMultipleCoils"
| "run_handler usr H_ReadDiscreteInputs = eMBFuncReadDiscreteInputs"
| "run_handler usr (H_User k) = usr k"

section \<open>Requests whose handler leaves the coil or discrete inputs\<close>

text \<open>
  The arrays of coils and discrete inputs are two bytes, and \<open>xMBUtilSetBits\<close> and
  \<open>xMBUtilGetBits\<close> touch the byte behind the one they start in. \<open>overruns h f l\<close> decides from
  the request alone (the PDU at \<open>f\<close>, its length \<open>l\<close>) whether the library handler \<open>h\<close> makes
  such an access: the address and the count pass the checks of the handler and of the
  callback, and the bits reach beyond the first byte.
\<close>

definition overruns :: "handler_id \<Rightarrow> UCHAR list \<Rightarrow> USHORT \<Rightarrow> bool" where
  "overruns h f l = (case h of
     H_ReadCoils \<Rightarrow> unat l = 5 \<and> 0 < unat (be16 (f ! 3) (f ! 4)) \<and>
       read_overrun (unat (be16 (f ! 1) (f ! 2) + 1)) (unat (be16 (f ! 3) (f ! 4)))
   | H_ReadDiscreteInputs \<Rightarrow> unat l = 5 \<and> 0 < unat (be16 (f ! 3) (f ! 4)) \<and>
       read_overrun (unat (be16 (f ! 1) (f ! 2) + 1)) (unat (be16 (f ! 3) (f ! 4)))
   | H_WriteCoil \<Rightarrow> unat l = 5 \<and> f ! 4 = 0 \<and> (f ! 3 = 0xFF \<or> f ! 3 = 0) \<and>
       write_overrun (unat (be16 (f ! 1) (f ! 2) + 1)) 1
   | H_WriteMultipleCoils \<Rightarrow> 5 < unat l \<and> 0 < unat (be16 (f ! 3) (f ! 4)) \<and>
       bits_to_bytes (be16 (f ! 3) (f ! 4)) = f ! 5 \<and>
       write_overrun (unat (be16 (f ! 1) (f ! 2) + 1)) (unat (be16 (f ! 3) (f ! 4)))
   | _ \<Rightarrow> False)"

lemma overruns_append: "length pdu = unat l \<Longrightarrow> overruns h (pdu @ rest) l = overruns h pdu l"
  by (cases h) (auto simp: overruns_def nth_append)

section \<open>What a handler may do: the contract the dispatcher relies on\<close>

text \<open>
  On a buffer of 255 bytes (the receive buffer behind the address byte) and a PDU of at most
  254 bytes (the ASCII layer accepts one byte more than the standard allows), a handler stays
  inside every array, keeps the shape of buffer and registers, and leaves a length of at
  least 1 and at most 253, or at most that of the request; on the requests \<open>ov\<close> it leaves an
  array. \<open>handler_ok\<close> is the contract without such requests.
\<close>

definition handler_spec :: "(UCHAR list \<Rightarrow> USHORT \<Rightarrow> bool) \<Rightarrow> handler \<Rightarrow> bool" where
  "handler_spec ov h \<longleftrightarrow> (\<forall>f l r. length f = 255 \<and> regs_wf r \<and> 1 \<le> unat l \<and> unat l \<le> 254 \<longrightarrow>
     (if ov f l then h f l r = None
      else \<exists>e f' l' r'. h f l r = Some (e, f', l', r') \<and> length f' = 255 \<and> regs_wf r' \<and>
        1 \<le> unat l' \<and> unat l' \<le> max 253 (unat l)))"

definition handler_ok :: "handler \<Rightarrow> bool" where
  "handler_ok = handler_spec (\<lambda>f l. False)"

lemma handler_specI:
  assumes "\<And>f l r. length f = 255 \<Longrightarrow> regs_wf r \<Longrightarrow> 1 \<le> unat l \<Longrightarrow> unat l \<le> 254 \<Longrightarrow> ov f l \<Longrightarrow>
     h f l r = None"
    and "\<And>f l r. length f = 255 \<Longrightarrow> regs_wf r \<Longrightarrow> 1 \<le> unat l \<Longrightarrow> unat l \<le> 254 \<Longrightarrow> \<not> ov f l \<Longrightarrow>
     \<exists>e f' l' r'. h f l r = Some (e, f', l', r') \<and> length f' = 255 \<and> regs_wf r' \<and>
        1 \<le> unat l' \<and> unat l' \<le> max 253 (unat l)"
  shows "handler_spec ov h"
  unfolding handler_spec_def
proof (intro allI impI)
  fix f :: "UCHAR list" and l :: USHORT and r :: mbregs
  assume "length f = 255 \<and> regs_wf r \<and> 1 \<le> unat l \<and> unat l \<le> 254"
  with assms [of f r l] show "if ov f l then h f l r = None
      else \<exists>e f' l' r'. h f l r = Some (e, f', l', r') \<and> length f' = 255 \<and> regs_wf r' \<and>
        1 \<le> unat l' \<and> unat l' \<le> max 253 (unat l)"
    by (cases "ov f l") auto
qed

lemma handler_okI:
  assumes "\<And>f l r. length f = 255 \<Longrightarrow> regs_wf r \<Longrightarrow> 1 \<le> unat l \<Longrightarrow> unat l \<le> 254 \<Longrightarrow>
     \<exists>e f' l' r'. h f l r = Some (e, f', l', r') \<and> length f' = 255 \<and> regs_wf r' \<and>
        1 \<le> unat l' \<and> unat l' \<le> max 253 (unat l)"
  shows "handler_ok h"
  unfolding handler_ok_def by (rule handler_specI) (use assms in simp_all)

lemma handler_specD:
  assumes "handler_spec ov h" "length f = 255" "regs_wf r" "1 \<le> unat l" "unat l \<le> 254"
  shows "ov f l \<Longrightarrow> h f l r = None"
    and "\<not> ov f l \<Longrightarrow> \<exists>e f' l' r'. h f l r = Some (e, f', l', r') \<and> length f' = 255 \<and> regs_wf r' \<and>
        1 \<le> unat l' \<and> unat l' \<le> max 253 (unat l)"
  using assms unfolding handler_spec_def by (elim allE [of _ f] allE [of _ l] allE [of _ r]; simp)+

text \<open>Each callback, on a range that fits the frame, is defined and keeps the shapes.\<close>

lemma holding_cb_safe:
  assumes "regs_wf r" "p + 2 * unat n \<le> length f"
  shows "\<exists>e f' r'. eMBRegHoldingCB f p a n mode r = Some (e, f', r') \<and> length f' = length f \<and> regs_wf r' \<and>
     (e = MB_ENOERR \<longrightarrow> unat n \<le> 8)"
proof (cases "8 < unat (a - 1) + unat n")
  case True
  then show ?thesis using assms by (simp add: eMBRegHoldingCB_out)
next
  case False
  then have rng: "unat (a - 1) + unat n \<le> 8" by simp
  show ?thesis
  proof (cases mode)
    case MB_REG_READ
    with eMBRegHoldingCB_read [OF assms(1) rng assms(2)] assms rng show ?thesis
      by (simp add: regs_wf_def)
  next
    case MB_REG_WRITE
    with eMBRegHoldingCB_write [OF assms(1) rng assms(2)] assms rng show ?thesis
      by (simp add: regs_wf_def)
  qed
qed

lemma input_cb_safe:
  assumes "regs_wf r" "p + 2 * unat n \<le> length f"
  shows "\<exists>e f'. eMBRegInputCB f p a n r = Some (e, f') \<and> length f' = length f \<and>
     (e = MB_ENOERR \<longrightarrow> unat n \<le> 8)"
proof (cases "8 < unat a + unat n")
  case True
  then show ?thesis by (simp add: eMBRegInputCB_out)
next
  case False
  with eMBRegInputCB_in [OF assms(1) _ assms(2), of a] assms show ?thesis
    by (simp add: regs_wf_def)
qed

lemma coils_read_safe:
  assumes "regs_wf r" "\<not> read_overrun (unat a) (unat n)" "p + (unat n + 7) div 8 \<le> length f"
  shows "\<exists>e f'. eMBRegCoilsCB f p a n MB_REG_READ r = Some (e, f', r) \<and> length f' = length f \<and>
     (e = MB_ENOERR \<longrightarrow> unat n \<le> 16)"
proof (cases "16 < unat a + unat n")
  case True
  then show ?thesis by (simp add: eMBRegCoilsCB_out)
next
  case False
  with eMBRegCoilsCB_read [OF assms(1) _ assms(2,3)] assms(3) show ?thesis by simp
qed

lemma coils_write_safe:
  assumes "regs_wf r" "\<not> write_overrun (unat a) (unat n)" "p + (unat n + 7) div 8 \<le> length f"
  shows "\<exists>e r'. eMBRegCoilsCB f p a n MB_REG_WRITE r = Some (e, f, r') \<and> regs_wf r'"
proof (cases "16 < unat a + unat n")
  case True
  then show ?thesis using assms by (simp add: eMBRegCoilsCB_out)
next
  case False
  with eMBRegCoilsCB_write [OF assms(1) _ assms(2,3)] assms(1) show ?thesis
    by (auto simp: regs_wf_def)
qed

lemma discrete_cb_safe:
  assumes "regs_wf r" "\<not> read_overrun (unat a) (unat n)" "p + (unat n + 7) div 8 \<le> length f"
  shows "\<exists>e f'. eMBRegDiscreteCB f p a n r = Some (e, f') \<and> length f' = length f \<and>
     (e = MB_ENOERR \<longrightarrow> unat n \<le> 16)"
proof (cases "16 < unat a + unat n")
  case True
  then show ?thesis by (simp add: eMBRegDiscreteCB_out)
next
  case False
  with eMBRegDiscreteCB_in [OF assms(1) _ assms(2,3)] assms(3) show ?thesis by simp
qed

lemma div_round_up: "(x + 7) div 8 = (if x mod 8 = 0 then x div 8 else x div 8 + (1 :: nat))"
proof -
  obtain q r where x: "x = 8 * q + r" "r < 8"
    by (metis mod_less_divisor mult_div_mod_eq zero_less_numeral)
  show ?thesis
  proof (cases "r = 0")
    case False
    with x have "x + 7 = 8 * (q + 1) + (r - 1)" "r - 1 < 8" by simp_all
    then have "(x + 7) div 8 = q + 1" by (metis div_mult_self4 div_less add_0_right zero_neq_numeral)
    with x False show ?thesis by simp
  qed (simp add: x)
qed

lemma unat_and_7: "unat (c AND 7) = unat (c :: USHORT) mod 8"
proof -
  have "c AND 7 = take_bit 3 c"
    by (simp add: take_bit_eq_mask mask_eq_exp_minus_1)
  then show ?thesis by (simp add: take_bit_eq_mod unat_mod)
qed

lemma unat_plus: "unat (a :: USHORT) + unat b < 65536 \<Longrightarrow> unat (a + b) = unat a + unat b"
  by (simp add: unat_word_ariths)

lemma unat_ucast_small: "unat (x :: USHORT) < 256 \<Longrightarrow> unat (ucast x :: UCHAR) = unat x"
  by (simp add: unsigned_ucast_eq take_bit_nat_eq_self)

lemma unat_bits_to_bytes:
  assumes "unat c < 2040"
  shows "unat (bits_to_bytes c) = (unat c + 7) div 8"
proof -
  have d: "unat c div 8 < 255" using assms by (simp add: less_mult_imp_div_less)
  have q: "unat (c div 8) = unat c div 8" by (simp add: unat_div)
  have q1: "unat (c div 8 + 1) = unat c div 8 + 1" using d by (simp add: unat_plus q)
  have z: "c AND 7 = 0 \<longleftrightarrow> unat c mod 8 = 0"
    by (metis unat_and_7 unat_eq_0)
  show ?thesis
    using d by (simp add: bits_to_bytes_def z div_round_up unat_ucast_small q q1)
qed

lemma wr_hold_ok: "handler_ok eMBFuncWriteHoldingRegister"
proof (rule handler_okI)
  fix f :: "UCHAR list" and l :: USHORT and r :: mbregs
  assume f: "length f = 255" and r: "regs_wf r" and l: "1 \<le> unat l" "unat l \<le> 254"
  from holding_cb_safe [OF r, of 3 1 f "be16 (f ! 1) (f ! 2) + 1" MB_REG_WRITE] f r l
  show "\<exists>e f' l' r'. eMBFuncWriteHoldingRegister f l r = Some (e, f', l', r') \<and>
      length f' = 255 \<and> regs_wf r' \<and> 1 \<le> unat l' \<and> unat l' \<le> max 253 (unat l)"
    by (auto simp: eMBFuncWriteHoldingRegister_def mem_simps Let_def)
qed

lemma wr_mul_hold_ok: "handler_ok eMBFuncWriteMultipleHoldingRegister"
proof (rule handler_okI)
  fix f :: "UCHAR list" and l :: USHORT and r :: mbregs
  assume f: "length f = 255" and r: "regs_wf r" and l: "1 \<le> unat l" "unat l \<le> 254"
  let ?n = "be16 (f ! 3) (f ! 4)"
  have "unat ?n \<le> 120 \<Longrightarrow> \<exists>e f' r'. eMBRegHoldingCB f 6 (be16 (f ! 1) (f ! 2) + 1) ?n MB_REG_WRITE r =
      Some (e, f', r') \<and> length f' = length f \<and> regs_wf r'"
    using holding_cb_safe [OF r, of 6 ?n f "be16 (f ! 1) (f ! 2) + 1" MB_REG_WRITE] f by auto
  with f r l
  show "\<exists>e f' l' r'. eMBFuncWriteMultipleHoldingRegister f l r = Some (e, f', l', r') \<and>
      length f' = 255 \<and> regs_wf r' \<and> 1 \<le> unat l' \<and> unat l' \<le> max 253 (unat l)"
    by (auto simp: le_max_iff_disj eMBFuncWriteMultipleHoldingRegister_def mem_simps Let_def)
qed


lemma unat_double: "unat (c :: USHORT) < 1000 \<Longrightarrow> unat (c * 2) = 2 * unat c"
  by (simp add: unat_word_ariths)

lemma unat_resp_regs: "unat (c :: USHORT) \<le> 8 \<Longrightarrow> unat (2 + c * 2) = 2 + 2 * unat c"
  by (simp add: unat_plus unat_double)

lemma unat_resp_bits: "unat (c :: USHORT) \<le> 16 \<Longrightarrow>
   unat (2 + ucast (bits_to_bytes c) :: USHORT) = 2 + (unat c + 7) div 8"
  using div_sixteen [of "unat c"] by (simp add: unat_plus unat_bits_to_bytes)

lemma rd_hold_ok: "handler_ok eMBFuncReadHoldingRegister"
proof (rule handler_okI)
  fix f :: "UCHAR list" and l :: USHORT and r :: mbregs
  assume f: "length f = 255" and r: "regs_wf r" and l: "1 \<le> unat l" "unat l \<le> 254"
  let ?n = "ucast (f ! 4) :: USHORT" and ?a = "be16 (f ! 1) (f ! 2) + 1"
  let ?f = "f[0 := 3, Suc 0 := ucast (?n * 2)]"
  have "unat ?n \<le> 125 \<Longrightarrow> \<exists>e f' r'. eMBRegHoldingCB ?f 2 ?a ?n MB_REG_READ r =
      Some (e, f', r') \<and> length f' = 255 \<and> regs_wf r' \<and> (e = MB_ENOERR \<longrightarrow> unat ?n \<le> 8)"
    using holding_cb_safe [OF r, of 2 ?n ?f ?a MB_REG_READ] f by auto
  with f r l unat_resp_regs [of ?n]
  show "\<exists>e f' l' r'. eMBFuncReadHoldingRegister f l r = Some (e, f', l', r') \<and>
      length f' = 255 \<and> regs_wf r' \<and> 1 \<le> unat l' \<and> unat l' \<le> max 253 (unat l)"
    by (auto simp: eMBFuncReadHoldingRegister_def mem_simps Let_def)
qed

lemma rd_input_ok: "handler_ok eMBFuncReadInputRegister"
proof (rule handler_okI)
  fix f :: "UCHAR list" and l :: USHORT and r :: mbregs
  assume f: "length f = 255" and r: "regs_wf r" and l: "1 \<le> unat l" "unat l \<le> 254"
  let ?n = "be16 (f ! 3) (f ! 4)" and ?a = "be16 (f ! 1) (f ! 2) + 1"
  let ?f = "f[0 := 4, Suc 0 := ucast (?n * 2)]"
  have "unat ?n < 125 \<Longrightarrow> \<exists>e f'. eMBRegInputCB ?f 2 ?a ?n r =
      Some (e, f') \<and> length f' = 255 \<and> (e = MB_ENOERR \<longrightarrow> unat ?n \<le> 8)"
    using input_cb_safe [OF r, of 2 ?n ?f ?a] f by auto
  with f r l unat_resp_regs [of ?n]
  show "\<exists>e f' l' r'. eMBFuncReadInputRegister f l r = Some (e, f', l', r') \<and>
      length f' = 255 \<and> regs_wf r' \<and> 1 \<le> unat l' \<and> unat l' \<le> max 253 (unat l)"
    by (auto simp: eMBFuncReadInputRegister_def mem_simps Let_def)
qed

lemma rdwr_hold_ok: "handler_ok eMBFuncReadWriteMultipleHoldingRegister"
proof (rule handler_okI)
  fix f :: "UCHAR list" and l :: USHORT and r :: mbregs
  assume f: "length f = 255" and r: "regs_wf r" and l: "1 \<le> unat l" "unat l \<le> 254"
  let ?n = "be16 (f ! 3) (f ! 4)" and ?a = "be16 (f ! 1) (f ! 2) + 1"
  let ?wn = "be16 (f ! 7) (f ! 8)" and ?wa = "be16 (f ! 5) (f ! 6) + 1"
  let ?two = "\<lambda>g. g[0 := 23, Suc 0 := ucast (?n * 2) :: UCHAR]"
  have wr: "unat ?wn \<le> 121 \<Longrightarrow> \<exists>e f' r'. eMBRegHoldingCB f 10 ?wa ?wn MB_REG_WRITE r =
      Some (e, f', r') \<and> length f' = 255 \<and> regs_wf r'"
    using holding_cb_safe [OF r, of 10 ?wn f ?wa MB_REG_WRITE] f by auto
  have rd: "unat ?n \<le> 125 \<Longrightarrow> length f' = 255 \<Longrightarrow> regs_wf r' \<Longrightarrow>
      \<exists>e f'' r''. eMBRegHoldingCB (?two f') 2 ?a ?n MB_REG_READ r' =
      Some (e, f'', r'') \<and> length f'' = 255 \<and> regs_wf r'' \<and> (e = MB_ENOERR \<longrightarrow> unat ?n \<le> 8)" for f' r'
    using holding_cb_safe [of r' 2 ?n "?two f'" ?a MB_REG_READ] by auto
  show "\<exists>e f' l' r'. eMBFuncReadWriteMultipleHoldingRegister f l r = Some (e, f', l', r') \<and>
      length f' = 255 \<and> regs_wf r' \<and> 1 \<le> unat l' \<and> unat l' \<le> max 253 (unat l)"
  proof (cases "10 \<le> unat l \<and> 1 \<le> unat ?n \<and> unat ?n \<le> 125 \<and> 1 \<le> unat ?wn \<and> unat ?wn \<le> 121 \<and>
      2 * unat ?wn = unat (f ! 9)")
    case True
    with wr obtain e f' r' where w: "eMBRegHoldingCB f 10 ?wa ?wn MB_REG_WRITE r = Some (e, f', r')"
      "length f' = 255" "regs_wf r'" by blast
    with True rd obtain e2 f2 r2 where "eMBRegHoldingCB (?two f') 2 ?a ?n MB_REG_READ r' =
      Some (e2, f2, r2)" "length f2 = 255" "regs_wf r2" "e2 = MB_ENOERR \<longrightarrow> unat ?n \<le> 8" by blast
    with w True f l unat_resp_regs [of ?n] show ?thesis
      by (auto simp: eMBFuncReadWriteMultipleHoldingRegister_def mem_simps Let_def mult.commute)
  next
    case False
    with f r l show ?thesis
      by (auto simp: eMBFuncReadWriteMultipleHoldingRegister_def mem_simps Let_def)
  qed
qed

lemma rd_coils_ok: "handler_spec (overruns H_ReadCoils) eMBFuncReadCoils"
proof (rule handler_specI)
  fix f :: "UCHAR list" and l :: USHORT and r :: mbregs
  assume f: "length f = 255" and r: "regs_wf r" and l: "1 \<le> unat l" "unat l \<le> 254"
  let ?n = "be16 (f ! 3) (f ! 4)" and ?a = "be16 (f ! 1) (f ! 2) + 1"
  let ?f = "f[0 := 1, Suc 0 := bits_to_bytes ?n]"
  {
    assume o: "overruns H_ReadCoils f l"
    then have "unat ?n < 2000" by (auto simp: overruns_def read_overrun_def)
    with o eMBRegCoilsCB_read_over [OF r, of ?a ?n ?f 2] f show "eMBFuncReadCoils f l r = None"
      by (simp add: eMBFuncReadCoils_def overruns_def mem_simps Let_def)
  }
  assume o: "\<not> overruns H_ReadCoils f l"
  show "\<exists>e f' l' r'. eMBFuncReadCoils f l r = Some (e, f', l', r') \<and>
      length f' = 255 \<and> regs_wf r' \<and> 1 \<le> unat l' \<and> unat l' \<le> max 253 (unat l)"
  proof (cases "unat l = 5 \<and> 0 < unat ?n \<and> unat ?n < 2000")
    case True
    with o coils_read_safe [OF r, of ?a ?n 2 ?f] f unat_resp_bits [of ?n] div_sixteen [of "unat ?n"]
      div_le_mono [of "unat ?n + 7" 2006 8]
    show ?thesis
      by (auto simp: eMBFuncReadCoils_def overruns_def mem_simps Let_def r)
  next
    case False
    with f r l show ?thesis by (auto simp: eMBFuncReadCoils_def mem_simps Let_def)
  qed
qed

lemma wr_coil_ok: "handler_spec (overruns H_WriteCoil) eMBFuncWriteCoil"
proof (rule handler_specI)
  fix f :: "UCHAR list" and l :: USHORT and r :: mbregs
  assume f: "length f = 255" and r: "regs_wf r" and l: "1 \<le> unat l" "unat l \<le> 254"
  let ?a = "be16 (f ! 1) (f ! 2) + 1" and ?b = "[if f ! 3 = 0xFF then 1 else 0, 0 :: UCHAR]"
  {
    assume "overruns H_WriteCoil f l"
    with eMBRegCoilsCB_write_over [OF r, of ?a 1 ?b 0] f show "eMBFuncWriteCoil f l r = None"
      by (auto simp: eMBFuncWriteCoil_def overruns_def mem_simps Let_def)
  }
  assume o: "\<not> overruns H_WriteCoil f l"
  show "\<exists>e f' l' r'. eMBFuncWriteCoil f l r = Some (e, f', l', r') \<and>
      length f' = 255 \<and> regs_wf r' \<and> 1 \<le> unat l' \<and> unat l' \<le> max 253 (unat l)"
  proof (cases "unat l = 5 \<and> f ! 4 = 0 \<and> (f ! 3 = 0xFF \<or> f ! 3 = 0)")
    case True
    with o coils_write_safe [OF r, of ?a 1 0 ?b] f show ?thesis
      by (auto simp: eMBFuncWriteCoil_def overruns_def mem_simps Let_def)
  next
    case False
    with f r l show ?thesis by (auto simp: eMBFuncWriteCoil_def mem_simps Let_def)
  qed
qed

lemma wr_mul_coils_ok: "handler_spec (overruns H_WriteMultipleCoils) eMBFuncWriteMultipleCoils"
proof (rule handler_specI)
  fix f :: "UCHAR list" and l :: USHORT and r :: mbregs
  assume f: "length f = 255" and r: "regs_wf r" and l: "1 \<le> unat l" "unat l \<le> 254"
  let ?n = "be16 (f ! 3) (f ! 4)" and ?a = "be16 (f ! 1) (f ! 2) + 1"
  {
    assume o: "overruns H_WriteMultipleCoils f l"
    then have "unat ?n \<le> 1968" by (auto simp: overruns_def write_overrun_def)
    with o eMBRegCoilsCB_write_over [OF r, of ?a ?n f 6] f show "eMBFuncWriteMultipleCoils f l r = None"
      by (simp add: eMBFuncWriteMultipleCoils_def overruns_def mem_simps Let_def)
  }
  assume o: "\<not> overruns H_WriteMultipleCoils f l"
  show "\<exists>e f' l' r'. eMBFuncWriteMultipleCoils f l r = Some (e, f', l', r') \<and>
      length f' = 255 \<and> regs_wf r' \<and> 1 \<le> unat l' \<and> unat l' \<le> max 253 (unat l)"
  proof (cases "5 < unat l \<and> 0 < unat ?n \<and> unat ?n \<le> 1968 \<and> bits_to_bytes ?n = f ! 5")
    case True
    with o coils_write_safe [OF r, of ?a ?n 6 f] f div_le_mono [of "unat ?n + 7" 1975 8] show ?thesis
      by (auto simp: eMBFuncWriteMultipleCoils_def overruns_def le_max_iff_disj mem_simps Let_def)
  next
    case False
    with f r l show ?thesis
      by (auto simp: eMBFuncWriteMultipleCoils_def le_max_iff_disj mem_simps Let_def)
  qed
qed

lemma rd_discrete_ok: "handler_spec (overruns H_ReadDiscreteInputs) eMBFuncReadDiscreteInputs"
proof (rule handler_specI)
  fix f :: "UCHAR list" and l :: USHORT and r :: mbregs
  assume f: "length f = 255" and r: "regs_wf r" and l: "1 \<le> unat l" "unat l \<le> 254"
  let ?n = "be16 (f ! 3) (f ! 4)" and ?a = "be16 (f ! 1) (f ! 2) + 1"
  let ?f = "f[0 := 2, Suc 0 := bits_to_bytes ?n]"
  {
    assume o: "overruns H_ReadDiscreteInputs f l"
    then have "unat ?n < 2000" by (auto simp: overruns_def read_overrun_def)
    with o eMBRegDiscreteCB_over [OF r, of ?a ?n ?f 2] f show "eMBFuncReadDiscreteInputs f l r = None"
      by (simp add: eMBFuncReadDiscreteInputs_def overruns_def mem_simps Let_def)
  }
  assume o: "\<not> overruns H_ReadDiscreteInputs f l"
  show "\<exists>e f' l' r'. eMBFuncReadDiscreteInputs f l r = Some (e, f', l', r') \<and>
      length f' = 255 \<and> regs_wf r' \<and> 1 \<le> unat l' \<and> unat l' \<le> max 253 (unat l)"
  proof (cases "unat l = 5 \<and> 0 < unat ?n \<and> unat ?n < 2000")
    case True
    with o discrete_cb_safe [OF r, of ?a ?n 2 ?f] f unat_resp_bits [of ?n] div_sixteen [of "unat ?n"]
      div_le_mono [of "unat ?n + 7" 2006 8]
    show ?thesis
      by (auto simp: eMBFuncReadDiscreteInputs_def overruns_def mem_simps Let_def r)
  next
    case False
    with f r l show ?thesis by (auto simp: eMBFuncReadDiscreteInputs_def mem_simps Let_def)
  qed
qed

lemma report_id_ok: "handler_ok eMBFuncReportSlaveID"
proof (rule handler_okI)
  fix f :: "UCHAR list" and l :: USHORT and r :: mbregs
  assume f: "length f = 255" and r: "regs_wf r" and l: "1 \<le> unat l" "unat l \<le> 254"
  then show "\<exists>e f' l' r'. eMBFuncReportSlaveID f l r = Some (e, f', l', r') \<and>
      length f' = 255 \<and> regs_wf r' \<and> 1 \<le> unat l' \<and> unat l' \<le> max 253 (unat l)"
    by (simp add: le_max_iff_disj eMBFuncReportSlaveID_def rds_def mem_simps regs_wf_def unat_plus)
qed

lemma overwrite_two:
  "1 < length m \<Longrightarrow> overwrite (m[0 := a, Suc 0 := b]) 2 vs = overwrite m 0 (a # b # vs)"
proof -
  assume "1 < length m"
  then have "m \<noteq> []" by auto
  with \<open>1 < length m\<close> show ?thesis by (simp add: numeral_2_eq_2 overwrite_Cons)
qed

lemma eMBSetSlaveID_in:
  assumes "regs_wf r" "unat n + 2 < 32" "unat n \<le> length extra"
  shows "eMBSetSlaveID ident running extra n r = Some (MB_ENOERR,
    r\<lparr>ucMBSlaveID := overwrite (ucMBSlaveID r) 0
         (ident # (if running then 0xFF else 0) # take (unat n) extra),
      usMBSlaveIDLen := 2 + n\<rparr>)"
proof (cases "n = 0")
  case True
  with assms show ?thesis
    by (simp add: eMBSetSlaveID_def regs_wf_def mem_simps flip: overwrite_Cons)
next
  case False
  with assms show ?thesis
    by (simp add: eMBSetSlaveID_def regs_wf_def mem_simps rds_def word_neq_0_conv [symmetric]
        overwrite_two)
qed

lemmas full_handlers_ok =
  wr_hold_ok wr_mul_hold_ok rd_hold_ok rdwr_hold_ok rd_input_ok report_id_ok

lemma run_handler_spec:
  assumes "\<And>k. h = H_User k \<Longrightarrow> handler_ok (usr k)"
  shows "handler_spec (overruns h) (run_handler usr h)"
proof -
  have no: "overruns h = (\<lambda>f l. False)"
    if "h \<notin> {H_ReadCoils, H_WriteCoil, H_WriteMultipleCoils, H_ReadDiscreteInputs}"
    using that by (cases h) (auto simp: overruns_def fun_eq_iff)
  show ?thesis
  proof (cases "h \<in> {H_ReadCoils, H_WriteCoil, H_WriteMultipleCoils, H_ReadDiscreteInputs}")
    case True
    then show ?thesis
      by (elim insertE) (simp_all add: rd_coils_ok wr_coil_ok wr_mul_coils_ok rd_discrete_ok)
  next
    case False
    then have "handler_ok (run_handler usr h)"
      using assms full_handlers_ok by (cases h) simp_all
    with no [OF False] show ?thesis by (simp add: handler_ok_def)
  qed
qed

section \<open>Properties\<close>





text \<open>
  Function 1 on every branch: a request for 1 to 1999 coils at PDU address \<open>a\<close> is answered
  with function code, byte count and the packed coils from number \<open>a + 1\<close> (not \<open>a\<close>) on, when
  that range ends within the 16 coils and the read loop stays inside the two bytes (it
  leaves them when the range starts at coil 8 or later or has more than eight coils); coil 0
  is reached only through address 0xFFFF, whose increment wraps; a range that ends beyond the
  16 coils is an illegal data address, a wrong length or count an illegal data value.
\<close>

theorem eMBFuncReadCoils_behaviour:
  assumes "length f = 255" and "regs_wf r"
  shows "eMBFuncReadCoils f l r =
    (let a = unat (be16 (f ! 1) (f ! 2) + 1); w = be16 (f ! 3) (f ! 4); n = unat w; b = bits_to_bytes w in
     if unat l \<noteq> 5 \<or> n = 0 \<or> 2000 \<le> n then Some (MB_EX_ILLEGAL_DATA_VALUE, f, l, r)
     else if 16 < a + n then Some (MB_EX_ILLEGAL_DATA_ADDRESS, overwrite f 0 [1, b], 2, r)
     else if 8 \<le> a \<or> 8 < n then None
     else Some (MB_EX_NONE, overwrite f 0 (1 # b # pack_bits (\<lambda>i. bit_at (ucRegCoilsBuf r) (a + i)) n),
       2 + ucast b, r))"
proof -
  let ?n = "be16 (f ! 3) (f ! 4)" and ?a = "be16 (f ! 1) (f ! 2) + 1"
  let ?f = "f[0 := 1, Suc 0 := bits_to_bytes ?n]"
  have f2: "?f = overwrite f 0 [1, bits_to_bytes ?n]"
    using overwrite_two [of f 1 "bits_to_bytes ?n" "[]"] assms(1) by simp
  consider (bad) "unat l \<noteq> 5 \<or> unat ?n = 0 \<or> 2000 \<le> unat ?n"
    | (address) "unat l = 5" "0 < unat ?n" "unat ?n < 2000" "16 < unat ?a + unat ?n"
    | (over) "unat l = 5" "0 < unat ?n" "unat ?n < 2000" "unat ?a + unat ?n \<le> 16"
        "8 \<le> unat ?a \<or> 8 < unat ?n"
    | (fine) "unat l = 5" "0 < unat ?n" "unat ?n < 2000" "unat ?a + unat ?n \<le> 16"
        "\<not> (8 \<le> unat ?a \<or> 8 < unat ?n)"
    by linarith
  then show ?thesis
  proof cases
    case bad
    with assms show ?thesis by (auto simp: eMBFuncReadCoils_def mem_simps Let_def)
  next
    case address
    then have "eMBRegCoilsCB ?f 2 ?a ?n MB_REG_READ r = Some (MB_ENOREG, ?f, r)"
      by (intro eMBRegCoilsCB_out)
    with address assms show ?thesis by (simp add: eMBFuncReadCoils_def mem_simps Let_def f2)
  next
    case over
    then have "eMBRegCoilsCB ?f 2 ?a ?n MB_REG_READ r = None"
      using assms by (intro eMBRegCoilsCB_read_over) (simp_all add: read_overrun_def)
    with over assms show ?thesis by (simp add: eMBFuncReadCoils_def mem_simps Let_def)
  next
    case fine
    let ?p = "pack_bits (\<lambda>i. bit_at (ucRegCoilsBuf r) (unat ?a + i)) (unat ?n)"
    have "overwrite ?f 2 ?p = overwrite f 0 (1 # bits_to_bytes ?n # ?p)"
      using assms(1) by (intro overwrite_two) simp
    moreover have "eMBRegCoilsCB ?f 2 ?a ?n MB_REG_READ r = Some (MB_ENOERR, overwrite ?f 2 ?p, r)"
      using fine assms div_sixteen [of "unat ?n"]
      by (intro eMBRegCoilsCB_read) (simp_all add: read_overrun_def)
    ultimately show ?thesis using fine assms by (simp add: eMBFuncReadCoils_def mem_simps Let_def)
  qed
qed

text \<open>Coil number 0 is on; a request for one coil at address 0 answers with coil number 1.\<close>

theorem eMBFuncReadCoils_behaviour_witness:
  "\<exists>f'. eMBFuncReadCoils ([1, 0, 0, 0, 1] @ replicate 250 0) 5 mbregs_init =
     Some (MB_EX_NONE, f', 3, mbregs_init) \<and> f' ! 2 = 0"
proof -
  have "bits_to_bytes 1 = 1" by (simp add: bits_to_bytes_def)
  moreover have "be16 0 0 = 0" "be16 0 1 = 1" by (simp_all add: be16_def)
  moreover have "pack_bits (\<lambda>i. bit_at ([1, 2] :: UCHAR list) (1 + i)) 1 = [0]"
  proof -
    have "pack_byte (\<lambda>i. i < 1 \<and> bit_at ([1, 2] :: UCHAR list) (Suc i)) = 0"
      by (rule bit_word_eqI) (auto simp: bit_pack_byte bit_at_def)
    then show ?thesis by (simp add: pack_bits_def)
  qed
  ultimately show ?thesis
    using eMBFuncReadCoils_behaviour [of "[1, 0, 0, 0, 1] @ replicate 250 0" "mbregs_init" 5]
    by (simp add: regs_wf_init Let_def overwrite_def)
qed

text \<open>
  Function 4 on every branch: 1 to 124 input registers (125, the largest number the
  protocol allows, is refused) from register \<open>a + 1\<close> on for PDU address \<open>a\<close>, big endian, when
  that range ends within the eight registers; an illegal data address otherwise.
\<close>

theorem eMBFuncReadInputRegister_behaviour:
  assumes "length f = 255" and "regs_wf r" and "unat l = 5"
  shows "eMBFuncReadInputRegister f l r =
    (let a = unat (be16 (f ! 1) (f ! 2) + 1); w = be16 (f ! 3) (f ! 4); n = unat w; b = ucast (w * 2) in
     if n = 0 \<or> 125 \<le> n then Some (MB_EX_ILLEGAL_DATA_VALUE, f, l, r)
     else if a + n \<le> 8
     then Some (MB_EX_NONE, overwrite f 0 (4 # b # reg_bytes (take n (drop a (usRegInputBuf r)))),
       2 + w * 2, r)
     else Some (MB_EX_ILLEGAL_DATA_ADDRESS, overwrite f 0 [4, b], 2, r))"
proof -
  let ?n = "be16 (f ! 3) (f ! 4)" and ?a = "be16 (f ! 1) (f ! 2) + 1"
  let ?f = "f[0 := 4, Suc 0 := ucast (?n * 2)]"
  have f2: "?f = overwrite f 0 [4, ucast (?n * 2)]"
    using overwrite_two [of f 4 "ucast (?n * 2)" "[]"] assms(1) by simp
  show ?thesis
  proof (cases "unat ?n = 0 \<or> 125 \<le> unat ?n")
    case True
    with assms show ?thesis
      by (auto simp: eMBFuncReadInputRegister_def mem_simps Let_def)
  next
    case n: False
    show ?thesis
    proof (cases "unat ?a + unat ?n \<le> 8")
      case True
      let ?p = "reg_bytes (take (unat ?n) (drop (unat ?a) (usRegInputBuf r)))"
      have "overwrite ?f 2 ?p = overwrite f 0 (4 # ucast (?n * 2) # ?p)"
        using assms(1) by (intro overwrite_two) simp
      moreover have "eMBRegInputCB ?f 2 ?a ?n r = Some (MB_ENOERR, overwrite ?f 2 ?p)"
        using True assms by (intro eMBRegInputCB_in) simp_all
      ultimately show ?thesis using n True assms
        by (simp add: eMBFuncReadInputRegister_def mem_simps Let_def)
    next
      case False
      then have "eMBRegInputCB ?f 2 ?a ?n r = Some (MB_ENOREG, ?f)"
        by (intro eMBRegInputCB_out) simp
      with n False assms show ?thesis
        by (simp add: eMBFuncReadInputRegister_def mem_simps Let_def f2)
    qed
  qed
qed

theorem eMBFuncReadInputRegister_behaviour_witness:
  "eMBFuncReadInputRegister ([4, 0, 0, 0, 1] @ replicate 250 0) 5 mbregs_init =
     Some (MB_EX_NONE, overwrite ([4, 0, 0, 0, 1] @ replicate 250 0) 0 [4, 2, 0x10, 0x01], 4,
       mbregs_init)"
  using eMBFuncReadInputRegister_behaviour
    [of "[4, 0, 0, 0, 1] @ replicate 250 0" mbregs_init 5]
  by (simp add: regs_wf_init be16_def Let_def hi8_def lo8_def)

text \<open>
  Function 16 on every branch: 1 to 120 registers with a matching byte count are stored
  from register \<open>a\<close> on (the address is incremented by the handler and decremented by the
  callback) when they end within the eight registers, and the answer is the first five bytes
  of the request. The values are taken from offset 6 of the buffer whatever the length of the
  request: a request too short to carry them stores bytes of earlier frames.
\<close>

theorem eMBFuncWriteMultipleHoldingRegister_behaviour:
  assumes "length f = 255" and "regs_wf r" and "6 \<le> unat l"
  shows "eMBFuncWriteMultipleHoldingRegister f l r =
    (let a = unat (be16 (f ! 1) (f ! 2)); w = be16 (f ! 3) (f ! 4); n = unat w in
     if n = 0 \<or> 120 < n \<or> f ! 5 \<noteq> ucast (2 * w) then Some (MB_EX_ILLEGAL_DATA_VALUE, f, l, r)
     else if a + n \<le> 8
     then Some (MB_EX_NONE, f, 5, r\<lparr>usRegHoldingBuf := overwrite (usRegHoldingBuf r) a (reg_words f 6 n)\<rparr>)
     else Some (MB_EX_ILLEGAL_DATA_ADDRESS, f, l, r))"
proof (cases "unat (be16 (f ! 1) (f ! 2)) + unat (be16 (f ! 3) (f ! 4)) \<le> 8")
  case True
  with eMBRegHoldingCB_write [OF assms(2), of "be16 (f ! 1) (f ! 2) + 1" "be16 (f ! 3) (f ! 4)" 6 f] assms
  show ?thesis
    by (simp add: eMBFuncWriteMultipleHoldingRegister_def mem_simps Let_def)
next
  case False
  with eMBRegHoldingCB_out [of "be16 (f ! 1) (f ! 2) + 1" "be16 (f ! 3) (f ! 4)" f 6 MB_REG_WRITE r] assms
  show ?thesis
    by (simp add: eMBFuncWriteMultipleHoldingRegister_def mem_simps Let_def)
qed

text \<open>A request of six bytes, with no values, stores the bytes behind it.\<close>

theorem eMBFuncWriteMultipleHoldingRegister_behaviour_witness:
  "\<exists>r'. eMBFuncWriteMultipleHoldingRegister ([16, 0, 0, 0, 1, 2, 7, 9] @ replicate 247 0) 6 mbregs_init =
     Some (MB_EX_NONE, [16, 0, 0, 0, 1, 2, 7, 9] @ replicate 247 0, 5, r') \<and>
   usRegHoldingBuf r' ! 0 = be16 7 9"
proof -
  have "be16 0 0 = 0" "be16 0 1 = 1" by (simp_all add: be16_def)
  then show ?thesis
    using eMBFuncWriteMultipleHoldingRegister_behaviour
      [of "[16, 0, 0, 0, 1, 2, 7, 9] @ replicate 247 0" "mbregs_init" 6]
    by (simp add: regs_wf_init Let_def overwrite_def reg_words_def)
qed

text \<open>
  C23. Function 23: a request shorter than ten bytes is answered with no exception and no
  effect, so that it is sent back as it came; otherwise, with counts and byte count in range,
  the registers are written first and stay written even when the read range that follows is
  illegal; the answer reads the registers as written.
\<close>

theorem eMBFuncReadWriteMultipleHoldingRegister_behaviour:
  assumes "length f = 255" and "regs_wf r"
  shows "eMBFuncReadWriteMultipleHoldingRegister f l r =
    (if unat l < 10 then Some (MB_EX_NONE, f, l, r)
     else let ra = unat (be16 (f ! 1) (f ! 2)); rw = be16 (f ! 3) (f ! 4); rn = unat rw;
              wa = unat (be16 (f ! 5) (f ! 6)); wn = unat (be16 (f ! 7) (f ! 8));
              regs = overwrite (usRegHoldingBuf r) wa (reg_words f 10 wn);
              b = ucast (rw * 2)
     in if rn = 0 \<or> 125 < rn \<or> wn = 0 \<or> 121 < wn \<or> 2 * wn \<noteq> unat (f ! 9)
        then Some (MB_EX_ILLEGAL_DATA_VALUE, f, l, r)
        else if 8 < wa + wn then Some (MB_EX_ILLEGAL_DATA_ADDRESS, f, l, r)
        else if 8 < ra + rn
        then Some (MB_EX_ILLEGAL_DATA_ADDRESS, overwrite f 0 [23, b], 2, r\<lparr>usRegHoldingBuf := regs\<rparr>)
        else Some (MB_EX_NONE, overwrite f 0 (23 # b # reg_bytes (take rn (drop ra regs))),
          2 + 2 * rw, r\<lparr>usRegHoldingBuf := regs\<rparr>))"
proof -
  let ?ra = "be16 (f ! 1) (f ! 2) + 1" and ?rn = "be16 (f ! 3) (f ! 4)"
  let ?wa = "be16 (f ! 5) (f ! 6) + 1" and ?wn = "be16 (f ! 7) (f ! 8)"
  let ?regs = "overwrite (usRegHoldingBuf r) (unat (?wa - 1)) (reg_words f 10 (unat ?wn))"
  let ?r = "r\<lparr>usRegHoldingBuf := ?regs\<rparr>"
  let ?f = "f[0 := 23, Suc 0 := ucast (?rn * 2)]"
  have f2: "?f = overwrite f 0 [23, ucast (?rn * 2)]"
    using overwrite_two [of f 23 "ucast (?rn * 2)" "[]"] assms(1) by simp
  note D = eMBFuncReadWriteMultipleHoldingRegister_def
  show ?thesis
  proof (cases "unat l < 10 \<or> unat ?rn = 0 \<or> 125 < unat ?rn \<or> unat ?wn = 0 \<or> 121 < unat ?wn \<or>
      2 * unat ?wn \<noteq> unat (f ! 9)")
    case True
    with assms(1) show ?thesis by (auto simp: D mem_simps Let_def)
  next
    case ok: False
    show ?thesis
    proof (cases "8 < unat (?wa - 1) + unat ?wn")
      case True
      with eMBRegHoldingCB_out [of ?wa ?wn f 10 MB_REG_WRITE r] ok assms(1) show ?thesis
        by (simp add: D mem_simps Let_def)
    next
      case False
      then have w: "eMBRegHoldingCB f 10 ?wa ?wn MB_REG_WRITE r = Some (MB_ENOERR, f, ?r)"
        using ok assms by (intro eMBRegHoldingCB_write) simp_all
      have wf: "regs_wf ?r"
        using assms(2) False by (simp add: regs_wf_def)
      show ?thesis
      proof (cases "8 < unat (?ra - 1) + unat ?rn")
        case True
        then have "eMBRegHoldingCB ?f 2 ?ra ?rn MB_REG_READ ?r = Some (MB_ENOREG, ?f, ?r)"
          by (rule eMBRegHoldingCB_out)
        with w ok True False assms(1) f2 show ?thesis
          by (simp add: D mem_simps Let_def)
      next
        case rd: False
        let ?p = "reg_bytes (take (unat ?rn) (drop (unat (?ra - 1)) ?regs))"
        have "overwrite ?f 2 ?p = overwrite f 0 (23 # ucast (?rn * 2) # ?p)"
          using assms(1) by (intro overwrite_two) simp
        moreover have "eMBRegHoldingCB ?f 2 ?ra ?rn MB_REG_READ ?r = Some (MB_ENOERR, overwrite ?f 2 ?p, ?r)"
          using eMBRegHoldingCB_read [OF wf, of ?ra ?rn 2 ?f] rd ok assms(1) by simp
        ultimately show ?thesis using w ok False rd assms(1)
          by (simp add: D mem_simps Let_def)
      qed
    qed
  qed
qed

theorem eMBFuncReadWriteMultipleHoldingRegister_behaviour_witness:
  "eMBFuncReadWriteMultipleHoldingRegister ([23, 0, 0, 0, 1] @ replicate 250 0) 5 mbregs_init =
     Some (MB_EX_NONE, [23, 0, 0, 0, 1] @ replicate 250 0, 5, mbregs_init)"
  using eMBFuncReadWriteMultipleHoldingRegister_behaviour
    [of "[23, 0, 0, 0, 1] @ replicate 250 0" mbregs_init 5]
  by (simp add: regs_wf_init)

end
