(* ===== verification/MBCrc.thy ===== *)
theory MBCrc
  imports CPrelude
begin

text \<open>
  \<open>rtu/mbcrc.c\<close>: the table-driven CRC of the Modbus RTU frames. The two 256-entry
  tables are the source's; \<open>usMBCRC16\<close> is its loop over a byte array. The lemmas
  relate it to the bitwise definition of the Modbus CRC (shift register, reflected
  polynomial 0xA001) and derive what the receiver relies on: a frame followed by its own
  CRC (low byte first) has CRC 0, and a corruption confined to two neighbouring bytes is
  always noticed.
\<close>

section \<open>The code\<close>

definition aucCRCHi :: "UCHAR list" where
  "aucCRCHi = [
    0x00, 0xC1, 0x81, 0x40, 0x01, 0xC0, 0x80, 0x41, 0x01, 0xC0, 0x80, 0x41,
    0x00, 0xC1, 0x81, 0x40, 0x01, 0xC0, 0x80, 0x41, 0x00, 0xC1, 0x81, 0x40,
    0x00, 0xC1, 0x81, 0x40, 0x01, 0xC0, 0x80, 0x41, 0x01, 0xC0, 0x80, 0x41,
    0x00, 0xC1, 0x81, 0x40, 0x00, 0xC1, 0x81, 0x40, 0x01, 0xC0, 0x80, 0x41,
    0x00, 0xC1, 0x81, 0x40, 0x01, 0xC0, 0x80, 0x41, 0x01, 0xC0, 0x80, 0x41,
    0x00, 0xC1, 0x81, 0x40, 0x01, 0xC0, 0x80, 0x41, 0x00, 0xC1, 0x81, 0x40,
    0x00, 0xC1, 0x81, 0x40, 0x01, 0xC0, 0x80, 0x41, 0x00, 0xC1, 0x81, 0x40,
    0x01, 0xC0, 0x80, 0x41, 0x01, 0xC0, 0x80, 0x41, 0x00, 0xC1, 0x81, 0x40,
    0x00, 0xC1, 0x81, 0x40, 0x01, 0xC0, 0x80, 0x41, 0x01, 0xC0, 0x80, 0x41,
    0x00, 0xC1, 0x81, 0x40, 0x01, 0xC0, 0x80, 0x41, 0x00, 0xC1, 0x81, 0x40,
    0x00, 0xC1, 0x81, 0x40, 0x01, 0xC0, 0x80, 0x41, 0x01, 0xC0, 0x80, 0x41,
    0x00, 0xC1, 0x81, 0x40, 0x00, 0xC1, 0x81, 0x40, 0x01, 0xC0, 0x80, 0x41,
    0x00, 0xC1, 0x81, 0x40, 0x01, 0xC0, 0x80, 0x41, 0x01, 0xC0, 0x80, 0x41,
    0x00, 0xC1, 0x81, 0x40, 0x00, 0xC1, 0x81, 0x40, 0x01, 0xC0, 0x80, 0x41,
    0x01, 0xC0, 0x80, 0x41, 0x00, 0xC1, 0x81, 0x40, 0x01, 0xC0, 0x80, 0x41,
    0x00, 0xC1, 0x81, 0x40, 0x00, 0xC1, 0x81, 0x40, 0x01, 0xC0, 0x80, 0x41,
    0x00, 0xC1, 0x81, 0x40, 0x01, 0xC0, 0x80, 0x41, 0x01, 0xC0, 0x80, 0x41,
    0x00, 0xC1, 0x81, 0x40, 0x01, 0xC0, 0x80, 0x41, 0x00, 0xC1, 0x81, 0x40,
    0x00, 0xC1, 0x81, 0x40, 0x01, 0xC0, 0x80, 0x41, 0x01, 0xC0, 0x80, 0x41,
    0x00, 0xC1, 0x81, 0x40, 0x00, 0xC1, 0x81, 0x40, 0x01, 0xC0, 0x80, 0x41,
    0x00, 0xC1, 0x81, 0x40, 0x01, 0xC0, 0x80, 0x41, 0x01, 0xC0, 0x80, 0x41,
    0x00, 0xC1, 0x81, 0x40]"

definition aucCRCLo :: "UCHAR list" where
  "aucCRCLo = [
    0x00, 0xC0, 0xC1, 0x01, 0xC3, 0x03, 0x02, 0xC2, 0xC6, 0x06, 0x07, 0xC7,
    0x05, 0xC5, 0xC4, 0x04, 0xCC, 0x0C, 0x0D, 0xCD, 0x0F, 0xCF, 0xCE, 0x0E,
    0x0A, 0xCA, 0xCB, 0x0B, 0xC9, 0x09, 0x08, 0xC8, 0xD8, 0x18, 0x19, 0xD9,
    0x1B, 0xDB, 0xDA, 0x1A, 0x1E, 0xDE, 0xDF, 0x1F, 0xDD, 0x1D, 0x1C, 0xDC,
    0x14, 0xD4, 0xD5, 0x15, 0xD7, 0x17, 0x16, 0xD6, 0xD2, 0x12, 0x13, 0xD3,
    0x11, 0xD1, 0xD0, 0x10, 0xF0, 0x30, 0x31, 0xF1, 0x33, 0xF3, 0xF2, 0x32,
    0x36, 0xF6, 0xF7, 0x37, 0xF5, 0x35, 0x34, 0xF4, 0x3C, 0xFC, 0xFD, 0x3D,
    0xFF, 0x3F, 0x3E, 0xFE, 0xFA, 0x3A, 0x3B, 0xFB, 0x39, 0xF9, 0xF8, 0x38,
    0x28, 0xE8, 0xE9, 0x29, 0xEB, 0x2B, 0x2A, 0xEA, 0xEE, 0x2E, 0x2F, 0xEF,
    0x2D, 0xED, 0xEC, 0x2C, 0xE4, 0x24, 0x25, 0xE5, 0x27, 0xE7, 0xE6, 0x26,
    0x22, 0xE2, 0xE3, 0x23, 0xE1, 0x21, 0x20, 0xE0, 0xA0, 0x60, 0x61, 0xA1,
    0x63, 0xA3, 0xA2, 0x62, 0x66, 0xA6, 0xA7, 0x67, 0xA5, 0x65, 0x64, 0xA4,
    0x6C, 0xAC, 0xAD, 0x6D, 0xAF, 0x6F, 0x6E, 0xAE, 0xAA, 0x6A, 0x6B, 0xAB,
    0x69, 0xA9, 0xA8, 0x68, 0x78, 0xB8, 0xB9, 0x79, 0xBB, 0x7B, 0x7A, 0xBA,
    0xBE, 0x7E, 0x7F, 0xBF, 0x7D, 0xBD, 0xBC, 0x7C, 0xB4, 0x74, 0x75, 0xB5,
    0x77, 0xB7, 0xB6, 0x76, 0x72, 0xB2, 0xB3, 0x73, 0xB1, 0x71, 0x70, 0xB0,
    0x50, 0x90, 0x91, 0x51, 0x93, 0x53, 0x52, 0x92, 0x96, 0x56, 0x57, 0x97,
    0x55, 0x95, 0x94, 0x54, 0x9C, 0x5C, 0x5D, 0x9D, 0x5F, 0x9F, 0x9E, 0x5E,
    0x5A, 0x9A, 0x9B, 0x5B, 0x99, 0x59, 0x58, 0x98, 0x88, 0x48, 0x49, 0x89,
    0x4B, 0x8B, 0x8A, 0x4A, 0x4E, 0x8E, 0x8F, 0x4F, 0x8D, 0x4D, 0x4C, 0x8C,
    0x44, 0x84, 0x85, 0x45, 0x87, 0x47, 0x46, 0x86, 0x82, 0x42, 0x43, 0x83,
    0x41, 0x81, 0x80, 0x40]"

text \<open>
  \<open>while( usLen-- )\<close>: the loop runs \<open>usLen\<close> times, reading \<open>*pucFrame++\<close>; a read behind
  the array is None.
\<close>

fun crc_loop :: "UCHAR list \<Rightarrow> nat \<Rightarrow> nat \<Rightarrow> UCHAR \<Rightarrow> UCHAR \<Rightarrow> (UCHAR \<times> UCHAR) option" where
  "crc_loop m p 0 ucCRCHi ucCRCLo = Some (ucCRCHi, ucCRCLo)"
| "crc_loop m p (Suc n) ucCRCHi ucCRCLo = do {
     b \<leftarrow> rd m p;
     let iIndex = unat (ucCRCLo XOR b);
     crc_loop m (Suc p) n (aucCRCLo ! iIndex) (ucCRCHi XOR aucCRCHi ! iIndex)
   }"

definition usMBCRC16 :: "UCHAR list \<Rightarrow> nat \<Rightarrow> USHORT \<Rightarrow> USHORT option" where
  "usMBCRC16 m pucFrame usLen = do {
     (ucCRCHi, ucCRCLo) \<leftarrow> crc_loop m pucFrame (unat usLen) 0xFF 0xFF;
     Some (be16 ucCRCHi ucCRCLo)
   }"

section \<open>The reference: a 16-bit shift register\<close>

definition crc_bit :: "USHORT \<Rightarrow> USHORT" where
  "crc_bit c = (if bit c 0 then drop_bit 1 c XOR 0xA001 else drop_bit 1 c)"

definition crc_byte :: "USHORT \<Rightarrow> UCHAR \<Rightarrow> USHORT" where
  "crc_byte c b = (crc_bit ^^ 8) (c XOR ucast b)"

definition crc16 :: "UCHAR list \<Rightarrow> USHORT" where
  "crc16 bs = foldl crc_byte 0xFFFF bs"

section \<open>The tables are the register's eight-step images\<close>

definition crc_table :: "nat \<Rightarrow> USHORT" where
  "crc_table i = be16 (aucCRCLo ! i) (aucCRCHi ! i)"

lemma crc_bit_xor: "crc_bit (a XOR b) = crc_bit a XOR crc_bit b"
  by (rule bit_word_eqI) (auto simp: crc_bit_def bit_simps)

lemma crc_bits_xor: "(crc_bit ^^ n) (a XOR b) = (crc_bit ^^ n) a XOR (crc_bit ^^ n) b"
  by (induction n arbitrary: a b) (simp_all add: crc_bit_xor)

lemma crc_bits_0 [simp]: "(crc_bit ^^ n) 0 = 0"
  by (induction n) (simp_all add: crc_bit_def)

definition span_table :: "USHORT list \<Rightarrow> USHORT list" where
  "span_table basis = foldl (\<lambda>t b. t @ map ((XOR) b) t) [0] basis"

lemma not_bit_small: "i < 2 ^ n \<Longrightarrow> \<not> bit (i :: nat) n"
  by (simp add: bit_iff_odd)

lemma of_nat_add_pow: "i < 2 ^ n \<Longrightarrow> (of_nat (2 ^ n + i) :: USHORT) = 2 ^ n XOR of_nat i"
proof -
  assume i: "i < 2 ^ n"
  have "(2 ^ n :: USHORT) + of_nat i = 2 ^ n OR of_nat i"
    using not_bit_small [OF i] by (intro disjunctive_add) (auto simp: bit_simps)
  moreover have "(2 ^ n :: USHORT) OR of_nat i = 2 ^ n XOR of_nat i"
    using not_bit_small [OF i] by (intro bit_word_eqI) (auto simp: bit_simps)
  ultimately show ?thesis by simp
qed

lemma upt_double: "[0..<2 ^ Suc n] = [0..<2 ^ n] @ map ((+) (2 ^ n)) [0..<2 ^ n]"
  by (rule nth_equalityI) (auto simp: nth_append)

lemma span_table_linear:
  fixes f :: "USHORT \<Rightarrow> USHORT"
  assumes "f 0 = 0" "\<And>a b. f (a XOR b) = f a XOR f b"
  shows "span_table (map (\<lambda>k. f (2 ^ k)) [0..<n]) = map (\<lambda>i. f (of_nat i)) [0..<2 ^ n]"
proof (induction n)
  case 0
  then show ?case by (simp add: span_table_def assms)
next
  case (Suc n)
  have "map ((XOR) (f (2 ^ n))) (map (\<lambda>i. f (of_nat i)) [0..<2 ^ n])
      = map (\<lambda>i. f (of_nat i)) (map ((+) (2 ^ n)) [0..<2 ^ n])"
    using of_nat_add_pow [of _ n] by (simp add: assms(2) [symmetric])
  with Suc show ?case
    unfolding upt_double by (simp add: span_table_def)
qed

lemma funpow_8: "(f ^^ 8) x = f (f (f (f (f (f (f (f x)))))))"
  by (simp add: eval_nat_numeral)
lemma crc_basis: "map (\<lambda>k. (crc_bit ^^ 8) (2 ^ k)) [0..<8] =
   [0xC0C1, 0xC181, 0xC301, 0xC601, 0xCC01, 0xD801, 0xF001, 0xA001]"
  by (simp add: funpow_8 crc_bit_def upt_conv_Cons) 
lemma crc_span_tables:  "span_table [0xC0C1, 0xC181, 0xC301, 0xC601, 0xCC01, 0xD801, 0xF001, 0xA001] = map2 be16 aucCRCLo aucCRCHi"
  by (simp add: span_table_def aucCRCLo_def aucCRCHi_def be16_def)



lemma crc_table_step8: "i < 256 \<Longrightarrow> crc_table i = (crc_bit ^^ 8) (of_nat i)"
proof -
  assume i: "i < 256"
  have "map2 be16 aucCRCLo aucCRCHi = map (\<lambda>i. (crc_bit ^^ 8) (of_nat i)) [0..<2 ^ 8]"
    unfolding crc_span_tables [symmetric] crc_basis [symmetric]
    by (rule span_table_linear) (simp_all add: crc_bits_xor)
  then have "map2 be16 aucCRCLo aucCRCHi ! i = (crc_bit ^^ 8) (of_nat i)"
    using i by simp
  moreover have "length aucCRCLo = 256" "length aucCRCHi = 256"
    by (simp_all add: aucCRCLo_def aucCRCHi_def)
  ultimately show ?thesis using i by (simp add: crc_table_def)
qed

lemma crc_bit_push:
  assumes "\<And>m. bit w m \<Longrightarrow> m + Suc k < 16"
  shows "crc_bit (push_bit (Suc k) w) = push_bit k w"
proof (rule bit_word_eqI)
  fix n
  have "n < 15" if "k \<le> n" "bit w (n - k)"
    using assms [OF that(2)] that(1) by simp
  then show "bit (crc_bit (push_bit (Suc k) w)) n = bit (push_bit k w) n"
    by (auto simp: crc_bit_def bit_simps simp del: push_bit_Suc)
qed

lemma crc_bits_push:
  "(\<And>m. bit w m \<Longrightarrow> m + k < 16) \<Longrightarrow> (crc_bit ^^ k) (push_bit k w) = w"
proof (induction k)
  case (Suc k)
  have "crc_bit (push_bit (Suc k) w) = push_bit k w"
    using Suc.prems by (intro crc_bit_push) auto
  moreover have "(crc_bit ^^ k) (push_bit k w) = w"
    using Suc.prems by (intro Suc.IH) fastforce
  ultimately show ?case
    by (simp add: funpow_Suc_right del: funpow.simps push_bit_Suc)
qed simp

lemma crc_bits_shift: "(crc_bit ^^ 8) (push_bit 8 (ucast (h :: UCHAR))) = ucast h"
  by (rule crc_bits_push) (auto simp: bit_simps dest: bit_UCHAR_less)

lemma ucast_xor_be16: "ucast h XOR be16 a b = be16 a (h XOR b)"
  by (rule bit_word_eqI) (auto simp: bit_be16 bit_simps dest: bit_UCHAR_less)

lemma crc_step_table:
  "crc_byte (be16 h l) b = be16 (aucCRCLo ! unat (l XOR b)) (h XOR aucCRCHi ! unat (l XOR b))"
proof -
  let ?i = "unat (l XOR b)"
  have "be16 h l XOR ucast b = push_bit 8 (ucast h) XOR ucast (l XOR b)"
    by (rule bit_word_eqI) (auto simp: bit_be16 bit_simps dest: bit_UCHAR_less)
  then have "crc_byte (be16 h l) b = (crc_bit ^^ 8) (push_bit 8 (ucast h)) XOR (crc_bit ^^ 8) (ucast (l XOR b))"
    by (simp only: crc_byte_def crc_bits_xor)
  moreover have "(crc_bit ^^ 8) (ucast (l XOR b)) = crc_table ?i"
    by (simp only: crc_table_step8 [OF unat_UCHAR_less] of_nat_unat)
  ultimately show ?thesis
    by (simp only: crc_bits_shift crc_table_def ucast_xor_be16)
qed

lemma crc_loop_ok:
  "p + n \<le> length m \<Longrightarrow>
   \<exists>h' l'. crc_loop m p n h l = Some (h', l') \<and>
     be16 h' l' = foldl crc_byte (be16 h l) (take n (drop p m))"
proof (induction n arbitrary: p h l)
  case (Suc n)
  let ?i = "unat (l XOR m ! p)"
  from Suc.prems have "Suc p + n \<le> length m" by simp
  from Suc.IH [OF this, of "aucCRCLo ! ?i" "h XOR aucCRCHi ! ?i"]
  show ?case using Suc.prems
    by (simp add: mem_simps Let_def crc_step_table Cons_nth_drop_Suc [symmetric])
qed simp

lemma be16_FF: "be16 0xFF 0xFF = 0xFFFF"
  by (simp add: be16_def)

lemma usMBCRC16_in:
  "p + unat len \<le> length m \<Longrightarrow> usMBCRC16 m p len = Some (crc16 (take (unat len) (drop p m)))"
  using crc_loop_ok [of p "unat len" m "0xFF" "0xFF"]
  by (auto simp: usMBCRC16_def crc16_def be16_FF)

lemma crc_loop_out: "length m < p + n \<Longrightarrow> p \<le> length m \<Longrightarrow> crc_loop m p n h l = None"
proof (induction n arbitrary: p h l)
  case (Suc n)
  show ?case
  proof (cases "p < length m")
    case True
    with Suc.prems show ?thesis by (simp add: mem_simps Let_def Suc.IH)
  next
    case False
    then show ?thesis by (simp add: mem_simps)
  qed
qed simp

section \<open>What the receiver relies on\<close>

lemma crc_byte_low: "crc_byte (be16 h l) l = ucast h"
proof -
  have "be16 h l XOR ucast l = push_bit 8 (ucast h)"
    by (rule bit_word_eqI) (auto simp: bit_be16 bit_simps dest: bit_UCHAR_less)
  then show ?thesis by (simp add: crc_byte_def crc_bits_shift)
qed

lemma crc_byte_ucast: "crc_byte (ucast h) h = 0"
  by (simp add: crc_byte_def)

lemma crc16_residue: "crc16 (bs @ [lo8 (crc16 bs), hi8 (crc16 bs)]) = 0"
proof -
  let ?c = "crc16 bs"
  have "crc16 (bs @ [lo8 ?c, hi8 ?c]) = crc_byte (crc_byte ?c (lo8 ?c)) (hi8 ?c)"
    by (simp add: crc16_def)
  also have "crc_byte ?c (lo8 ?c) = ucast (hi8 ?c)"
    using crc_byte_low [of "hi8 ?c" "lo8 ?c"] by simp
  finally show ?thesis by (simp add: crc_byte_ucast)
qed

lemma crc_bit_eq_0: "crc_bit c = 0 \<Longrightarrow> c = 0"
proof -
  assume z: "crc_bit c = 0"
  have low: "\<not> bit c 0"
  proof
    assume "bit c 0"
    moreover have "\<not> bit c 16" by (auto dest: bit_USHORT_less)
    ultimately have "bit (crc_bit c) 15"
      by (simp add: crc_bit_def bit_simps)
    with z show False by simp
  qed
  with z have "drop_bit 1 c = 0" by (simp add: crc_bit_def)
  moreover have "bit (drop_bit 1 c) n \<longleftrightarrow> bit c (Suc n)" for n
    by (simp add: bit_simps)
  ultimately have high: "\<not> bit c (Suc n)" for n by simp
  have "\<not> bit c n" for n using low high by (cases n) auto
  then show "c = 0" by (simp add: bit_word_eqI)
qed

lemma xor_swap: "(a :: 'a::len word) XOR x = b XOR y \<longleftrightarrow> a XOR b = x XOR y"
  by (auto simp: bit_eq_iff bit_xor_iff)

lemma xor_cancel: "((a :: 'a::len word) XOR x) XOR (a XOR y) = x XOR y"
  by (auto simp: bit_eq_iff bit_xor_iff)

lemma ucast_xor_UCHAR: "ucast x XOR ucast y = (ucast (x XOR y :: UCHAR) :: USHORT)"
  by (auto simp: bit_eq_iff bit_simps)

lemma xor_eq_0_iff: "(a :: 'a::len word) XOR b = 0 \<longleftrightarrow> a = b"
  by (metis xor.assoc xor.left_neutral xor.right_neutral xor_self_eq)

lemma crc_bits_eq_0: "(crc_bit ^^ n) a = 0 \<Longrightarrow> a = 0"
  by (induction n) (auto dest: crc_bit_eq_0)

lemma crc_bits_inj: "(crc_bit ^^ n) a = (crc_bit ^^ n) b \<longleftrightarrow> a = b"
  using crc_bits_eq_0 [of n "a XOR b"] by (auto simp: crc_bits_xor xor_eq_0_iff)

lemma crc_byte_inj: "crc_byte a x = crc_byte b x \<longleftrightarrow> a = b"
  by (simp add: crc_byte_def crc_bits_inj)
     (metis xor.assoc xor.right_neutral xor_self_eq)

lemma foldl_crc_inj: "foldl crc_byte a xs = foldl crc_byte b xs \<longleftrightarrow> a = b"
  by (induction xs arbitrary: a b) (simp_all add: crc_byte_inj)

text \<open>
  The high half of a table entry is zero only at index 0, so two register values that
  differ by one byte cannot be brought together again by one further byte.
\<close>

lemma aucCRCLo_zero: "i < 256 \<Longrightarrow> aucCRCLo ! i = 0 \<Longrightarrow> i = 0"
proof -
  assume i: "i < 256" and z: "aucCRCLo ! i = 0"
  have all: "list_all (\<lambda>x. x \<noteq> 0) (tl aucCRCLo)" by (simp add: aucCRCLo_def)
  have len: "length (tl aucCRCLo) = 255" by (simp add: aucCRCLo_def)
  show "i = 0"
  proof (rule ccontr)
    assume "i \<noteq> 0"
    then obtain k where k: "i = Suc k" by (cases i) auto
    then have "aucCRCLo ! i = tl aucCRCLo ! k" using len i by (simp add: nth_tl)
    moreover have "tl aucCRCLo ! k \<noteq> 0"
      using all len i k by (simp add: list_all_length)
    ultimately show False using z by simp
  qed
qed

lemma crc_two_bytes_inj:
  assumes "crc_byte (crc_byte c x) y = crc_byte (crc_byte c x') y'"
  shows "x = x' \<and> y = y'"
proof -
  let ?d = "x XOR x'" and ?e = "y XOR y'"
  have "crc_byte c x XOR ucast y = crc_byte c x' XOR ucast y'"
    using assms
    by (simp only: crc_byte_def [of "crc_byte c x"] crc_byte_def [of "crc_byte c x'"] crc_bits_inj)
  then have "crc_byte c x XOR crc_byte c x' = ucast y XOR ucast y'"
    by (rule xor_swap [THEN iffD1])
  then have 1: "crc_byte c x XOR crc_byte c x' = ucast ?e"
    by (simp only: ucast_xor_UCHAR)
  have "crc_byte c x XOR crc_byte c x' = (crc_bit ^^ 8) (ucast ?d)"
    by (simp only: crc_byte_def crc_bits_xor [symmetric] xor_cancel ucast_xor_UCHAR)
  also have "(crc_bit ^^ 8) (ucast ?d) = crc_table (unat ?d)"
    by (simp only: crc_table_step8 [OF unat_UCHAR_less] of_nat_unat)
  finally have "crc_table (unat ?d) = be16 0 ?e"
    using 1 by (simp add: be16_def)
  then have "aucCRCLo ! unat ?d = 0" by (simp add: crc_table_def)
  then have "unat ?d = 0" by (rule aucCRCLo_zero [OF unat_UCHAR_less])
  then have "x = x'" by (simp add: unat_eq_0 xor_eq_0_iff)
  with 1 have "(ucast ?e :: USHORT) = 0" by simp
  then have "unat ?e = 0" by (metis unat_ucast_UCHAR unsigned_0)
  then have "y = y'" by (simp add: unat_eq_0 xor_eq_0_iff)
  with \<open>x = x'\<close> show ?thesis by simp
qed

lemma crc16_burst:
  "crc16 (us @ [x, y] @ vs) = crc16 (us @ [x', y'] @ vs) \<longleftrightarrow> x = x' \<and> y = y'"
  by (auto simp: crc16_def foldl_crc_inj dest: crc_two_bytes_inj)


section \<open>Properties\<close>

text \<open>
  C20. The table-driven loop of \<open>usMBCRC16\<close> computes the bitwise Modbus CRC (reflected
  polynomial 0xA001, initial value 0xFFFF) of the bytes it is given, for every byte array
  and every range in it; a range that leaves the array is an access outside the object.
\<close>

theorem usMBCRC16_is_crc16:
  assumes "p \<le> length m"
  shows "usMBCRC16 m p len =
    (if p + unat len \<le> length m then Some (crc16 (take (unat len) (drop p m))) else None)"
proof (cases "p + unat len \<le> length m")
  case True
  then show ?thesis by (simp add: usMBCRC16_in)
next
  case False
  with assms show ?thesis by (simp add: usMBCRC16_def crc_loop_out)
qed

theorem usMBCRC16_is_crc16_witness:
  "usMBCRC16 [1, 2] 0 3 = None \<and> usMBCRC16 [1, 2] 1 1 = Some (crc16 [2])"
  using usMBCRC16_is_crc16 [of 0 "[1, 2]" 3] usMBCRC16_is_crc16 [of 1 "[1, 2]" 1] by simp

text \<open>
  A frame to which the sender appends its CRC, low byte first, has CRC 0: the test
  the receivers make.
\<close>

theorem usMBCRC16_appended_crc:
  assumes "length bs < 65534" and "usMBCRC16 bs 0 (of_nat (length bs)) = Some c"
  shows "usMBCRC16 (bs @ [lo8 c, hi8 c]) 0 (of_nat (length bs + 2)) = Some 0"
proof -
  have "unat (of_nat (length bs) :: USHORT) = length bs"
    using assms(1) by (simp add: unat_of_nat)
  with assms(2) have "c = crc16 bs" by (simp add: usMBCRC16_in)
  moreover have "unat (of_nat (length bs + 2) :: USHORT) = length bs + 2"
    using assms(1) by (subst unat_of_nat) simp
  ultimately show ?thesis by (simp add: usMBCRC16_in crc16_residue)
qed

theorem usMBCRC16_appended_crc_witness:
  "usMBCRC16 ([] @ [lo8 0xFFFF, hi8 0xFFFF]) 0 (of_nat (length ([] :: UCHAR list) + 2)) = Some 0"
  by (rule usMBCRC16_appended_crc) (simp_all add: usMBCRC16_def be16_FF)

text \<open>
  C21. Error detection: two frames of the same length that differ only inside two
  neighbouring bytes (any burst of up to 16 bits aligned there, any single-byte error)
  never have the same CRC.
\<close>

theorem usMBCRC16_detects_burst:
  assumes "length us + length vs < 65534"
  shows "usMBCRC16 (us @ [x, y] @ vs) 0 (of_nat (length us + length vs + 2)) =
         usMBCRC16 (us @ [x', y'] @ vs) 0 (of_nat (length us + length vs + 2)) \<longleftrightarrow> x = x' \<and> y = y'"
proof -
  have "unat (of_nat (length us + length vs + 2) :: USHORT) = length us + length vs + 2"
    using assms by (subst unat_of_nat) simp
  then show ?thesis
    using crc16_burst [of us x y vs x' y'] by (simp add: usMBCRC16_in)
qed

theorem usMBCRC16_detects_burst_witness:
  "usMBCRC16 ([17] @ [1, 2] @ []) 0 (of_nat (length [17 :: UCHAR] + length ([] :: UCHAR list) + 2)) \<noteq>
   usMBCRC16 ([17] @ [1, 3] @ []) 0 (of_nat (length [17 :: UCHAR] + length ([] :: UCHAR list) + 2))"
  using usMBCRC16_detects_burst [of "[17]" "[]" 1 2 1 3] by simp

end
