(* ===== verification/MBPort.thy ===== *)
theory MBPort
  imports MBTypes
begin

text \<open>
  The port layer of \<open>FreeModbus/port/\<close>: the one-slot event queue of \<open>portevent.c\<close>, the USART2
  driver of \<open>portserial.c\<close> with \<open>rs485_config\<close> of \<open>Hardware/485.c\<close>, the TIM2 driver of
  \<open>porttimer.c\<close> with \<open>modbus_timer_config\<close> of \<open>Peripherals/timer.c\<close>, and the interrupt mask of
  \<open>mbport.c\<close>. The registers these files write through the peripheral library are fields of
  the record \<open>port\<close>; the states of the upper layers extend it, so every operation is
  polymorphic in the extension.
\<close>

section \<open>State\<close>

text \<open>
  \<open>usart_tx\<close> is the sequence of values written to the data register, oldest first. The bytes
  that arrive, the end of a transmission and the timer overflow are steps of the hardware
  (at the end of this theory).
\<close>

record port =
  xEventInQueue :: bool
  eQueuedEvent :: eMBEventType
  primask :: bool
  usart_baud :: ULONG
  usart_rdr :: UCHAR
  usart_rxne :: bool
  usart_ore :: bool
  usart_tc :: bool
  usart_rxneie :: bool
  usart_eie :: bool
  usart_tcie :: bool
  usart_tx :: "UCHAR list"
  tim_psc :: USHORT
  tim_arr :: ULONG
  tim_cnt :: ULONG
  tim_uif :: bool
  tim_uie :: bool
  tim_cen :: bool

section \<open>Interrupt mask: \<open>mbport.c\<close>\<close>

definition EnterCriticalSection :: "'a port_scheme \<Rightarrow> 'a port_scheme" where
  "EnterCriticalSection s = s\<lparr>primask := True\<rparr>"

definition ExitCriticalSection :: "'a port_scheme \<Rightarrow> 'a port_scheme" where
  "ExitCriticalSection s = s\<lparr>primask := False\<rparr>"

section \<open>Event queue: \<open>portevent.c\<close>\<close>

definition xMBPortEventInit :: "'a port_scheme \<Rightarrow> bool \<times> 'a port_scheme" where
  "xMBPortEventInit s = (True, s\<lparr>xEventInQueue := False\<rparr>)"

definition xMBPortEventPost :: "eMBEventType \<Rightarrow> 'a port_scheme \<Rightarrow> bool \<times> 'a port_scheme" where
  "xMBPortEventPost eEvent s = (True, s\<lparr>xEventInQueue := True, eQueuedEvent := eEvent\<rparr>)"

text \<open>The event is written through \<open>*eEvent\<close> when one is there, and left alone otherwise.\<close>

definition xMBPortEventGet :: "'a port_scheme \<Rightarrow> eMBEventType option \<times> 'a port_scheme" where
  "xMBPortEventGet s =
     (if xEventInQueue s then (Some (eQueuedEvent s), s\<lparr>xEventInQueue := False\<rparr>) else (None, s))"

section \<open>Serial line: \<open>portserial.c\<close> and \<open>485.c\<close>\<close>

definition vMBPortSerialEnable :: "bool \<Rightarrow> bool \<Rightarrow> 'a port_scheme \<Rightarrow> 'a port_scheme" where
  "vMBPortSerialEnable xRxEnable xTxEnable s =
     (let s = (if xRxEnable then s\<lparr>usart_rxneie := True\<rparr> else s\<lparr>usart_rxneie := False\<rparr>) in
      if xTxEnable then s\<lparr>usart_tcie := True\<rparr> else s\<lparr>usart_tcie := False\<rparr>)"

text \<open>\<open>rs485_send_byte\<close> waits for the transmission-complete flag before it returns.\<close>

definition rs485_send_byte :: "UCHAR \<Rightarrow> 'a port_scheme \<Rightarrow> 'a port_scheme" where
  "rs485_send_byte b s = s\<lparr>usart_tx := usart_tx s @ [b], usart_tc := True\<rparr>"

fun rs485_send_data :: "UCHAR list \<Rightarrow> 'a port_scheme \<Rightarrow> 'a port_scheme" where
  "rs485_send_data [] s = s"
| "rs485_send_data (b # bs) s = rs485_send_data bs (rs485_send_byte b s)"

text \<open>Eight data bits, one stop bit, no parity, whatever the caller asks for.\<close>

definition rs485_config :: "ULONG \<Rightarrow> 'a port_scheme \<Rightarrow> 'a port_scheme" where
  "rs485_config baud s = rs485_send_byte 0xFF (s\<lparr>usart_baud := baud\<rparr>)"

definition xMBPortSerialInit ::
  "UCHAR \<Rightarrow> ULONG \<Rightarrow> UCHAR \<Rightarrow> eMBParity \<Rightarrow> 'a port_scheme \<Rightarrow> bool \<times> 'a port_scheme" where
  "xMBPortSerialInit ucPort ulBaudRate ucDataBits eParity s = (True, rs485_config ulBaudRate s)"

definition xMBPortSerialPutByte :: "UCHAR \<Rightarrow> 'a port_scheme \<Rightarrow> bool \<times> 'a port_scheme" where
  "xMBPortSerialPutByte ucByte s = (True, s\<lparr>usart_tx := usart_tx s @ [ucByte]\<rparr>)"

text \<open>Reading the data register clears the receive and overrun flags.\<close>

definition xMBPortSerialGetByte :: "'a port_scheme \<Rightarrow> UCHAR \<times> 'a port_scheme" where
  "xMBPortSerialGetByte s = (usart_rdr s, s\<lparr>usart_rxne := False, usart_ore := False\<rparr>)"

section \<open>Timer: \<open>porttimer.c\<close> and \<open>timer.c\<close>\<close>

text \<open>The update event forced by \<open>TIM_TimeBaseInit\<close> sets the update flag.\<close>

definition modbus_timer_config :: "ULONG \<Rightarrow> ULONG \<Rightarrow> 'a port_scheme \<Rightarrow> 'a port_scheme" where
  "modbus_timer_config psc arr s =
     s\<lparr>tim_psc := ucast (psc - 1), tim_arr := arr - 1, tim_cnt := 0, tim_uif := True,
       tim_uie := True, tim_cen := True\<rparr>"

definition xMBPortTimersInit :: "USHORT \<Rightarrow> 'a port_scheme \<Rightarrow> bool \<times> 'a port_scheme" where
  "xMBPortTimersInit usTim1Timeout50us s =
     (True, modbus_timer_config 4200 (ucast usTim1Timeout50us) s)"

definition vMBPortTimersEnable :: "'a port_scheme \<Rightarrow> 'a port_scheme" where
  "vMBPortTimersEnable s = s\<lparr>tim_uif := False, tim_uie := True, tim_cnt := 0, tim_cen := True\<rparr>"

definition vMBPortTimersDisable :: "'a port_scheme \<Rightarrow> 'a port_scheme" where
  "vMBPortTimersDisable s = s\<lparr>tim_uif := False, tim_uie := False, tim_cnt := 0, tim_cen := False\<rparr>"

section \<open>Interrupt service routines\<close>

text \<open>
  The function pointers \<open>pxMBFrameCBByteReceived\<close>, \<open>pxMBFrameCBTransmitterEmpty\<close> and
  \<open>pxMBPortCBTimerExpired\<close> are parameters; their BOOL result is dropped. An interrupt status
  is the flag together with its enable bit. \<open>USART_IT_ORE\<close> is the overrun interrupt enabled by
  the error enable bit \<open>EIE\<close>.
\<close>

type_synonym 's callback = "'s \<Rightarrow> (bool \<times> 's) option"

definition prvvMBSerialRXIRQHandler :: "'s callback \<Rightarrow> 's \<Rightarrow> 's option" where
  "prvvMBSerialRXIRQHandler pxMBFrameCBByteReceived s = map_option snd (pxMBFrameCBByteReceived s)"

definition prvvMBSerialTXIRQHandler :: "'s callback \<Rightarrow> 's \<Rightarrow> 's option" where
  "prvvMBSerialTXIRQHandler pxMBFrameCBTransmitterEmpty s =
     map_option snd (pxMBFrameCBTransmitterEmpty s)"

definition USART2_IRQHandler ::
  "'a port_scheme callback \<Rightarrow> 'a port_scheme callback \<Rightarrow> 'a port_scheme \<Rightarrow> 'a port_scheme option" where
  "USART2_IRQHandler cbRx cbTx s = do {
     s \<leftarrow> (if usart_rxne s \<and> usart_rxneie s
          then do { s \<leftarrow> prvvMBSerialRXIRQHandler cbRx s; Some (s\<lparr>usart_rxne := False\<rparr>) }
          else Some s);
     s \<leftarrow> (if usart_ore s \<and> usart_eie s
          then do { s \<leftarrow> prvvMBSerialRXIRQHandler cbRx s; Some (s\<lparr>usart_ore := False\<rparr>) }
          else Some s);
     if usart_tc s \<and> usart_tcie s
     then do { s \<leftarrow> prvvMBSerialTXIRQHandler cbTx s; Some (s\<lparr>usart_tc := False\<rparr>) }
     else Some s
   }"

definition prvvMBTimerIRQHandler :: "'s callback \<Rightarrow> 's \<Rightarrow> 's option" where
  "prvvMBTimerIRQHandler pxMBPortCBTimerExpired s = map_option snd (pxMBPortCBTimerExpired s)"

definition TIM2_IRQHandler :: "'a port_scheme callback \<Rightarrow> 'a port_scheme \<Rightarrow> 'a port_scheme option" where
  "TIM2_IRQHandler cb s =
     (if tim_uif s \<and> tim_uie s
      then do { s \<leftarrow> prvvMBTimerIRQHandler cb s; Some (s\<lparr>tim_uif := False\<rparr>) }
      else Some s)"

section \<open>Steps of the hardware\<close>

text \<open>
  A byte arrives on the line: a second one before the first was read is lost and sets the
  overrun flag. The shift register empties. The timer reaches its period.
\<close>

definition hw_byte :: "UCHAR \<Rightarrow> 'a port_scheme \<Rightarrow> 'a port_scheme" where
  "hw_byte b s = (if usart_rxne s then s\<lparr>usart_ore := True\<rparr>
                  else s\<lparr>usart_rdr := b, usart_rxne := True\<rparr>)"

definition hw_tx_done :: "'a port_scheme \<Rightarrow> 'a port_scheme" where
  "hw_tx_done s = s\<lparr>usart_tc := True\<rparr>"

definition hw_timeout :: "'a port_scheme \<Rightarrow> 'a port_scheme" where
  "hw_timeout s = (if tim_cen s then s\<lparr>tim_uif := True, tim_cnt := 0\<rparr> else s)"

section \<open>The contract of the event queue\<close>

text \<open>
  A mailbox of one slot: the clients of the port layer need no more than these laws.
\<close>

locale event_mailbox =
  fixes init :: "'s \<Rightarrow> bool \<times> 's"
    and post :: "'e \<Rightarrow> 's \<Rightarrow> bool \<times> 's"
    and get :: "'s \<Rightarrow> 'e option \<times> 's"
  assumes get_init: "fst (get (snd (init s))) = None"
    and get_post: "fst (get (snd (post e s))) = Some e"
    and get_empties: "fst (get (snd (get s))) = None"
    and post_post: "snd (post e (snd (post e' s))) = snd (post e s)"
begin

definition post_all :: "'e list \<Rightarrow> 's \<Rightarrow> 's" where
  "post_all es s = foldl (\<lambda>s e. snd (post e s)) s es"

text \<open>Only the last of several posted events is delivered.\<close>

lemma post_all_last: "es \<noteq> [] \<Longrightarrow> post_all es s = snd (post (last es) s)"
proof (induction es rule: rev_induct)
  case (snoc e es)
  then show ?case
    by (cases "es = []") (simp_all add: post_all_def post_post)
qed simp

lemma last_event_wins: "es \<noteq> [] \<Longrightarrow> fst (get (post_all es s)) = Some (last es)"
  by (simp add: post_all_last get_post)

lemma one_event_per_post:
  "es \<noteq> [] \<Longrightarrow> fst (get (snd (get (post_all es s)))) = None"
  by (simp add: get_empties)

end

interpretation ev: event_mailbox xMBPortEventInit xMBPortEventPost xMBPortEventGet
  by unfold_locales
    (simp_all add: xMBPortEventInit_def xMBPortEventPost_def xMBPortEventGet_def)

section \<open>What each operation leaves alone\<close>

named_theorems port_simps \<open>operations of the port layer as record updates\<close>

lemmas [port_simps] =
  EnterCriticalSection_def ExitCriticalSection_def xMBPortEventInit_def xMBPortEventPost_def
  vMBPortSerialEnable_def rs485_config_def rs485_send_byte_def xMBPortSerialInit_def
  xMBPortSerialPutByte_def xMBPortSerialGetByte_def modbus_timer_config_def
  xMBPortTimersInit_def vMBPortTimersEnable_def vMBPortTimersDisable_def

lemma rs485_send_data_tx: "usart_tx (rs485_send_data bs s) = usart_tx s @ bs"
  by (induction bs arbitrary: s) (simp_all add: port_simps)

section \<open>Properties\<close>

text \<open>
  The event queue holds one event: after any non-empty series of posts without a get
  between them, the next get returns the last event posted, the one after it none; all the
  events before the last are lost.
\<close>

theorem xMBPortEventPost_last_wins:
  assumes "es \<noteq> []"
  shows "(let s' = foldl (\<lambda>s e. snd (xMBPortEventPost e s)) s es in
    fst (xMBPortEventGet s') = Some (last es) \<and>
    fst (xMBPortEventGet (snd (xMBPortEventGet s'))) = None)"
  using ev.last_event_wins [OF assms, of s] ev.one_event_per_post [OF assms, of s]
  by (simp add: ev.post_all_def Let_def)

theorem xMBPortEventPost_last_wins_witness:
  "\<forall>s :: port. fst (xMBPortEventGet (snd (xMBPortEventPost EV_FRAME_SENT
    (snd (xMBPortEventPost EV_FRAME_RECEIVED s))))) = Some EV_FRAME_SENT"
proof
  fix s :: port
  show "fst (xMBPortEventGet (snd (xMBPortEventPost EV_FRAME_SENT
    (snd (xMBPortEventPost EV_FRAME_RECEIVED s))))) = Some EV_FRAME_SENT"
    using xMBPortEventPost_last_wins [of "[EV_FRAME_RECEIVED, EV_FRAME_SENT]" s]
    by (simp add: Let_def)
qed

end
