(* ===== verification/MBRtu.thy ===== *)
theory MBRtu
  imports MBCrc MBPort
begin

text \<open>
  \<open>rtu/mbrtu.c\<close>: the RTU framing layer, a receiver and a transmitter state machine driven by
  the USART2 and TIM2 interrupts. Pointers into \<open>ucRTUBuf\<close> are offsets. \<open>assert\<close> is empty in
  \<open>port.h\<close>, so a failed assertion has no effect. None is an access outside \<open>ucRTUBuf\<close> or a
  division by zero.
\<close>

section \<open>State\<close>

datatype eMBRcvState = STATE_RX_INIT | STATE_RX_IDLE | STATE_RX_RCV | STATE_RX_ERROR

datatype eMBSndState = STATE_TX_IDLE | STATE_TX_XMIT

record rtu = port +
  eSndState :: eMBSndState
  eRcvState :: eMBRcvState
  ucRTUBuf :: "UCHAR list"
  pucSndBufferCur :: nat
  usSndBufferCount :: USHORT
  usRcvBufferPos :: USHORT

abbreviation (input) MB_SER_PDU_SIZE_MIN :: nat where "MB_SER_PDU_SIZE_MIN \<equiv> 4"
abbreviation (input) MB_SER_PDU_SIZE_MAX :: nat where "MB_SER_PDU_SIZE_MAX \<equiv> 256"
abbreviation (input) MB_SER_PDU_SIZE_CRC :: USHORT where "MB_SER_PDU_SIZE_CRC \<equiv> 2"
abbreviation (input) MB_SER_PDU_ADDR_OFF :: nat where "MB_SER_PDU_ADDR_OFF \<equiv> 0"
abbreviation (input) MB_SER_PDU_PDU_OFF :: nat where "MB_SER_PDU_PDU_OFF \<equiv> 1"

section \<open>Operations\<close>

definition eMBRTUInit ::
  "UCHAR \<Rightarrow> UCHAR \<Rightarrow> ULONG \<Rightarrow> eMBParity \<Rightarrow> 'a rtu_scheme \<Rightarrow> (eMBErrorCode \<times> 'a rtu_scheme) option" where
  "eMBRTUInit ucSlaveAddress ucPort ulBaudRate eParity s = do {
     let s = EnterCriticalSection s;
     let (ok, s) = xMBPortSerialInit ucPort ulBaudRate 8 eParity s;
     (eStatus, s) \<leftarrow>
       (if \<not> ok then Some (MB_EPORTERR, s)
        else do {
          usTimerT35_50us \<leftarrow>
            (if ulBaudRate > 19200 then Some 35
             else if 2 * ulBaudRate = 0 then None
             else Some ((7 * 220000) div (2 * ulBaudRate)));
          let (ok, s) = xMBPortTimersInit (ucast (usTimerT35_50us :: ULONG)) s;
          Some (if \<not> ok then MB_EPORTERR else MB_ENOERR, s)
        });
     Some (eStatus, ExitCriticalSection s)
   }"

definition eMBRTUStart :: "'a rtu_scheme \<Rightarrow> 'a rtu_scheme" where
  "eMBRTUStart s =
     (let s = EnterCriticalSection s;
          s = s\<lparr>eRcvState := STATE_RX_INIT\<rparr>;
          s = vMBPortSerialEnable True False s;
          s = vMBPortTimersEnable s
      in ExitCriticalSection s)"

definition eMBRTUStop :: "'a rtu_scheme \<Rightarrow> 'a rtu_scheme" where
  "eMBRTUStop s =
     (let s = EnterCriticalSection s;
          s = vMBPortSerialEnable False False s;
          s = vMBPortTimersDisable s
      in ExitCriticalSection s)"

text \<open>On success the address, the frame pointer and the length are written.\<close>

definition eMBRTUReceive ::
  "'a rtu_scheme \<Rightarrow> (eMBErrorCode \<times> (UCHAR \<times> nat \<times> USHORT) option \<times> 'a rtu_scheme) option" where
  "eMBRTUReceive s = do {
     let s = EnterCriticalSection s;
     ok \<leftarrow> (if unat (usRcvBufferPos s) \<ge> MB_SER_PDU_SIZE_MIN
           then do { c \<leftarrow> usMBCRC16 (ucRTUBuf s) 0 (usRcvBufferPos s); Some (c = 0) }
           else Some False);
     if ok then do {
       pucRcvAddress \<leftarrow> rd (ucRTUBuf s) MB_SER_PDU_ADDR_OFF;
       let pusLength = usRcvBufferPos s - 1 - MB_SER_PDU_SIZE_CRC;
       Some (MB_ENOERR, Some (pucRcvAddress, MB_SER_PDU_PDU_OFF, pusLength),
             ExitCriticalSection s)
     }
     else Some (MB_EIO, None, ExitCriticalSection s)
   }"

definition eMBRTUSend ::
  "UCHAR \<Rightarrow> nat \<Rightarrow> USHORT \<Rightarrow> 'a rtu_scheme \<Rightarrow> (eMBErrorCode \<times> 'a rtu_scheme) option" where
  "eMBRTUSend ucSlaveAddress pucFrame usLength s = do {
     let s = EnterCriticalSection s;
     (eStatus, s) \<leftarrow>
       (if eRcvState s = STATE_RX_IDLE
        then do {
          cur \<leftarrow> (if pucFrame = 0 then None else Some (pucFrame - 1));
          let cnt = (1 :: USHORT);
          buf \<leftarrow> wr (ucRTUBuf s) (cur + MB_SER_PDU_ADDR_OFF) ucSlaveAddress;
          let cnt = cnt + usLength;
          usCRC16 \<leftarrow> usMBCRC16 buf cur cnt;
          buf \<leftarrow> wr buf (unat cnt) (lo8 usCRC16);
          let cnt = cnt + 1;
          buf \<leftarrow> wr buf (unat cnt) (hi8 usCRC16);
          let cnt = cnt + 1;
          let s = s\<lparr>ucRTUBuf := buf, eSndState := STATE_TX_XMIT\<rparr>;
          b \<leftarrow> rd buf cur;
          let s = snd (xMBPortSerialPutByte b s);
          let s = s\<lparr>pucSndBufferCur := cur + 1, usSndBufferCount := cnt - 1\<rparr>;
          Some (MB_ENOERR, vMBPortSerialEnable False True s)
        }
        else Some (MB_EIO, s));
     Some (eStatus, ExitCriticalSection s)
   }"

definition xMBRTUReceiveFSM :: "'a rtu_scheme callback" where
  "xMBRTUReceiveFSM s = do {
     let (ucByte, s) = xMBPortSerialGetByte s;
     s \<leftarrow> (case eRcvState s of
         STATE_RX_INIT \<Rightarrow> Some (vMBPortTimersEnable s)
       | STATE_RX_ERROR \<Rightarrow> Some (vMBPortTimersEnable s)
       | STATE_RX_IDLE \<Rightarrow> do {
           buf \<leftarrow> wr (ucRTUBuf s) (unat (0 :: USHORT)) ucByte;
           let s = s\<lparr>ucRTUBuf := buf, usRcvBufferPos := 0 + 1, eRcvState := STATE_RX_RCV\<rparr>;
           Some (vMBPortTimersEnable s)
         }
       | STATE_RX_RCV \<Rightarrow> do {
           s \<leftarrow> (if unat (usRcvBufferPos s) < MB_SER_PDU_SIZE_MAX
                then do {
                  buf \<leftarrow> wr (ucRTUBuf s) (unat (usRcvBufferPos s)) ucByte;
                  Some (s\<lparr>ucRTUBuf := buf, usRcvBufferPos := usRcvBufferPos s + 1\<rparr>)
                }
                else Some (s\<lparr>eRcvState := STATE_RX_ERROR\<rparr>));
           Some (vMBPortTimersEnable s)
         });
     Some (False, s)
   }"

definition xMBRTUTransmitFSM :: "'a rtu_scheme callback" where
  "xMBRTUTransmitFSM s =
     (case eSndState s of
        STATE_TX_IDLE \<Rightarrow> Some (False, vMBPortSerialEnable True False s)
      | STATE_TX_XMIT \<Rightarrow>
          if usSndBufferCount s \<noteq> 0
          then do {
            b \<leftarrow> rd (ucRTUBuf s) (pucSndBufferCur s);
            let s = snd (xMBPortSerialPutByte b s);
            Some (False, s\<lparr>pucSndBufferCur := pucSndBufferCur s + 1,
                           usSndBufferCount := usSndBufferCount s - 1\<rparr>)
          }
          else do {
            let (xNeedPoll, s) = xMBPortEventPost EV_FRAME_SENT s;
            let s = vMBPortSerialEnable True False s;
            Some (xNeedPoll, s\<lparr>eSndState := STATE_TX_IDLE\<rparr>)
          })"

definition xMBRTUTimerT35Expired :: "'a rtu_scheme callback" where
  "xMBRTUTimerT35Expired s =
     (let (xNeedPoll, s) =
        (case eRcvState s of
           STATE_RX_INIT \<Rightarrow> xMBPortEventPost EV_READY s
         | STATE_RX_RCV \<Rightarrow> xMBPortEventPost EV_FRAME_RECEIVED s
         | STATE_RX_ERROR \<Rightarrow> (False, s)
         | STATE_RX_IDLE \<Rightarrow> (False, s));
          s = vMBPortTimersDisable s
      in Some (xNeedPoll, s\<lparr>eRcvState := STATE_RX_IDLE\<rparr>))"

section \<open>Interrupts of the RTU mode\<close>

definition rtu_usart_irq :: "'a rtu_scheme \<Rightarrow> 'a rtu_scheme option" where
  "rtu_usart_irq s = USART2_IRQHandler xMBRTUReceiveFSM xMBRTUTransmitFSM s"

definition rtu_timer_irq :: "'a rtu_scheme \<Rightarrow> 'a rtu_scheme option" where
  "rtu_timer_irq s = TIM2_IRQHandler xMBRTUTimerT35Expired s"

text \<open>A byte arrives and its interrupt is served; a byte has left and its interrupt is served;
  the line is silent for t3.5.\<close>

definition rtu_rx :: "UCHAR \<Rightarrow> 'a rtu_scheme \<Rightarrow> 'a rtu_scheme option" where
  "rtu_rx b s = rtu_usart_irq (hw_byte b s)"

definition rtu_tx :: "'a rtu_scheme \<Rightarrow> 'a rtu_scheme option" where
  "rtu_tx s = rtu_usart_irq (hw_tx_done s)"

definition rtu_silence :: "'a rtu_scheme \<Rightarrow> 'a rtu_scheme option" where
  "rtu_silence s = rtu_timer_irq (hw_timeout s)"

section \<open>Reception\<close>

text \<open>The receiver is enabled, the transmitter is not, and no byte is pending.\<close>

definition rx_on :: "'a port_scheme \<Rightarrow> bool" where
  "rx_on s \<longleftrightarrow> usart_rxneie s \<and> \<not> usart_eie s \<and> \<not> usart_tcie s \<and> \<not> usart_rxne s"

lemma rtu_rx_step:
  assumes "rx_on s"
  shows "rtu_rx b s = (case eRcvState s of
      STATE_RX_INIT \<Rightarrow> Some (vMBPortTimersEnable s
        \<lparr>usart_rdr := b, usart_ore := False\<rparr>)
    | STATE_RX_ERROR \<Rightarrow> Some (vMBPortTimersEnable s
        \<lparr>usart_rdr := b, usart_ore := False\<rparr>)
    | STATE_RX_IDLE \<Rightarrow> do {
        buf \<leftarrow> wr (ucRTUBuf s) 0 b;
        Some (vMBPortTimersEnable s\<lparr>usart_rdr := b, usart_ore := False,
          ucRTUBuf := buf, usRcvBufferPos := 1, eRcvState := STATE_RX_RCV\<rparr>)
      }
    | STATE_RX_RCV \<Rightarrow>
        if unat (usRcvBufferPos s) < 256
        then do {
          buf \<leftarrow> wr (ucRTUBuf s) (unat (usRcvBufferPos s)) b;
          Some (vMBPortTimersEnable s\<lparr>usart_rdr := b, usart_ore := False,
            ucRTUBuf := buf, usRcvBufferPos := usRcvBufferPos s + 1\<rparr>)
        }
        else Some (vMBPortTimersEnable s\<lparr>usart_rdr := b, usart_ore := False,
            eRcvState := STATE_RX_ERROR\<rparr>))"
  using assms
  by (cases "eRcvState s")
    (auto simp: rtu_rx_def rtu_usart_irq_def USART2_IRQHandler_def hw_byte_def rx_on_def
      prvvMBSerialRXIRQHandler_def xMBRTUReceiveFSM_def port_simps wr_def split: bind_splits)

text \<open>
  What a run of the receiver leaves alone, and a reception in progress of which the bytes
  \<open>pre\<close> have arrived; the timer runs.
\<close>

definition rx_frame :: "'a rtu_scheme \<Rightarrow> 'a rtu_scheme \<Rightarrow> bool" where
  "rx_frame s s' \<longleftrightarrow> xEventInQueue s' = xEventInQueue s \<and> eQueuedEvent s' = eQueuedEvent s \<and>
     eSndState s' = eSndState s \<and> usart_tx s' = usart_tx s \<and> rx_on s' \<and>
     length (ucRTUBuf s') = length (ucRTUBuf s)"

definition receiving :: "'a rtu_scheme \<Rightarrow> UCHAR list \<Rightarrow> bool" where
  "receiving s pre \<longleftrightarrow> eRcvState s = STATE_RX_RCV \<and> unat (usRcvBufferPos s) = length pre \<and>
     take (length pre) (ucRTUBuf s) = pre \<and> tim_cen s \<and> tim_uie s"

lemma rx_frame_refl: "rx_on s \<Longrightarrow> rx_frame s s"
  by (simp add: rx_frame_def)

lemma rx_frame_trans: "rx_frame s s' \<Longrightarrow> rx_frame s' s'' \<Longrightarrow> rx_frame s s''"
  by (simp add: rx_frame_def)

lemma take_update_append:
  "n < length m \<Longrightarrow> take n m = pre \<Longrightarrow> take (Suc n) (m[n := b]) = pre @ [b]"
  by (simp add: take_Suc_conv_app_nth)

lemma unat_incr: "unat (w :: USHORT) < 65535 \<Longrightarrow> unat (w + 1) = Suc (unat w)"
  by (simp add: unat_word_ariths)

lemma rtu_rx_idle:
  assumes "rx_on s" "eRcvState s = STATE_RX_IDLE" "length (ucRTUBuf s) = 256"
  shows "\<exists>s'. rtu_rx b s = Some s' \<and> receiving s' [b] \<and> rx_frame s s'"
proof -
  have "ucRTUBuf s \<noteq> []" using assms(3) by auto
  with assms show ?thesis
    by (cases "ucRTUBuf s")
      (auto simp: rtu_rx_step mem_simps receiving_def rx_frame_def rx_on_def port_simps)
qed

lemma rtu_rx_receiving:
  assumes "rx_on s" "receiving s pre" "length (ucRTUBuf s) = 256" "length pre < 256"
  shows "\<exists>s'. rtu_rx b s = Some s' \<and> receiving s' (pre @ [b]) \<and> rx_frame s s'"
  using assms
  by (auto simp: rtu_rx_step mem_simps receiving_def rx_frame_def rx_on_def port_simps
      unat_incr take_update_append)

lemma rtu_rx_many:
  assumes "rx_on s" "receiving s pre" "length (ucRTUBuf s) = 256" "length (pre @ bs) \<le> 256"
  shows "\<exists>s'. fold_opt rtu_rx bs s = Some s' \<and> receiving s' (pre @ bs) \<and> rx_frame s s'"
  using assms
proof (induction bs arbitrary: s pre)
  case (Cons b bs)
  then obtain s1 where s1: "rtu_rx b s = Some s1" "receiving s1 (pre @ [b])" "rx_frame s s1"
    using rtu_rx_receiving [of s pre b] by auto
  then have "rx_on s1" "length (ucRTUBuf s1) = 256"
    using Cons.prems by (simp_all add: rx_frame_def)
  with Cons.IH [of s1 "pre @ [b]"] Cons.prems s1 show ?case
    by (auto intro: rx_frame_trans)
qed (simp add: rx_frame_refl)

lemma rtu_rx_frame:
  assumes "rx_on s" "eRcvState s = STATE_RX_IDLE" "length (ucRTUBuf s) = 256"
    "bs \<noteq> []" "length bs \<le> 256"
  shows "\<exists>s'. fold_opt rtu_rx bs s = Some s' \<and> receiving s' bs \<and> rx_frame s s'"
proof (cases bs)
  case (Cons b bs')
  obtain s1 where s1: "rtu_rx b s = Some s1" "receiving s1 [b]" "rx_frame s s1"
    using rtu_rx_idle [OF assms(1-3), of b] by auto
  then have "rx_on s1" "length (ucRTUBuf s1) = 256"
    using assms by (simp_all add: rx_frame_def)
  with rtu_rx_many [of s1 "[b]" bs'] s1 assms Cons show ?thesis
    by (auto intro: rx_frame_trans)
qed (use assms in simp)

text \<open>A frame of more than 256 bytes puts the receiver into the error state.\<close>

lemma rtu_rx_error:
  assumes "rx_on s" "eRcvState s = STATE_RX_ERROR"
  shows "\<exists>s'. fold_opt rtu_rx bs s = Some s' \<and> eRcvState s' = STATE_RX_ERROR \<and> rx_frame s s' \<and>
    (bs \<noteq> [] \<or> (tim_cen s \<and> tim_uie s) \<longrightarrow> tim_cen s' \<and> tim_uie s')"
  using assms
proof (induction bs arbitrary: s)
  case (Cons b bs)
  let ?s1 = "vMBPortTimersEnable s\<lparr>usart_rdr := b, usart_ore := False\<rparr>"
  have "rtu_rx b s = Some ?s1" "rx_on ?s1" "eRcvState ?s1 = STATE_RX_ERROR"
    "tim_cen ?s1" "tim_uie ?s1" "rx_frame s ?s1"
    using Cons.prems by (simp_all add: rtu_rx_step port_simps rx_on_def rx_frame_def)
  with Cons.IH [of ?s1] show ?case by (auto intro: rx_frame_trans)
qed (simp add: rx_frame_refl)

lemma rtu_rx_overlong:
  assumes "rx_on s" "eRcvState s = STATE_RX_IDLE" "length (ucRTUBuf s) = 256" "256 < length bs"
  shows "\<exists>s'. fold_opt rtu_rx bs s = Some s' \<and> eRcvState s' = STATE_RX_ERROR \<and> rx_frame s s' \<and>
    tim_cen s' \<and> tim_uie s'"
proof -
  let ?us = "take 256 bs" and ?b = "bs ! 256" and ?vs = "drop 257 bs"
  have bs: "bs = ?us @ ?b # ?vs"
    using assms(4) Cons_nth_drop_Suc [of 256 bs] append_take_drop_id [of 256 bs] by simp
  obtain s1 where s1: "fold_opt rtu_rx ?us s = Some s1" "receiving s1 ?us" "rx_frame s s1"
    using rtu_rx_frame [OF assms(1-3), of ?us] assms(4) by (cases "bs = []") auto
  let ?s2 = "vMBPortTimersEnable s1\<lparr>usart_rdr := ?b, usart_ore := False, eRcvState := STATE_RX_ERROR\<rparr>"
  have s2: "rtu_rx ?b s1 = Some ?s2" "rx_frame s1 ?s2" "rx_on ?s2"
    using s1 assms(4)
    by (simp_all add: rtu_rx_step receiving_def rx_frame_def port_simps rx_on_def)
  obtain s3 where "fold_opt rtu_rx ?vs ?s2 = Some s3" "eRcvState s3 = STATE_RX_ERROR"
      "rx_frame ?s2 s3" "tim_cen s3" "tim_uie s3"
    using rtu_rx_error [of ?s2 ?vs] s2 by (auto simp: port_simps)
  with s1 s2 show ?thesis
    by (subst (1) bs, auto simp: fold_opt_append intro: rx_frame_trans)
qed

lemma rtu_silence_step:
  assumes "tim_cen s" "tim_uie s"
  shows "rtu_silence s = Some (
    (let s' = vMBPortTimersDisable (s\<lparr>eRcvState := STATE_RX_IDLE\<rparr>) in
     case eRcvState s of
       STATE_RX_INIT \<Rightarrow> snd (xMBPortEventPost EV_READY s')
     | STATE_RX_RCV \<Rightarrow> snd (xMBPortEventPost EV_FRAME_RECEIVED s')
     | _ \<Rightarrow> s'))"
  using assms
  by (cases "eRcvState s")
    (simp_all add: rtu_silence_def rtu_timer_irq_def TIM2_IRQHandler_def hw_timeout_def
      prvvMBTimerIRQHandler_def xMBRTUTimerT35Expired_def port_simps Let_def)

lemma eMBRTUReceive_buf:
  assumes "length (ucRTUBuf s) = 256" "unat (usRcvBufferPos s) = length bs"
    "take (length bs) (ucRTUBuf s) = bs"
  shows "eMBRTUReceive s = Some (
    (if 4 \<le> length bs \<and> crc16 bs = 0
     then (MB_ENOERR, Some (hd bs, 1, of_nat (length bs - 3)), s\<lparr>primask := False\<rparr>)
     else (MB_EIO, None, s\<lparr>primask := False\<rparr>)))"
proof -
  have le: "length bs \<le> 256" using assms by (metis length_take min.cobounded1 min_def)
  have "of_nat (unat (usRcvBufferPos s)) = usRcvBufferPos s" by simp
  then have pos: "usRcvBufferPos s = of_nat (length bs)" using assms(2) by simp
  have hd: "bs \<noteq> [] \<Longrightarrow> ucRTUBuf s ! 0 = hd bs" using assms(3) by (metis hd_conv_nth length_greater_0_conv nth_take)
  have crc: "usMBCRC16 (ucRTUBuf s) 0 (usRcvBufferPos s) = Some (crc16 bs)"
    using assms le by (simp add: usMBCRC16_in)
  show ?thesis
  proof (cases "4 \<le> length bs \<and> crc16 bs = 0")
    case True
    then have "bs \<noteq> []" by auto
    moreover have "usRcvBufferPos s - 1 - 2 = (of_nat (length bs - 3) :: USHORT)"
      using True by (simp add: pos of_nat_diff)
    moreover have "ucRTUBuf s \<noteq> []" using assms(1) by auto
    ultimately show ?thesis using True assms crc hd
      by (simp add: eMBRTUReceive_def port_simps mem_simps)
  next
    case False
    with assms crc show ?thesis
      by (auto simp: eMBRTUReceive_def port_simps Let_def)
  qed
qed

section \<open>Transmission\<close>

definition tx_on :: "'a port_scheme \<Rightarrow> bool" where
  "tx_on s \<longleftrightarrow> \<not> usart_rxneie s \<and> \<not> usart_eie s \<and> usart_tcie s"

lemma rtu_tx_step:
  assumes "tx_on s" "eSndState s = STATE_TX_XMIT"
  shows "rtu_tx s =
    (if usSndBufferCount s \<noteq> 0
     then do {
       b \<leftarrow> rd (ucRTUBuf s) (pucSndBufferCur s);
       Some (s\<lparr>usart_tx := usart_tx s @ [b], usart_tc := False,
         pucSndBufferCur := pucSndBufferCur s + 1, usSndBufferCount := usSndBufferCount s - 1\<rparr>)
     }
     else Some (s\<lparr>usart_tc := False, xEventInQueue := True, eQueuedEvent := EV_FRAME_SENT,
       usart_rxneie := True, usart_tcie := False, eSndState := STATE_TX_IDLE\<rparr>))"
  using assms
  by (auto simp: rtu_tx_def rtu_usart_irq_def USART2_IRQHandler_def hw_tx_done_def tx_on_def
      prvvMBSerialTXIRQHandler_def xMBRTUTransmitFSM_def port_simps rd_def split: bind_splits)

lemma unat_decr: "w \<noteq> 0 \<Longrightarrow> unat (w - 1 :: USHORT) = unat w - 1"
  by (simp add: unat_minus_one)

text \<open>The transmitter sends the rest of its buffer, one byte per interrupt, and then reports.\<close>


lemma rtu_tx_drain:
  assumes "tx_on s" "eSndState s = STATE_TX_XMIT" "unat (usSndBufferCount s) = n"
    "pucSndBufferCur s + n \<le> length (ucRTUBuf s)"
  shows "\<exists>s'. iter_opt n rtu_tx s = Some s' \<and> tx_on s' \<and> eSndState s' = STATE_TX_XMIT \<and>
    usSndBufferCount s' = 0 \<and> ucRTUBuf s' = ucRTUBuf s \<and> eRcvState s' = eRcvState s \<and>
    usart_rxne s' = usart_rxne s \<and>
    usart_tx s' = usart_tx s @ take n (drop (pucSndBufferCur s) (ucRTUBuf s))"
  using assms
proof (induction n arbitrary: s)
  case 0
  then show ?case by (simp add: unat_eq_0)
next
  case (Suc n)
  let ?b = "ucRTUBuf s ! pucSndBufferCur s"
  let ?s1 = "s\<lparr>usart_tx := usart_tx s @ [?b], usart_tc := False,
    pucSndBufferCur := pucSndBufferCur s + 1, usSndBufferCount := usSndBufferCount s - 1\<rparr>"
  have nz: "usSndBufferCount s \<noteq> 0" using Suc.prems(3) by auto
  then have "rtu_tx s = Some ?s1"
    using Suc.prems by (simp add: rtu_tx_step mem_simps)
  moreover have "tx_on ?s1" "eSndState ?s1 = STATE_TX_XMIT"
    "unat (usSndBufferCount ?s1) = n" "pucSndBufferCur ?s1 + n \<le> length (ucRTUBuf ?s1)"
    using Suc.prems nz by (simp_all add: tx_on_def unat_decr)
  moreover have "take (Suc n) (drop (pucSndBufferCur s) (ucRTUBuf s)) =
      ?b # take n (drop (Suc (pucSndBufferCur s)) (ucRTUBuf s))"
    using Suc.prems(4) by (simp add: Cons_nth_drop_Suc [symmetric])
  ultimately show ?case using Suc.IH [of ?s1] by auto
qed

text \<open>The frame on the line: address, PDU, CRC with the low byte first.\<close>

definition rtu_adu :: "UCHAR \<Rightarrow> UCHAR list \<Rightarrow> UCHAR list" where
  "rtu_adu addr pdu = (let body = addr # pdu; c = crc16 body in body @ [lo8 c, hi8 c])"

lemma length_rtu_adu [simp]: "length (rtu_adu addr pdu) = length pdu + 3"
  by (simp add: rtu_adu_def Let_def)

lemma crc16_rtu_adu [simp]: "crc16 (rtu_adu addr pdu) = 0"
  unfolding rtu_adu_def Let_def by (rule crc16_residue)

lemma overwrite_tail:
  "i = length us \<Longrightarrow> i + 2 \<le> length m \<Longrightarrow> take i m = us \<Longrightarrow>
   m[i := a, Suc i := b] = overwrite m 0 (us @ [a, b])"
proof -
  assume i: "i = length us" "i + 2 \<le> length m" "take i m = us"
  then obtain x y zs where "drop i m = x # y # zs"
    by (cases "drop i m"; cases "tl (drop i m)") (auto dest: arg_cong [where f = length])
  with i have "m = us @ x # y # zs" by (metis append_take_drop_id)
  with i(1) show ?thesis by (simp add: overwrite_def list_update_append)
qed

lemma eMBRTUSend_idle:
  assumes idle: "eRcvState s = STATE_RX_IDLE" and len: "length (ucRTUBuf s) = 256"
    "unat usLength \<le> 253"
  defines "pdu \<equiv> take (unat usLength) (drop 1 (ucRTUBuf s))"
  shows "eMBRTUSend addr 1 usLength s = Some (MB_ENOERR,
    s\<lparr>primask := False, ucRTUBuf := overwrite (ucRTUBuf s) 0 (rtu_adu addr pdu),
      eSndState := STATE_TX_XMIT, usart_tx := usart_tx s @ [addr], pucSndBufferCur := 1,
      usSndBufferCount := usLength + 2, usart_rxneie := False, usart_tcie := True\<rparr>)"
proof -
  let ?n = "unat usLength" and ?buf = "(ucRTUBuf s)[0 := addr]"
  have ne: "ucRTUBuf s \<noteq> []" using len by auto
  have u1: "unat (1 + usLength) = Suc ?n" and u2: "unat (2 + usLength) = Suc (Suc ?n)"
    using len(2) by (simp_all add: unat_word_ariths)
  have body: "take (Suc ?n) ?buf = addr # pdu"
    using ne len by (cases "ucRTUBuf s") (simp_all add: pdu_def)
  have lp: "length pdu = ?n" using len by (simp add: pdu_def)
  let ?c = "crc16 (addr # pdu)"
  have crc: "usMBCRC16 ?buf 0 (1 + usLength) = Some ?c"
    using len body by (simp add: usMBCRC16_in u1)
  have adu: "?buf[Suc ?n := lo8 ?c, Suc (Suc ?n) := hi8 ?c] = overwrite (ucRTUBuf s) 0 (rtu_adu addr pdu)"
  proof -
    have "?buf[Suc ?n := lo8 ?c, Suc (Suc ?n) := hi8 ?c] = overwrite ?buf 0 ((addr # pdu) @ [lo8 ?c, hi8 ?c])"
      using len lp body by (intro overwrite_tail) simp_all
    also have "\<dots> = overwrite (ucRTUBuf s) 0 ((addr # pdu) @ [lo8 ?c, hi8 ?c])"
      using ne by (cases "ucRTUBuf s") (simp_all add: overwrite_def)
    finally show ?thesis by (simp add: rtu_adu_def Let_def)
  qed
  have cnt: "usLength + 2 = 2 + usLength" by simp
  have r0: "overwrite (ucRTUBuf s) 0 (rtu_adu addr pdu) ! 0 = addr"
    using ne by (simp add: overwrite_def rtu_adu_def Let_def)
  show ?thesis
    using ne len idle crc adu r0 lp
    by (simp add: eMBRTUSend_def mem_simps port_simps u1 u2 cnt Let_def)
qed

lemma rtu_send_run:
  assumes "eRcvState s = STATE_RX_IDLE" "length (ucRTUBuf s) = 256" "unat usLength \<le> 253"
    "\<not> usart_eie s" "\<not> usart_rxne s"
  defines "pdu \<equiv> take (unat usLength) (drop 1 (ucRTUBuf s))"
  shows "\<exists>s1 s2. eMBRTUSend addr 1 usLength s = Some (MB_ENOERR, s1) \<and>
    iter_opt (unat usLength + 3) rtu_tx s1 = Some s2 \<and>
    usart_tx s2 = usart_tx s @ rtu_adu addr pdu \<and> eSndState s2 = STATE_TX_IDLE \<and>
    eRcvState s2 = STATE_RX_IDLE \<and> rx_on s2 \<and> length (ucRTUBuf s2) = 256 \<and>
    fst (xMBPortEventGet s2) = Some EV_FRAME_SENT"
proof -
  let ?adu = "rtu_adu addr pdu" and ?n = "unat usLength + 2"
  have n: "unat (usLength + 2) = ?n" using assms(3) by (simp add: unat_word_ariths)
  have lp: "length pdu = unat usLength" using assms(2,3) by (simp add: pdu_def)
  let ?s1 = "s\<lparr>primask := False, ucRTUBuf := overwrite (ucRTUBuf s) 0 ?adu,
      eSndState := STATE_TX_XMIT, usart_tx := usart_tx s @ [addr], pucSndBufferCur := 1,
      usSndBufferCount := usLength + 2, usart_rxneie := False, usart_tcie := True\<rparr>"
  have send: "eMBRTUSend addr 1 usLength s = Some (MB_ENOERR, ?s1)"
    unfolding pdu_def by (rule eMBRTUSend_idle [OF assms(1-3)])
  obtain s2 where s2: "iter_opt ?n rtu_tx ?s1 = Some s2" "tx_on s2" "eSndState s2 = STATE_TX_XMIT"
      "usSndBufferCount s2 = 0" "eRcvState s2 = STATE_RX_IDLE" "\<not> usart_rxne s2"
      "length (ucRTUBuf s2) = 256"
      "usart_tx s2 = usart_tx ?s1 @ take ?n (drop 1 (ucRTUBuf ?s1))"
    using rtu_tx_drain [of ?s1 ?n] assms n lp by (auto simp: tx_on_def)
  have "take ?n (drop 1 (ucRTUBuf ?s1)) = tl ?adu"
    using lp assms by (simp add: overwrite_def rtu_adu_def Let_def)
  moreover have "addr # tl ?adu = ?adu" by (simp add: rtu_adu_def Let_def)
  ultimately have tx: "usart_tx s2 = usart_tx s @ ?adu" using s2(8) by simp
  let ?s3 = "s2\<lparr>usart_tc := False, xEventInQueue := True, eQueuedEvent := EV_FRAME_SENT,
       usart_rxneie := True, usart_tcie := False, eSndState := STATE_TX_IDLE\<rparr>"
  have "iter_opt 1 rtu_tx s2 = Some ?s3"
    using s2 by (simp add: rtu_tx_step)
  then have "iter_opt (?n + 1) rtu_tx ?s1 = Some ?s3"
    by (simp only: iter_opt_add [of ?n 1] s2(1) Option.bind.simps)
  then have "iter_opt (unat usLength + 3) rtu_tx ?s1 = Some ?s3" by (simp add: numeral_3_eq_3)
  with send tx s2 show ?thesis
    by (auto simp: rx_on_def tx_on_def xMBPortEventGet_def)
qed

lemma rtu_line_run:
  assumes "rx_on s" "eRcvState s = STATE_RX_IDLE" "length (ucRTUBuf s) = 256"
    "bs \<noteq> []" "length bs \<le> 256"
  shows "\<exists>s1 s2. fold_opt rtu_rx bs s = Some s1 \<and> rtu_silence s1 = Some s2 \<and>
    eRcvState s2 = STATE_RX_IDLE \<and> fst (xMBPortEventGet s2) = Some EV_FRAME_RECEIVED \<and>
    rx_on s2 \<and> length (ucRTUBuf s2) = 256 \<and> take (length bs) (ucRTUBuf s2) = bs \<and>
    usart_tx s2 = usart_tx s \<and>
    eMBRTUReceive s2 = Some (
      (if 4 \<le> length bs \<and> crc16 bs = 0
       then (MB_ENOERR, Some (hd bs, 1, of_nat (length bs - 3)), s2\<lparr>primask := False\<rparr>)
       else (MB_EIO, None, s2\<lparr>primask := False\<rparr>)))"
proof -
  obtain s1 where s1: "fold_opt rtu_rx bs s = Some s1" "receiving s1 bs" "rx_frame s s1"
    using rtu_rx_frame [OF assms] by blast
  let ?s2 = "snd (xMBPortEventPost EV_FRAME_RECEIVED
    (vMBPortTimersDisable (s1\<lparr>eRcvState := STATE_RX_IDLE\<rparr>)))"
  have "rtu_silence s1 = Some ?s2"
    using s1 by (simp add: rtu_silence_step receiving_def Let_def)
  moreover have "eMBRTUReceive ?s2 = Some (
      (if 4 \<le> length bs \<and> crc16 bs = 0
       then (MB_ENOERR, Some (hd bs, 1, of_nat (length bs - 3)), ?s2\<lparr>primask := False\<rparr>)
       else (MB_EIO, None, ?s2\<lparr>primask := False\<rparr>)))"
    using s1 assms(3)
    by (intro eMBRTUReceive_buf) (simp_all add: receiving_def rx_frame_def port_simps)
  ultimately show ?thesis
    using s1 assms(3)
    by (auto simp: receiving_def rx_frame_def rx_on_def port_simps xMBPortEventGet_def)
qed

section \<open>The state machine\<close>

text \<open>
  Every way the firmware and the line act on the framing layer: a byte, an empty shift
  register or a timer overflow in hardware, the two interrupts, and the calls of the stack
  (start, stop, receive, a handler that writes the 255 bytes behind the address, send).
\<close>

datatype rtu_event =
    E_Byte UCHAR | E_TxDone | E_Timeout | E_UsartIrq | E_TimerIrq | E_Start | E_Stop
  | E_Receive | E_Write "UCHAR list" | E_Send UCHAR USHORT

inductive rtu_step :: "'a rtu_scheme \<Rightarrow> rtu_event \<Rightarrow> 'a rtu_scheme \<Rightarrow> bool" where
  Byte: "rtu_step s (E_Byte b) (hw_byte b s)"
| TxDone: "rtu_step s E_TxDone (hw_tx_done s)"
| Timeout: "rtu_step s E_Timeout (hw_timeout s)"
| UsartIrq: "rtu_usart_irq s = Some s' \<Longrightarrow> rtu_step s E_UsartIrq s'"
| TimerIrq: "rtu_timer_irq s = Some s' \<Longrightarrow> rtu_step s E_TimerIrq s'"
| Start: "rtu_step s E_Start (eMBRTUStart s)"
| Stop: "rtu_step s E_Stop (eMBRTUStop s)"
| Receive: "eMBRTUReceive s = Some (e, r, s') \<Longrightarrow> rtu_step s E_Receive s'"
| Write: "length f = 255 \<Longrightarrow>
    rtu_step s (E_Write f) (s\<lparr>ucRTUBuf := take 1 (ucRTUBuf s) @ f\<rparr>)"
| Send: "unat l \<le> 253 \<Longrightarrow> eMBRTUSend a 1 l s = Some (e, s') \<Longrightarrow> rtu_step s (E_Send a l) s'"

inductive_cases rtu_stepE: "rtu_step s e s'"
inductive_simps rtu_step_irq: "rtu_step s E_UsartIrq s'"
inductive_simps rtu_step_timer: "rtu_step s E_TimerIrq s'"
inductive_simps rtu_step_receive: "rtu_step s E_Receive s'"
inductive_simps rtu_step_send: "rtu_step s (E_Send a l) s'"
inductive_simps rtu_step_write: "rtu_step s (E_Write f) s'"

text \<open>The static variables before the first instruction.\<close>

definition rtu_reset :: "'a rtu_scheme \<Rightarrow> bool" where
  "rtu_reset s \<longleftrightarrow> eSndState s = STATE_TX_IDLE \<and> eRcvState s = STATE_RX_INIT \<and>
     ucRTUBuf s = replicate 256 0 \<and> usSndBufferCount s = 0 \<and> usRcvBufferPos s = 0"

inductive rtu_reach :: "'a rtu_scheme \<Rightarrow> bool" where
  reset: "rtu_reset s \<Longrightarrow> rtu_reach s"
| step: "rtu_reach s \<Longrightarrow> rtu_step s e s' \<Longrightarrow> rtu_reach s'"

definition rtu_inv :: "'a rtu_scheme \<Rightarrow> bool" where
  "rtu_inv s \<longleftrightarrow> length (ucRTUBuf s) = 256 \<and> unat (usRcvBufferPos s) \<le> 256 \<and>
     (eRcvState s = STATE_RX_RCV \<longrightarrow> 1 \<le> unat (usRcvBufferPos s)) \<and>
     (eSndState s = STATE_TX_XMIT \<longrightarrow> pucSndBufferCur s + unat (usSndBufferCount s) \<le> 256)"

lemma rtu_inv_port [simp]:
  "rtu_inv (s\<lparr>usart_rxne := a1\<rparr>) = rtu_inv s" "rtu_inv (s\<lparr>usart_ore := a1\<rparr>) = rtu_inv s"
  "rtu_inv (s\<lparr>usart_tc := a1\<rparr>) = rtu_inv s" "rtu_inv (s\<lparr>usart_rdr := b\<rparr>) = rtu_inv s"
  "rtu_inv (s\<lparr>tim_uif := a1\<rparr>) = rtu_inv s" "rtu_inv (s\<lparr>tim_cnt := c\<rparr>) = rtu_inv s"
  "rtu_inv (s\<lparr>primask := a1\<rparr>) = rtu_inv s" "rtu_inv (s\<lparr>usart_rxneie := a1\<rparr>) = rtu_inv s"
  "rtu_inv (s\<lparr>usart_tcie := a1\<rparr>) = rtu_inv s" "rtu_inv (s\<lparr>tim_uie := a1\<rparr>) = rtu_inv s"
  "rtu_inv (s\<lparr>tim_cen := a1\<rparr>) = rtu_inv s" "rtu_inv (s\<lparr>xEventInQueue := a1\<rparr>) = rtu_inv s"
  "rtu_inv (s\<lparr>eQueuedEvent := ev\<rparr>) = rtu_inv s" "rtu_inv (s\<lparr>usart_tx := bs\<rparr>) = rtu_inv s"
  by (simp_all add: rtu_inv_def)

lemma rtu_inv_idle: "rtu_inv s \<Longrightarrow> rtu_inv (s\<lparr>eRcvState := STATE_RX_IDLE\<rparr>)"
  "rtu_inv s \<Longrightarrow> rtu_inv (s\<lparr>eRcvState := STATE_RX_INIT\<rparr>)"
  "rtu_inv s \<Longrightarrow> rtu_inv (s\<lparr>eRcvState := STATE_RX_ERROR\<rparr>)"
  "rtu_inv s \<Longrightarrow> rtu_inv (s\<lparr>eSndState := STATE_TX_IDLE\<rparr>)"
  by (simp_all add: rtu_inv_def)

text \<open>Each interrupt is total on the invariant and keeps it.\<close>

lemma rtu_receive_fsm_inv:
  assumes "rtu_inv s"
  shows "\<exists>r s'. xMBRTUReceiveFSM s = Some (r, s') \<and> rtu_inv s'"
proof (cases "eRcvState s")
  case STATE_RX_RCV
  show ?thesis
  proof (cases "unat (usRcvBufferPos s) < 256")
    case True
    with STATE_RX_RCV assms show ?thesis
      by (auto simp: xMBRTUReceiveFSM_def port_simps mem_simps rtu_inv_def unat_incr)
  qed (use STATE_RX_RCV assms in \<open>auto simp: xMBRTUReceiveFSM_def port_simps rtu_inv_def\<close>)
qed (use assms in \<open>auto simp: xMBRTUReceiveFSM_def port_simps mem_simps rtu_inv_def wr_def\<close>)

lemma rtu_transmit_fsm_inv:
  assumes "rtu_inv s"
  shows "\<exists>r s'. xMBRTUTransmitFSM s = Some (r, s') \<and> rtu_inv s'"
proof (cases "eSndState s = STATE_TX_XMIT \<and> usSndBufferCount s \<noteq> 0")
  case True
  then have nz: "0 < unat (usSndBufferCount s)" by (simp add: unat_gt_0)
  then have "pucSndBufferCur s < length (ucRTUBuf s)"
    using True assms by (simp add: rtu_inv_def)
  with True assms show ?thesis
    by (auto simp: xMBRTUTransmitFSM_def port_simps mem_simps rtu_inv_def unat_decr)
next
  case False
  with assms show ?thesis
    by (cases "eSndState s") (auto simp: xMBRTUTransmitFSM_def port_simps rtu_inv_idle)
qed

lemma rtu_usart_irq_inv:
  assumes "rtu_inv s"
  shows "\<exists>s'. rtu_usart_irq s = Some s' \<and> rtu_inv s'"
proof -
  have rx: "rtu_inv s \<Longrightarrow> \<exists>s'. prvvMBSerialRXIRQHandler xMBRTUReceiveFSM s = Some s' \<and> rtu_inv s'"
    for s :: "'a rtu_scheme"
    using rtu_receive_fsm_inv [of s] by (auto simp: prvvMBSerialRXIRQHandler_def)
  have tx: "rtu_inv s \<Longrightarrow> \<exists>s'. prvvMBSerialTXIRQHandler xMBRTUTransmitFSM s = Some s' \<and> rtu_inv s'"
    for s :: "'a rtu_scheme"
    using rtu_transmit_fsm_inv [of s] by (auto simp: prvvMBSerialTXIRQHandler_def)
  obtain s1 where s1: "(if usart_rxne s \<and> usart_rxneie s
      then do { s \<leftarrow> prvvMBSerialRXIRQHandler xMBRTUReceiveFSM s; Some (s\<lparr>usart_rxne := False\<rparr>) }
      else Some s) = Some s1" "rtu_inv s1"
    using rx [OF assms] assms by (cases "usart_rxne s \<and> usart_rxneie s") auto
  obtain s2 where s2: "(if usart_ore s1 \<and> usart_eie s1
      then do { s \<leftarrow> prvvMBSerialRXIRQHandler xMBRTUReceiveFSM s1; Some (s\<lparr>usart_ore := False\<rparr>) }
      else Some s1) = Some s2" "rtu_inv s2"
    using rx [OF s1(2)] s1(2) by (cases "usart_ore s1 \<and> usart_eie s1") auto
  show ?thesis
    unfolding rtu_usart_irq_def USART2_IRQHandler_def s1(1) Option.bind.simps s2(1)
    using tx [OF s2(2)] s2(2) by auto
qed

lemma rtu_timer_irq_inv:
  assumes "rtu_inv s"
  shows "\<exists>s'. rtu_timer_irq s = Some s' \<and> rtu_inv s'"
  using assms
  by (cases "eRcvState s")
    (auto simp: rtu_timer_irq_def TIM2_IRQHandler_def prvvMBTimerIRQHandler_def
      xMBRTUTimerT35Expired_def port_simps Let_def rtu_inv_idle)

lemma rtu_receive_inv:
  assumes "rtu_inv s"
  shows "\<exists>e r s'. eMBRTUReceive s = Some (e, r, s') \<and> rtu_inv s'"
proof -
  let ?bs = "take (unat (usRcvBufferPos s)) (ucRTUBuf s)"
  have "length ?bs = unat (usRcvBufferPos s)" "length (ucRTUBuf s) = 256"
    using assms by (simp_all add: rtu_inv_def)
  with eMBRTUReceive_buf [of s ?bs] assms show ?thesis by auto
qed

lemma rtu_send_inv:
  assumes "rtu_inv s" "unat l \<le> 253"
  shows "\<exists>e s'. eMBRTUSend a 1 l s = Some (e, s') \<and> rtu_inv s'"
proof (cases "eRcvState s = STATE_RX_IDLE")
  case True
  have "unat (l + 2) = unat l + 2" using assms(2) by (simp add: unat_word_ariths)
  moreover have "length (overwrite (ucRTUBuf s) 0 (rtu_adu a (take (unat l) (drop 1 (ucRTUBuf s))))) = 256"
    using assms by (subst length_overwrite) (simp_all add: rtu_inv_def)
  ultimately show ?thesis
    using assms True eMBRTUSend_idle [of s l a] by (auto simp: rtu_inv_def)
qed (use assms in \<open>simp add: eMBRTUSend_def port_simps\<close>)

lemma rtu_step_inv: "rtu_step s e s' \<Longrightarrow> rtu_inv s \<Longrightarrow> rtu_inv s'"
proof (induction rule: rtu_step.induct)
  case (UsartIrq s s')
  then show ?case using rtu_usart_irq_inv by force
next
  case (TimerIrq s s')
  then show ?case using rtu_timer_irq_inv by force
next
  case (Receive s e r s')
  then show ?case using rtu_receive_inv by force
next
  case (Send l a s e s')
  then show ?case using rtu_send_inv [of s l a] by force
qed (auto simp: hw_byte_def hw_tx_done_def hw_timeout_def eMBRTUStart_def eMBRTUStop_def
    port_simps Let_def rtu_inv_idle, simp add: rtu_inv_def)

lemma rtu_reach_inv: "rtu_reach s \<Longrightarrow> rtu_inv s"
  by (induction rule: rtu_reach.induct) (auto simp: rtu_reset_def rtu_inv_def dest: rtu_step_inv)

lemma rtu_step_total:
  assumes "rtu_inv s" "\<And>f. e = E_Write f \<Longrightarrow> length f = 255" "\<And>a l. e = E_Send a l \<Longrightarrow> unat l \<le> 253"
  shows "\<exists>s'. rtu_step s e s'"
proof (cases e)
  case (E_Send a l)
  with assms(3) rtu_send_inv [OF assms(1), of l a] show ?thesis
    by (auto simp: rtu_step_send)
qed (use assms(2) rtu_usart_irq_inv [OF assms(1)] rtu_timer_irq_inv [OF assms(1)]
    rtu_receive_inv [OF assms(1)] in
  \<open>auto intro: rtu_step.intros simp: rtu_step_irq rtu_step_timer rtu_step_receive rtu_step_write\<close>)

lemma eMBRTUInit_timer:
  assumes "12 \<le> unat baud" "unat baud \<le> 19200"
  shows "unat (ucast (ucast (1540000 div (2 * baud) :: ULONG) :: USHORT) - 1 :: ULONG) + 1 =
    770000 div unat baud"
proof -
  have "unat (2 * baud) = 2 * unat baud"
    using assms(2) by (simp add: unat_word_ariths)
  then have q: "unat (1540000 div (2 * baud)) = 770000 div unat baud"
    by (simp add: unat_div)
  have lt: "770000 div unat baud < 65536"
    using div_le_mono2 [of 12 "unat baud" 770000] assms(1) by simp
  have ge: "40 \<le> 770000 div unat baud"
    using div_le_mono2 [of "unat baud" 19200 770000] assms by simp
  let ?t = "ucast (ucast (1540000 div (2 * baud)) :: USHORT) :: ULONG"
  have t: "unat ?t = 770000 div unat baud"
    using lt by (simp add: unsigned_ucast_eq unsigned_take_bit_eq take_bit_nat_eq_self q)
  then have "?t \<noteq> 0" using ge by (auto simp flip: unat_eq_0)
  then show ?thesis using t ge by (simp add: unat_minus_one)
qed

section \<open>Properties\<close>

text \<open>A state for the witnesses: static storage zeroed, receiver enabled, bus idle.\<close>

definition rtu_idle_state :: "UCHAR list \<Rightarrow> rtu" where
  "rtu_idle_state buf =
     \<lparr>xEventInQueue = False, eQueuedEvent = EV_READY, primask = False, usart_baud = 9600,
      usart_rdr = 0, usart_rxne = False, usart_ore = False, usart_tc = True,
      usart_rxneie = True, usart_eie = False, usart_tcie = False, usart_tx = [],
      tim_psc = 0, tim_arr = 0, tim_cnt = 0, tim_uif = False, tim_uie = False, tim_cen = False,
      eSndState = STATE_TX_IDLE, eRcvState = STATE_RX_IDLE, ucRTUBuf = buf,
      pucSndBufferCur = 0, usSndBufferCount = 0, usRcvBufferPos = 0\<rparr>"

text \<open>
  C17. RTU reception, from the line to the stack: when the receiver is idle and enabled and
  the bytes of a frame arrive, each served by its USART2 interrupt, followed by t3.5 of
  silence, then a frame of up to 256 bytes is in the buffer byte for byte, EV_FRAME_RECEIVED
  is queued, and \<open>eMBRTUReceive\<close> accepts it exactly if it has at least four bytes and CRC 0,
  with the first byte as address and three bytes less than the frame as PDU length; a longer
  frame is dropped without an event.
\<close>

theorem rtu_frame_received:
  assumes "rx_on s" and "eRcvState s = STATE_RX_IDLE" and "length (ucRTUBuf s) = 256"
    and "bs \<noteq> []"
  shows "\<exists>s1 s2. fold_opt rtu_rx bs s = Some s1 \<and> rtu_silence s1 = Some s2 \<and>
    eRcvState s2 = STATE_RX_IDLE \<and>
    (if length bs \<le> 256
     then fst (xMBPortEventGet s2) = Some EV_FRAME_RECEIVED \<and>
       take (length bs) (ucRTUBuf s2) = bs \<and>
       eMBRTUReceive s2 = Some (
         if 4 \<le> length bs \<and> crc16 bs = 0
         then (MB_ENOERR, Some (hd bs, 1, of_nat (length bs - 3)), s2\<lparr>primask := False\<rparr>)
         else (MB_EIO, None, s2\<lparr>primask := False\<rparr>))
     else fst (xMBPortEventGet s2) = fst (xMBPortEventGet s))"
proof (cases "length bs \<le> 256")
  case True
  from rtu_line_run [OF assms True] obtain s1 s2 where
    "fold_opt rtu_rx bs s = Some s1 \<and> rtu_silence s1 = Some s2 \<and>
     eRcvState s2 = STATE_RX_IDLE \<and> fst (xMBPortEventGet s2) = Some EV_FRAME_RECEIVED \<and>
     take (length bs) (ucRTUBuf s2) = bs \<and>
     eMBRTUReceive s2 = Some (
       if 4 \<le> length bs \<and> crc16 bs = 0
       then (MB_ENOERR, Some (hd bs, 1, of_nat (length bs - 3)), s2\<lparr>primask := False\<rparr>)
       else (MB_EIO, None, s2\<lparr>primask := False\<rparr>))" by blast
  with True show ?thesis by (intro exI [of _ s1] exI [of _ s2]) (simp only: if_True simp_thms)
next
  case False
  then obtain s1 where s1: "fold_opt rtu_rx bs s = Some s1" "eRcvState s1 = STATE_RX_ERROR"
      "rx_frame s s1" "tim_cen s1" "tim_uie s1"
    using rtu_rx_overlong [OF assms(1-3), of bs] by auto
  with False show ?thesis
    by (auto simp: rtu_silence_step Let_def port_simps rx_frame_def xMBPortEventGet_def)
qed

theorem rtu_frame_received_witness:
  "\<exists>s1 s2. fold_opt rtu_rx [1, 2] (rtu_idle_state (replicate 256 0)) = Some s1 \<and>
     rtu_silence s1 = Some s2 \<and> take 2 (ucRTUBuf s2) = [1, 2]"
proof -
  let ?s = "rtu_idle_state (replicate 256 0)"
  have "rx_on ?s" "eRcvState ?s = STATE_RX_IDLE" "length (ucRTUBuf ?s) = 256" "[1, 2 :: UCHAR] \<noteq> []"
    by (simp_all add: rtu_idle_state_def rx_on_def)
  from rtu_frame_received [OF this] show ?thesis by (auto simp: numeral_2_eq_2)
qed

text \<open>
  RTU transmission: in the idle receiver state \<open>eMBRTUSend\<close> accepts a PDU of up to 253
  bytes that lies behind the first byte of \<open>ucRTUBuf\<close>; one transmission-complete interrupt
  per byte and one more then put exactly address, PDU and CRC (low byte first) on the line,
  queue EV_FRAME_SENT, switch the receiver back on and return the transmitter to idle.
\<close>

theorem rtu_frame_sent:
  assumes "eRcvState s = STATE_RX_IDLE" and "length (ucRTUBuf s) = 256"
    and "unat usLength \<le> 253" and "\<not> usart_eie s" and "\<not> usart_rxne s"
  shows "\<exists>s1 s2. eMBRTUSend addr 1 usLength s = Some (MB_ENOERR, s1) \<and>
    iter_opt (unat usLength + 3) rtu_tx s1 = Some s2 \<and>
    usart_tx s2 = usart_tx s @ rtu_adu addr (take (unat usLength) (drop 1 (ucRTUBuf s))) \<and>
    eSndState s2 = STATE_TX_IDLE \<and> rx_on s2 \<and> fst (xMBPortEventGet s2) = Some EV_FRAME_SENT"
  using rtu_send_run [OF assms] by blast

theorem rtu_frame_sent_witness:
  "\<exists>s1 s2. eMBRTUSend 7 1 2 (rtu_idle_state ([0, 3, 4] @ replicate 253 0)) = Some (MB_ENOERR, s1) \<and>
    iter_opt 5 rtu_tx s1 = Some s2 \<and> usart_tx s2 = rtu_adu 7 [3, 4]"
  using rtu_frame_sent [of "rtu_idle_state ([0, 3, 4] @ replicate 253 0)" 2 7]
  by (auto simp: rtu_idle_state_def)

text \<open>
  C16. RTU round trip: the bytes one station puts on the line for a PDU of 1 to 253 bytes, fed
  to an idle station and followed by t3.5 of silence, are received there with the same
  address, length and PDU.
\<close>

theorem rtu_roundtrip:
  fixes s :: "'a rtu_scheme" and r :: "'b rtu_scheme"
  assumes "eRcvState s = STATE_RX_IDLE" and "length (ucRTUBuf s) = 256"
    and "1 \<le> unat usLength" and "unat usLength \<le> 253" and "\<not> usart_eie s"
    and "\<not> usart_rxne s" and "usart_tx s = []"
    and "rx_on r" and "eRcvState r = STATE_RX_IDLE" and "length (ucRTUBuf r) = 256"
  shows "\<exists>s1 s2 r1 r2 r3. eMBRTUSend addr 1 usLength s = Some (MB_ENOERR, s1) \<and>
    iter_opt (unat usLength + 3) rtu_tx s1 = Some s2 \<and>
    fold_opt rtu_rx (usart_tx s2) r = Some r1 \<and> rtu_silence r1 = Some r2 \<and>
    eMBRTUReceive r2 = Some (MB_ENOERR, Some (addr, 1, usLength), r3) \<and>
    take (unat usLength) (drop 1 (ucRTUBuf r3)) = take (unat usLength) (drop 1 (ucRTUBuf s))"
proof -
  define pdu where "pdu = take (unat usLength) (drop 1 (ucRTUBuf s))"
  have lp: "length pdu = unat usLength" using assms(2,4) by (simp add: pdu_def)
  obtain s1 s2 where s: "eMBRTUSend addr 1 usLength s = Some (MB_ENOERR, s1)"
      "iter_opt (unat usLength + 3) rtu_tx s1 = Some s2" "usart_tx s2 = rtu_adu addr pdu"
    using rtu_send_run [OF assms(1,2,4,5,6), of addr] assms(7) by (auto simp: pdu_def)
  have ne: "rtu_adu addr pdu \<noteq> []" "hd (rtu_adu addr pdu) = addr"
    by (simp_all add: rtu_adu_def Let_def)
  have len: "of_nat (length (rtu_adu addr pdu) - 3) = usLength"
    by (simp add: lp)
  obtain r1 r2 where r: "fold_opt rtu_rx (rtu_adu addr pdu) r = Some r1" "rtu_silence r1 = Some r2"
      "eMBRTUReceive r2 = Some (MB_ENOERR, Some (addr, 1, usLength), r2\<lparr>primask := False\<rparr>)"
      "take (unat usLength + 3) (ucRTUBuf r2) = rtu_adu addr pdu" "length (ucRTUBuf r2) = 256"
    using rtu_line_run [OF assms(8-10) ne(1)] assms(3,4) len ne(2) lp by auto
  have "take (unat usLength) (drop 1 (ucRTUBuf r2)) =
      take (unat usLength) (drop 1 (take (unat usLength + 3) (ucRTUBuf r2)))"
    by (simp add: drop_take)
  also have "\<dots> = pdu" unfolding r(4) using lp by (simp add: rtu_adu_def Let_def)
  finally show ?thesis using s r unfolding pdu_def by auto
qed

theorem rtu_roundtrip_witness:
  "\<exists>s1 s2 r1 r2 r3. eMBRTUSend 7 1 2 (rtu_idle_state ([0, 3, 4] @ replicate 253 0)) = Some (MB_ENOERR, s1) \<and>
    iter_opt 5 rtu_tx s1 = Some s2 \<and>
    fold_opt rtu_rx (usart_tx s2) (rtu_idle_state (replicate 256 0)) = Some r1 \<and>
    rtu_silence r1 = Some r2 \<and> eMBRTUReceive r2 = Some (MB_ENOERR, Some (7, 1, 2), r3) \<and>
    take 2 (drop 1 (ucRTUBuf r3)) = [3, 4]"
  using rtu_roundtrip [of "rtu_idle_state ([0, 3, 4] @ replicate 253 0)" 2
    "rtu_idle_state (replicate 256 0)" 7]
  by (simp add: rtu_idle_state_def rx_on_def)

text \<open>
  C14. Safety of the RTU state machines under every order of line events, interrupts and
  calls of the stack: from reset, the buffer keeps its 256 bytes, the receive position stays
  within it, what is left to send lies inside it, and every interrupt and call is defined
  (no access outside the buffer) in every reachable state.
\<close>

theorem rtu_reachable_safe:
  assumes "rtu_reach s"
  shows "rtu_inv s \<and> (\<exists>s'. rtu_usart_irq s = Some s') \<and> (\<exists>s'. rtu_timer_irq s = Some s') \<and>
    (\<exists>e r s'. eMBRTUReceive s = Some (e, r, s')) \<and>
    (\<forall>a l. 253 < unat l \<or> (\<exists>e s'. eMBRTUSend a 1 l s = Some (e, s')))"
proof -
  have inv: "rtu_inv s" using assms by (rule rtu_reach_inv)
  then have "\<exists>e s'. eMBRTUSend a 1 l s = Some (e, s')" if "\<not> 253 < unat l" for a l
    using rtu_send_inv [OF inv, of l a] that by auto
  with inv show ?thesis
    using rtu_usart_irq_inv [OF inv] rtu_timer_irq_inv [OF inv] rtu_receive_inv [OF inv] by blast
qed

theorem rtu_reachable_safe_witness:
  "rtu_inv ((rtu_idle_state (replicate 256 0))\<lparr>eRcvState := STATE_RX_INIT\<rparr>)"
  by (rule conjunct1 [OF rtu_reachable_safe])
    (rule rtu_reach.reset, simp add: rtu_reset_def rtu_idle_state_def)

text \<open>
  The t3.5 timer: \<open>eMBRTUInit\<close> divides by zero for baud rate 0; above 19200 baud TIM2
  counts 35 ticks of 50 us; from 12 to 19200 baud it counts the largest number of ticks whose
  length does not exceed 3.5 characters of 11 bits (770000 / baud, rounded down), so the
  reload value is never truncated; the prescaler makes the tick 4200 timer clocks.
\<close>

theorem eMBRTUInit_t35:
  shows "if baud = 0 then eMBRTUInit a p baud par s = None
    else \<exists>s'. eMBRTUInit a p baud par s = Some (MB_ENOERR, s') \<and> tim_psc s' = 4199 \<and>
      tim_cen s' \<and> usart_baud s' = baud \<and>
      (19200 < unat baud \<longrightarrow> unat (tim_arr s') + 1 = 35) \<and>
      (12 \<le> unat baud \<and> unat baud \<le> 19200 \<longrightarrow>
        (unat (tim_arr s') + 1) * unat baud \<le> 770000 \<and>
        770000 < (unat (tim_arr s') + 2) * unat baud)"
proof -
  have gt: "baud > 19200 \<longleftrightarrow> 19200 < unat baud" by (simp add: word_less_nat_alt)
  show ?thesis
  proof (cases "baud = 0")
    case True
    then show ?thesis by (simp add: eMBRTUInit_def port_simps)
  next
    case nz: False
    show ?thesis
    proof (cases "19200 < unat baud")
      case True
      with nz gt show ?thesis by (auto simp: eMBRTUInit_def port_simps)
    next
      case False
      then have "unat (2 * baud) = 2 * unat baud" by (simp add: unat_word_ariths)
      moreover have "unat baud \<noteq> 0" using nz by (simp add: unat_eq_0)
      ultimately have "2 * baud \<noteq> 0" by (metis mult_eq_0_iff unat_0 zero_neq_numeral)
      moreover have bnd: "(x + 1) * unat baud \<le> 770000 \<and> 770000 < (x + 2) * unat baud"
        if "x + 1 = 770000 div unat baud" for x
        using \<open>unat baud \<noteq> 0\<close> dividend_less_div_times [of "unat baud" 770000]
          div_times_less_eq_dividend [of 770000 "unat baud"]
        unfolding that [symmetric] by (simp add: algebra_simps)
      ultimately show ?thesis
        using nz gt False bnd [OF eMBRTUInit_timer [of baud]]
        by (simp add: eMBRTUInit_def port_simps)
    qed
  qed
qed

theorem eMBRTUInit_t35_witness:
  "\<exists>s'. eMBRTUInit 1 0 9600 MB_PAR_NONE (rtu_idle_state []) = Some (MB_ENOERR, s') \<and>
     unat (tim_arr s') + 1 = 80"
proof -
  obtain s' where "eMBRTUInit 1 0 9600 MB_PAR_NONE (rtu_idle_state []) = Some (MB_ENOERR, s')"
      "(unat (tim_arr s') + 1) * 9600 \<le> 770000" "770000 < (unat (tim_arr s') + 2) * 9600"
    using eMBRTUInit_t35 [of 9600 1 0 MB_PAR_NONE "rtu_idle_state []"] by auto
  then show ?thesis by (intro exI [of _ s']) simp
qed

end
