(* ===== verification/MBAscii.thy ===== *)
theory MBAscii
  imports MBRtu
begin

text \<open>
  \<open>ascii/mbascii.c\<close>: the ASCII framing layer (compiled when \<open>MB_ASCII_ENABLED\<close> is set). A
  frame is a colon, two hexadecimal characters per byte of address, PDU and LRC, and CR LF.
  The layer shares \<open>ucRTUBuf\<close> with the RTU layer (\<open>ucASCIIBuf\<close> is that buffer); its other
  static variables carry the prefix \<open>a_\<close> where the RTU layer uses the same name.
\<close>

section \<open>State\<close>

datatype eMBRcvStateA = A_STATE_RX_IDLE | A_STATE_RX_RCV | A_STATE_RX_WAIT_EOF

datatype eMBSndStateA =
    A_STATE_TX_IDLE | A_STATE_TX_START | A_STATE_TX_DATA | A_STATE_TX_END | A_STATE_TX_NOTIFY

datatype eMBBytePos = BYTE_HIGH_NIBBLE | BYTE_LOW_NIBBLE

record ascii = rtu +
  a_eSndState :: eMBSndStateA
  a_eRcvState :: eMBRcvStateA
  a_usRcvBufferPos :: USHORT
  a_eBytePos :: eMBBytePos
  a_pucSndBufferCur :: nat
  a_usSndBufferCount :: USHORT
  ucMBLFCharacter :: UCHAR

abbreviation (input) MB_ASCII_DEFAULT_CR :: UCHAR where "MB_ASCII_DEFAULT_CR \<equiv> 13"
abbreviation (input) MB_ASCII_DEFAULT_LF :: UCHAR where "MB_ASCII_DEFAULT_LF \<equiv> 10"
abbreviation (input) CH_COLON :: UCHAR where "CH_COLON \<equiv> 58"
abbreviation (input) MB_ASCII_TIMEOUT_SEC :: ULONG where "MB_ASCII_TIMEOUT_SEC \<equiv> 0"
abbreviation (input) MB_ASCII_PDU_SIZE_MIN :: nat where "MB_ASCII_PDU_SIZE_MIN \<equiv> 3"
abbreviation (input) MB_SER_PDU_SIZE_LRC :: USHORT where "MB_SER_PDU_SIZE_LRC \<equiv> 1"

section \<open>Characters and checksum\<close>

definition prvucMBCHAR2BIN :: "UCHAR \<Rightarrow> UCHAR" where
  "prvucMBCHAR2BIN ucCharacter =
     (if ucCharacter \<ge> 48 \<and> ucCharacter \<le> 57 then ucCharacter - 48
      else if ucCharacter \<ge> 65 \<and> ucCharacter \<le> 70 then ucCharacter - 65 + 0x0A
      else 0xFF)"

definition prvucMBBIN2CHAR :: "UCHAR \<Rightarrow> UCHAR" where
  "prvucMBBIN2CHAR ucByte =
     (if ucByte \<le> 0x09 then 48 + ucByte
      else if ucByte \<ge> 0x0A \<and> ucByte \<le> 0x0F then ucByte - 0x0A + 65
      else 48)"

fun lrc_loop :: "UCHAR list \<Rightarrow> nat \<Rightarrow> nat \<Rightarrow> UCHAR \<Rightarrow> UCHAR option" where
  "lrc_loop m p 0 ucLRC = Some ucLRC"
| "lrc_loop m p (Suc n) ucLRC = do { b \<leftarrow> rd m p; lrc_loop m (Suc p) n (ucLRC + b) }"

definition prvucMBLRC :: "UCHAR list \<Rightarrow> nat \<Rightarrow> USHORT \<Rightarrow> UCHAR option" where
  "prvucMBLRC m pucFrame usLen = do {
     ucLRC \<leftarrow> lrc_loop m pucFrame (unat usLen) 0;
     Some (- ucLRC)
   }"

section \<open>Operations\<close>

definition eMBASCIIInit ::
  "UCHAR \<Rightarrow> UCHAR \<Rightarrow> ULONG \<Rightarrow> eMBParity \<Rightarrow> 'a ascii_scheme \<Rightarrow> eMBErrorCode \<times> 'a ascii_scheme" where
  "eMBASCIIInit ucSlaveAddress ucPort ulBaudRate eParity s =
     (let s = EnterCriticalSection s;
          s = s\<lparr>ucMBLFCharacter := MB_ASCII_DEFAULT_LF\<rparr>;
          (ok, s) = xMBPortSerialInit ucPort ulBaudRate 7 eParity s;
          (eStatus, s) =
            (if \<not> ok then (MB_EPORTERR, s)
             else let (ok, s) = xMBPortTimersInit (ucast (MB_ASCII_TIMEOUT_SEC * 20000)) s
                  in (if \<not> ok then MB_EPORTERR else MB_ENOERR, s))
      in (eStatus, ExitCriticalSection s))"

definition eMBASCIIStart :: "'a ascii_scheme \<Rightarrow> 'a ascii_scheme" where
  "eMBASCIIStart s =
     (let s = EnterCriticalSection s;
          s = vMBPortSerialEnable True False s;
          s = s\<lparr>a_eRcvState := A_STATE_RX_IDLE\<rparr>;
          s = ExitCriticalSection s
      in snd (xMBPortEventPost EV_READY s))"

definition eMBASCIIStop :: "'a ascii_scheme \<Rightarrow> 'a ascii_scheme" where
  "eMBASCIIStop s =
     (let s = EnterCriticalSection s;
          s = vMBPortSerialEnable False False s;
          s = vMBPortTimersDisable s
      in ExitCriticalSection s)"

definition eMBASCIIReceive ::
  "'a ascii_scheme \<Rightarrow> (eMBErrorCode \<times> (UCHAR \<times> nat \<times> USHORT) option \<times> 'a ascii_scheme) option" where
  "eMBASCIIReceive s = do {
     let s = EnterCriticalSection s;
     ok \<leftarrow> (if unat (a_usRcvBufferPos s) \<ge> MB_ASCII_PDU_SIZE_MIN
           then do { c \<leftarrow> prvucMBLRC (ucRTUBuf s) 0 (a_usRcvBufferPos s); Some (c = 0) }
           else Some False);
     if ok then do {
       pucRcvAddress \<leftarrow> rd (ucRTUBuf s) MB_SER_PDU_ADDR_OFF;
       let pusLength = a_usRcvBufferPos s - 1 - MB_SER_PDU_SIZE_LRC;
       Some (MB_ENOERR, Some (pucRcvAddress, MB_SER_PDU_PDU_OFF, pusLength),
             ExitCriticalSection s)
     }
     else Some (MB_EIO, None, ExitCriticalSection s)
   }"

definition eMBASCIISend ::
  "UCHAR \<Rightarrow> nat \<Rightarrow> USHORT \<Rightarrow> 'a ascii_scheme \<Rightarrow> (eMBErrorCode \<times> 'a ascii_scheme) option" where
  "eMBASCIISend ucSlaveAddress pucFrame usLength s = do {
     let s = EnterCriticalSection s;
     (eStatus, s) \<leftarrow>
       (if a_eRcvState s = A_STATE_RX_IDLE
        then do {
          cur \<leftarrow> (if pucFrame = 0 then None else Some (pucFrame - 1));
          let cnt = (1 :: USHORT);
          buf \<leftarrow> wr (ucRTUBuf s) (cur + MB_SER_PDU_ADDR_OFF) ucSlaveAddress;
          let cnt = cnt + usLength;
          usLRC \<leftarrow> prvucMBLRC buf cur cnt;
          buf \<leftarrow> wr buf (unat cnt) usLRC;
          let cnt = cnt + 1;
          let s = s\<lparr>ucRTUBuf := buf, a_pucSndBufferCur := cur, a_usSndBufferCount := cnt,
                    a_eSndState := A_STATE_TX_START\<rparr>;
          Some (MB_ENOERR, vMBPortSerialEnable False True s)
        }
        else Some (MB_EIO, s));
     Some (eStatus, ExitCriticalSection s)
   }"

definition xMBASCIIReceiveFSM :: "'a ascii_scheme callback" where
  "xMBASCIIReceiveFSM s = do {
     let (ucByte, s) = xMBPortSerialGetByte s;
     case a_eRcvState s of
       A_STATE_RX_RCV \<Rightarrow> do {
         let s = vMBPortTimersEnable s;
         if ucByte = CH_COLON
         then Some (False, s\<lparr>a_eBytePos := BYTE_HIGH_NIBBLE, a_usRcvBufferPos := 0\<rparr>)
         else if ucByte = MB_ASCII_DEFAULT_CR
         then Some (False, s\<lparr>a_eRcvState := A_STATE_RX_WAIT_EOF\<rparr>)
         else do {
           let ucResult = prvucMBCHAR2BIN ucByte;
           case a_eBytePos s of
             BYTE_HIGH_NIBBLE \<Rightarrow>
               if unat (a_usRcvBufferPos s) < MB_SER_PDU_SIZE_MAX
               then do {
                 buf \<leftarrow> wr (ucRTUBuf s) (unat (a_usRcvBufferPos s)) (push_bit 4 ucResult);
                 Some (False, s\<lparr>ucRTUBuf := buf, a_eBytePos := BYTE_LOW_NIBBLE\<rparr>)
               }
               else Some (False, vMBPortTimersDisable (s\<lparr>a_eRcvState := A_STATE_RX_IDLE\<rparr>))
           | BYTE_LOW_NIBBLE \<Rightarrow> do {
               v \<leftarrow> rd (ucRTUBuf s) (unat (a_usRcvBufferPos s));
               buf \<leftarrow> wr (ucRTUBuf s) (unat (a_usRcvBufferPos s)) (v OR ucResult);
               Some (False, s\<lparr>ucRTUBuf := buf, a_usRcvBufferPos := a_usRcvBufferPos s + 1,
                              a_eBytePos := BYTE_HIGH_NIBBLE\<rparr>)
             }
         }
       }
     | A_STATE_RX_WAIT_EOF \<Rightarrow>
         if ucByte = ucMBLFCharacter s
         then do {
           let s = vMBPortTimersDisable s;
           let s = s\<lparr>a_eRcvState := A_STATE_RX_IDLE\<rparr>;
           Some (xMBPortEventPost EV_FRAME_RECEIVED s)
         }
         else if ucByte = CH_COLON
         then do {
           let s = s\<lparr>a_eBytePos := BYTE_HIGH_NIBBLE, a_usRcvBufferPos := 0,
                     a_eRcvState := A_STATE_RX_RCV\<rparr>;
           Some (False, vMBPortTimersEnable s)
         }
         else Some (False, s\<lparr>a_eRcvState := A_STATE_RX_IDLE\<rparr>)
     | A_STATE_RX_IDLE \<Rightarrow>
         if ucByte = CH_COLON
         then do {
           let s = vMBPortTimersEnable s;
           Some (False, s\<lparr>a_usRcvBufferPos := 0, a_eBytePos := BYTE_HIGH_NIBBLE,
                          a_eRcvState := A_STATE_RX_RCV\<rparr>)
         }
         else Some (False, s)
   }"

definition xMBASCIITransmitFSM :: "'a ascii_scheme callback" where
  "xMBASCIITransmitFSM s =
     (case a_eSndState s of
        A_STATE_TX_START \<Rightarrow> do {
          let s = snd (xMBPortSerialPutByte CH_COLON s);
          Some (False, s\<lparr>a_eSndState := A_STATE_TX_DATA, a_eBytePos := BYTE_HIGH_NIBBLE\<rparr>)
        }
      | A_STATE_TX_DATA \<Rightarrow>
          if unat (a_usSndBufferCount s) > 0
          then (case a_eBytePos s of
              BYTE_HIGH_NIBBLE \<Rightarrow> do {
                b \<leftarrow> rd (ucRTUBuf s) (a_pucSndBufferCur s);
                let s = snd (xMBPortSerialPutByte (prvucMBBIN2CHAR (drop_bit 4 b)) s);
                Some (False, s\<lparr>a_eBytePos := BYTE_LOW_NIBBLE\<rparr>)
              }
            | BYTE_LOW_NIBBLE \<Rightarrow> do {
                b \<leftarrow> rd (ucRTUBuf s) (a_pucSndBufferCur s);
                let s = snd (xMBPortSerialPutByte (prvucMBBIN2CHAR (b AND 0x0F)) s);
                Some (False, s\<lparr>a_pucSndBufferCur := a_pucSndBufferCur s + 1,
                               a_eBytePos := BYTE_HIGH_NIBBLE,
                               a_usSndBufferCount := a_usSndBufferCount s - 1\<rparr>)
              })
          else do {
            let s = snd (xMBPortSerialPutByte MB_ASCII_DEFAULT_CR s);
            Some (False, s\<lparr>a_eSndState := A_STATE_TX_END\<rparr>)
          }
      | A_STATE_TX_END \<Rightarrow> do {
          let s = snd (xMBPortSerialPutByte (ucMBLFCharacter s) s);
          Some (False, s\<lparr>a_eSndState := A_STATE_TX_NOTIFY\<rparr>)
        }
      | A_STATE_TX_NOTIFY \<Rightarrow> do {
          let s = s\<lparr>a_eSndState := A_STATE_TX_IDLE\<rparr>;
          let (xNeedPoll, s) = xMBPortEventPost EV_FRAME_SENT s;
          let s = vMBPortSerialEnable True False s;
          Some (xNeedPoll, s\<lparr>a_eSndState := A_STATE_TX_IDLE\<rparr>)
        }
      | A_STATE_TX_IDLE \<Rightarrow> Some (False, vMBPortSerialEnable True False s))"

definition xMBASCIITimerT1SExpired :: "'a ascii_scheme callback" where
  "xMBASCIITimerT1SExpired s =
     (let s = (case a_eRcvState s of
                 A_STATE_RX_RCV \<Rightarrow> s\<lparr>a_eRcvState := A_STATE_RX_IDLE\<rparr>
               | A_STATE_RX_WAIT_EOF \<Rightarrow> s\<lparr>a_eRcvState := A_STATE_RX_IDLE\<rparr>
               | A_STATE_RX_IDLE \<Rightarrow> s)
      in Some (False, vMBPortTimersDisable s))"

section \<open>Interrupts of the ASCII mode\<close>

definition ascii_usart_irq :: "'a ascii_scheme \<Rightarrow> 'a ascii_scheme option" where
  "ascii_usart_irq s = USART2_IRQHandler xMBASCIIReceiveFSM xMBASCIITransmitFSM s"

definition ascii_timer_irq :: "'a ascii_scheme \<Rightarrow> 'a ascii_scheme option" where
  "ascii_timer_irq s = TIM2_IRQHandler xMBASCIITimerT1SExpired s"

definition ascii_rx :: "UCHAR \<Rightarrow> 'a ascii_scheme \<Rightarrow> 'a ascii_scheme option" where
  "ascii_rx b s = ascii_usart_irq (hw_byte b s)"

definition ascii_tx :: "'a ascii_scheme \<Rightarrow> 'a ascii_scheme option" where
  "ascii_tx s = ascii_usart_irq (hw_tx_done s)"

section \<open>Characters\<close>

definition hex_byte :: "UCHAR \<Rightarrow> UCHAR list" where
  "hex_byte b = [prvucMBBIN2CHAR (drop_bit 4 b), prvucMBBIN2CHAR (b AND 0x0F)]"

lemma nibble_table:
  "\<forall>k \<in> set [0..<16]. prvucMBCHAR2BIN (prvucMBBIN2CHAR (of_nat k)) = of_nat k \<and>
     prvucMBBIN2CHAR (of_nat k) \<noteq> 58 \<and> prvucMBBIN2CHAR (of_nat k) \<noteq> 13"
  by (simp add: upt_rec prvucMBCHAR2BIN_def prvucMBBIN2CHAR_def)

lemma nibble_of_nat: "unat (n :: UCHAR) < 16 \<Longrightarrow> \<exists>k \<in> set [0..<16]. n = of_nat k"
  by (rule bexI [of _ "unat n"]) simp_all

lemma CHAR2BIN_BIN2CHAR [simp]: "unat n < 16 \<Longrightarrow> prvucMBCHAR2BIN (prvucMBBIN2CHAR n) = n"
  using nibble_table nibble_of_nat [of n] by blast

lemma BIN2CHAR_data [simp]:
  "unat n < 16 \<Longrightarrow> prvucMBBIN2CHAR n \<noteq> 58" "unat n < 16 \<Longrightarrow> prvucMBBIN2CHAR n \<noteq> 13"
  using nibble_table nibble_of_nat [of n] by blast+

lemma mask_0F: "(0x0F :: UCHAR) = mask 4"
  by (simp add: mask_eq_exp_minus_1)

lemma unat_high_nibble [simp]: "unat (drop_bit 4 (b :: UCHAR)) < 16"
  using unat_UCHAR_less [of b] by (simp add: unsigned_drop_bit_eq drop_bit_eq_div unat_div)

lemma unat_low_nibble [simp]: "unat (b AND 0x0F :: UCHAR) < 16"
proof -
  have "b AND 0x0F = take_bit 4 b" unfolding mask_0F by (simp only: take_bit_eq_mask)
  moreover have "unat (take_bit 4 b) = take_bit 4 (unat b)" by (rule unsigned_take_bit_eq)
  moreover have "take_bit 4 (unat b) < 16" using take_bit_nat_less_exp [of 4 "unat b"] by simp
  ultimately show ?thesis by (simp only:)
qed

lemma join_nibbles: "push_bit 4 (drop_bit 4 b) OR (b AND 0x0F) = (b :: UCHAR)"
  unfolding mask_0F
  by (rule bit_word_eqI) (auto simp: bit_simps not_less)

text \<open>The checksum of a range inside the buffer is the negated sum of its bytes.\<close>

lemma lrc_loop_in: "p + n \<le> length m \<Longrightarrow> lrc_loop m p n c = Some (c + sum_list (take n (drop p m)))"
proof (induction n arbitrary: p c)
  case (Suc n)
  then have "take (Suc n) (drop p m) = m ! p # take n (drop (Suc p) m)"
    by (simp add: Cons_nth_drop_Suc [symmetric])
  with Suc show ?case by (simp add: mem_simps add.assoc)
qed simp

lemma prvucMBLRC_in:
  "p + unat n \<le> length m \<Longrightarrow> prvucMBLRC m p n = Some (- sum_list (take (unat n) (drop p m)))"
  by (simp add: prvucMBLRC_def lrc_loop_in)

section \<open>Reception\<close>

definition a_receiving :: "'a ascii_scheme \<Rightarrow> UCHAR list \<Rightarrow> bool" where
  "a_receiving s pre \<longleftrightarrow> a_eRcvState s = A_STATE_RX_RCV \<and> a_eBytePos s = BYTE_HIGH_NIBBLE \<and>
     unat (a_usRcvBufferPos s) = length pre \<and> take (length pre) (ucRTUBuf s) = pre"

definition a_frame :: "'a ascii_scheme \<Rightarrow> 'a ascii_scheme \<Rightarrow> bool" where
  "a_frame s s' \<longleftrightarrow> rx_on s' \<and> usart_tx s' = usart_tx s \<and> a_eSndState s' = a_eSndState s \<and>
     ucMBLFCharacter s' = ucMBLFCharacter s \<and> length (ucRTUBuf s') = length (ucRTUBuf s) \<and>
     xEventInQueue s' = xEventInQueue s \<and> eQueuedEvent s' = eQueuedEvent s"

lemma a_frame_refl: "rx_on s \<Longrightarrow> a_frame s s"
  by (simp add: a_frame_def)

lemma a_frame_trans: "a_frame s s' \<Longrightarrow> a_frame s' s'' \<Longrightarrow> a_frame s s''"
  by (simp add: a_frame_def)

lemmas ascii_rx_defs =
  ascii_rx_def ascii_usart_irq_def USART2_IRQHandler_def hw_byte_def rx_on_def
  prvvMBSerialRXIRQHandler_def xMBASCIIReceiveFSM_def port_simps

text \<open>A colon starts a frame in every state.\<close>

lemma ascii_rx_colon:
  assumes "rx_on s" "ucMBLFCharacter s \<noteq> 58"
  shows "\<exists>s'. ascii_rx 58 s = Some s' \<and> a_receiving s' [] \<and> a_frame s s'"
  using assms
  by (cases "a_eRcvState s")
    (auto simp: ascii_rx_defs a_receiving_def a_frame_def)

text \<open>Two characters make a byte.\<close>

lemma ascii_rx_high:
  assumes "rx_on s" "a_receiving s pre" "length (ucRTUBuf s) = 256" "length pre < 256"
    "unat n < 16"
  shows "\<exists>s'. ascii_rx (prvucMBBIN2CHAR n) s = Some s' \<and> a_frame s s' \<and>
    a_eRcvState s' = A_STATE_RX_RCV \<and> a_eBytePos s' = BYTE_LOW_NIBBLE \<and>
    a_usRcvBufferPos s' = a_usRcvBufferPos s \<and>
    ucRTUBuf s' = (ucRTUBuf s)[length pre := push_bit 4 n]"
  using assms
  by (simp add: ascii_rx_defs a_receiving_def a_frame_def mem_simps)

lemma ascii_rx_low:
  assumes "rx_on s" "a_eRcvState s = A_STATE_RX_RCV" "a_eBytePos s = BYTE_LOW_NIBBLE"
    "length (ucRTUBuf s) = 256" "unat (a_usRcvBufferPos s) < 256" "unat n < 16"
  shows "\<exists>s'. ascii_rx (prvucMBBIN2CHAR n) s = Some s' \<and> a_frame s s' \<and>
    a_eRcvState s' = A_STATE_RX_RCV \<and> a_eBytePos s' = BYTE_HIGH_NIBBLE \<and>
    a_usRcvBufferPos s' = a_usRcvBufferPos s + 1 \<and>
    ucRTUBuf s' = (ucRTUBuf s)[unat (a_usRcvBufferPos s) :=
      ucRTUBuf s ! unat (a_usRcvBufferPos s) OR n]"
  using assms
  by (simp add: ascii_rx_defs a_frame_def mem_simps)

lemma ascii_rx_byte:
  assumes "rx_on s" "a_receiving s pre" "length (ucRTUBuf s) = 256" "length pre < 256"
  shows "\<exists>s'. fold_opt ascii_rx (hex_byte b) s = Some s' \<and> a_receiving s' (pre @ [b]) \<and>
    a_frame s s'"
proof -
  obtain s1 where s1: "ascii_rx (prvucMBBIN2CHAR (drop_bit 4 b)) s = Some s1" "a_frame s s1"
      "a_eRcvState s1 = A_STATE_RX_RCV" "a_eBytePos s1 = BYTE_LOW_NIBBLE"
      "a_usRcvBufferPos s1 = a_usRcvBufferPos s"
      "ucRTUBuf s1 = (ucRTUBuf s)[length pre := push_bit 4 (drop_bit 4 b)]"
    using ascii_rx_high [OF assms unat_high_nibble] by blast
  have pos: "unat (a_usRcvBufferPos s) = length pre" "take (length pre) (ucRTUBuf s) = pre"
    using assms(2) by (simp_all add: a_receiving_def)
  have on: "rx_on s1" "length (ucRTUBuf s1) = 256"
    using s1(2) assms by (simp_all add: a_frame_def)
  obtain s2 where s2: "ascii_rx (prvucMBBIN2CHAR (b AND 0x0F)) s1 = Some s2" "a_frame s1 s2"
      "a_eRcvState s2 = A_STATE_RX_RCV" "a_eBytePos s2 = BYTE_HIGH_NIBBLE"
      "a_usRcvBufferPos s2 = a_usRcvBufferPos s1 + 1"
      "ucRTUBuf s2 = (ucRTUBuf s1)[unat (a_usRcvBufferPos s1) :=
         ucRTUBuf s1 ! unat (a_usRcvBufferPos s1) OR (b AND 0x0F)]"
    using ascii_rx_low [OF on(1) s1(3,4) on(2) _ unat_low_nibble] s1(5) pos assms(4) by force
  have "ucRTUBuf s2 = (ucRTUBuf s)[length pre := b]"
    using s2(6) s1(5,6) pos assms(3,4) by (simp add: join_nibbles)
  then have "a_receiving s2 (pre @ [b])"
    using s1 s2 pos assms by (simp add: a_receiving_def unat_incr take_update_append)
  with s1 s2 show ?thesis by (auto simp: hex_byte_def intro: a_frame_trans)
qed

lemma ascii_rx_bytes:
  assumes "rx_on s" "a_receiving s pre" "length (ucRTUBuf s) = 256" "length (pre @ bs) \<le> 256"
  shows "\<exists>s'. fold_opt ascii_rx (concat (map hex_byte bs)) s = Some s' \<and>
    a_receiving s' (pre @ bs) \<and> a_frame s s'"
  using assms
proof (induction bs arbitrary: s pre)
  case (Cons b bs)
  then obtain s1 where s1: "fold_opt ascii_rx (hex_byte b) s = Some s1"
      "a_receiving s1 (pre @ [b])" "a_frame s s1"
    using ascii_rx_byte [of s pre b] by auto
  then have "rx_on s1" "length (ucRTUBuf s1) = 256"
    using Cons.prems by (simp_all add: a_frame_def)
  with Cons.IH [of s1 "pre @ [b]"] Cons.prems s1 show ?case
    by (auto simp: fold_opt_append intro: a_frame_trans)
qed (simp add: a_frame_refl)

text \<open>CR and LF end the frame; the receiver reports it.\<close>

lemma ascii_rx_end:
  assumes "rx_on s" "a_receiving s bs" "ucMBLFCharacter s = 10"
  shows "\<exists>s'. fold_opt ascii_rx [13, 10] s = Some s' \<and> rx_on s' \<and>
    a_eRcvState s' = A_STATE_RX_IDLE \<and> fst (xMBPortEventGet s') = Some EV_FRAME_RECEIVED \<and>
    ucRTUBuf s' = ucRTUBuf s \<and> a_usRcvBufferPos s' = a_usRcvBufferPos s"
  using assms
  by (simp add: ascii_rx_defs a_receiving_def xMBPortEventGet_def)

definition ascii_frame :: "UCHAR list \<Rightarrow> UCHAR list" where
  "ascii_frame bs = 58 # concat (map hex_byte bs) @ [13, 10]"

lemma eMBASCIIReceive_buf:
  assumes "length (ucRTUBuf s) = 256" "unat (a_usRcvBufferPos s) = length bs"
    "take (length bs) (ucRTUBuf s) = bs"
  shows "eMBASCIIReceive s = Some (
    (if 3 \<le> length bs \<and> sum_list bs = 0
     then (MB_ENOERR, Some (hd bs, 1, of_nat (length bs - 2)), s\<lparr>primask := False\<rparr>)
     else (MB_EIO, None, s\<lparr>primask := False\<rparr>)))"
proof -
  have le: "length bs \<le> 256" using assms by (metis length_take min.cobounded1 min_def)
  have "of_nat (unat (a_usRcvBufferPos s)) = a_usRcvBufferPos s" by simp
  then have pos: "a_usRcvBufferPos s = of_nat (length bs)" using assms(2) by simp
  have hd: "bs \<noteq> [] \<Longrightarrow> ucRTUBuf s ! 0 = hd bs"
    using assms(3) by (metis hd_conv_nth length_greater_0_conv nth_take)
  have lrc: "prvucMBLRC (ucRTUBuf s) 0 (a_usRcvBufferPos s) = Some (- sum_list bs)"
    using assms le by (simp add: prvucMBLRC_in)
  show ?thesis
  proof (cases "3 \<le> length bs \<and> sum_list bs = 0")
    case True
    then have "bs \<noteq> []" by auto
    moreover have "a_usRcvBufferPos s - 1 - 1 = (of_nat (length bs - 2) :: USHORT)"
      using True by (simp add: pos of_nat_diff)
    moreover have "ucRTUBuf s \<noteq> []" using assms(1) by auto
    ultimately show ?thesis using True assms lrc hd
      by (simp add: eMBASCIIReceive_def port_simps mem_simps)
  next
    case False
    with assms lrc show ?thesis
      by (auto simp: eMBASCIIReceive_def port_simps Let_def)
  qed
qed

lemma ascii_line_run:
  assumes "rx_on s" "ucMBLFCharacter s = 10" "length (ucRTUBuf s) = 256" "length bs \<le> 256"
  shows "\<exists>s'. fold_opt ascii_rx (ascii_frame bs) s = Some s' \<and>
    a_eRcvState s' = A_STATE_RX_IDLE \<and> fst (xMBPortEventGet s') = Some EV_FRAME_RECEIVED \<and>
    length (ucRTUBuf s') = 256 \<and> take (length bs) (ucRTUBuf s') = bs \<and>
    eMBASCIIReceive s' = Some (
      (if 3 \<le> length bs \<and> sum_list bs = 0
       then (MB_ENOERR, Some (hd bs, 1, of_nat (length bs - 2)), s'\<lparr>primask := False\<rparr>)
       else (MB_EIO, None, s'\<lparr>primask := False\<rparr>)))"
proof -
  obtain s1 where s1: "ascii_rx 58 s = Some s1" "a_receiving s1 []" "a_frame s s1"
    using ascii_rx_colon [of s] assms by auto
  then have "rx_on s1" "length (ucRTUBuf s1) = 256"
    using assms by (simp_all add: a_frame_def)
  then obtain s2 where s2: "fold_opt ascii_rx (concat (map hex_byte bs)) s1 = Some s2"
      "a_receiving s2 bs" "a_frame s1 s2"
    using ascii_rx_bytes [of s1 "[]" bs] s1 assms by auto
  then have f: "rx_on s2" "ucMBLFCharacter s2 = 10" "length (ucRTUBuf s2) = 256"
    using s1 assms by (simp_all add: a_frame_def)
  obtain s3 where s3: "fold_opt ascii_rx [13, 10] s2 = Some s3"
      "a_eRcvState s3 = A_STATE_RX_IDLE" "fst (xMBPortEventGet s3) = Some EV_FRAME_RECEIVED"
      "ucRTUBuf s3 = ucRTUBuf s2" "a_usRcvBufferPos s3 = a_usRcvBufferPos s2"
    using ascii_rx_end [OF f(1) s2(2) f(2)] by auto
  have "fold_opt ascii_rx (ascii_frame bs) s = Some s3"
    using s1(1) s2(1) s3(1) by (simp add: ascii_frame_def fold_opt_append)
  moreover have "eMBASCIIReceive s3 = Some (
      (if 3 \<le> length bs \<and> sum_list bs = 0
       then (MB_ENOERR, Some (hd bs, 1, of_nat (length bs - 2)), s3\<lparr>primask := False\<rparr>)
       else (MB_EIO, None, s3\<lparr>primask := False\<rparr>)))"
    using s2 s3 f by (intro eMBASCIIReceive_buf) (simp_all add: a_receiving_def)
  ultimately show ?thesis using s2 s3 f by (auto simp: a_receiving_def)
qed

section \<open>Transmission\<close>

lemmas ascii_tx_defs =
  ascii_tx_def ascii_usart_irq_def USART2_IRQHandler_def hw_tx_done_def tx_on_def
  prvvMBSerialTXIRQHandler_def xMBASCIITransmitFSM_def port_simps

text \<open>What the transmitter keeps while it sends.\<close>

definition a_tx_frame :: "'a ascii_scheme \<Rightarrow> 'a ascii_scheme \<Rightarrow> bool" where
  "a_tx_frame s s' \<longleftrightarrow> tx_on s' \<and> usart_rxne s' = usart_rxne s \<and> ucRTUBuf s' = ucRTUBuf s \<and>
     ucMBLFCharacter s' = ucMBLFCharacter s \<and> a_eRcvState s' = a_eRcvState s"

lemma a_tx_frame_trans: "a_tx_frame s s' \<Longrightarrow> a_tx_frame s' s'' \<Longrightarrow> a_tx_frame s s''"
  by (simp add: a_tx_frame_def)

lemma ascii_tx_byte:
  assumes "tx_on s" "a_eSndState s = A_STATE_TX_DATA" "a_eBytePos s = BYTE_HIGH_NIBBLE"
    "0 < unat (a_usSndBufferCount s)" "a_pucSndBufferCur s < length (ucRTUBuf s)"
  shows "\<exists>s'. iter_opt 2 ascii_tx s = Some s' \<and> a_tx_frame s s' \<and>
    a_eSndState s' = A_STATE_TX_DATA \<and> a_eBytePos s' = BYTE_HIGH_NIBBLE \<and>
    a_usSndBufferCount s' = a_usSndBufferCount s - 1 \<and>
    a_pucSndBufferCur s' = Suc (a_pucSndBufferCur s) \<and>
    usart_tx s' = usart_tx s @ hex_byte (ucRTUBuf s ! a_pucSndBufferCur s)"
  using assms
  by (simp add: numeral_2_eq_2 ascii_tx_defs a_tx_frame_def mem_simps hex_byte_def)

lemma ascii_tx_drain:
  assumes "tx_on s" "a_eSndState s = A_STATE_TX_DATA" "a_eBytePos s = BYTE_HIGH_NIBBLE"
    "unat (a_usSndBufferCount s) = n" "a_pucSndBufferCur s + n \<le> length (ucRTUBuf s)"
  shows "\<exists>s'. iter_opt (2 * n) ascii_tx s = Some s' \<and> a_tx_frame s s' \<and>
    a_eSndState s' = A_STATE_TX_DATA \<and> a_usSndBufferCount s' = 0 \<and>
    usart_tx s' = usart_tx s @
      concat (map hex_byte (take n (drop (a_pucSndBufferCur s) (ucRTUBuf s))))"
  using assms
proof (induction n arbitrary: s)
  case 0
  then show ?case by (simp add: a_tx_frame_def unat_eq_0)
next
  case (Suc n)
  then obtain s1 where s1: "iter_opt 2 ascii_tx s = Some s1" "a_tx_frame s s1"
      "a_eSndState s1 = A_STATE_TX_DATA" "a_eBytePos s1 = BYTE_HIGH_NIBBLE"
      "a_usSndBufferCount s1 = a_usSndBufferCount s - 1"
      "a_pucSndBufferCur s1 = Suc (a_pucSndBufferCur s)"
      "usart_tx s1 = usart_tx s @ hex_byte (ucRTUBuf s ! a_pucSndBufferCur s)"
    using ascii_tx_byte [of s] by auto
  have "a_usSndBufferCount s \<noteq> 0" using Suc.prems(4) by auto
  then have "unat (a_usSndBufferCount s1) = n" using s1(5) Suc.prems(4) by (simp add: unat_decr)
  with Suc.IH [of s1] s1 Suc.prems obtain s2 where s2: "iter_opt (2 * n) ascii_tx s1 = Some s2"
      "a_tx_frame s1 s2" "a_eSndState s2 = A_STATE_TX_DATA" "a_usSndBufferCount s2 = 0"
      "usart_tx s2 = usart_tx s1 @
         concat (map hex_byte (take n (drop (a_pucSndBufferCur s1) (ucRTUBuf s1))))"
    by (auto simp: a_tx_frame_def)
  have "take (Suc n) (drop (a_pucSndBufferCur s) (ucRTUBuf s)) =
      ucRTUBuf s ! a_pucSndBufferCur s # take n (drop (Suc (a_pucSndBufferCur s)) (ucRTUBuf s))"
    using Suc.prems(5) by (simp add: Cons_nth_drop_Suc [symmetric])
  moreover have "iter_opt (2 + 2 * n) ascii_tx s = Some s2"
    by (simp only: iter_opt_add s1(1) s2(1) Option.bind.simps)
  ultimately show ?case using s1 s2 by (auto simp: a_tx_frame_def)
qed

text \<open>The bytes of a frame: address, PDU and the negated sum of both.\<close>

definition ascii_body :: "UCHAR \<Rightarrow> UCHAR list \<Rightarrow> UCHAR list" where
  "ascii_body addr pdu = addr # pdu @ [- sum_list (addr # pdu)]"

lemma length_ascii_body [simp]: "length (ascii_body addr pdu) = length pdu + 2"
  by (simp add: ascii_body_def)

lemma sum_ascii_body [simp]: "sum_list (ascii_body addr pdu) = 0"
  by (simp add: ascii_body_def)

lemma overwrite_last:
  "i = length us \<Longrightarrow> i < length m \<Longrightarrow> take i m = us \<Longrightarrow> m[i := a] = overwrite m 0 (us @ [a])"
  by (auto simp: overwrite_def upd_conv_take_nth_drop)

lemma eMBASCIISend_idle:
  assumes idle: "a_eRcvState s = A_STATE_RX_IDLE" and len: "length (ucRTUBuf s) = 256"
    "unat usLength \<le> 253"
  defines "pdu \<equiv> take (unat usLength) (drop 1 (ucRTUBuf s))"
  shows "eMBASCIISend addr 1 usLength s = Some (MB_ENOERR,
    s\<lparr>primask := False, ucRTUBuf := overwrite (ucRTUBuf s) 0 (ascii_body addr pdu),
      a_pucSndBufferCur := 0, a_usSndBufferCount := usLength + 2,
      a_eSndState := A_STATE_TX_START, usart_rxneie := False, usart_tcie := True\<rparr>)"
proof -
  let ?n = "unat usLength" and ?buf = "(ucRTUBuf s)[0 := addr]"
  have ne: "ucRTUBuf s \<noteq> []" using len by auto
  have u1: "unat (1 + usLength) = Suc ?n" using len(2) by (simp add: unat_word_ariths)
  have body: "take (Suc ?n) ?buf = addr # pdu"
    using ne len by (cases "ucRTUBuf s") (simp_all add: pdu_def)
  have lp: "length pdu = ?n" using len by (simp add: pdu_def)
  have lrc: "prvucMBLRC ?buf 0 (1 + usLength) = Some (- sum_list (addr # pdu))"
    using len body by (simp add: prvucMBLRC_in u1)
  have "?buf[Suc ?n := - sum_list (addr # pdu)] = overwrite ?buf 0 ((addr # pdu) @ [- sum_list (addr # pdu)])"
    using len lp body by (intro overwrite_last) simp_all
  also have "\<dots> = overwrite (ucRTUBuf s) 0 (ascii_body addr pdu)"
    using ne by (cases "ucRTUBuf s") (simp_all add: overwrite_def ascii_body_def)
  finally have upd: "?buf[Suc ?n := - sum_list (addr # pdu)] =
    overwrite (ucRTUBuf s) 0 (ascii_body addr pdu)" .
  have cnt: "usLength + 2 = 2 + usLength" by simp
  show ?thesis
    using ne len idle lrc upd lp
    by (simp add: eMBASCIISend_def mem_simps port_simps u1 cnt Let_def)
qed

lemma ascii_send_run:
  assumes "a_eRcvState s = A_STATE_RX_IDLE" "length (ucRTUBuf s) = 256" "unat usLength \<le> 253"
    "\<not> usart_eie s" "\<not> usart_rxne s" "ucMBLFCharacter s = 10"
  defines "pdu \<equiv> take (unat usLength) (drop 1 (ucRTUBuf s))"
  shows "\<exists>s1 s2. eMBASCIISend addr 1 usLength s = Some (MB_ENOERR, s1) \<and>
    iter_opt (2 * unat usLength + 8) ascii_tx s1 = Some s2 \<and>
    usart_tx s2 = usart_tx s @ ascii_frame (ascii_body addr pdu) \<and>
    a_eSndState s2 = A_STATE_TX_IDLE \<and> rx_on s2 \<and>
    fst (xMBPortEventGet s2) = Some EV_FRAME_SENT"
proof -
  let ?body = "ascii_body addr pdu" and ?n = "unat usLength + 2"
  have n: "unat (usLength + 2) = ?n" using assms(3) by (simp add: unat_word_ariths)
  have lp: "length pdu = unat usLength" using assms(2,3) by (simp add: pdu_def)
  let ?s1 = "s\<lparr>primask := False, ucRTUBuf := overwrite (ucRTUBuf s) 0 ?body,
      a_pucSndBufferCur := 0, a_usSndBufferCount := usLength + 2,
      a_eSndState := A_STATE_TX_START, usart_rxneie := False, usart_tcie := True\<rparr>"
  have send: "eMBASCIISend addr 1 usLength s = Some (MB_ENOERR, ?s1)"
    unfolding pdu_def by (rule eMBASCIISend_idle [OF assms(1-3)])
  let ?s2 = "?s1\<lparr>usart_tx := usart_tx s @ [58], usart_tc := False,
      a_eSndState := A_STATE_TX_DATA, a_eBytePos := BYTE_HIGH_NIBBLE\<rparr>"
  have start: "iter_opt 1 ascii_tx ?s1 = Some ?s2"
    using assms(4,5) by (simp add: ascii_tx_defs)
  obtain s3 where s3: "iter_opt (2 * ?n) ascii_tx ?s2 = Some s3" "a_tx_frame ?s2 s3"
      "a_eSndState s3 = A_STATE_TX_DATA" "a_usSndBufferCount s3 = 0"
      "usart_tx s3 = usart_tx ?s2 @ concat (map hex_byte (take ?n (drop 0 (ucRTUBuf ?s2))))"
    using ascii_tx_drain [of ?s2 ?n] assms n lp by (auto simp: tx_on_def)
  have body: "take ?n (drop 0 (ucRTUBuf ?s2)) = ?body"
    using lp assms by (simp add: overwrite_def)
  obtain s4 where s4: "iter_opt 3 ascii_tx s3 = Some s4" "usart_tx s4 = usart_tx s3 @ [13, 10]"
      "a_eSndState s4 = A_STATE_TX_IDLE" "rx_on s4" "fst (xMBPortEventGet s4) = Some EV_FRAME_SENT"
    using s3 assms(5,6)
    by (simp add: numeral_3_eq_3 ascii_tx_defs a_tx_frame_def rx_on_def xMBPortEventGet_def)
  have "iter_opt (1 + (2 * ?n + 3)) ascii_tx ?s1 = Some s4"
    by (simp only: iter_opt_add start s3(1) s4(1) Option.bind.simps)
  moreover have "1 + (2 * ?n + 3) = 2 * unat usLength + 8" by simp
  ultimately have "iter_opt (2 * unat usLength + 8) ascii_tx ?s1 = Some s4" by (simp only:)
  moreover have "usart_tx s4 = usart_tx s @ ascii_frame ?body"
    using s4(2) s3(5) body by (simp add: ascii_frame_def)
  ultimately show ?thesis using send s4 by blast
qed

section \<open>Properties\<close>

text \<open>
  C18. ASCII round trip: the characters one station puts on the line for a PDU of 1 to 253
  bytes (colon, two hexadecimal digits per byte of address, PDU and LRC, CR, LF), fed to
  another station whatever its receiver state, are received there with the same address,
  length and PDU and queue EV_FRAME_RECEIVED.
\<close>

theorem ascii_roundtrip:
  fixes s :: "'a ascii_scheme" and r :: "'b ascii_scheme"
  assumes "a_eRcvState s = A_STATE_RX_IDLE" and "length (ucRTUBuf s) = 256"
    and "1 \<le> unat usLength" and "unat usLength \<le> 253" and "\<not> usart_eie s"
    and "\<not> usart_rxne s" and "ucMBLFCharacter s = 10" and "usart_tx s = []"
    and "rx_on r" and "ucMBLFCharacter r = 10" and "length (ucRTUBuf r) = 256"
  shows "\<exists>s1 s2 r1 r2. eMBASCIISend addr 1 usLength s = Some (MB_ENOERR, s1) \<and>
    iter_opt (2 * unat usLength + 8) ascii_tx s1 = Some s2 \<and>
    fold_opt ascii_rx (usart_tx s2) r = Some r1 \<and>
    fst (xMBPortEventGet r1) = Some EV_FRAME_RECEIVED \<and>
    eMBASCIIReceive r1 = Some (MB_ENOERR, Some (addr, 1, usLength), r2) \<and>
    take (unat usLength) (drop 1 (ucRTUBuf r2)) = take (unat usLength) (drop 1 (ucRTUBuf s))"
proof -
  define pdu where "pdu = take (unat usLength) (drop 1 (ucRTUBuf s))"
  let ?body = "ascii_body addr pdu"
  have lp: "length pdu = unat usLength" using assms(2,4) by (simp add: pdu_def)
  obtain s1 s2 where s: "eMBASCIISend addr 1 usLength s = Some (MB_ENOERR, s1)"
      "iter_opt (2 * unat usLength + 8) ascii_tx s1 = Some s2" "usart_tx s2 = ascii_frame ?body"
    using ascii_send_run [OF assms(1,2,4,5,6,7), of addr] assms(8) by (auto simp: pdu_def)
  have hd: "hd ?body = addr" by (simp add: ascii_body_def)
  have len: "of_nat (length ?body - 2) = usLength" by (simp add: lp)
  obtain r1 where r: "fold_opt ascii_rx (ascii_frame ?body) r = Some r1"
      "fst (xMBPortEventGet r1) = Some EV_FRAME_RECEIVED"
      "eMBASCIIReceive r1 = Some (MB_ENOERR, Some (addr, 1, usLength), r1\<lparr>primask := False\<rparr>)"
      "take (unat usLength + 2) (ucRTUBuf r1) = ?body"
    using ascii_line_run [OF assms(9-11), of ?body] assms(3,4) len hd lp by auto
  have "take (unat usLength) (drop 1 (ucRTUBuf r1)) =
      take (unat usLength) (drop 1 (take (unat usLength + 2) (ucRTUBuf r1)))"
    by (simp add: drop_take)
  also have "\<dots> = pdu" unfolding r(4) using lp by (simp add: ascii_body_def)
  finally show ?thesis using s r unfolding pdu_def by auto
qed

definition ascii_idle_state :: "UCHAR list \<Rightarrow> ascii" where
  "ascii_idle_state buf = rtu.extend (rtu_idle_state buf)
     \<lparr>a_eSndState = A_STATE_TX_IDLE, a_eRcvState = A_STATE_RX_IDLE, a_usRcvBufferPos = 0,
      a_eBytePos = BYTE_HIGH_NIBBLE, a_pucSndBufferCur = 0, a_usSndBufferCount = 0,
      ucMBLFCharacter = 10\<rparr>"

theorem ascii_roundtrip_witness:
  "\<exists>s1 s2 r1 r2. eMBASCIISend 7 1 2 (ascii_idle_state ([0, 3, 4] @ replicate 253 0)) = Some (MB_ENOERR, s1) \<and>
    iter_opt 12 ascii_tx s1 = Some s2 \<and>
    fold_opt ascii_rx (usart_tx s2) (ascii_idle_state (replicate 256 0)) = Some r1 \<and>
    eMBASCIIReceive r1 = Some (MB_ENOERR, Some (7, 1, 2), r2) \<and>
    take 2 (drop 1 (ucRTUBuf r2)) = [3, 4]"
  using ascii_roundtrip [of "ascii_idle_state ([0, 3, 4] @ replicate 253 0)" 2
    "ascii_idle_state (replicate 256 0)" 7]
  by (force simp: ascii_idle_state_def rtu_idle_state_def rtu.defs rx_on_def)

text \<open>
  A character that is no hexadecimal digit is not rejected: in the place of a high nibble
  it stores what 'F' would store, and in the place of a low nibble it turns the whole byte,
  the high nibble received before included, into 0xFF.
\<close>

theorem ascii_invalid_character:
  assumes "rx_on s" and "a_eRcvState s = A_STATE_RX_RCV" and "length (ucRTUBuf s) = 256"
    and "unat (a_usRcvBufferPos s) < 256" and "prvucMBCHAR2BIN c = 0xFF" and "c \<noteq> 58" and "c \<noteq> 13"
  shows "\<exists>s'. ascii_rx c s = Some s' \<and> a_eRcvState s' = A_STATE_RX_RCV \<and>
    (case a_eBytePos s of
       BYTE_HIGH_NIBBLE \<Rightarrow> map_option ucRTUBuf (ascii_rx 70 s) = Some (ucRTUBuf s') \<and>
         a_eBytePos s' = BYTE_LOW_NIBBLE
     | BYTE_LOW_NIBBLE \<Rightarrow> ucRTUBuf s' = (ucRTUBuf s)[unat (a_usRcvBufferPos s) := 0xFF] \<and>
         a_usRcvBufferPos s' = a_usRcvBufferPos s + 1)"
proof (cases "a_eBytePos s")
  case BYTE_HIGH_NIBBLE
  moreover have "prvucMBCHAR2BIN 70 = 0x0F" by (simp add: prvucMBCHAR2BIN_def)
  moreover have ovf: "(0xFF0 :: UCHAR) = 0xF0" by simp
  ultimately show ?thesis using assms by (simp add: ascii_rx_defs mem_simps ovf)
next
  case BYTE_LOW_NIBBLE
  have "x OR 0xFF = (0xFF :: UCHAR)" for x
    unfolding mask_FF by (rule bit_word_eqI) (auto simp: bit_simps)
  with BYTE_LOW_NIBBLE assms show ?thesis by (simp add: ascii_rx_defs mem_simps)
qed

theorem ascii_invalid_character_witness:
  "\<exists>s'. ascii_rx 97 ((ascii_idle_state (replicate 256 0))\<lparr>a_eRcvState := A_STATE_RX_RCV\<rparr>) = Some s' \<and>
     a_eBytePos s' = BYTE_LOW_NIBBLE"
  using ascii_invalid_character
    [of "(ascii_idle_state (replicate 256 0))\<lparr>a_eRcvState := A_STATE_RX_RCV\<rparr>" 97]
  by (force simp: ascii_idle_state_def rtu_idle_state_def rtu.defs rx_on_def prvucMBCHAR2BIN_def)

end
