(* ===== verification/MBTcp.thy ===== *)
theory MBTcp
  imports MBAscii
begin

text \<open>
  \<open>tcp/mbtcp.c\<close>: the TCP framing layer (compiled when \<open>MB_TCP_ENABLED\<close> is set). The port
  functions it calls are not part of the repository: they are the fields of \<open>tcp_port\<close>, on a
  state \<open>'w\<close> of their own. \<open>tcp_frame\<close> is the buffer \<open>xMBTCPPortGetRequest\<close> returned last, and
  pointers into it are offsets.
\<close>

record 'w tcp_port =
  xMBTCPPortInit :: "USHORT \<Rightarrow> 'w \<Rightarrow> bool \<times> 'w"
  vMBTCPPortDisable :: "'w \<Rightarrow> 'w"
  xMBTCPPortGetRequest :: "'w \<Rightarrow> (UCHAR list \<times> USHORT) option \<times> 'w"
  xMBTCPPortSendResponse :: "UCHAR list \<Rightarrow> USHORT \<Rightarrow> 'w \<Rightarrow> bool \<times> 'w"

record 'w tcp = ascii +
  tcp_world :: 'w
  tcp_frame :: "UCHAR list"

abbreviation (input) MB_TCP_PID :: nat where "MB_TCP_PID \<equiv> 2"
abbreviation (input) MB_TCP_LEN :: nat where "MB_TCP_LEN \<equiv> 4"
abbreviation (input) MB_TCP_FUNC :: nat where "MB_TCP_FUNC \<equiv> 7"
abbreviation (input) MB_TCP_PROTOCOL_ID :: USHORT where "MB_TCP_PROTOCOL_ID \<equiv> 0"
abbreviation (input) MB_TCP_PSEUDO_ADDRESS :: UCHAR where "MB_TCP_PSEUDO_ADDRESS \<equiv> 255"

definition eMBTCPDoInit ::
  "'w tcp_port \<Rightarrow> USHORT \<Rightarrow> ('w, 'a) tcp_scheme \<Rightarrow> eMBErrorCode \<times> ('w, 'a) tcp_scheme" where
  "eMBTCPDoInit tp ucTCPPort s =
     (let (ok, w) = xMBTCPPortInit tp ucTCPPort (tcp_world s)
      in (if \<not> ok then MB_EPORTERR else MB_ENOERR, s\<lparr>tcp_world := w\<rparr>))"

definition eMBTCPStart :: "('w, 'a) tcp_scheme \<Rightarrow> ('w, 'a) tcp_scheme" where
  "eMBTCPStart s = s"

definition eMBTCPStop :: "'w tcp_port \<Rightarrow> ('w, 'a) tcp_scheme \<Rightarrow> ('w, 'a) tcp_scheme" where
  "eMBTCPStop tp s = s\<lparr>tcp_world := vMBTCPPortDisable tp (tcp_world s)\<rparr>"

definition eMBTCPReceive ::
  "'w tcp_port \<Rightarrow> ('w, 'a) tcp_scheme \<Rightarrow>
   (eMBErrorCode \<times> (UCHAR \<times> nat \<times> USHORT) option \<times> ('w, 'a) tcp_scheme) option" where
  "eMBTCPReceive tp s =
     (let (req, w) = xMBTCPPortGetRequest tp (tcp_world s);
          s = s\<lparr>tcp_world := w\<rparr>
      in case req of
           None \<Rightarrow> Some (MB_EIO, None, s)
         | Some (pucMBTCPFrame, usLength) \<Rightarrow> do {
             p0 \<leftarrow> rd pucMBTCPFrame MB_TCP_PID;
             p1 \<leftarrow> rd pucMBTCPFrame (MB_TCP_PID + 1);
             let usPID = be16 p0 p1;
             let s = s\<lparr>tcp_frame := pucMBTCPFrame\<rparr>;
             if usPID = MB_TCP_PROTOCOL_ID
             then Some (MB_ENOERR,
                        Some (MB_TCP_PSEUDO_ADDRESS, MB_TCP_FUNC, usLength - of_nat MB_TCP_FUNC), s)
             else Some (MB_EIO, None, s)
           })"

definition eMBTCPSend ::
  "'w tcp_port \<Rightarrow> UCHAR \<Rightarrow> nat \<Rightarrow> USHORT \<Rightarrow> ('w, 'a) tcp_scheme \<Rightarrow>
   (eMBErrorCode \<times> ('w, 'a) tcp_scheme) option" where
  "eMBTCPSend tp unused pucFrame usLength s = do {
     base \<leftarrow> (if pucFrame < MB_TCP_FUNC then None else Some (pucFrame - MB_TCP_FUNC));
     let usTCPLength = usLength + of_nat MB_TCP_FUNC;
     buf \<leftarrow> wr (tcp_frame s) (base + MB_TCP_LEN) (hi8 (usLength + 1));
     buf \<leftarrow> wr buf (base + MB_TCP_LEN + 1) (lo8 (usLength + 1));
     let (ok, w) = xMBTCPPortSendResponse tp (drop base buf) usTCPLength (tcp_world s);
     Some (if \<not> ok then MB_EIO else MB_ENOERR, s\<lparr>tcp_frame := buf, tcp_world := w\<rparr>)
   }"

section \<open>Properties\<close>

text \<open>
  Modbus TCP exchange: a request of the TCP port with protocol identifier 0 is accepted
  under the pseudo address 255 with the PDU behind the seven header bytes, any other protocol
  identifier is refused; the response handed to the port differs from the frame only in the
  length field, which counts the PDU and the unit identifier, and is as long as header and
  PDU.
\<close>

theorem eMBTCP_exchange:
  assumes "xMBTCPPortGetRequest tp (tcp_world s) = (Some (f, n), w)" and "7 \<le> length f"
  shows "\<exists>s1. eMBTCPReceive tp s = Some (
      (if f ! 2 = 0 \<and> f ! 3 = 0 then (MB_ENOERR, Some (255, 7, n - 7), s1)
       else (MB_EIO, None, s1))) \<and> tcp_frame s1 = f \<and>
    (\<exists>e s2. eMBTCPSend tp a 7 l s1 = Some (e, s2) \<and>
      tcp_frame s2 = f[4 := hi8 (l + 1), 5 := lo8 (l + 1)] \<and>
      (e = MB_ENOERR) = fst (xMBTCPPortSendResponse tp (tcp_frame s2) (l + 7) w))"
proof -
  have "be16 (f ! 2) (f ! 3) = 0 \<longleftrightarrow> f ! 2 = 0 \<and> f ! 3 = 0"
    using be16_inject [of "f ! 2" "f ! 3" 0 0] by (simp add: be16_def)
  with assms show ?thesis
    by (auto simp: eMBTCPReceive_def eMBTCPSend_def mem_simps Let_def numeral_eq_Suc
        split: prod.splits)
qed

text \<open>A port with one pending request that records the responses.\<close>

definition one_request_port :: "UCHAR list \<Rightarrow> USHORT \<Rightarrow> (UCHAR list \<times> USHORT) list tcp_port" where
  "one_request_port f n =
     \<lparr>xMBTCPPortInit = \<lambda>p w. (True, w), vMBTCPPortDisable = \<lambda>w. w,
      xMBTCPPortGetRequest = \<lambda>w. (Some (f, n), w),
      xMBTCPPortSendResponse = \<lambda>b l w. (True, w @ [(b, l)])\<rparr>"

definition tcp_state :: "'w \<Rightarrow> 'w tcp" where
  "tcp_state w = ascii.extend (ascii_idle_state []) \<lparr>tcp_world = w, tcp_frame = []\<rparr>"

theorem eMBTCP_exchange_witness:
  "\<exists>s1. eMBTCPReceive (one_request_port [0, 1, 0, 0, 0, 3, 9, 3, 4] 9) (tcp_state []) =
     Some (MB_ENOERR, Some (255, 7, 2), s1)"
  using eMBTCP_exchange [of "one_request_port [0, 1, 0, 0, 0, 3, 9, 3, 4] 9" "tcp_state []"
      "[0, 1, 0, 0, 0, 3, 9, 3, 4]" 9 "[]"]
  by (auto simp: one_request_port_def tcp_state_def ascii.defs)

end
