(* ===== verification/MBStack.thy ===== *)
theory MBStack
  imports MBFunc MBTcp
begin

text \<open>
  \<open>mb.c\<close>: the protocol stack. Its state extends the framing layers by the address, the mode,
  the stack state, the function pointers set at initialisation, the table of function
  handlers, the static variables of \<open>eMBPoll\<close> and the register file. A function pointer to a
  framing layer is the name of the layer; calling a NULL pointer is None.
\<close>

section \<open>State\<close>

datatype eMBStateT = STATE_ENABLED | STATE_DISABLED | STATE_NOT_INITIALIZED

datatype frame_layer = L_RTU | L_ASCII | L_TCP

text \<open>A pointer into one of the two frame buffers.\<close>

datatype frame_ptr = RTU_BUF nat | TCP_BUF nat

record 'w mb = "'w tcp" +
  ucMBAddress :: UCHAR
  eMBCurrentMode :: eMBMode
  eMBState :: eMBStateT
  peMBFrameSendCur :: "frame_layer option"
  pvMBFrameStartCur :: "frame_layer option"
  pvMBFrameStopCur :: "frame_layer option"
  peMBFrameReceiveCur :: "frame_layer option"
  pxMBFrameCBByteReceived :: "frame_layer option"
  pxMBFrameCBTransmitterEmpty :: "frame_layer option"
  pxMBPortCBTimerExpired :: "frame_layer option"
  xFuncHandlers :: "(UCHAR \<times> handler_id option) list"
  ucMBFrame :: "frame_ptr option"
  ucRcvAddress :: UCHAR
  ucFunctionCode :: UCHAR
  usLength :: USHORT
  mb_regs :: mbregs

text \<open>The compile-time switches of \<open>mbconfig.h\<close>.\<close>

record mb_config =
  MB_RTU_ENABLED :: bool
  MB_ASCII_ENABLED :: bool

definition mbconfig_h :: mb_config where
  "mbconfig_h = \<lparr>MB_RTU_ENABLED = True, MB_ASCII_ENABLED = False\<rparr>"

abbreviation (input) MB_FUNC_HANDLERS_MAX :: nat where "MB_FUNC_HANDLERS_MAX \<equiv> 16"

definition xFuncHandlers_init :: "(UCHAR \<times> handler_id option) list" where
  "xFuncHandlers_init =
     [(MB_FUNC_OTHER_REPORT_SLAVEID, Some H_ReportSlaveID),
      (MB_FUNC_READ_INPUT_REGISTER, Some H_ReadInputRegister),
      (MB_FUNC_READ_HOLDING_REGISTER, Some H_ReadHoldingRegister),
      (MB_FUNC_WRITE_MULTIPLE_REGISTERS, Some H_WriteMultipleHoldingRegister),
      (MB_FUNC_WRITE_REGISTER, Some H_WriteHoldingRegister),
      (MB_FUNC_READWRITE_MULTIPLE_REGISTERS, Some H_ReadWriteMultipleHoldingRegister),
      (MB_FUNC_READ_COILS, Some H_ReadCoils),
      (MB_FUNC_WRITE_SINGLE_COIL, Some H_WriteCoil),
      (MB_FUNC_WRITE_MULTIPLE_COILS, Some H_WriteMultipleCoils),
      (MB_FUNC_READ_DISCRETE_INPUTS, Some H_ReadDiscreteInputs)] @ replicate 6 (0, None)"

section \<open>The function pointers to the framing layers\<close>

definition frame_start :: "frame_layer \<Rightarrow> ('w, 'a) mb_scheme \<Rightarrow> ('w, 'a) mb_scheme" where
  "frame_start l s = (case l of
     L_RTU \<Rightarrow> eMBRTUStart s | L_ASCII \<Rightarrow> eMBASCIIStart s | L_TCP \<Rightarrow> eMBTCPStart s)"

definition frame_stop ::
  "'w tcp_port \<Rightarrow> frame_layer \<Rightarrow> ('w, 'a) mb_scheme \<Rightarrow> ('w, 'a) mb_scheme" where
  "frame_stop tp l s = (case l of
     L_RTU \<Rightarrow> eMBRTUStop s | L_ASCII \<Rightarrow> eMBASCIIStop s | L_TCP \<Rightarrow> eMBTCPStop tp s)"

type_synonym 's frame_receive_fn =
  "'s \<Rightarrow> (eMBErrorCode \<times> (UCHAR \<times> frame_ptr \<times> USHORT) option \<times> 's) option"

type_synonym 's frame_send_fn = "UCHAR \<Rightarrow> frame_ptr \<Rightarrow> USHORT \<Rightarrow> 's \<Rightarrow> (eMBErrorCode \<times> 's) option"

text \<open>The frame pointer of a layer as a pointer into the buffer of that layer.\<close>

definition in_buffer ::
  "(nat \<Rightarrow> frame_ptr) \<Rightarrow> eMBErrorCode \<times> (UCHAR \<times> nat \<times> USHORT) option \<times> 's \<Rightarrow>
   eMBErrorCode \<times> (UCHAR \<times> frame_ptr \<times> USHORT) option \<times> 's" where
  "in_buffer B = (\<lambda>(e, r, s). (e, map_option (\<lambda>(a, p, n). (a, B p, n)) r, s))"

definition frame_receive ::
  "'w tcp_port \<Rightarrow> frame_layer \<Rightarrow> ('w, 'a) mb_scheme frame_receive_fn" where
  "frame_receive tp l s = (case l of
     L_RTU \<Rightarrow> map_option (in_buffer RTU_BUF) (eMBRTUReceive s)
   | L_ASCII \<Rightarrow> map_option (in_buffer RTU_BUF) (eMBASCIIReceive s)
   | L_TCP \<Rightarrow> map_option (in_buffer TCP_BUF) (eMBTCPReceive tp s))"

definition frame_send ::
  "'w tcp_port \<Rightarrow> frame_layer \<Rightarrow> ('w, 'a) mb_scheme frame_send_fn" where
  "frame_send tp l ucSlaveAddress pucFrame usLen s = (case (l, pucFrame) of
     (L_RTU, RTU_BUF p) \<Rightarrow> eMBRTUSend ucSlaveAddress p usLen s
   | (L_ASCII, RTU_BUF p) \<Rightarrow> eMBASCIISend ucSlaveAddress p usLen s
   | (L_TCP, TCP_BUF p) \<Rightarrow> eMBTCPSend tp ucSlaveAddress p usLen s
   | _ \<Rightarrow> None)"

text \<open>The interrupt callbacks; the TCP layer sets none.\<close>

definition byte_received :: "('w, 'a) mb_scheme callback" where
  "byte_received s = (case pxMBFrameCBByteReceived s of
     Some L_RTU \<Rightarrow> xMBRTUReceiveFSM s | Some L_ASCII \<Rightarrow> xMBASCIIReceiveFSM s | _ \<Rightarrow> None)"

definition transmitter_empty :: "('w, 'a) mb_scheme callback" where
  "transmitter_empty s = (case pxMBFrameCBTransmitterEmpty s of
     Some L_RTU \<Rightarrow> xMBRTUTransmitFSM s | Some L_ASCII \<Rightarrow> xMBASCIITransmitFSM s | _ \<Rightarrow> None)"

definition timer_expired :: "('w, 'a) mb_scheme callback" where
  "timer_expired s = (case pxMBPortCBTimerExpired s of
     Some L_RTU \<Rightarrow> xMBRTUTimerT35Expired s | Some L_ASCII \<Rightarrow> xMBASCIITimerT1SExpired s | _ \<Rightarrow> None)"

definition mb_usart_irq :: "('w, 'a) mb_scheme \<Rightarrow> ('w, 'a) mb_scheme option" where
  "mb_usart_irq s = USART2_IRQHandler byte_received transmitter_empty s"

definition mb_timer_irq :: "('w, 'a) mb_scheme \<Rightarrow> ('w, 'a) mb_scheme option" where
  "mb_timer_irq s = TIM2_IRQHandler timer_expired s"

section \<open>Initialisation and control\<close>

definition set_layer :: "frame_layer \<Rightarrow> ('w, 'a) mb_scheme \<Rightarrow> ('w, 'a) mb_scheme" where
  "set_layer l s = s\<lparr>pvMBFrameStartCur := Some l, pvMBFrameStopCur := Some l,
     peMBFrameSendCur := Some l, peMBFrameReceiveCur := Some l,
     pxMBFrameCBByteReceived := Some l, pxMBFrameCBTransmitterEmpty := Some l,
     pxMBPortCBTimerExpired := Some l\<rparr>"

definition eMBInit ::
  "mb_config \<Rightarrow> eMBMode \<Rightarrow> UCHAR \<Rightarrow> UCHAR \<Rightarrow> ULONG \<Rightarrow> eMBParity \<Rightarrow> ('w, 'a) mb_scheme \<Rightarrow>
   (eMBErrorCode \<times> ('w, 'a) mb_scheme) option" where
  "eMBInit cfg eMode ucSlaveAddress ucPort ulBaudRate eParity s =
     (if ucSlaveAddress = MB_ADDRESS_BROADCAST \<or> ucSlaveAddress < MB_ADDRESS_MIN \<or>
         ucSlaveAddress > MB_ADDRESS_MAX
      then Some (MB_EINVAL, s)
      else do {
        let s = s\<lparr>ucMBAddress := ucSlaveAddress\<rparr>;
        (eStatus, s) \<leftarrow>
          (if eMode = MB_RTU \<and> MB_RTU_ENABLED cfg
           then eMBRTUInit (ucMBAddress s) ucPort ulBaudRate eParity (set_layer L_RTU s)
           else if eMode = MB_ASCII \<and> MB_ASCII_ENABLED cfg
           then Some (eMBASCIIInit (ucMBAddress s) ucPort ulBaudRate eParity (set_layer L_ASCII s))
           else Some (MB_EINVAL, s));
        if eStatus = MB_ENOERR
        then do {
          let (ok, s) = xMBPortEventInit s;
          if \<not> ok then Some (MB_EPORTERR, s)
          else Some (MB_ENOERR, s\<lparr>eMBCurrentMode := eMode, eMBState := STATE_DISABLED\<rparr>)
        }
        else Some (eStatus, s)
      })"

definition eMBTCPInit ::
  "'w tcp_port \<Rightarrow> USHORT \<Rightarrow> ('w, 'a) mb_scheme \<Rightarrow> eMBErrorCode \<times> ('w, 'a) mb_scheme" where
  "eMBTCPInit tp ucTCPPort s =
     (let (eStatus, s) = eMBTCPDoInit tp ucTCPPort s
      in if eStatus \<noteq> MB_ENOERR then (eStatus, s\<lparr>eMBState := STATE_DISABLED\<rparr>)
         else let (ok, s) = xMBPortEventInit s
              in if \<not> ok then (MB_EPORTERR, s)
                 else (eStatus, s\<lparr>pvMBFrameStartCur := Some L_TCP, pvMBFrameStopCur := Some L_TCP,
                         peMBFrameReceiveCur := Some L_TCP, peMBFrameSendCur := Some L_TCP,
                         ucMBAddress := MB_TCP_PSEUDO_ADDRESS, eMBCurrentMode := MB_TCP,
                         eMBState := STATE_DISABLED\<rparr>))"

text \<open>The two loops of \<open>eMBRegisterCB\<close> over the table; None is the loop running to its end.\<close>

fun register_loop ::
  "UCHAR \<Rightarrow> handler_id \<Rightarrow> (UCHAR \<times> handler_id option) list \<Rightarrow> (UCHAR \<times> handler_id option) list option" where
  "register_loop fc h [] = None"
| "register_loop fc h ((c, p) # t) =
     (if p = None \<or> p = Some h then Some ((fc, Some h) # t)
      else map_option (Cons (c, p)) (register_loop fc h t))"

fun remove_loop ::
  "UCHAR \<Rightarrow> (UCHAR \<times> handler_id option) list \<Rightarrow> (UCHAR \<times> handler_id option) list" where
  "remove_loop fc [] = []"
| "remove_loop fc ((c, p) # t) = (if c = fc then (0, None) # t else (c, p) # remove_loop fc t)"

definition eMBRegisterCB ::
  "UCHAR \<Rightarrow> handler_id option \<Rightarrow> ('w, 'a) mb_scheme \<Rightarrow> eMBErrorCode \<times> ('w, 'a) mb_scheme" where
  "eMBRegisterCB fc pxHandler s =
     (if 0 < fc \<and> fc \<le> 127
      then let s = EnterCriticalSection s;
               (eStatus, s) =
                 (case pxHandler of
                    Some h \<Rightarrow>
                      (case register_loop fc h (xFuncHandlers s) of
                         Some t \<Rightarrow> (MB_ENOERR, s\<lparr>xFuncHandlers := t\<rparr>)
                       | None \<Rightarrow> (MB_ENORES, s))
                  | None \<Rightarrow> (MB_ENOERR, s\<lparr>xFuncHandlers := remove_loop fc (xFuncHandlers s)\<rparr>))
           in (eStatus, ExitCriticalSection s)
      else (MB_EINVAL, s))"

text \<open>\<open>MB_PORT_HAS_CLOSE\<close> is 0, so \<open>pvMBFrameCloseCur\<close> is NULL and nothing is called.\<close>

definition eMBClose :: "('w, 'a) mb_scheme \<Rightarrow> eMBErrorCode \<times> ('w, 'a) mb_scheme" where
  "eMBClose s = (if eMBState s = STATE_DISABLED then (MB_ENOERR, s) else (MB_EILLSTATE, s))"

definition eMBEnable :: "('w, 'a) mb_scheme \<Rightarrow> (eMBErrorCode \<times> ('w, 'a) mb_scheme) option" where
  "eMBEnable s =
     (if eMBState s = STATE_DISABLED
      then do {
        l \<leftarrow> pvMBFrameStartCur s;
        let s = frame_start l s;
        Some (MB_ENOERR, s\<lparr>eMBState := STATE_ENABLED\<rparr>)
      }
      else Some (MB_EILLSTATE, s))"

definition eMBDisable ::
  "'w tcp_port \<Rightarrow> ('w, 'a) mb_scheme \<Rightarrow> (eMBErrorCode \<times> ('w, 'a) mb_scheme) option" where
  "eMBDisable tp s =
     (if eMBState s = STATE_ENABLED
      then do {
        l \<leftarrow> pvMBFrameStopCur s;
        let s = frame_stop tp l s;
        Some (MB_ENOERR, s\<lparr>eMBState := STATE_DISABLED\<rparr>)
      }
      else if eMBState s = STATE_DISABLED then Some (MB_ENOERR, s)
      else Some (MB_EILLSTATE, s))"

section \<open>\<open>eMBPoll\<close>\<close>

text \<open>The memory from the frame pointer on, and its replacement.\<close>

definition frame_mem :: "frame_ptr \<Rightarrow> ('w, 'a) mb_scheme \<Rightarrow> UCHAR list" where
  "frame_mem p s = (case p of RTU_BUF i \<Rightarrow> drop i (ucRTUBuf s) | TCP_BUF i \<Rightarrow> drop i (tcp_frame s))"

definition set_frame_mem ::
  "frame_ptr \<Rightarrow> UCHAR list \<Rightarrow> ('w, 'a) mb_scheme \<Rightarrow> ('w, 'a) mb_scheme" where
  "set_frame_mem p f s = (case p of
     RTU_BUF i \<Rightarrow> s\<lparr>ucRTUBuf := take i (ucRTUBuf s) @ f\<rparr>
   | TCP_BUF i \<Rightarrow> s\<lparr>tcp_frame := take i (tcp_frame s) @ f\<rparr>)"

text \<open>The loop over the handlers: an entry with code 0 ends it.\<close>

fun find_handler :: "(UCHAR \<times> handler_id option) list \<Rightarrow> UCHAR \<Rightarrow> handler_id option option" where
  "find_handler [] fc = None"
| "find_handler ((c, h) # t) fc =
     (if c = 0 then None else if c = fc then Some h else find_handler t fc)"

definition poll_frame_received ::
  "('w, 'a) mb_scheme frame_receive_fn \<Rightarrow> ('w, 'a) mb_scheme \<Rightarrow> ('w, 'a) mb_scheme option" where
  "poll_frame_received receive s = do {
     (eStatus, out, s) \<leftarrow> receive s;
     let s = (case out of
                Some (a, p, n) \<Rightarrow> s\<lparr>ucRcvAddress := a, ucMBFrame := Some p, usLength := n\<rparr>
              | None \<Rightarrow> s);
     if eStatus = MB_ENOERR
     then if ucRcvAddress s = ucMBAddress s \<or> ucRcvAddress s = MB_ADDRESS_BROADCAST
          then Some (snd (xMBPortEventPost EV_EXECUTE s))
          else Some s
     else Some s
   }"

text \<open>The handler of the function code is called; no handler is an illegal function.\<close>

definition poll_dispatch ::
  "(nat \<Rightarrow> handler) \<Rightarrow> frame_ptr \<Rightarrow> ('w, 'a) mb_scheme \<Rightarrow>
   (eMBException \<times> ('w, 'a) mb_scheme) option" where
  "poll_dispatch usr p s =
     (case find_handler (xFuncHandlers s) (ucFunctionCode s) of
        None \<Rightarrow> Some (MB_EX_ILLEGAL_FUNCTION, s)
      | Some pxHandler \<Rightarrow> do {
          h \<leftarrow> pxHandler;
          (ex, f, n, r) \<leftarrow> run_handler usr h (frame_mem p s) (usLength s) (mb_regs s);
          Some (ex, (set_frame_mem p f s)\<lparr>usLength := n, mb_regs := r\<rparr>)
        })"

text \<open>The error frame of an exception.\<close>

definition poll_exception ::
  "frame_ptr \<Rightarrow> eMBException \<Rightarrow> ('w, 'a) mb_scheme \<Rightarrow> ('w, 'a) mb_scheme option" where
  "poll_exception p eException s = do {
     let s = s\<lparr>usLength := 0\<rparr>;
     f \<leftarrow> wr (frame_mem p s) (unat (usLength s)) (ucFunctionCode s OR MB_FUNC_ERROR);
     let s = (set_frame_mem p f s)\<lparr>usLength := usLength s + 1\<rparr>;
     f \<leftarrow> wr (frame_mem p s) (unat (usLength s)) (exception_code eException);
     Some ((set_frame_mem p f s)\<lparr>usLength := usLength s + 1\<rparr>)
   }"

definition poll_execute ::
  "(nat \<Rightarrow> handler) \<Rightarrow> ('w, 'a) mb_scheme frame_send_fn \<Rightarrow> ('w, 'a) mb_scheme \<Rightarrow>
   ('w, 'a) mb_scheme option" where
  "poll_execute usr send s = do {
     p \<leftarrow> ucMBFrame s;
     fc \<leftarrow> rd (frame_mem p s) MB_PDU_FUNC_OFF;
     let s = s\<lparr>ucFunctionCode := fc\<rparr>;
     (eException, s) \<leftarrow> poll_dispatch usr p s;
     if ucRcvAddress s \<noteq> MB_ADDRESS_BROADCAST
     then do {
       s \<leftarrow> (if eException \<noteq> MB_EX_NONE then poll_exception p eException s else Some s);
       (eStatus, s) \<leftarrow> send (ucMBAddress s) p (usLength s) s;
       Some s
     }
     else Some s
   }"

text \<open>The calls through \<open>peMBFrameReceiveCur\<close> and \<open>peMBFrameSendCur\<close>.\<close>

definition call_receive :: "'w tcp_port \<Rightarrow> ('w, 'a) mb_scheme frame_receive_fn" where
  "call_receive tp s = do { l \<leftarrow> peMBFrameReceiveCur s; frame_receive tp l s }"

definition call_send :: "'w tcp_port \<Rightarrow> ('w, 'a) mb_scheme frame_send_fn" where
  "call_send tp a p n s = do { l \<leftarrow> peMBFrameSendCur s; frame_send tp l a p n s }"

definition eMBPoll ::
  "'w tcp_port \<Rightarrow> (nat \<Rightarrow> handler) \<Rightarrow> ('w, 'a) mb_scheme \<Rightarrow>
   (eMBErrorCode \<times> ('w, 'a) mb_scheme) option" where
  "eMBPoll tp usr s =
     (if eMBState s \<noteq> STATE_ENABLED then Some (MB_EILLSTATE, s)
      else do {
        let (eEvent, s) = xMBPortEventGet s;
        s \<leftarrow> (case eEvent of
             Some EV_FRAME_RECEIVED \<Rightarrow> poll_frame_received (call_receive tp) s
           | Some EV_EXECUTE \<Rightarrow> poll_execute usr (call_send tp) s
           | _ \<Rightarrow> Some s);
        Some (MB_ENOERR, s)
      })"

section \<open>\<open>eMBPoll\<close> in steps\<close>

text \<open>
  \<open>eMBPoll\<close> runs with interrupts enabled: the point reached, and the piece of code from there
  to the next one. \<open>P_Main\<close> is outside \<open>eMBPoll\<close>. The two framing functions are single steps
  because they are critical sections; a handler is a single step as well.
\<close>

datatype poll_pc =
    P_Main | P_Get | P_Event | P_Clear eMBEventType | P_Receive | P_Address | P_Post
  | P_Post_event | P_Execute | P_Handler | P_Reply eMBException | P_Send

definition poll_step ::
  "('w, 'a) mb_scheme frame_receive_fn \<Rightarrow> ('w, 'a) mb_scheme frame_send_fn \<Rightarrow> (nat \<Rightarrow> handler) \<Rightarrow>
   poll_pc \<Rightarrow> ('w, 'a) mb_scheme \<Rightarrow> (poll_pc \<times> ('w, 'a) mb_scheme) option" where
  "poll_step receive send usr pc s = (case pc of
     P_Main \<Rightarrow> Some (if eMBState s \<noteq> STATE_ENABLED then P_Main else P_Get, s)
   | P_Get \<Rightarrow> Some (if xEventInQueue s then P_Event else P_Main, s)
   | P_Event \<Rightarrow> Some (P_Clear (eQueuedEvent s), s)
   | P_Clear eEvent \<Rightarrow> Some (case eEvent of
         EV_FRAME_RECEIVED \<Rightarrow> P_Receive | EV_EXECUTE \<Rightarrow> P_Execute | _ \<Rightarrow> P_Main,
       s\<lparr>xEventInQueue := False\<rparr>)
   | P_Receive \<Rightarrow> do {
       (eStatus, out, s) \<leftarrow> receive s;
       let s = (case out of
                  Some (a, p, n) \<Rightarrow> s\<lparr>ucRcvAddress := a, ucMBFrame := Some p, usLength := n\<rparr>
                | None \<Rightarrow> s);
       Some (if eStatus = MB_ENOERR then P_Address else P_Main, s)
     }
   | P_Address \<Rightarrow>
       Some (if ucRcvAddress s = ucMBAddress s \<or> ucRcvAddress s = MB_ADDRESS_BROADCAST
             then P_Post else P_Main, s)
   | P_Post \<Rightarrow> Some (P_Post_event, s\<lparr>xEventInQueue := True\<rparr>)
   | P_Post_event \<Rightarrow> Some (P_Main, s\<lparr>eQueuedEvent := EV_EXECUTE\<rparr>)
   | P_Execute \<Rightarrow> do {
       p \<leftarrow> ucMBFrame s;
       fc \<leftarrow> rd (frame_mem p s) MB_PDU_FUNC_OFF;
       Some (P_Handler, s\<lparr>ucFunctionCode := fc\<rparr>)
     }
   | P_Handler \<Rightarrow> do {
       p \<leftarrow> ucMBFrame s;
       (eException, s) \<leftarrow> poll_dispatch usr p s;
       Some (P_Reply eException, s)
     }
   | P_Reply eException \<Rightarrow>
       (if ucRcvAddress s \<noteq> MB_ADDRESS_BROADCAST
        then do {
          p \<leftarrow> ucMBFrame s;
          s \<leftarrow> (if eException \<noteq> MB_EX_NONE then poll_exception p eException s else Some s);
          Some (P_Send, s)
        }
        else Some (P_Main, s))
   | P_Send \<Rightarrow> do {
       p \<leftarrow> ucMBFrame s;
       (eStatus, s) \<leftarrow> send (ucMBAddress s) p (usLength s) s;
       Some (P_Main, s)
     })"

text \<open>The steps of one call with nothing in between, from the point after the first.\<close>

fun poll_run where
  "poll_run step 0 pc s = None"
| "poll_run step (Suc n) pc s =
     (if pc = P_Main then Some s
      else case step pc s of None \<Rightarrow> None | Some (pc', s') \<Rightarrow> poll_run step n pc' s')"

text \<open>
  The request the handler step is about to execute leaves the coils or discrete inputs.
\<close>

definition request_overruns ::
  "(UCHAR \<times> handler_id option) list \<Rightarrow> UCHAR \<Rightarrow> UCHAR list \<Rightarrow> USHORT \<Rightarrow> bool" where
  "request_overruns t fc f n =
     (case find_handler t fc of Some (Some h) \<Rightarrow> overruns h f n | _ \<Rightarrow> False)"

definition poll_overruns :: "poll_pc \<Rightarrow> ('w, 'a) mb_scheme \<Rightarrow> bool" where
  "poll_overruns pc s \<longleftrightarrow> pc = P_Handler \<and>
     request_overruns (xFuncHandlers s) (ucFunctionCode s) (drop 1 (ucRTUBuf s)) (usLength s)"

lemma poll_run_received:
  "poll_run (poll_step receive send usr) 5 P_Receive s = poll_frame_received receive s"
  by (auto simp: numeral_eq_Suc poll_frame_received_def poll_step_def port_simps Let_def
      split: bind_splits option.splits)

lemma poll_exception_frame:
  "poll_exception p e s = Some s' \<Longrightarrow> ucMBFrame s' = ucMBFrame s"
  by (auto simp: poll_exception_def set_frame_mem_def Let_def split: bind_splits frame_ptr.splits)

lemma poll_dispatch_frame:
  "poll_dispatch usr p s = Some (e, s') \<Longrightarrow> ucMBFrame s' = ucMBFrame s"
  by (auto simp: poll_dispatch_def set_frame_mem_def split: bind_splits option.splits frame_ptr.splits)

lemma poll_run_reply:
  "ucMBFrame s = Some p \<Longrightarrow> poll_run (poll_step receive send usr) 3 (P_Reply ex) s =
     (if ucRcvAddress s \<noteq> MB_ADDRESS_BROADCAST
      then do {
        s \<leftarrow> (if ex \<noteq> MB_EX_NONE then poll_exception p ex s else Some s);
        (eStatus, s) \<leftarrow> send (ucMBAddress s) p (usLength s) s;
        Some s
      }
      else Some s)"
  by (cases "poll_exception p ex s")
    (auto simp: numeral_eq_Suc poll_step_def Let_def dest!: poll_exception_frame split: bind_splits option.splits)

lemma poll_run_execute:
  "poll_run (poll_step receive send usr) 5 P_Execute s = poll_execute usr send s"
proof (cases "ucMBFrame s")
  case (Some p)
  show ?thesis
  proof (cases "rd (frame_mem p s) MB_PDU_FUNC_OFF")
    case c: (Some fc)
    let ?s = "s\<lparr>ucFunctionCode := fc\<rparr>"
    have run: "poll_run (poll_step receive send usr) 5 P_Execute s =
        (case poll_dispatch usr p ?s of None \<Rightarrow> None
         | Some (ex, s') \<Rightarrow> poll_run (poll_step receive send usr) 3 (P_Reply ex) s')"
      using Some c by (cases "poll_dispatch usr p ?s") (simp_all add: numeral_eq_Suc poll_step_def split: prod.splits)
    show ?thesis
    proof (cases "poll_dispatch usr p ?s")
      case None
      then show ?thesis unfolding run using Some c by (simp add: poll_execute_def)
    next
      case d: (Some d)
      obtain ex s' where "d = (ex, s')" by (cases d)
      with d have d': "poll_dispatch usr p ?s = Some (ex, s')" by simp
      moreover from poll_dispatch_frame [OF this] Some have "ucMBFrame s' = Some p" by simp
      ultimately show ?thesis unfolding run using Some c
        by (simp add: poll_execute_def poll_run_reply)
    qed
  qed (use Some in \<open>simp add: poll_execute_def poll_step_def numeral_eq_Suc\<close>)
qed (simp add: poll_execute_def poll_step_def numeral_eq_Suc)

text \<open>
  \<open>eMBPoll\<close> is the composition of its steps: uninterrupted, they end within eight, in the state
  of the call, or in the same undefined access.
\<close>

lemma eMBPoll_steps:
  "map_option snd (eMBPoll tp usr s) =
     (case poll_step (call_receive tp) (call_send tp) usr P_Main s of None \<Rightarrow> None
      | Some (pc, s') \<Rightarrow> poll_run (poll_step (call_receive tp) (call_send tp) usr) 8 pc s')"
proof (cases "eMBState s = STATE_ENABLED \<and> xEventInQueue s")
  case False
  then show ?thesis
    by (cases "eMBState s = STATE_ENABLED")
      (simp_all add: eMBPoll_def poll_step_def xMBPortEventGet_def numeral_eq_Suc)
next
  case True
  let ?step = "poll_step (call_receive tp) (call_send tp) usr" and ?s = "s\<lparr>xEventInQueue := False\<rparr>"
  have "?step P_Main s = Some (P_Get, s)" "?step P_Get s = Some (P_Event, s)"
    "?step P_Event s = Some (P_Clear (eQueuedEvent s), s)"
    using True by (simp_all add: poll_step_def)
  then have run: "(case ?step P_Main s of None \<Rightarrow> None | Some (pc, s') \<Rightarrow> poll_run ?step 8 pc s') =
      (case ?step (P_Clear (eQueuedEvent s)) s of None \<Rightarrow> None | Some (pc, s') \<Rightarrow> poll_run ?step 5 pc s')"
    by (simp add: numeral_eq_Suc split: option.split)
  have main: "poll_run ?step 5 P_Main t = Some t" for t by (simp add: numeral_eq_Suc)
  show ?thesis
    unfolding run using True
    by (cases "eQueuedEvent s")
      (simp_all add: eMBPoll_def xMBPortEventGet_def poll_step_def [of _ _ _ "P_Clear e" for e]
        poll_run_received poll_run_execute main map_conv_bind_option comp_def)
qed

section \<open>What the framing layers leave alone\<close>

text \<open>
  The fields of the stack: those only initialisation, control and registration change, and
  those \<open>eMBPoll\<close> works on.
\<close>

definition mb_static where
  "mb_static s =
     ((ucMBAddress s, eMBCurrentMode s, eMBState s, peMBFrameSendCur s, pvMBFrameStartCur s,
       pvMBFrameStopCur s), peMBFrameReceiveCur s, pxMBFrameCBByteReceived s,
      pxMBFrameCBTransmitterEmpty s, pxMBPortCBTimerExpired s, xFuncHandlers s)"

definition mb_work where
  "mb_work s = (ucMBFrame s, ucRcvAddress s, usLength s, mb_regs s)"

lemma mb_staticD:
  assumes "mb_static s' = mb_static s"
  shows "ucMBAddress s' = ucMBAddress s" "eMBCurrentMode s' = eMBCurrentMode s"
    "eMBState s' = eMBState s" "peMBFrameSendCur s' = peMBFrameSendCur s"
    "pvMBFrameStartCur s' = pvMBFrameStartCur s" "pvMBFrameStopCur s' = pvMBFrameStopCur s"
    "peMBFrameReceiveCur s' = peMBFrameReceiveCur s"
    "pxMBFrameCBByteReceived s' = pxMBFrameCBByteReceived s"
    "pxMBFrameCBTransmitterEmpty s' = pxMBFrameCBTransmitterEmpty s"
    "pxMBPortCBTimerExpired s' = pxMBPortCBTimerExpired s" "xFuncHandlers s' = xFuncHandlers s"
  using assms by (simp_all add: mb_static_def)

lemma mb_workD:
  assumes "mb_work s' = mb_work s"
  shows "ucMBFrame s' = ucMBFrame s" "ucRcvAddress s' = ucRcvAddress s"
    "usLength s' = usLength s" "mb_regs s' = mb_regs s"
  using assms by (simp_all add: mb_work_def)

named_theorems mb_frame \<open>what an operation of a lower layer leaves of the stack\<close>

lemma mb_rx_fsm [mb_frame]:
  "xMBRTUReceiveFSM s = Some (r, s') \<Longrightarrow> mb_static s' = mb_static s \<and> mb_work s' = mb_work s"
  by (auto simp: xMBRTUReceiveFSM_def port_simps mb_static_def mb_work_def wr_def
      split: eMBRcvState.splits bind_splits if_splits)

lemma mb_tx_fsm [mb_frame]:
  "xMBRTUTransmitFSM s = Some (r, s') \<Longrightarrow> mb_static s' = mb_static s \<and> mb_work s' = mb_work s"
  by (auto simp: xMBRTUTransmitFSM_def port_simps mb_static_def mb_work_def rd_def
      split: eMBSndState.splits bind_splits if_splits)

lemma mb_timer_fsm [mb_frame]:
  "xMBRTUTimerT35Expired s = Some (r, s') \<Longrightarrow> mb_static s' = mb_static s \<and> mb_work s' = mb_work s"
  by (auto simp: xMBRTUTimerT35Expired_def port_simps mb_static_def mb_work_def
      split: eMBRcvState.splits)

lemma mb_port_updates [simp]:
  "mb_static (s\<lparr>usart_rxne := x\<rparr>) = mb_static s" "mb_work (s\<lparr>usart_rxne := x\<rparr>) = mb_work s"
  "mb_static (s\<lparr>usart_ore := x\<rparr>) = mb_static s" "mb_work (s\<lparr>usart_ore := x\<rparr>) = mb_work s"
  "mb_static (s\<lparr>usart_tc := x\<rparr>) = mb_static s" "mb_work (s\<lparr>usart_tc := x\<rparr>) = mb_work s"
  "mb_static (s\<lparr>usart_rdr := b\<rparr>) = mb_static s" "mb_work (s\<lparr>usart_rdr := b\<rparr>) = mb_work s"
  "mb_static (s\<lparr>tim_uif := x\<rparr>) = mb_static s" "mb_work (s\<lparr>tim_uif := x\<rparr>) = mb_work s"
  "mb_static (s\<lparr>tim_cnt := n\<rparr>) = mb_static s" "mb_work (s\<lparr>tim_cnt := n\<rparr>) = mb_work s"
  "mb_static (s\<lparr>primask := x\<rparr>) = mb_static s" "mb_work (s\<lparr>primask := x\<rparr>) = mb_work s"
  "mb_static (s\<lparr>xEventInQueue := x\<rparr>) = mb_static s" "mb_work (s\<lparr>xEventInQueue := x\<rparr>) = mb_work s"
  "mb_static (s\<lparr>eQueuedEvent := e\<rparr>) = mb_static s" "mb_work (s\<lparr>eQueuedEvent := e\<rparr>) = mb_work s"
  "mb_static (s\<lparr>ucRTUBuf := bs\<rparr>) = mb_static s" "mb_work (s\<lparr>ucRTUBuf := bs\<rparr>) = mb_work s"
  by (simp_all add: mb_static_def mb_work_def)

lemma mb_hw_steps [simp]:
  "mb_static (hw_byte b s) = mb_static s" "mb_work (hw_byte b s) = mb_work s"
  "mb_static (hw_tx_done s) = mb_static s" "mb_work (hw_tx_done s) = mb_work s"
  "mb_static (hw_timeout s) = mb_static s" "mb_work (hw_timeout s) = mb_work s"
  by (simp_all add: hw_byte_def hw_tx_done_def hw_timeout_def)

text \<open>With the pointers set to the RTU layer the interrupts are those of that layer.\<close>

definition rtu_callbacks where
  "rtu_callbacks s \<longleftrightarrow> pxMBFrameCBByteReceived s = Some L_RTU \<and>
     pxMBFrameCBTransmitterEmpty s = Some L_RTU \<and> pxMBPortCBTimerExpired s = Some L_RTU"

lemma rtu_callbacks_static: "mb_static s' = mb_static s \<Longrightarrow> rtu_callbacks s' = rtu_callbacks s"
  by (simp add: rtu_callbacks_def mb_static_def)

text \<open>The three stages of the USART2 interrupt.\<close>

definition usart_rx_stage where
  "usart_rx_stage f s = (if usart_rxne s \<and> usart_rxneie s
     then do { s \<leftarrow> prvvMBSerialRXIRQHandler f s; Some (s\<lparr>usart_rxne := False\<rparr>) } else Some s)"

definition usart_ore_stage where
  "usart_ore_stage f s = (if usart_ore s \<and> usart_eie s
     then do { s \<leftarrow> prvvMBSerialRXIRQHandler f s; Some (s\<lparr>usart_ore := False\<rparr>) } else Some s)"

definition usart_tx_stage where
  "usart_tx_stage g s = (if usart_tc s \<and> usart_tcie s
     then do { s \<leftarrow> prvvMBSerialTXIRQHandler g s; Some (s\<lparr>usart_tc := False\<rparr>) } else Some s)"

lemma USART2_stages:
  "USART2_IRQHandler f g s =
     usart_rx_stage f s \<bind> (\<lambda>x. usart_ore_stage f x \<bind> usart_tx_stage g)"
  unfolding USART2_IRQHandler_def usart_rx_stage_def usart_ore_stage_def usart_tx_stage_def ..

lemma USART2_IRQHandler_cong:
  assumes s: "P s" and eq: "\<And>x. P x \<Longrightarrow> f x = f' x" "\<And>x. P x \<Longrightarrow> g x = g' x"
    and keep: "\<And>x y. P x \<Longrightarrow> usart_rx_stage f' x = Some y \<Longrightarrow> P y"
    "\<And>x y. P x \<Longrightarrow> usart_ore_stage f' x = Some y \<Longrightarrow> P y"
  shows "USART2_IRQHandler f g s = USART2_IRQHandler f' g' s"
proof -
  have A: "usart_rx_stage f s = usart_rx_stage f' s"
    using eq(1) [OF s] by (simp add: usart_rx_stage_def prvvMBSerialRXIRQHandler_def)
  have B: "usart_ore_stage f x = usart_ore_stage f' x" if "P x" for x
    using eq(1) [OF that] by (simp add: usart_ore_stage_def prvvMBSerialRXIRQHandler_def)
  have C: "usart_tx_stage g x = usart_tx_stage g' x" if "P x" for x
    using eq(2) [OF that] by (simp add: usart_tx_stage_def prvvMBSerialTXIRQHandler_def)
  show ?thesis
  proof (cases "usart_rx_stage f' s")
    case None
    with A show ?thesis by (simp add: USART2_stages)
  next
    case x: (Some x)
    then have Px: "P x" by (rule keep(1) [OF s])
    show ?thesis
    proof (cases "usart_ore_stage f' x")
      case None
      with A x B [OF Px] show ?thesis by (simp add: USART2_stages)
    next
      case y: (Some y)
      then have "P y" by (rule keep(2) [OF Px])
      with A x B [OF Px] y C show ?thesis by (simp add: USART2_stages)
    qed
  qed
qed

lemma mb_rx_stage_frame:
  "usart_rx_stage xMBRTUReceiveFSM s = Some s' \<Longrightarrow> mb_static s' = mb_static s \<and> mb_work s' = mb_work s"
  by (auto simp: usart_rx_stage_def prvvMBSerialRXIRQHandler_def
      split: if_splits bind_splits dest!: mb_rx_fsm)

lemma mb_ore_stage_frame:
  "usart_ore_stage xMBRTUReceiveFSM s = Some s' \<Longrightarrow> mb_static s' = mb_static s \<and> mb_work s' = mb_work s"
  by (auto simp: usart_ore_stage_def prvvMBSerialRXIRQHandler_def
      split: if_splits bind_splits dest!: mb_rx_fsm)

lemma mb_tx_stage_frame:
  "usart_tx_stage xMBRTUTransmitFSM s = Some s' \<Longrightarrow> mb_static s' = mb_static s \<and> mb_work s' = mb_work s"
  by (auto simp: usart_tx_stage_def prvvMBSerialTXIRQHandler_def
      split: if_splits bind_splits dest!: mb_tx_fsm)

lemma mb_irq_rtu:
  assumes "rtu_callbacks s"
  shows "mb_usart_irq s = rtu_usart_irq s" "mb_timer_irq s = rtu_timer_irq s"
proof -
  have cb: "byte_received x = xMBRTUReceiveFSM x" "transmitter_empty x = xMBRTUTransmitFSM x"
    "timer_expired x = xMBRTUTimerT35Expired x" if "rtu_callbacks x" for x :: "('a, 'b) mb_scheme"
    using that by (simp_all add: byte_received_def transmitter_empty_def timer_expired_def
        rtu_callbacks_def)
  show "mb_usart_irq s = rtu_usart_irq s"
    unfolding mb_usart_irq_def rtu_usart_irq_def
    using mb_rx_stage_frame mb_ore_stage_frame rtu_callbacks_static
    by (intro USART2_IRQHandler_cong [where P = rtu_callbacks]) (use assms cb in blast)+
  show "mb_timer_irq s = rtu_timer_irq s"
    using assms by (simp add: mb_timer_irq_def rtu_timer_irq_def TIM2_IRQHandler_def
        prvvMBTimerIRQHandler_def cb)
qed

lemma mb_rtu_irq_frame [mb_frame]:
  "rtu_usart_irq s = Some s' \<Longrightarrow> mb_static s' = mb_static s \<and> mb_work s' = mb_work s"
  by (auto simp: rtu_usart_irq_def USART2_stages split: bind_splits
      dest!: mb_rx_stage_frame mb_ore_stage_frame mb_tx_stage_frame)

lemma mb_rtu_timer_frame [mb_frame]:
  "rtu_timer_irq s = Some s' \<Longrightarrow> mb_static s' = mb_static s \<and> mb_work s' = mb_work s"
  by (auto simp: rtu_timer_irq_def TIM2_IRQHandler_def prvvMBTimerIRQHandler_def
      split: bind_splits if_splits dest!: mb_timer_fsm)

section \<open>What \<open>eMBPoll\<close> relies on\<close>

text \<open>The table of handlers: 16 entries, and an entry in use has a handler.\<close>

definition table_ok :: "(UCHAR \<times> handler_id option) list \<Rightarrow> bool" where
  "table_ok t \<longleftrightarrow> length t = 16 \<and> (\<forall>(c, h) \<in> set t. c \<noteq> 0 \<longrightarrow> h \<noteq> None)"

text \<open>
  The frame of the last accepted request, of at most \<open>N\<close> bytes (253 for RTU, 254 for ASCII),
  and the rest of what \<open>eMBPoll\<close> relies on.
\<close>

definition frame_known where
  "frame_known N s \<longleftrightarrow> ucMBFrame s = Some (RTU_BUF 1) \<and> 1 \<le> unat (usLength s) \<and> unat (usLength s) \<le> N"

definition poll_ok where
  "poll_ok N s \<longleftrightarrow> regs_wf (mb_regs s) \<and> table_ok (xFuncHandlers s) \<and>
     (ucMBFrame s = None \<or> frame_known N s) \<and>
     (xEventInQueue s \<and> eQueuedEvent s = EV_EXECUTE \<longrightarrow> frame_known N s)"

definition same_queue where
  "same_queue s s' \<longleftrightarrow> xEventInQueue s' = xEventInQueue s \<and> eQueuedEvent s' = eQueuedEvent s"

section \<open>Executing a request\<close>

lemma find_handler_used:
  "(\<forall>(c, h) \<in> set t. c \<noteq> 0 \<longrightarrow> h \<noteq> None) \<Longrightarrow> find_handler t fc = Some h \<Longrightarrow> \<exists>k. h = Some k"
  by (induction t) (auto split: if_splits)

lemma find_handler_ok: "table_ok t \<Longrightarrow> find_handler t fc = Some h \<Longrightarrow> \<exists>k. h = Some k"
  unfolding table_ok_def by (elim conjE) (rule find_handler_used)

text \<open>
  The specification of a request: the response PDU and the registers after it, from the table,
  the memory behind the address byte, the length of the PDU and the registers.
\<close>

definition mb_answer ::
  "(nat \<Rightarrow> handler) \<Rightarrow> (UCHAR \<times> handler_id option) list \<Rightarrow> UCHAR list \<Rightarrow> USHORT \<Rightarrow> mbregs \<Rightarrow>
   UCHAR list \<times> mbregs" where
  "mb_answer usr t f n r =
     (case find_handler t (f ! 0) of
        Some (Some h) \<Rightarrow>
          (case run_handler usr h f n r of
             Some (ex, f', n', r') \<Rightarrow>
               (if ex = MB_EX_NONE then take (unat n') f'
                else [f ! 0 OR MB_FUNC_ERROR, exception_code ex], r')
           | None \<Rightarrow> ([], r))
      | _ \<Rightarrow> ([f ! 0 OR MB_FUNC_ERROR, exception_code MB_EX_ILLEGAL_FUNCTION], r))"

text \<open>The state in which the reply is sent: the frame holds the response.\<close>

definition replied where
  "replied s c f n r =
     s\<lparr>ucFunctionCode := c\<rparr>\<lparr>ucRTUBuf := take 1 (ucRTUBuf s) @ f\<rparr>\<lparr>usLength := n, mb_regs := r\<rparr>"

lemma replied_simps [simp]:
  "ucRTUBuf (replied s c f n r) = take 1 (ucRTUBuf s) @ f" "usLength (replied s c f n r) = n"
  "mb_regs (replied s c f n r) = r" "ucMBFrame (replied s c f n r) = ucMBFrame s"
  "ucRcvAddress (replied s c f n r) = ucRcvAddress s" "mb_static (replied s c f n r) = mb_static s"
  "ucMBAddress (replied s c f n r) = ucMBAddress s" "eRcvState (replied s c f n r) = eRcvState s"
  "usart_tx (replied s c f n r) = usart_tx s" "usart_eie (replied s c f n r) = usart_eie s"
  "usart_rxne (replied s c f n r) = usart_rxne s"
  "xEventInQueue (replied s c f n r) = xEventInQueue s"
  "eQueuedEvent (replied s c f n r) = eQueuedEvent s"
  "xFuncHandlers (replied s c f n r) = xFuncHandlers s"
  "eMBState (replied s c f n r) = eMBState s" "ucFunctionCode (replied s c f n r) = c"
  by (simp_all add: replied_def mb_static_def)

lemma frame_mem_1: "frame_mem (RTU_BUF 1) s = drop 1 (ucRTUBuf s)"
  by (simp add: frame_mem_def)

lemma set_frame_mem_1: "set_frame_mem (RTU_BUF 1) f s = s\<lparr>ucRTUBuf := take 1 (ucRTUBuf s) @ f\<rparr>"
  by (simp add: set_frame_mem_def)

lemmas frame_mem_simps =
  frame_mem_1 frame_mem_1 [unfolded One_nat_def]
  set_frame_mem_1 set_frame_mem_1 [unfolded One_nat_def]

lemma write_exception:
  fixes f :: "UCHAR list"
  assumes "length f = 255"
  shows "\<exists>f'. f[0 := a, Suc 0 := b] = f' \<and> length f' = 255 \<and> take 2 f' = [a, b]"
proof -
  obtain x y zs where "f = x # y # zs"
    using assms by (cases f; cases "tl f") auto
  with assms show ?thesis by simp
qed

lemma poll_dispatch_run:
  assumes "poll_ok N s" "frame_known N s" "length (ucRTUBuf s) = 256" "\<And>k. handler_ok (usr k)"
    "253 \<le> N" "N \<le> 254"
  defines "f0 \<equiv> drop 1 (ucRTUBuf s)"
  shows "if request_overruns (xFuncHandlers s) (ucFunctionCode s) f0 (usLength s)
    then poll_dispatch usr (RTU_BUF 1) s = None
    else \<exists>ex f n r. poll_dispatch usr (RTU_BUF 1) s =
        Some (ex, s\<lparr>ucRTUBuf := take 1 (ucRTUBuf s) @ f\<rparr>\<lparr>usLength := n, mb_regs := r\<rparr>) \<and>
      length f = 255 \<and> 1 \<le> unat n \<and> unat n \<le> N \<and> regs_wf r \<and>
      (f0 ! 0 = ucFunctionCode s \<longrightarrow> mb_answer usr (xFuncHandlers s) f0 (usLength s) (mb_regs s) =
        (if ex = MB_EX_NONE then take (unat n) f
         else [ucFunctionCode s OR 128, exception_code ex], r))"
proof -
  have l: "1 \<le> unat (usLength s)" "unat (usLength s) \<le> 254" "unat (usLength s) \<le> N"
    using assms(2,6) by (simp_all add: frame_known_def)
  have wf: "regs_wf (mb_regs s)" and tab: "table_ok (xFuncHandlers s)"
    using assms(1) by (simp_all add: poll_ok_def)
  have lf: "length f0 = 255" using assms(3) by (simp add: f0_def)
  have same: "s\<lparr>ucRTUBuf := take 1 (ucRTUBuf s) @ f0\<rparr>\<lparr>usLength := usLength s, mb_regs := mb_regs s\<rparr> = s"
    by (simp add: f0_def)
  show ?thesis
  proof (cases "find_handler (xFuncHandlers s) (ucFunctionCode s)")
    case None
    then have "poll_dispatch usr (RTU_BUF 1) s = Some (MB_EX_ILLEGAL_FUNCTION,
        s\<lparr>ucRTUBuf := take 1 (ucRTUBuf s) @ f0\<rparr>\<lparr>usLength := usLength s, mb_regs := mb_regs s\<rparr>)"
      unfolding same by (simp add: poll_dispatch_def)
    moreover have "f0 ! 0 = ucFunctionCode s \<longrightarrow>
        mb_answer usr (xFuncHandlers s) f0 (usLength s) (mb_regs s) =
        ([ucFunctionCode s OR 128, exception_code MB_EX_ILLEGAL_FUNCTION], mb_regs s)"
      using None by (simp add: mb_answer_def)
    moreover have no: "\<not> request_overruns (xFuncHandlers s) (ucFunctionCode s) f0 (usLength s)"
      using None by (simp add: request_overruns_def)
    ultimately show ?thesis
      using lf l(1,3) wf unfolding if_not_P [OF no]
      by (intro exI [of _ MB_EX_ILLEGAL_FUNCTION] exI [of _ f0] exI [of _ "usLength s"]
          exI [of _ "mb_regs s"] conjI) simp_all
  next
    case (Some h)
    then obtain k where k: "h = Some k" using find_handler_ok [OF tab] by blast
    have ov: "request_overruns (xFuncHandlers s) (ucFunctionCode s) f0 (usLength s) =
        overruns k f0 (usLength s)"
      using Some k by (simp add: request_overruns_def)
    have spec: "handler_spec (overruns k) (run_handler usr k)"
      using assms(4) by (intro run_handler_spec)
    show ?thesis
    proof (cases "overruns k f0 (usLength s)")
      case True
      with handler_specD(1) [OF spec lf wf l(1,2)] Some k ov show ?thesis
        by (simp add: poll_dispatch_def frame_mem_simps f0_def)
    next
      case False
      from handler_specD(2) [OF spec lf wf l(1,2) this]
      obtain ex f n r where o: "run_handler usr k f0 (usLength s) (mb_regs s) = Some (ex, f, n, r)"
          "length f = 255" "regs_wf r" "1 \<le> unat n" "unat n \<le> max 253 (unat (usLength s))" by blast
      moreover from this(5) l(3) assms(5) have "unat n \<le> N" by linarith
      moreover have "poll_dispatch usr (RTU_BUF 1) s =
          Some (ex, s\<lparr>ucRTUBuf := take 1 (ucRTUBuf s) @ f\<rparr>\<lparr>usLength := n, mb_regs := r\<rparr>)"
        using o(1) Some k by (simp add: poll_dispatch_def frame_mem_simps f0_def)
      moreover have "f0 ! 0 = ucFunctionCode s \<longrightarrow>
          mb_answer usr (xFuncHandlers s) f0 (usLength s) (mb_regs s) =
          (if ex = MB_EX_NONE then take (unat n) f else [ucFunctionCode s OR 128, exception_code ex], r)"
        using o(1) Some k by (simp add: mb_answer_def)
      ultimately show ?thesis using False unfolding ov by auto
    qed
  qed
qed

lemma poll_execute_run:
  assumes "poll_ok N s" "frame_known N s" "length (ucRTUBuf s) = 256" "\<And>k. handler_ok (usr k)"
    "253 \<le> N" "N \<le> 254"
    "\<not> request_overruns (xFuncHandlers s) (ucRTUBuf s ! 1) (drop 1 (ucRTUBuf s)) (usLength s)"
  defines "ans \<equiv> mb_answer usr (xFuncHandlers s) (drop 1 (ucRTUBuf s)) (usLength s) (mb_regs s)"
  shows "\<exists>f n. length f = 255 \<and> 1 \<le> unat n \<and> unat n \<le> N \<and> regs_wf (snd ans) \<and>
    (ucRcvAddress s \<noteq> 0 \<longrightarrow> take (unat n) f = fst ans) \<and>
    poll_execute usr send s =
      (let s' = replied s (ucRTUBuf s ! 1) f n (snd ans) in
       if ucRcvAddress s \<noteq> 0 then map_option snd (send (ucMBAddress s) (RTU_BUF 1) n s') else Some s')"
proof -
  let ?f = "drop 1 (ucRTUBuf s)" and ?c = "ucRTUBuf s ! 1"
  have p: "ucMBFrame s = Some (RTU_BUF 1)" and l: "1 \<le> unat (usLength s)" "unat (usLength s) \<le> 254" "unat (usLength s) \<le> N"
    using assms(2,6) by (simp_all add: frame_known_def)
  have wf: "regs_wf (mb_regs s)" and tab: "table_ok (xFuncHandlers s)"
    using assms(1) by (simp_all add: poll_ok_def)
  have lf: "length ?f = 255" using assms(3) by simp
  have rd: "rd ?f 0 = Some ?c" using assms(3) by (simp add: mem_simps)
  have f0: "?f ! 0 = ?c" using assms(3) by simp
  obtain ex f n r where h: "length f = 255" "1 \<le> unat n" "unat n \<le> N" "regs_wf r"
      "poll_dispatch usr (RTU_BUF 1) (s\<lparr>ucFunctionCode := ?c\<rparr>) = Some (ex, replied s ?c f n r)"
      "ans = (if ex = MB_EX_NONE then take (unat n) f else [?c OR 128, exception_code ex], r)"
  proof -
    let ?s = "s\<lparr>ucFunctionCode := ?c\<rparr>"
    have "poll_ok N ?s" "frame_known N ?s" "length (ucRTUBuf ?s) = 256"
      using assms(1-3) by (simp_all add: poll_ok_def frame_known_def)
    note run = poll_dispatch_run [where usr = usr, OF this assms(4-6)]
    have no: "\<not> request_overruns (xFuncHandlers ?s) (ucFunctionCode ?s) (drop 1 (ucRTUBuf ?s)) (usLength ?s)"
      using assms(7) by simp
    obtain ex f n r where "poll_dispatch usr (RTU_BUF 1) ?s =
        Some (ex, ?s\<lparr>ucRTUBuf := take 1 (ucRTUBuf ?s) @ f\<rparr>\<lparr>usLength := n, mb_regs := r\<rparr>)"
      "length f = 255" "1 \<le> unat n" "unat n \<le> N" "regs_wf r"
      "drop 1 (ucRTUBuf ?s) ! 0 = ucFunctionCode ?s \<longrightarrow>
        mb_answer usr (xFuncHandlers ?s) (drop 1 (ucRTUBuf ?s)) (usLength ?s) (mb_regs ?s) =
        (if ex = MB_EX_NONE then take (unat n) f
         else [ucFunctionCode ?s OR 128, exception_code ex], r)"
      using run [unfolded if_not_P [OF no]] by blast
    moreover from this(6) f0
    have "ans = (if ex = MB_EX_NONE then take (unat n) f else [?c OR 128, exception_code ex], r)"
      by (simp add: ans_def)
    moreover have "?s\<lparr>ucRTUBuf := take 1 (ucRTUBuf ?s) @ f\<rparr>\<lparr>usLength := n, mb_regs := r\<rparr> = replied s ?c f n r"
      by (simp add: replied_def)
    ultimately show ?thesis by (intro that [of f n r ex]) simp_all
  qed
  show ?thesis
  proof (cases "ucRcvAddress s \<noteq> 0 \<and> ex \<noteq> MB_EX_NONE")
    case False
    then show ?thesis using h p rd
      by (intro exI [of _ f] exI [of _ n])
        (auto simp: poll_execute_def frame_mem_simps Let_def split: bind_splits prod.splits option.splits)
  next
    case True
    let ?f' = "f[0 := ?c OR 128, Suc 0 := exception_code ex]"
    obtain f' where f': "?f' = f'" "length f' = 255" "take 2 f' = [?c OR 128, exception_code ex]"
      using write_exception [OF h(1)] by blast
    obtain x zs where b: "ucRTUBuf s = x # zs" using assms(3) by (cases "ucRTUBuf s") simp_all
    have "f \<noteq> []" using h(1) by auto
    then have "poll_exception (RTU_BUF 1) ex (replied s ?c f n r) = Some (replied s ?c f' 2 r)"
      using f' h(1) b
      by (simp add: poll_exception_def frame_mem_simps Let_def mem_simps replied_def)
    with True f' h p rd assms(5) show ?thesis
      by (intro exI [of _ f'] exI [of _ 2])
        (auto simp: poll_execute_def frame_mem_simps Let_def split: bind_splits prod.splits option.splits)
  qed
qed

text \<open>
  At each point of \<open>eMBPoll\<close>: the stack is enabled, and from the event \<open>EV_EXECUTE\<close> and from
  the received frame on the frame is known.
\<close>

definition poll_at :: "nat \<Rightarrow> poll_pc \<Rightarrow> ('w, 'a) mb_scheme \<Rightarrow> bool" where
  "poll_at N pc s \<longleftrightarrow> (pc \<noteq> P_Main \<longrightarrow> eMBState s = STATE_ENABLED) \<and>
     (case pc of
        P_Event \<Rightarrow> eQueuedEvent s = EV_EXECUTE \<longrightarrow> frame_known N s
      | P_Clear eEvent \<Rightarrow> eEvent = EV_EXECUTE \<longrightarrow> frame_known N s
      | P_Main \<Rightarrow> True | P_Get \<Rightarrow> True | P_Receive \<Rightarrow> True | _ \<Rightarrow> frame_known N s)"

lemma poll_at_main [simp]: "poll_at N P_Main s"
  by (simp add: poll_at_def)

lemma poll_exception_run:
  assumes "length (ucRTUBuf s) = 256"
  shows "\<exists>f. length f = 255 \<and> poll_exception (RTU_BUF 1) ex s =
    Some (s\<lparr>ucRTUBuf := take 1 (ucRTUBuf s) @ f\<rparr>\<lparr>usLength := 2\<rparr>)"
proof -
  obtain x y z zs where "ucRTUBuf s = x # y # z # zs" "length zs = 253"
    using assms by (cases "ucRTUBuf s"; cases "tl (ucRTUBuf s)"; cases "tl (tl (ucRTUBuf s))") auto
  then show ?thesis
    by (intro exI [of _ "(ucFunctionCode s OR 128) # exception_code ex # zs"])
      (simp add: poll_exception_def frame_mem_simps Let_def mem_simps)
qed

section \<open>The contract of a framing layer\<close>

text \<open>
  What \<open>eMBPoll\<close> needs of the two functions of a layer: an invariant of the layer that the
  stack's own writes keep, a receive that either fails without a frame or hands out 1 to \<open>maxlen\<close>
  bytes at offset 1 of the buffer, and a send that is defined for such a frame; both leave
  the state of the stack and the event queue alone.
\<close>

locale frame_iface =
  fixes maxlen :: nat
    and inv :: "('w, 'a) mb_scheme \<Rightarrow> bool"
    and receive :: "('w, 'a) mb_scheme frame_receive_fn"
    and send :: "('w, 'a) mb_scheme frame_send_fn"
  assumes maxlen: "253 \<le> maxlen" "maxlen \<le> 254"
    and inv_buf: "inv s \<Longrightarrow> length (ucRTUBuf s) = 256"
    and inv_write: "inv s \<Longrightarrow> length f = 255 \<Longrightarrow> inv (s\<lparr>ucRTUBuf := take 1 (ucRTUBuf s) @ f\<rparr>)"
    and inv_queue: "inv s \<Longrightarrow> inv (s\<lparr>xEventInQueue := b\<rparr>)" "inv s \<Longrightarrow> inv (s\<lparr>eQueuedEvent := e\<rparr>)"
    and inv_work: "inv s \<Longrightarrow> inv (s\<lparr>ucRcvAddress := a, ucMBFrame := p, usLength := n\<rparr>)"
      "inv s \<Longrightarrow> inv (s\<lparr>ucFunctionCode := c\<rparr>)" "inv s \<Longrightarrow> inv (s\<lparr>usLength := n\<rparr>)"
      "inv s \<Longrightarrow> inv (s\<lparr>usLength := n, mb_regs := r\<rparr>)"
    and receive_ok: "inv s \<Longrightarrow> \<exists>e out s'. receive s = Some (e, out, s') \<and> inv s' \<and>
      mb_static s' = mb_static s \<and> mb_work s' = mb_work s \<and> same_queue s s' \<and>
      (e = MB_ENOERR \<and> (\<exists>a n. out = Some (a, RTU_BUF 1, n) \<and> 1 \<le> unat n \<and> unat n \<le> maxlen) \<or>
       e \<noteq> MB_ENOERR \<and> out = None)"
    and send_ok: "inv s \<Longrightarrow> unat n \<le> maxlen \<Longrightarrow> \<exists>e s'. send a (RTU_BUF 1) n s = Some (e, s') \<and> inv s' \<and>
      mb_static s' = mb_static s \<and> mb_work s' = mb_work s \<and> same_queue s s'"
begin

text \<open>
  Each step of \<open>eMBPoll\<close> keeps what \<open>eMBPoll\<close> relies on; the only step that can be undefined
  is the handler's, on a request that leaves the coils or discrete inputs.
\<close>

lemma poll_receive_ok:
  assumes "inv s" "poll_ok maxlen s" "eMBState s = STATE_ENABLED"
  shows "\<exists>pc' s'. poll_step receive send usr P_Receive s = Some (pc', s') \<and> inv s' \<and>
    poll_ok maxlen s' \<and> poll_at maxlen pc' s' \<and> mb_static s' = mb_static s"
proof -
  obtain e out s1 where r: "receive s = Some (e, out, s1)" "inv s1" "mb_static s1 = mb_static s"
      "mb_work s1 = mb_work s" "same_queue s s1"
      "e = MB_ENOERR \<and> (\<exists>a n. out = Some (a, RTU_BUF 1, n) \<and> 1 \<le> unat n \<and> unat n \<le> maxlen) \<or>
       e \<noteq> MB_ENOERR \<and> out = None"
    using receive_ok [OF assms(1)] by blast
  have p1: "poll_ok maxlen s1" "eMBState s1 = STATE_ENABLED"
    using r(3-5) assms(2,3)
    by (auto simp: poll_ok_def frame_known_def same_queue_def mb_static_def mb_work_def)
  from r(6) show ?thesis
  proof (elim disjE conjE exE)
    fix a n
    assume e: "e = MB_ENOERR" "out = Some (a, RTU_BUF 1, n)" "1 \<le> unat n" "unat n \<le> maxlen"
    let ?s2 = "s1\<lparr>ucRcvAddress := a, ucMBFrame := Some (RTU_BUF 1), usLength := n\<rparr>"
    have "inv ?s2" using inv_work(1) [OF r(2)] by blast
    moreover have "poll_ok maxlen ?s2" "poll_at maxlen P_Address ?s2"
      using p1 e by (auto simp: poll_ok_def poll_at_def frame_known_def)
    moreover have "mb_static ?s2 = mb_static s" using r(3) by (simp add: mb_static_def)
    ultimately show ?thesis using r(1) e by (simp add: poll_step_def)
  next
    assume "e \<noteq> MB_ENOERR" "out = None"
    with r p1 show ?thesis by (simp add: poll_step_def)
  qed
qed

lemma poll_handler_ok:
  assumes "inv s" "poll_ok maxlen s" "poll_at maxlen P_Handler s" "\<And>k. handler_ok (usr k)"
  shows "if poll_overruns P_Handler s then poll_step receive send usr P_Handler s = None
    else \<exists>pc' s'. poll_step receive send usr P_Handler s = Some (pc', s') \<and> inv s' \<and>
      poll_ok maxlen s' \<and> poll_at maxlen pc' s' \<and> mb_static s' = mb_static s"
proof -
  have fk: "frame_known maxlen s" "eMBState s = STATE_ENABLED"
    using assms(3) by (simp_all add: poll_at_def)
  then have p: "ucMBFrame s = Some (RTU_BUF 1)" by (simp add: frame_known_def)
  note run = poll_dispatch_run [where usr = usr, OF assms(2) fk(1) inv_buf [OF assms(1)] assms(4) maxlen]
  show ?thesis
  proof (cases "poll_overruns P_Handler s")
    case True
    with run p show ?thesis by (simp add: poll_overruns_def poll_step_def)
  next
    case False
    with run obtain ex f n r where d: "poll_dispatch usr (RTU_BUF 1) s =
        Some (ex, s\<lparr>ucRTUBuf := take 1 (ucRTUBuf s) @ f\<rparr>\<lparr>usLength := n, mb_regs := r\<rparr>)"
      "length f = 255" "1 \<le> unat n" "unat n \<le> maxlen" "regs_wf r"
      by (auto simp: poll_overruns_def)
    let ?s = "s\<lparr>ucRTUBuf := take 1 (ucRTUBuf s) @ f\<rparr>\<lparr>usLength := n, mb_regs := r\<rparr>"
    have "inv ?s" using inv_work(4) [OF inv_write [OF assms(1) d(2)]] .
    moreover have "poll_ok maxlen ?s" "poll_at maxlen (P_Reply ex) ?s" "mb_static ?s = mb_static s"
      using assms(2) fk d(3-5) p
      by (auto simp: poll_ok_def poll_at_def frame_known_def mb_static_def)
    ultimately show ?thesis using False d(1) p by (simp add: poll_step_def)
  qed
qed

lemma poll_reply_ok:
  assumes "inv s" "poll_ok maxlen s" "poll_at maxlen (P_Reply ex) s"
  shows "\<exists>pc' s'. poll_step receive send usr (P_Reply ex) s = Some (pc', s') \<and> inv s' \<and>
    poll_ok maxlen s' \<and> poll_at maxlen pc' s' \<and> mb_static s' = mb_static s"
proof -
  have fk: "frame_known maxlen s" "eMBState s = STATE_ENABLED"
    using assms(3) by (simp_all add: poll_at_def)
  then have p: "ucMBFrame s = Some (RTU_BUF 1)" by (simp add: frame_known_def)
  show ?thesis
  proof (cases "ucRcvAddress s \<noteq> MB_ADDRESS_BROADCAST \<and> ex \<noteq> MB_EX_NONE")
    case False
    with assms fk p show ?thesis by (auto simp: poll_step_def poll_at_def)
  next
    case True
    obtain f where f: "length f = 255" "poll_exception (RTU_BUF 1) ex s =
        Some (s\<lparr>ucRTUBuf := take 1 (ucRTUBuf s) @ f\<rparr>\<lparr>usLength := 2\<rparr>)"
      using poll_exception_run [OF inv_buf [OF assms(1)]] by blast
    let ?s = "s\<lparr>ucRTUBuf := take 1 (ucRTUBuf s) @ f\<rparr>\<lparr>usLength := 2\<rparr>"
    have "inv ?s" using inv_work(3) [OF inv_write [OF assms(1) f(1)]] .
    moreover have "poll_ok maxlen ?s" "poll_at maxlen P_Send ?s" "mb_static ?s = mb_static s"
      using assms(2) fk maxlen(1) p
      by (auto simp: poll_ok_def poll_at_def frame_known_def mb_static_def)
    ultimately show ?thesis using True f(2) p by (simp add: poll_step_def)
  qed
qed

lemma poll_send_ok:
  assumes "inv s" "poll_ok maxlen s" "poll_at maxlen P_Send s"
  shows "\<exists>pc' s'. poll_step receive send usr P_Send s = Some (pc', s') \<and> inv s' \<and>
    poll_ok maxlen s' \<and> poll_at maxlen pc' s' \<and> mb_static s' = mb_static s"
proof -
  have fk: "frame_known maxlen s" using assms(3) by (simp add: poll_at_def)
  then have p: "ucMBFrame s = Some (RTU_BUF 1)" "unat (usLength s) \<le> maxlen"
    by (simp_all add: frame_known_def)
  obtain e s' where s': "send (ucMBAddress s) (RTU_BUF 1) (usLength s) s = Some (e, s')" "inv s'"
      "mb_static s' = mb_static s" "mb_work s' = mb_work s" "same_queue s s'"
    using send_ok [OF assms(1) p(2)] by blast
  then have "poll_ok maxlen s'" using assms(2)
    by (auto simp: poll_ok_def frame_known_def same_queue_def mb_static_def mb_work_def)
  with s' p show ?thesis by (simp add: poll_step_def)
qed

lemma poll_step_ok:
  assumes "inv s" "poll_ok maxlen s" "poll_at maxlen pc s" "\<And>k. handler_ok (usr k)"
  shows "if poll_overruns pc s then poll_step receive send usr pc s = None
    else \<exists>pc' s'. poll_step receive send usr pc s = Some (pc', s') \<and> inv s' \<and>
      poll_ok maxlen s' \<and> poll_at maxlen pc' s' \<and> mb_static s' = mb_static s"
proof (cases "pc = P_Handler")
  case True
  with poll_handler_ok [where usr = usr, OF assms(1,2)] assms(3,4) show ?thesis by simp
next
  case False
  then have no: "\<not> poll_overruns pc s" by (simp add: poll_overruns_def)
  have "\<exists>pc' s'. poll_step receive send usr pc s = Some (pc', s') \<and> inv s' \<and>
      poll_ok maxlen s' \<and> poll_at maxlen pc' s' \<and> mb_static s' = mb_static s"
  proof (cases pc)
    case P_Receive
    with poll_receive_ok [OF assms(1,2)] assms(3) show ?thesis by (simp add: poll_at_def)
  next
    case (P_Reply ex)
    with poll_reply_ok [OF assms(1,2)] assms(3) show ?thesis by simp
  next
    case P_Send
    with poll_send_ok [OF assms(1,2)] assms(3) show ?thesis by simp
  next
    case P_Execute
    with assms(3) have "ucMBFrame s = Some (RTU_BUF 1)" by (simp add: poll_at_def frame_known_def)
    moreover obtain c where "rd (frame_mem (RTU_BUF 1) s) 0 = Some c"
      using inv_buf [OF assms(1)] by (simp add: frame_mem_simps mem_simps)
    ultimately show ?thesis
      using P_Execute assms(2,3) inv_work(2) [OF assms(1), of c]
      by (auto simp: poll_step_def poll_at_def poll_ok_def frame_known_def mb_static_def)
  next
    case (P_Clear e)
    then show ?thesis
      using assms inv_queue(1) [OF assms(1), of False]
      by (cases e) (auto simp: poll_step_def poll_at_def poll_ok_def frame_known_def)
  qed (use False assms inv_queue [OF assms(1)] in
    \<open>auto simp: poll_step_def poll_at_def poll_ok_def frame_known_def\<close>)
  with no show ?thesis by simp
qed

end

text \<open>The RTU layer implements the contract.\<close>

definition rtu_layer_inv where
  "rtu_layer_inv s \<longleftrightarrow> rtu_inv s \<and> \<not> usart_eie s \<and>
     peMBFrameReceiveCur s = Some L_RTU \<and> peMBFrameSendCur s = Some L_RTU"

lemma rtu_receive_closed:
  assumes "rtu_inv s"
  shows "\<exists>e out. eMBRTUReceive s = Some (e, out, s\<lparr>primask := False\<rparr>) \<and>
    (e = MB_ENOERR \<and> (\<exists>a n. out = Some (a, 1, n) \<and> 1 \<le> unat n \<and> unat n \<le> 253) \<or>
     e \<noteq> MB_ENOERR \<and> out = None)"
proof -
  let ?bs = "take (unat (usRcvBufferPos s)) (ucRTUBuf s)"
  have len: "length ?bs = unat (usRcvBufferPos s)" "length (ucRTUBuf s) = 256"
    "unat (usRcvBufferPos s) \<le> 256"
    using assms by (simp_all add: rtu_inv_def)
  have "unat (of_nat (length ?bs - 3) :: USHORT) = length ?bs - 3"
    using len by (subst unat_of_nat) simp
  with eMBRTUReceive_buf [of s ?bs] len show ?thesis by (auto simp del: of_nat_diff)
qed

lemma rtu_send_closed:
  assumes "rtu_inv s" "unat n \<le> 253"
  shows "\<exists>e s'. eMBRTUSend a 1 n s = Some (e, s') \<and> rtu_inv s' \<and>
    mb_static s' = mb_static s \<and> mb_work s' = mb_work s \<and> same_queue s s' \<and> usart_eie s' = usart_eie s"
proof (cases "eRcvState s = STATE_RX_IDLE")
  case True
  with assms have "length (ucRTUBuf s) = 256" by (simp add: rtu_inv_def)
  from eMBRTUSend_idle [OF True this assms(2), of a] rtu_send_inv [OF assms, of a]
  show ?thesis by (auto simp: mb_static_def mb_work_def same_queue_def)
next
  case False
  then have "eMBRTUSend a 1 n s = Some (MB_EIO, s\<lparr>primask := False\<rparr>)"
    by (simp add: eMBRTUSend_def port_simps)
  with assms show ?thesis by (simp add: same_queue_def)
qed

interpretation rtu_if: frame_iface 253 rtu_layer_inv "call_receive tp" "call_send tp"
proof unfold_locales
  fix s :: "('a, 'b) mb_scheme"
  assume i: "rtu_layer_inv s"
  then have inv: "rtu_inv s" "\<not> usart_eie s" "peMBFrameReceiveCur s = Some L_RTU"
      "peMBFrameSendCur s = Some L_RTU"
    by (simp_all add: rtu_layer_inv_def)
  obtain e out where "eMBRTUReceive s = Some (e, out, s\<lparr>primask := False\<rparr>)"
      "e = MB_ENOERR \<and> (\<exists>a n. out = Some (a, 1, n) \<and> 1 \<le> unat n \<and> unat n \<le> 253) \<or>
       e \<noteq> MB_ENOERR \<and> out = None"
    using rtu_receive_closed [OF inv(1)] by blast
  then show "\<exists>e out s'. call_receive tp s = Some (e, out, s') \<and> rtu_layer_inv s' \<and>
      mb_static s' = mb_static s \<and> mb_work s' = mb_work s \<and> same_queue s s' \<and>
      (e = MB_ENOERR \<and> (\<exists>a n. out = Some (a, RTU_BUF 1, n) \<and> 1 \<le> unat n \<and> unat n \<le> 253) \<or>
       e \<noteq> MB_ENOERR \<and> out = None)"
    using inv
    by (auto simp: call_receive_def frame_receive_def in_buffer_def rtu_layer_inv_def same_queue_def)
  show "\<exists>e s'. call_send tp a (RTU_BUF 1) n s = Some (e, s') \<and> rtu_layer_inv s' \<and>
      mb_static s' = mb_static s \<and> mb_work s' = mb_work s \<and> same_queue s s'"
    if "unat n \<le> 253" for a n
    using rtu_send_closed [OF inv(1) that, of a] inv(2-4)
    by (auto simp: call_send_def frame_send_def rtu_layer_inv_def mb_static_def)
qed (auto simp: rtu_layer_inv_def rtu_inv_def port_simps xMBPortEventGet_def)

text \<open>So does the ASCII layer.\<close>

definition ascii_layer_inv where
  "ascii_layer_inv s \<longleftrightarrow> length (ucRTUBuf s) = 256 \<and> unat (a_usRcvBufferPos s) \<le> 256 \<and>
     peMBFrameReceiveCur s = Some L_ASCII \<and> peMBFrameSendCur s = Some L_ASCII"

lemma ascii_receive_closed:
  assumes "ascii_layer_inv s"
  shows "\<exists>e out. eMBASCIIReceive s = Some (e, out, s\<lparr>primask := False\<rparr>) \<and>
    (e = MB_ENOERR \<and> (\<exists>a n. out = Some (a, 1, n) \<and> 1 \<le> unat n \<and> unat n \<le> 254) \<or>
     e \<noteq> MB_ENOERR \<and> out = None)"
proof -
  let ?bs = "take (unat (a_usRcvBufferPos s)) (ucRTUBuf s)"
  have len: "length ?bs = unat (a_usRcvBufferPos s)" "length (ucRTUBuf s) = 256"
    "unat (a_usRcvBufferPos s) \<le> 256"
    using assms by (simp_all add: ascii_layer_inv_def)
  have "unat (of_nat (length ?bs - 2) :: USHORT) = length ?bs - 2"
    using len by (subst unat_of_nat) simp
  with eMBASCIIReceive_buf [of s ?bs] len show ?thesis by (auto simp del: of_nat_diff)
qed

lemma ascii_send_closed:
  assumes "ascii_layer_inv s" "unat n \<le> 254"
  shows "\<exists>e s'. eMBASCIISend a 1 n s = Some (e, s') \<and> ascii_layer_inv s' \<and>
    mb_static s' = mb_static s \<and> mb_work s' = mb_work s \<and> same_queue s s'"
proof (cases "a_eRcvState s = A_STATE_RX_IDLE")
  case True
  have len: "length (ucRTUBuf s) = 256" "ucRTUBuf s \<noteq> []"
    using assms(1) by (auto simp: ascii_layer_inv_def)
  have u: "unat (1 + n) = Suc (unat n)" using assms(2) by (simp add: unat_word_ariths)
  then have "\<exists>c. prvucMBLRC ((ucRTUBuf s)[0 := a]) 0 (1 + n) = Some c"
    using assms(2) len by (simp add: prvucMBLRC_in)
  then show ?thesis
    using True assms len u
    by (auto simp: eMBASCIISend_def port_simps mem_simps Let_def ascii_layer_inv_def
        mb_static_def mb_work_def same_queue_def)
next
  case False
  then have "eMBASCIISend a 1 n s = Some (MB_EIO, s\<lparr>primask := False\<rparr>)"
    by (simp add: eMBASCIISend_def port_simps)
  with assms show ?thesis by (simp add: same_queue_def ascii_layer_inv_def)
qed

interpretation ascii_if: frame_iface 254 ascii_layer_inv "call_receive tp" "call_send tp"
proof unfold_locales
  fix s :: "('a, 'b) mb_scheme"
  assume i: "ascii_layer_inv s"
  obtain e out where "eMBASCIIReceive s = Some (e, out, s\<lparr>primask := False\<rparr>)"
      "e = MB_ENOERR \<and> (\<exists>a n. out = Some (a, 1, n) \<and> 1 \<le> unat n \<and> unat n \<le> 254) \<or>
       e \<noteq> MB_ENOERR \<and> out = None"
    using ascii_receive_closed [OF i] by blast
  then show "\<exists>e out s'. call_receive tp s = Some (e, out, s') \<and> ascii_layer_inv s' \<and>
      mb_static s' = mb_static s \<and> mb_work s' = mb_work s \<and> same_queue s s' \<and>
      (e = MB_ENOERR \<and> (\<exists>a n. out = Some (a, RTU_BUF 1, n) \<and> 1 \<le> unat n \<and> unat n \<le> 254) \<or>
       e \<noteq> MB_ENOERR \<and> out = None)"
    using i
    by (auto simp: call_receive_def frame_receive_def in_buffer_def ascii_layer_inv_def same_queue_def)
  show "\<exists>e s'. call_send tp a (RTU_BUF 1) n s = Some (e, s') \<and> ascii_layer_inv s' \<and>
      mb_static s' = mb_static s \<and> mb_work s' = mb_work s \<and> same_queue s s'"
    if "unat n \<le> 254" for a n
    using ascii_send_closed [OF i that, of a] i
    by (auto simp: call_send_def frame_send_def ascii_layer_inv_def)
qed (auto simp: ascii_layer_inv_def port_simps xMBPortEventGet_def)

end
