(* ===== verification/MBSystem.thy ===== *)
theory MBSystem
  imports MBStack
begin

text \<open>
  The Modbus firmware as one system, in the configuration of \<open>mbconfig.h\<close> (RTU only): the
  hardware, the two interrupts and the calls of the application as a step relation, its
  invariant, and the properties of \<open>mb.c\<close> that span the components.
\<close>

section \<open>Steps\<close>

datatype mb_event =
    M_Byte UCHAR | M_TxDone | M_Timeout | M_UsartIrq | M_TimerIrq
  | M_Init eMBMode UCHAR ULONG eMBParity | M_Enable | M_Disable | M_Close
  | M_Register UCHAR "handler_id option" | M_Poll

text \<open>
  A configuration is the point the main loop has reached in \<open>eMBPoll\<close> and the state. Line
  events and interrupts are possible at every point; the other calls of the application only
  outside \<open>eMBPoll\<close>. \<open>M_Poll\<close> is the next step of \<open>eMBPoll\<close>.
\<close>

abbreviation main_step ::
  "'w tcp_port \<Rightarrow> (nat \<Rightarrow> handler) \<Rightarrow> poll_pc \<Rightarrow> ('w, 'a) mb_scheme \<Rightarrow>
   (poll_pc \<times> ('w, 'a) mb_scheme) option" where
  "main_step tp usr \<equiv> poll_step (call_receive tp) (call_send tp) usr"

inductive mb_step ::
  "'w tcp_port \<Rightarrow> (nat \<Rightarrow> handler) \<Rightarrow> poll_pc \<Rightarrow> ('w, 'a) mb_scheme \<Rightarrow> mb_event \<Rightarrow>
   poll_pc \<Rightarrow> ('w, 'a) mb_scheme \<Rightarrow> bool"
  for tp usr where
  Byte: "mb_step tp usr pc s (M_Byte b) pc (hw_byte b s)"
| TxDone: "mb_step tp usr pc s M_TxDone pc (hw_tx_done s)"
| Timeout: "mb_step tp usr pc s M_Timeout pc (hw_timeout s)"
| UsartIrq: "mb_usart_irq s = Some s' \<Longrightarrow> mb_step tp usr pc s M_UsartIrq pc s'"
| TimerIrq: "mb_timer_irq s = Some s' \<Longrightarrow> mb_step tp usr pc s M_TimerIrq pc s'"
| Init: "eMBInit mbconfig_h m a 0 baud par s = Some (e, s') \<Longrightarrow>
    mb_step tp usr P_Main s (M_Init m a baud par) P_Main s'"
| Enable: "eMBEnable s = Some (e, s') \<Longrightarrow> mb_step tp usr P_Main s M_Enable P_Main s'"
| Disable: "eMBDisable tp s = Some (e, s') \<Longrightarrow> mb_step tp usr P_Main s M_Disable P_Main s'"
| Close: "eMBClose s = (e, s') \<Longrightarrow> mb_step tp usr P_Main s M_Close P_Main s'"
| Register: "eMBRegisterCB fc h s = (e, s') \<Longrightarrow> mb_step tp usr P_Main s (M_Register fc h) P_Main s'"
| Poll: "main_step tp usr pc s = Some (pc', s') \<Longrightarrow> mb_step tp usr pc s M_Poll pc' s'"

inductive_simps mb_step_usart: "mb_step tp usr pc s M_UsartIrq pc' s'"
inductive_simps mb_step_timer: "mb_step tp usr pc s M_TimerIrq pc' s'"
inductive_simps mb_step_init: "mb_step tp usr pc s (M_Init m a baud par) pc' s'"
inductive_simps mb_step_enable: "mb_step tp usr pc s M_Enable pc' s'"
inductive_simps mb_step_disable: "mb_step tp usr pc s M_Disable pc' s'"
inductive_simps mb_step_poll: "mb_step tp usr pc s M_Poll pc' s'"
inductive_cases mb_stepE: "mb_step tp usr pc s e pc' s'"

text \<open>The state before \<open>main\<close>: static storage initialised, interrupts of the peripherals off.\<close>

definition mb_reset where
  "mb_reset s \<longleftrightarrow> rtu_reset s \<and> eMBState s = STATE_NOT_INITIALIZED \<and>
     xFuncHandlers s = xFuncHandlers_init \<and> ucMBFrame s = None \<and> regs_wf (mb_regs s) \<and>
     \<not> xEventInQueue s \<and> \<not> usart_rxneie s \<and> \<not> usart_tcie s \<and> \<not> usart_eie s \<and> \<not> tim_uie s"

inductive mb_reach ::
  "'w tcp_port \<Rightarrow> (nat \<Rightarrow> handler) \<Rightarrow> poll_pc \<Rightarrow> ('w, 'a) mb_scheme \<Rightarrow> bool" for tp usr where
  reset: "mb_reset s \<Longrightarrow> mb_reach tp usr P_Main s"
| step: "mb_reach tp usr pc s \<Longrightarrow> mb_step tp usr pc s e pc' s' \<Longrightarrow> mb_reach tp usr pc' s'"

section \<open>Invariant\<close>

definition rtu_pointers where
  "rtu_pointers s \<longleftrightarrow> rtu_callbacks s \<and> pvMBFrameStartCur s = Some L_RTU \<and>
     pvMBFrameStopCur s = Some L_RTU \<and> peMBFrameReceiveCur s = Some L_RTU \<and>
     peMBFrameSendCur s = Some L_RTU"

text \<open>An interrupt source is enabled, or the stack is initialised.\<close>

definition live where
  "live s \<longleftrightarrow> usart_rxneie s \<or> usart_tcie s \<or> tim_uie s \<or> eMBState s \<noteq> STATE_NOT_INITIALIZED"

definition mb_inv where
  "mb_inv s \<longleftrightarrow> rtu_inv s \<and> \<not> usart_eie s \<and> poll_ok 253 s \<and> (live s \<longrightarrow> rtu_pointers s)"

lemma rtu_pointers_static: "mb_static s' = mb_static s \<Longrightarrow> rtu_pointers s' = rtu_pointers s"
  by (simp add: rtu_pointers_def rtu_callbacks_def mb_static_def)

text \<open>An interrupt does not enable the error interrupt and posts no execute event.\<close>

definition exec_pending where
  "exec_pending s \<longleftrightarrow> xEventInQueue s \<and> eQueuedEvent s = EV_EXECUTE"

definition quiet where
  "quiet s s' \<longleftrightarrow> usart_eie s' = usart_eie s \<and> (exec_pending s' \<longrightarrow> exec_pending s) \<and>
     (eQueuedEvent s' = EV_EXECUTE \<longrightarrow> eQueuedEvent s = EV_EXECUTE)"

lemma quiet_trans: "quiet s s' \<Longrightarrow> quiet s' s'' \<Longrightarrow> quiet s s''"
  by (simp add: quiet_def)

lemma quiet_refl [simp]: "quiet s s"
  by (simp add: quiet_def)

lemma quiet_rx_fsm: "xMBRTUReceiveFSM s = Some (r, s') \<Longrightarrow> quiet s s'"
  by (auto simp: xMBRTUReceiveFSM_def port_simps quiet_def exec_pending_def wr_def
      split: eMBRcvState.splits bind_splits if_splits)

lemma quiet_tx_fsm: "xMBRTUTransmitFSM s = Some (r, s') \<Longrightarrow> quiet s s'"
  by (auto simp: xMBRTUTransmitFSM_def port_simps quiet_def exec_pending_def rd_def
      split: eMBSndState.splits bind_splits if_splits)

lemma quiet_timer_fsm: "xMBRTUTimerT35Expired s = Some (r, s') \<Longrightarrow> quiet s s'"
  by (auto simp: xMBRTUTimerT35Expired_def port_simps quiet_def exec_pending_def
      split: eMBRcvState.splits)

lemma quiet_flags [simp]:
  "quiet s (s'\<lparr>usart_rxne := x\<rparr>) = quiet s s'" "quiet s (s'\<lparr>usart_ore := x\<rparr>) = quiet s s'"
  "quiet s (s'\<lparr>usart_tc := x\<rparr>) = quiet s s'" "quiet s (s'\<lparr>tim_uif := x\<rparr>) = quiet s s'"
  by (simp_all add: quiet_def exec_pending_def)

lemma quiet_usart_irq: "rtu_usart_irq s = Some s' \<Longrightarrow> quiet s s'"
proof -
  assume "rtu_usart_irq s = Some s'"
  then obtain x y where st: "usart_rx_stage xMBRTUReceiveFSM s = Some x"
      "usart_ore_stage xMBRTUReceiveFSM x = Some y" "usart_tx_stage xMBRTUTransmitFSM y = Some s'"
    by (auto simp: rtu_usart_irq_def USART2_stages split: bind_splits)
  have "quiet s x" using st(1)
    by (auto simp: usart_rx_stage_def prvvMBSerialRXIRQHandler_def
        split: if_splits bind_splits dest!: quiet_rx_fsm)
  moreover have "quiet x y" using st(2)
    by (auto simp: usart_ore_stage_def prvvMBSerialRXIRQHandler_def
        split: if_splits bind_splits dest!: quiet_rx_fsm)
  moreover have "quiet y s'" using st(3)
    by (auto simp: usart_tx_stage_def prvvMBSerialTXIRQHandler_def
        split: if_splits bind_splits dest!: quiet_tx_fsm)
  ultimately show ?thesis using quiet_trans by blast
qed

lemma quiet_timer_irq: "rtu_timer_irq s = Some s' \<Longrightarrow> quiet s s'"
  by (auto simp: rtu_timer_irq_def TIM2_IRQHandler_def prvvMBTimerIRQHandler_def
      split: if_splits bind_splits dest!: quiet_timer_fsm)

text \<open>What carries the invariant over a step of a lower layer.\<close>

lemma mb_inv_step:
  assumes "mb_inv s" "rtu_inv s'" "quiet s s'" "mb_static s' = mb_static s" "mb_work s' = mb_work s"
    "live s' \<Longrightarrow> live s"
  shows "mb_inv s'"
proof -
  have "poll_ok 253 s'"
    using assms(1,3,4,5)
    by (auto simp: mb_inv_def poll_ok_def frame_known_def quiet_def exec_pending_def mb_static_def
        mb_work_def)
  with assms rtu_pointers_static [OF assms(4)] show ?thesis
    by (auto simp: mb_inv_def quiet_def)
qed

lemma hw_quiet: "quiet s (hw_byte b s)" "quiet s (hw_tx_done s)" "quiet s (hw_timeout s)"
  by (simp_all add: hw_byte_def hw_tx_done_def hw_timeout_def quiet_def exec_pending_def)

lemma mb_hw_inv:
  assumes "mb_inv s"
  shows "mb_inv (hw_byte b s)" "mb_inv (hw_tx_done s)" "mb_inv (hw_timeout s)"
proof -
  have rtu: "rtu_inv s" using assms by (simp add: mb_inv_def)
  have "rtu_inv (hw_byte b s)" "rtu_inv (hw_tx_done s)" "rtu_inv (hw_timeout s)"
    using rtu by (simp_all add: hw_byte_def hw_tx_done_def hw_timeout_def)
  moreover note hw_quiet [of s]
  moreover have "live (hw_byte b s) = live s" "live (hw_tx_done s) = live s" "live (hw_timeout s) = live s"
    by (simp_all add: hw_byte_def hw_tx_done_def hw_timeout_def live_def)
  ultimately show "mb_inv (hw_byte b s)" "mb_inv (hw_tx_done s)" "mb_inv (hw_timeout s)"
    by - (rule mb_inv_step [OF assms]; simp)+
qed

text \<open>The interrupts: with no source enabled they do nothing, otherwise they are those of RTU.\<close>

lemma mb_usart_irq_inv:
  assumes "mb_inv s"
  shows "\<exists>s'. mb_usart_irq s = Some s' \<and> mb_inv s' \<and> quiet s s' \<and> mb_static s' = mb_static s \<and>
    mb_work s' = mb_work s"
proof (cases "live s")
  case True
  then have cb: "rtu_callbacks s" and rtu: "rtu_inv s"
    using assms by (simp_all add: mb_inv_def rtu_pointers_def)
  obtain s' where s': "rtu_usart_irq s = Some s'" "rtu_inv s'"
    using rtu_usart_irq_inv [OF rtu] by blast
  then have "mb_inv s'"
    using mb_inv_step [OF assms s'(2) quiet_usart_irq [OF s'(1)]] mb_rtu_irq_frame [OF s'(1)] True
    by blast
  with s' mb_irq_rtu(1) [OF cb] quiet_usart_irq [OF s'(1)] mb_rtu_irq_frame [OF s'(1)]
  show ?thesis by simp
next
  case False
  then have "mb_usart_irq s = Some s"
    using assms by (simp add: mb_usart_irq_def USART2_IRQHandler_def live_def mb_inv_def)
  with assms show ?thesis by simp
qed

lemma mb_timer_irq_inv:
  assumes "mb_inv s"
  shows "\<exists>s'. mb_timer_irq s = Some s' \<and> mb_inv s' \<and> quiet s s' \<and> mb_static s' = mb_static s \<and>
    mb_work s' = mb_work s"
proof (cases "live s")
  case True
  then have cb: "rtu_callbacks s" and rtu: "rtu_inv s"
    using assms by (simp_all add: mb_inv_def rtu_pointers_def)
  obtain s' where s': "rtu_timer_irq s = Some s'" "rtu_inv s'"
    using rtu_timer_irq_inv [OF rtu] by blast
  then have "mb_inv s'"
    using mb_inv_step [OF assms s'(2) quiet_timer_irq [OF s'(1)]] mb_rtu_timer_frame [OF s'(1)] True
    by blast
  with s' mb_irq_rtu(2) [OF cb] quiet_timer_irq [OF s'(1)] mb_rtu_timer_frame [OF s'(1)]
  show ?thesis by simp
next
  case False
  then have "mb_timer_irq s = Some s"
    using assms by (simp add: mb_timer_irq_def TIM2_IRQHandler_def live_def)
  with assms show ?thesis by simp
qed

text \<open>
  What holds in a configuration; line events and interrupts keep what \<open>eMBPoll\<close> relies on at
  the point it has reached.
\<close>

definition mb_config_ok where
  "mb_config_ok pc s \<longleftrightarrow> mb_inv s \<and> poll_at 253 pc s"

lemma poll_at_quiet:
  "poll_at 253 pc s \<Longrightarrow> quiet s s' \<Longrightarrow> mb_static s' = mb_static s \<Longrightarrow> mb_work s' = mb_work s \<Longrightarrow>
   poll_at 253 pc s'"
  by (auto simp: poll_at_def frame_known_def quiet_def mb_static_def mb_work_def split: poll_pc.splits)

text \<open>
  A step of \<open>eMBPoll\<close> is defined and keeps the invariant, unless it is the handler of a
  request that leaves the coils or discrete inputs: the contract of the RTU layer at work.
\<close>

lemma main_step_ok:
  assumes "mb_config_ok pc s" "\<And>k. handler_ok (usr k)"
  shows "if poll_overruns pc s then main_step tp usr pc s = None
    else \<exists>pc' s'. main_step tp usr pc s = Some (pc', s') \<and> mb_config_ok pc' s'"
proof (cases "eMBState s = STATE_ENABLED")
  case False
  then have "pc = P_Main" using assms(1) by (auto simp: mb_config_ok_def poll_at_def)
  with False assms(1) show ?thesis by (simp add: poll_overruns_def poll_step_def)
next
  case True
  have inv: "mb_inv s" and pc_at: "poll_at 253 pc s" using assms(1) by (simp_all add: mb_config_ok_def)
  have "live s" using True by (simp add: live_def)
  then have ptr: "rtu_pointers s" using inv by (simp add: mb_inv_def)
  have layer: "rtu_layer_inv s" "poll_ok 253 s"
    using inv ptr by (simp_all add: mb_inv_def rtu_layer_inv_def rtu_pointers_def)
  have keep: "mb_config_ok pc' s'"
    if "rtu_layer_inv s'" "poll_ok 253 s'" "poll_at 253 pc' s'" "mb_static s' = mb_static s" for pc' s'
    using that ptr rtu_pointers_static [OF that(4)]
    by (auto simp: mb_config_ok_def mb_inv_def rtu_layer_inv_def)
  from rtu_if.poll_step_ok [where usr = usr and tp = tp, OF layer pc_at assms(2)] keep
  show ?thesis by (auto split: if_splits)
qed

text \<open>The calls of the application.\<close>

lemma mb_inv_same_work:
  assumes "mb_inv s" "rtu_inv s'" "quiet s s'" "mb_work s' = mb_work s"
    "xFuncHandlers s' = xFuncHandlers s" "live s' \<Longrightarrow> rtu_pointers s'"
  shows "mb_inv s'"
  using assms by (auto simp: mb_inv_def poll_ok_def frame_known_def quiet_def exec_pending_def
      mb_work_def)

lemma rtu_init_frame:
  assumes "eMBRTUInit a p baud par s = Some (e, s')"
  shows "e = MB_ENOERR \<and> (rtu_inv s \<longrightarrow> rtu_inv s') \<and> quiet s s' \<and> mb_static s' = mb_static s \<and>
    mb_work s' = mb_work s"
proof -
  obtain arr where "e = MB_ENOERR" "s' = s\<lparr>usart_baud := baud, usart_tx := usart_tx s @ [0xFF],
      usart_tc := True, tim_psc := 4199, tim_arr := arr, tim_cnt := 0, tim_uif := True,
      tim_uie := True, tim_cen := True, primask := False\<rparr>"
    using assms by (auto simp: eMBRTUInit_def port_simps split: if_splits)
  then show ?thesis
    by (simp add: rtu_inv_def quiet_def exec_pending_def mb_static_def mb_work_def)
qed

lemma mb_init_inv:
  assumes "mb_inv s" "eMBInit mbconfig_h m a p baud par s = Some (e, s')"
  shows "mb_inv s'"
proof -
  let ?s = "s\<lparr>ucMBAddress := a\<rparr>"
  have inv: "rtu_inv s" "\<not> usart_eie s" using assms(1) by (simp_all add: mb_inv_def)
  have addr: "mb_inv ?s"
    by (intro mb_inv_same_work [OF assms(1)])
      (use assms(1) in \<open>auto simp: mb_inv_def rtu_inv_def quiet_def exec_pending_def mb_work_def
        live_def rtu_pointers_def rtu_callbacks_def\<close>)
  consider "s' = s" | "s' = ?s"
    | s1 where "eMBRTUInit a p baud par (set_layer L_RTU ?s) = Some (MB_ENOERR, s1)"
        "s' = s1\<lparr>xEventInQueue := False, eMBCurrentMode := MB_RTU, eMBState := STATE_DISABLED\<rparr>"
    using assms(2) rtu_init_frame
    by (cases "m = MB_RTU")
      (fastforce simp: eMBInit_def mbconfig_h_def xMBPortEventInit_def Let_def
        set_layer_def split: if_splits bind_splits)+
  then show ?thesis
  proof cases
    case (3 s1)
    have l: "rtu_inv (set_layer L_RTU ?s)" "mb_work (set_layer L_RTU ?s) = mb_work s"
      "xFuncHandlers (set_layer L_RTU ?s) = xFuncHandlers s" "quiet s (set_layer L_RTU ?s)"
      "rtu_pointers (set_layer L_RTU ?s)"
      using inv by (simp_all add: set_layer_def rtu_inv_def mb_work_def quiet_def exec_pending_def
          rtu_pointers_def rtu_callbacks_def)
    have f: "rtu_inv s1" "quiet (set_layer L_RTU ?s) s1" "mb_static s1 = mb_static (set_layer L_RTU ?s)"
      "mb_work s1 = mb_work (set_layer L_RTU ?s)"
      using rtu_init_frame [OF 3(1)] l(1) by simp_all
    have p1: "rtu_pointers s1" using rtu_pointers_static [OF f(3)] l(5) by simp
    have "quiet s s1" using quiet_trans [OF l(4) f(2)] .
    moreover have "xFuncHandlers s1 = xFuncHandlers s" using f(3) l(3) by (simp add: mb_static_def)
    ultimately show ?thesis
      using f(1,4) l(2) p1 unfolding 3(2)
      by (intro mb_inv_same_work [OF assms(1)])
        (simp_all add: rtu_inv_def quiet_def exec_pending_def mb_work_def rtu_pointers_def
          rtu_callbacks_def)
  qed (use assms(1) addr in simp_all)
qed

lemma mb_enable_inv:
  assumes "mb_inv s"
  shows "\<exists>e s'. eMBEnable s = Some (e, s') \<and> mb_inv s'"
proof (cases "eMBState s = STATE_DISABLED")
  case True
  then have "rtu_pointers s" using assms by (simp add: mb_inv_def live_def)
  with True assms show ?thesis
    by (auto simp: eMBEnable_def frame_start_def rtu_pointers_def rtu_callbacks_def eMBRTUStart_def
        port_simps Let_def rtu_inv_def quiet_def exec_pending_def mb_work_def mb_inv_def
        poll_ok_def frame_known_def intro!: mb_inv_same_work [OF assms])
qed (use assms in \<open>auto simp: eMBEnable_def\<close>)

lemma mb_disable_inv:
  assumes "mb_inv s"
  shows "\<exists>e s'. eMBDisable tp s = Some (e, s') \<and> mb_inv s'"
proof (cases "eMBState s = STATE_ENABLED")
  case True
  then have "rtu_pointers s" using assms by (simp add: mb_inv_def live_def)
  with True assms show ?thesis
    by (auto simp: eMBDisable_def frame_stop_def rtu_pointers_def rtu_callbacks_def eMBRTUStop_def
        port_simps Let_def rtu_inv_def quiet_def exec_pending_def mb_work_def mb_inv_def
        poll_ok_def frame_known_def intro!: mb_inv_same_work [OF assms])
qed (use assms in \<open>auto simp: eMBDisable_def\<close>)

lemma register_loop_table:
  "register_loop fc h t = Some t' \<Longrightarrow> length t' = length t \<and> set t' \<subseteq> insert (fc, Some h) (set t)"
proof (induction t arbitrary: t')
  case (Cons x t)
  obtain c p where x: "x = (c, p)" by (cases x)
  show ?case
  proof (cases "p = None \<or> p = Some h")
    case False
    then obtain u where "register_loop fc h t = Some u" "t' = x # u"
      using Cons.prems x by auto
    with Cons.IH [of u] show ?thesis by auto
  qed (use Cons.prems x in auto)
qed simp

lemma remove_loop_table:
  "length (remove_loop fc t) = length t \<and> set (remove_loop fc t) \<subseteq> insert (0, None) (set t)"
  by (induction fc t rule: remove_loop.induct) (simp, force)

lemma register_table_ok:
  "table_ok t \<Longrightarrow> register_loop fc h t = Some t' \<Longrightarrow> table_ok t'"
  "table_ok t \<Longrightarrow> table_ok (remove_loop fc t)"
  using register_loop_table [of fc h t t'] remove_loop_table [of fc t]
  by (auto simp: table_ok_def)

lemma mb_register_inv:
  assumes "mb_inv s" "eMBRegisterCB fc h s = (e, s')"
  shows "mb_inv s'"
proof -
  have tab: "table_ok (xFuncHandlers s)" using assms(1) by (simp add: mb_inv_def poll_ok_def)
  have keep: "mb_inv (s\<lparr>xFuncHandlers := t, primask := False\<rparr>)" if "table_ok t" for t
    using assms(1) that
    by (simp add: mb_inv_def rtu_inv_def poll_ok_def frame_known_def live_def rtu_pointers_def
        rtu_callbacks_def)
  have prim: "mb_inv (s\<lparr>primask := False\<rparr>)"
    using keep [OF tab] by simp
  have "s' = s \<or> s' = s\<lparr>primask := False\<rparr> \<or>
      (\<exists>t. s' = s\<lparr>xFuncHandlers := t, primask := False\<rparr> \<and> table_ok t)"
  proof (cases h)
    case None
    with assms(2) register_table_ok(2) [OF tab] show ?thesis
      by (auto simp: eMBRegisterCB_def port_simps Let_def split: if_splits)
  next
    case (Some k)
    with assms(2) register_table_ok(1) [OF tab] show ?thesis
      by (cases "register_loop fc k (xFuncHandlers s)")
        (auto simp: eMBRegisterCB_def port_simps Let_def split: if_splits)
  qed
  with assms(1) keep prim show ?thesis by auto
qed

lemma mb_step_inv:
  assumes "mb_step tp usr pc s e pc' s'" "mb_config_ok pc s" "\<And>k. handler_ok (usr k)"
  shows "mb_config_ok pc' s'"
proof -
  have inv: "mb_inv s" and pc_at: "poll_at 253 pc s" using assms(2) by (simp_all add: mb_config_ok_def)
  from assms(1) show ?thesis
  proof cases
    case UsartIrq
    with mb_usart_irq_inv [OF inv] poll_at_quiet [OF pc_at] show ?thesis
      by (auto simp: mb_config_ok_def)
  next
    case TimerIrq
    with mb_timer_irq_inv [OF inv] poll_at_quiet [OF pc_at] show ?thesis
      by (auto simp: mb_config_ok_def)
  next
    case (Init m a baud par e)
    with mb_init_inv [OF inv] show ?thesis by (simp add: mb_config_ok_def)
  next
    case (Enable e)
    with mb_enable_inv [OF inv] show ?thesis by (auto simp: mb_config_ok_def)
  next
    case (Disable e)
    with mb_disable_inv [OF inv, of tp] show ?thesis by (auto simp: mb_config_ok_def)
  next
    case (Close e)
    with assms(2) show ?thesis by (auto simp: eMBClose_def split: if_splits)
  next
    case (Register fc h e)
    with mb_register_inv [OF inv] show ?thesis by (simp add: mb_config_ok_def)
  next
    case Poll
    with main_step_ok [where usr = usr and tp = tp, OF assms(2,3)] show ?thesis
      by (auto split: if_splits)
  qed (simp_all add: mb_config_ok_def mb_hw_inv [OF inv] poll_at_quiet [OF pc_at hw_quiet(1)]
      poll_at_quiet [OF pc_at hw_quiet(2)] poll_at_quiet [OF pc_at hw_quiet(3)])
qed

lemma table_ok_init: "table_ok xFuncHandlers_init"
  by (simp add: table_ok_def xFuncHandlers_init_def)

lemma mb_reset_inv: "mb_reset s \<Longrightarrow> mb_config_ok P_Main s"
  by (auto simp: mb_reset_def mb_config_ok_def mb_inv_def rtu_reset_def rtu_inv_def poll_ok_def
      table_ok_init live_def)

lemma mb_reach_inv:
  assumes "mb_reach tp usr pc s" "\<And>k. handler_ok (usr k)"
  shows "mb_config_ok pc s"
  using assms(1) by induction (use mb_reset_inv mb_step_inv assms(2) in blast)+

section \<open>A request from the line to the line\<close>

definition mb_rx where "mb_rx b s = mb_usart_irq (hw_byte b s)"
definition mb_tx where "mb_tx s = mb_usart_irq (hw_tx_done s)"
definition mb_silence where "mb_silence s = mb_timer_irq (hw_timeout s)"

lemma mb_lift_rtu:
  assumes "rtu_callbacks s"
  shows "mb_rx b s = rtu_rx b s" "mb_tx s = rtu_tx s" "mb_silence s = rtu_silence s"
proof -
  have "rtu_callbacks (hw_byte b s)" "rtu_callbacks (hw_tx_done s)" "rtu_callbacks (hw_timeout s)"
    using assms rtu_callbacks_static mb_hw_steps by blast+
  then show "mb_rx b s = rtu_rx b s" "mb_tx s = rtu_tx s" "mb_silence s = rtu_silence s"
    by (simp_all add: mb_rx_def mb_tx_def mb_silence_def rtu_rx_def rtu_tx_def rtu_silence_def
        mb_irq_rtu)
qed

lemma rtu_rx_static: "rtu_rx b s = Some s' \<Longrightarrow> mb_static s' = mb_static s \<and> mb_work s' = mb_work s"
  by (auto simp: rtu_rx_def dest!: mb_rtu_irq_frame)

lemma rtu_tx_static: "rtu_tx s = Some s' \<Longrightarrow> mb_static s' = mb_static s \<and> mb_work s' = mb_work s"
  by (auto simp: rtu_tx_def dest!: mb_rtu_irq_frame)

lemma rtu_silence_static:
  "rtu_silence s = Some s' \<Longrightarrow> mb_static s' = mb_static s \<and> mb_work s' = mb_work s"
  by (auto simp: rtu_silence_def dest!: mb_rtu_timer_frame)

lemma mb_rx_many:
  "rtu_callbacks s \<Longrightarrow> fold_opt rtu_rx bs s = Some s' \<Longrightarrow>
   fold_opt mb_rx bs s = Some s' \<and> mb_static s' = mb_static s \<and> mb_work s' = mb_work s"
proof (induction bs arbitrary: s)
  case (Cons b bs)
  then obtain s1 where s1: "rtu_rx b s = Some s1" "fold_opt rtu_rx bs s1 = Some s'"
    by (auto split: bind_splits)
  with Cons.IH [of s1] rtu_rx_static [OF s1(1)] rtu_callbacks_static [of s1 s] Cons.prems
  show ?case by (simp add: mb_lift_rtu)
qed simp

lemma mb_tx_many:
  "rtu_callbacks s \<Longrightarrow> iter_opt n rtu_tx s = Some s' \<Longrightarrow>
   iter_opt n mb_tx s = Some s' \<and> mb_static s' = mb_static s \<and> mb_work s' = mb_work s"
proof (induction n arbitrary: s)
  case (Suc n)
  then obtain s1 where s1: "rtu_tx s = Some s1" "iter_opt n rtu_tx s1 = Some s'"
    by (auto split: bind_splits)
  with Suc.IH [of s1] rtu_tx_static [OF s1(1)] rtu_callbacks_static [of s1 s] Suc.prems
  show ?case by (simp add: mb_lift_rtu)
qed simp

text \<open>The stack is enabled in RTU mode and the bus is idle.\<close>

definition mb_idle where
  "mb_idle s \<longleftrightarrow> eMBState s = STATE_ENABLED \<and> rtu_pointers s \<and> rx_on s \<and>
     eRcvState s = STATE_RX_IDLE \<and> length (ucRTUBuf s) = 256 \<and> regs_wf (mb_regs s) \<and>
     table_ok (xFuncHandlers s)"

text \<open>
  Reception up to the first poll: the request is known to the stack, and executed next if it
  is addressed to this slave or to all.
\<close>

lemma mb_request_received:
  assumes idle: "mb_idle s" and pdu: "pdu \<noteq> []" "length pdu \<le> 253"
  shows "\<exists>s1 s2 s3. fold_opt mb_rx (rtu_adu addr pdu) s = Some s1 \<and> mb_silence s1 = Some s2 \<and>
    eMBPoll tp usr s2 = Some (MB_ENOERR, s3) \<and> mb_idle s3 \<and> mb_static s3 = mb_static s \<and>
    mb_regs s3 = mb_regs s \<and> usart_tx s3 = usart_tx s \<and> ucRcvAddress s3 = addr \<and>
    ucMBFrame s3 = Some (RTU_BUF 1) \<and> usLength s3 = of_nat (length pdu) \<and>
    take (length pdu) (drop 1 (ucRTUBuf s3)) = pdu \<and>
    (if addr = ucMBAddress s \<or> addr = 0 then exec_pending s3 else \<not> xEventInQueue s3)"
proof -
  have cb: "rtu_callbacks s" and st: "eMBState s = STATE_ENABLED" "peMBFrameReceiveCur s = Some L_RTU"
    using idle by (simp_all add: mb_idle_def rtu_pointers_def)
  let ?adu = "rtu_adu addr pdu"
  have adu: "?adu \<noteq> []" "hd ?adu = addr" "of_nat (length ?adu - 3) = (of_nat (length pdu) :: USHORT)"
    by (simp_all add: rtu_adu_def Let_def)
  have l1: "Suc 0 \<le> length pdu" using pdu(1) by (cases pdu) simp_all
  obtain s1 s2 where run: "fold_opt rtu_rx ?adu s = Some s1" "rtu_silence s1 = Some s2"
      "eRcvState s2 = STATE_RX_IDLE" "fst (xMBPortEventGet s2) = Some EV_FRAME_RECEIVED"
      "rx_on s2" "length (ucRTUBuf s2) = 256" "take (length ?adu) (ucRTUBuf s2) = ?adu"
      "usart_tx s2 = usart_tx s"
      "eMBRTUReceive s2 = Some (MB_ENOERR, Some (addr, 1, of_nat (length pdu)), s2\<lparr>primask := False\<rparr>)"
    using rtu_line_run [of s ?adu] idle pdu adu l1 by (auto simp: mb_idle_def)
  have m1: "fold_opt mb_rx ?adu s = Some s1" "mb_static s1 = mb_static s" "mb_work s1 = mb_work s"
    using mb_rx_many [OF cb run(1)] by simp_all
  have m2: "mb_silence s1 = Some s2" "mb_static s2 = mb_static s" "mb_work s2 = mb_work s"
    using mb_lift_rtu(3) [of s1] rtu_callbacks_static [OF m1(2)] cb run(2)
      rtu_silence_static [OF run(2)] m1 by simp_all
  let ?s2 = "s2\<lparr>xEventInQueue := False\<rparr>"
  let ?s3 = "?s2\<lparr>primask := False, ucRcvAddress := addr, ucMBFrame := Some (RTU_BUF 1),
    usLength := of_nat (length pdu)\<rparr>"
  let ?s4 = "if addr = ucMBAddress s \<or> addr = 0 then snd (xMBPortEventPost EV_EXECUTE ?s3) else ?s3"
  have ev: "xEventInQueue s2" "eQueuedEvent s2 = EV_FRAME_RECEIVED"
    using run(4) by (auto simp: xMBPortEventGet_def split: if_splits)
  have rec: "eMBRTUReceive ?s2 =
      Some (MB_ENOERR, Some (addr, 1, of_nat (length pdu)), ?s2\<lparr>primask := False\<rparr>)"
    using run(9) by (auto simp: eMBRTUReceive_def port_simps Let_def split: bind_splits if_splits)
  have "poll_frame_received (call_receive tp) ?s2 = Some ?s4"
    using st m2(2) rec
    by (simp add: poll_frame_received_def call_receive_def frame_receive_def in_buffer_def mb_static_def)
  then have poll: "eMBPoll tp usr s2 = Some (MB_ENOERR, ?s4)"
    using st m2(2) ev by (simp add: eMBPoll_def xMBPortEventGet_def mb_static_def)
  have "take (length pdu) (drop 1 (ucRTUBuf s2)) =
      take (length pdu) (drop 1 (take (length ?adu) (ucRTUBuf s2)))"
    by (simp add: drop_take)
  also have "\<dots> = pdu" unfolding run(7) by (simp add: rtu_adu_def Let_def)
  finally have buf: "take (length pdu) (drop 1 (ucRTUBuf s2)) = pdu" .
  have "mb_static ?s4 = mb_static s" "mb_regs ?s4 = mb_regs s" "mb_idle ?s4"
    using m2 run idle rtu_pointers_static [of ?s4 s]
    by (auto simp: mb_static_def mb_work_def mb_idle_def port_simps rx_on_def)
  then show ?thesis
    using m1(1) m2(1) poll buf run(8)
    by (intro exI [of _ s1] exI [of _ s2] exI [of _ ?s4])
      (auto simp: port_simps exec_pending_def)
qed

lemma request_in_buffer:
  assumes "drop 1 buf = pdu @ rest" "unat n = length pdu" "pdu \<noteq> []"
  shows "request_overruns t (buf ! 1) (drop 1 buf) n = request_overruns t (pdu ! 0) pdu n"
proof -
  have "drop 1 buf ! 0 = pdu ! 0" unfolding assms(1) using assms(3) by (simp add: nth_append)
  moreover have "1 \<le> length buf" using assms(1,3) by (cases buf) auto
  ultimately have "buf ! 1 = pdu ! 0" by simp
  then show ?thesis
    unfolding request_overruns_def assms(1) by (simp add: overruns_append assms(2) split: option.split)
qed

text \<open>The second poll: the handler runs and the answer is sent, or nothing for a broadcast.\<close>

lemma mb_request_executed:
  assumes idle: "mb_idle s" and ev: "exec_pending s" "frame_known 253 s"
    and usr: "\<And>k. handler_ok (usr k)"
    and fits: "\<not> request_overruns (xFuncHandlers s) (ucRTUBuf s ! 1) (drop 1 (ucRTUBuf s)) (usLength s)"
  defines "ans \<equiv> mb_answer usr (xFuncHandlers s) (drop 1 (ucRTUBuf s)) (usLength s) (mb_regs s)"
  shows "\<exists>s1. eMBPoll tp usr s = Some (MB_ENOERR, s1) \<and> mb_static s1 = mb_static s \<and>
    mb_regs s1 = snd ans \<and>
    (if ucRcvAddress s = 0 then usart_tx s1 = usart_tx s \<and> eSndState s1 = eSndState s \<and> mb_idle s1
     else length (fst ans) \<le> 253 \<and> (\<exists>s2. iter_opt (length (fst ans) + 3) mb_tx s1 = Some s2 \<and> mb_idle s2 \<and>
       mb_static s2 = mb_static s \<and> mb_regs s2 = snd ans \<and>
       usart_tx s2 = usart_tx s @ rtu_adu (ucMBAddress s) (fst ans)))"
proof -
  let ?s = "s\<lparr>xEventInQueue := False\<rparr>"
  have pok: "poll_ok 253 ?s" "frame_known 253 ?s" "length (ucRTUBuf ?s) = 256"
    using idle ev by (auto simp: poll_ok_def mb_idle_def frame_known_def)
  have ans: "mb_answer usr (xFuncHandlers ?s) (drop 1 (ucRTUBuf ?s)) (usLength ?s) (mb_regs ?s) = ans"
    by (simp add: ans_def)
  obtain f n where r: "length f = 255" "1 \<le> unat n" "unat n \<le> 253" "regs_wf (snd ans)"
      "ucRcvAddress s \<noteq> 0 \<longrightarrow> take (unat n) f = fst ans"
      "poll_execute usr (call_send tp) ?s =
        (let s' = replied ?s (ucRTUBuf ?s ! 1) f n (snd ans) in
         if ucRcvAddress ?s \<noteq> 0 then map_option snd (call_send tp (ucMBAddress ?s) (RTU_BUF 1) n s')
         else Some s')"
    using poll_execute_run [where usr = usr and send = "call_send tp", OF pok usr] fits unfolding ans
    by auto
  let ?r = "replied ?s (ucRTUBuf ?s ! 1) f n (snd ans)"
  have poll: "eMBPoll tp usr s = map_option (\<lambda>s. (MB_ENOERR, s)) (poll_execute usr (call_send tp) ?s)"
    using idle ev(1) by (simp add: eMBPoll_def xMBPortEventGet_def mb_idle_def exec_pending_def
        map_conv_bind_option comp_def)
  have st: "mb_static ?r = mb_static s" by simp
  have cb: "rtu_callbacks s" "peMBFrameSendCur s = Some L_RTU" "rx_on s" "eRcvState s = STATE_RX_IDLE"
    using idle by (simp_all add: mb_idle_def rtu_pointers_def)
  show ?thesis
  proof (cases "ucRcvAddress s = 0")
    case True
    have "mb_idle ?r"
      using idle r(1,4) rtu_pointers_static [OF st]
      by (auto simp: mb_idle_def replied_def rx_on_def)
    then show ?thesis
      using True r(6) poll st by (simp add: replied_def)
  next
    case False
    let ?resp = "fst ans"
    have take: "take (unat n) f = ?resp" using r(5) False by simp
    have "length (take (unat n) f) = unat n" using r(1,3) by simp
    then have len: "length ?resp = unat n" "take (unat n) f = ?resp" using take by simp_all
    have rr: "eRcvState ?r = STATE_RX_IDLE" "length (ucRTUBuf ?r) = 256" "\<not> usart_eie ?r" "\<not> usart_rxne ?r"
      using cb idle r(1) by (simp_all add: rx_on_def mb_idle_def)
    have drop: "take (unat n) (drop 1 (ucRTUBuf ?r)) = ?resp"
      using idle r(1) len by (simp add: mb_idle_def)
    obtain s1 s2 where send: "eMBRTUSend (ucMBAddress s) 1 n ?r = Some (MB_ENOERR, s1)"
        "iter_opt (unat n + 3) rtu_tx s1 = Some s2"
        "usart_tx s2 = usart_tx s @ rtu_adu (ucMBAddress s) ?resp"
        "eRcvState s2 = STATE_RX_IDLE" "rx_on s2" "length (ucRTUBuf s2) = 256"
      using rtu_send_run [OF rr(1,2) r(3) rr(3,4), of "ucMBAddress s"] drop by auto
    have s1: "mb_static s1 = mb_static s" "mb_regs s1 = snd ans"
      using send(1) eMBRTUSend_idle [OF rr(1,2) r(3), of "ucMBAddress s"]
      by (auto simp: replied_def mb_static_def)
    have tx: "iter_opt (unat n + 3) mb_tx s1 = Some s2" "mb_static s2 = mb_static s" "mb_regs s2 = snd ans"
      using mb_tx_many [OF _ send(2)] rtu_callbacks_static [OF s1(1)] cb(1) s1
      by (simp_all add: mb_work_def)
    have "mb_idle s2"
      using idle send(4-6) tx(2,3) r(4) rtu_pointers_static [OF tx(2)]
      by (auto simp: mb_idle_def mb_static_def)
    moreover have "eMBPoll tp usr s = Some (MB_ENOERR, s1)"
      using poll r(6) False send(1) cb(2)
      by (simp add: Let_def call_send_def frame_send_def replied_def)
    ultimately show ?thesis
      using False s1 tx send(3) len(1) r(3) by simp
  qed
qed

section \<open>Properties\<close>


lemma find_handler_unused: "find_handler (replicate n (0, None)) fc = None"
  by (cases n) simp_all

text \<open>A concrete state and application handler for the witnesses.\<close>

definition refuse :: "nat \<Rightarrow> handler" where
  "refuse k f l r = Some (MB_EX_SLAVE_DEVICE_FAILURE, f, l, r)"

lemma refuse_ok: "handler_ok (refuse k)"
  by (rule handler_okI) (simp add: refuse_def le_max_iff_disj)

definition mb_demo :: "unit mb" where
  "mb_demo = tcp.extend (ascii.extend (ascii_idle_state (replicate 256 0)) \<lparr>tcp_world = (), tcp_frame = []\<rparr>)
     \<lparr>ucMBAddress = 1, eMBCurrentMode = MB_RTU, eMBState = STATE_ENABLED,
      peMBFrameSendCur = Some L_RTU, pvMBFrameStartCur = Some L_RTU, pvMBFrameStopCur = Some L_RTU,
      peMBFrameReceiveCur = Some L_RTU, pxMBFrameCBByteReceived = Some L_RTU,
      pxMBFrameCBTransmitterEmpty = Some L_RTU, pxMBPortCBTimerExpired = Some L_RTU,
      xFuncHandlers = xFuncHandlers_init, ucMBFrame = None, ucRcvAddress = 0,
      ucFunctionCode = 0, usLength = 0, mb_regs = mbregs_init\<rparr>"

lemmas mb_demo_simps =
  mb_demo_def tcp.defs ascii.defs rtu.defs ascii_idle_state_def rtu_idle_state_def

lemma mb_demo_idle: "mb_idle mb_demo"
  by (simp add: mb_idle_def mb_demo_simps rtu_pointers_def rtu_callbacks_def rx_on_def regs_wf_init
      table_ok_init)




text \<open>
  A broadcast (not one of \<open>request_overruns\<close>) is executed in silence: a frame to address 0 reaches the handler, the
  registers are those the handler leaves, nothing is put on the line, and the stack is idle
  after the two polls.
\<close>

theorem mb_broadcast:
  assumes "mb_idle s" and "pdu \<noteq> []" and "length pdu \<le> 253" and "\<And>k. handler_ok (usr k)"
    and "\<not> request_overruns (xFuncHandlers s) (pdu ! 0) pdu (of_nat (length pdu))"
  shows "\<exists>s1 s2 s3 s4 rest. fold_opt mb_rx (rtu_adu 0 pdu) s = Some s1 \<and>
    mb_silence s1 = Some s2 \<and> eMBPoll tp usr s2 = Some (MB_ENOERR, s3) \<and>
    eMBPoll tp usr s3 = Some (MB_ENOERR, s4) \<and> length (pdu @ rest) = 255 \<and>
    mb_regs s4 = snd (mb_answer usr (xFuncHandlers s) (pdu @ rest) (of_nat (length pdu)) (mb_regs s)) \<and>
    usart_tx s4 = usart_tx s \<and> mb_idle s4"
proof -
  obtain s1 s2 s3 where rx: "fold_opt mb_rx (rtu_adu 0 pdu) s = Some s1" "mb_silence s1 = Some s2"
      "eMBPoll tp usr s2 = Some (MB_ENOERR, s3)" "mb_idle s3" "mb_static s3 = mb_static s"
      "mb_regs s3 = mb_regs s" "usart_tx s3 = usart_tx s" "ucRcvAddress s3 = 0"
      "ucMBFrame s3 = Some (RTU_BUF 1)" "usLength s3 = of_nat (length pdu)"
      "take (length pdu) (drop 1 (ucRTUBuf s3)) = pdu" "exec_pending s3"
    using mb_request_received [OF assms(1-3), of 0 tp usr] by auto
  let ?rest = "drop (length pdu) (drop 1 (ucRTUBuf s3))"
  have mem: "drop 1 (ucRTUBuf s3) = pdu @ ?rest"
    using append_take_drop_id [of "length pdu" "drop 1 (ucRTUBuf s3)"] rx(11) by simp
  have "length (drop 1 (ucRTUBuf s3)) = 255" using rx(4) by (simp add: mb_idle_def)
  then have len: "length (pdu @ ?rest) = 255" by (simp only: mem [symmetric])
  have n: "unat (of_nat (length pdu) :: USHORT) = length pdu"
    using assms(3) by (subst unat_of_nat) simp
  then have fk: "frame_known 253 s3"
    using rx(9,10) assms(2,3) by (cases pdu) (simp_all add: frame_known_def)
  have fits: "\<not> request_overruns (xFuncHandlers s3) (ucRTUBuf s3 ! 1) (drop 1 (ucRTUBuf s3)) (usLength s3)"
    using request_in_buffer [OF mem n assms(2)] assms(5) rx(4,5,10) by (simp add: mb_static_def mb_idle_def)
  have ans: "mb_answer usr (xFuncHandlers s3) (drop 1 (ucRTUBuf s3)) (usLength s3) (mb_regs s3) =
      mb_answer usr (xFuncHandlers s) (pdu @ ?rest) (of_nat (length pdu)) (mb_regs s)"
    using rx(5,6,10) mem by (simp add: mb_static_def)
  obtain s4 where tx: "eMBPoll tp usr s3 = Some (MB_ENOERR, s4)" "usart_tx s4 = usart_tx s3" "mb_idle s4"
      "mb_regs s4 = snd (mb_answer usr (xFuncHandlers s) (pdu @ ?rest) (of_nat (length pdu)) (mb_regs s))"
    using mb_request_executed [where usr = usr and tp = tp, OF rx(4,12) fk assms(4) fits] rx(8)
    unfolding ans by auto
  show ?thesis
    using rx(1-3,7) tx len
    by (intro exI [of _ s1] exI [of _ s2] exI [of _ s3] exI [of _ s4] exI [of _ ?rest]) simp
qed

theorem mb_broadcast_witness:
  "\<exists>s1 s2 s3 s4. fold_opt mb_rx (rtu_adu 0 [0x2B]) mb_demo = Some s1 \<and> mb_silence s1 = Some s2 \<and>
    eMBPoll undefined refuse s2 = Some (MB_ENOERR, s3) \<and>
    eMBPoll undefined refuse s3 = Some (MB_ENOERR, s4) \<and> usart_tx s4 = []"
proof -
  have "usart_tx mb_demo = []" by (simp add: mb_demo_simps)
  moreover have "\<not> request_overruns (xFuncHandlers mb_demo) 0x2B [0x2B] n" for n
    by (simp add: mb_demo_simps request_overruns_def xFuncHandlers_init_def find_handler_unused)
  ultimately show ?thesis
    using mb_broadcast [where usr = refuse, OF mb_demo_idle, of "[0x2B]" undefined] refuse_ok by auto
qed

text \<open>
  A frame for another slave is ignored: after its reception and the poll that looks at it,
  no event is queued, further polls do nothing, registers and line are untouched, and the
  stack is idle.
\<close>

theorem mb_other_address:
  assumes "mb_idle s" and "pdu \<noteq> []" and "length pdu \<le> 253" and "addr \<noteq> ucMBAddress s"
    and "addr \<noteq> 0"
  shows "\<exists>s1 s2 s3. fold_opt mb_rx (rtu_adu addr pdu) s = Some s1 \<and> mb_silence s1 = Some s2 \<and>
    eMBPoll tp usr s2 = Some (MB_ENOERR, s3) \<and> eMBPoll tp usr s3 = Some (MB_ENOERR, s3) \<and>
    mb_regs s3 = mb_regs s \<and> usart_tx s3 = usart_tx s \<and> mb_idle s3"
proof -
  obtain s1 s2 s3 where rx: "fold_opt mb_rx (rtu_adu addr pdu) s = Some s1" "mb_silence s1 = Some s2"
      "eMBPoll tp usr s2 = Some (MB_ENOERR, s3)" "mb_idle s3" "mb_regs s3 = mb_regs s"
      "usart_tx s3 = usart_tx s" "\<not> xEventInQueue s3"
    using mb_request_received [OF assms(1-3), of addr tp usr] assms(4,5) by auto
  then have "eMBPoll tp usr s3 = Some (MB_ENOERR, s3)"
    by (simp add: eMBPoll_def xMBPortEventGet_def mb_idle_def)
  with rx show ?thesis by blast
qed

theorem mb_other_address_witness:
  "\<exists>s1 s2 s3. fold_opt mb_rx (rtu_adu 2 [6, 0, 0, 0, 9]) mb_demo = Some s1 \<and> mb_silence s1 = Some s2 \<and>
    eMBPoll undefined refuse s2 = Some (MB_ENOERR, s3) \<and> mb_regs s3 = mbregs_init"
proof -
  have "ucMBAddress mb_demo = 1" "mb_regs mb_demo = mbregs_init"
    by (simp_all add: mb_demo_simps)
  then show ?thesis
    using mb_other_address [OF mb_demo_idle, of "[6, 0, 0, 0, 9]" 2 undefined refuse] by auto
qed

lemma eMBRTUInit_some:
  assumes "baud \<noteq> 0"
  shows "\<exists>arr. eMBRTUInit a p baud par s = Some (MB_ENOERR, s\<lparr>usart_baud := baud,
      usart_tx := usart_tx s @ [0xFF], usart_tc := True, tim_psc := 4199, tim_arr := arr,
      tim_cnt := 0, tim_uif := True, tim_uie := True, tim_cen := True, primask := False\<rparr>)"
proof (cases "baud > 19200")
  case False
  then have "unat baud \<le> 19200" by (simp add: word_less_nat_alt)
  then have "unat (2 * baud) = 2 * unat baud" by (simp add: unat_word_ariths)
  moreover have "unat baud \<noteq> 0" using assms by (simp add: unat_eq_0)
  ultimately have "2 * baud \<noteq> 0" by (metis mult_eq_0_iff unat_0 zero_neq_numeral)
  with False show ?thesis
    by (intro exI [of _ "ucast (ucast (1540000 div (2 * baud)) :: USHORT) - 1"])
      (simp add: eMBRTUInit_def port_simps)
qed (simp add: eMBRTUInit_def port_simps, intro exI [of _ 34], simp)

text \<open>
  C19. Start-up: from reset, \<open>eMBInit\<close> in RTU mode with a slave address from 1 to 247 and a
  baud rate other than 0, then \<open>eMBEnable\<close>, t3.5 of silence and one poll bring the stack into
  the idle state in which it answers requests.
\<close>

theorem mb_startup:
  assumes "mb_reset s" and "\<not> usart_rxne s" and "1 \<le> a" and "a \<le> 247" and "baud \<noteq> 0"
  shows "\<exists>s1 s2 s3 s4. eMBInit mbconfig_h MB_RTU a p baud par s = Some (MB_ENOERR, s1) \<and>
    eMBEnable s1 = Some (MB_ENOERR, s2) \<and> mb_silence s2 = Some s3 \<and>
    eMBPoll tp usr s3 = Some (MB_ENOERR, s4) \<and> mb_idle s4 \<and> ucMBAddress s4 = a"
proof -
  let ?s0 = "set_layer L_RTU (s\<lparr>ucMBAddress := a\<rparr>)"
  obtain arr where rtu: "eMBRTUInit a p baud par ?s0 = Some (MB_ENOERR, ?s0\<lparr>usart_baud := baud,
      usart_tx := usart_tx ?s0 @ [0xFF], usart_tc := True, tim_psc := 4199, tim_arr := arr,
      tim_cnt := 0, tim_uif := True, tim_uie := True, tim_cen := True, primask := False\<rparr>)"
    using eMBRTUInit_some [OF assms(5), of a p par ?s0] by blast
  have a: "\<not> (a = 0 \<or> a < 1 \<or> 247 < a)" using assms(3,4) by auto
  let ?s1 = "?s0\<lparr>usart_baud := baud,
      usart_tx := usart_tx ?s0 @ [0xFF], usart_tc := True, tim_psc := 4199, tim_arr := arr,
      tim_cnt := 0, tim_uif := True, tim_uie := True, tim_cen := True, primask := False\<rparr>
      \<lparr>xEventInQueue := False, eMBCurrentMode := MB_RTU, eMBState := STATE_DISABLED\<rparr>"
  have i: "eMBInit mbconfig_h MB_RTU a p baud par s = Some (MB_ENOERR, ?s1)"
    using rtu a by (simp add: eMBInit_def mbconfig_h_def xMBPortEventInit_def Let_def)
  let ?s2 = "(eMBRTUStart ?s1)\<lparr>eMBState := STATE_ENABLED\<rparr>"
  have e: "eMBEnable ?s1 = Some (MB_ENOERR, ?s2)"
    by (simp add: eMBEnable_def frame_start_def set_layer_def)
  have cb: "rtu_callbacks ?s2"
    by (simp add: rtu_callbacks_def eMBRTUStart_def port_simps Let_def set_layer_def)
  have "tim_cen ?s2" "tim_uie ?s2" "eRcvState ?s2 = STATE_RX_INIT"
    by (simp_all add: eMBRTUStart_def port_simps Let_def)
  then have q: "mb_silence ?s2 = Some (snd (xMBPortEventPost EV_READY
      (vMBPortTimersDisable (?s2\<lparr>eRcvState := STATE_RX_IDLE\<rparr>))))"
    using mb_lift_rtu(3) [OF cb] by (simp add: rtu_silence_step Let_def)
  let ?s3 = "snd (xMBPortEventPost EV_READY (vMBPortTimersDisable (?s2\<lparr>eRcvState := STATE_RX_IDLE\<rparr>)))"
  have poll: "eMBPoll tp usr ?s3 = Some (MB_ENOERR, ?s3\<lparr>xEventInQueue := False\<rparr>)"
    by (simp add: eMBPoll_def xMBPortEventGet_def port_simps)
  have "mb_idle (?s3\<lparr>xEventInQueue := False\<rparr>)" "ucMBAddress (?s3\<lparr>xEventInQueue := False\<rparr>) = a"
    using assms(1,2)
    by (simp_all add: mb_idle_def mb_reset_def rtu_reset_def port_simps eMBRTUStart_def Let_def
        set_layer_def rtu_pointers_def rtu_callbacks_def rx_on_def table_ok_init)
  with i e q poll show ?thesis by blast
qed

theorem mb_startup_witness:
  "\<exists>s1 s2 s3 s4. eMBInit mbconfig_h MB_RTU 1 0 9600 MB_PAR_NONE (mb_demo\<lparr>eMBState := STATE_NOT_INITIALIZED,
      eRcvState := STATE_RX_INIT, usart_rxneie := False\<rparr>) = Some (MB_ENOERR, s1) \<and>
    eMBEnable s1 = Some (MB_ENOERR, s2) \<and> mb_silence s2 = Some s3 \<and>
    eMBPoll undefined refuse s3 = Some (MB_ENOERR, s4) \<and> mb_idle s4"
  using mb_startup [of "mb_demo\<lparr>eMBState := STATE_NOT_INITIALIZED, eRcvState := STATE_RX_INIT,
      usart_rxneie := False\<rparr>" 1 9600 0 MB_PAR_NONE undefined refuse]
  by (force simp: mb_reset_def rtu_reset_def mb_demo_simps regs_wf_init)

text \<open>
  Registering a handler: with a free entry behind entries that are all in use,
  \<open>eMBRegisterCB\<close> accepts a new handler for a code from 1 to 127; a code of the entries before
  keeps its old handler (registering the code again does not replace it), the new code is
  served by the new handler, and all other codes are served as the rest of the table says.
\<close>

theorem eMBRegisterCB_register:
  assumes "xFuncHandlers s = xs @ (0, None) # ys" and "1 \<le> fc" and "fc \<le> 127"
    and "list_all (\<lambda>(c, p). c \<noteq> 0 \<and> p \<noteq> None \<and> p \<noteq> Some h) xs"
  shows "\<exists>s'. eMBRegisterCB fc (Some h) s = (MB_ENOERR, s') \<and>
    (\<forall>c. find_handler (xFuncHandlers s') c =
      (case find_handler xs c of Some p \<Rightarrow> Some p
       | None \<Rightarrow> if c = fc then Some (Some h) else find_handler ys c))"
proof -
  have nz: "fc \<noteq> 0" using assms(2) by auto
  have "register_loop fc h (xs @ (0, None) # ys) = Some (xs @ (fc, Some h) # ys)"
    using assms(4) by (induction xs) (auto split: if_splits)
  moreover have "find_handler (xs @ (fc, Some h) # ys) c =
      (case find_handler xs c of Some p \<Rightarrow> Some p
       | None \<Rightarrow> if c = fc then Some (Some h) else find_handler ys c)" for c
    using assms(4) nz by (induction xs) (auto split: option.splits)
  ultimately show ?thesis
    using assms(1-3) nz by (simp add: eMBRegisterCB_def port_simps word_neq_0_conv [symmetric])
qed

theorem eMBRegisterCB_register_witness:
  "\<exists>s'. eMBRegisterCB 3 (Some (H_User 0)) mb_demo = (MB_ENOERR, s') \<and>
     find_handler (xFuncHandlers s') 3 = Some (Some H_ReadHoldingRegister)"
proof -
  have "xFuncHandlers mb_demo = take 10 xFuncHandlers_init @ (0, None) # replicate 5 (0, None)"
    by (simp add: mb_demo_simps xFuncHandlers_init_def numeral_eq_Suc)
  moreover have "find_handler (take 10 xFuncHandlers_init) 3 = Some (Some H_ReadHoldingRegister)"
    by (simp add: xFuncHandlers_init_def)
  moreover have "list_all (\<lambda>(c, p). c \<noteq> 0 \<and> p \<noteq> None \<and> p \<noteq> Some (H_User 0)) (take 10 xFuncHandlers_init)"
    by (simp add: xFuncHandlers_init_def)
  ultimately show ?thesis
    using eMBRegisterCB_register [of mb_demo "take 10 xFuncHandlers_init" "replicate 5 (0, None)" 3 "H_User 0"]
    by auto
qed

text \<open>
  Removing a handler hides those behind it: after \<open>eMBRegisterCB\<close> has removed the entry of
  a code, only the entries before it are found; every code whose entry lies behind it in the
  table is answered as an illegal function.
\<close>

theorem eMBRegisterCB_remove_hides:
  assumes "xFuncHandlers s = xs @ (fc, h) # ys" and "1 \<le> fc" and "fc \<le> 127"
    and "list_all (\<lambda>(c, p). c \<noteq> fc \<and> c \<noteq> 0) xs"
  shows "\<exists>s'. eMBRegisterCB fc None s = (MB_ENOERR, s') \<and>
    (\<forall>c. find_handler (xFuncHandlers s') c = find_handler xs c)"
proof -
  have nz: "fc \<noteq> 0" using assms(2) by auto
  have "remove_loop fc (xs @ (fc, h) # ys) = xs @ (0, None) # ys"
    using assms(4) by (induction xs) auto
  moreover have "find_handler (xs @ (0, None) # ys) c = find_handler xs c" for c
    using assms(4) by (induction xs) auto
  ultimately show ?thesis
    using assms(1-3) nz by (simp add: eMBRegisterCB_def port_simps word_neq_0_conv [symmetric])
qed

theorem eMBRegisterCB_remove_hides_witness:
  "\<exists>s'. eMBRegisterCB 17 None mb_demo = (MB_ENOERR, s') \<and> find_handler (xFuncHandlers s') 3 = None"
proof -
  have "xFuncHandlers mb_demo = [] @ (17, Some H_ReportSlaveID) # tl xFuncHandlers_init"
    by (simp add: mb_demo_simps xFuncHandlers_init_def)
  then show ?thesis using eMBRegisterCB_remove_hides [of mb_demo "[]" 17] by fastforce
qed

text \<open>
  A failed \<open>eMBTCPInit\<close> leaves the stack in the disabled state although no function
  pointer is set: \<open>eMBEnable\<close> then accepts the call and calls a NULL pointer.
\<close>

theorem eMBTCPInit_failure:
  assumes "fst (xMBTCPPortInit tp port (tcp_world s)) = False" and "pvMBFrameStartCur s = None"
  shows "\<exists>s'. eMBTCPInit tp port s = (MB_EPORTERR, s') \<and> eMBState s' = STATE_DISABLED \<and>
    eMBEnable s' = None"
  using assms by (auto simp: eMBTCPInit_def eMBTCPDoInit_def eMBEnable_def split: prod.splits)

theorem eMBTCPInit_failure_witness:
  "\<exists>s'. eMBTCPInit \<lparr>xMBTCPPortInit = \<lambda>p w. (False, w), vMBTCPPortDisable = id,
      xMBTCPPortGetRequest = \<lambda>w. (None, w), xMBTCPPortSendResponse = \<lambda>b n w. (False, w)\<rparr> 502
      (mb_demo\<lparr>pvMBFrameStartCur := None\<rparr>) = (MB_EPORTERR, s') \<and> eMBEnable s' = None"
  using eMBTCPInit_failure [of "\<lparr>xMBTCPPortInit = \<lambda>p w. (False, w), vMBTCPPortDisable = id,
      xMBTCPPortGetRequest = \<lambda>w. (None, w), xMBTCPPortSendResponse = \<lambda>b n w. (False, w)\<rparr>" 502
      "mb_demo\<lparr>pvMBFrameStartCur := None\<rparr>"] by force

end
