(* ===== verification/FRList.thy ===== *)
theory FRList
  imports CPrelude "HOL-Library.Multiset"
begin

text \<open>
  The doubly linked, circular lists of the kernel (\<open>FreeRTOS/Source/list.c\<close> and the access
  macros of \<open>include/list.h\<close>), configured as in \<open>FreeRTOSConfig.h\<close>: 32-bit ticks, mini list
  items for the end marker, no integrity bytes.  Every struct member is a function from the
  objects that have it, updated pointwise; a pointer to a list item is either the end marker
  embedded in a list or an item of its own.  The lemmas relate the pointer structure to the
  sequence of its items (\<open>list_view\<close>) and show that each operation is the expected operation
  on that sequence and leaves all other lists alone.
\<close>

section \<open>Data\<close>

datatype ('l, 'i) ListPtr = ListEnd 'l | ListItem 'i

definition portMAX_DELAY :: "32 word" where
  "portMAX_DELAY = 0xffffffff"

lemma portMAX_DELAY_max [simp]: "v \<le> portMAX_DELAY"
proof -
  have "portMAX_DELAY = - 1" by (simp add: portMAX_DELAY_def)
  show ?thesis unfolding \<open>portMAX_DELAY = - 1\<close> by (rule word_order.extremum)
qed

lemma less_portMAX_DELAY: "v < portMAX_DELAY \<longleftrightarrow> v \<noteq> portMAX_DELAY"
  by (simp add: less_le)

record ('l, 'i) list_heap =
  xItemValue :: "('l, 'i) ListPtr \<Rightarrow> 32 word"
  pxNext :: "('l, 'i) ListPtr \<Rightarrow> ('l, 'i) ListPtr"
  pxPrevious :: "('l, 'i) ListPtr \<Rightarrow> ('l, 'i) ListPtr"
  pvOwner :: "'i \<Rightarrow> nat"
  pxContainer :: "'i \<Rightarrow> 'l option"
  uxNumberOfItems :: "'l \<Rightarrow> 32 word"
  pxIndex :: "'l \<Rightarrow> ('l, 'i) ListPtr"

abbreviation set_next where
  "set_next p q h \<equiv> h\<lparr>pxNext := (pxNext h)(p := q)\<rparr>"

abbreviation set_prev where
  "set_prev p q h \<equiv> h\<lparr>pxPrevious := (pxPrevious h)(p := q)\<rparr>"

section \<open>Operations\<close>

definition vListInitialise :: "'l \<Rightarrow> ('l, 'i, 'm) list_heap_scheme \<Rightarrow> ('l, 'i, 'm) list_heap_scheme" where
  "vListInitialise l h =
     (let h1 = h\<lparr>pxIndex := (pxIndex h)(l := ListEnd l)\<rparr>;
          h2 = h1\<lparr>xItemValue := (xItemValue h1)(ListEnd l := portMAX_DELAY)\<rparr>;
          h3 = set_next (ListEnd l) (ListEnd l) h2;
          h4 = set_prev (ListEnd l) (ListEnd l) h3
      in h4\<lparr>uxNumberOfItems := (uxNumberOfItems h4)(l := 0)\<rparr>)"

definition vListInitialiseItem :: "'i \<Rightarrow> ('l, 'i, 'm) list_heap_scheme \<Rightarrow> ('l, 'i, 'm) list_heap_scheme" where
  "vListInitialiseItem i h = h\<lparr>pxContainer := (pxContainer h)(i := None)\<rparr>"

definition vListInsertEnd :: "'l \<Rightarrow> 'i \<Rightarrow> ('l, 'i, 'm) list_heap_scheme \<Rightarrow> ('l, 'i, 'm) list_heap_scheme" where
  "vListInsertEnd l i h =
     (let idx = pxIndex h l;
          h1 = set_next (ListItem i) idx h;
          h2 = set_prev (ListItem i) (pxPrevious h1 idx) h1;
          h3 = set_next (pxPrevious h2 idx) (ListItem i) h2;
          h4 = set_prev idx (ListItem i) h3;
          h5 = h4\<lparr>pxContainer := (pxContainer h4)(i := Some l)\<rparr>
      in h5\<lparr>uxNumberOfItems := (uxNumberOfItems h5)(l := uxNumberOfItems h5 l + 1)\<rparr>)"

text \<open>The search of \<open>vListInsert\<close>: the code has no bound, so not returning is None.\<close>

partial_function (option) insert_walk ::
    "('l, 'i, 'm) list_heap_scheme \<Rightarrow> 32 word \<Rightarrow> ('l, 'i) ListPtr \<Rightarrow> ('l, 'i) ListPtr option" where
  "insert_walk h v p =
     (if xItemValue h (pxNext h p) \<le> v then insert_walk h v (pxNext h p) else Some p)"

definition insert_position :: "'l \<Rightarrow> 'i \<Rightarrow> ('l, 'i, 'm) list_heap_scheme \<Rightarrow> ('l, 'i) ListPtr option" where
  "insert_position l i h =
     (let v = xItemValue h (ListItem i)
      in if v = portMAX_DELAY then Some (pxPrevious h (ListEnd l))
         else insert_walk h v (ListEnd l))"

definition vListInsert :: "'l \<Rightarrow> 'i \<Rightarrow> ('l, 'i, 'm) list_heap_scheme \<Rightarrow> ('l, 'i, 'm) list_heap_scheme option" where
  "vListInsert l i h =
     do { p \<leftarrow> insert_position l i h;
          let h1 = set_next (ListItem i) (pxNext h p) h;
          let h2 = set_prev (pxNext h1 (ListItem i)) (ListItem i) h1;
          let h3 = set_prev (ListItem i) p h2;
          let h4 = set_next p (ListItem i) h3;
          let h5 = h4\<lparr>pxContainer := (pxContainer h4)(i := Some l)\<rparr>;
          Some (h5\<lparr>uxNumberOfItems := (uxNumberOfItems h5)(l := uxNumberOfItems h5 l + 1)\<rparr>) }"

text \<open>An item that is on no list has a NULL container: the code then dereferences it.\<close>

definition uxListRemove ::
    "'i \<Rightarrow> ('l, 'i, 'm) list_heap_scheme \<Rightarrow> (32 word \<times> ('l, 'i, 'm) list_heap_scheme) option" where
  "uxListRemove i h =
     (case pxContainer h i of
        None \<Rightarrow> None
      | Some l \<Rightarrow>
          let h1 = set_prev (pxNext h (ListItem i)) (pxPrevious h (ListItem i)) h;
              h2 = set_next (pxPrevious h1 (ListItem i)) (pxNext h1 (ListItem i)) h1;
              h3 = (if pxIndex h2 l = ListItem i
                    then h2\<lparr>pxIndex := (pxIndex h2)(l := pxPrevious h2 (ListItem i))\<rparr> else h2);
              h4 = h3\<lparr>pxContainer := (pxContainer h3)(i := None)\<rparr>;
              h5 = h4\<lparr>uxNumberOfItems := (uxNumberOfItems h4)(l := uxNumberOfItems h4 l - 1)\<rparr>
          in Some (uxNumberOfItems h5 l, h5))"

text \<open>The access macros of \<open>list.h\<close>.  The end marker has no owner, so asking for the next
  owner of an empty list is an access outside the object.\<close>

definition listGET_OWNER_OF_NEXT_ENTRY ::
    "'l \<Rightarrow> ('l, 'i, 'm) list_heap_scheme \<Rightarrow> (nat \<times> ('l, 'i, 'm) list_heap_scheme) option" where
  "listGET_OWNER_OF_NEXT_ENTRY l h =
     (let h1 = h\<lparr>pxIndex := (pxIndex h)(l := pxNext h (pxIndex h l))\<rparr>;
          h2 = (if pxIndex h1 l = ListEnd l
                then h1\<lparr>pxIndex := (pxIndex h1)(l := pxNext h1 (pxIndex h1 l))\<rparr> else h1)
      in case pxIndex h2 l of ListItem i \<Rightarrow> Some (pvOwner h2 i, h2) | ListEnd _ \<Rightarrow> None)"

definition listLIST_IS_EMPTY :: "'l \<Rightarrow> ('l, 'i, 'm) list_heap_scheme \<Rightarrow> bool" where
  "listLIST_IS_EMPTY l h \<longleftrightarrow> uxNumberOfItems h l = 0"

definition listCURRENT_LIST_LENGTH :: "'l \<Rightarrow> ('l, 'i, 'm) list_heap_scheme \<Rightarrow> 32 word" where
  "listCURRENT_LIST_LENGTH l h = uxNumberOfItems h l"

definition listGET_HEAD_ENTRY :: "'l \<Rightarrow> ('l, 'i, 'm) list_heap_scheme \<Rightarrow> ('l, 'i) ListPtr" where
  "listGET_HEAD_ENTRY l h = pxNext h (ListEnd l)"

definition listGET_OWNER_OF_HEAD_ENTRY :: "'l \<Rightarrow> ('l, 'i, 'm) list_heap_scheme \<Rightarrow> nat option" where
  "listGET_OWNER_OF_HEAD_ENTRY l h =
     (case pxNext h (ListEnd l) of ListItem i \<Rightarrow> Some (pvOwner h i) | ListEnd _ \<Rightarrow> None)"

definition listGET_ITEM_VALUE_OF_HEAD_ENTRY :: "'l \<Rightarrow> ('l, 'i, 'm) list_heap_scheme \<Rightarrow> 32 word" where
  "listGET_ITEM_VALUE_OF_HEAD_ENTRY l h = xItemValue h (pxNext h (ListEnd l))"

definition listSET_LIST_ITEM_VALUE :: "'i \<Rightarrow> 32 word \<Rightarrow> ('l, 'i, 'm) list_heap_scheme \<Rightarrow> ('l, 'i, 'm) list_heap_scheme" where
  "listSET_LIST_ITEM_VALUE i v h = h\<lparr>xItemValue := (xItemValue h)(ListItem i := v)\<rparr>"

definition listSET_LIST_ITEM_OWNER :: "'i \<Rightarrow> nat \<Rightarrow> ('l, 'i, 'm) list_heap_scheme \<Rightarrow> ('l, 'i, 'm) list_heap_scheme" where
  "listSET_LIST_ITEM_OWNER i v h = h\<lparr>pvOwner := (pvOwner h)(i := v)\<rparr>"

section \<open>Doubly linked segments\<close>

text \<open>Adjacent pointers of \<open>ps\<close> point at each other.\<close>

abbreviation (input) link :: "('p \<Rightarrow> 'p) \<Rightarrow> ('p \<Rightarrow> 'p) \<Rightarrow> 'p \<Rightarrow> 'p \<Rightarrow> bool" where
  "link nx pv p q \<equiv> nx p = q \<and> pv q = p"

abbreviation linked :: "('p \<Rightarrow> 'p) \<Rightarrow> ('p \<Rightarrow> 'p) \<Rightarrow> 'p list \<Rightarrow> bool" where
  "linked nx pv \<equiv> successively (link nx pv)"

lemma linked_cong:
  assumes "\<And>p. p \<in> set (butlast ps) \<Longrightarrow> nx' p = nx p" and "\<And>p. p \<in> set (tl ps) \<Longrightarrow> pv' p = pv p"
  shows "linked nx' pv' ps = linked nx pv ps"
  using assms
proof (induction ps)
  case (Cons a ps)
  show ?case
  proof (cases ps)
    case (Cons b bs)
    have "linked nx' pv' ps = linked nx pv ps"
      using Cons Cons.prems by (intro Cons.IH) (auto dest: in_set_butlastD)
    then show ?thesis using Cons Cons.prems by (auto simp: successively_Cons)
  qed simp
qed simp

text \<open>A segment of a ring: inner pointers are distinct, the two ends may be the same marker.\<close>

definition segment :: "'p list \<Rightarrow> 'p list \<Rightarrow> bool" where
  "segment ps qs \<longleftrightarrow> ps \<noteq> [] \<and> qs \<noteq> [] \<and> distinct ps \<and> distinct qs \<and>
     set (tl ps) \<inter> set qs = {} \<and> set ps \<inter> set (butlast qs) = {}"

lemma distinct_ends:
  assumes "distinct ps" "ps \<noteq> []"
  shows "last ps \<notin> set (butlast ps)" "hd ps \<notin> set (tl ps)"
proof -
  show "last ps \<notin> set (butlast ps)" using assms by (cases ps rule: rev_cases) simp_all
  show "hd ps \<notin> set (tl ps)" using assms by (cases ps) simp_all
qed

lemma segment_ends:
  assumes "segment ps qs"
  shows "ps \<noteq> []" "qs \<noteq> []"
    "p \<in> set (butlast ps) \<Longrightarrow> p \<in> set ps \<and> p \<noteq> last ps" "p \<in> set (tl ps) \<Longrightarrow> p \<in> set ps \<and> p \<noteq> hd qs"
    "p \<in> set (butlast qs) \<Longrightarrow> p \<in> set qs \<and> p \<noteq> last ps" "p \<in> set (tl qs) \<Longrightarrow> p \<in> set qs \<and> p \<noteq> hd qs"
proof -
  have s: "ps \<noteq> []" "qs \<noteq> []" "distinct ps" "distinct qs"
      "set (tl ps) \<inter> set qs = {}" "set ps \<inter> set (butlast qs) = {}"
    using assms by (auto simp: segment_def)
  show "ps \<noteq> []" "qs \<noteq> []" by fact+
  note e = distinct_ends[OF s(3,1)] distinct_ends[OF s(4,2)] last_in_set[OF s(1)] hd_in_set[OF s(2)]
  show "p \<in> set (butlast ps) \<Longrightarrow> p \<in> set ps \<and> p \<noteq> last ps" using e(1) by (auto dest: in_set_butlastD)
  show "p \<in> set (tl ps) \<Longrightarrow> p \<in> set ps \<and> p \<noteq> hd qs" using e(6) s(5) by (auto dest: list.set_sel(2)[OF s(1)])
  show "p \<in> set (butlast qs) \<Longrightarrow> p \<in> set qs \<and> p \<noteq> last ps" using e(5) s(6) by (auto dest: in_set_butlastD)
  show "p \<in> set (tl qs) \<Longrightarrow> p \<in> set qs \<and> p \<noteq> hd qs" using e(4) by (auto dest: list.set_sel(2)[OF s(2)])
qed

lemma segment_frame:
  assumes "segment ps qs" "n \<notin> set ps" "n \<notin> set qs"
    and "\<And>p. p \<noteq> n \<Longrightarrow> p \<noteq> last ps \<Longrightarrow> nx' p = nx p" and "\<And>p. p \<noteq> n \<Longrightarrow> p \<noteq> hd qs \<Longrightarrow> pv' p = pv p"
  shows "linked nx' pv' ps = linked nx pv ps" "linked nx' pv' qs = linked nx pv qs"
  by (intro linked_cong assms(4,5); insert assms(2,3) segment_ends[OF assms(1)]; blast)+

lemma linked_insert:
  assumes "linked nx pv (ps @ qs)" "segment ps qs" "n \<notin> set ps" "n \<notin> set qs"
    and "nx' = nx(n := hd qs, last ps := n)" "pv' = pv(n := last ps, hd qs := n)"
  shows "linked nx' pv' (ps @ n # qs)"
proof -
  have ne: "ps \<noteq> []" "qs \<noteq> []" using assms(2) by (auto simp: segment_def)
  have "linked nx' pv' ps = linked nx pv ps" "linked nx' pv' qs = linked nx pv qs"
    by (rule segment_frame[OF assms(2-4)]; simp add: assms(5,6))+
  moreover have "last ps \<noteq> n" "hd qs \<noteq> n" using assms(3,4) ne by auto
  ultimately show ?thesis
    using assms ne by (auto simp: successively_append_iff successively_Cons)
qed

lemma linked_remove:
  assumes "linked nx pv (ps @ n # qs)" "segment ps qs" "n \<notin> set ps" "n \<notin> set qs"
    and "nx' = nx(last ps := hd qs)" "pv' = pv(hd qs := last ps)"
  shows "linked nx' pv' (ps @ qs)"
proof -
  have ne: "ps \<noteq> []" "qs \<noteq> []" using assms(2) by (auto simp: segment_def)
  have "linked nx' pv' ps = linked nx pv ps" "linked nx' pv' qs = linked nx pv qs"
    by (rule segment_frame[OF assms(2-4)]; simp add: assms(5,6))+
  then show ?thesis
    using assms ne by (auto simp: successively_append_iff successively_Cons)
qed

section \<open>The sequence a list stands for\<close>

definition ring :: "'l \<Rightarrow> 'i list \<Rightarrow> ('l, 'i) ListPtr list" where
  "ring l xs = ListEnd l # map ListItem xs @ [ListEnd l]"

definition list_view :: "('l, 'i, 'm) list_heap_scheme \<Rightarrow> 'l \<Rightarrow> 'i list \<Rightarrow> bool" where
  "list_view h l xs \<longleftrightarrow>
     linked (pxNext h) (pxPrevious h) (ring l xs) \<and> distinct xs \<and>
     (\<forall>i. pxContainer h i = Some l \<longleftrightarrow> i \<in> set xs) \<and>
     uxNumberOfItems h l = of_nat (length xs) \<and> length xs < 2 ^ 32 \<and>
     pxIndex h l \<in> insert (ListEnd l) (ListItem ` set xs) \<and>
     xItemValue h (ListEnd l) = portMAX_DELAY"

lemma ring_split: "ring l (xs @ ys) = (ListEnd l # map ListItem xs) @ (map ListItem ys @ [ListEnd l])"
  by (simp add: ring_def)

lemma segment_ring: "distinct (xs @ ys) \<Longrightarrow> segment (ListEnd l # map ListItem xs) (map ListItem ys @ [ListEnd l])"
  by (auto simp: segment_def distinct_map inj_on_def butlast_append)

text \<open>The pointers around a gap of the ring.\<close>

definition before :: "'l \<Rightarrow> 'i list \<Rightarrow> ('l, 'i) ListPtr" where
  "before l xs = (if xs = [] then ListEnd l else ListItem (last xs))"

definition after :: "'l \<Rightarrow> 'i list \<Rightarrow> ('l, 'i) ListPtr" where
  "after l ys = (case ys of [] \<Rightarrow> ListEnd l | y # _ \<Rightarrow> ListItem y)"

lemma before_simps [simp]: "before l [] = ListEnd l" "before l (xs @ [x]) = ListItem x"
  by (simp_all add: before_def)

lemma after_simps [simp]: "after l [] = ListEnd l" "after l (y # ys) = ListItem y"
  by (simp_all add: after_def)

lemma last_before: "last (ListEnd l # map ListItem xs) = before l xs"
  by (simp add: before_def last_map)

lemma hd_after: "hd (map ListItem ys @ [ListEnd l]) = after l ys"
  by (cases ys) simp_all

lemma list_view_link:
  assumes "list_view h l (xs @ ys)"
  shows "pxNext h (before l xs) = after l ys" "pxPrevious h (after l ys) = before l xs"
proof -
  have "linked (pxNext h) (pxPrevious h)
          ((ListEnd l # map ListItem xs) @ (map ListItem ys @ [ListEnd l]))"
    using assms unfolding list_view_def ring_split by blast
  then show "pxNext h (before l xs) = after l ys" "pxPrevious h (after l ys) = before l xs"
    unfolding successively_append_iff[of _ "ListEnd l # map ListItem xs"] last_before hd_after by simp_all
qed

lemma list_view_next:
  assumes "list_view h l (xs @ x # ys)"
  shows "pxNext h (ListItem x) = after l ys" "pxPrevious h (ListItem x) = before l xs"
  using list_view_link[of h l "xs @ [x]" ys] list_view_link[of h l xs "x # ys"] assms by simp_all

lemma list_view_length: "list_view h l xs \<Longrightarrow> listCURRENT_LIST_LENGTH l h = of_nat (length xs)"
  by (simp add: list_view_def listCURRENT_LIST_LENGTH_def)

lemma of_nat_length_eq_0: "n < 2 ^ 32 \<Longrightarrow> (of_nat n = (0 :: 32 word)) = (n = 0)"
  by (simp add: of_nat_eq_iff take_bit_nat_eq_self unsigned_of_nat flip: unat_eq_0)

lemma list_view_empty: "list_view h l xs \<Longrightarrow> listLIST_IS_EMPTY l h \<longleftrightarrow> xs = []"
  using of_nat_length_eq_0[of "length xs"] by (simp add: list_view_def listLIST_IS_EMPTY_def)

lemma list_view_head: "list_view h l xs \<Longrightarrow> listGET_HEAD_ENTRY l h = after l xs"
  using list_view_link(1)[of h l "[]" xs] by (simp add: listGET_HEAD_ENTRY_def)

lemma list_view_container: "list_view h l xs \<Longrightarrow> pxContainer h i = Some l \<longleftrightarrow> i \<in> set xs"
  by (simp add: list_view_def)

lemma list_view_free: "list_view h l xs \<Longrightarrow> pxContainer h i = None \<Longrightarrow> i \<notin> set xs"
  by (simp add: list_view_container[symmetric])

lemma set_ring: "set (ring l xs) = insert (ListEnd l) (ListItem ` set xs)"
  by (auto simp: ring_def)

lemma ring_disjoint:
  assumes "list_view h l xs" "list_view h l' ys" "l \<noteq> l'"
  shows "set (ring l xs) \<inter> set (ring l' ys) = {}"
  using list_view_container[OF assms(1)] list_view_container[OF assms(2)] assms(3)
  by (auto simp: set_ring) (metis option.inject)

lemma before_in_ring: "before l xs \<in> set (ring l (xs @ ys))"
  by (simp add: set_ring before_def)

lemma after_in_ring: "after l ys \<in> set (ring l (xs @ ys))"
  by (simp add: set_ring after_def split: list.splits)

text \<open>A list only depends on the cells of its own ring.\<close>

lemma list_view_frame:
  assumes "list_view h l xs"
    and "\<And>p. p \<in> set (ring l xs) \<Longrightarrow> pxNext h' p = pxNext h p \<and> pxPrevious h' p = pxPrevious h p"
    and "\<And>i. pxContainer h' i = Some l \<longleftrightarrow> pxContainer h i = Some l"
    and "uxNumberOfItems h' l = uxNumberOfItems h l" "pxIndex h' l = pxIndex h l"
    and "xItemValue h' (ListEnd l) = xItemValue h (ListEnd l)"
  shows "list_view h' l xs"
proof -
  have "linked (pxNext h') (pxPrevious h') (ring l xs) = linked (pxNext h) (pxPrevious h) (ring l xs)"
    using assms(2) by (intro linked_cong) (auto dest: in_set_butlastD simp: ring_def)
  then show ?thesis using assms by (simp add: list_view_def)
qed

section \<open>Insertion at a gap\<close>

definition insert_between ::
    "'l \<Rightarrow> 'i list \<Rightarrow> 'i \<Rightarrow> 'i list \<Rightarrow> ('l, 'i, 'm) list_heap_scheme \<Rightarrow> ('l, 'i, 'm) list_heap_scheme" where
  "insert_between l xs i ys h =
     h\<lparr>pxNext := (pxNext h)(ListItem i := after l ys, before l xs := ListItem i),
       pxPrevious := (pxPrevious h)(ListItem i := before l xs, after l ys := ListItem i),
       pxContainer := (pxContainer h)(i := Some l),
       uxNumberOfItems := (uxNumberOfItems h)(l := uxNumberOfItems h l + 1)\<rparr>"

lemma insert_between_view:
  assumes "list_view h l (xs @ ys)" "pxContainer h i = None" "length (xs @ ys) < 2 ^ 32 - 1"
  shows "list_view (insert_between l xs i ys h) l (xs @ i # ys)"
proof -
  have i: "i \<notin> set xs" "i \<notin> set ys"
    using list_view_free[OF assms(1,2)] by auto
  have "linked (pxNext (insert_between l xs i ys h)) (pxPrevious (insert_between l xs i ys h))
          ((ListEnd l # map ListItem xs) @ ListItem i # (map ListItem ys @ [ListEnd l]))"
  proof (rule linked_insert)
    show "segment (ListEnd l # map ListItem xs) (map ListItem ys @ [ListEnd l])"
      using assms(1) by (intro segment_ring) (simp add: list_view_def)
    show "linked (pxNext h) (pxPrevious h) ((ListEnd l # map ListItem xs) @ map ListItem ys @ [ListEnd l])"
      using assms(1) unfolding list_view_def ring_split by blast
  qed (use i in \<open>auto simp: insert_between_def last_before hd_after simp del: last.simps\<close>)
  then have "linked (pxNext (insert_between l xs i ys h)) (pxPrevious (insert_between l xs i ys h))
          (ring l (xs @ i # ys))" by (simp add: ring_def)
  then show ?thesis
    using assms i by (auto simp: list_view_def insert_between_def)
qed

lemma insert_between_frame:
  assumes "list_view h l (xs @ ys)" "pxContainer h i = None" "list_view h l' zs" "l' \<noteq> l"
  shows "list_view (insert_between l xs i ys h) l' zs"
proof -
  have "p \<noteq> before l xs \<and> p \<noteq> after l ys" if "p \<in> set (ring l' zs)" for p
    using ring_disjoint[OF assms(1,3)] assms(4) that before_in_ring[of l xs ys] after_in_ring[of l ys xs] by auto
  moreover have "ListItem i \<notin> set (ring l' zs)"
    using list_view_free[OF assms(3,2)] by (auto simp: set_ring)
  ultimately show ?thesis
    using assms by (intro list_view_frame[OF assms(3)]) (auto simp: insert_between_def)
qed

section \<open>The operations on the sequence\<close>

definition insert_end_seq :: "('l, 'i) ListPtr \<Rightarrow> 'i \<Rightarrow> 'i list \<Rightarrow> 'i list" where
  "insert_end_seq p i xs =
     (case p of ListEnd _ \<Rightarrow> xs @ [i]
      | ListItem y \<Rightarrow> takeWhile (\<lambda>x. x \<noteq> y) xs @ i # dropWhile (\<lambda>x. x \<noteq> y) xs)"

definition insert_sorted_seq :: "('i \<Rightarrow> 32 word) \<Rightarrow> 'i \<Rightarrow> 'i list \<Rightarrow> 'i list" where
  "insert_sorted_seq val i xs =
     takeWhile (\<lambda>x. val x \<le> val i) xs @ i # dropWhile (\<lambda>x. val x \<le> val i) xs"

abbreviation item_value :: "('l, 'i, 'm) list_heap_scheme \<Rightarrow> 'i \<Rightarrow> 32 word" where
  "item_value h x \<equiv> xItemValue h (ListItem x)"

lemma index_gap:
  assumes "list_view h l xs"
  obtains as bs where "xs = as @ bs" "pxIndex h l = after l bs"
    "insert_end_seq (pxIndex h l) i xs = as @ i # bs"
proof (cases "pxIndex h l")
  case (ListEnd e)
  then have "e = l" using assms by (auto simp: list_view_def)
  with ListEnd that[of xs "[]"] show thesis by (simp add: insert_end_seq_def)
next
  case (ListItem y)
  then have y: "y \<in> set xs" using assms by (auto simp: list_view_def)
  define as bs where "as = takeWhile (\<lambda>x. x \<noteq> y) xs" and "bs = dropWhile (\<lambda>x. x \<noteq> y) xs"
  have "bs \<noteq> []" using y by (auto simp: bs_def)
  moreover have "hd bs = y" using hd_dropWhile[of "\<lambda>x. x \<noteq> y" xs] \<open>bs \<noteq> []\<close> by (simp add: bs_def)
  ultimately have "after l bs = ListItem y" by (cases bs) simp_all
  with that[of as bs] ListItem show thesis by (simp add: insert_end_seq_def as_def bs_def)
qed

lemma vListInsertEnd_between:
  assumes "list_view h l (as @ bs)" "pxIndex h l = after l bs" "pxContainer h i = None"
  shows "vListInsertEnd l i h = insert_between l as i bs h"
proof -
  have "after l bs \<noteq> ListItem i"
    using list_view_free[OF assms(1,3)] by (auto simp: after_def split: list.splits)
  then show ?thesis
    using list_view_link[OF assms(1)] assms(2)
    by (simp add: vListInsertEnd_def insert_between_def Let_def)
qed

lemma insert_walk_stops:
  assumes "list_view h l (xs @ ys)" "v < portMAX_DELAY"
  shows "insert_walk h v (before l xs) = Some (before l (xs @ takeWhile (\<lambda>y. item_value h y \<le> v) ys))"
  using assms(1)
proof (induction ys arbitrary: xs)
  case Nil
  then have "xItemValue h (pxNext h (before l xs)) = portMAX_DELAY"
    using list_view_link(1)[OF Nil] by (simp add: list_view_def)
  moreover have "\<not> portMAX_DELAY \<le> v" using assms(2) by (simp add: not_le)
  ultimately show ?case by (subst insert_walk.simps) simp
next
  case (Cons y ys)
  have "insert_walk h v (before l (xs @ [y])) =
      Some (before l ((xs @ [y]) @ takeWhile (\<lambda>y. item_value h y \<le> v) ys))"
    using Cons.prems by (intro Cons.IH) simp
  with list_view_link(1)[OF Cons.prems] show ?case by (subst insert_walk.simps) simp
qed

lemma insert_position_gap:
  assumes "list_view h l xs"
  shows "insert_position l i h = Some (before l (takeWhile (\<lambda>x. item_value h x \<le> item_value h i) xs))"
proof (cases "item_value h i = portMAX_DELAY")
  case True
  then have "takeWhile (\<lambda>x. item_value h x \<le> item_value h i) xs = xs"
    by (simp add: takeWhile_eq_all_conv)
  then have "insert_position l i h = Some (before l xs)"
    using True list_view_link(2)[of h l xs "[]"] assms by (simp add: insert_position_def)
  then show ?thesis by (simp only: \<open>takeWhile _ xs = xs\<close>)
next
  case False
  then have "item_value h i < portMAX_DELAY" by (simp add: less_portMAX_DELAY)
  then show ?thesis
    using False insert_walk_stops[of h l "[]" xs] assms by (simp add: insert_position_def)
qed

lemma vListInsert_between:
  assumes "list_view h l xs" "pxContainer h i = None"
  shows "vListInsert l i h =
    Some (insert_between l (takeWhile (\<lambda>x. item_value h x \<le> item_value h i) xs) i
                           (dropWhile (\<lambda>x. item_value h x \<le> item_value h i) xs) h)"
proof -
  define as bs where "as = takeWhile (\<lambda>x. item_value h x \<le> item_value h i) xs"
    and "bs = dropWhile (\<lambda>x. item_value h x \<le> item_value h i) xs"
  have v: "list_view h l (as @ bs)" using assms(1) by (simp add: as_def bs_def)
  have "after l bs \<noteq> ListItem i"
    using list_view_free[OF v assms(2)] by (auto simp: after_def split: list.splits)
  then show ?thesis
    using list_view_link(1)[OF v] insert_position_gap[OF assms(1), of i] fun_upd_twist[of "after l bs" "ListItem i" "pxPrevious h"]
    by (simp add: vListInsert_def insert_between_def Let_def as_def[symmetric] bs_def[symmetric])
qed

section \<open>Removal\<close>

definition remove_between ::
    "'l \<Rightarrow> 'i list \<Rightarrow> 'i \<Rightarrow> 'i list \<Rightarrow> ('l, 'i, 'm) list_heap_scheme \<Rightarrow> ('l, 'i, 'm) list_heap_scheme" where
  "remove_between l xs i ys h =
     h\<lparr>pxNext := (pxNext h)(before l xs := after l ys),
       pxPrevious := (pxPrevious h)(after l ys := before l xs),
       pxContainer := (pxContainer h)(i := None),
       uxNumberOfItems := (uxNumberOfItems h)(l := uxNumberOfItems h l - 1),
       pxIndex := (if pxIndex h l = ListItem i then (pxIndex h)(l := before l xs) else pxIndex h)\<rparr>"

lemma remove_between_view:
  assumes "list_view h l (xs @ i # ys)"
  shows "list_view (remove_between l xs i ys h) l (xs @ ys)"
proof -
  have d: "distinct (xs @ i # ys)" using assms by (simp add: list_view_def)
  have "linked (pxNext (remove_between l xs i ys h)) (pxPrevious (remove_between l xs i ys h))
          ((ListEnd l # map ListItem xs) @ (map ListItem ys @ [ListEnd l]))"
  proof (rule linked_remove)
    show "segment (ListEnd l # map ListItem xs) (map ListItem ys @ [ListEnd l])"
      using d by (intro segment_ring) simp
    show "linked (pxNext h) (pxPrevious h)
        ((ListEnd l # map ListItem xs) @ ListItem i # map ListItem ys @ [ListEnd l])"
      using assms by (simp add: list_view_def ring_def)
  qed (use d in \<open>auto simp: remove_between_def last_before hd_after simp del: last.simps\<close>)
  then have "linked (pxNext (remove_between l xs i ys h)) (pxPrevious (remove_between l xs i ys h))
          (ring l (xs @ ys))" by (simp add: ring_def)
  moreover have "before l xs \<in> insert (ListEnd l) (ListItem ` set (xs @ ys))" by (simp add: before_def)
  moreover have "\<forall>j. pxContainer (remove_between l xs i ys h) j = Some l \<longleftrightarrow> j \<in> set (xs @ ys)"
    using assms d by (auto simp: list_view_def remove_between_def)
  ultimately show ?thesis
    using assms by (auto simp: list_view_def remove_between_def)
qed

lemma remove_between_frame:
  assumes "list_view h l (xs @ i # ys)" "list_view h l' zs" "l' \<noteq> l"
  shows "list_view (remove_between l xs i ys h) l' zs"
proof -
  have "before l xs \<in> set (ring l (xs @ i # ys))" "after l ys \<in> set (ring l (xs @ i # ys))"
    by (rule before_in_ring, use after_in_ring[of l ys "xs @ [i]"] in simp)
  then have "p \<noteq> before l xs \<and> p \<noteq> after l ys" if "p \<in> set (ring l' zs)" for p
    using ring_disjoint[OF assms(1,2)] assms(3) that by auto
  moreover have "pxContainer h i = Some l" using list_view_container[OF assms(1)] by simp
  ultimately show ?thesis
    using assms by (intro list_view_frame[OF assms(2)]) (auto simp: remove_between_def)
qed

lemma uxListRemove_between:
  assumes "list_view h l (xs @ i # ys)"
  shows "uxListRemove i h = Some (of_nat (length (xs @ ys)), remove_between l xs i ys h)"
proof -
  have d: "distinct (xs @ i # ys)" using assms by (simp add: list_view_def)
  have "after l ys \<noteq> ListItem i" "before l xs \<noteq> ListItem i"
    using d by (auto simp: after_def before_def split: list.splits)
  moreover have "pxContainer h i = Some l" using list_view_container[OF assms] by simp
  moreover have "uxNumberOfItems h l = of_nat (length (xs @ ys)) + 1"
    using assms by (simp add: list_view_def)
  ultimately show ?thesis
    using list_view_next[OF assms]
    by (simp add: uxListRemove_def remove_between_def Let_def)
qed

lemma remove1_middle: "distinct (xs @ i # ys) \<Longrightarrow> remove1 i (xs @ i # ys) = xs @ ys"
  by (simp add: remove1_append)

section \<open>Stepping through a list\<close>

fun next_owners :: "nat \<Rightarrow> 'l \<Rightarrow> ('l, 'i, 'm) list_heap_scheme \<Rightarrow> (nat list \<times> ('l, 'i, 'm) list_heap_scheme) option" where
  "next_owners 0 l h = Some ([], h)"
| "next_owners (Suc n) l h =
     do { (p, h) \<leftarrow> listGET_OWNER_OF_NEXT_ENTRY l h;
          (ps, h) \<leftarrow> next_owners n l h;
          Some (p # ps, h) }"

definition at_index :: "'l \<Rightarrow> ('l, 'i) ListPtr \<Rightarrow> ('l, 'i, 'm) list_heap_scheme \<Rightarrow> ('l, 'i, 'm) list_heap_scheme" where
  "at_index l p h = h\<lparr>pxIndex := (pxIndex h)(l := p)\<rparr>"

lemma at_index_simps [simp]:
  "at_index l p (at_index l q h) = at_index l p h" "pxIndex (at_index l p h) l = p"
  "pvOwner (at_index l p h) = pvOwner h" "pxIndex h l = p \<Longrightarrow> at_index l p h = h"
  by (auto simp: at_index_def fun_upd_idem)

lemma list_view_at_index:
  "list_view h l xs \<Longrightarrow> p \<in> insert (ListEnd l) (ListItem ` set xs) \<Longrightarrow> list_view (at_index l p h) l xs"
  by (simp add: list_view_def at_index_def)

lemma next_owner_step:
  assumes "list_view h l (xs @ y # ys)" "pxIndex h l = before l xs"
  shows "listGET_OWNER_OF_NEXT_ENTRY l h = Some (pvOwner h y, at_index l (ListItem y) h)"
  using list_view_link(1)[OF assms(1)] assms(2)
  by (simp add: listGET_OWNER_OF_NEXT_ENTRY_def Let_def at_index_def)

lemma next_owner_wrap:
  assumes "list_view h l (y # ys)" "pxIndex h l = before l (y # ys)"
  shows "listGET_OWNER_OF_NEXT_ENTRY l h = Some (pvOwner h y, at_index l (ListItem y) h)"
  using list_view_link(1)[of h l "y # ys" "[]"] list_view_link(1)[of h l "[]" "y # ys"] assms
  by (simp add: listGET_OWNER_OF_NEXT_ENTRY_def Let_def at_index_def)

lemma next_owners_segment:
  assumes "list_view h l (xs @ ys @ zs)" "pxIndex h l = before l xs"
  shows "next_owners (length ys) l h = Some (map (pvOwner h) ys, at_index l (before l (xs @ ys)) h)"
  using assms
proof (induction ys arbitrary: xs h)
  case (Cons y ys)
  have "next_owners (length ys) l (at_index l (ListItem y) h) =
      Some (map (pvOwner h) ys, at_index l (before l (xs @ y # ys)) h)"
    using Cons.IH[of "at_index l (ListItem y) h" "xs @ [y]"] Cons.prems by (simp add: list_view_at_index)
  then show ?case using next_owner_step[of h l xs y "ys @ zs"] Cons.prems by simp
qed simp

lemma next_owners_add:
  "next_owners (m + n) l h =
     do { (ps, h) \<leftarrow> next_owners m l h; (qs, h) \<leftarrow> next_owners n l h; Some (ps @ qs, h) }"
  by (induction m arbitrary: h) (auto split: Option.bind_splits prod.splits)

lemma next_owners_wrap:
  assumes "list_view h l xs" "pxIndex h l = before l xs" "xs = ys @ zs" "ys \<noteq> []"
  shows "next_owners (length ys) l h = Some (map (pvOwner h) ys, at_index l (before l ys) h)"
proof -
  obtain y ys' where y: "ys = y # ys'" using assms(4) by (cases ys) auto
  have "next_owners (length ys') l (at_index l (ListItem y) h) =
      Some (map (pvOwner h) ys', at_index l (before l ys) h)"
    using next_owners_segment[of "at_index l (ListItem y) h" l "[y]" ys' zs] assms y
    by (simp add: list_view_at_index before_def)
  then show ?thesis using next_owner_wrap[of h l y "ys' @ zs"] assms y by simp
qed

section \<open>Whole operations\<close>

lemma vListInitialise_view:
  assumes "\<And>i. pxContainer h i \<noteq> Some l"
  shows "list_view (vListInitialise l h) l []"
  using assms by (simp add: vListInitialise_def Let_def list_view_def ring_def)

lemma vListInitialise_frame:
  "list_view h l' ys \<Longrightarrow> l' \<noteq> l \<Longrightarrow> list_view (vListInitialise l h) l' ys"
  by (erule list_view_frame) (auto simp: vListInitialise_def Let_def set_ring)

lemma vListInitialise_container [simp]: "pxContainer (vListInitialise l h) = pxContainer h"
  by (simp add: vListInitialise_def Let_def)

lemma vListInitialise_value [simp]: "item_value (vListInitialise l h) i = item_value h i"
  by (simp add: vListInitialise_def Let_def)

lemma dropWhile_sorted_greater:
  "sorted (map f xs) \<Longrightarrow> x \<in> set (dropWhile (\<lambda>x. f x \<le> k) xs) \<Longrightarrow> k < f x"
  by (induction xs) (auto simp: not_le split: if_splits)

lemma insert_sorted_seq_split:
  obtains as bs where "xs = as @ bs" "insert_sorted_seq f i xs = as @ i # bs"
    "\<And>x. x \<in> set as \<Longrightarrow> f x \<le> f i" "\<And>x. sorted (map f xs) \<Longrightarrow> x \<in> set bs \<Longrightarrow> f i < f x"
  by (rule that[of "takeWhile (\<lambda>x. f x \<le> f i) xs" "dropWhile (\<lambda>x. f x \<le> f i) xs"])
     (auto simp: insert_sorted_seq_def dest: set_takeWhileD dropWhile_sorted_greater)

lemma mset_insert_sorted_seq: "mset (insert_sorted_seq f i xs) = add_mset i (mset xs)"
  by (rule insert_sorted_seq_split[of xs f i]) simp

lemma sorted_insert_sorted_seq: "sorted (map f xs) \<Longrightarrow> sorted (map f (insert_sorted_seq f i xs))"
  by (rule insert_sorted_seq_split[of xs f i]) (fastforce simp: sorted_append)

lemma insert_sorted_seq_sort_key:
  "insert_sorted_seq f i (sort_key f xs) = sort_key f (xs @ [i])"
proof (rule properties_for_sort_key[symmetric])
  show "mset (insert_sorted_seq f i (sort_key f xs)) = mset (xs @ [i])"
    by (simp add: mset_insert_sorted_seq)
  show "sorted (map f (insert_sorted_seq f i (sort_key f xs)))" by (simp add: sorted_insert_sorted_seq)
  fix k
  obtain as bs where s: "sort_key f xs = as @ bs" "insert_sorted_seq f i (sort_key f xs) = as @ i # bs"
    and bs: "\<And>x. x \<in> set bs \<Longrightarrow> f i < f x"
    by (metis insert_sorted_seq_split sorted_sort_key)
  have "filter (\<lambda>x. f x = f k) xs = filter (\<lambda>x. f x = f k) as @ filter (\<lambda>x. f x = f k) bs"
    using sort_key_stable[of f "f k" xs] by (simp add: s(1))
  moreover have "filter (\<lambda>x. f x = f k) bs = []" if "f i = f k"
    using that by (auto simp: filter_empty_conv dest!: bs)
  ultimately show "filter (\<lambda>x. f k = f x) (insert_sorted_seq f i (sort_key f xs)) =
      filter (\<lambda>x. f k = f x) (xs @ [i])"
    by (cases "f i = f k") (simp_all add: s(2) eq_commute[of "f k"])
qed

lemma insert_between_free:
  "pxContainer (insert_between l xs i ys h) j = (if j = i then Some l else pxContainer h j)"
  "xItemValue (insert_between l xs i ys h) = xItemValue h"
  "pxIndex (insert_between l xs i ys h) = pxIndex h"
  "pvOwner (insert_between l xs i ys h) = pvOwner h"
  by (auto simp: insert_between_def)

lemma remove_between_free:
  "pxContainer (remove_between l xs i ys h) j = (if j = i then None else pxContainer h j)"
  "xItemValue (remove_between l xs i ys h) = xItemValue h"
  "pvOwner (remove_between l xs i ys h) = pvOwner h"
  by (auto simp: remove_between_def)

lemma insert_walk_not_past:
  "insert_walk h v p = Some q \<Longrightarrow> \<not> xItemValue h (pxNext h q) \<le> v"
  by (induction rule: insert_walk.raw_induct[rotated, consumes 1, where P = "\<lambda>h v p q. \<not> xItemValue h (pxNext h q) \<le> v"])
     (auto split: if_splits)

section \<open>The contract of an ordered list\<close>

text \<open>
  What the kernel relies on when it keeps tasks in a list: insertion in key order behind equal
  keys, removal of any member, and other lists untouched.  Clients are proved from these laws.
\<close>

locale ordered_lists =
  fixes view :: "'h \<Rightarrow> 'l \<Rightarrow> 'i list \<Rightarrow> bool"
    and free :: "'h \<Rightarrow> 'i \<Rightarrow> bool"
    and key :: "'h \<Rightarrow> 'i \<Rightarrow> 32 word"
    and put :: "'l \<Rightarrow> 'i \<Rightarrow> 'h \<Rightarrow> 'h option"
    and take_out :: "'i \<Rightarrow> 'h \<Rightarrow> (32 word \<times> 'h) option"
  assumes put_ok: "view h l xs \<Longrightarrow> free h i \<Longrightarrow> length xs < 2 ^ 32 - 1 \<Longrightarrow>
      \<exists>h'. put l i h = Some h' \<and> view h' l (insert_sorted_seq (key h) i xs) \<and> key h' = key h \<and>
           (\<forall>j. free h' j \<longleftrightarrow> free h j \<and> j \<noteq> i) \<and>
           (\<forall>l' ys. l' \<noteq> l \<longrightarrow> view h l' ys \<longrightarrow> view h' l' ys)"
    and take_ok: "view h l xs \<Longrightarrow> i \<in> set xs \<Longrightarrow>
      \<exists>h'. take_out i h = Some (of_nat (length xs - 1), h') \<and> view h' l (remove1 i xs) \<and> key h' = key h \<and>
           (\<forall>j. free h' j \<longleftrightarrow> free h j \<or> j = i) \<and>
           (\<forall>l' ys. l' \<noteq> l \<longrightarrow> view h l' ys \<longrightarrow> view h' l' ys)"
begin

lemma put_all:
  assumes "view h l (sort_key (key h) xs)" "distinct ys" "\<And>j. j \<in> set ys \<Longrightarrow> free h j"
    "length xs + length ys < 2 ^ 32"
  shows "\<exists>h'. fold_opt (put l) ys h = Some h' \<and> view h' l (sort_key (key h) (xs @ ys)) \<and> key h' = key h"
  using assms
proof (induction ys arbitrary: xs h)
  case (Cons y ys)
  obtain h1 where h1: "put l y h = Some h1" "view h1 l (sort_key (key h) (xs @ [y]))" "key h1 = key h"
    "\<And>j. free h1 j \<longleftrightarrow> free h j \<and> j \<noteq> y"
    using put_ok[OF Cons.prems(1), of y] Cons.prems(3,4) by (auto simp: insert_sorted_seq_sort_key)
  have "\<exists>h'. fold_opt (put l) ys h1 = Some h' \<and> view h' l (sort_key (key h1) ((xs @ [y]) @ ys)) \<and> key h' = key h1"
    using Cons.prems h1 by (intro Cons.IH) auto
  then show ?case using h1 by simp
qed simp

lemma drain:
  assumes "view h l (xs @ ys)"
  shows "\<exists>h'. fold_opt (\<lambda>i h. map_option snd (take_out i h)) xs h = Some h' \<and> view h' l ys \<and> key h' = key h"
  using assms
proof (induction xs arbitrary: h)
  case (Cons x xs)
  obtain h1 where h1: "take_out x h = Some (of_nat (length (xs @ ys)), h1)" "view h1 l (xs @ ys)" "key h1 = key h"
    using take_ok[OF Cons.prems, of x] by auto
  with Cons.IH[OF h1(2)] show ?case by auto
qed simp

end

interpretation kl: ordered_lists list_view "\<lambda>h i. pxContainer h i = None" item_value vListInsert uxListRemove
proof
  fix h :: "('l, 'i, 'm) list_heap_scheme" and l xs i
  assume v: "list_view h l xs" and f: "pxContainer h i = None" and n: "length xs < 2 ^ 32 - 1"
  obtain as bs where s: "xs = as @ bs" "insert_sorted_seq (item_value h) i xs = as @ i # bs"
      "vListInsert l i h = Some (insert_between l as i bs h)"
    by (rule that[OF takeWhile_dropWhile_id[symmetric] insert_sorted_seq_def vListInsert_between[OF v f]])
  then show "\<exists>h'. vListInsert l i h = Some h' \<and> list_view h' l (insert_sorted_seq (item_value h) i xs) \<and>
      item_value h' = item_value h \<and>
      (\<forall>j. pxContainer h' j = None \<longleftrightarrow> pxContainer h j = None \<and> j \<noteq> i) \<and>
      (\<forall>l' ys. l' \<noteq> l \<longrightarrow> list_view h l' ys \<longrightarrow> list_view h' l' ys)"
    using v f n by (auto simp: insert_between_free intro: insert_between_view insert_between_frame)
next
  fix h :: "('l, 'i, 'm) list_heap_scheme" and l xs i
  assume v: "list_view h l xs" and i: "i \<in> set xs"
  obtain as bs where s: "xs = as @ i # bs" using i by (auto simp: in_set_conv_decomp)
  have d: "distinct (as @ i # bs)" using v s by (simp add: list_view_def)
  show "\<exists>h'. uxListRemove i h = Some (of_nat (length xs - 1), h') \<and> list_view h' l (remove1 i xs) \<and>
      item_value h' = item_value h \<and>
      (\<forall>j. pxContainer h' j = None \<longleftrightarrow> pxContainer h j = None \<or> j = i) \<and>
      (\<forall>l' ys. l' \<noteq> l \<longrightarrow> list_view h l' ys \<longrightarrow> list_view h' l' ys)"
    using v uxListRemove_between[of h l as i bs] remove1_middle[OF d] unfolding s
    by (auto simp: remove_between_free intro: remove_between_view remove_between_frame)
qed

section \<open>Properties\<close>

text \<open>
  C28. \<open>vListInsert\<close> refines sorted insertion: on a well-formed list and an item that is on no list
  it returns, the list then stands for the sequence with the item behind every item of a value
  less or equal to its own, a sorted list stays sorted, and all other lists are unchanged.
\<close>

theorem vListInsert_refines:
  assumes "list_view h l xs" "pxContainer h i = None" "length xs < 2 ^ 32 - 1"
  shows "\<exists>h'. vListInsert l i h = Some h' \<and> list_view h' l (insert_sorted_seq (item_value h) i xs) \<and>
      (sorted (map (item_value h) xs) \<longrightarrow>
       sorted (map (item_value h') (insert_sorted_seq (item_value h) i xs))) \<and>
      (\<forall>l' ys. l' \<noteq> l \<longrightarrow> list_view h l' ys \<longrightarrow> list_view h' l' ys)"
  using kl.put_ok[OF assms] by (metis sorted_insert_sorted_seq)

definition example_heap :: "(nat, nat) list_heap" where
  "example_heap =
     vListInitialise 0
       \<lparr>xItemValue = (\<lambda>p. case p of ListItem i \<Rightarrow> of_nat (i mod 3) | ListEnd _ \<Rightarrow> 0),
        pxNext = (\<lambda>_. ListEnd 7), pxPrevious = (\<lambda>_. ListEnd 7), pvOwner = (\<lambda>i. 100 + i),
        pxContainer = (\<lambda>_. None), uxNumberOfItems = (\<lambda>_. 0), pxIndex = (\<lambda>_. ListEnd 7)\<rparr>"

lemma example_heap_view: "list_view example_heap 0 []" "pxContainer example_heap i = None"
  by (simp_all add: example_heap_def vListInitialise_view)

lemma vListInsert_refines_witness:
  "\<exists>h'. vListInsert 0 5 example_heap = Some h' \<and> list_view h' 0 [5]"
  using vListInsert_refines[OF example_heap_view, of 5] by (auto simp: insert_sorted_seq_def)

lemma vListInsertEnd_view:
  assumes v: "list_view h l xs" and f: "pxContainer h i = None" and n: "length xs < 2 ^ 32 - 1"
  shows "list_view (vListInsertEnd l i h) l (insert_end_seq (pxIndex h l) i xs) \<and>
         (\<forall>l' ys. l' \<noteq> l \<longrightarrow> list_view h l' ys \<longrightarrow> list_view (vListInsertEnd l i h) l' ys)"
proof -
  obtain as bs where s: "xs = as @ bs" "pxIndex h l = after l bs"
      "insert_end_seq (pxIndex h l) i xs = as @ i # bs"
    using index_gap[OF v] .
  have v': "list_view h l (as @ bs)" using v unfolding s(1) .
  show ?thesis
    unfolding vListInsertEnd_between[OF v' s(2) f] s(3)
    using insert_between_view[OF v' f] insert_between_frame[OF v' f] n unfolding s(1) by blast
qed

lemma uxListRemove_view:
  assumes v: "list_view h l xs" and i: "i \<in> set xs"
  shows "\<exists>h'. uxListRemove i h = Some (of_nat (length xs - 1), h') \<and>
           list_view h' l (remove1 i xs) \<and> pxContainer h' i = None \<and> pxIndex h' l \<noteq> ListItem i \<and>
           (\<forall>l' ys. l' \<noteq> l \<longrightarrow> list_view h l' ys \<longrightarrow> list_view h' l' ys)"
proof -
  obtain as bs where s: "xs = as @ i # bs" using i by (auto simp: in_set_conv_decomp)
  have d: "distinct (as @ i # bs)" using v s by (simp add: list_view_def)
  have v': "list_view h l (as @ i # bs)" using v unfolding s .
  let ?h = "remove_between l as i bs h"
  have "uxListRemove i h = Some (of_nat (length xs - 1), ?h)"
    unfolding uxListRemove_between[OF v'] s by simp
  moreover have r: "list_view ?h l (remove1 i xs)"
    unfolding s remove1_middle[OF d] by (rule remove_between_view[OF v'])
  moreover have "pxContainer ?h i = None" by (simp add: remove_between_free)
  moreover have "pxIndex ?h l \<noteq> ListItem i"
  proof -
    have "i \<notin> set (remove1 i xs)" using d unfolding s remove1_middle[OF d] by simp
    moreover have "pxIndex ?h l \<in> insert (ListEnd l) (ListItem ` set (remove1 i xs))"
      using r unfolding list_view_def by (elim conjE)
    ultimately show ?thesis by (metis ListPtr.distinct(1) ListPtr.inject(2) image_iff insert_iff)
  qed
  moreover have "\<forall>l' ys. l' \<noteq> l \<longrightarrow> list_view h l' ys \<longrightarrow> list_view ?h l' ys"
    using remove_between_frame[OF v'] by blast
  ultimately show ?thesis by (intro exI[of _ ?h] conjI)
qed

text \<open>
  C29. \<open>vListInsertEnd\<close> refines insertion in front of the list's index (at the end when the index is
  at the end marker), and \<open>uxListRemove\<close> refines removal: it returns the number of items
  left, the item is on no list any more, and the index never points at it.  Both leave all
  other lists unchanged.
\<close>

theorem vListInsertEnd_uxListRemove_refine:
  assumes "list_view h l xs"
  shows "(pxContainer h i = None \<and> length xs < 2 ^ 32 - 1 \<longrightarrow>
           list_view (vListInsertEnd l i h) l (insert_end_seq (pxIndex h l) i xs) \<and>
           (\<forall>l' ys. l' \<noteq> l \<longrightarrow> list_view h l' ys \<longrightarrow> list_view (vListInsertEnd l i h) l' ys)) \<and>
         (i \<in> set xs \<longrightarrow> (\<exists>h'. uxListRemove i h = Some (of_nat (length xs - 1), h') \<and>
           list_view h' l (remove1 i xs) \<and> pxContainer h' i = None \<and> pxIndex h' l \<noteq> ListItem i \<and>
           (\<forall>l' ys. l' \<noteq> l \<longrightarrow> list_view h l' ys \<longrightarrow> list_view h' l' ys)))"
  by (intro conjI impI vListInsertEnd_view[OF assms] uxListRemove_view[OF assms]; (elim conjE)?; assumption?)

lemma vListInsertEnd_uxListRemove_refine_witness:
  "list_view (vListInsertEnd 0 4 example_heap) 0 [4]"
proof -
  have "pxIndex example_heap 0 = ListEnd 0" by (simp add: example_heap_def vListInitialise_def Let_def)
  then show ?thesis
    using vListInsertEnd_uxListRemove_refine[OF example_heap_view(1), of 4]
    by (simp add: example_heap_view insert_end_seq_def)
qed

text \<open>
  The walk of \<open>vListInsert\<close>: it ends on every well-formed list for every item value, because the
  largest value is handled apart; without that test, as the comment in the code says, the loop
  would never end for an item of value \<open>portMAX_DELAY\<close>, on any heap.
\<close>

theorem vListInsert_terminates:
  "(list_view h l xs \<longrightarrow> vListInsert l i h \<noteq> None) \<and> insert_walk g portMAX_DELAY p = None"
proof
  show "list_view h l xs \<longrightarrow> vListInsert l i h \<noteq> None"
    using insert_position_gap[of h l xs i] by (auto simp: vListInsert_def Let_def)
  have "\<not> xItemValue g (pxNext g q) \<le> portMAX_DELAY" if "insert_walk g portMAX_DELAY p = Some q" for q
    using insert_walk_not_past[OF that] .
  then show "insert_walk g portMAX_DELAY p = None" by (cases "insert_walk g portMAX_DELAY p") auto
qed

lemma vListInsert_terminates_witness:
  "vListInsert 0 5 example_heap \<noteq> None"
  using vListInsert_terminates[of example_heap 0 "[]" 5 example_heap "ListEnd 0"] example_heap_view by simp

text \<open>
  Priority order: items inserted one by one into an empty list are afterwards in the order of
  their values, equal values in the order of insertion, and taking them from the head one by
  one empties the list.
\<close>

theorem vListInsert_priority_order:
  assumes "list_view h l []" "distinct ys" "\<And>j. j \<in> set ys \<Longrightarrow> pxContainer h j = None" "length ys < 2 ^ 32"
  shows "\<exists>h' h''. fold_opt (vListInsert l) ys h = Some h' \<and> list_view h' l (sort_key (item_value h) ys) \<and>
      fold_opt (\<lambda>i h. map_option snd (uxListRemove i h)) (sort_key (item_value h) ys) h' = Some h'' \<and>
      list_view h'' l []"
proof -
  obtain h' where h': "fold_opt (vListInsert l) ys h = Some h'" "list_view h' l (sort_key (item_value h) ys)"
    using kl.put_all[of h l "[]" ys] assms by auto
  then show ?thesis using kl.drain[of h' l "sort_key (item_value h) ys" "[]"] by auto
qed

lemma vListInsert_priority_order_witness:
  "\<exists>h'. fold_opt (vListInsert 0) [4, 5, 3, 1] example_heap = Some h' \<and> list_view h' 0 [3, 4, 1, 5]"
proof -
  have "item_value example_heap = (\<lambda>i. of_nat (i mod 3))"
    by (simp add: example_heap_def vListInitialise_def Let_def fun_eq_iff)
  then have "sort_key (item_value example_heap) [4, 5, 3, 1] = [3, 4, 1, 5]"
    by (simp add: word_le_nat_alt)
  then show ?thesis
    using vListInsert_priority_order[OF example_heap_view(1), of "[4, 5, 3, 1]"] example_heap_view(2) by auto
qed

text \<open>
  Round robin: on a list of \<open>n > 0\<close> items, \<open>n\<close> calls of \<open>listGET_OWNER_OF_NEXT_ENTRY\<close> return
  the owner of every item exactly once, in list order from behind the index, whatever the
  position of the index; the list itself is unchanged.
\<close>

theorem listGET_OWNER_round_robin:
  assumes "list_view h l (xs @ ys)" "xs @ ys \<noteq> []" "pxIndex h l = before l xs"
  shows "\<exists>h'. next_owners (length (xs @ ys)) l h = Some (map (pvOwner h) (ys @ xs), h') \<and>
      list_view h' l (xs @ ys)"
proof -
  have 1: "next_owners (length ys) l h = Some (map (pvOwner h) ys, at_index l (before l (xs @ ys)) h)"
    using next_owners_segment[of h l xs ys "[]"] assms by simp
  have b: "before l zs \<in> insert (ListEnd l) (ListItem ` set (xs @ ys))" if "set zs \<subseteq> set (xs @ ys)" for zs
  proof (cases "zs = []")
    case False
    then have "last zs \<in> set (xs @ ys)" using that last_in_set[of zs] by blast
    with False show ?thesis by (simp add: before_def)
  qed simp
  show ?thesis
  proof (cases "xs = []")
    case True
    then show ?thesis using 1 assms(1) list_view_at_index[OF assms(1) b[of ys]] by simp
  next
    case False
    let ?h = "at_index l (before l (xs @ ys)) h"
    have "list_view ?h l (xs @ ys)" using assms(1) b by (intro list_view_at_index) simp_all
    from next_owners_wrap[OF this _ refl False]
    have "next_owners (length xs) l ?h = Some (map (pvOwner h) xs, at_index l (before l xs) h)" by simp
    then have "next_owners (length ys + length xs) l h =
        Some (map (pvOwner h) (ys @ xs), at_index l (before l xs) h)"
      using 1 by (simp add: next_owners_add)
    then show ?thesis
      using list_view_at_index[OF assms(1) b[of xs]] by (simp add: add.commute)
  qed
qed

lemma listGET_OWNER_round_robin_witness:
  "\<exists>h h'. next_owners 2 (0 :: nat) (h :: (nat, nat) list_heap) = Some ([104, 105], h')"
proof -
  have i: "pxIndex example_heap 0 = ListEnd 0" by (simp add: example_heap_def vListInitialise_def Let_def)
  have "vListInsertEnd 0 4 example_heap = insert_between 0 [] 4 [] example_heap"
    using i vListInsertEnd_between[of example_heap 0 "[]" "[]" 4] example_heap_view by simp
  moreover define h1 where "h1 = insert_between 0 [] 4 [] example_heap"
  ultimately have h1: "list_view h1 0 [4]" "pxIndex h1 0 = ListEnd 0" "pxContainer h1 5 = None"
      "pvOwner h1 4 = 104" "pvOwner h1 5 = 105"
    using insert_between_view[of example_heap 0 "[]" "[]" 4] example_heap_view i
    by (simp_all add: insert_between_free example_heap_def vListInitialise_def Let_def)
  define h2 where "h2 = insert_between 0 [4] 5 [] h1"
  have h2: "list_view h2 0 [4, 5]" "pxIndex h2 0 = ListEnd 0" "pvOwner h2 4 = 104" "pvOwner h2 5 = 105"
    using insert_between_view[of h1 0 "[4]" "[]" 5] h1 by (simp_all add: h2_def insert_between_free)
  show ?thesis
    using listGET_OWNER_round_robin[of h2 0 "[]" "[4, 5]"] h2 by (auto simp: numeral_2_eq_2)
qed

end
