(* ===== verification/FRHeap.thy ===== *)
theory FRHeap
  imports CPrelude
begin

text \<open>
  The kernel's allocator \<open>FreeRTOS/Source/portable/MemMang/heap_4.c\<close>: first fit on an
  address-ordered free list, with splitting and coalescing.  The members of \<open>BlockLink_t\<close> are
  functions of the block's address, all sizes and addresses are 32-bit words.  The lemmas relate
  the free list to a list of (address, size) pairs and the whole heap to a tiling of \<open>ucHeap\<close> by
  free and allocated blocks (\<open>heap_ok\<close>), and show that allocation is first fit on the tiling and
  that freeing merges neighbours.
\<close>

section \<open>State\<close>

text \<open>\<open>ucHeap\<close> and \<open>xStart\<close> hold the addresses the linker gave these objects; the contents of
  allocated blocks are kept apart from the block headers in \<open>payload\<close>.\<close>

record heap4 =
  ucHeap :: "32 word"
  xStart :: "32 word"
  pxNextFreeBlock :: "32 word \<Rightarrow> 32 word"
  xBlockSize :: "32 word \<Rightarrow> 32 word"
  payload :: "32 word \<Rightarrow> 8 word"
  pxEnd :: "32 word"
  xFreeBytesRemaining :: "32 word"
  xMinimumEverFreeBytesRemaining :: "32 word"
  xNumberOfSuccessfulAllocations :: "32 word"
  xNumberOfSuccessfulFrees :: "32 word"

record HeapStats_t =
  xAvailableHeapSpaceInBytes :: "32 word"
  xSizeOfLargestFreeBlockInBytes :: "32 word"
  xSizeOfSmallestFreeBlockInBytes :: "32 word"
  xNumberOfFreeBlocks :: "32 word"
  xStatsMinimumEverFree :: "32 word"
  xStatsAllocations :: "32 word"
  xStatsFrees :: "32 word"

definition configTOTAL_HEAP_SIZE :: "32 word" where
  "configTOTAL_HEAP_SIZE = 26 * 1024"

definition portBYTE_ALIGNMENT_MASK :: "32 word" where
  "portBYTE_ALIGNMENT_MASK = 7"

definition xHeapStructSize :: "32 word" where
  "xHeapStructSize = (8 + (8 - 1)) AND NOT portBYTE_ALIGNMENT_MASK"

definition heapMINIMUM_BLOCK_SIZE :: "32 word" where
  "heapMINIMUM_BLOCK_SIZE = push_bit 1 xHeapStructSize"

definition heapBLOCK_ALLOCATED_BITMASK :: "32 word" where
  "heapBLOCK_ALLOCATED_BITMASK = push_bit 31 1"

definition heapMULTIPLY_WILL_OVERFLOW :: "32 word \<Rightarrow> 32 word \<Rightarrow> bool" where
  "heapMULTIPLY_WILL_OVERFLOW a b \<longleftrightarrow> a > 0 \<and> b > NOT 0 div a"

definition heapADD_WILL_OVERFLOW :: "32 word \<Rightarrow> 32 word \<Rightarrow> bool" where
  "heapADD_WILL_OVERFLOW a b \<longleftrightarrow> a > NOT 0 - b"

definition heapBLOCK_SIZE_IS_VALID :: "32 word \<Rightarrow> bool" where
  "heapBLOCK_SIZE_IS_VALID n \<longleftrightarrow> n AND heapBLOCK_ALLOCATED_BITMASK = 0"

definition heapBLOCK_IS_ALLOCATED :: "32 word \<Rightarrow> heap4 \<Rightarrow> bool" where
  "heapBLOCK_IS_ALLOCATED b h \<longleftrightarrow> xBlockSize h b AND heapBLOCK_ALLOCATED_BITMASK \<noteq> 0"

abbreviation set_nextfree where
  "set_nextfree b v h \<equiv> h\<lparr>pxNextFreeBlock := (pxNextFreeBlock h)(b := v)\<rparr>"

abbreviation set_size where
  "set_size b v h \<equiv> h\<lparr>xBlockSize := (xBlockSize h)(b := v)\<rparr>"

definition heapALLOCATE_BLOCK :: "32 word \<Rightarrow> heap4 \<Rightarrow> heap4" where
  "heapALLOCATE_BLOCK b h = set_size b (xBlockSize h b OR heapBLOCK_ALLOCATED_BITMASK) h"

definition heapFREE_BLOCK :: "32 word \<Rightarrow> heap4 \<Rightarrow> heap4" where
  "heapFREE_BLOCK b h = set_size b (xBlockSize h b AND NOT heapBLOCK_ALLOCATED_BITMASK) h"

section \<open>Operations\<close>

text \<open>The loops of the code have no bound; not returning is None.\<close>

partial_function (option) insert_iter :: "heap4 \<Rightarrow> 32 word \<Rightarrow> 32 word \<Rightarrow> 32 word option" where
  "insert_iter h b it =
     (if pxNextFreeBlock h it < b then insert_iter h b (pxNextFreeBlock h it) else Some it)"

definition merge_before :: "32 word \<Rightarrow> 32 word \<Rightarrow> heap4 \<Rightarrow> 32 word \<times> heap4" where
  "merge_before it b h =
     (if it + xBlockSize h it = b then (it, set_size it (xBlockSize h it + xBlockSize h b) h) else (b, h))"

definition merge_after :: "32 word \<Rightarrow> 32 word \<Rightarrow> heap4 \<Rightarrow> heap4" where
  "merge_after it b h =
     (let nx = pxNextFreeBlock h it
      in if b + xBlockSize h b = nx
         then if nx \<noteq> pxEnd h
              then let h1 = set_size b (xBlockSize h b + xBlockSize h nx) h
                   in set_nextfree b (pxNextFreeBlock h1 (pxNextFreeBlock h1 it)) h1
              else set_nextfree b (pxEnd h) h
         else set_nextfree b nx h)"

definition prvInsertBlockIntoFreeList :: "32 word \<Rightarrow> heap4 \<Rightarrow> heap4 option" where
  "prvInsertBlockIntoFreeList b h =
     do { it \<leftarrow> insert_iter h b (xStart h);
          let (b, h) = merge_before it b h;
          let h = merge_after it b h;
          Some (if it \<noteq> b then set_nextfree it b h else h) }"

definition prvHeapInit :: "heap4 \<Rightarrow> heap4" where
  "prvHeapInit h =
     (let a = ucHeap h;
          unaligned = a AND portBYTE_ALIGNMENT_MASK \<noteq> 0;
          a' = (if unaligned then (a + (8 - 1)) AND NOT portBYTE_ALIGNMENT_MASK else a);
          total = (if unaligned then configTOTAL_HEAP_SIZE - (a' - a) else configTOTAL_HEAP_SIZE);
          h1 = set_nextfree (xStart h) a' h;
          h2 = set_size (xStart h) 0 h1;
          e = (a' + total - xHeapStructSize) AND NOT portBYTE_ALIGNMENT_MASK;
          h3 = h2\<lparr>pxEnd := e\<rparr>;
          h4 = set_size e 0 h3;
          h5 = set_nextfree e 0 h4;
          h6 = set_size a' (e - a') h5;
          h7 = set_nextfree a' e h6
      in h7\<lparr>xMinimumEverFreeBytesRemaining := xBlockSize h7 a',
            xFreeBytesRemaining := xBlockSize h7 a'\<rparr>)"

text \<open>The size of the block that serves a request: 0 when the sum would overflow.\<close>

definition malloc_block_size :: "32 word \<Rightarrow> 32 word" where
  "malloc_block_size w =
     (if w > 0 then
        let add = xHeapStructSize + 8 - (w AND portBYTE_ALIGNMENT_MASK)
        in if \<not> heapADD_WILL_OVERFLOW w add then w + add else 0
      else w)"

partial_function (option) malloc_iter ::
    "heap4 \<Rightarrow> 32 word \<Rightarrow> 32 word \<Rightarrow> 32 word \<Rightarrow> (32 word \<times> 32 word) option" where
  "malloc_iter h w prev b =
     (if xBlockSize h b < w \<and> pxNextFreeBlock h b \<noteq> 0 then malloc_iter h w b (pxNextFreeBlock h b)
      else Some (prev, b))"

definition malloc_split :: "32 word \<Rightarrow> 32 word \<Rightarrow> heap4 \<Rightarrow> heap4 option" where
  "malloc_split w b h =
     (if xBlockSize h b - w > heapMINIMUM_BLOCK_SIZE
      then let new = b + w;
               h1 = set_size new (xBlockSize h b - w) h;
               h2 = set_size b w h1
           in prvInsertBlockIntoFreeList new h2
      else Some h)"

definition malloc_account :: "32 word \<Rightarrow> heap4 \<Rightarrow> heap4" where
  "malloc_account b h =
     (let h1 = h\<lparr>xFreeBytesRemaining := xFreeBytesRemaining h - xBlockSize h b\<rparr>;
          h2 = (if xFreeBytesRemaining h1 < xMinimumEverFreeBytesRemaining h1
                then h1\<lparr>xMinimumEverFreeBytesRemaining := xFreeBytesRemaining h1\<rparr> else h1);
          h3 = set_nextfree b 0 (heapALLOCATE_BLOCK b h2)
      in h3\<lparr>xNumberOfSuccessfulAllocations := xNumberOfSuccessfulAllocations h3 + 1\<rparr>)"

definition malloc_take :: "32 word \<Rightarrow> heap4 \<Rightarrow> (32 word \<times> heap4) option" where
  "malloc_take w h =
     do { (prev, b) \<leftarrow> malloc_iter h w (xStart h) (pxNextFreeBlock h (xStart h));
          if b \<noteq> pxEnd h
          then do { let ret = pxNextFreeBlock h prev + xHeapStructSize;
                    h \<leftarrow> malloc_split w b (set_nextfree prev (pxNextFreeBlock h b) h);
                    Some (ret, malloc_account b h) }
          else Some (0, h) }"

definition pvPortMalloc :: "32 word \<Rightarrow> heap4 \<Rightarrow> (32 word \<times> heap4) option" where
  "pvPortMalloc w h =
     (let h = (if pxEnd h = 0 then prvHeapInit h else h);
          w = malloc_block_size w
      in if heapBLOCK_SIZE_IS_VALID w \<and> w > 0 \<and> w \<le> xFreeBytesRemaining h
         then malloc_take w h else Some (0, h))"

definition vPortFree :: "32 word \<Rightarrow> heap4 \<Rightarrow> heap4 option" where
  "vPortFree pv h =
     (let b = pv - xHeapStructSize
      in if pv \<noteq> 0 \<and> heapBLOCK_IS_ALLOCATED b h \<and> pxNextFreeBlock h b = 0
         then do { let h = heapFREE_BLOCK b h;
                   let h = h\<lparr>xFreeBytesRemaining := xFreeBytesRemaining h + xBlockSize h b\<rparr>;
                   h \<leftarrow> prvInsertBlockIntoFreeList b h;
                   Some (h\<lparr>xNumberOfSuccessfulFrees := xNumberOfSuccessfulFrees h + 1\<rparr>) }
         else Some h)"

definition xPortGetFreeHeapSize :: "heap4 \<Rightarrow> 32 word" where
  "xPortGetFreeHeapSize h = xFreeBytesRemaining h"

definition xPortGetMinimumEverFreeHeapSize :: "heap4 \<Rightarrow> 32 word" where
  "xPortGetMinimumEverFreeHeapSize h = xMinimumEverFreeBytesRemaining h"

definition zero_payload :: "32 word \<Rightarrow> 32 word \<Rightarrow> heap4 \<Rightarrow> heap4" where
  "zero_payload p n h = h\<lparr>payload := (\<lambda>a. if a - p < n then 0 else payload h a)\<rparr>"

definition pvPortCalloc :: "32 word \<Rightarrow> 32 word \<Rightarrow> heap4 \<Rightarrow> (32 word \<times> heap4) option" where
  "pvPortCalloc xNum xSize h =
     (if \<not> heapMULTIPLY_WILL_OVERFLOW xNum xSize
      then do { (pv, h) \<leftarrow> pvPortMalloc (xNum * xSize) h;
                Some (pv, if pv \<noteq> 0 then zero_payload pv (xNum * xSize) h else h) }
      else Some (0, h))"

partial_function (option) stats_iter ::
    "heap4 \<Rightarrow> 32 word \<Rightarrow> 32 word \<times> 32 word \<times> 32 word \<Rightarrow> (32 word \<times> 32 word \<times> 32 word) option" where
  "stats_iter h b st =
     (if b \<noteq> pxEnd h
      then case st of (blocks, mx, mn) \<Rightarrow>
        stats_iter h (pxNextFreeBlock h b)
          (blocks + 1, if xBlockSize h b > mx then xBlockSize h b else mx,
           if xBlockSize h b < mn then xBlockSize h b else mn)
      else Some st)"

definition vPortGetHeapStats :: "heap4 \<Rightarrow> HeapStats_t option" where
  "vPortGetHeapStats h =
     (let b = pxNextFreeBlock h (xStart h)
      in do { (blocks, mx, mn) \<leftarrow> (if b \<noteq> 0 then stats_iter h b (0, 0, 0xffffffff) else Some (0, 0, 0xffffffff));
              Some \<lparr>xAvailableHeapSpaceInBytes = xFreeBytesRemaining h,
                    xSizeOfLargestFreeBlockInBytes = mx, xSizeOfSmallestFreeBlockInBytes = mn,
                    xNumberOfFreeBlocks = blocks,
                    xStatsMinimumEverFree = xMinimumEverFreeBytesRemaining h,
                    xStatsAllocations = xNumberOfSuccessfulAllocations h,
                    xStatsFrees = xNumberOfSuccessfulFrees h\<rparr> })"

section \<open>Singly linked chains\<close>

abbreviation chain :: "('p \<Rightarrow> 'p) \<Rightarrow> 'p list \<Rightarrow> bool" where
  "chain nx \<equiv> successively (\<lambda>p q. nx p = q)"

lemma chain_cong:
  assumes "\<And>p. p \<in> set (butlast ps) \<Longrightarrow> nx' p = nx p"
  shows "chain nx' ps = chain nx ps"
  using assms
proof (induction ps)
  case (Cons a ps)
  then show ?case by (cases ps) (auto simp: successively_Cons)
qed simp

lemma chain_join: "chain nx (ps @ a # qs) \<longleftrightarrow> chain nx (ps @ [a]) \<and> chain nx (a # qs)"
  by (auto simp: successively_append_iff successively_Cons)

lemma chain_parts:
  "chain nx (ps @ a # ms @ q # qs) \<longleftrightarrow> chain nx (ps @ [a]) \<and> chain nx (a # ms @ [q]) \<and> chain nx (q # qs)"
  using chain_join[of nx ps a "ms @ q # qs"] chain_join[of nx "a # ms" q qs] by simp

text \<open>Replacing the stretch between two pointers.\<close>

lemma chain_splice:
  assumes "chain nx (ps @ a # ms @ q # qs)" "chain nx' (a # ms' @ [q])"
    and "\<And>p. p \<in> set ps \<or> p \<in> set (q # qs) \<Longrightarrow> nx' p = nx p"
  shows "chain nx' (ps @ a # ms' @ q # qs)"
proof -
  have "chain nx' (ps @ [a]) = chain nx (ps @ [a])" "chain nx' (q # qs) = chain nx (q # qs)"
    using assms(3) by (intro chain_cong; auto dest: in_set_butlastD split: if_splits)+
  then show ?thesis using assms(1,2) unfolding chain_parts by blast
qed

lemma chain_insert:
  assumes "chain nx (ps @ a # q # qs)" "distinct (ps @ a # b # q # qs)"
  shows "chain (nx(b := q, a := b)) (ps @ a # b # q # qs)"
  by (rule chain_splice[of nx ps a "[]" q qs _ "[b]", simplified append_Cons append_Nil];
      use assms in \<open>auto simp: successively_Cons\<close>)

lemma chain_replace:
  assumes "chain nx (ps @ a # r # q # qs)" "distinct (ps @ a # b # r # q # qs)"
  shows "chain (nx(b := q, a := b)) (ps @ a # b # q # qs)"
  by (rule chain_splice[of nx ps a "[r]" q qs _ "[b]", simplified append_Cons append_Nil];
      use assms in \<open>auto simp: successively_Cons\<close>)

lemma chain_remove:
  assumes "chain nx (ps @ a # r # q # qs)" "distinct (ps @ a # r # q # qs)"
  shows "chain (nx(a := q)) (ps @ a # q # qs)"
  by (rule chain_splice[of nx ps a "[r]" q qs _ "[]", simplified append_Cons append_Nil];
      use assms in \<open>auto simp: successively_Cons\<close>)

section \<open>The free list\<close>

text \<open>Blocks as (address, size), in ascending order and apart, between \<open>lo\<close> and \<open>hi\<close>.\<close>

fun ordered :: "nat \<Rightarrow> (nat \<times> nat) list \<Rightarrow> nat \<Rightarrow> bool" where
  "ordered lo [] hi \<longleftrightarrow> lo \<le> hi"
| "ordered lo ((p, n) # F) hi \<longleftrightarrow> lo \<le> p \<and> 0 < n \<and> ordered (p + n) F hi"

lemma ordered_le: "ordered lo F hi \<Longrightarrow> lo \<le> hi"
  by (induction F arbitrary: lo) fastforce+

lemma ordered_append:
  "ordered lo (F @ G) hi \<longleftrightarrow> (\<exists>mid. ordered lo F mid \<and> ordered mid G hi)"
proof (induction F arbitrary: lo)
  case Nil
  then show ?case by (cases G) (auto intro: exI[of _ lo] dest: ordered_le)
qed auto

lemma ordered_mem: "ordered lo F hi \<Longrightarrow> (p, n) \<in> set F \<Longrightarrow> lo \<le> p \<and> 0 < n \<and> p + n \<le> hi"
  by (induction F arbitrary: lo) (fastforce dest: ordered_le)+

lemma ordered_weaken: "ordered lo F hi \<Longrightarrow> lo' \<le> lo \<Longrightarrow> ordered lo' F hi"
  by (cases F) auto

lemma ordered_distinct: "ordered lo F hi \<Longrightarrow> distinct (map fst F)"
proof (induction F arbitrary: lo)
  case (Cons x F)
  obtain p n where x: "x = (p, n)" by (cases x)
  have "fst y \<noteq> p" if "y \<in> set F" for y
    using ordered_mem[of "p + n" F hi "fst y" "snd y"] Cons.prems that by (auto simp: x)
  moreover have "distinct (map fst F)" using Cons by (auto simp: x)
  ultimately show ?case by (auto simp: x)
qed simp

text \<open>Where the list head, the free blocks and the end marker lie.\<close>

definition heap_env :: "heap4 \<Rightarrow> nat \<Rightarrow> nat \<Rightarrow> bool" where
  "heap_env h B e \<longleftrightarrow>
     pxEnd h = w32 e \<and> 0 < B \<and> B \<le> e \<and> e < 2 ^ 32 \<and>
     (unat (xStart h) < B \<or> e < unat (xStart h)) \<and>
     xBlockSize h (xStart h) = 0 \<and> xBlockSize h (pxEnd h) = 0 \<and> pxNextFreeBlock h (pxEnd h) = 0"

lemma heap_env_cong:
  assumes "heap_env h B e" "pxEnd h' = pxEnd h" "xStart h' = xStart h"
    and "xBlockSize h' (xStart h) = xBlockSize h (xStart h)" "xBlockSize h' (pxEnd h) = xBlockSize h (pxEnd h)"
    and "pxNextFreeBlock h' (pxEnd h) = pxNextFreeBlock h (pxEnd h)"
  shows "heap_env h' B e"
  using assms unfolding heap_env_def by metis

definition ptrs :: "(nat \<times> nat) list \<Rightarrow> 32 word list" where
  "ptrs F = map (\<lambda>x. w32 (fst x)) F"

lemma ptrs_simps [simp]:
  "ptrs [] = []" "ptrs (x # F) = w32 (fst x) # ptrs F" "ptrs (F @ G) = ptrs F @ ptrs G"
  by (simp_all add: ptrs_def)

lemma ptrs_mem: "(q, m) \<in> set F \<Longrightarrow> w32 q \<in> set (ptrs F)"
  by (auto simp: ptrs_def intro: rev_image_eqI)

definition freelist :: "heap4 \<Rightarrow> (nat \<times> nat) list \<Rightarrow> bool" where
  "freelist h F \<longleftrightarrow>
     chain (pxNextFreeBlock h) (xStart h # ptrs F @ [pxEnd h]) \<and>
     (\<forall>(p, n) \<in> set F. xBlockSize h (w32 p) = w32 n)"

lemma ptrs_distinct:
  assumes "heap_env h B e" "ordered B F e"
  shows "distinct (xStart h # ptrs F @ [pxEnd h])"
proof -
  have m: "B \<le> p \<and> 0 < n \<and> p + n \<le> e" if "(p, n) \<in> set F" for p n
    using ordered_mem[OF assms(2) that] .
  have e: "e < 2 ^ 32" "0 < B" "B \<le> e" using assms(1) by (auto simp: heap_env_def)
  have "inj_on (\<lambda>x. w32 (fst x)) (set F)"
  proof (rule inj_onI)
    fix x y assume x: "x \<in> set F" "y \<in> set F" "w32 (fst x) = w32 (fst y)"
    then have "fst x = fst y"
      using m[of "fst x" "snd x"] m[of "fst y" "snd y"] e by (simp add: w32_eq)
    with x ordered_distinct[OF assms(2)] show "x = y"
      by (metis distinct_map inj_onD)
  qed
  moreover have "distinct F" using ordered_distinct[OF assms(2)] by (simp add: distinct_map)
  moreover have "xStart h \<noteq> w32 p \<and> pxEnd h \<noteq> w32 p" if "(p, n) \<in> set F" for p n
  proof -
    have "unat (w32 p) = p" "pxEnd h = w32 e" "p < e" using m[OF that] e assms(1) by (auto simp: unat_w32 heap_env_def)
    moreover have "p < B \<or> e < p" if "xStart h = w32 p"
      using assms(1) that \<open>unat (w32 p) = p\<close> by (auto simp: heap_env_def)
    ultimately show ?thesis using m[OF that] e by (auto simp: w32_eq)
  qed
  moreover have "xStart h \<noteq> pxEnd h" using assms(1) e by (auto simp: heap_env_def unat_w32)
  moreover have "xStart h \<notin> set (ptrs F)" "pxEnd h \<notin> set (ptrs F)"
    using calculation(3) unfolding ptrs_def by (metis (no_types, lifting) imageE list.set_map prod.collapse)+
  ultimately show ?thesis by (simp add: ptrs_def distinct_map)
qed

section \<open>Insertion into the free list\<close>

abbreviation prevp :: "heap4 \<Rightarrow> (nat \<times> nat) list \<Rightarrow> 32 word" where
  "prevp h L \<equiv> last (xStart h # ptrs L)"

abbreviation nextp :: "heap4 \<Rightarrow> (nat \<times> nat) list \<Rightarrow> 32 word" where
  "nextp h R \<equiv> hd (ptrs R @ [pxEnd h])"

lemma nextp_Cons: "nextp h ((r, k) # R) = w32 r"
  by simp

lemma freelist_link: "freelist h (L @ R) \<Longrightarrow> pxNextFreeBlock h (prevp h L) = nextp h R"
proof -
  assume "freelist h (L @ R)"
  then have "chain (pxNextFreeBlock h) ((xStart h # ptrs L) @ (ptrs R @ [pxEnd h]))"
    by (simp add: freelist_def)
  then show "pxNextFreeBlock h (prevp h L) = nextp h R"
    unfolding successively_append_iff[of _ "xStart h # ptrs L"] by blast
qed

lemma insert_iter_stops:
  assumes "freelist h (L1 @ L2 @ R)" "\<And>q m. (q, m) \<in> set L2 \<Longrightarrow> w32 q < b" "\<not> nextp h R < b"
  shows "insert_iter h b (prevp h L1) = Some (prevp h (L1 @ L2))"
  using assms(1,2)
proof (induction L2 arbitrary: L1)
  case Nil
  then show ?case using assms(3) freelist_link[of h L1 R] by (subst insert_iter.simps) simp
next
  case (Cons x L2)
  obtain q m where x: "x = (q, m)" by (cases x)
  have "pxNextFreeBlock h (prevp h L1) = w32 q" using freelist_link[of h L1 "x # L2 @ R"] Cons.prems(1) x by simp
  moreover have "w32 q < b" using Cons.prems(2)[of q m] x by simp
  moreover have "insert_iter h b (prevp h (L1 @ [x])) = Some (prevp h ((L1 @ [x]) @ L2))"
    using Cons.prems by (intro Cons.IH) auto
  ultimately show ?case using x by (subst insert_iter.simps) simp
qed

text \<open>The free list after the insertion of a block of \<open>n\<close> bytes at \<open>p\<close> between \<open>L\<close> and \<open>R\<close>.\<close>

fun join_right :: "nat \<Rightarrow> nat \<Rightarrow> (nat \<times> nat) list \<Rightarrow> (nat \<times> nat) list" where
  "join_right p n [] = [(p, n)]"
| "join_right p n ((r, k) # R) = (if p + n = r then (p, n + k) # R else (p, n) # (r, k) # R)"

definition touches :: "(nat \<times> nat) list \<Rightarrow> nat \<Rightarrow> bool" where
  "touches L p \<longleftrightarrow> L \<noteq> [] \<and> fst (last L) + snd (last L) = p"

definition finsert :: "(nat \<times> nat) list \<Rightarrow> nat \<Rightarrow> nat \<Rightarrow> (nat \<times> nat) list \<Rightarrow> (nat \<times> nat) list" where
  "finsert L p n R =
     (if touches L p then butlast L @ join_right (fst (last L)) (snd (last L) + n) R
      else L @ join_right p n R)"

fun right_link :: "heap4 \<Rightarrow> nat \<Rightarrow> nat \<Rightarrow> (nat \<times> nat) list \<Rightarrow> 32 word" where
  "right_link h p n [] = pxEnd h"
| "right_link h p n ((r, k) # R) = (if p + n = r then pxNextFreeBlock h (w32 r) else w32 r)"

fun right_size :: "nat \<Rightarrow> nat \<Rightarrow> (nat \<times> nat) list \<Rightarrow> 32 word" where
  "right_size p n [] = w32 n"
| "right_size p n ((r, k) # R) = (if p + n = r then w32 (n + k) else w32 n)"

text \<open>The two merge steps on a state whose pointers are known.\<close>

lemma merge_before_cases:
  assumes env: "heap_env h B e" and fl: "freelist h (L @ R)" and o: "ordered B (L @ (p, n) # R) e"
  shows "merge_before (prevp h L) (w32 p) h =
     (if touches L p then (prevp h L, set_size (prevp h L) (w32 (snd (last L)) + xBlockSize h (w32 p)) h)
      else (w32 p, h))"
proof (cases L rule: rev_cases)
  case Nil
  have "xStart h \<noteq> w32 p" using ptrs_distinct[OF env o] by auto
  then show ?thesis using env Nil by (simp add: merge_before_def touches_def heap_env_def)
next
  case (snoc L0 x)
  obtain q m where x: "x = (q, m)" by (cases x)
  have "p < e" "e < 2 ^ 32" using ordered_mem[OF o, of p n] env by (auto simp: heap_env_def)
  moreover have "q + m \<le> p" using o snoc x by (auto simp: ordered_append)
  ultimately have "w32 (q + m) = w32 p \<longleftrightarrow> q + m = p" by (intro w32_eq) simp_all
  moreover have "xBlockSize h (w32 q) = w32 m" using fl snoc x by (auto simp: freelist_def)
  ultimately show ?thesis using snoc x by (simp add: merge_before_def touches_def)
qed

lemma merge_after_cases:
  assumes env: "heap_env h B e" and o: "ordered B ((p, n) # R) e"
    and nx: "pxNextFreeBlock h it = nextp h R" and sz: "xBlockSize h (w32 p) = w32 n"
    and szR: "\<And>r k. (r, k) \<in> set R \<Longrightarrow> xBlockSize h (w32 r) = w32 k"
  shows "merge_after it (w32 p) h =
     h\<lparr>pxNextFreeBlock := (pxNextFreeBlock h)(w32 p := right_link h p n R),
       xBlockSize := (xBlockSize h)(w32 p := right_size p n R)\<rparr>"
proof (cases R)
  case Nil
  have "(xBlockSize h)(w32 p := w32 n) = xBlockSize h" using sz by (rule fun_upd_idem)
  then show ?thesis using nx Nil by (simp add: merge_after_def Let_def)
next
  case (Cons x R0)
  obtain r k where x: "x = (r, k)" by (cases x)
  have e: "e < 2 ^ 32" using env by (simp add: heap_env_def)
  have r: "p + n \<le> r" "r < e" using o Cons x ordered_le[of "r + k" R0 e] by auto
  then have "w32 (p + n) = w32 r \<longleftrightarrow> p + n = r" using e by (intro w32_eq) simp_all
  moreover have "w32 r \<noteq> pxEnd h" using r e env by (simp add: heap_env_def w32_eq)
  moreover have "xBlockSize h (w32 r) = w32 k" using szR Cons x by simp
  moreover have "(xBlockSize h)(w32 p := w32 n) = xBlockSize h" using sz by (rule fun_upd_idem)
  ultimately show ?thesis using nx sz Cons x by (simp add: merge_after_def Let_def)
qed

text \<open>The chain and the sizes after the links of the right neighbour are settled.\<close>

lemma chain_join_right:
  assumes c: "chain nx (ps @ a # ptrs R @ [E])" and d: "distinct (ps @ a # w32 p # ptrs R @ [E])"
    and nxb: "nxb = right_link h p n R" and h: "nx = pxNextFreeBlock h" "E = pxEnd h"
  shows "chain (nx(w32 p := nxb, a := w32 p)) (ps @ a # ptrs (join_right p n R) @ [E])"
proof (cases R)
  case Nil
  then show ?thesis using chain_insert[of nx ps a E "[]" "w32 p"] c d nxb h by simp
next
  case (Cons x R0)
  obtain r k where x: "x = (r, k)" by (cases x)
  show ?thesis
  proof (cases "p + n = r")
    case False
    then show ?thesis
      using chain_insert[of nx ps a "w32 r" "ptrs R0 @ [E]" "w32 p"] c d nxb h Cons x by simp
  next
    case True
    obtain q qs where q: "ptrs R0 @ [E] = q # qs" by (cases "ptrs R0 @ [E]") auto
    have c': "chain nx (ps @ a # w32 r # q # qs)" "distinct (ps @ a # w32 p # w32 r # q # qs)"
      using c d Cons x q by simp_all
    have "nx (w32 r) = q"
      using c'(1) chain_join[of nx "ps @ [a]" "w32 r" "q # qs"] by (simp add: successively_Cons)
    with chain_replace[OF c'] show ?thesis using nxb h Cons x True q by simp
  qed
qed

lemma chain_join_right_merged:
  assumes c: "chain nx (ps @ w32 a # ptrs R @ [E])" and d: "distinct (ps @ w32 a # ptrs R @ [E])"
    and nxb: "nxb = right_link h a n R" and h: "nx = pxNextFreeBlock h" "E = pxEnd h"
  shows "chain (nx(w32 a := nxb)) (ps @ ptrs (join_right a n R) @ [E])"
proof (cases R)
  case Nil
  then have "nx (w32 a) = E" using c chain_join[of nx ps "w32 a" "[E]"] by simp
  then show ?thesis using Nil c nxb h by (simp add: fun_upd_idem)
next
  case (Cons x R0)
  obtain r k where x: "x = (r, k)" by (cases x)
  show ?thesis
  proof (cases "a + n = r")
    case False
    have "nx (w32 a) = w32 r"
      using c chain_join[of nx ps "w32 a" "ptrs R @ [E]"] Cons x by (simp add: successively_Cons)
    then show ?thesis using False c nxb h Cons x by (simp add: fun_upd_idem)
  next
    case True
    obtain q qs where q: "ptrs R0 @ [E] = q # qs" by (cases "ptrs R0 @ [E]") auto
    have c': "chain nx (ps @ w32 a # w32 r # q # qs)" "distinct (ps @ w32 a # w32 r # q # qs)"
      using c d Cons x q by simp_all
    have "nx (w32 r) = q"
      using c'(1) chain_join[of nx "ps @ [w32 a]" "w32 r" "q # qs"] by (simp add: successively_Cons)
    with chain_remove[OF c'] show ?thesis using nxb h Cons x True q by simp
  qed
qed

lemma sizes_join_right:
  assumes "\<And>r k. (r, k) \<in> set R \<Longrightarrow> sz (w32 r) = w32 k" "w32 p \<notin> set (ptrs R)"
    and "szp = right_size p n R"
    and "(q, m) \<in> set (join_right p n R)"
  shows "(sz(w32 p := szp)) (w32 q) = w32 m"
proof -
  have "w32 q \<noteq> w32 p" if "(q, k) \<in> set R" for q k
    using assms(2) that by (force simp: ptrs_def)
  then show ?thesis using assms(1,3,4) by (cases R) (fastforce split: if_splits)+
qed

definition insert_frame :: "32 word set \<Rightarrow> (32 word \<Rightarrow> 32 word) \<Rightarrow> (32 word \<Rightarrow> 32 word) \<Rightarrow> bool" where
  "insert_frame A f g \<longleftrightarrow> (\<forall>a. a \<notin> A \<longrightarrow> g a = f a)"

text \<open>\<open>prvInsertBlockIntoFreeList\<close>: the loop ends, the block is linked in at its place, and only
  headers of free blocks (and the list head's link) change.\<close>

lemma prvInsert_freelist:
  assumes env: "heap_env h B e" and fl: "freelist h (L @ R)" and o: "ordered B (L @ (p, n) # R) e"
    and sz: "xBlockSize h (w32 p) = w32 n"
  shows "\<exists>nx sz. prvInsertBlockIntoFreeList (w32 p) h = Some (h\<lparr>pxNextFreeBlock := nx, xBlockSize := sz\<rparr>) \<and>
      freelist (h\<lparr>pxNextFreeBlock := nx, xBlockSize := sz\<rparr>) (finsert L p n R) \<and>
      insert_frame (insert (xStart h) (set (ptrs (L @ [(p, n)])))) (pxNextFreeBlock h) nx \<and>
      insert_frame (set (ptrs (L @ [(p, n)]))) (xBlockSize h) sz \<and> unat (sz (w32 p)) \<le> e - p"
proof -
  note D = ptrs_distinct[OF env o]
  have e: "e < 2 ^ 32" "pxEnd h = w32 e" using env by (auto simp: heap_env_def)
  have pe: "p < e" using ordered_mem[OF o, of p n] by simp
  obtain mid where mid: "ordered B L mid" "ordered mid ((p, n) # R) e" using o by (auto simp: ordered_append)
  have szL: "xBlockSize h (w32 r) = w32 k" if "(r, k) \<in> set (L @ R)" for r k
    using fl that by (auto simp: freelist_def)
  then have szR: "xBlockSize h (w32 r) = w32 k" if "(r, k) \<in> set R" for r k
    using that by simp
  have iter: "insert_iter h (w32 p) (xStart h) = Some (prevp h L)"
  proof -
    have "w32 q < w32 p" if "(q, m) \<in> set L" for q m
      using ordered_mem[OF mid(1) that] mid(2) pe e(1) by (simp add: w32_less)
    moreover have "\<not> nextp h R < w32 p"
    proof (cases R)
      case Nil then show ?thesis using e pe by (simp add: w32_less)
    next
      case (Cons x R0)
      then have "p \<le> fst x" "fst x < e"
        using mid(2) ordered_mem[of "p + n" R e "fst x" "snd x"] by (cases x; auto)+
      then show ?thesis using Cons e by (simp add: w32_less)
    qed
    ultimately show ?thesis using insert_iter_stops[of h "[]" L R "w32 p"] fl by simp
  qed
  let ?nxb = "right_link h p n R" and ?szb = "right_size p n R"
  have chain0: "chain (pxNextFreeBlock h) ((xStart h # ptrs L) @ ptrs R @ [pxEnd h])"
    using fl by (simp add: freelist_def)
  have D0: "distinct ((xStart h # ptrs L) @ w32 p # ptrs R @ [pxEnd h])" using D by simp
  show ?thesis
  proof (cases "touches L p")
    case False
    obtain ps a where ps: "xStart h # ptrs L = ps @ [a]" and a: "prevp h L = a"
      by (metis append_butlast_last_id list.distinct(1))
    let ?nx = "(pxNextFreeBlock h)(w32 p := ?nxb, a := w32 p)"
    let ?sz = "(xBlockSize h)(w32 p := ?szb)"
    have ain: "a \<in> set (xStart h # ptrs L)" unfolding ps by simp
    then have ne: "a \<noteq> w32 p" using D by auto
    have mb: "merge_before (prevp h L) (w32 p) h = (w32 p, h)"
      using merge_before_cases[OF env fl o] False by simp
    have ma: "merge_after (prevp h L) (w32 p) h =
        h\<lparr>pxNextFreeBlock := (pxNextFreeBlock h)(w32 p := ?nxb), xBlockSize := ?sz\<rparr>"
      by (rule merge_after_cases[OF env ordered_weaken[OF mid(2) ordered_le[OF mid(1)]] freelist_link[OF fl] sz])
         (rule szR)
    have "prvInsertBlockIntoFreeList (w32 p) h = Some (h\<lparr>pxNextFreeBlock := ?nx, xBlockSize := ?sz\<rparr>)"
      using mb ma ne unfolding prvInsertBlockIntoFreeList_def iter a by simp
    moreover have "chain ?nx (ps @ a # ptrs (join_right p n R) @ [pxEnd h])"
    proof (rule chain_join_right)
      show "chain (pxNextFreeBlock h) (ps @ a # ptrs R @ [pxEnd h])"
        using chain0 unfolding ps by simp
      show "distinct (ps @ a # w32 p # ptrs R @ [pxEnd h])"
        using D0 unfolding ps by simp
    qed simp_all
    moreover have "xStart h # ptrs (finsert L p n R) @ [pxEnd h] = ps @ a # ptrs (join_right p n R) @ [pxEnd h]"
    proof -
      have "xStart h # ptrs (finsert L p n R) @ [pxEnd h] =
          (xStart h # ptrs L) @ ptrs (join_right p n R) @ [pxEnd h]" using False by (simp add: finsert_def)
      then show ?thesis unfolding ps by simp
    qed
    ultimately have c: "chain ?nx (xStart h # ptrs (finsert L p n R) @ [pxEnd h])"
      and r: "prvInsertBlockIntoFreeList (w32 p) h = Some (h\<lparr>pxNextFreeBlock := ?nx, xBlockSize := ?sz\<rparr>)"
      by (simp_all only:)
    have z: "((xBlockSize h)(w32 p := ?szb)) (w32 q) = w32 m" if "(q, m) \<in> set (finsert L p n R)" for q m
    proof (cases "(q, m) \<in> set L")
      case True
      then have "w32 q \<noteq> w32 p" using D0 ptrs_mem[of q m L] by auto
      then show ?thesis using szL[of q m] True by simp
    next
      case f: False
      then have "(q, m) \<in> set (join_right p n R)" using that False by (simp add: finsert_def)
      then show ?thesis using D0
        by (intro sizes_join_right[where R = R and n = n and sz = "xBlockSize h"]) (simp_all add: szR)
    qed
    have f: "insert_frame (insert (xStart h) (set (ptrs (L @ [(p, n)])))) (pxNextFreeBlock h) ?nx"
      "insert_frame (set (ptrs (L @ [(p, n)]))) (xBlockSize h) ?sz"
      using ain by (auto simp: insert_frame_def)
    have "unat ?szb \<le> e - p"
    proof (cases R)
      case (Cons x R0)
      obtain q k where "x = (q, k)" by (cases x)
      then show ?thesis using Cons mid(2) e(1) ordered_le[of "q + k" R0 e]
        by (auto simp: unat_w32 simp del: of_nat_add)
    qed (use mid(2) e(1) in \<open>auto simp: unat_w32\<close>)
    then have k: "unat (?sz (w32 p)) \<le> e - p" by simp
    have "freelist (h\<lparr>pxNextFreeBlock := ?nx, xBlockSize := ?sz\<rparr>) (finsert L p n R)"
      unfolding freelist_def using c z by auto
    with r f k show ?thesis by (intro exI[of _ ?nx] exI[of _ ?sz] conjI)
  next
    case True
    then obtain L0 q m where L: "L = L0 @ [(q, m)]" "q + m = p"
      by (cases L rule: rev_cases) (auto simp: touches_def)
    let ?nx = "(pxNextFreeBlock h)(w32 q := right_link h q (m + n) R)"
    let ?sz = "(xBlockSize h)(w32 q := right_size q (m + n) R)"
    let ?h1 = "set_size (w32 q) (w32 (m + n)) h"
    have mb: "merge_before (prevp h L) (w32 p) h = (w32 q, ?h1)"
      using merge_before_cases[OF env fl o] True L sz by simp
    have qR: "w32 q \<notin> set (ptrs R)" "w32 q \<noteq> xStart h" "w32 q \<noteq> pxEnd h" using D L by auto
    have env1: "heap_env ?h1 B e" using env qR by (auto simp: heap_env_def)
    have "0 < m" "B \<le> q" using ordered_mem[OF mid(1), of q m] L by simp_all
    then have o1: "ordered B ((q, m + n) # R) e"
      using mid(2) o L by (auto simp: ordered_append add.assoc)
    have rl: "right_link ?h1 q (m + n) R = right_link h q (m + n) R" by (cases R) auto
    have szR1: "xBlockSize ?h1 (w32 r) = w32 k" if "(r, k) \<in> set R" for r k
      using szR[OF that] qR(1) ptrs_mem[OF that] by auto
    have "pxNextFreeBlock ?h1 (w32 q) = nextp ?h1 R" using freelist_link[OF fl] L by simp
    moreover have "xBlockSize ?h1 (w32 q) = w32 (m + n)" by simp
    ultimately have "merge_after (w32 q) (w32 q) ?h1 =
        ?h1\<lparr>pxNextFreeBlock := (pxNextFreeBlock ?h1)(w32 q := right_link ?h1 q (m + n) R),
            xBlockSize := (xBlockSize ?h1)(w32 q := right_size q (m + n) R)\<rparr>"
      using szR1 by (rule merge_after_cases[OF env1 o1])
    then have ma: "merge_after (w32 q) (w32 q) ?h1 = h\<lparr>pxNextFreeBlock := ?nx, xBlockSize := ?sz\<rparr>"
      by (simp add: rl[simplified])
    have r: "prvInsertBlockIntoFreeList (w32 p) h = Some (h\<lparr>pxNextFreeBlock := ?nx, xBlockSize := ?sz\<rparr>)"
      using mb ma L unfolding prvInsertBlockIntoFreeList_def iter by simp
    have "chain ?nx ((xStart h # ptrs L0) @ ptrs (join_right q (m + n) R) @ [pxEnd h])"
      using chain0 D0 L by (intro chain_join_right_merged[of _ _ _ R _ _ h]) simp_all
    then have c: "chain ?nx (xStart h # ptrs (finsert L p n R) @ [pxEnd h])"
      using True L by (simp add: finsert_def)
    have z: "((xBlockSize h)(w32 q := right_size q (m + n) R)) (w32 r) = w32 k" if "(r, k) \<in> set (finsert L p n R)" for r k
    proof (cases "(r, k) \<in> set L0")
      case True
      then have "w32 r \<noteq> w32 q" using D0 ptrs_mem[of r k L0] L by auto
      then show ?thesis using szL[of r k] True L by simp
    next
      case f: False
      then have "(r, k) \<in> set (join_right q (m + n) R)" using that True L by (simp add: finsert_def)
      then show ?thesis using qR
        by (intro sizes_join_right[where R = R and n = "m + n" and sz = "xBlockSize h"]) (simp_all add: szR)
    qed
    have f: "insert_frame (insert (xStart h) (set (ptrs (L @ [(p, n)])))) (pxNextFreeBlock h) ?nx"
      "insert_frame (set (ptrs (L @ [(p, n)]))) (xBlockSize h) ?sz"
      using L by (auto simp: insert_frame_def)
    have "w32 p \<noteq> w32 q" using D0 L by auto
    then have k: "unat (?sz (w32 p)) \<le> e - p"
      using sz ordered_le[of "p + n" R e] mid(2) e(1) by (simp add: unat_w32)
    have "freelist (h\<lparr>pxNextFreeBlock := ?nx, xBlockSize := ?sz\<rparr>) (finsert L p n R)"
      unfolding freelist_def using c z by auto
    with r f k show ?thesis by (intro exI[of _ ?nx] exI[of _ ?sz] conjI)
  qed
qed

section \<open>Searching the free list\<close>

lemma malloc_iter_stops:
  assumes env: "heap_env h B e" and fl: "freelist h (L1 @ L2 @ R)" and o: "ordered B (L1 @ L2 @ R) e"
    and small: "\<And>q m. (q, m) \<in> set L2 \<Longrightarrow> w32 m < w" and big: "R = [] \<or> w \<le> w32 (snd (hd R))" and w: "0 < w"
  shows "malloc_iter h w (prevp h L1) (nextp h (L2 @ R)) = Some (prevp h (L1 @ L2), nextp h R)"
  using fl o small
proof (induction L2 arbitrary: L1)
  case Nil
  show ?case
  proof (cases R)
    case Nil
    have "pxNextFreeBlock h (pxEnd h) = 0" using env unfolding heap_env_def by blast
    then show ?thesis using w Nil by (subst malloc_iter.simps) simp
  next
    case (Cons x R0)
    then have "xBlockSize h (w32 (fst x)) = w32 (snd x)"
      using Nil.prems(1) by (cases x) (simp add: freelist_def)
    moreover have "\<not> w32 (snd x) < w" using Cons big by (simp add: not_less)
    ultimately show ?thesis using Cons by (subst malloc_iter.simps) simp
  qed
next
  case (Cons x L2)
  obtain q m where x: "x = (q, m)" by (cases x)
  have sz: "xBlockSize h (w32 q) = w32 m" using Cons.prems(1) x by (simp add: freelist_def)
  have nx: "pxNextFreeBlock h (w32 q) = nextp h (L2 @ R)"
    using freelist_link[of h "L1 @ [x]" "L2 @ R"] Cons.prems(1) x by simp
  have "nextp h (L2 @ R) \<noteq> 0"
  proof (cases "L2 @ R")
    case Nil
    then show ?thesis using env w32_eq[of e 0] by (simp add: heap_env_def)
  next
    case (Cons y F)
    then have "y \<in> set (L2 @ R)" by simp
    then have "y \<in> set (L1 @ (x # L2) @ R)" by auto
    then have "B \<le> fst y" "fst y < e"
      using ordered_mem[OF Cons.prems(2), of "fst y" "snd y"] by simp_all
    then show ?thesis using env Cons w32_eq[of "fst y" 0] by (simp add: heap_env_def)
  qed
  moreover have "w32 m < w" using Cons.prems(3)[of q m] x by simp
  moreover have "malloc_iter h w (prevp h (L1 @ [x])) (nextp h (L2 @ R)) = Some (prevp h ((L1 @ [x]) @ L2), nextp h R)"
    using Cons.prems by (intro Cons.IH) auto
  ultimately show ?case using x sz nx by (subst malloc_iter.simps) simp
qed

section \<open>The heap as a tiling\<close>

text \<open>The blocks in address order: size (with header) and whether the block is allocated.\<close>

type_synonym blocks = "(nat \<times> bool) list"

definition tile_bytes :: "blocks \<Rightarrow> nat" where
  "tile_bytes bs = sum_list (map fst bs)"

fun frees :: "nat \<Rightarrow> blocks \<Rightarrow> (nat \<times> nat) list" where
  "frees a [] = []"
| "frees a ((n, al) # bs) = (if al then frees (a + n) bs else (a, n) # frees (a + n) bs)"

fun allocs :: "nat \<Rightarrow> blocks \<Rightarrow> (nat \<times> nat) list" where
  "allocs a [] = []"
| "allocs a ((n, al) # bs) = (if al then (a, n) # allocs (a + n) bs else allocs (a + n) bs)"

definition free_bytes :: "blocks \<Rightarrow> nat" where
  "free_bytes bs = sum_list (map (\<lambda>(n, al). if al then 0 else n) bs)"

definition coalesced :: "blocks \<Rightarrow> bool" where
  "coalesced bs \<longleftrightarrow> successively (\<lambda>x y. snd x \<or> snd y) bs"

definition block_sizes :: "blocks \<Rightarrow> bool" where
  "block_sizes bs \<longleftrightarrow> (\<forall>(n, al) \<in> set bs. 16 \<le> n \<and> 8 dvd n)"

lemma tile_bytes_simps [simp]:
  "tile_bytes [] = 0" "tile_bytes ((n, al) # bs) = n + tile_bytes bs" "tile_bytes (xs @ ys) = tile_bytes xs + tile_bytes ys"
  by (simp_all add: tile_bytes_def)

lemma free_bytes_simps [simp]:
  "free_bytes [] = 0" "free_bytes ((n, al) # bs) = (if al then 0 else n) + free_bytes bs"
  "free_bytes (xs @ ys) = free_bytes xs + free_bytes ys"
  by (simp_all add: free_bytes_def)

lemma free_bytes_le: "free_bytes bs \<le> tile_bytes bs"
  by (induction bs) auto

lemma block_sizes_simps [simp]:
  "block_sizes []" "block_sizes ((n, al) # bs) \<longleftrightarrow> 16 \<le> n \<and> 8 dvd n \<and> block_sizes bs"
  "block_sizes (xs @ ys) \<longleftrightarrow> block_sizes xs \<and> block_sizes ys"
  by (auto simp: block_sizes_def)

lemma frees_append [simp]: "frees a (xs @ ys) = frees a xs @ frees (a + tile_bytes xs) ys"
  by (induction a xs rule: frees.induct) (auto simp: add.assoc)

lemma allocs_append [simp]: "allocs a (xs @ ys) = allocs a xs @ allocs (a + tile_bytes xs) ys"
  by (induction a xs rule: allocs.induct) (auto simp: add.assoc)

lemma frees_ordered: "block_sizes bs \<Longrightarrow> ordered a (frees a bs) (a + tile_bytes bs)"
proof (induction bs arbitrary: a)
  case (Cons x bs)
  obtain n al where x: "x = (n, al)" by (cases x)
  have "ordered (a + n) (frees (a + n) bs) (a + (n + tile_bytes bs))"
    using Cons.IH[of "a + n"] Cons.prems x by (simp add: add.assoc)
  then show ?case using Cons.prems x by (auto intro: ordered_weaken)
qed simp

lemma allocs_ordered: "block_sizes bs \<Longrightarrow> ordered a (allocs a bs) (a + tile_bytes bs)"
proof (induction bs arbitrary: a)
  case (Cons x bs)
  obtain n al where x: "x = (n, al)" by (cases x)
  have "ordered (a + n) (allocs (a + n) bs) (a + (n + tile_bytes bs))"
    using Cons.IH[of "a + n"] Cons.prems x by (simp add: add.assoc)
  then show ?case using Cons.prems x by (auto intro: ordered_weaken)
qed simp

lemma frees_mem: "block_sizes bs \<Longrightarrow> (p, n) \<in> set (frees a bs) \<Longrightarrow> a \<le> p \<and> 16 \<le> n \<and> p + n \<le> a + tile_bytes bs"
  by (induction a bs rule: frees.induct) (auto split: if_splits)

lemma allocs_mem: "block_sizes bs \<Longrightarrow> (p, n) \<in> set (allocs a bs) \<Longrightarrow> a \<le> p \<and> 16 \<le> n \<and> p + n \<le> a + tile_bytes bs"
  by (induction a bs rule: allocs.induct) (auto split: if_splits)

lemma frees_mem_block: "(q, k) \<in> set (frees a bs) \<Longrightarrow> (k, False) \<in> set bs"
  by (induction a bs rule: frees.induct) (auto split: if_splits)

text \<open>Different blocks do not overlap.\<close>

lemma blocks_apart:
  assumes "block_sizes bs" "(p, n) \<in> set (allocs a bs)" "(q, m) \<in> set (frees a bs @ allocs a bs)" "p \<noteq> q"
  shows "p + n \<le> q \<or> q + m \<le> p"
  using assms
proof (induction bs arbitrary: a)
  case (Cons x bs)
  obtain k al where x: "x = (k, al)" by (cases x)
  have IH: "p + n \<le> q \<or> q + m \<le> p"
    if "(p, n) \<in> set (allocs (a + k) bs)" "(q, m) \<in> set (frees (a + k) bs @ allocs (a + k) bs)"
    using Cons.IH[of "a + k"] that Cons.prems x by simp
  have m1: "a + k \<le> p" if "(p, n) \<in> set (allocs (a + k) bs)" using allocs_mem[OF _ that] Cons.prems(1) x by simp
  have m2: "a + k \<le> q" if "(q, m) \<in> set (frees (a + k) bs @ allocs (a + k) bs)"
    using allocs_mem[of bs q m "a + k"] frees_mem[of bs q m "a + k"] that Cons.prems(1) x by auto
  show ?case using Cons.prems x IH m1 m2 by (auto split: if_splits)
qed simp

lemma allocs_not_free:
  assumes "block_sizes bs" "(p, n) \<in> set (allocs a bs)" "(q, m) \<in> set (frees a bs)"
  shows "p \<noteq> q"
  using assms
proof (induction bs arbitrary: a)
  case (Cons x bs)
  obtain k al where x: "x = (k, al)" by (cases x)
  have m: "(p, n) \<in> set (allocs (a + k) bs) \<Longrightarrow> a + k \<le> p" "(q, m) \<in> set (frees (a + k) bs) \<Longrightarrow> a + k \<le> q"
    using allocs_mem[of bs p n "a + k"] frees_mem[of bs q m "a + k"] Cons.prems(1) x by auto
  show ?case using Cons.prems x m Cons.IH[of "a + k"] by (auto split: if_splits)
qed simp

section \<open>Freeing and allocating on the tiling\<close>

fun join_free :: "nat \<Rightarrow> blocks \<Rightarrow> blocks" where
  "join_free n ((k, False) # r) = (n + k, False) # r"
| "join_free n r = (n, False) # r"

text \<open>The block of \<open>n\<close> bytes between \<open>l\<close> and \<open>r\<close> becomes free and merges with free neighbours.\<close>

definition free_block :: "blocks \<Rightarrow> nat \<Rightarrow> blocks \<Rightarrow> blocks" where
  "free_block l n r =
     (if l \<noteq> [] \<and> \<not> snd (last l) then butlast l @ join_free (fst (last l) + n) r else l @ join_free n r)"

text \<open>First fit: the first free block that is large enough, with the blocks around it.\<close>

fun first_fit :: "nat \<Rightarrow> blocks \<Rightarrow> (blocks \<times> nat \<times> blocks) option" where
  "first_fit n [] = None"
| "first_fit n ((m, al) # bs) =
     (if \<not> al \<and> n \<le> m then Some ([], m, bs)
      else map_option (\<lambda>(l, k, r). ((m, al) # l, k, r)) (first_fit n bs))"

text \<open>The block is split when more than the minimum remains.\<close>

definition take_block :: "blocks \<Rightarrow> nat \<Rightarrow> nat \<Rightarrow> blocks \<Rightarrow> blocks" where
  "take_block l n m r =
     (if m - n > 16 then l @ (n, True) # (m - n, False) # r else l @ (m, True) # r)"

lemma first_fit_Some:
  "first_fit n bs = Some (l, m, r) \<Longrightarrow>
     bs = l @ (m, False) # r \<and> n \<le> m \<and> (\<forall>(k, al) \<in> set l. al \<or> k < n)"
proof (induction bs arbitrary: l)
  case (Cons x bs)
  obtain k al where x: "x = (k, al)" by (cases x)
  show ?case using Cons x by (auto split: if_splits)
qed simp

lemma first_fit_None: "first_fit n bs = None \<longleftrightarrow> (\<forall>(k, al) \<in> set bs. al \<or> k < n)"
  by (induction bs) (auto simp: not_less split: if_splits prod.splits)

lemma join_free_simps [simp]:
  "tile_bytes (join_free n r) = n + tile_bytes r" "free_bytes (join_free n r) = n + free_bytes r"
  "allocs a (join_free n r) = allocs (a + n) r"
  by (induction n r rule: join_free.induct) (auto simp: add.assoc)

lemma block_sizes_join_free: "block_sizes r \<Longrightarrow> 16 \<le> n \<Longrightarrow> 8 dvd n \<Longrightarrow> block_sizes (join_free n r)"
  by (induction n r rule: join_free.induct) auto

lemma frees_join_free:
  assumes "block_sizes r" "coalesced r"
  shows "frees p (join_free n r) = join_right p n (frees (p + n) r)"
proof (cases "\<exists>k r'. r = (k, False) # r'")
  case True
  then obtain k r' where r: "r = (k, False) # r'" by blast
  then show ?thesis by (simp add: add.assoc)
next
  case False
  then have j: "join_free n r = (n, False) # r" by (cases "(n, r)" rule: join_free.cases) auto
  have "p + n \<noteq> fst y" if "y \<in> set (frees (p + n) r)" for y
  proof (cases r)
    case (Cons x r')
    with False obtain k where x: "r = (k, True) # r'" by (cases x) auto
    then show ?thesis using frees_mem[of r' "fst y" "snd y" "p + n + k"] assms that by auto
  qed (use that in simp)
  then have "p + n \<notin> fst ` set (frees (p + n) r)" by blast
  then show ?thesis unfolding j by (cases "frees (p + n) r") auto
qed

lemma free_block_cases:
  assumes "block_sizes l" "block_sizes r" "coalesced r" "16 \<le> n"
  shows "frees B (free_block l n r) = finsert (frees B l) (B + tile_bytes l) n (frees (B + tile_bytes l + n) r)"
proof (cases l rule: rev_cases)
  case Nil
  then show ?thesis using frees_join_free[OF assms(2,3)] by (simp add: free_block_def finsert_def touches_def)
next
  case (snoc l0 x)
  obtain m al where x: "x = (m, al)" by (cases x)
  show ?thesis
  proof (cases al)
    case False
    then show ?thesis
      using snoc x frees_join_free[OF assms(2,3), of "B + tile_bytes l0" "m + n"]
      by (simp add: free_block_def finsert_def touches_def add.assoc)
  next
    case True
    have "fst y + snd y \<le> B + tile_bytes l0" if "y \<in> set (frees B l0)" for y
      using frees_mem[of l0 "fst y" "snd y" B] that assms(1) snoc x by simp
    moreover have "16 \<le> m" using assms(1) snoc x by simp
    ultimately have "\<not> touches (frees B l) (B + tile_bytes l)"
      using True snoc x last_in_set[of "frees B l0"] by (fastforce simp: touches_def)
    then show ?thesis
      using True snoc x frees_join_free[OF assms(2,3), of "B + tile_bytes l" n]
      by (simp add: free_block_def finsert_def add.assoc)
  qed
qed

lemma free_block_facts:
  assumes "block_sizes l" "block_sizes r" "16 \<le> n" "8 dvd n"
  shows "block_sizes (free_block l n r)"
    "tile_bytes (free_block l n r) = tile_bytes l + n + tile_bytes r"
    "free_bytes (free_block l n r) = free_bytes l + n + free_bytes r"
    "allocs B (free_block l n r) = allocs B l @ allocs (B + tile_bytes l + n) r"
proof -
  have "block_sizes (free_block l n r) \<and> tile_bytes (free_block l n r) = tile_bytes l + n + tile_bytes r \<and>
      free_bytes (free_block l n r) = free_bytes l + n + free_bytes r \<and>
      allocs B (free_block l n r) = allocs B l @ allocs (B + tile_bytes l + n) r"
    using assms by (cases l rule: rev_cases) (auto simp: free_block_def block_sizes_join_free add.assoc)
  then show "block_sizes (free_block l n r)"
    "tile_bytes (free_block l n r) = tile_bytes l + n + tile_bytes r"
    "free_bytes (free_block l n r) = free_bytes l + n + free_bytes r"
    "allocs B (free_block l n r) = allocs B l @ allocs (B + tile_bytes l + n) r" by blast+
qed

lemma coalesced_append:
  "coalesced (xs @ ys) \<longleftrightarrow> coalesced xs \<and> coalesced ys \<and> (xs = [] \<or> ys = [] \<or> snd (last xs) \<or> snd (hd ys))"
  by (simp add: coalesced_def successively_append_iff)

lemma coalesced_Cons: "coalesced (x # ys) \<longleftrightarrow> coalesced ys \<and> (ys = [] \<or> snd x \<or> snd (hd ys))"
  by (auto simp: coalesced_def successively_Cons)

lemma coalesced_join_free:
  "coalesced r \<Longrightarrow> coalesced (join_free n r)" "join_free n r \<noteq> []" "\<not> snd (hd (join_free n r))"
proof -
  have "(coalesced r \<longrightarrow> coalesced (join_free n r)) \<and> join_free n r \<noteq> [] \<and> \<not> snd (hd (join_free n r))"
    by (induction n r rule: join_free.induct) (auto simp: coalesced_Cons)
  then show "coalesced r \<Longrightarrow> coalesced (join_free n r)" "join_free n r \<noteq> []" "\<not> snd (hd (join_free n r))" by auto
qed

lemma coalesced_free_block:
  assumes "coalesced l" "coalesced r"
  shows "coalesced (free_block l n r)"
  using assms coalesced_join_free
  by (cases l rule: rev_cases) (auto simp: free_block_def coalesced_append coalesced_Cons)

lemma coalesced_take_block:
  assumes "coalesced (l @ (m, False) # r)"
  shows "coalesced (take_block l n m r)"
  using assms by (auto simp: take_block_def coalesced_append coalesced_Cons)

section \<open>Words\<close>

lemma mask3: "(w :: 32 word) AND 7 = w32 (unat w mod 8)"
proof -
  have "w AND 7 = take_bit 3 w" by (simp add: take_bit_eq_mask mask_eq_exp_minus_1)
  also have "\<dots> = w32 (unat (take_bit 3 w))" by simp
  also have "unat (take_bit 3 w) = unat w mod 8"
    by (simp only: unsigned_take_bit_eq) (simp add: take_bit_eq_mod)
  finally show ?thesis .
qed

lemma xHeapStructSize_eq [simp]: "xHeapStructSize = 8"
  by (simp add: xHeapStructSize_def portBYTE_ALIGNMENT_MASK_def)

lemma heapMINIMUM_BLOCK_SIZE_eq [simp]: "heapMINIMUM_BLOCK_SIZE = 16"
  by (simp add: heapMINIMUM_BLOCK_SIZE_def push_bit_eq_mult)

lemma bitmask_eq: "heapBLOCK_ALLOCATED_BITMASK = w32 (2 ^ 31)"
  by (simp add: heapBLOCK_ALLOCATED_BITMASK_def push_bit_eq_mult)

lemma bit_bitmask: "bit heapBLOCK_ALLOCATED_BITMASK i \<longleftrightarrow> i = 31"
proof -
  have "heapBLOCK_ALLOCATED_BITMASK = 2 ^ 31" by (simp add: bitmask_eq)
  then show ?thesis unfolding \<open>heapBLOCK_ALLOCATED_BITMASK = 2 ^ 31\<close> bit_exp_iff by auto
qed

lemma bit31_iff: "n < 2 ^ 32 \<Longrightarrow> bit (w32 n) 31 \<longleftrightarrow> 2 ^ 31 \<le> n"
proof -
  assume n: "n < 2 ^ 32"
  have "n div 2 ^ 31 < 2" using n by (simp add: less_mult_imp_div_less)
  moreover have "n div 2 ^ 31 = 0 \<longleftrightarrow> n < 2 ^ 31" by (simp add: div_eq_0_iff)
  ultimately have "odd (n div 2 ^ 31) \<longleftrightarrow> 2 ^ 31 \<le> n" by (cases "n div 2 ^ 31") auto
  moreover have "bit (w32 n) 31 \<longleftrightarrow> bit n 31" by (simp add: bit_of_nat_iff)
  ultimately show ?thesis by (simp only: bit_iff_odd)
qed

lemma masked_zero: "w AND heapBLOCK_ALLOCATED_BITMASK = 0 \<longleftrightarrow> \<not> bit w 31"
proof
  assume "w AND heapBLOCK_ALLOCATED_BITMASK = 0"
  then have "\<not> bit (w AND heapBLOCK_ALLOCATED_BITMASK) 31" by simp
  then show "\<not> bit w 31" by (simp only: bit_and_iff bit_bitmask simp_thms)
next
  assume "\<not> bit w 31"
  then show "w AND heapBLOCK_ALLOCATED_BITMASK = 0"
    by (intro bit_word_eqI) (auto simp: bit_and_iff bit_bitmask)
qed

lemma valid_iff: "n < 2 ^ 32 \<Longrightarrow> heapBLOCK_SIZE_IS_VALID (w32 n) \<longleftrightarrow> n < 2 ^ 31"
  unfolding heapBLOCK_SIZE_IS_VALID_def masked_zero by (simp only: bit31_iff not_le)

lemma alloc_bit_set: "(w OR heapBLOCK_ALLOCATED_BITMASK) AND heapBLOCK_ALLOCATED_BITMASK \<noteq> 0"
  unfolding masked_zero by (simp add: bit_or_iff bit_bitmask)

lemma alloc_bit_cleared:
  "n < 2 ^ 31 \<Longrightarrow> (w32 n OR heapBLOCK_ALLOCATED_BITMASK) AND NOT heapBLOCK_ALLOCATED_BITMASK = w32 n"
proof -
  assume "n < 2 ^ 31"
  then have "\<not> bit (w32 n) 31" using bit31_iff[of n] by simp
  then show ?thesis
    by (intro bit_word_eqI) (auto simp only: bit_or_iff bit_and_iff bit_not_iff bit_bitmask possible_bit_word)
qed

text \<open>The size of the block for a request of \<open>k\<close> bytes.\<close>

definition request_size :: "nat \<Rightarrow> nat" where
  "request_size k = 8 * (k div 8 + 2)"

lemma request_size_eq: "request_size k = k + (16 - k mod 8)"
proof -
  have "8 * (k div 8) + k mod 8 = k" "k mod 8 < 8" by simp_all
  moreover have "8 * (k div 8 + 2) = 8 * (k div 8) + 16" by simp
  ultimately show ?thesis unfolding request_size_def by linarith
qed

lemma request_size_facts: "16 \<le> request_size k" "8 dvd request_size k" "k + 8 < request_size k + 1"
  using mod_less_divisor[of 8 k] by (simp add: request_size_def, simp add: request_size_def, simp add: request_size_eq)

lemma malloc_block_size_eq:
  assumes "0 < w"
  shows "malloc_block_size w =
     (if request_size (unat w) < 2 ^ 32 then w32 (request_size (unat w)) else 0)"
proof -
  let ?k = "unat w"
  let ?a = "16 - ?k mod 8"
  have m: "?k mod 8 < 8" by simp
  have a: "xHeapStructSize + 8 - (w AND portBYTE_ALIGNMENT_MASK) = w32 ?a"
    unfolding portBYTE_ALIGNMENT_MASK_def mask3 using m w32_diff[of "?k mod 8" 16] by simp
  have "NOT 0 - w32 ?a = w32 (2 ^ 32 - 1 - ?a)"
    using w32_diff[of ?a "2 ^ 32 - 1"] m by simp
  then have "heapADD_WILL_OVERFLOW w (w32 ?a) \<longleftrightarrow> w32 (2 ^ 32 - 1 - ?a) < w32 ?k"
    unfolding heapADD_WILL_OVERFLOW_def \<open>NOT 0 - w32 ?a = _\<close> w32_unat by - (rule refl)
  also have "\<dots> \<longleftrightarrow> 2 ^ 32 - 1 - ?a < ?k" using unat_less_32[of w] by (intro w32_less) simp_all
  also have "\<dots> \<longleftrightarrow> \<not> request_size ?k < 2 ^ 32"
  proof -
    have "(2 ^ 32 - 1 - (16 - c) < k) = (\<not> k + (16 - c) < 2 ^ 32)" if "c < 8" for c k :: nat
      using that by auto
    then show ?thesis using m unfolding request_size_eq by blast
  qed
  finally have o: "heapADD_WILL_OVERFLOW w (w32 ?a) \<longleftrightarrow> \<not> request_size ?k < 2 ^ 32" .
  have "w + w32 ?a = w32 (request_size ?k)"
    unfolding request_size_eq by (subst w32_add[symmetric]) simp
  then show ?thesis using assms o a by (simp add: malloc_block_size_def Let_def)
qed

section \<open>The invariant\<close>

definition header_ok :: "heap4 \<Rightarrow> nat \<times> nat \<Rightarrow> bool" where
  "header_ok h x \<longleftrightarrow> xBlockSize h (w32 (fst x)) = w32 (snd x) OR heapBLOCK_ALLOCATED_BITMASK \<and>
     pxNextFreeBlock h (w32 (fst x)) = 0"

definition heap_ok :: "heap4 \<Rightarrow> nat \<Rightarrow> blocks \<Rightarrow> bool" where
  "heap_ok h B bs \<longleftrightarrow>
     heap_env h B (B + tile_bytes bs) \<and> 8 dvd B \<and> B + tile_bytes bs + 8 \<le> 2 ^ 32 \<and> tile_bytes bs < 2 ^ 31 \<and>
     block_sizes bs \<and> coalesced bs \<and> freelist h (frees B bs) \<and> (\<forall>x \<in> set (allocs B bs). header_ok h x) \<and>
     xFreeBytesRemaining h = w32 (free_bytes bs) \<and>
     xMinimumEverFreeBytesRemaining h \<le> xFreeBytesRemaining h"

lemma freelist_cong:
  assumes "freelist h F" "xStart h' = xStart h" "pxEnd h' = pxEnd h"
    and "\<And>a. a \<in> set (xStart h # ptrs F) \<Longrightarrow> pxNextFreeBlock h' a = pxNextFreeBlock h a"
    and "\<And>a. a \<in> set (ptrs F) \<Longrightarrow> xBlockSize h' a = xBlockSize h a"
  shows "freelist h' F"
proof -
  have "chain (pxNextFreeBlock h') (xStart h # ptrs F @ [pxEnd h]) =
      chain (pxNextFreeBlock h) (xStart h # ptrs F @ [pxEnd h])"
    using assms(4) by (intro chain_cong) (auto simp: butlast_append)
  then show ?thesis using assms(1-3,5) ptrs_mem[of _ _ F] by (fastforce simp: freelist_def)
qed

lemma freelist_unlink:
  assumes env: "heap_env h B e" and fl: "freelist h (L @ (p, m) # R)" and o: "ordered B (L @ (p, m) # R) e"
  shows "freelist (set_nextfree (prevp h L) (pxNextFreeBlock h (w32 p)) h) (L @ R)"
proof -
  obtain ps a where ps: "xStart h # ptrs L = ps @ [a]" and a: "prevp h L = a"
    by (metis append_butlast_last_id list.distinct(1))
  obtain q qs where q: "ptrs R @ [pxEnd h] = q # qs" by (cases "ptrs R @ [pxEnd h]") auto
  have nx: "pxNextFreeBlock h (w32 p) = q"
    using freelist_link[of h "L @ [(p, m)]" R] fl q by simp
  have "chain (pxNextFreeBlock h) ((xStart h # ptrs L) @ w32 p # ptrs R @ [pxEnd h])"
    using fl by (simp add: freelist_def)
  then have c: "chain (pxNextFreeBlock h) (ps @ a # w32 p # q # qs)" unfolding ps q by simp
  have "distinct ((xStart h # ptrs L) @ w32 p # ptrs R @ [pxEnd h])"
    using ptrs_distinct[OF env o] by simp
  then have d: "distinct (ps @ a # w32 p # q # qs)" unfolding ps q by simp
  have "xStart h # ptrs (L @ R) @ [pxEnd h] = (xStart h # ptrs L) @ ptrs R @ [pxEnd h]" by simp
  then have "xStart h # ptrs (L @ R) @ [pxEnd h] = ps @ a # q # qs" unfolding ps q by simp
  then show ?thesis using chain_remove[OF c d] fl nx a by (auto simp: freelist_def)
qed

text \<open>Pointers of the blocks are different from the markers and from each other.\<close>

lemma heap_ok_facts:
  assumes "heap_ok h B bs"
  shows "heap_env h B (B + tile_bytes bs)" "block_sizes bs" "freelist h (frees B bs)"
    "ordered B (frees B bs) (B + tile_bytes bs)" "B + tile_bytes bs < 2 ^ 32" "0 < B"
    "pxEnd h = w32 (B + tile_bytes bs)" "pxEnd h \<noteq> 0"
proof -
  show e: "heap_env h B (B + tile_bytes bs)" "block_sizes bs" "freelist h (frees B bs)"
    "ordered B (frees B bs) (B + tile_bytes bs)"
    using assms frees_ordered by (auto simp: heap_ok_def)
  show b: "B + tile_bytes bs < 2 ^ 32" "0 < B" "pxEnd h = w32 (B + tile_bytes bs)"
    using e(1) by (simp_all add: heap_env_def)
  show "pxEnd h \<noteq> 0" using b w32_eq[of "B + tile_bytes bs" 0] by simp
qed

lemma alloc_ptr:
  assumes "heap_env h B (B + tile_bytes bs)" "block_sizes bs" "(q, k) \<in> set (allocs B bs)"
  shows "w32 q \<notin> set (ptrs (frees B bs))" "w32 q \<noteq> xStart h" "w32 q \<noteq> pxEnd h"
    "B \<le> q" "q + k \<le> B + tile_bytes bs" "q < 2 ^ 32"
proof -
  have e: "B + tile_bytes bs < 2 ^ 32" "pxEnd h = w32 (B + tile_bytes bs)"
      "unat (xStart h) < B \<or> B + tile_bytes bs < unat (xStart h)"
    using assms(1) by (auto simp: heap_env_def)
  have m: "B \<le> q" "16 \<le> k" "q + k \<le> B + tile_bytes bs" using allocs_mem[OF assms(2,3)] by auto
  then show q: "B \<le> q" "q + k \<le> B + tile_bytes bs" "q < 2 ^ 32" using e by auto
  show "w32 q \<noteq> pxEnd h" using e m q w32_eq[of q "B + tile_bytes bs"] by auto
  show "w32 q \<noteq> xStart h" using e(3) m unat_w32[OF q(3)] by auto
  have "w32 q \<noteq> w32 (fst y)" if "y \<in> set (frees B bs)" for y
    using allocs_not_free[OF assms(2,3), of "fst y" "snd y"] frees_mem[OF assms(2), of "fst y" "snd y" B] that q e
    by (simp add: w32_eq)
  then show "w32 q \<notin> set (ptrs (frees B bs))" by (auto simp: ptrs_def)
qed

section \<open>Freeing refines \<open>free_block\<close>\<close>

lemma insert_frame_apply: "insert_frame A f g \<Longrightarrow> a \<notin> A \<Longrightarrow> g a = f a"
  by (simp add: insert_frame_def)

lemma allocs_Cons_parts:
  "set (allocs B (l @ (n, True) # r)) = insert (B + tile_bytes l, n) (set (allocs B l @ allocs (B + tile_bytes l + n) r))"
  by auto

lemma insert_free_block:
  assumes env: "heap_env h B (B + tile_bytes bs)" and bs: "bs = l @ (n, True) # r"
    and bsz: "block_sizes bs" and cr: "coalesced r" and fl: "freelist h (frees B bs)"
    and szp: "xBlockSize h (w32 (B + tile_bytes l)) = w32 n"
  shows "\<exists>nx sz. prvInsertBlockIntoFreeList (w32 (B + tile_bytes l)) h = Some (h\<lparr>pxNextFreeBlock := nx, xBlockSize := sz\<rparr>) \<and>
      heap_env (h\<lparr>pxNextFreeBlock := nx, xBlockSize := sz\<rparr>) B (B + tile_bytes bs) \<and>
      freelist (h\<lparr>pxNextFreeBlock := nx, xBlockSize := sz\<rparr>) (frees B (free_block l n r)) \<and>
      (\<forall>x \<in> set (allocs B (free_block l n r)).
         nx (w32 (fst x)) = pxNextFreeBlock h (w32 (fst x)) \<and> sz (w32 (fst x)) = xBlockSize h (w32 (fst x))) \<and>
      unat (sz (w32 (B + tile_bytes l))) \<le> tile_bytes bs"
proof -
  let ?p = "B + tile_bytes l" and ?e = "B + tile_bytes bs"
  let ?L = "frees B l" and ?R = "frees (B + tile_bytes l + n) r"
  have sz: "block_sizes l" "block_sizes r" "16 \<le> n" "8 dvd n" using bsz bs by simp_all
  have bf: "block_sizes (l @ (n, False) # r)" "tile_bytes (l @ (n, False) # r) = tile_bytes bs"
      "frees B (l @ (n, False) # r) = ?L @ (?p, n) # ?R"
      "allocs B (l @ (n, False) # r) = allocs B (free_block l n r)"
    using sz bs free_block_facts(4)[OF sz] by (simp_all add: add.assoc)
  have fl1: "freelist h (?L @ ?R)" using fl bs by simp
  have o1: "ordered B (?L @ (?p, n) # ?R) ?e"
    using frees_ordered[OF bf(1), of B] unfolding bf .
  note D = ptrs_distinct[OF env o1]
  from prvInsert_freelist[OF env fl1 o1 szp] obtain nx sz' where
    r: "prvInsertBlockIntoFreeList (w32 ?p) h = Some (h\<lparr>pxNextFreeBlock := nx, xBlockSize := sz'\<rparr>)"
      "freelist (h\<lparr>pxNextFreeBlock := nx, xBlockSize := sz'\<rparr>) (finsert ?L ?p n ?R)"
    and fr: "insert_frame (insert (xStart h) (set (ptrs (?L @ [(?p, n)])))) (pxNextFreeBlock h) nx"
      "insert_frame (set (ptrs (?L @ [(?p, n)]))) (xBlockSize h) sz'"
    and kk: "unat (sz' (w32 ?p)) \<le> ?e - ?p"
    by (elim exE conjE) (rule that)
  have kk': "unat (sz' (w32 ?p)) \<le> tile_bytes bs" using kk by linarith
  have "nx (pxEnd h) = pxNextFreeBlock h (pxEnd h)" "sz' (pxEnd h) = xBlockSize h (pxEnd h)"
      "sz' (xStart h) = xBlockSize h (xStart h)"
    using D by (intro insert_frame_apply[OF fr(1)] insert_frame_apply[OF fr(2)]; auto)+
  then have env2: "heap_env (h\<lparr>pxNextFreeBlock := nx, xBlockSize := sz'\<rparr>) B ?e"
    by (intro heap_env_cong[OF env]) simp_all
  have fr2: "nx (w32 (fst x)) = pxNextFreeBlock h (w32 (fst x)) \<and> sz' (w32 (fst x)) = xBlockSize h (w32 (fst x))"
    if "x \<in> set (allocs B (free_block l n r))" for x
  proof -
    have "(fst x, snd x) \<in> set (allocs B (l @ (n, False) # r))" using that unfolding bf by simp
    from alloc_ptr(1,2)[OF _ bf(1) this, of h] env
    have "w32 (fst x) \<notin> set (ptrs (?L @ (?p, n) # ?R))" "w32 (fst x) \<noteq> xStart h" unfolding bf by blast+
    then show ?thesis
      by (intro conjI insert_frame_apply[OF fr(1)] insert_frame_apply[OF fr(2)]) simp_all
  qed
  show ?thesis
    unfolding free_block_cases[OF sz(1,2) cr sz(3)]
    by (rule exI[of _ nx], rule exI[of _ sz']) (use r env2 fr2 kk' in blast)
qed

lemma vPortFree_ok:
  assumes ok: "heap_ok h B bs" and bs: "bs = l @ (n, True) # r"
  shows "\<exists>nx sz. vPortFree (w32 (B + tile_bytes l + 8)) h =
        Some (h\<lparr>pxNextFreeBlock := nx, xBlockSize := sz, xFreeBytesRemaining := xFreeBytesRemaining h + w32 n,
                xNumberOfSuccessfulFrees := xNumberOfSuccessfulFrees h + 1\<rparr>) \<and>
      heap_ok (h\<lparr>pxNextFreeBlock := nx, xBlockSize := sz, xFreeBytesRemaining := xFreeBytesRemaining h + w32 n,
                xNumberOfSuccessfulFrees := xNumberOfSuccessfulFrees h + 1\<rparr>) B (free_block l n r) \<and>
      unat (sz (w32 (B + tile_bytes l))) < 2 ^ 31"
proof -
  let ?p = "B + tile_bytes l" and ?e = "B + tile_bytes bs"
  note f = heap_ok_facts[OF ok]
  have sz: "block_sizes l" "block_sizes r" "16 \<le> n" "8 dvd n" using f(2) bs by simp_all
  have co: "coalesced l" "coalesced r" using ok bs by (simp_all add: heap_ok_def coalesced_append coalesced_Cons)
  have mem: "(?p, n) \<in> set (allocs B bs)" unfolding bs allocs_Cons_parts by simp
  note ap = alloc_ptr[OF f(1,2) mem]
  have hd: "header_ok h (?p, n)" using ok mem unfolding heap_ok_def by blast
  have n31: "n < 2 ^ 31" using ok bs by (simp add: heap_ok_def)
  have minus8: "w32 (?p + 8) - xHeapStructSize = w32 ?p" by simp
  have "?p + 8 < 2 ^ 32" using ap(5) f(5) sz(3) by linarith
  then have pv: "w32 (?p + 8) \<noteq> 0" using w32_eq[of "?p + 8" 0] by simp
  let ?h0 = "set_size (w32 ?p) (w32 n) h"
  let ?h1 = "?h0\<lparr>xFreeBytesRemaining := xFreeBytesRemaining h + w32 n\<rparr>"
  have e1: "heapFREE_BLOCK (w32 ?p) h = ?h0"
    using hd alloc_bit_cleared[OF n31] by (simp add: heapFREE_BLOCK_def header_ok_def)
  have guard: "heapBLOCK_IS_ALLOCATED (w32 ?p) h" "pxNextFreeBlock h (w32 ?p) = 0"
    using hd alloc_bit_set by (simp_all add: heapBLOCK_IS_ALLOCATED_def header_ok_def)
  have fl1: "freelist ?h1 (frees B bs)"
    using ap(1) by (intro freelist_cong[OF f(3)]) auto
  have env1: "heap_env ?h1 B ?e" using ap(2,3) by (intro heap_env_cong[OF f(1)]) auto
  have "xBlockSize ?h1 (w32 ?p) = w32 n" by simp
  from insert_free_block[OF env1 bs f(2) co(2) fl1 this] obtain nx sz' where
    ins: "prvInsertBlockIntoFreeList (w32 ?p) ?h1 = Some (?h1\<lparr>pxNextFreeBlock := nx, xBlockSize := sz'\<rparr>)"
    and env2: "heap_env (?h1\<lparr>pxNextFreeBlock := nx, xBlockSize := sz'\<rparr>) B ?e"
    and fl: "freelist (?h1\<lparr>pxNextFreeBlock := nx, xBlockSize := sz'\<rparr>) (frees B (free_block l n r))"
    and fr: "\<forall>x \<in> set (allocs B (free_block l n r)).
        nx (w32 (fst x)) = pxNextFreeBlock ?h1 (w32 (fst x)) \<and> sz' (w32 (fst x)) = xBlockSize ?h1 (w32 (fst x))"
    and kk: "unat (sz' (w32 ?p)) \<le> tile_bytes bs"
    by (elim exE conjE) (rule that)
  have "tile_bytes bs < 2 ^ 31" using ok by (simp add: heap_ok_def)
  with kk have kk': "unat (sz' (w32 ?p)) < 2 ^ 31" by (rule le_less_trans)
  let ?h2 = "h\<lparr>pxNextFreeBlock := nx, xBlockSize := sz', xFreeBytesRemaining := xFreeBytesRemaining h + w32 n,
      xNumberOfSuccessfulFrees := xNumberOfSuccessfulFrees h + 1\<rparr>"
  have run: "vPortFree (w32 (?p + 8)) h = Some ?h2"
    unfolding vPortFree_def Let_def minus8 using pv guard e1 ins by simp
  have fb: "tile_bytes (free_block l n r) = tile_bytes bs" "block_sizes (free_block l n r)"
      "free_bytes (free_block l n r) = free_bytes bs + n"
    using free_block_facts[OF sz] bs by simp_all
  have "header_ok ?h2 x" if x: "x \<in> set (allocs B (free_block l n r))" for x
  proof -
    have "x \<in> set (allocs B bs)" using x unfolding bs allocs_Cons_parts free_block_facts(4)[OF sz] by simp
    then have "header_ok h x" using ok unfolding heap_ok_def by blast
    moreover have "(fst x, snd x) \<in> set (allocs B (l @ (n, False) # r))"
      using x free_block_facts(4)[OF sz, of B] by (simp add: add.assoc)
    then have "fst x \<noteq> ?p"
      using allocs_not_free[of "l @ (n, False) # r" "fst x" "snd x" B ?p n] sz by simp
    then have "w32 (fst x) \<noteq> w32 ?p"
      using alloc_ptr(6)[OF f(1,2), of "fst x" "snd x"] \<open>x \<in> set (allocs B bs)\<close> w32_eq[OF _ ap(6), of "fst x"]
      unfolding prod.collapse by blast
    ultimately show ?thesis using bspec[OF fr x] by (simp add: header_ok_def)
  qed
  moreover have "free_bytes bs + n < 2 ^ 32"
    using free_bytes_le[of l] free_bytes_le[of r] f(5) bs by simp
  then have le: "w32 (free_bytes bs) \<le> w32 (free_bytes bs + n)" by (subst w32_le) simp_all
  have mn: "xMinimumEverFreeBytesRemaining h \<le> w32 (free_bytes bs)"
    using ok unfolding heap_ok_def by metis
  note order_trans[OF mn le]
  moreover have "heap_env ?h2 B ?e" by (rule heap_env_cong[OF env2]) simp_all
  moreover have "freelist ?h2 (frees B (free_block l n r))" using fl by (simp add: freelist_def)
  ultimately have "heap_ok ?h2 B (free_block l n r)"
    using ok fb coalesced_free_block[OF co, of n] unfolding heap_ok_def by simp
  with run kk' show ?thesis by blast
qed

section \<open>Allocating refines first fit\<close>

lemma heap_ok_min_free: "heap_ok h B bs \<Longrightarrow> xMinimumEverFreeBytesRemaining h \<le> xFreeBytesRemaining h"
  unfolding heap_ok_def by metis

lemma heap_ok_min: "heap_ok h B bs \<Longrightarrow> xMinimumEverFreeBytesRemaining h \<le> w32 (free_bytes bs)"
  unfolding heap_ok_def by metis

text \<open>The search on the free list finds the first-fit block of the tiling.\<close>

lemma malloc_iter_first_fit:
  assumes ok: "heap_ok h B bs" and ff: "first_fit n bs = Some (l, m, r)" and n: "0 < n" "n < 2 ^ 31"
  shows "malloc_iter h (w32 n) (xStart h) (pxNextFreeBlock h (xStart h)) =
    Some (prevp h (frees B l), w32 (B + tile_bytes l))"
proof -
  note f = heap_ok_facts[OF ok]
  note b = first_fit_Some[OF ff]
  let ?p = "B + tile_bytes l"
  let ?R = "(?p, m) # frees (?p + m) r"
  have fr: "frees B bs = [] @ frees B l @ ?R" using b by simp
  have sm: "w32 k < w32 n" if "(q, k) \<in> set (frees B l)" for q k
  proof -
    have "(k, False) \<in> set l" using that by (rule frees_mem_block)
    then have "k < n" using b by auto
    then show ?thesis using n by (simp add: w32_less)
  qed
  have mlt: "m < 2 ^ 32" using f(5) b by simp
  have "malloc_iter h (w32 n) (prevp h []) (nextp h (frees B l @ ?R)) = Some (prevp h ([] @ frees B l), nextp h ?R)"
  proof (rule malloc_iter_stops[OF f(1)])
    show "freelist h ([] @ frees B l @ ?R)" "ordered B ([] @ frees B l @ ?R) (B + tile_bytes bs)"
      using f(3,4) unfolding fr .
    show "?R = [] \<or> w32 n \<le> w32 (snd (hd ?R))" using b n mlt by (simp add: w32_le)
    show "0 < w32 n" using n w32_less[of 0 n] by simp
  qed (use sm in blast)
  moreover have "pxNextFreeBlock h (xStart h) = nextp h (frees B l @ ?R)"
    using freelist_link[of h "[]" "frees B l @ ?R"] f(3) fr by simp
  ultimately show ?thesis by simp
qed

lemma malloc_iter_none:
  assumes ok: "heap_ok h B bs" and ff: "first_fit n bs = None" and n: "0 < n" "n < 2 ^ 31"
  shows "\<exists>prev. malloc_iter h (w32 n) (xStart h) (pxNextFreeBlock h (xStart h)) = Some (prev, pxEnd h)"
proof -
  note f = heap_ok_facts[OF ok]
  have sm: "w32 k < w32 n" if "(q, k) \<in> set (frees B bs)" for q k
  proof -
    have "(k, False) \<in> set bs" using that by (rule frees_mem_block)
    then have "k < n" using ff unfolding first_fit_None by auto
    then show ?thesis using n by (simp add: w32_less)
  qed
  have "malloc_iter h (w32 n) (prevp h []) (nextp h (frees B bs @ [])) = Some (prevp h ([] @ frees B bs), nextp h [])"
  proof (rule malloc_iter_stops[OF f(1)])
    show "freelist h ([] @ frees B bs @ [])" "ordered B ([] @ frees B bs @ []) (B + tile_bytes bs)"
      using f(3,4) by simp_all
    show "0 < w32 n" using n w32_less[of 0 n] by simp
  qed (use sm in simp_all)
  moreover have "pxNextFreeBlock h (xStart h) = nextp h (frees B bs @ [])"
    using freelist_link[of h "[]" "frees B bs"] f(3) by simp
  ultimately show ?thesis by simp
qed

text \<open>The chosen block, taken off the list and split.\<close>

lemma malloc_split_ok:
  assumes env: "heap_env h B (B + tile_bytes bs)" and bs: "bs = l @ (m, False) # r" and bsz: "block_sizes bs"
    and cr: "coalesced bs" and fl: "freelist h (frees B l @ frees (B + tile_bytes l + m) r)"
    and szp: "xBlockSize h (w32 (B + tile_bytes l)) = w32 m" and n: "16 \<le> n" "8 dvd n" "n \<le> m" and m31: "m < 2 ^ 31"
  shows "\<exists>nx sz. malloc_split (w32 n) (w32 (B + tile_bytes l)) h = Some (h\<lparr>pxNextFreeBlock := nx, xBlockSize := sz\<rparr>) \<and>
      heap_env (h\<lparr>pxNextFreeBlock := nx, xBlockSize := sz\<rparr>) B (B + tile_bytes bs) \<and>
      freelist (h\<lparr>pxNextFreeBlock := nx, xBlockSize := sz\<rparr>) (frees B (take_block l n m r)) \<and>
      sz (w32 (B + tile_bytes l)) = w32 (if m - n > 16 then n else m) \<and>
      (\<forall>x \<in> set (allocs B bs).
         nx (w32 (fst x)) = pxNextFreeBlock h (w32 (fst x)) \<and> sz (w32 (fst x)) = xBlockSize h (w32 (fst x)))"
proof (cases "m - n > 16")
  case False
  have "w32 m - w32 n = w32 (m - n)" using n(3) by (rule w32_diff)
  then have "\<not> xBlockSize h (w32 (B + tile_bytes l)) - w32 n > heapMINIMUM_BLOCK_SIZE"
    unfolding szp using False w32_less[of 16 "m - n"] m31 by simp
  then have "malloc_split (w32 n) (w32 (B + tile_bytes l)) h = Some h" by (simp add: malloc_split_def)
  then show ?thesis
    using env fl szp False
    by (intro exI[of _ "pxNextFreeBlock h"] exI[of _ "xBlockSize h"]) (simp add: take_block_def)
next
  case True
  let ?p = "B + tile_bytes l"
  let ?new = "w32 (?p + n)"
  let ?l = "l @ [(n, True)]"
  let ?bs = "?l @ (m - n, True) # r"
  have new: "w32 ?p + w32 n = ?new" by simp
  have d: "w32 m - w32 n = w32 (m - n)" using n(3) by (rule w32_diff)
  then have split: "xBlockSize h (w32 ?p) - w32 n > heapMINIMUM_BLOCK_SIZE"
    unfolding szp using True w32_less[of 16 "m - n"] m31 by simp
  have s: "block_sizes l" "block_sizes r" "8 dvd m" using bsz bs by simp_all
  have bb: "block_sizes ?bs" "tile_bytes ?bs = tile_bytes bs"
    using s n True bs by (simp_all add: dvd_diff_nat)
  have envb: "heap_env h B (B + tile_bytes ?bs)" using env unfolding bb(2) .
  have al: "allocs B ?bs = allocs B l @ (?p, n) # (?p + n, m - n) # allocs (?p + m) r"
    using n by (simp add: add.assoc)
  have "(?p, n) \<in> set (allocs B ?bs)" "(?p + n, m - n) \<in> set (allocs B ?bs)" unfolding al by simp_all
  note P = alloc_ptr[OF envb bb(1) this(1)] and N = alloc_ptr[OF envb bb(1) this(2)]
  have pn: "w32 ?p \<noteq> ?new" using w32_eq[OF P(6) N(6)] n by simp
  let ?h = "set_size (w32 ?p) (w32 n) (set_size ?new (w32 (m - n)) h)"
  have frb: "frees B ?bs = frees B l @ frees (?p + m) r" using n by (simp add: add.assoc)
  have fl2: "freelist ?h (frees B ?bs)"
    unfolding frb
  proof (rule freelist_cong[OF fl])
    fix a
    assume "a \<in> set (xStart h # ptrs (frees B l @ frees (?p + m) r))"
    then show "pxNextFreeBlock ?h a = pxNextFreeBlock h a" by simp
  next
    fix a
    assume "a \<in> set (ptrs (frees B l @ frees (?p + m) r))"
    then have "a \<noteq> w32 ?p" "a \<noteq> ?new" using P(1)[unfolded frb] N(1)[unfolded frb] by blast+
    then show "xBlockSize ?h a = xBlockSize h a" by simp
  qed simp_all
  have env2: "heap_env ?h B (B + tile_bytes ?bs)"
    using P(2,3) N(2,3) by (intro heap_env_cong[OF envb]) auto
  have cr': "coalesced r" "r = [] \<or> snd (hd r)" using cr bs by (auto simp: coalesced_append coalesced_Cons)
  have "xBlockSize ?h (w32 (B + tile_bytes ?l)) = w32 (m - n)" using pn by (simp add: add.assoc)
  from insert_free_block[OF env2 refl bb(1) cr'(1) fl2 this] obtain nx sz where
    ins: "prvInsertBlockIntoFreeList (w32 (B + tile_bytes ?l)) ?h = Some (?h\<lparr>pxNextFreeBlock := nx, xBlockSize := sz\<rparr>)"
    and e3: "heap_env (?h\<lparr>pxNextFreeBlock := nx, xBlockSize := sz\<rparr>) B (B + tile_bytes ?bs)"
    and f3: "freelist (?h\<lparr>pxNextFreeBlock := nx, xBlockSize := sz\<rparr>) (frees B (free_block ?l (m - n) r))"
    and fr: "\<forall>x \<in> set (allocs B (free_block ?l (m - n) r)).
        nx (w32 (fst x)) = pxNextFreeBlock ?h (w32 (fst x)) \<and> sz (w32 (fst x)) = xBlockSize ?h (w32 (fst x))"
    by (elim exE conjE) (rule that)
  have "join_free (m - n) r = (m - n, False) # r"
    using cr'(2) by (cases "(m - n, r)" rule: join_free.cases) auto
  then have fb: "free_block ?l (m - n) r = take_block l n m r"
    using True by (simp add: free_block_def take_block_def)
  have al2: "allocs B (take_block l n m r) = allocs B l @ (?p, n) # allocs (?p + m) r"
    using True n by (simp add: take_block_def add.assoc)
  have run: "malloc_split (w32 n) (w32 ?p) h = Some (h\<lparr>pxNextFreeBlock := nx, xBlockSize := sz\<rparr>)"
  proof -
    have "malloc_split (w32 n) (w32 ?p) h = prvInsertBlockIntoFreeList ?new ?h"
    proof -
      have "w32 (m - n) > heapMINIMUM_BLOCK_SIZE" using split unfolding szp d .
      then show ?thesis unfolding malloc_split_def Let_def szp d new by (rule if_P)
    qed
    moreover have eq: "B + tile_bytes ?l = ?p + n" by simp
    ultimately show ?thesis using ins[unfolded eq] by (simp only:) simp
  qed
  have szp': "sz (w32 ?p) = w32 n"
    using bspec[OF fr, of "(?p, n)"] pn unfolding fb al2 by simp
  have fr': "nx (w32 (fst x)) = pxNextFreeBlock h (w32 (fst x)) \<and> sz (w32 (fst x)) = xBlockSize h (w32 (fst x))"
    if x: "x \<in> set (allocs B bs)" for x
  proof -
    have "x \<in> set (allocs B l @ allocs (?p + m) r)" using x bs by (simp add: add.assoc)
    then have x2: "x \<in> set (allocs B (free_block ?l (m - n) r))" unfolding fb al2 by auto
    have xb: "(fst x, snd x) \<in> set (allocs B bs)" using x by simp
    have "(?p, m) \<in> set (frees B bs)" using bs by simp
    note ne = alloc_ptr(1,6)[OF env bsz xb] allocs_not_free[OF bsz xb this] blocks_apart[OF bsz xb, of ?p m] 
    have "w32 (fst x) \<noteq> w32 ?p" using ne(1) bs by simp
    moreover have "fst x \<noteq> ?p + n"
    proof -
      have "fst x + snd x \<le> ?p \<or> ?p + m \<le> fst x" using ne(3,4) \<open>(?p, m) \<in> set (frees B bs)\<close> by simp
      then show ?thesis using allocs_mem[OF bsz xb] True by linarith
    qed
    then have "w32 (fst x) \<noteq> ?new" using w32_eq[OF ne(2) N(6)] by blast
    ultimately show ?thesis using bspec[OF fr x2] by simp
  qed
  show ?thesis
  proof (rule exI[of _ nx], rule exI[of _ sz], intro conjI ballI)
    show "heap_env (h\<lparr>pxNextFreeBlock := nx, xBlockSize := sz\<rparr>) B (B + tile_bytes bs)"
      using e3 unfolding bb(2) by simp
    show "freelist (h\<lparr>pxNextFreeBlock := nx, xBlockSize := sz\<rparr>) (frees B (take_block l n m r))"
      using f3 unfolding fb by simp
    show "sz (w32 ?p) = w32 (if 16 < m - n then n else m)" using szp' True by simp
    show "malloc_split (w32 n) (w32 ?p) h = Some (h\<lparr>pxNextFreeBlock := nx, xBlockSize := sz\<rparr>)" by (rule run)
  qed (use fr' in blast)+
qed

lemma take_block_facts:
  assumes "block_sizes (l @ (m, False) # r)" "16 \<le> n" "8 dvd n" "n \<le> m"
  defines "k \<equiv> if m - n > 16 then n else m"
  shows "block_sizes (take_block l n m r)" "tile_bytes (take_block l n m r) = tile_bytes (l @ (m, False) # r)"
    "allocs B (take_block l n m r) = allocs B l @ (B + tile_bytes l, k) # allocs (B + tile_bytes l + m) r"
    "free_bytes (take_block l n m r) + k = free_bytes (l @ (m, False) # r)"
  using assms by (auto simp: take_block_def dvd_diff_nat add.assoc)

lemma malloc_account_eq:
  "malloc_account b h =
     h\<lparr>pxNextFreeBlock := (pxNextFreeBlock h)(b := 0),
       xBlockSize := (xBlockSize h)(b := xBlockSize h b OR heapBLOCK_ALLOCATED_BITMASK),
       xFreeBytesRemaining := xFreeBytesRemaining h - xBlockSize h b,
       xMinimumEverFreeBytesRemaining := min (xFreeBytesRemaining h - xBlockSize h b) (xMinimumEverFreeBytesRemaining h),
       xNumberOfSuccessfulAllocations := xNumberOfSuccessfulAllocations h + 1\<rparr>"
  by (cases "xFreeBytesRemaining h - xBlockSize h b < xMinimumEverFreeBytesRemaining h")
     (simp_all add: malloc_account_def Let_def heapALLOCATE_BLOCK_def min_def not_less leD)

lemma malloc_account_ok:
  assumes env: "heap_env h B (B + tile_bytes bs)" and bsz: "block_sizes bs" and co: "coalesced bs"
    and rng: "8 dvd B" "B + tile_bytes bs + 8 \<le> 2 ^ 32" "tile_bytes bs < 2 ^ 31"
    and fl: "freelist h (frees B bs)" and al: "allocs B bs = A1 @ (p, k) # A2"
    and hd: "\<And>x. x \<in> set (A1 @ A2) \<Longrightarrow> fst x \<noteq> p \<and> header_ok h x" and szp: "xBlockSize h (w32 p) = w32 k"
    and free: "xFreeBytesRemaining h = w32 (free_bytes bs + k)" and fb: "free_bytes bs + k < 2 ^ 32"
    and mn: "xMinimumEverFreeBytesRemaining h \<le> xFreeBytesRemaining h"
  shows "heap_ok (malloc_account (w32 p) h) B bs"
proof -
  have pm: "(p, k) \<in> set (allocs B bs)" unfolding al by simp
  note P = alloc_ptr[OF env bsz pm]
  let ?h = "malloc_account (w32 p) h"
  have fr: "w32 (free_bytes bs + k) - w32 k = w32 (free_bytes bs)" by simp
  have h': "pxEnd ?h = pxEnd h" "xStart ?h = xStart h"
      "pxNextFreeBlock ?h = (pxNextFreeBlock h)(w32 p := 0)"
      "xBlockSize ?h = (xBlockSize h)(w32 p := w32 k OR heapBLOCK_ALLOCATED_BITMASK)"
      "xFreeBytesRemaining ?h = w32 (free_bytes bs)"
      "xMinimumEverFreeBytesRemaining ?h \<le> w32 (free_bytes bs)"
    unfolding malloc_account_eq using szp free by simp_all
  have "heap_env ?h B (B + tile_bytes bs)" using P(2,3) by (intro heap_env_cong[OF env]) (auto simp: h')
  moreover have "freelist ?h (frees B bs)"
    using P(1,2) by (intro freelist_cong[OF fl]) (auto simp: h')
  moreover have "header_ok ?h x" if x: "x \<in> set (allocs B bs)" for x
  proof (cases "x = (p, k)")
    case True
    then show ?thesis by (simp add: header_ok_def h')
  next
    case False
    then have xa: "fst x \<noteq> p" "header_ok h x" using hd[of x] x unfolding al by auto
    have "(fst x, snd x) \<in> set (allocs B bs)" using x by simp
    from alloc_ptr(6)[OF env bsz this] have "w32 (fst x) \<noteq> w32 p" using w32_eq[OF _ P(6)] xa(1) by blast
    then show ?thesis using xa(2) by (simp add: header_ok_def h')
  qed
  ultimately show ?thesis using co bsz rng h'(5,6) unfolding heap_ok_def by simp
qed

lemma malloc_take_ok:
  assumes ok: "heap_ok h B bs" and ff: "first_fit n bs = Some (l, m, r)" and n: "16 \<le> n" "8 dvd n" "n < 2 ^ 31"
  shows "\<exists>h'. malloc_take (w32 n) h = Some (w32 (B + tile_bytes l + 8), h') \<and> heap_ok h' B (take_block l n m r) \<and>
      ucHeap h' = ucHeap h \<and> xStart h' = xStart h \<and> payload h' = payload h \<and>
      xNumberOfSuccessfulAllocations h' = xNumberOfSuccessfulAllocations h + 1 \<and>
      xNumberOfSuccessfulFrees h' = xNumberOfSuccessfulFrees h"
proof -
  note f = heap_ok_facts[OF ok]
  note b = first_fit_Some[OF ff]
  let ?p = "B + tile_bytes l"
  let ?L = "frees B l" and ?R = "frees (?p + m) r"
  let ?k = "if m - n > 16 then n else m"
  have bs: "bs = l @ (m, False) # r" and nm: "n \<le> m" using b by auto
  have frb: "frees B bs = ?L @ (?p, m) # ?R" using bs by (simp add: add.assoc)
  have fl: "freelist h (?L @ (?p, m) # ?R)" and o: "ordered B (?L @ (?p, m) # ?R) (B + tile_bytes bs)"
    using f(3,4) unfolding frb .
  have D: "w32 ?p \<noteq> pxEnd h" "prevp h ?L \<noteq> pxEnd h" "prevp h ?L \<noteq> w32 ?p" "prevp h ?L \<in> set (xStart h # ptrs ?L)"
    using ptrs_distinct[OF f(1) o] last_in_set[of "xStart h # ptrs ?L"] by auto
  have m31: "m < 2 ^ 31" using ok bs by (simp add: heap_ok_def)
  have szp: "xBlockSize h (w32 ?p) = w32 m" using fl by (simp add: freelist_def)
  have link: "pxNextFreeBlock h (prevp h ?L) = w32 ?p" using freelist_link[OF fl] by simp
  let ?h1 = "set_nextfree (prevp h ?L) (pxNextFreeBlock h (w32 ?p)) h"
  have fl1: "freelist ?h1 (?L @ ?R)" by (rule freelist_unlink[OF f(1) fl o])
  have env1: "heap_env ?h1 B (B + tile_bytes bs)"
    by (rule heap_env_cong[OF f(1)]) (use D(2) in simp_all)
  have co: "coalesced bs" using ok by (simp add: heap_ok_def)
  have "xBlockSize ?h1 (w32 ?p) = w32 m" using szp by simp
  from malloc_split_ok[OF env1 bs f(2) co fl1 this n(1,2) nm m31] obtain nx sz where
    sp: "malloc_split (w32 n) (w32 ?p) ?h1 = Some (?h1\<lparr>pxNextFreeBlock := nx, xBlockSize := sz\<rparr>)"
    and env2: "heap_env (?h1\<lparr>pxNextFreeBlock := nx, xBlockSize := sz\<rparr>) B (B + tile_bytes bs)"
    and fl2: "freelist (?h1\<lparr>pxNextFreeBlock := nx, xBlockSize := sz\<rparr>) (frees B (take_block l n m r))"
    and sz2: "sz (w32 ?p) = w32 ?k"
    and fr: "\<forall>x \<in> set (allocs B bs). nx (w32 (fst x)) = pxNextFreeBlock ?h1 (w32 (fst x)) \<and>
        sz (w32 (fst x)) = xBlockSize ?h1 (w32 (fst x))"
    by (elim exE conjE) (rule that)
  let ?h2 = "h\<lparr>pxNextFreeBlock := nx, xBlockSize := sz\<rparr>"
  have h2: "?h1\<lparr>pxNextFreeBlock := nx, xBlockSize := sz\<rparr> = ?h2" by simp
  have n0: "0 < n" using n by simp
  have run: "malloc_take (w32 n) h = Some (w32 (?p + 8), malloc_account (w32 ?p) ?h2)"
  proof -
    have "w32 ?p + xHeapStructSize = w32 (?p + 8)" by simp
    then show ?thesis
      unfolding malloc_take_def malloc_iter_first_fit[OF ok ff n0 n(3)]
      using D(1) link sp by (simp del: last.simps)
  qed
  note tb = take_block_facts[OF f(2)[unfolded bs] n(1,2) nm]
  have "heap_ok (malloc_account (w32 ?p) ?h2) B (take_block l n m r)"
  proof (rule malloc_account_ok)
    show "heap_env ?h2 B (B + tile_bytes (take_block l n m r))" using env2 unfolding h2 tb(2) bs .
    show "block_sizes (take_block l n m r)" by (rule tb(1))
    show "coalesced (take_block l n m r)" using co unfolding bs by (rule coalesced_take_block)
    show "8 dvd B" "B + tile_bytes (take_block l n m r) + 8 \<le> 2 ^ 32" "tile_bytes (take_block l n m r) < 2 ^ 31"
      using ok unfolding tb(2) heap_ok_def bs by simp_all
    show "freelist ?h2 (frees B (take_block l n m r))" using fl2 unfolding h2 .
    show "allocs B (take_block l n m r) = allocs B l @ (?p, ?k) # allocs (?p + m) r" by (rule tb(3))
    show "xBlockSize ?h2 (w32 ?p) = w32 ?k" using sz2 by simp
    show "xFreeBytesRemaining ?h2 = w32 (free_bytes (take_block l n m r) + ?k)"
      using ok unfolding tb(4) heap_ok_def bs by simp
    show "free_bytes (take_block l n m r) + ?k < 2 ^ 32"
      using free_bytes_le[of bs] f(5) unfolding tb(4) bs by linarith
    show "xMinimumEverFreeBytesRemaining ?h2 \<le> xFreeBytesRemaining ?h2"
      using heap_ok_min_free[OF ok] by simp
  next
    fix x
    assume "x \<in> set (allocs B l @ allocs (?p + m) r)"
    then have x: "x \<in> set (allocs B bs)" unfolding bs by (simp add: add.assoc)
    then have xb: "(fst x, snd x) \<in> set (allocs B bs)" by simp
    have "(?p, m) \<in> set (frees B bs)" unfolding frb by simp
    then have "fst x \<noteq> ?p" using allocs_not_free[OF f(2) xb] by blast
    moreover have "header_ok h x" using ok x unfolding heap_ok_def by blast
    moreover have "w32 (fst x) \<noteq> prevp h ?L"
      using alloc_ptr(1,2)[OF f(1,2) xb] D(4) unfolding frb by auto
    ultimately show "fst x \<noteq> ?p \<and> header_ok ?h2 x" using bspec[OF fr x] by (simp add: header_ok_def)
  qed
  with run show ?thesis by (simp add: malloc_account_eq)
qed

lemma first_fit_bound: "first_fit n bs = Some (l, m, r) \<Longrightarrow> n \<le> free_bytes bs"
  using first_fit_Some[of n bs l m r] by auto

lemma pvPortMalloc_ok:
  assumes ok: "heap_ok h B bs" and w: "0 < w"
  shows "case first_fit (request_size (unat w)) bs of
      None \<Rightarrow> pvPortMalloc w h = Some (0, h)
    | Some (l, m, r) \<Rightarrow> \<exists>h'. pvPortMalloc w h = Some (w32 (B + tile_bytes l + 8), h') \<and>
        heap_ok h' B (take_block l (request_size (unat w)) m r) \<and> ucHeap h' = ucHeap h \<and> xStart h' = xStart h \<and> payload h' = payload h \<and>
        xNumberOfSuccessfulAllocations h' = xNumberOfSuccessfulAllocations h + 1 \<and>
        xNumberOfSuccessfulFrees h' = xNumberOfSuccessfulFrees h"
proof -
  let ?n = "request_size (unat w)"
  note f = heap_ok_facts[OF ok]
  have fb: "free_bytes bs < 2 ^ 31" "xFreeBytesRemaining h = w32 (free_bytes bs)"
    using free_bytes_le[of bs] ok by (auto simp: heap_ok_def)
  have n16: "16 \<le> ?n" "8 dvd ?n" using request_size_facts by simp_all
  show ?thesis
  proof (cases "first_fit ?n bs")
    case None
    have "pvPortMalloc w h = Some (0, h)"
    proof (cases "?n < 2 ^ 31")
      case True
      have "malloc_take (w32 ?n) h = Some (0, h)"
        using malloc_iter_none[OF ok None _ True] n16(1) by (auto simp: malloc_take_def)
      then show ?thesis using True w f(8) by (simp add: pvPortMalloc_def malloc_block_size_eq Let_def)
    next
      case False
      then have "\<not> (heapBLOCK_SIZE_IS_VALID (malloc_block_size w) \<and> malloc_block_size w > 0)"
        using w valid_iff[of ?n] by (simp add: malloc_block_size_eq)
      then show ?thesis using f(8) by (auto simp: pvPortMalloc_def)
    qed
    then show ?thesis using None by simp
  next
    case (Some t)
    obtain l m r where t: "t = (l, m, r)" by (cases t)
    have n: "?n \<le> free_bytes bs" using first_fit_bound Some t by blast
    then have n31: "?n < 2 ^ 31" using fb(1) by simp
    have "malloc_block_size w = w32 ?n" using n31 w by (simp add: malloc_block_size_eq)
    moreover have "heapBLOCK_SIZE_IS_VALID (w32 ?n)" using n31 by (simp add: valid_iff)
    moreover have "w32 ?n > 0" using n16(1) n31 w32_less[of 0 ?n] by simp
    moreover have "w32 ?n \<le> xFreeBytesRemaining h" unfolding fb(2) using n fb(1) n31 by (subst w32_le) simp_all
    ultimately have "pvPortMalloc w h = malloc_take (w32 ?n) h" using f(8) by (simp add: pvPortMalloc_def)
    then show ?thesis using malloc_take_ok[OF ok Some[unfolded t] n16 n31] Some t by simp
  qed
qed

section \<open>Initialisation\<close>

lemma and_not_and: "w AND NOT (w AND m) = w AND NOT (m :: 32 word)"
  by (rule bit_word_eqI) (auto simp: bit_and_iff bit_or_iff bit_not_iff)

lemma align_down: "(w :: 32 word) AND NOT 7 = w32 (8 * (unat w div 8))"
proof -
  have "w - (w AND 7) = w AND NOT (w AND 7)" by (rule disjunctive_diff) (simp add: bit_and_iff)
  also have "\<dots> = w AND NOT 7" by (rule and_not_and)
  finally have "w AND NOT 7 = w32 (unat w) - w32 (unat w mod 8)" by (simp add: mask3)
  also have "\<dots> = w32 (unat w - unat w mod 8)" by (rule w32_diff) simp
  finally show ?thesis by (simp only: minus_mod_eq_mult_div)
qed

text \<open>Where the linker may put the two objects.\<close>

definition linker_ok :: "heap4 \<Rightarrow> bool" where
  "linker_ok h \<longleftrightarrow> 0 < unat (ucHeap h) \<and> unat (ucHeap h) + 26 * 1024 \<le> 2 ^ 32 \<and>
     (unat (xStart h) < unat (ucHeap h) \<or> unat (ucHeap h) + 26 * 1024 \<le> unat (xStart h))"

definition heap_lo :: "heap4 \<Rightarrow> nat" where
  "heap_lo h = 8 * ((unat (ucHeap h) + 7) div 8)"

definition heap_hi :: "heap4 \<Rightarrow> nat" where
  "heap_hi h = 8 * ((unat (ucHeap h) + 26616) div 8)"

lemma heap_lo_hi:
  "unat (ucHeap h) \<le> heap_lo h" "heap_lo h \<le> unat (ucHeap h) + 7"
  "unat (ucHeap h) + 26609 \<le> heap_hi h" "heap_hi h \<le> unat (ucHeap h) + 26616"
  "heap_lo h + 26600 \<le> heap_hi h" "8 dvd heap_lo h" "8 dvd heap_hi h"
  by (simp_all add: heap_lo_def heap_hi_def)

lemma aligned_start:
  assumes "linker_ok h"
  shows "(if ucHeap h AND portBYTE_ALIGNMENT_MASK \<noteq> 0
          then (ucHeap h + (8 - 1)) AND NOT portBYTE_ALIGNMENT_MASK else ucHeap h) = w32 (heap_lo h)"
proof -
  let ?u = "unat (ucHeap h)"
  have u: "?u + 7 < 2 ^ 32" using assms by (simp add: linker_ok_def)
  have m: "ucHeap h AND portBYTE_ALIGNMENT_MASK = 0 \<longleftrightarrow> ?u mod 8 = 0"
    unfolding portBYTE_ALIGNMENT_MASK_def mask3 using w32_eq[of "?u mod 8" 0] by simp
  have "ucHeap h + (8 - 1) = w32 (?u + 7)" by simp
  then have "unat (ucHeap h + (8 - 1)) = ?u + 7" using u by (simp only: unat_w32)
  then have a: "(ucHeap h + (8 - 1)) AND NOT portBYTE_ALIGNMENT_MASK = w32 (heap_lo h)"
    unfolding portBYTE_ALIGNMENT_MASK_def align_down by (simp only: heap_lo_def)
  have "heap_lo h = ?u" if "?u mod 8 = 0"
    using that unfolding heap_lo_def by presburger
  then have "ucHeap h = w32 (heap_lo h)" if "?u mod 8 = 0" using that w32_unat[of "ucHeap h"] by metis
  then show ?thesis using a m by simp
qed

lemma aligned_end:
  assumes "linker_ok h"
  shows "(w32 (heap_lo h) + (configTOTAL_HEAP_SIZE - (w32 (heap_lo h) - ucHeap h)) - xHeapStructSize)
           AND NOT portBYTE_ALIGNMENT_MASK = w32 (heap_hi h)"
proof -
  let ?u = "unat (ucHeap h)"
  have "w32 (heap_lo h) + (configTOTAL_HEAP_SIZE - (w32 (heap_lo h) - ucHeap h)) - xHeapStructSize = ucHeap h + 26616"
    by (simp add: configTOTAL_HEAP_SIZE_def)
  also have "\<dots> = w32 (?u + 26616)" by simp
  finally have e: "w32 (heap_lo h) + (configTOTAL_HEAP_SIZE - (w32 (heap_lo h) - ucHeap h)) - xHeapStructSize =
      w32 (?u + 26616)" .
  have "?u + 26616 < 2 ^ 32" using assms by (simp add: linker_ok_def)
  then show ?thesis
    unfolding e portBYTE_ALIGNMENT_MASK_def align_down heap_hi_def by (simp only: unat_w32)
qed

lemma prvHeapInit_eq:
  assumes "linker_ok h"
  shows "prvHeapInit h = h\<lparr>pxNextFreeBlock := (pxNextFreeBlock h)
           (xStart h := w32 (heap_lo h), w32 (heap_hi h) := 0, w32 (heap_lo h) := w32 (heap_hi h)),
         xBlockSize := (xBlockSize h)
           (xStart h := 0, w32 (heap_hi h) := 0, w32 (heap_lo h) := w32 (heap_hi h - heap_lo h)),
         pxEnd := w32 (heap_hi h), xFreeBytesRemaining := w32 (heap_hi h - heap_lo h),
         xMinimumEverFreeBytesRemaining := w32 (heap_hi h - heap_lo h)\<rparr>"
proof -
  let ?a = "ucHeap h"
  let ?a' = "if ?a AND portBYTE_ALIGNMENT_MASK \<noteq> 0
          then (?a + (8 - 1)) AND NOT portBYTE_ALIGNMENT_MASK else ?a"
  let ?t = "if ?a AND portBYTE_ALIGNMENT_MASK \<noteq> 0 then configTOTAL_HEAP_SIZE - (?a' - ?a) else configTOTAL_HEAP_SIZE"
  have t: "?t = configTOTAL_HEAP_SIZE - (?a' - ?a)" by simp
  have d: "w32 (heap_hi h) - w32 (heap_lo h) = w32 (heap_hi h - heap_lo h)"
    using heap_lo_hi(5)[of h] by (intro w32_diff) simp
  show ?thesis
    unfolding prvHeapInit_def Let_def t unfolding aligned_start[OF assms] aligned_end[OF assms]
    by (simp add: d)
qed


lemma linker_ok_ptrs:
  assumes "linker_ok h"
  shows "heap_hi h < 2 ^ 32" "w32 (heap_lo h) \<noteq> w32 (heap_hi h)" "w32 (heap_lo h) \<noteq> xStart h" "w32 (heap_hi h) \<noteq> xStart h"
    "unat (xStart h) < heap_lo h \<or> heap_hi h < unat (xStart h)" "0 < heap_lo h"
proof -
  have b: "0 < unat (ucHeap h)" "unat (ucHeap h) + 26 * 1024 \<le> 2 ^ 32"
    "unat (xStart h) < unat (ucHeap h) \<or> unat (ucHeap h) + 26 * 1024 \<le> unat (xStart h)"
    using assms by (auto simp: linker_ok_def)
  note lh = heap_lo_hi[of h]
  show hi: "heap_hi h < 2 ^ 32" using b lh by simp
  have lo: "heap_lo h < 2 ^ 32" using hi lh by simp
  show "w32 (heap_lo h) \<noteq> w32 (heap_hi h)" using w32_eq[OF lo hi] lh by simp
  show x: "unat (xStart h) < heap_lo h \<or> heap_hi h < unat (xStart h)" using b lh by linarith
  show "w32 (heap_lo h) \<noteq> xStart h" "w32 (heap_hi h) \<noteq> xStart h"
    using unat_w32[OF lo] unat_w32[OF hi] x lh(5) by auto
  show "0 < heap_lo h" using b lh by linarith
qed

lemma prvHeapInit_ok:
  assumes "linker_ok h"
  shows "heap_ok (prvHeapInit h) (heap_lo h) [(heap_hi h - heap_lo h, False)]"
proof -
  note lh = heap_lo_hi[of h] and lp = linker_ok_ptrs[OF assms]
  have t: "heap_lo h + (heap_hi h - heap_lo h) = heap_hi h" using lh(5) by simp
  have s: "16 \<le> heap_hi h - heap_lo h" "8 dvd heap_hi h - heap_lo h" "heap_hi h - heap_lo h < 2 ^ 31"
    "heap_hi h + 8 \<le> 2 ^ 32"
    using lh assms by (simp_all add: dvd_diff_nat linker_ok_def)
  have "heap_env (prvHeapInit h) (heap_lo h) (heap_hi h)"
    using lp lh(5) by (simp add: heap_env_def prvHeapInit_eq[OF assms])
  moreover have "freelist (prvHeapInit h) [(heap_lo h, heap_hi h - heap_lo h)]"
    using lp by (simp add: freelist_def prvHeapInit_eq[OF assms])
  moreover have "xFreeBytesRemaining (prvHeapInit h) = w32 (heap_hi h - heap_lo h)"
    "xMinimumEverFreeBytesRemaining (prvHeapInit h) = w32 (heap_hi h - heap_lo h)"
    by (simp_all add: prvHeapInit_eq[OF assms])
  ultimately show ?thesis
    using s lh(6) by (simp add: heap_ok_def t coalesced_def del: of_nat_diff)
qed

lemma pvPortMalloc_boot:
  assumes "linker_ok h" "pxEnd h = 0"
  shows "pvPortMalloc w h = pvPortMalloc w (prvHeapInit h)"
  using assms heap_ok_facts(8)[OF prvHeapInit_ok[OF assms(1)]] by (simp add: pvPortMalloc_def)

lemma prvHeapInit_consts [simp]: "ucHeap (prvHeapInit h) = ucHeap h" "xStart (prvHeapInit h) = xStart h"
  by (simp_all add: prvHeapInit_def Let_def)

lemma pvPortMalloc_zero: "pxEnd h \<noteq> 0 \<Longrightarrow> pvPortMalloc 0 h = Some (0, h)"
  by (simp add: pvPortMalloc_def malloc_block_size_def Let_def)
section \<open>Programs that use the heap\<close>

text \<open>
  The states the kernel and the application can reach: allocations of any size, frees of live
  pointers (and of NULL), writes to allocated memory.  \<open>live\<close> holds the pointers handed out
  with the sizes asked for.
\<close>

inductive heap_reach :: "heap4 \<Rightarrow> (32 word \<times> 32 word) list \<Rightarrow> bool" where
  boot: "linker_ok h \<Longrightarrow> pxEnd h = 0 \<Longrightarrow> heap_reach h []"
| malloc: "heap_reach h live \<Longrightarrow> pvPortMalloc w h = Some (p, h') \<Longrightarrow>
    heap_reach h' (if p = 0 then live else (p, w) # live)"
| free: "heap_reach h live \<Longrightarrow> (p, w) \<in> set live \<Longrightarrow> vPortFree p h = Some h' \<Longrightarrow>
    heap_reach h' (remove1 (p, w) live)"
| free_null: "heap_reach h live \<Longrightarrow> vPortFree 0 h = Some h' \<Longrightarrow> heap_reach h' live"
| app_write: "heap_reach h live \<Longrightarrow> heap_reach (h\<lparr>payload := f\<rparr>) live"

definition live_ok :: "nat \<Rightarrow> blocks \<Rightarrow> (32 word \<times> 32 word) list \<Rightarrow> bool" where
  "live_ok B bs live \<longleftrightarrow>
     distinct (map fst live) \<and> fst ` set live = (\<lambda>x. w32 (fst x + 8)) ` set (allocs B bs) \<and>
     (\<forall>(p, w) \<in> set live. \<forall>(q, n) \<in> set (allocs B bs). p = w32 (q + 8) \<longrightarrow> unat w + 8 \<le> n)"

definition heap_inv :: "heap4 \<Rightarrow> (32 word \<times> 32 word) list \<Rightarrow> bool" where
  "heap_inv h live \<longleftrightarrow> linker_ok h \<and>
     (if pxEnd h = 0 then live = []
      else \<exists>bs. heap_ok h (heap_lo h) bs \<and> heap_lo h + tile_bytes bs = heap_hi h \<and> live_ok (heap_lo h) bs live)"

lemma alloc_pointer:
  assumes "heap_ok h B bs" "(q, n) \<in> set (allocs B bs)"
  shows "q + 8 < 2 ^ 32" "w32 (q + 8) \<noteq> 0" "unat (w32 (q + 8)) = q + 8"
proof -
  have "q + n \<le> B + tile_bytes bs" "16 \<le> n"
    using allocs_mem[OF heap_ok_facts(2)[OF assms(1)] assms(2)] by auto
  then show q: "q + 8 < 2 ^ 32" using heap_ok_facts(5)[OF assms(1)] by linarith
  show "w32 (q + 8) \<noteq> 0" using w32_eq[OF q, of 0] by simp
  show "unat (w32 (q + 8)) = q + 8" using q by (rule unat_w32)
qed

lemma alloc_split:
  assumes "(q, n) \<in> set (allocs B bs)"
  obtains l r where "bs = l @ (n, True) # r" "q = B + tile_bytes l"
  using assms
proof (induction bs arbitrary: B thesis)
  case (Cons x bs)
  obtain m al where x: "x = (m, al)" by (cases x)
  show ?case
  proof (cases "al \<and> q = B \<and> n = m")
    case True
    then show ?thesis using Cons.prems(1)[of "[]" bs] x by simp
  next
    case False
    then have "(q, n) \<in> set (allocs (B + m) bs)" using Cons.prems(2) x by (auto split: if_splits)
    from Cons.IH[OF _ this] obtain l r where "bs = l @ (n, True) # r" "q = B + m + tile_bytes l" by blast
    then show ?thesis using Cons.prems(1)[of "x # l" r] x by simp
  qed
qed simp

lemma request_fits: "unat w + 8 \<le> request_size (unat w)"
  using request_size_facts(3)[of "unat w"] by simp

lemma live_ok_malloc:
  assumes ok: "heap_ok h B bs" and lv: "live_ok B bs live" and ff: "first_fit (request_size (unat w)) bs = Some (l, m, r)"
    and ok': "heap_ok h' B (take_block l (request_size (unat w)) m r)"
  shows "live_ok B (take_block l (request_size (unat w)) m r) ((w32 (B + tile_bytes l + 8), w) # live)"
proof -
  let ?n = "request_size (unat w)" and ?p = "B + tile_bytes l"
  let ?bs' = "take_block l ?n m r"
  note b = first_fit_Some[OF ff]
  have bs: "bs = l @ (m, False) # r" and nm: "?n \<le> m" using b by auto
  note f = heap_ok_facts[OF ok]
  note tb = take_block_facts[OF f(2)[unfolded bs] request_size_facts(1,2) nm]
  let ?k = "if m - ?n > 16 then ?n else m"
  have al: "set (allocs B ?bs') = insert (?p, ?k) (set (allocs B bs))"
    unfolding tb(3) bs by (auto simp: add.assoc)
  have pm: "(?p, ?k) \<in> set (allocs B ?bs')" unfolding al by simp
  have new: "fst x \<noteq> ?p" if "x \<in> set (allocs B bs)" for x
    using allocs_not_free[OF f(2), of "fst x" "snd x" B ?p m] that bs by simp
  have neq: "w32 (fst x + 8) \<noteq> w32 (?p + 8)" if "x \<in> set (allocs B bs)" for x
  proof -
    have "(fst x, snd x) \<in> set (allocs B bs)" using that by simp
    from alloc_pointer(1)[OF ok this] alloc_pointer(1)[OF ok' pm] new[OF that]
    show ?thesis by (simp add: w32_eq del: of_nat_add)
  qed
  have fl: "fst ` set live = (\<lambda>x. w32 (fst x + 8)) ` set (allocs B bs)"
    and sz: "\<forall>(p, w) \<in> set live. \<forall>(q, n) \<in> set (allocs B bs). p = w32 (q + 8) \<longrightarrow> unat w + 8 \<le> n"
    using lv unfolding live_ok_def by blast+
  have nl: "w32 (?p + 8) \<notin> fst ` set live" unfolding fl
  proof
    assume "w32 (?p + 8) \<in> (\<lambda>x. w32 (fst x + 8)) ` set (allocs B bs)"
    then obtain x where x: "x \<in> set (allocs B bs)" "w32 (?p + 8) = w32 (fst x + 8)" by (elim imageE)
    show False by (rule notE[OF neq[OF x(1)] x(2)[symmetric]])
  qed
  have k: "unat w + 8 \<le> ?k" using request_fits[of w] nm by simp
  have "unat v + 8 \<le> i" if "(p, v) \<in> set ((w32 (?p + 8), w) # live)" "(q, i) \<in> insert (?p, ?k) (set (allocs B bs))"
      "p = w32 (q + 8)" for p v q i
  proof (cases "(q, i) \<in> set (allocs B bs)")
    case True
    then have "p \<noteq> w32 (?p + 8)" using neq[OF True] that(3) by simp
    then have "(p, v) \<in> set live" using that(1) by auto
    then show ?thesis using sz True that(3) by blast
  next
    case False
    then have "(q, i) = (?p, ?k)" using that(2) by blast
    then have "p = w32 (?p + 8)" "i = ?k" using that(3) by simp_all
    moreover from this nl have "(p, v) = (w32 (?p + 8), w)" using that(1) by (auto simp: image_iff)
    ultimately show ?thesis using k by simp
  qed
  moreover have "distinct (map fst ((w32 (?p + 8), w) # live))" using lv nl by (simp add: live_ok_def)
  moreover have "fst ` set ((w32 (?p + 8), w) # live) = (\<lambda>x. w32 (fst x + 8)) ` insert (?p, ?k) (set (allocs B bs))"
    using fl by simp
  ultimately show ?thesis unfolding live_ok_def al by blast
qed

lemma live_ok_free:
  assumes ok: "heap_ok h B bs" and lv: "live_ok B bs live" and pw: "(w32 (B + tile_bytes l + 8), w) \<in> set live"
    and bs: "bs = l @ (n, True) # r"
  shows "live_ok B (free_block l n r) (remove1 (w32 (B + tile_bytes l + 8), w) live)"
proof -
  let ?p = "B + tile_bytes l"
  note f = heap_ok_facts[OF ok]
  have sz: "block_sizes l" "block_sizes r" "16 \<le> n" "8 dvd n" using f(2) bs by simp_all
  have al: "set (allocs B bs) = insert (?p, n) (set (allocs B (free_block l n r)))"
    unfolding bs free_block_facts(4)[OF sz] by auto
  have new: "fst x \<noteq> ?p" if "x \<in> set (allocs B (free_block l n r))" for x
    using allocs_not_free[of "l @ (n, False) # r" "fst x" "snd x" B ?p n] that sz free_block_facts(4)[OF sz, of B]
    by (simp add: add.assoc)
  have neq: "w32 (fst x + 8) \<noteq> w32 (?p + 8)" if "x \<in> set (allocs B (free_block l n r))" for x
  proof -
    have "(fst x, snd x) \<in> set (allocs B bs)" "(?p, n) \<in> set (allocs B bs)" using that al by auto
    from alloc_pointer(1)[OF ok this(1)] alloc_pointer(1)[OF ok this(2)] new[OF that]
    show ?thesis by (simp add: w32_eq del: of_nat_add)
  qed
  have d: "distinct (map fst live)" using lv by (simp add: live_ok_def)
  then have "distinct live" by (simp add: distinct_map)
  then have rm: "set (remove1 (w32 (?p + 8), w) live) = set live - {(w32 (?p + 8), w)}" by simp
  have fs: "fst ` (set live - {(w32 (?p + 8), w)}) = fst ` set live - {w32 (?p + 8)}"
  proof -
    have "b = w" if "(w32 (?p + 8), b) \<in> set live" for b
      using d pw that unfolding distinct_map inj_on_def by (metis fst_conv prod.inject)
    then show ?thesis by force
  qed
  have "(\<lambda>x. w32 (fst x + 8)) ` set (allocs B bs) - {w32 (?p + 8)} =
      (\<lambda>x. w32 (fst x + 8)) ` set (allocs B (free_block l n r))"
    unfolding al using neq by auto
  then have "fst ` set (remove1 (w32 (?p + 8), w) live) = (\<lambda>x. w32 (fst x + 8)) ` set (allocs B (free_block l n r))"
    unfolding rm fs using lv by (simp add: live_ok_def)
  moreover have "distinct (map fst (remove1 (w32 (?p + 8), w) live))"
    using d by (simp add: distinct_map inj_on_def)
  moreover have "\<forall>(p, w) \<in> set (remove1 (w32 (?p + 8), w) live). \<forall>(q, n) \<in> set (allocs B (free_block l n r)).
      p = w32 (q + 8) \<longrightarrow> unat w + 8 \<le> n"
    using lv unfolding live_ok_def al rm by blast
  ultimately show ?thesis unfolding live_ok_def by blast
qed


lemma heap_reach_inv: "heap_reach h live \<Longrightarrow> heap_inv h live"
proof (induction rule: heap_reach.induct)
  case (boot h)
  then show ?case by (simp add: heap_inv_def)
next
  case (malloc h live w p h')
  have lk: "linker_ok h" using malloc.IH by (simp add: heap_inv_def)
  define g where "g = (if pxEnd h = 0 then prvHeapInit h else h)"
  have ex: "\<exists>bs. heap_ok g (heap_lo h) bs \<and> heap_lo h + tile_bytes bs = heap_hi h \<and> live_ok (heap_lo h) bs live"
  proof (cases "pxEnd h = 0")
    case True
    have "heap_lo h + tile_bytes [(heap_hi h - heap_lo h, False)] = heap_hi h" using heap_lo_hi(5)[of h] by simp
    then show ?thesis
      using True malloc.IH prvHeapInit_ok[OF lk] unfolding g_def heap_inv_def live_ok_def
      by (intro exI[of _ "[(heap_hi h - heap_lo h, False)]"]) simp
  next
    case False
    then show ?thesis using malloc.IH by (simp add: g_def heap_inv_def)
  qed
  then obtain bs where g: "heap_ok g (heap_lo h) bs" "heap_lo h + tile_bytes bs = heap_hi h" "live_ok (heap_lo h) bs live"
    by blast
  have run: "pvPortMalloc w g = Some (p, h')"
    using malloc.hyps(2) pvPortMalloc_boot[OF lk, of w] by (cases "pxEnd h = 0") (simp_all add: g_def)
  have ug: "ucHeap g = ucHeap h" "xStart g = xStart h" by (simp_all add: g_def)
  show ?case
  proof (cases "w = 0 \<or> first_fit (request_size (unat w)) bs = None")
    case True
    then have "pvPortMalloc w g = Some (0, g)"
      using pvPortMalloc_ok[OF g(1), of w] pvPortMalloc_zero[OF heap_ok_facts(8)[OF g(1)]]
      by (cases "w = 0") (auto simp: word_gt_0)
    then have "p = 0" "h' = g" using run by simp_all
    then show ?thesis
      using g lk ug heap_ok_facts(8)[OF g(1)] by (auto simp: heap_inv_def linker_ok_def heap_lo_def heap_hi_def)
  next
    case False
    then obtain l m r where ff: "first_fit (request_size (unat w)) bs = Some (l, m, r)" and w: "0 < w"
      by (auto simp: word_gt_0)
    let ?bs' = "take_block l (request_size (unat w)) m r"
    have o: "p = w32 (heap_lo h + tile_bytes l + 8)" "heap_ok h' (heap_lo h) ?bs'" "ucHeap h' = ucHeap h"
      and xs: "xStart h' = xStart h"
      using pvPortMalloc_ok[OF g(1) w] ff run ug by auto
    have al: "\<exists>q n. (q, n) \<in> set (allocs (heap_lo h) ?bs') \<and> q = heap_lo h + tile_bytes l"
      by (auto simp: take_block_def)
    then obtain k where "(heap_lo h + tile_bytes l, k) \<in> set (allocs (heap_lo h) ?bs')" by blast
    from alloc_pointer(2)[OF o(2) this] have p0: "p \<noteq> 0" unfolding o(1) .
    have "tile_bytes ?bs' = tile_bytes bs"
      using take_block_facts(2)[OF _ request_size_facts(1,2)] first_fit_Some[OF ff] heap_ok_facts(2)[OF g(1)] by simp
    then have t: "heap_lo h + tile_bytes ?bs' = heap_hi h" using g(2) by simp
    have lv: "live_ok (heap_lo h) ?bs' ((p, w) # live)"
      unfolding o(1) by (rule live_ok_malloc[OF g(1,3) ff o(2)])
    have "heap_lo h' = heap_lo h" "heap_hi h' = heap_hi h" "linker_ok h'"
      using lk o(3) xs by (simp_all add: heap_lo_def heap_hi_def linker_ok_def)
    then show ?thesis
      using p0 o(2) t lv heap_ok_facts(8)[OF o(2)] unfolding heap_inv_def by auto
  qed
next
  case (free h live p w h')
  have ne: "pxEnd h \<noteq> 0" using free.IH free.hyps(2) by (auto simp: heap_inv_def)
  then obtain bs where g: "heap_ok h (heap_lo h) bs" "heap_lo h + tile_bytes bs = heap_hi h" "live_ok (heap_lo h) bs live"
    and lk: "linker_ok h" using free.IH by (auto simp: heap_inv_def)
  have "p \<in> (\<lambda>x. w32 (fst x + 8)) ` set (allocs (heap_lo h) bs)"
    using g(3) free.hyps(2) unfolding live_ok_def by force
  then obtain q n where q: "(q, n) \<in> set (allocs (heap_lo h) bs)" "p = w32 (q + 8)" by auto
  obtain l r where bs: "bs = l @ (n, True) # r" "q = heap_lo h + tile_bytes l"
    using alloc_split[OF q(1)] .
  from vPortFree_ok[OF g(1) bs(1)] obtain nx sz where
    run: "vPortFree (w32 (heap_lo h + tile_bytes l + 8)) h =
        Some (h\<lparr>pxNextFreeBlock := nx, xBlockSize := sz, xFreeBytesRemaining := xFreeBytesRemaining h + w32 n,
                xNumberOfSuccessfulFrees := xNumberOfSuccessfulFrees h + 1\<rparr>)"
    and ok: "heap_ok (h\<lparr>pxNextFreeBlock := nx, xBlockSize := sz, xFreeBytesRemaining := xFreeBytesRemaining h + w32 n,
                xNumberOfSuccessfulFrees := xNumberOfSuccessfulFrees h + 1\<rparr>) (heap_lo h) (free_block l n r)"
    by (elim exE conjE) (rule that)
  let ?h = "h\<lparr>pxNextFreeBlock := nx, xBlockSize := sz, xFreeBytesRemaining := xFreeBytesRemaining h + w32 n,
                xNumberOfSuccessfulFrees := xNumberOfSuccessfulFrees h + 1\<rparr>"
  have h': "h' = ?h" using free.hyps(3) run q(2) bs(2) by simp
  have "tile_bytes (free_block l n r) = tile_bytes bs"
    using free_block_facts(2)[of l r n] heap_ok_facts(2)[OF g(1)] bs(1) by simp
  then have t: "heap_lo h + tile_bytes (free_block l n r) = heap_hi h" using g(2) by simp
  have lv: "live_ok (heap_lo h) (free_block l n r) (remove1 (p, w) live)"
    using live_ok_free[OF g(1,3) _ bs(1)] free.hyps(2) q(2) bs(2) by simp
  have "heap_lo h' = heap_lo h" "heap_hi h' = heap_hi h" "linker_ok h'" "pxEnd h' \<noteq> 0"
    using lk ne by (simp_all add: heap_lo_def heap_hi_def linker_ok_def h')
  then show ?case using ok t lv unfolding heap_inv_def h' by auto
next
  case (free_null h live h')
  then show ?case by (simp add: vPortFree_def)
next
  case (app_write h live f)
  have "heap_ok (h\<lparr>payload := f\<rparr>) B bs = heap_ok h B bs" for B bs
    by (simp add: heap_ok_def heap_env_def freelist_def header_ok_def)
  moreover have "heap_lo (h\<lparr>payload := f\<rparr>) = heap_lo h" "heap_hi (h\<lparr>payload := f\<rparr>) = heap_hi h"
    "linker_ok (h\<lparr>payload := f\<rparr>) = linker_ok h"
    by (simp_all add: linker_ok_def heap_lo_def heap_hi_def)
  ultimately show ?case using app_write.IH by (simp add: heap_inv_def)
qed


lemma allocs_empty: "allocs a bs = [] \<Longrightarrow> coalesced bs \<Longrightarrow> bs = [] \<or> (\<exists>n. bs = [(n, False)])"
proof (induction bs arbitrary: a)
  case (Cons x bs)
  obtain m al where x: "x = (m, al)" by (cases x)
  then have "\<not> al" "allocs (a + m) bs = []" using Cons.prems(1) by (auto split: if_splits)
  moreover have "coalesced bs" "bs = [] \<or> snd x \<or> snd (hd bs)" using Cons.prems(2) by (auto simp: coalesced_Cons)
  ultimately show ?case using Cons.IH[of "a + m"] x by auto
qed simp

section \<open>Properties\<close>

text \<open>
  C25. Allocation refines first fit: on a well-formed heap \<open>pvPortMalloc\<close> of \<open>w > 0\<close> bytes returns
  NULL exactly when no free block holds the request with its header, rounded up, and then the
  heap is unchanged; otherwise it returns the address behind the header of the first such
  block, which is split when more than the minimum block remains.  Overflowing sizes are refused.
\<close>

theorem pvPortMalloc_refines:
  assumes "heap_ok h B bs" "0 < w"
  shows "(first_fit (request_size (unat w)) bs = None \<and> pvPortMalloc w h = Some (0, h)) \<or>
    (\<exists>l m r h'. first_fit (request_size (unat w)) bs = Some (l, m, r) \<and>
       pvPortMalloc w h = Some (w32 (B + tile_bytes l + 8), h') \<and> w32 (B + tile_bytes l + 8) \<noteq> 0 \<and>
       heap_ok h' B (take_block l (request_size (unat w)) m r))"
proof (cases "first_fit (request_size (unat w)) bs")
  case None
  then show ?thesis using pvPortMalloc_ok[OF assms] by simp
next
  case (Some t)
  obtain l m r where t: "t = (l, m, r)" by (cases t)
  then obtain h' where h': "pvPortMalloc w h = Some (w32 (B + tile_bytes l + 8), h')"
      "heap_ok h' B (take_block l (request_size (unat w)) m r)"
    using pvPortMalloc_ok[OF assms] Some by auto
  have "\<exists>k. (B + tile_bytes l, k) \<in> set (allocs B (take_block l (request_size (unat w)) m r))"
    by (auto simp: take_block_def)
  then have "w32 (B + tile_bytes l + 8) \<noteq> 0" using alloc_pointer(2)[OF h'(2)] by blast
  then show ?thesis using h' Some t by blast
qed

definition example_heap4 :: heap4 where
  "example_heap4 = \<lparr>ucHeap = 0x20000004, xStart = 0x20000000, pxNextFreeBlock = (\<lambda>_. 0), xBlockSize = (\<lambda>_. 0),
     payload = (\<lambda>_. 0), pxEnd = 0, xFreeBytesRemaining = 0, xMinimumEverFreeBytesRemaining = 0,
     xNumberOfSuccessfulAllocations = 0, xNumberOfSuccessfulFrees = 0\<rparr>"

lemma example_heap4_ok: "linker_ok example_heap4" "pxEnd example_heap4 = 0"
  "heap_lo example_heap4 = 0x20000008" "heap_hi example_heap4 = 0x200067F8"
  "heap_ok (prvHeapInit example_heap4) 0x20000008 [(26608, False)]"
proof -
  show 1: "linker_ok example_heap4" "pxEnd example_heap4 = 0" by (simp_all add: linker_ok_def example_heap4_def)
  show 2: "heap_lo example_heap4 = 0x20000008" "heap_hi example_heap4 = 0x200067F8"
    by (simp_all add: heap_lo_def heap_hi_def example_heap4_def)
  show "heap_ok (prvHeapInit example_heap4) 0x20000008 [(26608, False)]"
    using prvHeapInit_ok[OF 1(1)] by (simp add: 2)
qed

lemma pvPortMalloc_refines_witness:
  "\<exists>h'. pvPortMalloc 100 (prvHeapInit example_heap4) = Some (0x20000010, h') \<and>
     heap_ok h' 0x20000008 [(112, True), (26496, False)]"
  using pvPortMalloc_refines[OF example_heap4_ok(5), of 100]
  by (auto simp: request_size_def take_block_def)

text \<open>
  C26. Freeing refines release with coalescing, and undoes allocation: releasing a block returns,
  merges it with a free neighbour on either side and never disturbs other blocks; releasing what
  \<open>pvPortMalloc\<close> has just returned restores the tiling and the count of free bytes.
\<close>

theorem vPortFree_refines_and_undoes_malloc:
  "(heap_ok h B (l @ (n, True) # r) \<longrightarrow>
      (\<exists>h'. vPortFree (w32 (B + tile_bytes l + 8)) h = Some h' \<and> heap_ok h' B (free_block l n r))) \<and>
   (heap_ok h B bs \<and> pvPortMalloc w h = Some (p, h1) \<and> p \<noteq> 0 \<longrightarrow>
      (\<exists>h2. vPortFree p h1 = Some h2 \<and> heap_ok h2 B bs \<and> xFreeBytesRemaining h2 = xFreeBytesRemaining h))"
proof (intro conjI impI)
  assume "heap_ok h B (l @ (n, True) # r)"
  then show "\<exists>h'. vPortFree (w32 (B + tile_bytes l + 8)) h = Some h' \<and> heap_ok h' B (free_block l n r)"
    using vPortFree_ok by blast
next
  assume a: "heap_ok h B bs \<and> pvPortMalloc w h = Some (p, h1) \<and> p \<noteq> 0"
  then have ok: "heap_ok h B bs" by blast
  have w: "0 < w" using a pvPortMalloc_zero[OF heap_ok_facts(8)[OF ok]] by (auto simp: word_gt_0)
  let ?n = "request_size (unat w)"
  obtain l m r where ff: "first_fit ?n bs = Some (l, m, r)" and p: "p = w32 (B + tile_bytes l + 8)"
    and ok1: "heap_ok h1 B (take_block l ?n m r)"
    using pvPortMalloc_ok[OF ok w] a by (cases "first_fit ?n bs") auto
  have bs: "bs = l @ (m, False) # r" and nm: "?n \<le> m" using first_fit_Some[OF ff] by auto
  have co: "l = [] \<or> snd (last l)" "r = [] \<or> snd (hd r)"
    using ok bs by (auto simp: heap_ok_def coalesced_append coalesced_Cons)
  define k r' where "k = (if m - ?n > 16 then ?n else m)" and "r' = (if m - ?n > 16 then (m - ?n, False) # r else r)"
  have tb: "take_block l ?n m r = l @ (k, True) # r'" by (simp add: take_block_def k_def r'_def)
  have "join_free k r' = (m, False) # r"
    using nm co(2) unfolding k_def r'_def by (cases "(m, r)" rule: join_free.cases) auto
  then have fb: "free_block l k r' = bs" using co(1) unfolding free_block_def bs by auto
  obtain h2 where h2: "vPortFree p h1 = Some h2" "heap_ok h2 B bs"
    using vPortFree_ok[OF ok1[unfolded tb] refl] unfolding p fb by blast
  then show "\<exists>h2. vPortFree p h1 = Some h2 \<and> heap_ok h2 B bs \<and> xFreeBytesRemaining h2 = xFreeBytesRemaining h"
    using ok by (auto simp: heap_ok_def)
qed

lemma vPortFree_refines_and_undoes_malloc_witness:
  "\<exists>h1 h2. pvPortMalloc 100 (prvHeapInit example_heap4) = Some (0x20000010, h1) \<and>
     vPortFree 0x20000010 h1 = Some h2 \<and> heap_ok h2 0x20000008 [(26608, False)]"
proof -
  obtain h1 where h1: "pvPortMalloc 100 (prvHeapInit example_heap4) = Some (0x20000010, h1)"
    using pvPortMalloc_ok[OF example_heap4_ok(5), of 100] by (auto simp: request_size_def)
  then show ?thesis
    using vPortFree_refines_and_undoes_malloc[where h = "prvHeapInit example_heap4" and B = "0x20000008" and
        bs = "[(26608, False)]" and w = 100 and p = "0x20000010" and ?h1.0 = h1 and l = "[]" and r = "[]" and n = 0] example_heap4_ok(5)
    by auto
qed


text \<open>
  C24. Every state reachable from boot by allocations, frees of live pointers and writes to allocated
  memory is safe: the pointers handed out are 8-byte aligned, their memory lies inside
  \<open>ucHeap\<close> and no two of them overlap; each next call of \<open>pvPortMalloc\<close> and each free of a live
  pointer returns (no search runs for ever); and when everything has been freed the heap is one
  free block of the initial size again: there is no leak and no fragmentation left.
\<close>

theorem heap_reachable_safe:
  assumes "heap_reach h live"
  shows "(\<forall>(p, w) \<in> set live. unat p mod 8 = 0 \<and> unat (ucHeap h) \<le> unat p \<and>
             unat p + unat w \<le> unat (ucHeap h) + 26 * 1024 \<and> vPortFree p h \<noteq> None) \<and>
         (\<forall>(p, w) \<in> set live. \<forall>(q, v) \<in> set live. p \<noteq> q \<longrightarrow>
             unat p + unat w \<le> unat q \<or> unat q + unat v \<le> unat p) \<and>
         distinct (map fst live) \<and> (\<forall>w. pvPortMalloc w h \<noteq> None) \<and>
         (pxEnd h \<noteq> 0 \<and> live = [] \<longrightarrow> heap_ok h (heap_lo h) [(heap_hi h - heap_lo h, False)])"
proof (cases "pxEnd h = 0")
  case True
  then have inv: "linker_ok h" "live = []" using heap_reach_inv[OF assms] by (auto simp: heap_inv_def)
  have "pvPortMalloc w h \<noteq> None" for w
    using pvPortMalloc_boot[OF inv(1) True, of w] pvPortMalloc_ok[OF prvHeapInit_ok[OF inv(1)], of w]
      pvPortMalloc_zero[OF heap_ok_facts(8)[OF prvHeapInit_ok[OF inv(1)]]]
    by (cases "w = 0") (auto simp: word_gt_0 split: option.splits)
  then show ?thesis using inv True by simp
next
  case False
  obtain bs where ok: "heap_ok h (heap_lo h) bs" and t: "heap_lo h + tile_bytes bs = heap_hi h"
    and lv: "live_ok (heap_lo h) bs live" and lk: "linker_ok h"
    using heap_reach_inv[OF assms] False by (auto simp: heap_inv_def)
  note f = heap_ok_facts[OF ok]
  have blk: "\<exists>q n l r. (q, n) \<in> set (allocs (heap_lo h) bs) \<and> p = w32 (q + 8) \<and> unat w + 8 \<le> n \<and>
      unat p = q + 8 \<and> heap_lo h \<le> q \<and> q + n \<le> heap_hi h \<and> bs = l @ (n, True) # r \<and> q = heap_lo h + tile_bytes l"
    if "(p, w) \<in> set live" for p w
  proof -
    have "p \<in> (\<lambda>x. w32 (fst x + 8)) ` set (allocs (heap_lo h) bs)" using lv that unfolding live_ok_def by force
    then obtain q n where q: "(q, n) \<in> set (allocs (heap_lo h) bs)" "p = w32 (q + 8)" by auto
    obtain l r where "bs = l @ (n, True) # r" "q = heap_lo h + tile_bytes l" using alloc_split[OF q(1)] .
    moreover have "unat w + 8 \<le> n" using lv that q unfolding live_ok_def by blast
    moreover have "heap_lo h \<le> q" "q + n \<le> heap_hi h" using allocs_mem[OF f(2) q(1)] t by simp_all
    moreover have "unat p = q + 8" unfolding q(2) by (rule alloc_pointer(3)[OF ok q(1)])
    ultimately show ?thesis using q by blast
  qed
  have dv: "8 dvd tile_bytes l" if "block_sizes l" for l using that by (induction l) auto
  have 1: "unat p mod 8 = 0 \<and> unat (ucHeap h) \<le> unat p \<and> unat p + unat w \<le> unat (ucHeap h) + 26 * 1024 \<and>
      vPortFree p h \<noteq> None" if pw: "(p, w) \<in> set live" for p w
  proof -
    obtain q n l r where b: "p = w32 (q + 8)" "unat w + 8 \<le> n" "unat p = q + 8" "heap_lo h \<le> q" "q + n \<le> heap_hi h"
        "bs = l @ (n, True) # r" "q = heap_lo h + tile_bytes l" using blk[OF pw] by blast
    have "8 dvd q" using heap_lo_hi(6)[of h] dv[of l] f(2) b(6,7) by simp
    then have "unat p mod 8 = 0" using b(3) by simp
    moreover have "vPortFree p h \<noteq> None" using vPortFree_ok[OF ok b(6)] b(1,7) by auto
    ultimately show ?thesis using b heap_lo_hi[of h] by linarith
  qed
  have 2: "unat p + unat w \<le> unat q \<or> unat q + unat v \<le> unat p"
    if pw: "(p, w) \<in> set live" "(q, v) \<in> set live" "p \<noteq> q" for p w q v
  proof -
    obtain a n where a: "(a, n) \<in> set (allocs (heap_lo h) bs)" "p = w32 (a + 8)" "unat w + 8 \<le> n" "unat p = a + 8"
      using blk[OF pw(1)] by blast
    obtain b m where b: "(b, m) \<in> set (allocs (heap_lo h) bs)" "q = w32 (b + 8)" "unat v + 8 \<le> m" "unat q = b + 8"
      using blk[OF pw(2)] by blast
    have "a \<noteq> b" using a(2) b(2) pw(3) by blast
    then have "a + n \<le> b \<or> b + m \<le> a" using blocks_apart[OF f(2) a(1), of b m] b(1) by simp
    then show ?thesis using a b by linarith
  qed
  have 3: "pvPortMalloc w h \<noteq> None" for w
    using pvPortMalloc_ok[OF ok, of w] pvPortMalloc_zero[OF False]
    by (cases "w = 0") (auto simp: word_gt_0 split: option.splits)
  have 4: "heap_ok h (heap_lo h) [(heap_hi h - heap_lo h, False)]" if "live = []"
  proof -
    have "allocs (heap_lo h) bs = []" using lv that by (simp add: live_ok_def)
    moreover have "coalesced bs" using ok by (simp add: heap_ok_def)
    ultimately have "bs = [] \<or> (\<exists>n. bs = [(n, False)])" by (rule allocs_empty)
    then have "bs = [(heap_hi h - heap_lo h, False)]" using t heap_lo_hi(5)[of h] by auto
    then show ?thesis using ok by simp
  qed
  show ?thesis using 1 2 3 4 lv False unfolding live_ok_def by blast
qed


lemma heap_reachable_safe_witness:
  "\<exists>h. heap_reach h [(0x20000010, 100)] \<and> pvPortMalloc 7 h \<noteq> None \<and> vPortFree 0x20000010 h \<noteq> None"
proof -
  have "heap_reach example_heap4 []" by (rule heap_reach.boot[OF example_heap4_ok(1,2)])
  moreover obtain h1 where h1: "pvPortMalloc 100 (prvHeapInit example_heap4) = Some (0x20000010, h1)"
    using pvPortMalloc_ok[OF example_heap4_ok(5), of 100] by (auto simp: request_size_def)
  ultimately have "heap_reach h1 [(0x20000010, 100)]"
    using heap_reach.malloc[of example_heap4 "[]" 100 "0x20000010" h1] pvPortMalloc_boot[OF example_heap4_ok(1,2)] by simp
  then show ?thesis using heap_reachable_safe[of h1 "[(0x20000010, 100)]"] by auto
qed

text \<open>
  C27. A second free of the same pointer right after the first, and a free of NULL, change nothing: the
  header of the released block no longer carries the allocated bit, wherever the block was merged.
\<close>

theorem vPortFree_double_free:
  "vPortFree 0 h = Some h \<and>
   (heap_ok h B (l @ (n, True) # r) \<longrightarrow>
      (\<exists>h'. vPortFree (w32 (B + tile_bytes l + 8)) h = Some h' \<and>
            vPortFree (w32 (B + tile_bytes l + 8)) h' = Some h'))"
proof (intro conjI impI)
  show "vPortFree 0 h = Some h" by (simp add: vPortFree_def)
  assume ok: "heap_ok h B (l @ (n, True) # r)"
  from vPortFree_ok[OF this refl] obtain nx sz where
    run: "vPortFree (w32 (B + tile_bytes l + 8)) h =
        Some (h\<lparr>pxNextFreeBlock := nx, xBlockSize := sz, xFreeBytesRemaining := xFreeBytesRemaining h + w32 n,
                xNumberOfSuccessfulFrees := xNumberOfSuccessfulFrees h + 1\<rparr>)"
    and small: "unat (sz (w32 (B + tile_bytes l))) < 2 ^ 31"
    by (elim exE conjE) (rule that)
  let ?h = "h\<lparr>pxNextFreeBlock := nx, xBlockSize := sz, xFreeBytesRemaining := xFreeBytesRemaining h + w32 n,
                xNumberOfSuccessfulFrees := xNumberOfSuccessfulFrees h + 1\<rparr>"
  have "\<not> bit (sz (w32 (B + tile_bytes l))) 31"
    using bit31_iff[of "unat (sz (w32 (B + tile_bytes l)))"] small by simp
  then have "\<not> heapBLOCK_IS_ALLOCATED (w32 (B + tile_bytes l + 8) - xHeapStructSize) ?h"
    unfolding heapBLOCK_IS_ALLOCATED_def masked_zero by simp
  then have "vPortFree (w32 (B + tile_bytes l + 8)) ?h = Some ?h"
    unfolding vPortFree_def Let_def by (simp only: simp_thms if_False)
  with run show "\<exists>h'. vPortFree (w32 (B + tile_bytes l + 8)) h = Some h' \<and>
            vPortFree (w32 (B + tile_bytes l + 8)) h' = Some h'" by blast
qed

lemma vPortFree_double_free_witness:
  "\<exists>h1 h2. pvPortMalloc 100 (prvHeapInit example_heap4) = Some (0x20000010, h1) \<and>
     vPortFree 0x20000010 h1 = Some h2 \<and> vPortFree 0x20000010 h2 = Some h2"
proof -
  obtain h1 where h1: "pvPortMalloc 100 (prvHeapInit example_heap4) = Some (0x20000010, h1)"
    "heap_ok h1 0x20000008 ([] @ (112, True) # [(26496, False)])"
    using pvPortMalloc_ok[OF example_heap4_ok(5), of 100] by (auto simp: request_size_def take_block_def)
  then show ?thesis
    using vPortFree_double_free[of h1 "0x20000008" "[]" 112 "[(26496, False)]"] by auto
qed

text \<open>The remaining services: \<open>pvPortCalloc\<close> refuses an overflowing product and clears what it returns,
  and the statistics walk ends on every well-formed heap.\<close>

lemma pvPortCalloc_overflow:
  "2 ^ 32 \<le> unat a * unat b \<Longrightarrow> pvPortCalloc a b h = Some (0, h)"
proof -
  assume o: "2 ^ 32 \<le> unat a * unat b"
  then have a: "a > 0" by (cases "a = 0") (simp_all add: word_gt_0)
  have "unat (NOT 0 div a) = (2 ^ 32 - 1) div unat a" by (simp add: unat_div unsigned_minus_1_eq_mask mask_eq_exp_minus_1)
  also have "\<dots> < unat b"
  proof -
    have "0 < unat a" using a by (simp add: word_gt_0 unat_gt_0)
    then have "(2 ^ 32 - 1 :: nat) div unat a < unat b \<longleftrightarrow> 2 ^ 32 - 1 < unat b * unat a"
      by (rule div_less_iff_less_mult)
    then show ?thesis using o by (simp add: mult.commute)
  qed
  finally have "b > NOT 0 div a" by (simp add: word_less_nat_alt)
  with a show ?thesis by (simp add: pvPortCalloc_def heapMULTIPLY_WILL_OVERFLOW_def)
qed

lemma stats_iter_ends:
  assumes env: "heap_env h B e" and fl: "freelist h (L1 @ L2)" and o: "ordered B (L1 @ L2) e"
  shows "\<exists>mx mn. stats_iter h (nextp h L2) (n, a, b) = Some (n + w32 (length L2), mx, mn)"
  using fl o
proof (induction L2 arbitrary: L1 n a b)
  case Nil
  then show ?case by (subst stats_iter.simps) simp
next
  case (Cons x L2)
  have "pxEnd h \<noteq> w32 (fst x)" using ptrs_distinct[OF env Cons.prems(2)] by auto
  moreover have "pxNextFreeBlock h (w32 (fst x)) = nextp h L2"
    using freelist_link[of h "L1 @ [x]" L2] Cons.prems(1) by simp
  moreover have "\<exists>mx mn. stats_iter h (nextp h L2) (n + 1, a', b') = Some (n + 1 + w32 (length L2), mx, mn)" for a' b'
    using Cons.IH[of "L1 @ [x]" "n + 1" a' b'] Cons.prems by simp
  ultimately show ?case by (subst stats_iter.simps) (simp add: ac_simps)
qed

lemma vPortGetHeapStats_counts:
  assumes "heap_ok h B bs"
  shows "\<exists>st. vPortGetHeapStats h = Some st \<and> xNumberOfFreeBlocks st = w32 (length (frees B bs)) \<and>
    xAvailableHeapSpaceInBytes st = w32 (free_bytes bs)"
proof -
  note f = heap_ok_facts[OF assms]
  have "pxNextFreeBlock h (xStart h) = nextp h (frees B bs)" using freelist_link[of h "[]" "frees B bs"] f(3) by simp
  moreover have "xFreeBytesRemaining h = w32 (free_bytes bs)" using assms by (simp add: heap_ok_def)
  moreover have "nextp h (frees B bs) \<noteq> 0"
  proof (cases "frees B bs")
    case (Cons y F)
    then have "B \<le> fst y" "fst y < 2 ^ 32" using frees_mem[OF f(2), of "fst y" "snd y" B] f(5) by auto
    then show ?thesis using Cons f(6) w32_eq[of "fst y" 0] by simp
  qed (use f(8) in simp)
  ultimately show ?thesis
    using stats_iter_ends[OF f(1), of "[]" "frees B bs" 0 0 "0xffffffff"] f(3,4)
    by (auto simp: vPortGetHeapStats_def Let_def)
qed

end
