(* ===== verification/MemPool.thy ===== *)
theory MemPool
  imports CPrelude
begin

text \<open>
  The board's own block allocator (\<open>System/malloc.c\<close>, \<open>malloc.h\<close>): three memory banks cut into
  64-byte blocks, each with a table that holds, for every block of an allocation, the number
  of blocks of that allocation, and 0 for a free block.  The table is searched from the top.
  The lemmas relate a table to the set of its live allocations (\<open>table_ok\<close>).
\<close>

section \<open>State\<close>

definition memtblsize :: "32 word list" where
  "memtblsize = [30 * 1024 div 64, 1 * 1024 div 64, 60 * 1024 div 64]"

definition memblksize :: "32 word list" where
  "memblksize = [64, 64, 64]"

definition memsize :: "32 word list" where
  "memsize = [30 * 1024, 1 * 1024, 60 * 1024]"

text \<open>\<open>g_mem_dev\<close>: the address of every bank, its table and its ready flag; \<open>mem\<close> is the byte
  memory the copy routines work on.\<close>

record mem_dev =
  membase :: "nat \<Rightarrow> 32 word"
  memmap :: "nat \<Rightarrow> 32 word list"
  memrdy :: "nat \<Rightarrow> 8 word"
  mem :: "32 word \<Rightarrow> 8 word"

section \<open>Operations\<close>

fun cpy_loop :: "nat \<Rightarrow> 32 word \<Rightarrow> 32 word \<Rightarrow> (32 word \<Rightarrow> 8 word) \<Rightarrow> (32 word \<Rightarrow> 8 word)" where
  "cpy_loop 0 d s m = m"
| "cpy_loop (Suc n) d s m = cpy_loop n (d + 1) (s + 1) (m(d := m s))"

definition my_mem_cpy :: "32 word \<Rightarrow> 32 word \<Rightarrow> 32 word \<Rightarrow> mem_dev \<Rightarrow> mem_dev" where
  "my_mem_cpy des src n g = g\<lparr>mem := cpy_loop (unat n) des src (mem g)\<rparr>"

fun set_loop :: "nat \<Rightarrow> 32 word \<Rightarrow> 8 word \<Rightarrow> (32 word \<Rightarrow> 8 word) \<Rightarrow> (32 word \<Rightarrow> 8 word)" where
  "set_loop 0 s c m = m"
| "set_loop (Suc n) s c m = set_loop n (s + 1) c (m(s := c))"

definition my_mem_set :: "32 word \<Rightarrow> 8 word \<Rightarrow> 32 word \<Rightarrow> mem_dev \<Rightarrow> mem_dev" where
  "my_mem_set s c count g = g\<lparr>mem := set_loop (unat count) s c (mem g)\<rparr>"

text \<open>Clearing the four bytes of every table entry.\<close>

definition my_mem_init :: "nat \<Rightarrow> mem_dev \<Rightarrow> mem_dev option" where
  "my_mem_init memx g =
     do { tbl \<leftarrow> rd memtblsize memx;
          t \<leftarrow> wrs (memmap g memx) 0 (replicate (unat tbl) 0);
          Some (g\<lparr>memmap := (memmap g)(memx := t), memrdy := (memrdy g)(memx := 1)\<rparr>) }"

fun used_loop :: "32 word list \<Rightarrow> nat \<Rightarrow> nat \<Rightarrow> 32 word \<Rightarrow> 32 word option" where
  "used_loop t i 0 used = Some used"
| "used_loop t i (Suc n) used =
     do { v \<leftarrow> rd t i; used_loop t (Suc i) n (if v \<noteq> 0 then used + 1 else used) }"

definition my_mem_perused :: "nat \<Rightarrow> mem_dev \<Rightarrow> 16 word option" where
  "my_mem_perused memx g =
     do { tbl \<leftarrow> rd memtblsize memx;
          used \<leftarrow> used_loop (memmap g memx) 0 (unat tbl) 0;
          Some (ucast ((used * 1000) div tbl)) }"

text \<open>The search for \<open>nmemb\<close> consecutive free blocks from the top of the table down.\<close>

fun find_run :: "32 word list \<Rightarrow> 32 word \<Rightarrow> nat \<Rightarrow> 32 word \<Rightarrow> nat option option" where
  "find_run t nmemb 0 cmemb = Some None"
| "find_run t nmemb (Suc offset) cmemb =
     do { v \<leftarrow> rd t offset;
          let cmemb = (if v = 0 then cmemb + 1 else 0);
          if cmemb = nmemb then Some (Some offset) else find_run t nmemb offset cmemb }"

definition my_mem_malloc :: "nat \<Rightarrow> 32 word \<Rightarrow> mem_dev \<Rightarrow> (32 word \<times> mem_dev) option" where
  "my_mem_malloc memx sz g =
     do { tbl \<leftarrow> rd memtblsize memx;
          blk \<leftarrow> rd memblksize memx;
          g \<leftarrow> (if memrdy g memx = 0 then my_mem_init memx g else Some g);
          if sz = 0 then Some (0xFFFFFFFF, g)
          else do {
            let nmemb = sz div blk + (if sz mod blk \<noteq> 0 then 1 else 0);
            found \<leftarrow> find_run (memmap g memx) nmemb (unat tbl) 0;
            case found of
              None \<Rightarrow> Some (0xFFFFFFFF, g)
            | Some offset \<Rightarrow>
                do { t \<leftarrow> wrs (memmap g memx) offset (replicate (unat nmemb) nmemb);
                     Some (of_nat offset * blk, g\<lparr>memmap := (memmap g)(memx := t)\<rparr>) } } }"

text \<open>\<open>int nmemb = memmap[index]\<close>: a value with the top bit set is negative, and the loop ends at once.\<close>

definition my_mem_free :: "nat \<Rightarrow> 32 word \<Rightarrow> mem_dev \<Rightarrow> (8 word \<times> mem_dev) option" where
  "my_mem_free memx offset g =
     (if memrdy g memx = 0 then do { g \<leftarrow> my_mem_init memx g; Some (1, g) }
      else do {
        sz \<leftarrow> rd memsize memx;
        blk \<leftarrow> rd memblksize memx;
        if offset < sz
        then do { let index = unat (offset div blk);
                  v \<leftarrow> rd (memmap g memx) index;
                  t \<leftarrow> wrs (memmap g memx) index (replicate (nat (sint v)) 0);
                  Some (0, g\<lparr>memmap := (memmap g)(memx := t)\<rparr>) }
        else Some (2, g) })"

definition my_free :: "nat \<Rightarrow> 32 word \<Rightarrow> mem_dev \<Rightarrow> mem_dev option" where
  "my_free memx ptr g =
     (if ptr = 0 then Some g
      else map_option snd (my_mem_free memx (ptr - membase g memx) g))"

definition my_malloc :: "nat \<Rightarrow> 32 word \<Rightarrow> mem_dev \<Rightarrow> (32 word \<times> mem_dev) option" where
  "my_malloc memx sz g =
     do { (offset, g) \<leftarrow> my_mem_malloc memx sz g;
          Some (if offset = 0xFFFFFFFF then 0 else membase g memx + offset, g) }"

definition myrealloc :: "nat \<Rightarrow> 32 word \<Rightarrow> 32 word \<Rightarrow> mem_dev \<Rightarrow> (32 word \<times> mem_dev) option" where
  "myrealloc memx ptr sz g =
     do { (offset, g) \<leftarrow> my_mem_malloc memx sz g;
          if offset = 0xFFFFFFFF then Some (0, g)
          else do { let g = my_mem_cpy (membase g memx + offset) ptr sz g;
                    g \<leftarrow> my_free memx ptr g;
                    Some (membase g memx + offset, g) } }"

section \<open>Tables and allocations\<close>

text \<open>A table stands for a set of allocations (first block, number of blocks).\<close>

definition table_ok :: "32 word list \<Rightarrow> (nat \<times> nat) set \<Rightarrow> bool" where
  "table_ok t A \<longleftrightarrow>
     length t \<le> 960 \<and>
     (\<forall>s k. (s, k) \<in> A \<longrightarrow> 0 < k \<and> s + k \<le> length t \<and> (\<forall>i. s \<le> i \<and> i < s + k \<longrightarrow> t ! i = w32 k)) \<and>
     (\<forall>s k s' k'. (s, k) \<in> A \<and> (s', k') \<in> A \<longrightarrow> (s, k) = (s', k') \<or> s + k \<le> s' \<or> s' + k' \<le> s) \<and>
     (\<forall>i < length t. t ! i \<noteq> 0 \<longrightarrow> (\<exists>s k. (s, k) \<in> A \<and> s \<le> i \<and> i < s + k))"

definition free_run :: "32 word list \<Rightarrow> nat \<Rightarrow> nat \<Rightarrow> bool" where
  "free_run t s k \<longleftrightarrow> s + k \<le> length t \<and> (\<forall>i. s \<le> i \<and> i < s + k \<longrightarrow> t ! i = 0)"

lemma table_ok_entry:
  "table_ok t A \<Longrightarrow> (s, k) \<in> A \<Longrightarrow> s \<le> i \<Longrightarrow> i < s + k \<Longrightarrow> t ! i = w32 k \<and> w32 k \<noteq> 0 \<and> k \<le> 960"
proof -
  assume a: "table_ok t A" "(s, k) \<in> A" "s \<le> i" "i < s + k"
  then have "0 < k" "s + k \<le> length t" "t ! i = w32 k" "length t \<le> 960" unfolding table_ok_def by blast+
  moreover have "w32 k \<noteq> 0" using calculation w32_eq[of k 0] by simp
  ultimately show ?thesis by simp
qed

lemma table_ok_free:
  assumes "table_ok t A" "free_run t s k" "(s', k') \<in> A"
  shows "s + k \<le> s' \<or> s' + k' \<le> s \<or> k = 0"
proof (rule ccontr)
  assume n: "\<not> ?thesis"
  have "0 < k'" using assms(1,3) unfolding table_ok_def by blast
  then have i: "s \<le> max s s'" "max s s' < s + k" "s' \<le> max s s'" "max s s' < s' + k'" using n by auto
  then have "t ! max s s' = 0" using assms(2) unfolding free_run_def by blast
  then show False using table_ok_entry[OF assms(1,3) i(3,4)] by simp
qed

lemma free_run_Suc: "free_run t off (Suc c) \<longleftrightarrow> off < length t \<and> t ! off = 0 \<and> free_run t (Suc off) c"
  unfolding free_run_def by (auto simp: Suc_le_eq) (metis le_neq_implies_less)

lemma free_run_mono: "free_run t s k \<Longrightarrow> j \<le> k \<Longrightarrow> free_run t s j"
  unfolding free_run_def by auto

lemma free_run_le: "free_run t s k \<Longrightarrow> s + k \<le> length t"
  unfolding free_run_def by simp

text \<open>What the search returns: the highest run that is long enough.\<close>

definition highest_run :: "32 word list \<Rightarrow> nat \<Rightarrow> nat option \<Rightarrow> bool" where
  "highest_run t k r \<longleftrightarrow>
     (case r of None \<Rightarrow> \<forall>s. \<not> free_run t s k
      | Some s \<Rightarrow> free_run t s k \<and> (\<forall>s'. s < s' \<longrightarrow> \<not> free_run t s' k))"

lemma find_run_spec:
  assumes "free_run t off c" "\<not> free_run t off (Suc c)" "length t \<le> 960" "c < unat n"
    and "\<And>s. off \<le> s \<Longrightarrow> \<not> free_run t s (unat n)"
  shows "\<exists>r. find_run t n off (w32 c) = Some r \<and> highest_run t (unat n) r"
  using assms
proof (induction off arbitrary: c)
  case 0
  then show ?case by (simp add: highest_run_def)
next
  case (Suc off)
  have len: "off < length t" and c960: "Suc c < 2 ^ 32" using free_run_le[OF Suc.prems(1)] Suc.prems(3) by auto
  have nw: "n = w32 (unat n)" by simp
  show ?case
  proof (cases "t ! off = 0")
    case True
    have run: "free_run t off (Suc c)" using True len Suc.prems(1) by (simp add: free_run_Suc)
    have nrun: "\<not> free_run t off (Suc (Suc c))" using Suc.prems(2) by (simp add: free_run_Suc)
    have eq: "w32 c + 1 = n \<longleftrightarrow> Suc c = unat n"
      using w32_eq[OF c960 unat_less_32[of n]] by (simp add: add.commute)
    show ?thesis
    proof (cases "Suc c = unat n")
      case fin: True
      then have "find_run t n (Suc off) (w32 c) = Some (Some off)"
        using len True eq by (simp add: rd_in)
      moreover have "highest_run t (unat n) (Some off)"
        using run fin Suc.prems(5) by (simp add: highest_run_def Suc_le_eq)
      ultimately show ?thesis by blast
    next
      case more: False
      have step: "find_run t n (Suc off) (w32 c) = find_run t n off (w32 (Suc c))"
        using len True eq more by (simp add: rd_in add.commute)
      have "\<not> free_run t s (unat n)" if "off \<le> s" for s
      proof (cases "s = off")
        case True
        moreover have "Suc (Suc c) \<le> unat n" using Suc.prems(4) more by simp
        ultimately show ?thesis using nrun free_run_mono[of t off "unat n" "Suc (Suc c)"] by blast
      qed (use that Suc.prems(5) in auto)
      then show ?thesis using Suc.IH[of "Suc c"] run nrun Suc.prems(3,4) more step by simp
    qed
  next
    case False
    have run: "free_run t off 0" using len by (auto simp: free_run_def)
    have nrun: "\<not> free_run t off (Suc k)" for k using False by (simp add: free_run_Suc)
    have n0: "n \<noteq> 0" "0 < unat n" using Suc.prems(4) by auto
    have step: "find_run t n (Suc off) (w32 c) = find_run t n off (w32 0)"
      using len False n0 by (simp add: rd_in)
    have "\<not> free_run t s (unat n)" if "off \<le> s" for s
    proof (cases "s = off")
      case True
      then show ?thesis using nrun[of "unat n - 1"] n0 by simp
    qed (use that Suc.prems(5) in auto)
    then show ?thesis using Suc.IH[of 0] run nrun Suc.prems(3) n0 step by simp
  qed
qed

text \<open>Marking a free run and clearing an allocation.\<close>

lemma table_ok_D:
  assumes "table_ok t A"
  shows "length t \<le> 960" "(s, k) \<in> A \<Longrightarrow> 0 < k" "(s, k) \<in> A \<Longrightarrow> s + k \<le> length t"
    "(s, k) \<in> A \<Longrightarrow> (s', k') \<in> A \<Longrightarrow> (s, k) = (s', k') \<or> s + k \<le> s' \<or> s' + k' \<le> s"
    "i < length t \<Longrightarrow> t ! i \<noteq> 0 \<Longrightarrow> \<exists>s k. (s, k) \<in> A \<and> s \<le> i \<and> i < s + k"
  using assms unfolding table_ok_def by blast+

lemma table_okI:
  assumes "length t \<le> 960" "\<And>s k. (s, k) \<in> A \<Longrightarrow> 0 < k \<and> s + k \<le> length t"
    and "\<And>s k i. (s, k) \<in> A \<Longrightarrow> s \<le> i \<Longrightarrow> i < s + k \<Longrightarrow> t ! i = w32 k"
    and "\<And>s k s' k'. (s, k) \<in> A \<Longrightarrow> (s', k') \<in> A \<Longrightarrow> (s, k) = (s', k') \<or> s + k \<le> s' \<or> s' + k' \<le> s"
    and "\<And>i. i < length t \<Longrightarrow> t ! i \<noteq> 0 \<Longrightarrow> \<exists>s k. (s, k) \<in> A \<and> s \<le> i \<and> i < s + k"
  shows "table_ok t A"
  unfolding table_ok_def using assms by blast

lemma table_ok_nth: "table_ok t A \<Longrightarrow> (s, k) \<in> A \<Longrightarrow> s \<le> i \<Longrightarrow> i < s + k \<Longrightarrow> t ! i = w32 k"
  using table_ok_entry by blast

lemma nth_mark:
  "s + k \<le> length t \<Longrightarrow> i < length t \<Longrightarrow>
   overwrite t s (replicate k v) ! i = (if s \<le> i \<and> i < s + k then v else t ! i)"
  by (subst nth_overwrite) auto

lemma table_ok_alloc:
  assumes ok: "table_ok t A" and run: "free_run t s k" and k: "0 < k"
  shows "table_ok (overwrite t s (replicate k (w32 k))) (insert (s, k) A)"
proof -
  let ?t = "overwrite t s (replicate k (w32 k))"
  have le: "s + k \<le> length t" using run by (rule free_run_le)
  have len: "length ?t = length t" using le by simp
  have apart: "s + k \<le> s' \<or> s' + k' \<le> s" if "(s', k') \<in> A" for s' k'
    using table_ok_free[OF ok run that] k by blast
  have old: "?t ! i = w32 k'" if m: "(s', k') \<in> A" and i: "s' \<le> i" "i < s' + k'" for s' k' i
  proof -
    have "i < length t" using table_ok_D(3)[OF ok m] i by simp
    moreover have "\<not> (s \<le> i \<and> i < s + k)" using apart[OF m] i by auto
    ultimately show ?thesis using table_ok_nth[OF ok m i] le by (auto simp: nth_mark)
  qed
  have new: "?t ! i = w32 k" if "s \<le> i" "i < s + k" for i using that le by (simp add: nth_mark)
  have cover: "\<exists>s' k'. (s', k') \<in> insert (s, k) A \<and> s' \<le> i \<and> i < s' + k'" if "i < length t" "?t ! i \<noteq> 0" for i
  proof (cases "s \<le> i \<and> i < s + k")
    case False
    then have "t ! i \<noteq> 0" using that le by (auto simp: nth_mark split: if_splits)
    then show ?thesis using table_ok_D(5)[OF ok that(1)] by blast
  qed auto
  have pair: "(a, b) = (a', b') \<or> a + b \<le> a' \<or> a' + b' \<le> a"
    if "(a, b) \<in> insert (s, k) A" "(a', b') \<in> insert (s, k) A" for a b a' b'
    using that apart[of a b] apart[of a' b'] table_ok_D(4)[OF ok, of a b a' b'] by auto
  show ?thesis
  proof (rule table_okI)
    show "0 < k' \<and> s' + k' \<le> length ?t" if "(s', k') \<in> insert (s, k) A" for s' k'
      using that le k len table_ok_D(2,3)[OF ok, of s' k'] by auto
    show "?t ! i = w32 k'" if "(s', k') \<in> insert (s, k) A" "s' \<le> i" "i < s' + k'" for s' k' i
      using that old[of s' k' i] new[of i] by auto
    show "length ?t \<le> 960" using len table_ok_D(1)[OF ok] by simp
  qed (use cover len pair in auto)
qed

lemma table_ok_release:
  assumes ok: "table_ok t A" and m: "(s, k) \<in> A"
  shows "table_ok (overwrite t s (replicate k 0)) (A - {(s, k)})"
proof -
  let ?t = "overwrite t s (replicate k 0)"
  have le: "s + k \<le> length t" using table_ok_D(3)[OF ok m] .
  have len: "length ?t = length t" using le by simp
  have old: "?t ! i = w32 k'" if m': "(s', k') \<in> A - {(s, k)}" and i: "s' \<le> i" "i < s' + k'" for s' k' i
  proof -
    have "i < length t" using table_ok_D(3)[OF ok, of s' k'] m' i by simp
    moreover have "\<not> (s \<le> i \<and> i < s + k)" using table_ok_D(4)[OF ok m, of s' k'] m' i by auto
    ultimately show ?thesis using table_ok_nth[OF ok _ i] m' le by (auto simp: nth_mark)
  qed
  have cover: "\<exists>s' k'. (s', k') \<in> A - {(s, k)} \<and> s' \<le> i \<and> i < s' + k'" if a: "i < length t" "?t ! i \<noteq> 0" for i
  proof -
    have n: "\<not> (s \<le> i \<and> i < s + k)" "t ! i \<noteq> 0" using a le by (auto simp: nth_mark split: if_splits)
    then obtain s' k' where "(s', k') \<in> A" "s' \<le> i" "i < s' + k'" using table_ok_D(5)[OF ok a(1)] by blast
    then show ?thesis using n(1) by blast
  qed
  show ?thesis
  proof (rule table_okI)
    show "(a, b) = (a', b') \<or> a + b \<le> a' \<or> a' + b' \<le> a"
      if "(a, b) \<in> A - {(s, k)}" "(a', b') \<in> A - {(s, k)}" for a b a' b'
      using that table_ok_D(4)[OF ok, of a b a' b'] by blast
  qed (use len old cover table_ok_D(1-3)[OF ok] in auto)
qed

text \<open>Marking and clearing a free run changes nothing.\<close>

lemma overwrite_overwrite:
  assumes "s + length vs \<le> length t" "length us = length vs"
  shows "overwrite (overwrite t s us) s vs = overwrite t s vs"
  using assms by (intro nth_equalityI) (auto simp: nth_overwrite)

lemma overwrite_free_run: "free_run t s k \<Longrightarrow> overwrite t s (replicate k 0) = t"
  by (intro nth_equalityI) (auto simp: nth_mark free_run_def)

section \<open>The operations on a well-formed pool\<close>

definition pool_ok :: "nat \<Rightarrow> mem_dev \<Rightarrow> (nat \<times> nat) set \<Rightarrow> bool" where
  "pool_ok memx g A \<longleftrightarrow>
     memx < 3 \<and> length (memmap g memx) = unat (memtblsize ! memx) \<and>
     (if memrdy g memx = 0 then A = {} else table_ok (memmap g memx) A)"

abbreviation pool_blocks :: "nat \<Rightarrow> nat" where
  "pool_blocks memx \<equiv> unat (memtblsize ! memx)"

lemma bank_cases: "(memx :: nat) < 3 \<Longrightarrow> memx = 0 \<or> memx = 1 \<or> memx = 2"
  by auto

lemma bank_consts:
  assumes "memx < 3"
  shows "rd memtblsize memx = Some (memtblsize ! memx)" "rd memblksize memx = Some 64"
    "rd memsize memx = Some (memsize ! memx)" "pool_blocks memx \<le> 960" "0 < pool_blocks memx"
    "unat (memsize ! memx) = 64 * pool_blocks memx"
  using bank_cases[OF assms] by (auto simp: rd_def memtblsize_def memblksize_def memsize_def)

lemma table_ok_zero: "n \<le> 960 \<Longrightarrow> table_ok (replicate n 0) {}"
  by (simp add: table_ok_def)

text \<open>What initialisation leaves: the empty pool.\<close>

definition ready_pool :: "nat \<Rightarrow> mem_dev \<Rightarrow> mem_dev" where
  "ready_pool memx g =
     (if memrdy g memx = 0
      then g\<lparr>memmap := (memmap g)(memx := replicate (pool_blocks memx) 0), memrdy := (memrdy g)(memx := 1)\<rparr>
      else g)"

lemma my_mem_init_empty:
  assumes "pool_ok memx g A"
  shows "my_mem_init memx g = Some (g\<lparr>memmap := (memmap g)(memx := replicate (pool_blocks memx) 0),
    memrdy := (memrdy g)(memx := 1)\<rparr>)"
proof -
  have "memx < 3" "length (memmap g memx) = pool_blocks memx" using assms by (simp_all add: pool_ok_def)
  then show ?thesis by (simp add: my_mem_init_def bank_consts wrs_in overwrite_def)
qed

lemma ready_pool_ok:
  assumes "pool_ok memx g A"
  shows "pool_ok memx (ready_pool memx g) A" "memrdy (ready_pool memx g) memx \<noteq> 0"
    "(if memrdy g memx = 0 then my_mem_init memx g else Some g) = Some (ready_pool memx g)"
  using assms my_mem_init_empty[OF assms] bank_consts(4)[of memx]
  by (auto simp: ready_pool_def pool_ok_def intro: table_ok_zero split: if_splits)

lemma ready_pool_fields [simp]:
  "membase (ready_pool memx g) = membase g" "mem (ready_pool memx g) = mem g"
  "memx' \<noteq> memx \<Longrightarrow> memmap (ready_pool memx g) memx' = memmap g memx'"
  "memx' \<noteq> memx \<Longrightarrow> memrdy (ready_pool memx g) memx' = memrdy g memx'"
  by (simp_all add: ready_pool_def)

text \<open>The number of blocks a size needs.\<close>

definition blocks_for :: "32 word \<Rightarrow> nat" where
  "blocks_for sz = (unat sz + 63) div 64"

lemma blocks_for_bounds: "sz \<noteq> 0 \<Longrightarrow> 0 < blocks_for sz" "unat sz \<le> 64 * blocks_for sz"
  "64 * blocks_for sz < unat sz + 64"
  unfolding blocks_for_def by (auto simp: word_neq_0_conv word_less_nat_alt)

lemma up_div_64: "(n + 63) div 64 = n div 64 + (if n mod 64 = 0 then 0 else 1)" for n :: nat
proof -
  have r: "n mod 64 < 64" by simp
  have "(n + 63) div 64 = (64 * (n div 64) + (n mod 64 + 63)) div 64" by (simp only: add.assoc[symmetric] mult_div_mod_eq)
  also have "\<dots> = n div 64 + (n mod 64 + 63) div 64" by (rule div_mult_self4) simp
  also have "(n mod 64 + 63) div 64 = (if n mod 64 = 0 then 0 else 1)" using r by (auto intro!: div_nat_eqI)
  finally show ?thesis .
qed

lemma nmemb_blocks_for: "sz div 64 + (if sz mod 64 \<noteq> 0 then 1 else 0) = w32 (blocks_for sz)"
proof -
  have d: "sz div 64 = w32 (unat sz div 64)" by (simp add: word_arith_nat_div)
  have m: "sz mod 64 = 0 \<longleftrightarrow> unat sz mod 64 = 0" by (simp add: unat_mod unat_eq_0[symmetric])
  have "w32 a + (if \<not> c then 1 else 0) = w32 (a + (if c then 0 else 1))" for a c by simp
  then show ?thesis unfolding blocks_for_def up_div_64 d m .
qed

lemma unat_blocks_for: "unat (w32 (blocks_for sz)) = blocks_for sz"
  using blocks_for_bounds(3)[of sz] unat_less_32[of sz] by (intro unat_w32) simp

text \<open>Allocation: the highest run that fits, or the failure value.\<close>

abbreviation set_table :: "nat \<Rightarrow> 32 word list \<Rightarrow> mem_dev \<Rightarrow> mem_dev" where
  "set_table memx t g \<equiv> g\<lparr>memmap := (memmap g)(memx := t)\<rparr>"

definition malloc_result :: "nat \<Rightarrow> nat \<Rightarrow> mem_dev \<Rightarrow> nat option \<Rightarrow> 32 word \<times> mem_dev" where
  "malloc_result memx k g r =
     (case r of None \<Rightarrow> (0xFFFFFFFF, g)
      | Some s \<Rightarrow> (w32 (64 * s), set_table memx (overwrite (memmap g memx) s (replicate k (w32 k))) g))"

lemma ready_length:
  assumes "pool_ok memx g A"
  shows "length (memmap (ready_pool memx g) memx) = pool_blocks memx" "table_ok (memmap (ready_pool memx g) memx) A"
  using ready_pool_ok[OF assms] by (auto simp: pool_ok_def split: if_splits)

lemma my_mem_malloc_result:
  assumes ok: "pool_ok memx g A" and sz: "sz \<noteq> 0"
  shows "\<exists>r. highest_run (memmap (ready_pool memx g) memx) (blocks_for sz) r \<and>
    my_mem_malloc memx sz g = Some (malloc_result memx (blocks_for sz) (ready_pool memx g) r)"
proof -
  let ?g = "ready_pool memx g" and ?k = "blocks_for sz"
  let ?t = "memmap ?g memx"
  have memx: "memx < 3" using ok by (simp add: pool_ok_def)
  note len = ready_length[OF ok]
  have k: "0 < ?k" "unat (w32 ?k) = ?k" using blocks_for_bounds(1)[OF sz] unat_blocks_for by auto
  have none: "\<not> free_run ?t s ?k" if "length ?t \<le> s" for s using that k(1) by (auto simp: free_run_def)
  have ends: "free_run ?t (length ?t) 0" "\<not> free_run ?t (length ?t) (Suc 0)" by (auto simp: free_run_def)
  obtain r where r: "find_run ?t (w32 ?k) (pool_blocks memx) (w32 0) = Some r" "highest_run ?t ?k r"
    using find_run_spec[of ?t "length ?t" 0 "w32 ?k"] none k len(1) bank_consts(4)[OF memx] ends by auto
  have "my_mem_malloc memx sz g = Some (malloc_result memx ?k ?g r)"
  proof (cases r)
    case None
    then show ?thesis using r(1) sz ready_pool_ok(3)[OF ok]
      by (simp add: my_mem_malloc_def bank_consts[OF memx] nmemb_blocks_for malloc_result_def Let_def)
  next
    case (Some s)
    then have "s + ?k \<le> length ?t" using r(2) free_run_le by (auto simp: highest_run_def)
    then show ?thesis using r(1) sz ready_pool_ok(3)[OF ok] Some k(2)
      by (simp add: my_mem_malloc_def bank_consts[OF memx] nmemb_blocks_for malloc_result_def Let_def wrs_in
          mult.commute)
  qed
  then show ?thesis using r(2) by blast
qed

lemma pool_ok_alloc:
  assumes ok: "pool_ok memx g A" and r: "free_run (memmap (ready_pool memx g) memx) s k" "0 < k"
  shows "pool_ok memx (set_table memx (overwrite (memmap (ready_pool memx g) memx) s (replicate k (w32 k)))
    (ready_pool memx g)) (insert (s, k) A)"
  using table_ok_alloc[OF ready_length(2)[OF ok] r] ready_pool_ok(1,2)[OF ok] free_run_le[OF r(1)]
  by (simp add: pool_ok_def)

text \<open>Release: the entry of the block tells how many entries to clear.\<close>

lemma sint_w32: "k < 2 ^ 31 \<Longrightarrow> nat (sint (w32 k)) = k"
  by (simp add: signed_of_nat signed_take_bit_int_eq_self)

lemma block_div: "i div 64 = b \<longleftrightarrow> 64 * b \<le> i \<and> i < 64 * b + 64" for i b :: nat
  by auto

lemma my_mem_free_at:
  assumes ok: "pool_ok memx g A" and rdy: "memrdy g memx \<noteq> 0" and m: "(s, k) \<in> A"
    and b: "s \<le> b" "b < s + k" "unat off div 64 = b"
  shows "my_mem_free memx off g =
    (if b + k \<le> pool_blocks memx
     then Some (0, set_table memx (overwrite (memmap g memx) b (replicate k 0)) g) else None)"
proof -
  let ?t = "memmap g memx"
  have memx: "memx < 3" and t: "table_ok ?t A" and len: "length ?t = pool_blocks memx"
    using ok rdy by (auto simp: pool_ok_def)
  have "k \<le> 960" "?t ! b = w32 k" using table_ok_entry[OF t m b(1,2)] by auto
  have in_t: "b < length ?t" using table_ok_D(3)[OF t m] b(2) by simp
  have "off < memsize ! memx"
    using b(3) in_t bank_consts(6)[OF memx] len by (simp add: word_less_nat_alt div_less_iff_less_mult)
  moreover have "unat (off div 64) = b" using b(3) by (simp add: unat_div)
  moreover have "nat (sint (w32 k)) = k" using \<open>k \<le> 960\<close> by (intro sint_w32) simp
  moreover have "0 < k" using b by simp
  ultimately show ?thesis using rdy in_t len \<open>?t ! b = w32 k\<close>
    by (auto simp: my_mem_free_def bank_consts[OF memx] rd_in wrs_in wrs_out)
qed

section \<open>Allocation and release in terms of the live allocations\<close>

definition fits :: "nat \<Rightarrow> (nat \<times> nat) set \<Rightarrow> nat \<Rightarrow> nat \<Rightarrow> bool" where
  "fits memx A s k \<longleftrightarrow>
     s + k \<le> pool_blocks memx \<and> (\<forall>s' k'. (s', k') \<in> A \<longrightarrow> s + k \<le> s' \<or> s' + k' \<le> s)"

lemma free_run_fits:
  assumes ok: "pool_ok memx g A" and k: "0 < k"
  shows "free_run (memmap (ready_pool memx g) memx) s k \<longleftrightarrow> fits memx A s k"
proof -
  let ?t = "memmap (ready_pool memx g) memx"
  note t = ready_length[OF ok]
  have "free_run ?t s k" if f: "fits memx A s k"
  proof -
    have "?t ! i = 0" if i: "s \<le> i" "i < s + k" for i
    proof (rule ccontr)
      assume "?t ! i \<noteq> 0"
      moreover have "i < length ?t" using f i t(1) by (simp add: fits_def)
      ultimately obtain s' k' where "(s', k') \<in> A" "s' \<le> i" "i < s' + k'" using table_ok_D(5)[OF t(2)] by blast
      then show False using f i unfolding fits_def by fastforce
    qed
    then show ?thesis using f t(1) by (simp add: free_run_def fits_def)
  qed
  moreover have "fits memx A s k" if f: "free_run ?t s k"
    using free_run_le[OF f] table_ok_free[OF t(2) f] t(1) k unfolding fits_def by auto
  ultimately show ?thesis by blast
qed

lemma blocks_for_pos: "sz \<noteq> 0 \<Longrightarrow> 0 < blocks_for sz"
  by (rule blocks_for_bounds)

lemma highest_run_fits:
  assumes "pool_ok memx g A" "0 < k" "highest_run (memmap (ready_pool memx g) memx) k r"
  shows "(case r of None \<Rightarrow> \<forall>s. \<not> fits memx A s k | Some s \<Rightarrow> fits memx A s k \<and> (\<forall>s'. s < s' \<longrightarrow> \<not> fits memx A s' k))"
  using assms(3) free_run_fits[OF assms(1,2)] by (auto simp: highest_run_def split: option.splits)

text \<open>A successful allocation, in one piece.\<close>

definition alloc_state :: "nat \<Rightarrow> nat \<Rightarrow> nat \<Rightarrow> mem_dev \<Rightarrow> mem_dev" where
  "alloc_state memx s k g =
     (let g = ready_pool memx g in set_table memx (overwrite (memmap g memx) s (replicate k (w32 k))) g)"

lemma alloc_state_fields [simp]:
  "membase (alloc_state memx s k g) = membase g" "mem (alloc_state memx s k g) = mem g"
  "memx' \<noteq> memx \<Longrightarrow> memmap (alloc_state memx s k g) memx' = memmap g memx'"
  "memx' \<noteq> memx \<Longrightarrow> memrdy (alloc_state memx s k g) memx' = memrdy g memx'"
  by (simp_all add: alloc_state_def Let_def)

lemma my_mem_malloc_cases:
  assumes ok: "pool_ok memx g A" and sz: "sz \<noteq> 0"
  obtains (fail) "my_mem_malloc memx sz g = Some (0xFFFFFFFF, ready_pool memx g)" "\<And>s. \<not> fits memx A s (blocks_for sz)"
  | (fit) s where "my_mem_malloc memx sz g = Some (w32 (64 * s), alloc_state memx s (blocks_for sz) g)"
      "fits memx A s (blocks_for sz)" "\<And>s'. s < s' \<Longrightarrow> \<not> fits memx A s' (blocks_for sz)"
proof -
  obtain r where r: "highest_run (memmap (ready_pool memx g) memx) (blocks_for sz) r"
    "my_mem_malloc memx sz g = Some (malloc_result memx (blocks_for sz) (ready_pool memx g) r)"
    using my_mem_malloc_result[OF ok sz] by blast
  note h = highest_run_fits[OF ok blocks_for_pos[OF sz] r(1)]
  show thesis
  proof (cases r)
    case None
    then show ?thesis using fail r(2) h by (simp add: malloc_result_def)
  next
    case (Some s)
    then show ?thesis using fit[of s] r(2) h by (simp add: malloc_result_def alloc_state_def Let_def)
  qed
qed

lemma alloc_state_ok:
  assumes ok: "pool_ok memx g A" and f: "fits memx A s k" and k: "0 < k"
  shows "pool_ok memx (alloc_state memx s k g) (insert (s, k) A)" "memrdy (alloc_state memx s k g) memx \<noteq> 0"
  using pool_ok_alloc[OF ok _ k, of s] free_run_fits[OF ok k, of s] f ready_pool_ok(2)[OF ok]
  by (auto simp: alloc_state_def Let_def)

lemma my_mem_free_live:
  assumes ok: "pool_ok memx g A" and rdy: "memrdy g memx \<noteq> 0" and m: "(s, k) \<in> A"
  shows "my_mem_free memx (w32 (64 * s)) g = Some (0, set_table memx (overwrite (memmap g memx) s (replicate k 0)) g)"
    and "pool_ok memx (set_table memx (overwrite (memmap g memx) s (replicate k 0)) g) (A - {(s, k)})"
proof -
  have memx: "memx < 3" and t: "table_ok (memmap g memx) A" and len: "length (memmap g memx) = pool_blocks memx"
    using ok rdy by (auto simp: pool_ok_def)
  note le = table_ok_D(3)[OF t m]
  have u: "unat (w32 (64 * s)) = 64 * s" using le len bank_consts(4)[OF memx] by (intro unat_w32) simp
  show "my_mem_free memx (w32 (64 * s)) g = Some (0, set_table memx (overwrite (memmap g memx) s (replicate k 0)) g)"
    using my_mem_free_at[OF ok rdy m, of s "w32 (64 * s)"] u le len table_ok_D(2)[OF t m] by simp
  show "pool_ok memx (set_table memx (overwrite (memmap g memx) s (replicate k 0)) g) (A - {(s, k)})"
    using table_ok_release[OF t m] ok rdy le len by (auto simp: pool_ok_def)
qed

lemma free_undoes_alloc:
  assumes ok: "pool_ok memx g A" and f: "fits memx A s k" and k: "0 < k"
  shows "my_mem_free memx (w32 (64 * s)) (alloc_state memx s k g) = Some (0, ready_pool memx g)"
proof -
  have run: "free_run (memmap (ready_pool memx g) memx) s k" using free_run_fits[OF ok k] f by simp
  have "overwrite (overwrite (memmap (ready_pool memx g) memx) s (replicate k (w32 k))) s (replicate k 0) =
    memmap (ready_pool memx g) memx"
    using overwrite_free_run[OF run] free_run_le[OF run] by (simp add: overwrite_overwrite)
  then show ?thesis
    using my_mem_free_live(1)[OF alloc_state_ok[OF ok f k], of s k] by (simp add: alloc_state_def Let_def fun_upd_idem)
qed

text \<open>
  C30. Allocation and release of the block pools of malloc.c against the set A of live
  allocations, each a first block and a number of blocks: in every well-formed pool, ready or not,
  a request for sz > 0 bytes takes exactly ceil(sz/64) blocks at the highest place where they fit,
  apart from every live allocation, and leaves a well-formed pool with that allocation added
  and the memory and the other banks untouched; it answers 0xFFFFFFFF only if there is no such place, and
  then no allocation changes.  Freeing what was just allocated restores the pool exactly.
\<close>

theorem my_mem_malloc_refines:
  assumes "pool_ok memx g A" "sz \<noteq> 0"
  shows "(my_mem_malloc memx sz g = Some (0xFFFFFFFF, ready_pool memx g) \<and> pool_ok memx (ready_pool memx g) A \<and>
      (\<forall>s. \<not> fits memx A s (blocks_for sz))) \<or>
    (\<exists>s g'. my_mem_malloc memx sz g = Some (w32 (64 * s), g') \<and>
      fits memx A s (blocks_for sz) \<and> (\<forall>s'. s < s' \<longrightarrow> \<not> fits memx A s' (blocks_for sz)) \<and>
      pool_ok memx g' (insert (s, blocks_for sz) A) \<and>
      mem g' = mem g \<and> (\<forall>m. m \<noteq> memx \<longrightarrow> memmap g' m = memmap g m) \<and>
      my_mem_free memx (w32 (64 * s)) g' = Some (0, ready_pool memx g))"
  using assms
proof (cases rule: my_mem_malloc_cases)
  case fail
  then show ?thesis using ready_pool_ok(1)[OF assms(1)] by blast
next
  case (fit s)
  note k = blocks_for_pos[OF assms(2)]
  show ?thesis
    using fit alloc_state_ok[OF assms(1) fit(2) k] free_undoes_alloc[OF assms(1) fit(2) k]
    by (intro disjI2 exI[of _ s] exI[of _ "alloc_state memx s (blocks_for sz) g"]) simp
qed

definition bank1 :: mem_dev where
  "bank1 = \<lparr>membase = \<lambda>_. 0xC01F4000, memmap = \<lambda>_. replicate 16 0, memrdy = \<lambda>_. 0, mem = \<lambda>_. 0\<rparr>"

lemma bank1_ok: "pool_ok 1 bank1 {}"
  by (simp add: pool_ok_def bank1_def memtblsize_def)

theorem my_mem_malloc_refines_witness:
  "map_option fst (my_mem_malloc 1 100 bank1) = Some 896 \<and>
   (\<exists>s g'. my_mem_malloc 1 100 bank1 = Some (w32 (64 * s), g') \<and> fits 1 {} s 2 \<and> pool_ok 1 g' {(s, 2)} \<and>
     my_mem_free 1 (w32 (64 * s)) g' = Some (0, ready_pool 1 bank1))"
proof -
  have k: "blocks_for 100 = 2" by (simp add: blocks_for_def)
  have r: "map_option fst (my_mem_malloc 1 100 bank1) = Some 896"
    by code_simp
  then show ?thesis using my_mem_malloc_refines[OF bank1_ok, of 100, unfolded k] by auto
qed

section \<open>Pointers\<close>

text \<open>The bank lies in the address space and not at address 0.\<close>

definition base_ok :: "nat \<Rightarrow> mem_dev \<Rightarrow> bool" where
  "base_ok memx g \<longleftrightarrow> 0 < unat (membase g memx) \<and> unat (membase g memx) + 64 * pool_blocks memx \<le> 2 ^ 32"

definition block_ptr :: "nat \<Rightarrow> mem_dev \<Rightarrow> nat \<Rightarrow> 32 word" where
  "block_ptr memx g s = membase g memx + w32 (64 * s)"

lemma block_ptr_not_null:
  assumes "base_ok memx g" "s < pool_blocks memx"
  shows "block_ptr memx g s \<noteq> 0"
proof -
  have s: "unat (w32 (64 * s)) = 64 * s" using assms unfolding base_ok_def by (intro unat_w32) simp
  have "unat (block_ptr memx g s) = unat (membase g memx) + 64 * s"
    unfolding block_ptr_def by (subst unat_word_ariths) (use assms s in \<open>simp add: base_ok_def\<close>)
  then show ?thesis using assms(1) unfolding base_ok_def by (metis add_is_0 less_irrefl unat_0)
qed

lemma fits_first: "fits memx A s k \<Longrightarrow> 0 < k \<Longrightarrow> s < pool_blocks memx"
  by (simp add: fits_def)

text \<open>A size of 0 is refused, with the bank made ready.\<close>

lemma my_malloc_zero:
  assumes "pool_ok memx g A"
  shows "my_malloc memx 0 g = Some (0, ready_pool memx g)"
proof -
  have "memx < 3" using assms by (simp add: pool_ok_def)
  then show ?thesis using ready_pool_ok(3)[OF assms] by (simp add: my_malloc_def my_mem_malloc_def bank_consts)
qed

lemma my_malloc_cases:
  assumes ok: "pool_ok memx g A" and base: "base_ok memx g"
  obtains (fail) "my_malloc memx sz g = Some (0, ready_pool memx g)" "sz = 0 \<or> (\<forall>s. \<not> fits memx A s (blocks_for sz))"
  | (fit) s where "sz \<noteq> 0" "my_malloc memx sz g = Some (block_ptr memx g s, alloc_state memx s (blocks_for sz) g)"
      "block_ptr memx g s \<noteq> 0" "fits memx A s (blocks_for sz)"
proof (cases "sz = 0")
  case True
  then show ?thesis using fail my_malloc_zero[OF ok] by simp
next
  case False
  have memx: "memx < 3" using ok by (simp add: pool_ok_def)
  show ?thesis
  proof (rule my_mem_malloc_cases[OF ok False])
    assume "my_mem_malloc memx sz g = Some (0xFFFFFFFF, ready_pool memx g)" "\<And>s. \<not> fits memx A s (blocks_for sz)"
    then show ?thesis using fail by (simp add: my_malloc_def)
  next
    fix s assume a: "my_mem_malloc memx sz g = Some (w32 (64 * s), alloc_state memx s (blocks_for sz) g)"
      "fits memx A s (blocks_for sz)"
    have s: "s < pool_blocks memx" using fits_first[OF a(2) blocks_for_pos[OF False]] .
    have "w32 (64 * s) \<noteq> 0xFFFFFFFF"
      using w32_eq[of "64 * s" "0xFFFFFFFF"] s bank_consts(4)[OF memx] by simp
    then have "my_malloc memx sz g = Some (block_ptr memx g s, alloc_state memx s (blocks_for sz) g)"
      using a by (simp add: my_malloc_def block_ptr_def)
    then show ?thesis using a(2) block_ptr_not_null[OF base s] False by (intro fit)
  qed
qed

lemma my_free_live:
  assumes ok: "pool_ok memx g A" and rdy: "memrdy g memx \<noteq> 0" and base: "base_ok memx g" and m: "(s, k) \<in> A"
  shows "my_free memx (block_ptr memx g s) g = Some (set_table memx (overwrite (memmap g memx) s (replicate k 0)) g)"
proof -
  have t: "table_ok (memmap g memx) A" "length (memmap g memx) = pool_blocks memx" using ok rdy by (auto simp: pool_ok_def)
  have "s < pool_blocks memx" using table_ok_D(2,3)[OF t(1) m] t(2) by simp
  then show ?thesis
    using my_mem_free_live(1)[OF ok rdy m] block_ptr_not_null[OF base] by (simp add: my_free_def block_ptr_def)
qed

lemma base_ok_cong: "membase g' = membase g \<Longrightarrow> base_ok memx g' = base_ok memx g"
  by (simp add: base_ok_def)

lemma block_ptr_cong: "membase g' = membase g \<Longrightarrow> block_ptr memx g' s = block_ptr memx g s"
  by (simp add: block_ptr_def)

section \<open>Moving a block\<close>

lemma cpy_loop_other: "(\<And>j. j < n \<Longrightarrow> a \<noteq> d + w32 j) \<Longrightarrow> cpy_loop n d s m a = m a"
proof (induction n arbitrary: d s m)
  case (Suc n)
  have "a \<noteq> d + 1 + w32 j" if "j < n" for j using Suc.prems[of "Suc j"] that by (simp add: add.assoc)
  moreover have "a \<noteq> d" using Suc.prems[of 0] by simp
  ultimately show ?case using Suc.IH[of "d + 1"] by simp
qed simp

lemma cpy_loop_copies:
  assumes "i < n" "n \<le> 2 ^ 32" "\<And>j. j < i \<Longrightarrow> s + w32 i \<noteq> d + w32 j"
  shows "cpy_loop n d s m (d + w32 i) = m (s + w32 i)"
  using assms
proof (induction n arbitrary: d s m i)
  case (Suc n)
  show ?case
  proof (cases i)
    case 0
    have "d \<noteq> d + 1 + w32 j" if "j < n" for j
    proof
      assume "d = d + 1 + w32 j"
      then have "w32 (Suc j) = w32 0" by (simp add: add.assoc)
      moreover have "Suc j < 2 ^ 32" using that Suc.prems(2) by simp
      ultimately show False using w32_eq[of "Suc j" 0] by simp
    qed
    then show ?thesis using cpy_loop_other[of n d "d + 1"] 0 by simp
  next
    case (Suc i')
    have ne: "s + 1 + w32 i' \<noteq> d + 1 + w32 j" if "j < i'" for j
      using Suc.prems(3)[of "Suc j"] Suc that by (simp add: add.assoc add.left_commute[of 1])
    have "cpy_loop n (d + 1) (s + 1) (m(d := m s)) (d + 1 + w32 i') = (m(d := m s)) (s + 1 + w32 i')"
      using Suc.IH[of i' "s + 1" "d + 1"] Suc.prems(1,2) Suc ne by simp
    moreover have "s + 1 + w32 i' \<noteq> d" using Suc.prems(3)[of 0] Suc by (simp add: add.assoc)
    ultimately show ?thesis using Suc by (simp add: add.assoc)
  qed
qed simp

text \<open>Distinct offsets inside the bank are distinct addresses.\<close>

lemma base_offset_eq:
  "a < 2 ^ 32 \<Longrightarrow> b < 2 ^ 32 \<Longrightarrow> (c :: 32 word) + w32 a = c + w32 b \<longleftrightarrow> a = b"
  using w32_eq[of a b] by simp

lemma block_ptr_add: "block_ptr memx g s + w32 i = membase g memx + w32 (64 * s + i)"
  by (simp add: block_ptr_def add.assoc)

lemma myrealloc_success:
  assumes ok: "pool_ok memx g A" and rdy: "memrdy g memx \<noteq> 0" and base: "base_ok memx g" and m: "(s, k) \<in> A"
    and sz: "sz \<noteq> 0" and mal: "my_mem_malloc memx sz g = Some (w32 (64 * s'), alloc_state memx s' (blocks_for sz) g)"
    and f: "fits memx A s' (blocks_for sz)"
  defines "g1 \<equiv> my_mem_cpy (block_ptr memx g s') (block_ptr memx g s) sz (alloc_state memx s' (blocks_for sz) g)"
  defines "g2 \<equiv> set_table memx (overwrite (memmap g1 memx) s (replicate k 0)) g1"
  shows "myrealloc memx (block_ptr memx g s) sz g = Some (block_ptr memx g s', g2)"
    and "pool_ok memx g2 (insert (s', blocks_for sz) (A - {(s, k)}))"
proof -
  let ?g0 = "alloc_state memx s' (blocks_for sz) g"
  have memx: "memx < 3" using ok by (simp add: pool_ok_def)
  note k = blocks_for_pos[OF sz]
  have s': "s' < pool_blocks memx" using fits_first[OF f k] .
  have ne: "w32 (64 * s') \<noteq> 0xFFFFFFFF"
    using w32_eq[of "64 * s'" "0xFFFFFFFF"] s' bank_consts(4)[OF memx] by simp
  note a = alloc_state_ok[OF ok f k]
  have g1: "membase g1 = membase g" "memmap g1 = memmap ?g0" "memrdy g1 = memrdy ?g0"
    unfolding g1_def by (simp_all add: my_mem_cpy_def)
  have ok1: "pool_ok memx g1 (insert (s', blocks_for sz) A)" "memrdy g1 memx \<noteq> 0" "base_ok memx g1"
    using a base base_ok_cong[OF g1(1)] unfolding pool_ok_def g1 by auto
  have m1: "(s, k) \<in> insert (s', blocks_for sz) A" using m by simp
  have ptr: "block_ptr memx g1 s = block_ptr memx g s" by (rule block_ptr_cong) (rule g1)
  have fr: "my_free memx (block_ptr memx g s) g1 = Some g2"
    using my_free_live[OF ok1 m1] unfolding ptr g2_def .
  show "myrealloc memx (block_ptr memx g s) sz g = Some (block_ptr memx g s', g2)"
    using mal ne fr g1(1) unfolding g1_def g2_def
    by (simp add: myrealloc_def Let_def block_ptr_def my_mem_cpy_def)
  have t: "table_ok (memmap g memx) A" "length (memmap g memx) = pool_blocks memx" using ok rdy by (auto simp: pool_ok_def)
  have "(s', blocks_for sz) \<noteq> (s, k)" using f m k table_ok_D(2)[OF t(1) m] unfolding fits_def by fastforce
  then have "insert (s', blocks_for sz) (A - {(s, k)}) = insert (s', blocks_for sz) A - {(s, k)}" by blast
  then show "pool_ok memx g2 (insert (s', blocks_for sz) (A - {(s, k)}))"
    using my_mem_free_live(2)[OF ok1(1,2) m1] unfolding g2_def by simp
qed

lemma set_table_mem [simp]: "mem (set_table memx t g) = mem g" "membase (set_table memx t g) = membase g"
  by simp_all

text \<open>
  Reallocation in malloc.c.  For a live allocation (s, k) of a ready pool and a new size sz > 0,
  myrealloc answers NULL and leaves everything as it is only if no place for the new blocks exists beside
  all live allocations, the old one included; otherwise the old allocation is replaced by
  the new one, every byte of the old block below the new size has moved to the same offset of the new block, and no byte
  outside the new block has changed.  The copy takes sz bytes from the old address whatever its length:
  when the new block lies below the old one, the bytes past the end of the old block are those
  of its neighbours.
\<close>

theorem myrealloc_moves:
  assumes ok: "pool_ok memx g A" and rdy: "memrdy g memx \<noteq> 0" and base: "base_ok memx g"
    and m: "(s, k) \<in> A" and sz: "sz \<noteq> 0"
  shows "(myrealloc memx (block_ptr memx g s) sz g = Some (0, g) \<and> (\<forall>s'. \<not> fits memx A s' (blocks_for sz))) \<or>
    (\<exists>s' g'. myrealloc memx (block_ptr memx g s) sz g = Some (block_ptr memx g s', g') \<and>
      fits memx A s' (blocks_for sz) \<and>
      pool_ok memx g' (insert (s', blocks_for sz) (A - {(s, k)})) \<and>
      (\<forall>i < min (unat sz) (64 * k). mem g' (block_ptr memx g s' + w32 i) = mem g (block_ptr memx g s + w32 i)) \<and>
      (s' < s \<longrightarrow> (\<forall>i < unat sz. mem g' (block_ptr memx g s' + w32 i) = mem g (block_ptr memx g s + w32 i))) \<and>
      (\<forall>a. (\<forall>i < unat sz. a \<noteq> block_ptr memx g s' + w32 i) \<longrightarrow> mem g' a = mem g a))"
proof (rule my_mem_malloc_cases[OF ok sz])
  assume "my_mem_malloc memx sz g = Some (0xFFFFFFFF, ready_pool memx g)" "\<And>s. \<not> fits memx A s (blocks_for sz)"
  moreover have "ready_pool memx g = g" using rdy by (simp add: ready_pool_def)
  ultimately show ?thesis by (simp add: myrealloc_def)
next
  fix s'
  assume mal: "my_mem_malloc memx sz g = Some (w32 (64 * s'), alloc_state memx s' (blocks_for sz) g)"
    and f: "fits memx A s' (blocks_for sz)"
  note r = myrealloc_success[OF ok rdy base m sz mal f]
  let ?g1 = "my_mem_cpy (block_ptr memx g s') (block_ptr memx g s) sz (alloc_state memx s' (blocks_for sz) g)"
  let ?g2 = "set_table memx (overwrite (memmap ?g1 memx) s (replicate k 0)) ?g1"
  have memx: "memx < 3" and t: "table_ok (memmap g memx) A" "length (memmap g memx) = pool_blocks memx"
    using ok rdy by (auto simp: pool_ok_def)
  have bnd: "unat sz \<le> 64 * blocks_for sz" "s' + blocks_for sz \<le> pool_blocks memx" "s + k \<le> pool_blocks memx"
    "s' + blocks_for sz \<le> s \<or> s + k \<le> s'" "pool_blocks memx \<le> 960"
    using blocks_for_bounds(2) f m table_ok_D(3)[OF t(1) m] t(2) bank_consts(4)[OF memx] unfolding fits_def by auto
  have mem2: "mem ?g2 = cpy_loop (unat sz) (block_ptr memx g s') (block_ptr memx g s) (mem g)"
    by (simp add: my_mem_cpy_def)
  have copy: "mem ?g2 (block_ptr memx g s' + w32 i) = mem g (block_ptr memx g s + w32 i)"
    if i: "i < unat sz" "i < 64 * k \<or> s' < s" for i
  proof -
    have "block_ptr memx g s + w32 i \<noteq> block_ptr memx g s' + w32 j" if j: "j < i" for j
    proof -
      have "64 * s + i \<noteq> 64 * s' + j" using i j bnd by auto
      moreover have "64 * s + i < 2 ^ 32" "64 * s' + j < 2 ^ 32" using i j bnd by auto
      ultimately show ?thesis unfolding block_ptr_add using base_offset_eq by blast
    qed
    then show ?thesis unfolding mem2 using i bnd by (intro cpy_loop_copies) auto
  qed
  have keep: "mem ?g2 a = mem g a" if "\<forall>i < unat sz. a \<noteq> block_ptr memx g s' + w32 i" for a
    unfolding mem2 using that by (intro cpy_loop_other) blast
  show ?thesis
    using r f copy keep by (intro disjI2 exI[of _ s'] exI[of _ ?g2]) auto
qed

text \<open>A ready bank of 16 blocks with three live allocations; the middle one has two blocks.\<close>

definition bank1_used :: mem_dev where
  "bank1_used = \<lparr>membase = \<lambda>_. 0xC01F4000,
     memmap = \<lambda>_. replicate 11 0 @ [1, 2, 2, 2, 2], memrdy = \<lambda>_. 1, mem = \<lambda>_. 0\<rparr>"

lemma bank1_used_ok: "pool_ok 1 bank1_used {(11, 1), (12, 2), (14, 2)}"
proof -
  have "table_ok (replicate 11 0 @ [1, 2, 2, 2, 2]) {(11, 1), (12, 2), (14, 2)}"
  proof (rule table_okI)
    fix i assume i: "i < length (replicate 11 0 @ [1, 2, 2, 2, 2 :: 32 word])"
      "(replicate 11 0 @ [1, 2, 2, 2, 2 :: 32 word]) ! i \<noteq> 0"
    then have "i \<ge> 11" by (cases "i < 11") (simp_all add: nth_append)
    then consider "i = 11" | "i = 12 \<or> i = 13" | "i = 14 \<or> i = 15" using i(1) by fastforce
    then show "\<exists>s k. (s, k) \<in> {(11, 1), (12, 2), (14, 2)} \<and> s \<le> i \<and> i < s + k"
    proof cases
      case 1
      then show ?thesis by (intro exI[of _ 11] exI[of _ 1]) simp
    next
      case 2
      then show ?thesis by (intro exI[of _ 12] exI[of _ 2]) auto
    next
      case 3
      then show ?thesis by (intro exI[of _ 14] exI[of _ 2]) auto
    qed
  next
    fix s k i assume "(s, k) \<in> {(11, 1), (12, 2), (14, 2 :: nat)}" "s \<le> i" "i < s + k"
    then have "i = 11 \<and> k = 1 \<or> (i = 12 \<or> i = 13 \<or> i = 14 \<or> i = 15) \<and> k = 2" by auto
    then show "(replicate 11 0 @ [1, 2, 2, 2, 2]) ! i = w32 k" by (auto simp: nth_append)
  qed auto
  then show ?thesis by (simp add: pool_ok_def bank1_used_def memtblsize_def)
qed

lemma bank1_base_ok: "base_ok 1 bank1_used"
  by (simp add: base_ok_def bank1_used_def memtblsize_def)

theorem myrealloc_moves_witness:
  "\<exists>s' g'. myrealloc 1 (block_ptr 1 bank1_used 11) 200 bank1_used = Some (block_ptr 1 bank1_used s', g') \<and>
     pool_ok 1 g' (insert (s', 4) {(12, 2), (14, 2)})"
proof -
  have k: "blocks_for 200 = 4" by (simp add: blocks_for_def)
  have "fits 1 {(11, 1), (12, 2), (14, 2)} 0 4" by (auto simp: fits_def memtblsize_def)
  then have r: "\<not> (\<forall>s. \<not> fits 1 {(11, 1), (12, 2), (14, 2)} s 4)" by blast
  have d: "{(11, 1), (12, 2), (14, 2)} - {(11, 1)} = {(12, 2), (14, 2 :: nat)}" by auto
  have "memrdy bank1_used 1 \<noteq> 0" by (simp add: bank1_used_def)
  note myrealloc_moves[OF bank1_used_ok this bank1_base_ok, of 11 1 200, unfolded k d]
  then show ?thesis using r by fastforce
qed

text \<open>
  Freeing an offset inside a live allocation (s, k) of a ready pool, as malloc.c does it: the entry of the block b the
  offset lies in says k, and k entries are cleared from b on.  At the first block this releases the
  allocation.  At any later one the blocks from s to b stay marked and belong to no one, and the b - s blocks
  behind the allocation lose their mark, whatever allocation they belong to; when they lie behind
  the last block of the bank, memory behind the table is cleared (the model's None).
\<close>

theorem my_mem_free_interior:
  assumes "pool_ok memx g A" "memrdy g memx \<noteq> 0" "(s, k) \<in> A"
    and "64 * s \<le> unat off" "unat off < 64 * (s + k)"
  defines "b \<equiv> unat off div 64"
  shows "(pool_blocks memx < b + k \<longrightarrow> my_mem_free memx off g = None) \<and>
    (b + k \<le> pool_blocks memx \<longrightarrow>
      (\<exists>g'. my_mem_free memx off g = Some (0, g') \<and>
        (\<forall>i < pool_blocks memx. memmap g' memx ! i = (if b \<le> i \<and> i < b + k then 0 else memmap g memx ! i)) \<and>
        (b = s \<longrightarrow> pool_ok memx g' (A - {(s, k)})) \<and>
        (s < b \<longrightarrow> memmap g' memx ! s = w32 k \<and>
           (\<forall>k'. (s + k, k') \<in> A \<longrightarrow> memmap g' memx ! (s + k) = 0 \<and> \<not> pool_ok memx g' (A - {(s, k)})))))"
proof (intro conjI impI)
  have b: "s \<le> b" "b < s + k" "unat off div 64 = b"
    using assms(4,5) by (auto simp: b_def div_less_iff_less_mult less_eq_div_iff_mult_less_eq mult.commute)
  note free = my_mem_free_at[OF assms(1-3) b]
  show "my_mem_free memx off g = None" if "pool_blocks memx < b + k"
    using free that by simp
  assume le: "b + k \<le> pool_blocks memx"
  have memx: "memx < 3" and t: "table_ok (memmap g memx) A" and len: "length (memmap g memx) = pool_blocks memx"
    using assms(1,2) by (auto simp: pool_ok_def)
  let ?t = "overwrite (memmap g memx) b (replicate k 0)"
  let ?g = "set_table memx ?t g"
  have nth: "?t ! i = (if b \<le> i \<and> i < b + k then 0 else memmap g memx ! i)" if "i < pool_blocks memx" for i
    using that le len by (intro nth_mark) auto
  have k: "0 < k" "s + k \<le> length (memmap g memx)" using table_ok_D(2,3)[OF t assms(3)] by auto
  have whole: "pool_ok memx ?g (A - {(s, k)})" if "b = s"
    using my_mem_free_live(2)[OF assms(1-3)] that by simp
  have part: "?t ! s = w32 k \<and> (\<forall>k'. (s + k, k') \<in> A \<longrightarrow> ?t ! (s + k) = 0 \<and> \<not> pool_ok memx ?g (A - {(s, k)}))" if "s < b"
  proof (intro conjI allI impI)
    show "?t ! s = w32 k" using nth[of s] that k len table_ok_entry[OF t assms(3), of s] by auto
    fix k' assume n: "(s + k, k') \<in> A"
    have z: "?t ! (s + k) = 0" using nth[of "s + k"] that b(2) le by simp
    then show "?t ! (s + k) = 0" .
    show "\<not> pool_ok memx ?g (A - {(s, k)})"
    proof
      assume "pool_ok memx ?g (A - {(s, k)})"
      then have t': "table_ok ?t (A - {(s, k)})" using assms(2) by (simp add: pool_ok_def)
      have "(s + k, k') \<in> A - {(s, k)}" "0 < k'" using n k(1) table_ok_D(2)[OF t n] by auto
      then have "?t ! (s + k) \<noteq> 0" using table_ok_entry[OF t', of "s + k" k' "s + k"] by simp
      then show False using z by simp
    qed
  qed
  show "\<exists>g'. my_mem_free memx off g = Some (0, g') \<and>
        (\<forall>i < pool_blocks memx. memmap g' memx ! i = (if b \<le> i \<and> i < b + k then 0 else memmap g memx ! i)) \<and>
        (b = s \<longrightarrow> pool_ok memx g' (A - {(s, k)})) \<and>
        (s < b \<longrightarrow> memmap g' memx ! s = w32 k \<and>
           (\<forall>k'. (s + k, k') \<in> A \<longrightarrow> memmap g' memx ! (s + k) = 0 \<and> \<not> pool_ok memx g' (A - {(s, k)})))"
    using free le nth whole part by (intro exI[of _ ?g]) simp
qed

theorem my_mem_free_interior_witness:
  "(\<exists>g'. my_mem_free 1 (64 * 13) bank1_used = Some (0, g') \<and> memmap g' 1 ! 14 = 0 \<and> memmap g' 1 ! 12 = 2) \<and>
   my_mem_free 1 (64 * 15) bank1_used = None"
proof -
  have r: "memrdy bank1_used 1 \<noteq> 0" by (simp add: bank1_used_def)
  have b: "pool_blocks 1 = 16" by (simp add: memtblsize_def)
  show ?thesis
    using my_mem_free_interior[OF bank1_used_ok r, of 12 2 "64 * 13"]
      my_mem_free_interior[OF bank1_used_ok r, of 14 2 "64 * 15"] b by auto
qed

section \<open>Every history of a bank\<close>

text \<open>The states a bank reaches from start-up under any sequence of allocations, of frees and reallocations of
  live pointers, with the live allocations of each.\<close>

definition block_of :: "nat \<Rightarrow> mem_dev \<Rightarrow> 32 word \<Rightarrow> nat" where
  "block_of memx g p = unat (p - membase g memx) div 64"

inductive pool_reach :: "nat \<Rightarrow> mem_dev \<Rightarrow> (nat \<times> nat) set \<Rightarrow> bool" for memx where
  boot: "memx < 3 \<Longrightarrow> memrdy g memx = 0 \<Longrightarrow> length (memmap g memx) = pool_blocks memx \<Longrightarrow> base_ok memx g \<Longrightarrow>
    pool_reach memx g {}"
| malloc: "pool_reach memx g A \<Longrightarrow> my_malloc memx sz g = Some (p, g') \<Longrightarrow>
    pool_reach memx g' (if p = 0 then A else insert (block_of memx g p, blocks_for sz) A)"
| free: "pool_reach memx g A \<Longrightarrow> (s, k) \<in> A \<Longrightarrow> my_free memx (block_ptr memx g s) g = Some g' \<Longrightarrow>
    pool_reach memx g' (A - {(s, k)})"
| realloc: "pool_reach memx g A \<Longrightarrow> (s, k) \<in> A \<Longrightarrow> sz \<noteq> 0 \<Longrightarrow>
    myrealloc memx (block_ptr memx g s) sz g = Some (p, g') \<Longrightarrow>
    pool_reach memx g' (if p = 0 then A else insert (block_of memx g p, blocks_for sz) (A - {(s, k)}))"

lemma block_of_ptr:
  assumes "memx < 3" "s < pool_blocks memx"
  shows "block_of memx g (block_ptr memx g s) = s"
proof -
  have "unat (w32 (64 * s)) = 64 * s" using assms bank_consts(4)[OF assms(1)] by (intro unat_w32) simp
  then show ?thesis by (simp add: block_of_def block_ptr_def)
qed

lemma live_ready: "pool_ok memx g A \<Longrightarrow> (s, k) \<in> A \<Longrightarrow> memrdy g memx \<noteq> 0"
  by (auto simp: pool_ok_def split: if_splits)

lemma pool_reach_ok: "pool_reach memx g A \<Longrightarrow> pool_ok memx g A \<and> base_ok memx g"
proof (induction rule: pool_reach.induct)
  case (boot g)
  then show ?case by (simp add: pool_ok_def)
next
  case (malloc g A sz p g')
  then have ok: "pool_ok memx g A" "base_ok memx g" and memx: "memx < 3" by (auto simp: pool_ok_def)
  show ?case
  proof (rule my_malloc_cases[OF ok, of sz])
    assume "my_malloc memx sz g = Some (0, ready_pool memx g)"
    then show ?thesis using malloc.hyps ready_pool_ok(1)[OF ok(1)] ok(2) base_ok_cong[of "ready_pool memx g" g] by auto
  next
    fix s assume a: "sz \<noteq> 0" "my_malloc memx sz g = Some (block_ptr memx g s, alloc_state memx s (blocks_for sz) g)"
      "block_ptr memx g s \<noteq> 0" "fits memx A s (blocks_for sz)"
    note k = blocks_for_pos[OF a(1)]
    show ?thesis
      using malloc.hyps a alloc_state_ok(1)[OF ok(1) a(4) k] block_of_ptr[OF memx fits_first[OF a(4) k]] ok(2)
        base_ok_cong[of "alloc_state memx s (blocks_for sz) g" g] by auto
  qed
next
  case (free g A s k g')
  then have ok: "pool_ok memx g A" "base_ok memx g" by auto
  note rdy = live_ready[OF ok(1) free.hyps(2)]
  show ?case
    using my_free_live[OF ok(1) rdy ok(2) free.hyps(2)] free.hyps(3) ok(2)
      my_mem_free_live(2)[OF ok(1) rdy free.hyps(2)] by (auto simp: base_ok_def)
next
  case (realloc g A s k sz p g')
  then have ok: "pool_ok memx g A" "base_ok memx g" and memx: "memx < 3" by (auto simp: pool_ok_def)
  note rdy = live_ready[OF ok(1) realloc.hyps(2)]
  note k = blocks_for_pos[OF realloc.hyps(3)]
  show ?case
  proof (rule my_mem_malloc_cases[OF ok(1) realloc.hyps(3)])
    assume "my_mem_malloc memx sz g = Some (0xFFFFFFFF, ready_pool memx g)"
    then show ?thesis using realloc.hyps(4) rdy ok by (auto simp: myrealloc_def ready_pool_def)
  next
    fix s' assume a: "my_mem_malloc memx sz g = Some (w32 (64 * s'), alloc_state memx s' (blocks_for sz) g)"
      "fits memx A s' (blocks_for sz)"
    note r = myrealloc_success[OF ok(1) rdy ok(2) realloc.hyps(2,3) a]
    show ?thesis
      using r realloc.hyps(4) block_of_ptr[OF memx fits_first[OF a(2) k]]
        block_ptr_not_null[OF ok(2) fits_first[OF a(2) k]] ok(2) by (auto simp: base_ok_def my_mem_cpy_def)
  qed
qed

text \<open>The usage figure.\<close>

definition live_blocks :: "(nat \<times> nat) set \<Rightarrow> nat set" where
  "live_blocks A = {i. \<exists>s k. (s, k) \<in> A \<and> s \<le> i \<and> i < s + k}"

lemma used_loop_count:
  "i + n \<le> length t \<Longrightarrow> used_loop t i n u = Some (u + w32 (length (filter (\<lambda>v. v \<noteq> 0) (take n (drop i t)))))"
proof (induction n arbitrary: i u)
  case (Suc n)
  then have d: "drop i t = t ! i # drop (Suc i) t" by (simp add: Cons_nth_drop_Suc)
  show ?case using Suc by (simp add: d rd_in add.assoc)
qed simp

lemma live_blocks_entries:
  assumes "table_ok t A"
  shows "live_blocks A = {i. i < length t \<and> t ! i \<noteq> 0}"
proof (intro set_eqI iffI)
  fix i assume "i \<in> live_blocks A"
  then obtain s k where m: "(s, k) \<in> A" "s \<le> i" "i < s + k" by (auto simp: live_blocks_def)
  show "i \<in> {i. i < length t \<and> t ! i \<noteq> 0}"
    using table_ok_D(3)[OF assms m(1)] m table_ok_entry[OF assms m] by simp
qed (use table_ok_D(5)[OF assms] in \<open>auto simp: live_blocks_def\<close>)

lemma my_mem_perused_value:
  assumes ok: "pool_ok memx g A" and rdy: "memrdy g memx \<noteq> 0"
  shows "map_option unat (my_mem_perused memx g) = Some (1000 * card (live_blocks A) div pool_blocks memx)"
proof -
  have memx: "memx < 3" and t: "table_ok (memmap g memx) A" and len: "length (memmap g memx) = pool_blocks memx"
    using ok rdy by (auto simp: pool_ok_def)
  let ?c = "card (live_blocks A)" and ?n = "pool_blocks memx"
  have c: "length (filter (\<lambda>v. v \<noteq> 0) (memmap g memx)) = ?c"
    unfolding live_blocks_entries[OF t] by (simp add: length_filter_conv_card)
  have le: "?c \<le> ?n" using length_filter_le[of _ "memmap g memx"] len c by metis
  note n = bank_consts(4,5)[OF memx]
  have "unat (w32 ?c * 1000) = 1000 * ?c"
    using le n unat_w32[of "1000 * ?c"] by (simp add: mult.commute)
  then have u: "unat ((w32 ?c * 1000) div (memtblsize ! memx)) = 1000 * ?c div ?n" by (simp add: unat_div)
  have "1000 * ?c div ?n \<le> 1000" using div_le_mono[of "1000 * ?c" "1000 * ?n" ?n] le n(2) by simp
  then have "unat (ucast ((w32 ?c * 1000) div (memtblsize ! memx)) :: 16 word) = 1000 * ?c div ?n"
    using u by (simp add: unsigned_ucast_eq take_bit_nat_eq_self)
  then show ?thesis
    using used_loop_count[of 0 ?n "memmap g memx" 0] len c by (simp add: my_mem_perused_def bank_consts[OF memx])
qed

text \<open>
  C31. The block pools of malloc.c are well formed in every history: from start-up, under any sequence of
  my_malloc, of my_free and myrealloc applied to live pointers, every live allocation has at least one block, lies inside
  the bank, has a pointer other than NULL and is disjoint from every other; each of its table
  entries holds its length and every other entry is 0; no operation ever
  accesses a table outside its bounds; and my_mem_perused is the share of the blocks in use, in tenths of a percent.
\<close>

theorem pool_reachable_well_formed:
  assumes "pool_reach memx g A"
  shows "pool_ok memx g A \<and>
    (\<forall>s k. (s, k) \<in> A \<longrightarrow> 0 < k \<and> s + k \<le> pool_blocks memx \<and> block_ptr memx g s \<noteq> 0 \<and>
      (\<forall>i. s \<le> i \<and> i < s + k \<longrightarrow> memmap g memx ! i = w32 k) \<and>
      (\<forall>s' k'. (s', k') \<in> A \<longrightarrow> (s, k) = (s', k') \<or> s + k \<le> s' \<or> s' + k' \<le> s)) \<and>
    (\<forall>sz. my_malloc memx sz g \<noteq> None) \<and>
    (\<forall>s k. (s, k) \<in> A \<longrightarrow> my_free memx (block_ptr memx g s) g \<noteq> None \<and>
      (\<forall>sz. myrealloc memx (block_ptr memx g s) sz g \<noteq> None)) \<and>
    (memrdy g memx \<noteq> 0 \<longrightarrow>
      map_option unat (my_mem_perused memx g) = Some (1000 * card (live_blocks A) div pool_blocks memx))"
proof (intro conjI allI impI)
  note ok = pool_reach_ok[OF assms, THEN conjunct1] and base = pool_reach_ok[OF assms, THEN conjunct2]
  have memx: "memx < 3" using ok by (simp add: pool_ok_def)
  show "pool_ok memx g A" by (rule ok)
  show "my_malloc memx sz g \<noteq> None" for sz by (rule my_malloc_cases[OF ok base, of sz]) simp_all
  show "map_option unat (my_mem_perused memx g) = Some (1000 * card (live_blocks A) div pool_blocks memx)"
    if "memrdy g memx \<noteq> 0" by (rule my_mem_perused_value[OF ok that])
  fix s k assume m: "(s, k) \<in> A"
  note rdy = live_ready[OF ok m]
  have t: "table_ok (memmap g memx) A" "length (memmap g memx) = pool_blocks memx" using ok rdy by (auto simp: pool_ok_def)
  show "0 < k" "s + k \<le> pool_blocks memx" using table_ok_D(2,3)[OF t(1) m] t(2) by auto
  then show "block_ptr memx g s \<noteq> 0" by (intro block_ptr_not_null[OF base]) simp
  show "memmap g memx ! i = w32 k" if "s \<le> i \<and> i < s + k" for i using table_ok_nth[OF t(1) m] that by blast
  show "(s, k) = (s', k') \<or> s + k \<le> s' \<or> s' + k' \<le> s" if "(s', k') \<in> A" for s' k'
    by (rule table_ok_D(4)[OF t(1) m that])
  show "my_free memx (block_ptr memx g s) g \<noteq> None" using my_free_live[OF ok rdy base m] by simp
  show "myrealloc memx (block_ptr memx g s) sz g \<noteq> None" for sz
  proof (cases "sz = 0")
    case True
    then show ?thesis using ready_pool_ok(3)[OF ok] by (simp add: myrealloc_def my_mem_malloc_def bank_consts[OF memx])
  next
    case False
    show ?thesis
      by (rule my_mem_malloc_cases[OF ok False]) (simp add: myrealloc_def, use myrealloc_success(1)[OF ok rdy base m False] in simp)
  qed
qed

theorem pool_reachable_well_formed_witness:
  "\<exists>p g. my_malloc 1 100 bank1 = Some (p, g) \<and> p \<noteq> 0 \<and> pool_reach 1 g {(block_of 1 bank1 p, 2)} \<and>
    pool_ok 1 g {(block_of 1 bank1 p, 2)}"
proof -
  have k: "blocks_for 100 = 2" by (simp add: blocks_for_def)
  have base: "base_ok 1 bank1" by (simp add: base_ok_def bank1_def memtblsize_def)
  have boot: "pool_reach 1 bank1 {}"
    by (rule pool_reach.boot) (use base in \<open>simp_all add: bank1_def memtblsize_def\<close>)
  have "map_option fst (my_malloc 1 100 bank1) = Some 0xC01F4380" by code_simp
  then obtain p g where r: "my_malloc 1 100 bank1 = Some (p, g)" "p \<noteq> 0" by auto
  have reach: "pool_reach 1 g {(block_of 1 bank1 p, 2)}" using pool_reach.malloc[OF boot r(1)] r(2) k by simp
  have "pool_ok 1 g {(block_of 1 bank1 p, 2)}" by (rule pool_reachable_well_formed[OF reach, THEN conjunct1])
  then show ?thesis using r reach by (intro exI[of _ p] exI[of _ g] conjI)
qed

end
