(* ===== verification/FRListOps.thy ===== *)
theory FRListOps
  imports FRList
begin

text \<open>
  The inline list macros of \<open>include/list.h\<close> that the kernel uses beside the functions of \<open>list.c\<close>, and the
  contract of all list operations in the form the scheduler needs: which list every item is on
  (\<open>pxContainer\<close>), which lists are in ascending order, and that nothing else changes.
\<close>

section \<open>Macros\<close>

definition listREMOVE_ITEM :: "'i \<Rightarrow> ('l, 'i, 'm) list_heap_scheme \<Rightarrow> ('l, 'i, 'm) list_heap_scheme option" where
  "listREMOVE_ITEM i h =
     (case pxContainer h i of
        None \<Rightarrow> None
      | Some l \<Rightarrow>
          let h1 = set_prev (pxNext h (ListItem i)) (pxPrevious h (ListItem i)) h;
              h2 = set_next (pxPrevious h1 (ListItem i)) (pxNext h1 (ListItem i)) h1;
              h3 = (if pxIndex h2 l = ListItem i
                    then h2\<lparr>pxIndex := (pxIndex h2)(l := pxPrevious h2 (ListItem i))\<rparr> else h2);
              h4 = h3\<lparr>pxContainer := (pxContainer h3)(i := None)\<rparr>
          in Some (h4\<lparr>uxNumberOfItems := (uxNumberOfItems h4)(l := uxNumberOfItems h4 l - 1)\<rparr>))"

definition listINSERT_END :: "'l \<Rightarrow> 'i \<Rightarrow> ('l, 'i, 'm) list_heap_scheme \<Rightarrow> ('l, 'i, 'm) list_heap_scheme" where
  "listINSERT_END l i h =
     (let idx = pxIndex h l;
          h1 = set_next (ListItem i) idx h;
          h2 = set_prev (ListItem i) (pxPrevious h1 idx) h1;
          h3 = set_next (pxPrevious h2 idx) (ListItem i) h2;
          h4 = set_prev idx (ListItem i) h3;
          h5 = h4\<lparr>pxContainer := (pxContainer h4)(i := Some l)\<rparr>
      in h5\<lparr>uxNumberOfItems := (uxNumberOfItems h5)(l := uxNumberOfItems h5 l + 1)\<rparr>)"

definition listIS_CONTAINED_WITHIN :: "'l option \<Rightarrow> 'i \<Rightarrow> ('l, 'i, 'm) list_heap_scheme \<Rightarrow> bool" where
  "listIS_CONTAINED_WITHIN l i h \<longleftrightarrow> pxContainer h i = l"

definition listLIST_ITEM_CONTAINER :: "'i \<Rightarrow> ('l, 'i, 'm) list_heap_scheme \<Rightarrow> 'l option" where
  "listLIST_ITEM_CONTAINER i h = pxContainer h i"

definition listGET_LIST_ITEM_VALUE :: "'i \<Rightarrow> ('l, 'i, 'm) list_heap_scheme \<Rightarrow> 32 word" where
  "listGET_LIST_ITEM_VALUE i h = xItemValue h (ListItem i)"

definition listGET_LIST_ITEM_OWNER :: "'i \<Rightarrow> ('l, 'i, 'm) list_heap_scheme \<Rightarrow> nat" where
  "listGET_LIST_ITEM_OWNER i h = pvOwner h i"

named_theorems list_macros \<open>the access macros unfolded\<close>

lemmas [list_macros] = listIS_CONTAINED_WITHIN_def listLIST_ITEM_CONTAINER_def listGET_LIST_ITEM_VALUE_def
  listGET_LIST_ITEM_OWNER_def listCURRENT_LIST_LENGTH_def listSET_LIST_ITEM_VALUE_def listSET_LIST_ITEM_OWNER_def

text \<open>The inline variants do what the functions do.\<close>

lemma listINSERT_END_eq: "listINSERT_END = vListInsertEnd"
  by (intro ext) (simp add: listINSERT_END_def vListInsertEnd_def)

lemma listREMOVE_ITEM_eq: "listREMOVE_ITEM i h = map_option snd (uxListRemove i h)"
  by (simp add: listREMOVE_ITEM_def uxListRemove_def Let_def split: option.split)

section \<open>The sequence is determined by the pointers\<close>

lemma linked_unique:
  assumes "linked nx pv (p # map ListItem xs @ [ListEnd l])" "linked nx pv (p # map ListItem ys @ [ListEnd l])"
  shows "xs = ys"
  using assms
proof (induction xs arbitrary: p ys)
  case Nil
  then show ?case by (cases ys) simp_all
next
  case (Cons x xs)
  then show ?case by (cases ys) auto
qed

lemma list_view_unique: "list_view h l xs \<Longrightarrow> list_view h l ys \<Longrightarrow> xs = ys"
  using linked_unique[of "pxNext h" "pxPrevious h" "ListEnd l" xs l ys] by (simp add: list_view_def ring_def)

section \<open>What an operation may change\<close>

definition list_step :: "('l, 'i, 'm) list_heap_scheme \<Rightarrow> ('l, 'i, 'm) list_heap_scheme \<Rightarrow> bool" where
  "list_step h h' \<longleftrightarrow>
     h' = h\<lparr>pxNext := pxNext h', pxPrevious := pxPrevious h', pxContainer := pxContainer h',
            uxNumberOfItems := uxNumberOfItems h', pxIndex := pxIndex h'\<rparr>"

lemma list_step_refl [simp]: "list_step h h"
  by (simp add: list_step_def)

lemma list_step_trans: "list_step h h' \<Longrightarrow> list_step h' h'' \<Longrightarrow> list_step h h''"
  unfolding list_step_def by (cases h; cases h'; cases h'') simp

lemma list_step_fields:
  "list_step h h' \<Longrightarrow> xItemValue h' = xItemValue h" "list_step h h' \<Longrightarrow> pvOwner h' = pvOwner h"
  unfolding list_step_def by (cases h; cases h'; simp)+

lemma list_step_insert_between: "list_step h (insert_between l xs i ys h)"
  by (simp add: list_step_def insert_between_def)

lemma list_step_remove_between: "list_step h (remove_between l xs i ys h)"
  by (simp add: list_step_def remove_between_def)

section \<open>Contract by membership\<close>

definition wf_lists :: "'i set \<Rightarrow> 'l set \<Rightarrow> ('l, 'i, 'm) list_heap_scheme \<Rightarrow> bool" where
  "wf_lists I live h \<longleftrightarrow>
     (\<forall>l\<in>live. \<exists>xs. list_view h l xs) \<and> (\<forall>i l. pxContainer h i = Some l \<longrightarrow> l \<in> live \<and> i \<in> I) \<and>
     finite I \<and> card I < 2 ^ 32"

definition sorted_list :: "('l, 'i, 'm) list_heap_scheme \<Rightarrow> 'l \<Rightarrow> bool" where
  "sorted_list h l \<longleftrightarrow> (\<exists>xs. list_view h l xs \<and> sorted (map (item_value h) xs))"

text \<open>The lists other than \<open>l\<close> stand for the same sequences.\<close>

definition only_list :: "'l \<Rightarrow> ('l, 'i, 'm) list_heap_scheme \<Rightarrow> ('l, 'i, 'm) list_heap_scheme \<Rightarrow> bool" where
  "only_list l h h' \<longleftrightarrow> (\<forall>l' ys. l' \<noteq> l \<longrightarrow> list_view h l' ys \<longrightarrow> list_view h' l' ys)"

lemma wf_listsD:
  assumes "wf_lists I live h"
  shows "l \<in> live \<Longrightarrow> \<exists>xs. list_view h l xs" "pxContainer h i = Some l \<Longrightarrow> l \<in> live"
    "pxContainer h i = Some l \<Longrightarrow> i \<in> I"
  using assms by (auto simp: wf_lists_def)

lemma wf_lists_view:
  assumes "wf_lists I live h" "l \<in> live"
  obtains xs where "list_view h l xs" "\<And>i. i \<in> set xs \<longleftrightarrow> pxContainer h i = Some l"
  using wf_listsD(1)[OF assms] list_view_container by metis

lemma wf_lists_length:
  assumes "wf_lists I live h" "list_view h l xs" "i \<in> I" "pxContainer h i = None"
  shows "length xs < 2 ^ 32 - 1"
proof -
  have "set xs \<subseteq> I - {i}"
    using list_view_container[OF assms(2)] assms(1,4) unfolding wf_lists_def by (metis Diff_empty option.discI subsetI subset_Diff_insert)
  then have "card (set xs) \<le> card (I - {i})" using assms(1) by (intro card_mono) (auto simp: wf_lists_def)
  moreover have "card (I - {i}) < card I" using assms(1,3) by (intro psubset_card_mono) (auto simp: wf_lists_def)
  moreover have "card (set xs) = length xs" using assms(2) by (simp add: list_view_def distinct_card)
  ultimately show ?thesis using assms(1) unfolding wf_lists_def by linarith
qed

lemma wf_lists_step:
  assumes "wf_lists I live h" "list_view h' l ys" "only_list l h h'" "l \<in> live"
    and "\<And>i l. pxContainer h' i = Some l \<Longrightarrow> l \<in> live \<and> i \<in> I"
  shows "wf_lists I live h'"
  using assms unfolding wf_lists_def only_list_def by metis

lemma sorted_list_other:
  "sorted_list h l' \<Longrightarrow> only_list l h h' \<Longrightarrow> xItemValue h' = xItemValue h \<Longrightarrow> l' \<noteq> l \<Longrightarrow> sorted_list h' l'"
  unfolding sorted_list_def only_list_def by fastforce

lemma listLIST_IS_EMPTY_iff:
  assumes "wf_lists I live h" "l \<in> live"
  shows "listLIST_IS_EMPTY l h \<longleftrightarrow> (\<forall>i. pxContainer h i \<noteq> Some l)"
proof -
  obtain xs where xs: "list_view h l xs" "\<And>i. i \<in> set xs \<longleftrightarrow> pxContainer h i = Some l"
    using wf_lists_view[OF assms] by blast
  have "xs = [] \<longleftrightarrow> (\<forall>i. i \<notin> set xs)" by (cases xs) auto
  then show ?thesis using list_view_empty[OF xs(1)] xs(2) by simp
qed

lemma sorted_listD: "sorted_list h l \<Longrightarrow> list_view h l xs \<Longrightarrow> sorted (map (item_value h) xs)"
proof -
  assume a: "sorted_list h l" and b: "list_view h l xs"
  from a obtain ys where ys: "list_view h l ys" "sorted (map (item_value h) ys)"
    unfolding sorted_list_def by (elim exE conjE)
  have "ys = xs" by (rule list_view_unique[OF ys(1) b])
  then show ?thesis using ys(2) by simp
qed

lemma empty_iff_none: "A = {} \<longleftrightarrow> (\<forall>j. j \<notin> A)"
  by auto

lemma sorted_listI: "list_view h l xs \<Longrightarrow> sorted (map (item_value h) xs) \<Longrightarrow> sorted_list h l"
  unfolding sorted_list_def by blast

text \<open>Insertion at the end: the item is then on the list.\<close>

lemma put_end:
  assumes wf: "wf_lists I live h" and l: "l \<in> live" and i: "i \<in> I" "pxContainer h i = None"
  shows "wf_lists I live (vListInsertEnd l i h)" "list_step h (vListInsertEnd l i h)"
    "pxContainer (vListInsertEnd l i h) = (pxContainer h)(i := Some l)" "only_list l h (vListInsertEnd l i h)"
proof -
  obtain xs where v: "list_view h l xs" using wf_listsD(1)[OF wf l] by blast
  obtain as bs where s: "xs = as @ bs" "pxIndex h l = after l bs" by (rule index_gap[OF v])
  have v': "list_view h l (as @ bs)" using v s(1) by simp
  note n = wf_lists_length[OF wf v i]
  note eq = vListInsertEnd_between[OF v' s(2) i(2)]
  show st: "list_step h (vListInsertEnd l i h)" unfolding eq by (rule list_step_insert_between)
  show c: "pxContainer (vListInsertEnd l i h) = (pxContainer h)(i := Some l)" unfolding eq by (simp add: insert_between_def)
  show o: "only_list l h (vListInsertEnd l i h)"
    using vListInsertEnd_view[OF v i(2) n] unfolding only_list_def by blast
  show "wf_lists I live (vListInsertEnd l i h)"
    by (rule wf_lists_step[OF wf _ o l]) (use vListInsertEnd_view[OF v i(2) n] c wf_listsD[OF wf] l i(1) in \<open>auto split: if_splits\<close>)
qed

lemma put_sorted:
  assumes wf: "wf_lists I live h" and l: "l \<in> live" and i: "i \<in> I" "pxContainer h i = None"
  shows "\<exists>h'. vListInsert l i h = Some h' \<and> wf_lists I live h' \<and> list_step h h' \<and>
    pxContainer h' = (pxContainer h)(i := Some l) \<and> only_list l h h' \<and> (sorted_list h l \<longrightarrow> sorted_list h' l)"
proof -
  obtain xs where v: "list_view h l xs" using wf_listsD(1)[OF wf l] by blast
  note n = wf_lists_length[OF wf v i]
  define h' where "h' = insert_between l (takeWhile (\<lambda>x. item_value h x \<le> item_value h i) xs) i
                           (dropWhile (\<lambda>x. item_value h x \<le> item_value h i) xs) h"
  have eq: "vListInsert l i h = Some h'" using vListInsert_between[OF v i(2)] by (simp add: h'_def)
  have "list_view h' l (insert_sorted_seq (item_value h) i xs) \<and> only_list l h h'"
    using kl.put_ok[OF v i(2) n] unfolding eq only_list_def option.inject by blast
  then have w: "list_view h' l (insert_sorted_seq (item_value h) i xs)" and o: "only_list l h h'" by simp_all
  have st: "list_step h h'" unfolding h'_def by (rule list_step_insert_between)
  have c: "pxContainer h' = (pxContainer h)(i := Some l)" by (simp add: h'_def insert_between_def)
  have "wf_lists I live h'"
    by (rule wf_lists_step[OF wf w o l]) (use c wf_listsD[OF wf] l i(1) in \<open>auto split: if_splits\<close>)
  moreover have "sorted_list h' l" if "sorted_list h l"
  proof -
    have "sorted (map (item_value h) (insert_sorted_seq (item_value h) i xs))"
      by (rule sorted_insert_sorted_seq) (rule sorted_listD[OF that v])
    then show ?thesis by (intro sorted_listI[OF w]) (simp only: list_step_fields(1)[OF st])
  qed
  ultimately show ?thesis using eq st c o by blast
qed

text \<open>Removal: the returned number is 0 exactly when the list has become empty.\<close>

lemma take_out:
  assumes wf: "wf_lists I live h" and c: "pxContainer h i = Some l"
  shows "\<exists>n h'. uxListRemove i h = Some (n, h') \<and> wf_lists I live h' \<and> list_step h h' \<and>
    pxContainer h' = (pxContainer h)(i := None) \<and> only_list l h h' \<and> (sorted_list h l \<longrightarrow> sorted_list h' l) \<and>
    (n = 0 \<longleftrightarrow> (\<forall>j. pxContainer h' j \<noteq> Some l))"
proof -
  have l: "l \<in> live" using wf_listsD(2)[OF wf c] .
  obtain xs where v: "list_view h l xs" and m: "\<And>j. j \<in> set xs \<longleftrightarrow> pxContainer h j = Some l"
    using wf_lists_view[OF wf l] by blast
  have i: "i \<in> set xs" using m c by simp
  then obtain as bs where s: "xs = as @ i # bs" by (auto simp: in_set_conv_decomp)
  have v': "list_view h l (as @ i # bs)" using v s by simp
  have d: "distinct (as @ i # bs)" using v' by (simp add: list_view_def)
  define h' where "h' = remove_between l as i bs h"
  have eq: "uxListRemove i h = Some (of_nat (length (as @ bs)), h')"
    unfolding h'_def by (rule uxListRemove_between[OF v'])
  have st: "list_step h h'" unfolding h'_def by (rule list_step_remove_between)
  have c': "pxContainer h' = (pxContainer h)(i := None)" by (simp add: h'_def remove_between_def)
  have w: "list_view h' l (as @ bs)" unfolding h'_def by (rule remove_between_view[OF v'])
  have o: "only_list l h h'" unfolding h'_def only_list_def using remove_between_frame[OF v'] by blast
  have "wf_lists I live h'"
    by (rule wf_lists_step[OF wf w o l]) (use c' wf_listsD[OF wf] in \<open>auto split: if_splits\<close>)
  moreover have "sorted_list h' l" if "sorted_list h l"
  proof -
    have "sorted (map (item_value h) (as @ bs))" using sorted_listD[OF that v'] by (auto simp: sorted_append)
    then show ?thesis by (intro sorted_listI[OF w]) (simp only: list_step_fields(1)[OF st])
  qed
  moreover have "(of_nat (length (as @ bs)) :: 32 word) = 0 \<longleftrightarrow> (\<forall>j. pxContainer h' j \<noteq> Some l)"
  proof -
    have "length (as @ bs) < 2 ^ 32" using w by (simp add: list_view_def)
    then have "(of_nat (length (as @ bs)) :: 32 word) = 0 \<longleftrightarrow> set (as @ bs) = {}"
      unfolding set_empty length_0_conv[symmetric] by (rule of_nat_length_eq_0)
    also have "set (as @ bs) = {} \<longleftrightarrow> (\<forall>j. j \<notin> set (as @ bs))" by (rule empty_iff_none)
    finally show ?thesis unfolding list_view_container[OF w] .
  qed
  ultimately show ?thesis using eq st c' o by blast
qed

lemma remove_item:
  assumes "wf_lists I live h" "pxContainer h i = Some l"
  shows "\<exists>h'. listREMOVE_ITEM i h = Some h' \<and> wf_lists I live h' \<and> list_step h h' \<and>
    pxContainer h' = (pxContainer h)(i := None) \<and> only_list l h h' \<and> (sorted_list h l \<longrightarrow> sorted_list h' l)"
  using take_out[OF assms] unfolding listREMOVE_ITEM_eq by fastforce

text \<open>The head of a list in ascending order has the least value.\<close>

lemma head_entry:
  assumes wf: "wf_lists I live h" and l: "l \<in> live" and ne: "pxContainer h j = Some l"
  shows "\<exists>i. pxContainer h i = Some l \<and> listGET_OWNER_OF_HEAD_ENTRY l h = Some (pvOwner h i) \<and>
    listGET_ITEM_VALUE_OF_HEAD_ENTRY l h = item_value h i \<and>
    (sorted_list h l \<longrightarrow> (\<forall>j. pxContainer h j = Some l \<longrightarrow> item_value h i \<le> item_value h j))"
proof -
  obtain xs where v: "list_view h l xs" and m: "\<And>j. j \<in> set xs \<longleftrightarrow> pxContainer h j = Some l"
    using wf_lists_view[OF wf l] by blast
  have "j \<in> set xs" using m ne by simp
  then obtain x ys where x: "xs = x # ys" by (cases xs) auto
  have n: "pxNext h (ListEnd l) = ListItem x" using list_view_link(1)[of h l "[]" xs] v x by simp
  have "item_value h x \<le> item_value h j" if "sorted_list h l" "pxContainer h j = Some l" for j
  proof -
    have "sorted (map (item_value h) (x # ys))"
      using sorted_listD[OF that(1) v] x by simp
    moreover have "j \<in> set (x # ys)" using m that(2) x by simp
    ultimately show ?thesis by auto
  qed
  moreover have "pxContainer h x = Some l" using m[of x] x by simp
  ultimately show ?thesis
    using n by (intro exI[of _ x]) (simp add: listGET_OWNER_OF_HEAD_ENTRY_def listGET_ITEM_VALUE_OF_HEAD_ENTRY_def)
qed

text \<open>Stepping to the next entry changes the index only.\<close>

lemma next_entry:
  assumes wf: "wf_lists I live h" and l: "l \<in> live" and ne: "pxContainer h j = Some l"
  shows "\<exists>i. pxContainer h i = Some l \<and> listGET_OWNER_OF_NEXT_ENTRY l h = Some (pvOwner h i, at_index l (ListItem i) h) \<and>
    wf_lists I live (at_index l (ListItem i) h) \<and> (\<forall>l'. sorted_list h l' \<longrightarrow> sorted_list (at_index l (ListItem i) h) l')"
proof -
  obtain xs where v: "list_view h l xs" and m: "\<And>j. j \<in> set xs \<longleftrightarrow> pxContainer h j = Some l"
    using wf_lists_view[OF wf l] by blast
  have jx: "j \<in> set xs" using m ne by simp
  have "\<exists>i. i \<in> set xs \<and> listGET_OWNER_OF_NEXT_ENTRY l h = Some (pvOwner h i, at_index l (ListItem i) h)"
  proof -
    have "pxIndex h l = ListEnd l \<or> (\<exists>y\<in>set xs. pxIndex h l = ListItem y)" using v by (auto simp: list_view_def)
    then obtain as bs where s: "xs = as @ bs" "pxIndex h l = before l as"
    proof (elim disjE bexE)
      assume "pxIndex h l = ListEnd l"
      then show thesis using that[of "[]" xs] by simp
    next
      fix y assume y: "y \<in> set xs" "pxIndex h l = ListItem y"
      then obtain as bs where "xs = as @ y # bs" by (auto simp: in_set_conv_decomp)
      then show thesis using that[of "as @ [y]" bs] y(2) by simp
    qed
    show ?thesis
    proof (cases bs)
      case (Cons b bs')
      then show ?thesis using next_owner_step[of h l as b bs'] v s by auto
    next
      case Nil
      then obtain y ys where "xs = y # ys" using jx by (cases xs) auto
      then show ?thesis using next_owner_wrap[of h l y ys] v s Nil by auto
    qed
  qed
  then obtain i where i: "i \<in> set xs" "listGET_OWNER_OF_NEXT_ENTRY l h = Some (pvOwner h i, at_index l (ListItem i) h)" by blast
  let ?h = "at_index l (ListItem i) h"
  have all: "list_view ?h l' ys" if "list_view h l' ys" for l' ys
  proof (cases "l' = l")
    case True
    then show ?thesis using that list_view_unique[OF v] i(1) by (auto intro: list_view_at_index)
  next
    case False
    then show ?thesis by (intro list_view_frame[OF that]) (simp_all add: at_index_def)
  qed
  have "pxContainer ?h = pxContainer h" by (simp add: at_index_def)
  then have "wf_lists I live ?h" using wf all unfolding wf_lists_def by metis
  moreover have "sorted_list ?h l'" if "sorted_list h l'" for l'
    using that all unfolding sorted_list_def by (auto simp: at_index_def)
  ultimately show ?thesis using i m by blast
qed

end
