(* ===== verification/FRTask.thy ===== *)
theory FRTask
  imports FRListOps
begin

text \<open>
  The scheduler (\<open>FreeRTOS/Source/tasks.c\<close>) as \<open>FreeRTOSConfig.h\<close> configures it: preemption, time
  slicing, port optimised task selection, 32-bit ticks, five priorities, mutexes, one notification
  per task, suspension and deletion; no tick hook, no trace, no abort of delays.  A task handle is
  a number that names its TCB; a dereferenced NULL pointer and a ready list index outside the array are the value
  None.  Functions run with the interrupts masked or the scheduler suspended are one step; the
  context switch they ask for is pended (\<open>pendsv\<close>) and carried out by the PendSV handler.
\<close>

section \<open>State\<close>

datatype klist = Ready nat | xDelayedTaskList1 | xDelayedTaskList2 | xPendingReadyList
  | xTasksWaitingTermination | xSuspendedTaskList | EventList nat

datatype kitem = xStateListItem nat | xEventListItem nat

definition configMAX_PRIORITIES :: nat where
  "configMAX_PRIORITIES = 5"

text \<open>The members of the TCB the scheduler works with, by task, and the static variables of \<open>tasks.c\<close>.\<close>

record kernel = "(klist, kitem) list_heap" +
  uxPriority :: "nat \<Rightarrow> nat"
  uxBasePriority :: "nat \<Rightarrow> nat"
  uxMutexesHeld :: "nat \<Rightarrow> 32 word"
  ulNotifiedValue :: "nat \<Rightarrow> 32 word"
  ucNotifyState :: "nat \<Rightarrow> 8 word"
  pxCurrentTCB :: "nat option"
  pxDelayedTaskList :: klist
  pxOverflowDelayedTaskList :: klist
  uxDeletedTasksWaitingCleanUp :: "32 word"
  uxCurrentNumberOfTasks :: "32 word"
  xTickCount :: "32 word"
  uxTopReadyPriority :: "32 word"
  xSchedulerRunning :: bool
  xPendedTicks :: "32 word"
  xYieldPending :: bool
  xNumOfOverflows :: "32 word"
  uxTaskNumber :: "32 word"
  xNextTaskUnblockTime :: "32 word"
  uxSchedulerSuspended :: "32 word"
  pendsv :: bool

definition taskNOT_WAITING_NOTIFICATION :: "8 word" where
  "taskNOT_WAITING_NOTIFICATION = 0"

definition taskWAITING_NOTIFICATION :: "8 word" where
  "taskWAITING_NOTIFICATION = 1"

definition taskNOTIFICATION_RECEIVED :: "8 word" where
  "taskNOTIFICATION_RECEIVED = 2"

definition taskEVENT_LIST_ITEM_VALUE_IN_USE :: "32 word" where
  "taskEVENT_LIST_ITEM_VALUE_IN_USE = 0x80000000"

section \<open>Port macros\<close>

definition portYIELD :: "kernel \<Rightarrow> kernel" where
  "portYIELD k = k\<lparr>pendsv := True\<rparr>"

definition portRECORD_READY_PRIORITY :: "nat \<Rightarrow> 32 word \<Rightarrow> 32 word" where
  "portRECORD_READY_PRIORITY p w = w OR push_bit p 1"

definition portRESET_READY_PRIORITY :: "nat \<Rightarrow> 32 word \<Rightarrow> 32 word" where
  "portRESET_READY_PRIORITY p w = w AND NOT (push_bit p 1)"

definition clz :: "32 word \<Rightarrow> nat" where
  "clz w = length (takeWhile (\<lambda>i. \<not> bit w i) (rev [0..<32]))"

text \<open>For an empty bitmap the index is \<open>31 - 32\<close>, outside every array.\<close>

definition portGET_HIGHEST_PRIORITY :: "32 word \<Rightarrow> nat option" where
  "portGET_HIGHEST_PRIORITY w = (if clz w \<le> 31 then Some (31 - clz w) else None)"

section \<open>Ready lists\<close>

definition pxReadyTasksLists :: "nat \<Rightarrow> klist option" where
  "pxReadyTasksLists p = (if p < configMAX_PRIORITIES then Some (Ready p) else None)"

definition taskRECORD_READY_PRIORITY :: "nat \<Rightarrow> kernel \<Rightarrow> kernel" where
  "taskRECORD_READY_PRIORITY p k = k\<lparr>uxTopReadyPriority := portRECORD_READY_PRIORITY p (uxTopReadyPriority k)\<rparr>"

definition reset_ready_priority :: "nat \<Rightarrow> kernel \<Rightarrow> kernel" where
  "reset_ready_priority p k = k\<lparr>uxTopReadyPriority := portRESET_READY_PRIORITY p (uxTopReadyPriority k)\<rparr>"

definition taskRESET_READY_PRIORITY :: "nat \<Rightarrow> kernel \<Rightarrow> kernel option" where
  "taskRESET_READY_PRIORITY p k =
     do { l \<leftarrow> pxReadyTasksLists p;
          Some (if listCURRENT_LIST_LENGTH l k = 0 then reset_ready_priority p k else k) }"

definition taskSELECT_HIGHEST_PRIORITY_TASK :: "kernel \<Rightarrow> kernel option" where
  "taskSELECT_HIGHEST_PRIORITY_TASK k =
     do { p \<leftarrow> portGET_HIGHEST_PRIORITY (uxTopReadyPriority k);
          l \<leftarrow> pxReadyTasksLists p;
          (t, k) \<leftarrow> listGET_OWNER_OF_NEXT_ENTRY l k;
          Some (k\<lparr>pxCurrentTCB := Some t\<rparr>) }"

definition prvAddTaskToReadyList :: "nat \<Rightarrow> kernel \<Rightarrow> kernel option" where
  "prvAddTaskToReadyList t k =
     do { l \<leftarrow> pxReadyTasksLists (uxPriority k t);
          let k = taskRECORD_READY_PRIORITY (uxPriority k t) k;
          Some (listINSERT_END l (xStateListItem t) k) }"

definition prvGetTCBFromHandle :: "nat option \<Rightarrow> kernel \<Rightarrow> nat option" where
  "prvGetTCBFromHandle h k = (case h of None \<Rightarrow> pxCurrentTCB k | Some t \<Rightarrow> Some t)"

text \<open>Taking an item off its list and, when it was the last one, clearing a priority.\<close>

definition remove_and_reset :: "kitem \<Rightarrow> nat \<Rightarrow> kernel \<Rightarrow> kernel option" where
  "remove_and_reset i p k =
     do { (n, k) \<leftarrow> uxListRemove i k; Some (if n = 0 then reset_ready_priority p k else k) }"

definition remove_from_event_list :: "nat \<Rightarrow> kernel \<Rightarrow> kernel option" where
  "remove_from_event_list t k =
     (if listLIST_ITEM_CONTAINER (xEventListItem t) k \<noteq> None
      then map_option snd (uxListRemove (xEventListItem t) k) else Some k)"

section \<open>Initialisation and creation\<close>

fun init_ready_lists :: "nat \<Rightarrow> kernel \<Rightarrow> kernel" where
  "init_ready_lists 0 k = k"
| "init_ready_lists (Suc n) k = vListInitialise (Ready n) (init_ready_lists n k)"

definition prvInitialiseTaskLists :: "kernel \<Rightarrow> kernel" where
  "prvInitialiseTaskLists k =
     (let k = init_ready_lists configMAX_PRIORITIES k;
          k = vListInitialise xDelayedTaskList1 k;
          k = vListInitialise xDelayedTaskList2 k;
          k = vListInitialise xPendingReadyList k;
          k = vListInitialise xTasksWaitingTermination k;
          k = vListInitialise xSuspendedTaskList k
      in k\<lparr>pxDelayedTaskList := xDelayedTaskList1, pxOverflowDelayedTaskList := xDelayedTaskList2\<rparr>)"

text \<open>The part of \<open>prvInitialiseNewTask\<close> that concerns the scheduler; stack and name are left out.  The TCB was cleared.\<close>

definition prvInitialiseNewTask :: "nat \<Rightarrow> nat \<Rightarrow> kernel \<Rightarrow> kernel" where
  "prvInitialiseNewTask t p k =
     (let p = (if p \<ge> configMAX_PRIORITIES then configMAX_PRIORITIES - 1 else p);
          k = k\<lparr>uxMutexesHeld := (uxMutexesHeld k)(t := 0), ulNotifiedValue := (ulNotifiedValue k)(t := 0),
                ucNotifyState := (ucNotifyState k)(t := 0)\<rparr>;
          k = k\<lparr>uxPriority := (uxPriority k)(t := p), uxBasePriority := (uxBasePriority k)(t := p)\<rparr>;
          k = vListInitialiseItem (xStateListItem t) k;
          k = vListInitialiseItem (xEventListItem t) k;
          k = listSET_LIST_ITEM_OWNER (xStateListItem t) t k;
          k = listSET_LIST_ITEM_VALUE (xEventListItem t) (of_nat configMAX_PRIORITIES - of_nat p) k
      in listSET_LIST_ITEM_OWNER (xEventListItem t) t k)"

definition prvAddNewTaskToReadyList :: "nat \<Rightarrow> kernel \<Rightarrow> kernel option" where
  "prvAddNewTaskToReadyList t k =
     do { let k = k\<lparr>uxCurrentNumberOfTasks := uxCurrentNumberOfTasks k + 1\<rparr>;
          let k = (case pxCurrentTCB k of
                     None \<Rightarrow> (let k = k\<lparr>pxCurrentTCB := Some t\<rparr>
                              in if uxCurrentNumberOfTasks k = 1 then prvInitialiseTaskLists k else k)
                   | Some c \<Rightarrow> (if \<not> xSchedulerRunning k \<and> uxPriority k c \<le> uxPriority k t
                               then k\<lparr>pxCurrentTCB := Some t\<rparr> else k));
          let k = k\<lparr>uxTaskNumber := uxTaskNumber k + 1\<rparr>;
          k \<leftarrow> prvAddTaskToReadyList t k;
          c \<leftarrow> pxCurrentTCB k;
          Some (if xSchedulerRunning k \<and> uxPriority k c < uxPriority k t then portYIELD k else k) }"

text \<open>\<open>xTaskCreate\<close>: the handle is the memory that \<open>pvPortMalloc\<close> returned for the TCB, None when the TCB
  or the stack could not be allocated.\<close>

definition xTaskCreate :: "nat option \<Rightarrow> nat \<Rightarrow> kernel \<Rightarrow> (bool \<times> kernel) option" where
  "xTaskCreate h p k =
     (case h of
        None \<Rightarrow> Some (False, k)
      | Some t \<Rightarrow> do { k \<leftarrow> prvAddNewTaskToReadyList t (prvInitialiseNewTask t p k); Some (True, k) })"

definition configTIMER_TASK_PRIORITY :: nat where
  "configTIMER_TASK_PRIORITY = configMAX_PRIORITIES - 1"

text \<open>The start of the scheduler up to the start of the first task, with the handles of the idle and the
  timer task; the queue that \<open>xTimerCreateTimerTask\<close> creates is left to the timers.\<close>

definition vTaskStartScheduler :: "nat option \<Rightarrow> nat option \<Rightarrow> kernel \<Rightarrow> (bool \<times> kernel) option" where
  "vTaskStartScheduler idle timer k =
     do { (ok, k) \<leftarrow> xTaskCreate idle 0 k;
          (ok, k) \<leftarrow> (if ok then xTaskCreate timer configTIMER_TASK_PRIORITY k else Some (False, k));
          Some (if ok then (True, k\<lparr>xNextTaskUnblockTime := portMAX_DELAY, xSchedulerRunning := True, xTickCount := 0\<rparr>)
                else (False, k)) }"

section \<open>Time\<close>

definition prvResetNextTaskUnblockTime :: "kernel \<Rightarrow> kernel" where
  "prvResetNextTaskUnblockTime k =
     (if listLIST_IS_EMPTY (pxDelayedTaskList k) k then k\<lparr>xNextTaskUnblockTime := portMAX_DELAY\<rparr>
      else k\<lparr>xNextTaskUnblockTime := listGET_ITEM_VALUE_OF_HEAD_ENTRY (pxDelayedTaskList k) k\<rparr>)"

definition taskSWITCH_DELAYED_LISTS :: "kernel \<Rightarrow> kernel" where
  "taskSWITCH_DELAYED_LISTS k =
     (let k = k\<lparr>pxDelayedTaskList := pxOverflowDelayedTaskList k, pxOverflowDelayedTaskList := pxDelayedTaskList k\<rparr>;
          k = k\<lparr>xNumOfOverflows := xNumOfOverflows k + 1\<rparr>
      in prvResetNextTaskUnblockTime k)"

text \<open>The loop over the expired tasks; \<open>sw\<close> is \<open>xSwitchRequired\<close>.\<close>

partial_function (option) unblock_loop :: "32 word \<Rightarrow> bool \<Rightarrow> kernel \<Rightarrow> (bool \<times> kernel) option" where
  "unblock_loop now sw k =
     (if listLIST_IS_EMPTY (pxDelayedTaskList k) k
      then Some (sw, k\<lparr>xNextTaskUnblockTime := portMAX_DELAY\<rparr>)
      else do {
        t \<leftarrow> listGET_OWNER_OF_HEAD_ENTRY (pxDelayedTaskList k) k;
        let v = listGET_LIST_ITEM_VALUE (xStateListItem t) k;
        if now < v then Some (sw, k\<lparr>xNextTaskUnblockTime := v\<rparr>)
        else do {
          k \<leftarrow> listREMOVE_ITEM (xStateListItem t) k;
          k \<leftarrow> (if listLIST_ITEM_CONTAINER (xEventListItem t) k \<noteq> None
                then listREMOVE_ITEM (xEventListItem t) k else Some k);
          k \<leftarrow> prvAddTaskToReadyList t k;
          c \<leftarrow> pxCurrentTCB k;
          unblock_loop now (sw \<or> uxPriority k t > uxPriority k c) k } })"

definition xTaskIncrementTick :: "kernel \<Rightarrow> (bool \<times> kernel) option" where
  "xTaskIncrementTick k =
     (if uxSchedulerSuspended k = 0 then do {
        let now = xTickCount k + 1;
        let k = k\<lparr>xTickCount := now\<rparr>;
        let k = (if now = 0 then taskSWITCH_DELAYED_LISTS k else k);
        (sw, k) \<leftarrow> (if now \<ge> xNextTaskUnblockTime k then unblock_loop now False k else Some (False, k));
        c \<leftarrow> pxCurrentTCB k;
        l \<leftarrow> pxReadyTasksLists (uxPriority k c);
        let sw = (sw \<or> listCURRENT_LIST_LENGTH l k > 1);
        Some (sw \<or> xYieldPending k, k) }
      else Some (False, k\<lparr>xPendedTicks := xPendedTicks k + 1\<rparr>))"

definition xPortSysTickHandler :: "kernel \<Rightarrow> kernel option" where
  "xPortSysTickHandler k =
     do { (sw, k) \<leftarrow> xTaskIncrementTick k; Some (if sw then k\<lparr>pendsv := True\<rparr> else k) }"

definition xTaskGetTickCount :: "kernel \<Rightarrow> 32 word" where
  "xTaskGetTickCount k = xTickCount k"

section \<open>Context switch\<close>

definition vTaskSwitchContext :: "kernel \<Rightarrow> kernel option" where
  "vTaskSwitchContext k =
     (if uxSchedulerSuspended k \<noteq> 0 then Some (k\<lparr>xYieldPending := True\<rparr>)
      else taskSELECT_HIGHEST_PRIORITY_TASK (k\<lparr>xYieldPending := False\<rparr>))"

text \<open>The PendSV handler of \<open>port.c\<close>: the exception is taken, the context saved and \<open>vTaskSwitchContext\<close> called.\<close>

definition xPortPendSVHandler :: "kernel \<Rightarrow> kernel option" where
  "xPortPendSVHandler k = vTaskSwitchContext (k\<lparr>pendsv := False\<rparr>)"

section \<open>Blocking\<close>

definition prvAddCurrentTaskToDelayedList :: "32 word \<Rightarrow> bool \<Rightarrow> kernel \<Rightarrow> kernel option" where
  "prvAddCurrentTaskToDelayedList xTicksToWait xCanBlockIndefinitely k =
     do { let now = xTickCount k;
          c \<leftarrow> pxCurrentTCB k;
          k \<leftarrow> remove_and_reset (xStateListItem c) (uxPriority k c) k;
          if xTicksToWait = portMAX_DELAY \<and> xCanBlockIndefinitely
          then Some (listINSERT_END xSuspendedTaskList (xStateListItem c) k)
          else do {
            let wake = now + xTicksToWait;
            let k = listSET_LIST_ITEM_VALUE (xStateListItem c) wake k;
            if wake < now then vListInsert (pxOverflowDelayedTaskList k) (xStateListItem c) k
            else do {
              k \<leftarrow> vListInsert (pxDelayedTaskList k) (xStateListItem c) k;
              Some (if wake < xNextTaskUnblockTime k then k\<lparr>xNextTaskUnblockTime := wake\<rparr> else k) } } }"

definition vTaskSuspendAll :: "kernel \<Rightarrow> kernel" where
  "vTaskSuspendAll k = k\<lparr>uxSchedulerSuspended := uxSchedulerSuspended k + 1\<rparr>"

text \<open>The tasks readied while the scheduler was suspended; the flag says whether there was one.\<close>

partial_function (option) pending_loop :: "bool \<Rightarrow> kernel \<Rightarrow> (bool \<times> kernel) option" where
  "pending_loop moved k =
     (if listLIST_IS_EMPTY xPendingReadyList k then Some (moved, k)
      else do {
        t \<leftarrow> listGET_OWNER_OF_HEAD_ENTRY xPendingReadyList k;
        k \<leftarrow> listREMOVE_ITEM (xEventListItem t) k;
        k \<leftarrow> listREMOVE_ITEM (xStateListItem t) k;
        k \<leftarrow> prvAddTaskToReadyList t k;
        c \<leftarrow> pxCurrentTCB k;
        pending_loop True (if uxPriority k t \<ge> uxPriority k c then k\<lparr>xYieldPending := True\<rparr> else k) })"

fun pended_ticks_loop :: "nat \<Rightarrow> kernel \<Rightarrow> kernel option" where
  "pended_ticks_loop 0 k = Some k"
| "pended_ticks_loop (Suc n) k =
     do { (sw, k) \<leftarrow> xTaskIncrementTick k;
          pended_ticks_loop n (if sw then k\<lparr>xYieldPending := True\<rparr> else k) }"

definition xTaskResumeAll :: "kernel \<Rightarrow> (bool \<times> kernel) option" where
  "xTaskResumeAll k =
     do { let k = k\<lparr>uxSchedulerSuspended := uxSchedulerSuspended k - 1\<rparr>;
          if uxSchedulerSuspended k = 0 \<and> uxCurrentNumberOfTasks k > 0
          then do {
            (moved, k) \<leftarrow> pending_loop False k;
            let k = (if moved then prvResetNextTaskUnblockTime k else k);
            k \<leftarrow> (if xPendedTicks k > 0
                  then do { k \<leftarrow> pended_ticks_loop (unat (xPendedTicks k)) k; Some (k\<lparr>xPendedTicks := 0\<rparr>) }
                  else Some k);
            Some (if xYieldPending k then (True, portYIELD k) else (False, k)) }
          else Some (False, k) }"

definition xTaskCatchUpTicks :: "32 word \<Rightarrow> kernel \<Rightarrow> (bool \<times> kernel) option" where
  "xTaskCatchUpTicks n k =
     (let k = vTaskSuspendAll k;
          k = k\<lparr>xPendedTicks := xPendedTicks k + n\<rparr>
      in xTaskResumeAll k)"

definition vTaskDelay :: "32 word \<Rightarrow> kernel \<Rightarrow> kernel option" where
  "vTaskDelay xTicksToDelay k =
     do { (yielded, k) \<leftarrow>
            (if xTicksToDelay > 0
             then do { let k = vTaskSuspendAll k;
                       k \<leftarrow> prvAddCurrentTaskToDelayedList xTicksToDelay False k;
                       xTaskResumeAll k }
             else Some (False, k));
          Some (if \<not> yielded then portYIELD k else k) }"

text \<open>Whether \<open>xTaskDelayUntil\<close> has to wait.\<close>

definition should_delay :: "32 word \<Rightarrow> 32 word \<Rightarrow> 32 word \<Rightarrow> bool" where
  "should_delay now prev wake =
     (if now < prev then wake < prev \<and> wake > now else wake < prev \<or> wake > now)"

text \<open>The result is \<open>xShouldDelay\<close> and the new value of \<open>*pxPreviousWakeTime\<close>.\<close>

definition xTaskDelayUntil :: "32 word \<Rightarrow> 32 word \<Rightarrow> kernel \<Rightarrow> (bool \<times> 32 word \<times> kernel) option" where
  "xTaskDelayUntil prev xTimeIncrement k =
     do { let k = vTaskSuspendAll k;
          let now = xTickCount k;
          let wake = prev + xTimeIncrement;
          let xShouldDelay = should_delay now prev wake;
          k \<leftarrow> (if xShouldDelay then prvAddCurrentTaskToDelayedList (wake - now) False k else Some k);
          (yielded, k) \<leftarrow> xTaskResumeAll k;
          Some (xShouldDelay, wake, if \<not> yielded then portYIELD k else k) }"

section \<open>Time-outs\<close>

record TimeOut_t =
  xOverflowCount :: "32 word"
  xTimeOnEntering :: "32 word"

definition vTaskInternalSetTimeOutState :: "kernel \<Rightarrow> TimeOut_t" where
  "vTaskInternalSetTimeOutState k = \<lparr>xOverflowCount = xNumOfOverflows k, xTimeOnEntering = xTickCount k\<rparr>"

definition vTaskSetTimeOutState :: "kernel \<Rightarrow> TimeOut_t" where
  "vTaskSetTimeOutState k = \<lparr>xOverflowCount = xNumOfOverflows k, xTimeOnEntering = xTickCount k\<rparr>"

text \<open>Result, time-out state and ticks to wait.\<close>

definition xTaskCheckForTimeOut :: "TimeOut_t \<Rightarrow> 32 word \<Rightarrow> kernel \<Rightarrow> bool \<times> TimeOut_t \<times> 32 word" where
  "xTaskCheckForTimeOut to xTicksToWait k =
     (let now = xTickCount k;
          elapsed = now - xTimeOnEntering to
      in if xTicksToWait = portMAX_DELAY then (False, to, xTicksToWait)
         else if xNumOfOverflows k \<noteq> xOverflowCount to \<and> now \<ge> xTimeOnEntering to then (True, to, 0)
         else if elapsed < xTicksToWait
              then (False, vTaskInternalSetTimeOutState k, xTicksToWait - elapsed)
              else (True, to, 0))"

definition vTaskMissedYield :: "kernel \<Rightarrow> kernel" where
  "vTaskMissedYield k = k\<lparr>xYieldPending := True\<rparr>"

section \<open>Suspension, priorities, deletion\<close>

definition vTaskSuspend :: "nat option \<Rightarrow> kernel \<Rightarrow> kernel option" where
  "vTaskSuspend h k =
     do { t \<leftarrow> prvGetTCBFromHandle h k;
          (n, k) \<leftarrow> uxListRemove (xStateListItem t) k;
          k \<leftarrow> (if n = 0 then taskRESET_READY_PRIORITY (uxPriority k t) k else Some k);
          k \<leftarrow> remove_from_event_list t k;
          let k = vListInsertEnd xSuspendedTaskList (xStateListItem t) k;
          let k = (if ucNotifyState k t = taskWAITING_NOTIFICATION
                   then k\<lparr>ucNotifyState := (ucNotifyState k)(t := taskNOT_WAITING_NOTIFICATION)\<rparr> else k);
          let k = (if xSchedulerRunning k then prvResetNextTaskUnblockTime k else k);
          if pxCurrentTCB k = Some t
          then if xSchedulerRunning k then Some (portYIELD k)
               else if listCURRENT_LIST_LENGTH xSuspendedTaskList k = uxCurrentNumberOfTasks k
                    then Some (k\<lparr>pxCurrentTCB := None\<rparr>)
                    else vTaskSwitchContext k
          else Some k }"

definition prvTaskIsTaskSuspended :: "nat \<Rightarrow> kernel \<Rightarrow> bool" where
  "prvTaskIsTaskSuspended t k \<longleftrightarrow>
     listIS_CONTAINED_WITHIN (Some xSuspendedTaskList) (xStateListItem t) k \<and>
     \<not> listIS_CONTAINED_WITHIN (Some xPendingReadyList) (xEventListItem t) k \<and>
     listIS_CONTAINED_WITHIN None (xEventListItem t) k"

definition vTaskResume :: "nat option \<Rightarrow> kernel \<Rightarrow> kernel option" where
  "vTaskResume h k =
     (case h of
        None \<Rightarrow> Some k
      | Some t \<Rightarrow>
          if pxCurrentTCB k \<noteq> Some t \<and> prvTaskIsTaskSuspended t k
          then do { (_, k) \<leftarrow> uxListRemove (xStateListItem t) k;
                    k \<leftarrow> prvAddTaskToReadyList t k;
                    c \<leftarrow> pxCurrentTCB k;
                    Some (if uxPriority k t \<ge> uxPriority k c then portYIELD k else k) }
          else Some k)"

definition xTaskResumeFromISR :: "nat \<Rightarrow> kernel \<Rightarrow> (bool \<times> kernel) option" where
  "xTaskResumeFromISR t k =
     (if prvTaskIsTaskSuspended t k
      then if uxSchedulerSuspended k = 0
           then do { c \<leftarrow> pxCurrentTCB k;
                     let y = (uxPriority k t \<ge> uxPriority k c);
                     let k = (if y then k\<lparr>xYieldPending := True\<rparr> else k);
                     (_, k) \<leftarrow> uxListRemove (xStateListItem t) k;
                     k \<leftarrow> prvAddTaskToReadyList t k;
                     Some (y, k) }
           else Some (False, vListInsertEnd xPendingReadyList (xEventListItem t) k)
      else Some (False, k))"

text \<open>The event list item holds the complement of the priority unless it is in use for something else.\<close>

definition set_event_value :: "nat \<Rightarrow> nat \<Rightarrow> kernel \<Rightarrow> kernel" where
  "set_event_value t p k =
     (if listGET_LIST_ITEM_VALUE (xEventListItem t) k AND taskEVENT_LIST_ITEM_VALUE_IN_USE = 0
      then listSET_LIST_ITEM_VALUE (xEventListItem t) (of_nat configMAX_PRIORITIES - of_nat p) k else k)"

text \<open>A ready task moves to the list of its new priority.\<close>

definition move_if_ready :: "nat \<Rightarrow> nat \<Rightarrow> nat \<Rightarrow> kernel \<Rightarrow> kernel option" where
  "move_if_ready t old reset k =
     do { l \<leftarrow> pxReadyTasksLists old;
          if listIS_CONTAINED_WITHIN (Some l) (xStateListItem t) k
          then do { k \<leftarrow> remove_and_reset (xStateListItem t) reset k; prvAddTaskToReadyList t k }
          else Some k }"

definition uxTaskPriorityGet :: "nat option \<Rightarrow> kernel \<Rightarrow> nat option" where
  "uxTaskPriorityGet h k = map_option (uxPriority k) (prvGetTCBFromHandle h k)"

definition vTaskPrioritySet :: "nat option \<Rightarrow> nat \<Rightarrow> kernel \<Rightarrow> kernel option" where
  "vTaskPrioritySet h uxNewPriority k =
     do { let new = (if uxNewPriority \<ge> configMAX_PRIORITIES then configMAX_PRIORITIES - 1 else uxNewPriority);
          t \<leftarrow> prvGetTCBFromHandle h k;
          c \<leftarrow> pxCurrentTCB k;
          let base = uxBasePriority k t;
          if base \<noteq> new
          then do {
            let yield = (if new > base then t \<noteq> c \<and> new \<ge> uxPriority k c else t = c);
            let old = uxPriority k t;
            let k = (if uxBasePriority k t = uxPriority k t
                     then k\<lparr>uxPriority := (uxPriority k)(t := new)\<rparr> else k);
            let k = k\<lparr>uxBasePriority := (uxBasePriority k)(t := new)\<rparr>;
            let k = set_event_value t new k;
            k \<leftarrow> move_if_ready t old old k;
            Some (if yield then portYIELD k else k) }
          else Some k }"

text \<open>\<open>prvDeleteTCB\<close> gives the memory of the task back; the model keeps the handle.\<close>

definition vTaskDelete :: "nat option \<Rightarrow> kernel \<Rightarrow> kernel option" where
  "vTaskDelete h k =
     do { t \<leftarrow> prvGetTCBFromHandle h k;
          (n, k) \<leftarrow> uxListRemove (xStateListItem t) k;
          k \<leftarrow> (if n = 0 then taskRESET_READY_PRIORITY (uxPriority k t) k else Some k);
          k \<leftarrow> remove_from_event_list t k;
          let k = k\<lparr>uxTaskNumber := uxTaskNumber k + 1\<rparr>;
          let k = (if pxCurrentTCB k = Some t
                   then (let k = vListInsertEnd xTasksWaitingTermination (xStateListItem t) k
                         in k\<lparr>uxDeletedTasksWaitingCleanUp := uxDeletedTasksWaitingCleanUp k + 1\<rparr>)
                   else prvResetNextTaskUnblockTime (k\<lparr>uxCurrentNumberOfTasks := uxCurrentNumberOfTasks k - 1\<rparr>));
          Some (if xSchedulerRunning k \<and> pxCurrentTCB k = Some t then portYIELD k else k) }"

fun termination_loop :: "nat \<Rightarrow> kernel \<Rightarrow> kernel option" where
  "termination_loop 0 k = Some k"
| "termination_loop (Suc n) k =
     do { t \<leftarrow> listGET_OWNER_OF_HEAD_ENTRY xTasksWaitingTermination k;
          (_, k) \<leftarrow> uxListRemove (xStateListItem t) k;
          termination_loop n (k\<lparr>uxCurrentNumberOfTasks := uxCurrentNumberOfTasks k - 1,
                                uxDeletedTasksWaitingCleanUp := uxDeletedTasksWaitingCleanUp k - 1\<rparr>) }"

definition prvCheckTasksWaitingTermination :: "kernel \<Rightarrow> kernel option" where
  "prvCheckTasksWaitingTermination k = termination_loop (unat (uxDeletedTasksWaitingCleanUp k)) k"

datatype eTaskState = eRunning | eReady | eBlocked | eSuspended | eDeleted | eInvalid

definition eTaskGetState :: "nat \<Rightarrow> kernel \<Rightarrow> eTaskState" where
  "eTaskGetState t k =
     (if pxCurrentTCB k = Some t then eRunning
      else let l = listLIST_ITEM_CONTAINER (xStateListItem t) k
           in if l = Some (pxDelayedTaskList k) \<or> l = Some (pxOverflowDelayedTaskList k) then eBlocked
              else if l = Some xSuspendedTaskList
                   then if listLIST_ITEM_CONTAINER (xEventListItem t) k = None
                        then if ucNotifyState k t = taskWAITING_NOTIFICATION then eBlocked else eSuspended
                        else eBlocked
              else if l = Some xTasksWaitingTermination \<or> l = None then eDeleted
              else eReady)"

section \<open>Event lists\<close>

definition vTaskPlaceOnEventList :: "klist \<Rightarrow> 32 word \<Rightarrow> kernel \<Rightarrow> kernel option" where
  "vTaskPlaceOnEventList l xTicksToWait k =
     do { c \<leftarrow> pxCurrentTCB k;
          k \<leftarrow> vListInsert l (xEventListItem c) k;
          prvAddCurrentTaskToDelayedList xTicksToWait True k }"

definition vTaskPlaceOnUnorderedEventList :: "klist \<Rightarrow> 32 word \<Rightarrow> 32 word \<Rightarrow> kernel \<Rightarrow> kernel option" where
  "vTaskPlaceOnUnorderedEventList l v xTicksToWait k =
     do { c \<leftarrow> pxCurrentTCB k;
          let k = listSET_LIST_ITEM_VALUE (xEventListItem c) (v OR taskEVENT_LIST_ITEM_VALUE_IN_USE) k;
          let k = listINSERT_END l (xEventListItem c) k;
          prvAddCurrentTaskToDelayedList xTicksToWait True k }"

definition vTaskPlaceOnEventListRestricted :: "klist \<Rightarrow> 32 word \<Rightarrow> bool \<Rightarrow> kernel \<Rightarrow> kernel option" where
  "vTaskPlaceOnEventListRestricted l xTicksToWait xWaitIndefinitely k =
     do { c \<leftarrow> pxCurrentTCB k;
          let k = listINSERT_END l (xEventListItem c) k;
          let xTicksToWait = (if xWaitIndefinitely then portMAX_DELAY else xTicksToWait);
          prvAddCurrentTaskToDelayedList xTicksToWait xWaitIndefinitely k }"

definition xTaskRemoveFromEventList :: "klist \<Rightarrow> kernel \<Rightarrow> (bool \<times> kernel) option" where
  "xTaskRemoveFromEventList l k =
     do { t \<leftarrow> listGET_OWNER_OF_HEAD_ENTRY l k;
          k \<leftarrow> listREMOVE_ITEM (xEventListItem t) k;
          k \<leftarrow> (if uxSchedulerSuspended k = 0
                then do { k \<leftarrow> listREMOVE_ITEM (xStateListItem t) k; prvAddTaskToReadyList t k }
                else Some (listINSERT_END xPendingReadyList (xEventListItem t) k));
          c \<leftarrow> pxCurrentTCB k;
          Some (if uxPriority k t > uxPriority k c then (True, k\<lparr>xYieldPending := True\<rparr>) else (False, k)) }"

definition vTaskRemoveFromUnorderedEventList :: "kitem \<Rightarrow> 32 word \<Rightarrow> kernel \<Rightarrow> kernel option" where
  "vTaskRemoveFromUnorderedEventList i v k =
     do { let k = listSET_LIST_ITEM_VALUE i (v OR taskEVENT_LIST_ITEM_VALUE_IN_USE) k;
          let t = listGET_LIST_ITEM_OWNER i k;
          k \<leftarrow> listREMOVE_ITEM i k;
          k \<leftarrow> listREMOVE_ITEM (xStateListItem t) k;
          k \<leftarrow> prvAddTaskToReadyList t k;
          c \<leftarrow> pxCurrentTCB k;
          Some (if uxPriority k t > uxPriority k c then k\<lparr>xYieldPending := True\<rparr> else k) }"

definition uxTaskResetEventItemValue :: "kernel \<Rightarrow> (32 word \<times> kernel) option" where
  "uxTaskResetEventItemValue k =
     do { c \<leftarrow> pxCurrentTCB k;
          Some (listGET_LIST_ITEM_VALUE (xEventListItem c) k,
                listSET_LIST_ITEM_VALUE (xEventListItem c) (of_nat configMAX_PRIORITIES - of_nat (uxPriority k c)) k) }"

section \<open>Priority inheritance\<close>

definition pvTaskIncrementMutexHeldCount :: "kernel \<Rightarrow> nat option \<times> kernel" where
  "pvTaskIncrementMutexHeldCount k =
     (pxCurrentTCB k,
      (case pxCurrentTCB k of
         None \<Rightarrow> k
       | Some c \<Rightarrow> k\<lparr>uxMutexesHeld := (uxMutexesHeld k)(c := uxMutexesHeld k c + 1)\<rparr>))"

definition xTaskPriorityInherit :: "nat option \<Rightarrow> kernel \<Rightarrow> (bool \<times> kernel) option" where
  "xTaskPriorityInherit holder k =
     (case holder of
        None \<Rightarrow> Some (False, k)
      | Some t \<Rightarrow> do {
          c \<leftarrow> pxCurrentTCB k;
          if uxPriority k t < uxPriority k c
          then do {
            let k = set_event_value t (uxPriority k c) k;
            let inherit = (\<lambda>k. k\<lparr>uxPriority := (uxPriority k)(t := uxPriority k c)\<rparr>);
            l \<leftarrow> pxReadyTasksLists (uxPriority k t);
            k \<leftarrow> (if listIS_CONTAINED_WITHIN (Some l) (xStateListItem t) k
                  then do { k \<leftarrow> remove_and_reset (xStateListItem t) (uxPriority k t) k;
                            prvAddTaskToReadyList t (inherit k) }
                  else Some (inherit k));
            Some (True, k) }
          else Some (uxBasePriority k t < uxPriority k c, k) })"

definition xTaskPriorityDisinherit :: "nat option \<Rightarrow> kernel \<Rightarrow> (bool \<times> kernel) option" where
  "xTaskPriorityDisinherit holder k =
     (case holder of
        None \<Rightarrow> Some (False, k)
      | Some t \<Rightarrow> do {
          let k = k\<lparr>uxMutexesHeld := (uxMutexesHeld k)(t := uxMutexesHeld k t - 1)\<rparr>;
          if uxPriority k t \<noteq> uxBasePriority k t \<and> uxMutexesHeld k t = 0
          then do {
            k \<leftarrow> remove_and_reset (xStateListItem t) (uxPriority k t) k;
            let k = k\<lparr>uxPriority := (uxPriority k)(t := uxBasePriority k t)\<rparr>;
            let k = listSET_LIST_ITEM_VALUE (xEventListItem t) (of_nat configMAX_PRIORITIES - of_nat (uxPriority k t)) k;
            k \<leftarrow> prvAddTaskToReadyList t k;
            Some (True, k) }
          else Some (False, k) })"

text \<open>The priority whose bit is cleared is read after it has been changed.\<close>

definition vTaskPriorityDisinheritAfterTimeout :: "nat option \<Rightarrow> nat \<Rightarrow> kernel \<Rightarrow> kernel option" where
  "vTaskPriorityDisinheritAfterTimeout holder uxHighestPriorityWaitingTask k =
     (case holder of
        None \<Rightarrow> Some k
      | Some t \<Rightarrow>
          let use = (if uxBasePriority k t < uxHighestPriorityWaitingTask then uxHighestPriorityWaitingTask
                     else uxBasePriority k t)
          in if uxPriority k t \<noteq> use \<and> uxMutexesHeld k t = 1
             then let old = uxPriority k t;
                      k = k\<lparr>uxPriority := (uxPriority k)(t := use)\<rparr>;
                      k = set_event_value t use k
                  in move_if_ready t old (uxPriority k t) k
             else Some k)"

section \<open>Notifications\<close>

datatype eNotifyAction = eNoAction | eSetBits | eIncrement | eSetValueWithOverwrite | eSetValueWithoutOverwrite

text \<open>The part of the take and wait functions up to the point where the task may block, and the part it
  runs when it continues.\<close>

definition notify_block :: "32 word \<Rightarrow> kernel \<Rightarrow> kernel option" where
  "notify_block xTicksToWait k =
     (if xTicksToWait > 0
      then do { k \<leftarrow> prvAddCurrentTaskToDelayedList xTicksToWait True k; Some (portYIELD k) }
      else Some k)"

definition ulTaskGenericNotifyTake_enter :: "32 word \<Rightarrow> kernel \<Rightarrow> kernel option" where
  "ulTaskGenericNotifyTake_enter xTicksToWait k =
     do { c \<leftarrow> pxCurrentTCB k;
          if ulNotifiedValue k c = 0
          then notify_block xTicksToWait (k\<lparr>ucNotifyState := (ucNotifyState k)(c := taskWAITING_NOTIFICATION)\<rparr>)
          else Some k }"

definition ulTaskGenericNotifyTake_leave :: "bool \<Rightarrow> kernel \<Rightarrow> (32 word \<times> kernel) option" where
  "ulTaskGenericNotifyTake_leave xClearCountOnExit k =
     do { c \<leftarrow> pxCurrentTCB k;
          let ret = ulNotifiedValue k c;
          let k = (if ret \<noteq> 0
                   then k\<lparr>ulNotifiedValue := (ulNotifiedValue k)(c := (if xClearCountOnExit then 0 else ret - 1))\<rparr>
                   else k);
          Some (ret, k\<lparr>ucNotifyState := (ucNotifyState k)(c := taskNOT_WAITING_NOTIFICATION)\<rparr>) }"

definition xTaskGenericNotifyWait_enter :: "32 word \<Rightarrow> 32 word \<Rightarrow> kernel \<Rightarrow> kernel option" where
  "xTaskGenericNotifyWait_enter ulBitsToClearOnEntry xTicksToWait k =
     do { c \<leftarrow> pxCurrentTCB k;
          if ucNotifyState k c \<noteq> taskNOTIFICATION_RECEIVED
          then let k = k\<lparr>ulNotifiedValue := (ulNotifiedValue k)(c := ulNotifiedValue k c AND NOT ulBitsToClearOnEntry)\<rparr>
               in notify_block xTicksToWait (k\<lparr>ucNotifyState := (ucNotifyState k)(c := taskWAITING_NOTIFICATION)\<rparr>)
          else Some k }"

definition xTaskGenericNotifyWait_leave :: "32 word \<Rightarrow> kernel \<Rightarrow> (bool \<times> 32 word \<times> kernel) option" where
  "xTaskGenericNotifyWait_leave ulBitsToClearOnExit k =
     do { c \<leftarrow> pxCurrentTCB k;
          let val = ulNotifiedValue k c;
          let received = (ucNotifyState k c = taskNOTIFICATION_RECEIVED);
          let k = (if received then k\<lparr>ulNotifiedValue := (ulNotifiedValue k)(c := val AND NOT ulBitsToClearOnExit)\<rparr> else k);
          Some (received, val, k\<lparr>ucNotifyState := (ucNotifyState k)(c := taskNOT_WAITING_NOTIFICATION)\<rparr>) }"

text \<open>The update of the notified task, shared by the task and the interrupt version: result and new value.\<close>

definition notify_value :: "eNotifyAction \<Rightarrow> 32 word \<Rightarrow> 8 word \<Rightarrow> 32 word \<Rightarrow> bool \<times> 32 word" where
  "notify_value eAction ulValue original v =
     (case eAction of
        eSetBits \<Rightarrow> (True, v OR ulValue)
      | eIncrement \<Rightarrow> (True, v + 1)
      | eSetValueWithOverwrite \<Rightarrow> (True, ulValue)
      | eSetValueWithoutOverwrite \<Rightarrow> (if original \<noteq> taskNOTIFICATION_RECEIVED then (True, ulValue) else (False, v))
      | eNoAction \<Rightarrow> (True, v))"

definition xTaskGenericNotify :: "nat \<Rightarrow> 32 word \<Rightarrow> eNotifyAction \<Rightarrow> kernel \<Rightarrow> (bool \<times> 32 word \<times> kernel) option" where
  "xTaskGenericNotify t ulValue eAction k =
     do { let previous = ulNotifiedValue k t;
          let original = ucNotifyState k t;
          let k = k\<lparr>ucNotifyState := (ucNotifyState k)(t := taskNOTIFICATION_RECEIVED)\<rparr>;
          let (ret, v) = notify_value eAction ulValue original (ulNotifiedValue k t);
          let k = k\<lparr>ulNotifiedValue := (ulNotifiedValue k)(t := v)\<rparr>;
          k \<leftarrow> (if original = taskWAITING_NOTIFICATION
                then do { k \<leftarrow> listREMOVE_ITEM (xStateListItem t) k;
                          k \<leftarrow> prvAddTaskToReadyList t k;
                          c \<leftarrow> pxCurrentTCB k;
                          Some (if uxPriority k t > uxPriority k c then portYIELD k else k) }
                else Some k);
          Some (ret, previous, k) }"

text \<open>The wake-up part of the two interrupt versions; the flag is \<open>*pxHigherPriorityTaskWoken\<close>.\<close>

definition notify_wake_from_isr :: "nat \<Rightarrow> 8 word \<Rightarrow> kernel \<Rightarrow> (bool \<times> kernel) option" where
  "notify_wake_from_isr t original k =
     (if original = taskWAITING_NOTIFICATION
      then do { k \<leftarrow> (if uxSchedulerSuspended k = 0
                      then do { k \<leftarrow> listREMOVE_ITEM (xStateListItem t) k; prvAddTaskToReadyList t k }
                      else Some (listINSERT_END xPendingReadyList (xEventListItem t) k));
                c \<leftarrow> pxCurrentTCB k;
                Some (if uxPriority k t > uxPriority k c then (True, k\<lparr>xYieldPending := True\<rparr>) else (False, k)) }
      else Some (False, k))"

definition xTaskGenericNotifyFromISR ::
    "nat \<Rightarrow> 32 word \<Rightarrow> eNotifyAction \<Rightarrow> kernel \<Rightarrow> (bool \<times> 32 word \<times> bool \<times> kernel) option" where
  "xTaskGenericNotifyFromISR t ulValue eAction k =
     do { let previous = ulNotifiedValue k t;
          let original = ucNotifyState k t;
          let k = k\<lparr>ucNotifyState := (ucNotifyState k)(t := taskNOTIFICATION_RECEIVED)\<rparr>;
          let (ret, v) = notify_value eAction ulValue original (ulNotifiedValue k t);
          let k = k\<lparr>ulNotifiedValue := (ulNotifiedValue k)(t := v)\<rparr>;
          (woken, k) \<leftarrow> notify_wake_from_isr t original k;
          Some (ret, previous, woken, k) }"

definition vTaskGenericNotifyGiveFromISR :: "nat \<Rightarrow> kernel \<Rightarrow> (bool \<times> kernel) option" where
  "vTaskGenericNotifyGiveFromISR t k =
     do { let original = ucNotifyState k t;
          let k = k\<lparr>ucNotifyState := (ucNotifyState k)(t := taskNOTIFICATION_RECEIVED)\<rparr>;
          let k = k\<lparr>ulNotifiedValue := (ulNotifiedValue k)(t := ulNotifiedValue k t + 1)\<rparr>;
          notify_wake_from_isr t original k }"

definition xTaskGenericNotifyStateClear :: "nat option \<Rightarrow> kernel \<Rightarrow> (bool \<times> kernel) option" where
  "xTaskGenericNotifyStateClear h k =
     do { t \<leftarrow> prvGetTCBFromHandle h k;
          Some (if ucNotifyState k t = taskNOTIFICATION_RECEIVED
                then (True, k\<lparr>ucNotifyState := (ucNotifyState k)(t := taskNOT_WAITING_NOTIFICATION)\<rparr>)
                else (False, k)) }"

definition ulTaskGenericNotifyValueClear :: "nat option \<Rightarrow> 32 word \<Rightarrow> kernel \<Rightarrow> (32 word \<times> kernel) option" where
  "ulTaskGenericNotifyValueClear h ulBitsToClear k =
     do { t \<leftarrow> prvGetTCBFromHandle h k;
          Some (ulNotifiedValue k t,
                k\<lparr>ulNotifiedValue := (ulNotifiedValue k)(t := ulNotifiedValue k t AND NOT ulBitsToClear)\<rparr>) }"

end
