(* ===== verification/FRSched.thy ===== *)
theory FRSched
  imports FRTask
begin

text \<open>
  Correctness of the scheduler: the invariant of its lists, ready bitmap, delay lists and current
  task, its preservation by ticks, context switches and the task-level operations, and what the
  invariant means for tasks: the highest ready priority runs, and a delay ends at its tick.
\<close>

section \<open>The invariant\<close>

definition live :: "nat set \<Rightarrow> klist set" where
  "live E = Ready ` {..<configMAX_PRIORITIES} \<union>
     {xDelayedTaskList1, xDelayedTaskList2, xPendingReadyList, xTasksWaitingTermination, xSuspendedTaskList} \<union>
     EventList ` E"

definition items :: "nat set \<Rightarrow> kitem set" where
  "items T = xStateListItem ` T \<union> xEventListItem ` T"

abbreviation state_list :: "kernel \<Rightarrow> nat \<Rightarrow> klist option" where
  "state_list k t \<equiv> pxContainer k (xStateListItem t)"

abbreviation event_list :: "kernel \<Rightarrow> nat \<Rightarrow> klist option" where
  "event_list k t \<equiv> pxContainer k (xEventListItem t)"

abbreviation wake_time :: "kernel \<Rightarrow> nat \<Rightarrow> 32 word" where
  "wake_time k t \<equiv> xItemValue k (ListItem (xStateListItem t))"

definition is_ready :: "kernel \<Rightarrow> nat \<Rightarrow> bool" where
  "is_ready k t \<longleftrightarrow> state_list k t = Some (Ready (uxPriority k t))"

text \<open>Which items a list may hold.\<close>

fun placed :: "kernel \<Rightarrow> klist \<Rightarrow> kitem \<Rightarrow> bool" where
  "placed k (Ready p) i = (\<exists>t. i = xStateListItem t \<and> uxPriority k t = p)"
| "placed k xPendingReadyList i = (\<exists>t. i = xEventListItem t)"
| "placed k (EventList e) i = (\<exists>t. i = xEventListItem t)"
| "placed k _ i = (\<exists>t. i = xStateListItem t)"

definition lists_inv :: "nat set \<Rightarrow> nat set \<Rightarrow> kernel \<Rightarrow> bool" where
  "lists_inv T E k \<longleftrightarrow> wf_lists (items T) (live E) k \<and>
     (\<forall>i l. pxContainer k i = Some l \<longrightarrow> placed k l i) \<and>
     (\<forall>t\<in>T. pvOwner k (xStateListItem t) = t \<and> pvOwner k (xEventListItem t) = t \<and>
        uxPriority k t < configMAX_PRIORITIES \<and> uxBasePriority k t < configMAX_PRIORITIES) \<and>
     (\<forall>t. event_list k t \<noteq> None \<longrightarrow> \<not> is_ready k t)"

text \<open>While the running task \<open>c\<close> goes to sleep its event list item is linked first.\<close>

definition lists_inv_but :: "nat \<Rightarrow> nat set \<Rightarrow> nat set \<Rightarrow> kernel \<Rightarrow> bool" where
  "lists_inv_but c T E k \<longleftrightarrow> wf_lists (items T) (live E) k \<and>
     (\<forall>i l. pxContainer k i = Some l \<longrightarrow> placed k l i) \<and>
     (\<forall>t\<in>T. pvOwner k (xStateListItem t) = t \<and> pvOwner k (xEventListItem t) = t \<and>
        uxPriority k t < configMAX_PRIORITIES \<and> uxBasePriority k t < configMAX_PRIORITIES) \<and>
     (\<forall>t. t \<noteq> c \<longrightarrow> event_list k t \<noteq> None \<longrightarrow> \<not> is_ready k t)"

definition bitmap_inv :: "kernel \<Rightarrow> bool" where
  "bitmap_inv k \<longleftrightarrow> (\<forall>p. bit (uxTopReadyPriority k) p \<longleftrightarrow> (\<exists>i. pxContainer k i = Some (Ready p)))"

definition delay_inv :: "kernel \<Rightarrow> bool" where
  "delay_inv k \<longleftrightarrow>
     (pxDelayedTaskList k = xDelayedTaskList1 \<and> pxOverflowDelayedTaskList k = xDelayedTaskList2 \<or>
      pxDelayedTaskList k = xDelayedTaskList2 \<and> pxOverflowDelayedTaskList k = xDelayedTaskList1) \<and>
     sorted_list k xDelayedTaskList1 \<and> sorted_list k xDelayedTaskList2 \<and>
     (\<forall>i. pxContainer k i = Some (pxDelayedTaskList k) \<longrightarrow>
        xTickCount k < item_value k i \<and> xNextTaskUnblockTime k \<le> item_value k i) \<and>
     (\<forall>i. pxContainer k i = Some (pxOverflowDelayedTaskList k) \<longrightarrow> item_value k i < xTickCount k)"

definition core_inv :: "nat \<Rightarrow> nat set \<Rightarrow> nat set \<Rightarrow> kernel \<Rightarrow> bool" where
  "core_inv idle T E k \<longleftrightarrow> lists_inv T E k \<and> bitmap_inv k \<and> delay_inv k \<and>
     (\<forall>t\<in>T. state_list k t \<noteq> None) \<and> idle \<in> T \<and> is_ready k idle \<and>
     (\<exists>c\<in>T. pxCurrentTCB k = Some c) \<and> xSchedulerRunning k \<and> uxCurrentNumberOfTasks k = of_nat (card T)"

definition core_inv_but :: "nat \<Rightarrow> nat \<Rightarrow> nat set \<Rightarrow> nat set \<Rightarrow> kernel \<Rightarrow> bool" where
  "core_inv_but c idle T E k \<longleftrightarrow> lists_inv_but c T E k \<and> bitmap_inv k \<and> delay_inv k \<and>
     (\<forall>t\<in>T. state_list k t \<noteq> None) \<and> idle \<in> T \<and> is_ready k idle \<and>
     c \<in> T \<and> pxCurrentTCB k = Some c \<and> xSchedulerRunning k \<and> uxCurrentNumberOfTasks k = of_nat (card T)"

text \<open>A ready task of a higher priority than the running one implies that a switch is on its way.\<close>

definition prio_inv :: "kernel \<Rightarrow> bool" where
  "prio_inv k \<longleftrightarrow> (\<forall>c t. pxCurrentTCB k = Some c \<and> is_ready k t \<and> uxPriority k c < uxPriority k t \<longrightarrow>
     pendsv k \<or> xYieldPending k)"

text \<open>Unless a switch is about to happen the running task is ready.\<close>

definition run_inv :: "kernel \<Rightarrow> bool" where
  "run_inv k \<longleftrightarrow> (\<not> pendsv k \<or> uxSchedulerSuspended k \<noteq> 0 \<longrightarrow> (\<forall>c. pxCurrentTCB k = Some c \<longrightarrow> is_ready k c))"

text \<open>Tasks and ticks are held back only while the scheduler is suspended.\<close>

definition susp_inv :: "kernel \<Rightarrow> bool" where
  "susp_inv k \<longleftrightarrow> (uxSchedulerSuspended k = 0 \<longrightarrow>
     (\<forall>i. pxContainer k i \<noteq> Some xPendingReadyList) \<and> xPendedTicks k = 0)"

definition kernel_ok :: "nat \<Rightarrow> nat set \<Rightarrow> nat set \<Rightarrow> kernel \<Rightarrow> bool" where
  "kernel_ok idle T E k \<longleftrightarrow> core_inv idle T E k \<and> prio_inv k \<and> run_inv k \<and> susp_inv k"

section \<open>Steps on the lists of the kernel\<close>

text \<open>Changes confined to list pointers and the ready bitmap that leave the delay lists in order.\<close>

definition kstep :: "kernel \<Rightarrow> kernel \<Rightarrow> bool" where
  "kstep k k' \<longleftrightarrow>
     k' = k\<lparr>pxNext := pxNext k', pxPrevious := pxPrevious k', pxContainer := pxContainer k',
            uxNumberOfItems := uxNumberOfItems k', pxIndex := pxIndex k',
            uxTopReadyPriority := uxTopReadyPriority k'\<rparr> \<and>
     (\<forall>l\<in>{xDelayedTaskList1, xDelayedTaskList2}. sorted_list k l \<longrightarrow> sorted_list k' l)"

lemma kstep_refl [simp]: "kstep k k"
  by (simp add: kstep_def)

lemma kstep_trans: "kstep k k' \<Longrightarrow> kstep k' k'' \<Longrightarrow> kstep k k''"
  unfolding kstep_def by (cases k; cases k'; cases k'') simp

lemma kstep_fields:
  assumes "kstep k k'"
  shows "xItemValue k' = xItemValue k" "pvOwner k' = pvOwner k" "uxPriority k' = uxPriority k"
    "uxBasePriority k' = uxBasePriority k" "uxMutexesHeld k' = uxMutexesHeld k"
    "ulNotifiedValue k' = ulNotifiedValue k" "ucNotifyState k' = ucNotifyState k" "pxCurrentTCB k' = pxCurrentTCB k"
    "pxDelayedTaskList k' = pxDelayedTaskList k" "pxOverflowDelayedTaskList k' = pxOverflowDelayedTaskList k"
    "uxDeletedTasksWaitingCleanUp k' = uxDeletedTasksWaitingCleanUp k"
    "uxCurrentNumberOfTasks k' = uxCurrentNumberOfTasks k" "xTickCount k' = xTickCount k"
    "xSchedulerRunning k' = xSchedulerRunning k" "xPendedTicks k' = xPendedTicks k" "xYieldPending k' = xYieldPending k"
    "xNumOfOverflows k' = xNumOfOverflows k" "uxTaskNumber k' = uxTaskNumber k"
    "xNextTaskUnblockTime k' = xNextTaskUnblockTime k" "uxSchedulerSuspended k' = uxSchedulerSuspended k"
    "pendsv k' = pendsv k"
  using assms unfolding kstep_def by (cases k; cases k'; simp)+

lemma kstep_sorted:
  "kstep k k' \<Longrightarrow> sorted_list k xDelayedTaskList1 \<Longrightarrow> sorted_list k' xDelayedTaskList1"
  "kstep k k' \<Longrightarrow> sorted_list k xDelayedTaskList2 \<Longrightarrow> sorted_list k' xDelayedTaskList2"
  unfolding kstep_def by simp_all

lemma kstep_list_step:
  assumes "list_step k k'" "\<And>l. l \<in> {xDelayedTaskList1, xDelayedTaskList2} \<Longrightarrow> sorted_list k l \<Longrightarrow> sorted_list k' l"
  shows "kstep k k'" "uxTopReadyPriority k' = uxTopReadyPriority k"
proof -
  show t: "uxTopReadyPriority k' = uxTopReadyPriority k"
    using assms(1) unfolding list_step_def by (cases k; cases k') simp
  have "k' = k\<lparr>pxNext := pxNext k', pxPrevious := pxPrevious k', pxContainer := pxContainer k',
            uxNumberOfItems := uxNumberOfItems k', pxIndex := pxIndex k',
            uxTopReadyPriority := uxTopReadyPriority k'\<rparr>"
    using assms(1) t unfolding list_step_def by (cases k; cases k') simp
  then show "kstep k k'" using assms(2) unfolding kstep_def by blast
qed

lemma list_view_top [simp]: "list_view (k\<lparr>uxTopReadyPriority := w\<rparr>) l xs \<longleftrightarrow> list_view k l xs"
  by (simp add: list_view_def)

lemma kstep_top: "kstep k (k\<lparr>uxTopReadyPriority := w\<rparr>)"
  by (simp add: kstep_def sorted_list_def)

text \<open>Facts that depend on the list structure and the priorities only.\<close>

lemma list_view_same:
  assumes "pxNext k' = pxNext k" "pxPrevious k' = pxPrevious k" "pxContainer k' = pxContainer k"
    "uxNumberOfItems k' = uxNumberOfItems k" "pxIndex k' = pxIndex k" "xItemValue k' = xItemValue k"
  shows "list_view k' = list_view k"
  by (intro ext) (simp add: list_view_def assms)

lemma lists_inv_same:
  assumes "pxNext k' = pxNext k" "pxPrevious k' = pxPrevious k" "pxContainer k' = pxContainer k"
    "uxNumberOfItems k' = uxNumberOfItems k" "pxIndex k' = pxIndex k" "xItemValue k' = xItemValue k"
    "pvOwner k' = pvOwner k" "uxPriority k' = uxPriority k" "uxBasePriority k' = uxBasePriority k"
  shows "lists_inv T E k' \<longleftrightarrow> lists_inv T E k"
proof -
  have p: "placed k' l i = placed k l i" for l i by (cases l) (simp_all add: assms)
  show ?thesis
    unfolding lists_inv_def wf_lists_def list_view_same[OF assms(1-6)] is_ready_def p assms ..
qed

lemma lists_invD:
  assumes "lists_inv T E k"
  shows "wf_lists (items T) (live E) k" "pxContainer k i = Some l \<Longrightarrow> placed k l i"
    "t \<in> T \<Longrightarrow> pvOwner k (xStateListItem t) = t" "t \<in> T \<Longrightarrow> pvOwner k (xEventListItem t) = t"
    "t \<in> T \<Longrightarrow> uxPriority k t < configMAX_PRIORITIES" "t \<in> T \<Longrightarrow> uxBasePriority k t < configMAX_PRIORITIES"
    "event_list k t \<noteq> None \<Longrightarrow> \<not> is_ready k t"
  using assms unfolding lists_inv_def by blast+

lemma lists_inv_owner:
  assumes "lists_inv T E k" "pxContainer k i = Some l"
  shows "i = xStateListItem t \<Longrightarrow> t \<in> T" "i = xEventListItem t \<Longrightarrow> t \<in> T" "l \<in> live E"
  using wf_listsD(2,3)[OF lists_invD(1)[OF assms(1)] assms(2)] by (auto simp: items_def)

lemma live_simps [simp]:
  "xDelayedTaskList1 \<in> live E" "xDelayedTaskList2 \<in> live E" "xPendingReadyList \<in> live E"
  "xTasksWaitingTermination \<in> live E" "xSuspendedTaskList \<in> live E"
  "Ready p \<in> live E \<longleftrightarrow> p < configMAX_PRIORITIES" "EventList e \<in> live E \<longleftrightarrow> e \<in> E"
  by (auto simp: live_def)

lemma items_simps [simp]: "xStateListItem t \<in> items T \<longleftrightarrow> t \<in> T" "xEventListItem t \<in> items T \<longleftrightarrow> t \<in> T"
  by (auto simp: items_def)

lemma card_items: "finite T \<Longrightarrow> card (items T) = 2 * card T"
proof -
  assume f: "finite T"
  have "card (xStateListItem ` T \<union> xEventListItem ` T) = card (xStateListItem ` T) + card (xEventListItem ` T)"
    using f by (intro card_Un_disjoint) auto
  moreover have "card (xStateListItem ` T) = card T" "card (xEventListItem ` T) = card T"
    by (intro card_image inj_onI; simp)+
  ultimately show ?thesis by (simp add: items_def)
qed

lemma placed_kstep: "kstep k k' \<Longrightarrow> placed k' l i = placed k l i"
  by (cases l) (simp_all add: kstep_fields)

text \<open>Rebuilding the invariant after a list operation.\<close>

lemma lists_inv_kstep:
  assumes "lists_inv T E k" "kstep k k'" "wf_lists (items T) (live E) k'"
    and "\<And>i l. pxContainer k' i = Some l \<Longrightarrow> placed k l i"
    and "\<And>t. event_list k' t \<noteq> None \<Longrightarrow> state_list k' t \<noteq> Some (Ready (uxPriority k t))"
  shows "lists_inv T E k'"
  using assms(1,3-5) kstep_fields[OF assms(2)] placed_kstep[OF assms(2)]
  by (simp add: lists_inv_def is_ready_def)

lemma wf_lists_top [simp]: "wf_lists I L (k\<lparr>uxTopReadyPriority := w\<rparr>) = wf_lists I L k"
  by (simp add: wf_lists_def)

lemma lists_inv_but_weak: "lists_inv T E k \<Longrightarrow> lists_inv_but c T E k"
  by (simp add: lists_inv_def lists_inv_but_def)

lemma core_inv_but_weak: "core_inv idle T E k \<Longrightarrow> pxCurrentTCB k = Some c \<Longrightarrow> core_inv_but c idle T E k"
  by (auto simp: core_inv_def core_inv_but_def lists_inv_but_weak)

lemma lists_inv_butI: "lists_inv_but c T E k \<Longrightarrow> event_list k c = None \<or> \<not> is_ready k c \<Longrightarrow> lists_inv T E k"
  unfolding lists_inv_def lists_inv_but_def by metis

lemma lists_inv_but_top: "lists_inv_but c T E (reset_ready_priority p k) \<longleftrightarrow> lists_inv_but c T E k"
proof -
  have "placed (reset_ready_priority p k) l i = placed k l i" for l i by (cases l) (simp_all add: reset_ready_priority_def)
  then show ?thesis by (simp add: lists_inv_but_def is_ready_def) (simp add: reset_ready_priority_def)
qed

lemma remove_any_but:
  assumes inv: "lists_inv_but u T E k" and c: "pxContainer k i = Some l"
  shows "\<exists>n k'. uxListRemove i k = Some (n, k') \<and> listREMOVE_ITEM i k = Some k' \<and> lists_inv_but u T E k' \<and> kstep k k' \<and>
    uxTopReadyPriority k' = uxTopReadyPriority k \<and> pxContainer k' = (pxContainer k)(i := None) \<and>
    (n = 0 \<longleftrightarrow> (\<forall>j. pxContainer k' j \<noteq> Some l))"
proof -
  obtain n k' where r: "uxListRemove i k = Some (n, k')" "wf_lists (items T) (live E) k'" "list_step k k'"
    "pxContainer k' = (pxContainer k)(i := None)" "only_list l k k'" "sorted_list k l \<longrightarrow> sorted_list k' l"
    "n = 0 \<longleftrightarrow> (\<forall>j. pxContainer k' j \<noteq> Some l)"
    using take_out[OF _ c] inv unfolding lists_inv_but_def by blast
  have st: "kstep k k'" "uxTopReadyPriority k' = uxTopReadyPriority k"
    by (rule kstep_list_step[OF r(3)]; metis r(5,6) sorted_list_other list_step_fields(1)[OF r(3)])+
  have "lists_inv_but u T E k'"
    using inv r(2,4) unfolding lists_inv_but_def is_ready_def kstep_fields[OF st(1)] placed_kstep[OF st(1)]
    by (simp split: if_splits)
  then show ?thesis using r(1,4,7) st unfolding listREMOVE_ITEM_eq by simp
qed

lemma lists_inv_shrink:
  assumes "lists_inv T E k" "lists_inv_but u T E k'" "kstep k k'" "pxContainer k' = (pxContainer k)(i := None)"
  shows "lists_inv T E k'"
  by (rule lists_inv_butI[OF assms(2)])
     (use assms(1,4) kstep_fields(3)[OF assms(3)] in \<open>auto simp: lists_inv_def is_ready_def\<close>)

lemma remove_any:
  assumes inv: "lists_inv T E k" and c: "pxContainer k i = Some l"
  shows "\<exists>n k'. uxListRemove i k = Some (n, k') \<and> listREMOVE_ITEM i k = Some k' \<and> lists_inv T E k' \<and> kstep k k' \<and>
    uxTopReadyPriority k' = uxTopReadyPriority k \<and> pxContainer k' = (pxContainer k)(i := None) \<and>
    (n = 0 \<longleftrightarrow> (\<forall>j. pxContainer k' j \<noteq> Some l))"
  using remove_any_but[OF lists_inv_but_weak[OF inv] c] lists_inv_shrink[OF inv] by blast

lemma bitmap_inv_same:
  assumes "bitmap_inv k" "uxTopReadyPriority k' = uxTopReadyPriority k"
    and "\<And>p. (\<exists>i. pxContainer k' i = Some (Ready p)) \<longleftrightarrow> (\<exists>i. pxContainer k i = Some (Ready p))"
  shows "bitmap_inv k'"
  using assms by (simp add: bitmap_inv_def)

lemma remove_unready:
  assumes inv: "lists_inv T E k" "bitmap_inv k" and c: "pxContainer k i = Some l" "\<And>p. l \<noteq> Ready p"
  shows "\<exists>k'. listREMOVE_ITEM i k = Some k' \<and> lists_inv T E k' \<and> bitmap_inv k' \<and> kstep k k' \<and>
    pxContainer k' = (pxContainer k)(i := None)"
proof -
  obtain n k' where r: "listREMOVE_ITEM i k = Some k'" "lists_inv T E k'" "kstep k k'"
    "uxTopReadyPriority k' = uxTopReadyPriority k" "pxContainer k' = (pxContainer k)(i := None)"
    using remove_any[OF inv(1) c(1)] by (elim exE conjE) (rule that)
  have "pxContainer k' j = Some (Ready p) \<longleftrightarrow> pxContainer k j = Some (Ready p)" for j p using r(5) c by auto
  then have "bitmap_inv k'" by (intro bitmap_inv_same[OF inv(2) r(4)]) simp
  then show ?thesis using r by blast
qed

text \<open>Bits of the ready bitmap.\<close>

lemma bit_record: "bit (portRECORD_READY_PRIORITY p w) q \<longleftrightarrow> (q = p \<and> p < 32) \<or> bit w q"
  by (auto simp: portRECORD_READY_PRIORITY_def bit_simps)

lemma bit_reset: "bit (portRESET_READY_PRIORITY p w) q \<longleftrightarrow> bit w q \<and> q \<noteq> p"
  by (auto simp: portRESET_READY_PRIORITY_def bit_simps dest: bit_imp_le_length)

lemma remove_ready_but:
  assumes inv: "lists_inv_but u T E k" "bitmap_inv k" and c: "pxContainer k i = Some (Ready p)"
  shows "\<exists>k'. remove_and_reset i p k = Some k' \<and> lists_inv_but u T E k' \<and> bitmap_inv k' \<and> kstep k k' \<and>
    pxContainer k' = (pxContainer k)(i := None)"
proof -
  obtain n k1 where r: "uxListRemove i k = Some (n, k1)" "lists_inv_but u T E k1" "kstep k k1"
    "uxTopReadyPriority k1 = uxTopReadyPriority k" "pxContainer k1 = (pxContainer k)(i := None)"
    "n = 0 \<longleftrightarrow> (\<forall>j. pxContainer k1 j \<noteq> Some (Ready p))"
    using remove_any_but[OF inv(1) c] by (elim exE conjE) (rule that)
  define k' where "k' = (if n = 0 then reset_ready_priority p k1 else k1)"
  have f: "pxContainer k' = pxContainer k1" "lists_inv_but u T E k'"
    using r(2) lists_inv_but_top[of u T E p k1] by (simp_all add: k'_def reset_ready_priority_def)
  have st: "kstep k k'"
    using r(3) kstep_trans[OF r(3) kstep_top] by (simp add: k'_def reset_ready_priority_def)
  have top: "bit (uxTopReadyPriority k') q \<longleftrightarrow> bit (uxTopReadyPriority k) q \<and> (n = 0 \<longrightarrow> q \<noteq> p)" for q
    using r(4) by (simp add: k'_def reset_ready_priority_def bit_reset)
  have "bitmap_inv k'"
    unfolding bitmap_inv_def
  proof
    fix q
    have "(\<exists>j. pxContainer k' j = Some (Ready q)) \<longleftrightarrow> (\<exists>j. pxContainer k j = Some (Ready q)) \<and> (n = 0 \<longrightarrow> q \<noteq> p)"
    proof (cases "q = p")
      case True
      then show ?thesis using r(6) c f(1) by (cases "n = 0") auto
    next
      case False
      then have "pxContainer k' j = Some (Ready q) \<longleftrightarrow> pxContainer k j = Some (Ready q)" for j using r(5) c f(1) by auto
      then show ?thesis using False by simp
    qed
    then show "bit (uxTopReadyPriority k') q \<longleftrightarrow> (\<exists>j. pxContainer k' j = Some (Ready q))"
      using top inv(2) by (simp add: bitmap_inv_def)
  qed
  moreover have "remove_and_reset i p k = Some k'" using r(1) by (simp add: remove_and_reset_def k'_def)
  ultimately show ?thesis using f st r(5) by auto
qed

lemma remove_ready:
  assumes inv: "lists_inv T E k" "bitmap_inv k" and c: "pxContainer k i = Some (Ready p)"
  shows "\<exists>k'. remove_and_reset i p k = Some k' \<and> lists_inv T E k' \<and> bitmap_inv k' \<and> kstep k k' \<and>
    pxContainer k' = (pxContainer k)(i := None)"
  using remove_ready_but[OF lists_inv_but_weak[OF inv(1)] inv(2) c] lists_inv_shrink[OF inv(1)] by blast

text \<open>Insertion.\<close>

lemma insert_any:
  assumes inv: "lists_inv T E k" and i: "i \<in> items T" "pxContainer k i = None" and l: "l \<in> live E" "placed k l i"
    and nd: "l \<noteq> xDelayedTaskList1" "l \<noteq> xDelayedTaskList2"
    and ev: "\<And>t. i = xStateListItem t \<Longrightarrow> l = Ready (uxPriority k t) \<Longrightarrow> event_list k t = None"
      "\<And>t. i = xEventListItem t \<Longrightarrow> \<not> is_ready k t"
  shows "lists_inv T E (vListInsertEnd l i k) \<and> kstep k (vListInsertEnd l i k) \<and>
    uxTopReadyPriority (vListInsertEnd l i k) = uxTopReadyPriority k \<and>
    pxContainer (vListInsertEnd l i k) = (pxContainer k)(i := Some l)"
proof -
  let ?k = "vListInsertEnd l i k"
  note p = put_end[OF lists_invD(1)[OF inv] l(1) i]
  have st: "kstep k ?k" "uxTopReadyPriority ?k = uxTopReadyPriority k"
    by (rule kstep_list_step[OF p(2)]; use nd in \<open>metis p(4) sorted_list_other list_step_fields(1)[OF p(2)] insertE singletonD\<close>)+
  have "lists_inv T E ?k"
  proof (rule lists_inv_kstep[OF inv st(1) p(1)])
    show "placed k l' j" if "pxContainer ?k j = Some l'" for j l'
      using that p(3) l(2) lists_invD(2)[OF inv] by (auto split: if_splits)
    show "state_list ?k t \<noteq> Some (Ready (uxPriority k t))" if "event_list ?k t \<noteq> None" for t
      using that p(3) ev lists_invD(7)[OF inv, of t] by (auto simp: is_ready_def split: if_splits)
  qed
  then show ?thesis using st p(3) by simp
qed

lemma configMAX_PRIORITIES_less: "p < configMAX_PRIORITIES \<Longrightarrow> p < 32"
  by (simp add: configMAX_PRIORITIES_def)

lemma add_ready:
  assumes inv: "lists_inv T E k" "bitmap_inv k" and t: "t \<in> T" "state_list k t = None" "event_list k t = None"
  shows "\<exists>k'. prvAddTaskToReadyList t k = Some k' \<and> lists_inv T E k' \<and> bitmap_inv k' \<and> kstep k k' \<and>
    pxContainer k' = (pxContainer k)(xStateListItem t := Some (Ready (uxPriority k t)))"
proof -
  let ?p = "uxPriority k t"
  note p5 = lists_invD(5)[OF inv(1) t(1)]
  define k1 where "k1 = taskRECORD_READY_PRIORITY ?p k"
  have f: "pxContainer k1 = pxContainer k" "uxPriority k1 = uxPriority k" "kstep k k1"
    "uxTopReadyPriority k1 = portRECORD_READY_PRIORITY ?p (uxTopReadyPriority k)"
    using kstep_top by (simp_all add: k1_def taskRECORD_READY_PRIORITY_def)
  have inv1: "lists_inv T E k1" using inv(1) lists_inv_same[of k1 k] by (simp add: k1_def taskRECORD_READY_PRIORITY_def)
  define k' where "k' = vListInsertEnd (Ready ?p) (xStateListItem t) k1"
  have r: "lists_inv T E k' \<and> kstep k1 k' \<and> uxTopReadyPriority k' = uxTopReadyPriority k1 \<and>
      pxContainer k' = (pxContainer k1)(xStateListItem t := Some (Ready ?p))"
    unfolding k'_def by (rule insert_any[OF inv1]) (use t p5 f in simp_all)
  have "bitmap_inv k'"
    unfolding bitmap_inv_def
  proof
    fix q
    have "(\<exists>i. pxContainer k' i = Some (Ready q)) \<longleftrightarrow> q = ?p \<or> (\<exists>i. pxContainer k i = Some (Ready q))"
    proof (cases "q = ?p")
      case True
      then have "pxContainer k' (xStateListItem t) = Some (Ready q)" using r by simp
      then show ?thesis using True by blast
    next
      case False
      then have "pxContainer k' i = Some (Ready q) \<longleftrightarrow> pxContainer k i = Some (Ready q)" for i using r f(1) t(2) by simp
      then show ?thesis using False by simp
    qed
    moreover have "bit (uxTopReadyPriority k') q \<longleftrightarrow> q = ?p \<or> bit (uxTopReadyPriority k) q"
      using r f(4) configMAX_PRIORITIES_less[OF p5] by (auto simp: bit_record)
    ultimately show "bit (uxTopReadyPriority k') q \<longleftrightarrow> (\<exists>i. pxContainer k' i = Some (Ready q))"
      using inv(2) by (simp add: bitmap_inv_def)
  qed
  moreover have "prvAddTaskToReadyList t k = Some k'"
    using p5 by (simp add: prvAddTaskToReadyList_def pxReadyTasksLists_def listINSERT_END_eq k'_def k1_def)
  ultimately show ?thesis using r f kstep_trans by auto
qed

text \<open>The head of a delay list.\<close>

lemma delayed_head:
  assumes inv: "lists_inv T E k" and s: "sorted_list k l" and l: "l = xDelayedTaskList1 \<or> l = xDelayedTaskList2"
    and ne: "pxContainer k j = Some l"
  shows "\<exists>t\<in>T. state_list k t = Some l \<and> listGET_OWNER_OF_HEAD_ENTRY l k = Some t \<and>
    listGET_ITEM_VALUE_OF_HEAD_ENTRY l k = wake_time k t \<and>
    (\<forall>i. pxContainer k i = Some l \<longrightarrow> wake_time k t \<le> item_value k i)"
proof -
  have "l \<in> live E" using l by auto
  then obtain i where i: "pxContainer k i = Some l" "listGET_OWNER_OF_HEAD_ENTRY l k = Some (pvOwner k i)"
    "listGET_ITEM_VALUE_OF_HEAD_ENTRY l k = item_value k i"
    "\<And>j. pxContainer k j = Some l \<Longrightarrow> item_value k i \<le> item_value k j"
    using head_entry[OF lists_invD(1)[OF inv] _ ne] s by blast
  obtain t where t: "i = xStateListItem t" using lists_invD(2)[OF inv i(1)] l by auto
  have "t \<in> T" using lists_inv_owner(1)[OF inv i(1) t] .
  then show ?thesis using i t lists_invD(3)[OF inv] by auto
qed

lemma delayed_empty:
  assumes "lists_inv T E k" "l = xDelayedTaskList1 \<or> l = xDelayedTaskList2"
  shows "listLIST_IS_EMPTY l k \<longleftrightarrow> (\<forall>i. pxContainer k i \<noteq> Some l)"
  using assms by (intro listLIST_IS_EMPTY_iff[OF lists_invD(1)[OF assms(1)]]) auto

section \<open>The tick\<close>

definition expired :: "kernel \<Rightarrow> 32 word \<Rightarrow> klist \<Rightarrow> nat set" where
  "expired k now l = {t. state_list k t = Some l \<and> wake_time k t \<le> now}"

text \<open>The containers after the tasks in \<open>W\<close> have been made ready.\<close>

definition readied :: "nat set \<Rightarrow> kernel \<Rightarrow> kitem \<Rightarrow> klist option" where
  "readied W k i =
     (case i of xStateListItem t \<Rightarrow> if t \<in> W then Some (Ready (uxPriority k t)) else pxContainer k i
      | xEventListItem t \<Rightarrow> if t \<in> W then None else pxContainer k i)"

lemma readied_simps [simp]:
  "readied W k (xStateListItem t) = (if t \<in> W then Some (Ready (uxPriority k t)) else state_list k t)"
  "readied W k (xEventListItem t) = (if t \<in> W then None else event_list k t)"
  by (simp_all add: readied_def)

lemma readied_empty: "readied {} k = pxContainer k"
  by (intro ext) (simp add: readied_def split: kitem.split)

lemma readied_step:
  assumes "pxContainer k' = (pxContainer k)(xStateListItem t := Some (Ready (uxPriority k t)), xEventListItem t := None)"
    and "uxPriority k' = uxPriority k"
  shows "readied W k' = readied (insert t W) k"
  using assms by (intro ext) (auto simp: readied_def split: kitem.split)

lemma lists_inv_finite: "lists_inv T E k \<Longrightarrow> finite T"
proof -
  assume "lists_inv T E k"
  then have "finite (xStateListItem ` T)" by (auto simp: lists_inv_def wf_lists_def items_def)
  then show ?thesis by (rule finite_imageD) (simp add: inj_on_def)
qed

lemma state_list_T: "lists_inv T E k \<Longrightarrow> state_list k t = Some l \<Longrightarrow> t \<in> T"
  using lists_inv_owner(1) by blast

text \<open>One expired task is made ready.\<close>

lemma unblock_one:
  assumes inv: "lists_inv T E k" "bitmap_inv k" and t: "state_list k t = Some l" and l: "\<And>p. l \<noteq> Ready p"
    and el: "\<And>p. event_list k t \<noteq> Some (Ready p)"
  shows "\<exists>k1 k2 k3. listREMOVE_ITEM (xStateListItem t) k = Some k1 \<and>
    (if listLIST_ITEM_CONTAINER (xEventListItem t) k1 \<noteq> None then listREMOVE_ITEM (xEventListItem t) k1 else Some k1) = Some k2 \<and>
    prvAddTaskToReadyList t k2 = Some k3 \<and> lists_inv T E k3 \<and> bitmap_inv k3 \<and> kstep k k3 \<and>
    pxContainer k3 = (pxContainer k)(xStateListItem t := Some (Ready (uxPriority k t)), xEventListItem t := None)"
proof -
  obtain k1 where k1: "listREMOVE_ITEM (xStateListItem t) k = Some k1" "lists_inv T E k1" "bitmap_inv k1" "kstep k k1"
    "pxContainer k1 = (pxContainer k)(xStateListItem t := None)"
    using remove_unready[OF inv t l] by blast
  obtain k2 where k2: "(if listLIST_ITEM_CONTAINER (xEventListItem t) k1 \<noteq> None then listREMOVE_ITEM (xEventListItem t) k1 else Some k1) = Some k2"
    "lists_inv T E k2" "bitmap_inv k2" "kstep k1 k2"
    "pxContainer k2 = (pxContainer k)(xStateListItem t := None, xEventListItem t := None)"
  proof (cases "event_list k1 t")
    case None
    then have "pxContainer k1 = (pxContainer k)(xStateListItem t := None, xEventListItem t := None)"
      using k1(5) by (intro ext) (auto split: if_splits)
    then show thesis using that[of k1] None k1 by (simp add: list_macros)
  next
    case (Some e)
    have "e \<noteq> Ready p" for p using el[of p] Some k1(5) by auto
    then obtain k2 where r: "listREMOVE_ITEM (xEventListItem t) k1 = Some k2" "lists_inv T E k2" "bitmap_inv k2" "kstep k1 k2"
      "pxContainer k2 = (pxContainer k1)(xEventListItem t := None)"
      using remove_unready[OF k1(2,3) Some] by blast
    have "pxContainer k2 = (pxContainer k)(xStateListItem t := None, xEventListItem t := None)"
      using k1(5) r(5) by simp
    then show thesis using that[of k2] Some r by (simp add: list_macros)
  qed
  have tT: "t \<in> T" by (rule state_list_T[OF inv(1) t])
  obtain k3 where k3: "prvAddTaskToReadyList t k2 = Some k3" "lists_inv T E k3" "bitmap_inv k3" "kstep k2 k3"
    "pxContainer k3 = (pxContainer k2)(xStateListItem t := Some (Ready (uxPriority k2 t)))"
    using add_ready[OF k2(2,3) tT] k2(5) by auto
  have "pxContainer k3 = (pxContainer k)(xStateListItem t := Some (Ready (uxPriority k t)), xEventListItem t := None)"
    using k3(5) k2(5) kstep_fields(3)[OF k2(4)] kstep_fields(3)[OF k1(4)] by (intro ext) simp
  then show ?thesis
    using k1(1) k2(1) k3(1-3) kstep_trans[OF kstep_trans[OF k1(4) k2(4)] k3(4)] by blast
qed

lemma event_not_ready: "lists_inv T E k \<Longrightarrow> event_list k t \<noteq> Some (Ready p)"
  using lists_invD(2)[of T E k "xEventListItem t" "Ready p"] by auto

lemma kstep_delayed: "l = xDelayedTaskList1 \<or> l = xDelayedTaskList2 \<Longrightarrow> kstep k k' \<Longrightarrow> sorted_list k l \<Longrightarrow> sorted_list k' l"
  using kstep_sorted by blast

lemma expired_none:
  assumes "\<And>i. pxContainer k i = Some l \<Longrightarrow> v \<le> item_value k i" "now < v"
  shows "expired k now l = {}"
proof -
  have "\<not> wake_time k t \<le> now" if "state_list k t = Some l" for t
    using assms(1)[OF that] assms(2) by (meson leD order_trans)
  then show ?thesis by (simp add: expired_def)
qed

lemma unblock_loop_result:
  assumes "lists_inv T E k" "bitmap_inv k" "pxDelayedTaskList k = l" "sorted_list k l" "pxCurrentTCB k = Some c"
    and l: "l = xDelayedTaskList1 \<or> l = xDelayedTaskList2"
  shows "\<exists>k' nx. unblock_loop now sw k =
      Some (sw \<or> (\<exists>t\<in>expired k now l. uxPriority k t > uxPriority k c), k'\<lparr>xNextTaskUnblockTime := nx\<rparr>) \<and>
    lists_inv T E k' \<and> bitmap_inv k' \<and> kstep k k' \<and> pxContainer k' = readied (expired k now l) k \<and>
    (\<forall>i. pxContainer k' i = Some l \<longrightarrow> nx \<le> item_value k i)"
  using assms(1-5)
proof (induction "card {t. state_list k t = Some l}" arbitrary: k sw rule: less_induct)
  case less
  note inv = less.prems(1,2) and D = less.prems(3) and srt = less.prems(4) and cur = less.prems(5)
  show ?case
  proof (cases "\<forall>i. pxContainer k i \<noteq> Some l")
    case True
    then have "expired k now l = {}" "listLIST_IS_EMPTY l k" using delayed_empty[OF inv(1) l] by (auto simp: expired_def)
    then show ?thesis
      using inv True D by (subst unblock_loop.simps) (intro exI[of _ k] exI[of _ portMAX_DELAY], simp add: readied_empty)
  next
    case False
    then have ne: "\<not> listLIST_IS_EMPTY l k" using delayed_empty[OF inv(1) l] by simp
    obtain t where t: "t \<in> T" "state_list k t = Some l" "listGET_OWNER_OF_HEAD_ENTRY l k = Some t"
      "\<And>i. pxContainer k i = Some l \<Longrightarrow> wake_time k t \<le> item_value k i"
      using delayed_head[OF inv(1) srt l] False by blast
    show ?thesis
    proof (cases "now < wake_time k t")
      case True
      then have "expired k now l = {}" by (intro expired_none[of k l "wake_time k t"] t(4))
      then show ?thesis
        using inv True D ne t(3,4)
        by (subst unblock_loop.simps) (intro exI[of _ k] exI[of _ "wake_time k t"], simp add: readied_empty list_macros)
    next
      case exp: False
      obtain k1 k2 k3 where k3: "listREMOVE_ITEM (xStateListItem t) k = Some k1"
        "(if listLIST_ITEM_CONTAINER (xEventListItem t) k1 \<noteq> None then listREMOVE_ITEM (xEventListItem t) k1 else Some k1) = Some k2"
        "prvAddTaskToReadyList t k2 = Some k3" "lists_inv T E k3" "bitmap_inv k3" "kstep k k3"
        "pxContainer k3 = (pxContainer k)(xStateListItem t := Some (Ready (uxPriority k t)), xEventListItem t := None)"
        using unblock_one[OF inv t(2)] l event_not_ready[OF inv(1)] by blast
      note f = kstep_fields[OF k3(6)]
      have st: "state_list k3 t' = Some l \<longleftrightarrow> t' \<noteq> t \<and> state_list k t' = Some l" for t' using k3(7) l by auto
      have W: "expired k now l = insert t (expired k3 now l)"
      proof (rule set_eqI)
        fix t'
        have "wake_time k t \<le> now" using exp by (simp add: not_less)
        then show "t' \<in> expired k now l \<longleftrightarrow> t' \<in> insert t (expired k3 now l)"
          using t(2) unfolding expired_def mem_Collect_eq insert_iff f(1) st by (cases "t' = t") simp_all
      qed
      have "finite {t. state_list k t = Some l}"
        by (rule finite_subset[OF _ lists_inv_finite[OF inv(1)]]) (use state_list_T[OF inv(1)] in blast)
      then have "card {t. state_list k3 t = Some l} < card {t. state_list k t = Some l}"
        using st t(2) by (intro psubset_card_mono) auto
      from less.hyps[OF this k3(4,5), of "sw \<or> uxPriority k t > uxPriority k c"]
        f(8,9) D cur kstep_delayed[OF l k3(6) srt]
      have "\<exists>k' nx. unblock_loop now (sw \<or> uxPriority k t > uxPriority k c) k3 =
          Some ((sw \<or> uxPriority k t > uxPriority k c) \<or> (\<exists>t\<in>expired k3 now l. uxPriority k3 t > uxPriority k3 c),
                k'\<lparr>xNextTaskUnblockTime := nx\<rparr>) \<and>
        lists_inv T E k' \<and> bitmap_inv k' \<and> kstep k3 k' \<and> pxContainer k' = readied (expired k3 now l) k3 \<and>
        (\<forall>i. pxContainer k' i = Some l \<longrightarrow> nx \<le> item_value k3 i)" by (simp only: simp_thms)
      then obtain k' nx where k': "unblock_loop now (sw \<or> uxPriority k t > uxPriority k c) k3 =
          Some ((sw \<or> uxPriority k t > uxPriority k c) \<or> (\<exists>t\<in>expired k3 now l. uxPriority k3 t > uxPriority k3 c),
                k'\<lparr>xNextTaskUnblockTime := nx\<rparr>)"
        "lists_inv T E k'" "bitmap_inv k'" "kstep k3 k'" "pxContainer k' = readied (expired k3 now l) k3"
        "\<forall>i. pxContainer k' i = Some l \<longrightarrow> nx \<le> item_value k3 i"
        by (elim exE conjE) (rule that)
      have "unblock_loop now sw k = unblock_loop now (sw \<or> uxPriority k t > uxPriority k c) k3"
        using D ne t(3) exp k3(1-3) f(3,8) cur by (subst unblock_loop.simps) (simp add: list_macros)
      moreover have "pxContainer k' = readied (expired k now l) k"
        unfolding k'(5) W by (rule readied_step[OF k3(7) f(3)])
      moreover have "(sw \<or> uxPriority k t > uxPriority k c) \<or> (\<exists>t\<in>expired k3 now l. uxPriority k3 t > uxPriority k3 c)
          \<longleftrightarrow> sw \<or> (\<exists>t\<in>expired k now l. uxPriority k t > uxPriority k c)"
        unfolding W f(3) by simp
      ultimately show ?thesis
        using k'(1-3,6) kstep_trans[OF k3(6) k'(4)] unfolding f(1)
        by (intro exI[of _ k'] exI[of _ nx] conjI) (simp_all only:)
    qed
  qed
qed

text \<open>The members an operation on time leaves alone.\<close>

definition same_tasks :: "kernel \<Rightarrow> kernel \<Rightarrow> bool" where
  "same_tasks k k' \<longleftrightarrow>
     xItemValue k' = xItemValue k \<and> pvOwner k' = pvOwner k \<and> uxPriority k' = uxPriority k \<and>
     uxBasePriority k' = uxBasePriority k \<and> uxMutexesHeld k' = uxMutexesHeld k \<and>
     ulNotifiedValue k' = ulNotifiedValue k \<and> ucNotifyState k' = ucNotifyState k \<and>
     pxCurrentTCB k' = pxCurrentTCB k \<and> uxCurrentNumberOfTasks k' = uxCurrentNumberOfTasks k \<and>
     xSchedulerRunning k' = xSchedulerRunning k \<and> xPendedTicks k' = xPendedTicks k \<and>
     xYieldPending k' = xYieldPending k \<and> uxSchedulerSuspended k' = uxSchedulerSuspended k \<and> pendsv k' = pendsv k"

lemma same_tasksD:
  assumes "same_tasks k k'"
  shows "xItemValue k' = xItemValue k" "pvOwner k' = pvOwner k" "uxPriority k' = uxPriority k"
    "uxBasePriority k' = uxBasePriority k" "uxMutexesHeld k' = uxMutexesHeld k"
    "ulNotifiedValue k' = ulNotifiedValue k" "ucNotifyState k' = ucNotifyState k" "pxCurrentTCB k' = pxCurrentTCB k"
    "uxCurrentNumberOfTasks k' = uxCurrentNumberOfTasks k" "xSchedulerRunning k' = xSchedulerRunning k"
    "xPendedTicks k' = xPendedTicks k" "xYieldPending k' = xYieldPending k"
    "uxSchedulerSuspended k' = uxSchedulerSuspended k" "pendsv k' = pendsv k"
  using assms unfolding same_tasks_def by simp_all

lemma same_tasks_trans: "same_tasks k k' \<Longrightarrow> same_tasks k' k'' \<Longrightarrow> same_tasks k k''"
  by (simp add: same_tasks_def)

lemma same_tasks_kstep: "kstep k k' \<Longrightarrow> same_tasks k k'"
  by (simp add: same_tasks_def kstep_fields)

lemma delay_lists_distinct:
  assumes "delay_inv k"
  shows "pxDelayedTaskList k = xDelayedTaskList1 \<or> pxDelayedTaskList k = xDelayedTaskList2"
    "pxOverflowDelayedTaskList k = xDelayedTaskList1 \<or> pxOverflowDelayedTaskList k = xDelayedTaskList2"
    "pxDelayedTaskList k \<noteq> pxOverflowDelayedTaskList k" "sorted_list k (pxDelayedTaskList k)"
    "sorted_list k (pxOverflowDelayedTaskList k)"
  using assms by (auto simp: delay_inv_def)

lemma reset_next_result:
  assumes inv: "lists_inv T E k" and s: "sorted_list k (pxDelayedTaskList k)"
    and l: "pxDelayedTaskList k = xDelayedTaskList1 \<or> pxDelayedTaskList k = xDelayedTaskList2"
  shows "\<exists>nx. prvResetNextTaskUnblockTime k = k\<lparr>xNextTaskUnblockTime := nx\<rparr> \<and>
    (\<forall>i. pxContainer k i = Some (pxDelayedTaskList k) \<longrightarrow> nx \<le> item_value k i)"
proof (cases "\<forall>i. pxContainer k i \<noteq> Some (pxDelayedTaskList k)")
  case True
  then show ?thesis using delayed_empty[OF inv l]
    by (intro exI[of _ portMAX_DELAY]) (simp add: prvResetNextTaskUnblockTime_def)
next
  case False
  then obtain t where t: "listGET_ITEM_VALUE_OF_HEAD_ENTRY (pxDelayedTaskList k) k = wake_time k t"
    "\<forall>i. pxContainer k i = Some (pxDelayedTaskList k) \<longrightarrow> wake_time k t \<le> item_value k i"
    using delayed_head[OF inv s l] by blast
  have "\<not> listLIST_IS_EMPTY (pxDelayedTaskList k) k" using False delayed_empty[OF inv l] by simp
  then show ?thesis using t
    by (intro exI[of _ "wake_time k t"]) (simp add: prvResetNextTaskUnblockTime_def)
qed

lemma sorted_list_same:
  assumes "pxNext k' = pxNext k" "pxPrevious k' = pxPrevious k" "pxContainer k' = pxContainer k"
    "uxNumberOfItems k' = uxNumberOfItems k" "pxIndex k' = pxIndex k" "xItemValue k' = xItemValue k"
  shows "sorted_list k' = sorted_list k"
  by (intro ext) (simp add: sorted_list_def list_view_same[OF assms] assms(6))

lemma tick_less: "(n :: 32 word) + 1 \<noteq> 0 \<Longrightarrow> n < n + 1"
proof -
  assume "n + 1 \<noteq> 0"
  then have "unat (n + 1) = Suc (unat n)" by (metis add.commute unatSuc)
  then show ?thesis by (simp add: word_less_nat_alt)
qed

lemma tick_wraps: "(n :: 32 word) + 1 = 0 \<Longrightarrow> \<not> n < v"
proof -
  assume "n + 1 = 0"
  then have "n = - 1" by (simp add: eq_neg_iff_add_eq_0)
  then show ?thesis using word_order.extremum[of v] by (simp add: not_less)
qed

text \<open>After the tick count has moved and the lists were switched if it wrapped.\<close>

definition tick_switch :: "kernel \<Rightarrow> kernel" where
  "tick_switch k =
     (let now = xTickCount k + 1; k = k\<lparr>xTickCount := now\<rparr>
      in if now = 0 then taskSWITCH_DELAYED_LISTS k else k)"

lemma tick_switch_result:
  assumes inv: "lists_inv T E k" "bitmap_inv k" "delay_inv k"
  defines "k' \<equiv> tick_switch k" and "now \<equiv> xTickCount k + 1"
  shows "lists_inv T E k' \<and> bitmap_inv k' \<and> pxContainer k' = pxContainer k \<and> same_tasks k k' \<and> xTickCount k' = now \<and>
    pxDelayedTaskList k' = (if now = 0 then pxOverflowDelayedTaskList k else pxDelayedTaskList k) \<and>
    pxOverflowDelayedTaskList k' = (if now = 0 then pxDelayedTaskList k else pxOverflowDelayedTaskList k) \<and>
    sorted_list k' = sorted_list k \<and>
    (\<forall>i. pxContainer k' i = Some (pxDelayedTaskList k') \<longrightarrow> xNextTaskUnblockTime k' \<le> item_value k' i) \<and>
    (\<forall>i. pxContainer k' i = Some (pxOverflowDelayedTaskList k') \<longrightarrow> item_value k' i < now) \<and>
    xNumOfOverflows k' = xNumOfOverflows k + (if now = 0 then 1 else 0)"
proof (cases "now = 0")
  case False
  then have lt: "xTickCount k < now" unfolding now_def by (rule tick_less)
  have "item_value k i < now" if "pxContainer k i = Some (pxOverflowDelayedTaskList k)" for i
    using that inv(3) lt unfolding delay_inv_def by (meson less_trans)
  then show ?thesis
    using False inv lists_inv_same[of k' k T E] sorted_list_same[of k' k]
    by (simp add: k'_def tick_switch_def now_def Let_def bitmap_inv_def delay_inv_def same_tasks_def)
next
  case True
  then have wr: "xTickCount k + 1 = 0" by (simp add: now_def)
  have e: "pxContainer k i \<noteq> Some (pxDelayedTaskList k)" for i
    using inv(3) tick_wraps[OF wr] unfolding delay_inv_def by blast
  define k1 where "k1 = k\<lparr>xTickCount := now, pxDelayedTaskList := pxOverflowDelayedTaskList k,
    pxOverflowDelayedTaskList := pxDelayedTaskList k, xNumOfOverflows := xNumOfOverflows k + 1\<rparr>"
  have inv1: "lists_inv T E k1" using inv(1) lists_inv_same[of k1 k T E] by (simp add: k1_def)
  have s1: "sorted_list k1 = sorted_list k" using sorted_list_same[of k1 k] by (simp add: k1_def)
  obtain nx where nx: "prvResetNextTaskUnblockTime k1 = k1\<lparr>xNextTaskUnblockTime := nx\<rparr>"
    "\<And>i. pxContainer k1 i = Some (pxDelayedTaskList k1) \<Longrightarrow> nx \<le> item_value k1 i"
    using reset_next_result[OF inv1] delay_lists_distinct[OF inv(3)] s1 by (auto simp: k1_def)
  have k': "k' = k1\<lparr>xNextTaskUnblockTime := nx\<rparr>"
    using True nx(1) by (simp add: k'_def tick_switch_def taskSWITCH_DELAYED_LISTS_def Let_def k1_def now_def)
  show ?thesis
    using True inv nx(2) e lists_inv_same[of k' k T E] sorted_list_same[of k' k]
    by (simp add: k' k1_def bitmap_inv_def same_tasks_def)
qed

lemma xTaskIncrementTick_switch:
  "xTaskIncrementTick k =
     (if uxSchedulerSuspended k = 0 then do {
        let k1 = tick_switch k; let now = xTickCount k + 1;
        (sw, k) \<leftarrow> (if now \<ge> xNextTaskUnblockTime k1 then unblock_loop now False k1 else Some (False, k1));
        c \<leftarrow> pxCurrentTCB k;
        l \<leftarrow> pxReadyTasksLists (uxPriority k c);
        let sw = (sw \<or> listCURRENT_LIST_LENGTH l k > 1);
        Some (sw \<or> xYieldPending k, k) }
      else Some (False, k\<lparr>xPendedTicks := xPendedTicks k + 1\<rparr>))"
  by (simp add: xTaskIncrementTick_def tick_switch_def Let_def)

lemma core_invD:
  assumes "core_inv idle T E k"
  shows "lists_inv T E k" "bitmap_inv k" "delay_inv k" "t \<in> T \<Longrightarrow> state_list k t \<noteq> None" "idle \<in> T" "is_ready k idle"
    "\<exists>c\<in>T. pxCurrentTCB k = Some c" "xSchedulerRunning k" "uxCurrentNumberOfTasks k \<noteq> 0"
    "uxCurrentNumberOfTasks k = of_nat (card T)"
proof -
  have T: "finite T" "idle \<in> T" "2 * card T < 2 ^ 32"
    using assms card_items[of T] lists_inv_finite[of T E k] by (auto simp: core_inv_def lists_inv_def wf_lists_def)
  have "0 < card T" "card T < 2 ^ 32" using T by (auto simp: card_gt_0_iff)
  then have "(of_nat (card T) :: 32 word) \<noteq> 0" by (simp add: word_of_nat_eq_0_iff nat_dvd_not_less)
  then show "uxCurrentNumberOfTasks k \<noteq> 0" using assms by (simp add: core_inv_def)
qed (use assms in \<open>simp_all add: core_inv_def\<close>)

text \<open>The tasks a tick wakes.\<close>

definition due_list :: "kernel \<Rightarrow> klist" where
  "due_list k = (if xTickCount k + 1 = 0 then pxOverflowDelayedTaskList k else pxDelayedTaskList k)"

definition due :: "kernel \<Rightarrow> nat set" where
  "due k = expired k (xTickCount k + 1) (due_list k)"

lemma readied_other: "(\<And>p. l \<noteq> Ready p) \<Longrightarrow> readied W k i = Some l \<Longrightarrow> pxContainer k i = Some l"
  by (auto simp: readied_def split: kitem.splits if_splits)

lemma readied_delayed:
  assumes "readied (expired k now l) k i = Some l" "\<And>p. l \<noteq> Ready p" "placed k l i" "l = xDelayedTaskList1 \<or> l = xDelayedTaskList2"
  shows "pxContainer k i = Some l \<and> now < item_value k i"
proof -
  obtain t where i: "i = xStateListItem t" using assms(3,4) by auto
  then have "t \<notin> expired k now l" "state_list k t = Some l" using assms(1,2) by (auto split: if_splits)
  then show ?thesis using i by (simp add: expired_def not_le)
qed

lemma tick_result:
  assumes core: "core_inv idle T E k" and un: "uxSchedulerSuspended k = 0" and cur: "pxCurrentTCB k = Some c"
  shows "\<exists>sw k'. xTaskIncrementTick k = Some (sw, k') \<and> core_inv idle T E k' \<and> same_tasks k k' \<and>
    pxContainer k' = readied (due k) k \<and> xTickCount k' = xTickCount k + 1 \<and>
    pxDelayedTaskList k' = due_list k \<and>
    ((\<exists>t\<in>due k. uxPriority k t > uxPriority k c) \<or> xYieldPending k \<longrightarrow> sw) \<and>
    xNumOfOverflows k' = xNumOfOverflows k + (if xTickCount k + 1 = 0 then 1 else 0)"
proof -
  note inv = core_invD(1-3)[OF core]
  define now k1 where "now = xTickCount k + 1" and "k1 = tick_switch k"
  let ?D = "due_list k" and ?W = "due k"
  note s = tick_switch_result[OF inv, folded now_def k1_def]
  then have st: "same_tasks k k1" and c1: "pxContainer k1 = pxContainer k" by blast+
  have dl: "?D = xDelayedTaskList1 \<or> ?D = xDelayedTaskList2" "pxDelayedTaskList k1 = ?D" "sorted_list k1 ?D"
    using s delay_lists_distinct[OF inv(3)] by (auto simp: due_list_def now_def)
  have W: "?W = expired k1 now ?D"
    using same_tasksD(1)[OF st] c1 by (simp add: due_def expired_def now_def)
  have r1: "readied W k1 = readied W k" for W
    using same_tasksD(3)[OF st] c1 by (intro ext) (simp add: readied_def split: kitem.split)
  have "\<exists>sw k2 nx. (if now \<ge> xNextTaskUnblockTime k1 then unblock_loop now False k1 else Some (False, k1)) =
        Some (sw, k2\<lparr>xNextTaskUnblockTime := nx\<rparr>) \<and> ((\<exists>t\<in>?W. uxPriority k t > uxPriority k c) \<longrightarrow> sw) \<and>
      lists_inv T E k2 \<and> bitmap_inv k2 \<and> kstep k1 k2 \<and> pxContainer k2 = readied ?W k \<and>
      (\<forall>i. pxContainer k2 i = Some ?D \<longrightarrow> nx \<le> item_value k1 i)"
  proof (cases "now \<ge> xNextTaskUnblockTime k1")
    case True
    have "\<exists>k2 nx. unblock_loop now False k1 =
        Some (False \<or> (\<exists>t\<in>expired k1 now ?D. uxPriority k1 t > uxPriority k1 c), k2\<lparr>xNextTaskUnblockTime := nx\<rparr>) \<and>
      lists_inv T E k2 \<and> bitmap_inv k2 \<and> kstep k1 k2 \<and> pxContainer k2 = readied (expired k1 now ?D) k1 \<and>
      (\<forall>i. pxContainer k2 i = Some ?D \<longrightarrow> nx \<le> item_value k1 i)"
      by (rule unblock_loop_result) (use s dl same_tasksD(8)[OF st] cur in simp_all)
    then show ?thesis using True same_tasksD(3)[OF st] r1 unfolding W[symmetric] by auto
  next
    case False
    then have "now < xNextTaskUnblockTime k1" by simp
    moreover have "\<And>i. pxContainer k1 i = Some ?D \<Longrightarrow> xNextTaskUnblockTime k1 \<le> item_value k1 i" using s dl(2) by simp
    ultimately have "?W = {}" unfolding W by (intro expired_none[of k1 ?D "xNextTaskUnblockTime k1"])
    then show ?thesis
      using False s dl(2) c1 by (intro exI[of _ False] exI[of _ k1] exI[of _ "xNextTaskUnblockTime k1"]) (simp add: readied_empty)
  qed
  then obtain sw k2 nx where k2: "(if now \<ge> xNextTaskUnblockTime k1 then unblock_loop now False k1 else Some (False, k1)) =
        Some (sw, k2\<lparr>xNextTaskUnblockTime := nx\<rparr>)" "(\<exists>t\<in>?W. uxPriority k t > uxPriority k c) \<longrightarrow> sw"
      "lists_inv T E k2" "bitmap_inv k2" "kstep k1 k2" "pxContainer k2 = readied ?W k"
      "\<forall>i. pxContainer k2 i = Some ?D \<longrightarrow> nx \<le> item_value k1 i" by (elim exE conjE) (rule that)
  define k' where "k' = k2\<lparr>xNextTaskUnblockTime := nx\<rparr>"
  have st': "same_tasks k k'"
    using same_tasks_trans[OF st same_tasks_kstep[OF k2(5)]] by (simp add: k'_def same_tasks_def)
  have c': "pxContainer k' = readied ?W k" using k2(6) by (simp add: k'_def)
  have inv': "lists_inv T E k'" using k2(3) lists_inv_same[of k' k2 T E] by (simp add: k'_def)
  have t': "xTickCount k' = now" "pxDelayedTaskList k' = ?D" "pxOverflowDelayedTaskList k' = pxOverflowDelayedTaskList k1"
    "xNextTaskUnblockTime k' = nx" "xNumOfOverflows k' = xNumOfOverflows k + (if now = 0 then 1 else 0)"
    using s dl(2) by (simp_all add: k'_def kstep_fields[OF k2(5)])
  have nr: "?D \<noteq> Ready p" "pxOverflowDelayedTaskList k1 \<noteq> Ready p" for p
    using s delay_lists_distinct[OF inv(3)] by (auto simp: due_list_def)
  have "delay_inv k'"
  proof -
    have srt: "sorted_list k' xDelayedTaskList1" "sorted_list k' xDelayedTaskList2"
      using kstep_sorted[OF k2(5)] s inv(3) sorted_list_same[of k' k2] by (simp_all add: k'_def delay_inv_def)
    have cur': "now < item_value k' i \<and> nx \<le> item_value k' i" if "pxContainer k' i = Some ?D" for i
    proof -
      have "placed k ?D i" using lists_invD(2)[OF inv' that] same_tasksD(3)[OF st'] dl(1) by auto
      then have "now < item_value k i"
        using readied_delayed[of k now ?D i] that c' nr dl(1) by (simp add: due_def now_def)
      then show ?thesis using k2(6,7) that c' same_tasksD(1)[OF st'] same_tasksD(1)[OF st] by simp
    qed
    have ov': "item_value k' i < now" if "pxContainer k' i = Some (pxOverflowDelayedTaskList k1)" for i
    proof -
      have "pxContainer k1 i = Some (pxOverflowDelayedTaskList k1)"
        using readied_other[of "pxOverflowDelayedTaskList k1" ?W k i] nr(2) that c' c1 by simp
      then show ?thesis using s same_tasksD(1)[OF st'] same_tasksD(1)[OF st] by simp
    qed
    have sw12: "?D = xDelayedTaskList1 \<and> pxOverflowDelayedTaskList k1 = xDelayedTaskList2 \<or>
        ?D = xDelayedTaskList2 \<and> pxOverflowDelayedTaskList k1 = xDelayedTaskList1"
      using s inv(3) unfolding due_list_def delay_inv_def now_def by auto
    show ?thesis unfolding delay_inv_def t' using srt cur' ov' sw12 by blast
  qed
  moreover have "bitmap_inv k'" using k2(4) by (simp add: k'_def bitmap_inv_def)
  moreover have "is_ready k' idle"
    using core_invD(6)[OF core] same_tasksD(3)[OF st'] by (simp add: is_ready_def c')
  ultimately have core': "core_inv idle T E k'"
    using core inv' same_tasksD(8-10)[OF st'] by (simp add: core_inv_def c')
  have "c \<in> T" using core cur by (auto simp: core_inv_def)
  then have "uxPriority k' c < configMAX_PRIORITIES" using lists_invD(5)[OF inv'] by simp
  then have "\<exists>sw'. xTaskIncrementTick k = Some (sw', k') \<and> (sw \<or> xYieldPending k \<longrightarrow> sw')"
    using un k2(1) same_tasksD(8,12)[OF st'] cur
    by (simp add: xTaskIncrementTick_switch k1_def[symmetric] now_def[symmetric] k'_def[symmetric] pxReadyTasksLists_def)
  then show ?thesis using core' st' c' t' k2(2) unfolding now_def by blast
qed

section \<open>The context switch\<close>

lemma portGET_HIGHEST_PRIORITY_bit:
  assumes "bit w p" "\<And>q. bit w q \<Longrightarrow> q \<le> p"
  shows "portGET_HIGHEST_PRIORITY w = Some p"
proof -
  have p: "p < 32" using bit_imp_le_length[OF assms(1)] by simp
  have "[0..<32] = [0..<p] @ p # [Suc p..<32]"
    using p upt_add_eq_append[of 0 p "32 - p"] upt_conv_Cons[of p 32] by simp
  then have r: "rev [0..<32] = rev [Suc p..<32] @ p # rev [0..<p]" by simp
  have "takeWhile (\<lambda>i. \<not> bit w i) (rev [0..<32]) = rev [Suc p..<32]"
    unfolding r using assms by (subst takeWhile_append2) (auto dest: assms(2))
  then have "clz w = 31 - p" using p by (simp add: clz_def)
  then show ?thesis using p by (simp add: portGET_HIGHEST_PRIORITY_def)
qed

lemma bitmap_ready:
  assumes "lists_inv T E k" "bitmap_inv k"
  shows "bit (uxTopReadyPriority k) p \<longleftrightarrow> (\<exists>t\<in>T. is_ready k t \<and> uxPriority k t = p)"
proof
  assume "bit (uxTopReadyPriority k) p"
  then obtain i where i: "pxContainer k i = Some (Ready p)" using assms(2) by (auto simp: bitmap_inv_def)
  then obtain t where t: "i = xStateListItem t" "uxPriority k t = p" using lists_invD(2)[OF assms(1)] by fastforce
  then show "\<exists>t\<in>T. is_ready k t \<and> uxPriority k t = p"
    using i state_list_T[OF assms(1), of t] by (intro bexI[of _ t]) (simp_all add: is_ready_def)
qed (use assms(2) in \<open>auto simp: bitmap_inv_def is_ready_def\<close>)

lemma highest_ready:
  assumes core: "core_inv idle T E k"
  obtains p where "portGET_HIGHEST_PRIORITY (uxTopReadyPriority k) = Some p" "p < configMAX_PRIORITIES"
    "\<exists>t\<in>T. is_ready k t \<and> uxPriority k t = p" "\<And>t. is_ready k t \<Longrightarrow> uxPriority k t \<le> p"
proof -
  note inv = core_invD(1,2)[OF core] and b = bitmap_ready[OF core_invD(1,2)[OF core]]
  let ?P = "{p. bit (uxTopReadyPriority k) p}"
  have "?P \<subseteq> {..<32}" by (auto dest: bit_imp_le_length)
  then have fin: "finite ?P" by (rule finite_subset) simp
  have "uxPriority k idle \<in> ?P" using b core_invD(5,6)[OF core] by blast
  then have ne: "?P \<noteq> {}" by blast
  define p where "p = Max ?P"
  have p: "bit (uxTopReadyPriority k) p" "\<And>q. bit (uxTopReadyPriority k) q \<Longrightarrow> q \<le> p"
    using Max_in[OF fin ne] Max_ge[OF fin] by (simp_all add: p_def)
  obtain t where t: "t \<in> T" "is_ready k t" "uxPriority k t = p" using b[of p] p(1) by blast
  show thesis
  proof (rule that[OF portGET_HIGHEST_PRIORITY_bit[OF p]])
    show "p < configMAX_PRIORITIES" using lists_invD(5)[OF inv(1) t(1)] t(3) by simp
    show "\<exists>t\<in>T. is_ready k t \<and> uxPriority k t = p" using t by blast
    show "uxPriority k t' \<le> p" if "is_ready k t'" for t'
      using that b p(2) state_list_T[OF inv(1), of t'] by (auto simp: is_ready_def)
  qed
qed

lemma lists_inv_index:
  assumes "lists_inv T E k" "wf_lists (items T) (live E) k'" "pxContainer k' = pxContainer k" "pvOwner k' = pvOwner k"
    "uxPriority k' = uxPriority k" "uxBasePriority k' = uxBasePriority k"
  shows "lists_inv T E k'"
proof -
  have p: "placed k' l i = placed k l i" for l i by (cases l) (simp_all add: assms)
  show ?thesis using assms(1,2) unfolding lists_inv_def is_ready_def p assms(3-6) by blast
qed

lemma switch_result:
  assumes core: "core_inv idle T E k" and un: "uxSchedulerSuspended k = 0"
  shows "\<exists>c k'. c \<in> T \<and> vTaskSwitchContext k = Some k' \<and> core_inv idle T E k' \<and> pxCurrentTCB k' = Some c \<and>
    is_ready k c \<and> (\<forall>t. is_ready k t \<longrightarrow> uxPriority k t \<le> uxPriority k c) \<and>
    pxContainer k' = pxContainer k \<and> \<not> xYieldPending k' \<and>
    same_tasks (k\<lparr>pxCurrentTCB := Some c, xYieldPending := False\<rparr>) k' \<and>
    xTickCount k' = xTickCount k \<and> pxDelayedTaskList k' = pxDelayedTaskList k \<and>
    pxOverflowDelayedTaskList k' = pxOverflowDelayedTaskList k \<and> xNumOfOverflows k' = xNumOfOverflows k"
proof -
  note inv = core_invD(1-3)[OF core]
  obtain p where p: "portGET_HIGHEST_PRIORITY (uxTopReadyPriority k) = Some p" "p < configMAX_PRIORITIES"
    "\<exists>t\<in>T. is_ready k t \<and> uxPriority k t = p" "\<And>t. is_ready k t \<Longrightarrow> uxPriority k t \<le> p"
    using highest_ready[OF core] by blast
  define k0 where "k0 = k\<lparr>xYieldPending := False\<rparr>"
  have inv0: "lists_inv T E k0" using inv(1) lists_inv_same[of k0 k T E] by (simp add: k0_def)
  obtain t where t: "state_list k0 t = Some (Ready p)" using p(3) by (auto simp: is_ready_def k0_def)
  obtain i where i: "pxContainer k0 i = Some (Ready p)"
    "listGET_OWNER_OF_NEXT_ENTRY (Ready p) k0 = Some (pvOwner k0 i, at_index (Ready p) (ListItem i) k0)"
    "wf_lists (items T) (live E) (at_index (Ready p) (ListItem i) k0)"
    "\<And>l'. sorted_list k0 l' \<Longrightarrow> sorted_list (at_index (Ready p) (ListItem i) k0) l'"
    using next_entry[OF lists_invD(1)[OF inv0] _ t] p(2) by auto
  obtain c where c: "i = xStateListItem c" "uxPriority k c = p" using lists_invD(2)[OF inv0 i(1)] by (auto simp: k0_def)
  have cT: "c \<in> T" using lists_inv_owner(1)[OF inv0 i(1) c(1)] .
  have rdy: "is_ready k c" using i(1) c by (simp add: is_ready_def k0_def)
  define k' where "k' = (at_index (Ready p) (ListItem i) k0)\<lparr>pxCurrentTCB := Some c\<rparr>"
  have "lists_inv T E (at_index (Ready p) (ListItem i) k0)"
    by (rule lists_inv_index[OF inv0 i(3)]) (simp_all add: at_index_def)
  then have "lists_inv T E k'"
    using lists_inv_same[of k' "at_index (Ready p) (ListItem i) k0" T E] by (simp add: k'_def)
  moreover have "delay_inv k'"
  proof -
    have "sorted_list k' = sorted_list (at_index (Ready p) (ListItem i) k0)" "sorted_list k0 = sorted_list k"
      by (rule sorted_list_same; simp add: k'_def k0_def)+
    then show ?thesis using inv(3) i(4) by (simp add: delay_inv_def k'_def at_index_def k0_def)
  qed
  moreover have "bitmap_inv k'" using inv(2) by (simp add: bitmap_inv_def k'_def at_index_def k0_def)
  ultimately have "core_inv idle T E k'"
    using core cT by (simp add: core_inv_def is_ready_def k'_def at_index_def k0_def)
  moreover have "vTaskSwitchContext k = Some k'"
    using un p(1,2) i(2) lists_invD(3)[OF inv0 cT] c(1)
    by (simp add: vTaskSwitchContext_def taskSELECT_HIGHEST_PRIORITY_TASK_def k0_def[symmetric] k'_def
        pxReadyTasksLists_def) (simp add: k0_def)
  ultimately show ?thesis
    using cT rdy p(4) c(2)
    by (intro exI[of _ c] exI[of _ k']) (simp add: k'_def at_index_def k0_def same_tasks_def)
qed

section \<open>Blocking the running task\<close>

lemma bitmap_inv_pointwise:
  assumes "bitmap_inv k" "uxTopReadyPriority k' = uxTopReadyPriority k"
    and "\<And>p i. pxContainer k' i = Some (Ready p) \<longleftrightarrow> pxContainer k i = Some (Ready p)"
  shows "bitmap_inv k'"
  using assms by (simp add: bitmap_inv_def)

lemma list_view_value [simp]: "list_view (listSET_LIST_ITEM_VALUE i v k) l xs \<longleftrightarrow> list_view k l xs"
  by (simp add: list_view_def listSET_LIST_ITEM_VALUE_def)

lemma lists_inv_value [simp]: "lists_inv T E (listSET_LIST_ITEM_VALUE i v k) \<longleftrightarrow> lists_inv T E k" for k :: kernel
proof -
  have p: "placed (listSET_LIST_ITEM_VALUE i v k) l j = placed k l j" for l j
    by (cases l) (simp_all add: listSET_LIST_ITEM_VALUE_def)
  show ?thesis
    unfolding lists_inv_def wf_lists_def list_view_value is_ready_def p by (simp add: listSET_LIST_ITEM_VALUE_def)
qed

lemma sorted_list_value:
  assumes "sorted_list k l" "pxContainer k i \<noteq> Some l"
  shows "sorted_list (listSET_LIST_ITEM_VALUE i v k) l"
proof -
  obtain xs where xs: "list_view k l xs" "sorted (map (item_value k) xs)" using assms(1) by (auto simp: sorted_list_def)
  then have "i \<notin> set xs" using list_view_container[OF xs(1)] assms(2) by simp
  then have m: "map (item_value (listSET_LIST_ITEM_VALUE i v k)) xs = map (item_value k) xs"
    by (auto simp: listSET_LIST_ITEM_VALUE_def)
  show ?thesis by (rule sorted_listI[of _ _ xs]) (simp_all only: list_view_value m xs)
qed

lemma insert_delayed:
  assumes inv: "lists_inv T E k" and t: "t \<in> T" "state_list k t = None"
    and l: "l = xDelayedTaskList1 \<or> l = xDelayedTaskList2"
  shows "\<exists>k'. vListInsert l (xStateListItem t) k = Some k' \<and> lists_inv T E k' \<and> kstep k k' \<and>
    uxTopReadyPriority k' = uxTopReadyPriority k \<and> pxContainer k' = (pxContainer k)(xStateListItem t := Some l)"
proof -
  have ll: "l \<in> live E" "xStateListItem t \<in> items T" using l t(1) by auto
  obtain k' where r: "vListInsert l (xStateListItem t) k = Some k'" "wf_lists (items T) (live E) k'" "list_step k k'"
    "pxContainer k' = (pxContainer k)(xStateListItem t := Some l)" "only_list l k k'" "sorted_list k l \<longrightarrow> sorted_list k' l"
    using put_sorted[OF lists_invD(1)[OF inv] ll t(2)] by (elim exE conjE) (rule that)
  have st: "kstep k k'" "uxTopReadyPriority k' = uxTopReadyPriority k"
    by (rule kstep_list_step[OF r(3)]; metis r(5,6) sorted_list_other list_step_fields(1)[OF r(3)])+
  have pl: "placed k l (xStateListItem t)" using l by auto
  have "lists_inv T E k'"
    by (rule lists_inv_kstep[OF inv st(1) r(2)])
       (use r(4) pl l lists_invD(2,7)[OF inv] in \<open>auto simp: is_ready_def split: if_splits\<close>)
  then show ?thesis using r(1,4) st by blast
qed

definition block_list :: "kernel \<Rightarrow> 32 word \<Rightarrow> klist" where
  "block_list k n = (if xTickCount k + n < xTickCount k then pxOverflowDelayedTaskList k else pxDelayedTaskList k)"

definition with_wake :: "nat \<Rightarrow> 32 word \<Rightarrow> kernel \<Rightarrow> kernel" where
  "with_wake c n k = listSET_LIST_ITEM_VALUE (xStateListItem c) (xTickCount k + n) k"

lemma ready_no_event: "lists_inv T E k \<Longrightarrow> is_ready k t \<Longrightarrow> event_list k t = None"
  using lists_invD(7) by blast

lemma tick_plus: "(n :: 32 word) \<noteq> 0 \<Longrightarrow> \<not> t + n < t \<Longrightarrow> t < t + n"
  by (simp add: less_le)

text \<open>The running task leaves its ready list.\<close>

lemma leave_ready:
  assumes core: "core_inv_but c idle T E k" and cur: "is_ready k c"
  shows "\<exists>k1. remove_and_reset (xStateListItem c) (uxPriority k c) k = Some k1 \<and> lists_inv T E k1 \<and> bitmap_inv k1 \<and>
    kstep k k1 \<and> pxContainer k1 = (pxContainer k)(xStateListItem c := None)"
proof -
  have inv: "lists_inv_but c T E k" "bitmap_inv k" using core by (simp_all add: core_inv_but_def)
  obtain k1 where k1: "remove_and_reset (xStateListItem c) (uxPriority k c) k = Some k1" "lists_inv_but c T E k1" "bitmap_inv k1"
    "kstep k k1" "pxContainer k1 = (pxContainer k)(xStateListItem c := None)"
    using remove_ready_but[OF inv] cur unfolding is_ready_def by blast
  have "lists_inv T E k1" by (rule lists_inv_butI[OF k1(2)]) (simp add: is_ready_def k1(5))
  then show ?thesis using k1 by blast
qed

lemma block_result:
  assumes core: "core_inv_but c idle T E k" and cur: "pxCurrentTCB k = Some c" "is_ready k c" "c \<noteq> idle"
    and n: "n \<noteq> 0" "\<not> (n = portMAX_DELAY \<and> indef)"
  shows "\<exists>k'. prvAddCurrentTaskToDelayedList n indef k = Some k' \<and> core_inv idle T E k' \<and>
    same_tasks (with_wake c n k) k' \<and> pxContainer k' = (pxContainer k)(xStateListItem c := Some (block_list k n)) \<and>
    xTickCount k' = xTickCount k \<and> pxDelayedTaskList k' = pxDelayedTaskList k \<and>
    pxOverflowDelayedTaskList k' = pxOverflowDelayedTaskList k"
proof -
  have inv: "delay_inv k" using core by (simp add: core_inv_but_def)
  let ?w = "xTickCount k + n"
  have cT: "c \<in> T" using core by (simp add: core_inv_but_def)
  obtain k1 where k1: "remove_and_reset (xStateListItem c) (uxPriority k c) k = Some k1" "lists_inv T E k1" "bitmap_inv k1"
    "kstep k k1" "pxContainer k1 = (pxContainer k)(xStateListItem c := None)"
    using leave_ready[OF core cur(2)] by blast
  note f1 = kstep_fields[OF k1(4)]
  define k2 where "k2 = listSET_LIST_ITEM_VALUE (xStateListItem c) ?w k1"
  have f2i: "lists_inv T E k2" using k1(2) by (simp add: k2_def)
  have f2: "pxContainer k2 = pxContainer k1" "uxTopReadyPriority k2 = uxTopReadyPriority k1"
    "state_list k2 c = None" "bitmap_inv k2" "pxDelayedTaskList k2 = pxDelayedTaskList k"
    "pxOverflowDelayedTaskList k2 = pxOverflowDelayedTaskList k" "xNextTaskUnblockTime k2 = xNextTaskUnblockTime k"
    "xTickCount k2 = xTickCount k" "same_tasks (with_wake c n k) k2"
    using k1(3,5) f1
    by (simp_all add: k2_def bitmap_inv_def same_tasks_def with_wake_def listSET_LIST_ITEM_VALUE_def)
  have L: "block_list k n = xDelayedTaskList1 \<or> block_list k n = xDelayedTaskList2" "\<And>p. block_list k n \<noteq> Ready p"
    using delay_lists_distinct[OF inv] by (auto simp: block_list_def)
  obtain k3 where k3: "vListInsert (block_list k n) (xStateListItem c) k2 = Some k3" "lists_inv T E k3" "kstep k2 k3"
    "uxTopReadyPriority k3 = uxTopReadyPriority k2" "pxContainer k3 = (pxContainer k2)(xStateListItem c := Some (block_list k n))"
    using insert_delayed[OF f2i cT f2(3) L(1)] by blast
  note f3 = kstep_fields[OF k3(3)]
  define k' where "k' = (if \<not> ?w < xTickCount k \<and> ?w < xNextTaskUnblockTime k3 then k3\<lparr>xNextTaskUnblockTime := ?w\<rparr> else k3)"
  have ni: "(n = portMAX_DELAY \<and> indef) = False" using n(2) by simp
  have run: "prvAddCurrentTaskToDelayedList n indef k = Some k'"
    unfolding prvAddCurrentTaskToDelayedList_def ni if_False using cur(1) k1(1) k3(1) f2(5-8) f1(9,10,13,19) f3(19)
    by (simp add: Let_def k2_def[symmetric] block_list_def k'_def split: if_splits)
  have cont: "pxContainer k' = (pxContainer k)(xStateListItem c := Some (block_list k n))"
    using k3(5) f2(1) k1(5) by (simp add: k'_def)
  have st: "same_tasks (with_wake c n k) k'"
    using same_tasks_trans[OF f2(9) same_tasks_kstep[OF k3(3)]] by (simp add: k'_def same_tasks_def)
  have inv': "lists_inv T E k'" using k3(2) lists_inv_same[of k' k3 T E] by (simp add: k'_def)
  have bm': "bitmap_inv k'"
    by (rule bitmap_inv_pointwise[OF f2(4)]) (use k3(4,5) L(2) f2(3) in \<open>auto simp: k'_def\<close>)
  have ptr: "xTickCount k' = xTickCount k" "pxDelayedTaskList k' = pxDelayedTaskList k"
    "pxOverflowDelayedTaskList k' = pxOverflowDelayedTaskList k"
    using f3 f2 by (simp_all add: k'_def)
  have val: "item_value k' i = (if i = xStateListItem c then ?w else item_value k i)" for i
    using same_tasksD(1)[OF st] by (simp add: with_wake_def listSET_LIST_ITEM_VALUE_def)
  have nxt: "xNextTaskUnblockTime k' \<le> xNextTaskUnblockTime k"
    "block_list k n = pxDelayedTaskList k \<Longrightarrow> xNextTaskUnblockTime k' \<le> ?w"
    using f3(19) f2(7) delay_lists_distinct(3)[OF inv]
    by (auto simp: k'_def block_list_def not_less split: if_splits)
  have "delay_inv k'"
    unfolding delay_inv_def ptr
  proof (intro conjI allI impI)
    have s: "sorted_list k1 xDelayedTaskList1" "sorted_list k1 xDelayedTaskList2"
      using inv kstep_sorted[OF k1(4)] by (auto simp: delay_inv_def)
    then have "sorted_list k2 xDelayedTaskList1" "sorted_list k2 xDelayedTaskList2"
      unfolding k2_def by (auto intro: sorted_list_value simp: k1(5))
    then show "sorted_list k' xDelayedTaskList1" "sorted_list k' xDelayedTaskList2"
      using kstep_sorted[OF k3(3)] sorted_list_same[of k' k3] by (simp_all add: k'_def)
    show "pxDelayedTaskList k = xDelayedTaskList1 \<and> pxOverflowDelayedTaskList k = xDelayedTaskList2 \<or>
      pxDelayedTaskList k = xDelayedTaskList2 \<and> pxOverflowDelayedTaskList k = xDelayedTaskList1"
      using inv by (simp add: delay_inv_def)
    fix i
    show "xTickCount k < item_value k' i" if "pxContainer k' i = Some (pxDelayedTaskList k)"
      using that inv tick_plus[OF n(1)] delay_lists_distinct(3)[OF inv]
      unfolding val cont delay_inv_def by (auto simp: block_list_def split: if_splits)
    show "xNextTaskUnblockTime k' \<le> item_value k' i" if "pxContainer k' i = Some (pxDelayedTaskList k)"
    proof (cases "i = xStateListItem c")
      case True
      then show ?thesis using that nxt(2) unfolding val cont by simp
    next
      case False
      then have "xNextTaskUnblockTime k \<le> item_value k i" using that inv unfolding cont delay_inv_def by simp
      then show ?thesis using nxt(1) False unfolding val by simp
    qed
    show "item_value k' i < xTickCount k" if "pxContainer k' i = Some (pxOverflowDelayedTaskList k)"
      using that inv delay_lists_distinct(3)[OF inv]
      unfolding val cont delay_inv_def by (auto simp: block_list_def split: if_splits)
  qed
  moreover have "is_ready k' idle"
    using core cur(3) same_tasksD(3)[OF st]
    by (simp add: core_inv_but_def is_ready_def cont with_wake_def listSET_LIST_ITEM_VALUE_def)
  ultimately have "core_inv idle T E k'"
    using core inv' bm' same_tasksD(8-10)[OF st]
    by (simp add: core_inv_def core_inv_but_def cont with_wake_def listSET_LIST_ITEM_VALUE_def)
  then show ?thesis using run st cont ptr by blast
qed

section \<open>Time left to a blocked task\<close>

definition delayed :: "kernel \<Rightarrow> nat \<Rightarrow> bool" where
  "delayed k t \<longleftrightarrow> state_list k t = Some (pxDelayedTaskList k) \<or> state_list k t = Some (pxOverflowDelayedTaskList k)"

definition remaining :: "kernel \<Rightarrow> nat \<Rightarrow> nat option" where
  "remaining k t = (if delayed k t then Some (unat (wake_time k t - xTickCount k)) else None)"

text \<open>One tick of the abstract clock.\<close>

fun tick_down :: "nat option \<Rightarrow> nat option" where
  "tick_down (Some (Suc (Suc n))) = Some (Suc n)"
| "tick_down _ = None"

lemma due_iff:
  assumes inv: "delay_inv k"
  shows "t \<in> due k \<longleftrightarrow> delayed k t \<and> wake_time k t = xTickCount k + 1"
proof -
  let ?n = "xTickCount k"
  have D: "?n < wake_time k t" if "state_list k t = Some (pxDelayedTaskList k)" using inv that by (simp add: delay_inv_def)
  have O: "wake_time k t < ?n" if "state_list k t = Some (pxOverflowDelayedTaskList k)" using inv that by (simp add: delay_inv_def)
  show ?thesis
  proof (cases "?n + 1 = 0")
    case True
    have "state_list k t \<noteq> Some (pxDelayedTaskList k)" using D tick_wraps[OF True] by blast
    then show ?thesis using True by (simp add: due_def due_list_def expired_def delayed_def conj_commute)
  next
    case False
    have lt: "?n < ?n + 1" by (rule tick_less[OF False])
    have "state_list k t \<noteq> Some (pxOverflowDelayedTaskList k)" if "wake_time k t = ?n + 1"
      using O lt that by (metis less_asym)
    moreover have "wake_time k t \<le> ?n + 1 \<longleftrightarrow> wake_time k t = ?n + 1" if "state_list k t = Some (pxDelayedTaskList k)"
    proof -
      have "unat (?n + 1) = Suc (unat ?n)" using False by (metis add.commute unatSuc)
      then show ?thesis using D[OF that] by (auto simp: word_less_nat_alt word_le_nat_alt word_unat_eq_iff)
    qed
    ultimately show ?thesis using False by (auto simp: due_def due_list_def expired_def delayed_def)
  qed
qed

lemma remaining_pos: "delay_inv k \<Longrightarrow> remaining k t \<noteq> Some 0"
  by (auto simp: remaining_def delayed_def delay_inv_def unat_eq_0 split: if_splits)

lemma due_remaining: "delay_inv k \<Longrightarrow> t \<in> due k \<longleftrightarrow> remaining k t = Some 1"
proof -
  assume inv: "delay_inv k"
  have "unat (wake_time k t - xTickCount k) = 1 \<longleftrightarrow> wake_time k t = xTickCount k + 1"
    by (metis add.commute diff_eq_eq unat_1 unsigned_word_eqI)
  then show ?thesis by (simp add: due_iff[OF inv] remaining_def)
qed

lemma unat_minus_one: "(a :: 32 word) \<noteq> 0 \<Longrightarrow> unat (a - 1) = unat a - 1"
proof -
  assume "a \<noteq> 0"
  then have "1 \<le> a" by (metis word_le_nat_alt unat_1 unat_eq_0 less_one not_le)
  then show ?thesis by (simp add: unat_sub)
qed

text \<open>The effect of a tick on the time left and on who is ready.\<close>

lemma tick_remaining:
  assumes inv: "delay_inv k" "delay_inv k'" and r: "pxContainer k' = readied (due k) k" "same_tasks k k'"
    "xTickCount k' = xTickCount k + 1" "{pxDelayedTaskList k', pxOverflowDelayedTaskList k'} = {pxDelayedTaskList k, pxOverflowDelayedTaskList k}"
  shows "remaining k' t = tick_down (remaining k t)" "is_ready k' t \<longleftrightarrow> is_ready k t \<or> remaining k t = Some 1"
proof -
  have d: "delayed k' t \<longleftrightarrow> delayed k t \<and> t \<notin> due k"
  proof -
    have nr: "pxDelayedTaskList k \<noteq> Ready p" "pxOverflowDelayedTaskList k \<noteq> Ready p" for p
      using inv(1) by (auto simp: delay_inv_def)
    have "delayed k' t \<longleftrightarrow> state_list k' t \<in> Some ` {pxDelayedTaskList k', pxOverflowDelayedTaskList k'}"
      by (auto simp: delayed_def)
    also have "\<dots> \<longleftrightarrow> state_list k' t \<in> Some ` {pxDelayedTaskList k, pxOverflowDelayedTaskList k}" unfolding r(4) ..
    also have "\<dots> \<longleftrightarrow> delayed k t \<and> t \<notin> due k" using nr nr[symmetric] by (auto simp: r(1) delayed_def)
    finally show ?thesis .
  qed
  have w: "wake_time k' t - xTickCount k' = wake_time k t - xTickCount k - 1"
    by (simp add: same_tasksD(1)[OF r(2)] r(3))
  show "remaining k' t = tick_down (remaining k t)"
  proof (cases "delayed k t")
    case False
    then show ?thesis using d by (simp add: remaining_def)
  next
    case True
    then have nz: "wake_time k t - xTickCount k \<noteq> 0" using remaining_pos[OF inv(1), of t] by (auto simp: remaining_def)
    then obtain m where m: "unat (wake_time k t - xTickCount k) = Suc m" by (metis not0_implies_Suc unat_eq_0)
    have m': "unat (wake_time k t - xTickCount k - 1) = m" using unat_minus_one[OF nz] m by simp
    have "t \<in> due k \<longleftrightarrow> m = 0" using due_remaining[OF inv(1), of t] True m by (simp add: remaining_def)
    then show ?thesis using True d m m' w by (cases m) (simp_all add: remaining_def)
  qed
  show "is_ready k' t \<longleftrightarrow> is_ready k t \<or> remaining k t = Some 1"
    using due_remaining[OF inv(1), of t] by (auto simp: is_ready_def r(1) same_tasksD(3)[OF r(2)])
qed

lemma tick_result_lists:
  assumes "core_inv idle T E k" "core_inv idle T E k'" "pxDelayedTaskList k' = due_list k"
  shows "{pxDelayedTaskList k', pxOverflowDelayedTaskList k'} = {pxDelayedTaskList k, pxOverflowDelayedTaskList k}"
  using core_invD(3)[OF assms(1)] core_invD(3)[OF assms(2)] assms(3) unfolding delay_inv_def by auto

text \<open>A tick keeps ready tasks ready and marks the need for a switch.\<close>

lemma tick_urgent:
  assumes prio: "prio_inv k" and core: "core_inv idle T E k" and cur: "pxCurrentTCB k = Some c"
    and r: "pxContainer k' = readied (due k) k" "same_tasks k k'"
    and sw: "(\<exists>t\<in>due k. uxPriority k t > uxPriority k c) \<or> xYieldPending k \<longrightarrow> sw"
  shows "sw \<or> prio_inv k'"
proof (cases sw)
  case False
  have "pendsv k \<or> xYieldPending k" if "is_ready k' t" "uxPriority k c < uxPriority k t" for t
  proof -
    have "is_ready k t" using that sw False same_tasksD(3)[OF r(2)] by (auto simp: is_ready_def r(1) split: if_splits)
    then show ?thesis using prio cur that(2) unfolding prio_inv_def by blast
  qed
  then show ?thesis using cur same_tasksD[OF r(2)] by (auto simp: prio_inv_def)
qed simp

section \<open>Resuming the scheduler\<close>

lemma kstep_yield: "kstep (k\<lparr>xYieldPending := b\<rparr>) (k'\<lparr>xYieldPending := b\<rparr>) \<longleftrightarrow> kstep k (k'\<lparr>xYieldPending := xYieldPending k\<rparr>)"
  using sorted_list_same[of "k\<lparr>xYieldPending := b\<rparr>" k] sorted_list_same[of "k'\<lparr>xYieldPending := b\<rparr>" k']
    sorted_list_same[of "k'\<lparr>xYieldPending := xYieldPending k\<rparr>" k']
  unfolding kstep_def by (cases k; cases k') auto

definition pending :: "kernel \<Rightarrow> nat set" where
  "pending k = {t. event_list k t = Some xPendingReadyList}"

lemma pending_head:
  assumes inv: "lists_inv T E k" and ne: "t0 \<in> pending k"
  shows "\<exists>t\<in>pending k. t \<in> T \<and> listGET_OWNER_OF_HEAD_ENTRY xPendingReadyList k = Some t"
proof -
  have "event_list k t0 = Some xPendingReadyList" using ne by (simp add: pending_def)
  then obtain i where i: "pxContainer k i = Some xPendingReadyList"
    "listGET_OWNER_OF_HEAD_ENTRY xPendingReadyList k = Some (pvOwner k i)"
    using head_entry[OF lists_invD(1)[OF inv]] by (metis live_simps(3))
  obtain t where t: "i = xEventListItem t" using lists_invD(2)[OF inv i(1)] by auto
  have "t \<in> T" using lists_inv_owner(2)[OF inv i(1) t] .
  then show ?thesis using i t lists_invD(4)[OF inv] by (intro bexI[of _ t]) (simp_all add: pending_def)
qed

lemma pending_empty:
  assumes inv: "lists_inv T E k"
  shows "listLIST_IS_EMPTY xPendingReadyList k \<longleftrightarrow> pending k = {}"
proof -
  have "listLIST_IS_EMPTY xPendingReadyList k \<longleftrightarrow> (\<forall>i. pxContainer k i \<noteq> Some xPendingReadyList)"
    by (intro listLIST_IS_EMPTY_iff[OF lists_invD(1)[OF inv]]) simp
  also have "\<dots> \<longleftrightarrow> pending k = {}" using lists_invD(2)[OF inv, of _ xPendingReadyList] by (auto simp: pending_def)
  finally show ?thesis .
qed

lemma pending_one:
  assumes inv: "lists_inv T E k" "bitmap_inv k" and t: "event_list k t = Some xPendingReadyList" "state_list k t \<noteq> None"
  shows "\<exists>k1 k2 k3. listREMOVE_ITEM (xEventListItem t) k = Some k1 \<and> listREMOVE_ITEM (xStateListItem t) k1 = Some k2 \<and>
    prvAddTaskToReadyList t k2 = Some k3 \<and> lists_inv T E k3 \<and> bitmap_inv k3 \<and> kstep k k3 \<and>
    pxContainer k3 = (pxContainer k)(xStateListItem t := Some (Ready (uxPriority k t)), xEventListItem t := None)"
proof -
  obtain k1 where k1: "listREMOVE_ITEM (xEventListItem t) k = Some k1" "lists_inv T E k1" "bitmap_inv k1" "kstep k k1"
    "pxContainer k1 = (pxContainer k)(xEventListItem t := None)"
    using remove_unready[OF inv t(1)] by blast
  obtain l where l: "state_list k t = Some l" using t(2) by blast
  have nr: "l \<noteq> Ready p" for p
    using lists_invD(2)[OF inv(1) l] lists_invD(7)[OF inv(1), of t] t(1) l by (auto simp: is_ready_def)
  have "state_list k1 t = Some l" using l k1(5) by simp
  then obtain k2 where k2: "listREMOVE_ITEM (xStateListItem t) k1 = Some k2" "lists_inv T E k2" "bitmap_inv k2" "kstep k1 k2"
    "pxContainer k2 = (pxContainer k1)(xStateListItem t := None)"
    using remove_unready[OF k1(2,3) _ nr] by blast
  have tT: "t \<in> T" by (rule state_list_T[OF inv(1) l])
  obtain k3 where k3: "prvAddTaskToReadyList t k2 = Some k3" "lists_inv T E k3" "bitmap_inv k3" "kstep k2 k3"
    "pxContainer k3 = (pxContainer k2)(xStateListItem t := Some (Ready (uxPriority k2 t)))"
    using add_ready[OF k2(2,3) tT] k1(5) k2(5) by auto
  have "pxContainer k3 = (pxContainer k)(xStateListItem t := Some (Ready (uxPriority k t)), xEventListItem t := None)"
    using k3(5) k2(5) k1(5) kstep_fields(3)[OF k2(4)] kstep_fields(3)[OF k1(4)] by (intro ext) simp
  then show ?thesis
    using k1(1) k2(1) k3(1-3) kstep_trans[OF kstep_trans[OF k1(4) k2(4)] k3(4)] by blast
qed

lemma yield_simps:
  "lists_inv T E (k\<lparr>xYieldPending := b\<rparr>) \<longleftrightarrow> lists_inv T E k" "bitmap_inv (k\<lparr>xYieldPending := b\<rparr>) \<longleftrightarrow> bitmap_inv k"
  "readied W (k\<lparr>xYieldPending := b\<rparr>) = readied W k" "pending (k\<lparr>xYieldPending := b\<rparr>) = pending k"
  using lists_inv_same[of "k\<lparr>xYieldPending := b\<rparr>" k T E]
  by (simp_all add: bitmap_inv_def pending_def fun_eq_iff readied_def split: kitem.split)

lemma pending_loop_result:
  assumes "lists_inv T E k" "bitmap_inv k" "\<forall>t\<in>pending k. state_list k t \<noteq> None" "pxCurrentTCB k = Some c"
  shows "\<exists>k'. pending_loop m k = Some (m \<or> pending k \<noteq> {},
      k'\<lparr>xYieldPending := xYieldPending k \<or> (\<exists>t\<in>pending k. uxPriority k c \<le> uxPriority k t)\<rparr>) \<and>
    lists_inv T E k' \<and> bitmap_inv k' \<and> kstep k k' \<and> pxContainer k' = readied (pending k) k"
  using assms
proof (induction "card (pending k)" arbitrary: k m rule: less_induct)
  case less
  note inv = less.prems(1,2) and sl = less.prems(3) and cur = less.prems(4)
  show ?case
  proof (cases "pending k = {}")
    case True
    then have "pending_loop m k = Some (m, k)" using pending_empty[OF inv(1)] by (subst pending_loop.simps) simp
    then show ?thesis using True inv by (intro exI[of _ k]) (simp add: readied_empty)
  next
    case False
    then obtain t where t: "t \<in> pending k" "t \<in> T" "listGET_OWNER_OF_HEAD_ENTRY xPendingReadyList k = Some t"
      using pending_head[OF inv(1)] by blast
    have ev: "event_list k t = Some xPendingReadyList" using t(1) by (simp add: pending_def)
    obtain k1 k2 k3 where k3: "listREMOVE_ITEM (xEventListItem t) k = Some k1" "listREMOVE_ITEM (xStateListItem t) k1 = Some k2"
      "prvAddTaskToReadyList t k2 = Some k3" "lists_inv T E k3" "bitmap_inv k3" "kstep k k3"
      "pxContainer k3 = (pxContainer k)(xStateListItem t := Some (Ready (uxPriority k t)), xEventListItem t := None)"
      using pending_one[OF inv ev bspec[OF sl t(1)]] by blast
    note f = kstep_fields[OF k3(6)]
    define y k4 where "y = (xYieldPending k \<or> uxPriority k c \<le> uxPriority k t)" and "k4 = k3\<lparr>xYieldPending := y\<rparr>"
    have P: "pending k = insert t (pending k4)" "t \<notin> pending k4"
      using k3(7) ev by (auto simp: k4_def pending_def)
    have fin: "finite (pending k)"
      by (rule finite_subset[OF _ lists_inv_finite[OF inv(1)]])
         (use lists_inv_owner(2)[OF inv(1)] in \<open>auto simp: pending_def\<close>)
    then have "finite (pending k4)" unfolding P(1) by simp
    then have card: "card (pending k4) < card (pending k)" unfolding P(1) using P(2) by simp
    have sl4: "\<forall>t\<in>pending k4. state_list k4 t \<noteq> None"
      using sl P k3(7) by (auto simp: k4_def)
    have i4: "lists_inv T E k4" "bitmap_inv k4" "pxCurrentTCB k4 = Some c" "uxPriority k4 = uxPriority k"
      using k3(4,5) f cur by (simp_all add: k4_def yield_simps)
    obtain k' where k': "pending_loop True k4 = Some (True \<or> pending k4 \<noteq> {},
      k'\<lparr>xYieldPending := xYieldPending k4 \<or> (\<exists>t\<in>pending k4. uxPriority k4 c \<le> uxPriority k4 t)\<rparr>)"
      "lists_inv T E k'" "bitmap_inv k'" "kstep k4 k'" "pxContainer k' = readied (pending k4) k4"
      using less.hyps[OF card i4(1,2) sl4 i4(3), of True] by (elim exE conjE) (rule that)
    have yp: "xYieldPending k4 \<or> (\<exists>t\<in>pending k4. uxPriority k4 c \<le> uxPriority k4 t) \<longleftrightarrow>
        xYieldPending k \<or> (\<exists>t\<in>pending k. uxPriority k c \<le> uxPriority k t)"
      unfolding P(1) i4(4) by (auto simp: k4_def y_def)
    define k5 where "k5 = k'\<lparr>xYieldPending := xYieldPending k\<rparr>"
    have yk: "k'\<lparr>xYieldPending := y\<rparr> = k'" using kstep_fields(16)[OF k'(4)] by (simp add: k4_def)
    have "kstep k4 k' \<longleftrightarrow> kstep k3 (k'\<lparr>xYieldPending := xYieldPending k3\<rparr>)"
      using kstep_yield[of y k3 k'] unfolding yk by (simp add: k4_def)
    then have st: "kstep k k5" using k'(4) kstep_trans[OF k3(6)] f(16) by (simp add: k5_def)
    have k4e: "k4 = (if uxPriority k c \<le> uxPriority k t then k3\<lparr>xYieldPending := True\<rparr> else k3)"
      using f(16) unfolding k4_def y_def by (cases k3) simp
    have "\<not> listLIST_IS_EMPTY xPendingReadyList k" using False pending_empty[OF inv(1)] by simp
    then have "pending_loop m k = pending_loop True k4"
      using t(3) k3(1-3) f(3,8) cur
      by (subst pending_loop.simps) (simp add: k4e)
    moreover have "pxContainer k5 = readied (pending k) k"
      unfolding P(1) using k'(5) readied_step[OF k3(7) f(3)] by (simp add: k5_def k4_def yield_simps)
    ultimately show ?thesis
      using k'(1-3) yp False st by (intro exI[of _ k5]) (simp add: k5_def yield_simps)
  qed
qed

lemma placed_same: "uxPriority k' = uxPriority k \<Longrightarrow> placed k' l i = placed k l i"
  by (cases l) simp_all

lemma core_inv_same:
  assumes "core_inv idle T E k" and "same_tasks (k\<lparr>xYieldPending := xYieldPending k', pendsv := pendsv k',
      uxSchedulerSuspended := uxSchedulerSuspended k', xPendedTicks := xPendedTicks k'\<rparr>) k'"
    and "pxNext k' = pxNext k" "pxPrevious k' = pxPrevious k" "pxContainer k' = pxContainer k"
    "uxNumberOfItems k' = uxNumberOfItems k" "pxIndex k' = pxIndex k" "uxTopReadyPriority k' = uxTopReadyPriority k"
    "xTickCount k' = xTickCount k" "xNextTaskUnblockTime k' = xNextTaskUnblockTime k"
    "pxDelayedTaskList k' = pxDelayedTaskList k" "pxOverflowDelayedTaskList k' = pxOverflowDelayedTaskList k"
  shows "core_inv idle T E k'"
proof -
  note f = same_tasksD[OF assms(2), simplified]
  have "lists_inv T E k'" using core_invD(1)[OF assms(1)] lists_inv_same[of k' k T E] f assms(3-7) by simp
  moreover have "sorted_list k' = sorted_list k" using sorted_list_same[of k' k] f assms(3-7) by simp
  ultimately show ?thesis using assms(1) f assms(3-) by (simp add: core_inv_def bitmap_inv_def delay_inv_def is_ready_def)
qed

lemma core_update [simp, intro]:
  "core_inv idle T E k \<Longrightarrow> core_inv idle T E (k\<lparr>xYieldPending := b\<rparr>)"
  "core_inv idle T E k \<Longrightarrow> core_inv idle T E (k\<lparr>pendsv := b\<rparr>)"
  "core_inv idle T E k \<Longrightarrow> core_inv idle T E (k\<lparr>uxSchedulerSuspended := n\<rparr>)"
  "core_inv idle T E k \<Longrightarrow> core_inv idle T E (k\<lparr>xPendedTicks := n\<rparr>)"
  by (erule core_inv_same; simp add: same_tasks_def)+

lemma core_next:
  assumes core: "core_inv idle T E k" and nx: "\<forall>i. pxContainer k i = Some (pxDelayedTaskList k) \<longrightarrow> nx \<le> item_value k i"
  shows "core_inv idle T E (k\<lparr>xNextTaskUnblockTime := nx\<rparr>)"
proof -
  let ?k = "k\<lparr>xNextTaskUnblockTime := nx\<rparr>"
  have "lists_inv T E ?k" using core_invD(1)[OF core] lists_inv_same[of ?k k T E] by simp
  moreover have "sorted_list ?k = sorted_list k" using sorted_list_same[of ?k k] by simp
  ultimately show ?thesis using core nx by (simp add: core_inv_def bitmap_inv_def delay_inv_def is_ready_def)
qed

lemma core_reset_next:
  assumes "core_inv idle T E k"
  obtains nx where "prvResetNextTaskUnblockTime k = k\<lparr>xNextTaskUnblockTime := nx\<rparr>"
    "core_inv idle T E (k\<lparr>xNextTaskUnblockTime := nx\<rparr>)"
proof -
  obtain nx where "prvResetNextTaskUnblockTime k = k\<lparr>xNextTaskUnblockTime := nx\<rparr>"
    "\<forall>i. pxContainer k i = Some (pxDelayedTaskList k) \<longrightarrow> nx \<le> item_value k i"
    using reset_next_result[OF core_invD(1)[OF assms]] delay_lists_distinct[OF core_invD(3)[OF assms]] by blast
  then show thesis using that core_next[OF assms] by blast
qed

text \<open>Readying tasks keeps the invariant; so does any list step that only takes items off the delay lists.\<close>

lemma core_kstep:
  assumes core: "core_inv idle T E k" and st: "kstep k k'" "lists_inv T E k'" "bitmap_inv k'"
    and c: "\<And>i. pxContainer k' i \<in> {Some xDelayedTaskList1, Some xDelayedTaskList2} \<Longrightarrow> pxContainer k' i = pxContainer k i"
      "\<And>t. t \<in> T \<Longrightarrow> state_list k' t \<noteq> None" "is_ready k' idle"
  shows "core_inv idle T E k'"
proof -
  note f = kstep_fields[OF st(1)]
  note D = delay_lists_distinct[OF core_invD(3)[OF core]]
  have "pxContainer k i = Some l" if "pxContainer k' i = Some l" "l = xDelayedTaskList1 \<or> l = xDelayedTaskList2" for i l
    using c(1)[of i] that by auto
  then have "delay_inv k'"
    using core_invD(3)[OF core] kstep_sorted[OF st(1)] D unfolding delay_inv_def f by blast
  then show ?thesis using core st(2,3) c(2,3) f by (simp add: core_inv_def)
qed

text \<open>What waking up and the passing of time leave alone.\<close>

definition kept :: "kernel \<Rightarrow> kernel \<Rightarrow> bool" where
  "kept k k' \<longleftrightarrow>
     xItemValue k' = xItemValue k \<and> pvOwner k' = pvOwner k \<and> uxPriority k' = uxPriority k \<and>
     uxBasePriority k' = uxBasePriority k \<and> uxMutexesHeld k' = uxMutexesHeld k \<and>
     ulNotifiedValue k' = ulNotifiedValue k \<and> ucNotifyState k' = ucNotifyState k \<and> pxCurrentTCB k' = pxCurrentTCB k \<and>
     (\<forall>t. is_ready k t \<longrightarrow> is_ready k' t) \<and> (xYieldPending k \<longrightarrow> xYieldPending k') \<and> (pendsv k \<longrightarrow> pendsv k')"

lemma kept_refl [simp]: "kept k k"
  by (simp add: kept_def)

lemma kept_trans: "kept k k' \<Longrightarrow> kept k' k'' \<Longrightarrow> kept k k''"
  by (simp add: kept_def)

lemma kept_same_tasks: "same_tasks k k' \<Longrightarrow> pxContainer k' = readied W k \<Longrightarrow> kept k k'"
  by (simp add: same_tasks_def kept_def is_ready_def)

lemma keptD:
  assumes "kept k k'"
  shows "xItemValue k' = xItemValue k" "pvOwner k' = pvOwner k" "uxPriority k' = uxPriority k"
    "uxBasePriority k' = uxBasePriority k" "ucNotifyState k' = ucNotifyState k" "pxCurrentTCB k' = pxCurrentTCB k"
    "is_ready k t \<Longrightarrow> is_ready k' t" "xYieldPending k \<Longrightarrow> xYieldPending k'" "pendsv k \<Longrightarrow> pendsv k'"
  using assms unfolding kept_def by simp_all

lemma tick_down_Some: "tick_down x = Some m \<longleftrightarrow> 0 < m \<and> x = Some (Suc m)"
  by (cases x rule: tick_down.cases) auto

lemma prio_yield: "prio_inv (k\<lparr>xYieldPending := True\<rparr>)" "prio_inv (k\<lparr>pendsv := True\<rparr>)"
  by (simp_all add: prio_inv_def)

lemma readied_pending: "readied W k i = Some xPendingReadyList \<Longrightarrow> pxContainer k i = Some xPendingReadyList"
  by (rule readied_other) simp_all

lemma remaining_yield [simp]: "remaining (k\<lparr>xYieldPending := b\<rparr>) = remaining k"
  by (simp add: fun_eq_iff remaining_def delayed_def)

lemma is_ready_yield [simp]: "is_ready (k\<lparr>xYieldPending := b\<rparr>) = is_ready k"
  by (simp add: fun_eq_iff is_ready_def)

text \<open>One tick of the running scheduler.\<close>

lemma tick_step:
  assumes core: "core_inv idle T E k" and prio: "prio_inv k" and un: "uxSchedulerSuspended k = 0"
  shows "\<exists>sw k'. xTaskIncrementTick k = Some (sw, k') \<and> core_inv idle T E k' \<and> (sw \<or> prio_inv k') \<and> same_tasks k k' \<and> kept k k' \<and>
    xTickCount k' = xTickCount k + 1 \<and> (\<forall>t. remaining k' t = tick_down (remaining k t)) \<and>
    (\<forall>t. is_ready k' t \<longleftrightarrow> is_ready k t \<or> remaining k t = Some 1) \<and>
    (\<forall>i. pxContainer k' i = Some xPendingReadyList \<longrightarrow> pxContainer k i = Some xPendingReadyList) \<and> (xYieldPending k \<longrightarrow> sw) \<and>
    xNumOfOverflows k' = xNumOfOverflows k + (if xTickCount k + 1 = 0 then 1 else 0)"
proof -
  obtain c where cur: "pxCurrentTCB k = Some c" using core_invD(7)[OF core] by blast
  obtain sw k' where r: "xTaskIncrementTick k = Some (sw, k')" "core_inv idle T E k'" "same_tasks k k'"
    "pxContainer k' = readied (due k) k" "xTickCount k' = xTickCount k + 1" "pxDelayedTaskList k' = due_list k"
    "(\<exists>t\<in>due k. uxPriority k t > uxPriority k c) \<or> xYieldPending k \<longrightarrow> sw"
    "xNumOfOverflows k' = xNumOfOverflows k + (if xTickCount k + 1 = 0 then 1 else 0)"
    using tick_result[OF core un cur] by (elim exE conjE) (rule that)
  note tr = tick_remaining[OF core_invD(3)[OF core] core_invD(3)[OF r(2)] r(4,3,5) tick_result_lists[OF core r(2,6)]]
  have "sw \<or> prio_inv k'" by (rule tick_urgent[OF prio core cur r(4,3,7)])
  moreover have "pxContainer k' i = Some xPendingReadyList \<longrightarrow> pxContainer k i = Some xPendingReadyList" for i
    unfolding r(4) by (rule impI, erule readied_pending)
  ultimately show ?thesis using r(1-3,5,7,8) tr kept_same_tasks[OF r(3,4)] by (intro exI[of _ sw] exI[of _ k'] conjI) blast+
qed

text \<open>The ticks counted while the scheduler was suspended, made up for.\<close>

lemma pended_ticks_result:
  assumes "core_inv idle T E k" "prio_inv k" "uxSchedulerSuspended k = 0"
  shows "\<exists>k'. pended_ticks_loop n k = Some k' \<and> core_inv idle T E k' \<and> prio_inv k' \<and> kept k k' \<and>
    uxSchedulerSuspended k' = 0 \<and> xTickCount k' = xTickCount k + of_nat n \<and>
    (\<forall>t. remaining k' t = (tick_down ^^ n) (remaining k t)) \<and>
    (\<forall>t. is_ready k' t \<longleftrightarrow> is_ready k t \<or> (\<exists>m\<le>n. remaining k t = Some m)) \<and>
    (\<forall>i. pxContainer k' i = Some xPendingReadyList \<longrightarrow> pxContainer k i = Some xPendingReadyList)"
  using assms
proof (induction n arbitrary: k)
  case 0
  have "remaining k t \<noteq> Some 0" for t by (rule remaining_pos[OF core_invD(3)[OF 0(1)]])
  then show ?case using 0 by (intro exI[of _ k]) simp
next
  case (Suc n)
  obtain sw k1 where k1: "xTaskIncrementTick k = Some (sw, k1)" "core_inv idle T E k1" "sw \<or> prio_inv k1"
    "same_tasks k k1" "kept k k1" "xTickCount k1 = xTickCount k + 1"
    "\<forall>t. remaining k1 t = tick_down (remaining k t)" "\<forall>t. is_ready k1 t \<longleftrightarrow> is_ready k t \<or> remaining k t = Some 1"
    "\<forall>i. pxContainer k1 i = Some xPendingReadyList \<longrightarrow> pxContainer k i = Some xPendingReadyList"
    using tick_step[OF Suc.prems] by (elim exE conjE) (rule that)
  define k2 where "k2 = (if sw then k1\<lparr>xYieldPending := True\<rparr> else k1)"
  have f: "core_inv idle T E k2" "prio_inv k2" "uxSchedulerSuspended k2 = 0" "kept k k2"
    "xTickCount k2 = xTickCount k1" "remaining k2 = remaining k1" "is_ready k2 = is_ready k1" "pxContainer k2 = pxContainer k1"
    using k1(2,3,5) Suc.prems(3) same_tasksD(13)[OF k1(4)] by (auto simp: k2_def prio_yield kept_def)
  obtain k' where k': "pended_ticks_loop n k2 = Some k'" "core_inv idle T E k'" "prio_inv k'" "kept k2 k'"
    "uxSchedulerSuspended k' = 0" "xTickCount k' = xTickCount k2 + of_nat n"
    "\<forall>t. remaining k' t = (tick_down ^^ n) (remaining k2 t)"
    "\<forall>t. is_ready k' t \<longleftrightarrow> is_ready k2 t \<or> (\<exists>m\<le>n. remaining k2 t = Some m)"
    "\<forall>i. pxContainer k' i = Some xPendingReadyList \<longrightarrow> pxContainer k2 i = Some xPendingReadyList"
    using Suc.IH[OF f(1-3)] by (elim exE conjE) (rule that)
  have run: "pended_ticks_loop (Suc n) k = Some k'" using k1(1) k'(1) by (simp add: k2_def)
  have rem: "remaining k' t = (tick_down ^^ Suc n) (remaining k t)" for t
    using k'(7) f(6) k1(7) by (simp add: funpow_swap1)
  have rdy: "is_ready k' t \<longleftrightarrow> is_ready k t \<or> (\<exists>m\<le>Suc n. remaining k t = Some m)" for t
  proof -
    have "remaining k t \<noteq> Some 0" by (rule remaining_pos[OF core_invD(3)[OF Suc.prems(1)]])
    then have "remaining k t = Some 1 \<or> (\<exists>m\<le>n. tick_down (remaining k t) = Some m) \<longleftrightarrow> (\<exists>m\<le>Suc n. remaining k t = Some m)"
    proof (cases "remaining k t")
      case (Some a)
      then obtain b where "a = Suc b" using \<open>remaining k t \<noteq> Some 0\<close> by (cases a) auto
      then show ?thesis using Some by (auto simp: tick_down_Some)
    qed simp
    then show ?thesis using k'(8) f(6,7) k1(7,8) by simp
  qed
  show ?case
    using run k'(2,3,5,6,9) kept_trans[OF f(4) k'(4)] rem rdy f(5,8) k1(6,9)
    by (intro exI[of _ k'] conjI) (simp_all add: algebra_simps)
qed

text \<open>The pending tasks become ready.\<close>

lemma pending_result:
  assumes core: "core_inv idle T E k" and prio: "prio_inv k"
  shows "\<exists>m k'. pending_loop False k = Some (m, k') \<and> core_inv idle T E k' \<and> prio_inv k' \<and> kept k k' \<and>
    pxContainer k' = readied (pending k) k \<and> (m \<longleftrightarrow> pending k \<noteq> {}) \<and> xTickCount k' = xTickCount k \<and>
    uxSchedulerSuspended k' = uxSchedulerSuspended k \<and> xPendedTicks k' = xPendedTicks k \<and>
    pxDelayedTaskList k' = pxDelayedTaskList k \<and> pxOverflowDelayedTaskList k' = pxOverflowDelayedTaskList k"
proof -
  note inv = core_invD(1-3)[OF core]
  obtain c where cur: "pxCurrentTCB k = Some c" using core_invD(7)[OF core] by blast
  have sl: "\<forall>t\<in>pending k. state_list k t \<noteq> None"
    using core_invD(4)[OF core] lists_inv_owner(2)[OF inv(1)] unfolding pending_def by blast
  define y where "y = (xYieldPending k \<or> (\<exists>t\<in>pending k. uxPriority k c \<le> uxPriority k t))"
  obtain k1 where k1: "pending_loop False k = Some (pending k \<noteq> {}, k1\<lparr>xYieldPending := y\<rparr>)"
    "lists_inv T E k1" "bitmap_inv k1" "kstep k k1" "pxContainer k1 = readied (pending k) k"
    using pending_loop_result[OF inv(1,2) sl cur, of False] unfolding y_def by auto
  note f = kstep_fields[OF k1(4)]
  have c1: "core_inv idle T E k1"
  proof (rule core_kstep[OF core k1(4,2,3)])
    fix i assume "pxContainer k1 i \<in> {Some xDelayedTaskList1, Some xDelayedTaskList2}"
    then show "pxContainer k1 i = pxContainer k i" unfolding k1(5) by (auto simp: readied_def split: kitem.splits if_splits)
  next
    show "state_list k1 t \<noteq> None" if "t \<in> T" for t using core_invD(4)[OF core that] by (simp add: k1(5))
    show "is_ready k1 idle" using core_invD(6)[OF core] by (simp add: k1(5) is_ready_def f(3))
  qed
  have p1: "prio_inv (k1\<lparr>xYieldPending := y\<rparr>)"
  proof (cases y)
    case False
    then have "is_ready k t" if "is_ready k1 t" "uxPriority k c < uxPriority k t" for t
      using that unfolding is_ready_def f(3) k1(5) y_def by (auto split: if_splits)
    then show ?thesis using prio cur False unfolding prio_inv_def y_def by (simp add: f(3,8,21) is_ready_def) blast
  qed (simp add: prio_yield)
  show ?thesis
    by (intro exI[of _ "pending k \<noteq> {}"] exI[of _ "k1\<lparr>xYieldPending := y\<rparr>"] conjI k1(1) core_update(1) c1 p1)
       (use k1(5) f y_def in \<open>simp_all add: kept_def is_ready_def\<close>)
qed

lemma remaining_pending:
  assumes "delay_inv k" "pxContainer k' = readied (pending k) k" "xItemValue k' = xItemValue k" "xTickCount k' = xTickCount k"
    "pxDelayedTaskList k' = pxDelayedTaskList k" "pxOverflowDelayedTaskList k' = pxOverflowDelayedTaskList k"
  shows "remaining k' t = (if t \<in> pending k then None else remaining k t)"
  using delay_lists_distinct(1,2)[OF assms(1)] assms(2-6) by (auto simp: remaining_def delayed_def)

lemma resume_core:
  assumes core: "core_inv idle T E k" and prio: "prio_inv k" and s: "uxSchedulerSuspended k = 1"
  shows "\<exists>y k'. xTaskResumeAll k = Some (y, k') \<and> core_inv idle T E k' \<and> prio_inv k' \<and> susp_inv k' \<and> kept k k' \<and> (y \<longrightarrow> pendsv k') \<and>
    uxSchedulerSuspended k' = 0 \<and> xTickCount k' = xTickCount k + xPendedTicks k \<and>
    (\<forall>t. remaining k' t = (if t \<in> pending k then None else (tick_down ^^ unat (xPendedTicks k)) (remaining k t))) \<and>
    (\<forall>t. is_ready k' t \<longleftrightarrow> is_ready k t \<or> t \<in> pending k \<or> (\<exists>m\<le>unat (xPendedTicks k). remaining k t = Some m))"
proof -
  define k0 where "k0 = k\<lparr>uxSchedulerSuspended := 0\<rparr>"
  have c0: "core_inv idle T E k0" "prio_inv k0" "pending k0 = pending k" "kept k k0" "remaining k0 = remaining k"
    using core prio by (simp_all add: k0_def prio_inv_def is_ready_def pending_def kept_def fun_eq_iff remaining_def delayed_def)
  have f0: "xTickCount k0 = xTickCount k" "uxSchedulerSuspended k0 = 0" "xPendedTicks k0 = xPendedTicks k"
    by (simp_all add: k0_def)
  obtain m k1 where k1: "pending_loop False k0 = Some (m, k1)" "core_inv idle T E k1" "prio_inv k1" "kept k0 k1"
    "pxContainer k1 = readied (pending k) k0" "m \<longleftrightarrow> pending k \<noteq> {}" "xTickCount k1 = xTickCount k"
    "uxSchedulerSuspended k1 = 0" "xPendedTicks k1 = xPendedTicks k"
    "pxDelayedTaskList k1 = pxDelayedTaskList k0" "pxOverflowDelayedTaskList k1 = pxOverflowDelayedTaskList k0"
    using pending_result[OF c0(1,2)] unfolding c0(3) f0 by (elim exE conjE) (rule that)
  obtain nx where nx: "prvResetNextTaskUnblockTime k1 = k1\<lparr>xNextTaskUnblockTime := nx\<rparr>"
    "core_inv idle T E (k1\<lparr>xNextTaskUnblockTime := nx\<rparr>)" by (rule core_reset_next[OF k1(2)])
  define k2 where "k2 = (if m then k1\<lparr>xNextTaskUnblockTime := nx\<rparr> else k1)"
  let ?n = "unat (xPendedTicks k)"
  have c2: "core_inv idle T E k2" "prio_inv k2" "uxSchedulerSuspended k2 = 0" "xPendedTicks k2 = xPendedTicks k"
    "kept k1 k2" "xTickCount k2 = xTickCount k" "remaining k2 = remaining k1" "is_ready k2 = is_ready k1"
    "pxContainer k2 = pxContainer k1"
    using k1(2,3,7-9) nx(2)
    by (simp_all add: k2_def prio_inv_def is_ready_def kept_def fun_eq_iff remaining_def delayed_def)
  obtain k3 where k3: "pended_ticks_loop ?n k2 = Some k3" "core_inv idle T E k3" "prio_inv k3" "kept k2 k3"
    "uxSchedulerSuspended k3 = 0" "xTickCount k3 = xTickCount k2 + of_nat ?n"
    "\<forall>t. remaining k3 t = (tick_down ^^ ?n) (remaining k2 t)"
    "\<forall>t. is_ready k3 t \<longleftrightarrow> is_ready k2 t \<or> (\<exists>m\<le>?n. remaining k2 t = Some m)"
    "\<forall>i. pxContainer k3 i = Some xPendingReadyList \<longrightarrow> pxContainer k2 i = Some xPendingReadyList"
    using pended_ticks_result[OF c2(1-3), of ?n] by (elim exE conjE) (rule that)
  define k4 where "k4 = (if xPendedTicks k > 0 then k3\<lparr>xPendedTicks := 0\<rparr> else k3)"
  define k5 where "k5 = (if xYieldPending k4 then portYIELD k4 else k4)"
  have rem: "remaining k1 t = (if t \<in> pending k then None else remaining k t)" for t
    using remaining_pending[of k0 k1 t] k1(5,7,10,11) keptD(1)[OF k1(4)] core_invD(3)[OF c0(1)] c0(3,5) by (simp add: k0_def)
  have rdy: "is_ready k1 t \<longleftrightarrow> is_ready k t \<or> t \<in> pending k" for t
    using keptD(3)[OF k1(4)] by (simp add: is_ready_def k1(5)) (simp add: k0_def)
  have f5: "kept k3 k5" "uxSchedulerSuspended k5 = 0" "xTickCount k5 = xTickCount k + xPendedTicks k"
      "remaining k5 = remaining k3" "is_ready k5 = is_ready k3" "pxContainer k5 = pxContainer k3" "prio_inv k5" "core_inv idle T E k5"
    using k3(2,3,5,6) c2(6)
    by (auto simp: k5_def k4_def portYIELD_def kept_def is_ready_def fun_eq_iff remaining_def delayed_def prio_inv_def)
  have dn: "(tick_down ^^ n) None = None" for n by (induction n) simp_all
  have K: "kept k k5" using c0(4) k1(4) c2(5) k3(4) f5(1) kept_trans by blast
  have ps: "pxContainer k5 i \<noteq> Some xPendingReadyList" for i
  proof
    assume a: "pxContainer k5 i = Some xPendingReadyList"
    then have b: "pxContainer k1 i = Some xPendingReadyList" using k3(9) f5(6) c2(9) by simp
    then obtain t where t: "i = xEventListItem t" using lists_invD(2)[OF core_invD(1)[OF k1(2)] b] by auto
    then have "t \<in> pending k" using b k1(5) readied_pending[of "pending k" k0 i] by (simp add: pending_def k0_def)
    then show False using b k1(5) t by simp
  qed
  have pt: "xPendedTicks k5 = 0" "(xYieldPending k4 \<longrightarrow> pendsv k5)"
  proof -
    have "xPendedTicks k3 = 0" if "\<not> xPendedTicks k > 0" using that k3(1) c2(4) by (simp add: word_greater_zero_iff)
    then show "xPendedTicks k5 = 0" by (simp add: k5_def k4_def portYIELD_def)
  qed (simp add: k5_def portYIELD_def)
  have "susp_inv k5" using ps pt by (simp add: susp_inv_def)
  moreover have "xTaskResumeAll k = Some (xYieldPending k4, k5)"
  proof -
    have "(if m then prvResetNextTaskUnblockTime k1 else k1) = k2" using nx(1) by (simp add: k2_def)
    moreover have "(if xPendedTicks k2 > 0
        then do { k \<leftarrow> pended_ticks_loop (unat (xPendedTicks k2)) k2; Some (k\<lparr>xPendedTicks := 0\<rparr>) } else Some k2) = Some k4"
      using k3(1) c2(4) by (cases "xPendedTicks k = 0") (simp_all add: k4_def word_greater_zero_iff)
    moreover have "uxSchedulerSuspended k0 = 0" "uxCurrentNumberOfTasks k0 \<noteq> 0" using core_invD(9)[OF c0(1)] f0 by simp_all
    ultimately show ?thesis
      using s k1(1)
      by (simp add: xTaskResumeAll_def k0_def[symmetric] word_greater_zero_iff k5_def)
  qed
  ultimately show ?thesis
    using K pt(2) f5(2,3,7,8) k3(7,8) f5(4,5) c2(7,8) rem rdy dn
    by (intro exI[of _ "xYieldPending k4"] exI[of _ k5]) auto
qed

lemma resume_result:
  assumes ok: "kernel_ok idle T E k" and s: "uxSchedulerSuspended k = 1"
  shows "\<exists>y k'. xTaskResumeAll k = Some (y, k') \<and> kernel_ok idle T E k' \<and> kept k k' \<and> (y \<longrightarrow> pendsv k') \<and>
    uxSchedulerSuspended k' = 0 \<and> xTickCount k' = xTickCount k + xPendedTicks k \<and>
    (\<forall>t. remaining k' t = (if t \<in> pending k then None else (tick_down ^^ unat (xPendedTicks k)) (remaining k t))) \<and>
    (\<forall>t. is_ready k' t \<longleftrightarrow> is_ready k t \<or> t \<in> pending k \<or> (\<exists>m\<le>unat (xPendedTicks k). remaining k t = Some m))"
proof -
  have core: "core_inv idle T E k" and prio: "prio_inv k" and run: "run_inv k" using ok by (simp_all add: kernel_ok_def)
  have rr: "run_inv k'" if "kept k k'" for k' using run s keptD(6,7)[OF that] by (auto simp: run_inv_def)
  show ?thesis using resume_core[OF core prio s] rr unfolding kernel_ok_def by blast
qed

lemma resume_nested:
  assumes ok: "kernel_ok idle T E k" and s: "uxSchedulerSuspended k \<noteq> 0" "uxSchedulerSuspended k \<noteq> 1"
  shows "xTaskResumeAll k = Some (False, k\<lparr>uxSchedulerSuspended := uxSchedulerSuspended k - 1\<rparr>) \<and>
    kernel_ok idle T E (k\<lparr>uxSchedulerSuspended := uxSchedulerSuspended k - 1\<rparr>)"
  using ok s by (auto simp: kernel_ok_def xTaskResumeAll_def Let_def prio_inv_def run_inv_def susp_inv_def is_ready_def)

section \<open>Operations of the running task\<close>

text \<open>The running task \<open>c\<close> has been put to sleep for \<open>n\<close> ticks; nothing else has changed.\<close>

definition sleeps :: "nat \<Rightarrow> nat \<Rightarrow> kernel \<Rightarrow> kernel \<Rightarrow> bool" where
  "sleeps c n k k' \<longleftrightarrow> remaining k' = (remaining k)(c := Some n) \<and> is_ready k' = (is_ready k)(c := False) \<and>
     uxPriority k' = uxPriority k \<and> uxBasePriority k' = uxBasePriority k \<and> pxCurrentTCB k' = pxCurrentTCB k \<and>
     xTickCount k' = xTickCount k \<and> uxSchedulerSuspended k' = uxSchedulerSuspended k"

lemma block_effect:
  assumes core: "core_inv_but c idle T E k" and cur: "pxCurrentTCB k = Some c" "is_ready k c" "c \<noteq> idle"
    and n: "n \<noteq> 0" "\<not> (n = portMAX_DELAY \<and> indef)" and prio: "prio_inv k"
  shows "\<exists>k'. prvAddCurrentTaskToDelayedList n indef k = Some k' \<and> core_inv idle T E k' \<and> prio_inv k' \<and> sleeps c (unat n) k k' \<and>
    event_list k' = event_list k \<and> ucNotifyState k' = ucNotifyState k \<and> xPendedTicks k' = xPendedTicks k \<and>
    pendsv k' = pendsv k \<and> xYieldPending k' = xYieldPending k"
proof -
  obtain k' where k': "prvAddCurrentTaskToDelayedList n indef k = Some k'" "core_inv idle T E k'"
    "same_tasks (with_wake c n k) k'" "pxContainer k' = (pxContainer k)(xStateListItem c := Some (block_list k n))"
    "xTickCount k' = xTickCount k" "pxDelayedTaskList k' = pxDelayedTaskList k"
    "pxOverflowDelayedTaskList k' = pxOverflowDelayedTaskList k"
    using block_result[OF core cur n] by (elim exE conjE) (rule that)
  note f = same_tasksD[OF k'(3), unfolded with_wake_def listSET_LIST_ITEM_VALUE_def, simplified]
  have nr: "block_list k n \<noteq> Ready p" for p
    using delay_lists_distinct[of k] core by (auto simp: block_list_def core_inv_but_def)
  have "remaining k' = (remaining k)(c := Some (unat n))"
    by (intro ext) (simp add: remaining_def delayed_def k'(4-7) f block_list_def)
  moreover have rdy: "is_ready k' = (is_ready k)(c := False)"
    by (intro ext) (simp add: is_ready_def k'(4) f nr)
  moreover have "prio_inv k'" using prio unfolding prio_inv_def rdy f by auto
  moreover have "event_list k' = event_list k" by (intro ext) (simp add: k'(4))
  ultimately show ?thesis using k'(1,2,5) f by (intro exI[of _ k']) (simp add: sleeps_def)
qed

lemma sleep_resume:
  assumes ok: "kernel_ok idle T E k" and un: "uxSchedulerSuspended k = 0"
    and cur: "pxCurrentTCB k = Some c" "is_ready k c" "c \<noteq> idle" and n: "n \<noteq> 0"
  shows "\<exists>y k1 k'. prvAddCurrentTaskToDelayedList n False (vTaskSuspendAll k) = Some k1 \<and> xTaskResumeAll k1 = Some (y, k') \<and>
    core_inv idle T E k' \<and> prio_inv k' \<and> susp_inv k' \<and> (y \<longrightarrow> pendsv k') \<and> sleeps c (unat n) k k'"
proof -
  have core: "core_inv idle T E k" and prio: "prio_inv k" and su: "susp_inv k" using ok by (simp_all add: kernel_ok_def)
  define k0 where "k0 = vTaskSuspendAll k"
  have k0: "core_inv idle T E k0" "prio_inv k0" "pxCurrentTCB k0 = Some c" "is_ready k0 = is_ready k" "remaining k0 = remaining k"
    "uxSchedulerSuspended k0 = 1" "pxContainer k0 = pxContainer k" "xPendedTicks k0 = 0" "uxPriority k0 = uxPriority k"
    "uxBasePriority k0 = uxBasePriority k" "xTickCount k0 = xTickCount k"
    using core prio un cur(1) su
    by (auto simp: k0_def vTaskSuspendAll_def prio_inv_def is_ready_def fun_eq_iff remaining_def delayed_def susp_inv_def)
  obtain k1 where k1: "prvAddCurrentTaskToDelayedList n False k0 = Some k1" "core_inv idle T E k1" "prio_inv k1"
    "sleeps c (unat n) k0 k1" "event_list k1 = event_list k0" "xPendedTicks k1 = xPendedTicks k0"
    using block_effect[OF core_inv_but_weak[OF k0(1,3)] k0(3) _ cur(3) n _ k0(2), of False] k0(4) cur(2) by auto
  have pend: "pending k1 = {}" using su un k1(5) k0(7) fun_cong[OF k1(5)] by (auto simp: pending_def susp_inv_def)
  have "uxSchedulerSuspended k1 = 1" using k1(4) k0(6) by (simp add: sleeps_def)
  then obtain y k' where k': "xTaskResumeAll k1 = Some (y, k')" "core_inv idle T E k'" "prio_inv k'" "susp_inv k'" "kept k1 k'"
    "y \<longrightarrow> pendsv k'" "uxSchedulerSuspended k' = 0" "xTickCount k' = xTickCount k1 + xPendedTicks k1"
    "\<forall>t. remaining k' t = (if t \<in> pending k1 then None else (tick_down ^^ unat (xPendedTicks k1)) (remaining k1 t))"
    "\<forall>t. is_ready k' t \<longleftrightarrow> is_ready k1 t \<or> t \<in> pending k1 \<or> (\<exists>m\<le>unat (xPendedTicks k1). remaining k1 t = Some m)"
    using resume_core[OF k1(2,3)] by blast
  have z: "unat (xPendedTicks k1) = 0" using k1(6) k0(8) by simp
  have "remaining k1 t \<noteq> Some 0" for t by (rule remaining_pos[OF core_invD(3)[OF k1(2)]])
  then have "is_ready k' = is_ready k1" using k'(10) pend z by (intro ext) simp
  moreover have "remaining k' = remaining k1" using k'(9) pend z by (intro ext) simp
  ultimately have "sleeps c (unat n) k k'"
    using k1(4,6) k0 k'(7,8) keptD(3,4,6)[OF k'(5)] un cur(1) by (simp add: sleeps_def)
  then show ?thesis using k1(1) k'(1-4,6) unfolding k0_def by blast
qed

lemma kernel_ok_yield:
  assumes "core_inv idle T E k" "susp_inv k" "uxSchedulerSuspended k = 0"
  shows "kernel_ok idle T E (k\<lparr>pendsv := True\<rparr>)"
  using assms by (auto simp: kernel_ok_def prio_inv_def run_inv_def susp_inv_def)

lemma sleeps_yield [simp]: "sleeps c n k (k'\<lparr>pendsv := b\<rparr>) \<longleftrightarrow> sleeps c n k k'"
  by (simp add: sleeps_def fun_eq_iff remaining_def delayed_def is_ready_def)

lemma yielded:
  assumes "core_inv idle T E k" "susp_inv k" "uxSchedulerSuspended k = 0" "y \<longrightarrow> pendsv k"
  shows "kernel_ok idle T E (if \<not> y then portYIELD k else k) \<and> pendsv (if \<not> y then portYIELD k else k) \<and>
    (sleeps c n k0 k \<longrightarrow> sleeps c n k0 (if \<not> y then portYIELD k else k))"
proof (cases y)
  case True
  then have p: "pendsv k" using assms(4) by simp
  then have e: "k\<lparr>pendsv := True\<rparr> = k" by (cases k) simp
  show ?thesis using kernel_ok_yield[OF assms(1-3)] True p unfolding e by simp
qed (use kernel_ok_yield[OF assms(1-3)] in \<open>simp add: portYIELD_def\<close>)

lemma delay_result:
  assumes ok: "kernel_ok idle T E k" and un: "uxSchedulerSuspended k = 0"
    and cur: "pxCurrentTCB k = Some c" "is_ready k c" "c \<noteq> idle" and n: "n \<noteq> 0"
  shows "\<exists>k'. vTaskDelay n k = Some k' \<and> kernel_ok idle T E k' \<and> pendsv k' \<and> sleeps c (unat n) k k'"
proof -
  obtain y k1 k' where k': "prvAddCurrentTaskToDelayedList n False (vTaskSuspendAll k) = Some k1" "xTaskResumeAll k1 = Some (y, k')"
    "core_inv idle T E k'" "prio_inv k'" "susp_inv k'" "y \<longrightarrow> pendsv k'" "sleeps c (unat n) k k'"
    using sleep_resume[OF assms] by blast
  have un': "uxSchedulerSuspended k' = 0" using k'(7) un by (simp add: sleeps_def)
  have "vTaskDelay n k = Some (if \<not> y then portYIELD k' else k')"
    using n k'(1,2) by (simp add: vTaskDelay_def word_greater_zero_iff)
  then show ?thesis using yielded[OF k'(3,5) un' k'(6)] k'(7) by blast
qed

text \<open>\<open>xTaskDelayUntil\<close> waits unless the time of waking has passed, also when the tick count or the time of
  waking has overflowed in between.\<close>

lemma should_delay_iff:
  "should_delay now prev (prev + inc) \<longleftrightarrow> unat (now - prev) < unat inc"
proof -
  have b: "unat now < 2 ^ 32" "unat prev < 2 ^ 32" "unat inc < 2 ^ 32" using unsigned_less[of now] unsigned_less[of prev] unsigned_less[of inc] by simp_all
  have s: "unat (prev + inc) = (if unat prev + unat inc < 2 ^ 32 then unat prev + unat inc else unat prev + unat inc - 2 ^ 32)"
    by (simp add: unat_plus_if_size word_size)
  have d: "unat (now - prev) = (if unat prev \<le> unat now then unat now - unat prev else unat now + 2 ^ 32 - unat prev)"
    by (simp add: unat_sub_if_size word_size)
  show ?thesis
    unfolding should_delay_def word_less_nat_alt s d using b by auto
qed

lemma delay_until_ticks: "(prev :: 32 word) + inc - now = inc - (now - prev)"
  by simp

lemma suspend_all_result:
  assumes "kernel_ok idle T E k" "uxSchedulerSuspended k + 1 \<noteq> 0" "pxCurrentTCB k = Some c" "is_ready k c"
  shows "kernel_ok idle T E (vTaskSuspendAll k)"
  using assms by (auto simp: kernel_ok_def vTaskSuspendAll_def prio_inv_def run_inv_def susp_inv_def is_ready_def)

lemma resume_idle:
  assumes ok: "kernel_ok idle T E k" and un: "uxSchedulerSuspended k = 0"
    and cur: "pxCurrentTCB k = Some c" "is_ready k c"
  shows "\<exists>y k'. xTaskResumeAll (vTaskSuspendAll k) = Some (y, k') \<and> kernel_ok idle T E k' \<and> kept k k' \<and> (y \<longrightarrow> pendsv k') \<and>
    uxSchedulerSuspended k' = 0 \<and> xTickCount k' = xTickCount k \<and> remaining k' = remaining k \<and> is_ready k' = is_ready k"
proof -
  define k0 where "k0 = vTaskSuspendAll k"
  have su: "susp_inv k" using ok by (simp add: kernel_ok_def)
  have k0: "kernel_ok idle T E k0" "uxSchedulerSuspended k0 = 1" "pending k0 = {}" "xPendedTicks k0 = 0" "xTickCount k0 = xTickCount k"
    "remaining k0 = remaining k" "is_ready k0 = is_ready k" "kept k k0"
    using suspend_all_result[OF ok _ cur] un su
    by (simp_all add: k0_def vTaskSuspendAll_def pending_def susp_inv_def remaining_def delayed_def is_ready_def fun_eq_iff kept_def)
  have "remaining k t \<noteq> Some 0" for t using remaining_pos[OF core_invD(3), of idle T E k] ok by (simp add: kernel_ok_def)
  then show ?thesis
    using resume_result[OF k0(1,2)] kept_trans[OF k0(8)] unfolding k0_def[symmetric] k0(3-7) by (simp add: fun_eq_iff) blast
qed

lemma delay_until_result:
  assumes ok: "kernel_ok idle T E k" and un: "uxSchedulerSuspended k = 0"
    and cur: "pxCurrentTCB k = Some c" "is_ready k c" "c \<noteq> idle"
  shows "\<exists>k'. xTaskDelayUntil prev inc k = Some (unat (xTickCount k - prev) < unat inc, prev + inc, k') \<and>
    kernel_ok idle T E k' \<and> pendsv k' \<and>
    (if unat (xTickCount k - prev) < unat inc then sleeps c (unat inc - unat (xTickCount k - prev)) k k'
     else kept k k' \<and> xTickCount k' = xTickCount k \<and> remaining k' = remaining k \<and> is_ready k' = is_ready k \<and>
       uxSchedulerSuspended k' = 0)"
proof -
  let ?e = "xTickCount k - prev"
  have sd: "should_delay (xTickCount (vTaskSuspendAll k)) prev (prev + inc) \<longleftrightarrow> unat ?e < unat inc"
    by (simp add: should_delay_iff vTaskSuspendAll_def)
  show ?thesis
  proof (cases "unat ?e < unat inc")
    case True
    have le: "?e \<le> inc" using True by (simp add: word_le_nat_alt)
    have n: "prev + inc - xTickCount k \<noteq> 0" "unat (prev + inc - xTickCount k) = unat inc - unat ?e"
      using True unat_sub[OF le] unfolding delay_until_ticks by auto
    obtain y k1 k' where k': "prvAddCurrentTaskToDelayedList (prev + inc - xTickCount k) False (vTaskSuspendAll k) = Some k1"
      "xTaskResumeAll k1 = Some (y, k')" "core_inv idle T E k'" "prio_inv k'" "susp_inv k'" "y \<longrightarrow> pendsv k'"
      "sleeps c (unat (prev + inc - xTickCount k)) k k'"
      using sleep_resume[OF ok un cur n(1)] by blast
    have un': "uxSchedulerSuspended k' = 0" using k'(7) un by (simp add: sleeps_def)
    have tk: "xTickCount (vTaskSuspendAll k) = xTickCount k" by (simp add: vTaskSuspendAll_def)
    have "xTaskDelayUntil prev inc k = Some (True, prev + inc, if \<not> y then portYIELD k' else k')"
      using True k'(1,2) sd by (simp add: xTaskDelayUntil_def tk)
    then show ?thesis using yielded[OF k'(3,5) un' k'(6), of c "unat inc - unat ?e" k] k'(7) True n(2)
      by (intro exI[of _ "if \<not> y then portYIELD k' else k'"]) simp
  next
    case False
    obtain y k' where k': "xTaskResumeAll (vTaskSuspendAll k) = Some (y, k')" "kernel_ok idle T E k'" "kept k k'" "y \<longrightarrow> pendsv k'"
      "uxSchedulerSuspended k' = 0" "xTickCount k' = xTickCount k" "remaining k' = remaining k" "is_ready k' = is_ready k"
      using resume_idle[OF ok un cur(1,2)] by blast
    define k2 where "k2 = (if \<not> y then portYIELD k' else k')"
    have "xTaskDelayUntil prev inc k = Some (False, prev + inc, k2)"
      using False k'(1) sd by (simp add: xTaskDelayUntil_def k2_def)
    moreover have "kernel_ok idle T E k2" "pendsv k2"
      using yielded[of idle T E k' y] k'(2,4,5) unfolding k2_def kernel_ok_def by blast+
    moreover have "kept k k2 \<and> xTickCount k2 = xTickCount k' \<and> remaining k2 = remaining k' \<and> is_ready k2 = is_ready k' \<and>
        uxSchedulerSuspended k2 = 0"
      using k'(3,5) by (auto simp: k2_def portYIELD_def kept_def remaining_def delayed_def is_ready_def fun_eq_iff)
    ultimately show ?thesis using False k'(6-8) by (intro exI[of _ k2]) simp
  qed
qed

section \<open>Suspending and resuming tasks\<close>

lemma reset_empty_bit:
  assumes inv: "lists_inv T E k" "bitmap_inv k" and p: "p < configMAX_PRIORITIES"
  shows "\<exists>k'. taskRESET_READY_PRIORITY p k = Some k' \<and> lists_inv T E k' \<and> bitmap_inv k' \<and> kstep k k' \<and>
    pxContainer k' = pxContainer k"
proof -
  have e: "listCURRENT_LIST_LENGTH (Ready p) k = 0 \<longleftrightarrow> (\<forall>i. pxContainer k i \<noteq> Some (Ready p))"
    using listLIST_IS_EMPTY_iff[OF lists_invD(1)[OF inv(1)], of "Ready p"] p
    by (simp add: listCURRENT_LIST_LENGTH_def listLIST_IS_EMPTY_def)
  define k' where "k' = (if listCURRENT_LIST_LENGTH (Ready p) k = 0 then reset_ready_priority p k else k)"
  have "lists_inv T E k'" using inv(1) lists_inv_same[of k' k T E] by (simp add: k'_def reset_ready_priority_def)
  moreover have "bitmap_inv k'"
    using inv(2) e by (auto simp: k'_def reset_ready_priority_def bitmap_inv_def bit_reset)
  moreover have "kstep k k'" by (simp add: k'_def reset_ready_priority_def kstep_top)
  moreover have "taskRESET_READY_PRIORITY p k = Some k'" using p by (simp add: taskRESET_READY_PRIORITY_def pxReadyTasksLists_def k'_def)
  ultimately show ?thesis by (auto simp: k'_def reset_ready_priority_def)
qed

text \<open>Taking a task off whatever list it is on, the way suspension and deletion do.\<close>

lemma remove_state:
  assumes inv: "lists_inv T E k" "bitmap_inv k" and t: "state_list k t = Some l"
  shows "\<exists>n k1 k2. uxListRemove (xStateListItem t) k = Some (n, k1) \<and>
    (if n = 0 then taskRESET_READY_PRIORITY (uxPriority k1 t) k1 else Some k1) = Some k2 \<and>
    lists_inv T E k2 \<and> bitmap_inv k2 \<and> kstep k k2 \<and> pxContainer k2 = (pxContainer k)(xStateListItem t := None)"
proof -
  obtain n k1 where k1: "uxListRemove (xStateListItem t) k = Some (n, k1)" "lists_inv T E k1" "kstep k k1"
    "uxTopReadyPriority k1 = uxTopReadyPriority k" "pxContainer k1 = (pxContainer k)(xStateListItem t := None)"
    "n = 0 \<longleftrightarrow> (\<forall>j. pxContainer k1 j \<noteq> Some l)"
    using remove_any[OF inv(1) t] by (elim exE conjE) (rule that)
  note f = kstep_fields[OF k1(3)]
  have tT: "t \<in> T" by (rule state_list_T[OF inv(1) t])
  have p: "uxPriority k1 t < configMAX_PRIORITIES" by (rule lists_invD(5)[OF k1(2) tT])
  show ?thesis
  proof (cases "\<exists>p. l = Ready p")
    case True
    then have l: "l = Ready (uxPriority k t)" using lists_invD(2)[OF inv(1) t] by auto
    obtain k2 where k2: "remove_and_reset (xStateListItem t) (uxPriority k t) k = Some k2" "lists_inv T E k2" "bitmap_inv k2"
      "kstep k k2" "pxContainer k2 = (pxContainer k)(xStateListItem t := None)"
      using remove_ready[OF inv] t unfolding l by blast
    have "listCURRENT_LIST_LENGTH l k1 = 0 \<longleftrightarrow> n = 0"
      using listLIST_IS_EMPTY_iff[OF lists_invD(1)[OF k1(2)], of l] p k1(6) l f(3)
      by (simp add: listCURRENT_LIST_LENGTH_def listLIST_IS_EMPTY_def)
    then have "(if n = 0 then taskRESET_READY_PRIORITY (uxPriority k1 t) k1 else Some k1) = Some k2"
      using k2(1) k1(1) p f(3) l
      by (cases "n = 0") (simp_all add: remove_and_reset_def taskRESET_READY_PRIORITY_def pxReadyTasksLists_def)
    then show ?thesis using k1(1) k2(2-5) by blast
  next
    case False
    have "pxContainer k1 i = Some (Ready q) \<longleftrightarrow> pxContainer k i = Some (Ready q)" for i q
      using k1(5) t False by auto
    then have b1: "bitmap_inv k1" by (rule bitmap_inv_pointwise[OF inv(2) k1(4)])
    show ?thesis
    proof (cases "n = 0")
      case True
      then show ?thesis using reset_empty_bit[OF k1(2) b1 p] k1(1,3,5) kstep_trans[OF k1(3)] by fastforce
    next
      case False
      then show ?thesis using k1(1-3,5) b1 by (intro exI[of _ n] exI[of _ k1]) (simp add: k1(5))
    qed
  qed
qed

lemma remove_event:
  assumes inv: "lists_inv T E k" "bitmap_inv k"
  shows "\<exists>k'. remove_from_event_list t k = Some k' \<and> lists_inv T E k' \<and> bitmap_inv k' \<and> kstep k k' \<and>
    pxContainer k' = (pxContainer k)(xEventListItem t := None)"
proof (cases "event_list k t")
  case None
  then have "pxContainer k = (pxContainer k)(xEventListItem t := None)" by (intro ext) simp
  then show ?thesis using None inv by (intro exI[of _ k]) (simp add: remove_from_event_list_def list_macros)
next
  case (Some e)
  have "e \<noteq> Ready p" for p using event_not_ready[OF inv(1), of t p] Some by auto
  then obtain k' where r: "listREMOVE_ITEM (xEventListItem t) k = Some k'" "lists_inv T E k'" "bitmap_inv k'" "kstep k k'"
      "pxContainer k' = (pxContainer k)(xEventListItem t := None)"
    using remove_unready[OF inv Some] by blast
  then show ?thesis using Some
    by (intro exI[of _ k']) (simp add: remove_from_event_list_def list_macros listREMOVE_ITEM_eq)
qed

text \<open>A task off all lists is put on the end of one of the lists that hold tasks that are not ready.\<close>

lemma insert_parked:
  assumes inv: "lists_inv T E k" "bitmap_inv k" and t: "t \<in> T" "state_list k t = None"
    and l: "l = xSuspendedTaskList \<or> l = xTasksWaitingTermination"
  shows "lists_inv T E (vListInsertEnd l (xStateListItem t) k) \<and> bitmap_inv (vListInsertEnd l (xStateListItem t) k) \<and>
    kstep k (vListInsertEnd l (xStateListItem t) k) \<and>
    pxContainer (vListInsertEnd l (xStateListItem t) k) = (pxContainer k)(xStateListItem t := Some l)"
proof -
  let ?k = "vListInsertEnd l (xStateListItem t) k"
  have r: "lists_inv T E ?k \<and> kstep k ?k \<and> uxTopReadyPriority ?k = uxTopReadyPriority k \<and>
      pxContainer ?k = (pxContainer k)(xStateListItem t := Some l)"
    by (rule insert_any[OF inv(1)]) (use t l in auto)
  have "pxContainer ?k i = Some (Ready p) \<longleftrightarrow> pxContainer k i = Some (Ready p)" for i p using r t(2) l by auto
  then have "bitmap_inv ?k" using r by (intro bitmap_inv_pointwise[OF inv(2)]) simp_all
  then show ?thesis using r by blast
qed

lemma core_notify [intro]:
  assumes "core_inv idle T E k"
  shows "core_inv idle T E (k\<lparr>ucNotifyState := f\<rparr>)" "core_inv idle T E (k\<lparr>ulNotifiedValue := g\<rparr>)"
    "core_inv idle T E (k\<lparr>uxMutexesHeld := h\<rparr>)"
proof -
  have "lists_inv T E (k\<lparr>ucNotifyState := f\<rparr>)" "lists_inv T E (k\<lparr>ulNotifiedValue := g\<rparr>)" "lists_inv T E (k\<lparr>uxMutexesHeld := h\<rparr>)"
    using core_invD(1)[OF assms] lists_inv_same[of "k\<lparr>ucNotifyState := f\<rparr>" k T E]
      lists_inv_same[of "k\<lparr>ulNotifiedValue := g\<rparr>" k T E] lists_inv_same[of "k\<lparr>uxMutexesHeld := h\<rparr>" k T E] by simp_all
  moreover have "sorted_list (k\<lparr>ucNotifyState := f\<rparr>) = sorted_list k" "sorted_list (k\<lparr>ulNotifiedValue := g\<rparr>) = sorted_list k"
    "sorted_list (k\<lparr>uxMutexesHeld := h\<rparr>) = sorted_list k"
    by (rule sorted_list_same; simp)+
  ultimately show "core_inv idle T E (k\<lparr>ucNotifyState := f\<rparr>)" "core_inv idle T E (k\<lparr>ulNotifiedValue := g\<rparr>)"
    "core_inv idle T E (k\<lparr>uxMutexesHeld := h\<rparr>)"
    using assms by (simp_all add: core_inv_def bitmap_inv_def delay_inv_def is_ready_def)
qed

lemma park_task:
  assumes core: "core_inv idle T E k" and t: "t \<in> T" "t \<noteq> idle" and l: "l = xSuspendedTaskList \<or> l = xTasksWaitingTermination"
  shows "\<exists>n k1 k2 k3. uxListRemove (xStateListItem t) k = Some (n, k1) \<and>
    (if n = 0 then taskRESET_READY_PRIORITY (uxPriority k1 t) k1 else Some k1) = Some k2 \<and>
    remove_from_event_list t k2 = Some k3 \<and> core_inv idle T E (vListInsertEnd l (xStateListItem t) k3) \<and>
    kstep k (vListInsertEnd l (xStateListItem t) k3) \<and>
    pxContainer (vListInsertEnd l (xStateListItem t) k3) =
      (pxContainer k)(xStateListItem t := Some l, xEventListItem t := None)"
proof -
  note inv = core_invD(1,2)[OF core]
  obtain l0 where l0: "state_list k t = Some l0" using core_invD(4)[OF core t(1)] by blast
  obtain n k1 k2 where k2: "uxListRemove (xStateListItem t) k = Some (n, k1)"
    "(if n = 0 then taskRESET_READY_PRIORITY (uxPriority k1 t) k1 else Some k1) = Some k2"
    "lists_inv T E k2" "bitmap_inv k2" "kstep k k2" "pxContainer k2 = (pxContainer k)(xStateListItem t := None)"
    using remove_state[OF inv l0] by (elim exE conjE) (rule that)
  obtain k3 where k3: "remove_from_event_list t k2 = Some k3" "lists_inv T E k3" "bitmap_inv k3" "kstep k2 k3"
    "pxContainer k3 = (pxContainer k2)(xEventListItem t := None)"
    using remove_event[OF k2(3,4), of t] by (elim exE conjE) (rule that)
  let ?k = "vListInsertEnd l (xStateListItem t) k3"
  have r: "lists_inv T E ?k \<and> bitmap_inv ?k \<and> kstep k3 ?k \<and> pxContainer ?k = (pxContainer k3)(xStateListItem t := Some l)"
    by (rule insert_parked[OF k3(2,3) t(1) _ l]) (simp add: k3(5) k2(6))
  have st: "kstep k ?k" using kstep_trans[OF kstep_trans[OF k2(5) k3(4)], of ?k] r by blast
  have c: "pxContainer ?k = (pxContainer k)(xStateListItem t := Some l, xEventListItem t := None)"
    using r k3(5) k2(6) by (intro ext) simp
  have "core_inv idle T E ?k"
  proof (rule core_kstep[OF core st])
    show "pxContainer ?k i = pxContainer k i" if "pxContainer ?k i \<in> {Some xDelayedTaskList1, Some xDelayedTaskList2}" for i
      using that l unfolding c by (auto split: if_splits)
    show "is_ready ?k idle" using core_invD(6)[OF core] t(2) unfolding is_ready_def c kstep_fields(3)[OF st] by simp
      show "lists_inv T E ?k" "bitmap_inv ?k" using r by blast+
    show "state_list ?k u \<noteq> None" if "u \<in> T" for u using core_invD(4)[OF core that] unfolding c by simp
  qed
  then show ?thesis using k2(1,2) k3(1) st c by blast
qed

lemma suspend_result:
  assumes ok: "kernel_ok idle T E k" and h: "prvGetTCBFromHandle h k = Some t" and t: "t \<in> T" "t \<noteq> idle"
    and s: "pxCurrentTCB k = Some t \<longrightarrow> uxSchedulerSuspended k = 0"
  shows "\<exists>k'. vTaskSuspend h k = Some k' \<and> kernel_ok idle T E k' \<and>
    pxContainer k' = (pxContainer k)(xStateListItem t := Some xSuspendedTaskList, xEventListItem t := None) \<and>
    uxPriority k' = uxPriority k \<and> pxCurrentTCB k' = pxCurrentTCB k \<and> xItemValue k' = xItemValue k \<and>
    xTickCount k' = xTickCount k \<and> uxSchedulerSuspended k' = uxSchedulerSuspended k"
proof -
  have core: "core_inv idle T E k" and prio: "prio_inv k" and run: "run_inv k" and su: "susp_inv k"
    using ok by (simp_all add: kernel_ok_def)
  let ?l = xSuspendedTaskList
  obtain n k1 k2 k3 where k3: "uxListRemove (xStateListItem t) k = Some (n, k1)"
    "(if n = 0 then taskRESET_READY_PRIORITY (uxPriority k1 t) k1 else Some k1) = Some k2"
    "remove_from_event_list t k2 = Some k3" "core_inv idle T E (vListInsertEnd ?l (xStateListItem t) k3)"
    "kstep k (vListInsertEnd ?l (xStateListItem t) k3)" "pxContainer (vListInsertEnd ?l (xStateListItem t) k3) =
      (pxContainer k)(xStateListItem t := Some ?l, xEventListItem t := None)"
    using park_task[OF core t disjI1[OF refl]] by (elim exE conjE) (rule that)
  define k4 where "k4 = vListInsertEnd ?l (xStateListItem t) k3"
  note f4 = kstep_fields[OF k3(5), folded k4_def]
  define k5 where "k5 = (if ucNotifyState k4 t = taskWAITING_NOTIFICATION
     then k4\<lparr>ucNotifyState := (ucNotifyState k4)(t := taskNOT_WAITING_NOTIFICATION)\<rparr> else k4)"
  have c5: "core_inv idle T E k5" using k3(4) by (auto simp: k5_def k4_def)
  obtain nx where nx: "prvResetNextTaskUnblockTime k5 = k5\<lparr>xNextTaskUnblockTime := nx\<rparr>"
    "core_inv idle T E (k5\<lparr>xNextTaskUnblockTime := nx\<rparr>)" by (rule core_reset_next[OF c5])
  define k6 where "k6 = k5\<lparr>xNextTaskUnblockTime := nx\<rparr>"
  define k' where "k' = (if pxCurrentTCB k = Some t then portYIELD k6 else k6)"
  have f: "pxContainer k' = (pxContainer k)(xStateListItem t := Some ?l, xEventListItem t := None)" "uxPriority k' = uxPriority k"
    "pxCurrentTCB k' = pxCurrentTCB k" "xItemValue k' = xItemValue k" "xTickCount k' = xTickCount k"
    "uxSchedulerSuspended k' = uxSchedulerSuspended k" "xPendedTicks k' = xPendedTicks k"
    "pendsv k' \<longleftrightarrow> pendsv k \<or> pxCurrentTCB k = Some t" "xYieldPending k' = xYieldPending k"
    using f4 k3(6) by (auto simp: k'_def k6_def k5_def k4_def portYIELD_def)
  have rdy: "is_ready k' t' \<longleftrightarrow> is_ready k t' \<and> t' \<noteq> t" for t' by (simp add: is_ready_def f)
  have "core_inv idle T E k'" using nx(2) by (simp add: k'_def k6_def portYIELD_def)
  moreover have "prio_inv k'" using prio unfolding prio_inv_def rdy f by blast
  moreover have "run_inv k'" using run s unfolding run_inv_def rdy f by auto
  moreover have "susp_inv k'" using su unfolding susp_inv_def f by auto
  ultimately have ok': "kernel_ok idle T E k'" by (simp add: kernel_ok_def)
  have "xSchedulerRunning k5" "xSchedulerRunning k6" "pxCurrentTCB k6 = pxCurrentTCB k"
    using core_invD(8)[OF c5] f4(8) by (simp_all add: k6_def k5_def)
  then have "vTaskSuspend h k = Some k'"
    using h k3(1-3) nx(1) unfolding vTaskSuspend_def
    by (simp add: k4_def[symmetric] k5_def[symmetric] k6_def[symmetric] k'_def)
  then show ?thesis using ok' f by blast
qed

text \<open>Waking one task: off its list and onto the ready list.\<close>

lemma wake_task:
  assumes core: "core_inv idle T E k" and t: "state_list k t = Some l" "\<And>p. l \<noteq> Ready p" "event_list k t = None"
  shows "\<exists>n k1 k'. uxListRemove (xStateListItem t) k = Some (n, k1) \<and> listREMOVE_ITEM (xStateListItem t) k = Some k1 \<and>
    prvAddTaskToReadyList t k1 = Some k' \<and>
    core_inv idle T E k' \<and> kstep k k' \<and> pxContainer k' = readied {t} k"
proof -
  note inv = core_invD(1,2)[OF core]
  obtain k1 where k1: "listREMOVE_ITEM (xStateListItem t) k = Some k1" "lists_inv T E k1" "bitmap_inv k1" "kstep k k1"
    "pxContainer k1 = (pxContainer k)(xStateListItem t := None)"
    using remove_unready[OF inv t(1,2)] by blast
  have tT: "t \<in> T" by (rule state_list_T[OF inv(1) t(1)])
  obtain k' where k': "prvAddTaskToReadyList t k1 = Some k'" "lists_inv T E k'" "bitmap_inv k'" "kstep k1 k'"
    "pxContainer k' = (pxContainer k1)(xStateListItem t := Some (Ready (uxPriority k1 t)))"
    using add_ready[OF k1(2,3) tT] k1(5) t(3) by auto
  have c: "pxContainer k' = readied {t} k"
    using k'(5) k1(5) t(3) kstep_fields(3)[OF k1(4)] by (intro ext) (auto simp: readied_def split: kitem.split)
  have "core_inv idle T E k'"
  proof (rule core_kstep[OF core kstep_trans[OF k1(4) k'(4)] k'(2,3)])
    show "pxContainer k' i = pxContainer k i" if "pxContainer k' i \<in> {Some xDelayedTaskList1, Some xDelayedTaskList2}" for i
      using that unfolding c by (auto simp: readied_def split: kitem.splits if_splits)
    show "state_list k' u \<noteq> None" if "u \<in> T" for u using core_invD(4)[OF core that] unfolding c by simp
    show "is_ready k' idle" using core_invD(6)[OF core] unfolding is_ready_def c
      by (simp add: kstep_fields(3)[OF kstep_trans[OF k1(4) k'(4)]])
  qed
  moreover obtain n where "uxListRemove (xStateListItem t) k = Some (n, k1)"
    using k1(1) unfolding listREMOVE_ITEM_eq by auto
  ultimately show ?thesis using k1(1) k'(1) kstep_trans[OF k1(4) k'(4)] c by blast
qed

text \<open>Holding a woken task back while the scheduler is suspended.\<close>

lemma hold_task:
  assumes core: "core_inv idle T E k" and t: "t \<in> T" "event_list k t = None" "\<not> is_ready k t"
  shows "core_inv idle T E (vListInsertEnd xPendingReadyList (xEventListItem t) k) \<and>
    kstep k (vListInsertEnd xPendingReadyList (xEventListItem t) k) \<and>
    pxContainer (vListInsertEnd xPendingReadyList (xEventListItem t) k) = (pxContainer k)(xEventListItem t := Some xPendingReadyList)"
proof -
  let ?k = "vListInsertEnd xPendingReadyList (xEventListItem t) k"
  note inv = core_invD(1,2)[OF core]
  have r: "lists_inv T E ?k \<and> kstep k ?k \<and> uxTopReadyPriority ?k = uxTopReadyPriority k \<and>
      pxContainer ?k = (pxContainer k)(xEventListItem t := Some xPendingReadyList)"
    by (rule insert_any[OF inv(1)]) (use t in auto)
  then have r': "kstep k ?k" "lists_inv T E ?k" and c: "pxContainer ?k = (pxContainer k)(xEventListItem t := Some xPendingReadyList)"
    by blast+
  have "pxContainer ?k i = Some (Ready p) \<longleftrightarrow> pxContainer k i = Some (Ready p)" for i p using t(2) unfolding c by auto
  then have b: "bitmap_inv ?k" using r by (intro bitmap_inv_pointwise[OF inv(2)]) simp_all
  have "core_inv idle T E ?k"
  proof (rule core_kstep[OF core r' b])
    show "pxContainer ?k i = pxContainer k i" if "pxContainer ?k i \<in> {Some xDelayedTaskList1, Some xDelayedTaskList2}" for i
      using that unfolding c by (auto split: if_splits)
    show "state_list ?k u \<noteq> None" if "u \<in> T" for u using core_invD(4)[OF core that] unfolding c by simp
    show "is_ready ?k idle" using core_invD(6)[OF core] unfolding is_ready_def c kstep_fields(3)[OF r'(1)] by simp
  qed
  then show ?thesis using r' c by blast
qed

text \<open>From the invariant before to the invariant after a wake-up with its request for a switch.\<close>

lemma woken_ok:
  assumes ok: "kernel_ok idle T E k" and core: "core_inv idle T E k'" and st: "kstep k k'"
    and c: "pxContainer k' = readied {t} k" and cur: "pxCurrentTCB k = Some c"
    and y: "uxPriority k c < uxPriority k t \<longrightarrow> y" "y \<longrightarrow> pend \<or> yp"
    and e: "e = k'\<lparr>pendsv := pendsv k \<or> pend, xYieldPending := xYieldPending k \<or> yp\<rparr>"
    and p: "pend \<longrightarrow> uxSchedulerSuspended k = 0 \<or> is_ready k c"
  shows "kernel_ok idle T E e \<and> kept k e \<and> is_ready e t"
proof -
  have prio: "prio_inv k" and run: "run_inv k" and su: "susp_inv k" using ok by (simp_all add: kernel_ok_def)
  note f = kstep_fields[OF st]
  have rdy: "is_ready e u \<longleftrightarrow> u = t \<or> is_ready k u" for u by (simp add: e is_ready_def c f)
  have "core_inv idle T E e" using core by (simp add: e)
  moreover have "prio_inv e" using prio cur y unfolding prio_inv_def rdy by (auto simp: e f)
  moreover have "run_inv e" using run p cur unfolding run_inv_def rdy by (auto simp: e f)
  moreover have "susp_inv e" using su readied_pending[of "{t}" k] unfolding susp_inv_def by (auto simp: e c f)
  ultimately show ?thesis using rdy by (simp add: kernel_ok_def kept_def) (simp add: e f)
qed

lemma kernel_ok_yield_pending: "kernel_ok idle T E k \<Longrightarrow> kernel_ok idle T E (k\<lparr>xYieldPending := True\<rparr>)"
  by (auto simp: kernel_ok_def prio_inv_def run_inv_def susp_inv_def)

lemma prvTaskIsTaskSuspended_iff:
  "prvTaskIsTaskSuspended t k \<longleftrightarrow> state_list k t = Some xSuspendedTaskList \<and> event_list k t = None"
  by (auto simp: prvTaskIsTaskSuspended_def list_macros)

lemma resume_task_result:
  assumes ok: "kernel_ok idle T E k" and s: "pxCurrentTCB k \<noteq> Some t" "prvTaskIsTaskSuspended t k"
    and cur: "pxCurrentTCB k = Some c" "is_ready k c"
  shows "\<exists>k'. vTaskResume (Some t) k = Some k' \<and> kernel_ok idle T E k' \<and> kept k k' \<and> is_ready k' t \<and>
    uxSchedulerSuspended k' = uxSchedulerSuspended k \<and> pxContainer k' = readied {t} k"
proof -
  have core: "core_inv idle T E k" using ok by (simp add: kernel_ok_def)
  have l: "state_list k t = Some xSuspendedTaskList" "event_list k t = None"
    using s(2) by (simp_all add: prvTaskIsTaskSuspended_iff)
  obtain n k1 k' where k': "uxListRemove (xStateListItem t) k = Some (n, k1)" "prvAddTaskToReadyList t k1 = Some k'"
    "core_inv idle T E k'" "kstep k k'" "pxContainer k' = readied {t} k"
    using wake_task[OF core l(1) _ l(2)] by auto
  note f = kstep_fields[OF k'(4)]
  define y e where "y = (uxPriority k c \<le> uxPriority k t)" and "e = (if y then portYIELD k' else k')"
  have e: "e = k'\<lparr>pendsv := pendsv k \<or> y, xYieldPending := xYieldPending k \<or> False\<rparr>"
    using f(16,21) unfolding e_def portYIELD_def by (cases k'; cases y) simp_all
  have "kernel_ok idle T E e \<and> kept k e \<and> is_ready e t"
    by (rule woken_ok[OF ok k'(3-5) cur(1) _ _ e, of y]) (auto simp: y_def cur(2))
  moreover have "vTaskResume (Some t) k = Some e"
    using s k'(1,2) f(3,8) cur(1) by (simp add: vTaskResume_def e_def y_def)
  ultimately show ?thesis using k'(5) f(20) by (intro exI[of _ e]) (simp add: e)
qed

lemma resume_task_noop:
  "pxCurrentTCB k = Some t \<or> \<not> prvTaskIsTaskSuspended t k \<Longrightarrow> vTaskResume (Some t) k = Some k" "vTaskResume None k = Some k"
  by (auto simp: vTaskResume_def)

lemma resume_from_isr_result:
  assumes ok: "kernel_ok idle T E k" and s: "prvTaskIsTaskSuspended t k" and t: "t \<in> T" and cur: "pxCurrentTCB k = Some c"
  shows "\<exists>y k'. xTaskResumeFromISR t k = Some (y, k') \<and> kernel_ok idle T E k' \<and> kept k k' \<and>
    (if uxSchedulerSuspended k = 0 then is_ready k' t else event_list k' t = Some xPendingReadyList) \<and>
    uxSchedulerSuspended k' = uxSchedulerSuspended k"
proof -
  have core: "core_inv idle T E k" using ok by (simp add: kernel_ok_def)
  have l: "state_list k t = Some xSuspendedTaskList" "event_list k t = None"
    using s by (simp_all add: prvTaskIsTaskSuspended_iff)
  show ?thesis
  proof (cases "uxSchedulerSuspended k = 0")
    case True
    define y k0 where "y = (uxPriority k c \<le> uxPriority k t)" and "k0 = (if y then k\<lparr>xYieldPending := True\<rparr> else k)"
    have f0: "kernel_ok idle T E k0" "kept k k0" "pxContainer k0 = pxContainer k" "uxPriority k0 = uxPriority k" "pxCurrentTCB k0 = Some c"
      "uxSchedulerSuspended k0 = 0" "xYieldPending k0 \<longleftrightarrow> xYieldPending k \<or> y" "pendsv k0 = pendsv k" "core_inv idle T E k0"
      using kernel_ok_yield_pending[OF ok] ok cur True core by (auto simp: k0_def kept_def is_ready_def)
    have l0: "state_list k0 t = Some xSuspendedTaskList" "event_list k0 t = None" using l f0(3) by simp_all
    obtain n k1 k' where k': "uxListRemove (xStateListItem t) k0 = Some (n, k1)" "prvAddTaskToReadyList t k1 = Some k'"
      "core_inv idle T E k'" "kstep k0 k'" "pxContainer k' = readied {t} k0"
      using wake_task[OF f0(9) l0(1) _ l0(2)] by auto
    note f = kstep_fields[OF k'(4)]
    have e: "k' = k'\<lparr>pendsv := pendsv k0 \<or> False, xYieldPending := xYieldPending k0 \<or> y\<rparr>"
      using f(16,21) f0(7) by (cases k') auto
    have "kernel_ok idle T E k' \<and> kept k0 k' \<and> is_ready k' t"
      by (rule woken_ok[OF f0(1) k'(3-5) f0(5) _ _ e, of y]) (auto simp: y_def f0)
    moreover have "xTaskResumeFromISR t k = Some (y, k')"
      using s True cur k'(1,2) by (simp add: xTaskResumeFromISR_def y_def[symmetric] k0_def[symmetric])
    ultimately show ?thesis using kept_trans[OF f0(2)] f(20) f0(6) True by (intro exI[of _ y] exI[of _ k']) simp
  next
    case False
    let ?k = "vListInsertEnd xPendingReadyList (xEventListItem t) k"
    have r: "core_inv idle T E ?k" "kstep k ?k" "pxContainer ?k = (pxContainer k)(xEventListItem t := Some xPendingReadyList)"
      using hold_task[OF core t l(2)] l(1) by (simp_all add: is_ready_def)
    note f = kstep_fields[OF r(2)]
    have rdy: "is_ready ?k u = is_ready k u" for u by (simp add: is_ready_def f r(3))
    have "kernel_ok idle T E ?k"
      using ok r(1) False unfolding kernel_ok_def prio_inv_def run_inv_def susp_inv_def rdy f by auto
    moreover have "kept k ?k" unfolding kept_def rdy f by simp
    moreover have "xTaskResumeFromISR t k = Some (False, ?k)" using s False by (simp add: xTaskResumeFromISR_def)
    moreover have "event_list ?k t = Some xPendingReadyList" using r(3) by simp
    ultimately show ?thesis using f(20) False by (intro exI[of _ False] exI[of _ ?k]) simp
  qed
qed

lemma resume_from_isr_noop: "\<not> prvTaskIsTaskSuspended t k \<Longrightarrow> xTaskResumeFromISR t k = Some (False, k)"
  by (simp add: xTaskResumeFromISR_def)

section \<open>Changing priorities\<close>

text \<open>Priority, base priority and event item value of a task replaced.\<close>

definition reprio :: "nat \<Rightarrow> nat \<Rightarrow> nat \<Rightarrow> 32 word \<Rightarrow> kernel \<Rightarrow> kernel" where
  "reprio t p b v k = listSET_LIST_ITEM_VALUE (xEventListItem t) v
     (k\<lparr>uxPriority := (uxPriority k)(t := p), uxBasePriority := (uxBasePriority k)(t := b)\<rparr>)"

lemma reprio_fields [simp]:
  "pxContainer (reprio t p b v k) = pxContainer k" "pvOwner (reprio t p b v k) = pvOwner k"
  "uxPriority (reprio t p b v k) = (uxPriority k)(t := p)" "uxBasePriority (reprio t p b v k) = (uxBasePriority k)(t := b)"
  "uxTopReadyPriority (reprio t p b v k) = uxTopReadyPriority k" "pxCurrentTCB (reprio t p b v k) = pxCurrentTCB k"
  "pxDelayedTaskList (reprio t p b v k) = pxDelayedTaskList k" "pxOverflowDelayedTaskList (reprio t p b v k) = pxOverflowDelayedTaskList k"
  "xTickCount (reprio t p b v k) = xTickCount k" "xNextTaskUnblockTime (reprio t p b v k) = xNextTaskUnblockTime k"
  "uxSchedulerSuspended (reprio t p b v k) = uxSchedulerSuspended k" "xSchedulerRunning (reprio t p b v k) = xSchedulerRunning k"
  "uxCurrentNumberOfTasks (reprio t p b v k) = uxCurrentNumberOfTasks k" "xPendedTicks (reprio t p b v k) = xPendedTicks k"
  "pendsv (reprio t p b v k) = pendsv k" "xYieldPending (reprio t p b v k) = xYieldPending k"
  "ucNotifyState (reprio t p b v k) = ucNotifyState k"
  "xItemValue (reprio t p b v k) (ListItem (xStateListItem u)) = xItemValue k (ListItem (xStateListItem u))"
  by (simp_all add: reprio_def listSET_LIST_ITEM_VALUE_def)

lemma uxListRemove_reprio:
  "uxListRemove i (reprio t p b v k) = map_option (\<lambda>(n, k). (n, reprio t p b v k)) (uxListRemove i k)"
  by (cases "pxContainer k i")
     (simp_all add: uxListRemove_def reprio_def listSET_LIST_ITEM_VALUE_def Let_def)

lemma reset_reprio: "reset_ready_priority q (reprio t p b v k) = reprio t p b v (reset_ready_priority q k)"
  by (simp add: reset_ready_priority_def reprio_def listSET_LIST_ITEM_VALUE_def)

lemma remove_and_reset_reprio:
  "remove_and_reset i q (reprio t p b v k) = map_option (reprio t p b v) (remove_and_reset i q k)"
  by (cases "uxListRemove i k")
     (auto simp: remove_and_reset_def uxListRemove_reprio reset_reprio)

text \<open>For a task that is on no ready list nothing moves.\<close>

lemma reprio_unready:
  assumes inv: "lists_inv T E k" "bitmap_inv k" and t: "\<And>q. state_list k t \<noteq> Some (Ready q)"
    and p: "p < configMAX_PRIORITIES" "b < configMAX_PRIORITIES"
  shows "lists_inv T E (reprio t p b v k)" "bitmap_inv (reprio t p b v k)" "is_ready (reprio t p b v k) = is_ready k"
proof -
  show rdy: "is_ready (reprio t p b v k) = is_ready k" using t by (intro ext) (auto simp: is_ready_def)
  have pl: "placed (reprio t p b v k) l i" if a: "placed k l i" "pxContainer k i = Some l" for l i
  proof (cases l)
    case (Ready q)
    obtain u where u: "i = xStateListItem u" "uxPriority k u = q" using a(1) unfolding Ready by auto
    then have "u \<noteq> t" using a(2) t Ready by auto
    then show ?thesis using u Ready by auto
  qed (use a(1) in simp_all)
  have wf: "wf_lists (items T) (live E) (reprio t p b v k)"
  proof -
    let ?k = "k\<lparr>uxPriority := (uxPriority k)(t := p), uxBasePriority := (uxBasePriority k)(t := b)\<rparr>"
    have "list_view ?k = list_view k" by (rule list_view_same) simp_all
    then have "list_view (reprio t p b v k) l xs \<longleftrightarrow> list_view k l xs" for l xs
      unfolding reprio_def list_view_value by simp
    then show ?thesis using lists_invD(1)[OF inv(1)] by (simp add: wf_lists_def)
  qed
  show "lists_inv T E (reprio t p b v k)"
    using inv(1) wf pl p unfolding lists_inv_def rdy reprio_fields by simp
  show "bitmap_inv (reprio t p b v k)" using inv(2) by (simp add: bitmap_inv_def)
qed

lemma sorted_list_reprio:
  assumes "sorted_list k l" "event_list k t \<noteq> Some l"
  shows "sorted_list (reprio t p b v k) l"
proof -
  have "sorted_list (k\<lparr>uxPriority := f, uxBasePriority := g\<rparr>) = sorted_list k" for f g by (rule sorted_list_same) simp_all
  then show ?thesis unfolding reprio_def using assms by (intro sorted_list_value) simp_all
qed

lemma delay_inv_reprio:
  assumes inv: "lists_inv T E k" and d: "delay_inv k"
  shows "delay_inv (reprio t p b v k)"
proof -
  have nd: "event_list k t \<noteq> Some xDelayedTaskList1" "event_list k t \<noteq> Some xDelayedTaskList2"
    using lists_invD(2)[OF inv, of "xEventListItem t"] by auto
  have v: "item_value (reprio t p b v k) i = item_value k i"
    if "pxContainer k i = Some (pxDelayedTaskList k) \<or> pxContainer k i = Some (pxOverflowDelayedTaskList k)" for i
  proof -
    have "i \<noteq> xEventListItem t" using that nd delay_lists_distinct(1,2)[OF d] by auto
    then show ?thesis by (simp add: reprio_def listSET_LIST_ITEM_VALUE_def)
  qed
  show ?thesis
    using d v sorted_list_reprio[OF _ nd(1)] sorted_list_reprio[OF _ nd(2)] unfolding delay_inv_def reprio_fields by metis
qed

lemma move_result:
  assumes core: "core_inv idle T E k" and t: "t \<in> T"
    and p: "p < configMAX_PRIORITIES" "b < configMAX_PRIORITIES"
  shows "\<exists>k'. move_if_ready t (uxPriority k t) (uxPriority k t) (reprio t p b v k) = Some k' \<and> core_inv idle T E k' \<and>
    kstep (reprio t p b v k) k' \<and> is_ready k' = is_ready k \<and>
    (\<forall>i. (\<forall>q. pxContainer k i \<noteq> Some (Ready q)) \<longrightarrow> pxContainer k' i = pxContainer k i)"
proof -
  note inv = core_invD(1-3)[OF core]
  let ?R = "reprio t p b v" and ?old = "uxPriority k t"
  have old: "?old < configMAX_PRIORITIES" by (rule lists_invD(5)[OF inv(1) t])
  have core': "core_inv idle T E k'" if "lists_inv T E k'" "bitmap_inv k'" "kstep (?R k) k'" "is_ready k' = is_ready k"
    "\<forall>i. (\<forall>q. pxContainer k i \<noteq> Some (Ready q)) \<longrightarrow> pxContainer k' i = pxContainer k i"
    "\<forall>i q. pxContainer k i = Some (Ready q) \<longrightarrow> (\<exists>q. pxContainer k' i = Some (Ready q))" for k'
  proof -
    note f = kstep_fields[OF that(3)]
    have c: "pxContainer k i = Some l" if "pxContainer k' i = Some l" "\<And>q. l \<noteq> Ready q" for i l
      using that \<open>\<forall>i. _ i \<longrightarrow> pxContainer k' i = pxContainer k i\<close> \<open>\<forall>i q. _ i q \<longrightarrow> _ i\<close> by (metis option.inject)
    note D = delay_lists_distinct[OF inv(3)]
    have "delay_inv k'"
      using delay_inv_reprio[OF inv(1,3), of t p b v] kstep_sorted[OF that(3)] c D
      unfolding delay_inv_def f reprio_fields by (metis klist.distinct(1,3))
    moreover have "state_list k' u \<noteq> None" if "u \<in> T" for u
      using core_invD(4)[OF core that] \<open>\<forall>i. _ i \<longrightarrow> pxContainer k' i = pxContainer k i\<close> \<open>\<forall>i q. _ i q \<longrightarrow> _ i\<close>
      by (metis option.distinct(1))
    ultimately show ?thesis using core that(1,2,4) f by (simp add: core_inv_def)
  qed
  have mi: "move_if_ready t ?old ?old (?R k) =
    (if state_list k t = Some (Ready ?old)
     then do { k \<leftarrow> remove_and_reset (xStateListItem t) ?old (?R k); prvAddTaskToReadyList t k } else Some (?R k))"
    using old by (simp add: move_if_ready_def pxReadyTasksLists_def list_macros)
  show ?thesis
  proof (cases "state_list k t = Some (Ready ?old)")
    case False
    have nr: "state_list k t \<noteq> Some (Ready q)" for q using lists_invD(2)[OF inv(1), of "xStateListItem t" "Ready q"] False by auto
    note r = reprio_unready[OF inv(1,2) nr p, of v]
    show ?thesis using False mi r core'[OF r(1,2) kstep_refl r(3)] by (intro exI[of _ "?R k"]) simp
  next
    case True
    then have rt: "is_ready k t" by (simp add: is_ready_def)
    obtain k1 where k1: "remove_and_reset (xStateListItem t) ?old k = Some k1" "lists_inv T E k1" "bitmap_inv k1" "kstep k k1"
      "pxContainer k1 = (pxContainer k)(xStateListItem t := None)"
      using remove_ready[OF inv(1,2) True] by blast
    note f1 = kstep_fields[OF k1(4)]
    have nr: "state_list k1 t \<noteq> Some (Ready q)" for q using k1(5) by simp
    note r = reprio_unready[OF k1(2,3) nr p, of v]
    have ev: "event_list (?R k1) t = None" using k1(5) ready_no_event[OF inv(1) rt] by simp
    obtain k' where k': "prvAddTaskToReadyList t (?R k1) = Some k'" "lists_inv T E k'" "bitmap_inv k'" "kstep (?R k1) k'"
      "pxContainer k' = (pxContainer (?R k1))(xStateListItem t := Some (Ready (uxPriority (?R k1) t)))"
      using add_ready[OF r(1,2) t _ ev] k1(5) by auto
    have c': "pxContainer k' = (pxContainer k)(xStateListItem t := Some (Ready p))" using k'(5) k1(5) by simp
    have st: "kstep (?R k) k'"
    proof (rule kstep_trans[OF _ k'(4)])
      have "?R k1 = (?R k)\<lparr>pxNext := pxNext (?R k1), pxPrevious := pxPrevious (?R k1), pxContainer := pxContainer (?R k1),
          uxNumberOfItems := uxNumberOfItems (?R k1), pxIndex := pxIndex (?R k1), uxTopReadyPriority := uxTopReadyPriority (?R k1)\<rparr>"
        using k1(4) unfolding kstep_def reprio_def listSET_LIST_ITEM_VALUE_def by (cases k; cases k1) simp
      moreover have "sorted_list (?R k1) l" if l: "l \<in> {xDelayedTaskList1, xDelayedTaskList2}" for l
      proof (rule sorted_list_reprio)
        show "sorted_list k1 l" using l kstep_sorted[OF k1(4)] inv(3) by (auto simp: delay_inv_def)
        show "event_list k1 t \<noteq> Some l" using ev l by (auto simp: k1(5))
      qed
      ultimately show "kstep (?R k) (?R k1)" unfolding kstep_def by blast
    qed
    have rdy: "is_ready k' = is_ready k" using rt by (intro ext) (simp add: is_ready_def c' kstep_fields(3)[OF st])
    have "core_inv idle T E k'" by (rule core'[OF k'(2,3) st rdy]) (use True in \<open>auto simp: c'\<close>)
    then show ?thesis using mi True k1(1) k'(1) st rdy
      by (intro exI[of _ k']) (auto simp: remove_and_reset_reprio c')
  qed
qed

lemma set_event_value_reprio:
  "set_event_value t n (k\<lparr>uxPriority := (uxPriority k)(t := p), uxBasePriority := (uxBasePriority k)(t := b)\<rparr>) =
     reprio t p b (if xItemValue k (ListItem (xEventListItem t)) AND taskEVENT_LIST_ITEM_VALUE_IN_USE = 0
       then of_nat configMAX_PRIORITIES - of_nat n else xItemValue k (ListItem (xEventListItem t))) k"
proof -
  have triv: "listSET_LIST_ITEM_VALUE i (xItemValue k' (ListItem i)) k' = k'" for i and k' :: kernel
    unfolding listSET_LIST_ITEM_VALUE_def by (cases k') simp
  let ?k = "k\<lparr>uxPriority := (uxPriority k)(t := p), uxBasePriority := (uxBasePriority k)(t := b)\<rparr>"
  have v: "xItemValue ?k = xItemValue k" by simp
  show ?thesis
    using triv[of "xEventListItem t" ?k] unfolding set_event_value_def reprio_def listGET_LIST_ITEM_VALUE_def v
    by (simp split: if_split)
qed

lemma remaining_kstep:
  assumes "kstep k k'" "delay_inv k" "\<And>i. (\<forall>q. pxContainer k i \<noteq> Some (Ready q)) \<longrightarrow> pxContainer k' i = pxContainer k i"
    "is_ready k' = is_ready k" "\<And>t q. state_list k t = Some (Ready q) \<Longrightarrow> \<exists>q. state_list k' t = Some (Ready q)"
  shows "remaining k' = remaining k"
proof (intro ext)
  fix t
  note f = kstep_fields[OF assms(1)] and D = delay_lists_distinct(1,2)[OF assms(2)]
  have "delayed k' t \<longleftrightarrow> delayed k t"
  proof (cases "\<exists>q. state_list k t = Some (Ready q)")
    case True
    then show ?thesis using assms(5)[of t] D unfolding delayed_def f by auto
  next
    case False
    then show ?thesis using assms(3)[of "xStateListItem t"] unfolding delayed_def f by simp
  qed
  then show "remaining k' t = remaining k t" by (simp add: remaining_def f)
qed

text \<open>The invariant after the priority of a task has changed.\<close>

lemma repriorised_ok:
  assumes ok: "kernel_ok idle T E k" and core: "core_inv idle T E k'" and st: "kstep (reprio t p b v k) k'"
    and rdy: "is_ready k' = is_ready k" and cur: "pxCurrentTCB k = Some c" "is_ready k c"
    and c: "\<forall>i. (\<forall>q. pxContainer k i \<noteq> Some (Ready q)) \<longrightarrow> pxContainer k' i = pxContainer k i"
    and y: "y \<or> (\<forall>u. is_ready k u \<and> ((uxPriority k)(t := p)) c < ((uxPriority k)(t := p)) u \<longrightarrow> uxPriority k c < uxPriority k u)"
  shows "kernel_ok idle T E (if y then portYIELD k' else k')"
proof -
  have prio: "prio_inv k" and run: "run_inv k" and su: "susp_inv k" using ok by (simp_all add: kernel_ok_def)
  note f = kstep_fields[OF st, unfolded reprio_fields]
  have "prio_inv k'" if "\<not> y" using prio y that cur unfolding prio_inv_def rdy f by (metis option.inject)
  moreover have "run_inv (if y then portYIELD k' else k')"
    using cur rdy f by (auto simp: run_inv_def portYIELD_def is_ready_def fun_eq_iff)
  moreover have "susp_inv (if y then portYIELD k' else k')"
  proof -
    have "pxContainer k i = Some xPendingReadyList" if "pxContainer k' i = Some xPendingReadyList" for i
    proof (cases "\<exists>q. pxContainer k i = Some (Ready q)")
      case True
      then obtain u q where u: "i = xStateListItem u" using lists_invD(2)[OF core_invD(1), of idle T E k i] ok
        by (auto simp: kernel_ok_def)
      then show ?thesis using lists_invD(2)[OF core_invD(1)[OF core] that] by simp
    next
      case False
      then show ?thesis using c that by simp
    qed
    then show ?thesis using su f by (auto simp: susp_inv_def portYIELD_def)
  qed
  ultimately show ?thesis using core by (auto simp: kernel_ok_def portYIELD_def prio_yield)
qed

lemma priority_set_result:
  fixes n :: nat
  assumes ok: "kernel_ok idle T E k" and h: "prvGetTCBFromHandle h k = Some t" "t \<in> T"
    and cur: "pxCurrentTCB k = Some c" "is_ready k c"
  defines "new \<equiv> min n (configMAX_PRIORITIES - 1)"
  shows "\<exists>k'. vTaskPrioritySet h n k = Some k' \<and> kernel_ok idle T E k' \<and> is_ready k' = is_ready k \<and>
    uxBasePriority k' = (uxBasePriority k)(t := new) \<and>
    uxPriority k' = (uxPriority k)(t := if uxPriority k t = uxBasePriority k t then new else uxPriority k t) \<and>
    pxCurrentTCB k' = pxCurrentTCB k \<and> uxSchedulerSuspended k' = uxSchedulerSuspended k"
proof -
  have core: "core_inv idle T E k" using ok by (simp add: kernel_ok_def)
  note inv = core_invD(1-3)[OF core]
  have new: "(if n \<ge> configMAX_PRIORITIES then configMAX_PRIORITIES - 1 else n) = new" "new < configMAX_PRIORITIES"
    by (simp_all add: new_def min_def configMAX_PRIORITIES_def)
  show ?thesis
  proof (cases "uxBasePriority k t = new")
    case True
    have "vTaskPrioritySet h n k = Some k" using True h(1) cur(1) new(1) by (simp add: vTaskPrioritySet_def)
    moreover have "uxBasePriority k = (uxBasePriority k)(t := new)"
      "uxPriority k = (uxPriority k)(t := if uxPriority k t = uxBasePriority k t then new else uxPriority k t)"
      using True by (auto simp: fun_eq_iff)
    ultimately show ?thesis using ok by blast
  next
    case False
    let ?old = "uxPriority k t" and ?base = "uxBasePriority k t"
    define p where "p = (if ?base = ?old then new else ?old)"
    define v where "v = (if xItemValue k (ListItem (xEventListItem t)) AND taskEVENT_LIST_ITEM_VALUE_IN_USE = 0
       then of_nat configMAX_PRIORITIES - of_nat new else xItemValue k (ListItem (xEventListItem t)))"
    have p5: "p < configMAX_PRIORITIES" using lists_invD(5)[OF inv(1) h(2)] new(2) by (simp add: p_def)
    obtain k' where k': "move_if_ready t ?old ?old (reprio t p new v k) = Some k'" "core_inv idle T E k'"
      "kstep (reprio t p new v k) k'" "is_ready k' = is_ready k"
      "\<forall>i. (\<forall>q. pxContainer k i \<noteq> Some (Ready q)) \<longrightarrow> pxContainer k' i = pxContainer k i"
      using move_result[OF core h(2) p5 new(2), of v] by (elim exE conjE) (rule that)
    note f = kstep_fields[OF k'(3), unfolded reprio_fields]
    define y where "y = (if new > ?base then t \<noteq> c \<and> new \<ge> uxPriority k c else t = c)"
    define e where "e = (if y then portYIELD k' else k')"
    have "kernel_ok idle T E e"
      unfolding e_def by (rule repriorised_ok[OF ok k'(2,3,4) cur k'(5)]) (auto simp: y_def p_def)
    moreover have "set_event_value t new ((if ?base = ?old then k\<lparr>uxPriority := (uxPriority k)(t := new)\<rparr> else k)
        \<lparr>uxBasePriority := (uxBasePriority (if ?base = ?old then k\<lparr>uxPriority := (uxPriority k)(t := new)\<rparr> else k))(t := new)\<rparr>)
        = reprio t p new v k"
      unfolding v_def set_event_value_reprio[symmetric] by (simp add: p_def)
    then have "vTaskPrioritySet h n k = Some e"
      using False h(1) cur(1) k'(1) by (simp add: vTaskPrioritySet_def new(1) Let_def e_def y_def)
    moreover have "is_ready e = is_ready k'" "uxBasePriority e = uxBasePriority k'" "uxPriority e = uxPriority k'"
      "pxCurrentTCB e = pxCurrentTCB k'" "uxSchedulerSuspended e = uxSchedulerSuspended k'"
      by (auto simp: e_def portYIELD_def is_ready_def fun_eq_iff)
    ultimately show ?thesis using k'(4) f by (intro exI[of _ e]) (auto simp: p_def)
  qed
qed

end
