(* ===== verification/FRKernel.thy ===== *)
theory FRKernel
  imports FRSched
begin

text \<open>
  The scheduler as a whole: waiting on and waking from event lists, priority inheritance, start-up,
  the transition relation of ticks, context switches, task and interrupt calls, and the properties
  of every state it reaches.
\<close>

section \<open>Waiting on an event list\<close>

text \<open>An item of the running task enters an event list while its task is still ready.\<close>

lemma link_event:
  assumes core: "core_inv idle T E k" and cur: "pxCurrentTCB k = Some c" and ev: "event_list k c = None"
    and k': "wf_lists (items T) (live E) k'" "list_step k k'" "pxContainer k' = (pxContainer k)(xEventListItem c := Some (EventList e))"
      "only_list (EventList e) k k'"
  shows "core_inv_but c idle T E k'" "kstep k k'"
proof -
  show st: "kstep k k'"
    by (rule kstep_list_step[OF k'(2)]; metis k'(4) sorted_list_other list_step_fields(1)[OF k'(2)] insertE singletonD klist.distinct)
  have top: "uxTopReadyPriority k' = uxTopReadyPriority k"
    by (rule kstep_list_step[OF k'(2)]; metis k'(4) sorted_list_other list_step_fields(1)[OF k'(2)] insertE singletonD klist.distinct)
  note f = kstep_fields[OF st]
  note inv = core_invD(1-3)[OF core]
  have "lists_inv_but c T E k'"
    using inv(1) k'(1,3) unfolding lists_inv_but_def lists_inv_def is_ready_def f placed_kstep[OF st] by simp
  moreover have "bitmap_inv k'"
    by (rule bitmap_inv_pointwise[OF inv(2) top]) (use ev in \<open>auto simp: k'(3)\<close>)
  moreover have "delay_inv k'"
  proof -
    have "pxContainer k' i = Some l \<longleftrightarrow> pxContainer k i = Some l" if "l = xDelayedTaskList1 \<or> l = xDelayedTaskList2" for i l
      using that ev by (auto simp: k'(3))
    then show ?thesis
      using inv(3) kstep_sorted[OF st] delay_lists_distinct(1,2)[OF inv(3)] unfolding delay_inv_def f by metis
  qed
  ultimately show "core_inv_but c idle T E k'"
    using core cur f by (auto simp: core_inv_def core_inv_but_def is_ready_def k'(3))
qed

lemma sleeping_core:
  assumes core: "core_inv_but c idle T E k" and k1: "lists_inv T E k1" "bitmap_inv k1" "kstep k k1"
    and c: "pxContainer k1 = (pxContainer k)(xStateListItem c := Some xSuspendedTaskList)" and ne: "c \<noteq> idle"
  shows "core_inv idle T E k1"
proof -
  note f = kstep_fields[OF k1(3)]
  have d: "delay_inv k" using core by (simp add: core_inv_but_def)
  have "pxContainer k i = Some l" if "pxContainer k1 i = Some l" "l = xDelayedTaskList1 \<or> l = xDelayedTaskList2" for i l
    using that unfolding c by (auto split: if_splits)
  then have "delay_inv k1" using d kstep_sorted[OF k1(3)] delay_lists_distinct(1,2)[OF d] unfolding delay_inv_def f by metis
  then show ?thesis using core k1(1,2) f ne by (auto simp: core_inv_def core_inv_but_def is_ready_def c)
qed

text \<open>Where the running task goes when it waits for \<open>n\<close> ticks; \<open>portMAX_DELAY\<close> is no limit.\<close>

definition wait_time :: "32 word \<Rightarrow> nat option" where
  "wait_time n = (if n = portMAX_DELAY then None else Some (unat n))"

definition waits :: "nat \<Rightarrow> nat option \<Rightarrow> kernel \<Rightarrow> kernel \<Rightarrow> bool" where
  "waits c n k k' \<longleftrightarrow> remaining k' = (remaining k)(c := n) \<and> is_ready k' = (is_ready k)(c := False) \<and>
     (n = None \<longrightarrow> state_list k' c = Some xSuspendedTaskList) \<and>
     uxPriority k' = uxPriority k \<and> uxBasePriority k' = uxBasePriority k \<and> pxCurrentTCB k' = pxCurrentTCB k \<and>
     xTickCount k' = xTickCount k \<and> uxSchedulerSuspended k' = uxSchedulerSuspended k"

lemma block_any:
  assumes core: "core_inv_but c idle T E k" and cur: "is_ready k c" "c \<noteq> idle" and n: "n \<noteq> 0" and prio: "prio_inv k"
  shows "\<exists>k'. prvAddCurrentTaskToDelayedList n True k = Some k' \<and> core_inv idle T E k' \<and> prio_inv k' \<and> waits c (wait_time n) k k' \<and>
    event_list k' = event_list k \<and> ucNotifyState k' = ucNotifyState k \<and> xPendedTicks k' = xPendedTicks k \<and>
    pendsv k' = pendsv k \<and> xYieldPending k' = xYieldPending k"
proof (cases "n = portMAX_DELAY")
  case False
  have c: "pxCurrentTCB k = Some c" using core by (simp add: core_inv_but_def)
  show ?thesis using block_effect[OF core c cur n _ prio, of True] False by (auto simp: sleeps_def waits_def wait_time_def)
next
  case True
  obtain k1 where k1: "remove_and_reset (xStateListItem c) (uxPriority k c) k = Some k1" "lists_inv T E k1" "bitmap_inv k1"
    "kstep k k1" "pxContainer k1 = (pxContainer k)(xStateListItem c := None)"
    using leave_ready[OF core cur(1)] by blast
  have cc: "c \<in> T" "pxCurrentTCB k = Some c" using core by (simp_all add: core_inv_but_def)
  let ?k = "vListInsertEnd xSuspendedTaskList (xStateListItem c) k1"
  have r: "lists_inv T E ?k \<and> bitmap_inv ?k \<and> kstep k1 ?k \<and>
    pxContainer ?k = (pxContainer k1)(xStateListItem c := Some xSuspendedTaskList)"
    by (rule insert_parked[OF k1(2,3) cc(1)]) (simp_all add: k1(5))
  then have st: "kstep k ?k" using kstep_trans[OF k1(4)] by blast
  note f = kstep_fields[OF st]
  have ct: "pxContainer ?k = (pxContainer k)(xStateListItem c := Some xSuspendedTaskList)" using r k1(5) by simp
  have core': "core_inv idle T E ?k" by (rule sleeping_core[OF core _ _ st ct cur(2)]) (use r in blast)+
  have d: "delay_inv k" using core by (simp add: core_inv_but_def)
  have rdy: "is_ready ?k = (is_ready k)(c := False)" by (intro ext) (simp add: is_ready_def ct f)
  have "remaining ?k = (remaining k)(c := None)"
    using delay_lists_distinct(1,2)[OF d] by (intro ext) (auto simp: remaining_def delayed_def ct f)
  moreover have "prio_inv ?k" using prio unfolding prio_inv_def rdy f by auto
  moreover have "prvAddCurrentTaskToDelayedList n True k = Some ?k"
    using True cc(2) k1(1) by (simp add: prvAddCurrentTaskToDelayedList_def listINSERT_END_eq)
  moreover have "event_list ?k = event_list k" by (intro ext) (simp add: ct)
  ultimately show ?thesis using core' rdy f True by (intro exI[of _ ?k]) (simp add: waits_def wait_time_def ct)
qed

lemma place_result:
  assumes core: "core_inv idle T E k" and cur: "pxCurrentTCB k = Some c" "is_ready k c" "c \<noteq> idle"
    and e: "e \<in> E" and n: "n \<noteq> 0" and prio: "prio_inv k"
  shows "\<exists>k'. vTaskPlaceOnEventList (EventList e) n k = Some k' \<and> core_inv idle T E k' \<and> prio_inv k' \<and>
    waits c (wait_time n) k k' \<and> event_list k' = (event_list k)(c := Some (EventList e)) \<and> xPendedTicks k' = xPendedTicks k \<and>
    pendsv k' = pendsv k"
proof -
  note inv = core_invD(1-3)[OF core]
  have cT: "c \<in> T" using core cur(1) by (auto simp: core_inv_def)
  have ev: "event_list k c = None" by (rule ready_no_event[OF inv(1) cur(2)])
  obtain k1 where k1: "vListInsert (EventList e) (xEventListItem c) k = Some k1" "wf_lists (items T) (live E) k1" "list_step k k1"
    "pxContainer k1 = (pxContainer k)(xEventListItem c := Some (EventList e))" "only_list (EventList e) k k1"
    using put_sorted[OF lists_invD(1)[OF inv(1)], of "EventList e" "xEventListItem c"] ev e cT by auto
  have core1: "core_inv_but c idle T E k1" and st: "kstep k k1" by (rule link_event[OF core cur(1) ev k1(2-5)])+
  note f = kstep_fields[OF st]
  have same: "is_ready k1 = is_ready k" "remaining k1 = remaining k"
    by (simp_all add: fun_eq_iff is_ready_def remaining_def delayed_def f k1(4))
  have prio1: "prio_inv k1" using prio unfolding prio_inv_def same f .
  have "event_list k1 = (event_list k)(c := Some (EventList e))" by (intro ext) (simp add: k1(4))
  then show ?thesis
    using block_any[OF core1 _ cur(3) n prio1] cur(1,2) same f k1(1)
    by (auto simp: vTaskPlaceOnEventList_def waits_def)
qed

text \<open>Resuming when nothing has happened in between.\<close>

lemma resume_quiet:
  assumes core: "core_inv idle T E k" and q: "pending k = {}" "xPendedTicks k = 0" and s: "uxSchedulerSuspended k = 1"
  shows "xTaskResumeAll k = Some (xYieldPending k,
    k\<lparr>uxSchedulerSuspended := 0, pendsv := pendsv k \<or> xYieldPending k\<rparr>)"
proof -
  define k0 where "k0 = k\<lparr>uxSchedulerSuspended := 0\<rparr>"
  have "lists_inv T E k0" using core_invD(1)[OF core] lists_inv_same[of k0 k T E] by (simp add: k0_def)
  then have "listLIST_IS_EMPTY xPendingReadyList k0" using pending_empty[of T E k0] q(1) by (simp add: k0_def pending_def)
  then have "pending_loop False k0 = Some (False, k0)" by (subst pending_loop.simps) simp
  moreover have "(if xPendedTicks k0 > 0
      then do { k \<leftarrow> pended_ticks_loop (unat (xPendedTicks k0)) k0; Some (k\<lparr>xPendedTicks := 0\<rparr>) } else Some k0) = Some k0"
    using q(2) by (simp add: k0_def)
  moreover have "uxSchedulerSuspended k0 = 0" "uxCurrentNumberOfTasks k0 \<noteq> 0" using core_invD(9)[OF core] by (simp_all add: k0_def)
  moreover have "(if xYieldPending k0 then portYIELD k0 else k0) = k0\<lparr>pendsv := pendsv k \<or> xYieldPending k\<rparr>"
    by (cases k) (simp add: portYIELD_def k0_def)
  ultimately have "xTaskResumeAll k = Some (xYieldPending k0, k0\<lparr>pendsv := pendsv k \<or> xYieldPending k\<rparr>)"
    using s by (cases "xYieldPending k0") (simp_all add: xTaskResumeAll_def k0_def[symmetric] word_greater_zero_iff)
  then show ?thesis by (simp add: k0_def)
qed

text \<open>The way \<open>queue.c\<close> waits: the scheduler is suspended, the task put on the event list, the scheduler
  resumed and a switch asked for.\<close>

definition wait_on :: "nat \<Rightarrow> 32 word \<Rightarrow> kernel \<Rightarrow> kernel option" where
  "wait_on e n k =
     do { k \<leftarrow> vTaskPlaceOnEventList (EventList e) n (vTaskSuspendAll k);
          (yielded, k) \<leftarrow> xTaskResumeAll k;
          Some (if \<not> yielded then portYIELD k else k) }"

lemma wait_on_result:
  assumes ok: "kernel_ok idle T E k" and un: "uxSchedulerSuspended k = 0"
    and cur: "pxCurrentTCB k = Some c" "is_ready k c" "c \<noteq> idle" and e: "e \<in> E" and n: "n \<noteq> 0"
  shows "\<exists>k'. wait_on e n k = Some k' \<and> kernel_ok idle T E k' \<and> pendsv k' \<and> waits c (wait_time n) k k' \<and>
    event_list k' = (event_list k)(c := Some (EventList e))"
proof -
  have core: "core_inv idle T E k" and prio: "prio_inv k" and su: "susp_inv k" using ok by (simp_all add: kernel_ok_def)
  define k0 where "k0 = vTaskSuspendAll k"
  have k0: "core_inv idle T E k0" "prio_inv k0" "pxCurrentTCB k0 = Some c" "is_ready k0 = is_ready k" "remaining k0 = remaining k"
    "uxSchedulerSuspended k0 = 1" "event_list k0 = event_list k" "xPendedTicks k0 = 0" "uxPriority k0 = uxPriority k"
    "uxBasePriority k0 = uxBasePriority k" "xTickCount k0 = xTickCount k"
    using core prio un cur(1) su
    by (auto simp: k0_def vTaskSuspendAll_def prio_inv_def is_ready_def fun_eq_iff remaining_def delayed_def susp_inv_def)
  obtain k1 where k1: "vTaskPlaceOnEventList (EventList e) n k0 = Some k1" "core_inv idle T E k1" "prio_inv k1"
    "waits c (wait_time n) k0 k1" "event_list k1 = (event_list k0)(c := Some (EventList e))" "xPendedTicks k1 = xPendedTicks k0"
    using place_result[OF k0(1,3) _ cur(3) e n k0(2)] k0(4) cur(2) by auto
  have "event_list k t \<noteq> Some xPendingReadyList" for t using su un by (simp add: susp_inv_def)
  then have pend: "pending k1 = {}" using fun_cong[OF k1(5)] fun_cong[OF k0(7)] by (simp add: pending_def)
  have s1: "uxSchedulerSuspended k1 = 1" using k1(4) k0(6) by (simp add: waits_def)
  have z: "xPendedTicks k1 = 0" using k1(6) k0(8) by simp
  define k' where "k' = k1\<lparr>uxSchedulerSuspended := 0, pendsv := True\<rparr>"
  have "wait_on e n k = Some k'"
    using k1(1) resume_quiet[OF k1(2) pend z s1]
    by (auto simp: wait_on_def k0_def[symmetric] k'_def portYIELD_def)
  moreover have "kernel_ok idle T E k'"
  proof -
    have "pxContainer k1 i \<noteq> Some xPendingReadyList" for i
      using pend lists_invD(2)[OF core_invD(1)[OF k1(2)], of i xPendingReadyList] by (auto simp: pending_def)
    then have "susp_inv (k1\<lparr>uxSchedulerSuspended := 0\<rparr>)" using z by (simp add: susp_inv_def)
    then show ?thesis using kernel_ok_yield[of idle T E "k1\<lparr>uxSchedulerSuspended := 0\<rparr>"] k1(2) by (simp add: k'_def)
  qed
  moreover have "waits c (wait_time n) k k'"
  proof -
    have "remaining k' = remaining k1" "is_ready k' = is_ready k1"
      by (simp_all add: k'_def fun_eq_iff remaining_def delayed_def is_ready_def)
    moreover have "uxPriority k' = uxPriority k1" "uxBasePriority k' = uxBasePriority k1" "pxCurrentTCB k' = pxCurrentTCB k1"
      "xTickCount k' = xTickCount k1" "uxSchedulerSuspended k' = 0" "pxContainer k' = pxContainer k1" by (simp_all add: k'_def)
    ultimately show ?thesis using k1(4) k0(3-6,9-11) un cur(1) unfolding waits_def by simp
  qed
  moreover have "event_list k' = (event_list k)(c := Some (EventList e))"
    using k1(5) k0(7) by (simp add: k'_def fun_eq_iff)
  ultimately show ?thesis by (intro exI[of _ k']) (simp add: k'_def)
qed

section \<open>Waking from an event list\<close>

lemma event_head:
  assumes core: "core_inv idle T E k" and ne: "event_list k t0 = Some (EventList e)"
  shows "\<exists>t\<in>T. event_list k t = Some (EventList e) \<and> listGET_OWNER_OF_HEAD_ENTRY (EventList e) k = Some t \<and>
    (sorted_list k (EventList e) \<longrightarrow> (\<forall>u. event_list k u = Some (EventList e) \<longrightarrow>
       item_value k (xEventListItem t) \<le> item_value k (xEventListItem u)))"
proof -
  note inv = core_invD(1)[OF core]
  have "EventList e \<in> live E" using lists_inv_owner(3)[OF inv ne] .
  then obtain i where i: "pxContainer k i = Some (EventList e)" "listGET_OWNER_OF_HEAD_ENTRY (EventList e) k = Some (pvOwner k i)"
    "sorted_list k (EventList e) \<longrightarrow> (\<forall>j. pxContainer k j = Some (EventList e) \<longrightarrow> item_value k i \<le> item_value k j)"
    using head_entry[OF lists_invD(1)[OF inv] _ ne] by blast
  obtain t where t: "i = xEventListItem t" using lists_invD(2)[OF inv i(1)] by auto
  have "t \<in> T" using lists_inv_owner(2)[OF inv i(1) t] .
  then show ?thesis using i t lists_invD(4)[OF inv] by auto
qed

text \<open>Removing an event list item.\<close>

lemma unlink_event:
  assumes core: "core_inv idle T E k" and ev: "event_list k t = Some l" "\<And>p. l \<noteq> Ready p"
  shows "\<exists>k'. listREMOVE_ITEM (xEventListItem t) k = Some k' \<and> core_inv idle T E k' \<and> kstep k k' \<and>
    pxContainer k' = (pxContainer k)(xEventListItem t := None)"
proof -
  note inv = core_invD(1,2)[OF core]
  obtain k1 where k1: "listREMOVE_ITEM (xEventListItem t) k = Some k1" "lists_inv T E k1" "bitmap_inv k1" "kstep k k1"
    "pxContainer k1 = (pxContainer k)(xEventListItem t := None)"
    using remove_unready[OF inv ev] by blast
  have "core_inv idle T E k1"
  proof (rule core_kstep[OF core k1(4,2,3)])
    show "pxContainer k1 i = pxContainer k i" if "pxContainer k1 i \<in> {Some xDelayedTaskList1, Some xDelayedTaskList2}" for i
      using that unfolding k1(5) by (auto split: if_splits)
    show "state_list k1 u \<noteq> None" if "u \<in> T" for u using core_invD(4)[OF core that] unfolding k1(5) by simp
    show "is_ready k1 idle" using core_invD(6)[OF core] unfolding is_ready_def k1(5) kstep_fields(3)[OF k1(4)] by simp
  qed
  then show ?thesis using k1 by blast
qed

text \<open>The first waiter of the list becomes ready, or is held back while the scheduler is suspended.\<close>

lemma remove_from_event_result:
  assumes ok: "kernel_ok idle T E k" and ne: "event_list k t0 = Some (EventList e)" and cur: "pxCurrentTCB k = Some c"
  shows "\<exists>t k'. t \<in> T \<and> event_list k t = Some (EventList e) \<and> listGET_OWNER_OF_HEAD_ENTRY (EventList e) k = Some t \<and>
    xTaskRemoveFromEventList (EventList e) k = Some (uxPriority k t > uxPriority k c, k') \<and> kernel_ok idle T E k' \<and> kept k k' \<and>
    (if uxSchedulerSuspended k = 0 then pxContainer k' = readied {t} k
     else pxContainer k' = (pxContainer k)(xEventListItem t := Some xPendingReadyList)) \<and>
    uxSchedulerSuspended k' = uxSchedulerSuspended k \<and> (uxPriority k t > uxPriority k c \<longrightarrow> xYieldPending k') \<and>
    (sorted_list k (EventList e) \<longrightarrow> (\<forall>u. event_list k u = Some (EventList e) \<longrightarrow>
       item_value k (xEventListItem t) \<le> item_value k (xEventListItem u)))"
proof -
  have core: "core_inv idle T E k" using ok by (simp add: kernel_ok_def)
  obtain t where t: "t \<in> T" "event_list k t = Some (EventList e)" "listGET_OWNER_OF_HEAD_ENTRY (EventList e) k = Some t"
    "sorted_list k (EventList e) \<longrightarrow> (\<forall>u. event_list k u = Some (EventList e) \<longrightarrow>
       item_value k (xEventListItem t) \<le> item_value k (xEventListItem u))"
    using event_head[OF core ne] by blast
  obtain k1 where k1: "listREMOVE_ITEM (xEventListItem t) k = Some k1" "core_inv idle T E k1" "kstep k k1"
    "pxContainer k1 = (pxContainer k)(xEventListItem t := None)"
    using unlink_event[OF core t(2)] by blast
  note f1 = kstep_fields[OF k1(3)]
  have nr: "\<not> is_ready k t" using lists_invD(7)[OF core_invD(1)[OF core]] t(2) by simp
  obtain l where l: "state_list k t = Some l" using core_invD(4)[OF core t(1)] by blast
  have nl: "l \<noteq> Ready p" for p using lists_invD(2)[OF core_invD(1)[OF core] l] nr l by (auto simp: is_ready_def)
  have "\<exists>k2. (if uxSchedulerSuspended k1 = 0
      then do { k \<leftarrow> listREMOVE_ITEM (xStateListItem t) k1; prvAddTaskToReadyList t k }
      else Some (listINSERT_END xPendingReadyList (xEventListItem t) k1)) = Some k2 \<and> core_inv idle T E k2 \<and> kstep k1 k2 \<and>
    (if uxSchedulerSuspended k = 0 then pxContainer k2 = readied {t} k
     else pxContainer k2 = (pxContainer k)(xEventListItem t := Some xPendingReadyList))"
  proof (cases "uxSchedulerSuspended k = 0")
    case True
    have l1: "state_list k1 t = Some l" "event_list k1 t = None" using l k1(4) by simp_all
    have rc: "readied {t} k1 = readied {t} k" by (intro ext) (simp add: readied_def k1(4) f1 split: kitem.split)
    show ?thesis using wake_task[OF k1(2) l1(1) nl l1(2)] True f1(20) unfolding rc by auto
  next
    case False
    have n1: "event_list k1 t = None" "\<not> is_ready k1 t" using k1(4) nr f1(3) by (simp_all add: is_ready_def)
    show ?thesis using hold_task[OF k1(2) t(1) n1] False f1(20) k1(4) by (simp add: listINSERT_END_eq)
  qed
  then obtain k2 where k2: "(if uxSchedulerSuspended k1 = 0
      then do { k \<leftarrow> listREMOVE_ITEM (xStateListItem t) k1; prvAddTaskToReadyList t k }
      else Some (listINSERT_END xPendingReadyList (xEventListItem t) k1)) = Some k2" "core_inv idle T E k2" "kstep k1 k2"
    "if uxSchedulerSuspended k = 0 then pxContainer k2 = readied {t} k
     else pxContainer k2 = (pxContainer k)(xEventListItem t := Some xPendingReadyList)" by (elim exE conjE) (rule that)
  note st = kstep_trans[OF k1(3) k2(3)]
  note f = kstep_fields[OF st]
  define y where "y = (uxPriority k t > uxPriority k c)"
  define k' where "k' = (if y then k2\<lparr>xYieldPending := True\<rparr> else k2)"
  have run: "xTaskRemoveFromEventList (EventList e) k = Some (y, k')"
    using t(3) k1(1) k2(1) f(3,8) cur by (simp add: xTaskRemoveFromEventList_def y_def k'_def)
  have "kernel_ok idle T E k' \<and> kept k k'"
  proof (cases "uxSchedulerSuspended k = 0")
    case True
    have c: "pxContainer k2 = readied {t} k" using k2(4) True by simp
    have e: "k' = k2\<lparr>pendsv := pendsv k \<or> False, xYieldPending := xYieldPending k \<or> y\<rparr>"
      using f(16,21) unfolding k'_def by (cases k2) auto
    show ?thesis using woken_ok[OF ok k2(2) st c cur _ _ e, of y] by (simp add: y_def)
  next
    case False
    have rdy: "is_ready k' u = is_ready k u" for u using k2(4) False by (simp add: is_ready_def k'_def f)
    have "prio_inv k'" "run_inv k'" "susp_inv k'"
      using ok False unfolding kernel_ok_def prio_inv_def run_inv_def susp_inv_def rdy by (auto simp: k'_def f)
    then show ?thesis using k2(2) rdy by (simp add: kernel_ok_def kept_def) (simp add: k'_def f)
  qed
  then show ?thesis using t run k2(4) f(20) by (intro exI[of _ t] exI[of _ k']) (simp add: y_def k'_def)
qed

section \<open>Priority inheritance\<close>

lemma reprio_again: "(reprio t p b v k)\<lparr>uxPriority := (uxPriority k)(t := q)\<rparr> = reprio t q b v k"
  unfolding reprio_def listSET_LIST_ITEM_VALUE_def by (cases k) simp

lemma reprio_mutexes [simp]:
  "uxMutexesHeld (reprio t p b v k) = uxMutexesHeld k" "ulNotifiedValue (reprio t p b v k) = ulNotifiedValue k"
  by (simp_all add: reprio_def listSET_LIST_ITEM_VALUE_def)

definition event_value :: "nat \<Rightarrow> nat \<Rightarrow> kernel \<Rightarrow> 32 word" where
  "event_value t n k =
     (if item_value k (xEventListItem t) AND taskEVENT_LIST_ITEM_VALUE_IN_USE = 0
      then of_nat configMAX_PRIORITIES - of_nat n else item_value k (xEventListItem t))"

lemma set_event_value_same: "set_event_value t n k = reprio t (uxPriority k t) (uxBasePriority k t) (event_value t n k) k"
proof -
  have "k\<lparr>uxPriority := (uxPriority k)(t := uxPriority k t), uxBasePriority := (uxBasePriority k)(t := uxBasePriority k t)\<rparr> = k"
    by (cases k) simp
  then show ?thesis
    using set_event_value_reprio[of t n k "uxBasePriority k t" "uxPriority k t"] by (simp only: event_value_def)
qed

text \<open>Removing at the old priority, changing it and adding again is the move of \<open>vTaskPrioritySet\<close>.\<close>

lemma remove_and_reset_priority: "remove_and_reset i p k = Some k' \<Longrightarrow> uxPriority k' = uxPriority k"
  by (auto simp: remove_and_reset_def uxListRemove_def reset_ready_priority_def Let_def split: option.splits if_splits)

lemma inherit_move:
  assumes p: "uxPriority k t < configMAX_PRIORITIES" and ne: "c \<noteq> t"
  shows "(if state_list k t = Some (Ready (uxPriority k t))
      then do { k \<leftarrow> remove_and_reset (xStateListItem t) (uxPriority k t) (reprio t (uxPriority k t) b v k);
                prvAddTaskToReadyList t (k\<lparr>uxPriority := (uxPriority k)(t := uxPriority k c)\<rparr>) }
      else Some ((reprio t (uxPriority k t) b v k)\<lparr>uxPriority := (uxPriority k)(t := uxPriority k c)\<rparr>)) =
    move_if_ready t (uxPriority k t) (uxPriority k t) (reprio t (uxPriority k c) b v k)"
proof (cases "remove_and_reset (xStateListItem t) (uxPriority k t) k")
  case (Some k1)
  have e: "(reprio t (uxPriority k t) b v k1)\<lparr>uxPriority := (uxPriority (reprio t (uxPriority k t) b v k1))
      (t := uxPriority (reprio t (uxPriority k t) b v k1) c)\<rparr> = reprio t (uxPriority k c) b v k1"
    using reprio_again[where t = t and p = "uxPriority k t" and b = b and v = v and k = k1 and q = "uxPriority k c"] remove_and_reset_priority[OF Some] ne by simp
  show ?thesis
    using p Some e by (simp add: move_if_ready_def pxReadyTasksLists_def list_macros remove_and_reset_reprio reprio_again del: reprio_fields(3))
qed (use p in \<open>simp add: move_if_ready_def pxReadyTasksLists_def list_macros remove_and_reset_reprio reprio_again\<close>)

lemma inherit_result:
  assumes ok: "kernel_ok idle T E k" and t: "t \<in> T" and cur: "pxCurrentTCB k = Some c" "is_ready k c"
    and lt: "uxPriority k t < uxPriority k c"
  shows "\<exists>k'. xTaskPriorityInherit (Some t) k = Some (True, k') \<and> kernel_ok idle T E k' \<and> is_ready k' = is_ready k \<and>
    uxPriority k' = (uxPriority k)(t := uxPriority k c) \<and> uxBasePriority k' = uxBasePriority k \<and>
    pxCurrentTCB k' = pxCurrentTCB k \<and> uxSchedulerSuspended k' = uxSchedulerSuspended k"
proof -
  have core: "core_inv idle T E k" using ok by (simp add: kernel_ok_def)
  note inv = core_invD(1)[OF core]
  have cT: "c \<in> T" using core cur(1) by (auto simp: core_inv_def)
  let ?q = "uxPriority k c" and ?b = "uxBasePriority k t"
  define v where "v = event_value t ?q k"
  note p5 = lists_invD(5)[OF inv t] and q5 = lists_invD(5)[OF inv cT] and b5 = lists_invD(6)[OF inv t]
  obtain k' where k': "move_if_ready t (uxPriority k t) (uxPriority k t) (reprio t ?q ?b v k) = Some k'" "core_inv idle T E k'"
    "kstep (reprio t ?q ?b v k) k'" "is_ready k' = is_ready k"
    "\<forall>i. (\<forall>q. pxContainer k i \<noteq> Some (Ready q)) \<longrightarrow> pxContainer k' i = pxContainer k i"
    using move_result[OF core t q5 b5, of v] by (elim exE conjE) (rule that)
  note f = kstep_fields[OF k'(3), unfolded reprio_fields]
  have "kernel_ok idle T E (if False then portYIELD k' else k')"
    by (rule repriorised_ok[OF ok k'(2,3,4) cur k'(5)]) (use lt in auto)
  moreover have "xTaskPriorityInherit (Some t) k = Some (True, k')"
  proof -
    have ne: "c \<noteq> t" using lt by auto
    have "set_event_value t ?q k = reprio t (uxPriority k t) ?b v k" unfolding v_def by (rule set_event_value_same)
    then show ?thesis
      using cur(1) lt k'(1) inherit_move[OF p5 ne, of ?b v] p5
      by (auto simp: xTaskPriorityInherit_def Let_def pxReadyTasksLists_def list_macros Option.bind_eq_Some_conv split: if_splits)
  qed
  moreover have "(uxBasePriority k)(t := ?b) = uxBasePriority k" by (simp add: fun_eq_iff)
  ultimately show ?thesis using k'(4) f by (intro exI[of _ k']) simp
qed

lemma inherit_noop:
  "pxCurrentTCB k = Some c \<Longrightarrow> \<not> uxPriority k t < uxPriority k c \<Longrightarrow>
    xTaskPriorityInherit (Some t) k = Some (uxBasePriority k t < uxPriority k c, k)"
  "xTaskPriorityInherit None k = Some (False, k)"
  by (simp_all add: xTaskPriorityInherit_def)

text \<open>Giving a mutex back: the inherited priority goes and the caller asks for a switch.\<close>

definition give_back :: "nat option \<Rightarrow> kernel \<Rightarrow> kernel option" where
  "give_back holder k = do { (y, k) \<leftarrow> xTaskPriorityDisinherit holder k; Some (if y then portYIELD k else k) }"

lemma mutex_ok: "kernel_ok idle T E k \<Longrightarrow> kernel_ok idle T E (k\<lparr>uxMutexesHeld := h\<rparr>)"
  by (auto simp: kernel_ok_def prio_inv_def run_inv_def susp_inv_def is_ready_def)

lemma disinherit_result:
  assumes ok: "kernel_ok idle T E k" and cur: "pxCurrentTCB k = Some c" "is_ready k c"
  defines "released \<equiv> uxPriority k c \<noteq> uxBasePriority k c \<and> uxMutexesHeld k c = 1"
  shows "\<exists>k'. give_back (Some c) k = Some k' \<and> kernel_ok idle T E k' \<and> is_ready k' = is_ready k \<and>
    uxPriority k' = (if released then (uxPriority k)(c := uxBasePriority k c) else uxPriority k) \<and>
    uxBasePriority k' = uxBasePriority k \<and> (released \<longrightarrow> pendsv k') \<and>
    uxMutexesHeld k' = (uxMutexesHeld k)(c := uxMutexesHeld k c - 1) \<and>
    pxCurrentTCB k' = pxCurrentTCB k \<and> uxSchedulerSuspended k' = uxSchedulerSuspended k"
proof -
  define k0 where "k0 = k\<lparr>uxMutexesHeld := (uxMutexesHeld k)(c := uxMutexesHeld k c - 1)\<rparr>"
  have ok0: "kernel_ok idle T E k0" using mutex_ok[OF ok] by (simp add: k0_def)
  have z: "uxMutexesHeld k c - 1 = 0 \<longleftrightarrow> uxMutexesHeld k c = 1" by (rule right_minus_eq)
  have dis: "xTaskPriorityDisinherit (Some c) k =
     (if released then do {
        k \<leftarrow> remove_and_reset (xStateListItem c) (uxPriority k0 c) k0;
        let k = k\<lparr>uxPriority := (uxPriority k)(c := uxBasePriority k c)\<rparr>;
        let k = listSET_LIST_ITEM_VALUE (xEventListItem c) (of_nat configMAX_PRIORITIES - of_nat (uxPriority k c)) k;
        k \<leftarrow> prvAddTaskToReadyList c k;
        Some (True, k) } else Some (False, k0))"
  proof -
    have "(uxPriority k0 c \<noteq> uxBasePriority k0 c \<and> uxMutexesHeld k0 c = 0) = released" using z by (simp add: k0_def released_def)
    then show ?thesis by (simp add: xTaskPriorityDisinherit_def Let_def k0_def[symmetric])
  qed
  show ?thesis
  proof (cases released)
    case False
    then have "give_back (Some c) k = Some k0"
      by (simp add: give_back_def dis)
    then show ?thesis using ok0 False by (intro exI[of _ k0]) (simp add: k0_def is_ready_def fun_eq_iff)
  next
    case True
    have core: "core_inv idle T E k0" using ok0 by (simp add: kernel_ok_def)
    have f0: "pxCurrentTCB k0 = Some c" "is_ready k0 = is_ready k" "is_ready k0 c" "uxPriority k0 = uxPriority k"
      "uxBasePriority k0 = uxBasePriority k" using cur by (simp_all add: k0_def is_ready_def fun_eq_iff)
    have cT: "c \<in> T" using core f0(1) by (auto simp: core_inv_def)
    let ?p = "uxPriority k0 c" and ?b = "uxBasePriority k0 c"
    define v :: "32 word" where "v = of_nat configMAX_PRIORITIES - of_nat ?b"
    note p5 = lists_invD(5)[OF core_invD(1)[OF core] cT] and b5 = lists_invD(6)[OF core_invD(1)[OF core] cT]
    obtain k' where k': "move_if_ready c ?p ?p (reprio c ?b ?b v k0) = Some k'" "core_inv idle T E k'"
      "kstep (reprio c ?b ?b v k0) k'" "is_ready k' = is_ready k0"
      "\<forall>i. (\<forall>q. pxContainer k0 i \<noteq> Some (Ready q)) \<longrightarrow> pxContainer k' i = pxContainer k0 i"
      using move_result[OF core cT b5 b5, of v] by (elim exE conjE) (rule that)
    note f = kstep_fields[OF k'(3), unfolded reprio_fields]
    have "kernel_ok idle T E (if True then portYIELD k' else k')"
      by (rule repriorised_ok[OF ok0 k'(2,3,4) f0(1,3) k'(5)]) simp
    moreover have "give_back (Some c) k = Some (portYIELD k')"
    proof -
      have r: "state_list k0 c = Some (Ready ?p)" using f0(3) by (simp add: is_ready_def)
      obtain k1 where k1: "remove_and_reset (xStateListItem c) ?p k0 = Some k1" "kstep k0 k1"
        using remove_ready[OF core_invD(1,2)[OF core] r] by blast
      have e: "k1\<lparr>uxPriority := (uxPriority k1)(c := ?b)\<rparr> = reprio c ?b ?b (item_value k1 (xEventListItem c)) k1"
        using kstep_fields(4)[OF k1(2)] by (cases k1) (simp add: reprio_def listSET_LIST_ITEM_VALUE_def)
      have "listSET_LIST_ITEM_VALUE (xEventListItem c) v (reprio c ?b ?b w k1) = reprio c ?b ?b v k1" for w
        by (simp add: reprio_def listSET_LIST_ITEM_VALUE_def)
      note sv = this
      have "prvAddTaskToReadyList c (reprio c ?b ?b v k1) = Some k'"
        using k'(1) r p5 k1(1) by (simp add: move_if_ready_def pxReadyTasksLists_def list_macros remove_and_reset_reprio)
      then show ?thesis
        using True k1(1) sv[of "item_value k1 (xEventListItem c)"] kstep_fields(4)[OF k1(2)]
        by (simp add: give_back_def dis Let_def e v_def)
    qed
    ultimately show ?thesis using k'(4) f f0 True
      by (intro exI[of _ "portYIELD k'"]) (simp add: portYIELD_def is_ready_def k0_def fun_eq_iff)
  qed
qed

section \<open>Creation of tasks and lists\<close>

lemma new_task_fields:
  assumes "k' = prvInitialiseNewTask t p k"
  shows "pxContainer k' = (pxContainer k)(xStateListItem t := None, xEventListItem t := None)"
    "uxPriority k' = (uxPriority k)(t := min p (configMAX_PRIORITIES - 1))"
    "uxBasePriority k' = (uxBasePriority k)(t := min p (configMAX_PRIORITIES - 1))"
    "pvOwner k' = (pvOwner k)(xStateListItem t := t, xEventListItem t := t)"
    "uxTopReadyPriority k' = uxTopReadyPriority k" "pxCurrentTCB k' = pxCurrentTCB k" "xTickCount k' = xTickCount k"
    "pxDelayedTaskList k' = pxDelayedTaskList k" "pxOverflowDelayedTaskList k' = pxOverflowDelayedTaskList k"
    "xNextTaskUnblockTime k' = xNextTaskUnblockTime k" "uxSchedulerSuspended k' = uxSchedulerSuspended k"
    "xSchedulerRunning k' = xSchedulerRunning k" "uxCurrentNumberOfTasks k' = uxCurrentNumberOfTasks k"
    "xPendedTicks k' = xPendedTicks k" "pendsv k' = pendsv k" "xYieldPending k' = xYieldPending k" "uxTaskNumber k' = uxTaskNumber k"
    "pxNext k' = pxNext k" "pxPrevious k' = pxPrevious k" "uxNumberOfItems k' = uxNumberOfItems k" "pxIndex k' = pxIndex k"
    "xItemValue k' = (xItemValue k)(ListItem (xEventListItem t) := of_nat configMAX_PRIORITIES - of_nat (min p (configMAX_PRIORITIES - 1)))"
  unfolding assms prvInitialiseNewTask_def vListInitialiseItem_def listSET_LIST_ITEM_OWNER_def listSET_LIST_ITEM_VALUE_def Let_def
  by (simp_all add: configMAX_PRIORITIES_def min_def not_le)

text \<open>A list view depends on the list structure, the containers of the list and the value of its end marker.\<close>

lemma new_task_view:
  assumes t: "t \<notin> T" and inv: "lists_inv T E k"
  shows "list_view (prvInitialiseNewTask t p k) = list_view k" "pxContainer (prvInitialiseNewTask t p k) = pxContainer k"
proof -
  note f = new_task_fields[of _ t p k, OF refl]
  have n: "pxContainer k (xStateListItem t) = None" "pxContainer k (xEventListItem t) = None"
    using lists_inv_owner(1,2)[OF inv] t by (metis not_None_eq)+
  show c: "pxContainer (prvInitialiseNewTask t p k) = pxContainer k" unfolding f(1) using n by (intro ext) simp
  show "list_view (prvInitialiseNewTask t p k) = list_view k"
    unfolding list_view_def[abs_def] c f(18-22) by simp
qed

lemma new_task_lists:
  assumes inv: "lists_inv T E k" and t: "t \<notin> T" and card: "2 * card (insert t T) < 2 ^ 32"
  shows "lists_inv (insert t T) E (prvInitialiseNewTask t p k)"
proof -
  let ?k = "prvInitialiseNewTask t p k"
  note f = new_task_fields[of ?k t p k, OF refl] and v = new_task_view[OF t inv, of p]
  have fin: "finite (insert t T)" using lists_inv_finite[OF inv] by simp
  have "wf_lists (items (insert t T)) (live E) ?k"
    using lists_invD(1)[OF inv] card card_items[OF fin] fin unfolding wf_lists_def v by (auto simp: items_def)
  moreover have "placed ?k l i" if a: "pxContainer k i = Some l" for l i
  proof (cases l)
    case (Ready q)
    obtain u where u: "i = xStateListItem u" "uxPriority k u = q" using lists_invD(2)[OF inv a] unfolding Ready by auto
    have "u \<in> T" using lists_inv_owner(1)[OF inv a u(1)] .
    then have "u \<noteq> t" using t by blast
    then show ?thesis using u Ready by (auto simp: f(2))
  qed (use lists_invD(2)[OF inv a] in simp_all)
  moreover have "event_list k u \<noteq> None \<longrightarrow> \<not> is_ready ?k u" for u
  proof
    assume e: "event_list k u \<noteq> None"
    then have "u \<in> T" using lists_inv_owner(2)[OF inv] by blast
    then have "u \<noteq> t" using t by blast
    then show "\<not> is_ready ?k u" using lists_invD(7)[OF inv e] by (simp add: is_ready_def v f(2))
  qed
  moreover have "min p (configMAX_PRIORITIES - 1) < configMAX_PRIORITIES" by (simp add: configMAX_PRIORITIES_def)
  ultimately show ?thesis
    using lists_invD(3-6)[OF inv] t unfolding lists_inv_def v by (auto simp: f(2-4))
qed

lemma new_list_inv:
  assumes inv: "lists_inv T E k" and e: "e \<notin> E"
  shows "lists_inv T (insert e E) (vListInitialise (EventList e) k)"
proof -
  let ?k = "vListInitialise (EventList e) k"
  have ne: "pxContainer k i \<noteq> Some (EventList e)" for i using lists_inv_owner(3)[OF inv] e by fastforce
  have v: "\<exists>xs. list_view ?k l xs" if "l \<in> live (insert e E)" for l
  proof (cases "l = EventList e")
    case True
    then show ?thesis using vListInitialise_view[of k "EventList e"] ne by blast
  next
    case False
    then have "l \<in> live E" using that by (auto simp: live_def)
    then obtain xs where "list_view k l xs" using wf_listsD(1)[OF lists_invD(1)[OF inv]] by blast
    then show ?thesis using vListInitialise_frame[of k l xs "EventList e"] False by blast
  qed
  have "live E \<subseteq> live (insert e E)" by (auto simp: live_def)
  then have "wf_lists (items T) (live (insert e E)) ?k"
    using v lists_invD(1)[OF inv] unfolding wf_lists_def by auto
  moreover have "placed ?k l i = placed k l i" for l i by (cases l) (simp_all add: vListInitialise_def Let_def)
  ultimately show ?thesis using inv unfolding lists_inv_def is_ready_def by (simp add: vListInitialise_def Let_def)
qed

section \<open>Start-up\<close>

lemma empty_view: "list_view k l xs \<Longrightarrow> (\<And>i. pxContainer k i \<noteq> Some l) \<Longrightarrow> list_view k l []"
proof -
  assume v: "list_view k l xs" and n: "\<And>i. pxContainer k i \<noteq> Some l"
  have "xs = []" using list_view_container[OF v] n by (cases xs) auto
  then show ?thesis using v by simp
qed

lemma empty_sorted: "wf_lists I L k \<Longrightarrow> l \<in> L \<Longrightarrow> (\<And>i. pxContainer k i \<noteq> Some l) \<Longrightarrow> sorted_list k l"
  using empty_view[of k l] wf_listsD(1)[of I L k l] by (auto simp: sorted_list_def intro!: exI[of _ "[]"])

definition init_lists :: "klist list" where
  "init_lists = [xSuspendedTaskList, xTasksWaitingTermination, xPendingReadyList, xDelayedTaskList2, xDelayedTaskList1,
     Ready 4, Ready 3, Ready 2, Ready 1, Ready 0]"

lemma prvInitialiseTaskLists_fold:
  "prvInitialiseTaskLists k = (foldr vListInitialise init_lists k)
     \<lparr>pxDelayedTaskList := xDelayedTaskList1, pxOverflowDelayedTaskList := xDelayedTaskList2\<rparr>"
  by (simp add: prvInitialiseTaskLists_def init_lists_def configMAX_PRIORITIES_def numeral_eq_Suc Let_def)

lemma init_fields:
  fixes k :: kernel
  shows "pxContainer (foldr vListInitialise ls k) = pxContainer k" "uxPriority (foldr vListInitialise ls k) = uxPriority k"
    "uxBasePriority (foldr vListInitialise ls k) = uxBasePriority k" "pvOwner (foldr vListInitialise ls k) = pvOwner k"
    "uxTopReadyPriority (foldr vListInitialise ls k) = uxTopReadyPriority k" "pxCurrentTCB (foldr vListInitialise ls k) = pxCurrentTCB k"
    "uxSchedulerSuspended (foldr vListInitialise ls k) = uxSchedulerSuspended k"
    "xSchedulerRunning (foldr vListInitialise ls k) = xSchedulerRunning k"
    "uxCurrentNumberOfTasks (foldr vListInitialise ls k) = uxCurrentNumberOfTasks k"
    "xPendedTicks (foldr vListInitialise ls k) = xPendedTicks k" "pendsv (foldr vListInitialise ls k) = pendsv k"
    "xYieldPending (foldr vListInitialise ls k) = xYieldPending k"
  by (induction ls) (simp_all add: vListInitialise_def Let_def)

lemma init_view:
  assumes "\<And>i. pxContainer k i = None" "l \<in> set ls \<or> list_view k l []"
  shows "list_view (foldr vListInitialise ls k) l []"
  using assms(2)
proof (induction ls)
  case (Cons m ls)
  have n: "pxContainer (foldr vListInitialise ls k) i \<noteq> Some x" for i x
    using assms(1) by (induction ls) simp_all
  show ?case
  proof (cases "l = m")
    case True
    then show ?thesis using vListInitialise_view[of "foldr vListInitialise ls k" m] n by simp
  next
    case False
    then show ?thesis using vListInitialise_frame[of "foldr vListInitialise ls k" l "[]" m] Cons by auto
  qed
qed simp

lemma live_init: "l \<in> live E \<Longrightarrow> l \<in> set init_lists \<or> (\<exists>e\<in>E. l = EventList e)"
proof -
  have "{..<configMAX_PRIORITIES} = {0, 1, 2, 3, 4}" by (auto simp: configMAX_PRIORITIES_def)
  then show "l \<in> live E \<Longrightarrow> l \<in> set init_lists \<or> (\<exists>e\<in>E. l = EventList e)" unfolding live_def init_lists_def by auto
qed

text \<open>The kernel before the first task: statics are zero and only event lists exist.\<close>

definition pristine :: "nat set \<Rightarrow> kernel \<Rightarrow> bool" where
  "pristine E k \<longleftrightarrow> (\<forall>i. pxContainer k i = None) \<and> (\<forall>e\<in>E. list_view k (EventList e) []) \<and>
     pxCurrentTCB k = None \<and> uxCurrentNumberOfTasks k = 0 \<and> uxTopReadyPriority k = 0 \<and> \<not> xSchedulerRunning k \<and>
     uxSchedulerSuspended k = 0 \<and> \<not> pendsv k \<and> \<not> xYieldPending k \<and> xPendedTicks k = 0"

text \<open>Tasks have been created and the scheduler is not running.\<close>

definition boot_inv :: "nat set \<Rightarrow> nat set \<Rightarrow> kernel \<Rightarrow> bool" where
  "boot_inv T E k \<longleftrightarrow> lists_inv T E k \<and> bitmap_inv k \<and> pxDelayedTaskList k = xDelayedTaskList1 \<and>
     pxOverflowDelayedTaskList k = xDelayedTaskList2 \<and> (\<forall>t\<in>T. is_ready k t \<and> uxBasePriority k t = uxPriority k t) \<and>
     (\<exists>c\<in>T. pxCurrentTCB k = Some c \<and> (\<forall>t\<in>T. uxPriority k t \<le> uxPriority k c)) \<and>
     uxCurrentNumberOfTasks k = of_nat (card T) \<and> \<not> xSchedulerRunning k \<and>
     uxSchedulerSuspended k = 0 \<and> \<not> pendsv k \<and> \<not> xYieldPending k \<and> xPendedTicks k = 0"

text \<open>The prologue of \<open>prvAddNewTaskToReadyList\<close> for the first task.\<close>

lemma first_task:
  assumes p: "pristine E k"
  shows "\<exists>k'. prvAddNewTaskToReadyList t (prvInitialiseNewTask t p k) = Some k' \<and> boot_inv {t} E k' \<and> pxCurrentTCB k' = Some t"
proof -
  define k1 where "k1 = prvInitialiseNewTask t p k"
  note f = new_task_fields[OF k1_def]
  define k2 where "k2 = k1\<lparr>uxCurrentNumberOfTasks := 1, pxCurrentTCB := Some t\<rparr>"
  define k3 where "k3 = prvInitialiseTaskLists k2"
  define k4 where "k4 = k3\<lparr>uxTaskNumber := uxTaskNumber k3 + 1\<rparr>"
  have c: "pxContainer k1 = (\<lambda>_. None)" using p f(1) by (auto simp: pristine_def)
  have v2: "list_view k2 (EventList e) []" if "e \<in> E" for e
  proof -
    have "list_view k2 = list_view k" using p c unfolding list_view_def[abs_def] by (simp add: k2_def f(18-22)) (simp add: pristine_def)
    then show ?thesis using p that by (simp add: pristine_def)
  qed
  have f3: "pxContainer k3 = (\<lambda>_. None)" "uxPriority k3 = uxPriority k1" "uxBasePriority k3 = uxBasePriority k1" "pvOwner k3 = pvOwner k1"
    "uxTopReadyPriority k3 = 0" "pxCurrentTCB k3 = Some t" "uxCurrentNumberOfTasks k3 = 1" "\<not> xSchedulerRunning k3"
    "uxSchedulerSuspended k3 = 0" "\<not> pendsv k3" "\<not> xYieldPending k3" "xPendedTicks k3 = 0"
    "pxDelayedTaskList k3 = xDelayedTaskList1" "pxOverflowDelayedTaskList k3 = xDelayedTaskList2"
    using p c by (simp_all add: k3_def prvInitialiseTaskLists_fold init_fields k2_def f pristine_def)
  have v3: "list_view k3 l []" if "l \<in> live E" for l
  proof -
    have "l \<in> set init_lists \<or> list_view k2 l []" using live_init[OF that] v2 by blast
    then have "list_view (foldr vListInitialise init_lists k2) l []" using c by (intro init_view) (simp_all add: k2_def)
    then show ?thesis unfolding k3_def prvInitialiseTaskLists_fold by (simp add: list_view_def)
  qed
  have fin: "finite (items {t})" "card (items {t}) < 2 ^ 32" using card_items[of "{t}"] by (simp_all add: items_def)
  have "min p (configMAX_PRIORITIES - 1) < configMAX_PRIORITIES" by (simp add: configMAX_PRIORITIES_def)
  then have "lists_inv {t} E k3"
    using v3 fin unfolding lists_inv_def wf_lists_def by (auto simp: f3(1-4) f(2-4))
  then have inv4: "lists_inv {t} E k4" using lists_inv_same[of k4 k3 "{t}" E] by (simp add: k4_def)
  have b4: "bitmap_inv k4" by (simp add: bitmap_inv_def k4_def f3(1,5))
  have s4: "state_list k4 t = None" "event_list k4 t = None" by (simp_all add: k4_def f3(1))
  obtain k' where k': "prvAddTaskToReadyList t k4 = Some k'" "lists_inv {t} E k'" "bitmap_inv k'" "kstep k4 k'"
    "pxContainer k' = (pxContainer k4)(xStateListItem t := Some (Ready (uxPriority k4 t)))"
    using add_ready[OF inv4 b4 _ s4] by auto
  note f' = kstep_fields[OF k'(4)]
  have "prvAddNewTaskToReadyList t k1 = Some k'"
  proof -
    have "pxCurrentTCB k1 = None" "uxCurrentNumberOfTasks k1 + 1 = 1" "\<not> xSchedulerRunning k'" "uxCurrentNumberOfTasks k2 = 1"
      using p f'(14) f3(8) by (simp_all add: f pristine_def k4_def k2_def)
    then show ?thesis
      using k'(1) f'(8) f3(6) by (simp add: prvAddNewTaskToReadyList_def Let_def k2_def[symmetric] k3_def[symmetric] k4_def[symmetric]) (simp add: k4_def)
  qed
  moreover have "boot_inv {t} E k'"
    using k'(2,3) f' f3 by (simp add: boot_inv_def k4_def k'(5) is_ready_def f)
  moreover have "pxCurrentTCB k' = Some t" using f'(8) f3(6) by (simp add: k4_def)
  ultimately show ?thesis by (simp add: k1_def)
qed

text \<open>A task is added to the ready list, with or without the scheduler running.\<close>

lemma added_task:
  assumes inv: "lists_inv T E k" "bitmap_inv k" and t: "t \<notin> T" and card: "2 * card (insert t T) < 2 ^ 32"
    and upd: "k2 = k1\<lparr>uxCurrentNumberOfTasks := n, pxCurrentTCB := c, uxTaskNumber := m\<rparr>" "k1 = prvInitialiseNewTask t p k"
  shows "\<exists>k'. prvAddTaskToReadyList t k2 = Some k' \<and> lists_inv (insert t T) E k' \<and> bitmap_inv k' \<and> kstep k2 k' \<and>
    pxContainer k' = (pxContainer k)(xStateListItem t := Some (Ready (uxPriority k2 t)))"
proof -
  note f = new_task_fields[OF upd(2)] and v = new_task_view[OF t inv(1), of p, folded upd(2)]
  have i1: "lists_inv (insert t T) E k1" using new_task_lists[OF inv(1) t card, of p] by (simp add: upd(2))
  have i2: "lists_inv (insert t T) E k2" using i1 lists_inv_same[of k2 k1 "insert t T" E] by (simp add: upd(1))
  have b2: "bitmap_inv k2" using inv(2) v(2) f(5) by (simp add: bitmap_inv_def upd(1))
  have c2: "pxContainer k2 = pxContainer k" using v(2) by (simp add: upd(1))
  have n: "state_list k2 t = None" "event_list k2 t = None"
    using lists_inv_owner(1,2)[OF inv(1)] t unfolding c2 by (metis not_None_eq)+
  show ?thesis using add_ready[OF i2 b2 _ n] unfolding c2 by auto
qed

lemma next_task:
  assumes b: "boot_inv T E k" and t: "t \<notin> T" and card: "2 * card (insert t T) < 2 ^ 32"
  shows "\<exists>k'. prvAddNewTaskToReadyList t (prvInitialiseNewTask t p k) = Some k' \<and> boot_inv (insert t T) E k' \<and>
    (configMAX_PRIORITIES - 1 \<le> p \<longrightarrow> pxCurrentTCB k' = Some t)"
proof -
  have inv: "lists_inv T E k" "bitmap_inv k" using b by (simp_all add: boot_inv_def)
  obtain c where c: "c \<in> T" "pxCurrentTCB k = Some c" "\<forall>u\<in>T. uxPriority k u \<le> uxPriority k c"
    using b by (auto simp: boot_inv_def)
  define k1 where "k1 = prvInitialiseNewTask t p k"
  note f = new_task_fields[OF k1_def] and v = new_task_view[OF t inv(1), of p, folded k1_def]
  define c' where "c' = (if uxPriority k1 c \<le> uxPriority k1 t then t else c)"
  define k2 where "k2 = k1\<lparr>uxCurrentNumberOfTasks := uxCurrentNumberOfTasks k1 + 1, pxCurrentTCB := Some c',
    uxTaskNumber := uxTaskNumber k1 + 1\<rparr>"
  obtain k' where k': "prvAddTaskToReadyList t k2 = Some k'" "lists_inv (insert t T) E k'" "bitmap_inv k'" "kstep k2 k'"
    "pxContainer k' = (pxContainer k)(xStateListItem t := Some (Ready (uxPriority k2 t)))"
    using added_task[OF inv t card k2_def k1_def] by blast
  note f' = kstep_fields[OF k'(4)]
  have nr: "\<not> xSchedulerRunning k1" using b by (simp add: f boot_inv_def)
  have "prvAddNewTaskToReadyList t k1 = Some k'"
  proof (cases "uxPriority k1 c \<le> uxPriority k1 t")
    case True
    then show ?thesis using k'(1) c(2) nr f'(8,14)
      by (simp add: prvAddNewTaskToReadyList_def Let_def f(6) k2_def c'_def)
  next
    case False
    have e: "k2 = k1\<lparr>uxCurrentNumberOfTasks := uxCurrentNumberOfTasks k1 + 1, uxTaskNumber := uxTaskNumber k1 + 1\<rparr>"
      using False c(2) f(6) unfolding k2_def c'_def by (cases k1) simp
    have "xSchedulerRunning k' = False" "pxCurrentTCB k' = Some c" using f'(8,14) nr c(2) f(6) by (simp_all add: e)
    then show ?thesis using k'(1)[unfolded e] False c(2) nr
      by (simp add: prvAddNewTaskToReadyList_def Let_def f(6))
  qed
  moreover have "boot_inv (insert t T) E k'"
  proof -
    have tc: "c \<noteq> t" using c(1) t by blast
    have p: "uxPriority k1 u = uxPriority k u" if "u \<in> T" for u using that t f(2) by auto
    have "is_ready k' u \<and> uxBasePriority k1 u = uxPriority k1 u" if "u \<in> insert t T" for u
    proof (cases "u = t")
      case True
      then show ?thesis by (simp add: is_ready_def f' k'(5) f)
    next
      case False
      then have u: "u \<in> T" "is_ready k u" "uxBasePriority k u = uxPriority k u" using that b by (auto simp: boot_inv_def)
      then have "is_ready k' u" using False p by (simp add: is_ready_def f' k'(5)) (simp add: k2_def)
      then show ?thesis using u(3) False by (simp add: f)
    qed
    moreover have "\<forall>u\<in>insert t T. uxPriority k1 u \<le> uxPriority k1 c'" "c' \<in> insert t T"
      using c(1,3) p tc by (auto simp: c'_def)
    moreover have "uxCurrentNumberOfTasks k1 + 1 = of_nat (card (insert t T))"
      using b t lists_inv_finite[OF inv(1)] by (simp add: f boot_inv_def)
    ultimately show ?thesis
      using k'(2,3) b unfolding boot_inv_def f' by (simp add: k2_def f)
  qed
  moreover have "pxCurrentTCB k' = Some t" if p: "configMAX_PRIORITIES - 1 \<le> p"
  proof -
    have "uxPriority k c < configMAX_PRIORITIES" by (rule lists_invD(5)[OF inv(1) c(1)])
    then have "uxPriority k1 c \<le> uxPriority k1 t" using p t c(1) by (auto simp: f(2) min_def)
    then show ?thesis by (simp add: f'(8) k2_def c'_def)
  qed
  ultimately show ?thesis by (simp add: k1_def)
qed

lemma new_list_fields:
  fixes k :: kernel
  shows "pxContainer (vListInitialise l k) = pxContainer k" "uxPriority (vListInitialise l k) = uxPriority k"
    "uxBasePriority (vListInitialise l k) = uxBasePriority k" "uxTopReadyPriority (vListInitialise l k) = uxTopReadyPriority k"
    "pxCurrentTCB (vListInitialise l k) = pxCurrentTCB k" "uxSchedulerSuspended (vListInitialise l k) = uxSchedulerSuspended k"
    "xSchedulerRunning (vListInitialise l k) = xSchedulerRunning k" "xTickCount (vListInitialise l k) = xTickCount k"
    "uxCurrentNumberOfTasks (vListInitialise l k) = uxCurrentNumberOfTasks k" "xPendedTicks (vListInitialise l k) = xPendedTicks k"
    "pendsv (vListInitialise l k) = pendsv k" "xYieldPending (vListInitialise l k) = xYieldPending k"
    "pxDelayedTaskList (vListInitialise l k) = pxDelayedTaskList k" "xNextTaskUnblockTime (vListInitialise l k) = xNextTaskUnblockTime k"
    "pxOverflowDelayedTaskList (vListInitialise l k) = pxOverflowDelayedTaskList k"
  by (simp_all add: vListInitialise_def Let_def)

lemma boot_new_list:
  assumes "boot_inv T E k" "e \<notin> E"
  shows "boot_inv T (insert e E) (vListInitialise (EventList e) k)"
  using assms new_list_inv[of T E k e] unfolding boot_inv_def bitmap_inv_def is_ready_def new_list_fields by blast

lemma pristine_new_list:
  assumes "pristine E k" "e \<notin> E"
  shows "pristine (insert e E) (vListInitialise (EventList e) k)"
proof -
  have v: "list_view (vListInitialise (EventList e) k) (EventList e') []" if "e' \<in> insert e E" for e'
  proof (cases "e' = e")
    case True
    then show ?thesis using vListInitialise_view[of k "EventList e"] assms(1) by (simp add: pristine_def)
  next
    case False
    then show ?thesis using vListInitialise_frame[of k "EventList e'" "[]" "EventList e"] assms(1) that by (simp add: pristine_def)
  qed
  then show ?thesis using assms(1) unfolding pristine_def new_list_fields by blast
qed

lemma start_ok:
  assumes b: "boot_inv T E k" and c: "idle \<in> T"
  shows "kernel_ok idle T E (k\<lparr>xNextTaskUnblockTime := portMAX_DELAY, xSchedulerRunning := True, xTickCount := 0\<rparr>)" (is "kernel_ok _ _ _ ?k")
proof -
  have inv: "lists_inv T E k" using b by (simp add: boot_inv_def)
  have r: "is_ready k t" if "t \<in> T" for t using b that by (simp add: boot_inv_def)
  have n: "pxContainer k i = None \<or> (\<exists>p. pxContainer k i = Some (Ready p))" for i
  proof (cases i)
    case (xStateListItem t)
    then show ?thesis using r[of t] state_list_T[OF inv, of t] by (auto simp: is_ready_def)
  next
    case (xEventListItem t)
    then show ?thesis using ready_no_event[OF inv r[of t]] lists_inv_owner(2)[OF inv, of i _ t] by fastforce
  qed
  have s: "sorted_list k l" if "l \<in> {xDelayedTaskList1, xDelayedTaskList2}" for l
  proof (rule empty_sorted[OF lists_invD(1)[OF inv]])
    show "l \<in> live E" using that by auto
    show "pxContainer k i \<noteq> Some l" for i using n[of i] that by auto
  qed
  have "sorted_list ?k = sorted_list k" by (rule sorted_list_same) simp_all
  then have "delay_inv ?k" using s n b unfolding delay_inv_def boot_inv_def by (simp, metis klist.distinct(1,3) option.distinct(1) option.inject)
  moreover have "lists_inv T E ?k" using inv lists_inv_same[of ?k k T E] by simp
  moreover have "state_list ?k t \<noteq> None" if "t \<in> T" for t using r[OF that] by (simp add: is_ready_def)
  moreover have "is_ready ?k = is_ready k" by (simp add: fun_eq_iff is_ready_def)
  ultimately have "core_inv idle T E ?k" using b c r unfolding core_inv_def boot_inv_def by (auto simp: bitmap_inv_def)
  moreover obtain cur where cur: "cur \<in> T" "pxCurrentTCB k = Some cur" "\<forall>t\<in>T. uxPriority k t \<le> uxPriority k cur"
    using b by (auto simp: boot_inv_def)
  have "prio_inv ?k"
  proof -
    have "t \<in> T" if "is_ready k t" for t using that state_list_T[OF inv] by (auto simp: is_ready_def)
    then show ?thesis using cur unfolding prio_inv_def by (auto simp: is_ready_def) (meson leD)
  qed
  moreover have "run_inv ?k" using cur(1,2) r[OF cur(1)] by (simp add: run_inv_def is_ready_def)
  moreover have "susp_inv ?k" using n b unfolding susp_inv_def boot_inv_def by (simp, metis klist.distinct option.distinct(1) option.inject)
  ultimately show ?thesis by (simp add: kernel_ok_def)
qed

section \<open>Creation and deletion while the scheduler runs\<close>

lemma create_result:
  assumes ok: "kernel_ok idle T E k" and t: "t \<notin> T" and card: "2 * card (insert t T) < 2 ^ 32"
    and cur: "pxCurrentTCB k = Some c" "is_ready k c"
  shows "\<exists>k'. xTaskCreate (Some t) p k = Some (True, k') \<and> kernel_ok idle (insert t T) E k' \<and> is_ready k' t"
proof -
  have core: "core_inv idle T E k" using ok by (simp add: kernel_ok_def)
  note inv = core_invD(1-3)[OF core]
  have cT: "c \<in> T" using core cur(1) by (auto simp: core_inv_def)
  define k1 where "k1 = prvInitialiseNewTask t p k"
  note f = new_task_fields[OF k1_def] and v = new_task_view[OF t inv(1), of p, folded k1_def]
  define k2 where "k2 = k1\<lparr>uxCurrentNumberOfTasks := uxCurrentNumberOfTasks k1 + 1, pxCurrentTCB := Some c,
    uxTaskNumber := uxTaskNumber k1 + 1\<rparr>"
  have e2: "k2 = k1\<lparr>uxCurrentNumberOfTasks := uxCurrentNumberOfTasks k1 + 1, uxTaskNumber := uxTaskNumber k1 + 1\<rparr>"
    using cur(1) f(6) unfolding k2_def by (cases k1) simp
  obtain k' where k': "prvAddTaskToReadyList t k2 = Some k'" "lists_inv (insert t T) E k'" "bitmap_inv k'" "kstep k2 k'"
    "pxContainer k' = (pxContainer k)(xStateListItem t := Some (Ready (uxPriority k2 t)))"
    using added_task[OF inv(1,2) t card k2_def k1_def] by blast
  note f' = kstep_fields[OF k'(4)]
  have tc: "idle \<noteq> t" "c \<noteq> t" using core_invD(5)[OF core] cT t by auto
  have p: "uxPriority k' u = uxPriority k u" if "u \<noteq> t" for u using that f(2) by (simp add: f'(3)) (simp add: e2)
  have r: "is_ready k' u \<longleftrightarrow> u = t \<or> is_ready k u" for u
    using p[of u] state_list_T[OF inv(1), of t] t by (cases "u = t") (auto simp: is_ready_def k'(5) f'(3))
  have val: "item_value k' i = item_value k i" if "pxContainer k i = Some l" for i l
  proof -
    have "i \<noteq> xEventListItem t" using that lists_inv_owner(2)[OF inv(1) that] t by blast
    then show ?thesis by (simp add: f'(1)) (simp add: e2 f(22))
  qed
  have d: "delay_inv k'"
  proof -
    have c: "pxContainer k' i = Some l \<longleftrightarrow> pxContainer k i = Some l" if "l = xDelayedTaskList1 \<or> l = xDelayedTaskList2" for i l
      using that state_list_T[OF inv(1), of t] t by (auto simp: k'(5))
    have "sorted_list k2 l" if l: "l = xDelayedTaskList1 \<or> l = xDelayedTaskList2" for l
    proof -
      obtain xs where xs: "list_view k l xs" "sorted (map (item_value k) xs)"
        using l inv(3) by (auto simp: delay_inv_def sorted_list_def)
      have "item_value k2 i = item_value k i" if "i \<in> set xs" for i
        using val[of i l] list_view_container[OF xs(1)] that by (simp add: f'(1))
      then have m: "map (item_value k2) xs = map (item_value k) xs" by simp
      have "list_view k2 = list_view k1" by (rule list_view_same) (simp_all add: e2)
      then show ?thesis using xs unfolding sorted_list_def v m[symmetric] by metis
    qed
    then have s: "sorted_list k' xDelayedTaskList1" "sorted_list k' xDelayedTaskList2" using kstep_sorted[OF k'(4)] by simp_all
    have fp: "pxDelayedTaskList k' = pxDelayedTaskList k" "pxOverflowDelayedTaskList k' = pxOverflowDelayedTaskList k"
      "xTickCount k' = xTickCount k" "xNextTaskUnblockTime k' = xNextTaskUnblockTime k"
      by (simp_all add: f' e2 f)
    show ?thesis using inv(3) c val s delay_lists_distinct(1,2)[OF inv(3)] unfolding delay_inv_def fp by metis
  qed
  have core': "core_inv idle (insert t T) E k'"
    using core k'(2,3) d r t lists_inv_finite[OF inv(1)] cur(1) f'
    unfolding core_inv_def by (simp add: k'(5)) (simp add: e2 f)
  have cur': "pxCurrentTCB k' = Some c" "xSchedulerRunning k'" "pendsv k' = pendsv k" "xYieldPending k' = xYieldPending k"
    "uxSchedulerSuspended k' = uxSchedulerSuspended k" "xPendedTicks k' = xPendedTicks k"
    using cur(1) core_invD(8)[OF core] by (simp_all add: f' e2 f)
  define e where "e = (if uxPriority k' c < uxPriority k' t then portYIELD k' else k')"
  have "xTaskCreate (Some t) p k = Some (True, e)"
    using cur(1) f(6) core_invD(8)[OF core] k'(1) cur'(1,2)
    by (simp add: xTaskCreate_def prvAddNewTaskToReadyList_def Let_def k1_def[symmetric] e2 f e_def)
  moreover have "kernel_ok idle (insert t T) E e"
  proof -
    have "prio_inv e" using ok cur(1) p tc(2) r cur' unfolding kernel_ok_def prio_inv_def
      by (auto simp: e_def portYIELD_def is_ready_def) (metis p)+
    moreover have "run_inv e" using cur(2) r cur' by (auto simp: run_inv_def e_def portYIELD_def is_ready_def)
    moreover have "susp_inv e"
      using ok cur'(5,6) unfolding kernel_ok_def susp_inv_def by (auto simp: e_def portYIELD_def k'(5))
    ultimately show ?thesis using core' by (auto simp: kernel_ok_def e_def portYIELD_def)
  qed
  moreover have "is_ready e t" using r[of t] by (auto simp: e_def portYIELD_def is_ready_def)
  ultimately show ?thesis by blast
qed

lemma drop_task:
  assumes inv: "lists_inv T E k" and t: "state_list k t = None" "event_list k t = None"
  shows "lists_inv (T - {t}) E k"
proof -
  have sub: "items (T - {t}) \<subseteq> items T" by (auto simp: items_def)
  have "i \<in> items (T - {t})" if "pxContainer k i = Some l" for i l
    using wf_listsD(3)[OF lists_invD(1)[OF inv] that] that t by (cases i) auto
  moreover have "finite (items (T - {t}))" "card (items (T - {t})) < 2 ^ 32"
    using lists_invD(1)[OF inv] finite_subset[OF sub] card_mono[OF _ sub] by (auto simp: wf_lists_def)
  ultimately have "wf_lists (items (T - {t})) (live E) k" using lists_invD(1)[OF inv] unfolding wf_lists_def by blast
  then show ?thesis using inv unfolding lists_inv_def by auto
qed

lemma delete_self_result:
  assumes ok: "kernel_ok idle T E k" and h: "prvGetTCBFromHandle h k = Some t" and t: "t \<noteq> idle"
    and cur: "pxCurrentTCB k = Some t" and un: "uxSchedulerSuspended k = 0"
  shows "\<exists>k'. vTaskDelete h k = Some k' \<and> kernel_ok idle T E k' \<and> pendsv k' \<and>
    pxContainer k' = (pxContainer k)(xStateListItem t := Some xTasksWaitingTermination, xEventListItem t := None)"
proof -
  have core: "core_inv idle T E k" and prio: "prio_inv k" and su: "susp_inv k"
    using ok by (simp_all add: kernel_ok_def)
  have tT: "t \<in> T" using core cur by (auto simp: core_inv_def)
  let ?l = xTasksWaitingTermination
  obtain n k1 k2 k3 where k3: "uxListRemove (xStateListItem t) k = Some (n, k1)"
    "(if n = 0 then taskRESET_READY_PRIORITY (uxPriority k1 t) k1 else Some k1) = Some k2"
    "remove_from_event_list t k2 = Some k3" "core_inv idle T E (vListInsertEnd ?l (xStateListItem t) k3)"
    "kstep k (vListInsertEnd ?l (xStateListItem t) k3)" "pxContainer (vListInsertEnd ?l (xStateListItem t) k3) =
      (pxContainer k)(xStateListItem t := Some ?l, xEventListItem t := None)"
    using park_task[OF core tT t disjI2[OF refl]] by (elim exE conjE) (rule that)
  have same3: "vListInsertEnd ?l (xStateListItem t) (k3\<lparr>uxTaskNumber := m\<rparr>) = (vListInsertEnd ?l (xStateListItem t) k3)\<lparr>uxTaskNumber := m\<rparr>"
    "pxCurrentTCB (k3\<lparr>uxTaskNumber := m\<rparr>) = pxCurrentTCB (vListInsertEnd ?l (xStateListItem t) k3)"
    "uxTaskNumber k3 = uxTaskNumber (vListInsertEnd ?l (xStateListItem t) k3)" for m
    by (simp_all add: vListInsertEnd_def Let_def)
  define k4 where "k4 = vListInsertEnd ?l (xStateListItem t) k3"
  note f4 = kstep_fields[OF k3(5), folded k4_def]
  define k' where "k' = k4\<lparr>uxTaskNumber := uxTaskNumber k4 + 1,
    uxDeletedTasksWaitingCleanUp := uxDeletedTasksWaitingCleanUp k4 + 1, pendsv := True\<rparr>"
  have c: "pxContainer k' = (pxContainer k)(xStateListItem t := Some ?l, xEventListItem t := None)"
    using k3(6) by (simp add: k'_def k4_def)
  have c3: "pxCurrentTCB k3 = pxCurrentTCB k4" by (simp add: k4_def vListInsertEnd_def Let_def)
  have "core_inv idle T E k'"
  proof -
    have "core_inv idle T E (k4\<lparr>uxTaskNumber := a, uxDeletedTasksWaitingCleanUp := b\<rparr>)" for a b
      using k3(4) unfolding k4_def[symmetric] by (rule core_inv_same) (simp_all add: same_tasks_def)
    then show ?thesis unfolding k'_def by (intro core_update(2))
  qed
  moreover have "susp_inv k'" using su unfolding susp_inv_def c by (auto simp: k'_def f4)
  ultimately have "kernel_ok idle T E k'"
    using un by (auto simp: kernel_ok_def prio_inv_def run_inv_def k'_def f4)
  moreover have "vTaskDelete h k = Some k'"
    using h k3(1-3) core_invD(8)[OF k3(4)] cur f4(8) c3
    by (simp add: vTaskDelete_def Let_def same3 k4_def[symmetric] portYIELD_def k'_def)
  ultimately show ?thesis using c by (intro exI[of _ k']) (simp add: k'_def)
qed

lemma kernel_ok_counters:
  assumes "kernel_ok idle T E k"
  shows "kernel_ok idle T E (k\<lparr>uxTaskNumber := a\<rparr>)" "kernel_ok idle T E (k\<lparr>uxDeletedTasksWaitingCleanUp := b\<rparr>)"
proof -
  have "core_inv idle T E k" using assms by (simp add: kernel_ok_def)
  then have "core_inv idle T E (k\<lparr>uxTaskNumber := a\<rparr>)" "core_inv idle T E (k\<lparr>uxDeletedTasksWaitingCleanUp := b\<rparr>)"
    by (rule core_inv_same; simp add: same_tasks_def)+
  then show "kernel_ok idle T E (k\<lparr>uxTaskNumber := a\<rparr>)" "kernel_ok idle T E (k\<lparr>uxDeletedTasksWaitingCleanUp := b\<rparr>)"
    using assms by (simp_all add: kernel_ok_def prio_inv_def run_inv_def susp_inv_def is_ready_def)
qed

text \<open>A task that is off all lists is forgotten.\<close>

lemma drop_ok:
  assumes ok: "kernel_ok idle T E k" and t: "t \<in> T" "t \<noteq> idle" and cur: "pxCurrentTCB k \<noteq> Some t"
    and st: "kstep k k3" and k3: "lists_inv T E k3" "bitmap_inv k3"
      "pxContainer k3 = (pxContainer k)(xStateListItem t := None, xEventListItem t := None)"
  shows "kernel_ok idle (T - {t}) E (k3\<lparr>uxCurrentNumberOfTasks := uxCurrentNumberOfTasks k3 - 1\<rparr>)" (is "kernel_ok _ _ _ ?k4")
proof -
  have core: "core_inv idle T E k" and prio: "prio_inv k" and run: "run_inv k" and su: "susp_inv k"
    using ok by (simp_all add: kernel_ok_def)
  note inv = core_invD(1-3)[OF core] and f3 = kstep_fields[OF st] and c3 = k3(3)
  obtain c where c: "c \<in> T" "pxCurrentTCB k = Some c" using core by (auto simp: core_inv_def)
  define k4 where "k4 = ?k4"
  have c': "pxContainer k4 = (pxContainer k)(xStateListItem t := None, xEventListItem t := None)" by (simp add: k4_def c3)
  have rdy: "is_ready k4 u \<longleftrightarrow> is_ready k u \<and> u \<noteq> t" for u by (simp add: is_ready_def c') (simp add: k4_def f3)
  have "core_inv idle (T - {t}) E k4"
  proof -
    have "lists_inv T E k4" using k3(1) lists_inv_same[of k4 k3 T E] by (simp add: k4_def)
    then have "lists_inv (T - {t}) E k4" by (rule drop_task) (simp_all add: c')
    moreover have "bitmap_inv k4" using k3(2) by (simp add: bitmap_inv_def k4_def)
    moreover have "delay_inv k4"
    proof -
      have "pxContainer k i = Some l" if "pxContainer k3 i = Some l" for i l using that by (auto simp: c3 split: if_splits)
      moreover have "sorted_list k4 = sorted_list k3" by (rule sorted_list_same) (simp_all add: k4_def)
      ultimately show ?thesis
        using inv(3) kstep_sorted[OF st] unfolding delay_inv_def by (simp add: k4_def f3)
    qed
    moreover have "uxCurrentNumberOfTasks k4 = of_nat (card (T - {t}))"
    proof -
      have "card T = Suc (card (T - {t}))" by (rule card.remove[OF lists_inv_finite[OF inv(1)] t(1)])
      then show ?thesis using core_invD(10)[OF core] by (simp add: k4_def f3)
    qed
    moreover have "state_list k4 u \<noteq> None" if "u \<in> T - {t}" for u using core_invD(4)[OF core, of u] that by (simp add: c')
    moreover have "is_ready k4 idle" using core_invD(6)[OF core] t(2) rdy by blast
    ultimately show ?thesis using core c cur t(2) f3 by (auto simp: core_inv_def k4_def)
  qed
  moreover have "prio_inv k4" using prio unfolding prio_inv_def rdy by (simp add: k4_def f3) blast
  moreover have "run_inv k4" using run cur unfolding run_inv_def rdy by (auto simp: k4_def f3)
  moreover have "susp_inv k4" using su unfolding susp_inv_def c' by (auto simp: k4_def f3)
  ultimately show ?thesis by (simp add: kernel_ok_def k4_def)
qed

lemma delete_other_result:
  assumes ok: "kernel_ok idle T E k" and t: "t \<in> T" "t \<noteq> idle" and cur: "pxCurrentTCB k \<noteq> Some t"
  shows "\<exists>k'. vTaskDelete (Some t) k = Some k' \<and> kernel_ok idle (T - {t}) E k' \<and> pxCurrentTCB k' = pxCurrentTCB k \<and>
    pxContainer k' = (pxContainer k)(xStateListItem t := None, xEventListItem t := None)"
proof -
  have core: "core_inv idle T E k" using ok by (simp add: kernel_ok_def)
  note inv = core_invD(1-3)[OF core]
  obtain l0 where l0: "state_list k t = Some l0" using core_invD(4)[OF core t(1)] by blast
  obtain n k1 k2 where k2: "uxListRemove (xStateListItem t) k = Some (n, k1)"
    "(if n = 0 then taskRESET_READY_PRIORITY (uxPriority k1 t) k1 else Some k1) = Some k2"
    "lists_inv T E k2" "bitmap_inv k2" "kstep k k2" "pxContainer k2 = (pxContainer k)(xStateListItem t := None)"
    using remove_state[OF inv(1,2) l0] by (elim exE conjE) (rule that)
  obtain k3 where k3: "remove_from_event_list t k2 = Some k3" "lists_inv T E k3" "bitmap_inv k3" "kstep k2 k3"
    "pxContainer k3 = (pxContainer k2)(xEventListItem t := None)"
    using remove_event[OF k2(3,4), of t] by (elim exE conjE) (rule that)
  note st = kstep_trans[OF k2(5) k3(4)]
  have c3: "pxContainer k3 = (pxContainer k)(xStateListItem t := None, xEventListItem t := None)" using k3(5) k2(6) by simp
  define k4 where "k4 = k3\<lparr>uxTaskNumber := uxTaskNumber k3 + 1, uxCurrentNumberOfTasks := uxCurrentNumberOfTasks k3 - 1\<rparr>"
  have "kernel_ok idle (T - {t}) E (k3\<lparr>uxCurrentNumberOfTasks := uxCurrentNumberOfTasks k3 - 1, uxTaskNumber := uxTaskNumber k3 + 1\<rparr>)"
    by (rule kernel_ok_counters(1)[OF drop_ok[OF ok t cur st k3(2,3) c3]])
  moreover have "k4 = k3\<lparr>uxCurrentNumberOfTasks := uxCurrentNumberOfTasks k3 - 1, uxTaskNumber := uxTaskNumber k3 + 1\<rparr>"
    by (simp add: k4_def)
  ultimately have ok4: "kernel_ok idle (T - {t}) E k4" by (simp only:)
  then have core4: "core_inv idle (T - {t}) E k4" by (simp add: kernel_ok_def)
  obtain nx where nx: "prvResetNextTaskUnblockTime k4 = k4\<lparr>xNextTaskUnblockTime := nx\<rparr>"
    "core_inv idle (T - {t}) E (k4\<lparr>xNextTaskUnblockTime := nx\<rparr>)" by (rule core_reset_next[OF core4])
  define k' where "k' = k4\<lparr>xNextTaskUnblockTime := nx\<rparr>"
  have "kernel_ok idle (T - {t}) E k'"
    using ok4 nx(2) by (simp add: kernel_ok_def k'_def prio_inv_def run_inv_def susp_inv_def is_ready_def)
  moreover have "vTaskDelete (Some t) k = Some k'"
    using k2(1,2) k3(1) cur kstep_fields(8)[OF st] nx(1)
    by (simp add: vTaskDelete_def prvGetTCBFromHandle_def Let_def k4_def[symmetric] k'_def) (simp add: k4_def)
  ultimately show ?thesis using c3 kstep_fields(8)[OF st] by (intro exI[of _ k']) (simp add: k'_def k4_def)
qed

text \<open>The idle task gives back the deleted tasks.\<close>

definition deleted :: "kernel \<Rightarrow> nat set" where
  "deleted k = {t. state_list k t = Some xTasksWaitingTermination}"

lemma termination_loop_result:
  assumes "kernel_ok idle T E k" "pxCurrentTCB k = Some idle" "n = card (deleted k)" "\<forall>t\<in>deleted k. event_list k t = None"
  shows "\<exists>k'. termination_loop n k = Some k' \<and> kernel_ok idle (T - deleted k) E k' \<and> deleted k' = {} \<and>
    uxDeletedTasksWaitingCleanUp k' = uxDeletedTasksWaitingCleanUp k - of_nat n"
  using assms
proof (induction n arbitrary: k T)
  case 0
  have "finite (deleted k)"
    by (rule finite_subset[OF _ lists_inv_finite[of T E k]])
       (use 0(1) state_list_T[of T E k] in \<open>auto simp: deleted_def kernel_ok_def core_inv_def\<close>)
  then have "deleted k = {}" using 0(3) by simp
  then show ?case using 0(1) by (intro exI[of _ k]) simp
next
  case (Suc n)
  have core: "core_inv idle T E k" using Suc.prems(1) by (simp add: kernel_ok_def)
  note inv = core_invD(1-3)[OF core]
  let ?l = xTasksWaitingTermination
  have "deleted k \<noteq> {}" using Suc.prems(3) by auto
  then obtain t0 where t0: "state_list k t0 = Some ?l" by (auto simp: deleted_def)
  obtain i where i: "pxContainer k i = Some ?l" "listGET_OWNER_OF_HEAD_ENTRY ?l k = Some (pvOwner k i)"
    using head_entry[OF lists_invD(1)[OF inv(1)] _ t0] by (metis live_simps(4))
  obtain t where t: "i = xStateListItem t" using lists_invD(2)[OF inv(1) i(1)] by auto
  have tT: "t \<in> T" using lists_inv_owner(1)[OF inv(1) i(1) t] .
  have own: "listGET_OWNER_OF_HEAD_ENTRY ?l k = Some t" using i(2) t lists_invD(3)[OF inv(1) tT] by simp
  have st: "state_list k t = Some ?l" using i(1) t by simp
  have ti: "t \<noteq> idle" using core_invD(6)[OF core] st by (auto simp: is_ready_def)
  have ev: "event_list k t = None" using Suc.prems(4) st by (simp add: deleted_def)
  obtain m k1 where k1: "uxListRemove (xStateListItem t) k = Some (m, k1)" "lists_inv T E k1" "kstep k k1"
    "uxTopReadyPriority k1 = uxTopReadyPriority k" "pxContainer k1 = (pxContainer k)(xStateListItem t := None)"
    using remove_any[OF inv(1) st] by (elim exE conjE) (rule that)
  have c1: "pxContainer k1 = (pxContainer k)(xStateListItem t := None, xEventListItem t := None)" using k1(5) ev by (intro ext) simp
  have b1: "bitmap_inv k1" by (rule bitmap_inv_pointwise[OF inv(2) k1(4)]) (use st in \<open>auto simp: k1(5)\<close>)
  have nt: "pxCurrentTCB k \<noteq> Some t" using Suc.prems(2) ti by simp
  define k2 where "k2 = k1\<lparr>uxCurrentNumberOfTasks := uxCurrentNumberOfTasks k1 - 1,
    uxDeletedTasksWaitingCleanUp := uxDeletedTasksWaitingCleanUp k1 - 1\<rparr>"
  have ok2: "kernel_ok idle (T - {t}) E k2"
    unfolding k2_def by (rule kernel_ok_counters(2)[OF drop_ok[OF Suc.prems(1) tT ti nt k1(3,2) b1 c1]])
  have d2: "deleted k2 = deleted k - {t}" "t \<in> deleted k" using st by (auto simp: deleted_def k2_def c1)
  have "finite (deleted k)" using Suc.prems(3) by (intro card_ge_0_finite) simp
  then have n2: "n = card (deleted k2)" using Suc.prems(3) d2 by simp
  have e2: "\<forall>u\<in>deleted k2. event_list k2 u = None" using Suc.prems(4) d2 by (auto simp: k2_def c1)
  obtain k' where k': "termination_loop n k2 = Some k'" "kernel_ok idle (T - {t} - deleted k2) E k'" "deleted k' = {}"
    "uxDeletedTasksWaitingCleanUp k' = uxDeletedTasksWaitingCleanUp k2 - of_nat n"
    using Suc.IH[OF ok2 _ n2 e2] Suc.prems(2) kstep_fields(8)[OF k1(3)] by (auto simp: k2_def)
  have "T - {t} - deleted k2 = T - deleted k" using d2 by blast
  then show ?case using k' own k1(1) kstep_fields(11)[OF k1(3)] by (intro exI[of _ k']) (simp add: k2_def)
qed

end
