(* ===== verification/FRSystem.thy ===== *)
theory FRSystem
  imports FRKernel
begin

text \<open>
  The FreeRTOS scheduler as a transition system: from reset over the creation of tasks and the start
  of the scheduler to any interleaving of ticks, context switches, calls of the running task and
  calls from interrupts.  Every reachable state satisfies the invariant of \<open>FRSched\<close>, every
  allowed call returns, and the properties of the scheduler follow.
\<close>

section \<open>Start-up\<close>

inductive boots :: "nat set \<Rightarrow> nat set \<Rightarrow> kernel \<Rightarrow> bool" where
  reset: "pristine {} k \<Longrightarrow> boots {} {} k"
| list: "boots T E k \<Longrightarrow> e \<notin> E \<Longrightarrow> boots T (insert e E) (vListInitialise (EventList e) k)"
| task: "boots T E k \<Longrightarrow> t \<notin> T \<Longrightarrow> 2 * card (insert t T) < 2 ^ 32 \<Longrightarrow> xTaskCreate (Some t) p k = Some (True, k') \<Longrightarrow>
    boots (insert t T) E k'"

lemma create_boot: "xTaskCreate (Some t) p k = Some (True, k') \<longleftrightarrow> prvAddNewTaskToReadyList t (prvInitialiseNewTask t p k) = Some k'"
  by (auto simp: xTaskCreate_def split: bind_split)

lemma boots_inv: "boots T E k \<Longrightarrow> T = {} \<and> pristine E k \<or> T \<noteq> {} \<and> boot_inv T E k"
proof (induction rule: boots.induct)
  case (list T E k e)
  then show ?case using pristine_new_list[of E k e] boot_new_list[of T E k e] by blast
next
  case (task T E k t p k')
  note run = task(4)[unfolded create_boot]
  from task(5) show ?case
  proof (elim disjE conjE)
    assume "T = {}" "pristine E k"
    then show ?thesis using first_task[of E k t p] run by auto
  next
    assume "T \<noteq> {}" "boot_inv T E k"
    then show ?thesis using next_task[OF _ task(2,3), of E k p] run by auto
  qed
qed simp

lemma boots_task:
  assumes "boots T E k" "t \<notin> T" "2 * card (insert t T) < 2 ^ 32"
  shows "\<exists>k'. xTaskCreate (Some t) p k = Some (True, k') \<and> boots (insert t T) E k' \<and>
    (configMAX_PRIORITIES - 1 \<le> p \<longrightarrow> pxCurrentTCB k' = Some t)"
proof -
  have "\<exists>k'. xTaskCreate (Some t) p k = Some (True, k') \<and> (configMAX_PRIORITIES - 1 \<le> p \<longrightarrow> pxCurrentTCB k' = Some t)"
    using boots_inv[OF assms(1)] first_task[of E k t p] next_task[OF _ assms(2,3), of E k p] unfolding create_boot by blast
  then show ?thesis using boots.task[OF assms] by blast
qed

lemma start_result:
  assumes b: "boots T E k" and t: "idle \<notin> T" "timer \<notin> insert idle T" and card: "2 * card (insert timer (insert idle T)) < 2 ^ 32"
  shows "\<exists>k'. vTaskStartScheduler (Some idle) (Some timer) k = Some (True, k') \<and>
    kernel_ok idle (insert timer (insert idle T)) E k' \<and> pxCurrentTCB k' = Some timer \<and> uxSchedulerSuspended k' = 0 \<and>
    \<not> pendsv k' \<and> xTickCount k' = 0 \<and> (\<forall>t. remaining k' t = None) \<and>
    (\<forall>t\<in>insert timer (insert idle T). uxBasePriority k' t = uxPriority k' t)"
proof -
  have fin: "finite T" using boots_inv[OF b] lists_inv_finite[of T E k] by (auto simp: boot_inv_def)
  then have card1: "2 * card (insert idle T) < 2 ^ 32" using card t(2) by simp
  obtain k1 where k1: "xTaskCreate (Some idle) 0 k = Some (True, k1)" "boots (insert idle T) E k1"
    using boots_task[OF b t(1) card1] by blast
  obtain k2 where k2: "xTaskCreate (Some timer) configTIMER_TASK_PRIORITY k1 = Some (True, k2)" "boots (insert timer (insert idle T)) E k2"
    "pxCurrentTCB k2 = Some timer"
    using boots_task[OF k1(2) t(2) card, of configTIMER_TASK_PRIORITY] by (auto simp: configTIMER_TASK_PRIORITY_def)
  have bi: "boot_inv (insert timer (insert idle T)) E k2" using boots_inv[OF k2(2)] by blast
  let ?k = "k2\<lparr>xNextTaskUnblockTime := portMAX_DELAY, xSchedulerRunning := True, xTickCount := 0\<rparr>"
  have ok: "kernel_ok idle (insert timer (insert idle T)) E ?k" by (rule start_ok[OF bi]) simp
  have "\<not> delayed ?k t" for t
    using bi state_list_T[of "insert timer (insert idle T)" E k2 t]
    by (auto simp: boot_inv_def delayed_def is_ready_def)
  then show ?thesis using ok k1(1) k2(1,3) bi
    by (intro exI[of _ ?k]) (simp add: vTaskStartScheduler_def boot_inv_def remaining_def)
qed

section \<open>Calls\<close>

datatype kcall = Tick | PendSV | SuspendAll | ResumeAll | CatchUpTicks "32 word" | Delay "32 word"
  | DelayUntil "32 word" "32 word" | Wait nat "32 word" | Signal nat | SignalFromISR nat | Suspend "nat option"
  | Resume "nat option" | ResumeFromISR nat | PrioritySet "nat option" nat | Inherit "nat option" | GiveBack
  | MissedYield | Create nat nat | Delete "nat option" | NewList nat | Cleanup

text \<open>What a call does to the kernel.  A task that signals asks for a switch when a task of higher priority
  was woken, the way \<open>queue.c\<close> does.\<close>

fun perform :: "kcall \<Rightarrow> kernel \<Rightarrow> kernel option" where
  "perform Tick k = xPortSysTickHandler k"
| "perform PendSV k = xPortPendSVHandler k"
| "perform SuspendAll k = Some (vTaskSuspendAll k)"
| "perform ResumeAll k = map_option snd (xTaskResumeAll k)"
| "perform (CatchUpTicks n) k = map_option snd (xTaskCatchUpTicks n k)"
| "perform (Delay n) k = vTaskDelay n k"
| "perform (DelayUntil prev inc) k = map_option (\<lambda>(_, _, k). k) (xTaskDelayUntil prev inc k)"
| "perform (Wait e n) k = wait_on e n k"
| "perform (Signal e) k = do { (y, k) \<leftarrow> xTaskRemoveFromEventList (EventList e) k; Some (if y then portYIELD k else k) }"
| "perform (SignalFromISR e) k = map_option snd (xTaskRemoveFromEventList (EventList e) k)"
| "perform (Suspend h) k = vTaskSuspend h k"
| "perform (Resume h) k = vTaskResume h k"
| "perform (ResumeFromISR t) k = map_option snd (xTaskResumeFromISR t k)"
| "perform (PrioritySet h n) k = vTaskPrioritySet h n k"
| "perform (Inherit h) k = map_option snd (xTaskPriorityInherit h k)"
| "perform GiveBack k = give_back (pxCurrentTCB k) k"
| "perform MissedYield k = Some (vTaskMissedYield k)"
| "perform (Create t p) k = map_option snd (xTaskCreate (Some t) p k)"
| "perform (Delete h) k = vTaskDelete h k"
| "perform (NewList e) k = Some (vListInitialise (EventList e) k)"
| "perform Cleanup k = prvCheckTasksWaitingTermination k"

fun from_task :: "kcall \<Rightarrow> bool" where
  "from_task Tick = False"
| "from_task PendSV = False"
| "from_task (SignalFromISR e) = False"
| "from_task (ResumeFromISR t) = False"
| "from_task _ = True"

definition may_block :: "nat \<Rightarrow> kernel \<Rightarrow> bool" where
  "may_block idle k \<longleftrightarrow> uxSchedulerSuspended k = 0 \<and> pxCurrentTCB k \<noteq> Some idle"

definition known :: "nat set \<Rightarrow> nat option \<Rightarrow> kernel \<Rightarrow> bool" where
  "known T h k \<longleftrightarrow> (\<exists>t\<in>T. prvGetTCBFromHandle h k = Some t)"

definition removable :: "nat \<Rightarrow> nat set \<Rightarrow> nat option \<Rightarrow> kernel \<Rightarrow> bool" where
  "removable idle T h k \<longleftrightarrow> (\<exists>t\<in>T. prvGetTCBFromHandle h k = Some t \<and> t \<noteq> idle \<and>
     (pxCurrentTCB k = Some t \<longrightarrow> uxSchedulerSuspended k = 0))"

text \<open>What the callers of the API have to respect: the assertions of \<open>tasks.c\<close> (no blocking while the
  scheduler is suspended, every resume matches a suspend), handles of existing tasks, and an idle
  task that is never blocked, suspended or deleted.\<close>

fun guard :: "nat \<Rightarrow> nat set \<Rightarrow> nat set \<Rightarrow> kcall \<Rightarrow> kernel \<Rightarrow> bool" where
  "guard idle T E PendSV k = pendsv k"
| "guard idle T E SuspendAll k = (uxSchedulerSuspended k + 1 \<noteq> 0)"
| "guard idle T E ResumeAll k = (uxSchedulerSuspended k \<noteq> 0)"
| "guard idle T E (CatchUpTicks n) k = (uxSchedulerSuspended k = 0)"
| "guard idle T E (Delay n) k = (n = 0 \<or> may_block idle k)"
| "guard idle T E (DelayUntil prev inc) k = may_block idle k"
| "guard idle T E (Wait e n) k = (may_block idle k \<and> e \<in> E \<and> n \<noteq> 0)"
| "guard idle T E (Signal e) k = (\<exists>t. event_list k t = Some (EventList e))"
| "guard idle T E (SignalFromISR e) k = (\<exists>t. event_list k t = Some (EventList e))"
| "guard idle T E (Suspend h) k = removable idle T h k"
| "guard idle T E (Resume h) k = (case h of None \<Rightarrow> True | Some t \<Rightarrow> t \<in> T)"
| "guard idle T E (ResumeFromISR t) k = (t \<in> T)"
| "guard idle T E (PrioritySet h n) k = known T h k"
| "guard idle T E (Inherit h) k = (case h of None \<Rightarrow> True | Some t \<Rightarrow> t \<in> T)"
| "guard idle T E (Create t p) k = (t \<notin> T \<and> 2 * card (insert t T) < 2 ^ 32)"
| "guard idle T E (Delete h) k = removable idle T h k"
| "guard idle T E (NewList e) k = (e \<notin> E)"
| "guard idle T E Cleanup k = (pxCurrentTCB k = Some idle \<and> uxDeletedTasksWaitingCleanUp k = of_nat (card (deleted k)) \<and>
     (\<forall>t\<in>deleted k. event_list k t = None))"
| "guard idle T E _ k = True"

text \<open>The running task makes calls only when no switch is pending: the PendSV exception comes first.\<close>

definition allowed :: "nat \<Rightarrow> nat set \<Rightarrow> nat set \<Rightarrow> kcall \<Rightarrow> kernel \<Rightarrow> bool" where
  "allowed idle T E a k \<longleftrightarrow> guard idle T E a k \<and> (from_task a \<longrightarrow> \<not> pendsv k)"

text \<open>The tasks and event lists that exist after a call.\<close>

fun tasks_after :: "kcall \<Rightarrow> nat set \<Rightarrow> kernel \<Rightarrow> nat set" where
  "tasks_after (Create t p) T k = insert t T"
| "tasks_after (Delete (Some t)) T k = (if pxCurrentTCB k = Some t then T else T - {t})"
| "tasks_after Cleanup T k = T - deleted k"
| "tasks_after _ T k = T"

fun lists_after :: "kcall \<Rightarrow> nat set \<Rightarrow> nat set" where
  "lists_after (NewList e) E = insert e E"
| "lists_after _ E = E"

section \<open>Every call keeps the invariant\<close>

lemma kernel_ok_pendsv:
  assumes "kernel_ok idle T E k" "uxSchedulerSuspended k = 0 \<or> (\<forall>c. pxCurrentTCB k = Some c \<longrightarrow> is_ready k c)"
  shows "kernel_ok idle T E (portYIELD k)"
  using assms by (auto simp: kernel_ok_def portYIELD_def prio_inv_def run_inv_def susp_inv_def is_ready_def)

lemma current:
  assumes "kernel_ok idle T E k"
  obtains c where "c \<in> T" "pxCurrentTCB k = Some c" "\<not> pendsv k \<or> uxSchedulerSuspended k \<noteq> 0 \<Longrightarrow> is_ready k c"
  using assms unfolding kernel_ok_def core_inv_def run_inv_def by blast

text \<open>A tick of the unsuspended scheduler.\<close>

lemma tick_effect:
  assumes ok: "kernel_ok idle T E k" and un: "uxSchedulerSuspended k = 0"
  shows "\<exists>k'. xPortSysTickHandler k = Some k' \<and> kernel_ok idle T E k' \<and> uxSchedulerSuspended k' = 0 \<and> kept k k' \<and>
    xTickCount k' = xTickCount k + 1 \<and> (\<forall>t. remaining k' t = tick_down (remaining k t)) \<and>
    (\<forall>t. is_ready k' t \<longleftrightarrow> is_ready k t \<or> remaining k t = Some 1) \<and>
    xNumOfOverflows k' = xNumOfOverflows k + (if xTickCount k + 1 = 0 then 1 else 0)"
proof -
  have core: "core_inv idle T E k" and prio: "prio_inv k" and run: "run_inv k" and su: "susp_inv k"
    using ok by (simp_all add: kernel_ok_def)
  obtain sw k' where r: "xTaskIncrementTick k = Some (sw, k')" "core_inv idle T E k'" "sw \<or> prio_inv k'" "same_tasks k k'"
    "kept k k'" "xTickCount k' = xTickCount k + 1" "\<forall>t. remaining k' t = tick_down (remaining k t)"
    "\<forall>t. is_ready k' t \<longleftrightarrow> is_ready k t \<or> remaining k t = Some 1"
    "\<forall>i. pxContainer k' i = Some xPendingReadyList \<longrightarrow> pxContainer k i = Some xPendingReadyList"
    "xNumOfOverflows k' = xNumOfOverflows k + (if xTickCount k + 1 = 0 then 1 else 0)"
    using tick_step[OF core prio un] by (elim exE conjE) (rule that)
  define e where "e = (if sw then k'\<lparr>pendsv := True\<rparr> else k')"
  have f: "pxCurrentTCB e = pxCurrentTCB k" "uxSchedulerSuspended e = 0" "xPendedTicks e = xPendedTicks k" "pxContainer e = pxContainer k'"
    "pendsv k \<longrightarrow> pendsv e" "is_ready e = is_ready k'" "remaining e = remaining k'" "xTickCount e = xTickCount k'"
    "xNumOfOverflows e = xNumOfOverflows k'"
    using same_tasksD[OF r(4)] un by (simp_all add: e_def is_ready_def fun_eq_iff remaining_def delayed_def)
  have "core_inv idle T E e" "prio_inv e" using r(2,3) by (auto simp: e_def prio_yield)
  moreover have "run_inv e" using run keptD(7)[OF r(5)] f unfolding run_inv_def by auto
  moreover have "susp_inv e" using su r(9) un f unfolding susp_inv_def by auto
  moreover have "xPortSysTickHandler k = Some e" using r(1) by (simp add: xPortSysTickHandler_def e_def)
  moreover have "kept k e" using r(5) by (auto simp: kept_def e_def is_ready_def)
  ultimately show ?thesis using r(6-8,10) f by (intro exI[of _ e]) (simp add: kernel_ok_def)
qed

lemma tick_ok:
  assumes ok: "kernel_ok idle T E k"
  shows "\<exists>k'. xPortSysTickHandler k = Some k' \<and> kernel_ok idle T E k'"
proof (cases "uxSchedulerSuspended k = 0")
  case False
  then have "xPortSysTickHandler k = Some (k\<lparr>xPendedTicks := xPendedTicks k + 1\<rparr>)"
    by (simp add: xPortSysTickHandler_def xTaskIncrementTick_def)
  then show ?thesis
    using ok False by (auto simp: kernel_ok_def prio_inv_def run_inv_def susp_inv_def is_ready_def)
qed (use tick_effect[OF ok] in blast)

text \<open>A context switch of the unsuspended scheduler.\<close>

lemma switch_effect:
  assumes ok: "kernel_ok idle T E k" and un: "uxSchedulerSuspended k = 0"
  shows "\<exists>c k'. xPortPendSVHandler k = Some k' \<and> kernel_ok idle T E k' \<and> uxSchedulerSuspended k' = 0 \<and> c \<in> T \<and>
    pxCurrentTCB k' = Some c \<and> is_ready k c \<and> (\<forall>t. is_ready k t \<longrightarrow> uxPriority k t \<le> uxPriority k c) \<and> \<not> pendsv k' \<and>
    remaining k' = remaining k \<and> is_ready k' = is_ready k \<and> uxPriority k' = uxPriority k \<and> xTickCount k' = xTickCount k \<and>
    xNumOfOverflows k' = xNumOfOverflows k \<and> pxContainer k' = pxContainer k"
proof -
  define k0 where "k0 = k\<lparr>pendsv := False\<rparr>"
  have core: "core_inv idle T E k0" and un0: "uxSchedulerSuspended k0 = 0" and su: "susp_inv k0"
    using ok un by (simp_all add: kernel_ok_def k0_def susp_inv_def)
  have f0: "remaining k0 = remaining k" "is_ready k0 = is_ready k" "uxPriority k0 = uxPriority k" "pxContainer k0 = pxContainer k"
    "xTickCount k0 = xTickCount k" "xNumOfOverflows k0 = xNumOfOverflows k" "\<not> pendsv k0"
    by (simp_all add: k0_def fun_eq_iff remaining_def delayed_def is_ready_def)
  obtain c k' where r: "c \<in> T" "vTaskSwitchContext k0 = Some k'" "core_inv idle T E k'" "pxCurrentTCB k' = Some c"
    "is_ready k0 c" "\<forall>t. is_ready k0 t \<longrightarrow> uxPriority k0 t \<le> uxPriority k0 c" "pxContainer k' = pxContainer k0"
    "same_tasks (k0\<lparr>pxCurrentTCB := Some c, xYieldPending := False\<rparr>) k'" "xTickCount k' = xTickCount k0"
    "pxDelayedTaskList k' = pxDelayedTaskList k0" "pxOverflowDelayedTaskList k' = pxOverflowDelayedTaskList k0"
    "xNumOfOverflows k' = xNumOfOverflows k0"
    using switch_result[OF core un0] by (elim exE conjE) (rule that)
  note f = same_tasksD[OF r(8), simplified]
  have rdy: "is_ready k' = is_ready k0" by (intro ext) (simp add: is_ready_def r(7) f)
  have rem: "remaining k' = remaining k0" by (intro ext) (simp add: remaining_def delayed_def r(7,9-11) f)
  have "prio_inv k'" using r(4,6) unfolding prio_inv_def rdy f by (metis leD option.inject)
  moreover have "run_inv k'" using r(4,5) unfolding run_inv_def rdy by simp
  moreover have "susp_inv k'" using su f r(7) unfolding susp_inv_def by simp
  ultimately have "kernel_ok idle T E k'" using r(3) by (simp add: kernel_ok_def)
  then show ?thesis
    using r(1,2,4-7,9,12) rdy rem f f0 un0 by (intro exI[of _ c] exI[of _ k']) (simp add: xPortPendSVHandler_def k0_def[symmetric])
qed

lemma pendsv_ok:
  assumes ok: "kernel_ok idle T E k" and p: "pendsv k"
  shows "\<exists>k'. xPortPendSVHandler k = Some k' \<and> kernel_ok idle T E k'"
proof (cases "uxSchedulerSuspended k = 0")
  case False
  then show ?thesis using ok
    by (auto simp: xPortPendSVHandler_def vTaskSwitchContext_def kernel_ok_def prio_inv_def run_inv_def susp_inv_def is_ready_def)
qed (use switch_effect[OF ok] in blast)

lemma new_list_ok:
  assumes ok: "kernel_ok idle T E k" and e: "e \<notin> E"
  shows "kernel_ok idle T (insert e E) (vListInitialise (EventList e) k)"
proof -
  let ?k = "vListInitialise (EventList e) k"
  have core: "core_inv idle T E k" using ok by (simp add: kernel_ok_def)
  note inv = core_invD(1-3)[OF core]
  have "sorted_list ?k l" if s: "sorted_list k l" "l \<noteq> EventList e" for l
  proof -
    obtain xs where xs: "list_view k l xs" "sorted (map (item_value k) xs)" using s(1) by (auto simp: sorted_list_def)
    have "list_view ?k l xs" by (rule vListInitialise_frame[OF xs(1) s(2)])
    moreover have "map (item_value ?k) xs = map (item_value k) xs" by simp
    ultimately show ?thesis using xs(2) unfolding sorted_list_def by metis
  qed
  then have "delay_inv ?k" using inv(3) unfolding delay_inv_def new_list_fields vListInitialise_value by blast
  moreover have "bitmap_inv ?k" using inv(2) unfolding bitmap_inv_def new_list_fields .
  ultimately show ?thesis
    using ok new_list_inv[OF inv(1) e]
    unfolding kernel_ok_def core_inv_def prio_inv_def run_inv_def susp_inv_def is_ready_def new_list_fields by blast
qed

lemma catch_up_ok:
  assumes ok: "kernel_ok idle T E k" and s: "uxSchedulerSuspended k = 0" and c: "pxCurrentTCB k = Some c" "is_ready k c"
  shows "\<exists>y k'. xTaskCatchUpTicks n k = Some (y, k') \<and> kernel_ok idle T E k'"
proof -
  define k0 where "k0 = (vTaskSuspendAll k)\<lparr>xPendedTicks := xPendedTicks (vTaskSuspendAll k) + n\<rparr>"
  have "kernel_ok idle T E (vTaskSuspendAll k)" by (rule suspend_all_result[OF ok _ c]) (simp add: s)
  then have "kernel_ok idle T E k0" "uxSchedulerSuspended k0 = 1"
    using s by (auto simp: k0_def kernel_ok_def prio_inv_def run_inv_def susp_inv_def is_ready_def vTaskSuspendAll_def)
  from resume_result[OF this] show ?thesis by (auto simp: xTaskCatchUpTicks_def k0_def Let_def)
qed

lemma signal_ok:
  assumes ok: "kernel_ok idle T E k" and ne: "\<exists>t. event_list k t = Some (EventList e)"
  shows "\<exists>y k'. xTaskRemoveFromEventList (EventList e) k = Some (y, k') \<and> kernel_ok idle T E k' \<and> kept k k' \<and>
    uxSchedulerSuspended k' = uxSchedulerSuspended k"
proof -
  obtain c where c: "pxCurrentTCB k = Some c" using current[OF ok] by blast
  show ?thesis using remove_from_event_result[OF ok _ c] ne by blast
qed

lemma block_calls_ok:
  assumes ok: "kernel_ok idle T E k" and b: "may_block idle k" and np: "\<not> pendsv k"
  shows "n \<noteq> 0 \<Longrightarrow> \<exists>k'. vTaskDelay n k = Some k' \<and> kernel_ok idle T E k'"
    "\<exists>k'. perform (DelayUntil prev inc) k = Some k' \<and> kernel_ok idle T E k'"
    "e \<in> E \<Longrightarrow> n \<noteq> 0 \<Longrightarrow> \<exists>k'. wait_on e n k = Some k' \<and> kernel_ok idle T E k'"
proof -
  obtain c where c: "c \<in> T" "pxCurrentTCB k = Some c" "is_ready k c" using current[OF ok] np by blast
  have u: "uxSchedulerSuspended k = 0" "c \<noteq> idle" using b c(2) by (auto simp: may_block_def)
  show "n \<noteq> 0 \<Longrightarrow> \<exists>k'. vTaskDelay n k = Some k' \<and> kernel_ok idle T E k'"
    using delay_result[OF ok u(1) c(2,3) u(2)] by blast
  show "\<exists>k'. perform (DelayUntil prev inc) k = Some k' \<and> kernel_ok idle T E k'"
    using delay_until_result[OF ok u(1) c(2,3) u(2), of prev inc] by auto
  show "e \<in> E \<Longrightarrow> n \<noteq> 0 \<Longrightarrow> \<exists>k'. wait_on e n k = Some k' \<and> kernel_ok idle T E k'"
    using wait_on_result[OF ok u(1) c(2,3) u(2)] by blast
qed

lemma suspension_calls_ok:
  assumes ok: "kernel_ok idle T E k" and np: "\<not> pendsv k"
  shows "removable idle T h k \<Longrightarrow> \<exists>k'. vTaskSuspend h k = Some k' \<and> kernel_ok idle T E k'"
    "(case h of None \<Rightarrow> True | Some t \<Rightarrow> t \<in> T) \<Longrightarrow> \<exists>k'. vTaskResume h k = Some k' \<and> kernel_ok idle T E k'"
    "removable idle T h k \<Longrightarrow> \<exists>k'. vTaskDelete h k = Some k' \<and> kernel_ok idle (tasks_after (Delete h) T k) E k'"
proof -
  obtain c where c: "c \<in> T" "pxCurrentTCB k = Some c" "is_ready k c" using current[OF ok] np by blast
  show "removable idle T h k \<Longrightarrow> \<exists>k'. vTaskSuspend h k = Some k' \<and> kernel_ok idle T E k'"
    using suspend_result[OF ok] unfolding removable_def by blast
  show "\<exists>k'. vTaskResume h k = Some k' \<and> kernel_ok idle T E k'"
  proof (cases h)
    case None
    then show ?thesis using ok resume_task_noop(2) by auto
  next
    case (Some t)
    then show ?thesis
      using ok resume_task_noop(1)[of k t] resume_task_result[OF ok _ _ c(2,3), of t]
      by (cases "pxCurrentTCB k = Some t \<or> \<not> prvTaskIsTaskSuspended t k") auto
  qed
  show "\<exists>k'. vTaskDelete h k = Some k' \<and> kernel_ok idle (tasks_after (Delete h) T k) E k'" if r: "removable idle T h k"
  proof -
    obtain t where t: "t \<in> T" "prvGetTCBFromHandle h k = Some t" "t \<noteq> idle" "pxCurrentTCB k = Some t \<longrightarrow> uxSchedulerSuspended k = 0"
      using r unfolding removable_def by blast
    show ?thesis
    proof (cases "pxCurrentTCB k = Some t")
      case True
      then have "tasks_after (Delete h) T k = T" using t(2) by (cases h) (auto simp: prvGetTCBFromHandle_def)
      then show ?thesis using delete_self_result[OF ok t(2,3) True] t(4) True by auto
    next
      case False
      then have "h = Some t" using t(2) c(2) by (cases h) (auto simp: prvGetTCBFromHandle_def)
      then show ?thesis using delete_other_result[OF ok t(1,3) False] False by auto
    qed
  qed
qed

lemma resume_all_ok:
  assumes ok: "kernel_ok idle T E k" and s: "uxSchedulerSuspended k \<noteq> 0"
  shows "\<exists>y k'. xTaskResumeAll k = Some (y, k') \<and> kernel_ok idle T E k'"
  using resume_result[OF ok] resume_nested[OF ok s] by (cases "uxSchedulerSuspended k = 1") blast+

lemma cleanup_ok:
  assumes ok: "kernel_ok idle T E k" and g: "guard idle T E Cleanup k"
  shows "\<exists>k'. prvCheckTasksWaitingTermination k = Some k' \<and> kernel_ok idle (T - deleted k) E k'"
proof -
  have inv: "lists_inv T E k" using ok by (simp add: kernel_ok_def core_inv_def)
  have sub: "deleted k \<subseteq> T" using state_list_T[OF inv] by (auto simp: deleted_def)
  then have "card (deleted k) \<le> card T" by (rule card_mono[OF lists_inv_finite[OF inv]])
  moreover have "2 * card T < 2 ^ 32"
    using lists_invD(1)[OF inv] card_items[OF lists_inv_finite[OF inv]] by (simp add: wf_lists_def)
  ultimately have "unat (of_nat (card (deleted k)) :: 32 word) = card (deleted k)" by (simp add: unsigned_of_nat take_bit_nat_eq_self)
  then show ?thesis
    using termination_loop_result[OF ok _ refl] g by (auto simp: prvCheckTasksWaitingTermination_def)
qed

lemma perform_ok:
  assumes ok: "kernel_ok idle T E k" and a: "allowed idle T E a k"
  shows "\<exists>k'. perform a k = Some k' \<and> kernel_ok idle (tasks_after a T k) (lists_after a E) k'"
proof -
  obtain c where c: "c \<in> T" "pxCurrentTCB k = Some c" "\<not> pendsv k \<or> uxSchedulerSuspended k \<noteq> 0 \<Longrightarrow> is_ready k c"
    using current[OF ok] by blast
  have g: "guard idle T E a k" and np: "from_task a \<Longrightarrow> \<not> pendsv k" using a by (simp_all add: allowed_def)
  have rdy: "is_ready k c" if "from_task a" using c(3) np[OF that] by blast
  note ok1 = kernel_ok_pendsv[OF ok]
  show ?thesis
  proof (cases a)
    case Tick
    then show ?thesis using tick_ok[OF ok] by simp
  next
    case PendSV
    then show ?thesis using pendsv_ok[OF ok] g by simp
  next
    case SuspendAll
    then show ?thesis using suspend_all_result[OF ok _ c(2)] g rdy by simp
  next
    case ResumeAll
    then show ?thesis using resume_all_ok[OF ok] g by fastforce
  next
    case (CatchUpTicks n)
    then show ?thesis using catch_up_ok[OF ok _ c(2), of n] g rdy by fastforce
  next
    case (Delay n)
    have z: "vTaskDelay 0 k = Some (portYIELD k)" by (simp add: vTaskDelay_def)
    show ?thesis
    proof (cases "n = 0")
      case True
      then show ?thesis using Delay z ok1 c rdy by simp
    next
      case False
      then show ?thesis using Delay block_calls_ok(1)[OF ok _ _ False] g np by simp
    qed
  next
    case (DelayUntil prev inc)
    then show ?thesis using block_calls_ok(2)[OF ok] g np by simp
  next
    case (Wait e n)
    then show ?thesis using block_calls_ok(3)[OF ok] g np by simp
  next
    case (Signal e)
    then obtain y k' where k': "xTaskRemoveFromEventList (EventList e) k = Some (y, k')" "kernel_ok idle T E k'" "kept k k'"
      "uxSchedulerSuspended k' = uxSchedulerSuspended k" using signal_ok[OF ok, of e] g by auto
    have "is_ready k' c" "pxCurrentTCB k' = Some c" using keptD(6,7)[OF k'(3)] rdy Signal c(2) by simp_all
    then have "kernel_ok idle T E (portYIELD k')" by (intro kernel_ok_pendsv[OF k'(2)]) simp
    then show ?thesis using Signal k'(1,2) by simp
  next
    case (SignalFromISR e)
    then show ?thesis using signal_ok[OF ok, of e] g by fastforce
  next
    case (Suspend h)
    then show ?thesis using suspension_calls_ok(1)[OF ok, of h] g np by simp
  next
    case (Resume h)
    then show ?thesis using suspension_calls_ok(2)[OF ok, of h] g np by simp
  next
    case (ResumeFromISR t)
    then show ?thesis
      using resume_from_isr_result[OF ok _ _ c(2), of t] resume_from_isr_noop[of t k] ok g
      by (cases "prvTaskIsTaskSuspended t k") (fastforce, simp)
  next
    case (PrioritySet h n)
    then show ?thesis using priority_set_result[OF ok _ _ c(2), of h _ n] g rdy by (fastforce simp: known_def)
  next
    case (Inherit h)
    show ?thesis
    proof (cases h)
      case None
      then show ?thesis using Inherit ok inherit_noop(2)[of k] by simp
    next
      case (Some t)
      then show ?thesis
        using Inherit inherit_result[OF ok _ c(2), of t] inherit_noop(1)[OF c(2), of t] ok g rdy
        by (cases "uxPriority k t < uxPriority k c") (fastforce, simp)
    qed
  next
    case GiveBack
    then show ?thesis using disinherit_result[OF ok c(2)] rdy c(2) by fastforce
  next
    case MissedYield
    then show ?thesis using kernel_ok_yield_pending[OF ok] by (simp add: vTaskMissedYield_def)
  next
    case (Create t p)
    then show ?thesis using create_result[OF ok _ _ c(2), of t p] g rdy by fastforce
  next
    case (Delete h)
    then show ?thesis using suspension_calls_ok(3)[OF ok, of h] g np by simp
  next
    case (NewList e)
    then show ?thesis using new_list_ok[OF ok] g by simp
  next
    case Cleanup
    then show ?thesis using cleanup_ok[OF ok] g by auto
  qed
qed

section \<open>Reachable states\<close>

inductive kernel_reach :: "nat \<Rightarrow> nat set \<Rightarrow> nat set \<Rightarrow> kernel \<Rightarrow> bool" for idle where
  start: "boots T E k \<Longrightarrow> idle \<notin> T \<Longrightarrow> timer \<notin> insert idle T \<Longrightarrow> 2 * card (insert timer (insert idle T)) < 2 ^ 32 \<Longrightarrow>
    vTaskStartScheduler (Some idle) (Some timer) k = Some (True, k') \<Longrightarrow>
    kernel_reach idle (insert timer (insert idle T)) E k'"
| step: "kernel_reach idle T E k \<Longrightarrow> allowed idle T E a k \<Longrightarrow> perform a k = Some k' \<Longrightarrow>
    kernel_reach idle (tasks_after a T k) (lists_after a E) k'"

lemma kernel_reach_ok: "kernel_reach idle T E k \<Longrightarrow> kernel_ok idle T E k"
proof (induction rule: kernel_reach.induct)
  case (start T E k timer k')
  then show ?case using start_result[of T E k idle timer] by auto
next
  case (step T E k a k')
  then show ?case using perform_ok[of idle T E k a] by auto
qed

section \<open>Ticks and switches only\<close>

text \<open>\<open>n\<close> ticks, with the context switches they ask for at any place between them.\<close>

inductive ticking :: "kernel \<Rightarrow> nat \<Rightarrow> kernel \<Rightarrow> bool" for k where
  none: "ticking k 0 k"
| tick: "ticking k n k1 \<Longrightarrow> xPortSysTickHandler k1 = Some k2 \<Longrightarrow> ticking k (Suc n) k2"
| switch: "ticking k n k1 \<Longrightarrow> pendsv k1 \<Longrightarrow> xPortPendSVHandler k1 = Some k2 \<Longrightarrow> ticking k n k2"

lemma tick_wrap_count:
  "(w :: 32 word) + of_nat n + 1 = 0 \<longleftrightarrow> Suc (unat w + n) mod 2 ^ 32 = 0"
proof -
  have "w + of_nat n + 1 = of_nat (Suc (unat w + n))" by (simp add: algebra_simps)
  then show ?thesis by (simp add: word_of_nat_eq_0_iff dvd_eq_mod_eq_0 del: of_nat_Suc)
qed

lemma tick_down_pow_Some: "(tick_down ^^ n) x = Some m \<longleftrightarrow> (if n = 0 then x = Some m else 0 < m \<and> x = Some (m + n))"
proof (induction n arbitrary: m)
  case (Suc n)
  have "(tick_down ^^ Suc n) x = Some m \<longleftrightarrow> 0 < m \<and> (tick_down ^^ n) x = Some (Suc m)" by (simp add: tick_down_Some)
  also have "\<dots> \<longleftrightarrow> 0 < m \<and> x = Some (m + Suc n)" by (simp add: Suc.IH)
  finally show ?case by simp
qed simp

lemma ticking_result:
  assumes run: "ticking k n k'" and ok: "kernel_ok idle T E k" and un: "uxSchedulerSuspended k = 0"
  shows "kernel_ok idle T E k' \<and> uxSchedulerSuspended k' = 0 \<and> xTickCount k' = xTickCount k + of_nat n \<and>
    (\<forall>t. remaining k' t = (tick_down ^^ n) (remaining k t)) \<and>
    (\<forall>t. is_ready k' t \<longleftrightarrow> is_ready k t \<or> (\<exists>m\<le>n. remaining k t = Some m)) \<and>
    uxPriority k' = uxPriority k \<and>
    xNumOfOverflows k' = xNumOfOverflows k + of_nat ((unat (xTickCount k) + n) div 2 ^ 32)"
  using run
proof (induction rule: ticking.induct)
  case none
  have "remaining k t \<noteq> Some 0" for t
    by (rule remaining_pos) (use ok in \<open>simp add: kernel_ok_def core_inv_def\<close>)
  moreover have "unat (xTickCount k) div 2 ^ 32 = 0" using unsigned_less[of "xTickCount k", where 'a = nat] by simp
  ultimately show ?case using ok un by simp
next
  case (tick n k1 k2)
  note IH = tick(3)
  obtain k3 where e: "xPortSysTickHandler k1 = Some k3" "kernel_ok idle T E k3" "uxSchedulerSuspended k3 = 0" "kept k1 k3"
    "xTickCount k3 = xTickCount k1 + 1" "\<forall>t. remaining k3 t = tick_down (remaining k1 t)"
    "\<forall>t. is_ready k3 t \<longleftrightarrow> is_ready k1 t \<or> remaining k1 t = Some 1"
    "xNumOfOverflows k3 = xNumOfOverflows k1 + (if xTickCount k1 + 1 = 0 then 1 else 0)"
    using tick_effect[of idle T E k1] IH by blast
  have k: "k3 = k2" using e(1) tick(2) by simp
  have rdy: "is_ready k2 t \<longleftrightarrow> is_ready k t \<or> (\<exists>m\<le>Suc n. remaining k t = Some m)" for t
  proof -
    have "remaining k1 t = Some 1 \<longleftrightarrow> remaining k t = Some (Suc n)"
      using IH tick_down_pow_Some[of n "remaining k t" 1] by (cases n) simp_all
    then show ?thesis using IH e(7) unfolding k by (auto simp: le_Suc_eq)
  qed
  have ov: "xNumOfOverflows k2 = xNumOfOverflows k + of_nat ((unat (xTickCount k) + Suc n) div 2 ^ 32)"
    using IH e(8) tick_wrap_count[of "xTickCount k" n] unfolding k by (simp add: div_Suc algebra_simps)
  show ?case using IH e(2-6) rdy ov keptD(3)[OF e(4)] unfolding k by (simp add: algebra_simps)
next
  case (switch n k1 k2)
  then show ?case using switch_effect[of idle T E k1] by auto
qed

lemma ticking_possible:
  assumes ok: "kernel_ok idle T E k" and un: "uxSchedulerSuspended k = 0"
  shows "\<exists>k'. ticking k n k'"
proof (induction n)
  case 0
  then show ?case using ticking.none by blast
next
  case (Suc n)
  then obtain k1 where k1: "ticking k n k1" by blast
  then obtain k2 where "xPortSysTickHandler k1 = Some k2" using tick_ok ticking_result[OF k1 ok un] by blast
  then show ?case using ticking.tick[OF k1] by blast
qed

section \<open>A concrete start\<close>

definition reset_kernel :: kernel where
  "reset_kernel = \<lparr>xItemValue = (\<lambda>_. 0), pxNext = (\<lambda>_. ListEnd (Ready 0)), pxPrevious = (\<lambda>_. ListEnd (Ready 0)),
     pvOwner = (\<lambda>_. 0), pxContainer = (\<lambda>_. None), uxNumberOfItems = (\<lambda>_. 0), pxIndex = (\<lambda>_. ListEnd (Ready 0)),
     uxPriority = (\<lambda>_. 0), uxBasePriority = (\<lambda>_. 0), uxMutexesHeld = (\<lambda>_. 0), ulNotifiedValue = (\<lambda>_. 0),
     ucNotifyState = (\<lambda>_. 0), pxCurrentTCB = None, pxDelayedTaskList = xDelayedTaskList1,
     pxOverflowDelayedTaskList = xDelayedTaskList1, uxDeletedTasksWaitingCleanUp = 0, uxCurrentNumberOfTasks = 0, xTickCount = 0,
     uxTopReadyPriority = 0, xSchedulerRunning = False, xPendedTicks = 0, xYieldPending = False, xNumOfOverflows = 0,
     uxTaskNumber = 0, xNextTaskUnblockTime = 0, uxSchedulerSuspended = 0, pendsv = False\<rparr>"

lemma boots_reset: "boots {} {} reset_kernel"
  by (rule boots.reset) (simp add: pristine_def reset_kernel_def)

text \<open>The priorities the tasks are created with.\<close>

lemma priority_initialise: "uxPriority (prvInitialiseNewTask t p k) = (uxPriority k)(t := min p (configMAX_PRIORITIES - 1))"
  by (auto simp: prvInitialiseNewTask_def Let_def vListInitialiseItem_def listSET_LIST_ITEM_OWNER_def listSET_LIST_ITEM_VALUE_def
      configMAX_PRIORITIES_def min_def fun_eq_iff)

lemma priority_lists: "uxPriority (prvInitialiseTaskLists k) = uxPriority k"
proof -
  have "uxPriority (init_ready_lists n k) = uxPriority k" for n by (induction n arbitrary: k) (simp_all add: vListInitialise_def)
  then show ?thesis by (simp add: prvInitialiseTaskLists_def vListInitialise_def Let_def)
qed

lemma priority_ready: "prvAddTaskToReadyList t k = Some k' \<Longrightarrow> uxPriority k' = uxPriority k"
  by (auto simp: prvAddTaskToReadyList_def taskRECORD_READY_PRIORITY_def listINSERT_END_def Let_def split: bind_splits)

lemma priority_create:
  assumes "xTaskCreate (Some t) p k = Some (True, k')"
  shows "uxPriority k' = (uxPriority k)(t := min p (configMAX_PRIORITIES - 1))"
  using assms
  by (auto simp: xTaskCreate_def prvAddNewTaskToReadyList_def portYIELD_def Let_def priority_initialise priority_lists
      split: bind_splits option.splits if_splits dest!: priority_ready)

text \<open>The idle task is 0 and the timer task 1; event list 0 exists.\<close>

lemma example_start:
  obtains k where "kernel_reach 0 {1, 0} {0} k" "pxCurrentTCB k = Some 1" "uxSchedulerSuspended k = 0" "\<not> pendsv k" "xTickCount k = 0"
    "is_ready k 1" "may_block 0 k" "uxBasePriority k 0 = uxPriority k 0" "uxBasePriority k 1 = uxPriority k 1"
proof -
  have b: "boots {} {0} (vListInitialise (EventList 0) reset_kernel)"
    using boots.list[OF boots_reset, of 0] by simp
  obtain k where k: "vTaskStartScheduler (Some 0) (Some 1) (vListInitialise (EventList 0) reset_kernel) = Some (True, k)"
    "kernel_ok 0 {1, 0} {0} k" "pxCurrentTCB k = Some 1" "uxSchedulerSuspended k = 0" "\<not> pendsv k" "xTickCount k = 0"
    "uxBasePriority k 0 = uxPriority k 0" "uxBasePriority k 1 = uxPriority k 1"
    using start_result[OF b, of 0 1] by auto
  have "kernel_reach 0 {1, 0} {0} k" using kernel_reach.start[OF b, of 0 1 k] k(1) by simp
  moreover have "is_ready k 1" using k(2,3,5) by (simp add: kernel_ok_def run_inv_def)
  moreover have "may_block 0 k" using k(3,4) by (simp add: may_block_def)
  ultimately show thesis using that k by blast
qed

section \<open>Properties\<close>

text \<open>
  C3. The scheduler is safe in every history.  From reset, over the creation of any tasks and event lists
  and the start of the scheduler, under any interleaving of ticks, context switches, calls of the running task
  (delays, waiting and signalling, suspension, resumption, priority changes, inheritance, creation, deletion,
  suspension of the scheduler) and interrupt calls: every list is well formed, every ready list holds
  exactly the ready tasks of its priority and has its bit set exactly when it is not empty, the delay lists are
  sorted and hold the tasks that wake before and after the tick count wraps, a ready task of a higher
  priority than the running one implies that a switch is on its way, and every allowed call returns, dereferencing
  no NULL pointer and leaving no array.
\<close>

theorem scheduler_reachable_safe:
  assumes "kernel_reach idle T E k"
  shows "kernel_ok idle T E k \<and>
    (\<forall>a. allowed idle T E a k \<longrightarrow>
       (\<exists>k'. perform a k = Some k' \<and> kernel_reach idle (tasks_after a T k) (lists_after a E) k'))"
  using kernel_reach_ok[OF assms] perform_ok[OF kernel_reach_ok[OF assms]] kernel_reach.step[OF assms] by blast

theorem scheduler_reachable_safe_witness:
  "\<exists>k k'. kernel_reach 0 {1, 0} {0} k \<and> perform (Wait 0 10) k = Some k' \<and> kernel_ok 0 {1, 0} {0} k'"
proof -
  obtain k where k: "kernel_reach 0 {1, 0} {0} k" "\<not> pendsv k" "may_block 0 k" using example_start by blast
  have "allowed 0 {1, 0} {0} (Wait 0 10) k" using k by (simp add: allowed_def)
  then obtain k' where "perform (Wait 0 10) k = Some k'" "kernel_reach 0 {1, 0} {0} k'"
    using scheduler_reachable_safe[OF k(1)] by fastforce
  then show ?thesis using k(1) kernel_reach_ok by blast
qed

text \<open>
  C12. The highest ready priority runs.  In every reachable state with the scheduler not suspended, the PendSV
  handler selects a ready task that no ready task exceeds in priority and changes neither the lists
  nor the time left to any task; and while no switch is pending or noted, the running task is already such a task.
\<close>

theorem running_task_highest:
  assumes "kernel_reach idle T E k" "uxSchedulerSuspended k = 0"
  shows "(\<exists>c k'. xPortPendSVHandler k = Some k' \<and> pxCurrentTCB k' = Some c \<and> c \<in> T \<and> is_ready k' c \<and>
      (\<forall>t. is_ready k' t \<longrightarrow> uxPriority k' t \<le> uxPriority k' c) \<and>
      pxContainer k' = pxContainer k \<and> remaining k' = remaining k) \<and>
    (\<not> pendsv k \<and> \<not> xYieldPending k \<longrightarrow>
      (\<exists>c\<in>T. pxCurrentTCB k = Some c \<and> is_ready k c \<and> (\<forall>t. is_ready k t \<longrightarrow> uxPriority k t \<le> uxPriority k c)))"
proof (intro conjI impI)
  note ok = kernel_reach_ok[OF assms(1)]
  show "\<exists>c k'. xPortPendSVHandler k = Some k' \<and> pxCurrentTCB k' = Some c \<and> c \<in> T \<and> is_ready k' c \<and>
      (\<forall>t. is_ready k' t \<longrightarrow> uxPriority k' t \<le> uxPriority k' c) \<and>
      pxContainer k' = pxContainer k \<and> remaining k' = remaining k"
    using switch_effect[OF ok assms(2)] by (elim exE conjE) (intro exI conjI, assumption+, simp_all)
  assume np: "\<not> pendsv k \<and> \<not> xYieldPending k"
  obtain c where c: "c \<in> T" "pxCurrentTCB k = Some c" "is_ready k c" using current[OF ok] np by blast
  have "uxPriority k t \<le> uxPriority k c" if "is_ready k t" for t
    using ok np c(2) that unfolding kernel_ok_def prio_inv_def by (meson not_le)
  then show "\<exists>c\<in>T. pxCurrentTCB k = Some c \<and> is_ready k c \<and> (\<forall>t. is_ready k t \<longrightarrow> uxPriority k t \<le> uxPriority k c)"
    using c by blast
qed

theorem running_task_highest_witness:
  "\<exists>k k' c. kernel_reach 0 {1, 0} {0} k \<and> xPortPendSVHandler k = Some k' \<and> pxCurrentTCB k' = Some c \<and> is_ready k' c \<and>
    (\<forall>t. is_ready k' t \<longrightarrow> uxPriority k' t \<le> uxPriority k' c)"
proof -
  obtain k where k: "kernel_reach 0 {1, 0} {0} k" "uxSchedulerSuspended k = 0" using example_start by blast
  show ?thesis using running_task_highest[OF k] k(1) by blast
qed

text \<open>
  C6. A tick refines the abstract clock.  With the time left to a blocked task read off the delay lists (its
  wake time minus the tick count, modulo 2^32), a tick of the running scheduler makes exactly the tasks with one
  tick left ready and takes one tick from every other blocked task, also on the tick at which the count wraps
  and the two delay lists are exchanged; tasks that were ready stay ready and no task changes its priority.
\<close>

theorem xTaskIncrementTick_refines:
  assumes "kernel_reach idle T E k" "uxSchedulerSuspended k = 0"
  shows "\<exists>sw k'. xTaskIncrementTick k = Some (sw, k') \<and> xTickCount k' = xTickCount k + 1 \<and>
    (\<forall>t. remaining k' t = tick_down (remaining k t)) \<and>
    (\<forall>t. is_ready k' t \<longleftrightarrow> is_ready k t \<or> remaining k t = Some 1) \<and> uxPriority k' = uxPriority k \<and>
    (\<forall>c t. pxCurrentTCB k = Some c \<and> remaining k t = Some 1 \<and> uxPriority k t > uxPriority k c \<longrightarrow> sw) \<and>
    xNumOfOverflows k' = xNumOfOverflows k + (if xTickCount k + 1 = 0 then 1 else 0)"
proof -
  have core: "core_inv idle T E k" and prio: "prio_inv k"
    using kernel_reach_ok[OF assms(1)] by (simp_all add: kernel_ok_def)
  obtain c where c: "pxCurrentTCB k = Some c" using core_invD(7)[OF core] by blast
  show ?thesis
    using tick_step[OF core prio assms(2)] tick_result[OF core assms(2) c] c
      due_remaining[OF core_invD(3)[OF core]] same_tasksD(3)[of k] by fastforce
qed

theorem xTaskIncrementTick_refines_witness:
  "\<exists>k sw k'. kernel_reach 0 {1, 0} {0} k \<and> xTaskIncrementTick k = Some (sw, k') \<and> xTickCount k' = 1"
proof -
  obtain k where k: "kernel_reach 0 {1, 0} {0} k" "uxSchedulerSuspended k = 0" "xTickCount k = 0" using example_start by blast
  show ?thesis using xTaskIncrementTick_refines[OF k(1,2)] k(1,3) by auto
qed

text \<open>
  C11. A delay of n > 0 ticks lasts n ticks.  When the running task (not the idle task) calls vTaskDelay(n) with the
  scheduler not suspended, a switch is requested and, whatever switches happen between them,
  after m < n ticks the task is blocked with n - m ticks left and after m >= n ticks it is ready, for every n up to
  2^32 - 1 and every tick count, so also when the count wraps during the delay; any number of ticks
  can follow.
\<close>

theorem vTaskDelay_exact:
  assumes "kernel_reach idle T E k" "\<not> pendsv k" "may_block idle k" "pxCurrentTCB k = Some c" "n \<noteq> 0"
  shows "\<exists>k1. vTaskDelay n k = Some k1 \<and> pendsv k1 \<and> (\<forall>m. \<exists>k2. ticking k1 m k2) \<and>
    (\<forall>m k2. ticking k1 m k2 \<longrightarrow>
       (if m < unat n then remaining k2 c = Some (unat n - m) \<and> \<not> is_ready k2 c else is_ready k2 c))"
proof -
  note ok = kernel_reach_ok[OF assms(1)]
  have cur: "is_ready k c" "c \<noteq> idle" "uxSchedulerSuspended k = 0"
    using ok assms(2-4) by (auto simp: kernel_ok_def run_inv_def may_block_def)
  obtain k1 where k1: "vTaskDelay n k = Some k1" "kernel_ok idle T E k1" "pendsv k1" "sleeps c (unat n) k k1"
    using delay_result[OF ok cur(3) assms(4) cur(1,2) assms(5)] by blast
  have s: "uxSchedulerSuspended k1 = 0" "remaining k1 c = Some (unat n)" "\<not> is_ready k1 c"
    using k1(4) cur(3) by (simp_all add: sleeps_def)
  have "if m < unat n then remaining k2 c = Some (unat n - m) \<and> \<not> is_ready k2 c else is_ready k2 c" if t: "ticking k1 m k2" for m k2
  proof -
    have r: "remaining k2 c = (tick_down ^^ m) (Some (unat n))" "is_ready k2 c \<longleftrightarrow> unat n \<le> m"
      using ticking_result[OF t k1(2) s(1)] s(2,3) by auto
    show ?thesis using r tick_down_pow_Some[of m "Some (unat n)" "unat n - m"] by (cases "m = 0") auto
  qed
  then show ?thesis using k1(1,3) ticking_possible[OF k1(2) s(1)] by blast
qed

theorem vTaskDelay_exact_witness:
  "\<exists>k k1 k2. kernel_reach 0 {1, 0} {0} k \<and> vTaskDelay 3 k = Some k1 \<and> ticking k1 2 k2 \<and> remaining k2 1 = Some 1"
proof -
  obtain k where k: "kernel_reach 0 {1, 0} {0} k" "\<not> pendsv k" "may_block 0 k" "pxCurrentTCB k = Some 1"
    using example_start by blast
  obtain k1 where k1: "vTaskDelay 3 k = Some k1" "\<forall>m. \<exists>k2. ticking k1 m k2"
    "\<forall>m k2. ticking k1 m k2 \<longrightarrow> (if m < unat (3 :: 32 word) then remaining k2 1 = Some (unat (3 :: 32 word) - m) \<and> \<not> is_ready k2 1 else is_ready k2 1)"
    using vTaskDelay_exact[OF k, of 3] by auto
  obtain k2 where "ticking k1 2 k2" using k1(2) by blast
  then show ?thesis using k(1) k1(1,3) by force
qed

text \<open>
  xTaskDelayUntil keeps a fixed period.  With prev the wake time of the last round, elapsed = now - prev (modulo 2^32) and
  inc the period, the call answers whether elapsed < inc, always sets the wake time to prev + inc, and then
  blocks the task for exactly inc - elapsed ticks, so that it is ready again when the tick count is prev + inc
  for the first time; when elapsed >= inc it does not block, but yields.  This holds whether or not the tick count or
  the wake time overflows in between.
\<close>

theorem xTaskDelayUntil_periodic:
  assumes "kernel_reach idle T E k" "\<not> pendsv k" "may_block idle k" "pxCurrentTCB k = Some c"
  shows "\<exists>k'. xTaskDelayUntil prev inc k = Some (unat (xTickCount k - prev) < unat inc, prev + inc, k') \<and> pendsv k' \<and>
    (if unat (xTickCount k - prev) < unat inc
     then \<not> is_ready k' c \<and> (\<forall>m k2. ticking k' m k2 \<longrightarrow>
        (is_ready k2 c \<longleftrightarrow> unat inc - unat (xTickCount k - prev) \<le> m) \<and>
        (m = unat inc - unat (xTickCount k - prev) \<longrightarrow> xTickCount k2 = prev + inc))
     else is_ready k' c \<and> remaining k' = remaining k)"
proof -
  note ok = kernel_reach_ok[OF assms(1)]
  have cur: "is_ready k c" "c \<noteq> idle" "uxSchedulerSuspended k = 0"
    using ok assms(2-4) by (auto simp: kernel_ok_def run_inv_def may_block_def)
  let ?e = "xTickCount k - prev"
  obtain k' where k': "xTaskDelayUntil prev inc k = Some (unat ?e < unat inc, prev + inc, k')" "kernel_ok idle T E k'" "pendsv k'"
    "if unat ?e < unat inc then sleeps c (unat inc - unat ?e) k k'
     else kept k k' \<and> xTickCount k' = xTickCount k \<and> remaining k' = remaining k \<and> is_ready k' = is_ready k \<and> uxSchedulerSuspended k' = 0"
    using delay_until_result[OF ok cur(3) assms(4) cur(1,2)] by blast
  show ?thesis
  proof (cases "unat ?e < unat inc")
    case True
    then have sl: "sleeps c (unat inc - unat ?e) k k'" using k'(4) by simp
    then have s: "uxSchedulerSuspended k' = 0" "remaining k' c = Some (unat inc - unat ?e)" "\<not> is_ready k' c" "xTickCount k' = xTickCount k"
      using cur(3) by (simp_all add: sleeps_def)
    have le: "?e \<le> inc" using True by (simp add: word_le_nat_alt)
    have "xTickCount k + of_nat (unat inc - unat ?e) = prev + inc"
      using le by (simp add: unat_sub[symmetric])
    then have "(is_ready k2 c \<longleftrightarrow> unat inc - unat ?e \<le> m) \<and> (m = unat inc - unat ?e \<longrightarrow> xTickCount k2 = prev + inc)"
      if "ticking k' m k2" for m k2
      using ticking_result[OF that k'(2) s(1)] s(2-4) by auto
    then show ?thesis using True k'(1,3) s(3) by (intro exI[of _ k']) simp
  next
    case False
    then show ?thesis using k'(1,3,4) cur(1) by (intro exI[of _ k']) simp
  qed
qed

theorem xTaskDelayUntil_periodic_witness:
  "\<exists>k k'. kernel_reach 0 {1, 0} {0} k \<and> xTaskDelayUntil 0xFFFFFFFE 7 k = Some (True, 5, k')"
proof -
  obtain k where k: "kernel_reach 0 {1, 0} {0} k" "\<not> pendsv k" "may_block 0 k" "pxCurrentTCB k = Some 1" and t: "xTickCount k = 0"
    using example_start by blast
  show ?thesis using xTaskDelayUntil_periodic[OF k, of "0xFFFFFFFE" 7] k(1) unfolding t by auto
qed

text \<open>
  C32. A time-out is detected exactly.  With the state taken by vTaskSetTimeOutState and n < 2^32 ticks counted since, at
  any tick count and across a wrap, xTaskCheckForTimeOut with a limit other than portMAX_DELAY answers that
  the time is over exactly when n is at least the limit (the limit then becomes 0), and otherwise restarts the
  state and takes n from the limit.
\<close>

theorem xTaskCheckForTimeOut_exact:
  assumes "kernel_reach idle T E k0" "uxSchedulerSuspended k0 = 0" "ticking k0 n k" "n < 2 ^ 32" "limit \<noteq> portMAX_DELAY"
  shows "xTaskCheckForTimeOut (vTaskSetTimeOutState k0) limit k =
    (if unat limit \<le> n then (True, vTaskSetTimeOutState k0, 0)
     else (False, vTaskInternalSetTimeOutState k, limit - of_nat n))"
proof -
  let ?t = "xTickCount k0" and ?o = "xNumOfOverflows k0"
  have r: "xTickCount k = ?t + of_nat n" "xNumOfOverflows k = ?o + of_nat ((unat ?t + n) div 2 ^ 32)"
    using ticking_result[OF assms(3) kernel_reach_ok[OF assms(1)] assms(2)] by blast+
  have b: "unat ?t < 2 ^ 32" using unsigned_less[of ?t, where 'a = nat] by simp
  have e: "unat (of_nat n :: 32 word) = n" using assms(4) by (simp add: unsigned_of_nat take_bit_nat_eq_self)
  have lt: "(of_nat n :: 32 word) < limit \<longleftrightarrow> \<not> unat limit \<le> n" by (simp add: word_less_nat_alt e not_le)
  have ov: "\<not> (xNumOfOverflows k \<noteq> ?o \<and> ?t \<le> xTickCount k)"
  proof (cases "unat ?t + n < 2 ^ 32")
    case True
    then show ?thesis by (simp add: r(2))
  next
    case False
    have "unat (xTickCount k) = unat ?t + n - 2 ^ 32"
      using False e unfolding r(1) by (simp add: unat_plus_if_size word_size)
    then have "unat (xTickCount k) < unat ?t" using assms(4) False by simp
    then show ?thesis by (simp add: word_le_nat_alt)
  qed
  show ?thesis
    using assms(5) lt ov by (auto simp: xTaskCheckForTimeOut_def vTaskSetTimeOutState_def Let_def r(1))
qed

theorem xTaskCheckForTimeOut_exact_witness:
  "\<exists>k0 k. kernel_reach 0 {1, 0} {0} k0 \<and> ticking k0 5 k \<and>
    xTaskCheckForTimeOut (vTaskSetTimeOutState k0) 5 k = (True, vTaskSetTimeOutState k0, 0)"
proof -
  obtain k0 where k0: "kernel_reach 0 {1, 0} {0} k0" "uxSchedulerSuspended k0 = 0" using example_start by blast
  obtain k where k: "ticking k0 5 k" using ticking_possible[OF kernel_reach_ok[OF k0(1)] k0(2)] by blast
  show ?thesis using xTaskCheckForTimeOut_exact[OF k0 k, of 5] k0(1) k by (auto simp: portMAX_DELAY_def)
qed

text \<open>Ticks while the scheduler is suspended are only counted.\<close>

lemma suspended_ticking:
  assumes run: "ticking k n k'" and s: "uxSchedulerSuspended k \<noteq> 0"
  shows "\<exists>p y. k' = k\<lparr>xPendedTicks := xPendedTicks k + of_nat n, pendsv := p, xYieldPending := y\<rparr> \<and>
    (pendsv k \<or> xYieldPending k \<longrightarrow> p \<or> y)"
  using run
proof (induction rule: ticking.induct)
  case none
  then show ?case by (intro exI[of _ "pendsv k"] exI[of _ "xYieldPending k"]) simp
next
  case (tick n k1 k2)
  then obtain p y where k1: "k1 = k\<lparr>xPendedTicks := xPendedTicks k + of_nat n, pendsv := p, xYieldPending := y\<rparr>"
    "pendsv k \<or> xYieldPending k \<longrightarrow> p \<or> y" by blast
  then have "k2 = k1\<lparr>xPendedTicks := xPendedTicks k1 + 1\<rparr>"
    using tick(2) s by (simp add: xPortSysTickHandler_def xTaskIncrementTick_def)
  then show ?case using k1 by (intro exI[of _ p] exI[of _ y]) (simp add: algebra_simps)
next
  case (switch n k1 k2)
  then obtain p y where k1: "k1 = k\<lparr>xPendedTicks := xPendedTicks k + of_nat n, pendsv := p, xYieldPending := y\<rparr>"
    "pendsv k \<or> xYieldPending k \<longrightarrow> p \<or> y" by blast
  then have "k2 = k1\<lparr>pendsv := False, xYieldPending := True\<rparr>"
    using switch(3) s by (simp add: xPortPendSVHandler_def vTaskSwitchContext_def)
  then show ?case using k1 by (intro exI[of _ False] exI[of _ True]) simp
qed

text \<open>
  C33. Suspending the scheduler loses no time.  Ticks that arrive while the running task has the scheduler suspended
  only count up; when it resumes the scheduler after n < 2^32 of them, the tick count, the time left to every
  blocked task and the set of ready tasks are those that n ticks with the scheduler running
  give from the state before the suspension.
\<close>

theorem suspended_ticks_caught_up:
  assumes "kernel_reach idle T E k" "\<not> pendsv k" "uxSchedulerSuspended k = 0" "n < 2 ^ 32"
    "ticking (vTaskSuspendAll k) n k1" "ticking k n k3"
  shows "\<exists>y k2. xTaskResumeAll k1 = Some (y, k2) \<and> kernel_ok idle T E k2 \<and> uxSchedulerSuspended k2 = 0 \<and>
    xTickCount k2 = xTickCount k3 \<and> remaining k2 = remaining k3 \<and> is_ready k2 = is_ready k3"
proof -
  note ok = kernel_reach_ok[OF assms(1)]
  obtain c where c: "pxCurrentTCB k = Some c" "is_ready k c" using current[OF ok] assms(2) by blast
  let ?k0 = "vTaskSuspendAll k"
  have s0: "uxSchedulerSuspended ?k0 = 1" using assms(3) by (simp add: vTaskSuspendAll_def)
  obtain p y where k1: "k1 = ?k0\<lparr>xPendedTicks := xPendedTicks ?k0 + of_nat n, pendsv := p, xYieldPending := y\<rparr>"
    "pendsv ?k0 \<or> xYieldPending ?k0 \<longrightarrow> p \<or> y"
    using suspended_ticking[OF assms(5)] s0 by auto
  have su: "susp_inv k" using ok by (simp add: kernel_ok_def)
  have ok1: "kernel_ok idle T E k1"
  proof -
    have "kernel_ok idle T E ?k0" by (rule suspend_all_result[OF ok _ c]) (simp add: assms(3))
    then have core: "core_inv idle T E ?k0" and prio: "prio_inv ?k0" by (simp_all add: kernel_ok_def)
    have "core_inv idle T E k1" using core unfolding k1(1) by (intro core_update)
    moreover have "prio_inv k1" using prio k1 unfolding prio_inv_def by (auto simp: is_ready_def)
    moreover have "run_inv k1" using c unfolding run_inv_def k1(1) by (simp add: vTaskSuspendAll_def is_ready_def)
    moreover have "susp_inv k1" using s0 unfolding susp_inv_def k1(1) by simp
    ultimately show ?thesis by (simp add: kernel_ok_def)
  qed
  have f1: "uxSchedulerSuspended k1 = 1" "xPendedTicks k1 = of_nat n" "pending k1 = {}" "remaining k1 = remaining k"
    "is_ready k1 = is_ready k" "xTickCount k1 = xTickCount k"
    using s0 su assms(3)
    by (simp_all add: k1(1) vTaskSuspendAll_def pending_def susp_inv_def fun_eq_iff remaining_def delayed_def is_ready_def)
  have n: "unat (xPendedTicks k1) = n" using f1(2) assms(4) by (simp add: unsigned_of_nat take_bit_nat_eq_self)
  have t3: "xTickCount k3 = xTickCount k + of_nat n" "\<forall>t. remaining k3 t = (tick_down ^^ n) (remaining k t)"
    "\<forall>t. is_ready k3 t \<longleftrightarrow> is_ready k t \<or> (\<exists>m\<le>n. remaining k t = Some m)"
    using ticking_result[OF assms(6) ok assms(3)] by blast+
  obtain y k2 where k2: "xTaskResumeAll k1 = Some (y, k2)" "kernel_ok idle T E k2" "uxSchedulerSuspended k2 = 0"
    "xTickCount k2 = xTickCount k1 + xPendedTicks k1"
    "\<forall>t. remaining k2 t = (if t \<in> pending k1 then None else (tick_down ^^ unat (xPendedTicks k1)) (remaining k1 t))"
    "\<forall>t. is_ready k2 t \<longleftrightarrow> is_ready k1 t \<or> t \<in> pending k1 \<or> (\<exists>m\<le>unat (xPendedTicks k1). remaining k1 t = Some m)"
    using resume_result[OF ok1 f1(1)] by blast
  have "xTickCount k2 = xTickCount k3" using k2(4) t3(1) f1(2,6) by simp
  moreover have "remaining k2 = remaining k3" using k2(5) t3(2) n f1(3,4) by (intro ext) simp
  moreover have "is_ready k2 = is_ready k3" using k2(6) t3(3) n f1(3-5) by (intro ext) simp
  ultimately show ?thesis using k2(1-3) by blast
qed

theorem suspended_ticks_caught_up_witness:
  "\<exists>k k1 y k2. kernel_reach 0 {1, 0} {0} k \<and> ticking (vTaskSuspendAll k) 4 k1 \<and> xTaskResumeAll k1 = Some (y, k2) \<and> xTickCount k2 = 4"
proof -
  obtain k where k: "kernel_reach 0 {1, 0} {0} k" "\<not> pendsv k" "uxSchedulerSuspended k = 0" "xTickCount k = 0" "pxCurrentTCB k = Some 1" "is_ready k 1"
    using example_start by blast
  note ok = kernel_reach_ok[OF k(1)]
  have "\<exists>k1. ticking (vTaskSuspendAll k) n k1" for n
  proof (induction n)
    case (Suc n)
    then obtain k1 where k1: "ticking (vTaskSuspendAll k) n k1" by blast
    have "uxSchedulerSuspended k1 \<noteq> 0" using suspended_ticking[OF k1] k(3) by (auto simp: vTaskSuspendAll_def)
    then have "xPortSysTickHandler k1 = Some (k1\<lparr>xPendedTicks := xPendedTicks k1 + 1\<rparr>)"
      by (simp add: xPortSysTickHandler_def xTaskIncrementTick_def)
    then show ?case using ticking.tick[OF k1] by blast
  qed (use ticking.none in blast)
  then obtain k1 where k1: "ticking (vTaskSuspendAll k) 4 k1" by blast
  obtain k3 where k3: "ticking k 4 k3" using ticking_possible[OF ok k(3)] by blast
  have "xTickCount k3 = 4" using ticking_result[OF k3 ok k(3)] k(4) by simp
  then show ?thesis using suspended_ticks_caught_up[OF k(1-3) _ k1 k3] k(1) k1 by auto
qed

text \<open>
  An event wakes one waiter.  In every reachable state with a task waiting on event list e,
  xTaskRemoveFromEventList takes exactly one task off the list, its first, which is one with the smallest event value (so of the
  highest priority) when the list is sorted.  With the scheduler running that task becomes ready at its priority, off
  every other list and with no time left to wait; with the scheduler suspended it is held back and becomes ready
  when the scheduler resumes.  The answer says whether its priority exceeds the running task's, and then a
  switch is noted; no other task is affected.
\<close>

theorem xTaskRemoveFromEventList_wakes:
  assumes "kernel_reach idle T E k" "event_list k t0 = Some (EventList e)" "pxCurrentTCB k = Some c"
  shows "\<exists>t k'. event_list k t = Some (EventList e) \<and>
    xTaskRemoveFromEventList (EventList e) k = Some (uxPriority k t > uxPriority k c, k') \<and> kernel_ok idle T E k' \<and>
    (sorted_list k (EventList e) \<longrightarrow> (\<forall>u. event_list k u = Some (EventList e) \<longrightarrow>
       item_value k (xEventListItem t) \<le> item_value k (xEventListItem u))) \<and>
    (\<forall>u. u \<noteq> t \<longrightarrow> state_list k' u = state_list k u \<and> event_list k' u = event_list k u) \<and>
    (uxPriority k t > uxPriority k c \<longrightarrow> xYieldPending k') \<and>
    (if uxSchedulerSuspended k = 0 then is_ready k' t \<and> event_list k' t = None \<and> remaining k' t = None
     else state_list k' t = state_list k t \<and> event_list k' t = Some xPendingReadyList \<and>
       (uxSchedulerSuspended k = 1 \<longrightarrow> (\<exists>y k2. xTaskResumeAll k' = Some (y, k2) \<and> is_ready k2 t)))"
proof -
  note ok = kernel_reach_ok[OF assms(1)]
  obtain t k' where r: "t \<in> T" "event_list k t = Some (EventList e)"
    "xTaskRemoveFromEventList (EventList e) k = Some (uxPriority k t > uxPriority k c, k')" "kernel_ok idle T E k'" "kept k k'"
    "if uxSchedulerSuspended k = 0 then pxContainer k' = readied {t} k
     else pxContainer k' = (pxContainer k)(xEventListItem t := Some xPendingReadyList)"
    "uxSchedulerSuspended k' = uxSchedulerSuspended k" "uxPriority k t > uxPriority k c \<longrightarrow> xYieldPending k'"
    "sorted_list k (EventList e) \<longrightarrow> (\<forall>u. event_list k u = Some (EventList e) \<longrightarrow>
       item_value k (xEventListItem t) \<le> item_value k (xEventListItem u))"
    using remove_from_event_result[OF ok assms(2,3)] by (elim exE conjE) (rule that)
  have core': "core_inv idle T E k'" and prio': "prio_inv k'" using r(4) by (simp_all add: kernel_ok_def)
  have oth: "state_list k' u = state_list k u \<and> event_list k' u = event_list k u" if "u \<noteq> t" for u
    using r(6) that by (simp split: if_splits)
  have c1: "if uxSchedulerSuspended k = 0 then is_ready k' t \<and> event_list k' t = None \<and> remaining k' t = None
     else state_list k' t = state_list k t \<and> event_list k' t = Some xPendingReadyList \<and>
       (uxSchedulerSuspended k = 1 \<longrightarrow> (\<exists>y k2. xTaskResumeAll k' = Some (y, k2) \<and> is_ready k2 t))"
  proof (cases "uxSchedulerSuspended k = 0")
    case True
    then have ct: "state_list k' t = Some (Ready (uxPriority k' t))" "event_list k' t = None" using r(6) keptD(3)[OF r(5)] by simp_all
    then show ?thesis using True delay_lists_distinct(1,2)[OF core_invD(3)[OF core']]
      by (auto simp: is_ready_def remaining_def delayed_def)
  next
    case False
    then have ct: "state_list k' t = state_list k t" "event_list k' t = Some xPendingReadyList" using r(6) by simp_all
    have "\<exists>y k2. xTaskResumeAll k' = Some (y, k2) \<and> is_ready k2 t" if "uxSchedulerSuspended k = 1"
      using resume_result[OF r(4)] that r(7) ct(2) by (fastforce simp: pending_def)
    then show ?thesis using False ct by simp
  qed
  show ?thesis using r(2-4,8,9) oth c1 by blast
qed

lemma example_wait:
  obtains k where "kernel_reach 0 {1, 0} {0} k" "event_list k 1 = Some (EventList 0)" "pxCurrentTCB k = Some 1" "pendsv k"
    "uxSchedulerSuspended k = 0"
proof -
  obtain k where k: "kernel_reach 0 {1, 0} {0} k" "pxCurrentTCB k = Some 1" "uxSchedulerSuspended k = 0" "\<not> pendsv k" "is_ready k 1"
    "may_block 0 k" by (rule example_start)
  have n: "(10 :: 32 word) \<noteq> 0" by simp
  obtain k' where k': "wait_on 0 10 k = Some k'" "pendsv k'" "waits 1 (wait_time 10) k k'" "event_list k' = (event_list k)(1 := Some (EventList 0))"
    using wait_on_result[OF kernel_reach_ok[OF k(1)] k(3,2,5) _ _ n, of 0] by auto
  have "allowed 0 {1, 0} {0} (Wait 0 10) k" using k by (simp add: allowed_def)
  then have "kernel_reach 0 {1, 0} {0} k'" using kernel_reach.step[OF k(1), of "Wait 0 10" k'] k'(1) by simp
  moreover have "event_list k' 1 = Some (EventList 0)" using fun_cong[OF k'(4), of 1] by simp
  ultimately show thesis using that k'(2,3) k(2,3) by (simp add: waits_def)
qed

theorem xTaskRemoveFromEventList_wakes_witness:
  "\<exists>k y k' t. kernel_reach 0 {1, 0} {0} k \<and> event_list k t = Some (EventList 0) \<and>
    xTaskRemoveFromEventList (EventList 0) k = Some (y, k') \<and> is_ready k' t"
proof -
  obtain k where k: "kernel_reach 0 {1, 0} {0} k" "event_list k 1 = Some (EventList 0)" "pxCurrentTCB k = Some 1"
    "uxSchedulerSuspended k = 0" using example_wait by blast
  show ?thesis using xTaskRemoveFromEventList_wakes[OF k(1-3)] k(1,4) by auto
qed

text \<open>
  C34. Priority inheritance and its end.  When the running task c waits for a mutex whose holder t has a lower priority, the holder
  gets c's priority, in its ready list if it is ready, its base priority unchanged; no task becomes ready or
  blocked and the scheduler's invariant is kept; otherwise nothing changes.  When the running task gives back its last
  mutex after inheriting, its priority is its base priority again and a switch is requested; while it
  holds another mutex it keeps the inherited one.
\<close>

theorem mutex_priority_inheritance:
  assumes "kernel_reach idle T E k" "\<not> pendsv k" "pxCurrentTCB k = Some c" "t \<in> T"
  shows "(\<exists>y k1. xTaskPriorityInherit (Some t) k = Some (y, k1) \<and> kernel_ok idle T E k1 \<and> is_ready k1 = is_ready k \<and>
      (y \<longleftrightarrow> uxPriority k t < uxPriority k c \<or> uxBasePriority k t < uxPriority k c) \<and>
      uxPriority k1 = (uxPriority k)(t := max (uxPriority k t) (uxPriority k c)) \<and> uxBasePriority k1 = uxBasePriority k) \<and>
    (\<exists>k2. give_back (Some c) k = Some k2 \<and> kernel_ok idle T E k2 \<and> is_ready k2 = is_ready k \<and>
      uxMutexesHeld k2 c = uxMutexesHeld k c - 1 \<and> (\<forall>u. u \<noteq> c \<longrightarrow> uxPriority k2 u = uxPriority k u) \<and>
      uxPriority k2 c = (if uxMutexesHeld k c = 1 then uxBasePriority k c else uxPriority k c) \<and>
      (uxPriority k2 c \<noteq> uxPriority k c \<longrightarrow> pendsv k2))"
proof
  note ok = kernel_reach_ok[OF assms(1)]
  have rdy: "is_ready k c" using current[OF ok] assms(2,3) by auto
  show "\<exists>y k1. xTaskPriorityInherit (Some t) k = Some (y, k1) \<and> kernel_ok idle T E k1 \<and> is_ready k1 = is_ready k \<and>
      (y \<longleftrightarrow> uxPriority k t < uxPriority k c \<or> uxBasePriority k t < uxPriority k c) \<and>
      uxPriority k1 = (uxPriority k)(t := max (uxPriority k t) (uxPriority k c)) \<and> uxBasePriority k1 = uxBasePriority k"
  proof (cases "uxPriority k t < uxPriority k c")
    case True
    then show ?thesis using inherit_result[OF ok assms(4,3) rdy True] by (auto simp: max_def)
  next
    case False
    then have "(uxPriority k)(t := max (uxPriority k t) (uxPriority k c)) = uxPriority k" by (auto simp: fun_eq_iff max_def)
    then show ?thesis using inherit_noop(1)[OF assms(3), of t] ok False by auto
  qed
  show "\<exists>k2. give_back (Some c) k = Some k2 \<and> kernel_ok idle T E k2 \<and> is_ready k2 = is_ready k \<and>
      uxMutexesHeld k2 c = uxMutexesHeld k c - 1 \<and> (\<forall>u. u \<noteq> c \<longrightarrow> uxPriority k2 u = uxPriority k u) \<and>
      uxPriority k2 c = (if uxMutexesHeld k c = 1 then uxBasePriority k c else uxPriority k c) \<and>
      (uxPriority k2 c \<noteq> uxPriority k c \<longrightarrow> pendsv k2)"
    using disinherit_result[OF ok assms(3) rdy] by (auto split: if_splits)
qed

theorem mutex_priority_inheritance_witness:
  "\<exists>k y k1 k2. kernel_reach 0 {1, 0} {0} k \<and> xTaskPriorityInherit (Some 0) k = Some (y, k1) \<and> kernel_ok 0 {1, 0} {0} k1 \<and>
    give_back (Some 1) k = Some k2 \<and> kernel_ok 0 {1, 0} {0} k2"
proof -
  obtain k where k: "kernel_reach 0 {1, 0} {0} k" "\<not> pendsv k" "pxCurrentTCB k = Some 1" using example_start by blast
  have "(0 :: nat) \<in> {1, 0}" by simp
  from mutex_priority_inheritance[OF k this] k(1) show ?thesis by blast
qed

lemma empty_links:
  assumes v: "list_view k l []"
  shows "pxNext k (ListEnd l) = ListEnd l" "pxIndex k l = ListEnd l"
  using v list_view_link(1)[of k l "[]" "[]"] by (auto simp: list_view_def)

text \<open>Marking another priority as ready commutes with the suspension of a task.\<close>

lemma uxListRemove_record:
  "uxListRemove i (taskRECORD_READY_PRIORITY p k) = map_option (\<lambda>(n, k). (n, taskRECORD_READY_PRIORITY p k)) (uxListRemove i k)"
  by (cases "pxContainer k i") (simp_all add: uxListRemove_def taskRECORD_READY_PRIORITY_def Let_def)

lemma record_reset: "p \<noteq> q \<Longrightarrow> portRECORD_READY_PRIORITY p (portRESET_READY_PRIORITY q w) = portRESET_READY_PRIORITY q (portRECORD_READY_PRIORITY p w)"
  by (intro bit_word_eqI) (auto simp: bit_record bit_reset)

lemma suspend_record:
  assumes t: "prvGetTCBFromHandle h k = Some t" "uxPriority k t \<noteq> p" and run: "vTaskSuspend h k = Some k'" "xSchedulerRunning k"
  shows "vTaskSuspend h (taskRECORD_READY_PRIORITY p k) = Some (taskRECORD_READY_PRIORITY p k')"
proof -
  let ?r = "taskRECORD_READY_PRIORITY p"
  obtain n k1 where k1: "uxListRemove (xStateListItem t) k = Some (n, k1)" using run(1) t(1) by (auto simp: vTaskSuspend_def split: bind_splits)
  have f1: "uxPriority k1 = uxPriority k" "xSchedulerRunning k1 = xSchedulerRunning k"
  proof -
    have "map_option (\<lambda>(n, k). (uxPriority k, xSchedulerRunning k)) (uxListRemove (xStateListItem t) k) =
        map_option (\<lambda>_. (uxPriority k, xSchedulerRunning k)) (state_list k t)"
      by (simp add: uxListRemove_def Let_def split: option.split)
    then show "uxPriority k1 = uxPriority k" "xSchedulerRunning k1 = xSchedulerRunning k"
      unfolding k1 by (cases "state_list k t"; simp)+
  qed
  obtain k2 where k2: "(if n = 0 then taskRESET_READY_PRIORITY (uxPriority k1 t) k1 else Some k1) = Some k2"
    using run(1) t(1) k1 by (auto simp: vTaskSuspend_def split: bind_splits)
  have r2: "(if n = 0 then taskRESET_READY_PRIORITY (uxPriority (?r k1) t) (?r k1) else Some (?r k1)) = Some (?r k2)"
    using k2 t(2) f1(1) record_reset[of p "uxPriority k t"]
    by (auto simp: taskRESET_READY_PRIORITY_def reset_ready_priority_def taskRECORD_READY_PRIORITY_def list_macros split: bind_splits if_splits)
  have f2: "uxPriority k2 = uxPriority k" "xSchedulerRunning k2 = xSchedulerRunning k"
    using k2 f1 by (auto simp: taskRESET_READY_PRIORITY_def reset_ready_priority_def split: bind_splits if_splits)
  obtain k3 where k3: "remove_from_event_list t k2 = Some k3" using run(1) t(1) k1 k2 by (auto simp: vTaskSuspend_def split: bind_splits)
  have r3: "remove_from_event_list t (?r k2) = Some (?r k3)"
    using k3 uxListRemove_record[of "xEventListItem t" p k2]
    by (auto simp: remove_from_event_list_def list_macros taskRECORD_READY_PRIORITY_def split: if_splits)
  have ins: "vListInsertEnd l i (?r x) = ?r (vListInsertEnd l i x)" for l i x
    by (simp add: vListInsertEnd_def taskRECORD_READY_PRIORITY_def Let_def)
  have f3: "uxPriority k3 = uxPriority k \<and> xSchedulerRunning k3 = xSchedulerRunning k"
  proof -
    have "map_option (\<lambda>k. (uxPriority k, xSchedulerRunning k)) (remove_from_event_list t k2) =
        Some (uxPriority k2, xSchedulerRunning k2)"
      by (cases "event_list k2 t") (simp_all add: remove_from_event_list_def list_macros uxListRemove_def Let_def)
    then show ?thesis using k3 f2 by simp
  qed
  define k4 where "k4 = vListInsertEnd xSuspendedTaskList (xStateListItem t) k3"
  define k5 where "k5 = (if ucNotifyState k4 t = taskWAITING_NOTIFICATION
                   then k4\<lparr>ucNotifyState := (ucNotifyState k4)(t := taskNOT_WAITING_NOTIFICATION)\<rparr> else k4)"
  define k6 where "k6 = prvResetNextTaskUnblockTime k5"
  have f6: "xSchedulerRunning k5" "xSchedulerRunning k6"
    using f3 run(2) by (simp_all add: k6_def k5_def k4_def vListInsertEnd_def prvResetNextTaskUnblockTime_def Let_def)
  have k': "k' = (if pxCurrentTCB k6 = Some t then portYIELD k6 else k6)"
    using run(1) t(1) k1 k2 k3 f6 unfolding vTaskSuspend_def
    by (simp add: k4_def[symmetric] k5_def[symmetric] k6_def[symmetric] split: if_splits)
  have r: "vListInsertEnd xSuspendedTaskList (xStateListItem t) (?r k3) = ?r k4"
    "(if ucNotifyState (?r k4) t = taskWAITING_NOTIFICATION
      then (?r k4)\<lparr>ucNotifyState := (ucNotifyState (?r k4))(t := taskNOT_WAITING_NOTIFICATION)\<rparr> else ?r k4) = ?r k5"
    "xSchedulerRunning (?r k5)" "prvResetNextTaskUnblockTime (?r k5) = ?r k6" "pxCurrentTCB (?r k6) = pxCurrentTCB k6"
    "xSchedulerRunning (?r k6)" "portYIELD (?r k6) = ?r (portYIELD k6)"
  proof -
    have nx: "prvResetNextTaskUnblockTime (?r x) = ?r (prvResetNextTaskUnblockTime x)" for x
      by (cases x) (simp add: prvResetNextTaskUnblockTime_def taskRECORD_READY_PRIORITY_def listLIST_IS_EMPTY_def listGET_ITEM_VALUE_OF_HEAD_ENTRY_def)
    show "(if ucNotifyState (?r k4) t = taskWAITING_NOTIFICATION
      then (?r k4)\<lparr>ucNotifyState := (ucNotifyState (?r k4))(t := taskNOT_WAITING_NOTIFICATION)\<rparr> else ?r k4) = ?r k5"
      unfolding k5_def by (simp add: taskRECORD_READY_PRIORITY_def)
    show "vListInsertEnd xSuspendedTaskList (xStateListItem t) (?r k3) = ?r k4" unfolding k4_def by (rule ins)
    show "prvResetNextTaskUnblockTime (?r k5) = ?r k6" unfolding k6_def by (rule nx)
    show "xSchedulerRunning (?r k5)" "pxCurrentTCB (?r k6) = pxCurrentTCB k6" "xSchedulerRunning (?r k6)" "portYIELD (?r k6) = ?r (portYIELD k6)"
      using f6 by (simp_all add: taskRECORD_READY_PRIORITY_def portYIELD_def)
  qed
  have h: "prvGetTCBFromHandle h (?r k) = Some t" using t(1) by (simp add: prvGetTCBFromHandle_def taskRECORD_READY_PRIORITY_def split: option.splits)
  show ?thesis
    unfolding vTaskSuspend_def using h uxListRemove_record[of "xStateListItem t" p k] k1 r2 r3 r k' by simp
qed
text \<open>Where the highest bit belongs to an empty list, the switch has no task to select.\<close>

lemma empty_highest:
  assumes core: "core_inv idle T E h" and un: "uxSchedulerSuspended h = 0" and p: "p < configMAX_PRIORITIES"
    and none: "\<And>i q. p \<le> q \<Longrightarrow> pxContainer h i \<noteq> Some (Ready q)"
  shows "xPortPendSVHandler (taskRECORD_READY_PRIORITY p h) = None"
proof -
  note inv = core_invD(1,2)[OF core]
  have "Ready p \<in> live E" using p by simp
  then obtain xs where "list_view h (Ready p) xs" using wf_listsD(1)[OF lists_invD(1)[OF inv(1)]] by blast
  then have v: "list_view h (Ready p) []" by (rule empty_view) (rule none[OF order_refl])
  have b: "bit (portRECORD_READY_PRIORITY p (uxTopReadyPriority h)) q \<longleftrightarrow> q = p \<or> q < p \<and> bit (uxTopReadyPriority h) q" for q
    using inv(2) none[of q] p configMAX_PRIORITIES_less[OF p] unfolding bit_record bitmap_inv_def by (cases "p \<le> q") auto
  have "portGET_HIGHEST_PRIORITY (portRECORD_READY_PRIORITY p (uxTopReadyPriority h)) = Some p"
    by (rule portGET_HIGHEST_PRIORITY_bit) (use b configMAX_PRIORITIES_less[OF p] in auto)
  then show ?thesis
    using un p empty_links[OF v]
    by (simp add: taskRECORD_READY_PRIORITY_def xPortPendSVHandler_def vTaskSwitchContext_def taskSELECT_HIGHEST_PRIORITY_TASK_def
        pxReadyTasksLists_def listGET_OWNER_OF_NEXT_ENTRY_def Let_def)
qed

text \<open>What the call returns but for the bit.\<close>

lemma disinherit_stale:
  assumes ok: "kernel_ok idle T E k" and t: "t \<in> T" "is_ready k t" "\<forall>u. is_ready k u \<and> uxPriority k u = uxPriority k t \<longrightarrow> u = t"
    and m: "uxMutexesHeld k t = 1" "uxBasePriority k t < uxPriority k t" "w < uxPriority k t"
    and c: "pxCurrentTCB k = Some c" "is_ready k c" "c \<noteq> t"
  shows "\<exists>h. vTaskPriorityDisinheritAfterTimeout (Some t) w k = Some (taskRECORD_READY_PRIORITY (uxPriority k t) h) \<and>
      kernel_ok idle T E h \<and> (\<forall>i. pxContainer h i \<noteq> Some (Ready (uxPriority k t))) \<and> is_ready h = is_ready k \<and>
      uxPriority h = (uxPriority k)(t := max (uxBasePriority k t) w) \<and> pxCurrentTCB h = pxCurrentTCB k \<and>
      uxSchedulerSuspended h = uxSchedulerSuspended k"
proof -
  have core: "core_inv idle T E k" using ok by (simp add: kernel_ok_def)
  note inv = core_invD(1-3)[OF core]
  let ?old = "uxPriority k t"
  define new where "new = max (uxBasePriority k t) w"
  define v where "v = event_value t new k"
  let ?R = "reprio t new (uxBasePriority k t) v"
  have lt: "new < ?old" using m(2,3) by (simp add: new_def)
  have p5: "?old < configMAX_PRIORITIES" "uxBasePriority k t < configMAX_PRIORITIES" "new < configMAX_PRIORITIES"
    using lists_invD(5,6)[OF inv(1) t(1)] lt by simp_all
  have st: "state_list k t = Some (Ready ?old)" using t(2) by (simp add: is_ready_def)
  have alone: "pxContainer k i = Some (Ready ?old) \<longleftrightarrow> i = xStateListItem t" for i
  proof
    assume a: "pxContainer k i = Some (Ready ?old)"
    obtain u where u: "i = xStateListItem u" "uxPriority k u = ?old" using lists_invD(2)[OF inv(1) a] by auto
    then have "is_ready k u" using a by (simp add: is_ready_def)
    then show "i = xStateListItem t" using t(3) u by simp
  qed (use st in simp)
  obtain h where h: "move_if_ready t ?old ?old (?R k) = Some h" "core_inv idle T E h" "kstep (?R k) h" "is_ready h = is_ready k"
    "\<forall>i. (\<forall>q. pxContainer k i \<noteq> Some (Ready q)) \<longrightarrow> pxContainer h i = pxContainer k i"
    using move_result[OF core t(1) p5(3,2), of v] by (elim exE conjE) (rule that)
  note f = kstep_fields[OF h(3), unfolded reprio_fields]
  obtain n k1 where k1: "uxListRemove (xStateListItem t) k = Some (n, k1)" "uxTopReadyPriority k1 = uxTopReadyPriority k"
    "pxContainer k1 = (pxContainer k)(xStateListItem t := None)" "n = 0 \<longleftrightarrow> (\<forall>j. pxContainer k1 j \<noteq> Some (Ready ?old))"
    using remove_any[OF inv(1) st] by (elim exE conjE) (rule that)
  have n0: "n = 0" using k1(3,4) alone by auto
  have bit: "bit (uxTopReadyPriority k) ?old" using inv(2) st unfolding bitmap_inv_def by blast
  have words: "portRECORD_READY_PRIORITY new (portRESET_READY_PRIORITY new (uxTopReadyPriority k)) =
      portRECORD_READY_PRIORITY ?old (portRECORD_READY_PRIORITY new (portRESET_READY_PRIORITY ?old (uxTopReadyPriority k)))"
    using bit configMAX_PRIORITIES_less[OF p5(1)] configMAX_PRIORITIES_less[OF p5(3)]
    by (intro bit_word_eqI) (auto simp: bit_record bit_reset)
  have mv: "move_if_ready t ?old r (?R k) =
      Some (vListInsertEnd (Ready new) (xStateListItem t) (taskRECORD_READY_PRIORITY new (reset_ready_priority r (?R k1))))" for r
    using st p5 k1(1) n0
    by (simp add: move_if_ready_def pxReadyTasksLists_def list_macros remove_and_reset_def uxListRemove_reprio reset_ready_priority_def
        prvAddTaskToReadyList_def listINSERT_END_eq taskRECORD_READY_PRIORITY_def)
  have mo: "move_if_ready t ?old new (?R k) = Some (taskRECORD_READY_PRIORITY ?old h)"
    using h(1) words k1(2) unfolding mv
    by (auto simp: taskRECORD_READY_PRIORITY_def reset_ready_priority_def vListInsertEnd_def Let_def)
  have "vTaskPriorityDisinheritAfterTimeout (Some t) w k = Some (taskRECORD_READY_PRIORITY ?old h)"
  proof -
    have e: "k\<lparr>uxPriority := (uxPriority k)(t := new)\<rparr> =
        k\<lparr>uxPriority := (uxPriority k)(t := new), uxBasePriority := (uxBasePriority k)(t := uxBasePriority k t)\<rparr>"
      by (cases k) simp
    have se: "set_event_value t new (k\<lparr>uxPriority := (uxPriority k)(t := new)\<rparr>) = ?R k"
      using set_event_value_reprio[of t new k "uxBasePriority k t" new] unfolding e[symmetric] v_def event_value_def .
    have use: "(if uxBasePriority k t < w then w else uxBasePriority k t) = new" by (simp add: new_def max_def)
    have "uxPriority (?R k) t = new" by simp
    then show ?thesis using lt m(1) mo by (simp add: vTaskPriorityDisinheritAfterTimeout_def Let_def use se del: reprio_fields)
  qed
  moreover have "kernel_ok idle T E h"
    using repriorised_ok[OF ok h(2,3,4) c(1,2) h(5), of False] lt c(3) by auto
  moreover have "pxContainer h i \<noteq> Some (Ready ?old)" for i
  proof
    assume a: "pxContainer h i = Some (Ready ?old)"
    obtain u where u: "i = xStateListItem u" "uxPriority h u = ?old" using lists_invD(2)[OF core_invD(1)[OF h(2)] a] by auto
    then have "is_ready k u" using a h(4) by (metis is_ready_def)
    then show False using t(3) u(2) lt f by (auto split: if_splits)
  qed
  ultimately show ?thesis using h(4) f by (intro exI[of _ h]) (simp add: new_def)
qed

text \<open>
  C35. The time-out of a mutex waiter can break the ready bitmap.  vTaskPriorityDisinheritAfterTimeout lowers the holder's
  priority before it takes the holder off its ready list and then clears the bit of the new priority instead
  of the old one.  In every state that satisfies the scheduler's invariant, if the holder t of one mutex, not the running
  task, is the only ready task of its inherited priority p and falls to a lower one, the call returns a state
  that satisfies the invariant but for one bit: bit p is set although no task is on ready list p.  And in every
  state that satisfies the invariant but for bit p set, once all ready tasks have priorities below p and the
  scheduler is not suspended, the next context switch walks the empty list p and takes the end marker of
  the list for a task.
\<close>

theorem vTaskPriorityDisinheritAfterTimeout_stale_bit:
  assumes "kernel_ok idle T E k" "t \<in> T" "is_ready k t" "\<forall>u. is_ready k u \<and> uxPriority k u = uxPriority k t \<longrightarrow> u = t"
    "uxMutexesHeld k t = 1" "uxBasePriority k t < uxPriority k t" "w < uxPriority k t"
    "pxCurrentTCB k = Some c" "is_ready k c" "c \<noteq> t"
  shows "(\<exists>h. vTaskPriorityDisinheritAfterTimeout (Some t) w k = Some (taskRECORD_READY_PRIORITY (uxPriority k t) h) \<and>
      kernel_ok idle T E h \<and> (\<forall>i. pxContainer h i \<noteq> Some (Ready (uxPriority k t))) \<and> is_ready h = is_ready k \<and>
      uxPriority h = (uxPriority k)(t := max (uxBasePriority k t) w) \<and> pxCurrentTCB h = pxCurrentTCB k \<and>
      uxSchedulerSuspended h = uxSchedulerSuspended k) \<and>
    (\<forall>h. kernel_ok idle T E h \<and> uxSchedulerSuspended h = 0 \<and> (\<forall>u. is_ready h u \<longrightarrow> uxPriority h u < uxPriority k t) \<longrightarrow>
       xPortPendSVHandler (taskRECORD_READY_PRIORITY (uxPriority k t) h) = None)"
proof
  let ?old = "uxPriority k t"
  have p5: "?old < configMAX_PRIORITIES" 
    using lists_invD(5)[OF core_invD(1)[of idle T E k] assms(2)] assms(1) by (simp add: kernel_ok_def)
  show "\<exists>h. vTaskPriorityDisinheritAfterTimeout (Some t) w k = Some (taskRECORD_READY_PRIORITY ?old h) \<and>
      kernel_ok idle T E h \<and> (\<forall>i. pxContainer h i \<noteq> Some (Ready ?old)) \<and> is_ready h = is_ready k \<and>
      uxPriority h = (uxPriority k)(t := max (uxBasePriority k t) w) \<and> pxCurrentTCB h = pxCurrentTCB k \<and>
      uxSchedulerSuspended h = uxSchedulerSuspended k"
    by (rule disinherit_stale[OF assms])
  show "\<forall>h. kernel_ok idle T E h \<and> uxSchedulerSuspended h = 0 \<and> (\<forall>u. is_ready h u \<longrightarrow> uxPriority h u < ?old) \<longrightarrow>
       xPortPendSVHandler (taskRECORD_READY_PRIORITY ?old h) = None"
  proof (intro allI impI)
    fix h
    assume h: "kernel_ok idle T E h \<and> uxSchedulerSuspended h = 0 \<and> (\<forall>u. is_ready h u \<longrightarrow> uxPriority h u < ?old)"
    have c: "core_inv idle T E h" using h by (simp add: kernel_ok_def)
    have "pxContainer h i \<noteq> Some (Ready q)" if q: "?old \<le> q" for i q
    proof
      assume a: "pxContainer h i = Some (Ready q)"
      obtain u where u: "i = xStateListItem u" "uxPriority h u = q" using lists_invD(2)[OF core_invD(1)[OF c] a] by auto
      then have "is_ready h u" using a by (simp add: is_ready_def)
      then show False using h u(2) q by auto
    qed
    then show "xPortPendSVHandler (taskRECORD_READY_PRIORITY ?old h) = None"
      using empty_highest[OF c _ p5] h by blast
  qed
qed

text \<open>
  The idle task (0) inherits priority 2 from the timer task (1), whose priority was 2 and is raised again; when the timer
  task has suspended itself, the switch fails.
\<close>

theorem vTaskPriorityDisinheritAfterTimeout_stale_bit_witness:
  "\<exists>k k1 k2. kernel_ok 0 {1, 0} {0} k \<and> vTaskPriorityDisinheritAfterTimeout (Some 0) 0 k = Some k1 \<and>
    vTaskSuspend None k1 = Some k2 \<and> xPortPendSVHandler k2 = None"
proof -
  have T: "(0 :: nat) \<in> {1, 0}" "(1 :: nat) \<in> {1, 0}" by simp_all
  obtain k0 where k0: "kernel_reach 0 {1, 0} {0} k0" "pxCurrentTCB k0 = Some 1" "is_ready k0 1" "uxSchedulerSuspended k0 = 0"
    "uxBasePriority k0 0 = uxPriority k0 0" "uxBasePriority k0 1 = uxPriority k0 1" by (rule example_start)
  note ok0 = kernel_reach_ok[OF k0(1)]
  have h: "prvGetTCBFromHandle (Some u) k = Some u" for u k by (simp add: prvGetTCBFromHandle_def)
  obtain k1 where k1: "kernel_ok 0 {1, 0} {0} k1" "is_ready k1 = is_ready k0" "uxBasePriority k1 = (uxBasePriority k0)(0 := 0)"
    "uxPriority k1 = (uxPriority k0)(0 := 0)" "pxCurrentTCB k1 = Some 1" "uxSchedulerSuspended k1 = 0"
    using priority_set_result[OF ok0 h T(1) k0(2,3), of 0] k0(2,4,5) by auto
  obtain k2 where k2: "kernel_ok 0 {1, 0} {0} k2" "is_ready k2 = is_ready k0" "uxBasePriority k2 = (uxBasePriority k0)(0 := 0, 1 := 2)"
    "uxPriority k2 = (uxPriority k0)(0 := 0, 1 := 2)" "pxCurrentTCB k2 = Some 1" "uxSchedulerSuspended k2 = 0"
    using priority_set_result[OF k1(1) h T(2) k1(5), of 2] k0(3,6) k1 by (auto simp: configMAX_PRIORITIES_def)
  have lt: "uxPriority k2 0 < uxPriority k2 1" by (simp add: k2(4))
  obtain k3 where k3: "kernel_ok 0 {1, 0} {0} k3" "is_ready k3 = is_ready k0" "uxBasePriority k3 = (uxBasePriority k0)(0 := 0, 1 := 2)"
    "uxPriority k3 = (uxPriority k0)(1 := 2, 0 := 2)" "pxCurrentTCB k3 = Some 1" "uxSchedulerSuspended k3 = 0"
    using inherit_result[OF k2(1) T(1) k2(5) _ lt] k0(3) k2 by (auto simp: fun_upd_twist)
  obtain k4 where k4: "kernel_ok 0 {1, 0} {0} k4" "is_ready k4 = is_ready k0" "uxBasePriority k4 = (uxBasePriority k0)(0 := 0, 1 := 4)"
    "uxPriority k4 = (uxPriority k0)(0 := 2, 1 := 4)" "pxCurrentTCB k4 = Some 1" "uxSchedulerSuspended k4 = 0"
    using priority_set_result[OF k3(1) h T(2) k3(5), of 4] k0(3) k3 by (auto simp: configMAX_PRIORITIES_def fun_upd_twist)
  define k where "k = k4\<lparr>uxMutexesHeld := (uxMutexesHeld k4)(0 := 1)\<rparr>"
  have ok: "kernel_ok 0 {1, 0} {0} k" using mutex_ok[OF k4(1)] by (simp add: k_def)
  have r: "is_ready k 0" using ok by (simp add: kernel_ok_def core_inv_def)
  have p: "uxPriority k 0 = 2" "uxPriority k 1 = 4" "uxBasePriority k 0 = 0" "uxMutexesHeld k 0 = 1"
    by (simp_all add: k_def k4(3,4))
  have al: "\<forall>u. is_ready k u \<and> uxPriority k u = uxPriority k 0 \<longrightarrow> u = 0"
  proof (intro allI impI)
    fix u assume u: "is_ready k u \<and> uxPriority k u = uxPriority k 0"
    then have "u \<in> {1, 0}" using state_list_T[of "{1, 0}" "{0}" k u] ok by (auto simp: kernel_ok_def core_inv_def is_ready_def)
    then show "u = 0" using u p(1,2) by auto
  qed
  have "is_ready k4 1" using k4(2) k0(3) by simp
  then have cur: "pxCurrentTCB k = Some 1" "is_ready k 1" "uxSchedulerSuspended k = 0"
    using k4(5,6) by (simp_all add: k_def is_ready_def)
  have lt: "uxBasePriority k 0 < uxPriority k 0" "0 < uxPriority k 0" "(1 :: nat) \<noteq> 0" using p by simp_all
  note main = vTaskPriorityDisinheritAfterTimeout_stale_bit[OF ok T(1) r al p(4) lt(1,2) cur(1,2) lt(3)]
  obtain h where h: "vTaskPriorityDisinheritAfterTimeout (Some 0) 0 k = Some (taskRECORD_READY_PRIORITY (uxPriority k 0) h)"
    "kernel_ok 0 {1, 0} {0} h" "is_ready h = is_ready k" "uxPriority h = (uxPriority k)(0 := max (uxBasePriority k 0) 0)"
    "pxCurrentTCB h = pxCurrentTCB k" "uxSchedulerSuspended h = uxSchedulerSuspended k"
    using conjunct1[OF main] by (elim exE conjE) (rule that)
  have hd: "prvGetTCBFromHandle None h = Some 1" using h(5) cur(1) by (simp add: prvGetTCBFromHandle_def)
  obtain h' where h': "vTaskSuspend None h = Some h'" "kernel_ok 0 {1, 0} {0} h'"
    "pxContainer h' = (pxContainer h)(xStateListItem 1 := Some xSuspendedTaskList, xEventListItem 1 := None)"
    "uxPriority h' = uxPriority h" "uxSchedulerSuspended h' = uxSchedulerSuspended h"
    using suspend_result[OF h(2) hd T(2)] h(6) cur(3) by auto
  have "vTaskSuspend None (taskRECORD_READY_PRIORITY (uxPriority k 0) h) = Some (taskRECORD_READY_PRIORITY (uxPriority k 0) h')"
    by (rule suspend_record[OF hd _ h'(1)]) (use h(2,4) p in \<open>simp_all add: kernel_ok_def core_inv_def\<close>)
  moreover have "uxPriority h' u < uxPriority k 0" if u: "is_ready h' u" for u
  proof -
    have "u \<in> {1, 0}" using state_list_T[of "{1, 0}" "{0}" h' u] h'(2) u by (auto simp: kernel_ok_def core_inv_def is_ready_def)
    moreover have "u \<noteq> 1" using u by (auto simp: is_ready_def h'(3))
    ultimately show ?thesis using h'(4) h(4) p by simp
  qed
  moreover have "uxSchedulerSuspended h' = 0" using h'(5) h(6) cur(3) by simp
  ultimately show ?thesis using conjunct2[OF main] h(1) h'(2) ok by blast
qed

end
