(* ===== verification/FRQueue.thy ===== *)
theory FRQueue
  imports FRSystem CPrelude
begin

text \<open>
  Queues, semaphores, mutexes and queue sets (\<open>FreeRTOS/Source/queue.c\<close>) on top of the scheduler, as
  \<open>FreeRTOSConfig.h\<close> configures them: mutexes, recursive mutexes, counting semaphores and queue sets; no
  registry, no static allocation, no co-routines.  A queue handle is a number; the lists of queue \<open>q\<close>
  are the event lists \<open>2 * q\<close> (waiting to send) and \<open>2 * q + 1\<close> (waiting to receive).  Pointers into
  the storage area behind the structure are byte offsets, and an access outside the area is the value None.
  A function that keeps interrupts masked is one step; the blocking functions are sequences of such
  steps, so that interrupts can come in wherever the code lets them.
\<close>

section \<open>The queue structure\<close>

datatype copy_position = queueSEND_TO_BACK | queueSEND_TO_FRONT | queueOVERWRITE

text \<open>\<open>pcHead\<close> is NULL (None) for a mutex.  The two members of the union are kept side by side: the mutex
  members are meaningful only for a mutex, the pointers only for a queue with items.\<close>

record Queue_t =
  pcHead :: "int option"
  pcWriteTo :: int
  pcTail :: int
  pcReadFrom :: int
  xMutexHolder :: "nat option"
  uxRecursiveCallCount :: "32 word"
  uxMessagesWaiting :: "32 word"
  uxLength :: "32 word"
  uxItemSize :: "32 word"
  cRxLock :: "8 word"
  cTxLock :: "8 word"
  pxQueueSetContainer :: "nat option"
  storage :: "8 word list"

record qkernel =
  queue :: "nat \<Rightarrow> Queue_t"
  knl :: kernel

definition upd_queue :: "nat \<Rightarrow> (Queue_t \<Rightarrow> Queue_t) \<Rightarrow> qkernel \<Rightarrow> qkernel" where
  "upd_queue q f s = s\<lparr>queue := (queue s)(q := f (queue s q))\<rparr>"

definition xTasksWaitingToSend :: "nat \<Rightarrow> klist" where
  "xTasksWaitingToSend q = EventList (2 * q)"

definition xTasksWaitingToReceive :: "nat \<Rightarrow> klist" where
  "xTasksWaitingToReceive q = EventList (2 * q + 1)"

definition queueUNLOCKED :: "8 word" where
  "queueUNLOCKED = -1"

definition queueLOCKED_UNMODIFIED :: "8 word" where
  "queueLOCKED_UNMODIFIED = 0"

definition uxQueueType_is_mutex :: "Queue_t \<Rightarrow> bool" where
  "uxQueueType_is_mutex Q \<longleftrightarrow> pcHead Q = None"

text \<open>\<open>sizeof( Queue_t )\<close>: two pointers, the union, two lists, three counters, the locks and the set.\<close>

definition sizeof_Queue_t :: "32 word" where
  "sizeof_Queue_t = 4 + 4 + 8 + 20 + 20 + 12 + 4 + 4"

section \<open>Items\<close>

text \<open>\<open>memcpy\<close> of \<open>n\<close> bytes to and from the storage area.\<close>

definition store_item :: "int \<Rightarrow> 8 word list \<Rightarrow> 8 word list \<Rightarrow> 8 word list option" where
  "store_item a xs m = (if 0 \<le> a then wrs m (nat a) xs else None)"

definition load_item :: "int \<Rightarrow> nat \<Rightarrow> 8 word list \<Rightarrow> 8 word list option" where
  "load_item a n m = (if 0 \<le> a \<and> nat a + n \<le> length m then Some (take n (drop (nat a) m)) else None)"

definition head_offset :: "Queue_t \<Rightarrow> int" where
  "head_offset Q = (case pcHead Q of None \<Rightarrow> 0 | Some a \<Rightarrow> a)"

text \<open>The branches of \<open>prvCopyDataToQueue\<close> for items of a size other than 0.\<close>

definition copy_to_back :: "8 word list \<Rightarrow> Queue_t \<Rightarrow> Queue_t option" where
  "copy_to_back item Q =
     do { m \<leftarrow> store_item (pcWriteTo Q) (take (unat (uxItemSize Q)) item) (storage Q);
          let w = pcWriteTo Q + uint (uxItemSize Q);
          Some (Q\<lparr>storage := m, pcWriteTo := (if w \<ge> pcTail Q then head_offset Q else w)\<rparr>) }"

definition copy_to_front :: "8 word list \<Rightarrow> Queue_t \<Rightarrow> Queue_t option" where
  "copy_to_front item Q =
     do { m \<leftarrow> store_item (pcReadFrom Q) (take (unat (uxItemSize Q)) item) (storage Q);
          let r = pcReadFrom Q - uint (uxItemSize Q);
          Some (Q\<lparr>storage := m, pcReadFrom := (if r < head_offset Q then pcTail Q - uint (uxItemSize Q) else r)\<rparr>) }"

definition prvCopyDataToQueue :: "nat \<Rightarrow> 8 word list \<Rightarrow> copy_position \<Rightarrow> qkernel \<Rightarrow> (bool \<times> qkernel) option" where
  "prvCopyDataToQueue q item xPosition s =
     (let Q = queue s q;
          n = uxMessagesWaiting Q;
          m = (if uxItemSize Q \<noteq> 0 \<and> xPosition = queueOVERWRITE \<and> n > 0 then n - 1 else n)
      in do {
        (y, Q, k) \<leftarrow>
          (if uxItemSize Q = 0
           then if uxQueueType_is_mutex Q
                then do { (y, k) \<leftarrow> xTaskPriorityDisinherit (xMutexHolder Q) (knl s);
                          Some (y, Q\<lparr>xMutexHolder := None\<rparr>, k) }
                else Some (False, Q, knl s)
           else do { Q \<leftarrow> (if xPosition = queueSEND_TO_BACK then copy_to_back item Q else copy_to_front item Q);
                     Some (False, Q, knl s) });
        Some (y, \<lparr>queue = (queue s)(q := Q\<lparr>uxMessagesWaiting := m + 1\<rparr>), knl = k\<rparr>) })"

text \<open>The bytes copied to the caller's buffer are the result.\<close>

definition copy_from :: "Queue_t \<Rightarrow> (8 word list \<times> Queue_t) option" where
  "copy_from Q =
     (if uxItemSize Q = 0 then Some ([], Q)
      else let r = pcReadFrom Q + uint (uxItemSize Q);
               r = (if r \<ge> pcTail Q then head_offset Q else r)
           in do { x \<leftarrow> load_item r (unat (uxItemSize Q)) (storage Q);
                   Some (x, Q\<lparr>pcReadFrom := r\<rparr>) })"

definition prvCopyDataFromQueue :: "nat \<Rightarrow> qkernel \<Rightarrow> (8 word list \<times> qkernel) option" where
  "prvCopyDataFromQueue q s =
     do { (x, Q) \<leftarrow> copy_from (queue s q); Some (x, s\<lparr>queue := (queue s)(q := Q)\<rparr>) }"

section \<open>Waiting tasks and locks\<close>

definition queueYIELD_IF_USING_PREEMPTION :: "qkernel \<Rightarrow> qkernel" where
  "queueYIELD_IF_USING_PREEMPTION s = s\<lparr>knl := portYIELD (knl s)\<rparr>"

text \<open>If the list is not empty its first task is removed; the flag says that it has a higher priority.\<close>

definition wake_first :: "klist \<Rightarrow> qkernel \<Rightarrow> (bool \<times> qkernel) option" where
  "wake_first l s =
     (if listLIST_IS_EMPTY l (knl s) then Some (False, s)
      else do { (y, k) \<leftarrow> xTaskRemoveFromEventList l (knl s); Some (y, s\<lparr>knl := k\<rparr>) })"

definition prvLockQueue :: "nat \<Rightarrow> qkernel \<Rightarrow> qkernel" where
  "prvLockQueue q s =
     upd_queue q (\<lambda>Q. Q\<lparr>cRxLock := (if cRxLock Q = queueUNLOCKED then queueLOCKED_UNMODIFIED else cRxLock Q),
                        cTxLock := (if cTxLock Q = queueUNLOCKED then queueLOCKED_UNMODIFIED else cTxLock Q)\<rparr>) s"

definition uxTaskGetNumberOfTasks :: "kernel \<Rightarrow> 32 word" where
  "uxTaskGetNumberOfTasks k = uxCurrentNumberOfTasks k"

text \<open>The lock is signed: its conversion to \<open>UBaseType_t\<close> extends the sign.\<close>

definition prvIncrementQueueTxLock :: "nat \<Rightarrow> 8 word \<Rightarrow> qkernel \<Rightarrow> qkernel" where
  "prvIncrementQueueTxLock q lock s =
     (if scast lock < uxTaskGetNumberOfTasks (knl s) then upd_queue q (\<lambda>Q. Q\<lparr>cTxLock := lock + 1\<rparr>) s else s)"

definition prvIncrementQueueRxLock :: "nat \<Rightarrow> 8 word \<Rightarrow> qkernel \<Rightarrow> qkernel" where
  "prvIncrementQueueRxLock q lock s =
     (if scast lock < uxTaskGetNumberOfTasks (knl s) then upd_queue q (\<lambda>Q. Q\<lparr>cRxLock := lock + 1\<rparr>) s else s)"

definition prvIsQueueEmpty :: "nat \<Rightarrow> qkernel \<Rightarrow> bool" where
  "prvIsQueueEmpty q s \<longleftrightarrow> uxMessagesWaiting (queue s q) = 0"

definition prvIsQueueFull :: "nat \<Rightarrow> qkernel \<Rightarrow> bool" where
  "prvIsQueueFull q s \<longleftrightarrow> uxMessagesWaiting (queue s q) = uxLength (queue s q)"

text \<open>A handle as the bytes of a pointer, in the byte order of the processor.\<close>

definition handle_bytes :: "nat \<Rightarrow> 8 word list" where
  "handle_bytes q = map (\<lambda>i. ucast (drop_bit (8 * i) (of_nat q :: 32 word))) [0..<4]"

definition bytes_handle :: "8 word list \<Rightarrow> nat" where
  "bytes_handle bs = foldr (\<lambda>b n. unat b + 256 * n) bs 0"

definition prvNotifyQueueSetContainer :: "nat \<Rightarrow> qkernel \<Rightarrow> (bool \<times> qkernel) option" where
  "prvNotifyQueueSetContainer q s =
     do { c \<leftarrow> pxQueueSetContainer (queue s q);
          if uxMessagesWaiting (queue s c) < uxLength (queue s c)
          then do {
            let lock = cTxLock (queue s c);
            (y, s) \<leftarrow> prvCopyDataToQueue c (handle_bytes q) queueSEND_TO_BACK s;
            if lock = queueUNLOCKED
            then do { (w, s) \<leftarrow> wake_first (xTasksWaitingToReceive c) s; Some (y \<or> w, s) }
            else Some (y, prvIncrementQueueTxLock c lock s) }
          else Some (False, s) }"

definition vMissedYield :: "bool \<Rightarrow> qkernel \<Rightarrow> qkernel" where
  "vMissedYield y s = (if y then s\<lparr>knl := vTaskMissedYield (knl s)\<rparr> else s)"

text \<open>The two critical sections of \<open>prvUnlockQueue\<close>; the argument of the loops is the local copy of the lock,
  which is at most 127 when it is positive.\<close>

fun unlock_tx_loop :: "nat \<Rightarrow> nat \<Rightarrow> qkernel \<Rightarrow> qkernel option" where
  "unlock_tx_loop 0 q s = Some s"
| "unlock_tx_loop (Suc n) q s =
     (if pxQueueSetContainer (queue s q) \<noteq> None
      then do { (y, s) \<leftarrow> prvNotifyQueueSetContainer q s; unlock_tx_loop n q (vMissedYield y s) }
      else if listLIST_IS_EMPTY (xTasksWaitingToReceive q) (knl s) then Some s
      else do { (y, s) \<leftarrow> wake_first (xTasksWaitingToReceive q) s; unlock_tx_loop n q (vMissedYield y s) })"

fun unlock_rx_loop :: "nat \<Rightarrow> nat \<Rightarrow> qkernel \<Rightarrow> qkernel option" where
  "unlock_rx_loop 0 q s = Some s"
| "unlock_rx_loop (Suc n) q s =
     (if listLIST_IS_EMPTY (xTasksWaitingToSend q) (knl s) then Some s
      else do { (y, s) \<leftarrow> wake_first (xTasksWaitingToSend q) s; unlock_rx_loop n q (vMissedYield y s) })"

definition lock_count :: "8 word \<Rightarrow> nat" where
  "lock_count l = nat (sint l)"

definition unlock_tx :: "nat \<Rightarrow> qkernel \<Rightarrow> qkernel option" where
  "unlock_tx q s =
     do { s \<leftarrow> unlock_tx_loop (lock_count (cTxLock (queue s q))) q s;
          Some (upd_queue q (\<lambda>Q. Q\<lparr>cTxLock := queueUNLOCKED\<rparr>) s) }"

definition unlock_rx :: "nat \<Rightarrow> qkernel \<Rightarrow> qkernel option" where
  "unlock_rx q s =
     do { s \<leftarrow> unlock_rx_loop (lock_count (cRxLock (queue s q))) q s;
          Some (upd_queue q (\<lambda>Q. Q\<lparr>cRxLock := queueUNLOCKED\<rparr>) s) }"

definition prvUnlockQueue :: "nat \<Rightarrow> qkernel \<Rightarrow> qkernel option" where
  "prvUnlockQueue q s = do { s \<leftarrow> unlock_tx q s; unlock_rx q s }"

section \<open>Creation\<close>

text \<open>The union: \<open>pcTail\<close> lies on \<open>xMutexHolder\<close> and \<open>pcReadFrom\<close> on the recursion count.  For a mutex both
  become \<open>NULL + 0\<close>, no holder and count 0; for a queue the mutex members name no task.\<close>

definition xQueueGenericReset :: "nat \<Rightarrow> bool \<Rightarrow> qkernel \<Rightarrow> (bool \<times> qkernel) option" where
  "xQueueGenericReset q xNewQueue s =
     (let Q = queue s q
      in if uxLength Q \<ge> 1 \<and> (-1) div uxLength Q \<ge> uxItemSize Q
         then do {
           let Q = Q\<lparr>pcTail := head_offset Q + uint (uxLength Q * uxItemSize Q), xMutexHolder := None,
                     uxMessagesWaiting := 0, pcWriteTo := head_offset Q,
                     pcReadFrom := head_offset Q + uint ((uxLength Q - 1) * uxItemSize Q), uxRecursiveCallCount := 0,
                     cRxLock := queueUNLOCKED, cTxLock := queueUNLOCKED\<rparr>;
           let s = s\<lparr>queue := (queue s)(q := Q)\<rparr>;
           s \<leftarrow> (if xNewQueue
                 then Some (s\<lparr>knl := vListInitialise (xTasksWaitingToReceive q) (vListInitialise (xTasksWaitingToSend q) (knl s))\<rparr>)
                 else do { (w, s) \<leftarrow> wake_first (xTasksWaitingToSend q) s;
                           Some (if w then queueYIELD_IF_USING_PREEMPTION s else s) });
           Some (True, s) }
         else Some (False, s))"

text \<open>The structure starts at the handle; the storage area behind it is \<open>pvPortMalloc\<close>'s, contents unknown.\<close>

definition prvInitialiseNewQueue :: "32 word \<Rightarrow> 32 word \<Rightarrow> 8 word list \<Rightarrow> nat \<Rightarrow> qkernel \<Rightarrow> qkernel option" where
  "prvInitialiseNewQueue uxQueueLength uxItemSize' area q s =
     do { let s = upd_queue q (\<lambda>Q. Q\<lparr>pcHead := Some 0, storage := area\<rparr>) s;
          let s = upd_queue q (\<lambda>Q. Q\<lparr>uxLength := uxQueueLength, uxItemSize := uxItemSize'\<rparr>) s;
          (_, s) \<leftarrow> xQueueGenericReset q True s;
          Some (upd_queue q (\<lambda>Q. Q\<lparr>pxQueueSetContainer := None\<rparr>) s) }"

text \<open>The allocator is a parameter: the handle and the bytes behind the structure, or None.\<close>

type_synonym allocator = "32 word \<Rightarrow> (nat \<times> 8 word list) option"

definition xQueueGenericCreate :: "allocator \<Rightarrow> 32 word \<Rightarrow> 32 word \<Rightarrow> qkernel \<Rightarrow> (nat option \<times> qkernel) option" where
  "xQueueGenericCreate pvPortMalloc' uxQueueLength uxItemSize' s =
     (if uxQueueLength > 0 \<and> (-1) div uxQueueLength \<ge> uxItemSize' \<and> -1 - sizeof_Queue_t \<ge> uxQueueLength * uxItemSize'
      then (case pvPortMalloc' (sizeof_Queue_t + uxQueueLength * uxItemSize') of
              None \<Rightarrow> Some (None, s)
            | Some (q, area) \<Rightarrow> do { s \<leftarrow> prvInitialiseNewQueue uxQueueLength uxItemSize' area q s; Some (Some q, s) })
      else Some (None, s))"

section \<open>Sending and receiving\<close>

text \<open>The critical sections that the task versions try first: what happens when there is room or an item.
  The result is None when there is none.\<close>

definition post_item :: "nat \<Rightarrow> 8 word list \<Rightarrow> copy_position \<Rightarrow> qkernel \<Rightarrow> qkernel option" where
  "post_item q item xCopyPosition s =
     do { let previous = uxMessagesWaiting (queue s q);
          (y, s) \<leftarrow> prvCopyDataToQueue q item xCopyPosition s;
          if pxQueueSetContainer (queue s q) \<noteq> None
          then if xCopyPosition = queueOVERWRITE \<and> previous \<noteq> 0 then Some s
               else do { (w, s) \<leftarrow> prvNotifyQueueSetContainer q s;
                         Some (if w then queueYIELD_IF_USING_PREEMPTION s else s) }
          else if \<not> listLIST_IS_EMPTY (xTasksWaitingToReceive q) (knl s)
               then do { (w, s) \<leftarrow> wake_first (xTasksWaitingToReceive q) s;
                         Some (if w then queueYIELD_IF_USING_PREEMPTION s else s) }
          else Some (if y then queueYIELD_IF_USING_PREEMPTION s else s) }"

definition send_attempt :: "nat \<Rightarrow> 8 word list \<Rightarrow> copy_position \<Rightarrow> qkernel \<Rightarrow> (bool \<times> qkernel) option" where
  "send_attempt q item xCopyPosition s =
     (if uxMessagesWaiting (queue s q) < uxLength (queue s q) \<or> xCopyPosition = queueOVERWRITE
      then do { s \<leftarrow> post_item q item xCopyPosition s; Some (True, s) }
      else Some (False, s))"

definition wake_sender :: "nat \<Rightarrow> qkernel \<Rightarrow> qkernel option" where
  "wake_sender q s =
     do { (w, s) \<leftarrow> wake_first (xTasksWaitingToSend q) s; Some (if w then queueYIELD_IF_USING_PREEMPTION s else s) }"

definition receive_attempt :: "nat \<Rightarrow> qkernel \<Rightarrow> (8 word list option \<times> qkernel) option" where
  "receive_attempt q s =
     (let n = uxMessagesWaiting (queue s q)
      in if n > 0
         then do { (x, s) \<leftarrow> prvCopyDataFromQueue q s;
                   s \<leftarrow> wake_sender q (upd_queue q (\<lambda>Q. Q\<lparr>uxMessagesWaiting := n - 1\<rparr>) s);
                   Some (Some x, s) }
         else Some (None, s))"

definition take_attempt :: "nat \<Rightarrow> qkernel \<Rightarrow> (bool \<times> qkernel) option" where
  "take_attempt q s =
     (let n = uxMessagesWaiting (queue s q)
      in if n > 0
         then do { let s = upd_queue q (\<lambda>Q. Q\<lparr>uxMessagesWaiting := n - 1\<rparr>) s;
                   let s = (if uxQueueType_is_mutex (queue s q)
                            then let (h, k) = pvTaskIncrementMutexHeldCount (knl s)
                                 in upd_queue q (\<lambda>Q. Q\<lparr>xMutexHolder := h\<rparr>) (s\<lparr>knl := k\<rparr>)
                            else s);
                   s \<leftarrow> wake_sender q s;
                   Some (True, s) }
         else Some (False, s))"

definition peek_attempt :: "nat \<Rightarrow> qkernel \<Rightarrow> (8 word list option \<times> qkernel) option" where
  "peek_attempt q s =
     (if uxMessagesWaiting (queue s q) > 0
      then do { let original = pcReadFrom (queue s q);
                (x, s) \<leftarrow> prvCopyDataFromQueue q s;
                let s = upd_queue q (\<lambda>Q. Q\<lparr>pcReadFrom := original\<rparr>) s;
                (w, s) \<leftarrow> wake_first (xTasksWaitingToReceive q) s;
                Some (Some x, if w then queueYIELD_IF_USING_PREEMPTION s else s) }
      else Some (None, s))"

section \<open>Blocking\<close>

text \<open>The four blocking functions run the same loop around their attempt.  A call is the operation with its
  arguments; its local state is the place in the loop, \<open>xEntryTimeSet\<close>, \<open>xTimeOut\<close>, \<open>xTicksToWait\<close>
  and \<open>xInheritanceOccurred\<close>.\<close>

datatype qop = Send "8 word list" copy_position | Receive | Take | Peek

datatype reason = Blocked | Retry | TimedOut

datatype qpc = Attempt | Suspend_all | Lock | Check_time_out | Check_again | Inherit_priority | Place | Unlock_tx reason | Unlock_rx reason
  | Resume_all reason | Check_empty | Disinherit | Done "8 word list option"

record qcall =
  pc :: qpc
  xEntryTimeSet :: bool
  xTimeOut :: TimeOut_t
  ticks :: "32 word"
  xInheritanceOccurred :: bool

definition start_call :: "32 word \<Rightarrow> qcall" where
  "start_call xTicksToWait = \<lparr>pc = Attempt, xEntryTimeSet = False, xTimeOut = \<lparr>xOverflowCount = 0, xTimeOnEntering = 0\<rparr>,
     ticks = xTicksToWait, xInheritanceOccurred = False\<rparr>"

fun attempt :: "qop \<Rightarrow> nat \<Rightarrow> qkernel \<Rightarrow> (8 word list option \<times> qkernel) option" where
  "attempt (Send item p) q s = map_option (\<lambda>(b, s). (if b then Some [] else None, s)) (send_attempt q item p s)"
| "attempt Receive q s = receive_attempt q s"
| "attempt Take q s = map_option (\<lambda>(b, s). (if b then Some [] else None, s)) (take_attempt q s)"
| "attempt Peek q s = peek_attempt q s"

text \<open>The test that decides whether the task still has to wait, and the list it waits on.\<close>

fun must_wait :: "qop \<Rightarrow> nat \<Rightarrow> qkernel \<Rightarrow> bool" where
  "must_wait (Send item p) q s = prvIsQueueFull q s"
| "must_wait _ q s = prvIsQueueEmpty q s"

fun wait_list :: "qop \<Rightarrow> nat \<Rightarrow> klist" where
  "wait_list (Send item p) q = xTasksWaitingToSend q"
| "wait_list _ q = xTasksWaitingToReceive q"

definition prvGetDisinheritPriorityAfterTimeout :: "nat \<Rightarrow> qkernel \<Rightarrow> nat" where
  "prvGetDisinheritPriorityAfterTimeout q s =
     (if listCURRENT_LIST_LENGTH (xTasksWaitingToReceive q) (knl s) > 0
      then unat (of_nat configMAX_PRIORITIES - listGET_ITEM_VALUE_OF_HEAD_ENTRY (xTasksWaitingToReceive q) (knl s))
      else 0)"

text \<open>After \<open>xTaskResumeAll\<close> of a task that blocked the switch is requested at once.\<close>

fun queue_step :: "qop \<Rightarrow> nat \<Rightarrow> qcall \<Rightarrow> qkernel \<Rightarrow> (qcall \<times> qkernel) option" where
  "queue_step a q c s =
     (case pc c of
        Attempt \<Rightarrow> do {
          (r, s) \<leftarrow> attempt a q s;
          case r of
            Some x \<Rightarrow> Some (c\<lparr>pc := Done (Some x)\<rparr>, s)
          | None \<Rightarrow>
              Some (if ticks c = 0 then c\<lparr>pc := Done None\<rparr>
                    else if \<not> xEntryTimeSet c
                    then c\<lparr>pc := Suspend_all, xTimeOut := vTaskInternalSetTimeOutState (knl s), xEntryTimeSet := True\<rparr>
                    else c\<lparr>pc := Suspend_all\<rparr>, s) }
      | Suspend_all \<Rightarrow> Some (c\<lparr>pc := Lock\<rparr>, s\<lparr>knl := vTaskSuspendAll (knl s)\<rparr>)
      | Lock \<Rightarrow> Some (c\<lparr>pc := Check_time_out\<rparr>, prvLockQueue q s)
      | Check_time_out \<Rightarrow>
          (let (expired, t, n) = xTaskCheckForTimeOut (xTimeOut c) (ticks c) (knl s);
               c = c\<lparr>xTimeOut := t, ticks := n\<rparr>
           in Some (c\<lparr>pc := (if expired then Unlock_tx TimedOut else Check_again)\<rparr>, s))
      | Check_again \<Rightarrow>
          Some (c\<lparr>pc := (if \<not> must_wait a q s then Unlock_tx Retry
                        else if a = Take \<and> uxQueueType_is_mutex (queue s q) then Inherit_priority else Place)\<rparr>, s)
      | Inherit_priority \<Rightarrow> do {
          (i, k) \<leftarrow> xTaskPriorityInherit (xMutexHolder (queue s q)) (knl s);
          Some (c\<lparr>pc := Place, xInheritanceOccurred := i\<rparr>, s\<lparr>knl := k\<rparr>) }
      | Place \<Rightarrow> do {
          k \<leftarrow> vTaskPlaceOnEventList (wait_list a q) (ticks c) (knl s);
          Some (c\<lparr>pc := Unlock_tx Blocked\<rparr>, s\<lparr>knl := k\<rparr>) }
      | Unlock_tx r \<Rightarrow> do { s \<leftarrow> unlock_tx q s; Some (c\<lparr>pc := Unlock_rx r\<rparr>, s) }
      | Unlock_rx r \<Rightarrow> do { s \<leftarrow> unlock_rx q s; Some (c\<lparr>pc := Resume_all r\<rparr>, s) }
      | Resume_all r \<Rightarrow> do {
          (yielded, k) \<leftarrow> xTaskResumeAll (knl s);
          let k = (if r = Blocked \<and> \<not> yielded then portYIELD k else k);
          Some (c\<lparr>pc := (case r of TimedOut \<Rightarrow> (case a of Send item p \<Rightarrow> Done None | _ \<Rightarrow> Check_empty) | _ \<Rightarrow> Attempt)\<rparr>,
                s\<lparr>knl := k\<rparr>) }
      | Check_empty \<Rightarrow>
          Some (c\<lparr>pc := (if \<not> prvIsQueueEmpty q s then Attempt
                        else if a = Take \<and> xInheritanceOccurred c then Disinherit else Done None)\<rparr>, s)
      | Disinherit \<Rightarrow> do {
          k \<leftarrow> vTaskPriorityDisinheritAfterTimeout (xMutexHolder (queue s q)) (prvGetDisinheritPriorityAfterTimeout q s) (knl s);
          Some (c\<lparr>pc := Done None\<rparr>, s\<lparr>knl := k\<rparr>) }
      | Done x \<Rightarrow> Some (c, s))"

declare queue_step.simps [simp del]

text \<open>A call with block time 0 is its attempt; the functions that send with block time 0 use it.\<close>

definition xQueueGenericSend_0 :: "nat \<Rightarrow> 8 word list \<Rightarrow> qkernel \<Rightarrow> qkernel option" where
  "xQueueGenericSend_0 q item s = map_option snd (send_attempt q item queueSEND_TO_BACK s)"

section \<open>Semaphores and mutexes\<close>

definition prvInitialiseMutex :: "nat option \<Rightarrow> qkernel \<Rightarrow> qkernel option" where
  "prvInitialiseMutex h s =
     (case h of
        None \<Rightarrow> Some s
      | Some q \<Rightarrow>
          xQueueGenericSend_0 q [] (upd_queue q (\<lambda>Q. Q\<lparr>xMutexHolder := None, pcHead := None, uxRecursiveCallCount := 0\<rparr>) s))"

definition xQueueCreateMutex :: "allocator \<Rightarrow> qkernel \<Rightarrow> (nat option \<times> qkernel) option" where
  "xQueueCreateMutex pvPortMalloc' s =
     do { (h, s) \<leftarrow> xQueueGenericCreate pvPortMalloc' 1 0 s;
          s \<leftarrow> prvInitialiseMutex h s;
          Some (h, s) }"

definition xQueueCreateCountingSemaphore :: "allocator \<Rightarrow> 32 word \<Rightarrow> 32 word \<Rightarrow> qkernel \<Rightarrow> (nat option \<times> qkernel) option" where
  "xQueueCreateCountingSemaphore pvPortMalloc' uxMaxCount uxInitialCount s =
     (if uxMaxCount \<noteq> 0 \<and> uxInitialCount \<le> uxMaxCount
      then do { (h, s) \<leftarrow> xQueueGenericCreate pvPortMalloc' uxMaxCount 0 s;
                Some (h, case h of None \<Rightarrow> s | Some q \<Rightarrow> upd_queue q (\<lambda>Q. Q\<lparr>uxMessagesWaiting := uxInitialCount\<rparr>) s) }
      else Some (None, s))"

text \<open>The holder of a queue that is no mutex is a pointer into its storage, no task.\<close>

definition held_by_current :: "nat \<Rightarrow> qkernel \<Rightarrow> bool" where
  "held_by_current q s \<longleftrightarrow> uxQueueType_is_mutex (queue s q) \<and> xMutexHolder (queue s q) = pxCurrentTCB (knl s)"

definition xQueueGiveMutexRecursive :: "nat \<Rightarrow> qkernel \<Rightarrow> (bool \<times> qkernel) option" where
  "xQueueGiveMutexRecursive q s =
     (if held_by_current q s
      then do { let s = upd_queue q (\<lambda>Q. Q\<lparr>uxRecursiveCallCount := uxRecursiveCallCount Q - 1\<rparr>) s;
                s \<leftarrow> (if uxRecursiveCallCount (queue s q) = 0 then xQueueGenericSend_0 q [] s else Some s);
                Some (True, s) }
      else Some (False, s))"

text \<open>\<open>xQueueTakeMutexRecursive\<close> up to the call of \<open>xQueueSemaphoreTake\<close> (True: the mutex is held
  already, nothing to take) and what it does when that call has returned.\<close>

definition xQueueTakeMutexRecursive_enter :: "nat \<Rightarrow> qkernel \<Rightarrow> bool \<times> qkernel" where
  "xQueueTakeMutexRecursive_enter q s =
     (if held_by_current q s
      then (True, upd_queue q (\<lambda>Q. Q\<lparr>uxRecursiveCallCount := uxRecursiveCallCount Q + 1\<rparr>) s)
      else (False, s))"

definition xQueueTakeMutexRecursive_leave :: "bool \<Rightarrow> nat \<Rightarrow> qkernel \<Rightarrow> qkernel" where
  "xQueueTakeMutexRecursive_leave taken q s =
     (if taken then upd_queue q (\<lambda>Q. Q\<lparr>uxRecursiveCallCount := uxRecursiveCallCount Q + 1\<rparr>) s else s)"

section \<open>Interrupt versions\<close>

text \<open>Results: success, \<open>*pxHigherPriorityTaskWoken\<close> set, new state.\<close>

definition notify_or_lock :: "nat \<Rightarrow> 8 word \<Rightarrow> bool \<Rightarrow> qkernel \<Rightarrow> (bool \<times> qkernel) option" where
  "notify_or_lock q lock replaced s =
     (if lock = queueUNLOCKED
      then if pxQueueSetContainer (queue s q) \<noteq> None
           then if replaced then Some (False, s) else prvNotifyQueueSetContainer q s
           else wake_first (xTasksWaitingToReceive q) s
      else Some (False, prvIncrementQueueTxLock q lock s))"

definition xQueueGenericSendFromISR :: "nat \<Rightarrow> 8 word list \<Rightarrow> copy_position \<Rightarrow> qkernel \<Rightarrow> (bool \<times> bool \<times> qkernel) option" where
  "xQueueGenericSendFromISR q item xCopyPosition s =
     (if uxMessagesWaiting (queue s q) < uxLength (queue s q) \<or> xCopyPosition = queueOVERWRITE
      then do { let lock = cTxLock (queue s q);
                let previous = uxMessagesWaiting (queue s q);
                (_, s) \<leftarrow> prvCopyDataToQueue q item xCopyPosition s;
                (w, s) \<leftarrow> notify_or_lock q lock (xCopyPosition = queueOVERWRITE \<and> previous \<noteq> 0) s;
                Some (True, w, s) }
      else Some (False, False, s))"

definition xQueueGiveFromISR :: "nat \<Rightarrow> qkernel \<Rightarrow> (bool \<times> bool \<times> qkernel) option" where
  "xQueueGiveFromISR q s =
     (let n = uxMessagesWaiting (queue s q)
      in if n < uxLength (queue s q)
         then do { let lock = cTxLock (queue s q);
                   let s = upd_queue q (\<lambda>Q. Q\<lparr>uxMessagesWaiting := n + 1\<rparr>) s;
                   (w, s) \<leftarrow> notify_or_lock q lock False s;
                   Some (True, w, s) }
         else Some (False, False, s))"

definition xQueueReceiveFromISR :: "nat \<Rightarrow> qkernel \<Rightarrow> (8 word list option \<times> bool \<times> qkernel) option" where
  "xQueueReceiveFromISR q s =
     (let n = uxMessagesWaiting (queue s q)
      in if n > 0
         then do { let lock = cRxLock (queue s q);
                   (x, s) \<leftarrow> prvCopyDataFromQueue q s;
                   let s = upd_queue q (\<lambda>Q. Q\<lparr>uxMessagesWaiting := n - 1\<rparr>) s;
                   (w, s) \<leftarrow> (if lock = queueUNLOCKED then wake_first (xTasksWaitingToSend q) s
                             else Some (False, prvIncrementQueueRxLock q lock s));
                   Some (Some x, w, s) }
         else Some (None, False, s))"

definition xQueuePeekFromISR :: "nat \<Rightarrow> qkernel \<Rightarrow> (8 word list option \<times> qkernel) option" where
  "xQueuePeekFromISR q s =
     (if uxMessagesWaiting (queue s q) > 0
      then do { let original = pcReadFrom (queue s q);
                (x, s) \<leftarrow> prvCopyDataFromQueue q s;
                Some (Some x, upd_queue q (\<lambda>Q. Q\<lparr>pcReadFrom := original\<rparr>) s) }
      else Some (None, s))"

section \<open>Queries, restricted waiting and sets\<close>

definition uxQueueMessagesWaiting :: "nat \<Rightarrow> qkernel \<Rightarrow> 32 word" where
  "uxQueueMessagesWaiting q s = uxMessagesWaiting (queue s q)"

definition uxQueueSpacesAvailable :: "nat \<Rightarrow> qkernel \<Rightarrow> 32 word" where
  "uxQueueSpacesAvailable q s = uxLength (queue s q) - uxMessagesWaiting (queue s q)"

definition uxQueueMessagesWaitingFromISR :: "nat \<Rightarrow> qkernel \<Rightarrow> 32 word" where
  "uxQueueMessagesWaitingFromISR q s = uxMessagesWaiting (queue s q)"

definition xQueueIsQueueEmptyFromISR :: "nat \<Rightarrow> qkernel \<Rightarrow> bool" where
  "xQueueIsQueueEmptyFromISR q s \<longleftrightarrow> uxMessagesWaiting (queue s q) = 0"

definition xQueueIsQueueFullFromISR :: "nat \<Rightarrow> qkernel \<Rightarrow> bool" where
  "xQueueIsQueueFullFromISR q s \<longleftrightarrow> uxMessagesWaiting (queue s q) = uxLength (queue s q)"

text \<open>Called by the timer task with the scheduler suspended.\<close>

definition vQueueWaitForMessageRestricted :: "nat \<Rightarrow> 32 word \<Rightarrow> bool \<Rightarrow> qkernel \<Rightarrow> qkernel option" where
  "vQueueWaitForMessageRestricted q xTicksToWait xWaitIndefinitely s =
     do { let s = prvLockQueue q s;
          s \<leftarrow> (if uxMessagesWaiting (queue s q) = 0
                then do { k \<leftarrow> vTaskPlaceOnEventListRestricted (xTasksWaitingToReceive q) xTicksToWait xWaitIndefinitely (knl s);
                          Some (s\<lparr>knl := k\<rparr>) }
                else Some s);
          prvUnlockQueue q s }"

definition xQueueCreateSet :: "allocator \<Rightarrow> 32 word \<Rightarrow> qkernel \<Rightarrow> (nat option \<times> qkernel) option" where
  "xQueueCreateSet pvPortMalloc' uxEventQueueLength s = xQueueGenericCreate pvPortMalloc' uxEventQueueLength 4 s"

definition xQueueAddToSet :: "nat \<Rightarrow> nat \<Rightarrow> qkernel \<Rightarrow> bool \<times> qkernel" where
  "xQueueAddToSet q qset s =
     (if pxQueueSetContainer (queue s q) \<noteq> None then (False, s)
      else if uxMessagesWaiting (queue s q) \<noteq> 0 then (False, s)
      else (True, upd_queue q (\<lambda>Q. Q\<lparr>pxQueueSetContainer := Some qset\<rparr>) s))"

definition xQueueRemoveFromSet :: "nat \<Rightarrow> nat \<Rightarrow> qkernel \<Rightarrow> bool \<times> qkernel" where
  "xQueueRemoveFromSet q qset s =
     (if pxQueueSetContainer (queue s q) \<noteq> Some qset then (False, s)
      else if uxMessagesWaiting (queue s q) \<noteq> 0 then (False, s)
      else (True, upd_queue q (\<lambda>Q. Q\<lparr>pxQueueSetContainer := None\<rparr>) s))"

text \<open>The handle that \<open>xQueueSelectFromSet\<close> returns, from the bytes its receive call delivered (NULL is None).\<close>

definition xQueueSelectFromSet_result :: "8 word list option \<Rightarrow> nat option" where
  "xQueueSelectFromSet_result r = map_option bytes_handle r"

definition xQueueSelectFromSetFromISR :: "nat \<Rightarrow> qkernel \<Rightarrow> (nat option \<times> qkernel) option" where
  "xQueueSelectFromSetFromISR qset s =
     do { (r, _, s) \<leftarrow> xQueueReceiveFromISR qset s; Some (xQueueSelectFromSet_result r, s) }"

end
