(* ===== verification/FRRing.thy ===== *)
theory FRRing
  imports FRQueue
begin

text \<open>
  The storage of a queue as a ring buffer: well-formed pointers, the list of items it holds, and what the
  copy functions of \<open>queue.c\<close> do to that list.
\<close>

section \<open>The ring buffer\<close>

definition item_size :: "Queue_t \<Rightarrow> nat" where
  "item_size Q = unat (uxItemSize Q)"

definition slots :: "Queue_t \<Rightarrow> nat" where
  "slots Q = unat (uxLength Q)"

definition fill :: "Queue_t \<Rightarrow> nat" where
  "fill Q = unat (uxMessagesWaiting Q)"

definition read_slot :: "Queue_t \<Rightarrow> nat" where
  "read_slot Q = nat (pcReadFrom Q) div item_size Q"

definition write_slot :: "Queue_t \<Rightarrow> nat" where
  "write_slot Q = nat (pcWriteTo Q) div item_size Q"

definition slot :: "nat \<Rightarrow> 8 word list \<Rightarrow> nat \<Rightarrow> 8 word list" where
  "slot n m j = take n (drop (j * n) m)"

text \<open>The pointers stand at slots of the storage area, and the write pointer \<open>fill\<close> slots behind the one
  that is read next.\<close>

definition ring_ok :: "Queue_t \<Rightarrow> bool" where
  "ring_ok Q \<longleftrightarrow> pcHead Q = Some 0 \<and> 0 < item_size Q \<and> 0 < slots Q \<and> slots Q * item_size Q < 2 ^ 32 \<and>
     slots Q * item_size Q \<le> length (storage Q) \<and> pcTail Q = int (slots Q * item_size Q) \<and>
     pcWriteTo Q = int (write_slot Q * item_size Q) \<and> pcReadFrom Q = int (read_slot Q * item_size Q) \<and>
     read_slot Q < slots Q \<and> fill Q \<le> slots Q \<and> write_slot Q = (read_slot Q + 1 + fill Q) mod slots Q"

text \<open>The items in the order in which they will be received.\<close>

definition contents :: "Queue_t \<Rightarrow> 8 word list list" where
  "contents Q = map (\<lambda>i. slot (item_size Q) (storage Q) ((read_slot Q + 1 + i) mod slots Q)) [0..<fill Q]"

lemma length_contents [simp]: "length (contents Q) = fill Q"
  by (simp add: contents_def)

lemma nth_contents: "i < fill Q \<Longrightarrow> contents Q ! i = slot (item_size Q) (storage Q) ((read_slot Q + 1 + i) mod slots Q)"
  by (simp add: contents_def)

lemma slot_bounds:
  assumes "j < n" "n * s \<le> length m"
  shows "j * s + s \<le> length m"
proof -
  have "Suc j * s \<le> n * s" using assms(1) by (intro mult_le_mono1) simp
  then show ?thesis using assms(2) by simp
qed

lemma slot_overwrite:
  assumes "i < n" "j < n" "n * s \<le> length m" "length x = s"
  shows "slot s (overwrite m (i * s) x) j = (if i = j then x else slot s m j)"
proof (cases "i = j")
  case True
  then show ?thesis using slot_bounds[OF assms(1,3)] assms(4) by (simp add: slot_def overwrite_def)
next
  case False
  note b = slot_bounds[OF assms(1,3)] slot_bounds[OF assms(2,3)]
  have far: "Suc i * s \<le> j * s \<or> Suc j * s \<le> i * s" using False by (metis linorder_neq_iff mult_le_mono1 Suc_leI)
  have "slot s (overwrite m (i * s) x) j = slot s m j"
    unfolding slot_def
  proof (rule nth_equalityI)
    show "length (take s (drop (j * s) (overwrite m (i * s) x))) = length (take s (drop (j * s) m))"
      using b assms(4) by simp
    show "take s (drop (j * s) (overwrite m (i * s) x)) ! p = take s (drop (j * s) m) ! p"
      if "p < length (take s (drop (j * s) (overwrite m (i * s) x)))" for p
    proof -
      have "p < s" using that by simp
      then show ?thesis using far b assms(4) by (auto simp: nth_overwrite)
    qed
  qed
  then show ?thesis using False by simp
qed

lemma mod_shift_neq: "i < j \<Longrightarrow> j - i < n \<Longrightarrow> (a + i) mod n \<noteq> (a + j) mod (n :: nat)"
  by (metis add_diff_cancel_left dvd_imp_le less_imp_le mod_eq_dvd_iff_nat nat_add_left_cancel_le not_less zero_less_diff)

lemma wrap_back:
  assumes "(s :: nat) > 0" "w < n"
  shows "(if int (w * s) + int s \<ge> int (n * s) then 0 else int (w * s) + int s) = int ((w + 1) mod n * s)"
proof -
  have "int (w * s) + int s \<ge> int (n * s) \<longleftrightarrow> n * s \<le> (w + 1) * s" by (simp add: add.commute flip: of_nat_add of_nat_mult)
  also have "\<dots> \<longleftrightarrow> n = w + 1" using assms by (subst mult_le_cancel2) auto
  finally show ?thesis using assms(2) by (auto simp: algebra_simps)
qed

lemma wrap_front:
  assumes "(s :: nat) > 0" "r < n"
  shows "(if int (r * s) - int s < 0 then int (n * s) - int s else int (r * s) - int s) = int ((r + n - 1) mod n * s)"
proof (cases r)
  case 0
  then show ?thesis using assms by (cases n) (simp_all add: algebra_simps)
next
  case (Suc q)
  then have "(r + n - 1) mod n = q" using assms(2) by (simp add: mod_add_self2)
  then show ?thesis using Suc by (simp add: algebra_simps mult_less_0_iff)
qed

lemma ring_fields [simp]:
  "item_size (Q\<lparr>storage := m\<rparr>) = item_size Q" "item_size (Q\<lparr>pcWriteTo := w\<rparr>) = item_size Q"
  "item_size (Q\<lparr>pcReadFrom := w\<rparr>) = item_size Q" "item_size (Q\<lparr>uxMessagesWaiting := n\<rparr>) = item_size Q"
  "slots (Q\<lparr>storage := m\<rparr>) = slots Q" "slots (Q\<lparr>pcWriteTo := w\<rparr>) = slots Q"
  "slots (Q\<lparr>pcReadFrom := w\<rparr>) = slots Q" "slots (Q\<lparr>uxMessagesWaiting := n\<rparr>) = slots Q"
  "fill (Q\<lparr>storage := m\<rparr>) = fill Q" "fill (Q\<lparr>pcWriteTo := w\<rparr>) = fill Q"
  "fill (Q\<lparr>pcReadFrom := w\<rparr>) = fill Q" "fill (Q\<lparr>uxMessagesWaiting := n\<rparr>) = unat n"
  by (simp_all add: item_size_def slots_def fill_def)

lemma slot_fields:
  "read_slot (Q\<lparr>storage := m\<rparr>) = read_slot Q" "read_slot (Q\<lparr>pcWriteTo := w\<rparr>) = read_slot Q"
  "read_slot (Q\<lparr>uxMessagesWaiting := n\<rparr>) = read_slot Q"
  "write_slot (Q\<lparr>storage := m\<rparr>) = write_slot Q" "write_slot (Q\<lparr>pcReadFrom := w\<rparr>) = write_slot Q"
  "write_slot (Q\<lparr>uxMessagesWaiting := n\<rparr>) = write_slot Q"
  by (simp_all add: read_slot_def write_slot_def)

lemma read_slotI: "pcReadFrom Q = int (r * item_size Q) \<Longrightarrow> 0 < item_size Q \<Longrightarrow> read_slot Q = r"
  by (simp add: read_slot_def nat_mult_distrib)

lemma write_slotI: "pcWriteTo Q = int (w * item_size Q) \<Longrightarrow> 0 < item_size Q \<Longrightarrow> write_slot Q = w"
  by (simp add: write_slot_def nat_mult_distrib)

lemma ringD:
  assumes "ring_ok Q"
  shows "head_offset Q = 0" "0 < item_size Q" "0 < slots Q" "slots Q * item_size Q \<le> length (storage Q)"
    "pcTail Q = int (slots Q * item_size Q)" "pcWriteTo Q = int (write_slot Q * item_size Q)"
    "pcReadFrom Q = int (read_slot Q * item_size Q)" "read_slot Q < slots Q" "write_slot Q < slots Q" "fill Q \<le> slots Q"
    "write_slot Q = (read_slot Q + 1 + fill Q) mod slots Q" "uxItemSize Q \<noteq> 0" "pcHead Q = Some 0"
  using assms by (auto simp: ring_ok_def head_offset_def item_size_def)

lemma size_words: "unat (uxItemSize Q) = item_size Q" "uint (uxItemSize Q) = int (item_size Q)"
  by (simp_all add: item_size_def)

text \<open>A full fill is below the modulus, so that adding one does not wrap.\<close>

lemma fill_plus_1: "fill Q < slots Q \<Longrightarrow> unat (uxMessagesWaiting Q + 1) = fill Q + 1"
  using unat_less_32[of "uxLength Q"] by (simp add: fill_def slots_def unat_word_ariths)

lemma copy_to_back_ring:
  assumes ring_ok: "ring_ok Q" and room: "fill Q < slots Q" and item: "length item \<ge> item_size Q"
  shows "\<exists>m w. copy_to_back item Q = Some (Q\<lparr>storage := m, pcWriteTo := w\<rparr>) \<and> length m = length (storage Q) \<and>
    (let Q' = Q\<lparr>storage := m, pcWriteTo := w, uxMessagesWaiting := uxMessagesWaiting Q + 1\<rparr>
     in ring_ok Q' \<and> contents Q' = contents Q @ [take (item_size Q) item])"
proof -
  note d = ringD[OF ring_ok] and sizes = size_words[of Q]
  let ?s = "item_size Q" and ?n = "slots Q" and ?w = "write_slot Q" and ?r = "read_slot Q"
  let ?m = "overwrite (storage Q) (?w * ?s) (take ?s item)" and ?v = "(?w + 1) mod ?n"
  let ?Q = "Q\<lparr>storage := ?m, pcWriteTo := int (?v * ?s), uxMessagesWaiting := uxMessagesWaiting Q + 1\<rparr>"
  have len: "length (take ?s item) = ?s" using item by simp
  have b: "?w * ?s + ?s \<le> length (storage Q)" by (rule slot_bounds[OF d(9,4)])
  have store: "store_item (pcWriteTo Q) (take ?s item) (storage Q) = Some ?m"
    using b len by (simp add: store_item_def d(6) wrs_in nat_mult_distrib del: of_nat_mult)
  have wrap: "(if pcWriteTo Q + uint (uxItemSize Q) \<ge> pcTail Q then head_offset Q else pcWriteTo Q + uint (uxItemSize Q)) = int (?v * ?s)"
    using wrap_back[OF d(2,9)] unfolding d(1,5,6) sizes .
  have run: "copy_to_back item Q = Some (Q\<lparr>storage := ?m, pcWriteTo := int (?v * ?s)\<rparr>)"
    unfolding copy_to_back_def Let_def wrap sizes(1) store by simp
  have c: "unat (uxMessagesWaiting Q + 1) = fill Q + 1" by (rule fill_plus_1[OF room])
  have wr: "?v = (?r + 1 + (fill Q + 1)) mod ?n" using d(11) by (simp add: mod_Suc_eq)
  have f: "read_slot ?Q = ?r" "write_slot ?Q = ?v" "item_size ?Q = ?s" "slots ?Q = ?n" "fill ?Q = fill Q + 1"
    using c write_slotI[of ?Q ?v] d(2) by (simp_all add: slot_fields del: of_nat_mult)
  have "ring_ok ?Q" unfolding ring_ok_def f using ring_ok room wr b len d by (simp add: ring_ok_def)
  moreover have "contents ?Q = contents Q @ [take ?s item]"
  proof (rule nth_equalityI)
    show "contents ?Q ! i = (contents Q @ [take ?s item]) ! i" if "i < length (contents ?Q)" for i
    proof -
      have i: "i < fill Q + 1" using that f by simp
      let ?j = "(?r + 1 + i) mod ?n"
      have j: "?j < ?n" using d(3) by simp
      have "contents ?Q ! i = slot ?s ?m ?j" using i nth_contents[of i ?Q] unfolding f by simp
      also have "\<dots> = (if ?w = ?j then take ?s item else slot ?s (storage Q) ?j)" by (rule slot_overwrite[OF d(9) j d(4) len])
      finally show ?thesis
        using i d(11) mod_shift_neq[of i "fill Q" ?n "?r + 1"] less_imp_diff_less[OF room]
        by (cases "i = fill Q") (auto simp: nth_append nth_contents)
    qed
  qed (use f in simp)
  ultimately show ?thesis using run b len by (intro exI[of _ ?m] exI[of _ "int (?v * ?s)"]) (simp add: Let_def)
qed

lemma copy_to_front_ring:
  assumes ring_ok: "ring_ok Q" and room: "fill Q < slots Q" and item: "length item \<ge> item_size Q"
  shows "\<exists>m r. copy_to_front item Q = Some (Q\<lparr>storage := m, pcReadFrom := r\<rparr>) \<and> length m = length (storage Q) \<and>
    (let Q' = Q\<lparr>storage := m, pcReadFrom := r, uxMessagesWaiting := uxMessagesWaiting Q + 1\<rparr>
     in ring_ok Q' \<and> contents Q' = take (item_size Q) item # contents Q)"
proof -
  note d = ringD[OF ring_ok] and sizes = size_words[of Q]
  let ?s = "item_size Q" and ?n = "slots Q" and ?w = "write_slot Q" and ?r = "read_slot Q"
  let ?m = "overwrite (storage Q) (?r * ?s) (take ?s item)" and ?v = "(?r + ?n - 1) mod ?n"
  let ?Q = "Q\<lparr>storage := ?m, pcReadFrom := int (?v * ?s), uxMessagesWaiting := uxMessagesWaiting Q + 1\<rparr>"
  have len: "length (take ?s item) = ?s" using item by simp
  have b: "?r * ?s + ?s \<le> length (storage Q)" by (rule slot_bounds[OF d(8,4)])
  have store: "store_item (pcReadFrom Q) (take ?s item) (storage Q) = Some ?m"
    using b len by (simp add: store_item_def d(7) wrs_in nat_mult_distrib del: of_nat_mult)
  have wrap: "(if pcReadFrom Q - uint (uxItemSize Q) < head_offset Q then pcTail Q - uint (uxItemSize Q)
      else pcReadFrom Q - uint (uxItemSize Q)) = int (?v * ?s)"
    using wrap_front[OF d(2,8)] unfolding d(1,5,7) sizes .
  have run: "copy_to_front item Q = Some (Q\<lparr>storage := ?m, pcReadFrom := int (?v * ?s)\<rparr>)"
    unfolding copy_to_front_def Let_def wrap sizes(1) store by simp
  have c: "unat (uxMessagesWaiting Q + 1) = fill Q + 1" by (rule fill_plus_1[OF room])
  have v: "(?v + 1 + i) mod ?n = (?r + i) mod ?n" for i
  proof -
    have "(?v + 1 + i) mod ?n = (?r + ?n - 1 + 1 + i) mod ?n" by (metis mod_add_left_eq add.assoc)
    also have "?r + ?n - 1 + 1 + i = ?n + (?r + i)" using d(3) by simp
    finally show ?thesis by simp
  qed
  have wr: "?w = (?v + 1 + (fill Q + 1)) mod ?n" using d(11) unfolding v by simp
  have f: "read_slot ?Q = ?v" "write_slot ?Q = ?w" "item_size ?Q = ?s" "slots ?Q = ?n" "fill ?Q = fill Q + 1"
    using c read_slotI[of ?Q ?v] d(2) by (simp_all add: slot_fields del: of_nat_mult)
  have "ring_ok ?Q" unfolding ring_ok_def f using ring_ok room wr b len d by (simp add: ring_ok_def)
  moreover have "contents ?Q = take ?s item # contents Q"
  proof (rule nth_equalityI)
    show "contents ?Q ! i = (take ?s item # contents Q) ! i" if "i < length (contents ?Q)" for i
    proof -
      have i: "i < fill Q + 1" using that f by simp
      let ?j = "(?r + i) mod ?n"
      have j: "?j < ?n" using d(3) by simp
      have "contents ?Q ! i = slot ?s ?m ?j" using i v[of i] nth_contents[of i ?Q] unfolding f by simp
      also have "\<dots> = (if ?r = ?j then take ?s item else slot ?s (storage Q) ?j)" by (rule slot_overwrite[OF d(8) j d(4) len])
      finally show ?thesis
        using i d(8) mod_shift_neq[of 0 i ?n ?r] room
        by (cases i) (auto simp: nth_contents)
    qed
  qed (use f in simp)
  ultimately show ?thesis using run b len by (intro exI[of _ ?m] exI[of _ "int (?v * ?s)"]) (simp add: Let_def)
qed

lemma copy_from_ring:
  assumes ring_ok: "ring_ok Q" and some: "0 < fill Q"
  shows "\<exists>x r. copy_from Q = Some (x, Q\<lparr>pcReadFrom := r\<rparr>) \<and> length x = item_size Q \<and> x = hd (contents Q) \<and>
    (let Q' = Q\<lparr>pcReadFrom := r, uxMessagesWaiting := uxMessagesWaiting Q - 1\<rparr> in ring_ok Q' \<and> contents Q' = tl (contents Q))"
proof -
  note d = ringD[OF ring_ok] and sizes = size_words[of Q]
  let ?s = "item_size Q" and ?n = "slots Q" and ?w = "write_slot Q" and ?r = "read_slot Q"
  let ?v = "(?r + 1) mod ?n"
  let ?x = "slot ?s (storage Q) ?v"
  let ?Q = "Q\<lparr>pcReadFrom := int (?v * ?s), uxMessagesWaiting := uxMessagesWaiting Q - 1\<rparr>"
  have v: "?v < ?n" using d(3) by simp
  have b: "?v * ?s + ?s \<le> length (storage Q)" by (rule slot_bounds[OF v d(4)])
  have wrap: "(if pcReadFrom Q + uint (uxItemSize Q) \<ge> pcTail Q then head_offset Q else pcReadFrom Q + uint (uxItemSize Q)) = int (?v * ?s)"
    using wrap_back[OF d(2,8)] unfolding d(1,5,7) sizes .
  have load: "load_item (int (?v * ?s)) ?s (storage Q) = Some ?x"
    using b by (simp add: load_item_def slot_def nat_mult_distrib del: of_nat_mult)
  have run: "copy_from Q = Some (?x, Q\<lparr>pcReadFrom := int (?v * ?s)\<rparr>)"
    unfolding copy_from_def Let_def wrap sizes(1) load using d(12) by simp
  have c: "unat (uxMessagesWaiting Q - 1) = fill Q - 1" using some by (simp add: fill_def unat_minus_one unat_gt_0)
  have f: "read_slot ?Q = ?v" "write_slot ?Q = ?w" "item_size ?Q = ?s" "slots ?Q = ?n" "fill ?Q = fill Q - 1"
    using c read_slotI[of ?Q ?v] d(2) by (simp_all add: slot_fields del: of_nat_mult)
  have shift: "(?v + 1 + i) mod ?n = (?r + 1 + (i + 1)) mod ?n" for i by (metis add.assoc add.commute mod_add_left_eq)
  have wr: "?w = (?v + 1 + (fill Q - 1)) mod ?n" using d(11) some unfolding shift by simp
  have "ring_ok ?Q" unfolding ring_ok_def f using ring_ok some wr v le_trans[OF diff_le_self d(10), of 1] by (simp add: ring_ok_def)
  moreover have "contents ?Q = tl (contents Q)"
  proof (rule nth_equalityI)
    show "contents ?Q ! i = tl (contents Q) ! i" if "i < length (contents ?Q)" for i
    proof -
      have i: "i + 1 < fill Q" using that f by simp
      then show ?thesis using nth_contents[of i ?Q] nth_contents[of "i + 1" Q] unfolding f
        by (simp add: nth_tl shift[simplified])
    qed
  qed (use f in simp)
  moreover have "?x = hd (contents Q)" using some nth_contents[of 0 Q] by (simp add: hd_conv_nth flip: length_greater_0_conv)
  moreover have "length ?x = ?s" using b by (simp add: slot_def)
  ultimately show ?thesis using run by (intro exI[of _ ?x] exI[of _ "int (?v * ?s)"]) (simp add: Let_def)
qed

section \<open>Semaphores and queues alike\<close>

text \<open>A counting or binary semaphore is a queue of empty items.\<close>

definition semaphore :: "Queue_t \<Rightarrow> bool" where
  "semaphore Q \<longleftrightarrow> uxItemSize Q = 0 \<and> pcHead Q = Some 0 \<and> 0 < slots Q \<and> fill Q \<le> slots Q"

definition buffer :: "Queue_t \<Rightarrow> bool" where
  "buffer Q \<longleftrightarrow> ring_ok Q \<or> semaphore Q"

lemma bufferD:
  assumes "buffer Q"
  shows "0 < slots Q" "fill Q \<le> slots Q" "pcHead Q = Some 0" "\<not> uxQueueType_is_mutex Q"
  using assms by (auto simp: buffer_def semaphore_def ring_ok_def uxQueueType_is_mutex_def)

lemma semaphore_contents: "uxItemSize Q = 0 \<Longrightarrow> contents Q = replicate (fill Q) []"
  by (simp add: contents_def slot_def item_size_def map_replicate_const)

fun put :: "copy_position \<Rightarrow> 'a \<Rightarrow> 'a list \<Rightarrow> 'a list" where
  "put queueSEND_TO_BACK x xs = xs @ [x]"
| "put queueSEND_TO_FRONT x xs = x # xs"
| "put queueOVERWRITE x xs = [x]"

text \<open>Whether an item can be put: there is room, or it replaces the item of a queue of length one.\<close>

definition can_put :: "copy_position \<Rightarrow> Queue_t \<Rightarrow> bool" where
  "can_put p Q \<longleftrightarrow> (if p = queueOVERWRITE then slots Q = 1 \<and> uxItemSize Q \<noteq> 0 else fill Q < slots Q)"

text \<open>What a copy may change of a queue.\<close>

definition copied :: "Queue_t \<Rightarrow> Queue_t \<Rightarrow> bool" where
  "copied Q Q' \<longleftrightarrow> Q' = Q\<lparr>pcWriteTo := pcWriteTo Q', pcReadFrom := pcReadFrom Q', uxMessagesWaiting := uxMessagesWaiting Q',
     storage := storage Q'\<rparr>"

lemma copiedD:
  assumes "copied Q Q'"
  shows "pcHead Q' = pcHead Q" "xMutexHolder Q' = xMutexHolder Q" "uxRecursiveCallCount Q' = uxRecursiveCallCount Q"
    "uxLength Q' = uxLength Q" "uxItemSize Q' = uxItemSize Q" "cRxLock Q' = cRxLock Q" "cTxLock Q' = cTxLock Q"
    "pxQueueSetContainer Q' = pxQueueSetContainer Q" "slots Q' = slots Q" "item_size Q' = item_size Q"
  using assms unfolding copied_def slots_def item_size_def by (cases Q; cases Q'; simp)+

lemma copy_to_front_messages:
  "copy_to_front item (Q\<lparr>uxMessagesWaiting := n\<rparr>) = map_option (\<lambda>Q. Q\<lparr>uxMessagesWaiting := n\<rparr>) (copy_to_front item Q)"
  by (simp add: copy_to_front_def Let_def head_offset_def split: option.split bind_split)

lemma overwrite_ring:
  assumes ring_ok: "ring_ok Q" and one: "slots Q = 1" and item: "length item \<ge> item_size Q"
  shows "\<exists>m r. copy_to_front item Q = Some (Q\<lparr>storage := m, pcReadFrom := r\<rparr>) \<and>
    (let Q' = Q\<lparr>storage := m, pcReadFrom := r, uxMessagesWaiting := 1\<rparr> in ring_ok Q' \<and> contents Q' = [take (item_size Q) item])"
proof -
  let ?Q = "Q\<lparr>uxMessagesWaiting := 0\<rparr>"
  have "ring_ok ?Q" using ring_ok one by (auto simp: ring_ok_def slot_fields)
  then obtain m r where r: "copy_to_front item ?Q = Some (?Q\<lparr>storage := m, pcReadFrom := r\<rparr>)"
    "ring_ok (?Q\<lparr>storage := m, pcReadFrom := r, uxMessagesWaiting := 1\<rparr>)"
    "contents (?Q\<lparr>storage := m, pcReadFrom := r, uxMessagesWaiting := 1\<rparr>) = take (item_size Q) item # contents ?Q"
    using copy_to_front_ring[of ?Q item] one item by (auto simp: Let_def)
  obtain Q1 where Q1: "copy_to_front item Q = Some Q1" "Q1\<lparr>uxMessagesWaiting := 0\<rparr> = ?Q\<lparr>storage := m, pcReadFrom := r\<rparr>"
    using r(1) unfolding copy_to_front_messages by auto
  have "uxMessagesWaiting Q1 = uxMessagesWaiting Q"
    using Q1(1) by (auto simp: copy_to_front_def Let_def split: bind_splits)
  then have "Q1 = Q\<lparr>storage := m, pcReadFrom := r\<rparr>" using Q1(2) by (cases Q1; cases Q) simp
  moreover have "contents ?Q = []" by (simp add: contents_def)
  ultimately show ?thesis using Q1(1) r(2,3) by (intro exI[of _ m] exI[of _ r]) (simp add: Let_def)
qed

lemma put_result:
  assumes b: "buffer (queue s q)" and room: "can_put p (queue s q)" and item: "length item \<ge> item_size (queue s q)"
  shows "\<exists>Q. prvCopyDataToQueue q item p s = Some (False, s\<lparr>queue := (queue s)(q := Q)\<rparr>) \<and> buffer Q \<and> copied (queue s q) Q \<and>
    contents Q = put p (take (item_size (queue s q)) item) (contents (queue s q))"
proof (cases "uxItemSize (queue s q) = 0")
  case True
  let ?Q = "queue s q"
  let ?R = "?Q\<lparr>uxMessagesWaiting := uxMessagesWaiting ?Q + 1\<rparr>"
  have p: "p \<noteq> queueOVERWRITE" "fill ?Q < slots ?Q" using room True by (auto simp: can_put_def split: if_splits)
  have f: "fill ?R = fill ?Q + 1" using fill_plus_1[OF p(2)] by simp
  have "semaphore ?R" using b True p(2) f by (auto simp: buffer_def semaphore_def ring_ok_def item_size_def)
  moreover have "contents ?R = put p (take (item_size ?Q) item) (contents ?Q)"
    using p(1) f True by (cases p) (simp_all add: semaphore_contents item_size_def replicate_append_same)
  moreover have "prvCopyDataToQueue q item p s = Some (False, s\<lparr>queue := (queue s)(q := ?R)\<rparr>)"
    using True bufferD(4)[OF b] by (cases s) (simp add: prvCopyDataToQueue_def Let_def)
  ultimately show ?thesis by (intro exI[of _ ?R]) (simp add: buffer_def copied_def)
next
  case False
  let ?Q = "queue s q"
  have ring_ok: "ring_ok ?Q" using b False by (simp add: buffer_def semaphore_def)
  have run: "prvCopyDataToQueue q item p s = Some (False, s\<lparr>queue := (queue s)(q := R\<lparr>uxMessagesWaiting := n + 1\<rparr>)\<rparr>)"
    if "(if p = queueSEND_TO_BACK then copy_to_back item ?Q else copy_to_front item ?Q) = Some R"
      "n = (if p = queueOVERWRITE \<and> uxMessagesWaiting ?Q > 0 then uxMessagesWaiting ?Q - 1 else uxMessagesWaiting ?Q)" for R n
  proof -
    have e: "\<lparr>queue = a, knl = knl s\<rparr> = s\<lparr>queue := a\<rparr>" for a by (cases s) simp
    show ?thesis using that(1) False unfolding that(2) prvCopyDataToQueue_def Let_def e by (cases "p = queueSEND_TO_BACK") simp_all
  qed
  have fill: "fill ?Q < slots ?Q" if "p \<noteq> queueOVERWRITE" using room that by (simp add: can_put_def)
  show ?thesis
  proof (cases p)
    case queueSEND_TO_BACK
    then obtain m w where "copy_to_back item ?Q = Some (?Q\<lparr>storage := m, pcWriteTo := w\<rparr>)"
      "ring_ok (?Q\<lparr>storage := m, pcWriteTo := w, uxMessagesWaiting := uxMessagesWaiting ?Q + 1\<rparr>)"
      "contents (?Q\<lparr>storage := m, pcWriteTo := w, uxMessagesWaiting := uxMessagesWaiting ?Q + 1\<rparr>) =
         contents ?Q @ [take (item_size ?Q) item]"
      using copy_to_back_ring[OF ring_ok fill item] by (auto simp: Let_def)
    then show ?thesis using run[OF _ refl] queueSEND_TO_BACK
      by (intro exI[of _ "?Q\<lparr>storage := m, pcWriteTo := w, uxMessagesWaiting := uxMessagesWaiting ?Q + 1\<rparr>"])
        (simp add: buffer_def copied_def)
  next
    case queueSEND_TO_FRONT
    then obtain m w where "copy_to_front item ?Q = Some (?Q\<lparr>storage := m, pcReadFrom := w\<rparr>)"
      "ring_ok (?Q\<lparr>storage := m, pcReadFrom := w, uxMessagesWaiting := uxMessagesWaiting ?Q + 1\<rparr>)"
      "contents (?Q\<lparr>storage := m, pcReadFrom := w, uxMessagesWaiting := uxMessagesWaiting ?Q + 1\<rparr>) =
         take (item_size ?Q) item # contents ?Q"
      using copy_to_front_ring[OF ring_ok fill item] by (auto simp: Let_def)
    then show ?thesis using run[OF _ refl] queueSEND_TO_FRONT
      by (intro exI[of _ "?Q\<lparr>storage := m, pcReadFrom := w, uxMessagesWaiting := uxMessagesWaiting ?Q + 1\<rparr>"])
        (simp add: buffer_def copied_def)
  next
    case queueOVERWRITE
    then have one: "slots ?Q = 1" using room by (simp add: can_put_def)
    have "fill ?Q = 0 \<or> fill ?Q = 1" using bufferD(2)[OF b] one by linarith
    then have n: "(if uxMessagesWaiting ?Q > 0 then uxMessagesWaiting ?Q - 1 else uxMessagesWaiting ?Q) = 0"
      by (auto simp: fill_def word_gt_0 word_unat_eq_iff[of _ 1] unat_eq_0)
    obtain m w where "copy_to_front item ?Q = Some (?Q\<lparr>storage := m, pcReadFrom := w\<rparr>)"
      "ring_ok (?Q\<lparr>storage := m, pcReadFrom := w, uxMessagesWaiting := 1\<rparr>)"
      "contents (?Q\<lparr>storage := m, pcReadFrom := w, uxMessagesWaiting := 1\<rparr>) = [take (item_size ?Q) item]"
      using overwrite_ring[OF ring_ok one item] by (auto simp: Let_def)
    then show ?thesis using run[of _ 0] n queueOVERWRITE
      by (intro exI[of _ "?Q\<lparr>storage := m, pcReadFrom := w, uxMessagesWaiting := 1\<rparr>"]) (simp add: buffer_def copied_def)
  qed
qed

lemma get_result:
  assumes b: "buffer (queue s q)" and some: "0 < fill (queue s q)"
  shows "\<exists>r. prvCopyDataFromQueue q s = Some (hd (contents (queue s q)), upd_queue q (\<lambda>Q. Q\<lparr>pcReadFrom := r\<rparr>) s) \<and>
    (let Q = (queue s q)\<lparr>pcReadFrom := r, uxMessagesWaiting := uxMessagesWaiting (queue s q) - 1\<rparr>
     in buffer Q \<and> contents Q = tl (contents (queue s q)))"
proof (cases "uxItemSize (queue s q) = 0")
  case True
  let ?Q = "queue s q"
  have f: "unat (uxMessagesWaiting ?Q - 1) = fill ?Q - 1" using some by (simp add: fill_def unat_minus_one unat_gt_0)
  have Q: "?Q\<lparr>pcReadFrom := pcReadFrom ?Q\<rparr> = ?Q" "(queue s)(q := ?Q) = queue s" by simp_all
  have "semaphore ?Q" using b True by (auto simp: buffer_def ring_ok_def item_size_def)
  then have "buffer (?Q\<lparr>uxMessagesWaiting := uxMessagesWaiting ?Q - 1\<rparr>)"
    using f le_trans[OF diff_le_self bufferD(2)[OF b], of 1] by (simp add: buffer_def semaphore_def)
  moreover have "contents (?Q\<lparr>uxMessagesWaiting := uxMessagesWaiting ?Q - 1\<rparr>) = tl (contents ?Q)"
    using f True by (simp add: semaphore_contents)
  moreover have "hd (contents ?Q) = []" using some True by (simp add: semaphore_contents hd_replicate)
  ultimately show ?thesis using True
    by (intro exI[of _ "pcReadFrom ?Q"]) (simp add: Let_def Q prvCopyDataFromQueue_def copy_from_def upd_queue_def)
next
  case False
  then have "ring_ok (queue s q)" using b by (simp add: buffer_def semaphore_def)
  from copy_from_ring[OF this some] show ?thesis
    by (auto simp: Let_def prvCopyDataFromQueue_def upd_queue_def buffer_def)
qed

end
