(* ===== verification/FRCalm.thy ===== *)
theory FRCalm
  imports FRSystem
begin

text \<open>
  Which calls of the scheduler leave the event lists alone: no task enters one, tasks may only be taken
  off.  The users of event lists (queues, event groups) rest on this.
\<close>

section \<open>Scheduler calls that put no task on an event list\<close>

definition calm :: "kernel \<Rightarrow> kernel \<Rightarrow> bool" where
  "calm k k' \<longleftrightarrow> pxCurrentTCB k' = pxCurrentTCB k \<and> uxCurrentNumberOfTasks k' = uxCurrentNumberOfTasks k \<and>
     uxSchedulerSuspended k' = uxSchedulerSuspended k \<and>
     (\<forall>t e. event_list k' t = Some (EventList e) \<longrightarrow> event_list k t = Some (EventList e)) \<and>
     (\<forall>t. bit (item_value k (xEventListItem t)) 31 \<longrightarrow> item_value k' (xEventListItem t) = item_value k (xEventListItem t))"

lemma calm_refl [simp]: "calm k k"
  by (simp add: calm_def)

lemma calm_trans [trans]: "calm k k' \<Longrightarrow> calm k' k'' \<Longrightarrow> calm k k''"
  by (simp add: calm_def)

lemma calm_same:
  assumes "pxContainer k' = pxContainer k" "pxCurrentTCB k' = pxCurrentTCB k" "uxCurrentNumberOfTasks k' = uxCurrentNumberOfTasks k"
    "uxSchedulerSuspended k' = uxSchedulerSuspended k" "xItemValue k' = xItemValue k"
  shows "calm k k'"
  using assms by (simp add: calm_def)

lemma calm_uxListRemove:
  assumes "uxListRemove i k = Some (n, k')"
  shows "calm k k'"
proof -
  obtain l where l: "pxContainer k i = Some l" using assms by (cases "pxContainer k i") (simp_all add: uxListRemove_def)
  have "pxContainer k' = (pxContainer k)(i := None)" "pxCurrentTCB k' = pxCurrentTCB k"
    "uxCurrentNumberOfTasks k' = uxCurrentNumberOfTasks k" "uxSchedulerSuspended k' = uxSchedulerSuspended k" "xItemValue k' = xItemValue k"
    using assms l by (auto simp: uxListRemove_def Let_def)
  then show ?thesis by (simp add: calm_def)
qed

lemma calm_remove: "listREMOVE_ITEM i k = Some k' \<Longrightarrow> calm k k'"
  using calm_uxListRemove by (auto simp: listREMOVE_ITEM_eq)

lemma calm_insert_end:
  assumes "(\<forall>e. l \<noteq> EventList e) \<or> (\<exists>t. i = xStateListItem t)"
  shows "calm k (listINSERT_END l i k)"
  using assms by (auto simp: calm_def listINSERT_END_def Let_def)

lemma calm_insert: "vListInsert l (xStateListItem t) k = Some k' \<Longrightarrow> calm k k'"
  by (auto simp: calm_def vListInsert_def Let_def split: option.splits bind_splits)

text \<open>Only the containers, the current task, the number of tasks and the suspension count matter.\<close>

lemma calm_update [simp]:
  "calm h (k\<lparr>pendsv := b\<rparr>) = calm h k" "calm h (k\<lparr>xYieldPending := b\<rparr>) = calm h k" "calm h (k\<lparr>xPendedTicks := n\<rparr>) = calm h k"
  "calm h (k\<lparr>xTickCount := n\<rparr>) = calm h k" "calm h (k\<lparr>xNextTaskUnblockTime := n\<rparr>) = calm h k"
  "calm h (k\<lparr>uxTopReadyPriority := n\<rparr>) = calm h k" "calm h (k\<lparr>uxPriority := p\<rparr>) = calm h k"
  "calm h (k\<lparr>uxBasePriority := p\<rparr>) = calm h k" "calm h (k\<lparr>uxMutexesHeld := m\<rparr>) = calm h k"
  "calm h (k\<lparr>ucNotifyState := z\<rparr>) = calm h k"
  "calm h (portYIELD k) = calm h k" "calm h (vTaskMissedYield k) = calm h k" "calm h (listSET_LIST_ITEM_VALUE (xStateListItem t) v k) = calm h k"
  "calm h (prvResetNextTaskUnblockTime k) = calm h k" "calm h (taskSWITCH_DELAYED_LISTS k) = calm h k"
  "calm h (taskRECORD_READY_PRIORITY q k) = calm h k" "calm h (reset_ready_priority q k) = calm h k"
  by (simp_all add: calm_def portYIELD_def vTaskMissedYield_def listSET_LIST_ITEM_VALUE_def prvResetNextTaskUnblockTime_def
      taskSWITCH_DELAYED_LISTS_def taskRECORD_READY_PRIORITY_def reset_ready_priority_def Let_def)

lemma calm_updated [simp]:
  "calm (k\<lparr>pendsv := b\<rparr>) h = calm k h" "calm (k\<lparr>xYieldPending := b\<rparr>) h = calm k h" "calm (k\<lparr>xPendedTicks := n\<rparr>) h = calm k h"
  "calm (k\<lparr>xTickCount := n\<rparr>) h = calm k h" "calm (k\<lparr>xNextTaskUnblockTime := n\<rparr>) h = calm k h"
  "calm (k\<lparr>uxTopReadyPriority := n\<rparr>) h = calm k h" "calm (k\<lparr>uxPriority := p\<rparr>) h = calm k h"
  "calm (k\<lparr>uxBasePriority := p\<rparr>) h = calm k h" "calm (k\<lparr>uxMutexesHeld := m\<rparr>) h = calm k h"
  "calm (k\<lparr>ucNotifyState := z\<rparr>) h = calm k h"
  "calm (portYIELD k) h = calm k h" "calm (vTaskMissedYield k) h = calm k h" "calm (listSET_LIST_ITEM_VALUE (xStateListItem t) v k) h = calm k h"
  "calm (prvResetNextTaskUnblockTime k) h = calm k h" "calm (taskSWITCH_DELAYED_LISTS k) h = calm k h"
  "calm (taskRECORD_READY_PRIORITY q k) h = calm k h" "calm (reset_ready_priority q k) h = calm k h"
  by (simp_all add: calm_def portYIELD_def vTaskMissedYield_def listSET_LIST_ITEM_VALUE_def prvResetNextTaskUnblockTime_def
      taskSWITCH_DELAYED_LISTS_def taskRECORD_READY_PRIORITY_def reset_ready_priority_def Let_def)

text \<open>The priority is written into an event list item only when no wait has claimed it.\<close>

lemma calm_set_event_value: "calm k (set_event_value t q k)"
proof -
  have "(v :: 32 word) AND taskEVENT_LIST_ITEM_VALUE_IN_USE = 0 \<longleftrightarrow> \<not> bit v 31" for v
    using and_exp_eq_0_iff_not_bit[of v 31] by (simp add: taskEVENT_LIST_ITEM_VALUE_IN_USE_def)
  then show ?thesis by (simp add: calm_def set_event_value_def listGET_LIST_ITEM_VALUE_def listSET_LIST_ITEM_VALUE_def)
qed

lemma calm_from_event_value: "calm (set_event_value t q k) k' \<Longrightarrow> calm k k'"
  by (rule calm_trans[OF calm_set_event_value])

lemma calm_add: "prvAddTaskToReadyList t k = Some k' \<Longrightarrow> calm k k'"
  using calm_insert_end[where i = "xStateListItem t"]
  by (auto simp: prvAddTaskToReadyList_def Let_def split: bind_splits) (metis calm_updated(16))

lemma calm_remove_event: "remove_from_event_list t k = Some k' \<Longrightarrow> calm k k'"
  by (auto simp: remove_from_event_list_def split: if_splits intro: calm_uxListRemove)

lemma calm_remove_reset: "remove_and_reset i p k = Some k' \<Longrightarrow> calm k k'"
  by (auto simp: remove_and_reset_def split: bind_splits dest: calm_uxListRemove)

lemmas calm_dests = calm_uxListRemove calm_remove calm_insert calm_add calm_remove_event calm_remove_reset

lemma calm_unblock_loop:
  assumes "unblock_loop now sw k = Some r"
  shows "calm k (snd r)"
proof (rule unblock_loop.raw_induct[where P = "\<lambda>_ _ k r. calm k (snd r)", OF _ assms])
  fix f :: "32 word \<Rightarrow> bool \<Rightarrow> kernel \<Rightarrow> (bool \<times> kernel) option" and now sw k r
  assume IH: "\<And>now sw k r. f now sw k = Some r \<Longrightarrow> calm k (snd r)"
  assume "(if listLIST_IS_EMPTY (pxDelayedTaskList k) k
      then Some (sw, k\<lparr>xNextTaskUnblockTime := portMAX_DELAY\<rparr>)
      else do {
        t \<leftarrow> listGET_OWNER_OF_HEAD_ENTRY (pxDelayedTaskList k) k;
        let v = listGET_LIST_ITEM_VALUE (xStateListItem t) k;
        if now < v then Some (sw, k\<lparr>xNextTaskUnblockTime := v\<rparr>)
        else do {
          k \<leftarrow> listREMOVE_ITEM (xStateListItem t) k;
          k \<leftarrow> (if listLIST_ITEM_CONTAINER (xEventListItem t) k \<noteq> None
                then listREMOVE_ITEM (xEventListItem t) k else Some k);
          k \<leftarrow> prvAddTaskToReadyList t k;
          c \<leftarrow> pxCurrentTCB k;
          f now (sw \<or> uxPriority k t > uxPriority k c) k } }) = Some r"
  then show "calm k (snd r)"
    by (auto split: if_splits bind_splits simp: Let_def dest!: IH calm_dests intro: calm_trans)
qed

lemma calm_tick: "xTaskIncrementTick k = Some (sw, k') \<Longrightarrow> calm k k'"
  by (auto simp: xTaskIncrementTick_def Let_def split: if_splits bind_splits dest!: calm_unblock_loop)

lemma calm_systick: "xPortSysTickHandler k = Some k' \<Longrightarrow> calm k k'"
  by (auto simp: xPortSysTickHandler_def split: bind_splits dest!: calm_tick)

lemma calm_pending_loop:
  assumes "pending_loop m k = Some r"
  shows "calm k (snd r)"
proof (rule pending_loop.raw_induct[where P = "\<lambda>_ k r. calm k (snd r)", OF _ assms])
  fix f :: "bool \<Rightarrow> kernel \<Rightarrow> (bool \<times> kernel) option" and m k r
  assume IH: "\<And>m k r. f m k = Some r \<Longrightarrow> calm k (snd r)"
  assume "(if listLIST_IS_EMPTY xPendingReadyList k then Some (m, k)
      else do {
        t \<leftarrow> listGET_OWNER_OF_HEAD_ENTRY xPendingReadyList k;
        k \<leftarrow> listREMOVE_ITEM (xEventListItem t) k;
        k \<leftarrow> listREMOVE_ITEM (xStateListItem t) k;
        k \<leftarrow> prvAddTaskToReadyList t k;
        c \<leftarrow> pxCurrentTCB k;
        f True (if uxPriority k t \<ge> uxPriority k c then k\<lparr>xYieldPending := True\<rparr> else k) }) = Some r"
  then show "calm k (snd r)"
    by (auto split: if_splits bind_splits dest!: IH calm_dests) (meson calm_trans)+
qed

lemma calm_pended_ticks: "pended_ticks_loop n k = Some k' \<Longrightarrow> calm k k'"
proof (induction n arbitrary: k)
  case (Suc n)
  then obtain sw k1 where "xTaskIncrementTick k = Some (sw, k1)"
    "pended_ticks_loop n (if sw then k1\<lparr>xYieldPending := True\<rparr> else k1) = Some k'" by (auto split: bind_splits)
  then show ?case using Suc.IH calm_trans[OF calm_tick] by (cases sw) fastforce+
qed simp

lemma calm_resume_all:
  assumes "xTaskResumeAll k = Some (y, k')"
  shows "calm (k\<lparr>uxSchedulerSuspended := uxSchedulerSuspended k - 1\<rparr>) k'"
proof -
  define k0 where "k0 = k\<lparr>uxSchedulerSuspended := uxSchedulerSuspended k - 1\<rparr>"
  have "calm k0 k'"
  proof (cases "uxSchedulerSuspended k0 = 0 \<and> uxCurrentNumberOfTasks k0 > 0")
    case False
    then show ?thesis using assms by (auto simp: xTaskResumeAll_def k0_def Let_def split: if_splits)
  next
    case True
    obtain m k1 where k1: "pending_loop False k0 = Some (m, k1)" using assms True
      by (auto simp: xTaskResumeAll_def k0_def Let_def split: bind_splits)
    define k2 where "k2 = (if m then prvResetNextTaskUnblockTime k1 else k1)"
    obtain k3 where k3: "(if xPendedTicks k2 > 0
        then do { k \<leftarrow> pended_ticks_loop (unat (xPendedTicks k2)) k2; Some (k\<lparr>xPendedTicks := 0\<rparr>) } else Some k2) = Some k3"
      "k' = k3 \<or> k' = portYIELD k3"
      using assms True k1 by (auto simp: xTaskResumeAll_def k0_def[symmetric] k2_def[symmetric] Let_def split: bind_splits if_splits)
    have "calm k0 k2" using calm_pending_loop[OF k1] by (simp add: k2_def)
    moreover have "calm k2 k3" using k3(1) by (auto split: if_splits bind_splits dest: calm_pended_ticks)
    ultimately have "calm k0 k3" by (rule calm_trans)
    then show ?thesis using k3(2) by auto
  qed
  then show ?thesis by (simp add: k0_def)
qed

text \<open>Suspending and resuming around an operation.\<close>

lemma calm_suspended: "calm (k\<lparr>uxSchedulerSuspended := n\<rparr>) k' \<Longrightarrow> calm (k\<lparr>uxSchedulerSuspended := m\<rparr>) (k'\<lparr>uxSchedulerSuspended := m\<rparr>)"
  by (simp add: calm_def)

lemma calm_bracket:
  assumes "calm (vTaskSuspendAll k) k1" "xTaskResumeAll k1 = Some (y, k')"
  shows "calm k k'"
proof -
  have s: "uxSchedulerSuspended k1 - 1 = uxSchedulerSuspended k" using assms(1) by (simp add: calm_def vTaskSuspendAll_def)
  have "calm k (k1\<lparr>uxSchedulerSuspended := uxSchedulerSuspended k\<rparr>)" using assms(1) by (simp add: calm_def vTaskSuspendAll_def)
  also have "calm \<dots> k'" using calm_resume_all[OF assms(2)] by (simp add: s)
  finally show ?thesis .
qed

lemma calm_block: "prvAddCurrentTaskToDelayedList n b k = Some k' \<Longrightarrow> calm k k'"
  by (auto simp: prvAddCurrentTaskToDelayedList_def Let_def split: bind_splits if_splits dest!: calm_dests
      intro!: calm_trans[OF _ calm_insert_end] intro: calm_trans)

lemma calm_delay: "vTaskDelay n k = Some k' \<Longrightarrow> calm k k'"
  by (auto simp: vTaskDelay_def split: bind_splits if_splits dest!: calm_block calm_bracket)

lemma calm_delay_until: "xTaskDelayUntil prev inc k = Some (b, w, k') \<Longrightarrow> calm k k'"
  by (auto simp: xTaskDelayUntil_def Let_def split: bind_splits if_splits dest!: calm_block dest: calm_bracket calm_bracket[OF calm_refl])

lemma calm_remove_from_event: "xTaskRemoveFromEventList l k = Some (y, k') \<Longrightarrow> calm k k'"
  by (auto simp: xTaskRemoveFromEventList_def split: bind_splits if_splits dest!: calm_dests
      intro!: calm_trans[OF _ calm_insert_end] intro: calm_trans)

lemma calm_resume: "vTaskResume h k = Some k' \<Longrightarrow> calm k k'"
  by (auto simp: vTaskResume_def split: option.splits bind_splits if_splits dest!: calm_dests) (meson calm_trans)+

lemma calm_resume_from_isr: "xTaskResumeFromISR t k = Some (y, k') \<Longrightarrow> calm k k'"
  using calm_insert_end[of xPendingReadyList, unfolded listINSERT_END_eq]
  by (auto simp: xTaskResumeFromISR_def Let_def split: bind_splits if_splits dest!: calm_dests) (meson calm_trans)+

lemma calm_priority_set: "vTaskPrioritySet h n k = Some k' \<Longrightarrow> calm k k'"
proof -
  have move: "calm k k'" if "move_if_ready t p q k = Some k'" for t p q k k'
    using that by (auto simp: move_if_ready_def split: bind_splits if_splits dest!: calm_dests) (meson calm_trans)
  show "vTaskPrioritySet h n k = Some k' \<Longrightarrow> calm k k'"
    by (auto simp: vTaskPrioritySet_def Let_def split: bind_splits if_splits dest!: move calm_from_event_value)
qed

text \<open>The operations on the lists and the choice of the next task write no item value.\<close>

lemma values_uxListRemove: "uxListRemove i k = Some (n, k') \<Longrightarrow> xItemValue k' = xItemValue k"
  by (cases "pxContainer k i") (auto simp: uxListRemove_def Let_def)

lemma values_vListInsert: "vListInsert l i k = Some k' \<Longrightarrow> xItemValue k' = xItemValue k"
  by (auto simp: vListInsert_def Let_def split: bind_splits)

lemma values_insert_end: "xItemValue (listINSERT_END l i k) = xItemValue k"
  by (simp add: listINSERT_END_def Let_def)

lemma values_remove_and_reset: "remove_and_reset i p k = Some k' \<Longrightarrow> xItemValue k' = xItemValue k"
  by (auto simp: remove_and_reset_def reset_ready_priority_def split: bind_splits dest: values_uxListRemove)

lemma values_select: "taskSELECT_HIGHEST_PRIORITY_TASK k = Some k' \<Longrightarrow> xItemValue k' = xItemValue k"
  by (auto simp: taskSELECT_HIGHEST_PRIORITY_TASK_def listGET_OWNER_OF_NEXT_ENTRY_def Let_def
      split: bind_splits option.splits ListPtr.splits if_splits)

lemma values_switch: "vTaskSwitchContext k = Some k' \<Longrightarrow> xItemValue k' = xItemValue k"
  by (auto simp: vTaskSwitchContext_def split: if_splits dest: values_select)

lemma values_suspend:
  assumes "vTaskSuspend h k = Some k'"
  shows "xItemValue k' = xItemValue k"
proof -
  have reset: "taskRESET_READY_PRIORITY p k1 = Some k2 \<Longrightarrow> xItemValue k2 = xItemValue k1" for p k1 k2
    by (auto simp: taskRESET_READY_PRIORITY_def reset_ready_priority_def split: bind_splits if_splits)
  have event: "remove_from_event_list t k1 = Some k2 \<Longrightarrow> xItemValue k2 = xItemValue k1" for t k1 k2
    by (auto simp: remove_from_event_list_def split: if_splits dest: values_uxListRemove)
  show ?thesis using assms
    by (auto simp: vTaskSuspend_def Let_def prvResetNextTaskUnblockTime_def portYIELD_def values_insert_end[unfolded listINSERT_END_eq]
        split: bind_splits if_splits dest!: values_uxListRemove values_switch reset event)
qed

lemma calm_suspend:
  assumes ok: "kernel_ok idle T E k" and r: "removable idle T h k" and run: "vTaskSuspend h k = Some k'"
  shows "calm k k'"
proof -
  obtain t where "prvGetTCBFromHandle h k = Some t" "t \<in> T" "t \<noteq> idle" "pxCurrentTCB k = Some t \<longrightarrow> uxSchedulerSuspended k = 0"
    using r by (auto simp: removable_def)
  from suspend_result[OF ok this] run have "kernel_ok idle T E k'"
    "pxContainer k' = (pxContainer k)(xStateListItem t := Some xSuspendedTaskList, xEventListItem t := None)"
    "pxCurrentTCB k' = pxCurrentTCB k" "uxSchedulerSuspended k' = uxSchedulerSuspended k" by auto
  moreover have "xItemValue k' = xItemValue k" by (rule values_suspend[OF run])
  moreover have "uxCurrentNumberOfTasks k' = uxCurrentNumberOfTasks k"
    using ok calculation(1) by (simp add: kernel_ok_def core_inv_def)
  ultimately show ?thesis by (simp add: calm_def)
qed

text \<open>The calls of the scheduler that tasks and interrupts make besides the queues.\<close>

fun background :: "kcall \<Rightarrow> bool" where
  "background Tick = True"
| "background (Delay n) = True"
| "background (DelayUntil prev inc) = True"
| "background (Suspend h) = True"
| "background (Resume h) = True"
| "background (ResumeFromISR t) = True"
| "background (PrioritySet h n) = True"
| "background MissedYield = True"
| "background _ = False"

lemma background_result:
  assumes ok: "kernel_ok idle T E k" and a: "background a" "allowed idle T E a k" and run: "perform a k = Some k'"
  shows "kernel_ok idle T E k' \<and> calm k k'"
proof
  have "tasks_after a T k = T" "lists_after a E = E" using a(1) by (cases a; simp)+
  then show "kernel_ok idle T E k'" using perform_ok[OF ok a(2)] run by auto
  have g: "guard idle T E a k" using a(2) by (simp add: allowed_def)
  show "calm k k'" using a(1) run g
    by (cases a) (auto dest: calm_systick calm_delay calm_delay_until calm_resume calm_resume_from_isr calm_priority_set
        intro: calm_suspend[OF ok])
qed

section \<open>What a call leaves of a task that has left its event list\<close>

text \<open>One task alone: its event list item keeps the value of a wait, and it enters no event list.\<close>

definition spares :: "nat \<Rightarrow> kernel \<Rightarrow> kernel \<Rightarrow> bool" where
  "spares t k k' \<longleftrightarrow>
     (bit (item_value k (xEventListItem t)) 31 \<longrightarrow> item_value k' (xEventListItem t) = item_value k (xEventListItem t)) \<and>
     (\<forall>e. event_list k' t = Some (EventList e) \<longrightarrow> event_list k t = Some (EventList e))"

lemma spares_refl [simp]: "spares t k k"
  by (simp add: spares_def)

lemma spares_trans: "spares t k k' \<Longrightarrow> spares t k' k'' \<Longrightarrow> spares t k k''"
  by (simp add: spares_def)

lemma spares_calm: "calm k k' \<Longrightarrow> spares t k k'"
  by (simp add: spares_def calm_def)

lemma spares_same: "pxContainer k' = pxContainer k \<Longrightarrow> xItemValue k' = xItemValue k \<Longrightarrow> spares t k k'"
  by (simp add: spares_def)

lemma spares_update [simp]:
  "spares t (k\<lparr>uxSchedulerSuspended := n\<rparr>) k' = spares t k k'" "spares t k (k'\<lparr>uxSchedulerSuspended := n\<rparr>) = spares t k k'"
  "spares t (k\<lparr>xPendedTicks := m\<rparr>) k' = spares t k k'" "spares t (vTaskSuspendAll k) k' = spares t k k'"
  "spares t k (portYIELD k') = spares t k k'"
  "spares t k (vTaskSuspendAll k') = spares t k k'" "spares t (k\<lparr>uxPriority := p\<rparr>) k' = spares t k k'"
  "spares t (k\<lparr>uxMutexesHeld := h\<rparr>) k' = spares t k k'"
  "spares t (k\<lparr>uxCurrentNumberOfTasks := c\<rparr>) k' = spares t k k'" "spares t (k\<lparr>uxTaskNumber := c\<rparr>) k' = spares t k k'"
  "spares t k (k'\<lparr>uxDeletedTasksWaitingCleanUp := c\<rparr>) = spares t k k'"
  "spares t (k\<lparr>uxDeletedTasksWaitingCleanUp := c\<rparr>) k' = spares t k k'"
  "spares t k (k'\<lparr>uxCurrentNumberOfTasks := c\<rparr>) = spares t k k'" "spares t k (k'\<lparr>uxTaskNumber := c\<rparr>) = spares t k k'"
  by (simp_all add: spares_def portYIELD_def vTaskSuspendAll_def)

lemma spares_resume_all: "xTaskResumeAll k = Some (y, k') \<Longrightarrow> spares t k k'"
  using spares_calm[OF calm_resume_all] by simp

lemma spares_wait_on:
  assumes c: "pxCurrentTCB k = Some c" "t \<noteq> c" and run: "wait_on e n k = Some k'"
  shows "spares t k k'"
proof -
  have ins: "spares t h h'" if "vListInsert l (xEventListItem c) h = Some h'" for l h h'
    using that c(2) by (auto simp: spares_def vListInsert_def Let_def split: option.splits bind_splits)
  obtain h h' y h'' where "vListInsert (EventList e) (xEventListItem c) (vTaskSuspendAll k) = Some h"
    "prvAddCurrentTaskToDelayedList n True h = Some h'" "xTaskResumeAll h' = Some (y, h'')"
    "k' = h'' \<or> k' = portYIELD h''"
    using run c(1) by (auto simp: wait_on_def vTaskPlaceOnEventList_def vTaskSuspendAll_def split: bind_splits if_splits)
  then have "spares t k h" "spares t h h'" "spares t h' k'"
    using ins[of "EventList e" "vTaskSuspendAll k" h] spares_calm[OF calm_block] spares_resume_all by auto
  then show ?thesis using spares_trans by blast
qed

lemma calm_inherit: "xTaskPriorityInherit h k = Some (y, k') \<Longrightarrow> calm k k'"
  by (auto simp: xTaskPriorityInherit_def Let_def split: option.splits bind_splits if_splits
      dest!: calm_from_event_value calm_remove_reset calm_add intro: calm_set_event_value)
     (metis calm_from_event_value calm_trans calm_update(7))

lemma spares_give_back:
  assumes c: "t \<noteq> c" and run: "give_back (Some c) k = Some k'"
  shows "spares t k k'"
proof -
  have set: "spares t h (listSET_LIST_ITEM_VALUE (xEventListItem c) v h)" for v h
    using c by (simp add: spares_def listSET_LIST_ITEM_VALUE_def)
  let ?k = "k\<lparr>uxMutexesHeld := (uxMutexesHeld k)(c := uxMutexesHeld k c - 1)\<rparr>"
  show ?thesis
  proof (cases "uxPriority ?k c \<noteq> uxBasePriority ?k c \<and> uxMutexesHeld ?k c = 0")
    case True
    then obtain k1 k2 v where k1: "remove_and_reset (xStateListItem c) (uxPriority ?k c) ?k = Some k1"
      "prvAddTaskToReadyList c (listSET_LIST_ITEM_VALUE (xEventListItem c) v (k1\<lparr>uxPriority := (uxPriority k1)(c := uxBasePriority k1 c)\<rparr>)) = Some k2"
      "k' = portYIELD k2"
      using run by (auto simp: give_back_def xTaskPriorityDisinherit_def Let_def split: bind_splits)
    have "spares t ?k k1" by (rule spares_calm[OF calm_remove_reset[OF k1(1)]])
    moreover note set[of "k1\<lparr>uxPriority := (uxPriority k1)(c := uxBasePriority k1 c)\<rparr>" v]
    moreover note spares_calm[OF calm_add[OF k1(2)], of t]
    ultimately show ?thesis unfolding k1(3) by simp (meson spares_trans)
  next
    case False
    then have "k' = ?k" using run by (auto simp: give_back_def xTaskPriorityDisinherit_def Let_def)
    then show ?thesis by (simp add: spares_same)
  qed
qed

lemma spares_create:
  assumes t: "t \<noteq> u" and c: "pxCurrentTCB k = Some c" and run: "xTaskCreate (Some u) p k = Some (y, k')"
  shows "spares t k k'"
proof -
  define k1 where "k1 = prvInitialiseNewTask u p k"
  have i: "spares t k k1" and c1: "pxCurrentTCB k1 = Some c"
    using t c by (simp_all add: k1_def spares_def prvInitialiseNewTask_def Let_def vListInitialiseItem_def
        listSET_LIST_ITEM_OWNER_def listSET_LIST_ITEM_VALUE_def)
  obtain k2 where k2: "prvAddNewTaskToReadyList u k1 = Some k2" "k' = k2"
    using run by (auto simp: xTaskCreate_def k1_def split: bind_splits)
  obtain h k3 where h: "spares t k1 h" "prvAddTaskToReadyList u h = Some k3" "k2 = k3 \<or> k2 = portYIELD k3"
  proof -
    let ?n = "k1\<lparr>uxCurrentNumberOfTasks := uxCurrentNumberOfTasks k1 + 1\<rparr>"
    let ?h = "(if \<not> xSchedulerRunning k1 \<and> uxPriority k1 c \<le> uxPriority k1 u then ?n\<lparr>pxCurrentTCB := Some u\<rparr> else ?n)
        \<lparr>uxTaskNumber := uxTaskNumber k1 + 1\<rparr>"
    have "prvAddTaskToReadyList u ?h \<noteq> None \<and> (k2 = the (prvAddTaskToReadyList u ?h) \<or> k2 = portYIELD (the (prvAddTaskToReadyList u ?h)))"
      using k2(1) c1 by (auto simp: prvAddNewTaskToReadyList_def Let_def split: bind_splits if_splits)
    moreover have "spares t k1 ?h" by (simp add: spares_def)
    ultimately show ?thesis by (intro that[of ?h "the (prvAddTaskToReadyList u ?h)"]) auto
  qed
  have "spares t k2 k2" by simp
  then have "spares t h k2" using spares_calm[OF calm_add[OF h(2)], of t] h(3) by auto
  then show ?thesis using spares_trans[OF i spares_trans[OF h(1)]] k2(2) by simp
qed

lemma spares_delete:
  assumes run: "vTaskDelete h k = Some k'"
  shows "spares t k k'"
proof -
  obtain u n k1 k2 k3 where d: "uxListRemove (xStateListItem u) k = Some (n, k1)"
    "(if n = 0 then taskRESET_READY_PRIORITY (uxPriority k1 u) k1 else Some k1) = Some k2"
    "remove_from_event_list u k2 = Some k3"
    and k': "k' = (let k = k3\<lparr>uxTaskNumber := uxTaskNumber k3 + 1\<rparr>;
          k = (if pxCurrentTCB k = Some u
               then (let k = vListInsertEnd xTasksWaitingTermination (xStateListItem u) k
                     in k\<lparr>uxDeletedTasksWaitingCleanUp := uxDeletedTasksWaitingCleanUp k + 1\<rparr>)
               else prvResetNextTaskUnblockTime (k\<lparr>uxCurrentNumberOfTasks := uxCurrentNumberOfTasks k - 1\<rparr>))
          in if xSchedulerRunning k \<and> pxCurrentTCB k = Some u then portYIELD k else k)"
    using run unfolding vTaskDelete_def by (auto simp: Let_def split: bind_splits)
  have "calm k1 k2" using d(2) by (auto simp: taskRESET_READY_PRIORITY_def split: if_splits bind_splits)
  then have "spares t k k3"
    using spares_trans[OF spares_calm[OF calm_uxListRemove[OF d(1)]] spares_trans[OF spares_calm spares_calm[OF calm_remove_event[OF d(3)]]]]
    by blast
  moreover have "spares t k3 k'" unfolding k'
    by (simp add: Let_def spares_def vListInsertEnd_def portYIELD_def prvResetNextTaskUnblockTime_def)
  ultimately show ?thesis by (rule spares_trans)
qed

lemma spares_cleanup: "termination_loop n k = Some k' \<Longrightarrow> spares t k k'"
proof (induction n arbitrary: k)
  case (Suc n)
  then obtain u m k1 where k1: "uxListRemove (xStateListItem u) k = Some (m, k1)"
    "termination_loop n (k1\<lparr>uxCurrentNumberOfTasks := uxCurrentNumberOfTasks k1 - 1,
       uxDeletedTasksWaitingCleanUp := uxDeletedTasksWaitingCleanUp k1 - 1\<rparr>) = Some k'"
    by (auto split: bind_splits)
  have "spares t k1 k'" using Suc.IH[OF k1(2)] by simp
  then show ?case by (rule spares_trans[OF spares_calm[OF calm_uxListRemove[OF k1(1)]]])
qed simp

lemma spares_switch:
  assumes "kernel_ok idle T E k" "xPortPendSVHandler k = Some k'"
  shows "spares t k k'"
proof (cases "uxSchedulerSuspended k = 0")
  case True
  then show ?thesis using switch_effect[OF assms(1) True] assms(2) values_switch[of "k\<lparr>pendsv := False\<rparr>" k'] by (auto simp: xPortPendSVHandler_def intro!: spares_same)
next
  case False
  then show ?thesis using assms(2) by (auto simp: xPortPendSVHandler_def vTaskSwitchContext_def intro!: spares_same)
qed

text \<open>
  Whatever the kernel is asked to do, by an interrupt or by another task, a task that is on no event list enters none,
  and the value it was woken with stays in its item; only a call that waits on a list puts a task on it.
\<close>

fun local_call :: "kcall \<Rightarrow> bool" where
  "local_call (Wait e n) = True"
| "local_call GiveBack = True"
| "local_call (Create t p) = True"
| "local_call _ = False"

lemma perform_spares_any:
  assumes ok: "kernel_ok idle T E k" and a: "allowed idle T E a k" "\<not> local_call a" and run: "perform a k = Some k'"
  shows "spares t k k'"
proof (cases "background a")
  case True
  then show ?thesis using background_result[OF ok True a(1) run] spares_calm by blast
next
  case False
  show ?thesis
  proof (cases a)
    case PendSV
    then show ?thesis using spares_switch[OF ok] run by simp
  next
    case ResumeAll
    then show ?thesis using run by (auto dest: spares_resume_all)
  next
    case (CatchUpTicks n)
    then show ?thesis using run by (auto simp: xTaskCatchUpTicks_def Let_def dest!: spares_resume_all)
  next
    case (Signal e)
    then show ?thesis using run by (auto split: bind_splits if_splits dest!: calm_remove_from_event intro: spares_calm)
  next
    case (SignalFromISR e)
    then show ?thesis using run by (auto dest!: calm_remove_from_event intro: spares_calm)
  next
    case (Inherit h)
    then show ?thesis using run by (auto dest!: calm_inherit intro: spares_calm)
  next
    case (Delete h)
    then show ?thesis using run spares_delete by simp
  next
    case (NewList e)
    then show ?thesis using run by (auto simp: spares_def vListInitialise_def)
  next
    case Cleanup
    then show ?thesis using run spares_cleanup by (simp add: prvCheckTasksWaitingTermination_def)
  qed (use False a(2) run in auto)
qed

lemma perform_spares:
  assumes ok: "kernel_ok idle T E k" and a: "allowed idle T E a k" and run: "perform a k = Some k'"
    and t: "t \<in> T" "from_task a \<Longrightarrow> pxCurrentTCB k \<noteq> Some t"
  shows "spares t k k'"
proof -
  obtain c where c: "pxCurrentTCB k = Some c" using current[OF ok] by blast
  show ?thesis
  proof (cases "local_call a")
    case True
    then show ?thesis
    proof (cases a)
      case (Wait e n)
      then show ?thesis using run t(2) c spares_wait_on[OF c] by auto
    next
      case GiveBack
      then show ?thesis using run t(2) c spares_give_back[of t c k k'] by auto
    next
      case (Create u p)
      have "t \<noteq> u" using a t(1) Create by (auto simp: allowed_def)
      then show ?thesis using run Create spares_create[OF _ c] by auto
    qed simp_all
  qed (rule perform_spares_any[OF ok a _ run])
qed

lemma give_back_no_entry:
  assumes run: "give_back (Some c) k = Some k'" and e: "event_list k' t = Some (EventList e)"
  shows "event_list k t = Some (EventList e)"
proof (cases "t = c")
  case False
  then show ?thesis using spares_give_back[OF False run] e by (simp add: spares_def)
next
  case True
  have out: "event_list h t = Some (EventList e)" if "calm h h'" "event_list h' t = Some (EventList e)" for h h'
    using that by (simp add: calm_def)
  show ?thesis using run e
    by (auto simp: give_back_def xTaskPriorityDisinherit_def portYIELD_def listSET_LIST_ITEM_VALUE_def Let_def
        split: bind_splits if_splits dest!: calm_remove_reset calm_add out)
qed

lemma create_no_entry:
  assumes c: "pxCurrentTCB k = Some c" and run: "xTaskCreate (Some u) p k = Some (y, k')"
  shows "event_list k' u \<noteq> Some (EventList e)"
proof -
  define k1 where "k1 = prvInitialiseNewTask u p k"
  have i: "event_list k1 u = None" and c1: "pxCurrentTCB k1 = Some c"
    using c by (simp_all add: k1_def prvInitialiseNewTask_def Let_def vListInitialiseItem_def
        listSET_LIST_ITEM_OWNER_def listSET_LIST_ITEM_VALUE_def)
  let ?n = "k1\<lparr>uxCurrentNumberOfTasks := uxCurrentNumberOfTasks k1 + 1\<rparr>"
  let ?h = "(if \<not> xSchedulerRunning k1 \<and> uxPriority k1 c \<le> uxPriority k1 u then ?n\<lparr>pxCurrentTCB := Some u\<rparr> else ?n)
      \<lparr>uxTaskNumber := uxTaskNumber k1 + 1\<rparr>"
  obtain k3 where k3: "prvAddTaskToReadyList u ?h = Some k3" "pxContainer k' = pxContainer k3"
  proof -
    have "prvAddTaskToReadyList u ?h \<noteq> None \<and> pxContainer k' = pxContainer (the (prvAddTaskToReadyList u ?h))"
      using run c1 by (auto simp: xTaskCreate_def k1_def[symmetric] prvAddNewTaskToReadyList_def portYIELD_def Let_def
          split: bind_splits if_splits)
    then show ?thesis by (intro that) auto
  qed
  have "event_list ?h u = None" using i by simp
  then show ?thesis using calm_add[OF k3(1)] unfolding k3(2) calm_def by (metis option.distinct(1))
qed

lemma perform_no_entry:
  assumes ok: "kernel_ok idle T E k" and a: "allowed idle T E a k" "\<And>n. a \<noteq> Wait e n" and run: "perform a k = Some k'"
    and t: "event_list k' t = Some (EventList e)"
  shows "event_list k t = Some (EventList e)"
proof -
  obtain c where c: "pxCurrentTCB k = Some c" "\<not> pendsv k \<or> uxSchedulerSuspended k \<noteq> 0 \<Longrightarrow> is_ready k c" using current[OF ok] by blast
  show ?thesis
  proof (cases "local_call a")
    case True
    then show ?thesis
    proof (cases a)
      case (Wait e' n)
      have "uxSchedulerSuspended k = 0" "is_ready k c" "c \<noteq> idle" "e' \<in> E" "n \<noteq> 0"
        using a Wait c by (auto simp: allowed_def may_block_def)
      from wait_on_result[OF ok this(1) c(1) this(2-)] run Wait
      have "event_list k' = (event_list k)(c := Some (EventList e'))" by auto
      then have "event_list k' t = (if t = c then Some (EventList e') else event_list k t)" by (rule trans[OF fun_cong]) simp
      then show ?thesis using t a(2) Wait by (auto split: if_splits)
    next
      case GiveBack
      then show ?thesis using run c give_back_no_entry[OF _ t] by simp
    next
      case (Create u p)
      then obtain y where y: "xTaskCreate (Some u) p k = Some (y, k')" using run by auto
      have "t \<noteq> u" using create_no_entry[OF c(1) y] t by auto
      then show ?thesis using spares_create[OF _ c(1) y] t by (simp add: spares_def)
    qed simp_all
  next
    case False
    then show ?thesis using perform_spares_any[OF ok a(1) False run, of t] t by (simp add: spares_def)
  qed
qed

end
