(* ===== verification/FRQueueSys.thy ===== *)
theory FRQueueSys
  imports FRRing FRCalm
begin

text \<open>
  Tasks and interrupts that use queues, interleaved at the granularity at which \<open>queue.c\<close> enables
  interrupts, together with ticks, context switches and calls of the scheduler: the invariant of
  the queues, their locks and the tasks waiting on them, and that no wake-up is lost.
\<close>

section \<open>The scheduler while a task is about to wait\<close>

text \<open>Between placing itself on an event list and resuming the scheduler the running task is not ready;
  everything else of the scheduler's invariant holds.\<close>

definition kernel_win :: "nat \<Rightarrow> nat set \<Rightarrow> nat set \<Rightarrow> kernel \<Rightarrow> bool" where
  "kernel_win idle T E k \<longleftrightarrow> core_inv idle T E k \<and> prio_inv k \<and> susp_inv k \<and> (uxSchedulerSuspended k = 0 \<longrightarrow> run_inv k)"

lemma kernel_ok_win: "kernel_ok idle T E k \<longleftrightarrow> kernel_win idle T E k \<and> run_inv k"
  by (auto simp: kernel_ok_def kernel_win_def)

abbreviation waiters :: "klist \<Rightarrow> kernel \<Rightarrow> nat set" where
  "waiters l k \<equiv> {t. event_list k t = Some l}"


lemma remove_from_event_win:
  assumes win: "kernel_win idle T E k" and ne: "event_list k t0 = Some (EventList e)" and cur: "pxCurrentTCB k = Some c"
  shows "\<exists>t y k'. event_list k t = Some (EventList e) \<and> xTaskRemoveFromEventList (EventList e) k = Some (y, k') \<and>
    kernel_win idle T E k' \<and> calm k k' \<and> (\<forall>f. waiters (EventList f) k' = waiters (EventList f) k - {t}) \<and>
    (run_inv k \<longrightarrow> run_inv k') \<and> kept k k'"
proof (cases "uxSchedulerSuspended k = 0")
  case True
  then have ok: "kernel_ok idle T E k" using win by (simp add: kernel_ok_win kernel_win_def)
  obtain t y k' where r: "event_list k t = Some (EventList e)" "xTaskRemoveFromEventList (EventList e) k = Some (y, k')"
    "kernel_ok idle T E k'" "kept k k'" "pxContainer k' = readied {t} k"
    using remove_from_event_result[OF ok ne cur] True by auto
  then show ?thesis using calm_remove_from_event[OF r(2)] by (intro exI[of _ t] exI[of _ y] exI[of _ k']) (auto simp: kernel_ok_win)
next
  case False
  have core: "core_inv idle T E k" and prio: "prio_inv k" and su: "susp_inv k" using win by (simp_all add: kernel_win_def)
  obtain t where t: "t \<in> T" "event_list k t = Some (EventList e)" "listGET_OWNER_OF_HEAD_ENTRY (EventList e) k = Some t"
    using event_head[OF core ne] by blast
  obtain k1 where k1: "listREMOVE_ITEM (xEventListItem t) k = Some k1" "core_inv idle T E k1" "kstep k k1"
    "pxContainer k1 = (pxContainer k)(xEventListItem t := None)"
    using unlink_event[OF core t(2)] by blast
  note f1 = kstep_fields[OF k1(3)]
  have nr: "\<not> is_ready k t" using lists_invD(7)[OF core_invD(1)[OF core]] t(2) by simp
  define k2 where "k2 = vListInsertEnd xPendingReadyList (xEventListItem t) k1"
  have k2: "core_inv idle T E k2" "kstep k1 k2" "pxContainer k2 = (pxContainer k)(xEventListItem t := Some xPendingReadyList)"
    using hold_task[OF k1(2) t(1)] nr k1(4) f1(3) by (auto simp: k2_def is_ready_def)
  note f = kstep_fields[OF kstep_trans[OF k1(3) k2(2)]]
  define y where "y = (uxPriority k t > uxPriority k c)"
  define k' where "k' = (if y then k2\<lparr>xYieldPending := True\<rparr> else k2)"
  have run: "xTaskRemoveFromEventList (EventList e) k = Some (y, k')"
    using t(3) k1(1) f f1 cur False
    by (simp add: xTaskRemoveFromEventList_def listINSERT_END_eq y_def k'_def k2_def[symmetric])
  have rdy: "is_ready k' u = is_ready k u" for u using k2(3) by (simp add: is_ready_def k'_def f)
  have "prio_inv k'" "susp_inv k'" "run_inv k \<longrightarrow> run_inv k'"
    using prio False unfolding prio_inv_def run_inv_def susp_inv_def rdy by (auto simp: k'_def f)
  moreover have "core_inv idle T E k'" using k2(1) by (simp add: k'_def)
  moreover have "\<forall>f. waiters (EventList f) k' = waiters (EventList f) k - {t}" using k2(3) by (auto simp: k'_def)
  moreover have "kept k k'" using rdy by (simp add: kept_def) (simp add: k'_def f)
  ultimately show ?thesis using run t(2) calm_remove_from_event[OF run] False
    by (intro exI[of _ t] exI[of _ y] exI[of _ k']) (simp add: kernel_win_def k'_def f)
qed

lemma wake_first_result:
  assumes win: "kernel_win idle T E (knl s)" and e: "e \<in> E"
  shows "\<exists>y k'. wake_first (EventList e) s = Some (y, s\<lparr>knl := k'\<rparr>) \<and> kernel_win idle T E k' \<and> calm (knl s) k' \<and>
    (run_inv (knl s) \<longrightarrow> run_inv k') \<and> kept (knl s) k' \<and>
    (if waiters (EventList e) (knl s) = {} then k' = knl s
     else \<exists>t\<in>waiters (EventList e) (knl s). \<forall>f. waiters (EventList f) k' = waiters (EventList f) (knl s) - {t})"
proof -
  have core: "core_inv idle T E (knl s)" using win by (simp add: kernel_win_def)
  have empty: "listLIST_IS_EMPTY (EventList e) (knl s) \<longleftrightarrow> waiters (EventList e) (knl s) = {}"
  proof -
    have "listLIST_IS_EMPTY (EventList e) (knl s) \<longleftrightarrow> (\<forall>i. pxContainer (knl s) i \<noteq> Some (EventList e))"
      by (intro listLIST_IS_EMPTY_iff[OF lists_invD(1)[OF core_invD(1)[OF core]]]) (simp add: e)
    also have "\<dots> \<longleftrightarrow> waiters (EventList e) (knl s) = {}" using lists_invD(2)[OF core_invD(1)[OF core], of _ "EventList e"] by auto
    finally show ?thesis .
  qed
  show ?thesis
  proof (cases "waiters (EventList e) (knl s) = {}")
    case True
    then show ?thesis using win empty by (intro exI[of _ False] exI[of _ "knl s"]) (simp add: wake_first_def)
  next
    case False
    then obtain t0 where t0: "event_list (knl s) t0 = Some (EventList e)" by auto
    obtain c where c: "pxCurrentTCB (knl s) = Some c" using core_invD(7)[OF core] by blast
    obtain t y k' where r: "event_list (knl s) t = Some (EventList e)" "xTaskRemoveFromEventList (EventList e) (knl s) = Some (y, k')"
      "kernel_win idle T E k'" "calm (knl s) k'" "\<forall>f. waiters (EventList f) k' = waiters (EventList f) (knl s) - {t}"
      "run_inv (knl s) \<longrightarrow> run_inv k'" "kept (knl s) k'"
      using remove_from_event_win[OF win t0 c] by blast
    have "\<not> listLIST_IS_EMPTY (EventList e) (knl s)" using False empty by blast
    then have "wake_first (EventList e) s = Some (y, s\<lparr>knl := k'\<rparr>)" using r(2) by (simp add: wake_first_def)
    then show ?thesis using False r by auto
  qed
qed

section \<open>The world\<close>

text \<open>The calls in progress, by task: queue, operation and local state.\<close>

type_synonym calls = "nat \<Rightarrow> (nat \<times> qop \<times> qcall) option"

text \<open>The scheduler is suspended from the lock to the resumption; the two locks are held up to their release.\<close>

fun suspends :: "qpc \<Rightarrow> bool" where
  "suspends Attempt = False"
| "suspends Suspend_all = False"
| "suspends Check_empty = False"
| "suspends Disinherit = False"
| "suspends (Done x) = False"
| "suspends _ = True"

fun locks :: "bool \<Rightarrow> qpc \<Rightarrow> bool" where
  "locks sd Lock = False"
| "locks sd (Unlock_rx r) = sd"
| "locks sd (Resume_all r) = False"
| "locks sd p = suspends p"

text \<open>A task that will run its attempt before it returns, and one that may be on the event list.\<close>

fun will_try :: "qpc \<Rightarrow> bool" where
  "will_try Attempt = True"
| "will_try (Unlock_tx r) = (r \<noteq> TimedOut)"
| "will_try (Unlock_rx r) = (r \<noteq> TimedOut)"
| "will_try (Resume_all r) = (r \<noteq> TimedOut)"
| "will_try _ = False"

fun blocked :: "qpc \<Rightarrow> bool" where
  "blocked (Unlock_tx r) = (r = Blocked)"
| "blocked (Unlock_rx r) = (r = Blocked)"
| "blocked (Resume_all r) = (r = Blocked)"
| "blocked _ = False"

text \<open>On the way to the event list: some of the block time is left.\<close>

definition has_time :: "qpc \<Rightarrow> bool" where
  [simp]: "has_time p \<longleftrightarrow> p \<in> {Suspend_all, Lock, Check_time_out, Check_again, Place}"

fun sends :: "qop \<Rightarrow> bool" where
  "sends (Send item p) = True"
| "sends _ = False"

definition wlist :: "bool \<Rightarrow> nat \<Rightarrow> nat" where
  "wlist sd q = (if sd then 2 * q else 2 * q + 1)"

lemma wait_list_wlist: "wait_list a q = EventList (wlist (sends a) q)"
  by (cases a) (simp_all add: wlist_def xTasksWaitingToSend_def xTasksWaitingToReceive_def)

lemma wlist_inject [simp]: "wlist b q = wlist b' q' \<longleftrightarrow> b = b' \<and> q = q'"
  by (auto simp: wlist_def) presburger+

lemma wlist_lists: "xTasksWaitingToSend q = EventList (wlist True q)" "xTasksWaitingToReceive q = EventList (wlist False q)"
  by (simp_all add: wlist_def xTasksWaitingToSend_def xTasksWaitingToReceive_def)

text \<open>What a sender and a receiver wait for: free slots, items.\<close>

definition avail :: "bool \<Rightarrow> Queue_t \<Rightarrow> nat" where
  "avail sd Q = (if sd then slots Q - fill Q else fill Q)"

definition lock :: "bool \<Rightarrow> Queue_t \<Rightarrow> 8 word" where
  "lock sd Q = (if sd then cRxLock Q else cTxLock Q)"

text \<open>The tasks of one side of a queue that are on their way to an attempt, not waiting.\<close>

definition triers :: "calls \<Rightarrow> kernel \<Rightarrow> bool \<Rightarrow> nat \<Rightarrow> nat set" where
  "triers cs k sd q = {t. \<exists>a c. cs t = Some (q, a, c) \<and> sends a = sd \<and> will_try (pc c) \<and>
     event_list k t \<noteq> Some (EventList (wlist sd q))}"

definition at_place :: "calls \<Rightarrow> bool \<Rightarrow> nat \<Rightarrow> bool" where
  "at_place cs sd q \<longleftrightarrow> (\<exists>t a c. cs t = Some (q, a, c) \<and> sends a = sd \<and> pc c = Place)"

text \<open>Every slot or item is matched by a task that will try for it or by a wake-up the lock has counted;
  a lock that has reached the number of tasks wakes them all.\<close>

definition covered :: "nat set \<Rightarrow> nat \<Rightarrow> nat set \<Rightarrow> 8 word \<Rightarrow> bool" where
  "covered T n X l \<longleftrightarrow> n \<le> card X + lock_count l \<or> card T \<le> lock_count l"

definition no_lost :: "nat set \<Rightarrow> calls \<Rightarrow> qkernel \<Rightarrow> bool \<Rightarrow> nat \<Rightarrow> bool" where
  "no_lost T cs s sd q \<longleftrightarrow>
     (waiters (EventList (wlist sd q)) (knl s) \<noteq> {} \<or> at_place cs sd q \<longrightarrow>
      covered T (avail sd (queue s q)) (triers cs (knl s) sd q) (lock sd (queue s q)))"

definition locked_by :: "calls \<Rightarrow> bool \<Rightarrow> nat \<Rightarrow> bool" where
  "locked_by cs sd q \<longleftrightarrow> (\<exists>t a c. cs t = Some (q, a, c) \<and> locks sd (pc c))"

definition lock_ok :: "nat set \<Rightarrow> calls \<Rightarrow> bool \<Rightarrow> nat \<Rightarrow> 8 word \<Rightarrow> bool" where
  "lock_ok T cs sd q l \<longleftrightarrow> (if locked_by cs sd q then 0 \<le> sint l \<and> sint l \<le> int (card T) else l = queueUNLOCKED)"

text \<open>The calls the application may make: the assertions of \<open>queue.c\<close>, for queues and semaphores (no mutexes).\<close>

fun valid_op :: "qop \<Rightarrow> Queue_t \<Rightarrow> bool" where
  "valid_op (Send item p) Q = (item_size Q \<le> length item \<and> (p = queueOVERWRITE \<longrightarrow> slots Q = 1 \<and> uxItemSize Q \<noteq> 0))"
| "valid_op Take Q = (uxItemSize Q = 0)"
| "valid_op _ Q = True"

definition call_ok :: "nat \<Rightarrow> nat set \<Rightarrow> nat set \<Rightarrow> qkernel \<Rightarrow> nat \<Rightarrow> nat \<times> qop \<times> qcall \<Rightarrow> bool" where
  "call_ok idle T QS s t = (\<lambda>(q, a, c). t \<in> T \<and> q \<in> QS \<and> valid_op a (queue s q) \<and>
     (suspends (pc c) \<longrightarrow> pxCurrentTCB (knl s) = Some t) \<and> (t = idle \<longrightarrow> ticks c = 0 \<and> (pc c = Attempt \<or> (\<exists>x. pc c = Done x))) \<and>
     (has_time (pc c) \<longrightarrow> ticks c \<noteq> 0) \<and> pc c \<noteq> Inherit_priority \<and> pc c \<noteq> Disinherit \<and> \<not> xInheritanceOccurred c)"

definition world_ok :: "nat \<Rightarrow> nat set \<Rightarrow> nat set \<Rightarrow> nat set \<Rightarrow> calls \<Rightarrow> qkernel \<Rightarrow> bool" where
  "world_ok idle T E QS cs s \<longleftrightarrow> kernel_win idle T E (knl s) \<and> card T \<le> 127 \<and>
     (\<forall>q\<in>QS. buffer (queue s q) \<and> pxQueueSetContainer (queue s q) = None \<and>
        (\<forall>sd. wlist sd q \<in> E \<and> lock_ok T cs sd q (lock sd (queue s q)) \<and> no_lost T cs s sd q)) \<and>
     (\<forall>t x. cs t = Some x \<longrightarrow> call_ok idle T QS s t x) \<and>
     uxSchedulerSuspended (knl s) = (if \<exists>t q a c. cs t = Some (q, a, c) \<and> suspends (pc c) then 1 else 0) \<and>
     ((\<exists>t q a c. cs t = Some (q, a, c) \<and> blocked (pc c)) \<or> run_inv (knl s)) \<and>
     (\<forall>t e. event_list (knl s) t = Some (EventList e) \<longrightarrow>
        (\<exists>q a c. cs t = Some (q, a, c) \<and> e = wlist (sends a) q \<and> (blocked (pc c) \<or> pc c = Attempt)))"

section \<open>What the invariant says\<close>

lemma world_okD:
  assumes "world_ok idle T E QS cs s"
  shows "kernel_win idle T E (knl s)" "card T \<le> 127"
    "q \<in> QS \<Longrightarrow> buffer (queue s q)" "q \<in> QS \<Longrightarrow> pxQueueSetContainer (queue s q) = None" "q \<in> QS \<Longrightarrow> wlist sd q \<in> E"
    "q \<in> QS \<Longrightarrow> lock_ok T cs sd q (lock sd (queue s q))" "q \<in> QS \<Longrightarrow> no_lost T cs s sd q"
    "cs t = Some x \<Longrightarrow> call_ok idle T QS s t x"
    "uxSchedulerSuspended (knl s) = (if \<exists>t q a c. cs t = Some (q, a, c) \<and> suspends (pc c) then 1 else 0)"
    "(\<exists>t q a c. cs t = Some (q, a, c) \<and> blocked (pc c)) \<or> run_inv (knl s)"
    "event_list (knl s) t = Some (EventList e) \<Longrightarrow> \<exists>q a c. cs t = Some (q, a, c) \<and> e = wlist (sends a) q \<and> (blocked (pc c) \<or> pc c = Attempt)"
  using assms unfolding world_ok_def by blast+

lemma kernel_winD:
  assumes "kernel_win idle T E k"
  shows "core_inv idle T E k" "prio_inv k" "susp_inv k" "uxSchedulerSuspended k = 0 \<Longrightarrow> run_inv k" "lists_inv T E k" "finite T" "T \<noteq> {}"
    "\<exists>c\<in>T. pxCurrentTCB k = Some c" "uxCurrentNumberOfTasks k = of_nat (card T)"
  using assms core_invD[of idle T E k] lists_inv_finite[of T E k] unfolding kernel_win_def by blast+

lemma blocked_suspends: "blocked p \<Longrightarrow> suspends p" "locks sd p \<Longrightarrow> suspends p" "blocked p \<Longrightarrow> will_try p"
  by (cases p; simp split: if_splits)+

lemma triers_T:
  assumes "world_ok idle T E QS cs s"
  shows "triers cs k sd q \<subseteq> T" "finite (triers cs k sd q)"
proof -
  show "triers cs k sd q \<subseteq> T" using world_okD(8)[OF assms] by (auto simp: triers_def call_ok_def)
  then show "finite (triers cs k sd q)" using kernel_winD(6)[OF world_okD(1)[OF assms]] finite_subset by blast
qed

lemma suspender:
  assumes w: "world_ok idle T E QS cs s" and cur: "pxCurrentTCB (knl s) = Some t" and c: "cs u = Some (q, a, c)" "suspends (pc c)"
  shows "u = t"
  using world_okD(8)[OF w c(1)] c(2) cur by (simp add: call_ok_def)

text \<open>Of the running task alone it depends whether the scheduler is suspended or a lock is held.\<close>

lemma current_suspends:
  assumes w: "world_ok idle T E QS cs s" and cur: "pxCurrentTCB (knl s) = Some t" and c: "cs t = Some (q, a, c)"
  shows "uxSchedulerSuspended (knl s) = (if suspends (pc c) then 1 else 0)"
    "locked_by cs sd p \<longleftrightarrow> p = q \<and> locks sd (pc c)" "blocked (pc c) \<or> run_inv (knl s)"
proof -
  note sus = suspender[OF w cur]
  show "uxSchedulerSuspended (knl s) = (if suspends (pc c) then 1 else 0)"
    using sus c unfolding world_okD(9)[OF w] by (metis option.inject prod.inject)
  show "locked_by cs sd p \<longleftrightarrow> p = q \<and> locks sd (pc c)"
    using sus c blocked_suspends(2) unfolding locked_by_def by (metis option.inject prod.inject)
  show "blocked (pc c) \<or> run_inv (knl s)"
    using sus c blocked_suspends(1) world_okD(10)[OF w] by (metis option.inject prod.inject)
qed

lemma idle_current:
  assumes w: "world_ok idle T E QS cs s" and cur: "pxCurrentTCB (knl s) = Some t" and c: "cs t = None"
  shows "uxSchedulerSuspended (knl s) = 0" "\<not> locked_by cs sd p" "run_inv (knl s)" "kernel_ok idle T E (knl s)"
proof -
  note sus = suspender[OF w cur]
  have n: "\<not> suspends (pc d)" if "cs u = Some (p, b, d)" for u p b d using sus[OF that] that c by auto
  show "uxSchedulerSuspended (knl s) = 0" using n unfolding world_okD(9)[OF w] by auto
  show "\<not> locked_by cs sd p" using n blocked_suspends(2) unfolding locked_by_def by blast
  show r: "run_inv (knl s)" using n blocked_suspends(1) world_okD(10)[OF w] by blast
  show "kernel_ok idle T E (knl s)" using r world_okD(1)[OF w] by (simp add: kernel_ok_win)
qed

lemma covered_mono:
  assumes "covered T n X l" "n' \<le> n" "X \<subseteq> X'" "finite X'" "lock_count l \<le> lock_count l'"
  shows "covered T n' X' l'"
  using assms card_mono[OF assms(4,3)] unfolding covered_def by linarith

text \<open>Fewer waiters, more triers: nothing is lost.\<close>

lemma no_lost_mono:
  assumes n: "no_lost T cs s sd q"
    and w: "waiters (EventList (wlist sd q)) (knl s') \<subseteq> waiters (EventList (wlist sd q)) (knl s)" "at_place cs' sd q \<longrightarrow> at_place cs sd q"
    and x: "triers cs (knl s) sd q \<subseteq> triers cs' (knl s') sd q" "finite (triers cs' (knl s') sd q)"
    and l: "avail sd (queue s' q) \<le> avail sd (queue s q)" "lock_count (lock sd (queue s q)) \<le> lock_count (lock sd (queue s' q))"
  shows "no_lost T cs' s' sd q"
  using n w(2) covered_mono[OF _ l(1) x l(2), of T] subset_empty[of "waiters (EventList (wlist sd q)) (knl s)"] w(1)
  unfolding no_lost_def by (metis subset_empty)

lemma triers_waiters:
  assumes "waiters (EventList (wlist sd q)) k' \<subseteq> waiters (EventList (wlist sd q)) k"
  shows "triers cs k sd q \<subseteq> triers cs k' sd q"
  using assms unfolding triers_def by blast

section \<open>Steps of the scheduler\<close>

lemma calm_waiters: "calm k k' \<Longrightarrow> waiters (EventList e) k' \<subseteq> waiters (EventList e) k"
  by (auto simp: calm_def)

text \<open>A step that leaves the queues alone and puts no task on an event list.\<close>

lemma world_kernel:
  assumes w: "world_ok idle T E QS cs s" and k: "kernel_win idle T E k'"
    and ev: "\<And>e. waiters (EventList e) k' \<subseteq> waiters (EventList e) (knl s)"
    and sus: "uxSchedulerSuspended k' = uxSchedulerSuspended (knl s)" and run: "run_inv (knl s) \<Longrightarrow> run_inv k'"
    and cur: "pxCurrentTCB k' = pxCurrentTCB (knl s) \<or> (\<forall>t q a c. cs t = Some (q, a, c) \<longrightarrow> \<not> suspends (pc c))"
  shows "world_ok idle T E QS cs (s\<lparr>knl := k'\<rparr>)"
proof -
  note d = world_okD[OF w]
  have "no_lost T cs (s\<lparr>knl := k'\<rparr>) sd q" if "q \<in> QS" for sd q
    by (rule no_lost_mono[OF d(7)[OF that]]) (use ev triers_waiters triers_T[OF w] in auto)
  moreover have "call_ok idle T QS (s\<lparr>knl := k'\<rparr>) t x" if "cs t = Some x" for t x
    using d(8)[OF that] cur that unfolding call_ok_def by (auto split: prod.split)
  moreover have "\<exists>q a c. cs t = Some (q, a, c) \<and> e = wlist (sends a) q \<and> (blocked (pc c) \<or> pc c = Attempt)"
    if "event_list k' t = Some (EventList e)" for t e
    using ev[of e] d(11)[of t e] that by auto
  moreover have "(\<exists>t q a c. cs t = Some (q, a, c) \<and> blocked (pc c)) \<or> run_inv k'" using d(10) run by blast
  ultimately show ?thesis using d(2-6,9) k sus unfolding world_ok_def by simp
qed

lemma window_current:
  assumes w: "world_ok idle T E QS cs s" and cur: "pxCurrentTCB (knl s) = Some t" and r: "\<not> run_inv (knl s)"
  shows "\<exists>q a c. cs t = Some (q, a, c) \<and> blocked (pc c)"
  using world_okD(10)[OF w] r suspender[OF w cur] blocked_suspends(1) by metis

text \<open>Ticks and calls of the scheduler: an interrupt at any time, a task when it has no queue call in progress.\<close>

lemma world_background:
  assumes w: "world_ok idle T E QS cs s" and a: "background a" "allowed idle T E a (knl s)"
    and task: "from_task a \<Longrightarrow> \<forall>t. pxCurrentTCB (knl s) = Some t \<longrightarrow> cs t = None"
  shows "\<exists>k'. perform a (knl s) = Some k' \<and> world_ok idle T E QS cs (s\<lparr>knl := k'\<rparr>)"
proof -
  let ?k = "knl s"
  note win = world_okD(1)[OF w]
  obtain t where t: "pxCurrentTCB ?k = Some t" using kernel_winD(8)[OF win] by blast
  show ?thesis
  proof (cases "run_inv ?k")
    case True
    then have ok: "kernel_ok idle T E ?k" using win by (simp add: kernel_ok_win)
    obtain k' where k': "perform a ?k = Some k'" using perform_ok[OF ok a(2)] by blast
    then have r: "kernel_ok idle T E k'" "calm ?k k'" using background_result[OF ok a] by blast+
    have "world_ok idle T E QS cs (s\<lparr>knl := k'\<rparr>)"
      by (rule world_kernel[OF w _ calm_waiters[OF r(2)]]) (use r in \<open>simp_all add: kernel_ok_win calm_def\<close>)
    then show ?thesis using k' by blast
  next
    case False
    obtain q b c where c: "cs t = Some (q, b, c)" "blocked (pc c)" using window_current[OF w t False] by blast
    have s1: "uxSchedulerSuspended ?k = 1" using current_suspends(1)[OF w t c(1)] blocked_suspends(1)[OF c(2)] by simp
    have isr: "\<not> from_task a" using task t c(1) by auto
    have "\<exists>k'. perform a ?k = Some k' \<and> kernel_win idle T E k' \<and> calm ?k k'"
    proof (cases a)
      case Tick
      have "kernel_win idle T E (?k\<lparr>xPendedTicks := xPendedTicks ?k + 1\<rparr>)"
        using win s1 by (simp add: kernel_win_def prio_inv_def susp_inv_def is_ready_def)
      moreover have "perform a ?k = Some (?k\<lparr>xPendedTicks := xPendedTicks ?k + 1\<rparr>)"
        using Tick s1 by (simp add: xPortSysTickHandler_def xTaskIncrementTick_def)
      ultimately show ?thesis by auto
    next
      case (ResumeFromISR u)
      show ?thesis
      proof (cases "prvTaskIsTaskSuspended u ?k")
        case True
        let ?h = "vListInsertEnd xPendingReadyList (xEventListItem u) ?k"
        have u: "state_list ?k u = Some xSuspendedTaskList" "event_list ?k u = None" using True by (simp_all add: prvTaskIsTaskSuspended_iff)
        have uT: "u \<in> T" using a(2) ResumeFromISR by (simp add: allowed_def)
        have h: "core_inv idle T E ?h" "kstep ?k ?h" "pxContainer ?h = (pxContainer ?k)(xEventListItem u := Some xPendingReadyList)"
          using hold_task[OF kernel_winD(1)[OF win] uT u(2)] u(1) by (auto simp: is_ready_def)
        note f = kstep_fields[OF h(2)]
        have rdy: "is_ready ?h v = is_ready ?k v" for v using h(3) by (simp add: is_ready_def f)
        have "kernel_win idle T E ?h" using win h(1) s1 unfolding kernel_win_def prio_inv_def susp_inv_def rdy f by simp
        moreover have run: "perform a ?k = Some ?h" using True s1 ResumeFromISR by (simp add: xTaskResumeFromISR_def)
        moreover have "calm ?k ?h" using run ResumeFromISR calm_resume_from_isr by auto
        ultimately show ?thesis by blast
      next
        case False
        then show ?thesis using ResumeFromISR win by (simp add: xTaskResumeFromISR_def)
      qed
    qed (use a isr in simp_all)
    then obtain k' where k': "perform a ?k = Some k'" "kernel_win idle T E k'" "calm ?k k'" by blast
    have "world_ok idle T E QS cs (s\<lparr>knl := k'\<rparr>)"
      by (rule world_kernel[OF w k'(2) calm_waiters[OF k'(3)]]) (use k'(3) False in \<open>simp_all add: calm_def\<close>)
    then show ?thesis using k' by blast
  qed
qed

lemma world_switch:
  assumes w: "world_ok idle T E QS cs s" and p: "pendsv (knl s)"
  shows "\<exists>k'. xPortPendSVHandler (knl s) = Some k' \<and> world_ok idle T E QS cs (s\<lparr>knl := k'\<rparr>)"
proof -
  let ?k = "knl s"
  note win = world_okD(1)[OF w]
  show ?thesis
  proof (cases "uxSchedulerSuspended ?k = 0")
    case True
    then have ok: "kernel_ok idle T E ?k" using win by (simp add: kernel_ok_def kernel_win_def)
    obtain k' where k': "xPortPendSVHandler ?k = Some k'" "kernel_ok idle T E k'" "uxSchedulerSuspended k' = 0" "pxContainer k' = pxContainer ?k"
      using switch_effect[OF ok True] by blast
    have "\<forall>t q a c. cs t = Some (q, a, c) \<longrightarrow> \<not> suspends (pc c)" using True unfolding world_okD(9)[OF w] by (auto split: if_splits)
    then have "world_ok idle T E QS cs (s\<lparr>knl := k'\<rparr>)"
      by (intro world_kernel[OF w]) (use k' True in \<open>simp_all add: kernel_ok_win\<close>)
    then show ?thesis using k'(1) by blast
  next
    case False
    let ?h = "?k\<lparr>pendsv := False, xYieldPending := True\<rparr>"
    have "kernel_win idle T E ?h" using win False by (simp add: kernel_win_def prio_inv_def susp_inv_def)
    then have "world_ok idle T E QS cs (s\<lparr>knl := ?h\<rparr>)"
      by (intro world_kernel[OF w]) (use False in \<open>auto simp: run_inv_def is_ready_def\<close>)
    then show ?thesis using False by (simp add: xPortPendSVHandler_def vTaskSwitchContext_def)
  qed
qed

section \<open>How the accounts change\<close>

lemma waiter_call:
  assumes "world_ok idle T E QS cs s" "u \<in> waiters (EventList (wlist sd q)) (knl s)"
  shows "\<exists>a c. cs u = Some (q, a, c) \<and> sends a = sd \<and> will_try (pc c) \<and> (blocked (pc c) \<or> pc c = Attempt)"
  using world_okD(11)[OF assms(1), of u] assms(2) blocked_suspends(3) by force

lemma waiters_T:
  assumes "world_ok idle T E QS cs s"
  shows "waiters (EventList e) (knl s) \<subseteq> T" "finite (waiters (EventList e) (knl s))"
proof -
  show "waiters (EventList e) (knl s) \<subseteq> T"
    using lists_inv_owner(2)[OF kernel_winD(5)[OF world_okD(1)[OF assms]]] by auto
  then show "finite (waiters (EventList e) (knl s))" using kernel_winD(6)[OF world_okD(1)[OF assms]] finite_subset by blast
qed

text \<open>The tasks in \<open>W\<close> are woken, those in \<open>D\<close> stop trying.\<close>

lemma no_lost_change:
  fixes T QS E cs cs' s s' sd q D W
  defines "l \<equiv> EventList (wlist sd q)"
  defines "L \<equiv> lock_count (lock sd (queue s q))" and "L' \<equiv> lock_count (lock sd (queue s' q))"
  assumes w: "world_ok idle T E QS cs s" and n: "no_lost T cs s sd q"
    and W: "W \<subseteq> waiters l (knl s)" "waiters l (knl s') = waiters l (knl s) - W"
    and X: "W \<union> (triers cs (knl s) sd q - D) \<subseteq> triers cs' (knl s') sd q" "finite (triers cs' (knl s') sd q)" "finite D"
    and P: "at_place cs' sd q \<longrightarrow> at_place cs sd q"
    and A: "W = waiters l (knl s) \<and> \<not> at_place cs' sd q \<or> card T \<le> L' \<or>
      avail sd (queue s' q) + card D + L \<le> avail sd (queue s q) + card W + L' \<and> (card T \<le> L \<longrightarrow> card T \<le> L')"
  shows "no_lost T cs' s' sd q"
proof -
  have fin: "finite (triers cs (knl s) sd q)" "finite W"
    using triers_T(2)[OF w] finite_subset[OF W(1)] waiters_T(2)[OF w] by (simp_all add: l_def)
  have dis: "W \<inter> (triers cs (knl s) sd q - D) = {}" using W(1) by (auto simp: triers_def l_def)
  have "card (triers cs (knl s) sd q) \<le> card (triers cs (knl s) sd q - D) + card D"
    by (metis card_mono card_Un_le fin(1) finite_Un finite_Diff X(3) Un_Diff_cancel2 Un_upper1 le_trans)
  moreover have "card W + card (triers cs (knl s) sd q - D) \<le> card (triers cs' (knl s') sd q)"
    using card_mono[OF X(2,1)] card_Un_disjoint[OF fin(2) _ dis] fin(1) by simp
  ultimately have c: "card (triers cs (knl s) sd q) + card W \<le> card (triers cs' (knl s') sd q) + card D" by linarith
  show ?thesis
    unfolding no_lost_def covered_def l_def[symmetric] L'_def[symmetric]
  proof
    assume a: "waiters l (knl s') \<noteq> {} \<or> at_place cs' sd q"
    then have "waiters l (knl s) \<noteq> {} \<or> at_place cs sd q" using W(2) P by blast
    then have "avail sd (queue s q) \<le> card (triers cs (knl s) sd q) + L \<or> card T \<le> L"
      using n unfolding no_lost_def covered_def l_def L_def by blast
    then show "avail sd (queue s' q) \<le> card (triers cs' (knl s') sd q) + L' \<or> card T \<le> L'"
      using A a W(2) c by auto
  qed
qed

text \<open>The running task changes only its own entry.\<close>

lemma triers_step:
  assumes w: "world_ok idle T E QS cs s" and c: "cs t = Some (q, a, c)" "t \<in> T"
    and ev: "waiters (EventList (wlist sd p)) k' - {t} \<subseteq> waiters (EventList (wlist sd p)) (knl s)"
  shows "triers cs (knl s) sd p - {t} \<subseteq> triers (cs(t \<mapsto> (q, a, c'))) k' sd p" "finite (triers (cs(t \<mapsto> (q, a, c'))) k' sd p)"
    "p \<noteq> q \<or> sends a \<noteq> sd \<Longrightarrow> t \<notin> triers cs (knl s) sd p"
proof -
  show "triers cs (knl s) sd p - {t} \<subseteq> triers (cs(t \<mapsto> (q, a, c'))) k' sd p" using ev by (auto simp: triers_def)
  have "triers (cs(t \<mapsto> (q, a, c'))) k' sd p \<subseteq> insert t T"
    using world_okD(8)[OF w] by (auto simp: triers_def call_ok_def split: if_splits)
  then show "finite (triers (cs(t \<mapsto> (q, a, c'))) k' sd p)"
    using kernel_winD(6)[OF world_okD(1)[OF w]] finite_subset by blast
  show "p \<noteq> q \<or> sends a \<noteq> sd \<Longrightarrow> t \<notin> triers cs (knl s) sd p" using c(1) by (auto simp: triers_def)
qed

lemma world_step:
  fixes c' :: qcall
  assumes w: "world_ok idle T E QS cs s" and cur: "pxCurrentTCB (knl s) = Some t" and c: "cs t = Some (q, a, c)"
  defines "cs' \<equiv> cs(t \<mapsto> (q, a, c'))"
  assumes K: "kernel_win idle T E (knl s')" "pxCurrentTCB (knl s') = Some t"
    and Q: "\<And>p. p \<noteq> q \<Longrightarrow> queue s' p = queue s p" "buffer (queue s' q)" "pxQueueSetContainer (queue s' q) = None"
      "uxLength (queue s' q) = uxLength (queue s q)" "uxItemSize (queue s' q) = uxItemSize (queue s q)"
    and L: "\<And>sd. if locks sd (pc c') then 0 \<le> sint (lock sd (queue s' q)) \<and> sint (lock sd (queue s' q)) \<le> int (card T)
      else lock sd (queue s' q) = queueUNLOCKED"
    and N: "\<And>sd. no_lost T cs' s' sd q"
    and C: "t = idle \<longrightarrow> ticks c' = 0 \<and> (pc c' = Attempt \<or> (\<exists>x. pc c' = Done x))"
      "has_time (pc c') \<longrightarrow> ticks c' \<noteq> 0" "pc c' \<noteq> Inherit_priority" "pc c' \<noteq> Disinherit" "\<not> xInheritanceOccurred c'"
    and S: "uxSchedulerSuspended (knl s') = (if suspends (pc c') then 1 else 0)"
    and R: "blocked (pc c') \<or> run_inv (knl s')"
    and V: "\<And>e. waiters (EventList e) (knl s') \<subseteq> waiters (EventList e) (knl s) \<union> (if e = wlist (sends a) q then {t} else {})"
      "\<And>e. event_list (knl s') t = Some (EventList e) \<Longrightarrow> blocked (pc c') \<or> pc c' = Attempt"
  shows "world_ok idle T E QS cs' s'"
proof -
  note d = world_okD[OF w]
  note sus = suspender[OF w cur]
  have t: "t \<in> T" "q \<in> QS" "valid_op a (queue s q)" using d(8)[OF c] by (simp_all add: call_ok_def)
  have geo: "slots (queue s' p) = slots (queue s p) \<and> item_size (queue s' p) = item_size (queue s p) \<and>
      uxItemSize (queue s' p) = uxItemSize (queue s p)" for p
    using Q(1,4,5) by (cases "p = q") (simp_all add: slots_def item_size_def)
  have val: "valid_op b (queue s' p) \<longleftrightarrow> valid_op b (queue s p)" for b p using geo[of p] by (cases b) simp_all
  have calls: "call_ok idle T QS s' u x" if "cs' u = Some x" for u x
  proof (cases "u = t")
    case True
    then have x: "x = (q, a, c')" using that by (simp add: cs'_def)
    show ?thesis using C K(2) t val True unfolding x call_ok_def by simp
  next
    case False
    then have u: "cs u = Some x" using that by (simp add: cs'_def)
    obtain p b e where x: "x = (p, b, e)" by (cases x) auto
    have "\<not> suspends (pc e)" using sus u False unfolding x by blast
    then show ?thesis using d(8)[OF u] val unfolding x call_ok_def by simp
  qed
  have others: "suspends (pc e) \<longleftrightarrow> u = t \<and> suspends (pc c')" if "cs' u = Some (p, b, e)" for u p b e
    using that sus by (auto simp: cs'_def split: if_splits)
  have t': "cs' t = Some (q, a, c')" by (simp add: cs'_def)
  have lk: "locked_by cs' sd p \<longleftrightarrow> p = q \<and> locks sd (pc c')" for sd p
    using others blocked_suspends(2) t' unfolding locked_by_def by (metis option.inject prod.inject)
  have lk0: "locked_by cs sd p \<longleftrightarrow> p = q \<and> locks sd (pc c)" for sd p by (rule current_suspends(2)[OF w cur c])
  have queues: "buffer (queue s' p) \<and> pxQueueSetContainer (queue s' p) = None \<and>
      (\<forall>sd. wlist sd p \<in> E \<and> lock_ok T cs' sd p (lock sd (queue s' p)) \<and> no_lost T cs' s' sd p)" if p: "p \<in> QS" for p
  proof (cases "p = q")
    case True
    then show ?thesis using Q(2,3) L N d(5)[OF p] by (simp add: lock_ok_def lk)
  next
    case False
    have "lock_ok T cs' sd p (lock sd (queue s' p))" for sd
      using d(6)[OF p, of sd] False unfolding lock_ok_def lk lk0 Q(1)[OF False] by simp
    moreover have "no_lost T cs' s' sd p" for sd
    proof (rule no_lost_mono[OF d(7)[OF p, of sd]])
      show sub: "waiters (EventList (wlist sd p)) (knl s') \<subseteq> waiters (EventList (wlist sd p)) (knl s)"
        using V(1)[of "wlist sd p"] False by simp
      show "at_place cs' sd p \<longrightarrow> at_place cs sd p" using False by (auto simp: at_place_def cs'_def split: if_splits)
      have ev: "waiters (EventList (wlist sd p)) (knl s') - {t} \<subseteq> waiters (EventList (wlist sd p)) (knl s)" using sub by blast
      note tr = triers_step[OF w c t(1) ev]
      show "triers cs (knl s) sd p \<subseteq> triers cs' (knl s') sd p" "finite (triers cs' (knl s') sd p)"
        using tr False unfolding cs'_def by blast+
    qed (use Q(1)[OF False] in simp_all)
    ultimately show ?thesis using d(3-5)[OF p] Q(1)[OF False] by simp
  qed
  have sus': "uxSchedulerSuspended (knl s') = (if \<exists>t q a c. cs' t = Some (q, a, c) \<and> suspends (pc c) then 1 else 0)"
    using S others t' by metis
  have run': "(\<exists>t q a c. cs' t = Some (q, a, c) \<and> blocked (pc c)) \<or> run_inv (knl s')" using R t' by blast
  have ev': "\<exists>q a c. cs' u = Some (q, a, c) \<and> e = wlist (sends a) q \<and> (blocked (pc c) \<or> pc c = Attempt)"
    if u: "event_list (knl s') u = Some (EventList e)" for u e
  proof (cases "u = t")
    case True
    have "event_list (knl s) t = Some (EventList e) \<or> e = wlist (sends a) q" using V(1)[of e] u True by (auto split: if_splits)
    then have "e = wlist (sends a) q" using d(11)[of t e] c by auto
    then show ?thesis using V(2) u True t' by blast
  next
    case False
    then have "event_list (knl s) u = Some (EventList e)" using V(1)[of e] u by (auto split: if_splits)
    then show ?thesis using d(11)[of u e] False by (simp add: cs'_def)
  qed
  show ?thesis using K(1) d(2) queues calls sus' run' ev' unfolding world_ok_def by blast
qed

text \<open>Steps that change the place in the loop alone, and may let the scheduler wake tasks.\<close>

lemma sint_lock [simp]: "lock_count queueUNLOCKED = 0" "lock_count 0 = 0"
  by (simp_all add: lock_count_def queueUNLOCKED_def)

lemma lock_state:
  assumes w: "world_ok idle T E QS cs s" and cur: "pxCurrentTCB (knl s) = Some t" and c: "cs t = Some (q, a, c)"
  shows "if locks sd (pc c) then 0 \<le> sint (lock sd (queue s q)) \<and> sint (lock sd (queue s q)) \<le> int (card T)
    else lock sd (queue s q) = queueUNLOCKED"
proof -
  have "q \<in> QS" using world_okD(8)[OF w c] by (simp add: call_ok_def)
  from world_okD(6)[OF w this, of sd] show ?thesis
    unfolding lock_ok_def current_suspends(2)[OF w cur c] by simp
qed

lemma world_pc:
  fixes c' :: qcall
  assumes w: "world_ok idle T E QS cs s" and cur: "pxCurrentTCB (knl s) = Some t" and c: "cs t = Some (q, a, c)"
  assumes K: "kernel_win idle T E k'" "calm (knl s) (k'\<lparr>uxSchedulerSuspended := uxSchedulerSuspended (knl s)\<rparr>)"
    and P: "\<And>sd. locks sd (pc c') = locks sd (pc c)"
    and trying: "will_try (pc c) \<and> \<not> will_try (pc c') \<longrightarrow> avail (sends a) (queue s q) = 0 \<and> t \<notin> waiters (EventList (wlist (sends a) q)) (knl s)"
    and place: "pc c' = Place \<longrightarrow> avail (sends a) (queue s q) = 0"
    and C: "t = idle \<longrightarrow> ticks c' = 0 \<and> (pc c' = Attempt \<or> (\<exists>x. pc c' = Done x))"
      "has_time (pc c') \<longrightarrow> ticks c' \<noteq> 0" "pc c' \<noteq> Inherit_priority" "pc c' \<noteq> Disinherit" "\<not> xInheritanceOccurred c'"
    and S: "uxSchedulerSuspended k' = (if suspends (pc c') then 1 else 0)"
    and R: "blocked (pc c') \<or> run_inv k'"
    and V: "\<And>e. event_list k' t = Some (EventList e) \<Longrightarrow> blocked (pc c') \<or> pc c' = Attempt"
  shows "world_ok idle T E QS (cs(t \<mapsto> (q, a, c'))) (s\<lparr>knl := k'\<rparr>)"
proof -
  note d = world_okD[OF w]
  have t: "t \<in> T" "q \<in> QS" using d(8)[OF c] by (simp_all add: call_ok_def)
  have sub: "waiters (EventList e) k' \<subseteq> waiters (EventList e) (knl s)" for e using K(2) by (auto simp: calm_def)
  show ?thesis
  proof (rule world_step[OF w cur c])
    show "no_lost T (cs(t \<mapsto> (q, a, c'))) (s\<lparr>knl := k'\<rparr>) sd q" for sd
    proof -
      have ev: "waiters (EventList (wlist sd q)) k' - {t} \<subseteq> waiters (EventList (wlist sd q)) (knl s)" using sub by blast
      note tr = triers_step[OF w c t(1) ev]
      show ?thesis
      proof (cases "avail sd (queue s q) = 0")
        case True
        then show ?thesis by (simp add: no_lost_def covered_def)
      next
        case False
        have "at_place (cs(t \<mapsto> (q, a, c'))) sd q \<longrightarrow> at_place cs sd q"
          using place False by (auto simp: at_place_def split: if_splits)
        moreover have "triers cs (knl s) sd q \<subseteq> triers (cs(t \<mapsto> (q, a, c'))) k' sd q"
        proof
          fix u assume u: "u \<in> triers cs (knl s) sd q"
          show "u \<in> triers (cs(t \<mapsto> (q, a, c'))) k' sd q"
          proof (cases "u = t")
            case True
            then have "sends a = sd" "will_try (pc c)" "t \<notin> waiters (EventList (wlist sd q)) (knl s)" using u c by (auto simp: triers_def)
            moreover have "will_try (pc c')" using trying False calculation by auto
            ultimately show ?thesis using True sub[of "wlist sd q"] by (auto simp: triers_def)
          qed (use tr(1) u in blast)
        qed
        ultimately show ?thesis using no_lost_mono[OF d(7)[OF t(2), of sd], of "s\<lparr>knl := k'\<rparr>"] sub tr(2) by simp
      qed
    qed
    show "if locks sd (pc c') then 0 \<le> sint (lock sd (queue (s\<lparr>knl := k'\<rparr>) q)) \<and> sint (lock sd (queue (s\<lparr>knl := k'\<rparr>) q)) \<le> int (card T)
      else lock sd (queue (s\<lparr>knl := k'\<rparr>) q) = queueUNLOCKED" for sd using lock_state[OF w cur c, of sd] P by simp
    show "waiters (EventList e) (knl (s\<lparr>knl := k'\<rparr>)) \<subseteq> waiters (EventList e) (knl s) \<union> (if e = wlist (sends a) q then {t} else {})" for e
      using sub by auto
  qed (use K cur d(3,4)[OF t(2)] C S R V in \<open>simp_all add: calm_def\<close>)
qed

section \<open>An attempt that succeeds\<close>

lemma kernel_win_yield:
  assumes "kernel_win idle T E k" "run_inv k" "uxSchedulerSuspended k = 0"
  shows "kernel_win idle T E (portYIELD k)" "run_inv (portYIELD k)"
  using assms by (auto simp: kernel_win_def portYIELD_def prio_inv_def run_inv_def susp_inv_def is_ready_def)

lemma running:
  assumes w: "world_ok idle T E QS cs s" and cur: "pxCurrentTCB (knl s) = Some t" and np: "\<not> pendsv (knl s)"
    and r: "run_inv (knl s)"
  shows "is_ready (knl s) t" "event_list (knl s) t = None"
proof -
  show "is_ready (knl s) t" using r np cur by (simp add: run_inv_def)
  then show "event_list (knl s) t = None" using lists_invD(7)[OF kernel_winD(5)[OF world_okD(1)[OF w]]] by blast
qed

lemma no_other_place:
  assumes w: "world_ok idle T E QS cs s" and cur: "pxCurrentTCB (knl s) = Some t"
    and c': "pc c' \<noteq> Place"
  shows "\<not> at_place (cs(t \<mapsto> (q, a, c'))) sd p"
proof
  assume "at_place (cs(t \<mapsto> (q, a, c'))) sd p"
  then obtain u b e where u: "(cs(t \<mapsto> (q, a, c'))) u = Some (p, b, e)" "pc e = Place" by (auto simp: at_place_def)
  then have "u \<noteq> t" "cs u = Some (p, b, e)" using c' by (auto split: if_splits)
  then show False using suspender[OF w cur, of u] u(2) by auto
qed

text \<open>The tasks that one wake-up takes off the list of side \<open>wsd\<close>.\<close>

lemma wake_set:
  assumes "if waiters l k = {} then k1 = k else \<exists>u\<in>waiters l k. \<forall>f. waiters (EventList f) k1 = waiters (EventList f) k - {u}"
  shows "\<exists>W\<subseteq>waiters l k. (\<forall>f. waiters (EventList f) k1 = waiters (EventList f) k - W) \<and> (W = waiters l k \<or> card W = 1)"
proof (cases "waiters l k = {}")
  case True
  then show ?thesis using assms by (intro exI[of _ "{}"]) simp
next
  case False
  then obtain u where "u \<in> waiters l k" "\<forall>f. waiters (EventList f) k1 = waiters (EventList f) k - {u}"
    using assms unfolding if_not_P[OF False] by blast
  then show ?thesis by (intro exI[of _ "{u}"]) simp
qed

lemma other_side:
  assumes W: "W \<subseteq> waiters (EventList (wlist wsd q)) k" "\<And>f. waiters (EventList f) k1 = waiters (EventList f) k - W"
  defines "W' \<equiv> \<lambda>sd. if sd = wsd then W else {}"
  shows "W' sd \<subseteq> waiters (EventList (wlist sd q)) k"
    "waiters (EventList (wlist sd q)) k1 = waiters (EventList (wlist sd q)) k - W' sd"
proof -
  show "W' sd \<subseteq> waiters (EventList (wlist sd q)) k" using W(1) by (auto simp: W'_def)
  show "waiters (EventList (wlist sd q)) k1 = waiters (EventList (wlist sd q)) k - W' sd"
    using W(1) unfolding W(2)[of "wlist sd q"] W'_def by auto
qed

text \<open>The attempt of the running task has changed the queue to \<open>Q\<close> and wakes the first waiter of side \<open>wsd\<close>.\<close>

lemma attempt_done:
  assumes w: "world_ok idle T E QS cs s" and cur: "pxCurrentTCB (knl s) = Some t" and c: "cs t = Some (q, a, c)"
    and at: "pc c = Attempt" "\<not> pendsv (knl s)"
    and s1: "queue s1 = (queue s)(q := Q)" "knl s1 = knl s"
    and Q: "buffer Q" "pxQueueSetContainer Q = None" "uxLength Q = uxLength (queue s q)" "uxItemSize Q = uxItemSize (queue s q)"
      "\<And>sd. lock sd Q = lock sd (queue s q)"
    and own: "\<And>sd. sd \<noteq> wsd \<Longrightarrow> avail sd Q + (if sends a = sd then 1 else 0) \<le> avail sd (queue s q) \<or> avail sd Q = 0"
    and other: "avail wsd Q + (if sends a = wsd then 1 else 0) \<le> avail wsd (queue s q) + 1"
  shows "\<exists>y k1. wake_first (EventList (wlist wsd q)) s1 = Some (y, s1\<lparr>knl := k1\<rparr>) \<and>
    (\<forall>k'. k' = k1 \<or> k' = portYIELD k1 \<longrightarrow> world_ok idle T E QS (cs(t \<mapsto> (q, a, c\<lparr>pc := Done r\<rparr>))) (s1\<lparr>knl := k'\<rparr>))"
proof -
  note d = world_okD[OF w]
  have t: "t \<in> T" "q \<in> QS" using d(8)[OF c] by (simp_all add: call_ok_def)
  have cs0: "uxSchedulerSuspended (knl s) = 0" "run_inv (knl s)" using current_suspends[OF w cur c] at by simp_all
  note run = running[OF w cur at(2) cs0(2)]
  have lk0: "lock sd (queue s q) = queueUNLOCKED" for sd using lock_state[OF w cur c, of sd] at(1) by simp
  obtain y k1 where k1: "wake_first (EventList (wlist wsd q)) s1 = Some (y, s1\<lparr>knl := k1\<rparr>)" "kernel_win idle T E k1" "calm (knl s) k1"
    "run_inv k1" and ws: "if waiters (EventList (wlist wsd q)) (knl s) = {} then k1 = knl s
     else \<exists>u\<in>waiters (EventList (wlist wsd q)) (knl s). \<forall>f. waiters (EventList f) k1 = waiters (EventList f) (knl s) - {u}"
    using wake_first_result[of idle T E s1 "wlist wsd q", unfolded s1(2), OF d(1) d(5)[OF t(2)]] cs0(2) by blast
  have s0: "uxSchedulerSuspended k1 = 0" using k1(3) cs0(1) by (simp add: calm_def)
  obtain W where W: "W \<subseteq> waiters (EventList (wlist wsd q)) (knl s)" "\<And>f. waiters (EventList f) k1 = waiters (EventList f) (knl s) - W"
    "W = waiters (EventList (wlist wsd q)) (knl s) \<or> card W = 1"
    using wake_set[OF ws] by blast
  have tW: "t \<notin> W" using W(1) run(2) by auto
  let ?cs = "cs(t \<mapsto> (q, a, c\<lparr>pc := Done r\<rparr>))"
  have np: "\<not> at_place ?cs sd q" for sd by (rule no_other_place[OF w cur]) simp
  have ok: "world_ok idle T E QS ?cs (s1\<lparr>knl := k'\<rparr>)" if k': "k' = k1 \<or> k' = portYIELD k1" for k'
  proof -
    have f: "pxContainer k' = pxContainer k1" "uxSchedulerSuspended k' = 0" "pxCurrentTCB k' = Some t" "kernel_win idle T E k'" "run_inv k'"
      using k' k1(2-4) s0 cur kernel_win_yield[OF k1(2,4) s0] by (auto simp: portYIELD_def calm_def)
    have ev: "waiters (EventList e) k' = waiters (EventList e) (knl s) - W" for e using W(2)[of e] f(1) by simp
    show ?thesis
    proof (rule world_step[OF w cur c])
      show "no_lost T ?cs (s1\<lparr>knl := k'\<rparr>) sd q" for sd
      proof (cases "avail sd Q = 0")
        case True
        then show ?thesis using s1(1) by (simp add: no_lost_def covered_def)
      next
        case False
        let ?W = "if sd = wsd then W else {}" and ?D = "if sends a = sd then {t} else {}"
        note W' = other_side[OF W(1) ev, of sd]
        have sub: "waiters (EventList (wlist sd q)) k' - {t} \<subseteq> waiters (EventList (wlist sd q)) (knl s)" using ev by auto
        note tr = triers_step[OF w c t(1) sub]
        have "?W \<subseteq> triers ?cs k' sd q"
        proof
          fix u assume u: "u \<in> ?W"
          then have "u \<noteq> t" "u \<notin> waiters (EventList (wlist sd q)) k'" using tW W'(2) by (auto split: if_splits)
          then show "u \<in> triers ?cs k' sd q" using waiter_call[OF w, of u sd q] u W'(1) by (auto simp: triers_def)
        qed
        then have X: "?W \<union> (triers cs (knl s) sd q - ?D) \<subseteq> triers ?cs k' sd q" using tr(1,3) by auto
        have A: "avail sd Q + card ?D \<le> avail sd (queue s q) + card ?W \<or> ?W = waiters (EventList (wlist sd q)) (knl s)"
          using W(3) own[of sd] other False by (cases "sd = wsd") auto
        show ?thesis
          by (rule no_lost_change[OF w d(7)[OF t(2)] W'(1), of _ ?D])
            (use W'(2) X tr(2) np A s1(1) lk0 Q(5) in \<open>auto simp del: Collect_empty_eq empty_Collect_eq\<close>)
      qed
      show "if locks sd (pc (c\<lparr>pc := Done r\<rparr>)) then 0 \<le> sint (lock sd (queue (s1\<lparr>knl := k'\<rparr>) q)) \<and>
          sint (lock sd (queue (s1\<lparr>knl := k'\<rparr>) q)) \<le> int (card T) else lock sd (queue (s1\<lparr>knl := k'\<rparr>) q) = queueUNLOCKED" for sd
        using lk0 Q(5) s1(1) by simp
      show "waiters (EventList e) (knl (s1\<lparr>knl := k'\<rparr>)) \<subseteq> waiters (EventList e) (knl s) \<union> (if e = wlist (sends a) q then {t} else {})" for e
        using ev[of e] by auto
      show "blocked (pc (c\<lparr>pc := Done r\<rparr>)) \<or> pc (c\<lparr>pc := Done r\<rparr>) = Attempt" if "event_list (knl (s1\<lparr>knl := k'\<rparr>)) t = Some (EventList e)" for e
      proof -
        have "t \<in> waiters (EventList e) k'" using that by simp
        then show ?thesis unfolding ev using run(2) by simp
      qed
    qed (use f s1 Q d(8)[OF c] at in \<open>simp_all add: call_ok_def\<close>)
  qed
  show ?thesis using k1(1) ok by blast
qed

end
