(* ===== verification/FRQueueRun.thy ===== *)
theory FRQueueRun
  imports FRQueueSys
begin

text \<open>
  The steps of the queue functions in the world of \<open>FRQueueSys\<close>: every step of a call, of an interrupt
  and of the scheduler is defined and keeps the invariant; what a completed attempt does to the items.
\<close>

section \<open>The attempt\<close>

text \<open>A successful attempt changes the queue and wakes the first waiter of one side.\<close>

definition attempt_effect :: "qop \<Rightarrow> Queue_t \<Rightarrow> Queue_t \<Rightarrow> 8 word list \<Rightarrow> bool" where
  "attempt_effect a Q Q' x \<longleftrightarrow>
     (case a of
        Send item p \<Rightarrow> can_put p Q \<and> x = [] \<and> copied Q Q' \<and> contents Q' = put p (take (item_size Q) item) (contents Q)
      | Peek \<Rightarrow> 0 < fill Q \<and> x = hd (contents Q) \<and> Q' = Q
      | _ \<Rightarrow> 0 < fill Q \<and> x = hd (contents Q) \<and> copied Q Q' \<and> contents Q' = tl (contents Q))"

text \<open>Which side it wakes: everything but receiving and taking wakes receivers.\<close>

definition wakes :: "qop \<Rightarrow> bool" where
  "wakes a \<longleftrightarrow> a = Receive \<or> a = Take"

lemma full_iff: "buffer Q \<Longrightarrow> uxMessagesWaiting Q < uxLength Q \<longleftrightarrow> fill Q < slots Q" "uxMessagesWaiting Q > 0 \<longleftrightarrow> 0 < fill Q"
  by (simp_all add: word_less_nat_alt fill_def slots_def)

lemma can_put_iff: "valid_op (Send item p) Q \<Longrightarrow> can_put p Q \<longleftrightarrow> fill Q < slots Q \<or> p = queueOVERWRITE"
  by (auto simp: can_put_def)

text \<open>Whether the attempt succeeds.\<close>

definition can_do :: "qop \<Rightarrow> Queue_t \<Rightarrow> bool" where
  "can_do a Q \<longleftrightarrow> (case a of Send item p \<Rightarrow> can_put p Q | _ \<Rightarrow> 0 < fill Q)"

lemma attempt_fails:
  assumes "buffer (queue s q)" "valid_op a (queue s q)" "\<not> can_do a (queue s q)"
  shows "attempt a q s = Some (None, s)" "avail (sends a) (queue s q) = 0" "must_wait a q s"
proof -
  note b = bufferD(2)[OF assms(1)]
  show "attempt a q s = Some (None, s)"
  proof (cases a)
    case (Send item p)
    then have "\<not> (uxMessagesWaiting (queue s q) < uxLength (queue s q) \<or> p = queueOVERWRITE)"
      using assms(2,3) can_put_iff[of item p] full_iff(1)[OF assms(1)] by (simp add: can_do_def)
    then show ?thesis using Send by (simp only: attempt.simps send_attempt_def if_False option.map prod.case)
  qed (use assms(3) full_iff(2)[of "queue s q"] in \<open>simp_all only: can_do_def qop.case attempt.simps receive_attempt_def take_attempt_def
    peek_attempt_def Let_def if_False option.map prod.case\<close>)
  have none: "if sends a then \<not> fill (queue s q) < slots (queue s q) else fill (queue s q) = 0"
  proof (cases a)
    case (Send item p)
    then show ?thesis using assms(2,3) can_put_iff[of item p "queue s q"] by (simp add: can_do_def)
  qed (use assms(3) in \<open>simp_all add: can_do_def\<close>)
  then show "avail (sends a) (queue s q) = 0" by (simp add: avail_def split: if_splits)
  have full: "fill (queue s q) = slots (queue s q) \<longleftrightarrow> uxMessagesWaiting (queue s q) = uxLength (queue s q)"
    by (simp add: fill_def slots_def word_unat_eq_iff)
  show "must_wait a q s" using none b full
    by (cases a) (auto simp: prvIsQueueFull_def prvIsQueueEmpty_def fill_def unat_eq_0)
qed

lemma attempt_succeeds:
  assumes b: "buffer (queue s q)" and v: "valid_op a (queue s q)" and can: "can_do a (queue s q)" and set: "pxQueueSetContainer (queue s q) = None"
  shows "\<exists>Q x. buffer Q \<and> attempt_effect a (queue s q) Q x \<and>
    attempt a q s = map_option (\<lambda>(y, s'). (Some x, if y then queueYIELD_IF_USING_PREEMPTION s' else s'))
      (wake_first (EventList (wlist (wakes a) q)) (s\<lparr>queue := (queue s)(q := Q)\<rparr>))"
proof (cases a)
  case (Send item p)
  have room: "can_put p (queue s q)" and item: "length item \<ge> item_size (queue s q)" using can v Send by (simp_all add: can_do_def)
  obtain Q where Q: "prvCopyDataToQueue q item p s = Some (False, s\<lparr>queue := (queue s)(q := Q)\<rparr>)" "buffer Q" "copied (queue s q) Q"
    "contents Q = put p (take (item_size (queue s q)) item) (contents (queue s q))" using put_result[OF b room item] by blast
  have guard: "uxMessagesWaiting (queue s q) < uxLength (queue s q) \<or> p = queueOVERWRITE"
    using can_put_iff[of item p] v room full_iff(1)[OF b] Send by auto
  have "attempt a q s = map_option (\<lambda>(y, s'). (Some [], if y then queueYIELD_IF_USING_PREEMPTION s' else s'))
      (wake_first (xTasksWaitingToReceive q) (s\<lparr>queue := (queue s)(q := Q)\<rparr>))"
    using guard Q(1) copiedD(8)[OF Q(3)] set Send
    by (auto simp: send_attempt_def post_item_def wake_first_def split: bind_split)
  then show ?thesis using Q(2-4) room Send by (auto simp: attempt_effect_def wakes_def wlist_lists)
next
  case Receive
  have some: "0 < fill (queue s q)" using can Receive by (simp add: can_do_def)
  obtain r where r: "prvCopyDataFromQueue q s = Some (hd (contents (queue s q)), upd_queue q (\<lambda>Q. Q\<lparr>pcReadFrom := r\<rparr>) s)"
    "let Q = (queue s q)\<lparr>pcReadFrom := r, uxMessagesWaiting := uxMessagesWaiting (queue s q) - 1\<rparr>
     in buffer Q \<and> contents Q = tl (contents (queue s q))" using get_result[OF b some] by blast
  let ?Q = "(queue s q)\<lparr>pcReadFrom := r, uxMessagesWaiting := uxMessagesWaiting (queue s q) - 1\<rparr>"
  have "attempt a q s = map_option (\<lambda>(y, s'). (Some (hd (contents (queue s q))), if y then queueYIELD_IF_USING_PREEMPTION s' else s'))
      (wake_first (xTasksWaitingToSend q) (s\<lparr>queue := (queue s)(q := ?Q)\<rparr>))"
    using some r(1) full_iff(2)[of "queue s q"] Receive
    by (auto simp: receive_attempt_def wake_sender_def upd_queue_def Let_def split: bind_split)
  then show ?thesis using r(2) some Receive
    by (intro exI[of _ ?Q] exI[of _ "hd (contents (queue s q))"]) (simp add: Let_def attempt_effect_def wakes_def wlist_lists copied_def)
next
  case Take
  have z: "uxItemSize (queue s q) = 0" using v Take by simp
  have some: "0 < fill (queue s q)" using can Take by (simp add: can_do_def)
  obtain r where "let Q = (queue s q)\<lparr>pcReadFrom := r, uxMessagesWaiting := uxMessagesWaiting (queue s q) - 1\<rparr>
     in buffer Q \<and> contents Q = tl (contents (queue s q))" using get_result[OF b some] by blast
  let ?Q = "(queue s q)\<lparr>uxMessagesWaiting := uxMessagesWaiting (queue s q) - 1\<rparr>"
  have f: "fill ?Q = fill (queue s q) - 1" using some by (simp add: fill_def unat_minus_one unat_gt_0)
  have "semaphore (queue s q)" using b z by (auto simp: buffer_def ring_ok_def item_size_def)
  then have Q: "buffer ?Q" using f by (auto simp: buffer_def semaphore_def)
  have c: "contents ?Q = tl (contents (queue s q))" "hd (contents (queue s q)) = []"
    using f z some by (simp_all add: semaphore_contents hd_replicate)
  have "attempt a q s = map_option (\<lambda>(y, s'). (Some [], if y then queueYIELD_IF_USING_PREEMPTION s' else s'))
      (wake_first (xTasksWaitingToSend q) (s\<lparr>queue := (queue s)(q := ?Q)\<rparr>))"
    using some full_iff(2)[of "queue s q"] bufferD(4)[OF Q] Take
    by (auto simp: take_attempt_def wake_sender_def upd_queue_def Let_def split: bind_split)
  then show ?thesis using Q c some Take
    by (intro exI[of _ ?Q] exI[of _ "[]"]) (simp add: attempt_effect_def wakes_def wlist_lists copied_def)
next
  case Peek
  have some: "0 < fill (queue s q)" using can Peek by (simp add: can_do_def)
  obtain r where r: "prvCopyDataFromQueue q s = Some (hd (contents (queue s q)), upd_queue q (\<lambda>Q. Q\<lparr>pcReadFrom := r\<rparr>) s)"
    using get_result[OF b some] by blast
  have "attempt a q s = map_option (\<lambda>(y, s'). (Some (hd (contents (queue s q))), if y then queueYIELD_IF_USING_PREEMPTION s' else s'))
      (wake_first (xTasksWaitingToReceive q) (s\<lparr>queue := (queue s)(q := queue s q)\<rparr>))"
    using some r(1) full_iff(2)[of "queue s q"] Peek
    by (auto simp: peek_attempt_def upd_queue_def Let_def split: bind_split)
  then show ?thesis using b some Peek
    by (intro exI[of _ "queue s q"] exI[of _ "hd (contents (queue s q))"]) (simp add: attempt_effect_def wakes_def wlist_lists)
qed

text \<open>How it changes what senders and receivers wait for.\<close>

lemma effect_avail:
  assumes e: "attempt_effect a Q Q' x" and b: "buffer Q" "buffer Q'"
  shows "sd \<noteq> wakes a \<Longrightarrow> avail sd Q' + (if sends a = sd then 1 else 0) \<le> avail sd Q \<or> avail sd Q' = 0"
    "avail (wakes a) Q' + (if sends a = wakes a then 1 else 0) \<le> avail (wakes a) Q + 1"
proof -
  have len: "fill Q' = (case a of Send item p \<Rightarrow> if p = queueOVERWRITE then 1 else fill Q + 1 | Peek \<Rightarrow> fill Q | _ \<Rightarrow> fill Q - 1)"
  proof (cases a)
    case (Send item p)
    then have "length (contents Q') = length (put p (take (item_size Q) item) (contents Q))" using e by (simp add: attempt_effect_def)
    then show ?thesis using Send by (cases p) simp_all
  qed (use e in \<open>auto simp: attempt_effect_def simp flip: length_contents\<close>)
  have sl: "slots Q' = slots Q" using e copiedD(9)[of Q Q'] by (cases a) (auto simp: attempt_effect_def)
  note le = bufferD(2)[OF b(1)]
  have pos: "can_put p Q \<Longrightarrow> p \<noteq> queueOVERWRITE \<Longrightarrow> fill Q < slots Q" "can_put p Q \<Longrightarrow> p = queueOVERWRITE \<Longrightarrow> slots Q = 1" for p
    by (simp_all add: can_put_def)
  show "sd \<noteq> wakes a \<Longrightarrow> avail sd Q' + (if sends a = sd then 1 else 0) \<le> avail sd Q \<or> avail sd Q' = 0"
    using e len sl le pos by (cases a; cases sd) (auto simp: attempt_effect_def wakes_def avail_def)
  show "avail (wakes a) Q' + (if sends a = wakes a then 1 else 0) \<le> avail (wakes a) Q + 1"
    using e len sl le by (cases a) (auto simp: attempt_effect_def wakes_def avail_def)
qed

lemma effect_frame:
  assumes "attempt_effect a Q Q' x"
  shows "uxLength Q' = uxLength Q" "uxItemSize Q' = uxItemSize Q" "lock sd Q' = lock sd Q" "pxQueueSetContainer Q' = pxQueueSetContainer Q"
  using assms copiedD[of Q Q'] by (cases a; simp add: attempt_effect_def lock_def)+

section \<open>The steps of a call\<close>

text \<open>What a step of the running task is to show.\<close>

definition step_fine :: "nat \<Rightarrow> nat set \<Rightarrow> nat set \<Rightarrow> nat set \<Rightarrow> calls \<Rightarrow> qkernel \<Rightarrow> nat \<Rightarrow> nat \<Rightarrow> qop \<Rightarrow> (qcall \<times> qkernel) option \<Rightarrow> bool" where
  "step_fine idle T E QS cs s t q a r \<longleftrightarrow> (\<exists>c' s'. r = Some (c', s') \<and> world_ok idle T E QS (cs(t \<mapsto> (q, a, c'))) s')"

lemma step_fineI: "r = Some (c', s') \<Longrightarrow> world_ok idle T E QS (cs(t \<mapsto> (q, a, c'))) s' \<Longrightarrow> step_fine idle T E QS cs s t q a r"
  by (simp add: step_fine_def)

lemma no_event:
  assumes w: "world_ok idle T E QS cs s" and cur: "pxCurrentTCB (knl s) = Some t" and np: "\<not> pendsv (knl s)"
    and c: "cs t = Some (q, a, c)" "\<not> blocked (pc c)"
  shows "event_list (knl s) t = None" "is_ready (knl s) t"
  using running[OF w cur np] current_suspends(3)[OF w cur c(1)] c(2) by blast+

lemma world_stay:
  fixes c' :: qcall
  assumes w: "world_ok idle T E QS cs s" and cur: "pxCurrentTCB (knl s) = Some t" and np: "\<not> pendsv (knl s)"
    and c: "cs t = Some (q, a, c)" "\<not> blocked (pc c)"
    and P: "suspends (pc c') = suspends (pc c)" "\<And>sd. locks sd (pc c') = locks sd (pc c)"
    and trying: "will_try (pc c) \<and> \<not> will_try (pc c') \<longrightarrow> avail (sends a) (queue s q) = 0"
    and place: "pc c' = Place \<longrightarrow> avail (sends a) (queue s q) = 0"
    and C: "t = idle \<longrightarrow> ticks c' = 0 \<and> (pc c' = Attempt \<or> (\<exists>x. pc c' = Done x))"
      "has_time (pc c') \<longrightarrow> ticks c' \<noteq> 0" "pc c' \<noteq> Inherit_priority" "pc c' \<noteq> Disinherit" "\<not> xInheritanceOccurred c'"
  shows "world_ok idle T E QS (cs(t \<mapsto> (q, a, c'))) s"
proof -
  note ev = no_event(1)[OF w cur np c]
  have "world_ok idle T E QS (cs(t \<mapsto> (q, a, c'))) (s\<lparr>knl := knl s\<rparr>)"
    by (rule world_pc[OF w cur c(1) world_okD(1)[OF w]])
      (use P trying place C ev current_suspends[OF w cur c(1)] c(2) in \<open>simp_all add: calm_same\<close>)
  then show ?thesis by simp
qed

lemma not_idle:
  assumes "world_ok idle T E QS cs s" "cs t = Some (q, a, c)" "suspends (pc c) \<or> pc c = Suspend_all \<or> pc c = Check_empty"
  shows "t \<noteq> idle"
  using world_okD(8)[OF assms(1,2)] assms(3) by (auto simp: call_ok_def)

lemma attempt_step:
  assumes w: "world_ok idle T E QS cs s" and cur: "pxCurrentTCB (knl s) = Some t" and np: "\<not> pendsv (knl s)"
    and c: "cs t = Some (q, a, c)" and p: "pc c = Attempt"
  shows "step_fine idle T E QS cs s t q a (queue_step a q c s)"
proof -
  note d = world_okD[OF w]
  have t: "q \<in> QS" "valid_op a (queue s q)" and i: "t = idle \<longrightarrow> ticks c = 0" "\<not> xInheritanceOccurred c"
    using d(8)[OF c] by (auto simp: call_ok_def)
  note b = d(3)[OF t(1)] and n = d(4)[OF t(1)]
  show ?thesis
  proof (cases "can_do a (queue s q)")
    case False
    note f = attempt_fails[OF b t(2) False]
    let ?c = "if ticks c = 0 then c\<lparr>pc := Done None\<rparr>
      else if \<not> xEntryTimeSet c then c\<lparr>pc := Suspend_all, xTimeOut := vTaskInternalSetTimeOutState (knl s), xEntryTimeSet := True\<rparr>
      else c\<lparr>pc := Suspend_all\<rparr>"
    have "queue_step a q c s = Some (?c, s)" using p f(1) by (simp add: queue_step.simps)
    moreover have "world_ok idle T E QS (cs(t \<mapsto> (q, a, ?c))) s"
      by (rule world_stay[OF w cur np c]) (use p f(2) i in auto)
    ultimately show ?thesis by (rule step_fineI)
  next
    case True
    obtain Q x where Q: "buffer Q" "attempt_effect a (queue s q) Q x" and run: "attempt a q s =
      map_option (\<lambda>(y, s'). (Some x, if y then queueYIELD_IF_USING_PREEMPTION s' else s'))
        (wake_first (EventList (wlist (wakes a) q)) (s\<lparr>queue := (queue s)(q := Q)\<rparr>))"
      using attempt_succeeds[OF b t(2) True n] by blast
    note f = effect_frame[OF Q(2)]
    let ?s = "s\<lparr>queue := (queue s)(q := Q)\<rparr>" and ?c = "c\<lparr>pc := Done (Some x)\<rparr>"
    obtain y k1 where k1: "wake_first (EventList (wlist (wakes a) q)) ?s = Some (y, ?s\<lparr>knl := k1\<rparr>)"
      "\<And>k'. k' = k1 \<or> k' = portYIELD k1 \<Longrightarrow> world_ok idle T E QS (cs(t \<mapsto> (q, a, ?c))) (?s\<lparr>knl := k'\<rparr>)"
      using attempt_done[OF w cur c p np, of ?s Q "wakes a" "Some x"] Q(1) f effect_avail[OF Q(2) b Q(1)] n by auto
    have "queue_step a q c s = Some (?c, ?s\<lparr>knl := if y then portYIELD k1 else k1\<rparr>)"
      using p run k1(1) by (simp add: queue_step.simps queueYIELD_IF_USING_PREEMPTION_def)
    then show ?thesis by (rule step_fineI) (rule k1(2), simp)
  qed
qed

lemma check_empty_step:
  assumes w: "world_ok idle T E QS cs s" and cur: "pxCurrentTCB (knl s) = Some t" and np: "\<not> pendsv (knl s)"
    and c: "cs t = Some (q, a, c)" and p: "pc c = Check_empty \<or> pc c = Done x"
  shows "step_fine idle T E QS cs s t q a (queue_step a q c s)"
proof -
  have i: "\<not> xInheritanceOccurred c" using world_okD(8)[OF w c] by (simp add: call_ok_def)
  show ?thesis using p
  proof
    assume p: "pc c = Check_empty"
    let ?c = "c\<lparr>pc := (if \<not> prvIsQueueEmpty q s then Attempt else Done None)\<rparr>"
    have "queue_step a q c s = Some (?c, s)" using p i by (auto simp: queue_step.simps)
    moreover have "world_ok idle T E QS (cs(t \<mapsto> (q, a, ?c))) s"
      by (rule world_stay[OF w cur np c]) (use p i not_idle[OF w c] in auto)
    ultimately show ?thesis by (rule step_fineI)
  next
    assume p: "pc c = Done x"
    then have "queue_step a q c s = Some (c, s)" by (simp add: queue_step.simps)
    moreover have "cs(t \<mapsto> (q, a, c)) = cs" using c by auto
    ultimately show ?thesis using w by (simp add: step_fine_def)
  qed
qed

lemma check_time_out_ticks:
  assumes "xTaskCheckForTimeOut to n k = (False, to', n')" "n \<noteq> 0"
  shows "n' \<noteq> 0"
proof -
  have "m - e \<noteq> 0" if "e < m" for e m :: "32 word" using that by auto
  then show ?thesis using assms by (auto simp: xTaskCheckForTimeOut_def Let_def portMAX_DELAY_def split: if_splits)
qed

lemma check_time_out_step:
  assumes w: "world_ok idle T E QS cs s" and cur: "pxCurrentTCB (knl s) = Some t" and np: "\<not> pendsv (knl s)"
    and c: "cs t = Some (q, a, c)" and p: "pc c = Check_time_out"
  shows "step_fine idle T E QS cs s t q a (queue_step a q c s)"
proof -
  have i: "\<not> xInheritanceOccurred c" "ticks c \<noteq> 0" using world_okD(8)[OF w c] p by (simp_all add: call_ok_def)
  obtain e to n where e: "xTaskCheckForTimeOut (xTimeOut c) (ticks c) (knl s) = (e, to, n)" by (cases "xTaskCheckForTimeOut (xTimeOut c) (ticks c) (knl s)")
  have n: "\<not> e \<longrightarrow> n \<noteq> 0" using check_time_out_ticks[of "xTimeOut c" "ticks c" "knl s" to n] e i(2) by (cases e) simp_all
  let ?c = "c\<lparr>xTimeOut := to, ticks := n, pc := (if e then Unlock_tx TimedOut else Check_again)\<rparr>"
  have "queue_step a q c s = Some (?c, s)" using p e by (simp add: queue_step.simps Let_def)
  moreover have "world_ok idle T E QS (cs(t \<mapsto> (q, a, ?c))) s"
    by (rule world_stay[OF w cur np c]) (use p i n not_idle[OF w c] in auto)
  ultimately show ?thesis by (rule step_fineI)
qed

lemma must_wait_avail:
  assumes "buffer (queue s q)" "must_wait a q s"
  shows "avail (sends a) (queue s q) = 0"
  using assms by (cases a) (simp_all add: prvIsQueueFull_def prvIsQueueEmpty_def avail_def fill_def slots_def)

lemma check_again_step:
  assumes w: "world_ok idle T E QS cs s" and cur: "pxCurrentTCB (knl s) = Some t" and np: "\<not> pendsv (knl s)"
    and c: "cs t = Some (q, a, c)" and p: "pc c = Check_again"
  shows "step_fine idle T E QS cs s t q a (queue_step a q c s)"
proof -
  have i: "\<not> xInheritanceOccurred c" "ticks c \<noteq> 0" "q \<in> QS" using world_okD(8)[OF w c] p by (simp_all add: call_ok_def)
  note b = world_okD(3)[OF w i(3)]
  let ?c = "c\<lparr>pc := (if \<not> must_wait a q s then Unlock_tx Retry else Place)\<rparr>"
  have "queue_step a q c s = Some (?c, s)" using p bufferD(4)[OF b] by (simp add: queue_step.simps)
  moreover have "world_ok idle T E QS (cs(t \<mapsto> (q, a, ?c))) s"
    by (rule world_stay[OF w cur np c]) (use p i must_wait_avail[OF b] not_idle[OF w c] in auto)
  ultimately show ?thesis by (rule step_fineI)
qed

lemma suspend_step:
  assumes w: "world_ok idle T E QS cs s" and cur: "pxCurrentTCB (knl s) = Some t" and np: "\<not> pendsv (knl s)"
    and c: "cs t = Some (q, a, c)" and p: "pc c = Suspend_all"
  shows "step_fine idle T E QS cs s t q a (queue_step a q c s)"
proof -
  note ev = no_event[OF w cur np c] and d = world_okD[OF w] and f = current_suspends[OF w cur c]
  let ?k = "vTaskSuspendAll (knl s)"
  have k: "kernel_win idle T E ?k" "run_inv ?k" "calm (knl s) (?k\<lparr>uxSchedulerSuspended := uxSchedulerSuspended (knl s)\<rparr>)"
    using d(1) f(1,3) p np by (auto simp: kernel_win_def vTaskSuspendAll_def prio_inv_def run_inv_def susp_inv_def is_ready_def calm_def)
  have "queue_step a q c s = Some (c\<lparr>pc := Lock\<rparr>, s\<lparr>knl := ?k\<rparr>)" using p by (simp add: queue_step.simps)
  then show ?thesis
    by (rule step_fineI, intro world_pc[OF w cur c k(1,3)])
      (use p f k(2) ev not_idle[OF w c] d(8)[OF c] in \<open>auto simp: vTaskSuspendAll_def call_ok_def\<close>)
qed

lemma resume_step:
  assumes w: "world_ok idle T E QS cs s" and cur: "pxCurrentTCB (knl s) = Some t" and np: "\<not> pendsv (knl s)"
    and c: "cs t = Some (q, a, c)" and p: "pc c = Resume_all r"
  shows "step_fine idle T E QS cs s t q a (queue_step a q c s)"
proof -
  note d = world_okD[OF w] and f = current_suspends[OF w cur c]
  have s1: "uxSchedulerSuspended (knl s) = 1" using f p by simp
  obtain y k1 where k1: "xTaskResumeAll (knl s) = Some (y, k1)" "core_inv idle T E k1" "prio_inv k1" "susp_inv k1" "kept (knl s) k1"
    "y \<longrightarrow> pendsv k1" "uxSchedulerSuspended k1 = 0"
    using resume_core[OF _ _ s1] d(1) unfolding kernel_win_def by blast
  define k' where "k' = (if r = Blocked \<and> \<not> y then portYIELD k1 else k1)"
  let ?c = "c\<lparr>pc := (case r of TimedOut \<Rightarrow> (case a of Send item p \<Rightarrow> Done None | _ \<Rightarrow> Check_empty) | _ \<Rightarrow> Attempt)\<rparr>"
  have run: "queue_step a q c s = Some (?c, s\<lparr>knl := k'\<rparr>)" using p k1(1) by (simp add: queue_step.simps k'_def)
  have calm: "calm (knl s) (k'\<lparr>uxSchedulerSuspended := uxSchedulerSuspended (knl s)\<rparr>)"
    using calm_resume_all[OF k1(1)] by (simp add: calm_def k'_def portYIELD_def s1)
  have cur1: "pxCurrentTCB k1 = Some t" using k1(5) cur by (simp add: kept_def)
  have r: "run_inv k'"
  proof (cases "r = Blocked")
    case True
    then show ?thesis using k1(6,7) by (auto simp: k'_def run_inv_def portYIELD_def)
  next
    case False
    then have "is_ready (knl s) t" using no_event(2)[OF w cur np c] p by simp
    then show ?thesis using k1(5) cur1 False by (auto simp: k'_def run_inv_def kept_def)
  qed
  have win: "kernel_win idle T E k'" using r k1(2-4) by (auto simp: k'_def kernel_win_def portYIELD_def prio_inv_def susp_inv_def is_ready_def)
  have s0: "uxSchedulerSuspended k' = 0" using k1(7) by (simp add: k'_def portYIELD_def)
  have i: "t \<noteq> idle" "\<not> xInheritanceOccurred c" using not_idle[OF w c] d(8)[OF c] p by (simp_all add: call_ok_def)
  show ?thesis
    using run
  proof (rule step_fineI, intro world_pc[OF w cur c win calm])
    show "blocked (pc ?c) \<or> pc ?c = Attempt" if "event_list k' t = Some (EventList e)" for e
    proof -
      have "event_list (knl s) t = Some (EventList e)" using that calm by (simp add: calm_def)
      then show ?thesis using no_event(1)[OF w cur np c] p by (cases r) auto
    qed
  qed (use p i r s0 in \<open>cases r; cases a; simp\<close>)+
qed

lemma lock_step:
  assumes w: "world_ok idle T E QS cs s" and cur: "pxCurrentTCB (knl s) = Some t" and np: "\<not> pendsv (knl s)"
    and c: "cs t = Some (q, a, c)" and p: "pc c = Lock"
  shows "step_fine idle T E QS cs s t q a (queue_step a q c s)"
proof -
  note d = world_okD[OF w] and f = current_suspends[OF w cur c]
  have t: "t \<in> T" "q \<in> QS" and i: "t \<noteq> idle" "\<not> xInheritanceOccurred c" "ticks c \<noteq> 0"
    using d(8)[OF c] p by (auto simp: call_ok_def)
  let ?c = "c\<lparr>pc := Check_time_out\<rparr>" and ?Q = "(queue s q)\<lparr>cRxLock := queueLOCKED_UNMODIFIED, cTxLock := queueLOCKED_UNMODIFIED\<rparr>"
  let ?s = "s\<lparr>queue := (queue s)(q := ?Q)\<rparr>" and ?cs = "cs(t \<mapsto> (q, a, c\<lparr>pc := Check_time_out\<rparr>))"
  have lk: "cRxLock (queue s q) = queueUNLOCKED" "cTxLock (queue s q) = queueUNLOCKED"
    using lock_state[OF w cur c, of True] lock_state[OF w cur c, of False] p by (simp_all add: lock_def)
  have run: "queue_step a q c s = Some (?c, ?s)" using p lk by (simp add: queue_step.simps prvLockQueue_def upd_queue_def)
  have av: "avail sd ?Q = avail sd (queue s q)" "lock sd ?Q = 0" for sd
    by (simp_all add: avail_def slots_def fill_def lock_def queueLOCKED_UNMODIFIED_def)
  have b: "buffer ?Q" using d(3)[OF t(2)]
    by (simp add: buffer_def ring_ok_def semaphore_def slots_def fill_def item_size_def read_slot_def write_slot_def)
  show ?thesis using run
  proof (rule step_fineI, intro world_step[OF w cur c])
    show "no_lost T ?cs ?s sd q" for sd
    proof (rule no_lost_mono[OF d(7)[OF t(2), of sd]])
      have ev: "waiters (EventList (wlist sd q)) (knl s) - {t} \<subseteq> waiters (EventList (wlist sd q)) (knl s)" by blast
      note tr = triers_step[OF w c t(1) ev]
      have "t \<notin> triers cs (knl s) sd q" using c p by (auto simp: triers_def)
      then show "triers cs (knl s) sd q \<subseteq> triers ?cs (knl ?s) sd q" "finite (triers ?cs (knl ?s) sd q)" using tr(1,2) by auto
      show "at_place ?cs sd q \<longrightarrow> at_place cs sd q" using no_other_place[OF w cur, of ?c] by simp
    qed (use av lk in \<open>cases sd; simp add: lock_def\<close>)+
  qed (use i b av f p d(4)[OF t(2)] d(1) cur no_event(1)[OF w cur np c] in auto)
qed

lemma place_step:
  assumes w: "world_ok idle T E QS cs s" and cur: "pxCurrentTCB (knl s) = Some t" and np: "\<not> pendsv (knl s)"
    and c: "cs t = Some (q, a, c)" and p: "pc c = Place"
  shows "step_fine idle T E QS cs s t q a (queue_step a q c s)"
proof -
  note d = world_okD[OF w] and f = current_suspends[OF w cur c]
  have t: "t \<in> T" "q \<in> QS" and i: "t \<noteq> idle" "\<not> xInheritanceOccurred c" "ticks c \<noteq> 0"
    using d(8)[OF c] p by (auto simp: call_ok_def)
  have s1: "uxSchedulerSuspended (knl s) = 1" using f(1) p by simp
  have rdy: "is_ready (knl s) t" using no_event(2)[OF w cur np c] p by simp
  let ?e = "wlist (sends a) q"
  obtain k' where k': "vTaskPlaceOnEventList (EventList ?e) (ticks c) (knl s) = Some k'" "core_inv idle T E k'" "prio_inv k'"
    "waits t (wait_time (ticks c)) (knl s) k'" "event_list k' = (event_list (knl s))(t := Some (EventList ?e))"
    using place_result[OF kernel_winD(1)[OF d(1)] cur rdy i(1) d(5)[OF t(2)] i(3) kernel_winD(2)[OF d(1)]] by blast
  have g: "pxCurrentTCB k' = Some t" "uxSchedulerSuspended k' = 1" using k'(4) cur s1 by (simp_all add: waits_def)
  have win: "kernel_win idle T E k'" using k'(2,3) g(2) by (simp add: kernel_win_def susp_inv_def)
  have ev: "waiters (EventList e) k' = (if e = ?e then insert t (waiters (EventList e) (knl s)) else waiters (EventList e) (knl s) - {t})" for e
  proof -
    have "event_list k' u = (if u = t then Some (EventList ?e) else event_list (knl s) u)" for u using fun_cong[OF k'(5), of u] by simp
    then show ?thesis by auto
  qed
  let ?c = "c\<lparr>pc := Unlock_tx Blocked\<rparr>" and ?s = "s\<lparr>knl := k'\<rparr>"
  let ?cs = "cs(t \<mapsto> (q, a, ?c))"
  have run: "queue_step a q c s = Some (?c, ?s)" using p k'(1) by (simp add: queue_step.simps wait_list_wlist)
  have nt: "t \<notin> triers cs (knl s) sd q" for sd using c p by (auto simp: triers_def)
  have here: "at_place cs (sends a) q" using c p by (auto simp: at_place_def)
  show ?thesis using run
  proof (rule step_fineI, intro world_step[OF w cur c])
    show "no_lost T ?cs ?s sd q" for sd
    proof -
      have sub: "waiters (EventList (wlist sd q)) k' - {t} \<subseteq> waiters (EventList (wlist sd q)) (knl s)" unfolding ev by auto
      note tr = triers_step[OF w c t(1) sub]
      have tri: "triers cs (knl s) sd q \<subseteq> triers ?cs k' sd q" using tr(1) nt by auto
      show ?thesis
      proof (cases "sd = sends a")
        case True
        have "covered T (avail sd (queue s q)) (triers cs (knl s) sd q) (lock sd (queue s q))"
          using d(7)[OF t(2), of sd] here True by (simp add: no_lost_def)
        from covered_mono[OF this _ tri tr(2)] show ?thesis by (simp add: no_lost_def)
      next
        case False
        have "waiters (EventList (wlist sd q)) k' \<subseteq> waiters (EventList (wlist sd q)) (knl s)" using False unfolding ev by auto
        then show ?thesis using no_lost_mono[OF d(7)[OF t(2), of sd], of ?s ?cs] tri tr(2) no_other_place[OF w cur, of ?c] by simp
      qed
    qed
    show "if locks sd (pc ?c) then 0 \<le> sint (lock sd (queue ?s q)) \<and> sint (lock sd (queue ?s q)) \<le> int (card T)
      else lock sd (queue ?s q) = queueUNLOCKED" for sd using lock_state[OF w cur c, of sd] p by simp
    show "waiters (EventList e) (knl ?s) \<subseteq> waiters (EventList e) (knl s) \<union> (if e = wlist (sends a) q then {t} else {})" for e
      using ev[of e] by auto
  qed (use i g win d(3,4)[OF t(2)] in simp_all)
qed

section \<open>Releasing a lock\<close>

definition unlock_loop :: "bool \<Rightarrow> nat \<Rightarrow> nat \<Rightarrow> qkernel \<Rightarrow> qkernel option" where
  "unlock_loop sd n q s = (if sd then unlock_rx_loop n q s else unlock_tx_loop n q s)"

lemma unlock_loop_Suc:
  assumes "pxQueueSetContainer (queue s q) = None"
  shows "unlock_loop sd (Suc n) q s =
    (if listLIST_IS_EMPTY (EventList (wlist sd q)) (knl s) then Some s
     else do { (y, s) \<leftarrow> wake_first (EventList (wlist sd q)) s; unlock_loop sd n q (vMissedYield y s) })"
  using assms by (simp add: unlock_loop_def wlist_lists)

lemma missed_yield_win:
  "kernel_win idle T E k \<Longrightarrow> kernel_win idle T E (k\<lparr>xYieldPending := True\<rparr>)" "run_inv (k\<lparr>xYieldPending := True\<rparr>) = run_inv k"
  by (simp_all add: kernel_win_def prio_inv_def run_inv_def susp_inv_def is_ready_def)

lemma unlock_loop_result:
  assumes "kernel_win idle T E (knl s)" "pxQueueSetContainer (queue s q) = None" "wlist sd q \<in> E"
  shows "\<exists>k' W. unlock_loop sd n q s = Some (s\<lparr>knl := k'\<rparr>) \<and> kernel_win idle T E k' \<and> calm (knl s) k' \<and> (run_inv (knl s) \<longrightarrow> run_inv k') \<and>
    W \<subseteq> waiters (EventList (wlist sd q)) (knl s) \<and> (\<forall>f. waiters (EventList f) k' = waiters (EventList f) (knl s) - W) \<and>
    (W = waiters (EventList (wlist sd q)) (knl s) \<or> card W = n)"
  using assms
proof (induction n arbitrary: s)
  case 0
  then show ?case by (intro exI[of _ "knl s"] exI[of _ "{}"]) (simp add: unlock_loop_def)
next
  case (Suc n)
  let ?l = "EventList (wlist sd q)"
  obtain y k1 where k1: "wake_first ?l s = Some (y, s\<lparr>knl := k1\<rparr>)" "kernel_win idle T E k1" "calm (knl s) k1" "run_inv (knl s) \<longrightarrow> run_inv k1"
    and ws: "if waiters ?l (knl s) = {} then k1 = knl s
      else \<exists>u\<in>waiters ?l (knl s). \<forall>f. waiters (EventList f) k1 = waiters (EventList f) (knl s) - {u}"
    using wake_first_result[OF Suc.prems(1,3)] by blast
  note run = unlock_loop_Suc[OF Suc.prems(2), of sd n]
  show ?case
  proof (cases "waiters ?l (knl s) = {}")
    case True
    have "listLIST_IS_EMPTY ?l (knl s)"
    proof (rule ccontr)
      assume "\<not> listLIST_IS_EMPTY ?l (knl s)"
      then obtain i where "pxContainer (knl s) i = Some ?l"
        using listLIST_IS_EMPTY_iff[OF lists_invD(1)[OF kernel_winD(5)[OF Suc.prems(1)]], of ?l] Suc.prems(3) by auto
      then show False using lists_invD(2)[OF kernel_winD(5)[OF Suc.prems(1)], of i ?l] True by auto
    qed
    then have "unlock_loop sd (Suc n) q s = Some (s\<lparr>knl := knl s\<rparr>)" using run by simp
    then show ?thesis using Suc.prems(1) True by (intro exI[of _ "knl s"] exI[of _ "{}"]) simp
  next
    case False
    obtain u where u: "u \<in> waiters ?l (knl s)" "\<And>f. waiters (EventList f) k1 = waiters (EventList f) (knl s) - {u}"
      using ws unfolding if_not_P[OF False] by blast
    have ne: "\<not> listLIST_IS_EMPTY ?l (knl s)"
      using listLIST_IS_EMPTY_iff[OF lists_invD(1)[OF kernel_winD(5)[OF Suc.prems(1)]], of ?l] Suc.prems(3) u(1) by auto
    define s1 where "s1 = vMissedYield y (s\<lparr>knl := k1\<rparr>)"
    have f: "queue s1 = queue s" "pxContainer (knl s1) = pxContainer k1" "calm (knl s) (knl s1)" "kernel_win idle T E (knl s1)"
      "run_inv (knl s) \<longrightarrow> run_inv (knl s1)" "s1\<lparr>knl := k\<rparr> = s\<lparr>knl := k\<rparr>" for k
      using k1(2-4) missed_yield_win by (simp_all add: s1_def vMissedYield_def vTaskMissedYield_def)
    have n1: "pxQueueSetContainer (queue s1 q) = None" using f(1) Suc.prems(2) by simp
    obtain k' W where k': "unlock_loop sd n q s1 = Some (s1\<lparr>knl := k'\<rparr>)" "kernel_win idle T E k'" "calm (knl s1) k'" "run_inv (knl s1) \<longrightarrow> run_inv k'"
      "W \<subseteq> waiters ?l (knl s1)" "\<forall>f. waiters (EventList f) k' = waiters (EventList f) (knl s1) - W" "W = waiters ?l (knl s1) \<or> card W = n"
      using Suc.IH[OF f(4) n1 Suc.prems(3)] by (elim exE conjE) (rule that)
    have w1: "waiters (EventList e) (knl s1) = waiters (EventList e) (knl s) - {u}" for e using u(2)[of e] f(2) by simp
    have W: "u \<notin> W" "finite W"
    proof -
      show "u \<notin> W" using k'(5) unfolding w1 by blast
      have sub: "waiters ?l (knl s1) \<subseteq> T" using lists_inv_owner(2)[OF kernel_winD(5)[OF f(4)]] by auto
      show "finite W" by (rule finite_subset[OF k'(5) finite_subset[OF sub kernel_winD(6)[OF f(4)]]])
    qed
    have r1: "unlock_loop sd (Suc n) q s = Some (s\<lparr>knl := k'\<rparr>)" using run ne k1(1) k'(1) f(6) by (simp add: s1_def)
    have r2: "insert u W \<subseteq> waiters ?l (knl s)" using k'(5) u(1) unfolding w1 by blast
    have r3: "\<forall>f. waiters (EventList f) k' = waiters (EventList f) (knl s) - insert u W" using k'(6) unfolding w1 by blast
    have r4: "insert u W = waiters ?l (knl s) \<or> card (insert u W) = Suc n" using k'(7) u(1) W unfolding w1 by auto
    have r5: "run_inv (knl s) \<longrightarrow> run_inv k'" using k'(4) f(5) by blast
    show ?thesis
      by (intro exI[of _ k'] exI[of _ "insert u W"] conjI) (rule r1 r2 r3 r4 r5 k'(2) calm_trans[OF f(3) k'(3)])+
  qed
qed

definition unlocked :: "bool \<Rightarrow> Queue_t \<Rightarrow> Queue_t" where
  "unlocked sd Q = (if sd then Q\<lparr>cRxLock := queueUNLOCKED\<rparr> else Q\<lparr>cTxLock := queueUNLOCKED\<rparr>)"

lemma unlocked_fields [simp]:
  "avail sd' (unlocked sd Q) = avail sd' Q" "lock sd' (unlocked sd Q) = (if sd' = sd then queueUNLOCKED else lock sd' Q)"
  "pxQueueSetContainer (unlocked sd Q) = pxQueueSetContainer Q" "uxLength (unlocked sd Q) = uxLength Q"
  "uxItemSize (unlocked sd Q) = uxItemSize Q" "buffer (unlocked sd Q) = buffer Q"
  by (simp_all add: unlocked_def avail_def slots_def fill_def lock_def buffer_def ring_ok_def semaphore_def item_size_def
      read_slot_def write_slot_def)

lemma unlock_run:
  assumes p: "pc c = (if sd then Unlock_rx r else Unlock_tx r)" and n: "pxQueueSetContainer (queue s q) = None"
    and run: "unlock_loop sd (lock_count (lock sd (queue s q))) q s = Some (s\<lparr>knl := k'\<rparr>)"
  shows "queue_step a q c s = Some (c\<lparr>pc := (if sd then Resume_all r else Unlock_rx r)\<rparr>,
    s\<lparr>queue := (queue s)(q := unlocked sd (queue s q)), knl := k'\<rparr>)"
  using assms
  by (cases sd) (simp_all add: queue_step.simps unlock_rx_def unlock_tx_def unlock_loop_def lock_def upd_queue_def unlocked_def)

lemma unlock_step:
  assumes w: "world_ok idle T E QS cs s" and cur: "pxCurrentTCB (knl s) = Some t" and np: "\<not> pendsv (knl s)"
    and c: "cs t = Some (q, a, c)" and p: "pc c = (if sd then Unlock_rx r else Unlock_tx r)"
  shows "step_fine idle T E QS cs s t q a (queue_step a q c s)"
proof -
  note d = world_okD[OF w] and f = current_suspends[OF w cur c]
  have t: "t \<in> T" "q \<in> QS" and i: "t \<noteq> idle" "\<not> xInheritanceOccurred c"
    using d(8)[OF c] p by (auto simp: call_ok_def split: if_splits)
  have s1: "uxSchedulerSuspended (knl s) = 1" using f(1) p by (auto split: if_splits)
  let ?l = "EventList (wlist sd q)" and ?n = "lock_count (lock sd (queue s q))"
  obtain k' W where k': "unlock_loop sd ?n q s = Some (s\<lparr>knl := k'\<rparr>)" "kernel_win idle T E k'" "calm (knl s) k'" "run_inv (knl s) \<longrightarrow> run_inv k'"
    "W \<subseteq> waiters ?l (knl s)" "\<forall>f. waiters (EventList f) k' = waiters (EventList f) (knl s) - W" "W = waiters ?l (knl s) \<or> card W = ?n"
    using unlock_loop_result[OF d(1) d(4)[OF t(2)] d(5)[OF t(2), of sd], of ?n] by (elim exE conjE) (rule that)
  let ?c = "c\<lparr>pc := (if sd then Resume_all r else Unlock_rx r)\<rparr>" and ?Q = "unlocked sd (queue s q)"
  let ?s = "s\<lparr>queue := (queue s)(q := ?Q), knl := k'\<rparr>" and ?cs = "cs(t \<mapsto> (q, a, c\<lparr>pc := (if sd then Resume_all r else Unlock_rx r)\<rparr>))"
  have ev: "waiters (EventList e) k' = waiters (EventList e) (knl s) - W" for e using k'(6) by blast
  have g: "pxCurrentTCB k' = Some t" "uxSchedulerSuspended k' = 1" using k'(3) cur s1 by (simp_all add: calm_def)
  have tries: "will_try (pc ?c) = will_try (pc c)" "blocked (pc ?c) = blocked (pc c)" using p by (auto split: if_splits)
  have T: "W = waiters ?l (knl s)" if "card T \<le> ?n" "card W = ?n"
  proof -
    note fin = kernel_winD(6)[OF d(1)] and sub = waiters_T(1)[OF w, of "wlist sd q"]
    have "W \<subseteq> T" using k'(5) sub by (rule subset_trans)
    then have "W = T" using card_seteq[OF fin] that by simp
    then show ?thesis using k'(5) sub by simp
  qed
  then have all: "W = waiters ?l (knl s) \<or> card W = ?n \<and> \<not> card T \<le> ?n" using k'(7) by blast
  have np: "\<not> at_place ?cs sd' q" for sd' by (rule no_other_place[OF w cur]) simp
  have tri: "W' \<union> triers cs (knl s) sd' q \<subseteq> triers ?cs k' sd' q" "finite (triers ?cs k' sd' q)"
    if W': "W' \<subseteq> waiters (EventList (wlist sd' q)) (knl s)" "waiters (EventList (wlist sd' q)) k' = waiters (EventList (wlist sd' q)) (knl s) - W'" for sd' W'
  proof -
    have sub: "waiters (EventList (wlist sd' q)) k' - {t} \<subseteq> waiters (EventList (wlist sd' q)) (knl s)" using W'(2) by blast
    note tr = triers_step[OF w c t(1) sub]
    show "finite (triers ?cs k' sd' q)" by (rule tr(2))
    show "W' \<union> triers cs (knl s) sd' q \<subseteq> triers ?cs k' sd' q"
    proof
      fix u assume u: "u \<in> W' \<union> triers cs (knl s) sd' q"
      have nw: "u \<notin> waiters (EventList (wlist sd' q)) k'" using u unfolding W'(2) by (auto simp: triers_def)
      obtain b e where b: "cs u = Some (q, b, e)" "sends b = sd'" "will_try (pc e)"
        using u waiter_call[OF w, of u sd' q] W'(1) by (auto simp: triers_def)
      then show "u \<in> triers ?cs k' sd' q" using nw tries(1) c by (cases "u = t") (auto simp: triers_def)
    qed
  qed
  show ?thesis using unlock_run[OF p d(4)[OF t(2)] k'(1)]
  proof (rule step_fineI, intro world_step[OF w cur c])
    show "no_lost T ?cs ?s sd' q" for sd'
    proof (cases "sd' = sd")
      case True
      note W' = k'(5) ev[of "wlist sd q"]
      show ?thesis unfolding True
        by (rule no_lost_change[OF w d(7)[OF t(2)] k'(5), of _ "{}"])
          (use ev tri[OF W'] np[of sd] all in \<open>auto simp del: Collect_empty_eq empty_Collect_eq\<close>)
    next
      case False
      have e: "waiters (EventList (wlist sd' q)) k' = waiters (EventList (wlist sd' q)) (knl s)"
        using k'(5) False unfolding ev by auto
      show ?thesis
        by (rule no_lost_mono[OF d(7)[OF t(2)]]) (use e tri[of "{}" sd'] np[of sd'] False in \<open>simp_all del: Collect_empty_eq empty_Collect_eq\<close>)
    qed
    show "if locks sd' (pc ?c) then 0 \<le> sint (lock sd' (queue ?s q)) \<and> sint (lock sd' (queue ?s q)) \<le> int (card T)
      else lock sd' (queue ?s q) = queueUNLOCKED" for sd'
      using lock_state[OF w cur c, of sd'] p by (cases sd; cases sd') simp_all
    show "waiters (EventList e) (knl ?s) \<subseteq> waiters (EventList e) (knl s) \<union> (if e = wlist (sends a) q then {t} else {})" for e
      using ev[of e] by auto
    show "blocked (pc ?c) \<or> pc ?c = Attempt" if "event_list (knl ?s) t = Some (EventList e)" for e
    proof -
      have "t \<in> waiters (EventList e) k'" using that by simp
      then have "event_list (knl s) t = Some (EventList e)" unfolding ev by simp
      then show ?thesis using d(11)[of t e] c p tries(2) by (auto split: if_splits)
    qed
    show "blocked (pc ?c) \<or> run_inv (knl ?s)" using f(3) k'(4) tries(2) by auto
  qed (use i g k'(2) d(3,4)[OF t(2)] p in auto)
qed

section \<open>Every step\<close>

lemma any_step:
  assumes w: "world_ok idle T E QS cs s" and cur: "pxCurrentTCB (knl s) = Some t" and np: "\<not> pendsv (knl s)"
    and c: "cs t = Some (q, a, c)"
  shows "step_fine idle T E QS cs s t q a (queue_step a q c s)"
proof -
  have "pc c \<noteq> Inherit_priority" "pc c \<noteq> Disinherit" using world_okD(8)[OF w c] by (simp_all add: call_ok_def)
  then show ?thesis
    using attempt_step[OF assms] suspend_step[OF assms] lock_step[OF assms] check_time_out_step[OF assms] check_again_step[OF assms]
      place_step[OF assms] unlock_step[OF assms, of False] unlock_step[OF assms, of True] resume_step[OF assms] check_empty_step[OF assms]
    by (cases "pc c") (simp_all del: queue_step.simps)
qed

text \<open>A task enters and leaves a call.\<close>

lemma world_entry:
  assumes w: "world_ok idle T E QS cs s" and old: "\<And>q a c. cs t = Some (q, a, c) \<Longrightarrow> \<exists>x. pc c = Done x"
    and new: "\<And>y. x = Some y \<Longrightarrow> call_ok idle T QS s t y \<and> pc (snd (snd y)) = Attempt"
  shows "world_ok idle T E QS (cs(t := x)) s"
proof -
  note d = world_okD[OF w]
  let ?cs = "cs(t := x)"
  have quiet: "\<not> suspends (pc c) \<and> pc c \<noteq> Place" if "?cs t = Some (q, a, c)" for q a c using new[of "(q, a, c)"] that by simp
  have quiet': "\<not> suspends (pc c) \<and> \<not> will_try (pc c) \<and> pc c \<noteq> Attempt" if "cs t = Some (q, a, c)" for q a c using old[OF that] by auto
  have same: "?cs u = Some (q, a, c) \<longleftrightarrow> cs u = Some (q, a, c)" if "u \<noteq> t" for u q a c using that by simp
  have sus: "(\<exists>u q a c. ?cs u = Some (q, a, c) \<and> suspends (pc c)) = (\<exists>u q a c. cs u = Some (q, a, c) \<and> suspends (pc c))"
    using quiet quiet' same by metis
  have bl: "\<exists>u q a c. ?cs u = Some (q, a, c) \<and> blocked (pc c)" if "cs u = Some (q, a, c)" "blocked (pc c)" for u q a c
    using that quiet' same[of u] blocked_suspends(1) by metis
  have lk: "locked_by ?cs sd q = locked_by cs sd q" for sd q
    unfolding locked_by_def using quiet quiet' same blocked_suspends(2) by metis
  have np: "at_place ?cs sd q \<longrightarrow> at_place cs sd q" for sd q
    unfolding at_place_def using quiet same by metis
  have calls: "call_ok idle T QS s u y" if "?cs u = Some y" for u y using that d(8) new by (cases "u = t") auto
  have ev: "\<exists>q a c. ?cs u = Some (q, a, c) \<and> e = wlist (sends a) q \<and> (blocked (pc c) \<or> pc c = Attempt)"
    if "event_list (knl s) u = Some (EventList e)" for u e
    using d(11)[OF that] quiet' blocked_suspends(1) same[of u] by metis
  have tri: "triers cs (knl s) sd q \<subseteq> triers ?cs (knl s) sd q" for sd q
    using quiet' by (auto simp: triers_def)
  have fin: "finite (triers ?cs (knl s) sd q)" for sd q
  proof (rule finite_subset)
    show "triers ?cs (knl s) sd q \<subseteq> T" using calls by (auto simp: triers_def call_ok_def simp del: fun_upd_apply)
    show "finite T" by (rule kernel_winD(6)[OF d(1)])
  qed
  have nl: "no_lost T ?cs s sd q" if "q \<in> QS" for sd q
    by (rule no_lost_mono[OF d(7)[OF that] _ np tri fin]) simp_all
  show ?thesis using d(1-6,9,10) nl calls ev bl unfolding world_ok_def sus lock_ok_def lk by blast
qed

section \<open>Interrupts\<close>

lemma world_isr:
  assumes w: "world_ok idle T E QS cs s" and q: "q \<in> QS"
    and K: "kernel_win idle T E (knl s')" "calm (knl s) (knl s')" "run_inv (knl s) \<longrightarrow> run_inv (knl s')"
    and Q: "\<And>p. p \<noteq> q \<Longrightarrow> queue s' p = queue s p" "buffer (queue s' q)" "pxQueueSetContainer (queue s' q) = None"
      "uxLength (queue s' q) = uxLength (queue s q)" "uxItemSize (queue s' q) = uxItemSize (queue s q)"
    and L: "\<And>sd. lock_ok T cs sd q (lock sd (queue s' q))" and N: "\<And>sd. no_lost T cs s' sd q"
  shows "world_ok idle T E QS cs s'"
proof -
  note d = world_okD[OF w]
  have ev: "waiters (EventList e) (knl s') \<subseteq> waiters (EventList e) (knl s)" for e by (rule calm_waiters[OF K(2)])
  have f: "pxCurrentTCB (knl s') = pxCurrentTCB (knl s)" "uxSchedulerSuspended (knl s') = uxSchedulerSuspended (knl s)"
    using K(2) by (simp_all add: calm_def)
  have val: "valid_op b (queue s' p) \<longleftrightarrow> valid_op b (queue s p)" for b p
    using Q(1,4,5) by (cases "p = q"; cases b) (simp_all add: slots_def item_size_def)
  have "no_lost T cs s' sd p" if "p \<in> QS" for sd p
  proof (cases "p = q")
    case False
    show ?thesis by (rule no_lost_mono[OF d(7)[OF that]]) (use ev triers_waiters triers_T[OF w] Q(1)[OF False] in auto)
  qed (use N in simp)
  moreover have "lock_ok T cs sd p (lock sd (queue s' p))" if "p \<in> QS" for sd p
    using d(6)[OF that, of sd] L Q(1) by (cases "p = q") simp_all
  moreover have "buffer (queue s' p) \<and> pxQueueSetContainer (queue s' p) = None" if "p \<in> QS" for p
    using d(3,4)[OF that] Q(1-3) by (cases "p = q") simp_all
  moreover have "call_ok idle T QS s' t x" if "cs t = Some x" for t x
    using d(8)[OF that] val f unfolding call_ok_def by (auto split: prod.split)
  moreover have "\<exists>q a c. cs t = Some (q, a, c) \<and> e = wlist (sends a) q \<and> (blocked (pc c) \<or> pc c = Attempt)"
    if "event_list (knl s') t = Some (EventList e)" for t e
    using ev[of e] d(11)[of t e] that by auto
  moreover have "(\<exists>t q a c. cs t = Some (q, a, c) \<and> blocked (pc c)) \<or> run_inv (knl s')" using d(10) K(3) by blast
  ultimately show ?thesis using d(2,5,9) K(1) f unfolding world_ok_def by simp
qed

text \<open>What an interrupt does after it has put or taken an item: it wakes a task of side \<open>sd\<close> or counts the
  wake-up in the lock.\<close>

definition signal :: "bool \<Rightarrow> nat \<Rightarrow> 8 word \<Rightarrow> qkernel \<Rightarrow> (bool \<times> qkernel) option" where
  "signal sd q l s =
     (if l = queueUNLOCKED then wake_first (EventList (wlist sd q)) s
      else Some (False, (if sd then prvIncrementQueueRxLock else prvIncrementQueueTxLock) q l s))"

definition locked_with :: "bool \<Rightarrow> 8 word \<Rightarrow> Queue_t \<Rightarrow> Queue_t" where
  "locked_with sd l Q = (if sd then Q\<lparr>cRxLock := l\<rparr> else Q\<lparr>cTxLock := l\<rparr>)"

lemma locked_with_fields [simp]:
  "avail sd' (locked_with sd l Q) = avail sd' Q" "lock sd' (locked_with sd l Q) = (if sd' = sd then l else lock sd' Q)"
  "pxQueueSetContainer (locked_with sd l Q) = pxQueueSetContainer Q" "uxLength (locked_with sd l Q) = uxLength Q"
  "uxItemSize (locked_with sd l Q) = uxItemSize Q" "buffer (locked_with sd l Q) = buffer Q" "contents (locked_with sd l Q) = contents Q"
  by (simp_all add: locked_with_def avail_def slots_def fill_def lock_def buffer_def ring_ok_def semaphore_def item_size_def
      read_slot_def write_slot_def contents_def)

lemma locked_with_lock [simp]: "locked_with sd (lock sd Q) Q = Q"
  by (simp add: locked_with_def lock_def)

text \<open>Counting: a lock never exceeds the number of tasks, and with at most 127 tasks it does not wrap.\<close>

lemma count_lock:
  fixes l :: "8 word"
  assumes "0 \<le> sint l" "sint l \<le> int n" "n \<le> 127"
  shows "scast l < (of_nat n :: 32 word) \<longleftrightarrow> sint l < int n"
    "sint l < int n \<Longrightarrow> sint (l + 1) = sint l + 1"
proof -
  obtain m where m: "sint l = int m" using assms(1) nonneg_int_cases by blast
  have l: "l = word_of_int (int m)" unfolding m[symmetric] scast_eq[symmetric] by (simp add: scast_id)
  have "(scast l :: 32 word) = word_of_int (int m)" unfolding m[symmetric] by (rule scast_eq)
  then show "scast l < (of_nat n :: 32 word) \<longleftrightarrow> sint l < int n"
    using assms m by (simp add: word_less_nat_alt unsigned_of_nat take_bit_nat_eq_self)
  have "l + 1 = word_of_int (int (m + 1))" unfolding l by simp
  then show "sint l < int n \<Longrightarrow> sint (l + 1) = sint l + 1"
    using assms m signed_take_bit_int_eq_self[of 7 "int (m + 1)"] by (simp only: sint_sbintrunc') simp
qed

lemma unlocked_no_place:
  assumes w: "world_ok idle T E QS cs s" and q: "q \<in> QS" and l: "lock sd (queue s q) = queueUNLOCKED"
  shows "\<not> at_place cs sd q"
proof
  assume "at_place cs sd q"
  then have "locked_by cs sd q" by (force simp: at_place_def locked_by_def)
  then show False using world_okD(6)[OF w q, of sd] l by (simp add: lock_ok_def queueUNLOCKED_def)
qed

lemma signal_locked:
  fixes l :: "8 word"
  assumes lk: "lock_ok T cs sd q l" "l \<noteq> queueUNLOCKED" and T: "card T \<le> 127" "uxCurrentNumberOfTasks (knl s) = of_nat (card T)"
    and s: "queue s q = Q" "lock sd Q = l"
  shows "\<exists>l'. signal sd q l s = Some (False, s\<lparr>queue := (queue s)(q := locked_with sd l' Q)\<rparr>) \<and> lock_ok T cs sd q l' \<and>
    (card T \<le> lock_count l' \<or> lock_count l' = lock_count l + 1)"
proof -
  have b: "locked_by cs sd q" "0 \<le> sint l" "sint l \<le> int (card T)" using lk by (auto simp: lock_ok_def split: if_splits)
  note c = count_lock[OF b(2,3) T(1)]
  let ?l = "if sint l < int (card T) then l + 1 else l"
  have "signal sd q l s = Some (False, s\<lparr>queue := (queue s)(q := locked_with sd ?l Q)\<rparr>)"
    using lk(2) T(2) s c(1)
    by (cases sd) (auto simp: signal_def prvIncrementQueueRxLock_def prvIncrementQueueTxLock_def uxTaskGetNumberOfTasks_def
        upd_queue_def locked_with_def lock_def)
  moreover have "lock_ok T cs sd q ?l" using b c(2) by (simp add: lock_ok_def)
  moreover have "card T \<le> lock_count ?l \<or> lock_count ?l = lock_count l + 1" using b c(2) by (auto simp: lock_count_def)
  ultimately show ?thesis by blast
qed

lemma isr_done:
  assumes w: "world_ok idle T E QS cs s" and q: "q \<in> QS"
    and s1: "queue s1 = (queue s)(q := Q)" "knl s1 = knl s"
    and Q: "buffer Q" "pxQueueSetContainer Q = None" "uxLength Q = uxLength (queue s q)" "uxItemSize Q = uxItemSize (queue s q)"
      "\<And>sd. lock sd Q = lock sd (queue s q)"
    and own: "avail (\<not> wsd) Q \<le> avail (\<not> wsd) (queue s q)" and other: "avail wsd Q \<le> avail wsd (queue s q) + 1"
  shows "\<exists>y s'. signal wsd q (lock wsd (queue s q)) s1 = Some (y, s') \<and> world_ok idle T E QS cs s' \<and>
    (\<exists>l. queue s' = (queue s)(q := locked_with wsd l Q))"
proof -
  note d = world_okD[OF w]
  let ?l = "EventList (wlist wsd q)" and ?lock = "lock wsd (queue s q)"
  have own': "avail sd Q \<le> avail sd (queue s q)" if "sd \<noteq> wsd" for sd using own that by (cases sd; cases wsd) simp_all
  show ?thesis
  proof (cases "?lock = queueUNLOCKED")
    case True
    obtain y k1 where k1: "wake_first ?l s1 = Some (y, s1\<lparr>knl := k1\<rparr>)" "kernel_win idle T E k1" "calm (knl s) k1" "run_inv (knl s) \<longrightarrow> run_inv k1"
      and ws: "if waiters ?l (knl s) = {} then k1 = knl s
        else \<exists>u\<in>waiters ?l (knl s). \<forall>f. waiters (EventList f) k1 = waiters (EventList f) (knl s) - {u}"
      using wake_first_result[of idle T E s1 "wlist wsd q", unfolded s1(2), OF d(1) d(5)[OF q]] by blast
    obtain W where W: "W \<subseteq> waiters ?l (knl s)" "\<And>f. waiters (EventList f) k1 = waiters (EventList f) (knl s) - W"
      "W = waiters ?l (knl s) \<or> card W = 1" using wake_set[OF ws] by blast
    have np: "\<not> at_place cs wsd q" by (rule unlocked_no_place[OF w q True])
    let ?s = "s1\<lparr>knl := k1\<rparr>"
    have "world_ok idle T E QS cs ?s"
    proof (rule world_isr[OF w q])
      show "no_lost T cs ?s sd q" for sd
      proof (cases "sd = wsd")
        case True
        have "W \<union> triers cs (knl s) wsd q \<subseteq> triers cs k1 wsd q"
          using W(1) waiter_call[OF w, of _ wsd q] unfolding triers_def W(2)[of "wlist wsd q", simplified set_eq_iff mem_Collect_eq Diff_iff, rule_format]
          by blast
        then show ?thesis unfolding True
          by (intro no_lost_change[OF w d(7)[OF q] W(1), of _ "{}"])
            (use W(2,3) np triers_T(2)[OF w] s1(1) other Q(5) in \<open>auto simp del: Collect_empty_eq empty_Collect_eq\<close>)
      next
        case False
        show ?thesis
          by (rule no_lost_mono[OF d(7)[OF q]])
            (use calm_waiters[OF k1(3)] triers_waiters[OF calm_waiters[OF k1(3)]] triers_T(2)[OF w] s1(1) Q(5) own'[OF False] in auto)
      qed
      show "lock_ok T cs sd q (lock sd (queue ?s q))" for sd using d(6)[OF q, of sd] Q(5) s1(1) by simp
    qed (use k1 s1 Q in simp_all)
    moreover have "signal wsd q ?lock s1 = Some (y, ?s)" using True k1(1) by (simp add: signal_def)
    moreover have "queue ?s = (queue s)(q := locked_with wsd (lock wsd Q) Q)" using s1(1) by simp
    ultimately show ?thesis by blast
  next
    case False
    have "uxCurrentNumberOfTasks (knl s1) = of_nat (card T)" using kernel_winD(9)[OF d(1)] s1(2) by simp
    then obtain l' where l': "signal wsd q ?lock s1 = Some (False, s1\<lparr>queue := (queue s1)(q := locked_with wsd l' Q)\<rparr>)"
      "lock_ok T cs wsd q l'" "card T \<le> lock_count l' \<or> lock_count l' = lock_count ?lock + 1"
      using signal_locked[OF d(6)[OF q, of wsd] False d(2), of s1 Q] Q(5) s1(1) by auto
    let ?s = "s1\<lparr>queue := (queue s1)(q := locked_with wsd l' Q)\<rparr>"
    have "world_ok idle T E QS cs ?s"
    proof (rule world_isr[OF w q])
      show "no_lost T cs ?s sd q" for sd
      proof (cases "sd = wsd")
        case True
        show ?thesis unfolding True
          by (rule no_lost_change[OF w d(7)[OF q], of "{}" _ _ "{}"])
            (use l'(3) triers_T(2)[OF w] s1 other Q(5) in \<open>auto simp del: Collect_empty_eq empty_Collect_eq\<close>)
      next
        case False
        show ?thesis
          by (rule no_lost_mono[OF d(7)[OF q]]) (use triers_T(2)[OF w] s1 Q(5) own'[OF False] False in auto)
      qed
      show "lock_ok T cs sd q (lock sd (queue ?s q))" for sd using d(6)[OF q, of sd] l'(2) Q(5) by (cases "sd = wsd") simp_all
    qed (use d(1) s1 Q in \<open>simp_all add: kernel_win_def\<close>)
    moreover have "queue ?s = (queue s)(q := locked_with wsd l' Q)" using s1(1) by simp
    ultimately show ?thesis using l'(1) by blast
  qed
qed

text \<open>The four functions.\<close>

lemma notify_signal:
  assumes "pxQueueSetContainer (queue s q) = None"
  shows "notify_or_lock q l b s = signal False q l s"
  using assms by (simp add: notify_or_lock_def signal_def wlist_lists)

definition isr_world :: "nat \<Rightarrow> nat set \<Rightarrow> nat set \<Rightarrow> nat set \<Rightarrow> calls \<Rightarrow> qkernel \<Rightarrow> qop \<Rightarrow> nat \<Rightarrow> 8 word list option \<Rightarrow> qkernel \<Rightarrow> bool" where
  "isr_world idle T E QS cs s a q r s' \<longleftrightarrow> world_ok idle T E QS cs s' \<and>
     (if can_do a (queue s q) then \<exists>x Q l. r = Some x \<and> attempt_effect a (queue s q) Q x \<and> queue s' = (queue s)(q := locked_with (wakes a) l Q)
      else r = None \<and> s' = s)"

lemma send_isr:
  assumes w: "world_ok idle T E QS cs s" and q: "q \<in> QS" and v: "valid_op (Send item p) (queue s q)"
  shows "\<exists>ok y s'. xQueueGenericSendFromISR q item p s = Some (ok, y, s') \<and>
    isr_world idle T E QS cs s (Send item p) q (if ok then Some [] else None) s'"
proof -
  note d = world_okD[OF w]
  note b = d(3)[OF q]
  have guard: "uxMessagesWaiting (queue s q) < uxLength (queue s q) \<or> p = queueOVERWRITE \<longleftrightarrow> can_put p (queue s q)"
    using can_put_iff[OF v] full_iff(1)[OF b] by simp
  show ?thesis
  proof (cases "can_put p (queue s q)")
    case False
    then show ?thesis using guard w
      by (intro exI[of _ False] exI[of _ s]) (simp add: xQueueGenericSendFromISR_def isr_world_def can_do_def)
  next
    case True
    obtain Q where Q: "prvCopyDataToQueue q item p s = Some (False, s\<lparr>queue := (queue s)(q := Q)\<rparr>)" "buffer Q" "copied (queue s q) Q"
      "contents Q = put p (take (item_size (queue s q)) item) (contents (queue s q))" using put_result[OF b True] v by auto
    have e: "attempt_effect (Send item p) (queue s q) Q []" using True Q(3,4) by (simp add: attempt_effect_def)
    have fx: "wakes (Send item p) = False" "sends (Send item p) = True" by (simp_all add: wakes_def)
    note f = effect_frame[OF e] and av = effect_avail[OF e b Q(2), unfolded fx]
    let ?s = "s\<lparr>queue := (queue s)(q := Q)\<rparr>"
    have n: "pxQueueSetContainer Q = None" using f(4) d(4)[OF q] by simp
    obtain y s' l where r: "signal False q (lock False (queue s q)) ?s = Some (y, s')" "world_ok idle T E QS cs s'"
      "queue s' = (queue s)(q := locked_with False l Q)"
      using isr_done[OF w q, of ?s Q False] Q(2) f n av(1)[of True] av(2) by (auto split: if_splits)
    have "xQueueGenericSendFromISR q item p s = Some (True, y, s')"
      using guard True Q(1) r(1) notify_signal[of ?s q] n
      by (simp add: xQueueGenericSendFromISR_def lock_def)
    then show ?thesis using r(2,3) e True fx
      by (intro exI[of _ True] exI[of _ y] exI[of _ s']) (auto simp: isr_world_def can_do_def)
  qed
qed

lemma give_is_send:
  assumes "uxItemSize (queue s q) = 0" "\<not> uxQueueType_is_mutex (queue s q)"
  shows "xQueueGiveFromISR q s = xQueueGenericSendFromISR q [] queueSEND_TO_BACK s"
proof -
  have "prvCopyDataToQueue q [] queueSEND_TO_BACK s =
      Some (False, upd_queue q (\<lambda>Q. Q\<lparr>uxMessagesWaiting := uxMessagesWaiting (queue s q) + 1\<rparr>) s)"
    using assms by (cases s) (simp add: prvCopyDataToQueue_def upd_queue_def Let_def)
  then show ?thesis by (simp add: xQueueGiveFromISR_def xQueueGenericSendFromISR_def Let_def)
qed

lemma receive_isr:
  assumes w: "world_ok idle T E QS cs s" and q: "q \<in> QS"
  shows "\<exists>r y s'. xQueueReceiveFromISR q s = Some (r, y, s') \<and> isr_world idle T E QS cs s Receive q r s'"
proof -
  note d = world_okD[OF w]
  note b = d(3)[OF q]
  show ?thesis
  proof (cases "fill (queue s q) = 0")
    case True
    then have "\<not> uxMessagesWaiting (queue s q) > 0" using full_iff(2)[of "queue s q"] by simp
    then show ?thesis using True w
      by (intro exI[of _ None] exI[of _ False] exI[of _ s]) (simp add: xQueueReceiveFromISR_def isr_world_def can_do_def Let_def)
  next
    case False
    then have some: "0 < fill (queue s q)" by simp
    obtain r where r: "prvCopyDataFromQueue q s = Some (hd (contents (queue s q)), upd_queue q (\<lambda>Q. Q\<lparr>pcReadFrom := r\<rparr>) s)"
      "let Q = (queue s q)\<lparr>pcReadFrom := r, uxMessagesWaiting := uxMessagesWaiting (queue s q) - 1\<rparr>
       in buffer Q \<and> contents Q = tl (contents (queue s q))" using get_result[OF b some] by blast
    let ?Q = "(queue s q)\<lparr>pcReadFrom := r, uxMessagesWaiting := uxMessagesWaiting (queue s q) - 1\<rparr>"
    let ?s = "s\<lparr>queue := (queue s)(q := ?Q)\<rparr>"
    have Q: "buffer ?Q" and e: "attempt_effect Receive (queue s q) ?Q (hd (contents (queue s q)))"
      using r(2) some by (simp_all add: Let_def attempt_effect_def copied_def)
    have fx: "wakes Receive = True" "sends Receive = False" by (simp_all add: wakes_def)
    note f = effect_frame[OF e] and av = effect_avail[OF e b Q, unfolded fx]
    have n: "pxQueueSetContainer ?Q = None" using f(4) d(4)[OF q] by simp
    obtain y s' l where s': "signal True q (lock True (queue s q)) ?s = Some (y, s')" "world_ok idle T E QS cs s'"
      "queue s' = (queue s)(q := locked_with True l ?Q)"
      using isr_done[OF w q, of ?s ?Q True] Q f n av(1)[of False] av(2) by (auto split: if_splits)
    have "xQueueReceiveFromISR q s = Some (Some (hd (contents (queue s q))), y, s')"
      using some r(1) full_iff(2)[of "queue s q"] s'(1)
      by (cases "cRxLock (queue s q) = queueUNLOCKED") (simp_all add: xQueueReceiveFromISR_def Let_def upd_queue_def signal_def lock_def wlist_lists)
    then show ?thesis using s'(2,3) e some fx
      by (intro exI[of _ "Some (hd (contents (queue s q)))"] exI[of _ y] exI[of _ s']) (auto simp: isr_world_def can_do_def)
  qed
qed

lemma peek_isr:
  assumes w: "world_ok idle T E QS cs s" and q: "q \<in> QS"
  shows "xQueuePeekFromISR q s = Some (if fill (queue s q) = 0 then None else Some (hd (contents (queue s q))), s)"
proof (cases "fill (queue s q) = 0")
  case True
  then have "\<not> uxMessagesWaiting (queue s q) > 0" using full_iff(2)[of "queue s q"] by simp
  then show ?thesis using True by (simp add: xQueuePeekFromISR_def)
next
  case False
  then obtain r where "prvCopyDataFromQueue q s = Some (hd (contents (queue s q)), upd_queue q (\<lambda>Q. Q\<lparr>pcReadFrom := r\<rparr>) s)"
    using get_result[OF world_okD(3)[OF w q]] by blast
  then show ?thesis using False full_iff(2)[of "queue s q"] by (simp add: xQueuePeekFromISR_def upd_queue_def)
qed

end
