(* ===== verification/FRQueueReach.thy ===== *)
theory FRQueueReach
  imports FRQueueRun
begin

text \<open>
  Histories of the queues: everything that tasks, interrupts and the scheduler can do from the start
  of the scheduler on, with the items put, taken and seen.
\<close>

section \<open>A new queue\<close>

lemma no_wrap:
  fixes n m :: "32 word"
  assumes "n > 0" "(-1) div n \<ge> m"
  shows "unat n * unat m < 2 ^ 32" "unat (n * m) = unat n * unat m" "unat ((n - 1) * m) = (unat n - 1) * unat m"
proof -
  have n: "0 < unat n" using assms(1) by (simp add: word_less_nat_alt)
  have "unat m \<le> (2 ^ 32 - 1) div unat n" using assms(2) by (simp add: word_le_nat_alt unat_div unsigned_minus_1_eq_mask mask_eq_exp_minus_1)
  then have "unat m * unat n \<le> (2 ^ 32 - 1) div unat n * unat n" by (rule mult_le_mono1)
  also have "\<dots> \<le> 2 ^ 32 - 1" by (rule div_times_less_eq_dividend)
  finally show lt: "unat n * unat m < 2 ^ 32" by (simp add: mult.commute)
  then show "unat (n * m) = unat n * unat m" by (simp add: unat_word_ariths)
  have n1: "unat (n - 1) = unat n - 1" using n by (intro unat_minus_one) (auto simp: unat_gt_0)
  have "(unat n - 1) * unat m \<le> unat n * unat m" by (intro mult_le_mono1) simp
  then have "(unat n - 1) * unat m < 2 ^ 32" using lt by (rule le_less_trans)
  then show "unat ((n - 1) * m) = (unat n - 1) * unat m" using n1 by (simp add: unat_word_ariths)
qed

lemma new_buffer:
  fixes n m :: "32 word"
  assumes nm: "n > 0" "(-1) div n \<ge> m" and area: "unat n * unat m \<le> length area"
  shows "\<exists>Q. prvInitialiseNewQueue n m area q s = Some (s\<lparr>queue := (queue s)(q := Q),
      knl := vListInitialise (EventList (wlist False q)) (vListInitialise (EventList (wlist True q)) (knl s))\<rparr>) \<and>
    buffer Q \<and> contents Q = [] \<and> uxLength Q = n \<and> uxItemSize Q = m \<and> pxQueueSetContainer Q = None \<and> (\<forall>sd. lock sd Q = queueUNLOCKED)"
proof -
  note w = no_wrap[OF nm]
  have n: "0 < unat n" using nm(1) by (simp add: word_less_nat_alt)
  let ?Q = "(queue s q)\<lparr>pcHead := Some 0, storage := area, uxLength := n, uxItemSize := m, pcTail := uint (n * m), xMutexHolder := None,
    uxMessagesWaiting := 0, pcWriteTo := 0, pcReadFrom := uint ((n - 1) * m), uxRecursiveCallCount := 0,
    cRxLock := queueUNLOCKED, cTxLock := queueUNLOCKED, pxQueueSetContainer := None\<rparr>"
  have one: "n \<ge> 1" using n by (simp add: word_le_nat_alt)
  have run: "prvInitialiseNewQueue n m area q s = Some (s\<lparr>queue := (queue s)(q := ?Q),
      knl := vListInitialise (EventList (wlist False q)) (vListInitialise (EventList (wlist True q)) (knl s))\<rparr>)"
    using one nm(2) by (simp add: prvInitialiseNewQueue_def xQueueGenericReset_def upd_queue_def Let_def head_offset_def wlist_lists)
  have f: "item_size ?Q = unat m" "slots ?Q = unat n" "fill ?Q = 0" by (simp_all add: item_size_def slots_def fill_def)
  have "buffer ?Q"
  proof (cases "m = 0")
    case True
    then show ?thesis using n f by (simp add: buffer_def semaphore_def)
  next
    case False
    then have m: "0 < unat m" by (simp add: unat_gt_0)
    have u: "uint (n * m) = int (unat n * unat m)" "uint ((n - 1) * m) = int ((unat n - 1) * unat m)"
      using w(2,3) by (metis uint_nat)+
    have rs: "read_slot ?Q = unat n - 1" "write_slot ?Q = 0"
      using m u(2) f(1) by (simp_all add: read_slot_def write_slot_def del: of_nat_mult)
    have "ring_ok ?Q" unfolding ring_ok_def rs f using n m w(1) area u by (simp del: of_nat_mult)
    then show ?thesis by (simp add: buffer_def)
  qed
  moreover have "contents ?Q = []" using f(3) by (simp add: contents_def)
  ultimately show ?thesis using run by (intro exI[of _ ?Q]) (simp add: lock_def)
qed

lemma world_create:
  assumes w: "world_ok idle T E QS cs s" and cur: "pxCurrentTCB (knl s) = Some t" "cs t = None" "\<not> pendsv (knl s)"
    and nm: "n > 0" "(-1) div n \<ge> m" and area: "unat n * unat m \<le> length area"
    and new: "q \<notin> QS" "wlist True q \<notin> E" "wlist False q \<notin> E"
  shows "\<exists>Q s'. prvInitialiseNewQueue n m area q s = Some s' \<and> queue s' = (queue s)(q := Q) \<and> contents Q = [] \<and> uxLength Q = n \<and> uxItemSize Q = m \<and>
    world_ok idle T (insert (wlist False q) (insert (wlist True q) E)) (insert q QS) cs s'"
proof -
  note d = world_okD[OF w]
  obtain Q where Q: "prvInitialiseNewQueue n m area q s = Some (s\<lparr>queue := (queue s)(q := Q),
      knl := vListInitialise (EventList (wlist False q)) (vListInitialise (EventList (wlist True q)) (knl s))\<rparr>)"
    "buffer Q" "contents Q = []" "uxLength Q = n" "uxItemSize Q = m" "pxQueueSetContainer Q = None" "\<forall>sd. lock sd Q = queueUNLOCKED"
    using new_buffer[OF nm area] by blast
  note i = idle_current[OF w cur(1,2)]
  define k1 where "k1 = vListInitialise (EventList (wlist True q)) (knl s)"
  define k2 where "k2 = vListInitialise (EventList (wlist False q)) k1"
  have same: "pxContainer k2 = pxContainer (knl s)" "pxCurrentTCB k2 = pxCurrentTCB (knl s)" "uxSchedulerSuspended k2 = uxSchedulerSuspended (knl s)"
    "pendsv k1 = pendsv (knl s)"
    by (simp_all add: k2_def k1_def vListInitialise_def)
  have "kernel_ok idle T (insert (wlist True q) E) k1"
    using perform_ok[OF i(4), of "NewList (wlist True q)"] new(2) cur(3) by (simp add: allowed_def k1_def)
  from perform_ok[OF this, of "NewList (wlist False q)"]
  have k2: "kernel_ok idle T (insert (wlist False q) (insert (wlist True q) E)) k2"
    using new(3) cur(3) same(4) by (simp add: allowed_def k2_def)
  let ?s = "s\<lparr>queue := (queue s)(q := Q), knl := k2\<rparr>"
  have old: "p \<noteq> q" if "cs u = Some (p, a, c)" for u p a c using d(8)[OF that] new(1) by (auto simp: call_ok_def)
  have nw: "waiters (EventList (wlist sd q)) (knl s) = {}" for sd
  proof -
    have "False" if u: "event_list (knl s) u = Some (EventList (wlist sd q))" for u using d(11)[OF u] old by auto
    then show ?thesis by blast
  qed
  have lk: "lock_ok T cs sd q (lock sd Q)" for sd using old Q(7) by (auto simp: lock_ok_def locked_by_def)
  have nl: "no_lost T cs ?s sd p" if p: "p \<in> insert q QS" for sd p
  proof (cases "p = q")
    case True
    have "\<not> at_place cs sd q" using old by (auto simp: at_place_def)
    then show ?thesis using True nw[of sd] same(1) by (simp add: no_lost_def)
  next
    case False
    then show ?thesis using no_lost_mono[OF d(7)[of p sd], of ?s cs] p same(1) triers_T(2)[OF w] by (simp add: triers_def)
  qed
  have calls: "call_ok idle T (insert q QS) ?s u x" if "cs u = Some x" for u x
    using d(8)[OF that] same(2) old that unfolding call_ok_def by (auto split: prod.split)
  have "world_ok idle T (insert (wlist False q) (insert (wlist True q) E)) (insert q QS) cs ?s"
    unfolding world_ok_def
    using k2 d(2-6,9-11) Q(2,6) lk nl calls same i(3) kernel_ok_win[of idle T _ k2] by auto
  then show ?thesis using Q(1,3-5) unfolding k1_def[symmetric] k2_def[symmetric] by (intro exI[of _ Q] exI[of _ ?s]) simp
qed

section \<open>Events\<close>

text \<open>What a completed operation did: the bytes put at a place of queue \<open>q\<close>, received from it, or peeked at.\<close>

datatype qevent = Put nat copy_position "8 word list" | Got nat "8 word list" | Saw nat "8 word list"

fun event_queue :: "qevent \<Rightarrow> nat" where
  "event_queue (Put q p x) = q"
| "event_queue (Got q x) = q"
| "event_queue (Saw q x) = q"

fun event_of :: "nat \<Rightarrow> qop \<Rightarrow> Queue_t \<Rightarrow> 8 word list option \<Rightarrow> qevent list" where
  "event_of q a Q None = []"
| "event_of q (Send item p) Q (Some x) = [Put q p (take (item_size Q) item)]"
| "event_of q Peek Q (Some x) = [Saw q x]"
| "event_of q a Q (Some x) = [Got q x]"

definition completed :: "nat \<Rightarrow> qop \<Rightarrow> Queue_t \<Rightarrow> qcall \<Rightarrow> qcall \<Rightarrow> qevent list" where
  "completed q a Q c c' = (if pc c = Attempt then (case pc c' of Done r \<Rightarrow> event_of q a Q r | _ \<Rightarrow> []) else [])"

text \<open>The specification: a queue is a list of items; None is an event that it does not allow.\<close>

fun enact :: "nat \<Rightarrow> qevent \<Rightarrow> 8 word list list \<Rightarrow> 8 word list list option" where
  "enact q (Put q' p x) xs = Some (if q' = q then put p x xs else xs)"
| "enact q (Got q' x) xs =
     (if q' \<noteq> q then Some xs else case xs of [] \<Rightarrow> None | y # ys \<Rightarrow> if y = x then Some ys else None)"
| "enact q (Saw q' x) xs =
     (if q' \<noteq> q then Some xs else case xs of [] \<Rightarrow> None | y # ys \<Rightarrow> if y = x then Some xs else None)"

fun replay :: "nat \<Rightarrow> qevent list \<Rightarrow> 8 word list list \<Rightarrow> 8 word list list option" where
  "replay q [] xs = Some xs"
| "replay q (e # es) xs = Option.bind (enact q e xs) (replay q es)"

lemma replay_append: "replay q (es @ es') xs = Option.bind (replay q es xs) (replay q es')"
  by (induction es arbitrary: xs) (auto split: bind_split)

lemma enact_other: "event_queue e \<noteq> q \<Longrightarrow> enact q e xs = Some xs"
  by (cases e) auto

lemma replay_other: "(\<And>e. e \<in> set es \<Longrightarrow> event_queue e \<noteq> q) \<Longrightarrow> replay q es xs = Some xs"
  by (induction es) (simp_all add: enact_other)

lemma event_of_queue: "e \<in> set (event_of q a Q r) \<Longrightarrow> event_queue e = q"
  by (induction q a Q r rule: event_of.induct) simp_all

lemma completed_queue:
  assumes "e \<in> set (completed q a Q c c')"
  shows "event_queue e = q"
proof -
  have "\<exists>r. e \<in> set (event_of q a Q r)" using assms
    unfolding completed_def by (cases "pc c = Attempt"; cases "pc c'") auto
  then show ?thesis using event_of_queue by blast
qed

text \<open>A successful attempt is an event that the specification allows.\<close>

lemma effect_enact:
  assumes "attempt_effect a Q Q' x"
  shows "replay q (event_of q a Q (Some x)) (contents Q) = Some (contents Q')"
proof (cases "0 < fill Q")
  case True
  then obtain y ys where "contents Q = y # ys" by (cases "contents Q") (use length_contents[of Q] in auto)
  then show ?thesis using assms by (cases a) (auto simp: attempt_effect_def)
qed (use assms in \<open>cases a; auto simp: attempt_effect_def\<close>)

section \<open>Steps and their events\<close>

lemma unlocked_contents [simp]: "contents (unlocked sd Q) = contents Q"
  by (simp add: unlocked_def contents_def item_size_def slots_def fill_def read_slot_def)

lemma wake_first_queue: "wake_first l s = Some (y, s') \<Longrightarrow> queue s' = queue s"
  by (auto simp: wake_first_def split: if_splits bind_splits)

lemma step_events:
  assumes w: "world_ok idle T E QS cs s" and cur: "pxCurrentTCB (knl s) = Some t" and np: "\<not> pendsv (knl s)"
    and c: "cs t = Some (q, a, c)" and run: "queue_step a q c s = Some (c', s')"
  shows "p \<noteq> q \<Longrightarrow> queue s' p = queue s p" "replay q (completed q a (queue s q) c c') (contents (queue s q)) = Some (contents (queue s' q))"
proof -
  note d = world_okD[OF w]
  have q: "q \<in> QS" and v: "valid_op a (queue s q)" using d(8)[OF c] by (simp_all add: call_ok_def)
  note b = d(3)[OF q] and n = d(4)[OF q]
  have unlock: "queue s' = (queue s)(q := unlocked sd (queue s q))" if "pc c = (if sd then Unlock_rx r else Unlock_tx r)" for sd r
  proof -
    obtain k' where "unlock_loop sd (lock_count (lock sd (queue s q))) q s = Some (s\<lparr>knl := k'\<rparr>)"
      using unlock_loop_result[OF d(1) n d(5)[OF q]] by blast
    from unlock_run[OF that n this, of a] show ?thesis using run by auto
  qed
  have same: "(\<forall>p. p \<noteq> q \<longrightarrow> queue s' p = queue s p) \<and> contents (queue s' q) = contents (queue s q)" if "pc c \<noteq> Attempt"
  proof (cases "pc c")
    case (Unlock_tx r)
    then show ?thesis using unlock[of False r] by simp
  next
    case (Unlock_rx r)
    then show ?thesis using unlock[of True r] by simp
  next
    case Lock
    then have "s' = prvLockQueue q s" using run by (simp add: queue_step.simps)
    then show ?thesis by (simp add: prvLockQueue_def upd_queue_def contents_def item_size_def slots_def fill_def read_slot_def)
  qed (use run that in \<open>auto simp: queue_step.simps Let_def split: bind_splits prod.splits\<close>)
  have main: "(\<forall>p. p \<noteq> q \<longrightarrow> queue s' p = queue s p) \<and> replay q (completed q a (queue s q) c c') (contents (queue s q)) = Some (contents (queue s' q))"
  proof (cases "pc c = Attempt")
    case False
    then show ?thesis using same by (simp add: completed_def)
  next
    case True
    show ?thesis
    proof (cases "can_do a (queue s q)")
      case False
      note f = attempt_fails[OF b v False]
      have "s' = s \<and> (pc c' = Done None \<or> pc c' = Suspend_all)" using run True f(1) by (auto simp: queue_step.simps split: if_splits)
      then show ?thesis using True by (auto simp: completed_def)
    next
      case can: True
      obtain Q x where Q: "attempt_effect a (queue s q) Q x" and att: "attempt a q s =
        map_option (\<lambda>(y, s'). (Some x, if y then queueYIELD_IF_USING_PREEMPTION s' else s'))
          (wake_first (EventList (wlist (wakes a) q)) (s\<lparr>queue := (queue s)(q := Q)\<rparr>))"
        using attempt_succeeds[OF b v can n] by blast
      obtain y s1 where s1: "wake_first (EventList (wlist (wakes a) q)) (s\<lparr>queue := (queue s)(q := Q)\<rparr>) = Some (y, s1)"
        "c' = c\<lparr>pc := Done (Some x)\<rparr>" "s' = (if y then queueYIELD_IF_USING_PREEMPTION s1 else s1)"
        using run True att by (auto simp: queue_step.simps split: bind_splits)
      have "queue s' = (queue s)(q := Q)" using s1(1,3) wake_first_queue[OF s1(1)] by (simp add: queueYIELD_IF_USING_PREEMPTION_def)
      then show ?thesis using True s1(2) effect_enact[OF Q, of q] by (simp add: completed_def)
    qed
  qed
  show "p \<noteq> q \<Longrightarrow> queue s' p = queue s p" using main by blast
  show "replay q (completed q a (queue s q) c c') (contents (queue s q)) = Some (contents (queue s' q))" using main by blast
qed

lemma isr_events:
  assumes "isr_world idle T E QS cs s a q r s'"
  shows "p \<noteq> q \<Longrightarrow> queue s' p = queue s p" "replay q (event_of q a (queue s q) r) (contents (queue s q)) = Some (contents (queue s' q))"
  using assms effect_enact[of a "queue s q" _ _ q] by (auto simp: isr_world_def split: if_splits)

section \<open>Histories\<close>

text \<open>The system starts when the scheduler runs and no task waits on an event list.  From then on: the running task
  creates a queue (from the memory the allocator gives), enters a call, makes the next step of its
  call or leaves it; any interrupt may send, give, receive or peek; ticks, context switches and the other
  calls of the scheduler happen.  The task makes its steps only while no context switch is pending.\<close>

inductive queue_reach :: "nat \<Rightarrow> nat set \<Rightarrow> nat set \<Rightarrow> nat set \<Rightarrow> calls \<Rightarrow> qkernel \<Rightarrow> qevent list \<Rightarrow> bool" for idle :: nat and T :: "nat set" where
  boot: "kernel_reach idle T E k \<Longrightarrow> uxSchedulerSuspended k = 0 \<Longrightarrow> (\<forall>t e. event_list k t \<noteq> Some (EventList e)) \<Longrightarrow> card T \<le> 127 \<Longrightarrow>
    queue_reach idle T E {} (\<lambda>_. None) \<lparr>queue = qs, knl = k\<rparr> []"
| create: "queue_reach idle T E QS cs s es \<Longrightarrow> pxCurrentTCB (knl s) = Some t \<Longrightarrow> cs t = None \<Longrightarrow> \<not> pendsv (knl s) \<Longrightarrow>
    malloc (sizeof_Queue_t + n * m) = Some (q, area) \<Longrightarrow> unat (n * m) \<le> length area \<Longrightarrow>
    q \<notin> QS \<Longrightarrow> wlist True q \<notin> E \<Longrightarrow> wlist False q \<notin> E \<Longrightarrow> xQueueGenericCreate malloc n m s = Some (Some q, s') \<Longrightarrow>
    queue_reach idle T (insert (wlist False q) (insert (wlist True q) E)) (insert q QS) cs s' es"
| enter: "queue_reach idle T E QS cs s es \<Longrightarrow> pxCurrentTCB (knl s) = Some t \<Longrightarrow> cs t = None \<Longrightarrow> \<not> pendsv (knl s) \<Longrightarrow>
    q \<in> QS \<Longrightarrow> valid_op a (queue s q) \<Longrightarrow> (t = idle \<longrightarrow> n = 0) \<Longrightarrow> queue_reach idle T E QS (cs(t \<mapsto> (q, a, start_call n))) s es"
| step: "queue_reach idle T E QS cs s es \<Longrightarrow> pxCurrentTCB (knl s) = Some t \<Longrightarrow> cs t = Some (q, a, c) \<Longrightarrow> \<not> pendsv (knl s) \<Longrightarrow>
    queue_step a q c s = Some (c', s') \<Longrightarrow> queue_reach idle T E QS (cs(t \<mapsto> (q, a, c'))) s' (es @ completed q a (queue s q) c c')"
| leave: "queue_reach idle T E QS cs s es \<Longrightarrow> pxCurrentTCB (knl s) = Some t \<Longrightarrow> cs t = Some (q, a, c) \<Longrightarrow> pc c = Done r \<Longrightarrow>
    queue_reach idle T E QS (cs(t := None)) s es"
| sched: "queue_reach idle T E QS cs s es \<Longrightarrow> background b \<Longrightarrow> allowed idle T E b (knl s) \<Longrightarrow>
    (from_task b \<longrightarrow> (\<forall>t. pxCurrentTCB (knl s) = Some t \<longrightarrow> cs t = None)) \<Longrightarrow> perform b (knl s) = Some k' \<Longrightarrow>
    queue_reach idle T E QS cs (s\<lparr>knl := k'\<rparr>) es"
| switch: "queue_reach idle T E QS cs s es \<Longrightarrow> pendsv (knl s) \<Longrightarrow> xPortPendSVHandler (knl s) = Some k' \<Longrightarrow>
    queue_reach idle T E QS cs (s\<lparr>knl := k'\<rparr>) es"
| isr_send: "queue_reach idle T E QS cs s es \<Longrightarrow> q \<in> QS \<Longrightarrow> valid_op (Send item p) (queue s q) \<Longrightarrow>
    xQueueGenericSendFromISR q item p s = Some (ok, y, s') \<Longrightarrow>
    queue_reach idle T E QS cs s' (es @ event_of q (Send item p) (queue s q) (if ok then Some [] else None))"
| isr_give: "queue_reach idle T E QS cs s es \<Longrightarrow> q \<in> QS \<Longrightarrow> uxItemSize (queue s q) = 0 \<Longrightarrow> xQueueGiveFromISR q s = Some (ok, y, s') \<Longrightarrow>
    queue_reach idle T E QS cs s' (es @ event_of q (Send [] queueSEND_TO_BACK) (queue s q) (if ok then Some [] else None))"
| isr_receive: "queue_reach idle T E QS cs s es \<Longrightarrow> q \<in> QS \<Longrightarrow> xQueueReceiveFromISR q s = Some (r, y, s') \<Longrightarrow>
    queue_reach idle T E QS cs s' (es @ event_of q Receive (queue s q) r)"
| isr_peek: "queue_reach idle T E QS cs s es \<Longrightarrow> q \<in> QS \<Longrightarrow> xQueuePeekFromISR q s = Some (r, s') \<Longrightarrow>
    queue_reach idle T E QS cs s' (es @ event_of q Peek (queue s q) r)"

lemma create_runs:
  assumes "malloc (sizeof_Queue_t + n * m) = Some (q, area)" "unat (n * m) \<le> length area"
    "xQueueGenericCreate malloc n m s = Some (Some q, s')"
  shows "n > 0" "(-1) div n \<ge> m" "unat n * unat m \<le> length area" "prvInitialiseNewQueue n m area q s = Some s'"
proof -
  show nm: "n > 0" "(-1) div n \<ge> m" using assms(3) by (simp_all only: xQueueGenericCreate_def split: if_split_asm) simp_all
  show "unat n * unat m \<le> length area" using assms(2) no_wrap(2)[OF nm] by simp
  show "prvInitialiseNewQueue n m area q s = Some s'"
    using assms(1,3) by (auto simp: xQueueGenericCreate_def split: if_split_asm bind_splits)
qed

lemma give_isr:
  assumes w: "world_ok idle T E QS cs s" and q: "q \<in> QS" and z: "uxItemSize (queue s q) = 0"
  shows "\<exists>ok y s'. xQueueGiveFromISR q s = Some (ok, y, s') \<and>
    isr_world idle T E QS cs s (Send [] queueSEND_TO_BACK) q (if ok then Some [] else None) s'"
  using send_isr[OF w q, of "[]" queueSEND_TO_BACK] z give_is_send[OF z bufferD(4)[OF world_okD(3)[OF w q]]]
  by (simp add: item_size_def)

definition history_ok :: "nat set \<Rightarrow> qkernel \<Rightarrow> qevent list \<Rightarrow> bool" where
  "history_ok QS s es \<longleftrightarrow> (\<forall>e\<in>set es. event_queue e \<in> QS) \<and> (\<forall>q\<in>QS. replay q es [] = Some (contents (queue s q)))"

lemma history_same: "history_ok QS s es \<Longrightarrow> queue s' = queue s \<Longrightarrow> history_ok QS s' es"
  by (simp add: history_ok_def)

lemma history_more:
  assumes h: "history_ok QS s es" and q: "q \<in> QS" and e: "\<And>e. e \<in> set es' \<Longrightarrow> event_queue e = q"
    and o: "\<And>p. p \<noteq> q \<Longrightarrow> queue s' p = queue s p" and r: "replay q es' (contents (queue s q)) = Some (contents (queue s' q))"
  shows "history_ok QS s' (es @ es')"
proof -
  have "replay p (es @ es') [] = Some (contents (queue s' p))" if p: "p \<in> QS" for p
  proof (cases "p = q")
    case True
    then show ?thesis using h p r by (simp add: history_ok_def replay_append)
  next
    case False
    then have "replay p es' xs = Some xs" for xs using replay_other[of es' p] e by blast
    then show ?thesis using h p o[OF False] by (simp add: history_ok_def replay_append)
  qed
  then show ?thesis using h e q by (auto simp: history_ok_def)
qed

lemma history_isr:
  assumes h: "history_ok QS s es" and q: "q \<in> QS" and i: "isr_world idle T E QS cs s a q r s'"
  shows "history_ok QS s' (es @ event_of q a (queue s q) r)"
  using isr_events[OF i] by (intro history_more[OF h q]) (auto dest: event_of_queue)

lemma queue_reach_ok:
  assumes "queue_reach idle T E QS cs s es"
  shows "world_ok idle T E QS cs s \<and> history_ok QS s es"
  using assms
proof (induction rule: queue_reach.induct)
  case (boot E k qs)
  then have "kernel_ok idle T E k" by (simp add: kernel_reach_ok)
  then have "kernel_win idle T E k" "run_inv k" by (simp_all add: kernel_ok_win)
  then show ?case using boot by (simp add: world_ok_def history_ok_def)
next
  case (create E QS cs s es t malloc n m q area s')
  note r = create_runs[OF create.hyps(5,6,10)]
  have w: "world_ok idle T E QS cs s" and h: "history_ok QS s es" using create.IH by simp_all
  obtain Q where Q: "queue s' = (queue s)(q := Q)" "contents Q = []"
    and w': "world_ok idle T (insert (wlist False q) (insert (wlist True q) E)) (insert q QS) cs s'"
    using world_create[OF w create.hyps(2-4) r(1-3) create.hyps(7-9)] r(4) by auto
  have "replay q es xs = Some xs" for xs using replay_other[of es q] h create.hyps(7) by (auto simp: history_ok_def)
  then have "history_ok (insert q QS) s' es" using h Q create.hyps(7) by (auto simp: history_ok_def)
  then show ?case using w' by simp
next
  case (enter E QS cs s es t q a n)
  have w: "world_ok idle T E QS cs s" using enter.IH by simp
  have "t \<in> T" using kernel_winD(8)[OF world_okD(1)[OF w]] enter.hyps(2) by auto
  then have "call_ok idle T QS s t (q, a, start_call n)" using enter.hyps by (simp add: call_ok_def start_call_def)
  then have "world_ok idle T E QS (cs(t := Some (q, a, start_call n))) s"
    by (intro world_entry[OF w]) (use enter.hyps(3) in \<open>auto simp: start_call_def\<close>)
  then show ?case using enter.IH by blast
next
  case (step E QS cs s es t q a c c' s')
  have w: "world_ok idle T E QS cs s" and h: "history_ok QS s es" using step.IH by simp_all
  have q: "q \<in> QS" using world_okD(8)[OF w step.hyps(3)] by (simp add: call_ok_def)
  have "step_fine idle T E QS cs s t q a (queue_step a q c s)" using any_step[OF w step.hyps(2,4,3)] .
  then have "world_ok idle T E QS (cs(t \<mapsto> (q, a, c'))) s'" using step.hyps(5) by (simp add: step_fine_def)
  moreover have "history_ok QS s' (es @ completed q a (queue s q) c c')"
    by (rule history_more[OF h q]) (use completed_queue step_events[OF w step.hyps(2,4,3,5)] in blast)+
  ultimately show ?case by blast
next
  case (leave E QS cs s es t q a c r)
  have "world_ok idle T E QS (cs(t := None)) s"
    by (rule world_entry[of idle T E QS cs s t None]) (use leave in auto)
  then show ?case using leave.IH by blast
next
  case (sched E QS cs s es b k')
  then show ?case using world_background[of idle T E QS cs s b] history_same[of QS s es "s\<lparr>knl := k'\<rparr>"] by auto
next
  case (switch E QS cs s es k')
  then show ?case using world_switch[of idle T E QS cs s] history_same[of QS s es "s\<lparr>knl := k'\<rparr>"] by auto
next
  case (isr_send E QS cs s es q item p ok y s')
  then have "isr_world idle T E QS cs s (Send item p) q (if ok then Some [] else None) s'" using send_isr[of idle T E QS cs s q item p] by auto
  then show ?case using history_isr isr_send by (auto simp: isr_world_def)
next
  case (isr_give E QS cs s es q ok y s')
  then have "isr_world idle T E QS cs s (Send [] queueSEND_TO_BACK) q (if ok then Some [] else None) s'" using give_isr[of idle T E QS cs s q] by auto
  then show ?case using history_isr isr_give by (auto simp: isr_world_def)
next
  case (isr_receive E QS cs s es q r y s')
  then have "isr_world idle T E QS cs s Receive q r s'" using receive_isr[of idle T E QS cs s q] by auto
  then show ?case using history_isr isr_receive by (auto simp: isr_world_def)
next
  case (isr_peek E QS cs s es q r s')
  then have r: "r = (if fill (queue s q) = 0 then None else Some (hd (contents (queue s q))))" "s' = s"
    using peek_isr[of idle T E QS cs s q] by auto
  have "contents (queue s q) = hd (contents (queue s q)) # tl (contents (queue s q))" if "fill (queue s q) \<noteq> 0"
    using that length_contents[of "queue s q"] by (cases "contents (queue s q)") simp_all
  then have "replay q (event_of q Peek (queue s q) r) (contents (queue s q)) = Some (contents (queue s q))"
    unfolding r by (cases "contents (queue s q)") (auto simp flip: length_contents)
  then show ?case using isr_peek r(2) history_more[of QS s es q _ s] event_of_queue[of _ q Peek "queue s q" r] by auto
qed

section \<open>An example history\<close>

text \<open>Task 1 creates the queue 5, of two items of one byte.\<close>

definition example_malloc :: allocator where
  "example_malloc n = Some (5, [0, 0])"

lemma create_example:
  assumes k: "kernel_reach 0 T {0} k" "pxCurrentTCB k = Some 1" "uxSchedulerSuspended k = 0" "\<not> pendsv k" "\<And>t. t \<in> T \<Longrightarrow> is_ready k t"
    and T: "card T \<le> 127"
  obtains s where "queue_reach 0 T {11, 10, 0} {5} (\<lambda>_. None) s []" "pxCurrentTCB (knl s) = Some 1" "\<not> pendsv (knl s)"
    "uxLength (queue s 5) = 2" "uxItemSize (queue s 5) = 1" "contents (queue s 5) = []" "uxSchedulerSuspended (knl s) = 0"
    "is_ready (knl s) = is_ready k" "uxPriority (knl s) = uxPriority k"
proof -
  have core: "core_inv 0 T {0} k" using kernel_reach_ok[OF k(1)] by (simp add: kernel_ok_def)
  have quiet: "event_list k t \<noteq> Some (EventList e)" for t e
  proof
    assume e: "event_list k t = Some (EventList e)"
    then have "t \<in> T" using lists_inv_owner(2)[OF core_invD(1)[OF core] e] by simp
    then have "is_ready k t" by (rule k(5))
    then show False using e lists_invD(7)[OF core_invD(1)[OF core], of t] by simp
  qed
  define s0 where "s0 = \<lparr>queue = (\<lambda>_. undefined), knl = k\<rparr>"
  have r0: "queue_reach 0 T {0} {} (\<lambda>_. None) s0 []"
    unfolding s0_def by (rule queue_reach.boot[OF k(1,3)]) (use quiet T in auto)
  have f: "knl s0 = k" by (simp add: s0_def)
  have one: "(2 :: 32 word) > 0" "(-1 :: 32 word) div 2 \<ge> 1" "-1 - sizeof_Queue_t \<ge> 2 * (1 :: 32 word)"
    by (simp_all add: word_less_nat_alt word_le_nat_alt unat_div unsigned_minus_1_eq_mask mask_eq_exp_minus_1 sizeof_Queue_t_def)
  obtain Q where Q: "prvInitialiseNewQueue 2 1 [0, 0] 5 s0 = Some (s0\<lparr>queue := (queue s0)(5 := Q),
      knl := vListInitialise (EventList (wlist False 5)) (vListInitialise (EventList (wlist True 5)) (knl s0))\<rparr>)"
    "contents Q = []" "uxLength Q = 2" "uxItemSize Q = 1" using new_buffer[OF one(1,2), of "[0, 0]" 5 s0] by auto
  let ?s = "s0\<lparr>queue := (queue s0)(5 := Q),
      knl := vListInitialise (EventList (wlist False 5)) (vListInitialise (EventList (wlist True 5)) (knl s0))\<rparr>"
  have "xQueueGenericCreate example_malloc 2 1 s0 = Some (Some 5, ?s)"
    using one Q(1) unfolding xQueueGenericCreate_def example_malloc_def by simp
  then have "queue_reach 0 T (insert (wlist False 5) (insert (wlist True 5) {0})) {5} (\<lambda>_. None) ?s []"
    using queue_reach.create[OF r0, of 1 example_malloc 2 1 5 "[0, 0]" ?s] k(2,4) f
    by (simp add: example_malloc_def wlist_def)
  then have "queue_reach 0 T {11, 10, 0} {5} (\<lambda>_. None) ?s []" by (simp add: wlist_def insert_commute)
  then show thesis by (rule that) (use k f Q in \<open>simp_all add: vListInitialise_def is_ready_def fun_eq_iff\<close>)
qed

lemma example_queue:
  obtains s where "queue_reach 0 {1, 0} {11, 10, 0} {5} (\<lambda>_. None) s []" "pxCurrentTCB (knl s) = Some 1" "\<not> pendsv (knl s)"
    "uxLength (queue s 5) = 2" "uxItemSize (queue s 5) = 1" "contents (queue s 5) = []" "uxSchedulerSuspended (knl s) = 0"
proof -
  obtain k where k: "kernel_reach 0 {1, 0} {0} k" "pxCurrentTCB k = Some 1" "uxSchedulerSuspended k = 0" "\<not> pendsv k" "is_ready k 1"
    using example_start by blast
  have "is_ready k t" if "t \<in> {1, 0}" for t using that k(5) kernel_reach_ok[OF k(1)] by (auto simp: kernel_ok_def core_inv_def)
  then show thesis using create_example[OF k(1-4)] that by (auto simp: card_insert_if)
qed

text \<open>It sends the byte 7.\<close>

lemma example_sent:
  obtains c s where "queue_reach 0 {1, 0} {11, 10, 0} {5} [1 \<mapsto> (5, Send [7] queueSEND_TO_BACK, c)] s [Put 5 queueSEND_TO_BACK [7]]"
    "pc c = Done (Some [])" "contents (queue s 5) = [[7]]"
proof -
  obtain s where s: "queue_reach 0 {1, 0} {11, 10, 0} {5} (\<lambda>_. None) s []" "pxCurrentTCB (knl s) = Some 1" "\<not> pendsv (knl s)"
    "uxLength (queue s 5) = 2" "uxItemSize (queue s 5) = 1" "contents (queue s 5) = []" by (rule example_queue)
  let ?a = "Send [7] queueSEND_TO_BACK" and ?c = "start_call 0"
  have sz: "item_size (queue s 5) = 1" "slots (queue s 5) = 2" "fill (queue s 5) = 0"
    using s(4-6) length_contents[of "queue s 5"] by (simp_all add: item_size_def slots_def)
  have r1: "queue_reach 0 {1, 0} {11, 10, 0} {5} [1 \<mapsto> (5, ?a, ?c)] s []"
    by (rule queue_reach.enter[OF s(1,2)]) (use s(3) sz in simp_all)
  have w: "world_ok 0 {1, 0} {11, 10, 0} {5} [1 \<mapsto> (5, ?a, ?c)] s" using queue_reach_ok[OF r1] by simp
  obtain c' s' where run: "queue_step ?a 5 ?c s = Some (c', s')"
    using any_step[OF w s(2,3), of 5 ?a ?c] by (auto simp: step_fine_def)
  have b: "buffer (queue s 5)" "pxQueueSetContainer (queue s 5) = None" using world_okD(3,4)[OF w, of 5] by simp_all
  have can: "can_do ?a (queue s 5)" using sz by (simp add: can_do_def can_put_def)
  obtain Q x where Q: "attempt_effect ?a (queue s 5) Q x" and att: "attempt ?a 5 s =
      map_option (\<lambda>(y, s'). (Some x, if y then queueYIELD_IF_USING_PREEMPTION s' else s'))
        (wake_first (EventList (wlist (wakes ?a) 5)) (s\<lparr>queue := (queue s)(5 := Q)\<rparr>))"
    using attempt_succeeds[OF b(1) _ can b(2)] sz(1) by auto
  have x: "x = []" using Q by (simp add: attempt_effect_def)
  have c': "pc c' = Done (Some [])" using run att x by (auto simp: queue_step.simps start_call_def split: bind_splits)
  have e: "completed 5 ?a (queue s 5) ?c c' = [Put 5 queueSEND_TO_BACK [7]]"
    using c' sz(1) by (simp add: completed_def start_call_def)
  have r2: "queue_reach 0 {1, 0} {11, 10, 0} {5} [1 \<mapsto> (5, ?a, c')] s' [Put 5 queueSEND_TO_BACK [7]]"
    using queue_reach.step[OF r1 s(2) _ s(3) run] e by simp
  have "replay 5 [Put 5 queueSEND_TO_BACK [7]] [] = Some (contents (queue s' 5))"
    using queue_reach_ok[OF r2] by (simp add: history_ok_def)
  then show thesis using that[OF r2 c'] by simp
qed

section \<open>A history with two waiters\<close>

lemma start_ready:
  assumes b: "boots T E k" and t: "idle \<notin> T" "timer \<notin> insert idle T" and card: "2 * card (insert timer (insert idle T)) < 2 ^ 32"
    and run: "vTaskStartScheduler (Some idle) (Some timer) k = Some (True, k')" and u: "u \<in> insert timer (insert idle T)"
  shows "is_ready k' u"
proof -
  obtain k1 k2 where k1: "xTaskCreate (Some idle) 0 k = Some (True, k1)" and k2: "xTaskCreate (Some timer) configTIMER_TASK_PRIORITY k1 = Some (True, k2)"
    and k': "k' = k2\<lparr>xNextTaskUnblockTime := portMAX_DELAY, xSchedulerRunning := True, xTickCount := 0\<rparr>"
    using run by (auto simp: vTaskStartScheduler_def split: bind_splits if_splits)
  have "finite T" using boots_inv[OF b] lists_inv_finite[of T E k] by (auto simp: boot_inv_def)
  then have "2 * card (insert idle T) < 2 ^ 32" using card t(2) by simp
  then have "boots (insert timer (insert idle T)) E k2" using boots.task[OF boots.task[OF b t(1) _ k1] t(2) card k2] by simp
  then have "boot_inv (insert timer (insert idle T)) E k2" using boots_inv by blast
  then have "is_ready k2 u" using u unfolding boot_inv_def by blast
  then show ?thesis by (simp add: k' is_ready_def)
qed

text \<open>Task 2 has a priority between the ones of the idle task 0 and the timer task 1, which runs.\<close>

lemma example_three:
  obtains k where "kernel_reach 0 {1, 0, 2} {0} k" "pxCurrentTCB k = Some 1" "uxSchedulerSuspended k = 0" "\<not> pendsv k"
    "is_ready k 0" "is_ready k 1" "is_ready k 2" "uxPriority k 0 < uxPriority k 2"
proof -
  have b0: "boots {} {0} (vListInitialise (EventList 0) reset_kernel)" using boots.list[OF boots_reset, of 0] by simp
  obtain k0 where k0: "xTaskCreate (Some 2) 3 (vListInitialise (EventList 0) reset_kernel) = Some (True, k0)" "boots {2} {0} k0"
    using boots_task[OF b0, of 2 3] by auto
  obtain k where k: "vTaskStartScheduler (Some 0) (Some 1) k0 = Some (True, k)" "pxCurrentTCB k = Some 1" "uxSchedulerSuspended k = 0" "\<not> pendsv k"
    using start_result[OF k0(2), of 0 1] by auto
  have r: "is_ready k u" if "u \<in> {1, 0, 2}" for u using start_ready[OF k0(2) _ _ _ k(1)] that by auto
  have "uxPriority k0 2 = 3" using priority_create[OF k0(1)] by (simp add: configMAX_PRIORITIES_def)
  then have "uxPriority k 0 = 0 \<and> uxPriority k 2 = 3"
    using k(1) by (auto simp: vTaskStartScheduler_def split: bind_splits if_splits dest!: priority_create)
  moreover have "kernel_reach 0 {1, 0, 2} {0} k" using kernel_reach.start[OF k0(2), of 0 1 k] k(1) by simp
  ultimately show thesis using that k(2-4) r by simp
qed

lemma example_queue_three:
  obtains s where "queue_reach 0 {1, 0, 2} {11, 10, 0} {5} (\<lambda>_. None) s []" "pxCurrentTCB (knl s) = Some 1" "\<not> pendsv (knl s)"
    "uxLength (queue s 5) = 2" "uxItemSize (queue s 5) = 1" "contents (queue s 5) = []"
    "is_ready (knl s) 0" "is_ready (knl s) 1" "is_ready (knl s) 2" "uxPriority (knl s) 0 < uxPriority (knl s) 2"
proof -
  obtain k where k: "kernel_reach 0 {1, 0, 2} {0} k" "pxCurrentTCB k = Some 1" "uxSchedulerSuspended k = 0" "\<not> pendsv k"
    "is_ready k 0" "is_ready k 1" "is_ready k 2" "uxPriority k 0 < uxPriority k 2" by (rule example_three)
  obtain s where "queue_reach 0 {1, 0, 2} {11, 10, 0} {5} (\<lambda>_. None) s []" "pxCurrentTCB (knl s) = Some 1" "\<not> pendsv (knl s)"
    "uxLength (queue s 5) = 2" "uxItemSize (queue s 5) = 1" "contents (queue s 5) = []" "is_ready (knl s) = is_ready k" "uxPriority (knl s) = uxPriority k"
    using create_example[OF k(1-4)] k(5-7) by (auto simp: card_insert_if)
  then show thesis using that k(5-8) by simp
qed

text \<open>A call of a task that finds the queue empty waits: its steps without an interruption.\<close>

lemma receive_waits:
  assumes r: "queue_reach idle T E QS cs s es" and cur: "pxCurrentTCB (knl s) = Some t" "cs t = None" "\<not> pendsv (knl s)" "t \<noteq> idle"
    and q: "q \<in> QS" "fill (queue s q) = 0"
  obtains c s' where "queue_reach idle T E QS (cs(t \<mapsto> (q, Receive, c))) s' es" "pc c = Attempt" "queue s' = queue s"
    "event_list (knl s') = (event_list (knl s))(t := Some (xTasksWaitingToReceive q))" "pendsv (knl s')"
    "waits t (wait_time portMAX_DELAY) (knl s) (knl s')" "uxSchedulerSuspended (knl s') = 0" "kernel_ok idle T E (knl s')"
proof -
  have w: "world_ok idle T E QS cs s" using queue_reach_ok[OF r] by simp
  note d = world_okD[OF w] and i = idle_current[OF w cur(1,2)]
  have rdy: "is_ready (knl s) t" using i(3) cur(1,3) by (simp add: run_inv_def)
  have lk: "lock sd (queue s q) = queueUNLOCKED" for sd using d(6)[OF q(1), of sd] i(2) by (simp add: lock_ok_def)
  have locks: "cRxLock (queue s q) = queueUNLOCKED" "cTxLock (queue s q) = queueUNLOCKED" using lk[of True] lk[of False] by (simp_all add: lock_def)
  let ?start = "start_call portMAX_DELAY" and ?k1 = "vTaskSuspendAll (knl s)"
  let ?c = "\<lambda>p. ?start\<lparr>xTimeOut := vTaskInternalSetTimeOutState (knl s), xEntryTimeSet := True, pc := p\<rparr>"
  let ?cs = "\<lambda>c. cs(t \<mapsto> (q, Receive, c))"
  have n: "portMAX_DELAY \<noteq> 0" by (simp add: portMAX_DELAY_def)
  obtain k' where k': "wait_on (wlist False q) portMAX_DELAY (knl s) = Some k'" "kernel_ok idle T E k'" "pendsv k'"
    "waits t (wait_time portMAX_DELAY) (knl s) k'" "event_list k' = (event_list (knl s))(t := Some (EventList (wlist False q)))"
    using wait_on_result[OF i(4,1) cur(1) rdy cur(4) d(5)[OF q(1)] n] by blast
  obtain k2 y k3 where k2: "vTaskPlaceOnEventList (EventList (wlist False q)) portMAX_DELAY ?k1 = Some k2"
    "xTaskResumeAll k2 = Some (y, k3)" "k' = (if \<not> y then portYIELD k3 else k3)"
    using k'(1) by (auto simp: wait_on_def split: bind_splits)
  have core1: "core_inv idle T E ?k1" "prio_inv ?k1" "pxCurrentTCB ?k1 = Some t" "is_ready ?k1 t" "pendsv ?k1 = pendsv (knl s)"
    using i(4) cur(1) rdy by (auto simp: kernel_ok_def vTaskSuspendAll_def prio_inv_def is_ready_def)
  have p2: "\<not> pendsv k2" "pxCurrentTCB k2 = Some t"
    using place_result[OF core1(1,3,4) cur(4) d(5)[OF q(1)] n core1(2), of False] k2(1) core1(3,5) cur(3) by (auto simp: waits_def)
  have fails: "attempt Receive q s = Some (None, s)" "must_wait Receive q s" 
    using attempt_fails[OF d(3)[OF q(1)], of Receive] q(2) by (simp_all add: can_do_def)
  have r0: "queue_reach idle T E QS (?cs ?start) s es"
    by (rule queue_reach.enter[OF r cur(1-3) q(1)]) (use cur(4) in simp_all)
  note go = queue_reach.step[where t = t and q = q and a = Receive]
  have r1: "queue_reach idle T E QS (?cs (?c Suspend_all)) s es"
    using go[OF r0 cur(1) _ cur(3), of ?start "?c Suspend_all" s] fails(1) n by (simp add: queue_step.simps start_call_def completed_def)
  have r2: "queue_reach idle T E QS (?cs (?c Lock)) (s\<lparr>knl := ?k1\<rparr>) es"
    using go[OF r1 cur(1) _ cur(3), of "?c Suspend_all" "?c Lock"] by (simp add: queue_step.simps completed_def)
  let ?s3 = "prvLockQueue q (s\<lparr>knl := ?k1\<rparr>)"
  have s3: "knl ?s3 = ?k1" by (simp add: prvLockQueue_def upd_queue_def)
  have c3: "pxCurrentTCB (knl ?s3) = Some t" "\<not> pendsv (knl ?s3)" using core1(3,5) cur(3) s3 by simp_all
  have Q3: "queue ?s3 = (queue s)(q := (queue s q)\<lparr>cRxLock := queueLOCKED_UNMODIFIED, cTxLock := queueLOCKED_UNMODIFIED\<rparr>)"
    using locks by (simp add: prvLockQueue_def upd_queue_def)
  have r3: "queue_reach idle T E QS (?cs (?c Check_time_out)) ?s3 es"
    using go[OF r2 _ _ _, of "?c Lock" "?c Check_time_out" ?s3] core1(3,5) cur(3) by (simp add: queue_step.simps completed_def)
  have r4: "queue_reach idle T E QS (?cs (?c Check_again)) ?s3 es"
    using go[OF r3 c3(1) _ c3(2), of "?c Check_time_out" "?c Check_again" ?s3]
    by (simp add: queue_step.simps completed_def xTaskCheckForTimeOut_def start_call_def)
  have r5: "queue_reach idle T E QS (?cs (?c Place)) ?s3 es"
    using go[OF r4 c3(1) _ c3(2), of "?c Check_again" "?c Place" ?s3] fails(2) Q3
    by (simp add: queue_step.simps completed_def prvIsQueueEmpty_def)
  let ?s6 = "?s3\<lparr>knl := k2\<rparr>"
  have r6: "queue_reach idle T E QS (?cs (?c (Unlock_tx Blocked))) ?s6 es"
    using go[OF r5 c3(1) _ c3(2), of "?c Place" "?c (Unlock_tx Blocked)" ?s6] k2(1) s3
    by (simp add: queue_step.simps completed_def wait_list_wlist start_call_def)
  have z: "unlock_loop sd 0 q x = Some x" for sd x by (simp add: unlock_loop_def)
  let ?s7 = "?s6\<lparr>queue := (queue ?s6)(q := unlocked False (queue ?s6 q)), knl := k2\<rparr>"
  have "queue_step Receive q (?c (Unlock_tx Blocked)) ?s6 = Some (?c (Unlock_rx Blocked), ?s7)"
    using unlock_run[of "?c (Unlock_tx Blocked)" False Blocked ?s6 q k2 Receive] d(4)[OF q(1)] Q3 z by (simp add: lock_def queueLOCKED_UNMODIFIED_def)
  then have r7: "queue_reach idle T E QS (?cs (?c (Unlock_rx Blocked))) ?s7 es"
    using go[OF r6 _ _ _, of "?c (Unlock_tx Blocked)" "?c (Unlock_rx Blocked)" ?s7] p2 by (simp add: completed_def)
  let ?s8 = "?s7\<lparr>queue := (queue ?s7)(q := unlocked True (queue ?s7 q)), knl := k2\<rparr>"
  have "queue_step Receive q (?c (Unlock_rx Blocked)) ?s7 = Some (?c (Resume_all Blocked), ?s8)"
    using unlock_run[of "?c (Unlock_rx Blocked)" True Blocked ?s7 q k2 Receive] d(4)[OF q(1)] Q3 z by (simp add: lock_def unlocked_def queueLOCKED_UNMODIFIED_def)
  then have r8: "queue_reach idle T E QS (?cs (?c (Resume_all Blocked))) ?s8 es"
    using go[OF r7 _ _ _, of "?c (Unlock_rx Blocked)" "?c (Resume_all Blocked)" ?s8] p2 by (simp add: completed_def)
  let ?s9 = "?s8\<lparr>knl := k'\<rparr>"
  have r9: "queue_reach idle T E QS (?cs (?c Attempt)) ?s9 es"
    using go[OF r8 _ _ _, of "?c (Resume_all Blocked)" "?c Attempt" ?s9] p2 k2(2,3) by (simp add: queue_step.simps completed_def Let_def)
  have "(queue s q)\<lparr>cTxLock := queueUNLOCKED, cRxLock := queueUNLOCKED\<rparr> = queue s q" using locks by (cases "queue s q") simp
  then have "queue ?s9 = queue s" using Q3 by (simp add: unlocked_def fun_eq_iff)
  then show thesis using that[OF r9] k'(2-5) i(1) by (simp add: wlist_lists waits_def)
qed

text \<open>Tasks 1 and 2 wait to receive from the empty queue; an interrupt sends the byte 7 and wakes one of them.\<close>

lemma example_waiters:
  obtains cs s w where "queue_reach 0 {1, 0, 2} {11, 10, 0} {5} cs s [Put 5 queueSEND_TO_BACK [7]]" "contents (queue s 5) = [[7]]"
    "uxSchedulerSuspended (knl s) = 0" "event_list (knl s) w = Some (xTasksWaitingToReceive 5)"
proof -
  let ?T = "{1, 0, 2} :: nat set" and ?E = "{11, 10, 0} :: nat set" and ?Q = "{5} :: nat set" and ?l = "xTasksWaitingToReceive 5"
  obtain s where s: "queue_reach 0 ?T ?E ?Q (\<lambda>_. None) s []" "pxCurrentTCB (knl s) = Some 1" "\<not> pendsv (knl s)"
    "uxLength (queue s 5) = 2" "uxItemSize (queue s 5) = 1" "contents (queue s 5) = []"
    "is_ready (knl s) 0" "is_ready (knl s) 1" "is_ready (knl s) 2" "uxPriority (knl s) 0 < uxPriority (knl s) 2" by (rule example_queue_three)
  have sz: "item_size (queue s 5) = 1" "slots (queue s 5) = 2" "fill (queue s 5) = 0"
    using s(4-6) length_contents[of "queue s 5"] by (simp_all add: item_size_def slots_def)
  obtain c1 s1 where s1: "queue_reach 0 ?T ?E ?Q ((\<lambda>_. None)(1 \<mapsto> (5, Receive, c1))) s1 []" "pc c1 = Attempt" "queue s1 = queue s"
    "event_list (knl s1) = (event_list (knl s))(1 := Some ?l)" "pendsv (knl s1)"
    "waits 1 (wait_time portMAX_DELAY) (knl s) (knl s1)" "uxSchedulerSuspended (knl s1) = 0" "kernel_ok 0 ?T ?E (knl s1)"
    using receive_waits[OF s(1,2) _ s(3), of 5] sz(3) by auto
  obtain d k2 where k2: "xPortPendSVHandler (knl s1) = Some k2" "pxCurrentTCB k2 = Some d" "is_ready (knl s1) d" "d \<in> ?T"
    "\<forall>t. is_ready (knl s1) t \<longrightarrow> uxPriority (knl s1) t \<le> uxPriority (knl s1) d" "\<not> pendsv k2" "pxContainer k2 = pxContainer (knl s1)"
    using switch_effect[OF s1(8,7)] by (elim exE conjE) (rule that)
  have "is_ready (knl s1) 2" "\<not> is_ready (knl s1) 1" "uxPriority (knl s1) = uxPriority (knl s)" using s1(6) s(9) by (simp_all add: waits_def)
  then have d: "d = 2" using k2(3-5) s(10) by (metis empty_iff insert_iff not_le)
  let ?s2 = "s1\<lparr>knl := k2\<rparr>"
  have r2: "queue_reach 0 ?T ?E ?Q ((\<lambda>_. None)(1 \<mapsto> (5, Receive, c1))) ?s2 []" by (rule queue_reach.switch[OF s1(1,5) k2(1)])
  obtain c2 s3 where s3: "queue_reach 0 ?T ?E ?Q ((\<lambda>_. None)(1 \<mapsto> (5, Receive, c1), 2 \<mapsto> (5, Receive, c2))) s3 []" "pc c2 = Attempt" "queue s3 = queue s"
    "event_list (knl s3) = (event_list k2)(2 := Some ?l)"
  proof -
    have f: "pxCurrentTCB (knl ?s2) = Some 2" "((\<lambda>_. None)(1 \<mapsto> (5, Receive, c1)) :: calls) 2 = None" "\<not> pendsv (knl ?s2)"
      "(2 :: nat) \<noteq> 0" "5 \<in> ?Q" "fill (queue ?s2 5) = 0" "queue ?s2 = queue s" "event_list (knl ?s2) = event_list k2"
      using k2(2,6) d s1(3) sz(3) by simp_all
    show thesis by (rule receive_waits[OF r2 f(1-6)]) (rule that, simp_all only: f(7,8))
  qed
  let ?cs = "(\<lambda>_. None)(1 \<mapsto> (5, Receive, c1), 2 \<mapsto> (5, Receive, c2)) :: calls"
  have at: "\<not> suspends (pc c)" if "?cs t = Some (q, a, c)" for t q a c using that s1(2) s3(2) by (auto split: if_splits)
  have w3: "world_ok 0 ?T ?E ?Q ?cs s3" using queue_reach_ok[OF s3(1)] by simp
  note D = world_okD[OF w3]
  have on: "{1, 2} \<subseteq> {t. event_list (knl s3) t = Some ?l}" 
    using fun_cong[OF s3(4), of 1] fun_cong[OF s3(4), of 2] fun_cong[OF s1(4), of 1] k2(7) by simp
  have "\<not> locked_by ?cs False 5" using at blocked_suspends(2) unfolding locked_by_def by blast
  then have lk: "lock False (queue s3 5) = queueUNLOCKED" using D(6)[of 5 False] by (simp add: lock_ok_def)
  have v: "valid_op (Send [7] queueSEND_TO_BACK) (queue s3 5)" using s3(3) sz by simp
  have can: "can_put queueSEND_TO_BACK (queue s3 5)" using s3(3) sz by (simp add: can_put_def)
  obtain ok y s4 where run: "xQueueGenericSendFromISR 5 [7] queueSEND_TO_BACK s3 = Some (ok, y, s4)"
    "isr_world 0 ?T ?E ?Q ?cs s3 (Send [7] queueSEND_TO_BACK) 5 (if ok then Some [] else None) s4"
    using send_isr[OF w3 _ v] by auto
  have ok: "ok" using run(2) can by (auto simp: isr_world_def can_do_def split: if_splits)
  have r4: "queue_reach 0 ?T ?E ?Q ?cs s4 [Put 5 queueSEND_TO_BACK [7]]"
    using queue_reach.isr_send[OF s3(1) _ v run(1)] ok s3(3) sz(1) by simp
  obtain Q where Q: "prvCopyDataToQueue 5 [7] queueSEND_TO_BACK s3 = Some (False, s3\<lparr>queue := (queue s3)(5 := Q)\<rparr>)" "copied (queue s3 5) Q"
    using put_result[OF D(3) can, of "[7]"] v by auto
  let ?s = "s3\<lparr>queue := (queue s3)(5 := Q)\<rparr>"
  have "pxQueueSetContainer Q = None" using copiedD[OF Q(2)] D(4)[of 5] by simp
  then have "wake_first (EventList (wlist False 5)) ?s = Some (y, s4)"
    using run(1) Q(1) lk notify_signal[of ?s 5] can full_iff(1)[OF D(3)[of 5]]
    by (auto simp: xQueueGenericSendFromISR_def lock_def signal_def can_put_def split: if_splits bind_splits)
  then obtain u k4 where k4: "s4 = ?s\<lparr>knl := k4\<rparr>" "\<forall>f. waiters (EventList f) k4 = waiters (EventList f) (knl s3) - {u}"
    using wake_first_result[of 0 ?T ?E ?s "wlist False 5"] D(1) D(5)[of 5 False] on by (auto simp: wlist_lists split: if_splits)
  have "\<exists>w. event_list (knl s4) w = Some ?l"
  proof -
    have "waiters ?l (knl s4) = waiters ?l (knl s3) - {u}" using k4 by (simp add: wlist_lists)
    then have "(if u = 1 then 2 else 1) \<in> waiters ?l (knl s4)" using on by auto
    then show ?thesis by blast
  qed
  moreover have "uxSchedulerSuspended (knl s4) = 0"
    using world_okD(9)[of 0 ?T ?E ?Q ?cs s4] queue_reach_ok[OF r4] at by (auto split: if_splits)
  moreover have "contents (queue s4 5) = [[7]]" using queue_reach_ok[OF r4] by (simp add: history_ok_def)
  ultimately show thesis using that[OF r4] by blast
qed

section \<open>Properties\<close>

text \<open>
  C7. The queues are safe in every history.  Tasks create queues and semaphores and send, receive, take and
  peek, with or without blocking, interrupts send, give, receive and peek, and ticks, context switches and calls
  of the scheduler come in at every place where \<open>queue.c\<close> leaves interrupts enabled: the kernel's
  invariant holds (without the running task's readiness while it is about to block), every queue's pointers stay
  inside its storage with no more items than slots, a lock is held exactly while a call is between its lock and
  its unlock and never exceeds the number of tasks, every task on the event list of a queue is in a
  blocking call of that side of that queue, and the next step of the running task's call is defined: no access
  outside the storage, no NULL pointer, no broken list.
\<close>

theorem queue_history_safe:
  assumes "queue_reach idle T E QS cs s es"
  shows "world_ok idle T E QS cs s \<and>
    (\<forall>t q a c. pxCurrentTCB (knl s) = Some t \<and> \<not> pendsv (knl s) \<and> cs t = Some (q, a, c) \<longrightarrow> queue_step a q c s \<noteq> None) \<and>
    (pendsv (knl s) \<longrightarrow> xPortPendSVHandler (knl s) \<noteq> None) \<and>
    (\<forall>q\<in>QS. xQueueReceiveFromISR q s \<noteq> None \<and> xQueuePeekFromISR q s \<noteq> None \<and>
      (\<forall>item p. valid_op (Send item p) (queue s q) \<longrightarrow> xQueueGenericSendFromISR q item p s \<noteq> None))"
proof -
  have w: "world_ok idle T E QS cs s" using queue_reach_ok[OF assms] by simp
  have "queue_step a q c s \<noteq> None" if "pxCurrentTCB (knl s) = Some t" "\<not> pendsv (knl s)" "cs t = Some (q, a, c)" for t q a c
    using any_step[OF w that] by (auto simp: step_fine_def)
  then show ?thesis
    using w world_switch[OF w] receive_isr[OF w] peek_isr[OF w] send_isr[OF w] by blast
qed

theorem queue_history_safe_witness:
  "\<exists>c s. queue_reach 0 {1, 0} {11, 10, 0} {5} [1 \<mapsto> (5, Send [7] queueSEND_TO_BACK, c)] s [Put 5 queueSEND_TO_BACK [7]] \<and>
    xQueueReceiveFromISR 5 s \<noteq> None"
proof -
  obtain c s where r: "queue_reach 0 {1, 0} {11, 10, 0} {5} [1 \<mapsto> (5, Send [7] queueSEND_TO_BACK, c)] s [Put 5 queueSEND_TO_BACK [7]]"
    by (rule example_sent)
  then show ?thesis using queue_history_safe[OF r] by blast
qed

text \<open>
  C4. A queue is a bounded list of items, whatever its users do.  In every history the completed operations on a queue, in
  the order of their critical sections (sends to the back, to the front and overwriting, receipts, takes and peeks, by tasks and
  interrupts), are a legal run of the abstract list that starts empty: every item received or seen is the head
  of the list at that moment, byte for byte, and what the ring buffer holds is the list at the end, never longer
  than the length the queue was created with.
\<close>

theorem queue_implements_list:
  assumes "queue_reach idle T E QS cs s es" "q \<in> QS"
  shows "replay q es [] = Some (contents (queue s q)) \<and> length (contents (queue s q)) = unat (uxMessagesWaiting (queue s q)) \<and>
    length (contents (queue s q)) \<le> unat (uxLength (queue s q))"
proof -
  have "world_ok idle T E QS cs s" "history_ok QS s es" using queue_reach_ok[OF assms(1)] by simp_all
  then show ?thesis using assms(2) bufferD(2)[OF world_okD(3)] by (simp add: history_ok_def fill_def slots_def)
qed

theorem queue_implements_list_witness:
  "\<exists>c s. queue_reach 0 {1, 0} {11, 10, 0} {5} [1 \<mapsto> (5, Send [7] queueSEND_TO_BACK, c)] s [Put 5 queueSEND_TO_BACK [7]] \<and>
    contents (queue s 5) = [[7]]"
proof -
  obtain c s where r: "queue_reach 0 {1, 0} {11, 10, 0} {5} [1 \<mapsto> (5, Send [7] queueSEND_TO_BACK, c)] s [Put 5 queueSEND_TO_BACK [7]]"
    by (rule example_sent)
  then show ?thesis using queue_implements_list[OF r, of 5] by auto
qed

text \<open>The items sent to and received from a queue, in order.\<close>

fun items_put :: "nat \<Rightarrow> qevent list \<Rightarrow> 8 word list list" where
  "items_put q [] = []"
| "items_put q (Put q' p x # es) = (if q' = q then x # items_put q es else items_put q es)"
| "items_put q (e # es) = items_put q es"

fun items_got :: "nat \<Rightarrow> qevent list \<Rightarrow> 8 word list list" where
  "items_got q [] = []"
| "items_got q (Got q' x # es) = (if q' = q then x # items_got q es else items_got q es)"
| "items_got q (e # es) = items_got q es"

fun only_back :: "nat \<Rightarrow> qevent list \<Rightarrow> bool" where
  "only_back q [] = True"
| "only_back q (Put q' p x # es) = ((q' = q \<longrightarrow> p = queueSEND_TO_BACK) \<and> only_back q es)"
| "only_back q (e # es) = only_back q es"

lemma replay_fifo: "only_back q es \<Longrightarrow> replay q es xs = Some ys \<Longrightarrow> xs @ items_put q es = items_got q es @ ys"
proof (induction es arbitrary: xs)
  case (Cons e es)
  then show ?case by (cases e) (auto split: if_splits list.splits bind_splits dest: Cons.IH)
qed simp

text \<open>
  C8. First in, first out.  If the senders to a queue, tasks or interrupts, only send to its back, then in every
  history the items received from it, followed by the items it still holds, are the items sent to it, in the order in
  which they were sent: nothing is lost, duplicated, corrupted or reordered.
\<close>

theorem queue_fifo:
  assumes "queue_reach idle T E QS cs s es" "q \<in> QS" "only_back q es"
  shows "items_put q es = items_got q es @ contents (queue s q)"
proof -
  have "replay q es [] = Some (contents (queue s q))" using queue_reach_ok[OF assms(1)] assms(2) by (simp add: history_ok_def)
  from replay_fifo[OF assms(3) this] show ?thesis by simp
qed

theorem queue_fifo_witness:
  "\<exists>c s. queue_reach 0 {1, 0} {11, 10, 0} {5} [1 \<mapsto> (5, Send [7] queueSEND_TO_BACK, c)] s [Put 5 queueSEND_TO_BACK [7]] \<and>
    [[7]] = contents (queue s 5)"
proof -
  obtain c s where r: "queue_reach 0 {1, 0} {11, 10, 0} {5} [1 \<mapsto> (5, Send [7] queueSEND_TO_BACK, c)] s [Put 5 queueSEND_TO_BACK [7]]"
    by (rule example_sent)
  then show ?thesis using queue_fifo[OF r, of 5] by auto
qed

text \<open>The calls of one side of a queue that are at their attempt and not on the event list.\<close>

definition trying :: "calls \<Rightarrow> qkernel \<Rightarrow> bool \<Rightarrow> nat \<Rightarrow> nat set" where
  "trying cs s sd q = {t. \<exists>a c. cs t = Some (q, a, c) \<and> sends a = sd \<and> pc c = Attempt \<and>
     event_list (knl s) t \<noteq> Some (if sd then xTasksWaitingToSend q else xTasksWaitingToReceive q)}"

lemma no_suspender:
  assumes w: "world_ok idle T E QS cs s" and u: "uxSchedulerSuspended (knl s) = 0" and c: "cs t = Some (q, a, c)"
  shows "\<not> suspends (pc c)"
  using world_okD(9)[OF w] u c by (auto split: if_splits)

lemma covered_now:
  assumes w: "world_ok idle T E QS cs s" and q: "q \<in> QS" and u: "uxSchedulerSuspended (knl s) = 0"
    and t: "event_list (knl s) t = Some (EventList (wlist sd q))"
  shows "avail sd (queue s q) \<le> card (trying cs s sd q)"
proof -
  have "\<not> locked_by cs sd q" 
    unfolding locked_by_def using no_suspender[OF w u] blocked_suspends(2) by blast
  then have l: "lock sd (queue s q) = queueUNLOCKED" using world_okD(6)[OF w q, of sd] by (simp add: lock_ok_def)
  have T: "card T \<noteq> 0" using kernel_winD(6,7)[OF world_okD(1)[OF w]] by simp
  have "triers cs (knl s) sd q = trying cs s sd q"
    unfolding triers_def trying_def wlist_lists
  proof (rule Collect_cong)
    show "(\<exists>a c. cs t = Some (q, a, c) \<and> sends a = sd \<and> will_try (pc c) \<and> event_list (knl s) t \<noteq> Some (EventList (wlist sd q))) \<longleftrightarrow>
      (\<exists>a c. cs t = Some (q, a, c) \<and> sends a = sd \<and> pc c = Attempt \<and>
        event_list (knl s) t \<noteq> Some (if sd then EventList (wlist True q) else EventList (wlist False q)))" for t
      using no_suspender[OF w u, of t q] by (cases sd) (auto elim!: will_try.elims)
  qed
  then show ?thesis using world_okD(7)[OF w q, of sd] t l T by (auto simp: no_lost_def covered_def)
qed

text \<open>
  C5. No wake-up is lost.  In every history of at most 127 tasks in which no task is created or deleted after the start of the
  scheduler, whenever the scheduler is not suspended: if a task waits to receive from a queue, then every item in
  the queue is matched by a different task that is off the event list and will try to receive before it waits again;
  and if a task waits to send, every free slot is matched by a task that will try to send.  In particular a task waits
  to receive while no other one is about to try only if the queue is empty, and waits to send only if it is full.
  This covers the interrupts that post while the queue is locked, waiters that time out at the same moment, and
  waiters that are suspended.  It does not cover a woken task that is deleted before its attempt (the item stays for
  the next one who tries), nor 128 tasks or more, for which the lock wraps (lock_wraps).
\<close>

theorem queue_no_lost_wakeup:
  assumes "queue_reach idle T E QS cs s es" "q \<in> QS" "uxSchedulerSuspended (knl s) = 0"
  shows "(event_list (knl s) t = Some (xTasksWaitingToReceive q) \<longrightarrow>
      unat (uxMessagesWaiting (queue s q)) \<le> card (trying cs s False q)) \<and>
    (event_list (knl s) t = Some (xTasksWaitingToSend q) \<longrightarrow>
      unat (uxLength (queue s q)) - unat (uxMessagesWaiting (queue s q)) \<le> card (trying cs s True q))"
proof -
  have w: "world_ok idle T E QS cs s" using queue_reach_ok[OF assms(1)] by simp
  show ?thesis
    using covered_now[OF w assms(2,3), of t False] covered_now[OF w assms(2,3), of t True]
    by (simp add: wlist_lists avail_def fill_def slots_def)
qed

theorem queue_no_lost_wakeup_witness:
  "\<exists>cs s w. queue_reach 0 {1, 0, 2} {11, 10, 0} {5} cs s [Put 5 queueSEND_TO_BACK [7]] \<and>
    event_list (knl s) w = Some (xTasksWaitingToReceive 5) \<and> contents (queue s 5) = [[7]] \<and> trying cs s False 5 \<noteq> {}"
proof -
  obtain cs s w where r: "queue_reach 0 {1, 0, 2} {11, 10, 0} {5} cs s [Put 5 queueSEND_TO_BACK [7]]" "contents (queue s 5) = [[7]]"
    "uxSchedulerSuspended (knl s) = 0" "event_list (knl s) w = Some (xTasksWaitingToReceive 5)" by (rule example_waiters)
  have "unat (uxMessagesWaiting (queue s 5)) = 1" using r(2) length_contents[of "queue s 5"] by (simp add: fill_def)
  then have "1 \<le> card (trying cs s False 5)" using queue_no_lost_wakeup[OF r(1) _ r(3), of 5 w] r(4) by simp
  then have "trying cs s False 5 \<noteq> {}" by auto
  then show ?thesis using r(1,2,4) by blast
qed

text \<open>How far a call is from its next attempt or its end.\<close>

fun rank :: "qpc \<Rightarrow> nat" where
  "rank Attempt = 0"
| "rank (Done x) = 0"
| "rank Disinherit = 1"
| "rank Check_empty = 2"
| "rank (Resume_all r) = 3"
| "rank (Unlock_rx r) = 4"
| "rank (Unlock_tx r) = 5"
| "rank Place = 6"
| "rank Inherit_priority = 7"
| "rank Check_again = 8"
| "rank Check_time_out = 9"
| "rank Lock = 10"
| "rank Suspend_all = 11"

lemma step_rank:
  assumes "queue_step a q c s = Some (c', s')" "pc c \<noteq> Attempt" "\<And>x. pc c \<noteq> Done x"
  shows "rank (pc c') < rank (pc c)"
  using assms
  by (cases "pc c") (auto simp: queue_step.simps Let_def split: bind_splits prod.splits reason.splits qop.splits)

text \<open>
  C36. Every pass of the blocking loop ends.  In every history, whatever interrupts and other tasks do in between, a call that
  is between two attempts is at its next attempt, or has returned, after at most 11 steps of its own, each of which
  is defined; an attempt that finds no room or no item with no block time left returns the error and changes
  nothing; and a call whose limit has passed while it was in the loop is not put on the event list.
\<close>

theorem queue_call_returns:
  assumes "queue_reach idle T E QS cs s es" "pxCurrentTCB (knl s) = Some t" "\<not> pendsv (knl s)" "cs t = Some (q, a, c)"
  shows "\<exists>c' s'. queue_step a q c s = Some (c', s') \<and>
    (if \<exists>x. pc c = Done x then c' = c \<and> s' = s
     else if pc c = Attempt
     then if can_do a (queue s q) then \<exists>x. pc c' = Done (Some x) else s' = s \<and> pc c' = (if ticks c = 0 then Done None else Suspend_all)
     else rank (pc c') < rank (pc c) \<and> rank (pc c) \<le> 11 \<and> (pc c = Check_time_out \<longrightarrow>
       fst (xTaskCheckForTimeOut (xTimeOut c) (ticks c) (knl s)) \<longrightarrow> pc c' = Unlock_tx TimedOut))"
proof -
  have w: "world_ok idle T E QS cs s" using queue_reach_ok[OF assms(1)] by simp
  note d = world_okD[OF w]
  have q: "q \<in> QS" and v: "valid_op a (queue s q)" using d(8)[OF assms(4)] by (simp_all add: call_ok_def)
  obtain c' s' where run: "queue_step a q c s = Some (c', s')" using any_step[OF w assms(2-4)] by (auto simp: step_fine_def)
  have fin: "c' = c \<and> s' = s" if "pc c = Done x" for x using run that by (simp add: queue_step.simps)
  have att: "if can_do a (queue s q) then \<exists>x. pc c' = Done (Some x) else s' = s \<and> pc c' = (if ticks c = 0 then Done None else Suspend_all)"
    if p: "pc c = Attempt"
  proof (cases "can_do a (queue s q)")
    case False
    then show ?thesis using run p attempt_fails(1)[OF d(3)[OF q] v False] by (auto simp: queue_step.simps split: if_splits)
  next
    case True
    obtain Q x where "attempt a q s = map_option (\<lambda>(y, s'). (Some x, if y then queueYIELD_IF_USING_PREEMPTION s' else s'))
        (wake_first (EventList (wlist (wakes a) q)) (s\<lparr>queue := (queue s)(q := Q)\<rparr>))"
      using attempt_succeeds[OF d(3)[OF q] v True d(4)[OF q]] by blast
    then show ?thesis using run p True by (auto simp: queue_step.simps split: bind_splits)
  qed
  have "rank p \<le> 11" for p by (cases p) simp_all
  moreover have "pc c' = Unlock_tx TimedOut" if "pc c = Check_time_out" "fst (xTaskCheckForTimeOut (xTimeOut c) (ticks c) (knl s))"
    using run that by (auto simp: queue_step.simps Let_def split: prod.splits)
  ultimately show ?thesis using run fin att step_rank[OF run] by (intro exI[of _ c'] exI[of _ s']) auto
qed

theorem queue_call_returns_witness:
  "\<exists>s c'. queue_reach 0 {1, 0} {11, 10, 0} {5} [1 \<mapsto> (5, Receive, start_call 3)] s [] \<and>
    queue_step Receive 5 (start_call 3) s = Some (c', s) \<and> pc c' = Suspend_all"
proof -
  obtain s where s: "queue_reach 0 {1, 0} {11, 10, 0} {5} (\<lambda>_. None) s []" "pxCurrentTCB (knl s) = Some 1" "\<not> pendsv (knl s)"
    "contents (queue s 5) = []" by (rule example_queue)
  have "fill (queue s 5) = 0" using s(4) length_contents[of "queue s 5"] by simp
  then have no: "\<not> can_do Receive (queue s 5)" by (simp add: can_do_def)
  have r: "queue_reach 0 {1, 0} {11, 10, 0} {5} [1 \<mapsto> (5, Receive, start_call 3)] s []"
    by (rule queue_reach.enter[OF s(1,2)]) (use s(3) in simp_all)
  then show ?thesis using queue_call_returns[OF r s(2,3)] no by (auto simp: start_call_def)
qed

text \<open>The lock wraps when 128 tasks or more exist: the assertion against it is configured out.\<close>

lemma lock_wraps:
  assumes "uxCurrentNumberOfTasks (knl s) \<ge> 128"
  shows "cTxLock (queue (prvIncrementQueueTxLock q 127 s) q) = - 128" "lock_count (- 128) = 0"
proof -
  have "scast (127 :: 8 word) < uxCurrentNumberOfTasks (knl s)" using assms by (simp add: word_less_nat_alt word_le_nat_alt)
  then show "cTxLock (queue (prvIncrementQueueTxLock q 127 s) q) = - 128"
    by (simp add: prvIncrementQueueTxLock_def uxTaskGetNumberOfTasks_def upd_queue_def)
qed (simp add: lock_count_def)

end
