(* ===== verification/FRQueueSet.thy ===== *)
theory FRQueueSet
  imports FRQueueReach
begin

text \<open>
  Creation of queues on every branch, queue sets, and mutexes.
\<close>

section \<open>Creation\<close>

text \<open>What the code relies on: a block that is handed out has the size asked for.\<close>

definition malloc_ok :: "allocator \<Rightarrow> bool" where
  "malloc_ok malloc \<longleftrightarrow> (\<forall>n q area. malloc n = Some (q, area) \<longrightarrow> unat n \<le> unat sizeof_Queue_t + length area)"

lemma max_div:
  fixes n m :: "32 word"
  assumes "n > 0"
  shows "(-1) div n \<ge> m \<longleftrightarrow> unat n * unat m < 2 ^ 32"
proof -
  have n: "0 < unat n" using assms by (simp add: word_less_nat_alt)
  have "(-1) div n \<ge> m \<longleftrightarrow> unat m \<le> (2 ^ 32 - 1) div unat n"
    by (simp add: word_le_nat_alt unat_div unsigned_minus_1_eq_mask mask_eq_exp_minus_1)
  also have "\<dots> \<longleftrightarrow> unat m * unat n \<le> 2 ^ 32 - 1" using n by (rule less_eq_div_iff_mult_less_eq)
  finally show ?thesis by (simp add: mult.commute less_Suc_eq_le[symmetric])
qed

definition create_fits :: "32 word \<Rightarrow> 32 word \<Rightarrow> bool" where
  "create_fits n m \<longleftrightarrow> n \<noteq> 0 \<and> unat n * unat m + unat sizeof_Queue_t < 2 ^ 32"

lemma create_guard:
  "n > 0 \<and> (-1) div n \<ge> m \<and> -1 - sizeof_Queue_t \<ge> n * m \<longleftrightarrow> create_fits n (m :: 32 word)"
proof (cases "n > 0 \<and> unat n * unat m < 2 ^ 32")
  case True
  have u: "unat (n * m) = unat n * unat m" using no_wrap(2)[of n m] max_div[of n m] True by simp
  have s: "unat (-1 - sizeof_Queue_t) = 2 ^ 32 - 1 - unat sizeof_Queue_t" by (simp add: sizeof_Queue_t_def)
  show ?thesis using True max_div[of n m] u s
    by (auto simp: create_fits_def word_le_nat_alt sizeof_Queue_t_def word_gt_0)
next
  case False
  then show ?thesis using max_div[of n m] by (auto simp: create_fits_def word_gt_0)
qed

text \<open>
  C37. Creation.  \<open>xQueueGenericCreate\<close> returns NULL and leaves everything as it was exactly when the length is
  0, the storage with its structure does not fit 32 bits (no product or sum wraps unnoticed) or the allocator
  has no block; otherwise it returns the handle of an empty, unlocked queue of the given length and item size, in no set,
  whose pointers lie in the storage area, and no other queue changes.
\<close>

theorem queue_create_result:
  assumes "malloc_ok malloc"
  shows "\<exists>h s'. xQueueGenericCreate malloc n m s = Some (h, s') \<and>
    h = (if create_fits n m then map_option fst (malloc (sizeof_Queue_t + n * m)) else None) \<and> (h = None \<longrightarrow> s' = s) \<and>
    (\<forall>q. h = Some q \<longrightarrow> buffer (queue s' q) \<and> contents (queue s' q) = [] \<and> uxLength (queue s' q) = n \<and> uxItemSize (queue s' q) = m \<and>
       pxQueueSetContainer (queue s' q) = None \<and> cRxLock (queue s' q) = queueUNLOCKED \<and> cTxLock (queue s' q) = queueUNLOCKED \<and>
       (\<forall>p. p \<noteq> q \<longrightarrow> queue s' p = queue s p))"
proof (cases "create_fits n m")
  case False
  then have "xQueueGenericCreate malloc n m s = Some (None, s)" unfolding xQueueGenericCreate_def create_guard by simp
  then show ?thesis using False by simp
next
  case True
  note g = create_guard[THEN iffD2, OF True]
  have run: "xQueueGenericCreate malloc n m s = (case malloc (sizeof_Queue_t + n * m) of None \<Rightarrow> Some (None, s)
      | Some (q, area) \<Rightarrow> do { s \<leftarrow> prvInitialiseNewQueue n m area q s; Some (Some q, s) })"
    unfolding xQueueGenericCreate_def using True create_guard by simp
  show ?thesis
  proof (cases "malloc (sizeof_Queue_t + n * m)")
    case None
    then show ?thesis using run True by simp
  next
    case (Some x)
    obtain q area where x: "x = (q, area)" by (cases x)
    have u: "unat (n * m) = unat n * unat m" using no_wrap(2)[of n m] g by simp
    then have "unat (sizeof_Queue_t + n * m) = unat sizeof_Queue_t + unat n * unat m"
      using True by (simp add: create_fits_def unat_word_ariths sizeof_Queue_t_def)
    then have "unat n * unat m \<le> length area" using assms Some x by (force simp: malloc_ok_def)
    then obtain Q where Q: "prvInitialiseNewQueue n m area q s = Some (s\<lparr>queue := (queue s)(q := Q),
        knl := vListInitialise (EventList (wlist False q)) (vListInitialise (EventList (wlist True q)) (knl s))\<rparr>)"
      "buffer Q" "contents Q = []" "uxLength Q = n" "uxItemSize Q = m" "pxQueueSetContainer Q = None" "\<And>sd. lock sd Q = queueUNLOCKED"
      using new_buffer[of n m area q s] g by blast
    have "cRxLock Q = queueUNLOCKED" "cTxLock Q = queueUNLOCKED" using Q(7)[of True] Q(7)[of False] by (simp_all add: lock_def)
    then show ?thesis using run Some x Q(1-6) True by simp
  qed
qed

theorem queue_create_result_witness:
  "\<exists>s s'. xQueueGenericCreate (\<lambda>n. Some (5, replicate (unat n) 0)) 2 1 s = Some (Some 5, s') \<and> contents (queue s' 5) = []"
proof -
  have "malloc_ok (\<lambda>n. Some (5, replicate (unat n) 0))" by (simp add: malloc_ok_def)
  then have "\<exists>s'. xQueueGenericCreate (\<lambda>n. Some (5, replicate (unat n) 0)) 2 1 s = Some (Some 5, s') \<and> contents (queue s' 5) = []" for s
    using queue_create_result[of "\<lambda>n. Some (5, replicate (unat n) 0)" 2 1 s] by (auto simp: create_fits_def sizeof_Queue_t_def)
  then show ?thesis by blast
qed

section \<open>Queue sets\<close>

lemma byte_digits:
  assumes "n < (2 :: nat) ^ 32"
  shows "n mod 256 + 256 * ((n div 256) mod 256 + 256 * ((n div 65536) mod 256 + 256 * ((n div 16777216) mod 256))) = n"
proof -
  have split: "m mod 256 + 256 * (m div 256) = m" for m :: nat by simp
  have "n div 16777216 < 256" using assms by (simp add: div_less_iff_less_mult)
  then have "n div 16777216 mod 256 = n div 65536 div 256" using div_mult2_eq[of n 65536 256] by simp
  moreover have "n div 65536 = n div 256 div 256" using div_mult2_eq[of n 256 256] by simp
  ultimately show ?thesis by (simp only: split)
qed

lemma handle_byte: "q < 2 ^ 32 \<Longrightarrow> unat (ucast (drop_bit i (of_nat q :: 32 word)) :: 8 word) = q div 2 ^ i mod 256"
  by (simp only: unsigned_ucast_eq unsigned_drop_bit_eq) (simp add: unsigned_of_nat drop_bit_eq_div take_bit_eq_mod)

lemma handle_roundtrip:
  assumes "q < 2 ^ 32"
  shows "bytes_handle (handle_bytes q) = q" "length (handle_bytes q) = 4"
proof -
  have "[0..<4] = [0, 1, 2, 3::nat]" by (simp add: upt_rec)
  then have "bytes_handle (handle_bytes q) =
      q mod 256 + 256 * ((q div 256) mod 256 + 256 * ((q div 65536) mod 256 + 256 * ((q div 16777216) mod 256)))"
    using handle_byte[OF assms, of 0] handle_byte[OF assms, of 8] handle_byte[OF assms, of 16] handle_byte[OF assms, of 24]
    by (simp add: bytes_handle_def handle_bytes_def)
  then show "bytes_handle (handle_bytes q) = q" using byte_digits[OF assms] by (rule trans)
qed (simp add: handle_bytes_def)

lemma item_size_locked [simp]: "item_size (locked_with sd l Q) = item_size Q"
  by (simp add: locked_with_def item_size_def)

lemma signal_any:
  assumes "kernel_win idle T E (knl s)" "wlist sd q \<in> E"
  shows "\<exists>y s' l. signal sd q l0 s = Some (y, s') \<and> kernel_win idle T E (knl s') \<and> queue s' = (queue s)(q := locked_with sd l (queue s q))"
proof (cases "l0 = queueUNLOCKED")
  case True
  obtain y k' where "wake_first (EventList (wlist sd q)) s = Some (y, s\<lparr>knl := k'\<rparr>)" "kernel_win idle T E k'"
    using wake_first_result[OF assms] by blast
  then show ?thesis using True
    by (intro exI[of _ y] exI[of _ "s\<lparr>knl := k'\<rparr>"] exI[of _ "lock sd (queue s q)"]) (simp add: signal_def)
next
  case False
  let ?s = "(if sd then prvIncrementQueueRxLock else prvIncrementQueueTxLock) q l0 s"
  let ?up = "scast l0 < uxTaskGetNumberOfTasks (knl s)"
  let ?n = "if ?up then l0 + 1 else lock sd (queue s q)"
  have "queue ?s = (queue s)(q := locked_with sd ?n (queue s q))" "knl ?s = knl s"
    by (cases sd; simp add: prvIncrementQueueRxLock_def prvIncrementQueueTxLock_def upd_queue_def locked_with_def lock_def)+
  then show ?thesis using False assms(1) by (intro exI[of _ False] exI[of _ ?s] exI[of _ ?n]) (simp add: signal_def)
qed

text \<open>A set of which \<open>c\<close> is the queue holds the handles \<open>hs\<close>.\<close>

definition set_holds :: "qkernel \<Rightarrow> nat \<Rightarrow> nat list \<Rightarrow> bool" where
  "set_holds s c hs \<longleftrightarrow> buffer (queue s c) \<and> item_size (queue s c) = 4 \<and> contents (queue s c) = map handle_bytes hs \<and> (\<forall>q\<in>set hs. q < 2 ^ 32)"

lemma notify_set:
  assumes win: "kernel_win idle T E (knl s)" "wlist False c \<in> E" and m: "pxQueueSetContainer (queue s q) = Some c" and q: "q < 2 ^ 32"
    and c: "set_holds s c hs" "fill (queue s c) < slots (queue s c)"
  shows "\<exists>y s'. prvNotifyQueueSetContainer q s = Some (y, s') \<and> kernel_win idle T E (knl s') \<and> (\<forall>p. p \<noteq> c \<longrightarrow> queue s' p = queue s p) \<and>
    set_holds s' c (hs @ [q])"
proof -
  have b: "buffer (queue s c)" "item_size (queue s c) = 4" using c(1) by (simp_all add: set_holds_def)
  obtain Q where Q: "prvCopyDataToQueue c (handle_bytes q) queueSEND_TO_BACK s = Some (False, s\<lparr>queue := (queue s)(c := Q)\<rparr>)" "buffer Q"
    "copied (queue s c) Q" "contents Q = put queueSEND_TO_BACK (take (item_size (queue s c)) (handle_bytes q)) (contents (queue s c))"
    using put_result[OF b(1), of queueSEND_TO_BACK "handle_bytes q"] c(2) b(2) handle_roundtrip(2)[OF q] by (auto simp: can_put_def)
  let ?s = "s\<lparr>queue := (queue s)(c := Q)\<rparr>" and ?l = "cTxLock (queue s c)"
  obtain y s' l where s': "signal False c ?l ?s = Some (y, s')" "kernel_win idle T E (knl s')" "queue s' = (queue ?s)(c := locked_with False l Q)"
    using signal_any[of idle T E ?s False c ?l] win by auto
  have "uxMessagesWaiting (queue s c) < uxLength (queue s c)" using full_iff(1)[OF b(1)] c(2) by simp
  then have "prvNotifyQueueSetContainer q s = Some (y, s')"
    using m Q(1) s'(1) by (cases "?l = queueUNLOCKED") (simp_all add: prvNotifyQueueSetContainer_def signal_def wlist_lists Let_def)
  moreover have "item_size (locked_with False l Q) = 4" using copiedD(10)[OF Q(3)] b(2) by simp
  ultimately show ?thesis using s'(2,3) Q(2,4) c(1) b(2) q handle_roundtrip(2)[OF q]
    by (intro exI[of _ y] exI[of _ s']) (simp add: set_holds_def)
qed

lemma select_set:
  assumes win: "kernel_win idle T E (knl s)" "wlist True c \<in> E" and c: "set_holds s c hs" "hs \<noteq> []"
  shows "\<exists>s'. xQueueSelectFromSetFromISR c s = Some (Some (hd hs), s') \<and> (\<forall>p. p \<noteq> c \<longrightarrow> queue s' p = queue s p) \<and> set_holds s' c (tl hs)"
proof -
  have b: "buffer (queue s c)" "item_size (queue s c) = 4" "contents (queue s c) = map handle_bytes hs" "\<forall>q\<in>set hs. q < 2 ^ 32"
    using c(1) by (simp_all add: set_holds_def)
  have "fill (queue s c) = length hs" using length_contents[of "queue s c"] b(3) by simp
  then have some: "0 < fill (queue s c)" using c(2) by simp
  obtain r where r: "prvCopyDataFromQueue c s = Some (hd (contents (queue s c)), upd_queue c (\<lambda>Q. Q\<lparr>pcReadFrom := r\<rparr>) s)"
    "let Q = (queue s c)\<lparr>pcReadFrom := r, uxMessagesWaiting := uxMessagesWaiting (queue s c) - 1\<rparr>
     in buffer Q \<and> contents Q = tl (contents (queue s c))" using get_result[OF b(1) some] by blast
  let ?Q = "(queue s c)\<lparr>pcReadFrom := r, uxMessagesWaiting := uxMessagesWaiting (queue s c) - 1\<rparr>"
  let ?s = "s\<lparr>queue := (queue s)(c := ?Q)\<rparr>" and ?l = "cRxLock (queue s c)"
  obtain y s' l where s': "signal True c ?l ?s = Some (y, s')" "queue s' = (queue ?s)(c := locked_with True l ?Q)"
    using signal_any[of idle T E ?s True c ?l] win by auto
  have "xQueueReceiveFromISR c s = Some (Some (hd (contents (queue s c))), y, s')"
    using some r(1) full_iff(2)[of "queue s c"] s'(1)
    by (cases "?l = queueUNLOCKED") (simp_all add: xQueueReceiveFromISR_def Let_def upd_queue_def signal_def wlist_lists)
  moreover have "bytes_handle (hd (contents (queue s c))) = hd hs" using b(3,4) c(2) handle_roundtrip(1) by (simp add: hd_map)
  ultimately have "xQueueSelectFromSetFromISR c s = Some (Some (hd hs), s')"
    by (simp add: xQueueSelectFromSetFromISR_def xQueueSelectFromSet_result_def)
  moreover have "set_holds s' c (tl hs)"
    using r(2) s'(2) b(2-4) c(2) list.set_sel(2)[of hs] by (simp add: set_holds_def Let_def map_tl)
  ultimately show ?thesis using s'(2) by (intro exI[of _ s']) simp
qed



section \<open>Recursive mutexes\<close>

definition free_mutex :: "Queue_t \<Rightarrow> bool" where
  "free_mutex Q \<longleftrightarrow> pcHead Q = None \<and> uxItemSize Q = 0 \<and> uxLength Q = 1 \<and> uxMessagesWaiting Q = 1 \<and> xMutexHolder Q = None \<and>
     uxRecursiveCallCount Q = 0 \<and> pxQueueSetContainer Q = None"

text \<open>The state in which task \<open>t\<close> has taken the mutex \<open>n\<close> times; a plain take counts as 0.\<close>

definition taken_by :: "nat \<Rightarrow> nat \<Rightarrow> nat \<Rightarrow> qkernel \<Rightarrow> qkernel" where
  "taken_by t q n s = s\<lparr>queue := (queue s)(q := (queue s q)\<lparr>uxMessagesWaiting := 0, xMutexHolder := Some t, uxRecursiveCallCount := of_nat n\<rparr>),
     knl := (knl s)\<lparr>uxMutexesHeld := (uxMutexesHeld (knl s))(t := uxMutexesHeld (knl s) t + 1)\<rparr>\<rparr>"

lemma empty_mutexes [simp]: "listLIST_IS_EMPTY l (k\<lparr>uxMutexesHeld := f\<rparr>) = listLIST_IS_EMPTY l k"
  by (simp add: listLIST_IS_EMPTY_def)

lemma mutex_take:
  assumes "free_mutex (queue s q)" "pxCurrentTCB (knl s) = Some t" "listLIST_IS_EMPTY (xTasksWaitingToSend q) (knl s)"
  shows "take_attempt q s = Some (True, taken_by t q 0 s)"
proof -
  have e: "(queue s q)\<lparr>uxMessagesWaiting := 0, xMutexHolder := Some t, uxRecursiveCallCount := of_nat 0\<rparr> =
      (queue s q)\<lparr>uxMessagesWaiting := 0, xMutexHolder := Some t\<rparr>"
    using assms(1) by (cases "queue s q") (simp add: free_mutex_def)
  show ?thesis unfolding taken_by_def e using assms
    by (cases s) (simp add: take_attempt_def free_mutex_def Let_def upd_queue_def uxQueueType_is_mutex_def
        pvTaskIncrementMutexHeldCount_def wake_sender_def wake_first_def)
qed

lemma mutex_give:
  assumes "free_mutex (queue s q)" "listLIST_IS_EMPTY (xTasksWaitingToReceive q) (knl s)" "uxPriority (knl s) t = uxBasePriority (knl s) t"
  shows "xQueueGenericSend_0 q [] (taken_by t q 0 s) = Some s"
proof -
  have e: "s\<lparr>queue := (queue s)(q := (queue s q)\<lparr>uxMessagesWaiting := 1, xMutexHolder := None, uxRecursiveCallCount := 0\<rparr>)\<rparr> = s"
    using assms(1) by (cases s; cases "queue s q") (auto simp: free_mutex_def fun_upd_idem_iff)
  have "prvCopyDataToQueue q [] queueSEND_TO_BACK (taken_by t q 0 s) = Some (False, s)"
    using assms e by (cases s) (simp add: prvCopyDataToQueue_def taken_by_def Let_def free_mutex_def uxQueueType_is_mutex_def
        xTaskPriorityDisinherit_def fun_upd_idem_iff)
  then show ?thesis using assms(1,2)
    by (simp add: xQueueGenericSend_0_def send_attempt_def post_item_def taken_by_def free_mutex_def Let_def)
qed

text \<open>
  Recursive mutexes nest.  A task that takes a free mutex holds it with count 1; every further
  take by the holder succeeds without blocking and adds one, every give takes one off, and the mutex is
  released, with the whole state as it was before, exactly by the give that matches the first take,
  for every depth below the range of the counter; a task that is not the holder can neither give it nor
  take it.
\<close>

theorem recursive_mutex_nests:
  assumes "free_mutex (queue s q)" "pxCurrentTCB (knl s) = Some t" "uxPriority (knl s) t = uxBasePriority (knl s) t"
    "listLIST_IS_EMPTY (xTasksWaitingToSend q) (knl s)" "listLIST_IS_EMPTY (xTasksWaitingToReceive q) (knl s)"
    "0 < n" "n + 1 < 2 ^ 32"
  shows "xQueueTakeMutexRecursive_enter q s = (False, s) \<and>
    (\<exists>s1. take_attempt q s = Some (True, s1) \<and> xQueueTakeMutexRecursive_leave True q s1 = taken_by t q 1 s) \<and>
    xQueueTakeMutexRecursive_enter q (taken_by t q n s) = (True, taken_by t q (n + 1) s) \<and>
    xQueueGiveMutexRecursive q (taken_by t q (n + 1) s) = Some (True, taken_by t q n s) \<and>
    xQueueGiveMutexRecursive q (taken_by t q 1 s) = Some (True, s) \<and>
    (\<forall>u. u \<noteq> t \<longrightarrow> (let s' = (taken_by t q n s)\<lparr>knl := (knl (taken_by t q n s))\<lparr>pxCurrentTCB := Some u\<rparr>\<rparr>
       in xQueueTakeMutexRecursive_enter q s' = (False, s') \<and> take_attempt q s' = Some (False, s') \<and>
          xQueueGiveMutexRecursive q s' = Some (False, s')))"
proof -
  have n0: "(of_nat n :: 32 word) \<noteq> 0"
  proof
    assume "(of_nat n :: 32 word) = 0"
    then have "unat (of_nat n :: 32 word) = 0" by simp
    then show False using assms(6,7) by (simp add: unsigned_of_nat take_bit_nat_eq_self)
  qed
  have h: "held_by_current q (taken_by t q m s)" for m
    using assms(1,2) by (simp add: held_by_current_def taken_by_def free_mutex_def uxQueueType_is_mutex_def)
  have "\<not> held_by_current q s" using assms(1,2) by (simp add: held_by_current_def free_mutex_def)
  then have start: "xQueueTakeMutexRecursive_enter q s = (False, s)" by (simp add: xQueueTakeMutexRecursive_enter_def)
  have leave: "xQueueTakeMutexRecursive_leave True q (taken_by t q 0 s) = taken_by t q 1 s"
    by (simp add: xQueueTakeMutexRecursive_leave_def upd_queue_def taken_by_def)
  have more: "xQueueTakeMutexRecursive_enter q (taken_by t q n s) = (True, taken_by t q (n + 1) s)"
    unfolding xQueueTakeMutexRecursive_enter_def using h by (simp add: upd_queue_def taken_by_def add.commute)
  have down: "upd_queue q (\<lambda>Q. Q\<lparr>uxRecursiveCallCount := uxRecursiveCallCount Q - 1\<rparr>) (taken_by t q (m + 1) s) = taken_by t q m s" for m
    by (simp add: upd_queue_def taken_by_def)
  have counts: "uxRecursiveCallCount (queue (taken_by t q n s) q) = of_nat n" by (simp add: taken_by_def)
  have give: "xQueueGiveMutexRecursive q (taken_by t q (n + 1) s) = Some (True, taken_by t q n s)"
    unfolding xQueueGiveMutexRecursive_def Let_def down using h n0 counts by simp
  have "uxRecursiveCallCount (queue (taken_by t q 0 s) q) = 0" by (simp add: taken_by_def)
  then have end_give: "xQueueGiveMutexRecursive q (taken_by t q 1 s) = Some (True, s)"
    unfolding xQueueGiveMutexRecursive_def Let_def down[of 0, unfolded add_0] using h mutex_give[OF assms(1,5,3)] by simp
  have other: "xQueueTakeMutexRecursive_enter q s' = (False, s') \<and> take_attempt q s' = Some (False, s') \<and> xQueueGiveMutexRecursive q s' = Some (False, s')"
    if "u \<noteq> t" "s' = (taken_by t q n s)\<lparr>knl := (knl (taken_by t q n s))\<lparr>pxCurrentTCB := Some u\<rparr>\<rparr>" for u s'
  proof -
    have "\<not> held_by_current q s'" "uxMessagesWaiting (queue s' q) = 0" using that by (simp_all add: held_by_current_def taken_by_def)
    then show ?thesis by (simp add: xQueueTakeMutexRecursive_enter_def xQueueGiveMutexRecursive_def take_attempt_def Let_def)
  qed
  show ?thesis using start leave more give end_give other mutex_take[OF assms(1,2,4)] by (simp add: Let_def)
qed

theorem recursive_mutex_nests_witness:
  "\<exists>s. xQueueTakeMutexRecursive_enter 5 (taken_by 1 5 3 s) = (True, taken_by 1 5 4 s) \<and>
    xQueueGiveMutexRecursive 5 (taken_by 1 5 1 s) = Some (True, s)"
proof -
  let ?k = "(vListInitialise (EventList 11) (vListInitialise (EventList 10) reset_kernel))\<lparr>pxCurrentTCB := Some 1\<rparr>"
  let ?Q = "\<lparr>pcHead = None, pcWriteTo = 0, pcTail = 0, pcReadFrom = 0, xMutexHolder = None, uxRecursiveCallCount = 0, uxMessagesWaiting = 1,
    uxLength = 1, uxItemSize = 0, cRxLock = queueUNLOCKED, cTxLock = queueUNLOCKED, pxQueueSetContainer = None, storage = []\<rparr>"
  let ?s = "\<lparr>queue = \<lambda>_. ?Q, knl = ?k\<rparr>"
  have "free_mutex (queue ?s 5)" "pxCurrentTCB (knl ?s) = Some 1" "uxPriority (knl ?s) 1 = uxBasePriority (knl ?s) 1"
    "listLIST_IS_EMPTY (xTasksWaitingToSend 5) (knl ?s)" "listLIST_IS_EMPTY (xTasksWaitingToReceive 5) (knl ?s)"
    by (simp_all add: free_mutex_def reset_kernel_def vListInitialise_def listLIST_IS_EMPTY_def xTasksWaitingToSend_def xTasksWaitingToReceive_def)
  from recursive_mutex_nests[OF this, of 3] show ?thesis by auto
qed

end
