(* ===== verification/FREvent.thy ===== *)
theory FREvent
  imports FRSystem
begin

text \<open>
  Event groups (\<open>FreeRTOS/Source/event_groups.c\<close>): tasks wait for bits, alone or together, and a
  task that sets bits wakes every waiter they satisfy.  The handle of a group is the number of its event list.
  The task is not interrupted by others while the scheduler is suspended, and interrupts only read the bits: a
  function is one step up to the resumption of the scheduler, at which other tasks may run, and another one after
  it: the end of a wait, the reading of the value to return, the freeing of a deleted group.
\<close>

section \<open>The group\<close>

type_synonym EventBits_t = "32 word"

record ekernel =
  uxEventBits :: "nat \<Rightarrow> EventBits_t"
  ekn :: kernel

definition xTasksWaitingForBits :: "nat \<Rightarrow> klist" where
  "xTasksWaitingForBits g = EventList g"

definition eventCLEAR_EVENTS_ON_EXIT_BIT :: EventBits_t where
  "eventCLEAR_EVENTS_ON_EXIT_BIT = 0x01000000"

definition eventUNBLOCKED_DUE_TO_BIT_SET :: EventBits_t where
  "eventUNBLOCKED_DUE_TO_BIT_SET = 0x02000000"

definition eventWAIT_FOR_ALL_BITS :: EventBits_t where
  "eventWAIT_FOR_ALL_BITS = 0x04000000"

definition eventEVENT_BITS_CONTROL_BYTES :: EventBits_t where
  "eventEVENT_BITS_CONTROL_BYTES = 0xff000000"

definition upd_bits :: "nat \<Rightarrow> (EventBits_t \<Rightarrow> EventBits_t) \<Rightarrow> ekernel \<Rightarrow> ekernel" where
  "upd_bits g f s = s\<lparr>uxEventBits := (uxEventBits s)(g := f (uxEventBits s g))\<rparr>"

definition xEventGroupCreate :: "nat option \<Rightarrow> ekernel \<Rightarrow> nat option \<times> ekernel" where
  "xEventGroupCreate m s =
     (case m of
        None \<Rightarrow> (None, s)
      | Some g \<Rightarrow> (Some g, (upd_bits g (\<lambda>_. 0) s)\<lparr>ekn := vListInitialise (xTasksWaitingForBits g) (ekn s)\<rparr>))"

definition prvTestWaitCondition :: "EventBits_t \<Rightarrow> EventBits_t \<Rightarrow> bool \<Rightarrow> bool" where
  "prvTestWaitCondition uxCurrentEventBits uxBitsToWaitFor xWaitForAllBits =
     (if \<not> xWaitForAllBits then uxCurrentEventBits AND uxBitsToWaitFor \<noteq> 0
      else uxCurrentEventBits AND uxBitsToWaitFor = uxBitsToWaitFor)"

section \<open>Setting and clearing\<close>

text \<open>Whether the bits satisfy a waiter with event list item value \<open>v\<close>.\<close>

definition match_found :: "EventBits_t \<Rightarrow> 32 word \<Rightarrow> bool" where
  "match_found bits v =
     (let uxControlBits = v AND eventEVENT_BITS_CONTROL_BYTES;
          uxBitsWaitedFor = v AND NOT eventEVENT_BITS_CONTROL_BYTES
      in if uxControlBits AND eventWAIT_FOR_ALL_BITS = 0 then uxBitsWaitedFor AND bits \<noteq> 0
         else uxBitsWaitedFor AND bits = uxBitsWaitedFor)"

definition bits_to_clear :: "32 word \<Rightarrow> EventBits_t" where
  "bits_to_clear v =
     (if v AND eventEVENT_BITS_CONTROL_BYTES AND eventCLEAR_EVENTS_ON_EXIT_BIT \<noteq> 0
      then v AND NOT eventEVENT_BITS_CONTROL_BYTES else 0)"

text \<open>The walk over the waiters; the next entry is read before the current one is removed.\<close>

partial_function (option) set_bits_loop ::
    "nat \<Rightarrow> EventBits_t \<Rightarrow> (klist, kitem) ListPtr \<Rightarrow> EventBits_t \<Rightarrow> kernel \<Rightarrow> (EventBits_t \<times> kernel) option" where
  "set_bits_loop g bits pxListItem uxBitsToClear k =
     (if pxListItem = ListEnd (xTasksWaitingForBits g) then Some (uxBitsToClear, k)
      else case pxListItem of
        ListEnd l \<Rightarrow> None
      | ListItem i \<Rightarrow>
          let pxNext' = pxNext k pxListItem;
              v = listGET_LIST_ITEM_VALUE i k
          in if match_found bits v
             then do { k \<leftarrow> vTaskRemoveFromUnorderedEventList i (bits OR eventUNBLOCKED_DUE_TO_BIT_SET) k;
                       set_bits_loop g bits pxNext' (uxBitsToClear OR bits_to_clear v) k }
             else set_bits_loop g bits pxNext' uxBitsToClear k)"

text \<open>
  Up to the resumption of the scheduler, which may switch to a woken task; the value returned is read from the
  group after it.
\<close>

definition xEventGroupSetBits :: "nat \<Rightarrow> EventBits_t \<Rightarrow> ekernel \<Rightarrow> ekernel option" where
  "xEventGroupSetBits g uxBitsToSet s =
     do { let k = vTaskSuspendAll (ekn s);
          let bits = uxEventBits s g OR uxBitsToSet;
          (clear, k) \<leftarrow> set_bits_loop g bits (listGET_HEAD_ENTRY (xTasksWaitingForBits g) k) 0 k;
          let bits = bits AND NOT clear;
          (_, k) \<leftarrow> xTaskResumeAll k;
          Some (s\<lparr>uxEventBits := (uxEventBits s)(g := bits), ekn := k\<rparr>) }"

definition xEventGroupSetBits_return :: "nat \<Rightarrow> ekernel \<Rightarrow> EventBits_t" where
  "xEventGroupSetBits_return g s = uxEventBits s g"

definition xEventGroupClearBits :: "nat \<Rightarrow> EventBits_t \<Rightarrow> ekernel \<Rightarrow> EventBits_t \<times> ekernel" where
  "xEventGroupClearBits g uxBitsToClear s = (uxEventBits s g, upd_bits g (\<lambda>b. b AND NOT uxBitsToClear) s)"

definition xEventGroupGetBitsFromISR :: "nat \<Rightarrow> ekernel \<Rightarrow> EventBits_t" where
  "xEventGroupGetBitsFromISR g s = uxEventBits s g"

definition vEventGroupSetBitsCallback :: "nat \<Rightarrow> 32 word \<Rightarrow> ekernel \<Rightarrow> ekernel option" where
  "vEventGroupSetBitsCallback g ulBitsToSet s = xEventGroupSetBits g ulBitsToSet s"

definition vEventGroupClearBitsCallback :: "nat \<Rightarrow> 32 word \<Rightarrow> ekernel \<Rightarrow> ekernel" where
  "vEventGroupClearBitsCallback g ulBitsToClear s = snd (xEventGroupClearBits g ulBitsToClear s)"

section \<open>Waiting\<close>

text \<open>The result of the first part: the value to return, or None when the task has blocked.\<close>

definition resume_and_yield :: "bool \<Rightarrow> kernel \<Rightarrow> kernel option" where
  "resume_and_yield blocked k =
     do { (xAlreadyYielded, k) \<leftarrow> xTaskResumeAll k;
          Some (if blocked \<and> \<not> xAlreadyYielded then portYIELD k else k) }"

definition xEventGroupWaitBits_enter ::
    "nat \<Rightarrow> EventBits_t \<Rightarrow> bool \<Rightarrow> bool \<Rightarrow> 32 word \<Rightarrow> ekernel \<Rightarrow> (EventBits_t option \<times> ekernel) option" where
  "xEventGroupWaitBits_enter g uxBitsToWaitFor xClearOnExit xWaitForAllBits xTicksToWait s =
     (let k = vTaskSuspendAll (ekn s);
          uxCurrentEventBits = uxEventBits s g
      in if prvTestWaitCondition uxCurrentEventBits uxBitsToWaitFor xWaitForAllBits
         then do { let s = (if xClearOnExit then upd_bits g (\<lambda>b. b AND NOT uxBitsToWaitFor) s else s);
                   k \<leftarrow> resume_and_yield False k;
                   Some (Some uxCurrentEventBits, s\<lparr>ekn := k\<rparr>) }
         else if xTicksToWait = 0
         then do { k \<leftarrow> resume_and_yield False k; Some (Some uxCurrentEventBits, s\<lparr>ekn := k\<rparr>) }
         else do {
           let uxControlBits = (if xClearOnExit then eventCLEAR_EVENTS_ON_EXIT_BIT else 0) OR (if xWaitForAllBits then eventWAIT_FOR_ALL_BITS else 0);
           k \<leftarrow> vTaskPlaceOnUnorderedEventList (xTasksWaitingForBits g) (uxBitsToWaitFor OR uxControlBits) xTicksToWait k;
           k \<leftarrow> resume_and_yield True k;
           Some (None, s\<lparr>ekn := k\<rparr>) })"

definition xEventGroupWaitBits_leave :: "nat \<Rightarrow> EventBits_t \<Rightarrow> bool \<Rightarrow> bool \<Rightarrow> ekernel \<Rightarrow> (EventBits_t \<times> ekernel) option" where
  "xEventGroupWaitBits_leave g uxBitsToWaitFor xClearOnExit xWaitForAllBits s =
     do { (uxReturn, k) \<leftarrow> uxTaskResetEventItemValue (ekn s);
          let s = s\<lparr>ekn := k\<rparr>;
          let (uxReturn, s) =
            (if uxReturn AND eventUNBLOCKED_DUE_TO_BIT_SET = 0
             then (uxEventBits s g,
                   if prvTestWaitCondition (uxEventBits s g) uxBitsToWaitFor xWaitForAllBits \<and> xClearOnExit
                   then upd_bits g (\<lambda>b. b AND NOT uxBitsToWaitFor) s else s)
             else (uxReturn, s));
          Some (uxReturn AND NOT eventEVENT_BITS_CONTROL_BYTES, s) }"

definition xEventGroupSync_enter ::
    "nat \<Rightarrow> EventBits_t \<Rightarrow> EventBits_t \<Rightarrow> 32 word \<Rightarrow> ekernel \<Rightarrow> (EventBits_t option \<times> ekernel) option" where
  "xEventGroupSync_enter g uxBitsToSet uxBitsToWaitFor xTicksToWait s =
     do { let s = s\<lparr>ekn := vTaskSuspendAll (ekn s)\<rparr>;
          let uxOriginalBitValue = uxEventBits s g;
          s \<leftarrow> xEventGroupSetBits g uxBitsToSet s;
          if (uxOriginalBitValue OR uxBitsToSet) AND uxBitsToWaitFor = uxBitsToWaitFor
          then do { let s = upd_bits g (\<lambda>b. b AND NOT uxBitsToWaitFor) s;
                    k \<leftarrow> resume_and_yield False (ekn s);
                    Some (Some (uxOriginalBitValue OR uxBitsToSet), s\<lparr>ekn := k\<rparr>) }
          else if xTicksToWait \<noteq> 0
          then do { k \<leftarrow> vTaskPlaceOnUnorderedEventList (xTasksWaitingForBits g)
                      (uxBitsToWaitFor OR eventCLEAR_EVENTS_ON_EXIT_BIT OR eventWAIT_FOR_ALL_BITS) xTicksToWait (ekn s);
                    k \<leftarrow> resume_and_yield True k;
                    Some (None, s\<lparr>ekn := k\<rparr>) }
          else do { k \<leftarrow> resume_and_yield False (ekn s); Some (Some (uxEventBits s g), s\<lparr>ekn := k\<rparr>) } }"

definition xEventGroupSync_leave :: "nat \<Rightarrow> EventBits_t \<Rightarrow> ekernel \<Rightarrow> (EventBits_t \<times> ekernel) option" where
  "xEventGroupSync_leave g uxBitsToWaitFor s =
     do { (uxReturn, k) \<leftarrow> uxTaskResetEventItemValue (ekn s);
          let s = s\<lparr>ekn := k\<rparr>;
          let (uxReturn, s) =
            (if uxReturn AND eventUNBLOCKED_DUE_TO_BIT_SET = 0
             then (uxEventBits s g,
                   if uxEventBits s g AND uxBitsToWaitFor = uxBitsToWaitFor
                   then upd_bits g (\<lambda>b. b AND NOT uxBitsToWaitFor) s else s)
             else (uxReturn, s));
          Some (uxReturn AND NOT eventEVENT_BITS_CONTROL_BYTES, s) }"

section \<open>Deletion\<close>

partial_function (option) delete_loop :: "nat \<Rightarrow> kernel \<Rightarrow> kernel option" where
  "delete_loop g k =
     (if listCURRENT_LIST_LENGTH (xTasksWaitingForBits g) k > 0
      then (case pxNext k (ListEnd (xTasksWaitingForBits g)) of
              ListEnd l \<Rightarrow> None
            | ListItem i \<Rightarrow> do { k \<leftarrow> vTaskRemoveFromUnorderedEventList i eventUNBLOCKED_DUE_TO_BIT_SET k; delete_loop g k })
      else Some k)"

text \<open>Up to the resumption of the scheduler; the memory of the group is freed after it.\<close>

definition vEventGroupDelete :: "nat \<Rightarrow> ekernel \<Rightarrow> ekernel option" where
  "vEventGroupDelete g s =
     do { k \<leftarrow> delete_loop g (vTaskSuspendAll (ekn s));
          (_, k) \<leftarrow> xTaskResumeAll k;
          Some (s\<lparr>ekn := k\<rparr>) }"

end
