(* ===== verification/FREventRun.thy ===== *)
theory FREventRun
  imports FREvent FRCalm
begin

text \<open>
  What the operations of event groups do: the walk over the waiters wakes exactly those the bits satisfy, and every
  operation refines an abstract group, a word of bits and the requests of the tasks that wait.
\<close>

section \<open>Waking a waiter\<close>

lemma event_value_core:
  assumes "core_inv idle T E k"
  shows "core_inv idle T E (listSET_LIST_ITEM_VALUE (xEventListItem t) v k)"
proof -
  have inv: "lists_inv T E k" and d: "delay_inv k" using assms by (simp_all add: core_inv_def)
  have same: "reprio t (uxPriority k t) (uxBasePriority k t) v k = listSET_LIST_ITEM_VALUE (xEventListItem t) v k"
    by (simp add: reprio_def)
  have "delay_inv (listSET_LIST_ITEM_VALUE (xEventListItem t) v k)" using delay_inv_reprio[OF inv d] unfolding same[symmetric] .
  moreover have "lists_inv T E (listSET_LIST_ITEM_VALUE (xEventListItem t) v k)" using inv by simp
  moreover have "bitmap_inv (listSET_LIST_ITEM_VALUE (xEventListItem t) v k)" using assms(1)
    by (auto simp: core_inv_def bitmap_inv_def is_ready_def listSET_LIST_ITEM_VALUE_def)
  moreover have "state_list (listSET_LIST_ITEM_VALUE (xEventListItem t) v k) = state_list k"
    "is_ready (listSET_LIST_ITEM_VALUE (xEventListItem t) v k) idle = is_ready k idle"
    "pxCurrentTCB (listSET_LIST_ITEM_VALUE (xEventListItem t) v k) = pxCurrentTCB k"
    "xSchedulerRunning (listSET_LIST_ITEM_VALUE (xEventListItem t) v k) = xSchedulerRunning k"
    "uxCurrentNumberOfTasks (listSET_LIST_ITEM_VALUE (xEventListItem t) v k) = uxCurrentNumberOfTasks k"
    by (simp_all add: is_ready_def listSET_LIST_ITEM_VALUE_def)
  ultimately show ?thesis using assms(1) by (simp add: core_inv_def fun_eq_iff)
qed

text \<open>Removal and readying keep the views of the event lists.\<close>

lemma remove_views:
  assumes "wf_lists I L k" "listREMOVE_ITEM i k = Some k'" "pxContainer k i = Some l"
  shows "l' \<noteq> l \<Longrightarrow> list_view k l' xs \<Longrightarrow> list_view k' l' xs"
  using remove_item[OF assms(1,3)] assms(2) by (auto simp: only_list_def)

lemma remove_view:
  assumes "list_view k l (xs @ i # ys)" "listREMOVE_ITEM i k = Some k'"
  shows "list_view k' l (xs @ ys)"
  using uxListRemove_between[OF assms(1)] remove_between_view[OF assms(1)] assms(2) by (simp add: listREMOVE_ITEM_eq)

lemma ready_views:
  assumes inv: "lists_inv T E k" and t: "t \<in> T" "state_list k t = None" and run: "prvAddTaskToReadyList t k = Some k'"
    and v: "list_view k (EventList e) xs"
  shows "list_view k' (EventList e) xs"
proof -
  define k1 where "k1 = taskRECORD_READY_PRIORITY (uxPriority k t) k"
  have inv1: "lists_inv T E k1" using inv lists_inv_same[of k1 k] by (simp add: k1_def taskRECORD_READY_PRIORITY_def)
  have k': "k' = vListInsertEnd (Ready (uxPriority k t)) (xStateListItem t) k1"
    using run lists_invD(5)[OF inv t(1)]
    by (auto simp: prvAddTaskToReadyList_def pxReadyTasksLists_def listINSERT_END_eq k1_def split: if_splits)
  have "only_list (Ready (uxPriority k t)) k1 k'"
    unfolding k' by (rule put_end(4)[OF lists_invD(1)[OF inv1]])
      (use t lists_invD(5)[OF inv t(1)] in \<open>simp_all add: k1_def taskRECORD_READY_PRIORITY_def\<close>)
  moreover have "list_view k1 (EventList e) xs" using v by (simp add: k1_def taskRECORD_READY_PRIORITY_def)
  ultimately show ?thesis by (simp add: only_list_def)
qed

text \<open>What waking the tasks \<open>W\<close> with the value \<open>v\<close> does to the kernel.\<close>

definition woke :: "nat set \<Rightarrow> 32 word \<Rightarrow> kernel \<Rightarrow> kernel \<Rightarrow> bool" where
  "woke W v k k' \<longleftrightarrow> pxContainer k' = readied W k \<and>
     (\<forall>p. xItemValue k' p = (if p \<in> ListItem ` xEventListItem ` W then v else xItemValue k p)) \<and>
     pxCurrentTCB k' = pxCurrentTCB k \<and> uxPriority k' = uxPriority k \<and> uxBasePriority k' = uxBasePriority k \<and>
     uxSchedulerSuspended k' = uxSchedulerSuspended k \<and> xPendedTicks k' = xPendedTicks k \<and> xTickCount k' = xTickCount k"

lemma woke_refl: "woke {} v k k"
  by (simp add: woke_def readied_empty)

lemma woke_trans:
  assumes "woke {t} v k k1" "woke W v k1 k2"
  shows "woke (insert t W) v k k2"
proof -
  have "readied W k1 = readied (insert t W) k" using assms(1) by (intro ext) (auto simp: woke_def readied_def split: kitem.split)
  then show ?thesis using assms by (auto simp: woke_def)
qed

lemma remove_unordered_result:
  assumes core: "core_inv idle T E k" and prio: "prio_inv k" and cur: "pxCurrentTCB k = Some c"
    and v: "list_view k (EventList g) (xs @ xEventListItem t # ys)"
  shows "\<exists>k'. vTaskRemoveFromUnorderedEventList (xEventListItem t) w k = Some k' \<and> core_inv idle T E k' \<and> prio_inv k' \<and> t \<in> T \<and>
    woke {t} (w OR taskEVENT_LIST_ITEM_VALUE_IN_USE) k k' \<and> list_view k' (EventList g) (xs @ ys)"
proof -
  have ev: "event_list k t = Some (EventList g)" using list_view_container[OF v, of "xEventListItem t"] by simp
  have inv: "lists_inv T E k" using core by (simp add: core_inv_def)
  have tT: "t \<in> T" using lists_inv_owner(2)[OF inv ev] by simp
  define k0 where "k0 = listSET_LIST_ITEM_VALUE (xEventListItem t) (w OR taskEVENT_LIST_ITEM_VALUE_IN_USE) k"
  have core0: "core_inv idle T E k0" unfolding k0_def by (rule event_value_core[OF core])
  have f0: "pxContainer k0 = pxContainer k" "pvOwner k0 = pvOwner k" "uxPriority k0 = uxPriority k" "list_view k0 (EventList g) (xs @ xEventListItem t # ys)"
    "xItemValue k0 = (xItemValue k)(ListItem (xEventListItem t) := w OR taskEVENT_LIST_ITEM_VALUE_IN_USE)" "pxCurrentTCB k0 = pxCurrentTCB k"
    using v by (simp_all add: k0_def) (simp_all add: k0_def listSET_LIST_ITEM_VALUE_def)
  have g0: "uxBasePriority k0 = uxBasePriority k" "pendsv k0 = pendsv k" "uxSchedulerSuspended k0 = uxSchedulerSuspended k"
    "xPendedTicks k0 = xPendedTicks k" "xTickCount k0 = xTickCount k" "xYieldPending k0 = xYieldPending k"
    by (simp_all add: k0_def listSET_LIST_ITEM_VALUE_def)
  obtain k1 where k1: "listREMOVE_ITEM (xEventListItem t) k0 = Some k1" "core_inv idle T E k1" "kstep k0 k1"
    "pxContainer k1 = (pxContainer k0)(xEventListItem t := None)"
    using unlink_event[OF core0] ev f0(1) by auto
  have nr: "\<not> is_ready k t" using lists_invD(7)[OF inv] ev by simp
  obtain l where l: "state_list k t = Some l" using core_invD(4)[OF core tT] by blast
  have nl: "l \<noteq> Ready p" for p using lists_invD(2)[OF inv l] nr l by (auto simp: is_ready_def)
  have le: "l \<noteq> EventList g" using lists_invD(2)[OF inv l] by auto
  have l1: "state_list k1 t = Some l" "event_list k1 t = None" using l k1(4) f0(1) by simp_all
  obtain k2 k3 where k2: "listREMOVE_ITEM (xStateListItem t) k1 = Some k2" "prvAddTaskToReadyList t k2 = Some k3"
    "core_inv idle T E k3" "kstep k1 k3" "pxContainer k3 = readied {t} k1"
    using wake_task[OF k1(2) l1(1) nl l1(2)] by blast
  note st = kstep_trans[OF k1(3) k2(4)]
  note f = kstep_fields[OF st]
  note wf1 = lists_invD(1)[OF core_invD(1)[OF k1(2)]]
  obtain k2' where r2: "listREMOVE_ITEM (xStateListItem t) k1 = Some k2'" "lists_inv T E k2'" "pxContainer k2' = (pxContainer k1)(xStateListItem t := None)"
    using remove_unready[OF core_invD(1,2)[OF k1(2)] l1(1) nl] by blast
  have k2eq: "k2' = k2" using r2(1) k2(1) by simp
  have n2: "state_list k2 t = None" using r2(3) k2eq by simp
  have "l \<noteq> EventList g" using lists_invD(2)[OF inv l] by auto
  then have "list_view k2 (EventList g) (xs @ ys)" using remove_views[OF wf1 k2(1) l1(1) _ remove_view[OF f0(4) k1(1)]] by simp
  then have view: "list_view k3 (EventList g) (xs @ ys)" by (rule ready_views[OF r2(2)[unfolded k2eq] tT n2 k2(2)])
  define y where "y = (uxPriority k t > uxPriority k c)"
  define k' where "k' = (if y then k3\<lparr>xYieldPending := True\<rparr> else k3)"
  have own: "listGET_LIST_ITEM_OWNER (xEventListItem t) k0 = t"
    using lists_invD(4)[OF inv tT] f0(2) by (simp add: listGET_LIST_ITEM_OWNER_def)
  have run: "vTaskRemoveFromUnorderedEventList (xEventListItem t) w k = Some k'"
    using own k1(1) k2(1,2) f(3,8) f0(3,6) cur
    by (simp add: vTaskRemoveFromUnorderedEventList_def k0_def[symmetric] y_def k'_def)
  have cont: "pxContainer k3 = readied {t} k"
    unfolding k2(5) by (intro ext) (simp add: readied_def k1(4) f0(1,3) kstep_fields(3)[OF k1(3)] split: kitem.split)
  have rdy: "is_ready k3 u \<longleftrightarrow> is_ready k u \<or> u = t" for u using cont f(3) f0(3) by (simp add: is_ready_def)
  have "prio_inv k'" using prio cur unfolding prio_inv_def
    by (auto simp: k'_def y_def is_ready_def f f0 g0 rdy[unfolded is_ready_def f(3) f0(3)] split: if_splits)
  moreover have "core_inv idle T E k'" using k2(3) by (simp add: k'_def)
  moreover have "list_view k' l zs \<longleftrightarrow> list_view k3 l zs" for l zs by (simp add: k'_def list_view_def)
  moreover have "woke {t} (w OR taskEVENT_LIST_ITEM_VALUE_IN_USE) k k'"
    using cont f f0 g0 cur by (auto simp: woke_def k'_def)
  ultimately show ?thesis using run tT view by (intro exI[of _ k']) simp
qed

text \<open>The walk: \<open>us\<close> are the waiters left behind, \<open>ts\<close> the ones still to be visited.\<close>

definition wakes :: "EventBits_t \<Rightarrow> kernel \<Rightarrow> nat \<Rightarrow> bool" where
  "wakes bits k t \<longleftrightarrow> match_found bits (item_value k (xEventListItem t))"

definition cleared :: "EventBits_t \<Rightarrow> kernel \<Rightarrow> nat list \<Rightarrow> EventBits_t \<Rightarrow> EventBits_t" where
  "cleared bits k ts m = fold (\<lambda>t m. m OR bits_to_clear (item_value k (xEventListItem t))) (filter (wakes bits k) ts) m"

lemma woke_ready: "woke W v k k' \<Longrightarrow> is_ready k' t \<longleftrightarrow> t \<in> W \<or> is_ready k t"
  by (simp add: woke_def is_ready_def)

lemma item_value_woke:
  "woke W v k k' \<Longrightarrow> item_value k' (xEventListItem t) = (if t \<in> W then v else item_value k (xEventListItem t))"
  by (auto simp: woke_def)

lemma set_bits_loop_result:
  assumes "core_inv idle T E k" "prio_inv k" "pxCurrentTCB k = Some c"
    and "list_view k (EventList g) (map xEventListItem (us @ ts))"
  shows "\<exists>k'. set_bits_loop g bits (after (EventList g) (map xEventListItem ts)) m k = Some (cleared bits k ts m, k') \<and>
    core_inv idle T E k' \<and> prio_inv k' \<and>
    woke (set (filter (wakes bits k) ts)) (bits OR eventUNBLOCKED_DUE_TO_BIT_SET OR taskEVENT_LIST_ITEM_VALUE_IN_USE) k k' \<and>
    list_view k' (EventList g) (map xEventListItem (us @ filter (\<lambda>t. \<not> wakes bits k t) ts))"
  using assms
proof (induction ts arbitrary: us m k)
  case Nil
  then show ?case
    by (subst set_bits_loop.simps) (simp add: xTasksWaitingForBits_def cleared_def woke_refl)
next
  case (Cons t ts)
  let ?v = "item_value k (xEventListItem t)"
  have v: "list_view k (EventList g) (map xEventListItem us @ xEventListItem t # map xEventListItem ts)" using Cons.prems(4) by simp
  have nx: "pxNext k (ListItem (xEventListItem t)) = after (EventList g) (map xEventListItem ts)" by (rule list_view_next(1)[OF v])
  have nt: "t \<notin> set ts" using v by (auto simp: list_view_def)
  show ?case
  proof (cases "wakes bits k t")
    case True
    obtain k1 where k1: "vTaskRemoveFromUnorderedEventList (xEventListItem t) (bits OR eventUNBLOCKED_DUE_TO_BIT_SET) k = Some k1"
      "core_inv idle T E k1" "prio_inv k1" "woke {t} ((bits OR eventUNBLOCKED_DUE_TO_BIT_SET) OR taskEVENT_LIST_ITEM_VALUE_IN_USE) k k1"
      "list_view k1 (EventList g) (map xEventListItem us @ map xEventListItem ts)"
      using remove_unordered_result[OF Cons.prems(1-3) v, of "bits OR eventUNBLOCKED_DUE_TO_BIT_SET"] by (elim exE conjE) (rule that)
    have same: "item_value k1 (xEventListItem u) = item_value k (xEventListItem u)" if "u \<in> set ts" for u
      using item_value_woke[OF k1(4), of u] that nt by auto
    have w: "filter (wakes bits k1) ts = filter (wakes bits k) ts" "filter (\<lambda>t. \<not> wakes bits k1 t) ts = filter (\<lambda>t. \<not> wakes bits k t) ts"
      by (rule filter_cong; simp add: wakes_def same)+
    have c: "cleared bits k1 ts (m OR bits_to_clear ?v) = cleared bits k (t # ts) m"
      using True by (simp add: cleared_def w(1)) (rule fold_cong; simp add: same)
    have cur: "pxCurrentTCB k1 = Some c" using k1(4) Cons.prems(3) by (simp add: woke_def)
    have v1: "list_view k1 (EventList g) (map xEventListItem (us @ ts))" using k1(5) by simp
    have run: "set_bits_loop g bits (ListItem (xEventListItem t)) m k =
        set_bits_loop g bits (after (EventList g) (map xEventListItem ts)) (m OR bits_to_clear ?v) k1"
      using True k1(1) nx by (subst set_bits_loop.simps) (simp add: xTasksWaitingForBits_def wakes_def listGET_LIST_ITEM_VALUE_def)
    obtain k2 where k2: "set_bits_loop g bits (after (EventList g) (map xEventListItem ts)) (m OR bits_to_clear ?v) k1 =
        Some (cleared bits k1 ts (m OR bits_to_clear ?v), k2)" "core_inv idle T E k2" "prio_inv k2"
      "woke (set (filter (wakes bits k1) ts)) (bits OR eventUNBLOCKED_DUE_TO_BIT_SET OR taskEVENT_LIST_ITEM_VALUE_IN_USE) k1 k2"
      "list_view k2 (EventList g) (map xEventListItem (us @ filter (\<lambda>t. \<not> wakes bits k1 t) ts))"
      using Cons.IH[OF k1(2,3) cur v1, of "m OR bits_to_clear ?v"] by (elim exE conjE) (rule that)
    show ?thesis using woke_trans[OF k1(4)] k2 run True unfolding w c
      by (intro exI[of _ k2]) (simp add: or.assoc)
  next
    case False
    have run: "set_bits_loop g bits (ListItem (xEventListItem t)) m k = set_bits_loop g bits (after (EventList g) (map xEventListItem ts)) m k"
      using False nx by (subst set_bits_loop.simps) (simp add: xTasksWaitingForBits_def wakes_def listGET_LIST_ITEM_VALUE_def)
    have c: "cleared bits k ts m = cleared bits k (t # ts) m" using False by (simp add: cleared_def)
    show ?thesis using Cons.IH[OF Cons.prems(1-3), of "us @ [t]" m] Cons.prems(4) False run by (simp add: c)
  qed
qed

section \<open>The abstract group\<close>

record wait_request =
  wanted :: EventBits_t
  clear_on_exit :: bool
  want_all :: bool

record event_group =
  group_bits :: EventBits_t
  waiting :: "nat \<Rightarrow> wait_request option"

definition request_of :: "32 word \<Rightarrow> wait_request" where
  "request_of v = \<lparr>wanted = v AND NOT eventEVENT_BITS_CONTROL_BYTES, clear_on_exit = bit v 24, want_all = bit v 26\<rparr>"

definition group_of :: "nat \<Rightarrow> ekernel \<Rightarrow> event_group" where
  "group_of g s =
     \<lparr>group_bits = uxEventBits s g,
      waiting = (\<lambda>t. if event_list (ekn s) t = Some (EventList g)
                     then Some (request_of (item_value (ekn s) (xEventListItem t))) else None)\<rparr>"

definition satisfied :: "EventBits_t \<Rightarrow> wait_request \<Rightarrow> bool" where
  "satisfied b r \<longleftrightarrow> (if want_all r then \<forall>n. bit (wanted r) n \<longrightarrow> bit b n else \<exists>n. bit (wanted r) n \<and> bit b n)"

definition satisfied_by :: "EventBits_t \<Rightarrow> event_group \<Rightarrow> nat set" where
  "satisfied_by b G = {t. \<exists>r. waiting G t = Some r \<and> satisfied b r}"

text \<open>Setting bits: the satisfied tasks stop waiting, and the bits they asked to clear go.\<close>

definition group_set :: "EventBits_t \<Rightarrow> event_group \<Rightarrow> event_group \<Rightarrow> bool" where
  "group_set b G G' \<longleftrightarrow>
     waiting G' = waiting G |` (- satisfied_by (group_bits G OR b) G) \<and>
     (\<forall>n. bit (group_bits G') n \<longleftrightarrow> (bit (group_bits G) n \<or> bit b n) \<and>
        (\<forall>t r. waiting G t = Some r \<longrightarrow> satisfied (group_bits G OR b) r \<longrightarrow> clear_on_exit r \<longrightarrow> \<not> bit (wanted r) n))"

lemma satisfied_word: "satisfied b r \<longleftrightarrow> (if want_all r then wanted r AND b = wanted r else wanted r AND b \<noteq> 0)"
proof -
  have "wanted r AND b = wanted r \<longleftrightarrow> (\<forall>n. bit (wanted r) n \<longrightarrow> bit b n)"
  proof
    assume e: "wanted r AND b = wanted r"
    show "\<forall>n. bit (wanted r) n \<longrightarrow> bit b n" by (subst e[symmetric]) (simp add: bit_and_iff)
  qed (auto intro!: bit_word_eqI simp: bit_and_iff)
  moreover have "wanted r AND b = 0 \<longleftrightarrow> (\<forall>n. \<not> (bit (wanted r) n \<and> bit b n))"
  proof
    assume "wanted r AND b = 0"
    then have "\<not> bit (wanted r AND b) n" for n by simp
    then show "\<forall>n. \<not> (bit (wanted r) n \<and> bit b n)" by (simp add: bit_and_iff)
  qed (auto intro!: bit_word_eqI simp: bit_and_iff)
  ultimately show ?thesis by (simp add: satisfied_def)
qed

lemma control_bits:
  "(v :: 32 word) AND eventEVENT_BITS_CONTROL_BYTES AND eventWAIT_FOR_ALL_BITS = 0 \<longleftrightarrow> \<not> bit v 26"
  "(v :: 32 word) AND eventEVENT_BITS_CONTROL_BYTES AND eventCLEAR_EVENTS_ON_EXIT_BIT = 0 \<longleftrightarrow> \<not> bit v 24"
  "(v :: 32 word) AND eventUNBLOCKED_DUE_TO_BIT_SET = 0 \<longleftrightarrow> \<not> bit v 25"
  using and_exp_eq_0_iff_not_bit[of v 26] and_exp_eq_0_iff_not_bit[of v 24] and_exp_eq_0_iff_not_bit[of v 25]
  by (simp_all add: eventEVENT_BITS_CONTROL_BYTES_def eventWAIT_FOR_ALL_BITS_def eventCLEAR_EVENTS_ON_EXIT_BIT_def
      eventUNBLOCKED_DUE_TO_BIT_SET_def and.assoc)

lemma match_found_iff: "match_found b v \<longleftrightarrow> satisfied b (request_of v)"
  by (simp add: match_found_def satisfied_word request_of_def Let_def and.assoc control_bits)

lemma bits_to_clear_eq: "bits_to_clear v = (if clear_on_exit (request_of v) then wanted (request_of v) else 0)"
  using control_bits(2)[of v] by (simp add: bits_to_clear_def request_of_def)

lemma bit_cleared:
  "bit (cleared b k ts m) n \<longleftrightarrow> bit m n \<or> (\<exists>t\<in>set ts. wakes b k t \<and> bit (bits_to_clear (item_value k (xEventListItem t))) n)"
proof (induction ts arbitrary: m)
  case (Cons t ts)
  show ?case using Cons[of m] Cons[of "m OR bits_to_clear (item_value k (xEventListItem t))"]
    by (auto simp: cleared_def bit_or_iff)
qed (simp add: cleared_def)

section \<open>Setting bits\<close>

lemma group_of_woke:
  assumes "woke W v (ekn s) (ekn s')" "\<And>t. t \<in> W \<Longrightarrow> event_list (ekn s) t = Some (EventList g)"
  shows "waiting (group_of g s') = waiting (group_of g s) |` (- W)"
    and "h \<noteq> g \<Longrightarrow> waiting (group_of h s') = waiting (group_of h s)"
proof -
  have "event_list (ekn s') t = (if t \<in> W then None else event_list (ekn s) t)" for t using assms(1) by (simp add: woke_def)
  then have "waiting (group_of e s') = waiting (group_of e s) |` (- W)" for e
    using item_value_woke[OF assms(1)] by (intro ext) (simp add: group_of_def restrict_map_def)
  moreover have "waiting (group_of h s) |` (- W) = waiting (group_of h s)" if "h \<noteq> g"
  proof
    fix t
    have "t \<notin> W \<or> event_list (ekn s) t \<noteq> Some (EventList h)" using assms(2)[of t] that by auto
    then show "(waiting (group_of h s) |` (- W)) t = waiting (group_of h s) t" by (elim disjE) (simp_all add: group_of_def restrict_map_def)
  qed
  ultimately show "waiting (group_of g s') = waiting (group_of g s) |` (- W)"
    "h \<noteq> g \<Longrightarrow> waiting (group_of h s') = waiting (group_of h s)" by simp_all
qed

text \<open>The waiters of a group, in the order of its list.\<close>

lemma group_list:
  assumes inv: "lists_inv T E k" and g: "g \<in> E"
  obtains ts where "list_view k (EventList g) (map xEventListItem ts)" "set ts = {t. event_list k t = Some (EventList g)}"
proof -
  obtain xs where xs: "list_view k (EventList g) xs" "\<And>i. i \<in> set xs \<longleftrightarrow> pxContainer k i = Some (EventList g)"
    using wf_lists_view[OF lists_invD(1)[OF inv], of "EventList g"] g by auto
  define task where "task i = (case i of xStateListItem t \<Rightarrow> t | xEventListItem t \<Rightarrow> t)" for i
  have "xEventListItem (task i) = i" if "i \<in> set xs" for i
    using lists_invD(2)[OF inv, of i "EventList g"] xs(2) that by (auto simp: task_def)
  then have m: "map xEventListItem (map task xs) = xs" by (simp add: map_idI)
  have "t \<in> set (map task xs) \<longleftrightarrow> xEventListItem t \<in> set (map xEventListItem (map task xs))" for t by auto
  then have "set (map task xs) = {t. event_list k t = Some (EventList g)}" unfolding m by (simp add: xs(2) set_eq_iff del: set_map)
  then show ?thesis using that[of "map task xs"] xs(1) m by simp
qed

text \<open>Suspending and resuming around a section that leaves the held-back work alone.\<close>

lemma suspended_section:
  assumes ok: "kernel_ok idle T E k" and s: "uxSchedulerSuspended k + 1 \<noteq> 0" and core: "core_inv idle T E k1" "prio_inv k1"
    and cur: "pxCurrentTCB k1 = Some c" "is_ready k1 c"
    and same: "uxSchedulerSuspended k1 = uxSchedulerSuspended k + 1" "xPendedTicks k1 = xPendedTicks k" "\<forall>t. event_list k1 t = Some xPendingReadyList \<longrightarrow> event_list k t = Some xPendingReadyList"
  shows "\<exists>y k'. xTaskResumeAll k1 = Some (y, k') \<and> kernel_ok idle T E k' \<and>
    k' = k1\<lparr>uxSchedulerSuspended := uxSchedulerSuspended k, pendsv := pendsv k'\<rparr> \<and>
    (uxSchedulerSuspended k = 0 \<longrightarrow> y = xYieldPending k1 \<and> (xYieldPending k1 \<longrightarrow> pendsv k'))"
proof -
  have ok1: "kernel_ok idle T E k1" using core cur same(1) s by (simp add: kernel_ok_def run_inv_def susp_inv_def)
  show ?thesis
  proof (cases "uxSchedulerSuspended k = 0")
    case True
    have su: "susp_inv k" using ok by (simp add: kernel_ok_def)
    have pend: "pending k1 = {}" using su same(3) True by (auto simp: pending_def susp_inv_def)
    have z: "xPendedTicks k1 = 0" using su same(2) True by (simp add: susp_inv_def)
    have one: "uxSchedulerSuspended k1 = 1" using same(1) True by simp
    show ?thesis using resume_quiet[OF core(1) pend z one] resume_result[OF ok1 one] True
      by (intro exI[of _ "xYieldPending k1"] exI[of _ "k1\<lparr>uxSchedulerSuspended := 0, pendsv := pendsv k1 \<or> xYieldPending k1\<rparr>"]) auto
  next
    case False
    then show ?thesis using resume_nested[OF ok1] s same(1)
      by (intro exI[of _ False] exI[of _ "k1\<lparr>uxSchedulerSuspended := uxSchedulerSuspended k\<rparr>"]) (cases k1, simp)
  qed
qed

text \<open>The end of a section that has woken the tasks \<open>W\<close>.\<close>

lemma woken_section:
  assumes ok: "kernel_ok idle T E k" and sus: "uxSchedulerSuspended k + 1 \<noteq> 0" and cur: "pxCurrentTCB k = Some c" "is_ready k c"
    and k1: "core_inv idle T E k1" "prio_inv k1" "woke W v (vTaskSuspendAll k) k1"
  shows "\<exists>y k'. xTaskResumeAll k1 = Some (y, k') \<and> kernel_ok idle T E k' \<and> woke W v k k' \<and>
    (uxSchedulerSuspended k = 0 \<longrightarrow> xYieldPending k' \<longrightarrow> pendsv k')"
proof -
  have s0: "pxContainer (vTaskSuspendAll k) = pxContainer k" "uxPriority (vTaskSuspendAll k) = uxPriority k"
    by (simp_all add: vTaskSuspendAll_def)
  have w1: "pxContainer k1 = readied W k" "uxSchedulerSuspended k1 = uxSchedulerSuspended k + 1" "xPendedTicks k1 = xPendedTicks k"
    "pxCurrentTCB k1 = Some c" "uxPriority k1 = uxPriority k"
    using k1(3) cur(1) by (simp_all add: woke_def vTaskSuspendAll_def readied_def fun_eq_iff split: kitem.split)
  have rdy: "is_ready k1 c" using cur(2) by (simp add: is_ready_def w1(1,5))
  have pnd: "\<forall>t. event_list k1 t = Some xPendingReadyList \<longrightarrow> event_list k t = Some xPendingReadyList" by (simp add: w1(1))
  obtain y k' where k': "xTaskResumeAll k1 = Some (y, k')" "kernel_ok idle T E k'"
    "k' = k1\<lparr>uxSchedulerSuspended := uxSchedulerSuspended k, pendsv := pendsv k'\<rparr>"
    "uxSchedulerSuspended k = 0 \<longrightarrow> y = xYieldPending k1 \<and> (xYieldPending k1 \<longrightarrow> pendsv k')"
    using suspended_section[OF ok sus k1(1,2) w1(4) rdy w1(2,3) pnd] by (elim exE conjE) (rule that)
  have f: "pxContainer k' = pxContainer k1" "xItemValue k' = xItemValue k1" "pxCurrentTCB k' = pxCurrentTCB k1" "uxPriority k' = uxPriority k1"
    "uxBasePriority k' = uxBasePriority k1" "uxSchedulerSuspended k' = uxSchedulerSuspended k" "xPendedTicks k' = xPendedTicks k1"
    "xTickCount k' = xTickCount k1" "xYieldPending k' = xYieldPending k1"
    by (subst k'(3), simp)+
  have "woke W v k k'" using k1(3) w1(1) cur(1) unfolding woke_def f by (simp add: vTaskSuspendAll_def)
  then show ?thesis using k'(1,2,4) f(9) by (intro exI[of _ y] exI[of _ k']) simp
qed

text \<open>Setting bits, from a state the scheduler may already be suspended in.\<close>

lemma set_bits_effect:
  assumes ok: "kernel_ok idle T E (ekn s)" and sus: "uxSchedulerSuspended (ekn s) + 1 \<noteq> 0"
    and cur: "pxCurrentTCB (ekn s) = Some c" "is_ready (ekn s) c" and g: "g \<in> E"
  shows "\<exists>s'. xEventGroupSetBits g b s = Some s' \<and> kernel_ok idle T E (ekn s') \<and>
    group_set b (group_of g s) (group_of g s') \<and> (\<forall>h. h \<noteq> g \<longrightarrow> group_of h s' = group_of h s) \<and>
    woke (satisfied_by (uxEventBits s g OR b) (group_of g s))
      (uxEventBits s g OR b OR eventUNBLOCKED_DUE_TO_BIT_SET OR taskEVENT_LIST_ITEM_VALUE_IN_USE) (ekn s) (ekn s') \<and>
    (uxSchedulerSuspended (ekn s) = 0 \<longrightarrow> xYieldPending (ekn s') \<longrightarrow> pendsv (ekn s'))"
proof -
  define k where "k = ekn s"
  define k0 where "k0 = vTaskSuspendAll k"
  define v where "v = uxEventBits s g OR b"
  have s0: "uxSchedulerSuspended k0 = uxSchedulerSuspended k + 1" "xPendedTicks k0 = xPendedTicks k" "pxContainer k0 = pxContainer k"
    "pxCurrentTCB k0 = Some c" "xItemValue k0 = xItemValue k" "uxPriority k0 = uxPriority k" "uxBasePriority k0 = uxBasePriority k"
    "xTickCount k0 = xTickCount k"
    using cur(1) by (simp_all add: k0_def vTaskSuspendAll_def k_def)
  have "kernel_ok idle T E k0" using suspend_all_result[OF ok sus cur] by (simp add: k0_def k_def)
  then have core0: "core_inv idle T E k0" "prio_inv k0" by (simp_all add: kernel_ok_def)
  obtain ts where ts: "list_view k0 (EventList g) (map xEventListItem ts)" "set ts = {t. event_list k0 t = Some (EventList g)}"
    using group_list[OF core_invD(1)[OF core0(1)] g] .
  define W where "W = set (filter (wakes v k0) ts)"
  have W: "W = satisfied_by v (group_of g s)"
    unfolding W_def set_filter ts(2) satisfied_by_def
    by (rule Collect_cong) (simp add: wakes_def match_found_iff group_of_def s0 k_def)
  have ts0: "list_view k0 (EventList g) (map xEventListItem ([] @ ts))" using ts(1) by simp
  obtain k1 where k1: "set_bits_loop g v (after (EventList g) (map xEventListItem ts)) 0 k0 = Some (cleared v k0 ts 0, k1)"
    "core_inv idle T E k1" "prio_inv k1"
    "woke W (v OR eventUNBLOCKED_DUE_TO_BIT_SET OR taskEVENT_LIST_ITEM_VALUE_IN_USE) k0 k1"
    using set_bits_loop_result[OF core0 s0(4) ts0, of v 0, folded W_def] by (elim exE conjE) (rule that)
  obtain y k' where k': "xTaskResumeAll k1 = Some (y, k')" "kernel_ok idle T E k'"
    "woke W (v OR eventUNBLOCKED_DUE_TO_BIT_SET OR taskEVENT_LIST_ITEM_VALUE_IN_USE) k k'"
    "uxSchedulerSuspended k = 0 \<longrightarrow> xYieldPending k' \<longrightarrow> pendsv k'"
    using woken_section[OF ok[folded k_def] sus[folded k_def] cur[folded k_def] k1(2,3) k1(4)[unfolded k0_def]] by (elim exE conjE) (rule that)
  define l where "l = v AND NOT (cleared v k0 ts 0)"
  define s' where "s' = s\<lparr>uxEventBits := (uxEventBits s)(g := l), ekn := k'\<rparr>"
  have run: "xEventGroupSetBits g b s = Some s'"
    using k1(1) k'(1) list_view_head[OF ts(1)]
    by (simp add: xEventGroupSetBits_def k0_def[unfolded k_def, symmetric] v_def[symmetric] xTasksWaitingForBits_def l_def s'_def Let_def)
  have in_g: "event_list (ekn s) t = Some (EventList g)" if "t \<in> W" for t
    using that ts(2) s0(3) by (auto simp: W_def k_def)
  have wk': "woke W (v OR eventUNBLOCKED_DUE_TO_BIT_SET OR taskEVENT_LIST_ITEM_VALUE_IN_USE) (ekn s) (ekn s')"
    using k'(3) by (simp add: k_def s'_def)
  note wt = group_of_woke[OF wk' in_g]
  have "group_of h s' = group_of h s" if "h \<noteq> g" for h
    using wt(2)[OF _ that] that by (simp add: group_of_def s'_def)
  moreover have "group_set b (group_of g s) (group_of g s')"
  proof -
    have gb: "group_bits (group_of g s) = uxEventBits s g" "group_bits (group_of g s') = l" by (simp_all add: group_of_def s'_def)
    have bv: "bit v n \<longleftrightarrow> bit (uxEventBits s g) n \<or> bit b n" for n by (simp add: v_def bit_or_iff)
    have cl: "bit (cleared v k0 ts 0) n \<longleftrightarrow>
        (\<exists>t r. waiting (group_of g s) t = Some r \<and> satisfied v r \<and> clear_on_exit r \<and> bit (wanted r) n)" for n
      unfolding bit_cleared ts(2)
      by (auto simp: group_of_def wakes_def match_found_iff bits_to_clear_eq s0 k_def split: if_splits)
    have bl: "bit l n \<longleftrightarrow> bit v n \<and> \<not> bit (cleared v k0 ts 0) n" for n
      by (auto simp: l_def bit_and_iff bit_not_iff dest: bit_imp_le_length)
    show ?thesis unfolding group_set_def gb v_def[symmetric] bl cl bv
      by (intro conjI allI) (use wt(1) W in simp, simp only: not_ex de_Morgan_conj disj_not1)
  qed
  ultimately show ?thesis using run k'(2,4) wk' unfolding W v_def[symmetric]
    by (intro exI[of _ s']) (simp add: s'_def k_def or.assoc[symmetric] v_def)
qed

section \<open>Waiting for bits\<close>

lemma delayed_values:
  assumes "prvAddCurrentTaskToDelayedList n b k = Some k'"
  shows "item_value k' (xEventListItem t) = item_value k (xEventListItem t)"
proof -
  have set_state: "xItemValue (listSET_LIST_ITEM_VALUE (xStateListItem c) w k1) (ListItem (xEventListItem t)) = item_value k1 (xEventListItem t)"
    for c w and k1 :: kernel by (simp add: listSET_LIST_ITEM_VALUE_def)
  show ?thesis using assms
    by (auto simp: prvAddCurrentTaskToDelayedList_def Let_def values_insert_end set_state split: bind_splits if_splits
        dest!: values_remove_and_reset values_vListInsert)
qed

lemma place_unordered_result:
  assumes core: "core_inv idle T E k" and cur: "pxCurrentTCB k = Some c" "is_ready k c" "c \<noteq> idle"
    and g: "g \<in> E" and n: "n \<noteq> 0" and prio: "prio_inv k"
  shows "\<exists>k'. vTaskPlaceOnUnorderedEventList (EventList g) v n k = Some k' \<and> core_inv idle T E k' \<and> prio_inv k' \<and>
    waits c (wait_time n) k k' \<and> event_list k' = (event_list k)(c := Some (EventList g)) \<and>
    (\<forall>t. item_value k' (xEventListItem t) = (if t = c then v OR taskEVENT_LIST_ITEM_VALUE_IN_USE else item_value k (xEventListItem t))) \<and>
    xPendedTicks k' = xPendedTicks k"
proof -
  define k0 where "k0 = listSET_LIST_ITEM_VALUE (xEventListItem c) (v OR taskEVENT_LIST_ITEM_VALUE_IN_USE) k"
  have core0: "core_inv idle T E k0" unfolding k0_def by (rule event_value_core[OF core])
  have cT: "c \<in> T" using core cur(1) by (auto simp: core_inv_def)
  have f0: "pxContainer k0 = pxContainer k" "pxCurrentTCB k0 = Some c" "uxPriority k0 = uxPriority k" "uxBasePriority k0 = uxBasePriority k"
    "uxSchedulerSuspended k0 = uxSchedulerSuspended k" "xTickCount k0 = xTickCount k" "xPendedTicks k0 = xPendedTicks k"
    "pendsv k0 = pendsv k" "xYieldPending k0 = xYieldPending k" "pxDelayedTaskList k0 = pxDelayedTaskList k"
    "pxOverflowDelayedTaskList k0 = pxOverflowDelayedTaskList k"
    "item_value k0 (xStateListItem t) = item_value k (xStateListItem t)" for t
    using cur(1) by (simp_all add: k0_def listSET_LIST_ITEM_VALUE_def)
  have v0: "item_value k0 (xEventListItem t) = (if t = c then v OR taskEVENT_LIST_ITEM_VALUE_IN_USE else item_value k (xEventListItem t))" for t
    by (simp add: k0_def listSET_LIST_ITEM_VALUE_def)
  have ev: "event_list k0 c = None" using ready_no_event[OF core_invD(1)[OF core] cur(2)] f0(1) by simp
  define k1 where "k1 = vListInsertEnd (EventList g) (xEventListItem c) k0"
  have k1: "wf_lists (items T) (live E) k1" "list_step k0 k1" "pxContainer k1 = (pxContainer k0)(xEventListItem c := Some (EventList g))"
    "only_list (EventList g) k0 k1"
    unfolding k1_def by (rule put_end[OF lists_invD(1)[OF core_invD(1)[OF core0]]]; use ev g cT in simp)+
  have core1: "core_inv_but c idle T E k1" and st: "kstep k0 k1" by (rule link_event[OF core0 f0(2) ev k1])+
  note f = kstep_fields[OF st]
  have same: "is_ready k1 = is_ready k" "remaining k1 = remaining k"
    by (simp_all add: fun_eq_iff is_ready_def remaining_def delayed_def f k1(3) f0)
  have prio1: "prio_inv k1" using prio unfolding prio_inv_def same f f0 using cur(1) by simp
  have rdy: "is_ready k1 c" using cur(2) same by simp
  obtain k' where k': "prvAddCurrentTaskToDelayedList n True k1 = Some k'" "core_inv idle T E k'" "prio_inv k'" "waits c (wait_time n) k1 k'"
    "event_list k' = event_list k1" "xPendedTicks k' = xPendedTicks k1"
    using block_any[OF core1 rdy cur(3) n prio1] by (elim exE conjE) (rule that)
  have w: "waits c (wait_time n) k k'" using k'(4) cur(1) unfolding waits_def same f f0 by simp
  have e: "event_list k' = (event_list k)(c := Some (EventList g))" unfolding k'(5) by (intro ext) (simp add: k1(3) f0(1))
  have v: "item_value k' (xEventListItem t) = item_value k0 (xEventListItem t)" for t
    using delayed_values[OF k'(1), of t] list_step_fields(1)[OF k1(2)] by simp
  have "vTaskPlaceOnUnorderedEventList (EventList g) v n k = Some k'"
    using k'(1) cur(1) by (simp add: vTaskPlaceOnUnorderedEventList_def k0_def[symmetric] listINSERT_END_eq k1_def)
  then show ?thesis using k'(2,3,6) w e by (intro exI[of _ k']) (simp add: v v0 f f0)
qed

text \<open>The end of a suspended section, without and with a wait.\<close>

definition settled :: "kernel \<Rightarrow> bool" where
  "settled k \<longleftrightarrow> uxSchedulerSuspended k = 1 \<and> xPendedTicks k = 0 \<and> pending k = {}"

lemma quiet_section:
  assumes ok: "kernel_ok idle T E k" and st: "settled k"
  shows "\<exists>k'. resume_and_yield False k = Some k' \<and> kernel_ok idle T E k' \<and> uxSchedulerSuspended k' = 0 \<and>
    k' = k\<lparr>uxSchedulerSuspended := 0, pendsv := pendsv k \<or> xYieldPending k\<rparr>"
proof -
  have core: "core_inv idle T E k" using ok by (simp add: kernel_ok_def)
  have q: "pending k = {}" "xPendedTicks k = 0" "uxSchedulerSuspended k = 1" using st by (simp_all add: settled_def)
  let ?k = "k\<lparr>uxSchedulerSuspended := 0, pendsv := pendsv k \<or> xYieldPending k\<rparr>"
  have r: "xTaskResumeAll k = Some (xYieldPending k, ?k)" by (rule resume_quiet[OF core q])
  then have "kernel_ok idle T E ?k" using resume_result[OF ok q(3)] by auto
  then show ?thesis using r by (intro exI[of _ ?k]) (simp add: resume_and_yield_def)
qed

lemma block_section:
  assumes ok: "kernel_ok idle T E k" and st: "settled k"
    and cur: "pxCurrentTCB k = Some c" "is_ready k c" "c \<noteq> idle" and g: "g \<in> E" and n: "n \<noteq> 0"
  shows "\<exists>k1 k'. vTaskPlaceOnUnorderedEventList (EventList g) v n k = Some k1 \<and> resume_and_yield True k1 = Some k' \<and>
    kernel_ok idle T E k' \<and> pendsv k' \<and> waits c (wait_time n) (k\<lparr>uxSchedulerSuspended := 0\<rparr>) k' \<and>
    event_list k' = (event_list k)(c := Some (EventList g)) \<and>
    (\<forall>t. item_value k' (xEventListItem t) = (if t = c then v OR taskEVENT_LIST_ITEM_VALUE_IN_USE else item_value k (xEventListItem t)))"
proof -
  have core: "core_inv idle T E k" and prio: "prio_inv k" using ok by (simp_all add: kernel_ok_def)
  obtain k1 where k1: "vTaskPlaceOnUnorderedEventList (EventList g) v n k = Some k1" "core_inv idle T E k1" "prio_inv k1"
    "waits c (wait_time n) k k1" "event_list k1 = (event_list k)(c := Some (EventList g))"
    "\<forall>t. item_value k1 (xEventListItem t) = (if t = c then v OR taskEVENT_LIST_ITEM_VALUE_IN_USE else item_value k (xEventListItem t))"
    "xPendedTicks k1 = xPendedTicks k"
    using place_unordered_result[OF core cur g n prio, of v] by (elim exE conjE) (rule that)
  have pend: "pending k1 = {}" using st fun_cong[OF k1(5)] by (simp add: pending_def settled_def)
  have one: "uxSchedulerSuspended k1 = 1" and z: "xPendedTicks k1 = 0" using k1(4,7) st by (simp_all add: waits_def settled_def)
  define k' where "k' = k1\<lparr>uxSchedulerSuspended := 0, pendsv := True\<rparr>"
  have "resume_and_yield True k1 = Some k'"
    using resume_quiet[OF k1(2) pend z one] by (auto simp: resume_and_yield_def k'_def portYIELD_def)
  moreover have "kernel_ok idle T E k'"
  proof -
    have "pxContainer k1 i \<noteq> Some xPendingReadyList" for i
      using pend lists_invD(2)[OF core_invD(1)[OF k1(2)], of i xPendingReadyList] by (auto simp: pending_def)
    then have "susp_inv (k1\<lparr>uxSchedulerSuspended := 0\<rparr>)" using z by (simp add: susp_inv_def)
    then show ?thesis using kernel_ok_yield[of idle T E "k1\<lparr>uxSchedulerSuspended := 0\<rparr>"] k1(2) by (simp add: k'_def)
  qed
  moreover have "waits c (wait_time n) (k\<lparr>uxSchedulerSuspended := 0\<rparr>) k'"
  proof -
    have "remaining k' = remaining k1" "is_ready k' = is_ready k1" "remaining (k\<lparr>uxSchedulerSuspended := 0\<rparr>) = remaining k"
      "is_ready (k\<lparr>uxSchedulerSuspended := 0\<rparr>) = is_ready k"
      by (simp_all add: k'_def fun_eq_iff remaining_def delayed_def is_ready_def)
    moreover have "uxPriority k' = uxPriority k1" "uxBasePriority k' = uxBasePriority k1" "pxCurrentTCB k' = pxCurrentTCB k1"
      "xTickCount k' = xTickCount k1" "uxSchedulerSuspended k' = 0" "pxContainer k' = pxContainer k1" by (simp_all add: k'_def)
    ultimately show ?thesis using k1(4) cur(1) unfolding waits_def by simp
  qed
  ultimately show ?thesis using k1(1,5,6) by (intro exI[of _ k1] exI[of _ k']) (simp add: k'_def)
qed

lemma settled_suspended:
  assumes "kernel_ok idle T E k" "uxSchedulerSuspended k = 0"
  shows "settled (vTaskSuspendAll k)"
  using assms by (simp add: settled_def vTaskSuspendAll_def kernel_ok_def susp_inv_def pending_def)

text \<open>What the waiter writes into its item is read back by the one who sets bits.\<close>

lemma request_of_wait:
  assumes w: "w AND eventEVENT_BITS_CONTROL_BYTES = 0"
  shows "request_of ((w OR ((if clr then eventCLEAR_EVENTS_ON_EXIT_BIT else 0) OR (if all then eventWAIT_FOR_ALL_BITS else 0)))
      OR taskEVENT_LIST_ITEM_VALUE_IN_USE) = \<lparr>wanted = w, clear_on_exit = clr, want_all = all\<rparr>"
proof -
  let ?c = "(if clr then eventCLEAR_EVENTS_ON_EXIT_BIT else 0) OR (if all then eventWAIT_FOR_ALL_BITS else 0) OR taskEVENT_LIST_ITEM_VALUE_IN_USE"
  have "\<not> bit (w AND eventEVENT_BITS_CONTROL_BYTES) 24" "\<not> bit (w AND eventEVENT_BITS_CONTROL_BYTES) 26" unfolding w by simp_all
  then have b: "\<not> bit w 24" "\<not> bit w 26" by (simp_all add: bit_and_iff eventEVENT_BITS_CONTROL_BYTES_def)
  have c: "?c AND NOT eventEVENT_BITS_CONTROL_BYTES = 0" "bit ?c 24 = clr" "bit ?c 26 = all"
    by (cases clr; cases all; simp add: eventEVENT_BITS_CONTROL_BYTES_def eventCLEAR_EVENTS_ON_EXIT_BIT_def eventWAIT_FOR_ALL_BITS_def
        taskEVENT_LIST_ITEM_VALUE_IN_USE_def)+
  have "w AND NOT eventEVENT_BITS_CONTROL_BYTES = (w AND NOT eventEVENT_BITS_CONTROL_BYTES) OR (w AND eventEVENT_BITS_CONTROL_BYTES)"
    by (simp add: w)
  also have "\<dots> = w" by (simp flip: bit.conj_disj_distrib)
  finally have n: "w AND NOT eventEVENT_BITS_CONTROL_BYTES = w" .
  have "(w OR ?c) AND NOT eventEVENT_BITS_CONTROL_BYTES = w" using n c(1) by (simp only: bit.conj_disj_distrib2 or.right_neutral)
  then show ?thesis using b c(2,3) by (simp add: request_of_def or.assoc bit_or_iff)
qed

section \<open>Deletion\<close>

lemma delete_loop_result:
  assumes "core_inv idle T E k" "prio_inv k" "pxCurrentTCB k = Some c" "list_view k (EventList g) (map xEventListItem ts)"
  shows "\<exists>k'. delete_loop g k = Some k' \<and> core_inv idle T E k' \<and> prio_inv k' \<and>
    woke (set ts) (eventUNBLOCKED_DUE_TO_BIT_SET OR taskEVENT_LIST_ITEM_VALUE_IN_USE) k k'"
  using assms
proof (induction ts arbitrary: k)
  case Nil
  have "listCURRENT_LIST_LENGTH (EventList g) k = 0" using list_view_length[OF Nil(4)] by simp
  then show ?case using Nil by (subst delete_loop.simps) (simp add: xTasksWaitingForBits_def woke_refl)
next
  case (Cons t ts)
  have v: "list_view k (EventList g) (map xEventListItem [] @ xEventListItem t # map xEventListItem ts)" using Cons.prems(4) by simp
  obtain k1 where k1: "vTaskRemoveFromUnorderedEventList (xEventListItem t) eventUNBLOCKED_DUE_TO_BIT_SET k = Some k1"
    "core_inv idle T E k1" "prio_inv k1" "woke {t} (eventUNBLOCKED_DUE_TO_BIT_SET OR taskEVENT_LIST_ITEM_VALUE_IN_USE) k k1"
    "list_view k1 (EventList g) (map xEventListItem [] @ map xEventListItem ts)"
    using remove_unordered_result[OF Cons.prems(1-3) v, of eventUNBLOCKED_DUE_TO_BIT_SET] by (elim exE conjE) (rule that)
  have cur: "pxCurrentTCB k1 = Some c" using k1(4) Cons.prems(3) by (simp add: woke_def)
  have v1: "list_view k1 (EventList g) (map xEventListItem ts)" using k1(5) by simp
  obtain k2 where k2: "delete_loop g k1 = Some k2" "core_inv idle T E k2" "prio_inv k2"
    "woke (set ts) (eventUNBLOCKED_DUE_TO_BIT_SET OR taskEVENT_LIST_ITEM_VALUE_IN_USE) k1 k2"
    using Cons.IH[OF k1(2,3) cur v1] by (elim exE conjE) (rule that)
  have "length (map xEventListItem (t # ts)) < 2 ^ 32" using Cons.prems(4) by (simp only: list_view_def)
  then have "listCURRENT_LIST_LENGTH (EventList g) k \<noteq> 0"
    using list_view_length[OF Cons.prems(4)] of_nat_length_eq_0[of "length (map xEventListItem (t # ts))"] by simp
  moreover have "pxNext k (ListEnd (EventList g)) = ListItem (xEventListItem t)"
    using list_view_link(1)[of k "EventList g" "[]" "xEventListItem t # map xEventListItem ts"] Cons.prems(4) by simp
  ultimately have "delete_loop g k = delete_loop g k1"
    using k1(1) by (subst delete_loop.simps) (simp add: xTasksWaitingForBits_def word_greater_zero_iff)
  then show ?case using k2 woke_trans[OF k1(4) k2(4)] by (intro exI[of _ k2]) simp
qed

lemma delete_effect:
  assumes ok: "kernel_ok idle T E (ekn s)" and sus: "uxSchedulerSuspended (ekn s) + 1 \<noteq> 0"
    and cur: "pxCurrentTCB (ekn s) = Some c" "is_ready (ekn s) c" and g: "g \<in> E"
  shows "\<exists>k'. vEventGroupDelete g s = Some (s\<lparr>ekn := k'\<rparr>) \<and> kernel_ok idle T E k' \<and>
    woke (dom (waiting (group_of g s))) (eventUNBLOCKED_DUE_TO_BIT_SET OR taskEVENT_LIST_ITEM_VALUE_IN_USE) (ekn s) k' \<and>
    (uxSchedulerSuspended (ekn s) = 0 \<longrightarrow> xYieldPending k' \<longrightarrow> pendsv k')"
proof -
  have ok0: "kernel_ok idle T E (vTaskSuspendAll (ekn s))" by (rule suspend_all_result[OF ok sus cur])
  then have core0: "core_inv idle T E (vTaskSuspendAll (ekn s))" "prio_inv (vTaskSuspendAll (ekn s))" by (simp_all add: kernel_ok_def)
  obtain ts where ts: "list_view (vTaskSuspendAll (ekn s)) (EventList g) (map xEventListItem ts)"
    "set ts = {t. event_list (vTaskSuspendAll (ekn s)) t = Some (EventList g)}"
    using group_list[OF core_invD(1)[OF core0(1)] g] .
  have c0: "pxCurrentTCB (vTaskSuspendAll (ekn s)) = Some c" using cur(1) by (simp add: vTaskSuspendAll_def)
  have W: "set ts = dom (waiting (group_of g s))" by (auto simp: ts(2) group_of_def vTaskSuspendAll_def split: if_splits)
  obtain k1 where k1: "delete_loop g (vTaskSuspendAll (ekn s)) = Some k1" "core_inv idle T E k1" "prio_inv k1"
    "woke (dom (waiting (group_of g s))) (eventUNBLOCKED_DUE_TO_BIT_SET OR taskEVENT_LIST_ITEM_VALUE_IN_USE) (vTaskSuspendAll (ekn s)) k1"
    using delete_loop_result[OF core0 c0 ts(1)] unfolding W by (elim exE conjE) (rule that)
  show ?thesis using woken_section[OF ok sus cur k1(2-4)] k1(1) by (auto simp: vEventGroupDelete_def)
qed

end
