(* ===== verification/FREventGroup.thy ===== *)
theory FREventGroup
  imports FREventRun
begin

text \<open>
  The properties of event groups: waiting, setting, synchronising and deleting refine the abstract group of
  \<open>FREventRun\<close>, and every history of calls of the kernel and of event groups keeps the invariant of the kernel.
\<close>

section \<open>The operations refine the abstract group\<close>

lemma group_of_block:
  assumes "event_list (ekn s') = (event_list (ekn s))(c := Some (EventList g))" "uxEventBits s' = uxEventBits s"
    and "\<forall>t. item_value (ekn s') (xEventListItem t) = (if t = c then v else item_value (ekn s) (xEventListItem t))"
    and "event_list (ekn s) c = None"
  shows "group_of g s' = (group_of g s)\<lparr>waiting := (waiting (group_of g s))(c \<mapsto> request_of v)\<rparr>"
    and "h \<noteq> g \<Longrightarrow> group_of h s' = group_of h s"
proof -
  have e: "event_list (ekn s') t = (if t = c then Some (EventList g) else event_list (ekn s) t)" for t
    using fun_cong[OF assms(1), of t] by simp
  show "group_of g s' = (group_of g s)\<lparr>waiting := (waiting (group_of g s))(c \<mapsto> request_of v)\<rparr>"
    using assms(2,3) by (simp add: group_of_def fun_eq_iff e)
  show "group_of h s' = group_of h s" if "h \<noteq> g"
    using assms(2-4) that by (simp add: group_of_def fun_eq_iff e)
qed

lemma group_of_same: "pxContainer (ekn s') = pxContainer (ekn s) \<Longrightarrow> xItemValue (ekn s') = xItemValue (ekn s) \<Longrightarrow>
    group_of h s' = (group_of h s)\<lparr>group_bits := uxEventBits s' h\<rparr>"
  by (simp add: group_of_def fun_eq_iff)

lemma prvTestWaitCondition_iff: "prvTestWaitCondition b w all \<longleftrightarrow> satisfied b \<lparr>wanted = w, clear_on_exit = clr, want_all = all\<rparr>"
  by (simp add: prvTestWaitCondition_def satisfied_word and.commute)

lemma wait_bits_effect:
  assumes ok: "kernel_ok idle T E (ekn s)" and un: "uxSchedulerSuspended (ekn s) = 0"
    and cur: "pxCurrentTCB (ekn s) = Some c" "is_ready (ekn s) c" "c \<noteq> idle" and g: "g \<in> E"
    and w: "w AND eventEVENT_BITS_CONTROL_BYTES = 0"
  shows "\<exists>r s'. xEventGroupWaitBits_enter g w clr all n s = Some (r, s') \<and> kernel_ok idle T E (ekn s') \<and>
    uxSchedulerSuspended (ekn s') = 0 \<and> (\<forall>h. h \<noteq> g \<longrightarrow> group_of h s' = group_of h s) \<and>
    (\<forall>t. t \<noteq> c \<longrightarrow> item_value (ekn s') (xEventListItem t) = item_value (ekn s) (xEventListItem t)) \<and>
    (let req = \<lparr>wanted = w, clear_on_exit = clr, want_all = all\<rparr>; G = group_of g s in
     if satisfied (group_bits G) req
     then r = Some (group_bits G) \<and> is_ready (ekn s') = is_ready (ekn s) \<and>
       group_of g s' = (if clr then G\<lparr>group_bits := group_bits G AND NOT w\<rparr> else G)
     else if n = 0 then r = Some (group_bits G) \<and> is_ready (ekn s') = is_ready (ekn s) \<and> group_of g s' = G
     else r = None \<and> waits c (wait_time n) (ekn s) (ekn s') \<and> pendsv (ekn s') \<and>
       group_of g s' = G\<lparr>waiting := (waiting G)(c \<mapsto> req)\<rparr>)"
proof -
  define k0 where "k0 = vTaskSuspendAll (ekn s)"
  have ok0: "kernel_ok idle T E k0" unfolding k0_def by (rule suspend_all_result[OF ok _ cur(1,2)]) (simp add: un)
  have st: "settled k0" unfolding k0_def by (rule settled_suspended[OF ok un])
  have f0: "pxContainer k0 = pxContainer (ekn s)" "xItemValue k0 = xItemValue (ekn s)" "pxCurrentTCB k0 = Some c" "is_ready k0 = is_ready (ekn s)"
    "k0\<lparr>uxSchedulerSuspended := 0\<rparr> = ekn s"
    using cur(1) un by (simp_all add: k0_def vTaskSuspendAll_def is_ready_def fun_eq_iff)
  let ?req = "\<lparr>wanted = w, clear_on_exit = clr, want_all = all\<rparr>"
  let ?k = "k0\<lparr>uxSchedulerSuspended := 0, pendsv := pendsv k0 \<or> xYieldPending k0\<rparr>"
  have q: "resume_and_yield False k0 = Some ?k" "kernel_ok idle T E ?k" using quiet_section[OF ok0 st] by auto
  have same: "is_ready ?k = is_ready (ekn s)" by (simp add: fun_eq_iff is_ready_def k0_def vTaskSuspendAll_def)
  have gb: "group_bits (group_of g s) = uxEventBits s g" by (simp add: group_of_def)
  consider (met) "prvTestWaitCondition (uxEventBits s g) w all" | (now) "\<not> prvTestWaitCondition (uxEventBits s g) w all" "n = 0"
    | (block) "\<not> prvTestWaitCondition (uxEventBits s g) w all" "n \<noteq> 0" by blast
  then show ?thesis
  proof cases
    case met
    define s' where "s' = (if clr then upd_bits g (\<lambda>b. b AND NOT w) s else s)\<lparr>ekn := ?k\<rparr>"
    have run: "xEventGroupWaitBits_enter g w clr all n s = Some (Some (uxEventBits s g), s')"
      using met q(1) by (simp add: xEventGroupWaitBits_enter_def k0_def[symmetric] s'_def)
    have "group_of h s' = (group_of h s)\<lparr>group_bits := uxEventBits s' h\<rparr>" for h by (rule group_of_same) (simp_all add: s'_def f0)
    then have "group_of h s' = (if h = g \<and> clr then (group_of h s)\<lparr>group_bits := uxEventBits s g AND NOT w\<rparr> else group_of h s)" for h
      by (simp add: s'_def upd_bits_def group_of_def)
    then show ?thesis using run q(2) same met unfolding gb Let_def prvTestWaitCondition_iff[of _ w all clr]
      by (intro exI[of _ "Some (uxEventBits s g)"] exI[of _ s']) (simp add: s'_def f0(2))
  next
    case now
    define s' where "s' = s\<lparr>ekn := ?k\<rparr>"
    have run: "xEventGroupWaitBits_enter g w clr all n s = Some (Some (uxEventBits s g), s')"
      using now q(1) by (simp add: xEventGroupWaitBits_enter_def k0_def[symmetric] s'_def)
    have "group_of h s' = group_of h s" for h using group_of_same[of s' s h] by (simp add: s'_def f0 group_of_def)
    then show ?thesis using run q(2) same now unfolding gb Let_def prvTestWaitCondition_iff[of _ w all clr]
      by (intro exI[of _ "Some (uxEventBits s g)"] exI[of _ s']) (simp add: s'_def f0(2))
  next
    case block
    let ?v = "w OR ((if clr then eventCLEAR_EVENTS_ON_EXIT_BIT else 0) OR (if all then eventWAIT_FOR_ALL_BITS else 0))"
    have rdy0: "is_ready k0 c" using cur(2) f0(4) by simp
    obtain k1 k' where k': "vTaskPlaceOnUnorderedEventList (EventList g) ?v n k0 = Some k1" "resume_and_yield True k1 = Some k'"
      "kernel_ok idle T E k'" "pendsv k'" "waits c (wait_time n) (k0\<lparr>uxSchedulerSuspended := 0\<rparr>) k'"
      "event_list k' = (event_list k0)(c := Some (EventList g))"
      "\<forall>t. item_value k' (xEventListItem t) = (if t = c then ?v OR taskEVENT_LIST_ITEM_VALUE_IN_USE else item_value k0 (xEventListItem t))"
      using block_section[OF ok0 st f0(3) rdy0 cur(3) g block(2), of ?v] by (elim exE conjE) (rule that)
    define s' where "s' = s\<lparr>ekn := k'\<rparr>"
    have run: "xEventGroupWaitBits_enter g w clr all n s = Some (None, s')"
      using block k'(1,2) by (simp add: xEventGroupWaitBits_enter_def k0_def[symmetric] s'_def xTasksWaitingForBits_def)
    have ev: "event_list (ekn s) c = None"
      using ready_no_event[OF _ cur(2), of T E] ok by (simp add: kernel_ok_def core_inv_def)
    have el: "event_list (ekn s') = (event_list (ekn s))(c := Some (EventList g))" using k'(6) f0(1) by (simp add: s'_def)
    have vl: "\<forall>t. item_value (ekn s') (xEventListItem t) =
        (if t = c then ?v OR taskEVENT_LIST_ITEM_VALUE_IN_USE else item_value (ekn s) (xEventListItem t))"
      using k'(7) f0(2) by (simp add: s'_def)
    have sb: "uxEventBits s' = uxEventBits s" by (simp add: s'_def)
    note G = group_of_block[OF el sb vl ev, unfolded request_of_wait[OF w]]
    have "uxSchedulerSuspended (ekn s') = 0" using k'(5) un f0(5) by (simp add: waits_def s'_def)
    then show ?thesis using run k'(3-5) block G vl unfolding gb Let_def prvTestWaitCondition_iff[of _ w all clr] f0(5)
      by (intro exI[of _ None] exI[of _ s']) (simp add: s'_def)
  qed
qed

section \<open>Synchronising and leaving\<close>

text \<open>A rendezvous writes its request the way a wait for all bits that clears them on exit does.\<close>

lemma request_of_sync: "w AND eventEVENT_BITS_CONTROL_BYTES = 0 \<Longrightarrow>
    request_of ((w OR eventCLEAR_EVENTS_ON_EXIT_BIT OR eventWAIT_FOR_ALL_BITS) OR taskEVENT_LIST_ITEM_VALUE_IN_USE) =
    \<lparr>wanted = w, clear_on_exit = True, want_all = True\<rparr>"
  using request_of_wait[of w True True] by simp

lemma rendezvous_iff: "v AND w = w \<longleftrightarrow> satisfied v \<lparr>wanted = w, clear_on_exit = True, want_all = True\<rparr>"
  by (simp add: satisfied_word and.commute)

lemma sync_effect:
  assumes ok: "kernel_ok idle T E (ekn s)" and un: "uxSchedulerSuspended (ekn s) = 0"
    and cur: "pxCurrentTCB (ekn s) = Some c" "is_ready (ekn s) c" "c \<noteq> idle" and g: "g \<in> E"
    and w: "w AND eventEVENT_BITS_CONTROL_BYTES = 0"
  shows "\<exists>r G s'. xEventGroupSync_enter g b w n s = Some (r, s') \<and> kernel_ok idle T E (ekn s') \<and>
    uxSchedulerSuspended (ekn s') = 0 \<and> (\<forall>h. h \<noteq> g \<longrightarrow> group_of h s' = group_of h s) \<and>
    group_set b (group_of g s) G \<and>
    (\<forall>t. t \<noteq> c \<longrightarrow> t \<notin> satisfied_by (group_bits (group_of g s) OR b) (group_of g s) \<longrightarrow>
       item_value (ekn s') (xEventListItem t) = item_value (ekn s) (xEventListItem t)) \<and>
    (\<forall>t\<in>satisfied_by (group_bits (group_of g s) OR b) (group_of g s). is_ready (ekn s') t) \<and>
    (let req = \<lparr>wanted = w, clear_on_exit = True, want_all = True\<rparr> in
     if satisfied (group_bits (group_of g s) OR b) req
     then r = Some (group_bits (group_of g s) OR b) \<and> is_ready (ekn s') c \<and> group_of g s' = G\<lparr>group_bits := group_bits G AND NOT w\<rparr>
     else if n = 0 then r = Some (group_bits G) \<and> is_ready (ekn s') c \<and> group_of g s' = G
     else r = None \<and> \<not> is_ready (ekn s') c \<and> remaining (ekn s') c = wait_time n \<and> pendsv (ekn s') \<and>
       group_of g s' = G\<lparr>waiting := (waiting G)(c \<mapsto> req)\<rparr>)"
proof -
  define s0 where "s0 = s\<lparr>ekn := vTaskSuspendAll (ekn s)\<rparr>"
  have ok0: "kernel_ok idle T E (ekn s0)" unfolding s0_def by (simp add: suspend_all_result[OF ok _ cur(1,2)] un)
  have f0: "pxContainer (ekn s0) = pxContainer (ekn s)" "xItemValue (ekn s0) = xItemValue (ekn s)" "pxCurrentTCB (ekn s0) = Some c"
    "is_ready (ekn s0) = is_ready (ekn s)" "uxEventBits s0 = uxEventBits s" "uxSchedulerSuspended (ekn s0) = 1" "xPendedTicks (ekn s0) = 0"
    using cur(1) un ok by (simp_all add: s0_def vTaskSuspendAll_def is_ready_def fun_eq_iff kernel_ok_def susp_inv_def)
  have G0: "group_of h s0 = group_of h s" for h using group_of_same[of s0 s h] f0 by (simp add: group_of_def)
  have sus0: "uxSchedulerSuspended (ekn s0) + 1 \<noteq> 0" and rdy0: "is_ready (ekn s0) c" using f0(4,6) cur(2) by simp_all
  let ?v = "uxEventBits s g OR b"
  obtain s1 where s1: "xEventGroupSetBits g b s0 = Some s1" "kernel_ok idle T E (ekn s1)"
    "group_set b (group_of g s) (group_of g s1)" "\<forall>h. h \<noteq> g \<longrightarrow> group_of h s1 = group_of h s"
    "woke (satisfied_by ?v (group_of g s))
      (uxEventBits s g OR b OR eventUNBLOCKED_DUE_TO_BIT_SET OR taskEVENT_LIST_ITEM_VALUE_IN_USE) (ekn s0) (ekn s1)"
    using set_bits_effect[OF ok0 sus0 f0(3) rdy0 g, of b] unfolding G0 f0(5) by (elim exE conjE) (rule that)
  define W where "W = satisfied_by ?v (group_of g s)"
  have rdy1: "is_ready (ekn s1) t \<longleftrightarrow> t \<in> W \<or> is_ready (ekn s) t" for t using woke_ready[OF s1(5), of t] unfolding f0(4) W_def .
  have v1: "\<forall>t. t \<noteq> c \<longrightarrow> t \<notin> W \<longrightarrow> item_value (ekn s1) (xEventListItem t) = item_value (ekn s) (xEventListItem t)"
    using item_value_woke[OF s1(5)] f0(2) by (simp add: W_def)
  have c1: "pxCurrentTCB (ekn s1) = Some c" "is_ready (ekn s1) c" using s1(5) f0(3) rdy1 cur(2) by (simp_all add: woke_def)
  have st: "settled (ekn s1)"
    using s1(5) f0 ok un by (auto simp: settled_def woke_def pending_def kernel_ok_def susp_inv_def split: if_splits)
  have gb: "group_bits (group_of g s) = uxEventBits s g" "group_bits (group_of g s1) = uxEventBits s1 g" by (simp_all add: group_of_def)
  let ?req = "\<lparr>wanted = w, clear_on_exit = True, want_all = True\<rparr>"
  let ?k = "(ekn s1)\<lparr>uxSchedulerSuspended := 0, pendsv := pendsv (ekn s1) \<or> xYieldPending (ekn s1)\<rparr>"
  have q: "resume_and_yield False (ekn s1) = Some ?k" "kernel_ok idle T E ?k" using quiet_section[OF s1(2) st] by auto
  have rdyk: "is_ready ?k = is_ready (ekn s1)" by (simp add: fun_eq_iff is_ready_def)
  consider (met) "?v AND w = w" | (now) "?v AND w \<noteq> w" "n = 0" | (block) "?v AND w \<noteq> w" "n \<noteq> 0" by blast
  then show ?thesis
  proof cases
    case met
    define s' where "s' = (upd_bits g (\<lambda>b. b AND NOT w) s1)\<lparr>ekn := ?k\<rparr>"
    have run: "xEventGroupSync_enter g b w n s = Some (Some ?v, s')"
      using met q(1) s1(1) f0(5) by (simp add: xEventGroupSync_enter_def s0_def[symmetric] s'_def upd_bits_def)
    have "group_of h s' = (group_of h s1)\<lparr>group_bits := uxEventBits s' h\<rparr>" for h by (rule group_of_same) (simp_all add: s'_def)
    then have "group_of h s' = (if h = g then (group_of h s1)\<lparr>group_bits := uxEventBits s1 g AND NOT w\<rparr> else group_of h s1)" for h
      by (simp add: s'_def upd_bits_def group_of_def)
    then show ?thesis using run q(2) rdyk rdy1 c1 met s1(3,4) v1 unfolding gb rendezvous_iff Let_def W_def[symmetric]
      by (intro exI[of _ "Some ?v"] exI[of _ "group_of g s1"] exI[of _ s']) (simp add: s'_def gb(2))
  next
    case now
    define s' where "s' = s1\<lparr>ekn := ?k\<rparr>"
    have run: "xEventGroupSync_enter g b w n s = Some (Some (uxEventBits s1 g), s')"
      using now q(1) s1(1) f0(5) by (simp add: xEventGroupSync_enter_def s0_def[symmetric] s'_def)
    have "group_of h s' = group_of h s1" for h using group_of_same[of s' s1 h] by (simp add: s'_def group_of_def)
    then show ?thesis using run q(2) rdyk rdy1 c1 now s1(3,4) v1 unfolding gb rendezvous_iff Let_def W_def[symmetric]
      by (intro exI[of _ "Some (uxEventBits s1 g)"] exI[of _ "group_of g s1"] exI[of _ s']) (simp add: s'_def gb(2))
  next
    case block
    let ?x = "w OR eventCLEAR_EVENTS_ON_EXIT_BIT OR eventWAIT_FOR_ALL_BITS"
    obtain k1 k' where k': "vTaskPlaceOnUnorderedEventList (EventList g) ?x n (ekn s1) = Some k1" "resume_and_yield True k1 = Some k'"
      "kernel_ok idle T E k'" "pendsv k'" "waits c (wait_time n) ((ekn s1)\<lparr>uxSchedulerSuspended := 0\<rparr>) k'"
      "event_list k' = (event_list (ekn s1))(c := Some (EventList g))"
      "\<forall>t. item_value k' (xEventListItem t) = (if t = c then ?x OR taskEVENT_LIST_ITEM_VALUE_IN_USE else item_value (ekn s1) (xEventListItem t))"
      using block_section[OF s1(2) st c1 cur(3) g block(2), of ?x] by (elim exE conjE) (rule that)
    define s' where "s' = s1\<lparr>ekn := k'\<rparr>"
    have run: "xEventGroupSync_enter g b w n s = Some (None, s')"
      using block k'(1,2) s1(1) f0(5) by (simp add: xEventGroupSync_enter_def s0_def[symmetric] s'_def xTasksWaitingForBits_def)
    have ev: "event_list (ekn s1) c = None" using ready_no_event[OF _ c1(2), of T E] s1(2) by (simp add: kernel_ok_def core_inv_def)
    have "event_list (ekn s) c = None" using ready_no_event[OF _ cur(2), of T E] ok by (simp add: kernel_ok_def core_inv_def)
    then have cW: "\<forall>t\<in>W. t \<noteq> c" by (auto simp: W_def satisfied_by_def group_of_def)
    have el: "event_list (ekn s') = (event_list (ekn s1))(c := Some (EventList g))" using k'(6) by (simp add: s'_def)
    have vl: "\<forall>t. item_value (ekn s') (xEventListItem t) =
        (if t = c then ?x OR taskEVENT_LIST_ITEM_VALUE_IN_USE else item_value (ekn s1) (xEventListItem t))"
      using k'(7) by (simp add: s'_def)
    have sb: "uxEventBits s' = uxEventBits s1" by (simp add: s'_def)
    note H = group_of_block[OF el sb vl ev, unfolded request_of_sync[OF w]]
    have rk: "is_ready k' = (is_ready (ekn s1))(c := False)"
      using k'(5) by (simp add: waits_def) (simp add: fun_eq_iff is_ready_def)
    have "remaining k' c = wait_time n" "uxSchedulerSuspended k' = 0" using k'(5) by (simp_all add: waits_def)
    then show ?thesis using run k'(3,4) block H rk rdy1 cW s1(3,4) v1 vl unfolding gb rendezvous_iff Let_def W_def[symmetric]
      by (intro exI[of _ None] exI[of _ "group_of g s1"] exI[of _ s']) (simp add: s'_def)
  qed
qed

text \<open>The end of a wait: the value another task left in the item, or the bits of the group after a timeout.\<close>

lemma wait_leave_effect:
  assumes ok: "kernel_ok idle T E (ekn s)" and c: "pxCurrentTCB (ekn s) = Some c"
  shows "\<exists>k'. kernel_ok idle T E k' \<and> pxContainer k' = pxContainer (ekn s) \<and>
    (\<forall>t. t \<noteq> c \<longrightarrow> item_value k' (xEventListItem t) = item_value (ekn s) (xEventListItem t)) \<and>
    xEventGroupWaitBits_leave g w clr all s =
      (let v = item_value (ekn s) (xEventListItem c) in
       if bit v 25 then Some (v AND NOT eventEVENT_BITS_CONTROL_BYTES, s\<lparr>ekn := k'\<rparr>)
       else Some (uxEventBits s g AND NOT eventEVENT_BITS_CONTROL_BYTES,
         if clr \<and> prvTestWaitCondition (uxEventBits s g) w all
         then (upd_bits g (\<lambda>b. b AND NOT w) s)\<lparr>ekn := k'\<rparr> else s\<lparr>ekn := k'\<rparr>))"
proof -
  let ?k = "listSET_LIST_ITEM_VALUE (xEventListItem c) (of_nat configMAX_PRIORITIES - of_nat (uxPriority (ekn s) c)) (ekn s)"
  have f: "pxContainer ?k = pxContainer (ekn s)" "uxPriority ?k = uxPriority (ekn s)" "pxCurrentTCB ?k = pxCurrentTCB (ekn s)"
    "pendsv ?k = pendsv (ekn s)" "xYieldPending ?k = xYieldPending (ekn s)" "uxSchedulerSuspended ?k = uxSchedulerSuspended (ekn s)"
    "xPendedTicks ?k = xPendedTicks (ekn s)" by (simp_all add: listSET_LIST_ITEM_VALUE_def)
  have "kernel_ok idle T E ?k"
    using ok event_value_core[of idle T E "ekn s"] unfolding kernel_ok_def prio_inv_def run_inv_def susp_inv_def is_ready_def f by blast
  moreover have "\<forall>t. t \<noteq> c \<longrightarrow> item_value ?k (xEventListItem t) = item_value (ekn s) (xEventListItem t)"
    by (simp add: listSET_LIST_ITEM_VALUE_def)
  moreover have "xEventGroupWaitBits_leave g w clr all s =
      (let v = item_value (ekn s) (xEventListItem c) in
       if bit v 25 then Some (v AND NOT eventEVENT_BITS_CONTROL_BYTES, s\<lparr>ekn := ?k\<rparr>)
       else Some (uxEventBits s g AND NOT eventEVENT_BITS_CONTROL_BYTES,
         if clr \<and> prvTestWaitCondition (uxEventBits s g) w all
         then (upd_bits g (\<lambda>b. b AND NOT w) s)\<lparr>ekn := ?k\<rparr> else s\<lparr>ekn := ?k\<rparr>))"
    using c control_bits(3)[of "item_value (ekn s) (xEventListItem c)"]
    by (simp add: xEventGroupWaitBits_leave_def uxTaskResetEventItemValue_def listGET_LIST_ITEM_VALUE_def upd_bits_def Let_def)
  ultimately show ?thesis using f(1) by (intro exI[of _ ?k] conjI)
qed

lemma sync_leave_eq: "xEventGroupSync_leave g w s = xEventGroupWaitBits_leave g w True True s"
proof -
  have "prvTestWaitCondition v w True \<and> True \<longleftrightarrow> v AND w = w" for v by (simp add: prvTestWaitCondition_def)
  then show ?thesis unfolding xEventGroupSync_leave_def xEventGroupWaitBits_leave_def by presburger
qed

section \<open>A concrete group\<close>

lemma switch_values: "xPortPendSVHandler k = Some k' \<Longrightarrow> xItemValue k' = xItemValue k"
  by (auto simp: xPortPendSVHandler_def dest: values_switch)

lemma example_priorities:
  obtains k where "kernel_reach 0 {1, 0} {0} k" "pxCurrentTCB k = Some 1" "uxSchedulerSuspended k = 0" "\<not> pendsv k" "is_ready k 1"
    "uxPriority k 0 < uxPriority k 1"
proof -
  have b: "boots {} {0} (vListInitialise (EventList 0) reset_kernel)"
    using boots.list[OF boots_reset, of 0] by simp
  obtain k where k: "vTaskStartScheduler (Some 0) (Some 1) (vListInitialise (EventList 0) reset_kernel) = Some (True, k)"
    "kernel_ok 0 {1, 0} {0} k" "pxCurrentTCB k = Some 1" "uxSchedulerSuspended k = 0" "\<not> pendsv k"
    using start_result[OF b, of 0 1] by auto
  have "uxPriority k 0 = 0 \<and> uxPriority k 1 = configMAX_PRIORITIES - 1"
    using k(1) by (auto simp: vTaskStartScheduler_def configTIMER_TASK_PRIORITY_def split: bind_splits if_splits dest!: priority_create)
  moreover have "kernel_reach 0 {1, 0} {0} k" using kernel_reach.start[OF b, of 0 1 k] k(1) by simp
  moreover have "is_ready k 1" using k(2,3,5) by (simp add: kernel_ok_def run_inv_def)
  ultimately show thesis using that k by (simp add: configMAX_PRIORITIES_def)
qed

text \<open>A concrete group: task 1 waits for bit 0 of group 0 and clears it on exit, the idle task runs.\<close>

definition start_groups :: "kernel \<Rightarrow> ekernel" where
  "start_groups k = \<lparr>uxEventBits = (\<lambda>_. 0), ekn = k\<rparr>"

lemma example_group:
  obtains s where "kernel_ok 0 {1, 0} {0} (ekn s)" "pxCurrentTCB (ekn s) = Some 1" "uxSchedulerSuspended (ekn s) = 0" "is_ready (ekn s) 1"
    "group_of 0 s = \<lparr>group_bits = 0, waiting = Map.empty\<rparr>" "\<not> pendsv (ekn s)" "kernel_reach 0 {1, 0} {0} (ekn s)"
    "uxPriority (ekn s) 0 < uxPriority (ekn s) 1"
proof -
  obtain k where k: "kernel_reach 0 {1, 0} {0} k" "pxCurrentTCB k = Some 1" "uxSchedulerSuspended k = 0" "\<not> pendsv k" "is_ready k 1"
    "uxPriority k 0 < uxPriority k 1"
    using example_priorities by blast
  note ok = kernel_reach_ok[OF k(1)]
  define s where "s = start_groups k"
  have es: "ekn s = k" "uxEventBits s 0 = 0" by (simp_all add: s_def start_groups_def)
  have inv: "lists_inv {1, 0} {0} k" using ok by (simp add: kernel_ok_def core_inv_def)
  have "event_list k t = None" for t
  proof (cases "t \<in> {1, 0}")
    case True
    then have "is_ready k t" using k(5) ok by (auto simp: kernel_ok_def core_inv_def)
    then show ?thesis by (rule ready_no_event[OF inv])
  next
    case False
    then show ?thesis using lists_inv_owner(2)[OF inv, of "xEventListItem t" _ t] by (cases "event_list k t") auto
  qed
  then have G: "group_of 0 s = \<lparr>group_bits = 0, waiting = Map.empty\<rparr>" by (simp add: group_of_def es fun_eq_iff)
  then show thesis using that[of s] k ok es by simp
qed

lemma example_waiter:
  obtains s where "kernel_ok 0 {1, 0} {0} (ekn s)" "uxSchedulerSuspended (ekn s) = 0" "pxCurrentTCB (ekn s) = Some 0" "is_ready (ekn s) 0"
    "group_of 0 s = \<lparr>group_bits = 0, waiting = [1 \<mapsto> \<lparr>wanted = 1, clear_on_exit = True, want_all = True\<rparr>]\<rparr>" "\<not> is_ready (ekn s) 1"
    "uxPriority (ekn s) 0 < uxPriority (ekn s) 1" "\<not> pendsv (ekn s)"
proof -
  obtain s where s: "kernel_ok 0 {1, 0} {0} (ekn s)" "pxCurrentTCB (ekn s) = Some 1" "uxSchedulerSuspended (ekn s) = 0" "is_ready (ekn s) 1"
    "group_of 0 s = \<lparr>group_bits = 0, waiting = Map.empty\<rparr>" "uxPriority (ekn s) 0 < uxPriority (ekn s) 1"
    using example_group by blast
  let ?r = "\<lparr>wanted = 1, clear_on_exit = True, want_all = True\<rparr>"
  have ns: "\<not> satisfied 0 ?r" by (simp add: satisfied_word)
  obtain r s1 where s1: "kernel_ok 0 {1, 0} {0} (ekn s1)" "uxSchedulerSuspended (ekn s1) = 0" "waits 1 (wait_time 10) (ekn s) (ekn s1)"
    "group_of 0 s1 = \<lparr>group_bits = 0, waiting = [1 \<mapsto> ?r]\<rparr>"
    using wait_bits_effect[of 0 "{1, 0}" "{0}" s 1 0 1 True True 10] s ns by (auto simp: eventEVENT_BITS_CONTROL_BYTES_def)
  obtain c k2 where k2: "xPortPendSVHandler (ekn s1) = Some k2" "kernel_ok 0 {1, 0} {0} k2" "uxSchedulerSuspended k2 = 0" "c \<in> {1, 0}"
    "pxCurrentTCB k2 = Some c" "is_ready (ekn s1) c" "is_ready k2 = is_ready (ekn s1)" "pxContainer k2 = pxContainer (ekn s1)"
    "\<not> pendsv k2" "uxPriority k2 = uxPriority (ekn s1)"
    using switch_effect[OF s1(1,2)] by (elim exE conjE) (rule that)
  have nr: "\<not> is_ready (ekn s1) 1" using s1(3) by (simp add: waits_def)
  then have c: "c = 0" using k2(4,6) by auto
  define s2 where "s2 = s1\<lparr>ekn := k2\<rparr>"
  have "group_of 0 s2 = group_of 0 s1"
    using group_of_same[of s2 s1 0] k2(8) switch_values[OF k2(1)] by (simp add: s2_def group_of_def)
  then show thesis using that[of s2] k2 c nr s1(3,4) s(6) by (simp add: s2_def waits_def)
qed

section \<open>Properties\<close>

text \<open>
  C39. Waiting for bits refines the abstract group.  A call of xEventGroupWaitBits by the running task (not the idle
  task, the scheduler not suspended) returns: at once with the bits when they satisfy the request, and then the group
  loses the requested bits if the task asked to clear them and no task changes its state; at once with the bits and
  nothing changed when no block time is given; otherwise the task has become a waiter of the group with exactly its
  request, is blocked for its block time and a switch is requested.  Other groups keep their bits and waiters, other
  tasks the values of their event list items, and the invariant of the kernel holds.
\<close>
theorem event_wait_bits_refines:
  assumes ok: "kernel_ok idle T E (ekn s)" and un: "uxSchedulerSuspended (ekn s) = 0"
    and cur: "pxCurrentTCB (ekn s) = Some c" "is_ready (ekn s) c" "c \<noteq> idle" and g: "g \<in> E"
    and w: "w AND eventEVENT_BITS_CONTROL_BYTES = 0"
  shows "\<exists>r s'. xEventGroupWaitBits_enter g w clr all n s = Some (r, s') \<and> kernel_ok idle T E (ekn s') \<and>
    uxSchedulerSuspended (ekn s') = 0 \<and> (\<forall>h. h \<noteq> g \<longrightarrow> group_of h s' = group_of h s) \<and>
    (\<forall>t. t \<noteq> c \<longrightarrow> item_value (ekn s') (xEventListItem t) = item_value (ekn s) (xEventListItem t)) \<and>
    (let req = \<lparr>wanted = w, clear_on_exit = clr, want_all = all\<rparr>; G = group_of g s in
     if satisfied (group_bits G) req
     then r = Some (group_bits G) \<and> is_ready (ekn s') = is_ready (ekn s) \<and>
       group_of g s' = (if clr then G\<lparr>group_bits := group_bits G AND NOT w\<rparr> else G)
     else if n = 0 then r = Some (group_bits G) \<and> is_ready (ekn s') = is_ready (ekn s) \<and> group_of g s' = G
     else r = None \<and> waits c (wait_time n) (ekn s) (ekn s') \<and> pendsv (ekn s') \<and>
       group_of g s' = G\<lparr>waiting := (waiting G)(c \<mapsto> req)\<rparr>)"
  by (rule wait_bits_effect[OF assms])

theorem event_wait_bits_refines_witness:
  "\<exists>s s'. kernel_ok 0 {1, 0} {0} (ekn s) \<and> xEventGroupWaitBits_enter 0 1 True True 10 s = Some (None, s') \<and>
     waiting (group_of 0 s') = [1 \<mapsto> \<lparr>wanted = 1, clear_on_exit = True, want_all = True\<rparr>] \<and> \<not> is_ready (ekn s') 1"
proof -
  obtain s where s: "kernel_ok 0 {1, 0} {0} (ekn s)" "pxCurrentTCB (ekn s) = Some 1" "uxSchedulerSuspended (ekn s) = 0" "is_ready (ekn s) 1"
    "group_of 0 s = \<lparr>group_bits = 0, waiting = Map.empty\<rparr>" using example_group by blast
  have "\<not> satisfied 0 \<lparr>wanted = 1, clear_on_exit = True, want_all = True\<rparr>" by (simp add: satisfied_word)
  then show ?thesis using event_wait_bits_refines[of 0 "{1, 0}" "{0}" s 1 0 1 True True 10] s
    by (auto simp: eventEVENT_BITS_CONTROL_BYTES_def waits_def)
qed



text \<open>
  C40. A rendezvous refines the abstract group.  A call of xEventGroupSync by the running task (not the idle task, the
  scheduler not suspended) first sets its bits, and wakes every waiter these satisfy.  When all the bits of the
  rendezvous are then set it returns them at once, and they are cleared, also when no other task had waited for them.
  Otherwise it returns what is left of the bits when no block time is given, or has become a waiter of the group for
  all bits of the rendezvous that clears them on exit, is blocked for its block time and a switch is requested.
  Other groups keep their bits and waiters, no other task that is not woken has its event list item changed, and the
  invariant of the kernel holds.
\<close>
theorem event_sync_refines:
  assumes ok: "kernel_ok idle T E (ekn s)" and un: "uxSchedulerSuspended (ekn s) = 0"
    and cur: "pxCurrentTCB (ekn s) = Some c" "is_ready (ekn s) c" "c \<noteq> idle" and g: "g \<in> E"
    and w: "w AND eventEVENT_BITS_CONTROL_BYTES = 0"
  shows "\<exists>r G s'. xEventGroupSync_enter g b w n s = Some (r, s') \<and> kernel_ok idle T E (ekn s') \<and>
    uxSchedulerSuspended (ekn s') = 0 \<and> (\<forall>h. h \<noteq> g \<longrightarrow> group_of h s' = group_of h s) \<and>
    group_set b (group_of g s) G \<and>
    (\<forall>t. t \<noteq> c \<longrightarrow> t \<notin> satisfied_by (group_bits (group_of g s) OR b) (group_of g s) \<longrightarrow>
       item_value (ekn s') (xEventListItem t) = item_value (ekn s) (xEventListItem t)) \<and>
    (\<forall>t\<in>satisfied_by (group_bits (group_of g s) OR b) (group_of g s). is_ready (ekn s') t) \<and>
    (let req = \<lparr>wanted = w, clear_on_exit = True, want_all = True\<rparr> in
     if satisfied (group_bits (group_of g s) OR b) req
     then r = Some (group_bits (group_of g s) OR b) \<and> is_ready (ekn s') c \<and> group_of g s' = G\<lparr>group_bits := group_bits G AND NOT w\<rparr>
     else if n = 0 then r = Some (group_bits G) \<and> is_ready (ekn s') c \<and> group_of g s' = G
     else r = None \<and> \<not> is_ready (ekn s') c \<and> remaining (ekn s') c = wait_time n \<and> pendsv (ekn s') \<and>
       group_of g s' = G\<lparr>waiting := (waiting G)(c \<mapsto> req)\<rparr>)"
  by (rule sync_effect[OF assms])

theorem event_sync_refines_witness:
  "\<exists>s s'. group_of 0 s = \<lparr>group_bits = 0, waiting = Map.empty\<rparr> \<and> xEventGroupSync_enter 0 1 1 0 s = Some (Some 1, s') \<and>
     group_bits (group_of 0 s') = 0"
proof -
  obtain s where s: "kernel_ok 0 {1, 0} {0} (ekn s)" "pxCurrentTCB (ekn s) = Some 1" "uxSchedulerSuspended (ekn s) = 0" "is_ready (ekn s) 1"
    "group_of 0 s = \<lparr>group_bits = 0, waiting = Map.empty\<rparr>" "\<not> pendsv (ekn s)" "kernel_reach 0 {1, 0} {0} (ekn s)"
    "uxPriority (ekn s) 0 < uxPriority (ekn s) 1" by (rule example_group)
  have g: "(1 :: nat) \<noteq> 0" "0 \<in> {0 :: nat}" "(1 :: 32 word) AND eventEVENT_BITS_CONTROL_BYTES = 0"
    by (simp_all add: eventEVENT_BITS_CONTROL_BYTES_def)
  have sat: "satisfied 1 \<lparr>wanted = 1, clear_on_exit = True, want_all = True\<rparr>" by (simp add: satisfied_word)
  obtain G s' where x: "xEventGroupSync_enter 0 1 1 0 s = Some (Some 1, s')" "group_set 1 (group_of 0 s) G"
    "group_of 0 s' = G\<lparr>group_bits := group_bits G AND NOT 1\<rparr>"
    using event_sync_refines[OF s(1,3,2,4) g, of 1 0] sat by (auto simp: s(5) Let_def)
  have "bit (group_bits G) n \<longleftrightarrow> bit (1 :: 32 word) n" for n using x(2) by (simp add: s(5) group_set_def)
  then have "group_bits G = 1" by (intro bit_word_eqI) blast
  then show ?thesis using s(5) x(1,3) by (intro exI[of _ s] exI[of _ s'] conjI) simp_all
qed

text \<open>
  Deleting a group wakes every waiter.  With the scheduler not suspended, a call of vEventGroupDelete by the running
  task returns with no task left in the group: each waiter is ready and finds a value without event bits in its
  item, so its call returns 0, bits and waiters of other groups are the same and the invariant of the kernel holds.
\<close>
theorem event_delete_wakes_all:
  assumes ok: "kernel_ok idle T E (ekn s)" and un: "uxSchedulerSuspended (ekn s) = 0"
    and cur: "pxCurrentTCB (ekn s) = Some c" "is_ready (ekn s) c" and g: "g \<in> E"
  shows "\<exists>s'. vEventGroupDelete g s = Some s' \<and> kernel_ok idle T E (ekn s') \<and>
    waiting (group_of g s') = Map.empty \<and> (\<forall>h. h \<noteq> g \<longrightarrow> group_of h s' = group_of h s) \<and>
    (\<forall>t. is_ready (ekn s') t \<longleftrightarrow> is_ready (ekn s) t \<or> t \<in> dom (waiting (group_of g s))) \<and>
    (\<forall>t\<in>dom (waiting (group_of g s)). \<forall>u w clr all. pxCurrentTCB (ekn u) = Some t \<and>
       item_value (ekn u) (xEventListItem t) = item_value (ekn s') (xEventListItem t) \<longrightarrow>
       map_option fst (xEventGroupWaitBits_leave g w clr all u) = Some 0)"
proof -
  let ?W = "dom (waiting (group_of g s))" and ?v = "eventUNBLOCKED_DUE_TO_BIT_SET OR taskEVENT_LIST_ITEM_VALUE_IN_USE"
  have sus: "uxSchedulerSuspended (ekn s) + 1 \<noteq> 0" using un by simp
  obtain k' where k': "vEventGroupDelete g s = Some (s\<lparr>ekn := k'\<rparr>)" "kernel_ok idle T E k'" "woke ?W ?v (ekn s) k'"
    using delete_effect[OF ok sus cur g] by (elim exE conjE) (rule that)
  have wk: "woke ?W ?v (ekn s) (ekn (s\<lparr>ekn := k'\<rparr>))" using k'(3) by simp
  have in_g: "event_list (ekn s) t = Some (EventList g)" if "t \<in> ?W" for t
    using that by (auto simp: group_of_def split: if_splits)
  note wt = group_of_woke[OF wk in_g]
  have e: "waiting (group_of g (s\<lparr>ekn := k'\<rparr>)) = Map.empty" 
    by (rule trans[OF wt(1)]) (auto simp: restrict_map_def fun_eq_iff dom_def)
  have o: "group_of h (s\<lparr>ekn := k'\<rparr>) = group_of h s" if "h \<noteq> g" for h using wt(2)[OF _ that] that by (simp add: group_of_def)
  have l: "map_option fst (xEventGroupWaitBits_leave g w clr all u) = Some 0"
    if "t \<in> ?W" "pxCurrentTCB (ekn u) = Some t" "item_value (ekn u) (xEventListItem t) = item_value k' (xEventListItem t)" for t u w clr all
  proof -
    have "item_value (ekn u) (xEventListItem t) = ?v" using item_value_woke[OF k'(3), of t] that(1,3) by simp
    then show ?thesis using that(2)
      by (simp add: xEventGroupWaitBits_leave_def uxTaskResetEventItemValue_def listGET_LIST_ITEM_VALUE_def eventUNBLOCKED_DUE_TO_BIT_SET_def
          taskEVENT_LIST_ITEM_VALUE_IN_USE_def eventEVENT_BITS_CONTROL_BYTES_def Let_def)
  qed
  show ?thesis using k'(1,2) e o l woke_ready[OF k'(3)] by (intro exI[of _ "s\<lparr>ekn := k'\<rparr>"]) auto
qed

theorem event_delete_wakes_all_witness:
  "\<exists>s s'. waiting (group_of 0 s) 1 \<noteq> None \<and> \<not> is_ready (ekn s) 1 \<and> vEventGroupDelete 0 s = Some s' \<and> is_ready (ekn s') 1"
proof -
  obtain s where s: "kernel_ok 0 {1, 0} {0} (ekn s)" "uxSchedulerSuspended (ekn s) = 0" "pxCurrentTCB (ekn s) = Some 0" "is_ready (ekn s) 0"
    "group_of 0 s = \<lparr>group_bits = 0, waiting = [1 \<mapsto> \<lparr>wanted = 1, clear_on_exit = True, want_all = True\<rparr>]\<rparr>" "\<not> is_ready (ekn s) 1"
    using example_waiter by blast
  obtain s' where "vEventGroupDelete 0 s = Some s'" "is_ready (ekn s') 1"
    using event_delete_wakes_all[OF s(1-4), of 0] s(5) by (auto simp del: One_nat_def)
  then show ?thesis using s(5,6) by (intro exI[of _ s] exI[of _ s'] conjI) simp_all
qed

end
