(* ===== verification/FREventSys.thy ===== *)
theory FREventSys
  imports FREventGroup FRCalm
begin

text \<open>
  Histories of event groups: every interleaving of calls of the kernel and of event groups keeps the invariant of the
  kernel and returns, no call touches a group after its deletion, and the bits a waiter was woken with are the bits its
  call returns, whatever other tasks do before it runs.
\<close>

section \<open>Histories\<close>

text \<open>The calls of the kernel, and of event groups by the running task; setting, waiting, synchronising and deleting
  have a second part that runs after the scheduler was resumed.\<close>

datatype ecall = Kernel kcall | CreateGroup nat | SetBits nat EventBits_t | SetReturn nat | ClearBits nat EventBits_t
  | WaitEnter nat EventBits_t bool bool "32 word" | WaitLeave nat EventBits_t bool bool
  | SyncEnter nat EventBits_t EventBits_t "32 word" | SyncLeave nat EventBits_t | DeleteGroup nat | FreeGroup nat

text \<open>Bits were set for a waiter, or its group was deleted: it is on no event list and its item says so.\<close>

definition told :: "nat \<Rightarrow> ekernel \<Rightarrow> bool" where
  "told t s \<longleftrightarrow> (\<forall>e. event_list (ekn s) t \<noteq> Some (EventList e)) \<and>
     bit (item_value (ekn s) (xEventListItem t)) 31 \<and> bit (item_value (ekn s) (xEventListItem t)) 25"

text \<open>
  Whether the end of a wait reads the bits of the group: it does when its task was not woken by one who set bits.
\<close>

definition reads_group :: "ekernel \<Rightarrow> bool" where
  "reads_group s \<longleftrightarrow> (case pxCurrentTCB (ekn s) of None \<Rightarrow> True
     | Some c \<Rightarrow> item_value (ekn s) (xEventListItem c) AND eventUNBLOCKED_DUE_TO_BIT_SET = 0)"

text \<open>The effect of a call when the groups \<open>E\<close> exist; an access to another group is None.\<close>

fun eperform :: "nat set \<Rightarrow> ecall \<Rightarrow> ekernel \<Rightarrow> ekernel option" where
  "eperform E (Kernel a) s = map_option (\<lambda>k. s\<lparr>ekn := k\<rparr>) (perform a (ekn s))"
| "eperform E (CreateGroup g) s = Some (snd (xEventGroupCreate (Some g) s))"
| "eperform E (SetBits g b) s = (if g \<in> E then xEventGroupSetBits g b s else None)"
| "eperform E (SetReturn g) s = (if g \<in> E then Some s else None)"
| "eperform E (ClearBits g b) s = (if g \<in> E then Some (snd (xEventGroupClearBits g b s)) else None)"
| "eperform E (WaitEnter g w clr all n) s =
     (if g \<in> E then map_option snd (xEventGroupWaitBits_enter g w clr all n s) else None)"
| "eperform E (WaitLeave g w clr all) s =
     (if g \<in> E \<or> \<not> reads_group s then map_option snd (xEventGroupWaitBits_leave g w clr all s) else None)"
| "eperform E (SyncEnter g b w n) s = (if g \<in> E then map_option snd (xEventGroupSync_enter g b w n s) else None)"
| "eperform E (SyncLeave g w) s =
     (if g \<in> E \<or> \<not> reads_group s then map_option snd (xEventGroupSync_leave g w s) else None)"
| "eperform E (DeleteGroup g) s = (if g \<in> E then vEventGroupDelete g s else None)"
| "eperform E (FreeGroup g) s = (if g \<in> E then Some s else None)"

text \<open>
  What the callers respect: the assertions of \<open>event_groups.c\<close>, existing groups, and no wait of the idle task.  That the
  list of a group is empty when its memory is released is no obligation: in the histories below it is always so (\<open>calls_ok\<close>).
\<close>

fun eguard :: "nat \<Rightarrow> nat set \<Rightarrow> nat set \<Rightarrow> ecall \<Rightarrow> kernel \<Rightarrow> bool" where
  "eguard idle T E (Kernel a) k = allowed idle T E a k"
| "eguard idle T E (CreateGroup g) k = (\<not> pendsv k \<and> g \<notin> E)"
| "eguard idle T E (SetBits g b) k = (\<not> pendsv k \<and> g \<in> E \<and> uxSchedulerSuspended k + 1 \<noteq> 0)"
| "eguard idle T E (SetReturn g) k = (\<not> pendsv k)"
| "eguard idle T E (ClearBits g b) k = (\<not> pendsv k \<and> g \<in> E)"
| "eguard idle T E (WaitEnter g w clr all n) k = (\<not> pendsv k \<and> g \<in> E \<and> may_block idle k \<and> w AND eventEVENT_BITS_CONTROL_BYTES = 0)"
| "eguard idle T E (WaitLeave g w clr all) k = (\<not> pendsv k)"
| "eguard idle T E (SyncEnter g b w n) k = (\<not> pendsv k \<and> g \<in> E \<and> may_block idle k \<and> w AND eventEVENT_BITS_CONTROL_BYTES = 0)"
| "eguard idle T E (SyncLeave g w) k = (\<not> pendsv k)"
| "eguard idle T E (DeleteGroup g) k = (\<not> pendsv k \<and> g \<in> E \<and> uxSchedulerSuspended k + 1 \<noteq> 0)"
| "eguard idle T E (FreeGroup g) k = (\<not> pendsv k \<and> (\<forall>t. event_list k t \<noteq> Some (EventList g)))"

fun etasks_after :: "ecall \<Rightarrow> nat set \<Rightarrow> kernel \<Rightarrow> nat set" where
  "etasks_after (Kernel a) T k = tasks_after a T k"
| "etasks_after _ T k = T"

fun egroups_after :: "ecall \<Rightarrow> nat set \<Rightarrow> nat set" where
  "egroups_after (Kernel a) E = lists_after a E"
| "egroups_after (CreateGroup g) E = insert g E"
| "egroups_after (FreeGroup g) E = E - {g}"
| "egroups_after _ E = E"

section \<open>Calls in progress\<close>

text \<open>The call of event groups a task is inside of: between its two parts.\<close>

datatype epoint = In_set nat | In_wait nat | In_delete nat

fun point_group :: "epoint \<Rightarrow> nat" where
  "point_group (In_set g) = g"
| "point_group (In_wait g) = g"
| "point_group (In_delete g) = g"

definition in_call :: "(nat \<Rightarrow> epoint option) \<Rightarrow> ekernel \<Rightarrow> epoint option" where
  "in_call W s = (case pxCurrentTCB (ekn s) of None \<Rightarrow> None | Some c \<Rightarrow> W c)"

definition deleting :: "nat \<Rightarrow> (nat \<Rightarrow> epoint option) \<Rightarrow> bool" where
  "deleting g W \<longleftrightarrow> (\<exists>c. W c = Some (In_delete g))"

fun by_task :: "ecall \<Rightarrow> bool" where
  "by_task (Kernel a) \<longleftrightarrow> from_task a"
| "by_task _ \<longleftrightarrow> True"

text \<open>
  A task makes one call at a time, nobody uses a group whose deletion has begun, and the deletion of a group does not
  begin while the call of a task on it still needs the group: every such call is a wait whose task is on the list
  of the group, or was woken by one who set bits (and not by its time-out, or by being suspended).
\<close>

fun eorder :: "(nat \<Rightarrow> epoint option) \<Rightarrow> ecall \<Rightarrow> ekernel \<Rightarrow> bool" where
  "eorder W (Kernel a) s \<longleftrightarrow> (from_task a \<longrightarrow> in_call W s = None) \<and> (\<forall>g n. a = Wait g n \<longrightarrow> \<not> deleting g W)"
| "eorder W (CreateGroup g) s \<longleftrightarrow> in_call W s = None"
| "eorder W (SetBits g b) s \<longleftrightarrow> in_call W s = None \<and> \<not> deleting g W"
| "eorder W (SetReturn g) s \<longleftrightarrow> in_call W s = Some (In_set g)"
| "eorder W (ClearBits g b) s \<longleftrightarrow> in_call W s = None \<and> \<not> deleting g W"
| "eorder W (WaitEnter g w clr all n) s \<longleftrightarrow> in_call W s = None \<and> \<not> deleting g W"
| "eorder W (WaitLeave g w clr all) s \<longleftrightarrow> in_call W s = Some (In_wait g)"
| "eorder W (SyncEnter g b w n) s \<longleftrightarrow> in_call W s = None \<and> \<not> deleting g W"
| "eorder W (SyncLeave g w) s \<longleftrightarrow> in_call W s = Some (In_wait g)"
| "eorder W (DeleteGroup g) s \<longleftrightarrow> in_call W s = None \<and>
     (\<forall>t p. W t = Some p \<and> point_group p = g \<longrightarrow> p = In_wait g \<and> (event_list (ekn s) t = Some (EventList g) \<or> told t s))"
| "eorder W (FreeGroup g) s \<longleftrightarrow> in_call W s = Some (In_delete g)"

definition in_wait :: "nat \<Rightarrow> (EventBits_t option \<times> ekernel) option \<Rightarrow> epoint option" where
  "in_wait g r = (case r of Some (None, _) \<Rightarrow> Some (In_wait g) | _ \<Rightarrow> None)"

text \<open>Where the running task is after its part of a call; tasks that are deleted make no calls.\<close>

fun point_after :: "ecall \<Rightarrow> ekernel \<Rightarrow> epoint option" where
  "point_after (SetBits g b) s = Some (In_set g)"
| "point_after (WaitEnter g w clr all n) s = in_wait g (xEventGroupWaitBits_enter g w clr all n s)"
| "point_after (SyncEnter g b w n) s = in_wait g (xEventGroupSync_enter g b w n s)"
| "point_after (DeleteGroup g) s = Some (In_delete g)"
| "point_after _ s = None"

definition calls_after :: "ecall \<Rightarrow> nat set \<Rightarrow> (nat \<Rightarrow> epoint option) \<Rightarrow> ekernel \<Rightarrow> nat \<Rightarrow> epoint option" where
  "calls_after a T W s t =
     (if t \<notin> etasks_after a T (ekn s) then None
      else if by_task a \<and> pxCurrentTCB (ekn s) = Some t then point_after a s else W t)"

inductive event_reach :: "nat \<Rightarrow> nat set \<Rightarrow> nat set \<Rightarrow> (nat \<Rightarrow> epoint option) \<Rightarrow> ekernel \<Rightarrow> bool" for idle where
  start: "kernel_reach idle T E (ekn s) \<Longrightarrow> event_reach idle T E Map.empty s"
| step: "event_reach idle T E W s \<Longrightarrow> eguard idle T E a (ekn s) \<Longrightarrow> eorder W a s \<Longrightarrow> eperform E a s = Some s' \<Longrightarrow>
    event_reach idle (etasks_after a T (ekn s)) (egroups_after a E) (calls_after a T W s) s'"

text \<open>What holds of the calls in progress: each finds the group it will still touch.\<close>

definition calls_ok :: "nat set \<Rightarrow> nat set \<Rightarrow> (nat \<Rightarrow> epoint option) \<Rightarrow> ekernel \<Rightarrow> bool" where
  "calls_ok T E W s \<longleftrightarrow> (\<forall>t. W t \<noteq> None \<longrightarrow> t \<in> T) \<and>
     (\<forall>t g. W t = Some (In_set g) \<longrightarrow> g \<in> E) \<and>
     (\<forall>t g. W t = Some (In_wait g) \<longrightarrow> g \<in> E \<or> told t s) \<and>
     (\<forall>c g. W c = Some (In_delete g) \<longrightarrow> g \<in> E \<and> (\<forall>t. event_list (ekn s) t \<noteq> Some (EventList g)) \<and>
        (\<forall>t. W t \<noteq> Some (In_set g)) \<and> (\<forall>t. W t = Some (In_wait g) \<longrightarrow> told t s) \<and>
        (\<forall>t. W t = Some (In_delete g) \<longrightarrow> t = c))"

text \<open>The end of the wait of a told task does not touch the group: it neither depends on the bits nor changes them.\<close>

lemma reads_group_leave:
  assumes "\<not> reads_group s"
  shows "xEventGroupWaitBits_leave g w clr all (s\<lparr>uxEventBits := f\<rparr>) =
      map_option (\<lambda>(r, s'). (r, s'\<lparr>uxEventBits := f\<rparr>)) (xEventGroupWaitBits_leave g w clr all s)"
    and "xEventGroupSync_leave g w (s\<lparr>uxEventBits := f\<rparr>) =
      map_option (\<lambda>(r, s'). (r, s'\<lparr>uxEventBits := f\<rparr>)) (xEventGroupSync_leave g w s)"
  using assms
  by (auto simp: reads_group_def xEventGroupWaitBits_leave_def xEventGroupSync_leave_def uxTaskResetEventItemValue_def
      listGET_LIST_ITEM_VALUE_def Let_def split: option.splits)

lemma told_reads:
  assumes "pxCurrentTCB (ekn s) = Some t" "told t s"
  shows "\<not> reads_group s"
proof
  assume "reads_group s"
  then have "item_value (ekn s) (xEventListItem t) AND eventUNBLOCKED_DUE_TO_BIT_SET = 0" using assms(1) by (simp add: reads_group_def)
  then have "\<not> bit (item_value (ekn s) (xEventListItem t) AND eventUNBLOCKED_DUE_TO_BIT_SET) 25" by simp
  then show False using assms(2) by (simp add: told_def bit_and_iff eventUNBLOCKED_DUE_TO_BIT_SET_def)
qed

text \<open>The memory of a deleted group, on whose list no task is left, can be reused.\<close>

lemma kernel_ok_drop:
  assumes ok: "kernel_ok idle T E k" and no: "\<And>i. pxContainer k i \<noteq> Some (EventList g)"
  shows "kernel_ok idle T (E - {g}) k"
proof -
  have inv: "lists_inv T E k" using ok by (simp add: kernel_ok_def core_inv_def)
  have "live (E - {g}) \<subseteq> live E" by (auto simp: live_def)
  moreover have "l \<in> live (E - {g})" if "pxContainer k i = Some l" for i l
    using lists_inv_owner(3)[OF inv that] that no[of i] by (auto simp: live_def)
  ultimately have "lists_inv T (E - {g}) k" using inv unfolding lists_inv_def wf_lists_def by blast
  then show ?thesis using ok by (simp add: kernel_ok_def core_inv_def)
qed

lemma group_empty:
  assumes inv: "lists_inv T E k" and e: "\<forall>t. event_list k t \<noteq> Some (EventList g)"
  shows "pxContainer k i \<noteq> Some (EventList g)"
  using lists_invD(2)[OF inv, of i "EventList g"] e by auto

text \<open>The groups a call touches exist.\<close>

definition finds :: "nat set \<Rightarrow> ecall \<Rightarrow> ekernel \<Rightarrow> bool" where
  "finds E a s \<longleftrightarrow> (case a of SetReturn g \<Rightarrow> g \<in> E | FreeGroup g \<Rightarrow> g \<in> E
     | WaitLeave g w clr all \<Rightarrow> g \<in> E \<or> \<not> reads_group s | SyncLeave g w \<Rightarrow> g \<in> E \<or> \<not> reads_group s | _ \<Rightarrow> True)"

lemma eperform_finds: "eguard idle T E a k \<Longrightarrow> eperform E a s = Some s' \<Longrightarrow> finds E a s"
  by (cases a) (auto simp: finds_def split: if_splits)

lemma eperform_ok:
  assumes ok: "kernel_ok idle T E (ekn s)" and a: "eguard idle T E a (ekn s)" "finds E a s"
  shows "\<exists>s'. eperform E a s = Some s' \<and> kernel_ok idle (etasks_after a T (ekn s)) (egroups_after a E) (ekn s')"
proof -
  obtain c where c: "c \<in> T" "pxCurrentTCB (ekn s) = Some c" "\<not> pendsv (ekn s) \<or> uxSchedulerSuspended (ekn s) \<noteq> 0 \<Longrightarrow> is_ready (ekn s) c"
    using current[OF ok] by blast
  have inv: "lists_inv T E (ekn s)" using ok by (simp add: kernel_ok_def core_inv_def)
  show ?thesis
  proof (cases a)
    case (Kernel b)
    then show ?thesis using perform_ok[OF ok, of b] a by auto
  next
    case (CreateGroup g)
    have "allowed idle T E (NewList g) (ekn s)" using a CreateGroup by (simp add: allowed_def)
    from perform_ok[OF ok this] show ?thesis using CreateGroup
      by (simp add: xEventGroupCreate_def xTasksWaitingForBits_def)
  next
    case (SetBits g b)
    then show ?thesis using set_bits_effect[OF ok _ c(2) c(3), of g b] a by auto
  next
    case (ClearBits g b)
    then show ?thesis using ok a by (simp add: xEventGroupClearBits_def upd_bits_def)
  next
    case (WaitEnter g w clr all n)
    have "uxSchedulerSuspended (ekn s) = 0" "c \<noteq> idle" "is_ready (ekn s) c" "g \<in> E" "w AND eventEVENT_BITS_CONTROL_BYTES = 0"
      using a WaitEnter c(2,3) by (simp_all add: may_block_def)
    from wait_bits_effect[OF ok this(1) c(2) this(3,2,4,5), of clr all n] show ?thesis using WaitEnter a by auto
  next
    case (WaitLeave g w clr all)
    obtain k' where "kernel_ok idle T E k'" "\<exists>r f. xEventGroupWaitBits_leave g w clr all s = Some (r, f\<lparr>ekn := k'\<rparr>)"
      using wait_leave_effect[OF ok c(2), of g w clr all] by (auto simp: Let_def split: if_splits)
    then show ?thesis using WaitLeave a(2) by (auto simp: finds_def)
  next
    case (SyncEnter g b w n)
    have "uxSchedulerSuspended (ekn s) = 0" "c \<noteq> idle" "is_ready (ekn s) c" "g \<in> E" "w AND eventEVENT_BITS_CONTROL_BYTES = 0"
      using a SyncEnter c(2,3) by (simp_all add: may_block_def)
    from sync_effect[OF ok this(1) c(2) this(3,2,4,5), of b n] show ?thesis using SyncEnter a by auto
  next
    case (SyncLeave g w)
    obtain k' where "kernel_ok idle T E k'" "\<exists>r f. xEventGroupWaitBits_leave g w True True s = Some (r, f\<lparr>ekn := k'\<rparr>)"
      using wait_leave_effect[OF ok c(2), of g w True True] by (auto simp: Let_def split: if_splits)
    then show ?thesis using SyncLeave a(2) by (auto simp: sync_leave_eq finds_def)
  next
    case (DeleteGroup g)
    have g: "uxSchedulerSuspended (ekn s) + 1 \<noteq> 0" "is_ready (ekn s) c" "g \<in> E" using a DeleteGroup c(3) by simp_all
    obtain k' where k': "vEventGroupDelete g s = Some (s\<lparr>ekn := k'\<rparr>)" "kernel_ok idle T E k'"
      using delete_effect[OF ok g(1) c(2) g(2,3)] by blast
    then show ?thesis using DeleteGroup g(3) by simp
  next
    case (FreeGroup g)
    have "kernel_ok idle T (E - {g}) (ekn s)" using kernel_ok_drop[OF ok] group_empty[OF inv] a FreeGroup by simp
    then show ?thesis using FreeGroup a(2) by (simp add: finds_def)
  qed (use ok a in \<open>simp add: finds_def\<close>)
qed

section \<open>What a step leaves of a woken task\<close>

text \<open>The value in the item of a task that waits on no list is kept.\<close>

definition keeps :: "nat \<Rightarrow> ekernel \<Rightarrow> ekernel \<Rightarrow> bool" where
  "keeps t s s' \<longleftrightarrow> item_value (ekn s') (xEventListItem t) = item_value (ekn s) (xEventListItem t) \<and>
     (\<forall>e. event_list (ekn s') t \<noteq> Some (EventList e))"

lemma not_waiting: "(\<forall>e. event_list (ekn s) t \<noteq> Some (EventList e)) \<longleftrightarrow> (\<forall>e. waiting (group_of e s) t = None)"
  by (auto simp: group_of_def)

lemma keeps_woke:
  assumes "woke W v (ekn s) (ekn s')" "t \<notin> W" "\<forall>e. event_list (ekn s) t \<noteq> Some (EventList e)"
  shows "keeps t s s'"
  using assms item_value_woke[OF assms(1), of t] by (simp add: keeps_def woke_def)

lemma wait_bits_others:
  assumes ok: "kernel_ok idle T E (ekn s)" and un: "uxSchedulerSuspended (ekn s) = 0"
    and cur: "pxCurrentTCB (ekn s) = Some c" "is_ready (ekn s) c" "c \<noteq> idle" and g: "g \<in> E"
    and w: "w AND eventEVENT_BITS_CONTROL_BYTES = 0" and run: "xEventGroupWaitBits_enter g w clr all n s = Some (r, s')" and t: "t \<noteq> c"
  shows "waiting (group_of e s') t = waiting (group_of e s) t \<and> item_value (ekn s') (xEventListItem t) = item_value (ekn s) (xEventListItem t)"
proof -
  obtain q x where x: "xEventGroupWaitBits_enter g w clr all n s = Some (q, x)" "\<forall>h. h \<noteq> g \<longrightarrow> group_of h x = group_of h s"
    "\<forall>t. t \<noteq> c \<longrightarrow> item_value (ekn x) (xEventListItem t) = item_value (ekn s) (xEventListItem t)"
    "let req = \<lparr>wanted = w, clear_on_exit = clr, want_all = all\<rparr>; G = group_of g s in
     if satisfied (group_bits G) req
     then q = Some (group_bits G) \<and> is_ready (ekn x) = is_ready (ekn s) \<and>
       group_of g x = (if clr then G\<lparr>group_bits := group_bits G AND NOT w\<rparr> else G)
     else if n = 0 then q = Some (group_bits G) \<and> is_ready (ekn x) = is_ready (ekn s) \<and> group_of g x = G
     else q = None \<and> waits c (wait_time n) (ekn s) (ekn x) \<and> pendsv (ekn x) \<and>
       group_of g x = G\<lparr>waiting := (waiting G)(c \<mapsto> req)\<rparr>"
    using wait_bits_effect[OF ok un cur g w, of clr all n] by (elim exE conjE) (rule that)
  have "waiting (group_of g x) t = waiting (group_of g s) t" using x(4) t by (auto simp: Let_def split: if_splits)
  moreover have "x = s'" using x(1) run by simp
  ultimately show ?thesis using x(2,3) t by (cases "e = g") simp_all
qed

lemma sync_others:
  assumes ok: "kernel_ok idle T E (ekn s)" and un: "uxSchedulerSuspended (ekn s) = 0"
    and cur: "pxCurrentTCB (ekn s) = Some c" "is_ready (ekn s) c" "c \<noteq> idle" and g: "g \<in> E"
    and w: "w AND eventEVENT_BITS_CONTROL_BYTES = 0" and run: "xEventGroupSync_enter g b w n s = Some (r, s')"
    and t: "t \<noteq> c" "\<forall>e. waiting (group_of e s) t = None"
  shows "waiting (group_of e s') t = None \<and> item_value (ekn s') (xEventListItem t) = item_value (ekn s) (xEventListItem t)"
proof -
  obtain q G x where x: "xEventGroupSync_enter g b w n s = Some (q, x)" "\<forall>h. h \<noteq> g \<longrightarrow> group_of h x = group_of h s"
    "group_set b (group_of g s) G"
    "\<forall>t. t \<noteq> c \<longrightarrow> t \<notin> satisfied_by (group_bits (group_of g s) OR b) (group_of g s) \<longrightarrow>
       item_value (ekn x) (xEventListItem t) = item_value (ekn s) (xEventListItem t)"
    "let req = \<lparr>wanted = w, clear_on_exit = True, want_all = True\<rparr> in
     if satisfied (group_bits (group_of g s) OR b) req
     then q = Some (group_bits (group_of g s) OR b) \<and> is_ready (ekn x) c \<and> group_of g x = G\<lparr>group_bits := group_bits G AND NOT w\<rparr>
     else if n = 0 then q = Some (group_bits G) \<and> is_ready (ekn x) c \<and> group_of g x = G
     else q = None \<and> \<not> is_ready (ekn x) c \<and> remaining (ekn x) c = wait_time n \<and> pendsv (ekn x) \<and>
       group_of g x = G\<lparr>waiting := (waiting G)(c \<mapsto> req)\<rparr>"
    using sync_effect[OF ok un cur g w, of b n] by (elim exE conjE) (rule that)
  have nw: "waiting G t = None" using x(3) t(2) by (simp add: group_set_def restrict_map_def)
  have "waiting (group_of g x) t = waiting G t" using x(5) t(1) by (auto simp: Let_def split: if_splits)
  moreover have "t \<notin> satisfied_by (group_bits (group_of g s) OR b) (group_of g s)" using t(2) by (simp add: satisfied_by_def)
  moreover have "x = s'" using x(1) run by simp
  ultimately show ?thesis using x(2,4) t nw by (cases "e = g") simp_all
qed

lemma wait_leave_others:
  assumes ok: "kernel_ok idle T E (ekn s)" and c: "pxCurrentTCB (ekn s) = Some c"
    and run: "xEventGroupWaitBits_leave g w clr all s = Some (r, s')" and t: "t \<noteq> c"
  shows "pxContainer (ekn s') = pxContainer (ekn s) \<and> item_value (ekn s') (xEventListItem t) = item_value (ekn s) (xEventListItem t)"
proof -
  obtain k' where k': "pxContainer k' = pxContainer (ekn s)"
    "\<forall>t. t \<noteq> c \<longrightarrow> item_value k' (xEventListItem t) = item_value (ekn s) (xEventListItem t)"
    "xEventGroupWaitBits_leave g w clr all s =
      (let v = item_value (ekn s) (xEventListItem c) in
       if bit v 25 then Some (v AND NOT eventEVENT_BITS_CONTROL_BYTES, s\<lparr>ekn := k'\<rparr>)
       else Some (uxEventBits s g AND NOT eventEVENT_BITS_CONTROL_BYTES,
         if clr \<and> prvTestWaitCondition (uxEventBits s g) w all
         then (upd_bits g (\<lambda>b. b AND NOT w) s)\<lparr>ekn := k'\<rparr> else s\<lparr>ekn := k'\<rparr>))"
    using wait_leave_effect[OF ok c, of g w clr all] by (elim exE conjE) (rule that)
  have "ekn s' = k'" using k'(3) unfolding run Let_def by (auto split: if_splits)
  then show ?thesis using k'(1,2) t by simp
qed

lemma step_keeps:
  assumes ok: "kernel_ok idle T E (ekn s)" and a: "eguard idle T E a (ekn s)" and run: "eperform E a s = Some s'"
    and tT: "t \<in> T" and other: "pxCurrentTCB (ekn s) = Some t \<Longrightarrow> \<not> by_task a"
    and t: "\<forall>e. event_list (ekn s) t \<noteq> Some (EventList e)" "bit (item_value (ekn s) (xEventListItem t)) 31"
  shows "keeps t s s'"
proof -
  obtain c where c: "c \<in> T" "pxCurrentTCB (ekn s) = Some c" "\<not> pendsv (ekn s) \<or> uxSchedulerSuspended (ekn s) \<noteq> 0 \<Longrightarrow> is_ready (ekn s) c"
    using current[OF ok] by blast
  have nw: "waiting (group_of e s) t = None" for e using t(1) not_waiting[of s t] by blast
  show ?thesis
  proof (cases a)
    case (Kernel b)
    then obtain k' where k': "perform b (ekn s) = Some k'" "s' = s\<lparr>ekn := k'\<rparr>" using run by auto
    have "spares t (ekn s) k'" using perform_spares[OF ok _ k'(1) tT] a other Kernel by auto
    then show ?thesis using t k'(2) by (auto simp: keeps_def spares_def)
  next
    case (CreateGroup g)
    then show ?thesis using run t(1)
      by (auto simp: keeps_def xEventGroupCreate_def upd_bits_def)
  next
    case (SetBits g b)
    have g: "uxSchedulerSuspended (ekn s) + 1 \<noteq> 0" "is_ready (ekn s) c" "g \<in> E" using a SetBits c(3) by simp_all
    obtain x where x: "xEventGroupSetBits g b s = Some x"
      "woke (satisfied_by (uxEventBits s g OR b) (group_of g s))
        (uxEventBits s g OR b OR eventUNBLOCKED_DUE_TO_BIT_SET OR taskEVENT_LIST_ITEM_VALUE_IN_USE) (ekn s) (ekn x)"
      using set_bits_effect[OF ok g(1) c(2) g(2,3), of b] by (elim exE conjE) (rule that)
    have "t \<notin> satisfied_by (uxEventBits s g OR b) (group_of g s)" using nw[of g] by (simp add: satisfied_by_def)
    from keeps_woke[OF x(2) this t(1)] show ?thesis using run SetBits x(1) g(3) by simp
  next
    case (ClearBits g b)
    then show ?thesis using run t(1) by (auto simp: keeps_def xEventGroupClearBits_def upd_bits_def split: if_splits)
  next
    case (WaitEnter g w clr all n)
    have ct: "t \<noteq> c" using other c(2) WaitEnter by auto
    have "uxSchedulerSuspended (ekn s) = 0" "c \<noteq> idle" "is_ready (ekn s) c" "g \<in> E" "w AND eventEVENT_BITS_CONTROL_BYTES = 0"
      using a WaitEnter c(2,3) by (simp_all add: may_block_def)
    note oth = wait_bits_others[OF ok this(1) c(2) this(3,2,4,5) _ ct]
    obtain r where "xEventGroupWaitBits_enter g w clr all n s = Some (r, s')" using run WaitEnter by (auto split: if_splits)
    from oth[OF this] show ?thesis using nw not_waiting[of s' t] by (simp add: keeps_def)
  next
    case (WaitLeave g w clr all)
    have ct: "t \<noteq> c" using other c(2) WaitLeave by auto
    obtain r where "xEventGroupWaitBits_leave g w clr all s = Some (r, s')" using run WaitLeave by (auto split: if_splits)
    from wait_leave_others[OF ok c(2) this ct] show ?thesis using t(1) by (simp add: keeps_def)
  next
    case (SyncEnter g b w n)
    have ct: "t \<noteq> c" using other c(2) SyncEnter by auto
    have "uxSchedulerSuspended (ekn s) = 0" "c \<noteq> idle" "is_ready (ekn s) c" "g \<in> E" "w AND eventEVENT_BITS_CONTROL_BYTES = 0"
      using a SyncEnter c(2,3) by (simp_all add: may_block_def)
    note oth = sync_others[OF ok this(1) c(2) this(3,2,4,5) _ ct]
    obtain r where "xEventGroupSync_enter g b w n s = Some (r, s')" using run SyncEnter by (auto split: if_splits)
    from oth[OF this] show ?thesis using nw not_waiting[of s' t] by (simp add: keeps_def)
  next
    case (SyncLeave g w)
    have ct: "t \<noteq> c" using other c(2) SyncLeave by auto
    obtain r where "xEventGroupWaitBits_leave g w True True s = Some (r, s')" using run SyncLeave by (auto simp: sync_leave_eq split: if_splits)
    from wait_leave_others[OF ok c(2) this ct] show ?thesis using t(1) by (simp add: keeps_def)
  next
    case (DeleteGroup g)
    have g: "uxSchedulerSuspended (ekn s) + 1 \<noteq> 0" "is_ready (ekn s) c" "g \<in> E" using a DeleteGroup c(3) by simp_all
    obtain k' where k': "vEventGroupDelete g s = Some (s\<lparr>ekn := k'\<rparr>)"
      "woke (dom (waiting (group_of g s))) (eventUNBLOCKED_DUE_TO_BIT_SET OR taskEVENT_LIST_ITEM_VALUE_IN_USE) (ekn s) k'"
      using delete_effect[OF ok g(1) c(2) g(2,3)] by blast
    have "woke (dom (waiting (group_of g s))) (eventUNBLOCKED_DUE_TO_BIT_SET OR taskEVENT_LIST_ITEM_VALUE_IN_USE) (ekn s) (ekn s')"
      using k' run DeleteGroup g(3) by auto
    from keeps_woke[OF this _ t(1)] show ?thesis using nw[of g] by auto
  qed (use run t(1) in \<open>auto simp: keeps_def split: if_splits\<close>)
qed

text \<open>The list a call may put the running task on.\<close>

fun waits_on :: "ecall \<Rightarrow> nat \<Rightarrow> bool" where
  "waits_on (Kernel (Wait e n)) g \<longleftrightarrow> e = g"
| "waits_on (WaitEnter e w clr all n) g \<longleftrightarrow> e = g"
| "waits_on (SyncEnter e b w n) g \<longleftrightarrow> e = g"
| "waits_on _ g \<longleftrightarrow> False"

lemma group_waiter: "event_list (ekn s) t = Some (EventList g) \<longleftrightarrow> waiting (group_of g s) t \<noteq> None"
  by (simp add: group_of_def)

lemma woke_no_entry: "woke W v k k' \<Longrightarrow> event_list k' t = Some (EventList g) \<Longrightarrow> event_list k t = Some (EventList g)"
  by (auto simp: woke_def readied_def split: if_splits)

lemma step_no_entry:
  assumes ok: "kernel_ok idle T E (ekn s)" and a: "eguard idle T E a (ekn s)" "\<not> waits_on a g" and run: "eperform E a s = Some s'"
    and t: "event_list (ekn s') t = Some (EventList g)"
  shows "event_list (ekn s) t = Some (EventList g)"
proof -
  obtain c where c: "c \<in> T" "pxCurrentTCB (ekn s) = Some c" "\<not> pendsv (ekn s) \<or> uxSchedulerSuspended (ekn s) \<noteq> 0 \<Longrightarrow> is_ready (ekn s) c"
    using current[OF ok] by blast
  show ?thesis
  proof (cases a)
    case (Kernel b)
    then obtain k' where k': "perform b (ekn s) = Some k'" "s' = s\<lparr>ekn := k'\<rparr>" using run by auto
    have "b \<noteq> Wait g n" for n using a(2) Kernel by auto
    from perform_no_entry[OF ok _ this k'(1)] show ?thesis using a(1) Kernel k'(2) t by simp
  next
    case (SetBits h b)
    have h: "uxSchedulerSuspended (ekn s) + 1 \<noteq> 0" "is_ready (ekn s) c" "h \<in> E" using a SetBits c(3) by simp_all
    obtain x where "xEventGroupSetBits h b s = Some x"
      "woke (satisfied_by (uxEventBits s h OR b) (group_of h s))
        (uxEventBits s h OR b OR eventUNBLOCKED_DUE_TO_BIT_SET OR taskEVENT_LIST_ITEM_VALUE_IN_USE) (ekn s) (ekn x)"
      using set_bits_effect[OF ok h(1) c(2) h(2,3), of b] by (elim exE conjE) (rule that)
    then show ?thesis using run SetBits h(3) woke_no_entry t by simp
  next
    case (WaitEnter h w clr all n)
    have "uxSchedulerSuspended (ekn s) = 0" "c \<noteq> idle" "is_ready (ekn s) c" and h: "h \<in> E" and "w AND eventEVENT_BITS_CONTROL_BYTES = 0"
      using a WaitEnter c(2,3) by (simp_all add: may_block_def)
    from wait_bits_effect[OF ok this(1) c(2) this(3,2) h this(5), of clr all n]
    have "group_of g s' = group_of g s" using run WaitEnter h a(2) by auto
    then show ?thesis using t unfolding group_waiter by simp
  next
    case (SyncEnter h b w n)
    have "uxSchedulerSuspended (ekn s) = 0" "c \<noteq> idle" "is_ready (ekn s) c" and h: "h \<in> E" and "w AND eventEVENT_BITS_CONTROL_BYTES = 0"
      using a SyncEnter c(2,3) by (simp_all add: may_block_def)
    from sync_effect[OF ok this(1) c(2) this(3,2) h this(5), of b n]
    have "group_of g s' = group_of g s" using run SyncEnter h a(2) by auto
    then show ?thesis using t unfolding group_waiter by simp
  next
    case (WaitLeave h w clr all)
    then have "pxContainer (ekn s') = pxContainer (ekn s)"
      using run by (auto simp: xEventGroupWaitBits_leave_def uxTaskResetEventItemValue_def upd_bits_def listSET_LIST_ITEM_VALUE_def Let_def
          split: if_splits bind_splits)
    then show ?thesis using t by simp
  next
    case (SyncLeave h w)
    then have "pxContainer (ekn s') = pxContainer (ekn s)"
      using run by (auto simp: xEventGroupSync_leave_def uxTaskResetEventItemValue_def upd_bits_def listSET_LIST_ITEM_VALUE_def Let_def
          split: if_splits bind_splits)
    then show ?thesis using t by simp
  next
    case (DeleteGroup h)
    have h: "uxSchedulerSuspended (ekn s) + 1 \<noteq> 0" "is_ready (ekn s) c" "h \<in> E" using a DeleteGroup c(3) by simp_all
    obtain k' where "vEventGroupDelete h s = Some (s\<lparr>ekn := k'\<rparr>)"
      "woke (dom (waiting (group_of h s))) (eventUNBLOCKED_DUE_TO_BIT_SET OR taskEVENT_LIST_ITEM_VALUE_IN_USE) (ekn s) k'"
      using delete_effect[OF ok h(1) c(2) h(2,3)] by blast
    then show ?thesis using run DeleteGroup h(3) woke_no_entry t by auto
  qed (use run t in \<open>auto simp: xEventGroupCreate_def xEventGroupClearBits_def upd_bits_def vListInitialise_def split: if_splits\<close>)
qed

section \<open>The calls in progress find their groups\<close>

lemma told_step:
  assumes ok: "kernel_ok idle T E (ekn s)" and a: "eguard idle T E a (ekn s)" and run: "eperform E a s = Some s'"
    and "t \<in> T" "pxCurrentTCB (ekn s) = Some t \<Longrightarrow> \<not> by_task a" "told t s"
  shows "told t s'"
  using step_keeps[OF ok a run assms(4,5)] assms(6) by (simp add: told_def keeps_def)

lemma delete_told:
  assumes ok: "kernel_ok idle T E (ekn s)" and a: "eguard idle T E (DeleteGroup g) (ekn s)" and run: "eperform E (DeleteGroup g) s = Some s'"
  shows "event_list (ekn s') t \<noteq> Some (EventList g)" and "event_list (ekn s) t = Some (EventList g) \<Longrightarrow> told t s'"
proof -
  obtain c where c: "pxCurrentTCB (ekn s) = Some c" "\<not> pendsv (ekn s) \<or> uxSchedulerSuspended (ekn s) \<noteq> 0 \<Longrightarrow> is_ready (ekn s) c"
    using current[OF ok] by blast
  have g: "uxSchedulerSuspended (ekn s) + 1 \<noteq> 0" "is_ready (ekn s) c" "g \<in> E" using a c(2) by simp_all
  obtain k' where k': "vEventGroupDelete g s = Some (s\<lparr>ekn := k'\<rparr>)"
    "woke (dom (waiting (group_of g s))) (eventUNBLOCKED_DUE_TO_BIT_SET OR taskEVENT_LIST_ITEM_VALUE_IN_USE) (ekn s) k'"
    using delete_effect[OF ok g(1) c(1) g(2,3)] by blast
  have s': "s' = s\<lparr>ekn := k'\<rparr>" using run k'(1) g(3) by simp
  show "event_list (ekn s') t \<noteq> Some (EventList g)" using k'(2) by (auto simp: s' woke_def group_of_def)
  assume "event_list (ekn s) t = Some (EventList g)"
  then have W: "t \<in> dom (waiting (group_of g s))" by (simp add: group_of_def dom_def)
  have "item_value k' (xEventListItem t) = eventUNBLOCKED_DUE_TO_BIT_SET OR taskEVENT_LIST_ITEM_VALUE_IN_USE"
    using item_value_woke[OF k'(2), of t] W by simp
  moreover have "\<forall>e. event_list k' t \<noteq> Some (EventList e)" using k'(2) W by (simp add: woke_def)
  ultimately show "told t s'"
    by (simp add: told_def s' bit_or_iff eventUNBLOCKED_DUE_TO_BIT_SET_def taskEVENT_LIST_ITEM_VALUE_IN_USE_def)
qed

text \<open>The list the running task is put on is not one of a group being deleted.\<close>

lemma eorder_waits: "eorder W a s \<Longrightarrow> deleting g W \<Longrightarrow> \<not> waits_on a g"
  by (cases "(a, g)" rule: waits_on.cases) auto

lemma egroups_mono: "h \<in> E \<Longrightarrow> a \<noteq> FreeGroup h \<Longrightarrow> h \<in> egroups_after a E"
proof (cases a)
  case (Kernel b)
  assume "h \<in> E"
  then show ?thesis using Kernel by (cases b) simp_all
qed auto

lemma calls_after_other:
  "calls_after a T W s t = Some p \<Longrightarrow> by_task a \<and> pxCurrentTCB (ekn s) = Some t \<and> point_after a s = Some p \<or>
     W t = Some p \<and> \<not> (by_task a \<and> pxCurrentTCB (ekn s) = Some t)"
  by (auto simp: calls_after_def split: if_splits)

lemma point_after_kind:
  "point_after a s = Some (In_set g) \<Longrightarrow> \<exists>b. a = SetBits g b"
  "point_after a s = Some (In_wait g) \<Longrightarrow> waits_on a g \<and> (\<forall>b. a \<noteq> Kernel b)"
  "point_after a s = Some (In_delete g) \<Longrightarrow> a = DeleteGroup g"
  by (cases a; auto simp: in_wait_def split: option.splits prod.splits)+

text \<open>A task that makes a step of its own was in no call, or ends one.\<close>

lemma step_calls_ok:
  assumes ok: "kernel_ok idle T E (ekn s)" and calls: "calls_ok T E W s" and a: "eguard idle T E a (ekn s)" "eorder W a s"
    and run: "eperform E a s = Some s'"
  shows "calls_ok (etasks_after a T (ekn s)) (egroups_after a E) (calls_after a T W s) s'"
proof -
  let ?W = "calls_after a T W s" and ?E = "egroups_after a E"
  note C = calls[unfolded calls_ok_def]
  have T: "W t \<noteq> None \<Longrightarrow> t \<in> T" for t using C by blast
  have free: "\<exists>c. pxCurrentTCB (ekn s) = Some c \<and> W c = Some (In_delete g)" if "a = FreeGroup g" for g
    using a(2) that by (auto simp: in_call_def split: option.splits)
  have keep: "told t s'" if "W t = Some p" "\<not> (by_task a \<and> pxCurrentTCB (ekn s) = Some t)" "told t s" for t p
    by (rule told_step[OF ok a(1) run]) (use T[of t] that in auto)
  have gone: "h \<in> ?E \<or> a = FreeGroup h" if "h \<in> E" for h using egroups_mono[OF that] by blast
  have enters: "h \<in> E \<and> \<not> deleting h W" if "waits_on a h" "\<forall>b. a \<noteq> Kernel b" for h using a that by (cases a) auto
  have inset: "h \<in> ?E" if "?W t = Some (In_set h)" for t h
    using calls_after_other[OF that]
  proof (elim disjE conjE)
    assume "point_after a s = Some (In_set h)"
    then obtain b where "a = SetBits h b" using point_after_kind(1) by blast
    then show ?thesis using a(1) by simp
  next
    assume "W t = Some (In_set h)"
    then have "h \<in> E" "a \<noteq> FreeGroup h" using C free[of h] by blast+
    then show ?thesis using egroups_mono by blast
  qed
  have inwait: "h \<in> ?E \<or> told t s'" if "?W t = Some (In_wait h)" for t h
    using calls_after_other[OF that]
  proof (elim disjE conjE)
    assume "point_after a s = Some (In_wait h)"
    then have h: "waits_on a h" "\<forall>b. a \<noteq> Kernel b" using point_after_kind(2) by blast+
    then have "h \<in> E" "a \<noteq> FreeGroup h" using enters by auto
    then show ?thesis using egroups_mono by blast
  next
    assume w: "W t = Some (In_wait h)" and n: "\<not> (by_task a \<and> pxCurrentTCB (ekn s) = Some t)"
    have "told t s" if "a = FreeGroup h" using C free[OF that] w by blast
    moreover have "h \<in> E \<or> told t s" using C w by blast
    ultimately show ?thesis using keep[OF w n] gone[of h] by blast
  qed
  have indel: "h \<in> ?E \<and> (\<forall>t. event_list (ekn s') t \<noteq> Some (EventList h)) \<and> (\<forall>t. ?W t \<noteq> Some (In_set h)) \<and>
      (\<forall>t. ?W t = Some (In_wait h) \<longrightarrow> told t s') \<and> (\<forall>t. ?W t = Some (In_delete h) \<longrightarrow> t = c)"
    if "?W c = Some (In_delete h)" for c h
    using calls_after_other[OF that]
  proof (elim disjE conjE)
    assume b: "by_task a" and cur: "pxCurrentTCB (ekn s) = Some c" and p: "point_after a s = Some (In_delete h)"
    have ad: "a = DeleteGroup h" using point_after_kind(3)[OF p] .
    have old: "W t = Some p \<Longrightarrow> point_group p = h \<Longrightarrow> p = In_wait h \<and> (event_list (ekn s) t = Some (EventList h) \<or> told t s)" for t p
      using a(2) ad by simp
    have pa: "point_after a s = Some (In_delete h)" using ad by simp
    have nol: "event_list (ekn s') t \<noteq> Some (EventList h)" for t by (rule delete_told(1)[OF ok a(1)[unfolded ad] run[unfolded ad]])
    have tl: "told t s'" if w: "?W t = Some (In_wait h)" for t
    proof -
      have w: "W t = Some (In_wait h)" "\<not> (by_task a \<and> pxCurrentTCB (ekn s) = Some t)"
        using calls_after_other[OF w] pa by auto
      consider "event_list (ekn s) t = Some (EventList h)" | "told t s" using old[OF w(1)] by auto
      then show ?thesis
      proof cases
        case 1 then show ?thesis by (rule delete_told(2)[OF ok a(1)[unfolded ad] run[unfolded ad]])
      qed (rule keep[OF w])
    qed
    have ns: "?W t \<noteq> Some (In_set h)" for t using calls_after_other[of a T W s t "In_set h"] pa old[of t "In_set h"] by auto
    have nd: "?W t = Some (In_delete h) \<Longrightarrow> t = c" for t
      using calls_after_other[of a T W s t "In_delete h"] cur old[of t "In_delete h"] by auto
    show ?thesis using a(1) ad nol tl ns nd by simp
  next
    assume w: "W c = Some (In_delete h)" and n: "\<not> (by_task a \<and> pxCurrentTCB (ekn s) = Some c)"
    have del: "deleting h W" using w by (auto simp: deleting_def)
    have D: "h \<in> E" "\<And>t. event_list (ekn s) t \<noteq> Some (EventList h)" "\<And>t. W t \<noteq> Some (In_set h)"
      "\<And>t. W t = Some (In_wait h) \<Longrightarrow> told t s" "\<And>t. W t = Some (In_delete h) \<Longrightarrow> t = c"
      using C w by blast+
    have nf: "a \<noteq> FreeGroup h" using free[of h] D(5) n by auto
    have nol: "event_list (ekn s') t \<noteq> Some (EventList h)" for t
      using step_no_entry[OF ok a(1) eorder_waits[OF a(2) del] run] D(2) by blast
    have np: "point_after a s \<noteq> Some (In_set h)" "point_after a s \<noteq> Some (In_wait h)" "point_after a s \<noteq> Some (In_delete h)"
    proof -
      show "point_after a s \<noteq> Some (In_set h)" using point_after_kind(1)[of a s h] a(2) del by auto
      show "point_after a s \<noteq> Some (In_wait h)" using point_after_kind(2)[of a s h] eorder_waits[OF a(2) del] by auto
      show "point_after a s \<noteq> Some (In_delete h)"
      proof
        assume "point_after a s = Some (In_delete h)"
        then have "eorder W (DeleteGroup h) s" using point_after_kind(3) a(2) by metis
        then have "In_delete h = In_wait h" using w point_group.simps(3)[of h] unfolding eorder.simps by metis
        then show False by simp
      qed
    qed
    have "?W t = Some p \<Longrightarrow> p \<in> {In_set h, In_wait h, In_delete h} \<Longrightarrow> W t = Some p \<and> \<not> (by_task a \<and> pxCurrentTCB (ekn s) = Some t)" for t p
      using calls_after_other[of a T W s t p] np by auto
    note old = this
    show ?thesis using egroups_mono[OF D(1) nf] nol old D(3,5) keep D(4) by (metis insertCI)
  qed
  have "t \<in> etasks_after a T (ekn s)" if "?W t \<noteq> None" for t using that by (auto simp: calls_after_def split: if_splits)
  then show ?thesis unfolding calls_ok_def using inset inwait indel by blast
qed

lemma finds_ok:
  assumes calls: "calls_ok T E W s" and a: "eorder W a s"
  shows "finds E a s"
proof -
  have cur: "\<exists>c. pxCurrentTCB (ekn s) = Some c \<and> W c = Some p" if "in_call W s = Some p" for p
    using that by (auto simp: in_call_def split: option.splits)
  have wt: "g \<in> E \<or> \<not> reads_group s" if "in_call W s = Some (In_wait g)" for g
    using cur[OF that] calls told_reads unfolding calls_ok_def by blast
  have others: "g \<in> E" if "in_call W s = Some (In_set g) \<or> in_call W s = Some (In_delete g)" for g
    using that cur calls unfolding calls_ok_def by blast
  show ?thesis using a wt others by (cases a) (simp_all add: finds_def)
qed

lemma event_reach_ok: "event_reach idle T E W s \<Longrightarrow> kernel_ok idle T E (ekn s) \<and> calls_ok T E W s"
proof (induction rule: event_reach.induct)
  case (start T E s)
  then show ?case using kernel_reach_ok by (auto simp: calls_ok_def)
next
  case (step T E W s a s')
  note ok = conjunct1[OF step.IH] and calls = conjunct2[OF step.IH]
  show ?case
    using eperform_ok[OF ok step.hyps(2) finds_ok[OF calls step.hyps(3)]] step.hyps(4)
      step_calls_ok[OF ok calls step.hyps(2-4)] by auto
qed

section \<open>While a woken task has not run\<close>

text \<open>The steps between two states: ticks, switches and interrupts happen, other tasks use event groups and make all
  calls of the kernel except to create and delete tasks, and the task \<open>t\<close> makes no call.\<close>

fun ordinary :: "ecall \<Rightarrow> bool" where
  "ordinary (Kernel (Create u p)) \<longleftrightarrow> False"
| "ordinary (Kernel (Delete h)) \<longleftrightarrow> False"
| "ordinary (Kernel Cleanup) \<longleftrightarrow> False"
| "ordinary _ \<longleftrightarrow> True"

inductive meanwhile :: "nat \<Rightarrow> nat set \<Rightarrow> nat \<Rightarrow> nat set \<Rightarrow> ekernel \<Rightarrow> nat set \<Rightarrow> ekernel \<Rightarrow> bool" for idle T t E s where
  refl: "meanwhile idle T t E s E s"
| step: "meanwhile idle T t E s E1 s1 \<Longrightarrow> ordinary a \<Longrightarrow> eguard idle T E1 a (ekn s1) \<Longrightarrow>
    (pxCurrentTCB (ekn s1) = Some t \<Longrightarrow> \<not> by_task a) \<Longrightarrow> eperform E1 a s1 = Some s2 \<Longrightarrow>
    meanwhile idle T t E s (egroups_after a E1) s2"

lemma ordinary_tasks: "ordinary a \<Longrightarrow> etasks_after a T k = T"
  by (induction a rule: ordinary.induct) simp_all

lemma meanwhile_keeps:
  assumes "meanwhile idle T t E s E' s'" "kernel_ok idle T E (ekn s)" "t \<in> T"
    and "\<forall>e. event_list (ekn s) t \<noteq> Some (EventList e)" "bit (item_value (ekn s) (xEventListItem t)) 31"
  shows "kernel_ok idle T E' (ekn s') \<and> keeps t s s'"
  using assms
proof (induction rule: meanwhile.induct)
  case (step E1 s1 a s2)
  have k: "kernel_ok idle T E1 (ekn s1)" "keeps t s s1" using step(6-) by blast+
  have "kernel_ok idle T (egroups_after a E1) (ekn s2)"
    using eperform_ok[OF k(1) step(3) eperform_finds[OF step(3,5)]] step(5) ordinary_tasks[OF step(2)] by auto
  moreover have "keeps t s1 s2"
    using step_keeps[OF k(1) step(3,5) step.prems(2) step(4)] k(2) step.prems(4) by (simp add: keeps_def)
  ultimately show ?case using k(2) by (simp add: keeps_def)
qed (simp add: keeps_def)

section \<open>A deleted group\<close>

text \<open>
  A concrete history: task 1 waits for a bit of group 0, the idle task deletes the group with the scheduler suspended
  and its memory is freed before task 1 runs again, still inside of its call.
\<close>

lemma unordered_pendsv:
  assumes "vTaskRemoveFromUnorderedEventList i v k = Some k'"
  shows "pendsv k' = pendsv k \<and> uxSchedulerSuspended k' = uxSchedulerSuspended k"
proof -
  have rm: "pendsv h' = pendsv h \<and> uxSchedulerSuspended h' = uxSchedulerSuspended h" if "listREMOVE_ITEM j h = Some h'" for j and h h' :: kernel
  proof -
    have "map_option (\<lambda>k. (pendsv k, uxSchedulerSuspended k)) (listREMOVE_ITEM j h) =
        map_option (\<lambda>_. (pendsv h, uxSchedulerSuspended h)) (pxContainer h j)"
      by (simp add: listREMOVE_ITEM_def Let_def split: option.split)
    then show ?thesis using that by (cases "pxContainer h j") simp_all
  qed
  have ins: "pendsv (listINSERT_END l j h) = pendsv h \<and> uxSchedulerSuspended (listINSERT_END l j h) = uxSchedulerSuspended h" for l j and h :: kernel
    by (simp add: listINSERT_END_def Let_def)
  have add: "pendsv h' = pendsv h \<and> uxSchedulerSuspended h' = uxSchedulerSuspended h" if "prvAddTaskToReadyList t h = Some h'" for t h h'
    using that ins by (auto simp: prvAddTaskToReadyList_def taskRECORD_READY_PRIORITY_def Let_def split: bind_splits)
  obtain j t x y z where "listREMOVE_ITEM i (listSET_LIST_ITEM_VALUE i (v OR taskEVENT_LIST_ITEM_VALUE_IN_USE) k) = Some x"
    "listREMOVE_ITEM j x = Some y" "prvAddTaskToReadyList t y = Some z" "k' = z \<or> k' = z\<lparr>xYieldPending := True\<rparr>"
    using assms by (auto simp: vTaskRemoveFromUnorderedEventList_def Let_def split: bind_splits if_split_asm)
  then show ?thesis using rm add by (auto simp: listSET_LIST_ITEM_VALUE_def)
qed

lemma delete_loop_pendsv:
  assumes "delete_loop g k = Some k'"
  shows "pendsv k' = pendsv k \<and> uxSchedulerSuspended k' = uxSchedulerSuspended k"
proof (rule delete_loop.raw_induct[where P = "\<lambda>_ k k'. pendsv k' = pendsv k \<and> uxSchedulerSuspended k' = uxSchedulerSuspended k", OF _ assms])
  fix f g k k'
  assume ih: "\<And>g k k'. f g k = Some k' \<Longrightarrow> pendsv k' = pendsv k \<and> uxSchedulerSuspended k' = uxSchedulerSuspended k"
    and run: "(if listCURRENT_LIST_LENGTH (xTasksWaitingForBits g) k > 0
      then (case pxNext k (ListEnd (xTasksWaitingForBits g)) of ListEnd l \<Rightarrow> None
        | ListItem i \<Rightarrow> do { k \<leftarrow> vTaskRemoveFromUnorderedEventList i eventUNBLOCKED_DUE_TO_BIT_SET k; f g k })
      else Some k) = Some k'"
  show "pendsv k' = pendsv k \<and> uxSchedulerSuspended k' = uxSchedulerSuspended k"
  proof (cases "listCURRENT_LIST_LENGTH (xTasksWaitingForBits g) k > 0")
    case True
    then obtain i h where "vTaskRemoveFromUnorderedEventList i eventUNBLOCKED_DUE_TO_BIT_SET k = Some h" "f g h = Some k'"
      using run by (auto split: ListPtr.splits bind_splits)
    then show ?thesis using ih[of g h k'] unordered_pendsv[of i eventUNBLOCKED_DUE_TO_BIT_SET k h] by simp
  qed (use run in simp)
qed

lemma example_deleted:
  obtains s W where "event_reach 0 {1, 0} {} W s" "pxCurrentTCB (ekn s) = Some 1" "\<not> pendsv (ekn s)" "W 1 = Some (In_wait 0)"
proof -
  let ?T = "{1, 0} :: nat set" and ?r = "\<lparr>wanted = 1, clear_on_exit = True, want_all = True\<rparr>"
  obtain s where s: "kernel_ok 0 ?T {0} (ekn s)" "pxCurrentTCB (ekn s) = Some 1" "uxSchedulerSuspended (ekn s) = 0" "is_ready (ekn s) 1"
    "group_of 0 s = \<lparr>group_bits = 0, waiting = Map.empty\<rparr>" "uxPriority (ekn s) 0 < uxPriority (ekn s) 1" "\<not> pendsv (ekn s)"
    "kernel_reach 0 ?T {0} (ekn s)"
    using example_group by blast
  have ns: "\<not> satisfied 0 ?r" by (simp add: satisfied_word)
  obtain s1 where s1: "kernel_ok 0 ?T {0} (ekn s1)" "uxSchedulerSuspended (ekn s1) = 0" "waits 1 (wait_time 10) (ekn s) (ekn s1)"
    "group_of 0 s1 = \<lparr>group_bits = 0, waiting = [1 \<mapsto> ?r]\<rparr>" "xEventGroupWaitBits_enter 0 1 True True 10 s = Some (None, s1)"
    "pendsv (ekn s1)"
    using wait_bits_effect[of 0 ?T "{0}" s 1 0 1 True True 10] s(1-5) ns by (auto simp: eventEVENT_BITS_CONTROL_BYTES_def)
  let ?W1 = "calls_after (WaitEnter 0 1 True True 10) ?T Map.empty s"
  have r1: "event_reach 0 ?T {0} ?W1 s1"
    using event_reach.step[OF event_reach.start[OF s(8)], of "WaitEnter 0 1 True True 10" s1] s(2,3,7) s1(5)
    by (simp add: may_block_def eventEVENT_BITS_CONTROL_BYTES_def in_call_def deleting_def)
  have W1: "?W1 1 = Some (In_wait 0)" "?W1 0 = None" using s(2) s1(5) by (simp_all add: calls_after_def in_wait_def)
  obtain c k2 where k2: "xPortPendSVHandler (ekn s1) = Some k2" "kernel_ok 0 ?T {0} k2" "uxSchedulerSuspended k2 = 0" "c \<in> ?T"
    "pxCurrentTCB k2 = Some c" "is_ready (ekn s1) c" "is_ready k2 = is_ready (ekn s1)" "pxContainer k2 = pxContainer (ekn s1)"
    "\<not> pendsv k2" "uxPriority k2 = uxPriority (ekn s1)"
    using switch_effect[OF s1(1,2)] by (elim exE conjE) (rule that)
  have nr: "\<not> is_ready (ekn s1) 1" using s1(3) by (simp add: waits_def)
  then have c: "c = 0" using k2(4,6) by auto
  let ?s2 = "s1\<lparr>ekn := k2\<rparr>" and ?W2 = "calls_after (Kernel PendSV) ?T ?W1 s1"
  have r2: "event_reach 0 ?T {0} ?W2 ?s2"
    using event_reach.step[OF r1, of "Kernel PendSV" ?s2] s1(6) k2(1) by (simp add: allowed_def)
  have W2: "?W2 1 = Some (In_wait 0)" "?W2 0 = None" using W1 by (simp_all add: calls_after_def[of "Kernel _"])
  let ?s3 = "?s2\<lparr>ekn := vTaskSuspendAll k2\<rparr>" and ?W3 = "calls_after (Kernel SuspendAll) ?T ?W2 ?s2"
  have r3: "event_reach 0 ?T {0} ?W3 ?s3"
    using event_reach.step[OF r2, of "Kernel SuspendAll" ?s3] k2(3,5,9) c W2(2) by (simp add: allowed_def in_call_def)
  have W3: "?W3 1 = Some (In_wait 0)" "?W3 0 = None" using W2 k2(5) c by (simp_all add: calls_after_def[of "Kernel SuspendAll"])
  have f3: "uxSchedulerSuspended (ekn ?s3) = 1" "\<not> pendsv (ekn ?s3)" "pxCurrentTCB (ekn ?s3) = Some 0"
    "pxContainer (ekn ?s3) = pxContainer (ekn s1)" "uxPriority (ekn ?s3) = uxPriority (ekn s1)"
    using k2(3,5,8-10) c by (simp_all add: vTaskSuspendAll_def)
  have e: "event_list (ekn ?s3) t = event_list (ekn s1) t" for t using f3(4) by simp
  have "is_ready k2 0" using k2(6,7) c by simp
  then have rdy: "is_ready (ekn ?s3) 0" by (simp add: is_ready_def vTaskSuspendAll_def)
  have G3: "waiting (group_of 0 ?s3) = [1 \<mapsto> ?r]"
    using s1(4) group_of_same[of ?s3 s1 0] f3(4) switch_values[OF k2(1)] by (simp add: group_of_def vTaskSuspendAll_def)
  have ok3: "kernel_ok 0 ?T {0} (ekn ?s3)" using event_reach_ok[OF r3] by blast
  let ?v = "eventUNBLOCKED_DUE_TO_BIT_SET OR taskEVENT_LIST_ITEM_VALUE_IN_USE"
  obtain k4 where k4: "vEventGroupDelete 0 ?s3 = Some (?s3\<lparr>ekn := k4\<rparr>)" "kernel_ok 0 ?T {0} k4"
    "woke (dom (waiting (group_of 0 ?s3))) ?v (ekn ?s3) k4"
    using delete_effect[OF ok3 _ f3(3) rdy, of 0] f3(1) by auto
  have w4: "woke {1} ?v (vTaskSuspendAll k2) k4" using k4(3) G3 by simp
  have p4: "\<not> pendsv k4"
  proof -
    obtain k y where k: "delete_loop 0 (vTaskSuspendAll (ekn ?s3)) = Some k" "xTaskResumeAll k = Some (y, k4)"
      using k4(1) by (auto simp: vEventGroupDelete_def dest: arg_cong[of _ _ ekn] split: bind_splits)
    have "pendsv k = pendsv (ekn ?s3) \<and> uxSchedulerSuspended k = 2"
      using delete_loop_pendsv[OF k(1)] f3(1) by (simp add: vTaskSuspendAll_def)
    then show ?thesis using k(2) f3(2) by (auto simp: xTaskResumeAll_def)
  qed
  let ?s4 = "?s3\<lparr>ekn := k4\<rparr>" and ?W4 = "calls_after (DeleteGroup 0) ?T ?W3 ?s3"
  have old: "W = In_wait 0 \<and> event_list (ekn ?s3) t = Some (EventList 0)" if "?W3 t = Some W" for t W
  proof -
    have "t \<in> ?T" using that by (auto simp: calls_after_def split: if_splits)
    then have "t = 1 \<and> W = In_wait 0" using that W3 by auto
    moreover have "waiting (group_of 0 ?s3) 1 \<noteq> None" using G3 by simp
    ultimately show ?thesis using group_waiter[of ?s3 1 0] by blast
  qed
  have "in_call ?W3 ?s3 = None" unfolding in_call_def f3(3) using W3(2) by simp
  then have eo: "eorder ?W3 (DeleteGroup 0) ?s3" unfolding eorder.simps using old by blast
  have r4: "event_reach 0 ?T {0} ?W4 ?s4"
    using event_reach.step[OF r3 _ eo, of ?s4] f3(1,2) k4(1) by simp
  have W4: "?W4 1 = Some (In_wait 0)" "?W4 0 = Some (In_delete 0)" using W3 f3(3) by (simp_all add: calls_after_def[of "DeleteGroup 0"])
  have e4: "event_list (ekn ?s4) t \<noteq> Some (EventList 0)" for t
    using delete_told(1)[OF ok3, of 0 ?s4 t] f3(1,2) k4(1) by simp
  have c4: "pxCurrentTCB k4 = Some 0" "uxSchedulerSuspended k4 = 1" using k4(3) f3(1,3) by (simp_all add: woke_def)
  let ?W5 = "calls_after (FreeGroup 0) ?T ?W4 ?s4"
  have r5: "event_reach 0 ?T {} ?W5 ?s4"
    using event_reach.step[OF r4, of "FreeGroup 0" ?s4] p4 e4 c4(1) W4(2) by (simp add: in_call_def)
  have W5: "?W5 1 = Some (In_wait 0)" "?W5 0 = None" using W4 c4(1) by (simp_all add: calls_after_def[of "FreeGroup 0"])
  have ok4: "core_inv 0 ?T {0} k4" "prio_inv k4" using k4(2) by (simp_all add: kernel_ok_def)
  have k2r: "uxSchedulerSuspended k2 + 1 \<noteq> 0" "pxCurrentTCB k2 = Some 0" "is_ready k2 0" using k2(3,5,6,7) c by simp_all
  obtain y k6 where k6: "xTaskResumeAll k4 = Some (y, k6)" "kernel_ok 0 ?T {0} k6" "woke {1} ?v k2 k6"
    "uxSchedulerSuspended k2 = 0 \<longrightarrow> xYieldPending k6 \<longrightarrow> pendsv k6"
    using woken_section[OF k2(2) k2r ok4 w4] by (elim exE conjE) (rule that)
  let ?s6 = "?s4\<lparr>ekn := k6\<rparr>" and ?W6 = "calls_after (Kernel ResumeAll) ?T ?W5 ?s4"
  have r6: "event_reach 0 ?T {} ?W6 ?s6"
    using event_reach.step[OF r5, of "Kernel ResumeAll" ?s6] c4 p4 W5(2) k6(1) by (simp add: allowed_def in_call_def)
  have W6: "?W6 1 = Some (In_wait 0)" using W5 c4(1) by (simp add: calls_after_def[of "Kernel ResumeAll"])
  have pr: "uxPriority k6 0 < uxPriority k6 1"
    using k6(3) k2(10) s1(3) s(6) by (simp add: woke_def waits_def)
  have c6: "pxCurrentTCB k6 = Some 0" "is_ready k6 1" "uxSchedulerSuspended k6 = 0"
    using k6(3) k2r(2) k2(3) woke_ready[OF k6(3), of 1] by (simp_all add: woke_def)
  then have p6: "pendsv k6" using k6(2,4) pr k2(3) unfolding kernel_ok_def prio_inv_def by auto
  obtain d k7 where k7: "xPortPendSVHandler k6 = Some k7" "pxCurrentTCB k7 = Some d" "d \<in> ?T" "\<not> pendsv k7"
    "\<forall>t. is_ready k6 t \<longrightarrow> uxPriority k6 t \<le> uxPriority k6 d"
    using switch_effect[OF k6(2) c6(3)] by (elim exE conjE) (rule that)
  have d: "d = 1" using k7(3,5) c6(2) pr by (metis empty_iff insert_iff not_le)
  have "event_reach 0 ?T {} (calls_after (Kernel PendSV) ?T ?W6 ?s6) (?s6\<lparr>ekn := k7\<rparr>)"
    using event_reach.step[OF r6, of "Kernel PendSV" "?s6\<lparr>ekn := k7\<rparr>"] p6 k7(1) by (simp add: allowed_def)
  then show thesis
    by (rule that) (use k7(2,4) d W6 in \<open>simp_all add: calls_after_def[of "Kernel PendSV"]\<close>)
qed

section \<open>Properties\<close>

text \<open>
  C13. Event groups are safe in every history.  From every reachable state of the scheduler, under any interleaving of
  ticks, context switches, calls of the kernel and interrupts with the parts of the calls of event groups by the tasks
  (creation, setting, clearing, waiting, rendezvous, deletion, the return of every one of them and the release of the
  memory of a deleted group): the invariant of the kernel holds, every step the callers may make is defined (no
  dereference of NULL and no access to a group that does not exist, however many waiters a call wakes), and so is every
  call in progress: the waiters of a deleted group return, also after its memory was released, without touching it.  The
  callers respect the assertions of event_groups.c, a task makes one call at a time, nobody uses a group
  whose deletion has begun, and the deletion of a group does not begin while a task is still inside a call on it, except
  for tasks that wait on its list or were woken from it by one who set bits or deleted a group.
\<close>
theorem event_history_safe:
  assumes "event_reach idle T E W s"
  shows "kernel_ok idle T E (ekn s) \<and> calls_ok T E W s \<and>
    (\<forall>a. eguard idle T E a (ekn s) \<and> eorder W a s \<longrightarrow>
       (\<exists>s'. eperform E a s = Some s' \<and>
         event_reach idle (etasks_after a T (ekn s)) (egroups_after a E) (calls_after a T W s) s'))"
  using event_reach_ok[OF assms] eperform_ok[OF conjunct1[OF event_reach_ok[OF assms]]] finds_ok event_reach.step[OF assms] by blast

theorem event_history_safe_witness:
  "\<exists>s W s'. event_reach 0 {1, 0} {} W s \<and> W 1 = Some (In_wait 0) \<and> eperform {} (WaitLeave 0 1 True True) s = Some s' \<and>
     kernel_ok 0 {1, 0} {} (ekn s)"
proof -
  obtain s W where s: "event_reach 0 {1, 0} {} W s" "pxCurrentTCB (ekn s) = Some 1" "\<not> pendsv (ekn s)" "W 1 = Some (In_wait 0)"
    by (rule example_deleted)
  have "eguard 0 {1, 0} {} (WaitLeave 0 1 True True) (ekn s) \<and> eorder W (WaitLeave 0 1 True True) s"
    using s(2-4) by (simp add: in_call_def)
  then show ?thesis using event_history_safe[OF s(1)] s(1,4) by blast
qed

text \<open>
  C10. A woken waiter gets the bits it was woken with.  When a task sets bits that together with the bits of
  the group satisfy the request of a waiter \<open>t\<close>, then t is ready, and at whatever later time it runs, its call of
  xEventGroupWaitBits returns exactly these bits, which satisfy its request, and changes no bits of any group:
  although in the meantime ticks, switches, interrupts and calls of other tasks have happened: all calls of the kernel
  but the creation and deletion of tasks (changes of priority, suspension and resumption, also of t, among them), and
  all parts of calls of event groups, also the deletion of this group.
\<close>
theorem event_waiter_gets_bits:
  assumes ok: "kernel_ok idle T E (ekn s)" and un: "uxSchedulerSuspended (ekn s) = 0"
    and cur: "pxCurrentTCB (ekn s) = Some c" "is_ready (ekn s) c" and g: "g \<in> E"
    and t: "waiting (group_of g s) t = Some r" "satisfied (group_bits (group_of g s) OR b) r"
    and set: "xEventGroupSetBits g b s = Some s1" and m: "meanwhile idle T t E s1 E' s'"
    and runs: "pxCurrentTCB (ekn s') = Some t"
  shows "is_ready (ekn s1) t \<and> (\<exists>v s''. xEventGroupWaitBits_leave g w clr all s' = Some (v, s'') \<and>
    v = (group_bits (group_of g s) OR b) AND NOT eventEVENT_BITS_CONTROL_BYTES \<and> satisfied v r \<and>
    uxEventBits s'' = uxEventBits s')"
proof -
  let ?v = "uxEventBits s g OR b" and ?W = "satisfied_by (uxEventBits s g OR b) (group_of g s)"
  have gb: "group_bits (group_of g s) = uxEventBits s g" by (simp add: group_of_def)
  have sus: "uxSchedulerSuspended (ekn s) + 1 \<noteq> 0" using un by simp
  obtain x where x: "xEventGroupSetBits g b s = Some x" "kernel_ok idle T E (ekn x)"
    "woke ?W (uxEventBits s g OR b OR eventUNBLOCKED_DUE_TO_BIT_SET OR taskEVENT_LIST_ITEM_VALUE_IN_USE) (ekn s) (ekn x)"
    using set_bits_effect[OF ok sus cur g, of b] by (elim exE conjE) (rule that)
  have x1: "x = s1" using x(1) set by simp
  have tW: "t \<in> ?W" using t by (simp add: satisfied_by_def gb)
  let ?i = "uxEventBits s g OR b OR eventUNBLOCKED_DUE_TO_BIT_SET OR taskEVENT_LIST_ITEM_VALUE_IN_USE"
  have v1: "item_value (ekn s1) (xEventListItem t) = ?i" using item_value_woke[OF x(3), of t] tW x1 by simp
  have nw: "\<forall>e. event_list (ekn s1) t \<noteq> Some (EventList e)" using x(3) tW x1 by (simp add: woke_def)
  have b31: "bit (item_value (ekn s1) (xEventListItem t)) 31" unfolding v1 by (simp add: bit_or_iff taskEVENT_LIST_ITEM_VALUE_IN_USE_def)
  have tT: "t \<in> T"
    using t(1) lists_inv_owner(2)[of T E "ekn s" "xEventListItem t" _ t] ok by (auto simp: group_of_def kernel_ok_def core_inv_def split: if_splits)
  have k: "kernel_ok idle T E' (ekn s')" "keeps t s1 s'" using meanwhile_keeps[OF m _ tT nw b31] x(2) x1 by simp_all
  have v': "item_value (ekn s') (xEventListItem t) = ?i" using k(2) v1 by (simp add: keeps_def)
  have b25: "bit ?i 25" by (simp add: bit_or_iff eventUNBLOCKED_DUE_TO_BIT_SET_def)
  have z: "(eventUNBLOCKED_DUE_TO_BIT_SET OR taskEVENT_LIST_ITEM_VALUE_IN_USE) AND NOT eventEVENT_BITS_CONTROL_BYTES = 0"
    by (simp add: eventUNBLOCKED_DUE_TO_BIT_SET_def taskEVENT_LIST_ITEM_VALUE_IN_USE_def eventEVENT_BITS_CONTROL_BYTES_def)
  have "?i = ?v OR (eventUNBLOCKED_DUE_TO_BIT_SET OR taskEVENT_LIST_ITEM_VALUE_IN_USE)" by (simp only: or.assoc)
  then have i: "?i AND NOT eventEVENT_BITS_CONTROL_BYTES = ?v AND NOT eventEVENT_BITS_CONTROL_BYTES"
    using z by (simp only: bit.conj_disj_distrib2 or.right_neutral)
  obtain k' where "xEventGroupWaitBits_leave g w clr all s' = Some (?i AND NOT eventEVENT_BITS_CONTROL_BYTES, s'\<lparr>ekn := k'\<rparr>)"
    using wait_leave_effect[OF k(1) runs, of g w clr all] unfolding v' Let_def if_P[OF b25] by blast
  moreover have "satisfied (?v AND NOT eventEVENT_BITS_CONTROL_BYTES) r"
  proof -
    have wr: "wanted r AND NOT eventEVENT_BITS_CONTROL_BYTES = wanted r"
      using t(1) by (auto simp: group_of_def request_of_def and.assoc split: if_splits)
    have "wanted r AND (?v AND NOT eventEVENT_BITS_CONTROL_BYTES) = (wanted r AND NOT eventEVENT_BITS_CONTROL_BYTES) AND ?v"
      by (simp only: ac_simps)
    then show ?thesis using t(2) unfolding satisfied_word gb wr by simp
  qed
  moreover have "is_ready (ekn s1) t" using woke_ready[OF x(3), of t] tW x1 by simp
  ultimately show ?thesis unfolding gb i by auto
qed

theorem event_waiter_gets_bits_witness:
  "\<exists>s s1 s' s''. waiting (group_of 0 s) 1 = Some \<lparr>wanted = 1, clear_on_exit = True, want_all = True\<rparr> \<and>
     xEventGroupSetBits 0 3 s = Some s1 \<and> uxEventBits s1 0 = 2 \<and> meanwhile 0 {1, 0} 1 {0} s1 {0} s' \<and>
     xEventGroupWaitBits_leave 0 1 True True s' = Some (3, s'')"
proof -
  obtain s where s: "kernel_ok 0 {1, 0} {0} (ekn s)" "uxSchedulerSuspended (ekn s) = 0" "pxCurrentTCB (ekn s) = Some 0" "is_ready (ekn s) 0"
    "group_of 0 s = \<lparr>group_bits = 0, waiting = [1 \<mapsto> \<lparr>wanted = 1, clear_on_exit = True, want_all = True\<rparr>]\<rparr>"
    "\<not> is_ready (ekn s) 1" "uxPriority (ekn s) 0 < uxPriority (ekn s) 1" "\<not> pendsv (ekn s)"
    by (rule example_waiter)
  let ?r = "\<lparr>wanted = 1, clear_on_exit = True, want_all = True\<rparr> :: wait_request"
  have sus: "uxSchedulerSuspended (ekn s) + 1 \<noteq> 0" and g: "0 \<in> {0 :: nat}" using s(2) by simp_all
  have gb: "uxEventBits s 0 = 0" using s(5) by (simp add: group_of_def)
  have sat: "satisfied 3 ?r" by (simp add: satisfied_word)
  have W: "satisfied_by (uxEventBits s 0 OR 3) (group_of 0 s) = {1}" using sat unfolding gb s(5) by (simp add: satisfied_by_def)
  obtain s1 where s1: "xEventGroupSetBits 0 3 s = Some s1" "kernel_ok 0 {1, 0} {0} (ekn s1)"
    "group_set 3 (group_of 0 s) (group_of 0 s1)"
    "woke (satisfied_by (uxEventBits s 0 OR 3) (group_of 0 s))
       (uxEventBits s 0 OR 3 OR eventUNBLOCKED_DUE_TO_BIT_SET OR taskEVENT_LIST_ITEM_VALUE_IN_USE) (ekn s) (ekn s1)"
    "uxSchedulerSuspended (ekn s) = 0 \<longrightarrow> xYieldPending (ekn s1) \<longrightarrow> pendsv (ekn s1)"
    using set_bits_effect[OF s(1) sus s(3,4) g, of 3] by (elim exE conjE) (rule that)
  have f: "uxPriority (ekn s1) = uxPriority (ekn s)" "uxSchedulerSuspended (ekn s1) = 0" "pxCurrentTCB (ekn s1) = Some 0" "is_ready (ekn s1) 1"
    using s1(4) s(2,3) woke_ready[OF s1(4), of 1] unfolding W by (simp_all add: woke_def)
  have p: "pendsv (ekn s1)" using s1(2,5) f s(2,7) unfolding kernel_ok_def prio_inv_def by auto
  obtain c k2 where k2: "xPortPendSVHandler (ekn s1) = Some k2" "pxCurrentTCB k2 = Some c" "c \<in> {1, 0}"
    "\<forall>t. is_ready (ekn s1) t \<longrightarrow> uxPriority (ekn s1) t \<le> uxPriority (ekn s1) c"
    using switch_effect[OF s1(2) f(2)] by (elim exE conjE) (rule that)
  have c: "c = 1" using k2(3,4) f(1,4) s(7) by (metis empty_iff insert_iff not_le)
  have m: "meanwhile 0 {1, 0} 1 {0} s1 {0} (s1\<lparr>ekn := k2\<rparr>)"
    using meanwhile.step[OF meanwhile.refl, of "Kernel PendSV" 0 "{1, 0}" "{0}" s1 1 "s1\<lparr>ekn := k2\<rparr>"] k2(1) p
    by (simp add: allowed_def)
  have b: "bit (3 :: 32 word) n \<and> \<not> bit (1 :: 32 word) n \<longleftrightarrow> bit (2 :: 32 word) n" for n
    by (cases n) (simp_all add: bit_Suc)
  have "bit (uxEventBits s1 0) n \<longleftrightarrow> bit (3 :: 32 word) n \<and> \<not> bit (1 :: 32 word) n" for n
    using s1(3) s(5) sat by (simp add: group_set_def) (simp add: group_of_def)
  then have e: "uxEventBits s1 0 = 2" using b by (intro bit_word_eqI) blast
  note set = s1(1)
  have t: "waiting (group_of 0 s) 1 = Some ?r" "satisfied (group_bits (group_of 0 s) OR 3) ?r" using s(5) sat by simp_all
  have runs: "pxCurrentTCB (ekn (s1\<lparr>ekn := k2\<rparr>)) = Some 1" using k2(2) c by simp
  have "group_bits (group_of 0 s) OR 3 = 3" using s(5) by simp
  then obtain s'' where "xEventGroupWaitBits_leave 0 1 True True (s1\<lparr>ekn := k2\<rparr>) = Some (3, s'')"
    using event_waiter_gets_bits[OF s(1-4) g t set m runs, of 1 True True] by (auto simp: eventEVENT_BITS_CONTROL_BYTES_def)
  then show ?thesis using t(1) set e m by blast
qed

end
