(* ===== verification/Spec2Isabelle.thy ===== *)
theory Spec2Isabelle
  imports MBSystem FRList FRHeap MemPool FRSystem FRQueueSet FREventSys
begin

text \<open>
  A verification library of the STM32F407 firmware: the FreeModbus slave, the FreeRTOS kernel the
  firmware is built on, and the board's memory pools.

  The program.  A Modbus slave answers requests on USART2.  The receive interrupt and the timer of 3.5
  characters drive the RTU state machines, which post events to a mailbox of one slot; the main loop polls
  \<open>mb.c\<close>, which checks address and CRC through the framing layer, dispatches to the handler of the
  function code, and sends the answer through the transmit interrupt.  The handlers reach the register file
  of \<open>modbus.c\<close> through four callbacks.  The other demonstrations of the firmware run as FreeRTOS
  tasks: \<open>tasks.c\<close> schedules them over the lists of \<open>list.c\<close>, \<open>queue.c\<close> passes
  items between tasks and interrupts over the event lists of the scheduler, \<open>event_groups.c\<close> lets tasks
  wait for combinations of bits, and \<open>heap_4.c\<close> gives memory.  \<open>System/malloc.c\<close> is the board's own allocator of memory pools, beside the kernel's heap.

  Conventions.  C integers are words of their width, so that wrap-around is that of the code; C arrays and
  buffers are byte lists read and written through checked accesses (\<open>CPrelude\<close>); a NULL dereference, an
  access outside an array or a loop that does not end is the value None, so that a theorem that a function
  returns Some says that the code does none of this.  Static variables are fields of records, one record extending the one
  below it.

  Steps.  A function that runs with interrupts masked, or touches nothing that an interrupt touches, is one step.
  \<open>eMBPoll\<close> is split into the steps of \<open>poll_step\<close>, with interrupts between them: fetching the event, taking the
  frame, address, handler, answer.  The handler of a request is one step: interrupts read neither the register files nor the
  frame then.  The other calls of \<open>mb.c\<close> (\<open>eMBInit\<close>, \<open>eMBEnable\<close>, \<open>eMBDisable\<close>, \<open>eMBClose\<close>) are one step each: their work on the
  framing layer and the peripherals is one critical section, and the state of the stack they set beside it
  is read by no interrupt.  The blocking calls of \<open>queue.c\<close> are split at every point at which they enable interrupts
  (\<open>queue_step\<close>).  A call of the scheduler, such as \<open>vTaskDelay\<close>, is one step, although it enables interrupts while the
  scheduler is suspended: what interrupts do then is held back (pended ticks, pending ready list) until it is resumed,
  and that is covered where the suspension itself is a call (\<open>SuspendAll\<close>, \<open>ResumeAll\<close>), not inside of other calls.  The
  calls of event groups are one step up to the resumption of the scheduler and one for the rest, for the same reason.

  Modbus (\<open>src/Driver/FreeModbus\<close>).
  \<^item> \<open>MBTypes\<close>: the enumerations of the headers, \<open>prveMBError2Exception\<close>.
  \<^item> \<open>MBCrc\<close>: \<open>usMBCRC16\<close> with its tables; equal to the bitwise CRC, detects every burst
    of up to 16 bits.
  \<^item> \<open>MBUtils\<close>: \<open>xMBUtilSetBits\<close>, \<open>xMBUtilGetBits\<close>.
  \<^item> \<open>MBRegs\<close>: the four register files of \<open>modbus.c\<close> and their callbacks.  The coils and discrete inputs are two bytes
    each, as declared; \<open>xMBUtilSetBits\<close> and \<open>xMBUtilGetBits\<close> access the byte behind the addressed one as well, so an access
    to coil 9 or beyond leaves the array: the callbacks are None exactly then (\<open>read_overrun\<close>, \<open>write_overrun\<close>).
  \<^item> \<open>MBFunc\<close>: the handlers \<open>mbfunc*.c\<close>, each on every branch, and that a handler leaves its buffer or an array
    exactly for the requests of \<open>overruns\<close>.
  \<^item> \<open>MBPort\<close>: mailbox, USART, timer and the direction pin of the RS485 driver; the locale
    \<open>event_mailbox\<close> is interpreted on the mailbox.
  \<^item> \<open>MBRtu\<close>, \<open>MBAscii\<close>, \<open>MBTcp\<close>: the framing layers as interrupt-driven state machines; reachable states
    are safe, a frame that is sent is received.
  \<^item> \<open>MBStack\<close>: \<open>mb.c\<close>; the locale \<open>frame_iface\<close> states what the stack relies on and is
    interpreted on the RTU and the ASCII layer.  \<open>MBSystem\<close>: the whole slave as a step relation over hardware, interrupts,
    calls and the steps of the main loop, its invariant, that a step fails only at a request of \<open>overruns\<close>, and the answer to
    every other request.

  Kernel (\<open>src/Driver/FreeRTOS/Source\<close>).
  \<^item> \<open>FRList\<close>, \<open>FRListOps\<close>: the circular lists and the inline macros of \<open>list.h\<close>; each operation refines the
    operation on the sequence of items it stands for (locale \<open>ordered_lists\<close>).
  \<^item> \<open>FRHeap\<close>: \<open>heap_4.c\<close> as a tiling of the heap; allocation is first fit, freeing merges
    neighbours, every reachable heap is well formed.
  \<^item> \<open>FRTask\<close>: the functions of \<open>tasks.c\<close> and the two exception handlers of \<open>port.c\<close> that it works with.
    \<open>FRSched\<close>: the invariant \<open>kernel_ok\<close> (lists, ready bitmap, delay lists, current task) and that the operations
    keep it.  \<open>FRKernel\<close>: waiting, waking, inheritance, start-up.  \<open>FRSystem\<close>: all calls as a transition
    relation; every allowed call of every reachable state returns; the highest ready priority runs, delays are
    exact, ticks of a suspended scheduler are caught up.  \<open>FRCalm\<close>: the calls that put no task on an
    event list, and what every call leaves of a task that has left its event list.
  \<^item> \<open>FRQueue\<close>: \<open>queue.c\<close>.  The four blocking functions are one loop (\<open>queue_step\<close>), a step for every
    section between two points at which interrupts are enabled; the attempts are the critical sections that succeed or fail.
    \<open>FRRing\<close>: the storage as a ring buffer and the list of items it holds.  \<open>FRQueueSys\<close>: the invariant
    \<open>world_ok\<close> of the queues, their locks, the calls in progress and the waiting tasks, in which each item and each free slot
    is matched by a task that will try for it or by a wake-up counted in the lock.  \<open>FRQueueRun\<close>: every step
    of calls and interrupts keeps it.  \<open>FRQueueReach\<close>: histories; each refines a bounded list, is first in first out,
    loses no wake-up.  \<open>FRQueueSet\<close>: creation on every branch, queue sets, recursive mutexes.
  \<^item> \<open>FREvent\<close>: \<open>event_groups.c\<close>, the waiting functions split where the task blocks.  \<open>FREventRun\<close>: the loops that wake the waiters,
    over lists that change under them.  \<open>FREventGroup\<close>: a group as a set of bits and of requests, and that setting,
    waiting and synchronising refine it.  \<open>FREventSys\<close>: histories of event groups with the calls in progress: every step the
    callers may make is defined, the waiters of a deleted group return without touching its memory, and the bits
    a waiter was woken with are what its call returns.

  Memory pools (\<open>src/Driver/System/malloc.c\<close>): \<open>MemPool\<close>, the block tables and the set of live
  allocations each stands for.

  Bounds and fuel.  Loops over data recurse on it; the loops of the scheduler whose end depends on the lists
  are \<open>partial_function (option)\<close>, and the theorems show that they return.  The inner loops of \<open>prvUnlockQueue\<close>
  take their count from a lock, at most 127; \<open>list.c\<close>'s insertion loop is shown to end in as many steps as the list
  has items.  The histories of the queues assume at most 127 tasks, the range of a lock
  (\<open>lock_wraps\<close> shows what happens beyond).  The properties of histories cover queues and semaphores in no set;
  mutexes and sets have properties of their own operations.

  Not modelled.  The rest of the port layer (assembly and register access), the peripheral library, pin and clock set-up,
  display and board drivers (pure input and output), lwIP, FatFs, emWin and the USB stack (third-party libraries
  the firmware calls), and the demonstration code of \<open>src/User\<close>.  Of the kernel: software timers and stream
  buffers, which the scheduler, the queues and the event groups do not depend on; functions that \<open>FreeRTOSConfig.h\<close> switches off;
  stack frames and context contents (a context switch changes the current task); task names and run-time statistics.
  vTaskPlaceOnEventList runs with the scheduler suspended and interrupts enabled and is taken as one
  step: interrupts touch neither the delay lists nor, the queue being locked, its event lists then.
\<close>

end
